(* ===== verification/Prelude.thy ===== *)
theory Prelude
  imports Main "HOL-Library.Word" "HOL-Library.Monad_Syntax"
begin

text \<open>
  Shared vocabulary of the development: machine integer types, the C string routines the
  sources call, little-endian byte codecs, and the generic list lemmas the component theories
  use.

  Conventions.
  \<^item> A C string is the list of its characters before the terminating NUL.
  \<^item> A memory buffer or a file is a list of bytes.
  \<^item> An operation that reads or writes outside an object, dereferences a null pointer or
    otherwise leaves the behaviour the C standard defines returns \<^term>\<open>None\<close>; a return code
    or an error path of the source is a value under \<^term>\<open>Some\<close>. The monad of \<^typ>\<open>'a option\<close>
    sequences such operations.
  \<^item> The data model is LP64: \<open>int\<close> has 32 bits, \<open>long\<close>, \<open>size_t\<close>, \<open>ssize_t\<close> and \<open>off_t\<close> have 64.
    Plain \<open>char\<close> is unsigned, as on the ARM targets of the repository.
\<close>

section \<open>Types and collections\<close>

unbundle bit_operations_syntax

type_synonym byte = "8 word"
type_synonym u16 = "16 word"
type_synonym u32 = "32 word"
type_synonym u64 = "64 word"

type_synonym buffer = "byte list"

named_theorems codec_simps \<open>byte codec equations\<close>
named_theorems inv_intros \<open>introduction rules for component invariants\<close>

section \<open>Lists\<close>

lemma nth_split:
  assumes "i < length xs"
  shows "xs = take i xs @ xs ! i # drop (Suc i) xs"
  using assms by (simp add: id_take_nth_drop)

lemma take_add_append:
  "take (m + n) xs = take m xs @ take n (drop m xs)"
  by (simp add: take_add)

lemma drop_take_append_drop:
  assumes "i \<le> j" "j \<le> length xs"
  shows "drop i (take j xs) @ drop j xs = drop i xs"
  using assms by (metis append_take_drop_id drop_append length_take min.absorb2 diff_is_0_eq drop0)

lemma length_filter_update:
  assumes "i < length xs"
  shows "length (filter P (xs[i := y])) + (if P (xs ! i) then 1 else 0)
           = length (filter P xs) + (if P y then 1 else 0)"
proof -
  have "length (filter P xs) = length (filter P (take i xs @ xs ! i # drop (Suc i) xs))"
    using nth_split [OF assms] by simp
  then have "length (filter P xs) = length (filter P (take i xs))
      + (if P (xs ! i) then 1 else 0) + length (filter P (drop (Suc i) xs))"
    by simp
  moreover have "length (filter P (xs[i := y])) = length (filter P (take i xs))
      + (if P y then 1 else 0) + length (filter P (drop (Suc i) xs))"
    using assms by (simp add: upd_conv_take_nth_drop)
  ultimately show ?thesis by simp
qed

lemma filter_length_less:
  assumes "length (filter P xs) < length xs"
  shows "\<exists>i < length xs. \<not> P (xs ! i)"
proof (rule ccontr)
  assume "\<not> ?thesis"
  then have "filter P xs = xs"
    by (metis (no_types, lifting) filter_True in_set_conv_nth)
  with assms show False by simp
qed

section \<open>Little-endian codecs\<close>

text \<open>
  \<open>le_nat\<close> reads a byte list as an unsigned number, least significant byte first;
  \<open>le_bytes n v\<close> writes the \<open>n\<close> low bytes of \<open>v\<close> that way. The byte-assembling code of the
  sources is related to these two.
\<close>

primrec le_nat :: "buffer \<Rightarrow> nat" where
  "le_nat [] = 0"
| "le_nat (b # bs) = unat b + 256 * le_nat bs"

primrec le_bytes :: "nat \<Rightarrow> nat \<Rightarrow> buffer" where
  "le_bytes 0 v = []"
| "le_bytes (Suc n) v = word_of_nat (v mod 256) # le_bytes n (v div 256)"

lemma length_le_bytes [simp]: "length (le_bytes n v) = n"
  by (induction n arbitrary: v) simp_all

lemma unat_byte_less [simp]: "unat (b :: byte) < 256"
  using unsigned_less [of b] by simp

lemma unat_byte_of_mod [simp]: "unat (word_of_nat (v mod 256) :: byte) = v mod 256"
  by (simp add: unat_of_nat)

lemma le_nat_bound: "le_nat bs < 256 ^ length bs"
proof (induction bs)
  case Nil
  then show ?case by simp
next
  case (Cons b bs)
  have "unat b + 256 * le_nat bs < 256 * (le_nat bs + 1)"
    using unat_byte_less [of b] by simp
  also have "\<dots> \<le> 256 * 256 ^ length bs"
    using Cons.IH by simp
  finally show ?case by simp
qed

lemma le_nat_le_bytes [codec_simps]: "le_nat (le_bytes n v) = v mod 256 ^ n"
proof (induction n arbitrary: v)
  case 0
  then show ?case by simp
next
  case (Suc n)
  have "v mod 256 + 256 * (v div 256 mod 256 ^ n) = v mod (256 * 256 ^ n)"
    by (simp add: mod_mult2_eq)
  with Suc.IH show ?case by simp
qed

lemma le_bytes_le_nat [codec_simps]: "le_bytes (length bs) (le_nat bs) = bs"
proof (induction bs)
  case Nil
  then show ?case by simp
next
  case (Cons b bs)
  have "(unat b + 256 * le_nat bs) mod 256 = unat b"
    by simp
  moreover have "(unat b + 256 * le_nat bs) div 256 = le_nat bs"
    using unat_byte_less [of b] by simp
  ultimately show ?case using Cons.IH by simp
qed

lemma le_nat_append: "le_nat (xs @ ys) = le_nat xs + 256 ^ length xs * le_nat ys"
  by (induction xs) (simp_all add: algebra_simps)

section \<open>C strings\<close>

text \<open>
  \<open>strcmp\<close> compares by unsigned character values; the standard fixes only the sign of its
  result.
\<close>

fun strcmp :: "string \<Rightarrow> string \<Rightarrow> int" where
  "strcmp [] [] = 0"
| "strcmp [] (b # bs) = -1"
| "strcmp (a # as) [] = 1"
| "strcmp (a # as) (b # bs) =
     (if a = b then strcmp as bs
      else if (of_char a :: nat) < of_char b then -1 else 1)"

lemma strcmp_eq_0 [simp]: "strcmp s t = 0 \<longleftrightarrow> s = t"
  by (induction s t rule: strcmp.induct) auto

lemma strcmp_antisym: "strcmp s t = - strcmp t s"
  by (induction s t rule: strcmp.induct) (auto simp: not_less le_less)

lemma strcmp_less_trans: "strcmp s t < 0 \<Longrightarrow> strcmp t u < 0 \<Longrightarrow> strcmp s u < 0"
proof (induction s t arbitrary: u rule: strcmp.induct)
  case (2 b bs)
  then show ?case by (cases u) auto
next
  case (4 a as b bs)
  then show ?case by (cases u) (auto split: if_splits)
qed auto

lemma strcmp_pos_iff: "strcmp s t > 0 \<longleftrightarrow> strcmp t s < 0"
  using strcmp_antisym [of s t] by linarith

text \<open>\<open>strncmp s t n\<close> compares at most the first \<open>n\<close> characters.\<close>

definition strncmp :: "string \<Rightarrow> string \<Rightarrow> nat \<Rightarrow> int" where
  "strncmp s t n = strcmp (take n s) (take n t)"

lemma strncmp_eq_0: "strncmp s t n = 0 \<longleftrightarrow> take n s = take n t"
  by (simp add: strncmp_def)

text \<open>\<open>strstr\<close>: the position of the first occurrence of \<open>needle\<close>, if any.\<close>

fun has_prefix :: "'a list \<Rightarrow> 'a list \<Rightarrow> bool" where
  "has_prefix [] ys = True"
| "has_prefix (x # xs) [] = False"
| "has_prefix (x # xs) (y # ys) = (x = y \<and> has_prefix xs ys)"

lemma has_prefix_iff: "has_prefix xs ys \<longleftrightarrow> (\<exists>zs. ys = xs @ zs)"
  by (induction xs ys rule: has_prefix.induct) auto

lemma has_prefix_take: "has_prefix xs ys \<longleftrightarrow> take (length xs) ys = xs"
  by (induction xs ys rule: has_prefix.induct) auto

fun strstr :: "string \<Rightarrow> string \<Rightarrow> nat option" where
  "strstr [] needle = (if needle = [] then Some 0 else None)"
| "strstr (c # cs) needle =
     (if has_prefix needle (c # cs) then Some 0 else map_option Suc (strstr cs needle))"

lemma strstr_None_iff: "strstr hay needle = None \<longleftrightarrow> (\<nexists>us vs. hay = us @ needle @ vs)"
proof (induction hay needle rule: strstr.induct)
  case (1 needle)
  then show ?case by auto
next
  case (2 c cs needle)
  show ?case
  proof (cases "has_prefix needle (c # cs)")
    case True
    then obtain zs where "c # cs = [] @ needle @ zs"
      by (auto simp: has_prefix_iff)
    with True show ?thesis by (metis option.distinct(1) strstr.simps(2))
  next
    case False
    then have "(\<exists>us vs. c # cs = us @ needle @ vs) \<longleftrightarrow> (\<exists>us vs. cs = us @ needle @ vs)"
      by (auto simp: has_prefix_iff Cons_eq_append_conv)
    with False 2 show ?thesis by simp
  qed
qed

text \<open>\<open>strchr\<close>: the suffix that starts at the first occurrence of a character.\<close>

definition strchr :: "string \<Rightarrow> char \<Rightarrow> string option" where
  "strchr s c = (if c \<in> set s then Some (dropWhile (\<lambda>x. x \<noteq> c) s) else None)"

subsection \<open>Numbers in strings\<close>

definition isspace :: "char \<Rightarrow> bool" where
  "isspace c \<longleftrightarrow> c = CHR '' '' \<or> (9 \<le> (of_char c :: nat) \<and> (of_char c :: nat) \<le> 13)"

definition isdigit :: "char \<Rightarrow> bool" where
  "isdigit c \<longleftrightarrow> 48 \<le> (of_char c :: nat) \<and> (of_char c :: nat) \<le> 57"

definition digit_val :: "char \<Rightarrow> int" where
  "digit_val c = int (of_char c) - 48"

definition LONG_MAX :: int where "LONG_MAX = 2 ^ 63 - 1"
definition LONG_MIN :: int where "LONG_MIN = - (2 ^ 63)"

text \<open>
  \<open>strtol (s, &end, 10)\<close>: white space, an optional sign, digits; the value saturates at the
  bounds of \<open>long\<close>. The second component is the text at \<open>end\<close>, which is the whole string
  when no digit is found.
\<close>

definition strtol10 :: "string \<Rightarrow> int \<times> string" where
  "strtol10 s =
     (let t = dropWhile isspace s;
          neg = (case t of c # _ \<Rightarrow> c = CHR ''-'' | [] \<Rightarrow> False);
          u = (case t of c # cs \<Rightarrow> if c = CHR ''-'' \<or> c = CHR ''+'' then cs else t | [] \<Rightarrow> t);
          ds = takeWhile isdigit u;
          v = foldl (\<lambda>a c. 10 * a + digit_val c) 0 ds
      in if ds = [] then (0, s)
         else (max LONG_MIN (min LONG_MAX (if neg then - v else v)), dropWhile isdigit u))"

text \<open>Conversion of a \<open>long\<close> to a 32-bit \<open>int\<close>.\<close>

definition to_int32 :: "int \<Rightarrow> int" where
  "to_int32 v = sint (word_of_int v :: 32 word)"

lemma to_int32_id: "- (2 ^ 31) \<le> n \<Longrightarrow> n < 2 ^ 31 \<Longrightarrow> to_int32 n = n"
  by (simp add: to_int32_def signed_of_int signed_take_bit_int_eq_self)

lemma to_int32_range: "- (2 ^ 31) \<le> to_int32 n" "to_int32 n < 2 ^ 31"
  using sint_ge [of "word_of_int n :: 32 word"] sint_lt [of "word_of_int n :: 32 word"]
  by (simp_all add: to_int32_def)

lemma strtol10_range: "LONG_MIN \<le> fst (strtol10 s) \<and> fst (strtol10 s) \<le> LONG_MAX"
  by (auto simp: strtol10_def Let_def LONG_MIN_def LONG_MAX_def)

subsection \<open>Decimal output\<close>

text \<open>The text \<open>printf\<close> produces for \<open>%d\<close>.\<close>

fun dec_nat :: "nat \<Rightarrow> string" where
  "dec_nat n = (if n < 10 then [char_of (48 + n)] else dec_nat (n div 10) @ [char_of (48 + n mod 10)])"

declare dec_nat.simps [simp del]

definition dec_int :: "int \<Rightarrow> string" where
  "dec_int v = (if v < 0 then CHR ''-'' # dec_nat (nat (- v)) else dec_nat (nat v))"

lemma of_char_digit: "d < 10 \<Longrightarrow> (of_char (char_of (48 + d) :: char) :: nat) = 48 + d"
  by simp

lemma dec_nat_digits: "c \<in> set (dec_nat n) \<Longrightarrow> isdigit c"
proof (induction n arbitrary: c rule: dec_nat.induct)
  case (1 n)
  then show ?case
    by (subst (asm) (2) dec_nat.simps)
      (auto simp: isdigit_def of_char_digit less_imp_le_nat split: if_splits)
qed

lemma dec_nat_nonempty [simp]: "dec_nat n \<noteq> []"
  by (subst dec_nat.simps) simp

lemma dec_nat_value: "foldl (\<lambda>a c. 10 * a + digit_val c) 0 (dec_nat n) = int n"
proof (induction n rule: dec_nat.induct)
  case (1 n)
  show ?case
  proof (cases "n < 10")
    case True
    then show ?thesis by (subst dec_nat.simps) (simp add: digit_val_def)
  next
    case False
    have "10 * int (n div 10) + int (n mod 10) = int n"
      by (metis mult_div_mod_eq of_nat_add of_nat_mult of_nat_numeral)
    with False 1 show ?thesis by (subst dec_nat.simps) (simp add: digit_val_def)
  qed
qed

lemma dec_nat_hd: "isdigit (hd (dec_nat n))"
  by (rule dec_nat_digits [OF hd_in_set]) simp

lemma isdigit_not_sign: "isdigit c \<Longrightarrow> c \<noteq> CHR ''-'' \<and> c \<noteq> CHR ''+'' \<and> \<not> isspace c"
  by (auto simp: isdigit_def isspace_def)

lemma takeWhile_digits: "takeWhile isdigit (dec_nat n) = dec_nat n" "dropWhile isdigit (dec_nat n) = []"
  using dec_nat_digits by (auto simp: takeWhile_eq_all_conv dropWhile_eq_Nil_conv)

lemma strtol10_dec_nat:
  assumes "int n \<le> LONG_MAX"
  shows "strtol10 (dec_nat n) = (int n, [])"
proof -
  obtain c cs where c: "dec_nat n = c # cs"
    by (meson dec_nat_nonempty list.exhaust)
  then have d: "isdigit c" using dec_nat_hd [of n] by simp
  have "0 \<le> LONG_MAX" "LONG_MIN \<le> 0" by (simp_all add: LONG_MAX_def LONG_MIN_def)
  then show ?thesis
    using assms isdigit_not_sign [OF d] takeWhile_digits [of n] dec_nat_value [of n] c
    by (simp add: strtol10_def)
qed

lemma strtol10_dec_int:
  assumes "LONG_MIN \<le> v" "v \<le> LONG_MAX"
  shows "strtol10 (dec_int v) = (v, [])"
proof (cases "v < 0")
  case True
  have "\<not> isspace (CHR ''-'')" by (simp add: isspace_def)
  with True assms show ?thesis
    by (simp add: strtol10_def dec_int_def LONG_MAX_def Let_def takeWhile_digits dec_nat_value)
next
  case False
  with assms show ?thesis
    using strtol10_dec_nat [of "nat v"] by (simp add: dec_int_def)
qed

section \<open>Text in buffers\<close>

definition chars :: "buffer \<Rightarrow> string" where
  "chars bs = map (\<lambda>b. char_of (unat b)) bs"

definition bytes_of :: "string \<Rightarrow> buffer" where
  "bytes_of s = map (\<lambda>c. word_of_nat (of_char c)) s"

lemma chars_bytes_of [simp]: "chars (bytes_of s) = s"
proof -
  have "char_of (unat (word_of_nat (of_char c) :: byte)) = c" for c :: char
  proof -
    have "(of_char c :: nat) < 2 ^ 8" by simp
    then have "unat (word_of_nat (of_char c) :: byte) = of_char c" by (simp only: unat_of_nat) (simp add: take_bit_nat_eq_self)
    then show ?thesis by simp
  qed
  then show ?thesis by (simp add: chars_def bytes_of_def map_idI)
qed

lemma length_bytes_of [simp]: "length (bytes_of s) = length s"
  by (simp add: bytes_of_def)

end
