(* ===== verification/ByteIO.thy ===== *)
theory ByteIO
  imports Prelude
begin

text \<open>
  The byte-level integer codecs of the repository: \<open>applypatch/utils.c\<close> (\<open>Read2\<close> to
  \<open>Write8\<close>), \<open>minzip/Bits.h\<close> (\<open>get\<close>, \<open>read\<close> and \<open>set\<close> in both byte orders) and the
  sign-magnitude \<open>offtin\<close>/\<open>offtout\<close> pair of the bsdiff format. The locale \<open>fixed_codec\<close>
  states what a fixed-width field codec promises; each get/set pair of \<open>Bits.h\<close> is an
  interpretation of it.
\<close>

section \<open>applypatch/utils.c\<close>

text \<open>A \<open>FILE*\<close> opened for writing is the list of the bytes written so far.\<close>

definition Write4 :: "32 word \<Rightarrow> buffer \<Rightarrow> buffer" where
  "Write4 value f = f @
     [ucast (value AND 0xff),
      ucast (signed_drop_bit 8 value AND 0xff),
      ucast (signed_drop_bit 16 value AND 0xff),
      ucast (signed_drop_bit 24 value AND 0xff)]"

definition Write8 :: "64 word \<Rightarrow> buffer \<Rightarrow> buffer" where
  "Write8 value f = f @
     [ucast (value AND 0xff),
      ucast (signed_drop_bit 8 value AND 0xff),
      ucast (signed_drop_bit 16 value AND 0xff),
      ucast (signed_drop_bit 24 value AND 0xff),
      ucast (signed_drop_bit 32 value AND 0xff),
      ucast (signed_drop_bit 40 value AND 0xff),
      ucast (signed_drop_bit 48 value AND 0xff),
      ucast (signed_drop_bit 56 value AND 0xff)]"

fun Read2 :: "buffer \<Rightarrow> 32 word option" where
  "Read2 (p0 # p1 # _) = Some (push_bit 8 (ucast p1) OR ucast p0)"
| "Read2 _ = None"

fun Read4 :: "buffer \<Rightarrow> 32 word option" where
  "Read4 (p0 # p1 # p2 # p3 # _) =
     Some (push_bit 24 (ucast p3) OR push_bit 16 (ucast p2) OR push_bit 8 (ucast p1) OR ucast p0)"
| "Read4 _ = None"

fun Read8 :: "buffer \<Rightarrow> 64 word option" where
  "Read8 (p0 # p1 # p2 # p3 # p4 # p5 # p6 # p7 # _) =
     Some (push_bit 56 (ucast p7) OR push_bit 48 (ucast p6) OR push_bit 40 (ucast p5)
       OR push_bit 32 (ucast p4) OR push_bit 24 (ucast p3) OR push_bit 16 (ucast p2)
       OR push_bit 8 (ucast p1) OR ucast p0)"
| "Read8 _ = None"

section \<open>minzip/Bits.h: fixed-position access\<close>

fun get1 :: "buffer \<Rightarrow> byte option" where
  "get1 (a # _) = Some a"
| "get1 _ = None"

fun get2BE :: "buffer \<Rightarrow> u16 option" where
  "get2BE (a # b # _) = Some (push_bit 8 (ucast a) OR ucast b)"
| "get2BE _ = None"

fun get4BE :: "buffer \<Rightarrow> u32 option" where
  "get4BE (a # b # c # d # _) =
     Some (push_bit 24 (ucast a) OR push_bit 16 (ucast b) OR push_bit 8 (ucast c) OR ucast d)"
| "get4BE _ = None"

fun get8BE :: "buffer \<Rightarrow> u64 option" where
  "get8BE (a # b # c # d # e # f # g # h # _) =
     Some (push_bit 56 (ucast a) OR push_bit 48 (ucast b) OR push_bit 40 (ucast c)
       OR push_bit 32 (ucast d) OR push_bit 24 (ucast e) OR push_bit 16 (ucast f)
       OR push_bit 8 (ucast g) OR ucast h)"
| "get8BE _ = None"

fun get2LE :: "buffer \<Rightarrow> u16 option" where
  "get2LE (a # b # _) = Some (ucast a OR push_bit 8 (ucast b))"
| "get2LE _ = None"

fun get4LE :: "buffer \<Rightarrow> u32 option" where
  "get4LE (a # b # c # d # _) =
     Some (ucast a OR push_bit 8 (ucast b) OR push_bit 16 (ucast c) OR push_bit 24 (ucast d))"
| "get4LE _ = None"

fun get8LE :: "buffer \<Rightarrow> u64 option" where
  "get8LE (a # b # c # d # e # f # g # h # _) =
     Some (ucast a OR push_bit 8 (ucast b) OR push_bit 16 (ucast c) OR push_bit 24 (ucast d)
       OR push_bit 32 (ucast e) OR push_bit 40 (ucast f) OR push_bit 48 (ucast g)
       OR push_bit 56 (ucast h))"
| "get8LE _ = None"

fun set1 :: "buffer \<Rightarrow> byte \<Rightarrow> buffer option" where
  "set1 (_ # r) val = Some (val # r)"
| "set1 _ val = None"

fun set2BE :: "buffer \<Rightarrow> u16 \<Rightarrow> buffer option" where
  "set2BE (_ # _ # r) val = Some (ucast (drop_bit 8 val) # ucast val # r)"
| "set2BE _ val = None"

fun set4BE :: "buffer \<Rightarrow> u32 \<Rightarrow> buffer option" where
  "set4BE (_ # _ # _ # _ # r) val =
     Some (ucast (drop_bit 24 val) # ucast (drop_bit 16 val) # ucast (drop_bit 8 val) # ucast val # r)"
| "set4BE _ val = None"

fun set8BE :: "buffer \<Rightarrow> u64 \<Rightarrow> buffer option" where
  "set8BE (_ # _ # _ # _ # _ # _ # _ # _ # r) val =
     Some (ucast (drop_bit 56 val) # ucast (drop_bit 48 val) # ucast (drop_bit 40 val)
       # ucast (drop_bit 32 val) # ucast (drop_bit 24 val) # ucast (drop_bit 16 val)
       # ucast (drop_bit 8 val) # ucast val # r)"
| "set8BE _ val = None"

fun set2LE :: "buffer \<Rightarrow> u16 \<Rightarrow> buffer option" where
  "set2LE (_ # _ # r) val = Some (ucast val # ucast (drop_bit 8 val) # r)"
| "set2LE _ val = None"

fun set4LE :: "buffer \<Rightarrow> u32 \<Rightarrow> buffer option" where
  "set4LE (_ # _ # _ # _ # r) val =
     Some (ucast val # ucast (drop_bit 8 val) # ucast (drop_bit 16 val) # ucast (drop_bit 24 val) # r)"
| "set4LE _ val = None"

fun set8LE :: "buffer \<Rightarrow> u64 \<Rightarrow> buffer option" where
  "set8LE (_ # _ # _ # _ # _ # _ # _ # _ # r) val =
     Some (ucast val # ucast (drop_bit 8 val) # ucast (drop_bit 16 val)
       # ucast (drop_bit 24 val) # ucast (drop_bit 32 val) # ucast (drop_bit 40 val)
       # ucast (drop_bit 48 val) # ucast (drop_bit 56 val) # r)"
| "set8LE _ val = None"

section \<open>minzip/Bits.h: sequential access\<close>

text \<open>
  These take a pointer to the read position and advance it: the position is the list of the
  bytes that follow it.
\<close>

fun read1 :: "buffer \<Rightarrow> (byte \<times> buffer) option" where
  "read1 (a # r) = Some (a, r)"
| "read1 _ = None"

fun read2BE :: "buffer \<Rightarrow> (u16 \<times> buffer) option" where
  "read2BE (a # b # r) = Some (push_bit 8 (ucast a) OR ucast b, r)"
| "read2BE _ = None"

fun read4BE :: "buffer \<Rightarrow> (u32 \<times> buffer) option" where
  "read4BE (a # b # c # d # r) =
     Some (push_bit 24 (ucast a) OR push_bit 16 (ucast b) OR push_bit 8 (ucast c) OR ucast d, r)"
| "read4BE _ = None"

fun read8BE :: "buffer \<Rightarrow> (u64 \<times> buffer) option" where
  "read8BE (a # b # c # d # e # f # g # h # r) =
     Some (push_bit 56 (ucast a) OR push_bit 48 (ucast b) OR push_bit 40 (ucast c)
       OR push_bit 32 (ucast d) OR push_bit 24 (ucast e) OR push_bit 16 (ucast f)
       OR push_bit 8 (ucast g) OR ucast h, r)"
| "read8BE _ = None"

fun read2LE :: "buffer \<Rightarrow> (u16 \<times> buffer) option" where
  "read2LE (a # b # r) = Some (ucast a OR push_bit 8 (ucast b), r)"
| "read2LE _ = None"

fun read4LE :: "buffer \<Rightarrow> (u32 \<times> buffer) option" where
  "read4LE (a # b # c # d # r) =
     Some (ucast a OR push_bit 8 (ucast b) OR push_bit 16 (ucast c) OR push_bit 24 (ucast d), r)"
| "read4LE _ = None"

fun read8LE :: "buffer \<Rightarrow> (u64 \<times> buffer) option" where
  "read8LE (a # b # c # d # e # f # g # h # r) =
     Some (ucast a OR push_bit 8 (ucast b) OR push_bit 16 (ucast c) OR push_bit 24 (ucast d)
       OR push_bit 32 (ucast e) OR push_bit 40 (ucast f) OR push_bit 48 (ucast g)
       OR push_bit 56 (ucast h), r)"
| "read8LE _ = None"

text \<open>
  Length-prefixed UTF-8 strings. A read past the end of the source, or a pointer moved past its
  end, is undefined. \<open>readUtf8String\<close> returns the length found, the bytes stored in \<open>buf\<close>
  (the terminating 0 included) and the new position.
\<close>

definition skipUtf8String :: "buffer \<Rightarrow> buffer option" where
  "skipUtf8String src =
     do { (len, src1) \<leftarrow> read4BE src;
          if unat len \<le> length src1 then Some (drop (unat len) src1) else None }"

definition readUtf8String :: "buffer \<Rightarrow> u64 \<Rightarrow> (u32 \<times> buffer \<times> buffer) option" where
  "readUtf8String src bufLen =
     do { (len, src1) \<leftarrow> read4BE src;
          let copyLen = (if ucast len < bufLen then ucast len else bufLen - 1);
          if unat copyLen \<le> length src1 \<and> copyLen < bufLen \<and> unat len \<le> length src1
          then Some (len, take (unat copyLen) src1 @ [0], drop (unat len) src1) else None }"

definition readNewUtf8String :: "buffer \<Rightarrow> (buffer \<times> u32 \<times> buffer) option" where
  "readNewUtf8String src =
     do { (len, src1) \<leftarrow> read4BE src;
          if unat len < 2 ^ 32 - 1 \<and> unat len \<le> length src1
          then Some (take (unat len) src1 @ [0], len, drop (unat len) src1) else None }"

text \<open>
  \<open>str\<close> is a C string: its bytes before the terminating 0. \<open>length + 1\<close> in
  \<open>readNewUtf8String\<close> is computed in 32 bits, so a length of \<open>2\<^sup>32 - 1\<close> allocates nothing.
\<close>

definition setUtf8String :: "buffer \<Rightarrow> buffer \<Rightarrow> buffer option" where
  "setUtf8String buf str =
     do { let strLen = (word_of_nat (length str) :: u32);
          buf1 \<leftarrow> set4BE buf strLen;
          if 4 + unat strLen \<le> length buf1
          then Some (take 4 buf1 @ take (unat strLen) str @ drop (4 + unat strLen) buf1)
          else None }"

section \<open>applypatch/bspatch.c, applypatch/bsdiff.c: file offsets\<close>

text \<open>
  A bsdiff offset is eight bytes, little-endian magnitude with a sign bit. The magnitude has 63
  bits, so the arithmetic of \<open>offtin\<close> stays within \<open>off_t\<close>.
\<close>

fun offtin :: "buffer \<Rightarrow> int option" where
  "offtin (b0 # b1 # b2 # b3 # b4 # b5 # b6 # b7 # _) =
     (let y = uint (b7 AND 0x7F);
          y = y * 256; y = y + uint b6;
          y = y * 256; y = y + uint b5;
          y = y * 256; y = y + uint b4;
          y = y * 256; y = y + uint b3;
          y = y * 256; y = y + uint b2;
          y = y * 256; y = y + uint b1;
          y = y * 256; y = y + uint b0
      in Some (if b7 AND 0x80 \<noteq> 0 then - y else y))"
| "offtin _ = None"

text \<open>\<open>offtout\<close> fills an eight-byte buffer; negating the least \<open>off_t\<close> is undefined.\<close>

definition offtout :: "int \<Rightarrow> buffer option" where
  "offtout x =
     (if x \<le> LONG_MIN \<or> LONG_MAX < x then None
      else
        let y = (if x < 0 then - x else x);
            b0 = y mod 256; y = y - b0;
            y = y div 256; b1 = y mod 256; y = y - b1;
            y = y div 256; b2 = y mod 256; y = y - b2;
            y = y div 256; b3 = y mod 256; y = y - b3;
            y = y div 256; b4 = y mod 256; y = y - b4;
            y = y div 256; b5 = y mod 256; y = y - b5;
            y = y div 256; b6 = y mod 256; y = y - b6;
            y = y div 256; b7 = (word_of_int (y mod 256) :: byte)
        in Some [word_of_int b0, word_of_int b1, word_of_int b2, word_of_int b3, word_of_int b4,
                 word_of_int b5, word_of_int b6, if x < 0 then b7 OR 0x80 else b7])"

section \<open>Byte-wise assembly of words\<close>

text \<open>
  \<open>le_word\<close> assembles a word from bytes by shifting and or-ing, \<open>le_split\<close> takes one apart;
  every codec above is one of the two with the loop unrolled.
\<close>

primrec le_word :: "buffer \<Rightarrow> 'a::len word" where
  "le_word [] = 0"
| "le_word (b # bs) = ucast b OR push_bit 8 (le_word bs)"

primrec le_split :: "nat \<Rightarrow> 'a::len word \<Rightarrow> buffer" where
  "le_split 0 w = []"
| "le_split (Suc n) w = ucast w # le_split n (drop_bit 8 w)"

lemma length_le_split [simp]: "length (le_split n w) = n"
  by (induction n arbitrary: w) simp_all

lemma low_byte_or_high:
  "ucast (ucast w :: byte) OR push_bit 8 (take_bit k (drop_bit 8 w)) = take_bit (Suc 7 + k) (w :: 'a::len word)"
  apply (rule bit_word_eqI)
  apply (auto simp: bit_simps)
  done

lemma le_word_split: "le_word (le_split n w) = take_bit (8 * n) (w :: 'a::len word)"
proof (induction n arbitrary: w)
  case 0
  then show ?case by simp
next
  case (Suc n)
  then show ?case using low_byte_or_high [of w "8 * n"] by simp
qed

lemma ucast_or_push_bit_8:
  "ucast (b :: byte) OR push_bit 8 w = ucast b + 256 * (w :: 'a::len word)"
proof -
  have "\<not> bit (ucast b :: 'a word) n \<or> \<not> bit (push_bit 8 w) n" for n
    using bit_imp_le_length [of b n] by (auto simp: bit_simps)
  then have "ucast b OR push_bit 8 w = ucast b + push_bit 8 w"
    by (rule disjunctive_add [symmetric])
  then show ?thesis by (simp add: push_bit_eq_mult)
qed

lemma le_word_le_nat: "le_word bs = (word_of_nat (le_nat bs) :: 'a::len word)"
  by (induction bs) (simp_all add: ucast_or_push_bit_8 unsigned_ucast_eq)

lemma le_split_word:
  "8 * length bs \<le> LENGTH('a) \<Longrightarrow> le_split (length bs) (le_word bs :: 'a::len word) = bs"
proof (induction bs)
  case Nil
  then show ?case by simp
next
  case (Cons b bs)
  have "ucast (ucast b OR push_bit 8 (le_word bs) :: 'a word) = b"
    using Cons.prems by (intro bit_word_eqI) (auto simp: bit_simps)
  moreover have "drop_bit 8 (ucast b OR push_bit 8 (le_word bs) :: 'a word) = (le_word bs :: 'a word)"
  proof (rule bit_word_eqI)
    fix n assume "n < LENGTH('a)"
    have "bit (le_word bs :: 'a word) n \<Longrightarrow> n < 8 * length bs"
      using Cons.prems by (subst (asm) Cons.IH [symmetric])
        (auto simp: le_word_split bit_simps)
    then show "bit (drop_bit 8 (ucast b OR push_bit 8 (le_word bs) :: 'a word)) n
        = bit (le_word bs :: 'a word) n"
      using Cons.prems bit_imp_le_length [of b "8 + n"] by (auto simp: bit_simps)
  qed
  ultimately show ?case using Cons by simp
qed

lemma signed_shift_byte:
  fixes v :: "'a::len word"
  assumes "k + 8 \<le> LENGTH('a)"
  shows "ucast (signed_drop_bit k v) = (ucast (drop_bit k v) :: byte)"
  using assms by (intro bit_word_eqI) (auto simp: bit_simps)

lemma low_byte_mask:
  fixes v :: "'a::len word"
  assumes "8 \<le> LENGTH('a)"
  shows "ucast (v AND 0xff) = (ucast v :: byte)"
proof -
  have "v AND 0xff = take_bit 8 v"
    by (simp add: take_bit_eq_mask mask_eq_exp_minus_1)
  then show ?thesis
    using assms by (intro bit_word_eqI) (auto simp: bit_simps)
qed

lemma le_split_numeral [simp]:
  "le_split (numeral k) w = ucast w # le_split (pred_numeral k) (drop_bit 8 w)"
  by (simp add: numeral_eq_Suc)

lemmas word_assembly = push_bit_or or.assoc or.commute or.left_commute

lemma Read_le_word [codec_simps]:
  "Read2 (p0 # p1 # r) = Some (le_word [p0, p1])"
  "Read4 (p0 # p1 # p2 # p3 # r) = Some (le_word [p0, p1, p2, p3])"
  "Read8 (p0 # p1 # p2 # p3 # p4 # p5 # p6 # p7 # r) = Some (le_word [p0, p1, p2, p3, p4, p5, p6, p7])"
  by (simp_all add: word_assembly)

lemma Write_le_split [codec_simps]:
  "Write4 v f = f @ le_split 4 v"
  "Write8 w f = f @ le_split 8 w"
  by (simp_all add: Write4_def Write8_def low_byte_mask signed_shift_byte)

lemma get_le_word [codec_simps]:
  "get2LE (a # b # r) = Some (le_word [a, b])"
  "get4LE (a # b # c # d # r) = Some (le_word [a, b, c, d])"
  "get8LE (a # b # c # d # e # f # g # h # r) = Some (le_word [a, b, c, d, e, f, g, h])"
  "get2BE (a # b # r) = Some (le_word [b, a])"
  "get4BE (a # b # c # d # r) = Some (le_word [d, c, b, a])"
  "get8BE (a # b # c # d # e # f # g # h # r) = Some (le_word [h, g, f, e, d, c, b, a])"
  by (simp_all add: word_assembly)

lemma set_le_split [codec_simps]:
  "set2LE (x0 # x1 # r) u = Some (le_split 2 u @ r)"
  "set4LE (x0 # x1 # x2 # x3 # r) v = Some (le_split 4 v @ r)"
  "set8LE (x0 # x1 # x2 # x3 # x4 # x5 # x6 # x7 # r) w = Some (le_split 8 w @ r)"
  "set2BE (x0 # x1 # r) u = Some (rev (le_split 2 u) @ r)"
  "set4BE (x0 # x1 # x2 # x3 # r) v = Some (rev (le_split 4 v) @ r)"
  "set8BE (x0 # x1 # x2 # x3 # x4 # x5 # x6 # x7 # r) w = Some (rev (le_split 8 w) @ r)"
  by simp_all

section \<open>What a field codec promises\<close>

text \<open>
  A codec for a field of \<open>width\<close> bytes: \<open>put\<close> overwrites the first \<open>width\<close> bytes of a buffer
  with the encoding of a value and leaves the rest, \<open>get\<close> decodes them; both are undefined on a
  shorter buffer.
\<close>

locale fixed_codec =
  fixes width :: nat
    and enc :: "'v \<Rightarrow> buffer"
    and put :: "buffer \<Rightarrow> 'v \<Rightarrow> buffer option"
    and get :: "buffer \<Rightarrow> 'v option"
  assumes length_enc: "length (enc v) = width"
    and put_enc: "width \<le> length b \<Longrightarrow> put b v = Some (enc v @ drop width b)"
    and put_short: "length b < width \<Longrightarrow> put b v = None"
    and get_enc: "get (enc v @ r) = Some v"
    and get_short: "length b < width \<Longrightarrow> get b = None"
    and enc_onto: "length e = width \<Longrightarrow> \<exists>v. enc v = e"
begin

lemma put_defined_iff: "(\<exists>b'. put b v = Some b') \<longleftrightarrow> width \<le> length b"
  using put_enc put_short by (metis not_le option.distinct(1))

lemma get_put: "put b v = Some b' \<Longrightarrow> get b' = Some v"
  using put_defined_iff by (metis get_enc option.inject put_enc)

lemma put_frame: "put b v = Some b' \<Longrightarrow> length b' = length b \<and> drop width b' = drop width b"
  using put_defined_iff [of b v] by (auto simp: put_enc length_enc)

lemma get_defined_iff: "(\<exists>v. get b = Some v) \<longleftrightarrow> width \<le> length b"
proof
  assume "width \<le> length b"
  then obtain v where "enc v = take width b"
    using enc_onto [of "take width b"] by auto
  then have "get b = Some v"
    using get_enc [of v "drop width b"] by simp
  then show "\<exists>v. get b = Some v" ..
qed (use get_short in \<open>force simp: not_le [symmetric]\<close>)

lemma put_get: "get b = Some v \<Longrightarrow> put b v = Some b"
proof -
  assume g: "get b = Some v"
  then have w: "width \<le> length b"
    using get_defined_iff by blast
  then obtain u where u: "enc u = take width b"
    using enc_onto [of "take width b"] by auto
  then have "get b = Some u"
    using get_enc [of u "drop width b"] by simp
  with g have "u = v" by simp
  with w u show ?thesis by (simp add: put_enc)
qed

lemma put_put: "put b v = Some b' \<Longrightarrow> put b' w = put b w"
  using put_defined_iff put_frame by (metis put_enc)

end

lemma le_word_split_all:
  "LENGTH('a) \<le> 8 * n \<Longrightarrow> le_word (le_split n w) = (w :: 'a::len word)"
  by (simp add: le_word_split take_bit_word_eq_self)

lemma LE_codec:
  fixes get :: "buffer \<Rightarrow> 'a::len word option"
  assumes n: "8 * n = LENGTH('a)"
    and g: "\<And>e r. length e = n \<Longrightarrow> get (e @ r) = Some (le_word e)"
    and g0: "\<And>b. length b < n \<Longrightarrow> get b = None"
    and p: "\<And>e r v. length e = n \<Longrightarrow> put (e @ r) v = Some (le_split n v @ r)"
    and p0: "\<And>b v. length b < n \<Longrightarrow> put b v = None"
  shows "fixed_codec n (le_split n) put get"
proof unfold_locales
  fix b :: buffer and v :: "'a word"
  assume "n \<le> length b"
  then show "put b v = Some (le_split n v @ drop n b)"
    using p [of "take n b" "drop n b" v] by simp
next
  fix e :: buffer assume "length e = n"
  then show "\<exists>v :: 'a word. le_split n v = e"
    using le_split_word [of e, where 'a = 'a] n by auto
qed (use assms in \<open>simp_all add: le_word_split_all\<close>)

lemma BE_codec:
  fixes get :: "buffer \<Rightarrow> 'a::len word option"
  assumes n: "8 * n = LENGTH('a)"
    and g: "\<And>e r. length e = n \<Longrightarrow> get (e @ r) = Some (le_word (rev e))"
    and g0: "\<And>b. length b < n \<Longrightarrow> get b = None"
    and p: "\<And>e r v. length e = n \<Longrightarrow> put (e @ r) v = Some (rev (le_split n v) @ r)"
    and p0: "\<And>b v. length b < n \<Longrightarrow> put b v = None"
  shows "fixed_codec n (\<lambda>v. rev (le_split n v)) put get"
proof unfold_locales
  fix b :: buffer and v :: "'a word"
  assume "n \<le> length b"
  then show "put b v = Some (rev (le_split n v) @ drop n b)"
    using p [of "take n b" "drop n b" v] by simp
next
  fix e :: buffer assume "length e = n"
  then show "\<exists>v :: 'a word. rev (le_split n v) = e"
    using le_split_word [of "rev e", where 'a = 'a] n by (metis length_rev le_refl rev_rev_ident)
qed (use assms in \<open>simp_all add: le_word_split_all\<close>)

lemma short_buffer_cases:
  "length b < 2 \<Longrightarrow> get2LE b = None \<and> get2BE b = None \<and> set2LE b u = None \<and> set2BE b u = None"
  "length b < 4 \<Longrightarrow> get4LE b = None \<and> get4BE b = None \<and> set4LE b v = None \<and> set4BE b v = None"
  "length b < 8 \<Longrightarrow> get8LE b = None \<and> get8BE b = None \<and> set8LE b w = None \<and> set8BE b w = None"
  subgoal by (cases b rule: get2LE.cases) simp_all
  subgoal by (cases b rule: get4LE.cases) simp_all
  subgoal by (cases b rule: get8LE.cases) simp_all
  done

lemmas codec_unroll = length_Suc_conv numeral_eq_Suc

interpretation LE2: fixed_codec 2 "le_split 2" set2LE get2LE
  by (rule LE_codec) (use short_buffer_cases in \<open>auto simp: codec_simps codec_unroll word_assembly\<close>)

interpretation LE4: fixed_codec 4 "le_split 4" set4LE get4LE
  by (rule LE_codec) (use short_buffer_cases in \<open>auto simp: codec_simps codec_unroll word_assembly\<close>)

interpretation LE8: fixed_codec 8 "le_split 8" set8LE get8LE
  by (rule LE_codec) (use short_buffer_cases in \<open>auto simp: codec_simps codec_unroll word_assembly\<close>)

interpretation BE2: fixed_codec 2 "\<lambda>v. rev (le_split 2 v)" set2BE get2BE
  by (rule BE_codec) (use short_buffer_cases in \<open>auto simp: codec_simps codec_unroll word_assembly\<close>)

interpretation BE4: fixed_codec 4 "\<lambda>v. rev (le_split 4 v)" set4BE get4BE
  by (rule BE_codec) (use short_buffer_cases in \<open>auto simp: codec_simps codec_unroll word_assembly\<close>)

interpretation BE8: fixed_codec 8 "\<lambda>v. rev (le_split 8 v)" set8BE get8BE
  by (rule BE_codec) (use short_buffer_cases in \<open>auto simp: codec_simps codec_unroll word_assembly\<close>)

section \<open>Round trips\<close>

lemma read_get:
  "read2LE b = map_option (\<lambda>v. (v, drop 2 b)) (get2LE b)"
  "read4LE b = map_option (\<lambda>v. (v, drop 4 b)) (get4LE b)"
  "read8LE b = map_option (\<lambda>v. (v, drop 8 b)) (get8LE b)"
  "read2BE b = map_option (\<lambda>v. (v, drop 2 b)) (get2BE b)"
  "read4BE b = map_option (\<lambda>v. (v, drop 4 b)) (get4BE b)"
  "read8BE b = map_option (\<lambda>v. (v, drop 8 b)) (get8BE b)"
  subgoal by (cases b rule: get2LE.cases) simp_all
  subgoal by (cases b rule: get4LE.cases) simp_all
  subgoal by (cases b rule: get8LE.cases) simp_all
  subgoal by (cases b rule: get2LE.cases) simp_all
  subgoal by (cases b rule: get4LE.cases) simp_all
  subgoal by (cases b rule: get8LE.cases) simp_all
  done

lemma offtin_split:
  "offtin (b0 # b1 # b2 # b3 # b4 # b5 # b6 # b7 # r) =
     Some ((if b7 AND 0x80 \<noteq> 0 then -1 else 1)
       * int (le_nat [b0, b1, b2, b3, b4, b5, b6, b7 AND 0x7F]))"
  by (simp add: Let_def)

lemma le_bytes_numeral:
  "le_bytes (numeral k) v = word_of_nat (v mod 256) # le_bytes (pred_numeral k) (v div 256)"
  by (subst numeral_eq_Suc) (simp only: le_bytes.simps)

lemma minus_mod_div_256: "(y - y mod 256) div 256 = y div (256 :: int)"
  by (metis minus_mod_eq_mult_div nonzero_mult_div_cancel_left zero_neq_numeral)

lemma int_div_256: "int n div 256 = int (n div 256)"
  using zdiv_int [of n 256] by simp

lemma word_of_int_byte: "(word_of_int (int n mod 256) :: byte) = word_of_nat (n mod 256)"
proof -
  have "int n mod 256 = int (n mod 256)" using zmod_int [of n 256] by simp
  then show ?thesis by simp
qed

lemma offtout_le_bytes:
  assumes "\<bar>x\<bar> < 2 ^ 63"
  shows "offtout x = Some (let bs = le_bytes 8 (nat \<bar>x\<bar>) in
           take 7 bs @ [if x < 0 then bs ! 7 OR 0x80 else bs ! 7])"
proof -
  define n where "n = nat \<bar>x\<bar>"
  then have n: "(if x < 0 then - x else x) = int n" by auto
  have range: "\<not> (x \<le> LONG_MIN \<or> LONG_MAX < x)"
    using assms by (auto simp: LONG_MIN_def LONG_MAX_def)
  show ?thesis
    unfolding offtout_def n n_def [symmetric] Let_def minus_mod_div_256 int_div_256 word_of_int_byte
    using range by (simp add: le_bytes_numeral)
qed

lemma top_byte_sign:
  fixes b :: byte
  assumes "unat b < 128"
  shows "b AND 0x80 = 0" "b AND 0x7F = b" "(b OR 0x80) AND 0x80 \<noteq> 0" "(b OR 0x80) AND 0x7F = b"
proof -
  have m: "take_bit 7 b = b"
    using assms by (simp add: unsigned_take_bit_eq take_bit_nat_eq_self word_unat_eq_iff)
  have hi: "bit b n \<Longrightarrow> n < 7" for n
    using bit_take_bit_iff [of 7 b n] m by simp
  have k: "(0x7F :: byte) = mask 7" by (simp add: mask_eq_exp_minus_1)
  have s: "bit (0x80 :: byte) n \<longleftrightarrow> n = 7" for n
  proof -
    have "(0x80 :: byte) = 2 ^ 7" by simp
    then show ?thesis by (simp only: bit_exp_iff) auto
  qed
  show "b AND 0x80 = 0"
  proof (rule bit_word_eqI)
    fix n
    show "bit (b AND 0x80) n = bit (0 :: byte) n"
      using s [of n] hi [of n] by (auto simp: bit_and_iff)
  qed
  show "b AND 0x7F = b"
    unfolding k using hi by (intro bit_word_eqI) (auto simp: bit_simps)
  show "(b OR 0x80) AND 0x80 \<noteq> 0"
    by (simp add: and.commute)
  show "(b OR 0x80) AND 0x7F = b"
  proof (rule bit_word_eqI)
    fix n
    show "bit ((b OR 0x80) AND 0x7F) n = bit b n"
      unfolding k using s [of n] hi [of n] by (auto simp: bit_and_iff bit_or_iff bit_mask_iff)
  qed
qed

lemma offt_inverse:
  assumes "\<bar>x\<bar> < 2 ^ 63"
  shows "\<exists>buf. offtout x = Some buf \<and> length buf = 8 \<and> offtin (buf @ rest) = Some x"
proof -
  define n where "n = nat \<bar>x\<bar>"
  obtain b0 b1 b2 b3 b4 b5 b6 b7 where bs: "le_bytes 8 n = [b0, b1, b2, b3, b4, b5, b6, b7]"
    by (simp add: le_bytes_numeral)
  have "n < 2 ^ 63" using assms by (simp add: n_def nat_less_iff)
  then have val: "le_nat [b0, b1, b2, b3, b4, b5, b6, b7] = n"
    using le_nat_le_bytes [of 8 n] bs by simp
  have top: "unat b7 < 128"
    using val \<open>n < 2 ^ 63\<close> by simp
  have "offtout x = Some [b0, b1, b2, b3, b4, b5, b6, if x < 0 then b7 OR 0x80 else b7]"
    using offtout_le_bytes [OF assms] bs by (simp add: n_def)
  moreover have "offtin ([b0, b1, b2, b3, b4, b5, b6, if x < 0 then b7 OR 0x80 else b7] @ rest) = Some x"
    using val top_byte_sign [OF top]
    by (auto simp: offtin_split n_def simp del: offtin.simps le_nat.simps)
  ultimately show ?thesis by auto
qed

text \<open>A value written by \<open>offtout\<close> is read back by \<open>offtin\<close>, at every position in a
  patch file, for every offset \<open>off_t\<close> can hold but the least.\<close>

theorem offtin_offtout:
  assumes "\<bar>x\<bar> < 2 ^ 63"
  shows "\<exists>buf. offtout x = Some buf \<and> length buf = 8 \<and> offtin (buf @ rest) = Some x"
  using assms by (rule offt_inverse)

theorem offtin_offtout_witness:
  "\<bar>-1000 :: int\<bar> < 2 ^ 63 \<and>
   (\<exists>buf. offtout (-1000) = Some buf \<and> length buf = 8 \<and> offtin (buf @ [7]) = Some (-1000))"
proof -
  have h: "\<bar>-1000 :: int\<bar> < 2 ^ 63" by simp
  show ?thesis using h offtin_offtout [OF h, of "[7]"] by blast
qed

text \<open>The four- and eight-byte values that \<open>Write4\<close> and \<open>Write8\<close> append to a file are the
  ones \<open>Read4\<close> and \<open>Read8\<close> find there, whatever follows, and the rest of the file is kept.\<close>

theorem Read_Write:
  "take (length f) (Write4 v f) = f \<and> Read4 (drop (length f) (Write4 v f) @ rest) = Some v
   \<and> take (length f) (Write8 w f) = f \<and> Read8 (drop (length f) (Write8 w f) @ rest) = Some w"
proof -
  have "Read4 (le_split 4 v @ rest) = Some v"
    using le_word_split_all [of 4 v] by (simp add: Read_le_word del: Read4.simps le_word.simps)
  moreover have "Read8 (le_split 8 w @ rest) = Some w"
    using le_word_split_all [of 8 w] by (simp add: Read_le_word del: Read8.simps le_word.simps)
  ultimately show ?thesis
    unfolding Write_le_split by (simp del: le_split_numeral)
qed

text \<open>\<open>set4LE\<close>, \<open>set4BE\<close>, \<open>set8LE\<close> and \<open>set8BE\<close> store a value that the matching
  \<open>get\<close> returns, keep the length of the buffer and every byte after the field, and both are
  undefined exactly when the field does not fit.\<close>

theorem Bits_set_get:
  "(set4LE b v = None \<longleftrightarrow> length b < 4) \<and> (set4BE b v = None \<longleftrightarrow> length b < 4)
   \<and> (set8LE b w = None \<longleftrightarrow> length b < 8) \<and> (set8BE b w = None \<longleftrightarrow> length b < 8)
   \<and> (case set4LE b v of None \<Rightarrow> True
      | Some b' \<Rightarrow> get4LE b' = Some v \<and> length b' = length b \<and> drop 4 b' = drop 4 b)
   \<and> (case set4BE b v of None \<Rightarrow> True
      | Some b' \<Rightarrow> get4BE b' = Some v \<and> length b' = length b \<and> drop 4 b' = drop 4 b)
   \<and> (case set8LE b w of None \<Rightarrow> True
      | Some b' \<Rightarrow> get8LE b' = Some w \<and> length b' = length b \<and> drop 8 b' = drop 8 b)
   \<and> (case set8BE b w of None \<Rightarrow> True
      | Some b' \<Rightarrow> get8BE b' = Some w \<and> length b' = length b \<and> drop 8 b' = drop 8 b)"
proof -
  note def = LE4.put_defined_iff [of b v] BE4.put_defined_iff [of b v]
    LE8.put_defined_iff [of b w] BE8.put_defined_iff [of b w]
  note get = LE4.get_put BE4.get_put LE8.get_put BE8.get_put
  note frame = LE4.put_frame BE4.put_frame LE8.put_frame BE8.put_frame
  show ?thesis
    using def by (intro conjI) (auto split: option.split dest: get frame)
qed

text \<open>A string stored by \<open>setUtf8String\<close> is returned by \<open>readNewUtf8String\<close> with its
  length, terminated by a 0 byte, and the reader is left at the first byte behind it.\<close>

theorem Utf8_round_trip:
  assumes "length str < 2 ^ 32 - 1" and "4 + length str \<le> length buf"
  shows "\<exists>buf'. setUtf8String buf str = Some buf' \<and> length buf' = length buf
    \<and> readNewUtf8String buf' = Some (str @ [0], word_of_nat (length str), drop (4 + length str) buf)"
proof -
  define n :: u32 where "n = word_of_nat (length str)"
  have n: "unat n = length str"
    using assms(1) by (simp add: n_def unat_of_nat take_bit_nat_eq_self)
  have e: "length (rev (le_split 4 n)) = 4" by (simp only: length_rev length_le_split)
  have p: "set4BE buf n = Some (rev (le_split 4 n) @ drop 4 buf)"
    using assms(2) by (intro BE4.put_enc) simp
  have set: "setUtf8String buf str
      = Some (rev (le_split 4 n) @ str @ drop (4 + length str) buf)"
    unfolding setUtf8String_def n_def [symmetric] Let_def p
    using e n assms(2) by (simp add: add.commute del: le_split_numeral)
  have "read4BE (rev (le_split 4 n) @ str @ drop (4 + length str) buf)
      = Some (n, str @ drop (4 + length str) buf)"
    unfolding read_get BE4.get_enc using e by (simp del: le_split_numeral)
  with set show ?thesis
    using assms e n by (simp add: readNewUtf8String_def n_def [symmetric] del: le_split_numeral)
qed

theorem Utf8_round_trip_witness:
  "length [104, 105 :: byte] < 2 ^ 32 - 1 \<and> 4 + length [104, 105 :: byte] \<le> length (replicate 8 (0 :: byte))
   \<and> (\<exists>buf'. setUtf8String (replicate 8 0) [104, 105] = Some buf'
        \<and> length buf' = length (replicate 8 (0 :: byte))
        \<and> readNewUtf8String buf' = Some ([104, 105] @ [0], word_of_nat (length [104, 105 :: byte]),
             drop (4 + length [104, 105 :: byte]) (replicate 8 0)))"
proof -
  have h1: "length [104, 105 :: byte] < 2 ^ 32 - 1" by simp
  have h2: "4 + length [104, 105 :: byte] \<le> length (replicate 8 (0 :: byte))" by simp
  show ?thesis using h1 h2 Utf8_round_trip [OF h1 h2] by blast
qed

end
