(* ===== verification/CLib.thy ===== *)
theory CLib
  imports Prelude "HOL-Library.Multiset"
begin

text \<open>
  \<open>qsort\<close> and \<open>bsearch\<close> of the C library over a comparison callback, and the locale \<open>c_order\<close>
  with what they guarantee for a callback that is a total preorder. The callbacks of the
  sources are interpretations of it in the theories that define them.
\<close>

primrec c_insert :: "('a \<Rightarrow> 'a \<Rightarrow> int) \<Rightarrow> 'a \<Rightarrow> 'a list \<Rightarrow> 'a list" where
  "c_insert cmp x [] = [x]"
| "c_insert cmp x (y # ys) = (if cmp x y \<le> 0 then x # y # ys else y # c_insert cmp x ys)"

primrec c_qsort :: "('a \<Rightarrow> 'a \<Rightarrow> int) \<Rightarrow> 'a list \<Rightarrow> 'a list" where
  "c_qsort cmp [] = []"
| "c_qsort cmp (x # xs) = c_insert cmp x (c_qsort cmp xs)"

function c_bsearch :: "('a \<Rightarrow> 'a \<Rightarrow> int) \<Rightarrow> 'a \<Rightarrow> 'a list \<Rightarrow> nat \<Rightarrow> nat \<Rightarrow> 'a option" where
  "c_bsearch cmp key xs lo hi =
     (if lo < hi then
        let mid = (lo + hi) div 2; c = cmp key (xs ! mid) in
        if c = 0 then Some (xs ! mid)
        else if c < 0 then c_bsearch cmp key xs lo mid
        else c_bsearch cmp key xs (Suc mid) hi
      else None)"
  by pat_completeness auto
termination
  by (relation "measure (\<lambda>(_, _, _, lo, hi). hi - lo)") auto

declare c_bsearch.simps [simp del]

lemma mset_c_insert [simp]: "mset (c_insert cmp x ys) = add_mset x (mset ys)"
  by (induction ys) auto

lemma mset_c_qsort [simp]: "mset (c_qsort cmp xs) = mset xs"
  by (induction xs) auto

lemma set_c_qsort [simp]: "set (c_qsort cmp xs) = set xs"
  by (metis mset_c_qsort set_mset_mset)

lemma length_c_qsort [simp]: "length (c_qsort cmp xs) = length xs"
  by (metis mset_c_qsort size_mset)

lemma set_c_insert [simp]: "set (c_insert cmp x ys) = insert x (set ys)"
  by (metis mset_c_insert set_mset_add_mset_insert set_mset_mset)

locale c_order =
  fixes cmp :: "'a \<Rightarrow> 'a \<Rightarrow> int"
  assumes flip: "cmp x y < 0 \<longleftrightarrow> 0 < cmp y x"
    and trans: "cmp x y \<le> 0 \<Longrightarrow> cmp y z \<le> 0 \<Longrightarrow> cmp x z \<le> 0"
begin

definition ordered :: "'a list \<Rightarrow> bool" where
  "ordered xs \<longleftrightarrow> sorted_wrt (\<lambda>x y. cmp x y \<le> 0) xs"

lemma total: "cmp x y \<le> 0 \<or> cmp y x \<le> 0"
  using flip [of y x] by linarith

lemma ordered_insert: "ordered ys \<Longrightarrow> ordered (c_insert cmp x ys)"
proof (induction ys)
  case (Cons y ys)
  show ?case
  proof (cases "cmp x y \<le> 0")
    case True
    with Cons.prems show ?thesis by (auto simp: ordered_def intro: trans)
  next
    case False
    then have "cmp y x \<le> 0" using total by blast
    with False Cons show ?thesis by (auto simp: ordered_def)
  qed
qed (simp add: ordered_def)

lemma ordered_qsort: "ordered (c_qsort cmp xs)"
  by (induction xs) (auto simp: ordered_insert, simp add: ordered_def)

lemma ordered_nth: "ordered xs \<Longrightarrow> i \<le> j \<Longrightarrow> j < length xs \<Longrightarrow> cmp (xs ! i) (xs ! j) \<le> 0"
  using total [of "xs ! i" "xs ! i"]
  by (cases "i = j") (auto simp: ordered_def sorted_wrt_iff_nth_less)

lemma bsearch_Some:
  "c_bsearch cmp key xs lo hi = Some x \<Longrightarrow> hi \<le> length xs \<Longrightarrow> x \<in> set xs \<and> cmp key x = 0"
proof (induction cmp key xs lo hi rule: c_bsearch.induct)
  case (1 cmp key xs lo hi)
  then show ?case
    by (subst (asm) (3) c_bsearch.simps) (auto simp: Let_def split: if_splits)
qed

lemma bsearch_complete:
  "ordered xs \<Longrightarrow> lo \<le> i \<Longrightarrow> i < hi \<Longrightarrow> hi \<le> length xs \<Longrightarrow> cmp key (xs ! i) = 0
     \<Longrightarrow> c_bsearch cmp key xs lo hi \<noteq> None"
proof (induction "hi - lo" arbitrary: lo hi rule: less_induct)
  case less
  define mid where "mid = (lo + hi) div 2"
  have mid: "lo \<le> mid" "mid < hi" using less.prems by (auto simp: mid_def)
  note unfold = c_bsearch.simps [of cmp key xs lo hi, folded mid_def]
  consider "cmp key (xs ! mid) = 0" | "cmp key (xs ! mid) < 0" | "cmp key (xs ! mid) > 0"
    by linarith
  then show ?case
  proof cases
    case 1
    then show ?thesis using mid by (simp add: unfold Let_def)
  next
    case 2
    have "i < mid"
    proof (rule ccontr)
      assume "\<not> i < mid"
      then have "cmp (xs ! mid) (xs ! i) \<le> 0" using less.prems by (intro ordered_nth) auto
      moreover have "cmp (xs ! i) key \<le> 0" using less.prems(5) flip [of key "xs ! i"] by linarith
      ultimately have "cmp (xs ! mid) key \<le> 0" by (rule trans)
      with 2 show False using flip [of key "xs ! mid"] by linarith
    qed
    then have "c_bsearch cmp key xs lo mid \<noteq> None"
      using mid less.prems by (intro less.hyps) auto
    with 2 mid show ?thesis by (simp add: unfold Let_def)
  next
    case 3
    have "mid < i"
    proof (rule ccontr)
      assume "\<not> mid < i"
      then have "cmp (xs ! i) (xs ! mid) \<le> 0" using less.prems mid by (intro ordered_nth) auto
      then have "cmp key (xs ! mid) \<le> 0"
        using less.prems(5) trans [of key "xs ! i" "xs ! mid"] by simp
      with 3 show False by simp
    qed
    have "hi - Suc mid < hi - lo" using mid by linarith
    then have "c_bsearch cmp key xs (Suc mid) hi \<noteq> None"
      using less.prems \<open>mid < i\<close> by (intro less.hyps) (simp_all add: Suc_le_eq)
    with 3 mid show ?thesis by (simp add: unfold Let_def)
  qed
qed

lemma bsearch_qsort:
  "c_bsearch cmp key (c_qsort cmp xs) 0 (length xs) = None \<longleftrightarrow> (\<forall>x \<in> set xs. cmp key x \<noteq> 0)"
proof
  assume n: "c_bsearch cmp key (c_qsort cmp xs) 0 (length xs) = None"
  show "\<forall>x \<in> set xs. cmp key x \<noteq> 0"
  proof (intro ballI notI)
    fix x assume "x \<in> set xs" "cmp key x = 0"
    then obtain i where "i < length xs" "cmp key (c_qsort cmp xs ! i) = 0"
      by (metis in_set_conv_nth length_c_qsort set_c_qsort)
    with n bsearch_complete [OF ordered_qsort, of 0 i "length xs" xs key] show False by simp
  qed
next
  assume a: "\<forall>x \<in> set xs. cmp key x \<noteq> 0"
  show "c_bsearch cmp key (c_qsort cmp xs) 0 (length xs) = None"
  proof (cases "c_bsearch cmp key (c_qsort cmp xs) 0 (length xs)")
    case (Some x)
    then show ?thesis using bsearch_Some [OF Some] a by auto
  qed simp
qed

end

lemma strcmp_le_trans: "strcmp s t \<le> 0 \<Longrightarrow> strcmp t u \<le> 0 \<Longrightarrow> strcmp s u \<le> 0"
  using strcmp_less_trans [of s t u] strcmp_eq_0 [of s t] strcmp_eq_0 [of t u]
  by (metis less_le_not_le linorder_not_le order.order_iff_strict)

interpretation strcmp: c_order strcmp
  by unfold_locales (use strcmp_pos_iff strcmp_le_trans in blast)+

end
