(* ===== verification/Edify.thy ===== *)
theory Edify
  imports CLib "HOL-Library.Sublist"
begin

text \<open>
  The edify script interpreter, \<open>edify/expr.c\<close>. An \<open>Expr\<close> node carries the C function that
  evaluates it; function pointers are the values of the datatype \<open>Function\<close>, one per function
  of \<open>expr.c\<close> and \<open>NativeF\<close> for a function another module registers. The builtins are written
  over an evaluator argument \<open>ev\<close>, the indirect call \<open>expr->fn(...)\<close>; \<open>EvaluateValue\<close> ties the
  knot. Every function returns \<^term>\<open>None\<close> where the C code would read outside an array, and
  otherwise the returned pointer (\<^term>\<open>None\<close> inside for \<open>NULL\<close>) with the new state.
\<close>

section \<open>Data\<close>

datatype Function =
    LiteralF | ConcatF | IfElseF | AbortF | AssertF | SleepF | StdoutF
  | LogicalAndF | LogicalOrF | LogicalNotF | SubstringF | EqualityF | InequalityF
  | SequenceF | LessThanIntF | GreaterThanIntF | NativeF string

datatype Expr =
  Expr (ex_fn: Function) (ex_name: string) (ex_argv: "Expr list") (ex_start: int) (ex_end: int)

text \<open>
  \<open>out\<close> is the text written to standard output so far and \<open>slept\<close> the arguments of the calls to
  \<open>sleep\<close>; the other fields are those of the C struct.
\<close>

record 'w State =
  cookie :: 'w
  script :: string
  errmsg :: "string option"
  out :: string
  slept :: "nat list"

record Value =
  vtype :: int
  vsize :: int
  vdata :: string

definition VAL_STRING :: int where "VAL_STRING = 1"
definition VAL_BLOB :: int where "VAL_BLOB = 2"

type_synonym ('r, 'w) ret = "('r option \<times> 'w State) option"
type_synonym ('e, 'w) evaluation = "'e \<Rightarrow> 'w State \<Rightarrow> (Value, 'w) ret"
type_synonym 'w evaluator = "(Expr, 'w) evaluation"

section \<open>Evaluation helpers\<close>

definition BooleanString :: "string \<Rightarrow> bool" where
  "BooleanString s \<longleftrightarrow> s \<noteq> []"

text \<open>\<open>vsnprintf\<close> into a buffer of 4096 bytes keeps 4095 characters.\<close>

definition ErrorAbort :: "'w State \<Rightarrow> string \<Rightarrow> 'w State" where
  "ErrorAbort st msg = st\<lparr>errmsg := Some (take 4095 msg)\<rparr>"

definition Evaluate :: "('e, 'w) evaluation \<Rightarrow> 'e \<Rightarrow> 'w State \<Rightarrow> (string, 'w) ret" where
  "Evaluate ev expr st =
     do { (r, st1) \<leftarrow> ev expr st;
          case r of
            None \<Rightarrow> Some (None, st1)
          | Some v \<Rightarrow>
              if vtype v \<noteq> VAL_STRING
              then Some (None, ErrorAbort st1 (''expecting string, got value type '' @ dec_int (vtype v)))
              else Some (Some (vdata v), st1) }"

definition StringValue :: "string option \<Rightarrow> Value option" where
  "StringValue str =
     (case str of None \<Rightarrow> None
      | Some s \<Rightarrow> Some \<lparr>vtype = VAL_STRING, vsize = int (length s), vdata = s\<rparr>)"

text \<open>Reading \<open>argv[i]\<close>.\<close>

definition arg :: "'e list \<Rightarrow> nat \<Rightarrow> 'e option" where
  "arg argv i = (if i < length argv then Some (argv ! i) else None)"

fun ReadVarArgs :: "('e, 'w) evaluation \<Rightarrow> 'w State \<Rightarrow> 'e list \<Rightarrow> (string list, 'w) ret" where
  "ReadVarArgs ev st [] = Some (Some [], st)"
| "ReadVarArgs ev st (e # es) =
     do { (s, st1) \<leftarrow> Evaluate ev e st;
          case s of
            None \<Rightarrow> Some (None, st1)
          | Some s \<Rightarrow>
              do { (ss, st2) \<leftarrow> ReadVarArgs ev st1 es;
                   Some (map_option (\<lambda>ss. s # ss) ss, st2) } }"

fun ReadValueVarArgs :: "('e, 'w) evaluation \<Rightarrow> 'w State \<Rightarrow> 'e list \<Rightarrow> (Value list, 'w) ret" where
  "ReadValueVarArgs ev st [] = Some (Some [], st)"
| "ReadValueVarArgs ev st (e # es) =
     do { (v, st1) \<leftarrow> ev e st;
          case v of
            None \<Rightarrow> Some (None, st1)
          | Some v \<Rightarrow>
              do { (vs, st2) \<leftarrow> ReadValueVarArgs ev st1 es;
                   Some (map_option (\<lambda>vs. v # vs) vs, st2) } }"

text \<open>\<open>ReadArgs\<close> and \<open>ReadValueArgs\<close> evaluate \<open>cnt\<close> arguments; reading beyond the ones there
  are is undefined. The error code \<open>-1\<close> is \<^term>\<open>None\<close> in the result.\<close>

definition ReadArgs :: "('e, 'w) evaluation \<Rightarrow> 'w State \<Rightarrow> 'e list \<Rightarrow> nat \<Rightarrow> (string list, 'w) ret" where
  "ReadArgs ev st argv cnt =
     (if cnt \<le> length argv then ReadVarArgs ev st (take cnt argv)
      else case ReadVarArgs ev st argv of
             Some (None, st1) \<Rightarrow> Some (None, st1)
           | _ \<Rightarrow> None)"

definition ReadValueArgs :: "('e, 'w) evaluation \<Rightarrow> 'w State \<Rightarrow> 'e list \<Rightarrow> nat \<Rightarrow> (Value list, 'w) ret" where
  "ReadValueArgs ev st argv cnt =
     (if cnt \<le> length argv then ReadValueVarArgs ev st (take cnt argv)
      else case ReadValueVarArgs ev st argv of
             Some (None, st1) \<Rightarrow> Some (None, st1)
           | _ \<Rightarrow> None)"

section \<open>Builtin functions\<close>

definition Literal :: "'w evaluator \<Rightarrow> string \<Rightarrow> 'w State \<Rightarrow> Expr list \<Rightarrow> (Value, 'w) ret" where
  "Literal ev name st argv = Some (StringValue (Some name), st)"

definition ConcatFn :: "'w evaluator \<Rightarrow> string \<Rightarrow> 'w State \<Rightarrow> Expr list \<Rightarrow> (Value, 'w) ret" where
  "ConcatFn ev name st argv =
     (if argv = [] then Some (StringValue (Some []), st)
      else do { (strings, st1) \<leftarrow> ReadVarArgs ev st argv;
                Some (StringValue (map_option List.concat strings), st1) })"

definition IfElseFn :: "'w evaluator \<Rightarrow> string \<Rightarrow> 'w State \<Rightarrow> Expr list \<Rightarrow> (Value, 'w) ret" where
  "IfElseFn ev name st argv =
     (if length argv \<noteq> 2 \<and> length argv \<noteq> 3
      then Some (None, st\<lparr>errmsg := Some ''ifelse expects 2 or 3 arguments''\<rparr>)
      else do {
        (cond, st1) \<leftarrow> Evaluate ev (argv ! 0) st;
        case cond of
          None \<Rightarrow> Some (None, st1)
        | Some cond \<Rightarrow>
            if BooleanString cond then ev (argv ! 1) st1
            else if length argv = 3 then ev (argv ! 2) st1
            else Some (StringValue (Some cond), st1) })"

definition AbortFn :: "'w evaluator \<Rightarrow> string \<Rightarrow> 'w State \<Rightarrow> Expr list \<Rightarrow> (Value, 'w) ret" where
  "AbortFn ev name st argv =
     do { (msg, st1) \<leftarrow> (if argv = [] then Some (None, st) else Evaluate ev (hd argv) st);
          Some (None, st1\<lparr>errmsg := (case msg of Some m \<Rightarrow> Some m | None \<Rightarrow> Some ''called abort()'')\<rparr>) }"

text \<open>The source text of an argument, copied out of the script for an assertion message.\<close>

definition script_slice :: "'w State \<Rightarrow> Expr \<Rightarrow> string option" where
  "script_slice st e =
     (if 0 \<le> ex_start e \<and> ex_start e \<le> ex_end e \<and> ex_end e \<le> int (length (script st))
      then Some (take (nat (ex_end e - ex_start e)) (drop (nat (ex_start e)) (script st)))
      else None)"

fun AssertFn :: "'w evaluator \<Rightarrow> string \<Rightarrow> 'w State \<Rightarrow> Expr list \<Rightarrow> (Value, 'w) ret" where
  "AssertFn ev name st [] = Some (StringValue (Some []), st)"
| "AssertFn ev name st (e # es) =
     do { (v, st1) \<leftarrow> Evaluate ev e st;
          case v of
            None \<Rightarrow> Some (None, st1)
          | Some v \<Rightarrow>
              if BooleanString v then AssertFn ev name st1 es
              else do { src \<leftarrow> script_slice st1 e;
                        Some (None, st1\<lparr>errmsg := Some (''assert failed: '' @ src)\<rparr>) } }"

definition SleepFn :: "'w evaluator \<Rightarrow> string \<Rightarrow> 'w State \<Rightarrow> Expr list \<Rightarrow> (Value, 'w) ret" where
  "SleepFn ev name st argv =
     do { a0 \<leftarrow> arg argv 0;
          (val, st1) \<leftarrow> Evaluate ev a0 st;
          case val of
            None \<Rightarrow> Some (None, st1)
          | Some val \<Rightarrow>
              let v = to_int32 (fst (strtol10 val)) in
              Some (StringValue (Some val), st1\<lparr>slept := slept st1 @ [unat (word_of_int v :: u32)]\<rparr>) }"

fun StdoutFn :: "'w evaluator \<Rightarrow> string \<Rightarrow> 'w State \<Rightarrow> Expr list \<Rightarrow> (Value, 'w) ret" where
  "StdoutFn ev name st [] = Some (StringValue (Some []), st)"
| "StdoutFn ev name st (e # es) =
     do { (v, st1) \<leftarrow> Evaluate ev e st;
          case v of
            None \<Rightarrow> Some (None, st1)
          | Some v \<Rightarrow> StdoutFn ev name (st1\<lparr>out := out st1 @ v\<rparr>) es }"

definition LogicalAndFn :: "'w evaluator \<Rightarrow> string \<Rightarrow> 'w State \<Rightarrow> Expr list \<Rightarrow> (Value, 'w) ret" where
  "LogicalAndFn ev name st argv =
     do { a0 \<leftarrow> arg argv 0;
          (left, st1) \<leftarrow> Evaluate ev a0 st;
          case left of
            None \<Rightarrow> Some (None, st1)
          | Some left \<Rightarrow>
              if BooleanString left then do { a1 \<leftarrow> arg argv 1; ev a1 st1 }
              else Some (StringValue (Some left), st1) }"

definition LogicalOrFn :: "'w evaluator \<Rightarrow> string \<Rightarrow> 'w State \<Rightarrow> Expr list \<Rightarrow> (Value, 'w) ret" where
  "LogicalOrFn ev name st argv =
     do { a0 \<leftarrow> arg argv 0;
          (left, st1) \<leftarrow> Evaluate ev a0 st;
          case left of
            None \<Rightarrow> Some (None, st1)
          | Some left \<Rightarrow>
              if \<not> BooleanString left then do { a1 \<leftarrow> arg argv 1; ev a1 st1 }
              else Some (StringValue (Some left), st1) }"

definition LogicalNotFn :: "'w evaluator \<Rightarrow> string \<Rightarrow> 'w State \<Rightarrow> Expr list \<Rightarrow> (Value, 'w) ret" where
  "LogicalNotFn ev name st argv =
     do { a0 \<leftarrow> arg argv 0;
          (val, st1) \<leftarrow> Evaluate ev a0 st;
          case val of
            None \<Rightarrow> Some (None, st1)
          | Some val \<Rightarrow> Some (StringValue (Some (if BooleanString val then [] else ''t'')), st1) }"

definition SubstringFn :: "'w evaluator \<Rightarrow> string \<Rightarrow> 'w State \<Rightarrow> Expr list \<Rightarrow> (Value, 'w) ret" where
  "SubstringFn ev name st argv =
     do { a0 \<leftarrow> arg argv 0;
          (needle, st1) \<leftarrow> Evaluate ev a0 st;
          case needle of
            None \<Rightarrow> Some (None, st1)
          | Some needle \<Rightarrow>
              do { a1 \<leftarrow> arg argv 1;
                   (haystack, st2) \<leftarrow> Evaluate ev a1 st1;
                   case haystack of
                     None \<Rightarrow> Some (None, st2)
                   | Some haystack \<Rightarrow>
                       Some (StringValue (Some (case strstr haystack needle of
                                                  Some _ \<Rightarrow> ''t'' | None \<Rightarrow> [])), st2) } }"

definition EqualityFn :: "'w evaluator \<Rightarrow> string \<Rightarrow> 'w State \<Rightarrow> Expr list \<Rightarrow> (Value, 'w) ret" where
  "EqualityFn ev name st argv =
     do { a0 \<leftarrow> arg argv 0;
          (left, st1) \<leftarrow> Evaluate ev a0 st;
          case left of
            None \<Rightarrow> Some (None, st1)
          | Some left \<Rightarrow>
              do { a1 \<leftarrow> arg argv 1;
                   (right, st2) \<leftarrow> Evaluate ev a1 st1;
                   case right of
                     None \<Rightarrow> Some (None, st2)
                   | Some right \<Rightarrow>
                       Some (StringValue (Some (if strcmp left right = 0 then ''t'' else [])), st2) } }"

definition InequalityFn :: "'w evaluator \<Rightarrow> string \<Rightarrow> 'w State \<Rightarrow> Expr list \<Rightarrow> (Value, 'w) ret" where
  "InequalityFn ev name st argv =
     do { a0 \<leftarrow> arg argv 0;
          (left, st1) \<leftarrow> Evaluate ev a0 st;
          case left of
            None \<Rightarrow> Some (None, st1)
          | Some left \<Rightarrow>
              do { a1 \<leftarrow> arg argv 1;
                   (right, st2) \<leftarrow> Evaluate ev a1 st1;
                   case right of
                     None \<Rightarrow> Some (None, st2)
                   | Some right \<Rightarrow>
                       Some (StringValue (Some (if strcmp left right \<noteq> 0 then ''t'' else [])), st2) } }"

definition SequenceFn :: "'w evaluator \<Rightarrow> string \<Rightarrow> 'w State \<Rightarrow> Expr list \<Rightarrow> (Value, 'w) ret" where
  "SequenceFn ev name st argv =
     do { a0 \<leftarrow> arg argv 0;
          (left, st1) \<leftarrow> ev a0 st;
          case left of
            None \<Rightarrow> Some (None, st1)
          | Some _ \<Rightarrow> do { a1 \<leftarrow> arg argv 1; ev a1 st1 } }"

definition not_an_int :: "string \<Rightarrow> string" where
  "not_an_int s = ''['' @ s @ ''] is not an int'' @ [char_of (10 :: nat)]"

definition LessThanIntFn :: "'w evaluator \<Rightarrow> string \<Rightarrow> 'w State \<Rightarrow> Expr list \<Rightarrow> (Value, 'w) ret" where
  "LessThanIntFn ev name st argv =
     (if length argv \<noteq> 2
      then Some (None, st\<lparr>errmsg := Some ''less_than_int expects 2 arguments''\<rparr>)
      else do {
        (args, st1) \<leftarrow> ReadArgs ev st argv 2;
        case args of
          None \<Rightarrow> Some (None, st1)
        | Some args \<Rightarrow>
            let left = args ! 0; right = args ! 1;
                (l_int, l_end) = strtol10 left in
            if left = [] \<or> l_end \<noteq> []
            then Some (StringValue (Some []), st1\<lparr>out := out st1 @ not_an_int left\<rparr>)
            else
              let (r_int, r_end) = strtol10 right in
              if right = [] \<or> r_end \<noteq> []
              then Some (StringValue (Some []), st1\<lparr>out := out st1 @ not_an_int right\<rparr>)
              else Some (StringValue (Some (if l_int < r_int then ''t'' else [])), st1) })"

definition GreaterThanIntFn :: "'w evaluator \<Rightarrow> string \<Rightarrow> 'w State \<Rightarrow> Expr list \<Rightarrow> (Value, 'w) ret" where
  "GreaterThanIntFn ev name st argv =
     (if length argv \<noteq> 2
      then Some (None, st\<lparr>errmsg := Some ''greater_than_int expects 2 arguments''\<rparr>)
      else LessThanIntFn ev name st [argv ! 1, argv ! 0])"

section \<open>The evaluator\<close>

text \<open>
  A function that another module registers is given the name it was called by and its arguments, unevaluated:
  an argument is what its evaluation does to a state, and the function evaluates those it reads with the
  functions above.
\<close>

type_synonym 'w argument = "'w State \<Rightarrow> (Value, 'w) ret"
type_synonym 'w natives = "string \<Rightarrow> string \<Rightarrow> 'w State \<Rightarrow> 'w argument list \<Rightarrow> (Value, 'w) ret"

definition call_fn ::
  "'w natives \<Rightarrow> 'w evaluator \<Rightarrow> Function \<Rightarrow> string \<Rightarrow> 'w State \<Rightarrow> Expr list \<Rightarrow> (Value, 'w) ret" where
  "call_fn native ev f name st argv =
     (case f of
        LiteralF \<Rightarrow> Literal ev name st argv
      | ConcatF \<Rightarrow> ConcatFn ev name st argv
      | IfElseF \<Rightarrow> IfElseFn ev name st argv
      | AbortF \<Rightarrow> AbortFn ev name st argv
      | AssertF \<Rightarrow> AssertFn ev name st argv
      | SleepF \<Rightarrow> SleepFn ev name st argv
      | StdoutF \<Rightarrow> StdoutFn ev name st argv
      | LogicalAndF \<Rightarrow> LogicalAndFn ev name st argv
      | LogicalOrF \<Rightarrow> LogicalOrFn ev name st argv
      | LogicalNotF \<Rightarrow> LogicalNotFn ev name st argv
      | SubstringF \<Rightarrow> SubstringFn ev name st argv
      | EqualityF \<Rightarrow> EqualityFn ev name st argv
      | InequalityF \<Rightarrow> InequalityFn ev name st argv
      | SequenceF \<Rightarrow> SequenceFn ev name st argv
      | LessThanIntF \<Rightarrow> LessThanIntFn ev name st argv
      | GreaterThanIntF \<Rightarrow> GreaterThanIntFn ev name st argv
      | NativeF n \<Rightarrow> native n name st (map ev argv))"

text \<open>
  A builtin evaluates only members of its argument vector. The congruence rules say so; they
  are what makes the recursion of the evaluator well-founded.
\<close>

lemma Evaluate_cong:
  "ev e st = ev' e st \<Longrightarrow> Evaluate ev e st = Evaluate ev' e st"
  by (simp add: Evaluate_def)

lemma ReadVarArgs_cong:
  "(\<And>e s. e \<in> set argv \<Longrightarrow> ev e s = ev' e s) \<Longrightarrow> ReadVarArgs ev st argv = ReadVarArgs ev' st argv"
proof (induction argv arbitrary: st)
  case (Cons e es)
  have "Evaluate ev e st = Evaluate ev' e st"
    by (rule Evaluate_cong) (simp add: Cons.prems)
  with Cons show ?case by (auto simp: Option.bind_eq_Some_conv intro!: Option.bind_cong split: option.split)
qed simp

lemma ReadValueVarArgs_cong:
  "(\<And>e s. e \<in> set argv \<Longrightarrow> ev e s = ev' e s) \<Longrightarrow> ReadValueVarArgs ev st argv = ReadValueVarArgs ev' st argv"
proof (induction argv arbitrary: st)
  case (Cons e es)
  then show ?case by (auto intro!: Option.bind_cong split: option.split)
qed simp

lemma AssertFn_cong:
  "(\<And>e s. e \<in> set argv \<Longrightarrow> ev e s = ev' e s) \<Longrightarrow> AssertFn ev n st argv = AssertFn ev' n st argv"
proof (induction argv arbitrary: st)
  case (Cons e es)
  have "Evaluate ev e st = Evaluate ev' e st"
    by (rule Evaluate_cong) (simp add: Cons.prems)
  with Cons show ?case by (auto intro!: Option.bind_cong split: option.split)
qed simp

lemma StdoutFn_cong:
  "(\<And>e s. e \<in> set argv \<Longrightarrow> ev e s = ev' e s) \<Longrightarrow> StdoutFn ev n st argv = StdoutFn ev' n st argv"
proof (induction argv arbitrary: st)
  case (Cons e es)
  have "Evaluate ev e st = Evaluate ev' e st"
    by (rule Evaluate_cong) (simp add: Cons.prems)
  with Cons show ?case by (auto intro!: Option.bind_cong split: option.split)
qed simp

lemma arg_in_set: "arg argv i = Some e \<Longrightarrow> e \<in> set argv"
  by (auto simp: arg_def split: if_splits)

lemma arg_Some_nth: "length argv = n \<Longrightarrow> i < n \<Longrightarrow> argv ! i \<in> set argv"
  by auto

lemma ReadArgs_cong:
  assumes "\<And>e s. e \<in> set argv \<Longrightarrow> ev e s = ev' e s"
  shows "ReadArgs ev st argv n = ReadArgs ev' st argv n"
proof -
  have "ReadVarArgs ev st (take n argv) = ReadVarArgs ev' st (take n argv)"
    by (rule ReadVarArgs_cong) (use assms in_set_takeD in fast)
  moreover have "ReadVarArgs ev st argv = ReadVarArgs ev' st argv"
    by (rule ReadVarArgs_cong) (rule assms)
  ultimately show ?thesis by (simp add: ReadArgs_def)
qed

lemma LessThanIntFn_cong:
  assumes "\<And>e s. e \<in> set argv \<Longrightarrow> ev e s = ev' e s"
  shows "LessThanIntFn ev n st argv = LessThanIntFn ev' n st argv"
  using ReadArgs_cong [of argv ev ev', OF assms] by (simp add: LessThanIntFn_def)

lemma GreaterThanIntFn_cong:
  assumes "\<And>e s. e \<in> set argv \<Longrightarrow> ev e s = ev' e s"
  shows "GreaterThanIntFn ev n st argv = GreaterThanIntFn ev' n st argv"
proof (cases "length argv = 2")
  case True
  then have "e \<in> set [argv ! 1, argv ! 0] \<Longrightarrow> ev e s = ev' e s" for e s
    using assms by auto
  then have "LessThanIntFn ev n st [argv ! 1, argv ! 0] = LessThanIntFn ev' n st [argv ! 1, argv ! 0]"
    by (rule LessThanIntFn_cong)
  with True show ?thesis by (simp add: GreaterThanIntFn_def)
qed (simp add: GreaterThanIntFn_def)

lemma fixed_arity_cong:
  assumes ev: "\<And>e s. e \<in> set argv \<Longrightarrow> ev e s = ev' e s"
  shows "ConcatFn ev n st argv = ConcatFn ev' n st argv"
    and "IfElseFn ev n st argv = IfElseFn ev' n st argv"
    and "AbortFn ev n st argv = AbortFn ev' n st argv"
    and "SleepFn ev n st argv = SleepFn ev' n st argv"
    and "LogicalAndFn ev n st argv = LogicalAndFn ev' n st argv"
    and "LogicalOrFn ev n st argv = LogicalOrFn ev' n st argv"
    and "LogicalNotFn ev n st argv = LogicalNotFn ev' n st argv"
    and "SubstringFn ev n st argv = SubstringFn ev' n st argv"
    and "EqualityFn ev n st argv = EqualityFn ev' n st argv"
    and "InequalityFn ev n st argv = InequalityFn ev' n st argv"
    and "SequenceFn ev n st argv = SequenceFn ev' n st argv"
proof -
  have E: "e \<in> set argv \<Longrightarrow> Evaluate ev e s = Evaluate ev' e s" for e s
    by (rule Evaluate_cong) (rule ev)
  note EV = E [OF arg_in_set] ev [OF arg_in_set]
  show "ConcatFn ev n st argv = ConcatFn ev' n st argv"
    using ReadVarArgs_cong [of argv ev ev', OF ev] by (simp add: ConcatFn_def)
  show "IfElseFn ev n st argv = IfElseFn ev' n st argv"
    unfolding IfElseFn_def
    by (auto simp: E [OF nth_mem] ev [OF nth_mem] intro!: Option.bind_cong split: option.split)
  show "AbortFn ev n st argv = AbortFn ev' n st argv"
    unfolding AbortFn_def by (auto simp: E [OF hd_in_set])
  show "SleepFn ev n st argv = SleepFn ev' n st argv"
    unfolding SleepFn_def by (auto simp: EV intro!: Option.bind_cong)
  show "LogicalAndFn ev n st argv = LogicalAndFn ev' n st argv"
    unfolding LogicalAndFn_def by (auto simp: EV intro!: Option.bind_cong split: option.split)
  show "LogicalOrFn ev n st argv = LogicalOrFn ev' n st argv"
    unfolding LogicalOrFn_def by (auto simp: EV intro!: Option.bind_cong split: option.split)
  show "LogicalNotFn ev n st argv = LogicalNotFn ev' n st argv"
    unfolding LogicalNotFn_def by (auto simp: EV intro!: Option.bind_cong)
  show "SubstringFn ev n st argv = SubstringFn ev' n st argv"
    unfolding SubstringFn_def by (auto simp: EV intro!: Option.bind_cong split: option.split)
  show "EqualityFn ev n st argv = EqualityFn ev' n st argv"
    unfolding EqualityFn_def by (auto simp: EV intro!: Option.bind_cong split: option.split)
  show "InequalityFn ev n st argv = InequalityFn ev' n st argv"
    unfolding InequalityFn_def by (auto simp: EV intro!: Option.bind_cong split: option.split)
  show "SequenceFn ev n st argv = SequenceFn ev' n st argv"
    unfolding SequenceFn_def by (auto simp: EV intro!: Option.bind_cong split: option.split)
qed

lemma arguments_cong: "(\<And>e s. e \<in> set argv \<Longrightarrow> ev e s = ev' e s) \<Longrightarrow> map ev argv = map ev' argv"
  by (auto intro!: map_cong ext)

lemma call_fn_cong [fundef_cong]:
  assumes "native = native'" "f = f'" "n = n'" "st = st'" "argv = argv'"
    and "\<And>e s. e \<in> set argv' \<Longrightarrow> ev e s = ev' e s"
  shows "call_fn native ev f n st argv = call_fn native' ev' f' n' st' argv'"
  unfolding assms(1-5)
  by (cases f') (simp_all add: call_fn_def Literal_def fixed_arity_cong [OF assms(6)]
      AssertFn_cong [OF assms(6)] StdoutFn_cong [OF assms(6)] LessThanIntFn_cong [OF assms(6)]
      GreaterThanIntFn_cong [OF assms(6)] arguments_cong [OF assms(6)])

fun EvaluateValue :: "'w natives \<Rightarrow> Expr \<Rightarrow> 'w State \<Rightarrow> (Value, 'w) ret" where
  "EvaluateValue native (Expr f name argv s e) st =
     call_fn native (\<lambda>a t. EvaluateValue native a t) f name st argv"

section \<open>Building expressions and the function table\<close>

definition Build :: "Function \<Rightarrow> int \<times> int \<Rightarrow> Expr list \<Rightarrow> Expr" where
  "Build fn loc args = Expr fn ''(operator)'' args (fst loc) (snd loc)"

record NamedFunction =
  nf_name :: string
  nf_fn :: Function

text \<open>
  The globals \<open>fn_entries\<close>, \<open>fn_size\<close> and \<open>fn_table\<close>: \<open>fn_table\<close> holds the entries in use, so
  \<open>fn_entries\<close> is its length; storing at an index beyond \<open>fn_size\<close> would be out of bounds.
\<close>

record FnTable =
  fn_size :: nat
  fn_table :: "NamedFunction list"

definition empty_FnTable :: FnTable where
  "empty_FnTable = \<lparr>fn_size = 0, fn_table = []\<rparr>"

definition RegisterFunction :: "string \<Rightarrow> Function \<Rightarrow> FnTable \<Rightarrow> FnTable option" where
  "RegisterFunction name fn t =
     (let t1 = (if fn_size t \<le> length (fn_table t) then t\<lparr>fn_size := fn_size t * 2 + 1\<rparr> else t)
      in if length (fn_table t1) < fn_size t1
         then Some (t1\<lparr>fn_table := fn_table t1 @ [\<lparr>nf_name = name, nf_fn = fn\<rparr>]\<rparr>)
         else None)"

definition fn_entry_compare :: "NamedFunction \<Rightarrow> NamedFunction \<Rightarrow> int" where
  "fn_entry_compare a b = strcmp (nf_name a) (nf_name b)"

definition FinishRegistration :: "FnTable \<Rightarrow> FnTable" where
  "FinishRegistration t = t\<lparr>fn_table := c_qsort fn_entry_compare (fn_table t)\<rparr>"

text \<open>The \<open>fn\<close> member of the search key is not initialised and not read.\<close>

definition FindFunction :: "FnTable \<Rightarrow> string \<Rightarrow> Function option" where
  "FindFunction t name =
     (let key = \<lparr>nf_name = name, nf_fn = LiteralF\<rparr> in
      map_option nf_fn
        (c_bsearch fn_entry_compare key (fn_table t) 0 (length (fn_table t))))"

definition RegisterBuiltins :: "FnTable \<Rightarrow> FnTable option" where
  "RegisterBuiltins t =
     do { t \<leftarrow> RegisterFunction ''ifelse'' IfElseF t;
          t \<leftarrow> RegisterFunction ''abort'' AbortF t;
          t \<leftarrow> RegisterFunction ''assert'' AssertF t;
          t \<leftarrow> RegisterFunction ''concat'' ConcatF t;
          t \<leftarrow> RegisterFunction ''is_substring'' SubstringF t;
          t \<leftarrow> RegisterFunction ''stdout'' StdoutF t;
          t \<leftarrow> RegisterFunction ''sleep'' SleepF t;
          t \<leftarrow> RegisterFunction ''less_than_int'' LessThanIntF t;
          RegisterFunction ''greater_than_int'' GreaterThanIntF t }"

text \<open>A sequence of registrations, in order.\<close>

fun register_all :: "(string \<times> Function) list \<Rightarrow> FnTable \<Rightarrow> FnTable option" where
  "register_all [] t = Some t"
| "register_all ((n, f) # rs) t = do { t1 \<leftarrow> RegisterFunction n f t; register_all rs t1 }"

section \<open>What an evaluator promises\<close>

text \<open>
  The contract stated at the head of \<open>expr.c\<close>, for a call that starts in \<open>st\<close>: a \<open>NULL\<close> result
  comes with an error message, any other result leaves the message alone; the script is never
  changed and output is only added.
\<close>

definition ret_ok :: "'w State \<Rightarrow> 'r option \<times> 'w State \<Rightarrow> bool" where
  "ret_ok st p \<longleftrightarrow>
     script (snd p) = script st \<and> prefix (out st) (out (snd p)) \<and> prefix (slept st) (slept (snd p))
     \<and> (if fst p = None then errmsg (snd p) \<noteq> None else errmsg (snd p) = errmsg st)"

definition ok :: "'w State \<Rightarrow> ('r, 'w) ret \<Rightarrow> bool" where
  "ok st m \<longleftrightarrow> (case m of None \<Rightarrow> True | Some p \<Rightarrow> ret_ok st p)"

text \<open>
  \<open>ok st m\<close>: every outcome of \<open>m\<close>, run from \<open>st\<close>, meets the contract. There is one rule per
  way the functions of \<open>expr.c\<close> compose calls; \<open>ok_seq\<close> is "evaluate, return if \<open>NULL\<close>,
  otherwise go on".
\<close>

named_theorems ok_rules \<open>rules for the evaluator contract\<close>

lemma StringValue_Some [simp]: "StringValue (Some s) = Some \<lparr>vtype = VAL_STRING, vsize = int (length s), vdata = s\<rparr>"
  by (simp add: StringValue_def)

lemma StringValue_None [simp]: "StringValue None = None"
  by (simp add: StringValue_def)

lemma ret_ok_trans: "ret_ok st (Some r, st1) \<Longrightarrow> ret_ok st1 p \<Longrightarrow> ret_ok st p"
  by (auto simp: ret_ok_def intro: prefix_order.trans)

lemma ok_None: "ok st None"
  by (simp add: ok_def)

lemma ok_seq [ok_rules]:
  assumes "ok st m" and "\<And>x st1. m = Some (Some x, st1) \<Longrightarrow> ok st1 (k x st1)"
  shows "ok st (m \<bind> (\<lambda>(r, st1). case r of None \<Rightarrow> Some (None, st1) | Some x \<Rightarrow> k x st1))"
proof (cases m)
  case (Some p)
  then obtain r st1 where p: "m = Some (r, st1)" by (cases p) auto
  show ?thesis
  proof (cases r)
    case None
    with p assms(1) show ?thesis by (simp add: ok_def ret_ok_def)
  next
    case (Some x)
    with p assms(2) have "ok st1 (k x st1)" by simp
    moreover have "ret_ok st (Some x, st1)" using p Some assms(1) by (simp add: ok_def)
    ultimately show ?thesis
      using p Some by (auto simp: ok_def split: option.split intro: ret_ok_trans)
  qed
qed (simp add: ok_def)

lemma ok_read [ok_rules]: "(\<And>a. m = Some a \<Longrightarrow> ok st (k a)) \<Longrightarrow> ok st (m \<bind> k)"
  by (cases m) (auto simp: ok_None)

lemma ok_map: "ok st m \<Longrightarrow> ok st (m \<bind> (\<lambda>(r, st1). Some (map_option f r, st1)))"
  by (cases m) (auto simp: ok_def ret_ok_def)

lemma ok_string_map: "ok st m \<Longrightarrow> ok st (m \<bind> (\<lambda>(r, st1). Some (StringValue (map_option f r), st1)))"
  by (cases m) (auto simp: ok_def ret_ok_def StringValue_def split: option.splits)

lemma ok_ret [ok_rules]: "ok st (Some (Some x, st))"
  by (simp add: ok_def ret_ok_def)

lemma ok_string [ok_rules]:
  "ok st (Some (StringValue (Some s), st))"
  "ok st (Some (StringValue (Some s), st\<lparr>out := out st @ t\<rparr>))"
  "ok st (Some (StringValue (Some s), st\<lparr>slept := slept st @ u\<rparr>))"
  by (simp_all add: ok_def ret_ok_def)

lemma ok_error [ok_rules]:
  "ok st (Some (None, st\<lparr>errmsg := Some m\<rparr>))"
  "ok st (Some (None, ErrorAbort st m))"
  by (simp_all add: ok_def ret_ok_def ErrorAbort_def)

lemma ok_if [ok_rules]: "(b \<Longrightarrow> ok st x) \<Longrightarrow> (\<not> b \<Longrightarrow> ok st y) \<Longrightarrow> ok st (if b then x else y)"
  by simp

lemma ok_pair [ok_rules]: "(\<And>a b. p = (a, b) \<Longrightarrow> ok st (f a b)) \<Longrightarrow> ok st (case p of (a, b) \<Rightarrow> f a b)"
  by (cases p) simp

lemma ok_after_output: "ok (st\<lparr>out := out st @ t\<rparr>) m \<Longrightarrow> ok st m"
  by (cases m) (auto simp: ok_def ret_ok_def prefix_def)

lemma ok_script: "ok st m \<Longrightarrow> m = Some (r, st1) \<Longrightarrow> script st1 = script st"
  by (simp add: ok_def ret_ok_def)

text \<open>What a registered function has to promise: given arguments that keep the contract, it keeps it too; given
  arguments that are defined, it is defined.\<close>

definition natives_ok :: "'w natives \<Rightarrow> bool" where
  "natives_ok native \<longleftrightarrow> (\<forall>m name st args. (\<forall>a \<in> set args. \<forall>s. ok s (a s)) \<longrightarrow> ok st (native m name st args))"

definition natives_defined :: "'w natives \<Rightarrow> bool" where
  "natives_defined native \<longleftrightarrow> (\<forall>m name st args. (\<forall>a \<in> set args. \<forall>s. ok s (a s))
     \<longrightarrow> (\<forall>a \<in> set args. \<forall>s. script s = script st \<longrightarrow> a s \<noteq> None) \<longrightarrow> native m name st args \<noteq> None)"

locale evaluation_contract =
  fixes ev :: "('e, 'w) evaluation" and D :: "'e set"
  assumes ev_ok: "e \<in> D \<Longrightarrow> ok st (ev e st)"
begin

lemma Evaluate_ok: "e \<in> D \<Longrightarrow> ok st (Evaluate ev e st)"
  unfolding Evaluate_def by (intro ok_rules ev_ok)

lemma ReadVarArgs_ok: "set argv \<subseteq> D \<Longrightarrow> ok st (ReadVarArgs ev st argv)"
  by (induction argv arbitrary: st) (auto intro!: ok_seq ok_map ok_ret Evaluate_ok)

lemma ReadValueVarArgs_ok: "set argv \<subseteq> D \<Longrightarrow> ok st (ReadValueVarArgs ev st argv)"
  by (induction argv arbitrary: st) (auto intro!: ok_seq ok_map ok_ret ev_ok)

lemma ReadArgs_ok:
  assumes "set argv \<subseteq> D"
  shows "ok st (ReadArgs ev st argv n)"
proof -
  have "ok st (ReadVarArgs ev st (take n argv))"
    by (rule ReadVarArgs_ok) (use assms set_take_subset [of n argv] in blast)
  then show ?thesis
    using ReadVarArgs_ok [OF assms, of st] by (auto simp: ReadArgs_def ok_None split: option.split)
qed

lemma ReadValueArgs_ok:
  assumes "set argv \<subseteq> D"
  shows "ok st (ReadValueArgs ev st argv n)"
proof -
  have "ok st (ReadValueVarArgs ev st (take n argv))"
    by (rule ReadValueVarArgs_ok) (use assms set_take_subset [of n argv] in blast)
  then show ?thesis
    using ReadValueVarArgs_ok [OF assms, of st] by (auto simp: ReadValueArgs_def ok_None split: option.split)
qed

end

text \<open>The builtins are called with expressions of the script.\<close>

locale evaluator_contract = evaluation_contract ev D for ev :: "'w evaluator" and D :: "Expr set"
begin

lemma AssertFn_ok: "set argv \<subseteq> D \<Longrightarrow> ok st (AssertFn ev n st argv)"
proof (induction argv arbitrary: st)
  case Nil
  show ?case unfolding AssertFn.simps by (rule ok_string)
next
  case (Cons e es)
  then show ?case
    unfolding AssertFn.simps by (intro ok_seq ok_if ok_read ok_error Evaluate_ok) auto
qed

lemma StdoutFn_ok: "set argv \<subseteq> D \<Longrightarrow> ok st (StdoutFn ev n st argv)"
proof (induction argv arbitrary: st)
  case Nil
  show ?case unfolding StdoutFn.simps by (rule ok_string)
next
  case (Cons e es)
  then show ?case
    unfolding StdoutFn.simps by (intro ok_seq Evaluate_ok) (auto intro: ok_after_output)
qed

lemma LessThanIntFn_ok: "set argv \<subseteq> D \<Longrightarrow> ok st (LessThanIntFn ev n st argv)"
  unfolding LessThanIntFn_def Let_def by (intro ok_rules ReadArgs_ok)

lemma GreaterThanIntFn_ok: "set argv \<subseteq> D \<Longrightarrow> ok st (GreaterThanIntFn ev n st argv)"
  unfolding GreaterThanIntFn_def by (intro ok_rules LessThanIntFn_ok) auto

lemma operators_ok:
  assumes "set argv \<subseteq> D"
  shows "ok st (Literal ev n st argv)"
    and "ok st (ConcatFn ev n st argv)"
    and "ok st (IfElseFn ev n st argv)"
    and "ok st (AbortFn ev n st argv)"
    and "ok st (SleepFn ev n st argv)"
    and "ok st (LogicalAndFn ev n st argv)"
    and "ok st (LogicalOrFn ev n st argv)"
    and "ok st (LogicalNotFn ev n st argv)"
    and "ok st (SubstringFn ev n st argv)"
    and "ok st (EqualityFn ev n st argv)"
    and "ok st (InequalityFn ev n st argv)"
    and "ok st (SequenceFn ev n st argv)"
proof -
  have arg: "arg argv i = Some a \<Longrightarrow> a \<in> D" for i a
    using assms by (auto dest: arg_in_set)
  have nth: "i < length argv \<Longrightarrow> argv ! i \<in> D" for i
    using assms by auto
  show "ok st (Literal ev n st argv)"
    unfolding Literal_def by (intro ok_rules)
  show "ok st (ConcatFn ev n st argv)"
    unfolding ConcatFn_def by (intro ok_if ok_string ok_string_map ReadVarArgs_ok assms)
  show "ok st (IfElseFn ev n st argv)"
    unfolding IfElseFn_def by (intro ok_rules Evaluate_ok ev_ok nth) auto
  show "ok st (AbortFn ev n st argv)"
  proof (cases argv)
    case Nil
    then show ?thesis by (simp add: AbortFn_def ok_def ret_ok_def)
  next
    case (Cons e es)
    then have "ok st (Evaluate ev e st)" using assms by (intro Evaluate_ok) simp
    with Cons show ?thesis
      by (cases "Evaluate ev e st") (auto simp: AbortFn_def ok_def ret_ok_def split: option.split)
  qed
  show "ok st (SleepFn ev n st argv)"
    unfolding SleepFn_def Let_def by (intro ok_rules Evaluate_ok) (erule arg)
  show "ok st (LogicalAndFn ev n st argv)"
    unfolding LogicalAndFn_def by (intro ok_rules Evaluate_ok ev_ok) (erule arg)+
  show "ok st (LogicalOrFn ev n st argv)"
    unfolding LogicalOrFn_def by (intro ok_rules Evaluate_ok ev_ok) (erule arg)+
  show "ok st (LogicalNotFn ev n st argv)"
    unfolding LogicalNotFn_def by (intro ok_rules Evaluate_ok) (erule arg)
  show "ok st (SubstringFn ev n st argv)"
    unfolding SubstringFn_def by (intro ok_rules Evaluate_ok) (erule arg)+
  show "ok st (EqualityFn ev n st argv)"
    unfolding EqualityFn_def by (intro ok_rules Evaluate_ok) (erule arg)+
  show "ok st (InequalityFn ev n st argv)"
    unfolding InequalityFn_def by (intro ok_rules Evaluate_ok) (erule arg)+
  show "ok st (SequenceFn ev n st argv)"
    unfolding SequenceFn_def by (intro ok_rules ev_ok) (erule arg)+
qed

end

text \<open>
  The second part of the contract: on the expressions of \<open>D\<close>, evaluated in a state with script
  \<open>scr\<close>, the call stays within the arrays it reads.
\<close>

locale total_evaluator = evaluator_contract +
  fixes scr :: string
  assumes ev_defined: "e \<in> D \<Longrightarrow> script st = scr \<Longrightarrow> ev e st \<noteq> None"

lemma defined_seq:
  assumes "m \<noteq> None" "ok st m" "\<And>x st1. script st1 = script st \<Longrightarrow> k x st1 \<noteq> None"
  shows "m \<bind> (\<lambda>(r, st1). case r of None \<Rightarrow> Some (None, st1) | Some x \<Rightarrow> k x st1) \<noteq> None"
  using assms by (cases m) (auto split: option.split dest: ok_script)

lemma defined_arg: "i < length argv \<Longrightarrow> k (argv ! i) \<noteq> None \<Longrightarrow> arg argv i \<bind> k \<noteq> None"
  by (simp add: arg_def)

lemma defined_map: "m \<noteq> None \<Longrightarrow> m \<bind> (\<lambda>(r, st1). Some (f r st1)) \<noteq> None"
  by (cases m) auto

lemma defined_if: "(b \<Longrightarrow> x \<noteq> None) \<Longrightarrow> (\<not> b \<Longrightarrow> y \<noteq> None) \<Longrightarrow> (if b then x else y) \<noteq> None"
  by simp

lemma defined_pair: "(\<And>a b. p = (a, b) \<Longrightarrow> f a b \<noteq> None) \<Longrightarrow> (case p of (a, b) \<Rightarrow> f a b) \<noteq> None"
  by (cases p) simp

lemmas defined_rules = defined_seq defined_arg defined_if defined_pair option.distinct(2)

text \<open>What each builtin needs of its argument vector.\<close>

definition in_script :: "string \<Rightarrow> Expr \<Rightarrow> bool" where
  "in_script scr e \<longleftrightarrow> 0 \<le> ex_start e \<and> ex_start e \<le> ex_end e \<and> ex_end e \<le> int (length scr)"

definition arity_ok :: "string \<Rightarrow> Function \<Rightarrow> Expr list \<Rightarrow> bool" where
  "arity_ok scr f argv =
     (case f of
        AssertF \<Rightarrow> list_all (in_script scr) argv
      | SleepF \<Rightarrow> 1 \<le> length argv
      | LogicalNotF \<Rightarrow> 1 \<le> length argv
      | LogicalAndF \<Rightarrow> 2 \<le> length argv
      | LogicalOrF \<Rightarrow> 2 \<le> length argv
      | SubstringF \<Rightarrow> 2 \<le> length argv
      | EqualityF \<Rightarrow> 2 \<le> length argv
      | InequalityF \<Rightarrow> 2 \<le> length argv
      | SequenceF \<Rightarrow> 2 \<le> length argv
      | _ \<Rightarrow> True)"

context total_evaluator
begin

lemma Evaluate_defined: "e \<in> D \<Longrightarrow> script st = scr \<Longrightarrow> Evaluate ev e st \<noteq> None"
  unfolding Evaluate_def by (rule defined_seq [OF ev_defined ev_ok]) simp_all

lemma ReadVarArgs_defined: "set argv \<subseteq> D \<Longrightarrow> script st = scr \<Longrightarrow> ReadVarArgs ev st argv \<noteq> None"
proof (induction argv arbitrary: st)
  case (Cons e es)
  then show ?case
    unfolding ReadVarArgs.simps
    by (intro defined_seq [OF Evaluate_defined Evaluate_ok] defined_map) auto
qed simp

lemma ReadValueVarArgs_defined: "set argv \<subseteq> D \<Longrightarrow> script st = scr \<Longrightarrow> ReadValueVarArgs ev st argv \<noteq> None"
proof (induction argv arbitrary: st)
  case (Cons e es)
  then show ?case
    unfolding ReadValueVarArgs.simps
    by (intro defined_seq [OF ev_defined ev_ok] defined_map) auto
qed simp

lemma AssertFn_defined:
  "set argv \<subseteq> D \<Longrightarrow> script st = scr \<Longrightarrow> list_all (in_script scr) argv \<Longrightarrow> AssertFn ev n st argv \<noteq> None"
proof (induction argv arbitrary: st)
  case (Cons e es)
  then show ?case
    unfolding AssertFn.simps
    by (intro defined_seq [OF Evaluate_defined Evaluate_ok] defined_if)
      (auto simp: script_slice_def in_script_def)
qed simp

lemma StdoutFn_defined: "set argv \<subseteq> D \<Longrightarrow> script st = scr \<Longrightarrow> StdoutFn ev n st argv \<noteq> None"
proof (induction argv arbitrary: st)
  case (Cons e es)
  then show ?case
    unfolding StdoutFn.simps
    by (intro defined_seq [OF Evaluate_defined Evaluate_ok]) auto
qed simp

lemma LessThanIntFn_defined:
  assumes "set argv \<subseteq> D" "script st = scr"
  shows "LessThanIntFn ev n st argv \<noteq> None"
proof -
  have "length argv = 2 \<Longrightarrow> ReadArgs ev st argv 2 \<noteq> None"
    using ReadVarArgs_defined [OF assms] by (simp add: ReadArgs_def)
  then show ?thesis
    unfolding LessThanIntFn_def Let_def
    by (intro defined_if defined_seq [where st = st, OF _ ReadArgs_ok [OF assms(1)]] defined_pair) auto
qed

lemma GreaterThanIntFn_defined:
  assumes "set argv \<subseteq> D" "script st = scr"
  shows "GreaterThanIntFn ev n st argv \<noteq> None"
  unfolding GreaterThanIntFn_def
  using assms by (intro defined_if LessThanIntFn_defined) auto

lemma operators_defined:
  assumes "set argv \<subseteq> D" and scr: "script st = scr"
  shows "ConcatFn ev n st argv \<noteq> None"
    and "IfElseFn ev n st argv \<noteq> None"
    and "AbortFn ev n st argv \<noteq> None"
    and "1 \<le> length argv \<Longrightarrow> SleepFn ev n st argv \<noteq> None"
    and "1 \<le> length argv \<Longrightarrow> LogicalNotFn ev n st argv \<noteq> None"
    and "2 \<le> length argv \<Longrightarrow> LogicalAndFn ev n st argv \<noteq> None"
    and "2 \<le> length argv \<Longrightarrow> LogicalOrFn ev n st argv \<noteq> None"
    and "2 \<le> length argv \<Longrightarrow> SubstringFn ev n st argv \<noteq> None"
    and "2 \<le> length argv \<Longrightarrow> EqualityFn ev n st argv \<noteq> None"
    and "2 \<le> length argv \<Longrightarrow> InequalityFn ev n st argv \<noteq> None"
    and "2 \<le> length argv \<Longrightarrow> SequenceFn ev n st argv \<noteq> None"
proof -
  have nth: "i < length argv \<Longrightarrow> argv ! i \<in> D" for i
    using assms by auto
  note E = Evaluate_defined [OF nth] Evaluate_ok [OF nth] ev_defined [OF nth] ev_ok [OF nth]
  note rules = defined_if defined_arg defined_pair defined_seq [OF E(1,2)] defined_seq [OF E(3,4)]
    E(1,3) option.distinct(2)
  show "ConcatFn ev n st argv \<noteq> None"
    unfolding ConcatFn_def by (intro defined_if defined_map ReadVarArgs_defined assms) simp
  show "IfElseFn ev n st argv \<noteq> None"
    unfolding IfElseFn_def
    by (intro rules) (use scr in auto)
  show "AbortFn ev n st argv \<noteq> None"
    unfolding AbortFn_def
    by (rule defined_map) (use assms in \<open>cases argv; auto dest: Evaluate_defined\<close>)
  show "SleepFn ev n st argv \<noteq> None" if "1 \<le> length argv"
    unfolding SleepFn_def Let_def by (intro rules) (use that scr in auto)
  show "LogicalNotFn ev n st argv \<noteq> None" if "1 \<le> length argv"
    unfolding LogicalNotFn_def by (intro rules) (use that scr in auto)
  show "LogicalAndFn ev n st argv \<noteq> None" if "2 \<le> length argv"
    unfolding LogicalAndFn_def by (intro rules) (use that scr in auto)
  show "LogicalOrFn ev n st argv \<noteq> None" if "2 \<le> length argv"
    unfolding LogicalOrFn_def by (intro rules) (use that scr in auto)
  show "SubstringFn ev n st argv \<noteq> None" if "2 \<le> length argv"
    unfolding SubstringFn_def by (intro rules) (use that scr in auto)
  show "EqualityFn ev n st argv \<noteq> None" if "2 \<le> length argv"
    unfolding EqualityFn_def by (intro rules) (use that scr in auto)
  show "InequalityFn ev n st argv \<noteq> None" if "2 \<le> length argv"
    unfolding InequalityFn_def by (intro rules) (use that scr in auto)
  show "SequenceFn ev n st argv \<noteq> None" if "2 \<le> length argv"
    unfolding SequenceFn_def by (intro rules) (use that scr in auto)
qed

lemma call_fn_defined:
  assumes D: "set argv \<subseteq> D" and scr: "script st = scr" and ar: "arity_ok scr f argv"
    and nat: "natives_defined native"
  shows "call_fn native ev f n st argv \<noteq> None"
proof (cases f)
  case (NativeF m)
  have "\<forall>a \<in> set (map ev argv). \<forall>s. ok s (a s)" "\<forall>a \<in> set (map ev argv). \<forall>s. script s = script st \<longrightarrow> a s \<noteq> None"
    using D ev_ok ev_defined scr by auto
  with NativeF nat show ?thesis by (simp only: call_fn_def Function.case natives_defined_def) blast
qed (use operators_defined [OF D scr] AssertFn_defined [OF D scr] StdoutFn_defined [OF D scr]
    LessThanIntFn_defined [OF D scr] GreaterThanIntFn_defined [OF D scr] ar in
    \<open>simp_all only: call_fn_def Function.case arity_ok_def Literal_def option.distinct simp_thms\<close>)

end

context evaluator_contract
begin

lemma call_fn_ok:
  assumes D: "set argv \<subseteq> D" and nat: "natives_ok native"
  shows "ok st (call_fn native ev f n st argv)"
proof (cases f)
  case (NativeF m)
  have "\<forall>a \<in> set (map ev argv). \<forall>s. ok s (a s)" using D ev_ok by auto
  with NativeF nat show ?thesis by (simp only: call_fn_def Function.case natives_ok_def)
qed (use operators_ok [OF D] AssertFn_ok [OF D] StdoutFn_ok [OF D] LessThanIntFn_ok [OF D]
    GreaterThanIntFn_ok [OF D] in \<open>simp_all only: call_fn_def Function.case\<close>)

end

section \<open>The evaluator meets its contract\<close>

fun wf_expr :: "string \<Rightarrow> Expr \<Rightarrow> bool" where
  "wf_expr scr (Expr f n argv s e) = (arity_ok scr f argv \<and> list_all (wf_expr scr) argv)"

lemma EvaluateValue_ok:
  "natives_ok native \<Longrightarrow> ok st (EvaluateValue native e st)"
proof (induction native e st rule: EvaluateValue.induct)
  case (1 native f name argv s e st)
  then have c: "evaluator_contract (EvaluateValue native) (set argv)"
    by unfold_locales auto
  show ?case
    using evaluator_contract.call_fn_ok [OF c order.refl 1(2)] by simp
qed

lemma EvaluateValue_defined:
  "natives_ok native \<Longrightarrow> natives_defined native \<Longrightarrow> wf_expr (script st) e
     \<Longrightarrow> EvaluateValue native e st \<noteq> None"
proof (induction native e st rule: EvaluateValue.induct)
  case (1 native f name argv s e st)
  have "total_evaluator (EvaluateValue native) (set argv) (script st)"
  proof
    fix a :: Expr and t
    assume "a \<in> set argv"
    show "ok t (EvaluateValue native a t)"
      by (rule EvaluateValue_ok) (rule 1(2))
    assume "script t = script st"
    with \<open>a \<in> set argv\<close> show "EvaluateValue native a t \<noteq> None"
      using 1 by (simp add: list_all_iff)
  qed
  then have "call_fn native (EvaluateValue native) f name st argv \<noteq> None"
    by (rule total_evaluator.call_fn_defined) (use 1 in auto)
  then show ?case by simp
qed

text \<open>
  The stand-alone interpreter of \<open>edify/main.c\<close> registers the builtins only, so no parsed
  expression holds a native function; \<open>no_natives\<close> stands for its empty set of natives.
\<close>

definition no_natives :: "'w natives" where
  "no_natives m name st args = Some (None, st\<lparr>errmsg := Some (''unknown function '' @ m)\<rparr>)"

lemma no_natives_ok: "natives_ok no_natives" "natives_defined no_natives"
  by (simp_all add: natives_ok_def natives_defined_def no_natives_def ok_def ret_ok_def)

interpretation builtins: total_evaluator "EvaluateValue no_natives" "{e. wf_expr scr e}" scr for scr
  by unfold_locales (use EvaluateValue_ok EvaluateValue_defined no_natives_ok in blast)+

text \<open>C14: a well-formed script evaluates without undefined behaviour, with the builtins or with
  any natives that keep the contract; a \<open>NULL\<close> result comes with an error message, any other
  result leaves the error message as it was, the script text is unchanged and output is only
  appended.\<close>

theorem EvaluateValue_contract:
  assumes "natives_ok native" "natives_defined native" "wf_expr (script st) e"
  shows "\<exists>r st'. EvaluateValue native e st = Some (r, st')
     \<and> script st' = script st \<and> prefix (out st) (out st')
     \<and> (r = None \<longrightarrow> errmsg st' \<noteq> None) \<and> (r \<noteq> None \<longrightarrow> errmsg st' = errmsg st)"
proof -
  obtain r st' where "EvaluateValue native e st = Some (r, st')"
    using EvaluateValue_defined [OF assms] by auto
  moreover have "ret_ok st (r, st')"
    using EvaluateValue_ok [OF assms(1), of st e] calculation by (simp add: ok_def)
  ultimately show ?thesis by (auto simp: ret_ok_def)
qed

theorem EvaluateValue_contract_witness:
  "let e = Expr LogicalAndF ''(operator)'' [Expr LiteralF ''a'' [] 0 1, Expr AssertF ''assert'' [Expr LiteralF [] [] 12 14] 5 15] 0 15;
       st = \<lparr>cookie = (), script = ''a && assert(\"\")'', errmsg = None, out = [], slept = []\<rparr>
   in natives_ok (no_natives :: unit natives) \<and> natives_defined (no_natives :: unit natives) \<and> wf_expr (script st) e
      \<and> (\<exists>r st'. EvaluateValue no_natives e st = Some (r, st')
         \<and> script st' = script st \<and> prefix (out st) (out st')
         \<and> (r = None \<longrightarrow> errmsg st' \<noteq> None) \<and> (r \<noteq> None \<longrightarrow> errmsg st' = errmsg st))"
proof -
  let ?e = "Expr LogicalAndF ''(operator)'' [Expr LiteralF ''a'' [] 0 1, Expr AssertF ''assert'' [Expr LiteralF [] [] 12 14] 5 15] 0 15"
  let ?st = "\<lparr>cookie = (), script = ''a && assert(\"\")'', errmsg = None, out = [], slept = []\<rparr>"
  have "wf_expr (script ?st) ?e"
    by (simp add: arity_ok_def in_script_def)
  then show ?thesis
    using EvaluateValue_contract [OF no_natives_ok, of ?st ?e] no_natives_ok by (simp only: Let_def)
qed

section \<open>The function table\<close>

interpretation fn_entry: c_order fn_entry_compare
  by unfold_locales (use strcmp_pos_iff strcmp_le_trans in \<open>auto simp: fn_entry_compare_def\<close>)

definition wf_FnTable :: "FnTable \<Rightarrow> bool" where
  "wf_FnTable t \<longleftrightarrow> length (fn_table t) \<le> fn_size t"

lemma RegisterFunction_wf:
  assumes "wf_FnTable t"
  shows "\<exists>t'. RegisterFunction n f t = Some t' \<and> wf_FnTable t'
    \<and> fn_table t' = fn_table t @ [\<lparr>nf_name = n, nf_fn = f\<rparr>]"
  using assms by (auto simp: RegisterFunction_def wf_FnTable_def Let_def)

lemma register_all_wf:
  "wf_FnTable t \<Longrightarrow> \<exists>t'. register_all rs t = Some t' \<and> wf_FnTable t'
     \<and> fn_table t' = fn_table t @ map (\<lambda>(n, f). \<lparr>nf_name = n, nf_fn = f\<rparr>) rs"
proof (induction rs t rule: register_all.induct)
  case (2 n f rs t)
  obtain t1 where "RegisterFunction n f t = Some t1" "wf_FnTable t1"
    "fn_table t1 = fn_table t @ [\<lparr>nf_name = n, nf_fn = f\<rparr>]"
    using RegisterFunction_wf [OF 2(2), of n f] by blast
  with 2 show ?case by auto
qed simp

lemma FindFunction_sorted:
  assumes "fn_table t = c_qsort fn_entry_compare es" "distinct (map nf_name es)"
  shows "FindFunction t n = map_of (map (\<lambda>e. (nf_name e, nf_fn e)) es) n"
proof -
  let ?key = "\<lparr>nf_name = n, nf_fn = LiteralF\<rparr>"
  let ?s = "c_bsearch fn_entry_compare ?key (c_qsort fn_entry_compare es) 0 (length es)"
  have eq: "fn_entry_compare ?key e = 0 \<longleftrightarrow> nf_name e = n" for e
    by (auto simp: fn_entry_compare_def)
  have find: "FindFunction t n = map_option nf_fn ?s"
    using assms(1) by (simp add: FindFunction_def)
  show ?thesis
  proof (cases ?s)
    case None
    then have "n \<notin> fst ` set (map (\<lambda>e. (nf_name e, nf_fn e)) es)"
      using fn_entry.bsearch_qsort [of ?key es] by (auto simp: eq)
    then have "map_of (map (\<lambda>e. (nf_name e, nf_fn e)) es) n = None"
      by (simp only: map_of_eq_None_iff not_False_eq_True)
    with None find show ?thesis by simp
  next
    case (Some e)
    then have "e \<in> set es" "nf_name e = n"
      using fn_entry.bsearch_Some [OF Some] by (auto simp: eq)
    moreover have "distinct (map fst (map (\<lambda>e. (nf_name e, nf_fn e)) es))"
      using assms(2) by (simp add: comp_def)
    ultimately have "map_of (map (\<lambda>e. (nf_name e, nf_fn e)) es) n = Some (nf_fn e)"
      by (intro map_of_is_SomeI) auto
    with Some find show ?thesis by simp
  qed
qed

lemma registered_found:
  assumes "distinct (map fst rs)"
  shows "\<exists>t. register_all rs empty_FnTable = Some t
    \<and> (\<forall>n. FindFunction (FinishRegistration t) n = map_of rs n)"
proof -
  obtain t where t: "register_all rs empty_FnTable = Some t"
    and es: "fn_table t = map (\<lambda>(n, f). \<lparr>nf_name = n, nf_fn = f\<rparr>) rs"
    using register_all_wf [of empty_FnTable rs] by (auto simp: wf_FnTable_def empty_FnTable_def)
  have d: "distinct (map nf_name (fn_table t))"
    using assms by (simp add: es comp_def case_prod_unfold)
  have "FindFunction (FinishRegistration t) n = map_of rs n" for n
    using FindFunction_sorted [OF _ d, of "FinishRegistration t" n]
    by (simp add: FinishRegistration_def es comp_def case_prod_unfold)
  with t show ?thesis by blast
qed

text \<open>After any sequence of registrations under distinct names and \<open>FinishRegistration\<close>, no
  store has left the table, and \<open>FindFunction\<close> returns exactly the function registered under the
  name it is given, \<open>NULL\<close> for every other name.\<close>

theorem FindFunction_registered:
  assumes "distinct (map fst rs)"
  shows "\<exists>t. register_all rs empty_FnTable = Some t
    \<and> (\<forall>n. FindFunction (FinishRegistration t) n = map_of rs n)"
  using assms by (rule registered_found)

theorem FindFunction_registered_witness:
  "distinct (map fst [(''ifelse'', IfElseF), (''abort'', AbortF), (''getprop'', NativeF ''getprop'')])
   \<and> (\<exists>t. register_all [(''ifelse'', IfElseF), (''abort'', AbortF), (''getprop'', NativeF ''getprop'')] empty_FnTable = Some t
     \<and> (\<forall>n. FindFunction (FinishRegistration t) n
          = map_of [(''ifelse'', IfElseF), (''abort'', AbortF), (''getprop'', NativeF ''getprop'')] n))"
proof -
  have h: "distinct (map fst [(''ifelse'', IfElseF), (''abort'', AbortF), (''getprop'', NativeF ''getprop'')])"
    by simp
  show ?thesis using h FindFunction_registered [OF h] by blast
qed

lemma register_all_fun:
  "register_all [] = Some"
  "register_all (p # rs) = (\<lambda>t. RegisterFunction (fst p) (snd p) t \<bind> register_all rs)"
  by (auto simp: fun_eq_iff) (cases p, simp)

lemma RegisterBuiltins_register_all:
  "RegisterBuiltins t = register_all
     [(''ifelse'', IfElseF), (''abort'', AbortF), (''assert'', AssertF), (''concat'', ConcatF),
      (''is_substring'', SubstringF), (''stdout'', StdoutF), (''sleep'', SleepF),
      (''less_than_int'', LessThanIntF), (''greater_than_int'', GreaterThanIntF)] t"
  by (simp add: RegisterBuiltins_def register_all_fun)

section \<open>Behaviour of the builtins\<close>

text \<open>What a call \<open>name(args)\<close>, built by the parser, evaluates to.\<close>

abbreviation call :: "Function \<Rightarrow> Expr list \<Rightarrow> Expr" where
  "call f args \<equiv> Expr f [] args 0 0"

abbreviation string_lit :: "string \<Rightarrow> Expr" where
  "string_lit s \<equiv> Expr LiteralF s [] 0 0"

lemma Evaluate_literal:
  "Evaluate (EvaluateValue native) (Expr LiteralF s a b c) st = Some (Some s, st)"
  by (simp add: Evaluate_def call_fn_def Literal_def)

text \<open>C35: \<open>edify/README\<close>'s equivalence of \<open>assert(c)\<close> and \<open>ifelse(c, "", abort())\<close>: both abort or
  both return the empty string, with the same output and the same natives run; only the error
  message differs, and for \<open>assert\<close> it quotes the source text of \<open>c\<close>.\<close>

theorem assert_is_ifelse_abort:
  assumes "natives_ok native" "in_script (script st) c"
  shows "case (EvaluateValue native (call AssertF [c]) st,
               EvaluateValue native (call IfElseF [c, string_lit [], call AbortF []]) st) of
      (Some (r, st1), Some (r', st2)) \<Rightarrow>
         r = r' \<and> st1\<lparr>errmsg := None\<rparr> = st2\<lparr>errmsg := None\<rparr>
         \<and> (r = None \<or> r = StringValue (Some []))
    | (None, None) \<Rightarrow> True
    | _ \<Rightarrow> False"
proof (cases "Evaluate (EvaluateValue native) c st")
  case None
  then show ?thesis
    by (simp add: call_fn_def IfElseFn_def)
next
  case (Some p)
  obtain v st1 where p: "Evaluate (EvaluateValue native) c st = Some (v, st1)"
    using Some by (cases p) auto
  have c: "evaluation_contract (EvaluateValue native) UNIV"
    by unfold_locales (rule EvaluateValue_ok [OF assms(1)])
  have "script st1 = script st"
    using ok_script [OF evaluation_contract.Evaluate_ok [OF c UNIV_I] p] .
  with assms(2) have "\<exists>src. script_slice st1 c = Some src"
    by (simp add: script_slice_def in_script_def)
  with p show ?thesis
    by (cases v) (auto simp: call_fn_def IfElseFn_def AbortFn_def Literal_def)
qed

theorem assert_is_ifelse_abort_witness:
  "natives_ok (no_natives :: unit natives)
   \<and> in_script ''assert(x == y)'' (call EqualityF [string_lit ''x'', string_lit ''y''])
   \<and> (case (EvaluateValue (no_natives :: unit natives) (call AssertF [call EqualityF [string_lit ''x'', string_lit ''y'']])
                \<lparr>cookie = (), script = ''assert(x == y)'', errmsg = None, out = [], slept = []\<rparr>,
             EvaluateValue (no_natives :: unit natives)
                (call IfElseF [call EqualityF [string_lit ''x'', string_lit ''y''], string_lit [], call AbortF []])
                \<lparr>cookie = (), script = ''assert(x == y)'', errmsg = None, out = [], slept = []\<rparr>) of
      (Some (r, st1), Some (r', st2)) \<Rightarrow>
         r = r' \<and> st1\<lparr>errmsg := None\<rparr> = st2\<lparr>errmsg := None\<rparr>
         \<and> (r = None \<or> r = StringValue (Some []))
    | (None, None) \<Rightarrow> True
    | _ \<Rightarrow> False)"
proof -
  let ?c = "call EqualityF [string_lit ''x'', string_lit ''y'']"
  let ?st = "\<lparr>cookie = (), script = ''assert(x == y)'', errmsg = None, out = [], slept = []\<rparr>"
  have h: "in_script (script ?st) ?c" by (simp add: in_script_def)
  show ?thesis
    using h no_natives_ok(1) assert_is_ifelse_abort [OF no_natives_ok(1) h] by simp
qed

text \<open>On the decimal text of two numbers that a \<open>long\<close> can hold, \<open>less_than_int\<close> and
  \<open>greater_than_int\<close> return \<open>t\<close> exactly when the numbers compare that way, the empty string
  otherwise, and change nothing.\<close>

theorem int_comparison:
  assumes "LONG_MIN \<le> a" "a \<le> LONG_MAX" "LONG_MIN \<le> b" "b \<le> LONG_MAX"
  shows "EvaluateValue native (call LessThanIntF [string_lit (dec_int a), string_lit (dec_int b)]) st
           = Some (StringValue (Some (if a < b then ''t'' else [])), st)
       \<and> EvaluateValue native (call GreaterThanIntF [string_lit (dec_int a), string_lit (dec_int b)]) st
           = Some (StringValue (Some (if a > b then ''t'' else [])), st)"
proof -
  have ne: "dec_int v \<noteq> []" for v by (simp add: dec_int_def)
  have args: "ReadArgs (EvaluateValue native) st [string_lit s, string_lit t] 2 = Some (Some [s, t], st)" for s t
    by (simp add: ReadArgs_def Evaluate_literal del: EvaluateValue.simps)
  show ?thesis
    using assms strtol10_dec_int ne
    by (simp add: call_fn_def LessThanIntFn_def GreaterThanIntFn_def args del: StringValue_Some)
qed

theorem int_comparison_witness:
  "LONG_MIN \<le> -7 \<and> (-7 :: int) \<le> LONG_MAX \<and> LONG_MIN \<le> 12 \<and> (12 :: int) \<le> LONG_MAX
   \<and> EvaluateValue no_natives (call LessThanIntF [string_lit (dec_int (-7)), string_lit (dec_int 12)])
        \<lparr>cookie = (), script = [], errmsg = None, out = [], slept = []\<rparr>
      = Some (StringValue (Some ''t''), \<lparr>cookie = (), script = [], errmsg = None, out = [], slept = []\<rparr>)"
proof -
  have h: "LONG_MIN \<le> -7" "(-7 :: int) \<le> LONG_MAX" "LONG_MIN \<le> 12" "(12 :: int) \<le> LONG_MAX"
    by (simp_all add: LONG_MIN_def LONG_MAX_def)
  show ?thesis
    using h int_comparison [OF h, of no_natives "\<lparr>cookie = (), script = [], errmsg = None, out = [], slept = []\<rparr>"]
    by simp
qed

text \<open>\<open>is_substring\<close> and \<open>sleep\<close> do not check how many arguments they were given: a script
  that calls one with too few reads \<open>argv\<close> outside its bounds, while \<open>ifelse\<close> and
  \<open>less_than_int\<close> report an error.\<close>

theorem missing_arity_check:
  "EvaluateValue native (call SubstringF []) st = None
   \<and> EvaluateValue native (call SubstringF [string_lit s]) st = None
   \<and> EvaluateValue native (call SleepF []) st = None
   \<and> EvaluateValue native (call IfElseF []) st
       = Some (None, st\<lparr>errmsg := Some ''ifelse expects 2 or 3 arguments''\<rparr>)
   \<and> EvaluateValue native (call LessThanIntF []) st
       = Some (None, st\<lparr>errmsg := Some ''less_than_int expects 2 arguments''\<rparr>)"
  by (simp add: call_fn_def SubstringFn_def SleepFn_def IfElseFn_def LessThanIntFn_def arg_def
      Evaluate_def Literal_def)

end
