(* ===== verification/HashTable.thy ===== *)
theory HashTable
  imports Prelude "HOL-Library.Multiset"
begin

text \<open>
  The open-addressing hash table of \<open>minzip/Hash.c\<close> and the iterator of \<open>minzip/Hash.h\<close>. A data
  pointer is null, the tombstone constant or an item; items are compared through the callback
  \<open>cmp\<close> and, in \<open>mzHashTableRemove\<close>, by pointer equality, which is equality of items here. The
  probe loops are \<open>partial_function\<close>s: that they end is proved from the invariant.
  \<^term>\<open>None\<close> stands for undefined behaviour, a failed \<open>assert\<close>, \<open>abort\<close> or a probe that does
  not end. \<open>calloc_ok n\<close> tells whether an allocation of \<open>n\<close> entries succeeds.
\<close>

section \<open>Data\<close>

datatype 'a dataptr = Null | Tombstone | Item 'a

record 'a HashEntry =
  hashValue :: u32
  data :: "'a dataptr"

record 'a HashTable =
  tableSize :: nat
  numEntries :: nat
  numDeadEntries :: nat
  pEntries :: "'a HashEntry list"

abbreviation is_item :: "'a HashEntry \<Rightarrow> bool" where
  "is_item e \<equiv> (case data e of Item _ \<Rightarrow> True | _ \<Rightarrow> False)"

abbreviation zero_entry :: "'a HashEntry" where
  "zero_entry \<equiv> \<lparr>hashValue = 0, data = Null\<rparr>"

definition LOAD_NUMER :: nat where "LOAD_NUMER = 5"
definition LOAD_DENOM :: nat where "LOAD_DENOM = 8"
definition INT_MAX :: nat where "INT_MAX = 2 ^ 31 - 1"

section \<open>Operations\<close>

definition mzHashSize :: "u64 \<Rightarrow> u64" where
  "mzHashSize sz = (sz * of_nat LOAD_DENOM) div of_nat LOAD_NUMER + 1"

definition roundUpPower2 :: "u32 \<Rightarrow> u32" where
  "roundUpPower2 val =
     (let val = val - 1;
          val = val OR drop_bit 1 val;
          val = val OR drop_bit 2 val;
          val = val OR drop_bit 4 val;
          val = val OR drop_bit 8 val;
          val = val OR drop_bit 16 val
      in val + 1)"

text \<open>
  \<open>tableSize\<close> is an \<open>int\<close>: a rounded size of \<open>2\<^sup>31\<close> is negative there and asks \<open>calloc\<close> for
  more than the address space.
\<close>

definition mzHashTableCreate :: "(nat \<Rightarrow> bool) \<Rightarrow> u64 \<Rightarrow> 'a HashTable option option" where
  "mzHashTableCreate calloc_ok initialSize =
     (if initialSize = 0 then None
      else
        let sz = roundUpPower2 (ucast initialSize) in
        if sint sz < 0 \<or> \<not> calloc_ok (unat sz) then Some None
        else Some (Some \<lparr>tableSize = unat sz, numEntries = 0, numDeadEntries = 0,
                         pEntries = replicate (unat sz) zero_entry\<rparr>))"

text \<open>\<open>mzHashTableClear\<close> returns the items passed to \<open>freeFunc\<close>, in order.\<close>

fun clear_entries :: "bool \<Rightarrow> 'a HashEntry list \<Rightarrow> 'a HashEntry list \<times> 'a list" where
  "clear_entries freeFunc [] = ([], [])"
| "clear_entries freeFunc (e # es) =
     (let (es', freed) = clear_entries freeFunc es in
      case data e of
        Tombstone \<Rightarrow> (e\<lparr>data := Null\<rparr> # es', freed)
      | Item x \<Rightarrow> (e\<lparr>data := Null\<rparr> # es', if freeFunc then x # freed else freed)
      | Null \<Rightarrow> (e # es', freed))"

definition mzHashTableClear :: "bool \<Rightarrow> 'a HashTable \<Rightarrow> 'a HashTable \<times> 'a list" where
  "mzHashTableClear freeFunc t =
     (let (es, freed) = clear_entries freeFunc (pEntries t)
      in (t\<lparr>pEntries := es, numEntries := 0, numDeadEntries := 0\<rparr>, freed))"

definition mzHashTableFree :: "bool \<Rightarrow> 'a HashTable option \<Rightarrow> 'a list" where
  "mzHashTableFree freeFunc t =
     (case t of None \<Rightarrow> [] | Some t \<Rightarrow> snd (mzHashTableClear freeFunc t))"

definition countTombStones :: "'a HashTable \<Rightarrow> nat" where
  "countTombStones t = length (filter (\<lambda>e. data e = Tombstone) (pEntries t))"

text \<open>\<open>x & (size - 1)\<close>.\<close>

definition mask_index :: "u32 \<Rightarrow> nat \<Rightarrow> nat" where
  "mask_index x sz = unat (x AND (of_nat sz - 1))"

text \<open>The inner loop of \<open>resizeHash\<close>: the first free slot from \<open>newIdx\<close> on.\<close>

partial_function (option) free_slot :: "'a HashEntry list \<Rightarrow> nat \<Rightarrow> nat option" where
  "free_slot es newIdx =
     (if length es \<le> newIdx then None
      else if data (es ! newIdx) = Null then Some newIdx
      else free_slot es (mask_index (of_nat (newIdx + 1)) (length es)))"

fun reinsert :: "'a HashEntry list \<Rightarrow> 'a HashEntry list \<Rightarrow> 'a HashEntry list option" where
  "reinsert [] new = Some new"
| "reinsert (e # es) new =
     (if is_item e
      then do { i \<leftarrow> free_slot new (mask_index (hashValue e) (length new));
                reinsert es (new[i := \<lparr>hashValue = hashValue e, data = data e\<rparr>]) }
      else reinsert es new)"

definition resizeHash :: "(nat \<Rightarrow> bool) \<Rightarrow> 'a HashTable \<Rightarrow> nat \<Rightarrow> (bool \<times> 'a HashTable) option" where
  "resizeHash calloc_ok t newSize =
     (if countTombStones t \<noteq> numDeadEntries t then None
      else if \<not> calloc_ok newSize then Some (False, t)
      else do {
        es \<leftarrow> reinsert (pEntries t) (replicate newSize zero_entry);
        let t1 = t\<lparr>pEntries := es, tableSize := newSize, numDeadEntries := 0\<rparr>;
        if countTombStones t1 = 0 then Some (True, t1) else None })"

text \<open>
  The probe loop of \<open>mzHashTableLookup\<close>, \<open>mzHashTableRemove\<close> and \<open>countProbes\<close>: it stops at a
  null slot, at a slot that \<open>hit\<close> accepts, or, in a table with one entry, past the table. The
  second component counts the steps.
\<close>

datatype probe_end = Slot nat | PastEnd

partial_function (option) probe ::
  "('a HashEntry \<Rightarrow> bool) \<Rightarrow> 'a HashEntry list \<Rightarrow> nat \<Rightarrow> nat \<Rightarrow> (probe_end \<times> nat) option" where
  "probe hit es i steps =
     (if length es \<le> i then None
      else if data (es ! i) = Null then Some (Slot i, steps)
      else if hit (es ! i) then Some (Slot i, steps)
      else if i + 1 = length es then
        (if length es = 1 then Some (PastEnd, steps) else probe hit es 0 (steps + 1))
      else probe hit es (i + 1) (steps + 1))"

definition lookup_hit :: "('a \<Rightarrow> 'a \<Rightarrow> int) \<Rightarrow> u32 \<Rightarrow> 'a \<Rightarrow> 'a HashEntry \<Rightarrow> bool" where
  "lookup_hit cmp itemHash item e =
     (case data e of Item x \<Rightarrow> hashValue e = itemHash \<and> cmp x item = 0 | _ \<Rightarrow> False)"

text \<open>
  \<open>mzHashTableLookup\<close>. When the probe ran past a one-entry table the source goes on to read the
  slot behind it. The load test is computed in \<open>int\<close>; a failing \<open>resizeHash\<close> calls \<open>abort\<close>.
\<close>

definition mzHashTableLookup ::
  "(nat \<Rightarrow> bool) \<Rightarrow> 'a HashTable \<Rightarrow> u32 \<Rightarrow> 'a \<Rightarrow> ('a \<Rightarrow> 'a \<Rightarrow> int) \<Rightarrow> bool
     \<Rightarrow> ('a option \<times> 'a HashTable) option" where
  "mzHashTableLookup calloc_ok t itemHash item cmp doAdd =
     (if tableSize t = 0 then None
      else do {
        (fin, _) \<leftarrow> probe (lookup_hit cmp itemHash item) (pEntries t)
                       (mask_index itemHash (tableSize t)) 0;
        case fin of
          PastEnd \<Rightarrow> None
        | Slot i \<Rightarrow>
            (case data (pEntries t ! i) of
               Null \<Rightarrow>
                 if doAdd then do {
                   let t1 = t\<lparr>pEntries := (pEntries t)[i := \<lparr>hashValue = itemHash, data = Item item\<rparr>],
                              numEntries := numEntries t + 1\<rparr>;
                   t2 \<leftarrow>
                     (if INT_MAX < (numEntries t1 + numDeadEntries t1) * LOAD_DENOM
                         \<or> INT_MAX < tableSize t1 * LOAD_NUMER then None
                      else if tableSize t1 * LOAD_NUMER < (numEntries t1 + numDeadEntries t1) * LOAD_DENOM
                      then do { (ok, t2) \<leftarrow> resizeHash calloc_ok t1 (tableSize t1 * 2);
                                if ok then Some t2 else None }
                      else Some t1);
                   if numEntries t2 < tableSize t2 then Some (Some item, t2) else None }
                 else Some (None, t)
             | Item x \<Rightarrow> Some (Some x, t)
             | Tombstone \<Rightarrow> None) })"

definition mzHashTableRemove :: "'a HashTable \<Rightarrow> u32 \<Rightarrow> 'a \<Rightarrow> (bool \<times> 'a HashTable) option" where
  "mzHashTableRemove t itemHash item =
     (if tableSize t = 0 then None
      else do {
        (fin, _) \<leftarrow> probe (\<lambda>e. data e = Item item) (pEntries t) (mask_index itemHash (tableSize t)) 0;
        case fin of
          PastEnd \<Rightarrow> Some (False, t)
        | Slot i \<Rightarrow>
            if data (pEntries t ! i) = Null then Some (False, t)
            else Some (True, t\<lparr>pEntries := (pEntries t)[i := (pEntries t ! i)\<lparr>data := Tombstone\<rparr>],
                               numEntries := numEntries t - 1,
                               numDeadEntries := numDeadEntries t + 1\<rparr>) })"

text \<open>\<open>mzHashForeach\<close> threads a state through the callback.\<close>

fun foreach_entries :: "('a \<Rightarrow> 's \<Rightarrow> int \<times> 's) \<Rightarrow> 'a HashEntry list \<Rightarrow> 's \<Rightarrow> int \<times> 's" where
  "foreach_entries func [] s = (0, s)"
| "foreach_entries func (e # es) s =
     (case data e of
        Item x \<Rightarrow> (let (val, s1) = func x s in if val \<noteq> 0 then (val, s1) else foreach_entries func es s1)
      | _ \<Rightarrow> foreach_entries func es s)"

definition mzHashForeach :: "'a HashTable \<Rightarrow> ('a \<Rightarrow> 's \<Rightarrow> int \<times> 's) \<Rightarrow> 's \<Rightarrow> int \<times> 's" where
  "mzHashForeach t func s = foreach_entries func (pEntries t) s"

definition countProbes :: "'a HashTable \<Rightarrow> u32 \<Rightarrow> 'a \<Rightarrow> ('a \<Rightarrow> 'a \<Rightarrow> int) \<Rightarrow> int option" where
  "countProbes t itemHash item cmp =
     (if tableSize t = 0 then None
      else do {
        (fin, cnt) \<leftarrow> probe (lookup_hit cmp itemHash item) (pEntries t)
                           (mask_index itemHash (tableSize t)) 0;
        case fin of
          PastEnd \<Rightarrow> None
        | Slot i \<Rightarrow> Some (if data (pEntries t ! i) = Null then -1 else int cnt) })"

definition mzHashTableNumEntries :: "'a HashTable \<Rightarrow> nat" where
  "mzHashTableNumEntries t = numEntries t"

text \<open>The iterator: \<open>idx\<close> runs over the slots, \<open>mzHashIterNext\<close> moves it to the next item.\<close>

record HashIter =
  idx :: int

fun next_item :: "'a HashEntry list \<Rightarrow> nat \<Rightarrow> nat" where
  "next_item [] i = i"
| "next_item (e # es) i = (if is_item e then i else next_item es (Suc i))"

definition mzHashIterNext :: "'a HashTable \<Rightarrow> HashIter \<Rightarrow> HashIter" where
  "mzHashIterNext t it =
     (let i = nat (idx it + 1) in it\<lparr>idx := int (next_item (drop i (pEntries t)) i)\<rparr>)"

definition mzHashIterBegin :: "'a HashTable \<Rightarrow> HashIter" where
  "mzHashIterBegin t = mzHashIterNext t \<lparr>idx = -1\<rparr>"

definition mzHashIterDone :: "'a HashTable \<Rightarrow> HashIter \<Rightarrow> bool" where
  "mzHashIterDone t it \<longleftrightarrow> int (tableSize t) \<le> idx it"

definition mzHashIterData :: "'a HashTable \<Rightarrow> HashIter \<Rightarrow> 'a dataptr option" where
  "mzHashIterData t it =
     (if 0 \<le> idx it \<and> idx it < int (tableSize t) then Some (data (pEntries t ! nat (idx it))) else None)"

text \<open>
  \<open>mzHashTableProbeCount\<close> measures every item with \<open>countProbes\<close>: the number of items and the
  least, greatest and total count. The average it also logs is not modelled.
\<close>

record ProbeStats =
  ps_numEntries :: int
  ps_minProbe :: int
  ps_maxProbe :: int
  ps_totalProbe :: int

fun probe_loop ::
  "'a HashTable \<Rightarrow> ('a \<Rightarrow> u32) \<Rightarrow> ('a \<Rightarrow> 'a \<Rightarrow> int) \<Rightarrow> 'a HashEntry list \<Rightarrow> ProbeStats \<Rightarrow> ProbeStats option" where
  "probe_loop t calc cmp [] ps = Some ps"
| "probe_loop t calc cmp (e # es) ps =
     (case data e of
        Item x \<Rightarrow>
          do { c \<leftarrow> countProbes t (calc x) x cmp;
               probe_loop t calc cmp es
                 \<lparr>ps_numEntries = ps_numEntries ps + 1,
                  ps_minProbe = (if c < ps_minProbe ps then c else ps_minProbe ps),
                  ps_maxProbe = (if ps_maxProbe ps < c then c else ps_maxProbe ps),
                  ps_totalProbe = ps_totalProbe ps + c\<rparr> }
      | _ \<Rightarrow> probe_loop t calc cmp es ps)"

definition mzHashTableProbeCount ::
  "'a HashTable \<Rightarrow> ('a \<Rightarrow> u32) \<Rightarrow> ('a \<Rightarrow> 'a \<Rightarrow> int) \<Rightarrow> ProbeStats option" where
  "mzHashTableProbeCount t calc cmp =
     probe_loop t calc cmp (pEntries t)
       \<lparr>ps_numEntries = 0, ps_minProbe = 65536 * 32767, ps_maxProbe = 0, ps_totalProbe = 0\<rparr>"

section \<open>Powers of two\<close>

lemma smear_step:
  fixes x v :: u32
  assumes "\<And>n. bit x n \<longleftrightarrow> (\<exists>j<w. bit v (n + j))"
  shows "bit (x OR drop_bit w x) n \<longleftrightarrow> (\<exists>j<w + w. bit v (n + j))"
proof
  assume "bit (x OR drop_bit w x) n"
  then consider "bit x n" | "bit x (w + n)" by (auto simp: bit_or_iff bit_drop_bit_eq)
  then show "\<exists>j<w + w. bit v (n + j)"
  proof cases
    case 1
    then show ?thesis using assms by (metis trans_less_add1)
  next
    case 2
    then obtain j where "j < w" "bit v (w + n + j)" using assms by blast
    then show ?thesis by (intro exI [of _ "w + j"]) (simp add: add.commute add.left_commute)
  qed
next
  assume "\<exists>j<w + w. bit v (n + j)"
  then obtain j where j: "j < w + w" "bit v (n + j)" by blast
  show "bit (x OR drop_bit w x) n"
  proof (cases "j < w")
    case True
    with j assms show ?thesis by (auto simp: bit_or_iff)
  next
    case False
    then have "bit v ((w + n) + (j - w))" "j - w < w" using j by (auto simp: add.commute)
    then have "bit x (w + n)" using assms by blast
    then show ?thesis by (simp add: bit_or_iff bit_drop_bit_eq)
  qed
qed

lemma roundUpPower2_mask:
  fixes val :: u32
  defines "v \<equiv> val - 1"
  shows "\<exists>x. roundUpPower2 val = x + 1 \<and> (\<forall>n. bit x n \<longleftrightarrow> (\<exists>j<32. bit v (n + j)))"
proof -
  define x1 where "x1 = v OR drop_bit 1 v"
  define x2 where "x2 = x1 OR drop_bit 2 x1"
  define x4 where "x4 = x2 OR drop_bit 4 x2"
  define x8 where "x8 = x4 OR drop_bit 8 x4"
  define x16 where "x16 = x8 OR drop_bit 16 x8"
  have "bit v n \<longleftrightarrow> (\<exists>j<1. bit v (n + j))" for n by simp
  from smear_step [OF this] have 1: "bit x1 n \<longleftrightarrow> (\<exists>j<2. bit v (n + j))" for n
    by (simp add: x1_def numeral_2_eq_2)
  from smear_step [OF 1] have 2: "bit x2 n \<longleftrightarrow> (\<exists>j<4. bit v (n + j))" for n
    by (simp add: x2_def)
  from smear_step [OF 2] have 4: "bit x4 n \<longleftrightarrow> (\<exists>j<8. bit v (n + j))" for n
    by (simp add: x4_def)
  from smear_step [OF 4] have 8: "bit x8 n \<longleftrightarrow> (\<exists>j<16. bit v (n + j))" for n
    by (simp add: x8_def)
  from smear_step [OF 8] have "bit x16 n \<longleftrightarrow> (\<exists>j<32. bit v (n + j))" for n
    by (simp add: x16_def)
  moreover have "roundUpPower2 val = x16 + 1"
    by (simp add: roundUpPower2_def Let_def v_def x1_def x2_def x4_def x8_def x16_def)
  ultimately show ?thesis by blast
qed

lemma unat_exp_u32: "k < 32 \<Longrightarrow> unat (2 ^ k :: u32) = 2 ^ k"
proof -
  assume "k < 32"
  then have "(2 :: nat) ^ k < 2 ^ 32" by (intro power_strict_increasing) auto
  moreover have "(2 ^ k :: u32) = word_of_nat (2 ^ k)" by simp
  ultimately show ?thesis by (simp only: unat_of_nat) (simp add: take_bit_nat_eq_self)
qed

lemma nat_top_bit:
  fixes v :: nat
  assumes "v < 2 ^ Suc k" "2 ^ k \<le> v"
  shows "bit v k"
proof -
  have "v div 2 ^ k = 1"
    using assms by (intro div_nat_eqI) auto
  then show ?thesis by (simp add: bit_iff_odd)
qed

lemma nat_high_bit:
  fixes v :: nat
  assumes "v < 2 ^ k" "bit v n"
  shows "n < k"
proof (rule ccontr)
  assume "\<not> n < k"
  then have "(2 :: nat) ^ k \<le> 2 ^ n" by simp
  with assms(1) have "v < 2 ^ n" by (rule less_le_trans)
  then have "v div 2 ^ n = 0" by simp
  with assms(2) show False by (simp add: bit_iff_odd)
qed

lemma roundUpPower2_bound:
  assumes "0 < unat val" "unat val \<le> 2 ^ 31"
  shows "\<exists>k \<le> 31. unat (roundUpPower2 val) = 2 ^ k \<and> unat val \<le> 2 ^ k \<and> (\<forall>j. unat val \<le> 2 ^ j \<longrightarrow> k \<le> j)"
proof -
  define v where "v = val - 1"
  obtain x where x: "roundUpPower2 val = x + 1" "\<And>n. bit x n \<longleftrightarrow> (\<exists>j<32. bit v (n + j))"
    using roundUpPower2_mask [of val] by (auto simp: v_def)
  have uv: "unat v = unat val - 1"
    using assms by (auto simp: v_def unat_sub_if' word_le_nat_alt)
  define k where "k = (LEAST k. unat val \<le> 2 ^ k)"
  have le: "unat val \<le> 2 ^ k"
    unfolding k_def by (rule LeastI [of _ 31]) (rule assms(2))
  have least: "k \<le> j" if "unat val \<le> 2 ^ j" for j
    unfolding k_def using that by (rule Least_le)
  have "k \<le> 31" using assms(2) by (rule least)
  have lt: "unat v < 2 ^ k" using le assms(1) by (simp add: uv)
  have top: "bit (unat v) (k - 1)" if "0 < k"
  proof (rule nat_top_bit)
    show "unat v < 2 ^ Suc (k - 1)" using lt that by simp
    have "\<not> unat val \<le> 2 ^ (k - 1)" using least [of "k - 1"] that by auto
    then show "2 ^ (k - 1) \<le> unat v" by (simp add: uv)
  qed
  have "x = mask k"
  proof (rule bit_word_eqI)
    fix n assume "n < LENGTH(32)"
    show "bit x n = bit (mask k :: u32) n"
    proof
      assume "bit x n"
      then obtain j where "bit v (n + j)" using x(2) by blast
      then have "n + j < k" using nat_high_bit [OF lt] by (simp add: bit_unsigned_iff)
      then show "bit (mask k :: u32) n" using \<open>n < LENGTH(32)\<close> by (simp add: bit_mask_iff)
    next
      assume "bit (mask k :: u32) n"
      then have "n < k" by (simp add: bit_mask_iff)
      then have "bit v (n + (k - 1 - n))" using top by (simp add: bit_unsigned_iff)
      moreover have "k - 1 - n < 32" using \<open>k \<le> 31\<close> by simp
      ultimately show "bit x n" using x(2) by blast
    qed
  qed
  then have "roundUpPower2 val = 2 ^ k" using x(1) by (simp add: mask_eq_exp_minus_1)
  moreover have "unat (2 ^ k :: u32) = 2 ^ k"
    using \<open>k \<le> 31\<close> by (intro unat_exp_u32) simp
  ultimately show ?thesis using \<open>k \<le> 31\<close> le least by auto
qed

text \<open>For every size up to \<open>2\<^sup>31\<close>, the shift-and-or chain of \<open>roundUpPower2\<close> computes the least
  power of two that is not smaller.\<close>

theorem roundUpPower2_least:
  assumes "0 < unat val" "unat val \<le> 2 ^ 31"
  shows "\<exists>k \<le> 31. unat (roundUpPower2 val) = 2 ^ k \<and> unat val \<le> 2 ^ k \<and> (\<forall>j. unat val \<le> 2 ^ j \<longrightarrow> k \<le> j)"
  by (rule roundUpPower2_bound [OF assms])

theorem roundUpPower2_least_witness:
  "0 < unat (100 :: u32) \<and> unat (100 :: u32) \<le> 2 ^ 31
   \<and> (\<exists>k \<le> 31. unat (roundUpPower2 100) = 2 ^ k \<and> unat (100 :: u32) \<le> 2 ^ k
        \<and> (\<forall>j. unat (100 :: u32) \<le> 2 ^ j \<longrightarrow> k \<le> j))"
proof -
  have h: "0 < unat (100 :: u32)" "unat (100 :: u32) \<le> 2 ^ 31" by simp_all
  show ?thesis using h roundUpPower2_least [OF h] by blast
qed

lemma mask_index_mod:
  assumes "sz = 2 ^ k" "k < 32"
  shows "mask_index x sz = unat x mod sz"
proof -
  have "(of_nat sz - 1 :: u32) = mask k"
    by (simp add: assms mask_eq_exp_minus_1)
  then have "mask_index x sz = unat (take_bit k x)"
    by (simp only: mask_index_def take_bit_eq_mask)
  also have "\<dots> = unat x mod 2 ^ k"
    by (subst unsigned_take_bit_eq) (simp only: take_bit_eq_mod)
  finally show ?thesis by (simp only: assms)
qed

section \<open>Probing\<close>

text \<open>
  A probe from slot \<open>p\<close> visits the slots \<open>(p + d) mod n\<close> for \<open>d = 0, 1, \<dots>\<close>; it ends at the first
  one that is null or accepted.
\<close>

definition stops :: "('a HashEntry \<Rightarrow> bool) \<Rightarrow> 'a HashEntry list \<Rightarrow> nat \<Rightarrow> bool" where
  "stops hit es i \<longleftrightarrow> data (es ! i) = Null \<or> hit (es ! i)"

lemma mod_next:
  assumes "p < (n :: nat)"
  shows "(if p + 1 = n then 0 else p + 1) = (p + 1) mod n"
  using assms by auto

lemma mod_shift: "((p + 1) mod n + d) mod n = (p + Suc d) mod (n :: nat)"
  by (metis Suc_eq_plus1 add.commute add.left_commute mod_add_left_eq plus_1_eq_Suc)

lemma probe_first:
  assumes "p < length es" "stops hit es ((p + d) mod length es)"
    and "\<And>d'. d' < d \<Longrightarrow> \<not> stops hit es ((p + d') mod length es)"
  shows "probe hit es p s = Some (Slot ((p + d) mod length es), s + d)"
  using assms
proof (induction d arbitrary: p s)
  case 0
  then show ?case by (subst probe.simps) (auto simp: stops_def)
next
  case (Suc d)
  let ?n = "length es"
  have np: "\<not> stops hit es p" using Suc.prems(3) [of 0] Suc.prems(1) by simp
  have n1: "?n \<noteq> 1" using Suc.prems np by (cases "?n = 1") auto
  have "probe hit es ((p + 1) mod ?n) (s + 1) = Some (Slot (((p + 1) mod ?n + d) mod ?n), s + 1 + d)"
  proof (rule Suc.IH)
    show "(p + 1) mod ?n < ?n" using Suc.prems(1) by (intro mod_less_divisor) linarith
    show "stops hit es (((p + 1) mod ?n + d) mod ?n)" using Suc.prems(2) by (simp only: mod_shift)
    show "\<not> stops hit es (((p + 1) mod ?n + d') mod ?n)" if "d' < d" for d'
      using Suc.prems(3) [of "Suc d'"] that by (simp only: mod_shift) simp
  qed
  moreover have "s + 1 + d = s + Suc d" by simp
  ultimately have "probe hit es (if p + 1 = ?n then 0 else p + 1) (s + 1)
      = Some (Slot ((p + Suc d) mod ?n), s + Suc d)"
    by (simp only: mod_next [OF Suc.prems(1)] mod_shift)
  then show ?case
    using Suc.prems(1) np n1 by (subst probe.simps) (auto simp: stops_def)
qed

lemma reach_slot:
  assumes "i < n" "p < (n :: nat)"
  shows "\<exists>d < n. i = (p + d) mod n"
proof (cases "p \<le> i")
  case True
  then show ?thesis using assms by (intro exI [of _ "i - p"]) auto
next
  case False
  then show ?thesis using assms by (intro exI [of _ "i + n - p"]) auto
qed

lemma probe_total:
  assumes "p < length es" "i < length es" "data (es ! i) = Null"
  shows "\<exists>d < length es. probe hit es p s = Some (Slot ((p + d) mod length es), s + d)
    \<and> stops hit es ((p + d) mod length es)
    \<and> (\<forall>d' < d. \<not> stops hit es ((p + d') mod length es))"
proof -
  obtain d0 where d0: "d0 < length es" "stops hit es ((p + d0) mod length es)"
    using reach_slot [OF assms(2,1)] assms(3) by (auto simp: stops_def)
  define d where "d = (LEAST d. stops hit es ((p + d) mod length es))"
  have st: "stops hit es ((p + d) mod length es)"
    unfolding d_def by (rule LeastI) (rule d0(2))
  have first: "\<not> stops hit es ((p + d') mod length es)" if "d' < d" for d'
    using that not_less_Least unfolding d_def by blast
  have "d \<le> d0" unfolding d_def by (rule Least_le) (rule d0(2))
  then show ?thesis
    using d0(1) st first probe_first [OF assms(1) st] by (intro exI [of _ d]) auto
qed

lemma free_slot_first:
  assumes "length es = 2 ^ k" "k < 31" "p < length es" "data (es ! ((p + d) mod length es)) = Null"
    and "\<And>d'. d' < d \<Longrightarrow> data (es ! ((p + d') mod length es)) \<noteq> Null"
  shows "free_slot es p = Some ((p + d) mod length es)"
  using assms(3-5)
proof (induction d arbitrary: p)
  case 0
  then show ?case by (subst free_slot.simps) auto
next
  case (Suc d)
  let ?n = "length es"
  have np: "data (es ! p) \<noteq> Null" using Suc.prems(3) [of 0] Suc.prems(1) by simp
  have "?n < 2 ^ 31" unfolding assms(1) by (rule power_strict_increasing [OF assms(2)]) simp
  then have "unat (of_nat (p + 1) :: u32) = p + 1"
    using Suc.prems(1) by (simp only: unat_of_nat) (simp add: take_bit_nat_eq_self)
  then have next_idx: "mask_index (of_nat (p + 1)) ?n = (p + 1) mod ?n"
    using mask_index_mod [of ?n k] assms(1,2) by simp
  have "free_slot es ((p + 1) mod ?n) = Some (((p + 1) mod ?n + d) mod ?n)"
  proof (rule Suc.IH)
    show "(p + 1) mod ?n < ?n" using Suc.prems(1) by (intro mod_less_divisor) linarith
    show "data (es ! (((p + 1) mod ?n + d) mod ?n)) = Null" using Suc.prems(2) by (simp only: mod_shift)
    show "data (es ! (((p + 1) mod ?n + d') mod ?n)) \<noteq> Null" if "d' < d" for d'
      using Suc.prems(3) [of "Suc d'"] that by (simp only: mod_shift) simp
  qed
  then show ?case
    using Suc.prems(1) np next_idx by (subst free_slot.simps) (simp only: mod_shift, simp)
qed

lemma free_slot_total:
  assumes "length es = 2 ^ k" "k < 31" "p < length es" "i < length es" "data (es ! i) = Null"
  shows "\<exists>d < length es. free_slot es p = Some ((p + d) mod length es)
    \<and> data (es ! ((p + d) mod length es)) = Null
    \<and> (\<forall>d' < d. data (es ! ((p + d') mod length es)) \<noteq> Null)"
proof -
  obtain d where "d < length es" "stops (\<lambda>_. False) es ((p + d) mod length es)"
    "\<forall>d' < d. \<not> stops (\<lambda>_. False) es ((p + d') mod length es)"
    using probe_total [OF assms(3-5), of "\<lambda>_. False"] by blast
  then show ?thesis
    using free_slot_first [OF assms(1-3), of d] by (intro exI [of _ d]) (auto simp: stops_def)
qed

section \<open>Invariant and contents\<close>

text \<open>
  \<open>reachable es i\<close>: a probe for the hash of the entry in slot \<open>i\<close> meets no null slot before \<open>i\<close>.
\<close>

definition reachable :: "'a HashEntry list \<Rightarrow> nat \<Rightarrow> bool" where
  "reachable es i \<longleftrightarrow>
     (\<exists>d < length es. i = (unat (hashValue (es ! i)) mod length es + d) mod length es
        \<and> (\<forall>d' < d. data (es ! ((unat (hashValue (es ! i)) mod length es + d') mod length es)) \<noteq> Null))"

definition chained :: "'a HashEntry list \<Rightarrow> bool" where
  "chained es \<longleftrightarrow> (\<forall>i < length es. is_item (es ! i) \<longrightarrow> reachable es i)"

definition hash_inv :: "'a HashTable \<Rightarrow> bool" where
  "hash_inv t \<longleftrightarrow>
     (\<exists>k \<le> 28. tableSize t = 2 ^ k) \<and> length (pEntries t) = tableSize t
     \<and> numEntries t = length (filter is_item (pEntries t))
     \<and> numDeadEntries t = length (filter (\<lambda>e. data e = Tombstone) (pEntries t))
     \<and> (numEntries t + numDeadEntries t) * LOAD_DENOM \<le> tableSize t * LOAD_NUMER
     \<and> chained (pEntries t)"

fun entry_item :: "'a HashEntry \<Rightarrow> (u32 \<times> 'a) option" where
  "entry_item e = (case data e of Item x \<Rightarrow> Some (hashValue e, x) | _ \<Rightarrow> None)"

definition items :: "'a HashEntry list \<Rightarrow> (u32 \<times> 'a) list" where
  "items es = List.map_filter entry_item es"

text \<open>The contents of a table: the items with the hash each was stored under.\<close>

definition contents :: "'a HashTable \<Rightarrow> (u32 \<times> 'a) multiset" where
  "contents t = mset (items (pEntries t))"

lemma items_simps [simp]:
  "items [] = []"
  "items (e # es) = (case data e of Item x \<Rightarrow> (hashValue e, x) # items es | _ \<Rightarrow> items es)"
  by (auto simp: items_def List.map_filter_def split: dataptr.split)

lemma items_append [simp]: "items (xs @ ys) = items xs @ items ys"
  by (simp add: items_def List.map_filter_def)

lemma items_replicate [simp]: "items (replicate n zero_entry) = []"
  by (induction n) auto

lemma mem_items: "(h, x) \<in> set (items es) \<longleftrightarrow> (\<exists>i < length es. hashValue (es ! i) = h \<and> data (es ! i) = Item x)"
proof (induction es)
  case (Cons e es)
  then show ?case
    by (auto simp: less_Suc_eq_0_disj split: dataptr.split)
qed simp

lemma mset_items_update:
  assumes "i < length es"
  shows "mset (items (es[i := e])) + mset (items [es ! i]) = mset (items es) + mset (items [e])"
proof -
  have "es = take i es @ es ! i # drop (Suc i) es" using assms by (rule nth_split)
  then have "mset (items es) = mset (items (take i es @ es ! i # drop (Suc i) es))" by simp
  moreover have "es[i := e] = take i es @ e # drop (Suc i) es"
    using assms by (simp add: upd_conv_take_nth_drop)
  ultimately show ?thesis by (simp split: dataptr.split)
qed

lemma nonnull_count:
  "length (filter (\<lambda>e. data e \<noteq> Null) es)
     = length (filter is_item es) + length (filter (\<lambda>e. data e = Tombstone) es)"
  by (induction es) (auto split: dataptr.split)

lemma hash_inv_null:
  assumes "hash_inv t"
  shows "\<exists>i < length (pEntries t). data (pEntries t ! i) = Null"
proof -
  have "0 < tableSize t" using assms by (auto simp: hash_inv_def)
  then have "length (filter (\<lambda>e. data e \<noteq> Null) (pEntries t)) < length (pEntries t)"
    using assms by (simp add: hash_inv_def nonnull_count LOAD_NUMER_def LOAD_DENOM_def)
  then show ?thesis using filter_length_less by fastforce
qed

lemma chained_update:
  assumes "chained es" "i < length es" "data e \<noteq> Null" 
    and "is_item e \<Longrightarrow> \<exists>d < length es. i = (unat (hashValue e) mod length es + d) mod length es
        \<and> (\<forall>d' < d. data (es ! ((unat (hashValue e) mod length es + d') mod length es)) \<noteq> Null)"
  shows "chained (es[i := e])"
  unfolding chained_def
proof (intro allI impI)
  fix j assume j: "j < length (es[i := e])" "is_item (es[i := e] ! j)"
  have keep: "data (es ! m) \<noteq> Null \<Longrightarrow> data (es[i := e] ! m) \<noteq> Null" for m
    using assms(2,3) by (cases "m = i") auto
  show "reachable (es[i := e]) j"
  proof (cases "j = i")
    case True
    with j assms(2,4) keep show ?thesis by (auto simp: reachable_def)
  next
    case False
    with j assms(1) have "reachable es j" by (simp add: chained_def)
    with False keep show ?thesis by (auto simp: reachable_def)
  qed
qed

section \<open>Lookup\<close>

lemma hash_inv_size:
  assumes "hash_inv t"
  shows "0 < tableSize t" "length (pEntries t) = tableSize t" "tableSize t \<le> 2 ^ 28"
    and "mask_index h (tableSize t) = unat h mod tableSize t"
proof -
  obtain k where k: "k \<le> 28" "tableSize t = 2 ^ k"
    using assms by (auto simp: hash_inv_def)
  then show "0 < tableSize t" by simp
  show "length (pEntries t) = tableSize t" using assms by (simp add: hash_inv_def)
  show "tableSize t \<le> 2 ^ 28" unfolding k(2) by (rule power_increasing [OF k(1)]) simp
  show "mask_index h (tableSize t) = unat h mod tableSize t"
    using k by (intro mask_index_mod [OF k(2)]) simp
qed

lemma probe_inv:
  assumes inv: "hash_inv t"
  shows "\<exists>d < tableSize t.
      probe hit (pEntries t) (mask_index h (tableSize t)) 0
        = Some (Slot ((mask_index h (tableSize t) + d) mod tableSize t), d)
    \<and> stops hit (pEntries t) ((mask_index h (tableSize t) + d) mod tableSize t)
    \<and> (\<forall>d' < d. \<not> stops hit (pEntries t) ((mask_index h (tableSize t) + d') mod tableSize t))"
proof -
  note sz = hash_inv_size [OF inv]
  obtain i where i: "i < length (pEntries t)" "data (pEntries t ! i) = Null"
    using hash_inv_null [OF inv] by blast
  have "mask_index h (tableSize t) < length (pEntries t)" using sz by simp
  from probe_total [OF this i, of hit 0] show ?thesis using sz(2) by simp
qed

lemma chain_absent:
  fixes t :: "'a HashTable" and h :: u32
  assumes inv: "hash_inv t" and first: "\<forall>d' < d. \<not> stops hit (pEntries t) ((mask_index h (tableSize t) + d') mod tableSize t)"
    and null: "data (pEntries t ! ((mask_index h (tableSize t) + d) mod tableSize t)) = Null"
    and j: "j < tableSize t" "hashValue (pEntries t ! j) = h" "data (pEntries t ! j) = Item x"
  shows "\<not> hit (pEntries t ! j)"
proof
  assume hit: "hit (pEntries t ! j)"
  let ?p = "mask_index h (tableSize t)" and ?n = "tableSize t"
  note sz = hash_inv_size [OF inv]
  have "reachable (pEntries t) j"
    using inv j by (auto simp: hash_inv_def chained_def)
  then obtain dj where dj: "j = (?p + dj) mod ?n" "\<forall>d' < dj. data (pEntries t ! ((?p + d') mod ?n)) \<noteq> Null"
    using j sz by (auto simp: reachable_def)
  have "stops hit (pEntries t) ((?p + dj) mod ?n)" using hit dj(1) by (simp add: stops_def)
  then have "d \<le> dj" using first not_le by blast
  with dj null j(3) show False by (metis dataptr.distinct(3) le_neq_implies_less)
qed

lemma probe_lookup:
  fixes t :: "'a HashTable" and h :: u32 and item :: 'a and cmp :: "'a \<Rightarrow> 'a \<Rightarrow> int"
  assumes inv: "hash_inv t"
  defines "es \<equiv> pEntries t" and "n \<equiv> tableSize t" and "p \<equiv> mask_index h (tableSize t)"
  shows "\<exists>d < n. probe (lookup_hit cmp h item) es p 0 = Some (Slot ((p + d) mod n), d)
     \<and> (if data (es ! ((p + d) mod n)) = Null
        then (\<forall>d' < d. data (es ! ((p + d') mod n)) \<noteq> Null)
          \<and> (\<forall>x. (h, x) \<in># contents t \<longrightarrow> cmp x item \<noteq> 0)
        else \<exists>x. data (es ! ((p + d) mod n)) = Item x \<and> (h, x) \<in># contents t \<and> cmp x item = 0)"
proof -
  note sz = hash_inv_size [OF inv]
  have len: "length es = n" and p: "p = unat h mod n" "p < n"
    using sz by (simp_all add: es_def n_def p_def)
  obtain d where d: "d < n" "probe (lookup_hit cmp h item) es p 0 = Some (Slot ((p + d) mod n), d)"
    and st: "stops (lookup_hit cmp h item) es ((p + d) mod n)"
    and first: "\<forall>d' < d. \<not> stops (lookup_hit cmp h item) es ((p + d') mod n)"
    using probe_inv [OF inv, of "lookup_hit cmp h item" h] unfolding es_def n_def p_def by blast
  let ?i = "(p + d) mod n"
  have i: "?i < length es" using p(2) len by simp
  show ?thesis
  proof (cases "data (es ! ?i) = Null")
    case True
    have "cmp x item \<noteq> 0" if "(h, x) \<in># contents t" for x
    proof -
      from that obtain j where j: "j < n" "hashValue (es ! j) = h" "data (es ! j) = Item x"
        using len by (auto simp: contents_def es_def mem_items)
      then have "\<not> lookup_hit cmp h item (es ! j)"
        using chain_absent [OF inv, of d "lookup_hit cmp h item" h j x] first True
        by (simp add: es_def n_def p_def)
      with j show ?thesis by (simp add: lookup_hit_def)
    qed
    with True d first show ?thesis by (intro exI [of _ d]) (auto simp: stops_def)
  next
    case False
    then have "lookup_hit cmp h item (es ! ?i)" using st by (simp add: stops_def)
    then obtain x where x: "data (es ! ?i) = Item x" "hashValue (es ! ?i) = h" "cmp x item = 0"
      by (auto simp: lookup_hit_def split: dataptr.splits)
    then have "(h, x) \<in># contents t"
      using i by (auto simp: contents_def mem_items es_def)
    with False d x show ?thesis by (intro exI [of _ d]) auto
  qed
qed

lemma lookup_find:
  assumes "hash_inv t"
  shows "\<exists>r. mzHashTableLookup calloc_ok t h item cmp False = Some (r, t)
    \<and> (case r of None \<Rightarrow> \<forall>x. (h, x) \<in># contents t \<longrightarrow> cmp x item \<noteq> 0
       | Some x \<Rightarrow> (h, x) \<in># contents t \<and> cmp x item = 0)"
proof -
  let ?p = "mask_index h (tableSize t)"
  obtain d where d: "probe (lookup_hit cmp h item) (pEntries t) ?p 0 = Some (Slot ((?p + d) mod tableSize t), d)"
    and r: "if data (pEntries t ! ((?p + d) mod tableSize t)) = Null
        then (\<forall>x. (h, x) \<in># contents t \<longrightarrow> cmp x item \<noteq> 0)
        else \<exists>x. data (pEntries t ! ((?p + d) mod tableSize t)) = Item x \<and> (h, x) \<in># contents t \<and> cmp x item = 0"
    using probe_lookup [OF assms, where h = h and cmp = cmp and item = item] by (auto split: if_splits)
  show ?thesis
    using hash_inv_size(1) [OF assms] r
    by (auto simp: mzHashTableLookup_def d split: if_splits)
qed

section \<open>Growing\<close>

lemma length_items: "length (items es) = length (filter is_item es)"
  by (induction es) (auto split: dataptr.split)

lemma reinsert_ok:
  assumes "length new = 2 ^ k" "k < 31" "chained new" "\<forall>e \<in> set new. data e \<noteq> Tombstone"
    and "length (items new) + length (items es) < length new"
  shows "\<exists>new'. reinsert es new = Some new' \<and> length new' = length new \<and> chained new'
    \<and> (\<forall>e \<in> set new'. data e \<noteq> Tombstone) \<and> mset (items new') = mset (items new) + mset (items es)"
  using assms
proof (induction es arbitrary: new)
  case (Cons e es)
  show ?case
  proof (cases "data e")
    case (Item x)
    let ?n = "length new" and ?p = "mask_index (hashValue e) (length new)"
    have p: "?p = unat (hashValue e) mod ?n" using Cons.prems(1,2) by (simp add: mask_index_mod)
    then have "?p < ?n" using Cons.prems(1) by simp
    have none: "filter (\<lambda>e. data e = Tombstone) new = []" using Cons.prems(4) by (simp add: filter_empty_conv)
    have "length (filter (\<lambda>e. data e \<noteq> Null) new) < ?n"
      using Cons.prems(5) by (simp add: nonnull_count none length_items)
    then obtain i where i0: "i < ?n" "data (new ! i) = Null"
      using filter_length_less [of "\<lambda>e. data e \<noteq> Null" new] by auto
    obtain d where d: "d < ?n" "free_slot new ?p = Some ((?p + d) mod ?n)"
      "data (new ! ((?p + d) mod ?n)) = Null" "\<forall>d' < d. data (new ! ((?p + d') mod ?n)) \<noteq> Null"
      using free_slot_total [OF Cons.prems(1,2) \<open>?p < ?n\<close> i0] by blast
    let ?i = "(?p + d) mod ?n" and ?e = "\<lparr>hashValue = hashValue e, data = data e\<rparr>"
    let ?new = "new[?i := ?e]"
    have i: "?i < ?n" using \<open>?p < ?n\<close> by (intro mod_less_divisor) linarith
    have m: "mset (items ?new) = add_mset (hashValue e, x) (mset (items new))"
      using mset_items_update [OF i, of ?e] d(3) Item by simp
    have "chained ?new"
      using Cons.prems(3) i
    proof (rule chained_update)
      show "\<exists>da < ?n. ?i = (unat (hashValue ?e) mod ?n + da) mod ?n \<and>
          (\<forall>d' < da. data (new ! ((unat (hashValue ?e) mod ?n + d') mod ?n)) \<noteq> Null)"
        using d p by (intro exI [of _ d]) simp
    qed (simp add: Item)
    moreover have "\<forall>e \<in> set ?new. data e \<noteq> Tombstone"
      using Cons.prems(4) Item set_update_subset_insert [of new ?i ?e] by auto
    moreover have "length (items ?new) + length (items es) < length ?new"
      using Cons.prems(5) Item arg_cong [OF m, of size] by simp
    ultimately obtain new' where "reinsert es ?new = Some new'" "length new' = length ?new" "chained new'"
      "\<forall>e \<in> set new'. data e \<noteq> Tombstone" "mset (items new') = mset (items ?new) + mset (items es)"
      using Cons.IH [of ?new] Cons.prems(1,2) by auto
    with Item d m show ?thesis by auto
  qed (use Cons in auto)
qed auto

lemma resizeHash_ok:
  assumes "newSize = 2 ^ k" "k < 31" "length (items (pEntries t)) < newSize"
    and "countTombStones t = numDeadEntries t" "calloc_ok newSize"
  shows "\<exists>es. resizeHash calloc_ok t newSize
      = Some (True, t\<lparr>pEntries := es, tableSize := newSize, numDeadEntries := 0\<rparr>)
    \<and> length es = newSize \<and> chained es \<and> filter (\<lambda>e. data e = Tombstone) es = []
    \<and> mset (items es) = mset (items (pEntries t))"
proof -
  have c: "chained (replicate newSize zero_entry)"
    by (auto simp: chained_def)
  obtain es where es: "reinsert (pEntries t) (replicate newSize zero_entry) = Some es"
    "length es = newSize" "chained es" "\<forall>e \<in> set es. data e \<noteq> Tombstone"
    "mset (items es) = mset (items (pEntries t))"
    using reinsert_ok [of "replicate newSize zero_entry" k "pEntries t"] c assms by auto
  then have "filter (\<lambda>e. data e = Tombstone) es = []" by (simp add: filter_empty_conv)
  with es assms(4,5) show ?thesis
    by (auto simp: resizeHash_def countTombStones_def)
qed

section \<open>Adding\<close>

text \<open>
  \<open>stored t i h item\<close>: the table after the assignments to the null slot \<open>i\<close> a probe for \<open>h\<close>
  found; its load bound may fail.
\<close>

definition stored :: "'a HashTable \<Rightarrow> nat \<Rightarrow> u32 \<Rightarrow> 'a \<Rightarrow> 'a HashTable" where
  "stored t i h item =
     t\<lparr>pEntries := (pEntries t)[i := \<lparr>hashValue = h, data = Item item\<rparr>], numEntries := numEntries t + 1\<rparr>"

definition null_on_path :: "'a HashTable \<Rightarrow> u32 \<Rightarrow> nat \<Rightarrow> bool" where
  "null_on_path t h i \<longleftrightarrow>
     (\<exists>d < tableSize t. i = (mask_index h (tableSize t) + d) mod tableSize t \<and> data (pEntries t ! i) = Null
        \<and> (\<forall>d' < d. data (pEntries t ! ((mask_index h (tableSize t) + d') mod tableSize t)) \<noteq> Null))"

lemma stored_props:
  assumes inv: "hash_inv t" and path: "null_on_path t h i"
  shows "chained (pEntries (stored t i h item))"
    and "length (pEntries (stored t i h item)) = tableSize t"
    and "contents (stored t i h item) = add_mset (h, item) (contents t)"
    and "length (filter is_item (pEntries (stored t i h item))) = numEntries t + 1"
    and "countTombStones (stored t i h item) = numDeadEntries t"
proof -
  note sz = hash_inv_size [OF inv]
  let ?e = "\<lparr>hashValue = h, data = Item item\<rparr>"
  from path obtain d where d: "d < tableSize t" "i = (mask_index h (tableSize t) + d) mod tableSize t"
    "data (pEntries t ! i) = Null"
    "\<forall>d' < d. data (pEntries t ! ((mask_index h (tableSize t) + d') mod tableSize t)) \<noteq> Null"
    by (auto simp: null_on_path_def)
  have ii: "i < length (pEntries t)" using sz(1,2) by (simp add: d(2))
  show "length (pEntries (stored t i h item)) = tableSize t" using sz by (simp add: stored_def)
  have "chained ((pEntries t)[i := ?e])"
  proof (rule chained_update [OF _ ii])
    show "chained (pEntries t)" using inv by (simp add: hash_inv_def)
  qed (use d sz in auto)
  then show "chained (pEntries (stored t i h item))" by (simp add: stored_def)
  show m: "contents (stored t i h item) = add_mset (h, item) (contents t)"
    using mset_items_update [OF ii, of ?e] d(3) by (simp add: stored_def contents_def)
  show "length (filter is_item (pEntries (stored t i h item))) = numEntries t + 1"
    using arg_cong [OF m, of size] inv by (simp add: contents_def length_items hash_inv_def)
  show "countTombStones (stored t i h item) = numDeadEntries t"
    using length_filter_update [OF ii, of "\<lambda>e. data e = Tombstone" ?e] d(3) inv
    by (simp add: stored_def countTombStones_def hash_inv_def)
qed

lemma grow_bounds:
  assumes "n * 8 \<le> s * (5 :: nat)" "0 < s"
  shows "n + 1 < s * 2" "(n + 1) * 8 \<le> s * 2 * 5"
proof -
  show "n + 1 < s * 2" using assms by linarith
  show "(n + 1) * 8 \<le> s * 2 * 5"
  proof (cases "s = 1")
    case True
    with assms have "n = 0" by linarith
    with True show ?thesis by simp
  next
    case False
    with assms have "2 \<le> s" by linarith
    with assms show ?thesis by simp
  qed
qed

lemma stored_grow:
  assumes inv: "hash_inv t" and path: "null_on_path t h i" and sz27: "tableSize t \<le> 2 ^ 27"
    and mem: "calloc_ok (tableSize t * 2)"
  shows "\<exists>t2. resizeHash calloc_ok (stored t i h item) (tableSize t * 2) = Some (True, t2)
    \<and> hash_inv t2 \<and> contents t2 = add_mset (h, item) (contents t) \<and> numEntries t2 < tableSize t2"
proof -
  let ?t1 = "stored t i h item"
  note st = stored_props [OF inv path, of item]
  obtain k where k: "tableSize t = 2 ^ k" using inv by (auto simp: hash_inv_def)
  then have "k \<le> 27" using sz27 power_le_imp_le_exp [of "2 :: nat" k 27] by simp
  have "numEntries t * 8 \<le> tableSize t * 5"
    using inv by (simp add: hash_inv_def LOAD_NUMER_def LOAD_DENOM_def)
  note gb = grow_bounds [OF this hash_inv_size(1) [OF inv]]
  obtain es2 where es2: "resizeHash calloc_ok ?t1 (tableSize t * 2)
      = Some (True, ?t1\<lparr>pEntries := es2, tableSize := tableSize t * 2, numDeadEntries := 0\<rparr>)"
    "length es2 = tableSize t * 2" "chained es2" "filter (\<lambda>e. data e = Tombstone) es2 = []"
    "mset (items es2) = mset (items (pEntries ?t1))"
  proof -
    have "tableSize t * 2 = 2 ^ Suc k" "length (items (pEntries ?t1)) < tableSize t * 2"
      using k st gb(1) by (simp_all add: length_items)
    moreover have "Suc k < 31" "countTombStones ?t1 = numDeadEntries ?t1"
      using \<open>k \<le> 27\<close> st(5) by (simp_all add: stored_def)
    ultimately show ?thesis
      using that resizeHash_ok [of "tableSize t * 2" "Suc k" ?t1 calloc_ok] mem by blast
  qed
  define t2 where "t2 = ?t1\<lparr>pEntries := es2, tableSize := tableSize t * 2, numDeadEntries := 0\<rparr>"
  have cnt: "length (filter is_item es2) = numEntries t + 1"
    using arg_cong [OF es2(5), of size] st(4) by (simp add: length_items)
  have "\<exists>k' \<le> 28. tableSize t * 2 = 2 ^ k'" using k \<open>k \<le> 27\<close> by (intro exI [of _ "Suc k"]) simp
  then have "hash_inv t2"
    using es2 cnt gb by (simp add: hash_inv_def t2_def stored_def LOAD_NUMER_def LOAD_DENOM_def)
  moreover have "contents t2 = add_mset (h, item) (contents t)"
    using es2(5) st(3) by (simp add: contents_def t2_def)
  moreover have "numEntries t2 < tableSize t2" using gb(1) by (simp add: t2_def stored_def)
  ultimately show ?thesis using es2(1) by (auto simp: t2_def)
qed

lemma stored_keep:
  assumes inv: "hash_inv t" and path: "null_on_path t h i"
    and load: "\<not> tableSize t * 5 < (numEntries t + 1 + numDeadEntries t) * 8"
  shows "hash_inv (stored t i h item) \<and> numEntries (stored t i h item) < tableSize (stored t i h item)"
proof -
  note st = stored_props [OF inv path, of item]
  have "\<exists>k \<le> 28. tableSize t = 2 ^ k" using inv by (simp add: hash_inv_def)
  then show ?thesis
    using st load hash_inv_size(1) [OF inv]
    by (simp add: hash_inv_def LOAD_NUMER_def LOAD_DENOM_def countTombStones_def)
      (simp add: stored_def)
qed

lemma add_step:
  assumes inv: "hash_inv t" and sz27: "tableSize t \<le> 2 ^ 27"
    and probe: "probe (lookup_hit cmp h item) (pEntries t) (mask_index h (tableSize t)) 0 = Some (Slot i, d)"
    and null: "data (pEntries t ! i) = Null"
  shows "mzHashTableLookup calloc_ok t h item cmp True = do {
      t2 \<leftarrow> (if tableSize t * 5 < (numEntries t + 1 + numDeadEntries t) * 8
             then do { (ok, t2) \<leftarrow> resizeHash calloc_ok (stored t i h item) (tableSize t * 2);
                       if ok then Some t2 else None }
             else Some (stored t i h item));
      if numEntries t2 < tableSize t2 then Some (Some item, t2) else None }"
proof -
  have load: "(numEntries t + numDeadEntries t) * 8 \<le> tableSize t * 5"
    using inv by (simp add: hash_inv_def LOAD_NUMER_def LOAD_DENOM_def)
  have noov: "\<not> (INT_MAX < (numEntries t + 1 + numDeadEntries t) * LOAD_DENOM
      \<or> INT_MAX < tableSize t * LOAD_NUMER)"
    using load sz27 by (simp add: INT_MAX_def LOAD_NUMER_def LOAD_DENOM_def)
  show ?thesis
    using hash_inv_size(1) [OF inv] null noov
    by (simp add: mzHashTableLookup_def probe Let_def stored_def LOAD_NUMER_def LOAD_DENOM_def)
qed

lemma lookup_add_cases:
  fixes t :: "'a HashTable" and h :: u32 and item :: 'a and cmp :: "'a \<Rightarrow> 'a \<Rightarrow> int"
  assumes inv: "hash_inv t" and sz27: "tableSize t \<le> 2 ^ 27"
  obtains (found) x where "mzHashTableLookup calloc_ok t h item cmp True = Some (Some x, t)"
      "(h, x) \<in># contents t" "cmp x item = 0"
    | (new) i where "null_on_path t h i" "\<forall>x. (h, x) \<in># contents t \<longrightarrow> cmp x item \<noteq> 0"
      "mzHashTableLookup calloc_ok t h item cmp True = do {
        t2 \<leftarrow> (if tableSize t * 5 < (numEntries t + 1 + numDeadEntries t) * 8
               then do { (ok, t2) \<leftarrow> resizeHash calloc_ok (stored t i h item) (tableSize t * 2);
                         if ok then Some t2 else None }
               else Some (stored t i h item));
        if numEntries t2 < tableSize t2 then Some (Some item, t2) else None }"
proof -
  let ?n = "tableSize t" and ?p = "mask_index h (tableSize t)"
  obtain d i where d: "d < ?n" "i = (?p + d) mod ?n"
    "probe (lookup_hit cmp h item) (pEntries t) ?p 0 = Some (Slot i, d)"
    and r: "if data (pEntries t ! i) = Null
        then (\<forall>d' < d. data (pEntries t ! ((?p + d') mod ?n)) \<noteq> Null)
          \<and> (\<forall>x. (h, x) \<in># contents t \<longrightarrow> cmp x item \<noteq> 0)
        else \<exists>x. data (pEntries t ! i) = Item x \<and> (h, x) \<in># contents t \<and> cmp x item = 0"
    using probe_lookup [OF inv, where h = h and cmp = cmp and item = item] by blast
  show thesis
  proof (cases "data (pEntries t ! i) = Null")
    case False
    with r obtain x where "data (pEntries t ! i) = Item x" "(h, x) \<in># contents t" "cmp x item = 0" by auto
    with hash_inv_size(1) [OF inv] show thesis by (intro found) (auto simp: mzHashTableLookup_def d(3))
  next
    case True
    with r d have "null_on_path t h i" by (auto simp: null_on_path_def)
    with True r show thesis by (intro new [OF _ _ add_step [OF inv sz27 d(3) True]]) auto
  qed
qed

text \<open>C31: in a well-formed table of at most \<open>2\<^sup>27\<close> slots, with memory to grow, \<open>mzHashTableLookup\<close> with
  \<open>doAdd\<close> ends, meets its assertions and keeps the table well-formed; it returns an equal item
  already stored and changes nothing, or stores the new item and keeps every other, also when the
  table is rebuilt with twice the size.\<close>

theorem mzHashTableLookup_add:
  assumes inv: "hash_inv t" and sz27: "tableSize t \<le> 2 ^ 27" and mem: "calloc_ok (tableSize t * 2)"
  shows "\<exists>r t'. mzHashTableLookup calloc_ok t h item cmp True = Some (r, t') \<and> hash_inv t'
    \<and> (if \<exists>x. (h, x) \<in># contents t \<and> cmp x item = 0
       then t' = t \<and> (\<exists>x. r = Some x \<and> (h, x) \<in># contents t \<and> cmp x item = 0)
       else r = Some item \<and> contents t' = add_mset (h, item) (contents t))"
  using inv sz27
proof (cases rule: lookup_add_cases [where calloc_ok = calloc_ok and h = h and item = item and cmp = cmp])
  case (found x)
  with inv show ?thesis by auto
next
  case (new i)
  show ?thesis
  proof (cases "tableSize t * 5 < (numEntries t + 1 + numDeadEntries t) * 8")
    case False
    then show ?thesis
      using new stored_keep [OF inv new(1) False, of item] stored_props(3) [OF inv new(1), of item] by auto
  next
    case True
    then show ?thesis
      using new stored_grow [where item = item and calloc_ok = calloc_ok and t = t, OF inv new(1) sz27 mem]
      by auto
  qed
qed

text \<open>In a well-formed table \<open>mzHashTableLookup\<close> without \<open>doAdd\<close> ends and leaves the table as it
  is; it returns a stored item with the given hash that compares equal when there is one, and
  \<open>NULL\<close> only when there is none.\<close>

theorem mzHashTableLookup_find:
  assumes "hash_inv t"
  shows "\<exists>r. mzHashTableLookup calloc_ok t h item cmp False = Some (r, t)
    \<and> (case r of None \<Rightarrow> \<forall>x. (h, x) \<in># contents t \<longrightarrow> cmp x item \<noteq> 0
       | Some x \<Rightarrow> (h, x) \<in># contents t \<and> cmp x item = 0)"
  by (rule lookup_find [OF assms])

lemma hash_inv_example:
  "hash_inv \<lparr>tableSize = 2, numEntries = 1, numDeadEntries = 0,
     pEntries = [\<lparr>hashValue = 3, data = Null\<rparr>, \<lparr>hashValue = 3, data = Item ''a''\<rparr>]\<rparr>"
proof -
  have "\<exists>k \<le> 28. (2 :: nat) = 2 ^ k" by (intro exI [of _ 1]) simp
  moreover have "chained [\<lparr>hashValue = 3, data = Null\<rparr>, \<lparr>hashValue = 3, data = Item ''a''\<rparr>]"
    by (auto simp: chained_def reachable_def less_Suc_eq intro!: exI [of _ 0])
      (simp flip: numeral_2_eq_2)
  ultimately show ?thesis
    by (simp add: hash_inv_def LOAD_NUMER_def LOAD_DENOM_def)
qed

theorem mzHashTableLookup_find_witness:
  "hash_inv (\<lparr>tableSize = 2, numEntries = 1, numDeadEntries = 0,
              pEntries = [\<lparr>hashValue = 3, data = Null\<rparr>, \<lparr>hashValue = 3, data = Item ''a''\<rparr>]\<rparr>)
   \<and> (\<exists>r. mzHashTableLookup (\<lambda>_. True)
        \<lparr>tableSize = 2, numEntries = 1, numDeadEntries = 0,
         pEntries = [\<lparr>hashValue = 3, data = Null\<rparr>, \<lparr>hashValue = 3, data = Item ''a''\<rparr>]\<rparr>
        3 ''a'' strcmp False = Some (r, \<lparr>tableSize = 2, numEntries = 1, numDeadEntries = 0,
         pEntries = [\<lparr>hashValue = 3, data = Null\<rparr>, \<lparr>hashValue = 3, data = Item ''a''\<rparr>]\<rparr>) \<and> r = Some ''a'')"
proof -
  let ?t = "\<lparr>tableSize = 2, numEntries = 1, numDeadEntries = 0,
         pEntries = [\<lparr>hashValue = 3, data = Null\<rparr>, \<lparr>hashValue = 3, data = Item ''a''\<rparr>]\<rparr>"
  have inv: "hash_inv ?t" by (rule hash_inv_example)
  from mzHashTableLookup_find [OF inv, of "\<lambda>_. True" 3 "''a''" strcmp] obtain r where
    r: "mzHashTableLookup (\<lambda>_. True) ?t 3 ''a'' strcmp False = Some (r, ?t)"
    "case r of None \<Rightarrow> \<forall>x. (3, x) \<in># contents ?t \<longrightarrow> strcmp x ''a'' \<noteq> 0
       | Some x \<Rightarrow> (3, x) \<in># contents ?t \<and> strcmp x ''a'' = 0" by blast
  then have "r = Some ''a''" by (cases r) (auto simp: contents_def strcmp_eq_0)
  with inv r(1) show ?thesis by blast
qed

section \<open>Removal\<close>

lemma removed_inv:
  assumes inv: "hash_inv t" and i: "i < length (pEntries t)" "data (pEntries t ! i) = Item x"
  defines "t' \<equiv> t\<lparr>pEntries := (pEntries t)[i := (pEntries t ! i)\<lparr>data := Tombstone\<rparr>],
                  numEntries := numEntries t - 1, numDeadEntries := numDeadEntries t + 1\<rparr>"
  shows "hash_inv t' \<and> contents t = add_mset (hashValue (pEntries t ! i), x) (contents t')"
proof
  let ?e = "(pEntries t ! i)\<lparr>data := Tombstone\<rparr>"
  have "chained ((pEntries t)[i := ?e])"
    using inv i by (intro chained_update) (auto simp: hash_inv_def)
  moreover have "length (filter is_item ((pEntries t)[i := ?e])) + 1 = length (filter is_item (pEntries t))"
    using length_filter_update [OF i(1), of is_item ?e] i(2) by simp
  moreover have "length (filter (\<lambda>e. data e = Tombstone) ((pEntries t)[i := ?e]))
      = length (filter (\<lambda>e. data e = Tombstone) (pEntries t)) + 1"
    using length_filter_update [OF i(1), of "\<lambda>e. data e = Tombstone" ?e] i(2) by simp
  ultimately show "hash_inv t'"
    using inv by (simp add: hash_inv_def t'_def LOAD_NUMER_def LOAD_DENOM_def) linarith
  show "contents t = add_mset (hashValue (pEntries t ! i), x) (contents t')"
    using mset_items_update [OF i(1), of ?e] i(2) by (simp add: contents_def t'_def)
qed

text \<open>In a well-formed table \<open>mzHashTableRemove\<close> ends and keeps the table well-formed; it returns
  true exactly after taking one occurrence of the item out, and false only when the item is not
  stored under the given hash, and then changes nothing.\<close>

theorem mzHashTableRemove_spec:
  assumes inv: "hash_inv t"
  shows "\<exists>b t'. mzHashTableRemove t h item = Some (b, t') \<and> hash_inv t'
    \<and> (if b then \<exists>h'. contents t = add_mset (h', item) (contents t')
       else t' = t \<and> (h, item) \<notin># contents t)"
proof -
  let ?es = "pEntries t" and ?n = "tableSize t" and ?hit = "\<lambda>e. data e = Item item"
  let ?p = "mask_index h ?n"
  note sz = hash_inv_size [OF inv]
  obtain d where d: "d < ?n" "probe ?hit ?es ?p 0 = Some (Slot ((?p + d) mod ?n), d)"
    and st: "stops ?hit ?es ((?p + d) mod ?n)" and first: "\<forall>d' < d. \<not> stops ?hit ?es ((?p + d') mod ?n)"
    using probe_inv [OF inv, of ?hit h] by blast
  let ?i = "(?p + d) mod ?n"
  have i: "?i < length ?es" using sz by simp
  show ?thesis
  proof (cases "data (?es ! ?i) = Null")
    case True
    have "(h, item) \<notin># contents t"
    proof
      assume "(h, item) \<in># contents t"
      then obtain j where "j < ?n" "hashValue (?es ! j) = h" "data (?es ! j) = Item item"
        using sz(2) by (auto simp: contents_def mem_items)
      with chain_absent [OF inv first True] show False by blast
    qed
    with True inv d(2) sz(1) show ?thesis by (auto simp: mzHashTableRemove_def)
  next
    case False
    with st have "data (?es ! ?i) = Item item" by (simp add: stops_def)
    with removed_inv [OF inv i this] False d(2) sz(1) show ?thesis
      by (auto simp: mzHashTableRemove_def)
  qed
qed

theorem mzHashTableLookup_add_witness:
  "\<exists>r t'. mzHashTableLookup (\<lambda>_. True)
      \<lparr>tableSize = 2, numEntries = 1, numDeadEntries = 0,
       pEntries = [\<lparr>hashValue = 3, data = Null\<rparr>, \<lparr>hashValue = 3, data = Item ''a''\<rparr>]\<rparr>
      7 ''b'' strcmp True = Some (r, t') \<and> hash_inv t' \<and> r = Some ''b''
      \<and> contents t' = {#(7, ''b''), (3, ''a'')#}"
  using mzHashTableLookup_add [OF hash_inv_example, of "\<lambda>_. True" 7 "''b''" strcmp]
  by (auto simp: contents_def)

theorem mzHashTableRemove_spec_witness:
  "\<exists>b t'. mzHashTableRemove
      \<lparr>tableSize = 2, numEntries = 1, numDeadEntries = 0,
       pEntries = [\<lparr>hashValue = 3, data = Null\<rparr>, \<lparr>hashValue = 3, data = Item ''a''\<rparr>]\<rparr>
      3 ''a'' = Some (b, t') \<and> hash_inv t' \<and> b \<and> contents t' = {#}"
  using mzHashTableRemove_spec [OF hash_inv_example, of 3 "''a''"]
  by (auto simp: contents_def split: if_splits)

section \<open>Creation, clearing and traversal\<close>

lemma items_none: "items es = [] \<longleftrightarrow> filter is_item es = []"
  by (induction es) (auto split: dataptr.splits)

lemma chained_null: "chained (replicate n zero_entry)"
  by (simp add: chained_def)

lemma mzHashSize_value:
  assumes "n \<le> 2 ^ 27"
  shows "unat (mzHashSize (of_nat n)) = n * 8 div 5 + 1"
proof -
  have n: "n * 8 div 5 + 1 < 2 ^ 64" "n * 8 < 2 ^ 64" using assms by simp_all
  have "(of_nat n :: u64) * 8 = of_nat (n * 8)" by simp
  moreover have "unat (of_nat (n * 8) div 5 :: u64) = n * 8 div 5"
    using n(2) by (simp only: unat_div unat_of_nat) (simp add: take_bit_nat_eq_self)
  then have "(of_nat (n * 8) div 5 :: u64) = of_nat (n * 8 div 5)"
    using n(2) by (intro word_unat_eq_iff [THEN iffD2]) (simp add: take_bit_nat_eq_self unsigned_of_nat)
  ultimately have "mzHashSize (of_nat n) = of_nat (n * 8 div 5 + 1)"
    by (simp add: mzHashSize_def LOAD_NUMER_def LOAD_DENOM_def)
  then show ?thesis using n(1) by (simp only: unat_of_nat) (simp add: take_bit_nat_eq_self)
qed

lemma uint_bound: "unat (w :: u32) \<le> n \<Longrightarrow> uint w \<le> int n"
  unfolding uint_nat by (simp only: of_nat_le_iff)

lemma mzHashTableCreate_inv:
  assumes "0 < unat (initialSize :: u64)" "unat initialSize \<le> 2 ^ 28" "\<And>n. calloc_ok n"
  shows "\<exists>t. mzHashTableCreate calloc_ok initialSize = Some (Some t) \<and> hash_inv t
    \<and> contents t = {#} \<and> numEntries t = 0 \<and> numDeadEntries t = 0 \<and> unat initialSize \<le> tableSize t
    \<and> (\<forall>j. unat initialSize \<le> 2 ^ j \<longrightarrow> tableSize t \<le> 2 ^ j)"
proof -
  let ?v = "ucast initialSize :: u32"
  have v: "unat ?v = unat initialSize"
    using assms(2) by (subst unsigned_ucast_eq) (simp add: take_bit_nat_eq_self)
  obtain k where k: "unat (roundUpPower2 ?v) = 2 ^ k" "unat ?v \<le> 2 ^ k"
    "\<forall>j. unat ?v \<le> 2 ^ j \<longrightarrow> k \<le> j"
    using roundUpPower2_bound [of ?v] v assms(1,2) by auto
  have "k \<le> 28" using k(3) v assms(2) by simp
  then have "unat (roundUpPower2 ?v) \<le> 2 ^ 28"
    unfolding k(1) by (intro power_increasing) simp_all
  then have "uint (roundUpPower2 ?v) < 2 ^ 31"
    using uint_bound [of "roundUpPower2 ?v" "2 ^ 28"] by simp
  then have "sint (roundUpPower2 ?v) = uint (roundUpPower2 ?v)"
    unfolding sint_uint by (intro signed_take_bit_int_eq_self) (simp_all add: order_trans [OF _ unsigned_greater_eq])
  then have pos: "\<not> sint (roundUpPower2 ?v) < 0" by (simp only: not_less unsigned_greater_eq)
  define t :: "'a HashTable" where "t = \<lparr>tableSize = 2 ^ k, numEntries = 0, numDeadEntries = 0,
      pEntries = replicate (2 ^ k) zero_entry\<rparr>"
  have "initialSize \<noteq> 0" using assms(1) by auto
  then have "mzHashTableCreate calloc_ok initialSize = Some (Some t)"
    using pos assms(3) by (simp add: mzHashTableCreate_def Let_def k(1) t_def)
  moreover have "hash_inv t"
    using \<open>k \<le> 28\<close> by (auto simp: t_def hash_inv_def chained_null filter_empty_conv)
  moreover have "tableSize t \<le> 2 ^ j" if "unat initialSize \<le> 2 ^ j" for j
    using k(3) v that by (simp add: t_def)
  ultimately show ?thesis using k(2) v by (auto simp: t_def contents_def)
qed

text \<open>
  Clearing passes every stored item to \<open>freeFunc\<close> exactly once, in slot order, and leaves all
  slots null.
\<close>

lemma clear_entries_spec:
  "clear_entries freeFunc es
     = (map (\<lambda>e. e\<lparr>data := Null\<rparr>) es, if freeFunc then map snd (items es) else [])"
  by (induction es) (auto split: dataptr.split simp: Let_def)

text \<open>\<open>mzHashTableClear\<close> keeps a well-formed table well-formed and of the same size, empties it,
  and hands every stored item to \<open>freeFunc\<close> exactly once.\<close>

theorem mzHashTableClear_spec:
  assumes "hash_inv t"
  shows "hash_inv (fst (mzHashTableClear freeFunc t)) \<and> contents (fst (mzHashTableClear freeFunc t)) = {#}
    \<and> tableSize (fst (mzHashTableClear freeFunc t)) = tableSize t
    \<and> (freeFunc \<longrightarrow> mset (snd (mzHashTableClear freeFunc t)) = image_mset snd (contents t))"
proof -
  have "items (map (\<lambda>e. e\<lparr>data := Null\<rparr>) es) = []" for es :: "'a HashEntry list"
    by (induction es) auto
  moreover have "filter (\<lambda>e. data e = Tombstone) (map (\<lambda>e. e\<lparr>data := Null\<rparr>) (pEntries t)) = []"
    "filter is_item (map (\<lambda>e. e\<lparr>data := Null\<rparr>) (pEntries t)) = []"
    by (simp_all add: filter_empty_conv)
  ultimately show ?thesis
    using assms
    by (simp add: mzHashTableClear_def clear_entries_spec contents_def hash_inv_def chained_def)
qed

theorem mzHashTableClear_spec_witness:
  "mset (snd (mzHashTableClear True
      \<lparr>tableSize = 2, numEntries = 1, numDeadEntries = 0,
       pEntries = [\<lparr>hashValue = 3, data = Null\<rparr>, \<lparr>hashValue = 3, data = Item ''a''\<rparr>]\<rparr>)) = {#''a''#}"
  using mzHashTableClear_spec [OF hash_inv_example, of True] by (simp add: contents_def)

text \<open>The traversal by \<open>mzHashForeach\<close> and by the iterator.\<close>

fun iter_items :: "nat \<Rightarrow> 'a HashTable \<Rightarrow> HashIter \<Rightarrow> 'a list option" where
  "iter_items 0 t it = None"
| "iter_items (Suc fuel) t it =
     (if mzHashIterDone t it then Some []
      else case mzHashIterData t it of
        Some (Item x) \<Rightarrow> map_option ((#) x) (iter_items fuel t (mzHashIterNext t it))
      | _ \<Rightarrow> None)"

lemma next_item_shift: "next_item es i = i + next_item es 0"
proof (induction es arbitrary: i)
  case (Cons e es)
  then show ?case by (metis add.commute add_0 add_Suc_shift next_item.simps(2) plus_1_eq_Suc)
qed simp

lemma next_item_spec:
  "next_item es 0 \<le> length es \<and> items (take (next_item es 0) es) = []
   \<and> (next_item es 0 < length es \<longrightarrow> is_item (es ! next_item es 0))"
proof (induction es)
  case (Cons e es)
  then show ?case
    using next_item_shift [of es 1] by (auto split: dataptr.splits)
qed simp

lemma next_item_cases:
  fixes t :: "'a HashTable" and i :: nat
  assumes "i \<le> length (pEntries t)"
  defines "j \<equiv> next_item (drop i (pEntries t)) i"
  obtains "j = length (pEntries t)" "items (drop i (pEntries t)) = []"
    | x where "i \<le> j" "j < length (pEntries t)" "data (pEntries t ! j) = Item x"
        "map snd (items (drop i (pEntries t))) = x # map snd (items (drop (Suc j) (pEntries t)))"
proof -
  let ?es = "drop i (pEntries t)"
  let ?m = "next_item ?es 0"
  have j: "j = i + ?m" unfolding j_def by (rule next_item_shift)
  note sp = next_item_spec [of ?es]
  show thesis
  proof (cases "?m = length ?es")
    case True
    with sp have "items ?es = []" by simp
    with True assms(1) j show thesis by (intro that(1)) simp_all
  next
    case False
    with sp have m: "?m < length ?es" by simp
    have nth: "?es ! ?m = pEntries t ! j" using assms(1) j by simp
    with sp m obtain x where x: "data (pEntries t ! j) = Item x" by (auto split: dataptr.splits)
    have "items ?es = items (take ?m ?es) @ items (?es ! ?m # drop (Suc ?m) ?es)"
      unfolding items_append [symmetric] by (rule arg_cong [of _ _ items]) (rule nth_split [OF m])
    then have "map snd (items ?es) = x # map snd (items (drop (Suc j) (pEntries t)))"
      using sp x nth by (simp add: j add.commute)
    with x m j show thesis by (intro that(2)) auto
  qed
qed

lemma iter_items_drop:
  assumes len: "length (pEntries t) = tableSize t" and "i \<le> tableSize t" "tableSize t - i < fuel"
  shows "iter_items fuel t \<lparr>idx = int (next_item (drop i (pEntries t)) i)\<rparr>
      = Some (map snd (items (drop i (pEntries t))))"
  using assms(2,3)
proof (induction fuel arbitrary: i)
  case (Suc f)
  let ?j = "next_item (drop i (pEntries t)) i"
  have "i \<le> length (pEntries t)" using Suc.prems(1) len by simp
  then show ?case
  proof (cases rule: next_item_cases)
    case 1
    then show ?thesis using len by (simp add: mzHashIterDone_def)
  next
    case (2 x)
    have "iter_items f t \<lparr>idx = int (next_item (drop (Suc ?j) (pEntries t)) (Suc ?j))\<rparr>
        = Some (map snd (items (drop (Suc ?j) (pEntries t))))"
      using 2 Suc.prems len by (intro Suc.IH) linarith+
    then show ?thesis
      using 2 len by (simp add: mzHashIterDone_def mzHashIterData_def mzHashIterNext_def Let_def nat_add_distrib)
  qed
qed simp

text \<open>The iterator of \<open>Hash.h\<close> visits exactly the stored items, each once and in slot order, the
  order in which \<open>mzHashForeach\<close> and \<open>mzHashTableClear\<close> reach them, and then reports that it is done
  within as many steps as the table has slots.\<close>

theorem mzHashIter_items:
  assumes "hash_inv t"
  shows "iter_items (Suc (tableSize t)) t (mzHashIterBegin t) = Some (map snd (items (pEntries t)))
    \<and> mzHashForeach t (\<lambda>x xs. (0, xs @ [x])) [] = (0, map snd (items (pEntries t)))"
proof
  have "length (pEntries t) = tableSize t" using assms by (simp add: hash_inv_def)
  from iter_items_drop [OF this, of 0 "Suc (tableSize t)"]
  show "iter_items (Suc (tableSize t)) t (mzHashIterBegin t) = Some (map snd (items (pEntries t)))"
    by (simp add: mzHashIterBegin_def mzHashIterNext_def)
  have "foreach_entries (\<lambda>x xs. (0, xs @ [x])) es ys = (0, ys @ map snd (items es))"
    for es :: "'a HashEntry list" and ys
    by (induction es arbitrary: ys) (auto split: dataptr.split)
  then show "mzHashForeach t (\<lambda>x xs. (0, xs @ [x])) [] = (0, map snd (items (pEntries t)))"
    by (simp add: mzHashForeach_def)
qed

theorem mzHashIter_items_witness:
  "iter_items 3 \<lparr>tableSize = 2, numEntries = 1, numDeadEntries = 0,
       pEntries = [\<lparr>hashValue = 3, data = Null\<rparr>, \<lparr>hashValue = 3, data = Item ''a''\<rparr>]\<rparr>
     (mzHashIterBegin \<lparr>tableSize = 2, numEntries = 1, numDeadEntries = 0,
       pEntries = [\<lparr>hashValue = 3, data = Null\<rparr>, \<lparr>hashValue = 3, data = Item ''a''\<rparr>]\<rparr>) = Some [''a'']"
  using mzHashIter_items [OF hash_inv_example] by (simp add: numeral_3_eq_3)

section \<open>The interface of the table\<close>

text \<open>
  What a client that only looks items up and adds them relies on: \<open>room t n\<close> promises that \<open>n\<close>
  more items can be added without asking for memory.
\<close>

fun add_all :: "('t \<Rightarrow> u32 \<Rightarrow> 'a \<Rightarrow> ('a option \<times> 't) option) \<Rightarrow> 't \<Rightarrow> (u32 \<times> 'a) list \<Rightarrow> 't option" where
  "add_all add t [] = Some t"
| "add_all add t ((h, x) # xs) = do { (_, t') \<leftarrow> add t h x; add_all add t' xs }"

locale item_store =
  fixes room :: "'t \<Rightarrow> nat \<Rightarrow> bool"
    and held :: "'t \<Rightarrow> (u32 \<times> 'a) multiset"
    and find :: "'t \<Rightarrow> u32 \<Rightarrow> 'a \<Rightarrow> ('a option \<times> 't) option"
    and add :: "'t \<Rightarrow> u32 \<Rightarrow> 'a \<Rightarrow> ('a option \<times> 't) option"
    and same :: "'a \<Rightarrow> 'a \<Rightarrow> bool"
  assumes find_law: "room t n \<Longrightarrow> \<exists>r. find t h x = Some (r, t)
      \<and> (case r of None \<Rightarrow> \<forall>y. (h, y) \<in># held t \<longrightarrow> \<not> same y x
         | Some y \<Rightarrow> (h, y) \<in># held t \<and> same y x)"
    and add_law: "room t (Suc n) \<Longrightarrow> \<exists>r t'. add t h x = Some (r, t') \<and> room t' n
      \<and> (if \<exists>y. (h, y) \<in># held t \<and> same y x then held t' = held t
         else r = Some x \<and> held t' = add_mset (h, x) (held t))"
begin

lemma add_all_held:
  "room t (n + length xs) \<Longrightarrow> \<exists>t'. add_all add t xs = Some t' \<and> room t' n
     \<and> set_mset (held t) \<subseteq> set_mset (held t')
     \<and> set_mset (held t') \<subseteq> set_mset (held t) \<union> set xs
     \<and> (\<forall>(h, x) \<in> set xs. (h, x) \<in># held t' \<or> (\<exists>y. (h, y) \<in># held t' \<and> same y x))"
proof (induction xs arbitrary: t)
  case (Cons p xs)
  obtain h x where p: "p = (h, x)" by (cases p)
  have "room t (Suc (n + length xs))" using Cons.prems by simp
  from add_law [OF this, of h x] obtain r t1 where t1: "add t h x = Some (r, t1)" "room t1 (n + length xs)"
    and h1: "if \<exists>y. (h, y) \<in># held t \<and> same y x then held t1 = held t
        else r = Some x \<and> held t1 = add_mset (h, x) (held t)" by blast
  from Cons.IH [OF t1(2)] obtain t' where t': "add_all add t1 xs = Some t'" "room t' n"
    "set_mset (held t1) \<subseteq> set_mset (held t')" "set_mset (held t') \<subseteq> set_mset (held t1) \<union> set xs"
    "\<forall>(h, x) \<in> set xs. (h, x) \<in># held t' \<or> (\<exists>y. (h, y) \<in># held t' \<and> same y x)" by blast
  have "set_mset (held t) \<subseteq> set_mset (held t1)" "set_mset (held t1) \<subseteq> insert (h, x) (set_mset (held t))"
    "(h, x) \<in># held t1 \<or> (\<exists>y. (h, y) \<in># held t1 \<and> same y x)"
    using h1 by (auto split: if_splits)
  with t' show ?case by (intro exI [of _ t']) (auto simp: p t1(1))
qed simp

lemma find_added:
  assumes "room t (n + length xs)" "(h, x) \<in> set xs" "same x x"
  shows "\<exists>t' y. add_all add t xs = Some t' \<and> find t' h x = Some (Some y, t')
    \<and> same y x \<and> (h, y) \<in> set_mset (held t) \<union> set xs"
proof -
  from add_all_held [OF assms(1)] obtain t' where t': "add_all add t xs = Some t'" "room t' n"
    "set_mset (held t') \<subseteq> set_mset (held t) \<union> set xs"
    "\<exists>y. (h, y) \<in># held t' \<and> same y x" using assms(2,3) by fastforce
  from find_law [OF t'(2), of h x] t'(4) obtain y where
    "find t' h x = Some (Some y, t')" "(h, y) \<in># held t'" "same y x"
    by (auto split: option.splits)
  with t' show ?thesis by blast
qed

lemma find_absent:
  assumes "room t (n + length xs)" "held t = {#}" "\<And>y. (h, y) \<in> set xs \<Longrightarrow> \<not> same y x"
  shows "\<exists>t'. add_all add t xs = Some t' \<and> find t' h x = Some (None, t')"
proof -
  from add_all_held [OF assms(1)] obtain t' where t': "add_all add t xs = Some t'" "room t' n"
    "set_mset (held t') \<subseteq> set xs" using assms(2) by fastforce
  from find_law [OF t'(2), of h x] t'(3) assms(3) have "find t' h x = Some (None, t')"
    by (force split: option.splits)
  with t' show ?thesis by blast
qed

end

text \<open>The table provides it, whatever the comparison function is and however allocation behaves.\<close>

definition has_room :: "'a HashTable \<Rightarrow> nat \<Rightarrow> bool" where
  "has_room t n \<longleftrightarrow> hash_inv t \<and> tableSize t \<le> 2 ^ 27
     \<and> (numEntries t + numDeadEntries t + n) * LOAD_DENOM \<le> tableSize t * LOAD_NUMER"

interpretation hash_store: item_store has_room contents
  "\<lambda>t h x. mzHashTableLookup calloc_ok t h x cmp False"
  "\<lambda>t h x. mzHashTableLookup calloc_ok t h x cmp True"
  "\<lambda>x y. cmp x y = 0" for calloc_ok :: "nat \<Rightarrow> bool" and cmp :: "'a \<Rightarrow> 'a \<Rightarrow> int"
proof
  fix t :: "'a HashTable" and n h x
  assume "has_room t n"
  then have "hash_inv t" by (simp add: has_room_def)
  then show "\<exists>r. mzHashTableLookup calloc_ok t h x cmp False = Some (r, t)
      \<and> (case r of None \<Rightarrow> \<forall>y. (h, y) \<in># contents t \<longrightarrow> \<not> cmp y x = 0
         | Some y \<Rightarrow> (h, y) \<in># contents t \<and> cmp y x = 0)" by (rule lookup_find)
next
  fix t :: "'a HashTable" and n h x
  assume "has_room t (Suc n)"
  then have inv: "hash_inv t" "tableSize t \<le> 2 ^ 27"
    and load: "(numEntries t + numDeadEntries t + Suc n) * 8 \<le> tableSize t * 5"
    by (simp_all add: has_room_def LOAD_NUMER_def LOAD_DENOM_def)
  from inv show "\<exists>r t'. mzHashTableLookup calloc_ok t h x cmp True = Some (r, t') \<and> has_room t' n
      \<and> (if \<exists>y. (h, y) \<in># contents t \<and> cmp y x = 0 then contents t' = contents t
         else r = Some x \<and> contents t' = add_mset (h, x) (contents t))"
  proof (cases rule: lookup_add_cases [where calloc_ok = calloc_ok and h = h and item = x and cmp = cmp])
    case (found y)
    with inv load show ?thesis by (auto simp: has_room_def LOAD_NUMER_def LOAD_DENOM_def)
  next
    case (new i)
    have small: "\<not> tableSize t * 5 < (numEntries t + 1 + numDeadEntries t) * 8" using load by simp
    have "has_room (stored t i h x) n"
      using stored_keep [OF inv(1) new(1) small] inv(2) load
      by (simp add: has_room_def LOAD_NUMER_def LOAD_DENOM_def) (simp add: stored_def)
    with new small stored_keep [OF inv(1) new(1) small, of x] stored_props(3) [OF inv(1) new(1), of x]
    show ?thesis by auto
  qed
qed

lemma mzHashTableCreate_room:
  assumes "n \<le> 2 ^ 26" "\<And>m. calloc_ok m"
  shows "\<exists>t. mzHashTableCreate calloc_ok (mzHashSize (of_nat n)) = Some (Some t)
    \<and> has_room t n \<and> contents t = {#}"
proof -
  have v: "unat (mzHashSize (of_nat n)) = n * 8 div 5 + 1" using assms(1) by (intro mzHashSize_value) simp
  then have "unat (mzHashSize (of_nat n)) \<le> 2 ^ 27" using assms(1) by simp
  with mzHashTableCreate_inv [where initialSize = "mzHashSize (of_nat n)" and calloc_ok = calloc_ok and 'a = 'a] v assms(2)
  obtain t :: "'a HashTable" where t: "mzHashTableCreate calloc_ok (mzHashSize (of_nat n)) = Some (Some t)"
    "hash_inv t" "contents t = {#}" "numEntries t = 0" "numDeadEntries t = 0" "n * 8 div 5 + 1 \<le> tableSize t"
    "\<forall>j. n * 8 div 5 + 1 \<le> 2 ^ j \<longrightarrow> tableSize t \<le> 2 ^ j"
    by auto
  have "tableSize t \<le> 2 ^ 27" using t(7) v \<open>unat _ \<le> 2 ^ 27\<close> by (simp del: power_numeral)
  have "n * 8 < (n * 8 div 5 + 1) * 5" by simp
  with t \<open>tableSize t \<le> 2 ^ 27\<close> show ?thesis by (intro exI [of _ t]) (simp add: has_room_def LOAD_NUMER_def LOAD_DENOM_def)
qed

text \<open>C30: a table created with the size \<open>mzHashSize\<close> gives for \<open>n\<close> items takes \<open>n\<close> items without ever
  resizing, whatever memory is left, and then finds every one of them, up to the comparison
  function, and nothing else.\<close>

theorem mzHashSize_suffices:
  assumes "length xs \<le> 2 ^ 26" "\<And>x. cmp x x = 0" "\<And>m. calloc_ok m"
  shows "\<exists>t t'. mzHashTableCreate calloc_ok (mzHashSize (of_nat (length xs))) = Some (Some t)
    \<and> add_all (\<lambda>t h x. mzHashTableLookup (\<lambda>_. False) t h x cmp True) t xs = Some t'
    \<and> (\<forall>(h, x) \<in> set xs. \<exists>y. mzHashTableLookup (\<lambda>_. False) t' h x cmp False = Some (Some y, t')
          \<and> cmp y x = 0 \<and> (h, y) \<in> set xs)
    \<and> (\<forall>h x. (\<forall>y. (h, y) \<in> set xs \<longrightarrow> cmp y x \<noteq> 0)
          \<longrightarrow> mzHashTableLookup (\<lambda>_. False) t' h x cmp False = Some (None, t'))"
proof -
  from mzHashTableCreate_room [where calloc_ok = calloc_ok, OF assms(1,3)]
  obtain t :: "'a HashTable" where t: "mzHashTableCreate calloc_ok (mzHashSize (of_nat (length xs))) = Some (Some t)"
    "has_room t (0 + length xs)" "contents t = {#}" by auto
  from hash_store.add_all_held [OF t(2)] obtain t' where
    t': "add_all (\<lambda>t h x. mzHashTableLookup (\<lambda>_. False) t h x cmp True) t xs = Some t'" by blast
  show ?thesis
    using t t' hash_store.find_added [OF t(2), of _ _ cmp "\<lambda>_. False"]
      hash_store.find_absent [OF t(2,3), of _ cmp _ "\<lambda>_. False"] assms(2)
    by (intro exI [of _ t] exI [of _ t']) auto
qed

theorem mzHashSize_suffices_witness:
  "\<exists>t t'. mzHashTableCreate (\<lambda>_. True) (mzHashSize 2) = Some (Some t)
    \<and> add_all (\<lambda>t h x. mzHashTableLookup (\<lambda>_. False) t h x strcmp True) t [(5, ''a''), (5, ''b'')] = Some t'
    \<and> mzHashTableLookup (\<lambda>_. False) t' 5 ''c'' strcmp False = Some (None, t')"
  using mzHashSize_suffices [of "[(5, ''a''), (5, ''b'')]" strcmp "\<lambda>_. True"]
  by (auto simp: strcmp_eq_0)

text \<open>\<open>countProbes\<close>, which walks the table on its own, agrees with \<open>mzHashTableLookup\<close>: it is
  \<open>-1\<close> exactly when the lookup returns \<open>NULL\<close>, and otherwise a number of steps below the table size.\<close>

theorem countProbes_lookup:
  assumes "hash_inv t"
  shows "\<exists>c. countProbes t h item cmp = Some c \<and> -1 \<le> c \<and> c < int (tableSize t)
    \<and> (c = -1 \<longleftrightarrow> mzHashTableLookup calloc_ok t h item cmp False = Some (None, t))"
proof -
  let ?p = "mask_index h (tableSize t)"
  obtain d where d: "d < tableSize t"
    "probe (lookup_hit cmp h item) (pEntries t) ?p 0 = Some (Slot ((?p + d) mod tableSize t), d)"
    "stops (lookup_hit cmp h item) (pEntries t) ((?p + d) mod tableSize t)"
    using probe_inv [OF assms, of "lookup_hit cmp h item" h] by blast
  then show ?thesis
    using hash_inv_size(1) [OF assms]
    by (auto simp: countProbes_def mzHashTableLookup_def stops_def lookup_hit_def split: dataptr.splits)
qed

theorem countProbes_lookup_witness:
  "\<exists>c. countProbes \<lparr>tableSize = 2, numEntries = 1, numDeadEntries = 0,
       pEntries = [\<lparr>hashValue = 3, data = Null\<rparr>, \<lparr>hashValue = 3, data = Item ''a''\<rparr>]\<rparr> 3 ''a'' strcmp = Some c
     \<and> -1 \<le> c \<and> c < 2"
  using countProbes_lookup [OF hash_inv_example, of 3 "''a''" strcmp] by auto

end
