(* ===== verification/Bspatch.thy ===== *)
theory Bspatch
  imports ByteIO
begin

text \<open>
  The binary patcher of \<open>applypatch/bspatch.c\<close>. The bzip2 library is a parameter: a record with the
  initialisation of a stream on its input and the call of \<open>BZ2_bzDecompress\<close>, which is told how
  much room there is and returns a status, the bytes written and the next state. \<open>off_t\<close> and
  \<open>ssize_t\<close> values are \<^typ>\<open>int\<close>s whose additions are undefined beyond 64 bits. \<open>new_data\<close> is the
  list of the bytes written so far, so \<open>newpos\<close> is its length.

  The specification is \<open>patched\<close>, which applies a list of control triples to the uncompressed
  diff and extra bytes; it is shared with the model of the patch generator.
\<close>

section \<open>The compression library\<close>

definition BZ_OK :: int where "BZ_OK = 0"
definition BZ_STREAM_END :: int where "BZ_STREAM_END = 4"

record 's bzlib =
  bzDecompressInit :: "buffer \<Rightarrow> 's option"
  bzDecompress :: "'s \<Rightarrow> nat \<Rightarrow> int \<times> buffer \<times> 's"

section \<open>Operations\<close>

text \<open>
  \<open>FillBuffer\<close> returns the bytes it wrote, or \<^term>\<open>None\<close> where the source returns \<open>-1\<close>; an outer
  \<^term>\<open>None\<close> is a loop that does not end. \<open>avail\<close> is \<open>stream->avail_out\<close>.
\<close>

partial_function (option) FillBuffer :: "'s bzlib \<Rightarrow> nat \<Rightarrow> 's \<Rightarrow> (buffer option \<times> 's) option" where
  "FillBuffer bz avail st =
     (if avail = 0 then Some (Some [], st)
      else case bzDecompress bz st avail of (bzerr, out, st1) \<Rightarrow>
        if bzerr \<noteq> BZ_OK \<and> bzerr \<noteq> BZ_STREAM_END then Some (None, st1)
        else do {
          (r, st2) \<leftarrow> FillBuffer bz (avail - length out) st1;
          Some (map_option ((@) out) r, st2) })"

definition add_off :: "int \<Rightarrow> int \<Rightarrow> int option" where
  "add_off a b = (if LONG_MIN \<le> a + b \<and> a + b \<le> LONG_MAX then Some (a + b) else None)"

text \<open>The loop that adds the old data to the diff bytes; \<open>old_size\<close> may exceed the buffer.\<close>

fun add_old :: "buffer \<Rightarrow> int \<Rightarrow> int \<Rightarrow> buffer \<Rightarrow> buffer option" where
  "add_old old_data old_size oldpos [] = Some []"
| "add_old old_data old_size oldpos (d # ds) =
     do { b \<leftarrow> (if 0 \<le> oldpos \<and> oldpos < old_size
                then (if nat oldpos < length old_data then Some (d + old_data ! nat oldpos) else None)
                else Some d);
          bs \<leftarrow> add_old old_data old_size (oldpos + 1) ds;
          Some (b # bs) }"

record 's patch_state =
  oldpos :: int
  new_data :: buffer
  cstream :: 's
  dstream :: 's
  estream :: 's

abbreviation newpos :: "'s patch_state \<Rightarrow> int" where
  "newpos st \<equiv> int (length (new_data st))"

text \<open>
  A block read into \<open>new_data + newpos\<close>: the length is passed as an \<open>int\<close> and becomes the unsigned
  \<open>avail_out\<close>, which must fit into what is left of the buffer.
\<close>

definition fill_block :: "'s bzlib \<Rightarrow> int \<Rightarrow> int \<Rightarrow> int \<Rightarrow> 's \<Rightarrow> (buffer option \<times> 's) option" where
  "fill_block bz new_size pos n s =
     (if new_size - pos < to_int32 n mod 2 ^ 32 then None
      else do {
        (r, s1) \<leftarrow> FillBuffer bz (nat (to_int32 n mod 2 ^ 32)) s;
        if r \<noteq> None \<and> 2 ^ 31 \<le> n then None else Some (r, s1) })"

text \<open>One turn of the loop of \<open>ApplyBSDiffPatchMem\<close>: a returned error code or the next state.\<close>

definition patch_step ::
  "'s bzlib \<Rightarrow> buffer \<Rightarrow> int \<Rightarrow> int \<Rightarrow> 's patch_state \<Rightarrow> (int + 's patch_state) option" where
  "patch_step bz old_data old_size new_size st = do {
     (buf, c1) \<leftarrow> FillBuffer bz 24 (cstream st);
     case buf of
       None \<Rightarrow> Some (Inl 1)
     | Some buf \<Rightarrow> do {
         ctrl0 \<leftarrow> offtin buf;
         ctrl1 \<leftarrow> offtin (drop 8 buf);
         ctrl2 \<leftarrow> offtin (drop 16 buf);
         if ctrl0 < 0 \<or> ctrl1 < 0 then Some (Inl 1)
         else do {
           p0 \<leftarrow> add_off (newpos st) ctrl0;
           if new_size < p0 then Some (Inl 1)
           else do {
             (diff, d1) \<leftarrow> fill_block bz new_size (newpos st) ctrl0 (dstream st);
             case diff of
               None \<Rightarrow> Some (Inl 1)
             | Some diff \<Rightarrow> do {
                 blk \<leftarrow> add_old old_data old_size (oldpos st) diff;
                 o1 \<leftarrow> add_off (oldpos st) ctrl0;
                 p1 \<leftarrow> add_off p0 ctrl1;
                 if new_size < p1 then Some (Inl 1)
                 else do {
                   (extra, e1) \<leftarrow> fill_block bz new_size p0 ctrl1 (estream st);
                   case extra of
                     None \<Rightarrow> Some (Inl 1)
                   | Some extra \<Rightarrow> do {
                       o2 \<leftarrow> add_off o1 ctrl2;
                       Some (Inr \<lparr>oldpos = o2, new_data = new_data st @ blk @ extra,
                                  cstream = c1, dstream = d1, estream = e1\<rparr>) } } } } } } }"

partial_function (option) patch_loop ::
  "'s bzlib \<Rightarrow> buffer \<Rightarrow> int \<Rightarrow> int \<Rightarrow> 's patch_state \<Rightarrow> (int + buffer) option" where
  "patch_loop bz old_data old_size new_size st =
     (if new_size \<le> newpos st then Some (Inr (new_data st))
      else do {
        r \<leftarrow> patch_step bz old_data old_size new_size st;
        case r of
          Inl code \<Rightarrow> Some (Inl code)
        | Inr st1 \<Rightarrow> patch_loop bz old_data old_size new_size st1 })"

definition BSDIFF40 :: buffer where
  "BSDIFF40 = [0x42, 0x53, 0x44, 0x49, 0x46, 0x46, 0x34, 0x30]"

text \<open>
  A stream on the \<open>n\<close> bytes at \<open>off\<close>: \<open>avail_in\<close> is an unsigned 32-bit field and the library may
  read all of it. A failed initialisation is only logged; using the stream is then undefined.
\<close>

definition open_stream :: "'s bzlib \<Rightarrow> buffer \<Rightarrow> int \<Rightarrow> int \<Rightarrow> 's option" where
  "open_stream bz dat off n =
     (let avail_in = n mod 2 ^ 32 in
      if off < 0 \<or> int (length dat) < off + avail_in then None
      else bzDecompressInit bz (take (nat avail_in) (drop (nat off) dat)))"

text \<open>
  \<open>ApplyBSDiffPatchMem\<close>: the error code, or the new data. \<open>malloc_ok\<close> tells which allocations
  succeed.
\<close>

definition ApplyBSDiffPatchMem ::
  "'s bzlib \<Rightarrow> (int \<Rightarrow> bool) \<Rightarrow> buffer \<Rightarrow> int \<Rightarrow> buffer \<Rightarrow> int \<Rightarrow> (int + buffer) option" where
  "ApplyBSDiffPatchMem bz malloc_ok old_data old_size patch patch_offset =
     (if patch_offset < 0 \<or> int (length patch) < patch_offset + 8 then None
      else
        let header = drop (nat patch_offset) patch in
        if take 8 header \<noteq> BSDIFF40 then Some (Inl 1)
        else do {
          ctrl_len \<leftarrow> offtin (drop 8 header);
          data_len \<leftarrow> offtin (drop 16 header);
          new_size \<leftarrow> offtin (drop 24 header);
          if ctrl_len < 0 \<or> data_len < 0 \<or> new_size < 0 then Some (Inl 1)
          else do {
            c \<leftarrow> open_stream bz patch (patch_offset + 32) ctrl_len;
            d \<leftarrow> open_stream bz patch (patch_offset + 32 + ctrl_len) data_len;
            e \<leftarrow> open_stream bz patch (patch_offset + 32 + ctrl_len + data_len)
                   (int (length patch) - (patch_offset + 32 + ctrl_len + data_len));
            if \<not> malloc_ok new_size then Some (Inl 1)
            else patch_loop bz old_data old_size new_size
                   \<lparr>oldpos = 0, new_data = [], cstream = c, dstream = d, estream = e\<rparr> } })"

text \<open>
  A sink is a function on the bytes and its token; \<open>SHA_update\<close> is a parameter and \<open>ctx\<close> may be
  null.
\<close>

definition ApplyBSDiffPatch ::
  "'s bzlib \<Rightarrow> (int \<Rightarrow> bool) \<Rightarrow> ('c \<Rightarrow> buffer \<Rightarrow> 'c) \<Rightarrow> buffer \<Rightarrow> int \<Rightarrow> buffer \<Rightarrow> int
     \<Rightarrow> (buffer \<Rightarrow> 'k \<Rightarrow> int \<times> 'k) \<Rightarrow> 'k \<Rightarrow> 'c option \<Rightarrow> (int \<times> 'k \<times> 'c option) option" where
  "ApplyBSDiffPatch bz malloc_ok SHA_update old_data old_size patch patch_offset sink token ctx = do {
     r \<leftarrow> ApplyBSDiffPatchMem bz malloc_ok old_data old_size patch patch_offset;
     case r of
       Inl _ \<Rightarrow> Some (-1, token, ctx)
     | Inr new \<Rightarrow>
         (let (written, token1) = sink new token in
          if written < int (length new) then Some (1, token1, ctx)
          else Some (0, token1, map_option (\<lambda>c. SHA_update c new) ctx)) }"

section \<open>Specification\<close>

text \<open>The old byte that is added at a position: zero outside the old file.\<close>

definition old_byte :: "buffer \<Rightarrow> int \<Rightarrow> byte" where
  "old_byte old i = (if 0 \<le> i \<and> i < int (length old) then old ! nat i else 0)"

definition add_region :: "buffer \<Rightarrow> int \<Rightarrow> buffer \<Rightarrow> buffer" where
  "add_region old pos diff = map (\<lambda>i. diff ! i + old_byte old (pos + int i)) [0..<length diff]"

fun patched :: "buffer \<Rightarrow> int \<Rightarrow> (nat \<times> nat \<times> int) list \<Rightarrow> buffer \<Rightarrow> buffer \<Rightarrow> buffer" where
  "patched old pos [] diff extra = []"
| "patched old pos ((x, y, z) # cs) diff extra =
     add_region old pos (take x diff) @ take y extra
       @ patched old (pos + int x + z) cs (drop x diff) (drop y extra)"

text \<open>The control block as the generator writes it, and the bounds of a patch that fits \<open>off_t\<close>.\<close>

definition ctrl_bytes :: "(nat \<times> nat \<times> int) \<Rightarrow> buffer" where
  "ctrl_bytes c = (case c of (x, y, z) \<Rightarrow> the (offtout (int x)) @ the (offtout (int y)) @ the (offtout z))"

fun ctrl_ok :: "int \<Rightarrow> (nat \<times> nat \<times> int) list \<Rightarrow> bool" where
  "ctrl_ok pos [] \<longleftrightarrow> True"
| "ctrl_ok pos ((x, y, z) # cs) \<longleftrightarrow>
     LONG_MIN \<le> pos + int x \<and> pos + int x \<le> LONG_MAX \<and> LONG_MIN \<le> pos + int x + z
     \<and> pos + int x + z \<le> LONG_MAX \<and> \<bar>z\<bar> < 2 ^ 63 \<and> ctrl_ok (pos + int x + z) cs"

text \<open>
  \<open>delivers bz content\<close>: the documented behaviour of \<open>BZ2_bzDecompress\<close> on a stream with complete
  input: asked for at most what is left, it succeeds and makes progress, and the pieces it returns
  make up the content.
\<close>

definition delivers :: "'s bzlib \<Rightarrow> ('s \<Rightarrow> buffer) \<Rightarrow> bool" where
  "delivers bz content \<longleftrightarrow>
     (\<forall>st n. 0 < n \<and> n \<le> length (content st) \<longrightarrow>
        (case bzDecompress bz st n of (bzerr, out, st1) \<Rightarrow>
           (bzerr = BZ_OK \<or> bzerr = BZ_STREAM_END) \<and> out \<noteq> [] \<and> length out \<le> n
           \<and> content st = out @ content st1))"

section \<open>Filling a buffer\<close>

lemma FillBuffer_delivers:
  assumes "delivers bz content"
  shows "n \<le> length (content st) \<Longrightarrow>
    \<exists>st'. FillBuffer bz n st = Some (Some (take n (content st)), st') \<and> content st' = drop n (content st)"
proof (induction n arbitrary: st rule: less_induct)
  case (less n)
  show ?case
  proof (cases "n = 0")
    case True
    then show ?thesis by (subst FillBuffer.simps) simp
  next
    case False
    obtain bzerr out st1 where dec: "bzDecompress bz st n = (bzerr, out, st1)" by (cases "bzDecompress bz st n")
    with assms False less.prems have out: "bzerr = BZ_OK \<or> bzerr = BZ_STREAM_END" "out \<noteq> []"
      "length out \<le> n" "content st = out @ content st1"
      unfolding delivers_def by fastforce+
    have "n - length out < n" "n - length out \<le> length (content st1)"
      using False out less.prems by (auto simp: diff_less)
    from less.IH [OF this] obtain st2 where
      "FillBuffer bz (n - length out) st1 = Some (Some (take (n - length out) (content st1)), st2)"
      "content st2 = drop (n - length out) (content st1)" by blast
    then show ?thesis
      using False out(1,3,4) by (subst FillBuffer.simps) (auto simp: dec)
  qed
qed

text \<open>When the decompressor reports success without producing anything, as it does at the end of
  truncated input, \<open>FillBuffer\<close> does not end.\<close>

theorem FillBuffer_diverges:
  assumes "bzDecompress bz st n = (BZ_OK, [], st)" "0 < n"
  shows "FillBuffer bz n st = None"
proof -
  have "\<not> (0 < n \<and> bzDecompress bz st n = (BZ_OK, [], st))" if "FillBuffer bz n st = Some y" for y
  proof (rule FillBuffer.raw_induct [OF _ that, where P = "\<lambda>bz n st y. \<not> (0 < n \<and> bzDecompress bz st n = (BZ_OK, [], st))"])
    fix F and bz :: "'a bzlib" and n st y
    assume IH: "\<And>bz n st y. F bz n st = Some y \<Longrightarrow> \<not> (0 < n \<and> bzDecompress bz st n = (BZ_OK, [], st))"
      and body: "(if n = 0 then Some (Some [], st)
        else case bzDecompress bz st n of (bzerr, out, st1) \<Rightarrow>
          if bzerr \<noteq> BZ_OK \<and> bzerr \<noteq> BZ_STREAM_END then Some (None, st1)
          else do { (r, st2) \<leftarrow> F bz (n - length out) st1; Some (map_option ((@) out) r, st2) }) = Some y"
    show "\<not> (0 < n \<and> bzDecompress bz st n = (BZ_OK, [], st))"
    proof
      assume "0 < n \<and> bzDecompress bz st n = (BZ_OK, [], st)"
      with body obtain y' where "F bz n st = Some y'" by (auto split: bind_splits)
      with IH \<open>0 < n \<and> _\<close> show False by blast
    qed
  qed
  with assms show ?thesis by (cases "FillBuffer bz n st") auto
qed

theorem FillBuffer_diverges_witness:
  "FillBuffer \<lparr>bzDecompressInit = Some, bzDecompress = \<lambda>st n. (BZ_OK, take n st, drop n st)\<rparr> 24 [] = None"
  by (rule FillBuffer_diverges) simp_all

section \<open>The patching loop\<close>

lemma to_int32_small: "0 \<le> n \<Longrightarrow> n < 2 ^ 31 \<Longrightarrow> to_int32 n mod 2 ^ 32 = n"
  by (simp add: to_int32_def signed_of_int signed_take_bit_int_eq_self)

lemma fill_block_delivers:
  assumes "delivers bz content" "n \<le> length (content s)" "pos + int n \<le> new_size" "n < 2 ^ 31"
  shows "\<exists>s'. fill_block bz new_size pos (int n) s = Some (Some (take n (content s)), s')
    \<and> content s' = drop n (content s)"
proof -
  have "to_int32 (int n) mod 2 ^ 32 = int n" using assms(4) by (intro to_int32_small) simp_all
  with FillBuffer_delivers [OF assms(1,2)] assms(3,4) show ?thesis
    by (auto simp: fill_block_def simp del: power_numeral)
qed

lemma add_old_region:
  "add_old old (int (length old)) pos diff = Some (add_region old pos diff)"
proof (induction diff arbitrary: pos)
  case (Cons d ds)
  have "add_region old pos (d # ds) = (d + old_byte old pos) # add_region old (pos + 1) ds"
    by (simp add: add_region_def upt_conv_Cons map_Suc_upt [symmetric] comp_def add.commute
        add.left_commute del: upt_Suc)
  with Cons show ?case by (auto simp: old_byte_def)
qed (simp add: add_region_def)

lemma length_add_region [simp]: "length (add_region old pos diff) = length diff"
  by (simp add: add_region_def)

lemma offtin_ctrl:
  assumes "int x < 2 ^ 63" "int y < 2 ^ 63" "\<bar>z\<bar> < 2 ^ 63"
  shows "length (ctrl_bytes (x, y, z)) = 24" "offtin (ctrl_bytes (x, y, z)) = Some (int x)"
    "offtin (drop 8 (ctrl_bytes (x, y, z))) = Some (int y)"
    "offtin (drop 16 (ctrl_bytes (x, y, z))) = Some z"
proof -
  define bx by' bz where "bx = the (offtout (int x))" and "by' = the (offtout (int y))" and "bz = the (offtout z)"
  have bx: "length bx = 8" "offtin (bx @ r) = Some (int x)" for r
    using offt_inverse [of "int x" r] assms(1) by (auto simp: bx_def)
  have by': "length by' = 8" "offtin (by' @ r) = Some (int y)" for r
    using offt_inverse [of "int y" r] assms(2) by (auto simp: by'_def)
  have bz: "length bz = 8" "offtin (bz @ []) = Some z"
    using offt_inverse [of z "[]"] assms(3) by (auto simp: bz_def)
  have c: "ctrl_bytes (x, y, z) = bx @ by' @ bz" by (simp add: ctrl_bytes_def bx_def by'_def bz_def)
  show "length (ctrl_bytes (x, y, z)) = 24" "offtin (ctrl_bytes (x, y, z)) = Some (int x)"
    "offtin (drop 8 (ctrl_bytes (x, y, z))) = Some (int y)"
    "offtin (drop 16 (ctrl_bytes (x, y, z))) = Some z"
    using bx by' bz by (simp_all add: c)
qed

definition diff_total :: "(nat \<times> nat \<times> int) list \<Rightarrow> nat" where
  "diff_total cs = sum_list (map fst cs)"

definition extra_total :: "(nat \<times> nat \<times> int) list \<Rightarrow> nat" where
  "extra_total cs = sum_list (map (fst \<circ> snd) cs)"

lemma total_simps [simp]:
  "diff_total [] = 0" "diff_total ((x, y, z) # cs) = x + diff_total cs"
  "extra_total [] = 0" "extra_total ((x, y, z) # cs) = y + extra_total cs"
  by (simp_all add: diff_total_def extra_total_def)

lemma length_patched:
  "diff_total cs \<le> length diff \<Longrightarrow> extra_total cs \<le> length extra
   \<Longrightarrow> length (patched old pos cs diff extra) = diff_total cs + extra_total cs"
  by (induction old pos cs diff extra rule: patched.induct) auto

lemma patch_step_ok:
  assumes bz: "delivers bz content"
    and ctrl: "content (cstream st) = ctrl_bytes (x, y, z) @ crest"
    and d: "x \<le> length (content (dstream st))" and e: "y \<le> length (content (estream st))"
    and sz: "newpos st + int x + int y \<le> new_size" "new_size < 2 ^ 31"
    and ok: "ctrl_ok (oldpos st) ((x, y, z) # cs)"
  shows "\<exists>st'. patch_step bz old (int (length old)) new_size st = Some (Inr st')
    \<and> oldpos st' = oldpos st + int x + z
    \<and> new_data st' = new_data st @ add_region old (oldpos st) (take x (content (dstream st)))
                       @ take y (content (estream st))
    \<and> content (cstream st') = crest \<and> content (dstream st') = drop x (content (dstream st))
    \<and> content (estream st') = drop y (content (estream st))"
proof -
  have small: "x < 2 ^ 31" "y < 2 ^ 31" "int x < 2 ^ 63" "int y < 2 ^ 63" "\<bar>z\<bar> < 2 ^ 63"
    using sz ok by auto
  note oc = offtin_ctrl [OF small(3-5)]
  obtain c1 where c1: "FillBuffer bz 24 (cstream st) = Some (Some (ctrl_bytes (x, y, z)), c1)" "content c1 = crest"
    using FillBuffer_delivers [OF bz, of 24 "cstream st"] oc(1) by (auto simp: ctrl)
  obtain d1 where d1: "fill_block bz new_size (newpos st) (int x) (dstream st)
      = Some (Some (take x (content (dstream st))), d1)" "content d1 = drop x (content (dstream st))"
    using fill_block_delivers [OF bz d _ small(1), of "newpos st" new_size] sz(1) by auto
  obtain e1 where e1: "fill_block bz new_size (newpos st + int x) (int y) (estream st)
      = Some (Some (take y (content (estream st))), e1)" "content e1 = drop y (content (estream st))"
    using fill_block_delivers [OF bz e _ small(2), of "newpos st + int x" new_size] sz(1) by auto
  have "add_off (newpos st) (int x) = Some (newpos st + int x)"
    "add_off (newpos st + int x) (int y) = Some (newpos st + int x + int y)"
    "add_off (oldpos st) (int x) = Some (oldpos st + int x)"
    "add_off (oldpos st + int x) z = Some (oldpos st + int x + z)"
    using sz ok by (auto simp: add_off_def LONG_MAX_def LONG_MIN_def)
  then show ?thesis
    using sz(1) c1 d1 e1 oc by (simp add: patch_step_def add_old_region)
qed

lemma patch_loop_ok:
  assumes bz: "delivers bz content"
    and "content (cstream st) = concat (map ctrl_bytes cs) @ crest"
    and "diff_total cs \<le> length (content (dstream st))" "extra_total cs \<le> length (content (estream st))"
    and "new_size = newpos st + int (diff_total cs + extra_total cs)" "new_size < 2 ^ 31"
    and "ctrl_ok (oldpos st) cs"
  shows "patch_loop bz old (int (length old)) new_size st
    = Some (Inr (new_data st @ patched old (oldpos st) cs (content (dstream st)) (content (estream st))))"
  using assms(2-)
proof (induction cs arbitrary: st)
  case Nil
  then show ?case by (subst patch_loop.simps) simp
next
  case (Cons c cs)
  obtain x y z where c: "c = (x, y, z)" by (cases c)
  show ?case
  proof (cases "newpos st < new_size")
  case False
  then have "length (patched old (oldpos st) (c # cs) (content (dstream st)) (content (estream st))) = 0"
    using length_patched [OF Cons.prems(2,3), of old "oldpos st"] Cons.prems(4) by simp
  with False show ?thesis by (subst patch_loop.simps) simp
  next
  case lt: True
  obtain st' where st': "patch_step bz old (int (length old)) new_size st = Some (Inr st')"
    "oldpos st' = oldpos st + int x + z"
    "new_data st' = new_data st @ add_region old (oldpos st) (take x (content (dstream st)))
       @ take y (content (estream st))"
    "content (cstream st') = concat (map ctrl_bytes cs) @ crest"
    "content (dstream st') = drop x (content (dstream st))" "content (estream st') = drop y (content (estream st))"
    using patch_step_ok [OF bz, of st x y z _ new_size cs old] Cons.prems by (auto simp: c)
  have "patch_loop bz old (int (length old)) new_size st'
      = Some (Inr (new_data st' @ patched old (oldpos st') cs (content (dstream st')) (content (estream st'))))"
    using Cons.prems st' by (intro Cons.IH) (auto simp: c)
  with lt st' show ?thesis by (subst patch_loop.simps) (simp add: c)
  qed
qed

section \<open>Applying a patch file\<close>

text \<open>
  The file layout: the header with the three lengths, then the compressed control, diff and extra
  blocks. \<open>opens\<close> states what \<open>BZ2_bzDecompressInit\<close> promises for a block that was compressed
  from \<open>bytes\<close>: it succeeds and the stream delivers these bytes first.
\<close>

definition patch_file :: "buffer \<Rightarrow> buffer \<Rightarrow> buffer \<Rightarrow> nat \<Rightarrow> buffer" where
  "patch_file c d e new_size =
     BSDIFF40 @ the (offtout (int (length c))) @ the (offtout (int (length d)))
       @ the (offtout (int new_size)) @ c @ d @ e"

definition opens :: "'s bzlib \<Rightarrow> ('s \<Rightarrow> buffer) \<Rightarrow> buffer \<Rightarrow> buffer \<Rightarrow> bool" where
  "opens bz content block bytes \<longleftrightarrow>
     (\<exists>s. bzDecompressInit bz block = Some s \<and> (\<exists>rest. content s = bytes @ rest))"

lemma open_stream_at:
  assumes "int (length block) < 2 ^ 32"
  shows "open_stream bz (pre @ block @ post) (int (length pre)) (int (length block)) = bzDecompressInit bz block"
  using assms by (simp add: open_stream_def Let_def)

lemma patched_append:
  assumes "diff_total cs \<le> length diff" "extra_total cs \<le> length extra"
  shows "patched old pos cs (diff @ d) (extra @ e) = patched old pos cs diff extra"
  using assms by (induction old pos cs diff extra rule: patched.induct) auto

lemma offtout_length: "\<bar>x\<bar> < 2 ^ 63 \<Longrightarrow> length (the (offtout x)) = 8"
  using offt_inverse [of x "[]"] by auto

lemma offtin_the: "\<bar>x\<bar> < 2 ^ 63 \<Longrightarrow> offtin (the (offtout x) @ r) = Some x"
  using offt_inverse [of x r] by auto

lemma ApplyBSDiffPatchMem_ok:
  assumes bz: "delivers bz content"
    and op: "opens bz content c (concat (map ctrl_bytes cs))" "opens bz content d diff" "opens bz content e extra"
    and tot: "diff_total cs = length diff" "extra_total cs = length extra"
    and sz: "length diff + length extra < 2 ^ 31" "length c < 2 ^ 31" "length d < 2 ^ 31" "length e < 2 ^ 31"
    and ok: "ctrl_ok 0 cs" and mem: "malloc_ok (int (length diff + length extra))"
  shows "ApplyBSDiffPatchMem bz malloc_ok old (int (length old))
      (pre @ patch_file c d e (length diff + length extra)) (int (length pre))
    = Some (Inr (patched old 0 cs diff extra))"
proof -
  let ?n = "length diff + length extra"
  let ?h = "BSDIFF40 @ the (offtout (int (length c))) @ the (offtout (int (length d))) @ the (offtout (int ?n))"
  let ?p = "pre @ patch_file c d e ?n"
  have b8: "length BSDIFF40 = 8" by (simp add: BSDIFF40_def)
  have l8: "length (the (offtout (int (length c)))) = 8" "length (the (offtout (int (length d)))) = 8"
    "length (the (offtout (int ?n))) = 8"
    using sz by (auto intro: offtout_length)
  obtain sc sd se where init: "bzDecompressInit bz c = Some sc" "bzDecompressInit bz d = Some sd"
      "bzDecompressInit bz e = Some se"
    and cont: "\<exists>r. content sc = concat (map ctrl_bytes cs) @ r" "\<exists>r. content sd = diff @ r" "\<exists>r. content se = extra @ r"
    using op unfolding opens_def by blast
  have lens: "offtin (the (offtout (int (length c))) @ r) = Some (int (length c))"
    "offtin (the (offtout (int (length d))) @ r) = Some (int (length d))"
    "offtin (the (offtout (int ?n)) @ r) = Some (int ?n)" for r
    using sz by (auto intro: offtin_the)
  have "open_stream bz ?p (int (length pre) + 32) (int (length c)) = Some sc"
    using open_stream_at [of c bz "pre @ ?h" "d @ e"] sz l8 b8 init by (simp add: patch_file_def add.commute)
  moreover have "open_stream bz ?p (int (length pre) + 32 + int (length c)) (int (length d)) = Some sd"
    using open_stream_at [of d bz "pre @ ?h @ c" e] sz l8 b8 init by (simp add: patch_file_def ac_simps)
  moreover have "open_stream bz ?p (int (length pre) + 32 + int (length c) + int (length d))
      (int (length ?p) - (int (length pre) + 32 + int (length c) + int (length d))) = Some se"
    using open_stream_at [of e bz "pre @ ?h @ c @ d" "[]"] sz l8 b8 init by (simp add: patch_file_def ac_simps)
  moreover have "patch_loop bz old (int (length old)) (int ?n)
      \<lparr>oldpos = 0, new_data = [], cstream = sc, dstream = sd, estream = se\<rparr>
      = Some (Inr (patched old 0 cs diff extra))"
    using patch_loop_ok [OF bz, of "\<lparr>oldpos = 0, new_data = [], cstream = sc, dstream = sd, estream = se\<rparr>" cs
        _ "int ?n" old] cont sz(1) tot ok by (auto simp: patched_append)
  ultimately show ?thesis
    using mem lens l8 b8
    by (simp add: ApplyBSDiffPatchMem_def Let_def patch_file_def)
qed

section \<open>Bounds\<close>

text \<open>The library never writes more than it was given room for.\<close>

definition bz_bounded :: "'s bzlib \<Rightarrow> bool" where
  "bz_bounded bz \<longleftrightarrow> (\<forall>st n. length (fst (snd (bzDecompress bz st n))) \<le> n)"

lemma FillBuffer_length:
  assumes "bz_bounded bz" "FillBuffer bz n st = Some (Some bs, st')"
  shows "length bs = n"
proof -
  let ?P = "\<lambda>bz n st y. bz_bounded bz \<longrightarrow> (\<forall>bs st'. y = (Some bs, st') \<longrightarrow> length bs = n)"
  have "?P bz n st (Some bs, st')"
  proof (rule FillBuffer.raw_induct [OF _ assms(2), where P = ?P])
    fix F and bz :: "'a bzlib" and n st y
    assume IH: "\<And>bz n st y. F bz n st = Some y \<Longrightarrow> ?P bz n st y"
      and body: "(if n = 0 then Some (Some [], st)
        else case bzDecompress bz st n of (bzerr, out, st1) \<Rightarrow>
          if bzerr \<noteq> BZ_OK \<and> bzerr \<noteq> BZ_STREAM_END then Some (None, st1)
          else do { (r, st2) \<leftarrow> F bz (n - length out) st1; Some (map_option ((@) out) r, st2) }) = Some y"
    show "?P bz n st y"
    proof (intro impI allI)
      fix bs st'
      assume b: "bz_bounded bz" and y: "y = (Some bs, st')"
      obtain bzerr out st1 where dec: "bzDecompress bz st n = (bzerr, out, st1)" by (cases "bzDecompress bz st n")
      have "length out \<le> n" using b dec unfolding bz_bounded_def by (metis fst_conv snd_conv)
      with body y dec IH b show "length bs = n" by (fastforce split: if_splits bind_splits)
    qed
  qed
  with assms(1) show ?thesis by blast
qed

lemma fill_block_length:
  assumes "bz_bounded bz" "fill_block bz new_size pos n s = Some (Some bs, s')" "0 \<le> n"
  shows "int (length bs) = n"
proof -
  from assms(2) have "n < 2 ^ 31" and
    f: "FillBuffer bz (nat (to_int32 n mod 2 ^ 32)) s = Some (Some bs, s')"
    by (auto simp: fill_block_def split: if_splits bind_splits)
  then have "to_int32 n mod 2 ^ 32 = n" using assms(3) by (intro to_int32_small)
  with FillBuffer_length [OF assms(1) f] assms(3) show ?thesis by (simp del: power_numeral)
qed

lemma add_old_length: "add_old old sz pos ds = Some bs \<Longrightarrow> length bs = length ds"
  by (induction ds arbitrary: pos bs) (auto split: bind_splits if_splits)

lemma patch_step_bound:
  assumes b: "bz_bounded bz" and "patch_step bz old sz new_size st = Some (Inr st')" "newpos st \<le> new_size"
  shows "newpos st \<le> newpos st' \<and> newpos st' \<le> new_size"
proof -
  obtain c1 buf ctrl0 ctrl1 diff d1 extra e1 blk p0 p1 where
    c: "\<not> ctrl0 < 0" "\<not> ctrl1 < 0" "add_off (newpos st) ctrl0 = Some p0" "\<not> new_size < p0"
    "fill_block bz new_size (newpos st) ctrl0 (dstream st) = Some (Some diff, d1)"
    "add_old old sz (oldpos st) diff = Some blk" "add_off p0 ctrl1 = Some p1" "\<not> new_size < p1"
    "fill_block bz new_size p0 ctrl1 (estream st) = Some (Some extra, e1)"
    "new_data st' = new_data st @ blk @ extra"
    using assms(2) unfolding patch_step_def
    by (auto split: bind_splits if_splits option.splits)
  have "int (length diff) = ctrl0" "int (length extra) = ctrl1"
    using fill_block_length [OF b c(5)] fill_block_length [OF b c(9)] c(1,2) by auto
  moreover have "p0 = newpos st + ctrl0" "p1 = p0 + ctrl1"
    using c(3,7) by (auto simp: add_off_def split: if_splits)
  ultimately show ?thesis using c(8,10) add_old_length [OF c(6)] by simp
qed

lemma patch_loop_length:
  assumes "patch_loop bz old sz new_size st = Some r" "bz_bounded bz" "newpos st \<le> new_size"
  shows "r = Inr new \<Longrightarrow> int (length new) = new_size"
proof -
  let ?P = "\<lambda>bz old sz new_size st r. bz_bounded bz \<longrightarrow> newpos st \<le> new_size
      \<longrightarrow> (\<forall>new. r = Inr new \<longrightarrow> int (length new) = new_size)"
  have "?P bz old sz new_size st r"
  proof (rule patch_loop.raw_induct [OF _ assms(1), where P = ?P])
    fix F and bz :: "'a bzlib" and old sz new_size st r
    assume IH: "\<And>bz old sz new_size st r. F bz old sz new_size st = Some r \<Longrightarrow> ?P bz old sz new_size st r"
      and body: "(if new_size \<le> newpos st then Some (Inr (new_data st))
        else do { r \<leftarrow> patch_step bz old sz new_size st;
                  case r of Inl code \<Rightarrow> Some (Inl code) | Inr st1 \<Rightarrow> F bz old sz new_size st1 }) = Some r"
    show "?P bz old sz new_size st r"
    proof (intro impI allI)
      fix new assume h: "bz_bounded bz" "newpos st \<le> new_size" "r = Inr new"
      show "int (length new) = new_size"
      proof (cases "new_size \<le> newpos st")
        case False
        with body h(3) obtain st1 where st1: "patch_step bz old sz new_size st = Some (Inr st1)"
          "F bz old sz new_size st1 = Some (Inr new)"
          by (auto split: bind_splits sum.splits)
        with IH [OF st1(2)] h patch_step_bound [OF h(1) st1(1) h(2)] show ?thesis by blast
      qed (use body h in auto)
    qed
  qed
  with assms(2,3) show "r = Inr new \<Longrightarrow> int (length new) = new_size" by blast
qed

text \<open>Whatever the patch and the decompressor produce, when \<open>ApplyBSDiffPatchMem\<close> returns zero it
  has filled exactly the buffer it allocated: the new data has the length the patch header
  announces, and the header is well formed.\<close>

theorem ApplyBSDiffPatchMem_size:
  assumes "bz_bounded bz"
    and "ApplyBSDiffPatchMem bz malloc_ok old old_size patch off = Some (Inr new)"
  shows "take 8 (drop (nat off) patch) = BSDIFF40
    \<and> offtin (drop 24 (drop (nat off) patch)) = Some (int (length new)) \<and> malloc_ok (int (length new))"
proof -
  from assms(2) obtain n c d e where h: "take 8 (drop (nat off) patch) = BSDIFF40"
    "offtin (drop 24 (drop (nat off) patch)) = Some n" "\<not> n < 0" "malloc_ok n"
    "patch_loop bz old old_size n \<lparr>oldpos = 0, new_data = [], cstream = c, dstream = d, estream = e\<rparr> = Some (Inr new)"
    unfolding ApplyBSDiffPatchMem_def Let_def
    by (auto split: bind_splits if_splits simp: algebra_simps)
  have "int (length new) = n" by (rule patch_loop_length [OF h(5) assms(1)]) (use h(3) in simp_all)
  with h show ?thesis by simp
qed

text \<open>A compressor and decompressor that store their input.\<close>

abbreviation stored_bz :: "buffer bzlib" where
  "stored_bz \<equiv> \<lparr>bzDecompressInit = Some, bzDecompress = \<lambda>st n. (BZ_OK, take n st, drop n st)\<rparr>"

lemma stored_bz_ok: "delivers stored_bz id" "opens stored_bz id b b" "bz_bounded stored_bz"
  by (auto simp: delivers_def opens_def bz_bounded_def)

lemma stored_patch:
  "ApplyBSDiffPatchMem stored_bz (\<lambda>_. True) [5] 1 (patch_file (ctrl_bytes (1, 1, 0)) [2] [8] 2) 0 = Some (Inr [7, 8])"
proof -
  have len: "length (ctrl_bytes (1, 1, 0)) = 24" by (intro offtin_ctrl(1)) simp_all
  have "ApplyBSDiffPatchMem stored_bz (\<lambda>_. True) [5] (int (length [5 :: byte])) ([] @ patch_file (ctrl_bytes (1, 1, 0)) [2] [8]
      (length [2 :: byte] + length [8 :: byte])) (int (length ([] :: buffer)))
      = Some (Inr (patched [5] 0 [(1, 1, 0)] [2] [8]))"
    using len stored_bz_ok
    by (intro ApplyBSDiffPatchMem_ok [where content = id]) (simp_all add: LONG_MAX_def LONG_MIN_def)
  then show ?thesis by (simp add: add_region_def old_byte_def numeral_2_eq_2)
qed

theorem ApplyBSDiffPatchMem_size_witness:
  "\<exists>patch. ApplyBSDiffPatchMem stored_bz (\<lambda>_. True) [5] 1 patch 0 = Some (Inr [7, 8])
    \<and> take 8 patch = BSDIFF40 \<and> offtin (drop 24 patch) = Some 2"
  using stored_patch ApplyBSDiffPatchMem_size [OF stored_bz_ok(3) stored_patch] by auto

text \<open>The patcher only compares the magic number before it reads the header: a patch of at least
  eight and fewer than 32 bytes that begins with \<open>BSDIFF40\<close> makes it read behind the patch.\<close>

theorem ApplyBSDiffPatchMem_short_header:
  assumes "length rest < 24"
  shows "ApplyBSDiffPatchMem bz malloc_ok old old_size (BSDIFF40 @ rest) 0 = None"
proof -
  have short: "offtin bs = None" if "length bs < 8" for bs
    using that by (cases bs rule: offtin.cases) auto
  have "offtin (drop 16 rest) = None" using assms by (intro short) simp
  then show ?thesis
    by (auto simp: ApplyBSDiffPatchMem_def BSDIFF40_def Let_def bind_eq_None_conv simp del: offtin.simps split: bind_split)
qed

theorem ApplyBSDiffPatchMem_short_header_witness:
  "ApplyBSDiffPatchMem stored_bz (\<lambda>_. True) [] 0 (BSDIFF40 @ [1, 2, 3]) 0 = None"
  by (rule ApplyBSDiffPatchMem_short_header) simp

end
