(* ===== verification/Bsdiff.thy ===== *)
theory Bsdiff
  imports Bspatch
begin

text \<open>
  The patch generator of \<open>applypatch/bsdiff.c\<close>: \<open>matchlen\<close>, \<open>search\<close> and the body of \<open>bsdiff\<close>, for
  a caller that passes the index array \<open>*IP\<close>. The array is an argument here and the theorems hold
  for every array whose entries are positions of the old file, so they do not depend on the order
  that \<open>qsufsort\<close> establishes. Every read of \<open>old\<close>, \<open>new\<close> and \<open>I\<close> is checked, and so are the
  writes into \<open>db\<close> and \<open>eb\<close>, which have \<open>newsize + 1\<close> bytes. The compressor is a parameter: it
  maps the bytes written between \<open>BZ2_bzWriteOpen\<close> and \<open>BZ2_bzWriteClose\<close> to the bytes appended to
  the file. A failing library call ends the program and is not modelled. All positions stay below
  the file sizes, so \<open>off_t\<close> values are natural numbers, but for \<open>lastoffset\<close> and the scores.
\<close>

section \<open>Searching\<close>

fun matchlen :: "buffer \<Rightarrow> buffer \<Rightarrow> nat" where
  "matchlen (x # xs) (y # ys) = (if x \<noteq> y then 0 else Suc (matchlen xs ys))"
| "matchlen _ _ = 0"

text \<open>\<open>memcmp\<close> on the common length of its arguments.\<close>

fun memcmp :: "buffer \<Rightarrow> buffer \<Rightarrow> int" where
  "memcmp (x # xs) (y # ys) = (if x = y then memcmp xs ys else uint x - uint y)"
| "memcmp _ _ = 0"

definition I_at :: "int list \<Rightarrow> buffer \<Rightarrow> nat \<Rightarrow> nat option" where
  "I_at I old k = (if k < length I \<and> 0 \<le> I ! k \<and> I ! k \<le> int (length old) then Some (nat (I ! k)) else None)"

text \<open>The pair of the match length and \<open>*pos\<close>.\<close>

function search :: "int list \<Rightarrow> buffer \<Rightarrow> buffer \<Rightarrow> nat \<Rightarrow> nat \<Rightarrow> (nat \<times> nat) option" where
  "search I old new st en =
     (if en - st < 2 then do {
        a \<leftarrow> I_at I old st;
        b \<leftarrow> I_at I old en;
        let x = matchlen (drop a old) new;
        let y = matchlen (drop b old) new;
        if y < x then Some (x, a) else Some (y, b) }
      else do {
        let x = st + (en - st) div 2;
        c \<leftarrow> I_at I old x;
        if memcmp (drop c old) new < 0 then search I old new x en
        else search I old new st x })"
  by pat_completeness auto
termination by (relation "measure (\<lambda>(I, old, new, st, en). en - st)") auto

declare search.simps [simp del]

section \<open>The scan\<close>

definition rd :: "buffer \<Rightarrow> nat \<Rightarrow> byte option" where
  "rd b i = (if i < length b then Some (b ! i) else None)"

text \<open>The test \<open>(i + lastoffset < oldsize) && (old[i + lastoffset] == new[i])\<close>.\<close>

definition offset_match :: "buffer \<Rightarrow> buffer \<Rightarrow> int \<Rightarrow> nat \<Rightarrow> bool option" where
  "offset_match old new lastoffset i =
     (if int i + lastoffset < int (length old)
      then if int i + lastoffset < 0 then None
           else do { a \<leftarrow> rd old (nat (int i + lastoffset)); b \<leftarrow> rd new i; Some (a = b) }
      else Some False)"

function count_matches :: "buffer \<Rightarrow> buffer \<Rightarrow> int \<Rightarrow> nat \<Rightarrow> nat \<Rightarrow> int \<Rightarrow> (int \<times> nat) option" where
  "count_matches old new lastoffset scsc lim oldscore =
     (if scsc < lim then do {
        m \<leftarrow> offset_match old new lastoffset scsc;
        count_matches old new lastoffset (scsc + 1) lim (if m then oldscore + 1 else oldscore) }
      else Some (oldscore, scsc))"
  by pat_completeness auto
termination by (relation "measure (\<lambda>(old, new, lo, scsc, lim, sc). lim - scsc)") auto

declare count_matches.simps [simp del]

text \<open>The inner \<open>for\<close> loop: it returns \<open>scan\<close>, \<open>oldscore\<close>, \<open>len\<close> and \<open>pos\<close>.\<close>

function scan_loop ::
  "int list \<Rightarrow> buffer \<Rightarrow> buffer \<Rightarrow> int \<Rightarrow> nat \<Rightarrow> nat \<Rightarrow> int \<Rightarrow> nat \<Rightarrow> nat \<Rightarrow> (nat \<times> int \<times> nat \<times> nat) option" where
  "scan_loop I old new lastoffset scan scsc oldscore len pos =
     (if scan < length new then
        (case search I old (drop scan new) 0 (length old) of
           None \<Rightarrow> None
         | Some (len, pos) \<Rightarrow>
             (case count_matches old new lastoffset scsc (scan + len) oldscore of
                None \<Rightarrow> None
              | Some (oldscore, scsc) \<Rightarrow>
                  if (int len = oldscore \<and> len \<noteq> 0) \<or> oldscore + 8 < int len
                  then Some (scan, oldscore, len, pos)
                  else (case offset_match old new lastoffset scan of
                          None \<Rightarrow> None
                        | Some m \<Rightarrow>
                            scan_loop I old new lastoffset (scan + 1) scsc
                              (if m then oldscore - 1 else oldscore) len pos)))
      else Some (scan, oldscore, len, pos))"
  by pat_completeness auto
termination by (relation "measure (\<lambda>(I, old, new, lo, scan, scsc, sc, len, pos). length new - scan)") auto

declare scan_loop.simps [simp del]

section \<open>Extending the match\<close>

function fwd_len ::
  "buffer \<Rightarrow> buffer \<Rightarrow> nat \<Rightarrow> nat \<Rightarrow> nat \<Rightarrow> nat \<Rightarrow> int \<Rightarrow> int \<Rightarrow> nat \<Rightarrow> nat option" where
  "fwd_len old new lastscan lastpos scan i s Sf lenf =
     (if lastscan + i < scan \<and> lastpos + i < length old then do {
        a \<leftarrow> rd old (lastpos + i);
        b \<leftarrow> rd new (lastscan + i);
        let s = (if a = b then s + 1 else s);
        if Sf * 2 - int lenf < s * 2 - int (i + 1)
        then fwd_len old new lastscan lastpos scan (i + 1) s s (i + 1)
        else fwd_len old new lastscan lastpos scan (i + 1) s Sf lenf }
      else Some lenf)"
  by pat_completeness auto
termination by (relation "measure (\<lambda>(old, new, ls, lp, scan, i, s, Sf, lenf). scan - (ls + i))") auto

declare fwd_len.simps [simp del]

function back_len ::
  "buffer \<Rightarrow> buffer \<Rightarrow> nat \<Rightarrow> nat \<Rightarrow> nat \<Rightarrow> nat \<Rightarrow> int \<Rightarrow> int \<Rightarrow> nat \<Rightarrow> nat option" where
  "back_len old new lastscan pos scan i s Sb lenb =
     (if lastscan + i \<le> scan \<and> i \<le> pos then do {
        a \<leftarrow> rd old (pos - i);
        b \<leftarrow> rd new (scan - i);
        let s = (if a = b then s + 1 else s);
        if Sb * 2 - int lenb < s * 2 - int i
        then back_len old new lastscan pos scan (i + 1) s s i
        else back_len old new lastscan pos scan (i + 1) s Sb lenb }
      else Some lenb)"
  by pat_completeness auto
termination by (relation "measure (\<lambda>(old, new, ls, pos, scan, i, s, Sb, lenb). pos + 1 - i)") auto

declare back_len.simps [simp del]

text \<open>The split of an overlap: \<open>p\<close>, \<open>q\<close> are where it starts in \<open>new\<close> and in the old file forwards,
  \<open>r\<close> where it starts in the old file backwards.\<close>

function overlap_len ::
  "buffer \<Rightarrow> buffer \<Rightarrow> nat \<Rightarrow> nat \<Rightarrow> nat \<Rightarrow> nat \<Rightarrow> nat \<Rightarrow> nat \<Rightarrow> int \<Rightarrow> int \<Rightarrow> nat \<Rightarrow> nat option" where
  "overlap_len old new p q p' r overlap i s Ss lens =
     (if i < overlap then do {
        a \<leftarrow> rd new (p + i);
        b \<leftarrow> rd old (q + i);
        c \<leftarrow> rd new (p' + i);
        d \<leftarrow> rd old (r + i);
        let s = (if a = b then s + 1 else s);
        let s = (if c = d then s - 1 else s);
        if Ss < s then overlap_len old new p q p' r overlap (i + 1) s s (i + 1)
        else overlap_len old new p q p' r overlap (i + 1) s Ss lens }
      else Some lens)"
  by pat_completeness auto
termination by (relation "measure (\<lambda>(old, new, p, q, p', r, overlap, i, s, Ss, lens). overlap - i)") auto

declare overlap_len.simps [simp del]

section \<open>The main loop\<close>

record diff_state =
  d_scan :: nat
  d_len :: nat
  d_pos :: nat
  d_lastscan :: nat
  d_lastpos :: nat
  d_lastoffset :: int
  d_db :: buffer
  d_eb :: buffer
  d_ctrl :: "(nat \<times> nat \<times> int) list"

text \<open>The lengths \<open>lenf\<close> and \<open>lenb\<close> of the block that ends before \<open>scan\<close>.\<close>

definition extend :: "buffer \<Rightarrow> buffer \<Rightarrow> nat \<Rightarrow> nat \<Rightarrow> nat \<Rightarrow> nat \<Rightarrow> (nat \<times> nat) option" where
  "extend old new lastscan lastpos scan pos = do {
     lenf \<leftarrow> fwd_len old new lastscan lastpos scan 0 0 0 0;
     lenb \<leftarrow> (if scan < length new then back_len old new lastscan pos scan 1 0 0 0 else Some 0);
     if scan - lenb < lastscan + lenf
     then do {
       let overlap = (lastscan + lenf) - (scan - lenb);
       lens \<leftarrow> overlap_len old new (lastscan + lenf - overlap) (lastpos + lenf - overlap)
                 (scan - lenb) (pos - lenb) overlap 0 0 0 0;
       Some (lenf + lens - overlap, lenb - lens) }
     else Some (lenf, lenb) }"

text \<open>One control triple with its diff and extra bytes.\<close>

definition emit :: "buffer \<Rightarrow> buffer \<Rightarrow> nat \<Rightarrow> nat \<Rightarrow> nat \<Rightarrow> diff_state \<Rightarrow> diff_state option" where
  "emit old new scan len pos st = do {
     (lenf, lenb) \<leftarrow> extend old new (d_lastscan st) (d_lastpos st) scan pos;
     let n = (scan - lenb) - (d_lastscan st + lenf);
     if length new + 1 < length (d_db st) + lenf \<or> length new + 1 < length (d_eb st) + n
        \<or> length old < d_lastpos st + lenf \<or> length new < d_lastscan st + lenf + n then None
     else Some \<lparr>d_scan = scan, d_len = len, d_pos = pos,
       d_lastscan = scan - lenb, d_lastpos = pos - lenb, d_lastoffset = int pos - int scan,
       d_db = d_db st @ map (\<lambda>i. new ! (d_lastscan st + i) - old ! (d_lastpos st + i)) [0..<lenf],
       d_eb = d_eb st @ map (\<lambda>i. new ! (d_lastscan st + lenf + i)) [0..<n],
       d_ctrl = d_ctrl st @ [(lenf, n, (int pos - int lenb) - (int (d_lastpos st) + int lenf))]\<rparr> }"

partial_function (option) diff_loop :: "int list \<Rightarrow> buffer \<Rightarrow> buffer \<Rightarrow> diff_state \<Rightarrow> diff_state option" where
  "diff_loop I old new st =
     (if d_scan st < length new then do {
        (scan, oldscore, len, pos) \<leftarrow>
          scan_loop I old new (d_lastoffset st) (d_scan st + d_len st) (d_scan st + d_len st) 0 (d_len st) (d_pos st);
        if int len \<noteq> oldscore \<or> scan = length new
        then do { st1 \<leftarrow> emit old new scan len pos st; diff_loop I old new st1 }
        else diff_loop I old new (st\<lparr>d_scan := scan, d_len := len, d_pos := pos\<rparr>) }
      else Some st)"

definition diff_init :: diff_state where
  "diff_init = \<lparr>d_scan = 0, d_len = 0, d_pos = 0, d_lastscan = 0, d_lastpos = 0, d_lastoffset = 0,
     d_db = [], d_eb = [], d_ctrl = []\<rparr>"

text \<open>The patch file: the header is written last, with the block lengths \<open>ftello\<close> reported.\<close>

definition write_patch ::
  "(buffer \<Rightarrow> buffer) \<Rightarrow> (nat \<times> nat \<times> int) list \<Rightarrow> buffer \<Rightarrow> buffer \<Rightarrow> nat \<Rightarrow> buffer option" where
  "write_patch compress ctrl db eb newsize = do {
     let c = compress (concat (map ctrl_bytes ctrl));
     let d = compress db;
     let e = compress eb;
     cl \<leftarrow> offtout (int (length c));
     dl \<leftarrow> offtout (int (length d));
     nl \<leftarrow> offtout (int newsize);
     Some (BSDIFF40 @ cl @ dl @ nl @ c @ d @ e) }"

definition bsdiff :: "(buffer \<Rightarrow> buffer) \<Rightarrow> int list \<Rightarrow> buffer \<Rightarrow> buffer \<Rightarrow> buffer option" where
  "bsdiff compress I old new = do {
     st \<leftarrow> diff_loop I old new diff_init;
     write_patch compress (d_ctrl st) (d_db st) (d_eb st) (length new) }"

section \<open>Every access is in bounds\<close>

definition index_ok :: "int list \<Rightarrow> buffer \<Rightarrow> bool" where
  "index_ok I old \<longleftrightarrow> length I = length old + 1 \<and> (\<forall>x \<in> set I. 0 \<le> x \<and> x \<le> int (length old))"

lemma I_at_ok: "index_ok I old \<Longrightarrow> k \<le> length old \<Longrightarrow> \<exists>a. I_at I old k = Some a \<and> a \<le> length old"
  by (auto simp: I_at_def index_ok_def nat_le_iff)

lemma matchlen_le: "matchlen xs ys \<le> length xs" "matchlen xs ys \<le> length ys"
  by (induction xs ys rule: matchlen.induct) auto

lemma rd_simp [simp]: "i < length b \<Longrightarrow> rd b i = Some (b ! i)"
  by (simp add: rd_def)

lemma search_ok:
  assumes "index_ok I old"
  shows "en \<le> length old \<Longrightarrow> st \<le> en \<Longrightarrow>
    \<exists>len pos. search I old new st en = Some (len, pos) \<and> len \<le> length new \<and> pos \<le> length old"
proof (induction "en - st" arbitrary: st en rule: less_induct)
  case less
  let ?x = "st + (en - st) div 2"
  have x: "?x \<le> length old" "st \<le> length old" using less.prems by auto
  obtain a b c where at: "I_at I old st = Some a" "a \<le> length old" "I_at I old en = Some b" "b \<le> length old"
    "I_at I old ?x = Some c"
    using I_at_ok [OF assms, of st] I_at_ok [OF assms, of en] I_at_ok [OF assms, of ?x] less.prems(1) x by auto
  show ?case
  proof (cases "en - st < 2")
    case True
    then show ?thesis using at matchlen_le by (subst search.simps) (auto simp: Let_def)
  next
    case False
    then have "en - ?x < en - st" "?x - st < en - st" "?x \<le> en" "st \<le> ?x" "?x \<le> length old"
      using less.prems by auto
    then have "\<exists>len pos. search I old new ?x en = Some (len, pos) \<and> len \<le> length new \<and> pos \<le> length old"
      "\<exists>len pos. search I old new st ?x = Some (len, pos) \<and> len \<le> length new \<and> pos \<le> length old"
      using less.hyps less.prems(1) by blast+
    then show ?thesis using False at by (subst search.simps) (auto simp: Let_def)
  qed
qed

lemma offset_match_ok:
  "0 \<le> int i + lo \<Longrightarrow> i < length new \<Longrightarrow> \<exists>m. offset_match old new lo i = Some m"
  by (auto simp: offset_match_def)

lemma count_matches_ok:
  "0 \<le> int scsc + lo \<Longrightarrow> lim \<le> length new \<Longrightarrow>
    \<exists>sc'. count_matches old new lo scsc lim sc = Some (sc', max scsc lim) \<and> sc \<le> sc'"
proof (induction old new lo scsc lim sc rule: count_matches.induct)
  case (1 old new lo scsc lim sc)
  show ?case
  proof (cases "scsc < lim")
    case True
    then obtain m where m: "offset_match old new lo scsc = Some m"
      using offset_match_ok [of scsc lo new old] 1 by auto
    from "1.IH" [OF True m] "1.prems" obtain sc' where
      "count_matches old new lo (scsc + 1) lim (if m then sc + 1 else sc) = Some (sc', max (scsc + 1) lim)"
      "(if m then sc + 1 else sc) \<le> sc'" by auto
    then show ?thesis using True m by (subst count_matches.simps) (auto split: if_splits)
  qed (subst count_matches.simps, simp)
qed

lemma scan_loop_ok:
  assumes "index_ok I old"
  shows "0 \<le> int scan + lo \<Longrightarrow> 0 \<le> int scsc + lo \<Longrightarrow> scan \<le> length new \<Longrightarrow> pos \<le> length old \<Longrightarrow>
    \<exists>scan' sc' len' pos'. scan_loop I old new lo scan scsc sc len pos = Some (scan', sc', len', pos')
      \<and> scan \<le> scan' \<and> scan' \<le> length new \<and> pos' \<le> length old
      \<and> (scan' < length new \<longrightarrow> scan' + len' \<le> length new)"
proof (induction "length new - scan" arbitrary: scan scsc sc len pos)
  case 0
  then show ?case by (subst scan_loop.simps) simp
next
  case (Suc n)
  obtain len1 pos1 where se: "search I old (drop scan new) 0 (length old) = Some (len1, pos1)"
    "len1 \<le> length new - scan" "pos1 \<le> length old"
    using search_ok [OF assms, of "length old" 0 "drop scan new"] by auto
  have lim: "scan + len1 \<le> length new" using se(2) Suc.hyps(2) by linarith
  obtain sc1 where cm: "count_matches old new lo scsc (scan + len1) sc = Some (sc1, max scsc (scan + len1))"
    using count_matches_ok [of scsc lo "scan + len1" new old sc] Suc.prems lim by auto
  obtain m where m: "offset_match old new lo scan = Some m"
    using offset_match_ok [of scan lo new old] Suc.prems(1) Suc.hyps(2) by (metis zero_less_Suc zero_less_diff)
  have "\<exists>scan' sc' len' pos'. scan_loop I old new lo (scan + 1) (max scsc (scan + len1))
      (if m then sc1 - 1 else sc1) len1 pos1 = Some (scan', sc', len', pos')
      \<and> scan + 1 \<le> scan' \<and> scan' \<le> length new \<and> pos' \<le> length old
      \<and> (scan' < length new \<longrightarrow> scan' + len' \<le> length new)"
    using Suc.hyps(2) Suc.prems se(3) by (intro Suc.hyps(1)) auto
  then show ?case
    using Suc.hyps(2) se cm m by (subst scan_loop.simps) auto
qed

lemma scan_loop_progress:
  assumes "index_ok I old" "0 \<le> int scan + lo" "scan < length new" "pos \<le> length old"
    and "scan_loop I old new lo scan scan 0 len pos = Some (scan', sc', len', pos')"
  shows "scan < scan' + len'"
proof -
  obtain len1 pos1 where se: "search I old (drop scan new) 0 (length old) = Some (len1, pos1)"
    "len1 \<le> length new - scan" "pos1 \<le> length old"
    using search_ok [OF assms(1), of "length old" 0 "drop scan new"] by auto
  have lim: "scan + len1 \<le> length new" using se(2) assms(3) by linarith
  obtain sc1 where cm: "count_matches old new lo scan (scan + len1) 0 = Some (sc1, scan + len1)" "0 \<le> sc1"
    using count_matches_ok [of scan lo "scan + len1" new old 0] assms(2) lim by auto
  obtain m where m: "offset_match old new lo scan = Some m"
    using offset_match_ok [of scan lo new old] assms by auto
  have "scan + 1 \<le> scan'" if "scan_loop I old new lo (scan + 1) (scan + len1)
      (if m then sc1 - 1 else sc1) len1 pos1 = Some (scan', sc', len', pos')"
    using scan_loop_ok [OF assms(1), of "scan + 1" lo "scan + len1" new pos1 "if m then sc1 - 1 else sc1" len1]
      that assms se(3) by auto
  then show ?thesis
    using assms(3,5) se cm m by (subst (asm) scan_loop.simps) (auto split: if_splits)
qed

lemma fwd_len_ok:
  "scan \<le> length new \<Longrightarrow> lastscan + lenf \<le> scan \<Longrightarrow> lastpos + lenf \<le> length old \<Longrightarrow>
    \<exists>r. fwd_len old new lastscan lastpos scan i s Sf lenf = Some r
      \<and> lastscan + r \<le> scan \<and> lastpos + r \<le> length old"
proof (induction "scan - (lastscan + i)" arbitrary: i s Sf lenf)
  case 0
  then show ?case by (subst fwd_len.simps) simp
next
  case (Suc n)
  then show ?case by (subst fwd_len.simps) (auto simp: Let_def)
qed

lemma back_len_ok:
  "scan \<le> length new \<Longrightarrow> pos \<le> length old \<Longrightarrow> 0 < i \<Longrightarrow> lastscan + lenb \<le> scan \<Longrightarrow> lenb \<le> pos \<Longrightarrow>
    \<exists>r. back_len old new lastscan pos scan i s Sb lenb = Some r \<and> lastscan + r \<le> scan \<and> r \<le> pos"
proof (induction "pos + 1 - i" arbitrary: i s Sb lenb)
  case 0
  then show ?case by (subst back_len.simps) simp
next
  case (Suc n)
  then show ?case by (subst back_len.simps) (auto simp: Let_def)
qed

lemma overlap_len_ok:
  "p + ov \<le> length new \<Longrightarrow> q + ov \<le> length old \<Longrightarrow> p' + ov \<le> length new \<Longrightarrow> r + ov \<le> length old
    \<Longrightarrow> lens \<le> ov \<Longrightarrow> \<exists>l. overlap_len old new p q p' r ov i s Ss lens = Some l \<and> l \<le> ov"
proof (induction "ov - i" arbitrary: i s Ss lens)
  case 0
  then show ?case by (subst overlap_len.simps) simp
next
  case (Suc n)
  then show ?case by (subst overlap_len.simps) (auto simp: Let_def)
qed

lemma extend_ok:
  assumes "lastscan \<le> scan" "scan \<le> length new" "lastpos \<le> length old" "pos \<le> length old"
  shows "\<exists>lenf lenb. extend old new lastscan lastpos scan pos = Some (lenf, lenb)
    \<and> lastscan + lenf \<le> scan - lenb \<and> lenb \<le> scan \<and> lastpos + lenf \<le> length old \<and> lenb \<le> pos
    \<and> (scan = length new \<longrightarrow> lenb = 0)"
proof -
  obtain lenf where f: "fwd_len old new lastscan lastpos scan 0 0 0 0 = Some lenf"
    "lastscan + lenf \<le> scan" "lastpos + lenf \<le> length old"
    using fwd_len_ok [of scan new lastscan 0 lastpos old] assms by fastforce
  obtain lenb where b: "(if scan < length new then back_len old new lastscan pos scan 1 0 0 0 else Some 0) = Some lenb"
    "lastscan + lenb \<le> scan" "lenb \<le> pos" "scan = length new \<longrightarrow> lenb = 0"
    using back_len_ok [of scan new pos old 1 lastscan 0 0 0] assms by (cases "scan < length new") auto
  show ?thesis
  proof (cases "scan - lenb < lastscan + lenf")
    case True
    let ?ov = "(lastscan + lenf) - (scan - lenb)"
    have "lastscan + lenf - ?ov + ?ov \<le> length new" "lastpos + lenf - ?ov + ?ov \<le> length old"
      "scan - lenb + ?ov \<le> length new" "pos - lenb + ?ov \<le> length old"
      using True f b assms by linarith+
    then obtain l where "overlap_len old new (lastscan + lenf - ?ov) (lastpos + lenf - ?ov)
        (scan - lenb) (pos - lenb) ?ov 0 0 0 0 = Some l" "l \<le> ?ov"
      using overlap_len_ok [of "lastscan + lenf - ?ov" ?ov new "lastpos + lenf - ?ov" old "scan - lenb" "pos - lenb" 0 0 0 0]
      by blast
    then show ?thesis using True f b by (auto simp: extend_def Let_def)
  next
    case False
    then show ?thesis using f b by (auto simp: extend_def)
  qed
qed

section \<open>The patch rebuilds the new file\<close>

fun seek_end :: "int \<Rightarrow> (nat \<times> nat \<times> int) list \<Rightarrow> int" where
  "seek_end pos [] = pos"
| "seek_end pos ((x, y, z) # cs) = seek_end (pos + int x + z) cs"

lemma seek_end_append: "seek_end pos (cs @ [(x, y, z)]) = seek_end pos cs + int x + z"
  by (induction pos cs rule: seek_end.induct) auto

lemma ctrl_ok_append:
  "ctrl_ok pos (cs @ [c]) \<longleftrightarrow> ctrl_ok pos cs \<and> ctrl_ok (seek_end pos cs) [c]"
  by (induction pos cs rule: seek_end.induct) auto

lemma total_append [simp]:
  "diff_total (cs @ ds) = diff_total cs + diff_total ds" "extra_total (cs @ ds) = extra_total cs + extra_total ds"
  by (simp_all add: diff_total_def extra_total_def)

lemma patched_snoc:
  assumes "diff_total cs = length diff" "extra_total cs = length extra"
  shows "patched old pos (cs @ [(length d, length e, z)]) (diff @ d) (extra @ e)
    = patched old pos cs diff extra @ add_region old (seek_end pos cs) d @ e"
  using assms
proof (induction old pos cs diff extra rule: patched.induct)
  case (2 old pos x y z cs diff extra)
  then show ?case by (simp add: "2.IH" [symmetric])
qed simp

text \<open>The state of the generator: what has been written so far rebuilds \<open>new\<close> up to \<open>lastscan\<close>.\<close>

definition diff_inv :: "buffer \<Rightarrow> buffer \<Rightarrow> diff_state \<Rightarrow> bool" where
  "diff_inv old new st \<longleftrightarrow>
     d_lastscan st \<le> d_scan st \<and> d_scan st \<le> length new
     \<and> (d_scan st < length new \<longrightarrow> d_scan st + d_len st \<le> length new)
     \<and> d_lastpos st \<le> length old \<and> d_pos st \<le> length old \<and> 0 \<le> int (d_scan st) + d_lastoffset st
     \<and> (d_scan st = length new \<longrightarrow> d_lastscan st = length new)
     \<and> diff_total (d_ctrl st) = length (d_db st) \<and> extra_total (d_ctrl st) = length (d_eb st)
     \<and> length (d_db st) + length (d_eb st) = d_lastscan st
     \<and> patched old 0 (d_ctrl st) (d_db st) (d_eb st) = take (d_lastscan st) new
     \<and> seek_end 0 (d_ctrl st) = int (d_lastpos st) \<and> ctrl_ok 0 (d_ctrl st)
     \<and> length (d_ctrl st) \<le> (if d_scan st < length new then d_scan st + d_len st else length new + 1)"

lemma diff_region:
  assumes "lastscan + n \<le> length new" "lastpos + n \<le> length old"
  shows "add_region old (int lastpos) (map (\<lambda>i. new ! (lastscan + i) - old ! (lastpos + i)) [0..<n])
    = take n (drop lastscan new)"
proof (rule nth_equalityI)
  fix i assume "i < length (add_region old (int lastpos) (map (\<lambda>i. new ! (lastscan + i) - old ! (lastpos + i)) [0..<n]))"
  then have "i < n" by simp
  moreover have "nat (int lastpos + int i) = lastpos + i" by simp
  ultimately show "add_region old (int lastpos) (map (\<lambda>i. new ! (lastscan + i) - old ! (lastpos + i)) [0..<n]) ! i
      = take n (drop lastscan new) ! i"
    using assms by (simp add: add_region_def old_byte_def)
qed (use assms in simp)

lemma emit_inv:
  assumes inv: "diff_inv old new st" and sz: "length old < 2 ^ 31" "length new < 2 ^ 31"
    and r: "d_scan st + d_len st \<le> scan" "scan \<le> length new" "pos \<le> length old"
      "scan < length new \<longrightarrow> scan + len \<le> length new"
    and prog: "d_scan st < length new" "scan < length new \<longrightarrow> d_scan st + d_len st < scan + len"
  shows "\<exists>st'. emit old new scan len pos st = Some st' \<and> diff_inv old new st' \<and> d_scan st' = scan \<and> d_len st' = len"
proof -
  let ?ls = "d_lastscan st" and ?lp = "d_lastpos st"
  have ls: "?ls \<le> scan" "?lp \<le> length old" using inv r by (auto simp: diff_inv_def)
  obtain lenf lenb where ext: "extend old new ?ls ?lp scan pos = Some (lenf, lenb)"
    and b: "?ls + lenf \<le> scan - lenb" "lenb \<le> scan" "?lp + lenf \<le> length old" "lenb \<le> pos"
      "scan = length new \<longrightarrow> lenb = 0"
    using extend_ok [OF ls(1) r(2) ls(2) r(3)] by blast
  let ?n = "(scan - lenb) - (?ls + lenf)"
  let ?d = "map (\<lambda>i. new ! (?ls + i) - old ! (?lp + i)) [0..<lenf]"
  let ?e = "map (\<lambda>i. new ! (?ls + lenf + i)) [0..<?n]"
  let ?z = "(int pos - int lenb) - (int ?lp + int lenf)"
  let ?st = "\<lparr>d_scan = scan, d_len = len, d_pos = pos, d_lastscan = scan - lenb, d_lastpos = pos - lenb,
      d_lastoffset = int pos - int scan, d_db = d_db st @ ?d, d_eb = d_eb st @ ?e,
      d_ctrl = d_ctrl st @ [(lenf, ?n, ?z)]\<rparr>"
  have "emit old new scan len pos st = Some ?st"
    using inv b r(2) ls by (auto simp: emit_def ext Let_def diff_inv_def)
  moreover have "diff_inv old new ?st"
  proof -
    have e: "?e = take ?n (drop (?ls + lenf) new)"
      using b r(2) by (intro nth_equalityI) auto
    have reg: "add_region old (int ?lp) ?d = take lenf (drop ?ls new)"
      using b r(2) by (intro diff_region) auto
    have "patched old 0 (d_ctrl st @ [(length ?d, length ?e, ?z)]) (d_db st @ ?d) (d_eb st @ ?e)
        = patched old 0 (d_ctrl st) (d_db st) (d_eb st) @ add_region old (seek_end 0 (d_ctrl st)) ?d @ ?e"
      using inv by (intro patched_snoc) (simp_all add: diff_inv_def)
    also have "\<dots> = take ?ls new @ take lenf (drop ?ls new) @ take ?n (drop (?ls + lenf) new)"
      using inv unfolding e [symmetric] reg [symmetric] by (simp add: diff_inv_def)
    also have "\<dots> = take (?ls + lenf + ?n) new" by (simp add: take_add add.assoc [symmetric])
    also have "?ls + lenf + ?n = scan - lenb" using b by simp
    finally have p: "patched old 0 (d_ctrl st @ [(lenf, ?n, ?z)]) (d_db st @ ?d) (d_eb st @ ?e) = take (scan - lenb) new"
      by simp
    have c: "ctrl_ok (int ?lp) [(lenf, ?n, ?z)]"
      using b r(3) sz ls by (simp add: LONG_MAX_def LONG_MIN_def)
    show ?thesis
      using inv b r p c ls prog by (auto simp: diff_inv_def seek_end_append ctrl_ok_append)
  qed
  ultimately show ?thesis by auto
qed

lemma diff_loop_ok:
  assumes idx: "index_ok I old" and sz: "length old < 2 ^ 31" "length new < 2 ^ 31"
  shows "diff_inv old new st \<Longrightarrow>
    \<exists>st'. diff_loop I old new st = Some st' \<and> diff_inv old new st' \<and> d_lastscan st' = length new"
proof (induction "if d_scan st < length new then Suc (length new - (d_scan st + d_len st)) else 0"
    arbitrary: st rule: less_induct)
  case less
  show ?case
  proof (cases "d_scan st < length new")
    case False
    then have "d_lastscan st = length new" using less.prems by (auto simp: diff_inv_def)
    with False less.prems show ?thesis by (subst diff_loop.simps) simp
  next
    case True
    let ?s = "d_scan st + d_len st"
    have pre: "0 \<le> int ?s + d_lastoffset st" "?s \<le> length new" "d_pos st \<le> length old"
      using less.prems True by (auto simp: diff_inv_def)
    obtain scan sc len pos where sl:
      "scan_loop I old new (d_lastoffset st) ?s ?s 0 (d_len st) (d_pos st) = Some (scan, sc, len, pos)"
      "?s \<le> scan" "scan \<le> length new" "pos \<le> length old" "scan < length new \<longrightarrow> scan + len \<le> length new"
      using scan_loop_ok [OF idx pre(1,1,2,3)] by blast
    have prog: "scan < length new \<longrightarrow> ?s < scan + len"
      using scan_loop_progress [OF idx pre(1) _ pre(3) sl(1)] sl(2) by auto
    show ?thesis
    proof (cases "int len \<noteq> sc \<or> scan = length new")
      case em: True
      obtain st1 where st1: "emit old new scan len pos st = Some st1" "diff_inv old new st1"
        "d_scan st1 = scan" "d_len st1 = len"
        using emit_inv [OF less.prems sz, of scan pos len] sl True prog by auto
      have "\<exists>st'. diff_loop I old new st1 = Some st' \<and> diff_inv old new st' \<and> d_lastscan st' = length new"
        using prog st1 sl True by (intro less.hyps) auto
      with True sl(1) em st1(1) show ?thesis by (subst diff_loop.simps) auto
    next
      case no: False
      let ?st1 = "st\<lparr>d_scan := scan, d_len := len, d_pos := pos\<rparr>"
      have "diff_inv old new ?st1"
        using less.prems sl no prog True by (auto simp: diff_inv_def)
      then have "\<exists>st'. diff_loop I old new ?st1 = Some st' \<and> diff_inv old new st' \<and> d_lastscan st' = length new"
        using prog sl True no by (intro less.hyps) auto
      with True sl(1) no show ?thesis by (subst diff_loop.simps) auto
    qed
  qed
qed

lemma length_ctrl_block:
  "ctrl_ok pos cs \<Longrightarrow> diff_total cs < 2 ^ 31 \<Longrightarrow> extra_total cs < 2 ^ 31
    \<Longrightarrow> length (concat (map ctrl_bytes cs)) = 24 * length cs"
proof (induction pos cs rule: ctrl_ok.induct)
  case (2 pos x y z cs)
  then have "length (ctrl_bytes (x, y, z)) = 24" by (intro offtin_ctrl(1)) auto
  with 2 show ?case by simp
qed simp

text \<open>C13: for every old and new file, every index array of positions in the old file and every pair
  of a compressor and a decompressor that fit together, \<open>bsdiff\<close> reads and writes only inside its
  buffers, ends, and produces a patch from which \<open>ApplyBSDiffPatchMem\<close> rebuilds the new file.\<close>

theorem bspatch_bsdiff:
  assumes "delivers bz content" "\<And>bytes. opens bz content (compress bytes) bytes"
    and "\<And>bytes. length bytes \<le> 24 * length new + 24 \<Longrightarrow> length (compress bytes) < 2 ^ 31"
    and "index_ok I old" "length old < 2 ^ 31" "length new < 2 ^ 31" "malloc_ok (int (length new))"
  shows "\<exists>patch. bsdiff compress I old new = Some patch
    \<and> ApplyBSDiffPatchMem bz malloc_ok old (int (length old)) patch 0 = Some (Inr new)"
proof -
  have "diff_inv old new diff_init" by (simp add: diff_inv_def diff_init_def)
  with diff_loop_ok [OF assms(4-6)] obtain st where st: "diff_loop I old new diff_init = Some st"
    "diff_inv old new st" "d_lastscan st = length new" by blast
  then have tot: "diff_total (d_ctrl st) = length (d_db st)" "extra_total (d_ctrl st) = length (d_eb st)"
    "length (d_db st) + length (d_eb st) = length new" "ctrl_ok 0 (d_ctrl st)"
    "patched old 0 (d_ctrl st) (d_db st) (d_eb st) = new" "length (d_ctrl st) \<le> length new + 1"
    by (auto simp: diff_inv_def split: if_splits)
  let ?c = "compress (concat (map ctrl_bytes (d_ctrl st)))" and ?d = "compress (d_db st)" and ?e = "compress (d_eb st)"
  have "length (concat (map ctrl_bytes (d_ctrl st))) \<le> 24 * length (d_ctrl st)" 
    using length_ctrl_block [OF tot(4)] tot(1,2,3) assms(6) by simp
  then have small: "length ?c < 2 ^ 31" "length ?d < 2 ^ 31" "length ?e < 2 ^ 31"
    using tot(3,6) by (intro assms(3); simp)+
  have "bsdiff compress I old new = Some (patch_file ?c ?d ?e (length new))"
    using small assms(6) offt_inverse [of "int (length ?c)" "[]"] offt_inverse [of "int (length ?d)" "[]"]
      offt_inverse [of "int (length new)" "[]"]
    by (auto simp: bsdiff_def write_patch_def st(1) Let_def patch_file_def)
  moreover have "ApplyBSDiffPatchMem bz malloc_ok old (int (length old)) ([] @ patch_file ?c ?d ?e
      (length (d_db st) + length (d_eb st))) (int (length ([] :: buffer))) = Some (Inr (patched old 0 (d_ctrl st) (d_db st) (d_eb st)))"
    using assms small tot by (intro ApplyBSDiffPatchMem_ok [OF assms(1)]) auto
  ultimately show ?thesis using tot by simp
qed

theorem bspatch_bsdiff_witness:
  "\<exists>patch. bsdiff id [3, 1, 0, 2] [1, 2, 3] [2, 3, 4] = Some patch
    \<and> ApplyBSDiffPatchMem stored_bz (\<lambda>_. True) [1, 2, 3] 3 patch 0 = Some (Inr [2, 3, 4])"
proof -
  have "index_ok [3, 1, 0, 2] [1, 2, 3 :: byte]" by (simp add: index_ok_def)
  then show ?thesis
    using bspatch_bsdiff [where bz = stored_bz and content = id and compress = id and I = "[3, 1, 0, 2]"
        and old = "[1, 2, 3]" and new = "[2, 3, 4]" and malloc_ok = "\<lambda>_. True"] stored_bz_ok by simp
qed

end
