(* ===== verification/Digest.thy ===== *)
theory Digest
  imports Prelude
begin

text \<open>
  The digest routines of libmincrypt as the sources use them: a context that absorbs bytes, and its
  final value. They are a parameter of the development.
\<close>

record 'c shalib =
  SHA_init :: 'c
  SHA_update :: "'c \<Rightarrow> buffer \<Rightarrow> 'c"
  SHA_final :: "'c \<Rightarrow> buffer"

definition SHA_hash :: "'c shalib \<Rightarrow> buffer \<Rightarrow> buffer" where
  "SHA_hash sha d = SHA_final sha (SHA_update sha (SHA_init sha) d)"

definition SHA_DIGEST_SIZE :: nat where "SHA_DIGEST_SIZE = 20"

text \<open>The digest context absorbs bytes one after another.\<close>

definition sha_absorbs :: "('c \<Rightarrow> buffer \<Rightarrow> 'c) \<Rightarrow> bool" where
  "sha_absorbs upd \<longleftrightarrow> (\<forall>c. upd c [] = c) \<and> (\<forall>c a b. upd (upd c a) b = upd c (a @ b))"

text \<open>A digest for examples: the first twenty bytes, padded with zeros.\<close>

definition sample_sha :: "buffer shalib" where
  "sample_sha = \<lparr>SHA_init = [], SHA_update = (@), SHA_final = \<lambda>b. take 20 (b @ replicate 20 0)\<rparr>"

lemma sample_sha_absorbs: "sha_absorbs (SHA_update sample_sha)"
  by (simp add: sha_absorbs_def sample_sha_def)

end
