(* ===== verification/ImgPatch.thy ===== *)
theory ImgPatch
  imports Bspatch Digest
begin

text \<open>
  The image patcher of \<open>applypatch/imgpatch.c\<close>: a patch is a list of chunks, each copied, patched
  with bsdiff, or inflated, patched and deflated again. zlib is a parameter: \<open>inflate\<close> is called
  once on the whole input and returns its status and the bytes it wrote; the deflater is a state
  machine that is told how much room there is. The sink and the digest context are threaded
  through. \<open>size_t\<close> values are the unsigned values of 64-bit words; zlib's counters have 32 bits.
\<close>

section \<open>The compression library\<close>

definition Z_OK :: int where "Z_OK = 0"
definition Z_STREAM_END :: int where "Z_STREAM_END = 1"

record 'z zlib =
  inflateInit2 :: int
  inflate :: "buffer \<Rightarrow> nat \<Rightarrow> int \<times> buffer"
  deflateInit2 :: "int \<times> int \<times> int \<times> int \<times> int \<Rightarrow> buffer \<Rightarrow> 'z"
  deflate :: "'z \<Rightarrow> nat \<Rightarrow> int \<times> buffer \<times> 'z"

section \<open>Operations\<close>

definition CHUNK_NORMAL :: int where "CHUNK_NORMAL = 0"
definition CHUNK_DEFLATE :: int where "CHUNK_DEFLATE = 2"
definition CHUNK_RAW :: int where "CHUNK_RAW = 3"

definition IMGDIFF2 :: buffer where
  "IMGDIFF2 = [0x49, 0x4d, 0x47, 0x44, 0x49, 0x46, 0x46, 0x32]"

definition read4 :: "buffer \<Rightarrow> nat \<Rightarrow> int option" where
  "read4 b off = map_option sint (Read4 (drop off b))"

definition read8 :: "buffer \<Rightarrow> nat \<Rightarrow> nat option" where
  "read8 b off = map_option unat (Read8 (drop off b))"

text \<open>The bytes of the source image a chunk names; the pointer may not leave the image.\<close>

definition source_at :: "buffer \<Rightarrow> nat \<Rightarrow> buffer option" where
  "source_at old src_start = (if src_start \<le> length old then Some (drop src_start old) else None)"

type_synonym ('k, 'c) chunk_result = "(int \<times> 'k \<times> 'c) + (nat \<times> 'k \<times> 'c)"

text \<open>
  The three kinds of chunk, each with the position behind the chunk type: a returned code, or the
  position of the next chunk. The result of \<open>ApplyBSDiffPatch\<close> is not used.
\<close>

definition normal_chunk ::
  "'s bzlib \<Rightarrow> (int \<Rightarrow> bool) \<Rightarrow> ('c \<Rightarrow> buffer \<Rightarrow> 'c) \<Rightarrow> buffer \<Rightarrow> buffer
     \<Rightarrow> (buffer \<Rightarrow> 'k \<Rightarrow> int \<times> 'k) \<Rightarrow> nat \<Rightarrow> 'k \<Rightarrow> 'c \<Rightarrow> ('k, 'c) chunk_result option" where
  "normal_chunk bz malloc_ok sha_update old_data patch sink pos token ctx =
     (if length patch < pos + 24 then Some (Inl (-1, token, ctx))
      else do {
        src_start \<leftarrow> read8 patch pos;
        src_len \<leftarrow> read8 patch (pos + 8);
        patch_offset \<leftarrow> read8 patch (pos + 16);
        src \<leftarrow> source_at old_data src_start;
        (_, token1, ctx1) \<leftarrow> ApplyBSDiffPatch bz malloc_ok sha_update src
           (sint (of_nat src_len :: 64 word)) patch (sint (of_nat patch_offset :: 64 word)) sink token (Some ctx);
        Some (Inr (pos + 24, token1, case ctx1 of None \<Rightarrow> ctx | Some c \<Rightarrow> c)) })"

definition raw_chunk ::
  "('c \<Rightarrow> buffer \<Rightarrow> 'c) \<Rightarrow> buffer \<Rightarrow> (buffer \<Rightarrow> 'k \<Rightarrow> int \<times> 'k) \<Rightarrow> nat \<Rightarrow> 'k \<Rightarrow> 'c
     \<Rightarrow> ('k, 'c) chunk_result option" where
  "raw_chunk sha_update patch sink pos token ctx =
     (if length patch < pos + 4 then Some (Inl (-1, token, ctx))
      else do {
        data_len \<leftarrow> read4 patch pos;
        if int (length patch) < int (pos + 4) + data_len then Some (Inl (-1, token, ctx))
        else if data_len < 0 then None
        else
          let dat = take (nat data_len) (drop (pos + 4) patch);
              ctx1 = sha_update ctx dat;
              (written, token1) = sink dat token in
          if written \<noteq> data_len then Some (Inl (-1, token1, ctx1))
          else Some (Inr (pos + 4 + nat data_len, token1, ctx1)) })"

text \<open>
  The loop around \<open>deflate\<close>, with an output buffer of \<open>temp_size\<close> bytes: true when the stream
  ended, false when the sink failed.
\<close>

partial_function (option) deflate_loop ::
  "'z zlib \<Rightarrow> ('c \<Rightarrow> buffer \<Rightarrow> 'c) \<Rightarrow> (buffer \<Rightarrow> 'k \<Rightarrow> int \<times> 'k) \<Rightarrow> nat \<Rightarrow> 'z \<Rightarrow> 'k \<Rightarrow> 'c
     \<Rightarrow> (bool \<times> 'k \<times> 'c) option" where
  "deflate_loop z sha_update sink temp_size strm token ctx =
     (case deflate z strm (temp_size mod 2 ^ 32) of (ret, out, strm1) \<Rightarrow>
        if temp_size - (temp_size mod 2 ^ 32 - length out) \<noteq> length out then None
        else case sink out token of (written, token1) \<Rightarrow>
          if written \<noteq> int (length out) then Some (False, token1, ctx)
          else if ret = Z_STREAM_END then Some (True, token1, sha_update ctx out)
          else deflate_loop z sha_update sink temp_size strm1 token1 (sha_update ctx out))"

text \<open>Inflating the source of a chunk: the expanded bytes with the bonus data appended.\<close>

definition expand_source ::
  "'z zlib \<Rightarrow> (int \<Rightarrow> bool) \<Rightarrow> buffer \<Rightarrow> nat \<Rightarrow> nat \<Rightarrow> buffer \<Rightarrow> buffer option option" where
  "expand_source z malloc_ok src src_len expanded_len bonus =
     (if \<not> malloc_ok (int expanded_len) then Some None
      else if inflateInit2 z \<noteq> Z_OK then Some None
      else if length src < src_len mod 2 ^ 32 then None
      else
        let avail_out = expanded_len mod 2 ^ 32;
            (ret, out) = inflate z (take (src_len mod 2 ^ 32) src) avail_out in
        if ret \<noteq> Z_STREAM_END then Some None
        else if avail_out - length out \<noteq> length bonus then Some None
        else if expanded_len \<noteq> avail_out then None
        else Some (Some (out @ bonus)))"

definition deflate_chunk ::
  "'s bzlib \<Rightarrow> 'z zlib \<Rightarrow> (int \<Rightarrow> bool) \<Rightarrow> ('c \<Rightarrow> buffer \<Rightarrow> 'c) \<Rightarrow> buffer \<Rightarrow> buffer
     \<Rightarrow> (buffer \<Rightarrow> 'k \<Rightarrow> int \<times> 'k) \<Rightarrow> buffer \<Rightarrow> nat \<Rightarrow> 'k \<Rightarrow> 'c \<Rightarrow> ('k, 'c) chunk_result option" where
  "deflate_chunk bz z malloc_ok sha_update old_data patch sink bonus pos token ctx =
     (if length patch < pos + 60 then Some (Inl (-1, token, ctx))
      else do {
        src_start \<leftarrow> read8 patch pos;
        src_len \<leftarrow> read8 patch (pos + 8);
        patch_offset \<leftarrow> read8 patch (pos + 16);
        expanded_len \<leftarrow> read8 patch (pos + 24);
        level \<leftarrow> read4 patch (pos + 40);
        meth \<leftarrow> read4 patch (pos + 44);
        windowBits \<leftarrow> read4 patch (pos + 48);
        memLevel \<leftarrow> read4 patch (pos + 52);
        strategy \<leftarrow> read4 patch (pos + 56);
        src \<leftarrow> source_at old_data src_start;
        expanded \<leftarrow> expand_source z malloc_ok src src_len expanded_len bonus;
        case expanded of
          None \<Rightarrow> Some (Inl (-1, token, ctx))
        | Some expanded_source \<Rightarrow> do {
            target \<leftarrow> ApplyBSDiffPatchMem bz malloc_ok expanded_source (int expanded_len)
                       patch (sint (of_nat patch_offset :: 64 word));
            case target of
              Inl _ \<Rightarrow> Some (Inl (-1, token, ctx))
            | Inr uncompressed \<Rightarrow> do {
                let temp_size = (if expanded_len < 32768 then 32768 else expanded_len);
                let strm = deflateInit2 z (level, meth, windowBits, memLevel, strategy) uncompressed;
                (ok, token1, ctx1) \<leftarrow> deflate_loop z sha_update sink temp_size strm token ctx;
                if ok then Some (Inr (pos + 60, token1, ctx1)) else Some (Inl (-1, token1, ctx1)) } } })"

text \<open>One turn of the loop over the chunks, with the chunk number \<open>i\<close>.\<close>

definition apply_chunk ::
  "'s bzlib \<Rightarrow> 'z zlib \<Rightarrow> (int \<Rightarrow> bool) \<Rightarrow> ('c \<Rightarrow> buffer \<Rightarrow> 'c) \<Rightarrow> buffer \<Rightarrow> buffer
     \<Rightarrow> (buffer \<Rightarrow> 'k \<Rightarrow> int \<times> 'k) \<Rightarrow> buffer option \<Rightarrow> nat \<Rightarrow> nat \<Rightarrow> 'k \<Rightarrow> 'c \<Rightarrow> ('k, 'c) chunk_result option" where
  "apply_chunk bz z malloc_ok sha_update old_data patch sink bonus_data i pos token ctx =
     (if length patch < pos + 4 then Some (Inl (-1, token, ctx))
      else do {
        type \<leftarrow> read4 patch pos;
        if type = CHUNK_NORMAL
        then normal_chunk bz malloc_ok sha_update old_data patch sink (pos + 4) token ctx
        else if type = CHUNK_RAW
        then raw_chunk sha_update patch sink (pos + 4) token ctx
        else if type = CHUNK_DEFLATE
        then deflate_chunk bz z malloc_ok sha_update old_data patch sink
               (if i = 1 then case bonus_data of None \<Rightarrow> [] | Some b \<Rightarrow> b else []) (pos + 4) token ctx
        else Some (Inl (-1, token, ctx)) })"

fun chunk_loop ::
  "'s bzlib \<Rightarrow> 'z zlib \<Rightarrow> (int \<Rightarrow> bool) \<Rightarrow> ('c \<Rightarrow> buffer \<Rightarrow> 'c) \<Rightarrow> buffer \<Rightarrow> buffer
     \<Rightarrow> (buffer \<Rightarrow> 'k \<Rightarrow> int \<times> 'k) \<Rightarrow> buffer option \<Rightarrow> nat \<Rightarrow> nat \<Rightarrow> nat \<Rightarrow> 'k \<Rightarrow> 'c \<Rightarrow> (int \<times> 'k \<times> 'c) option" where
  "chunk_loop bz z malloc_ok sha_update old_data patch sink bonus_data 0 i pos token ctx = Some (0, token, ctx)"
| "chunk_loop bz z malloc_ok sha_update old_data patch sink bonus_data (Suc n) i pos token ctx = do {
     r \<leftarrow> apply_chunk bz z malloc_ok sha_update old_data patch sink bonus_data i pos token ctx;
     case r of
       Inl res \<Rightarrow> Some res
     | Inr (pos1, token1, ctx1) \<Rightarrow>
         chunk_loop bz z malloc_ok sha_update old_data patch sink bonus_data n (i + 1) pos1 token1 ctx1 }"

definition ApplyImagePatch ::
  "'s bzlib \<Rightarrow> 'z zlib \<Rightarrow> (int \<Rightarrow> bool) \<Rightarrow> ('c \<Rightarrow> buffer \<Rightarrow> 'c) \<Rightarrow> buffer \<Rightarrow> buffer
     \<Rightarrow> (buffer \<Rightarrow> 'k \<Rightarrow> int \<times> 'k) \<Rightarrow> 'k \<Rightarrow> 'c \<Rightarrow> buffer option \<Rightarrow> (int \<times> 'k \<times> 'c) option" where
  "ApplyImagePatch bz z malloc_ok sha_update old_data patch sink token ctx bonus_data =
     (if length patch < 12 then Some (-1, token, ctx)
      else if take 8 patch \<noteq> IMGDIFF2 then Some (-1, token, ctx)
      else do {
        num_chunks \<leftarrow> read4 patch 8;
        chunk_loop bz z malloc_ok sha_update old_data patch sink bonus_data (nat num_chunks) 0 12 token ctx })"

section \<open>What reaches the sink\<close>

text \<open>
  The contract of a sink, as the patchers use it: it writes a prefix of what it is given and
  returns its length, or writes nothing and returns a negative number.
\<close>

locale sink_contract =
  fixes sink :: "buffer \<Rightarrow> 'k \<Rightarrow> int \<times> 'k"
    and written :: "'k \<Rightarrow> buffer"
  assumes sink_law: "sink d k = (n, k') \<Longrightarrow>
      \<exists>m \<le> length d. written k' = written k @ take m d \<and> (n = int m \<or> n < 0 \<and> m = 0)"
begin

lemma sink_complete:
  assumes "sink d k = (n, k')" "int (length d) \<le> n"
  shows "written k' = written k @ d \<and> n = int (length d)"
  using sink_law [OF assms(1)] assms(2) by auto

lemma ApplyBSDiffPatch_written:
  assumes "ApplyBSDiffPatch bz malloc_ok sha_update old old_size patch off sink token ctx = Some (0, token', ctx')"
  shows "\<exists>new. ApplyBSDiffPatchMem bz malloc_ok old old_size patch off = Some (Inr new)
    \<and> written token' = written token @ new \<and> ctx' = map_option (\<lambda>c. sha_update c new) ctx"
proof -
  from assms obtain new n where r: "ApplyBSDiffPatchMem bz malloc_ok old old_size patch off = Some (Inr new)"
    "sink new token = (n, token')" "\<not> n < int (length new)" "ctx' = map_option (\<lambda>c. sha_update c new) ctx"
    by (auto simp: ApplyBSDiffPatch_def split: bind_splits sum.splits prod.splits if_splits)
  with sink_complete [OF r(2)] show ?thesis by auto
qed

end

text \<open>A sink that writes all or nothing.\<close>

locale atomic_sink = sink_contract +
  assumes atomic: "sink d k = (n, k') \<Longrightarrow> n = int (length d) \<or> n < int (length d) \<and> written k' = written k"

text \<open>\<open>tracks\<close>: the bytes that were added to the sink are the bytes that were digested.\<close>

definition tracks :: "('k \<Rightarrow> buffer) \<Rightarrow> ('c \<Rightarrow> buffer \<Rightarrow> 'c) \<Rightarrow> 'k \<Rightarrow> 'c \<Rightarrow> 'k \<Rightarrow> 'c \<Rightarrow> bool" where
  "tracks written upd k c k' c' \<longleftrightarrow> (\<exists>bs. written k' = written k @ bs \<and> c' = upd c bs)"

context atomic_sink
begin

lemma tracks_refl: "sha_absorbs upd \<Longrightarrow> tracks written upd k c k c"
  unfolding tracks_def sha_absorbs_def by (intro exI [of _ "[]"]) simp

lemma tracks_trans: "sha_absorbs upd \<Longrightarrow> tracks written upd k c k1 c1 \<Longrightarrow> tracks written upd k1 c1 k2 c2 \<Longrightarrow> tracks written upd k c k2 c2"
  unfolding tracks_def sha_absorbs_def by auto

lemma tracks_sink: "sink d k = (int (length d), k') \<Longrightarrow> tracks written upd k c k' (upd c d)"
  unfolding tracks_def using sink_complete by blast

lemma bsdiff_tracks:
  assumes "sha_absorbs upd"
    and "ApplyBSDiffPatch bz malloc_ok upd old old_size patch off sink k (Some c) = Some (r, k', c1)"
  shows "\<exists>c'. c1 = Some c' \<and> tracks written upd k c k' c'"
proof -
  from assms(2) consider "k' = k" "c1 = Some c"
    | new n where "sink new k = (n, k')" "n < int (length new)" "c1 = Some c"
    | new n where "sink new k = (n, k')" "int (length new) \<le> n" "c1 = Some (upd c new)"
    by (auto simp: ApplyBSDiffPatch_def split: bind_splits sum.splits prod.splits if_splits)
  then show ?thesis
  proof cases
    case 2
    then show ?thesis using tracks_refl [OF assms(1)] atomic [OF 2(1)] unfolding tracks_def by auto
  next
    case 3
    then show ?thesis using sink_complete [OF 3(1,2)] by (auto intro: tracks_sink)
  qed (use tracks_refl [OF assms(1)] in auto)
qed

lemma normal_tracks:
  assumes "sha_absorbs upd" "normal_chunk bz malloc_ok upd old patch sink pos k c = Some (Inr (pos', k', c'))"
  shows "tracks written upd k c k' c'"
  using assms(2) bsdiff_tracks [OF assms(1)]
  by (fastforce simp: normal_chunk_def split: if_splits bind_splits)

lemma raw_tracks:
  assumes "raw_chunk upd patch sink pos k c = Some (Inr (pos', k', c'))"
  shows "tracks written upd k c k' c'"
proof -
  from assms obtain n where n: "\<not> n < 0" "\<not> int (length patch) < int (pos + 4) + n"
    "sink (take (nat n) (drop (pos + 4) patch)) k = (n, k')" "c' = upd c (take (nat n) (drop (pos + 4) patch))"
    by (auto simp: raw_chunk_def Let_def split: if_splits bind_splits prod.splits)
  have "length (take (nat n) (drop (pos + 4) patch)) = nat n" using n(1,2) by simp
  then have "n = int (length (take (nat n) (drop (pos + 4) patch)))" using n(1) by simp
  with n(3,4) show ?thesis by (metis tracks_sink)
qed

lemma deflate_loop_tracks:
  assumes "deflate_loop z upd sink temp strm k c = Some r" "sha_absorbs upd"
  shows "r = (True, k', c') \<Longrightarrow> tracks written upd k c k' c'"
proof -
  let ?P = "\<lambda>z upd sink' temp strm k c r. sink' = sink \<longrightarrow> sha_absorbs upd
      \<longrightarrow> (\<forall>k' c'. r = (True, k', c') \<longrightarrow> tracks written upd k c k' c')"
  have "?P z upd sink temp strm k c r"
  proof (rule deflate_loop.raw_induct [OF _ assms(1), where P = ?P])
    fix F z upd sink' temp strm k c r
    assume IH: "\<And>z upd sink' temp strm k c r. F z upd sink' temp strm k c = Some r \<Longrightarrow> ?P z upd sink' temp strm k c r"
      and body: "(case deflate z strm (temp mod 2 ^ 32) of (ret, out, strm1) \<Rightarrow>
        if temp - (temp mod 2 ^ 32 - length out) \<noteq> length out then None
        else case sink' out k of (n, k1) \<Rightarrow>
          if n \<noteq> int (length out) then Some (False, k1, c)
          else if ret = Z_STREAM_END then Some (True, k1, upd c out)
          else F z upd sink' temp strm1 k1 (upd c out)) = Some r"
    show "?P z upd sink' temp strm k c r"
    proof (intro impI allI)
      fix k' c' assume h: "sink' = sink" "sha_absorbs upd" "r = (True, k', c')"
      obtain ret out strm1 where d: "deflate z strm (temp mod 2 ^ 32) = (ret, out, strm1)"
        by (cases "deflate z strm (temp mod 2 ^ 32)")
      obtain n k1 where s: "sink out k = (n, k1)" by (cases "sink out k")
      have n: "n = int (length out)" using body h d s by (auto split: if_splits)
      have t: "tracks written upd k c k1 (upd c out)" using s n tracks_sink by simp
      show "tracks written upd k c k' c'"
      proof (cases "ret = Z_STREAM_END")
        case True
        then show ?thesis using body h d s n t by (auto split: if_splits)
      next
        case False
        then have "F z upd sink temp strm1 k1 (upd c out) = Some (True, k', c')"
          using body h d s n by (auto split: if_splits)
        from IH [OF this] h have "tracks written upd k1 (upd c out) k' c'" by blast
        with t show ?thesis using tracks_trans [OF h(2)] by blast
      qed
    qed
  qed
  with assms(2) show "r = (True, k', c') \<Longrightarrow> tracks written upd k c k' c'" by blast
qed

lemma deflate_chunk_tracks:
  assumes "sha_absorbs upd"
    and "deflate_chunk bz z malloc_ok upd old patch sink bonus pos k c = Some (Inr (pos', k', c'))"
  shows "tracks written upd k c k' c'"
proof -
  from assms(2) obtain temp strm where "deflate_loop z upd sink temp strm k c = Some (True, k', c')"
    by (auto simp: deflate_chunk_def Let_def split: if_splits bind_splits option.splits sum.splits)
  from deflate_loop_tracks [OF this assms(1)] show ?thesis by simp
qed

lemma chunk_loop_tracks:
  assumes "sha_absorbs upd"
  shows "chunk_loop bz z malloc_ok upd old patch sink bonus n i pos k c = Some (0, k', c') \<Longrightarrow> tracks written upd k c k' c'"
proof (induction n arbitrary: i pos k c)
  case 0
  then show ?case using tracks_refl [OF assms] by simp
next
  case (Suc n)
  have codes: "r \<noteq> Inl (0, k1, c1)"
    if "apply_chunk bz z malloc_ok upd old patch sink bonus i pos k c = Some r" for r k1 c1
    using that by (auto simp: apply_chunk_def normal_chunk_def raw_chunk_def deflate_chunk_def Let_def
        split: if_splits bind_splits option.splits sum.splits prod.splits)
  from Suc.prems obtain pos1 k1 c1 where
    st: "apply_chunk bz z malloc_ok upd old patch sink bonus i pos k c = Some (Inr (pos1, k1, c1))"
    and rest: "chunk_loop bz z malloc_ok upd old patch sink bonus n (i + 1) pos1 k1 c1 = Some (0, k', c')"
    using codes by (auto split: bind_splits sum.splits)
  have "tracks written upd k c k1 c1"
    using st normal_tracks [OF assms] raw_tracks deflate_chunk_tracks [OF assms]
    by (auto simp: apply_chunk_def split: if_splits bind_splits)
  with Suc.IH [OF rest] show ?case using tracks_trans [OF assms] by blast
qed

lemma ApplyImagePatch_tracks:
  assumes "sha_absorbs upd"
    and "ApplyImagePatch bz z malloc_ok upd old patch sink k c bonus = Some (0, k', c')"
  shows "tracks written upd k c k' c'"
  using assms(2) chunk_loop_tracks [OF assms(1)]
  by (auto simp: ApplyImagePatch_def split: if_splits bind_splits)

end

text \<open>The sink's state in the result of a chunk.\<close>

definition token_of :: "('k, 'c) chunk_result \<Rightarrow> 'k" where
  "token_of r = (case r of Inl (_, k, _) \<Rightarrow> k | Inr (_, k, _) \<Rightarrow> k)"

text \<open>A predicate on the sink's state that the sink keeps is kept by both patchers, however they end.\<close>

locale sink_invariant =
  fixes sink :: "buffer \<Rightarrow> 'k \<Rightarrow> int \<times> 'k"
    and keep :: "'k \<Rightarrow> bool"
  assumes sink_keeps: "sink d k = (n, k') \<Longrightarrow> keep k \<Longrightarrow> keep k'"
begin

lemma bsdiff_keeps:
  assumes "ApplyBSDiffPatch bz malloc_ok upd old old_size patch off sink k ctx = Some (r, k', ctx')" "keep k"
  shows "keep k'"
  using assms sink_keeps
  by (auto simp: ApplyBSDiffPatch_def split: bind_splits sum.splits prod.splits if_splits)

lemma deflate_loop_keeps:
  assumes "deflate_loop z upd sink temp strm k c = Some (b, k', c')" "keep k"
  shows "keep k'"
proof -
  let ?P = "\<lambda>(z :: 'z zlib) (upd :: 'c \<Rightarrow> buffer \<Rightarrow> 'c) sink' (temp :: nat) (strm :: 'z) k (c :: 'c) (r :: bool \<times> 'k \<times> 'c).
      sink' = sink \<longrightarrow> keep k \<longrightarrow> keep (fst (snd r))"
  have "?P z upd sink temp strm k c (b, k', c')"
  proof (rule deflate_loop.raw_induct [OF _ assms(1), where P = ?P])
    fix F and z :: "'z zlib" and upd :: "'c \<Rightarrow> buffer \<Rightarrow> 'c" and sink' temp strm k c and r :: "bool \<times> 'k \<times> 'c"
    assume IH: "\<And>z upd sink' temp strm k c r. F z upd sink' temp strm k c = Some r \<Longrightarrow> ?P z upd sink' temp strm k c r"
      and body: "(case deflate z strm (temp mod 2 ^ 32) of (ret, out, strm1) \<Rightarrow>
        if temp - (temp mod 2 ^ 32 - length out) \<noteq> length out then None
        else case sink' out k of (n, k1) \<Rightarrow>
          if n \<noteq> int (length out) then Some (False, k1, c)
          else if ret = Z_STREAM_END then Some (True, k1, upd c out)
          else F z upd sink' temp strm1 k1 (upd c out)) = Some r"
    show "?P z upd sink' temp strm k c r"
    proof (intro impI)
      assume h: "sink' = sink" "keep k"
      obtain ret out strm1 where d: "deflate z strm (temp mod 2 ^ 32) = (ret, out, strm1)"
        by (cases "deflate z strm (temp mod 2 ^ 32)")
      obtain n k1 where s: "sink out k = (n, k1)" by (cases "sink out k")
      have "r = (False, k1, c) \<or> r = (True, k1, upd c out) \<or> F z upd sink temp strm1 k1 (upd c out) = Some r"
        using body h(1) d s by (auto split: if_splits)
      then show "keep (fst (snd r))" using IH [of z upd sink temp strm1 k1 "upd c out" r] sink_keeps [OF s h(2)] by auto
    qed
  qed
  with assms(2) show ?thesis by simp
qed

lemma normal_keeps:
  assumes "normal_chunk bz malloc_ok upd old patch sink pos k c = Some r" "keep k"
  shows "keep (token_of r)"
  using assms by (auto simp: normal_chunk_def token_of_def split: if_splits bind_splits dest: bsdiff_keeps)

lemma raw_keeps:
  assumes "raw_chunk upd patch sink pos k c = Some r" "keep k"
  shows "keep (token_of r)"
  using assms
  by (auto simp: raw_chunk_def token_of_def Let_def split: if_splits bind_splits prod.splits dest: sink_keeps)

lemma deflate_chunk_keeps:
  assumes "deflate_chunk bz z malloc_ok upd old patch sink bonus pos k c = Some r" "keep k"
  shows "keep (token_of r)"
  using assms
  by (auto simp: deflate_chunk_def token_of_def Let_def
      split: if_splits bind_splits option.splits sum.splits dest: deflate_loop_keeps)

lemma apply_chunk_keeps:
  assumes "apply_chunk bz z malloc_ok upd old patch sink bonus i pos k c = Some r" "keep k"
  shows "keep (token_of r)"
  using assms
  by (auto simp: apply_chunk_def split: if_splits bind_splits dest: normal_keeps raw_keeps deflate_chunk_keeps)
    (simp_all add: token_of_def)

lemma chunk_loop_keeps:
  "chunk_loop bz z malloc_ok upd old patch sink bonus n i pos k c = Some (r, k', c') \<Longrightarrow> keep k \<Longrightarrow> keep k'"
proof (induction n arbitrary: i pos k c)
  case (Suc n)
  from Suc.prems(1) obtain st where
    st: "apply_chunk bz z malloc_ok upd old patch sink bonus i pos k c = Some st" by (auto split: bind_splits)
  with Suc.prems apply_chunk_keeps [OF st] show ?case
    by (auto simp: token_of_def split: sum.splits dest: Suc.IH)
qed simp

lemma ApplyImagePatch_keeps:
  assumes "ApplyImagePatch bz z malloc_ok upd old patch sink k c bonus = Some (r, k', c')" "keep k"
  shows "keep k'"
  using assms chunk_loop_keeps by (auto simp: ApplyImagePatch_def split: if_splits bind_splits)

end

section \<open>Failures that are not noticed\<close>

text \<open>A failing \<open>ApplyBSDiffPatch\<close> does not make a normal chunk fail: the chunk is skipped,
  nothing is written or digested for it, and the loop goes on with the next chunk.\<close>

theorem normal_chunk_ignores_failure:
  assumes "length patch \<ge> pos + 24"
    and "read8 patch pos = Some src_start" "read8 patch (pos + 8) = Some src_len"
    and "read8 patch (pos + 16) = Some off" "src_start \<le> length old"
    and "ApplyBSDiffPatchMem bz malloc_ok (drop src_start old) (sint (of_nat src_len :: 64 word)) patch
           (sint (of_nat off :: 64 word)) = Some (Inl code)"
  shows "normal_chunk bz malloc_ok upd old patch sink pos k c = Some (Inr (pos + 24, k, c))"
  using assms by (simp add: normal_chunk_def source_at_def ApplyBSDiffPatch_def)

theorem normal_chunk_ignores_failure_witness:
  "normal_chunk stored_bz (\<lambda>_. True) (@) [] (replicate 8 0 @ replicate 8 0 @ replicate 8 0)
     (\<lambda>d k. (int (length d), k @ d)) 0 [] [] = Some (Inr (24, [], []))"
proof -
  let ?p = "replicate 8 0 @ replicate 8 0 @ replicate 8 0 :: buffer"
  have r: "read8 ?p 0 = Some 0" "read8 ?p 8 = Some 0" "read8 ?p 16 = Some 0"
    by (simp_all add: read8_def eval_nat_numeral)
  have "take 8 ?p ! 0 \<noteq> BSDIFF40 ! 0" by (simp add: BSDIFF40_def)
  then have "take 8 ?p \<noteq> BSDIFF40" by metis
  then have "ApplyBSDiffPatchMem stored_bz (\<lambda>_. True) (drop 0 []) (sint (of_nat 0 :: 64 word)) ?p
      (sint (of_nat 0 :: 64 word)) = Some (Inl 1)"
    by (simp add: ApplyBSDiffPatchMem_def Let_def)
  from normal_chunk_ignores_failure [OF _ _ _ _ _ this, of 0 "(@)" "\<lambda>d k. (int (length d), k @ d)" "[]" "[]"] r
  show ?thesis by simp
qed

text \<open>The status of \<open>deflateInit2\<close> is not checked and an error of \<open>deflate\<close> is not told from
  more output to come: on a stream that only reports errors the loop of a deflate chunk does not
  end.\<close>

theorem deflate_loop_diverges:
  assumes "\<And>n. deflate z strm n = (err, [], strm)" "err \<noteq> Z_STREAM_END" "sink [] k = (0, k)" "upd c [] = c"
    and "temp < 2 ^ 32"
  shows "deflate_loop z upd sink temp strm k c = None"
proof -
  let ?bad = "\<lambda>z upd sink strm k c. (\<forall>n. deflate z strm n = (err, [], strm)) \<and> sink [] k = (0, k) \<and> upd c [] = c"
  have "\<not> ?bad z upd sink strm k c" if "deflate_loop z upd sink temp strm k c = Some r" for r
  proof (rule deflate_loop.raw_induct [OF _ that, where P = "\<lambda>z upd sink temp strm k c r. \<not> ?bad z upd sink strm k c"])
    fix F z upd sink temp strm k c r
    assume IH: "\<And>z upd sink temp strm k c r. F z upd sink temp strm k c = Some r \<Longrightarrow> \<not> ?bad z upd sink strm k c"
      and body: "(case deflate z strm (temp mod 2 ^ 32) of (ret, out, strm1) \<Rightarrow>
        if temp - (temp mod 2 ^ 32 - length out) \<noteq> length out then None
        else case sink out k of (n, k1) \<Rightarrow>
          if n \<noteq> int (length out) then Some (False, k1, c)
          else if ret = Z_STREAM_END then Some (True, k1, upd c out)
          else F z upd sink temp strm1 k1 (upd c out)) = Some r"
    show "\<not> ?bad z upd sink strm k c"
    proof
      assume bad: "?bad z upd sink strm k c"
      with body assms(2) have "F z upd sink temp strm k c = Some r" by (auto split: if_splits)
      with IH bad show False by blast
    qed
  qed
  with assms show ?thesis by (cases "deflate_loop z upd sink temp strm k c") auto
qed

theorem deflate_loop_diverges_witness:
  "deflate_loop \<lparr>inflateInit2 = 0, inflate = \<lambda>b n. (0, []), deflateInit2 = \<lambda>_ _. (), deflate = \<lambda>_ _. (-2, [], ())\<rparr>
     (@) (\<lambda>d k. (int (length d), k @ d)) 32768 () [] [] = None"
  by (rule deflate_loop_diverges [where err = "-2"]) (simp_all add: Z_STREAM_END_def)

end
