(* ===== verification/Retouch.thy ===== *)
theory Retouch
  imports ByteIO
begin

text \<open>
  The retouch masking of \<open>minelf/Retouch.c\<close>: a prelinked library ends with a compressed list of
  its relocated words, a \<open>retouch_info_t\<close> and a \<open>prelink_info_t\<close>; \<open>retouch_mask_data\<close> walks the
  list and rewrites every word as its original value plus an offset, or infers the offset. The
  binary is a byte list, words in it are little-endian, pointers into it are positions, and a
  read or write outside is \<^term>\<open>None\<close>. The decoder's static variables are its state.
\<close>

unbundle bit_operations_syntax

section \<open>Decoding\<close>

record retouch_decoder =
  offs_prev :: int
  cont_prev :: u32

definition init_compression_state :: retouch_decoder where
  "init_compression_state = \<lparr>offs_prev = 0, cont_prev = 0\<rparr>"

definition int32_add :: "int \<Rightarrow> int \<Rightarrow> int option" where
  "int32_add a b = (if - (2 ^ 31) \<le> a + b \<and> a + b < 2 ^ 31 then Some (a + b) else None)"

text \<open>The encoded bytes are a list of \<open>encoded_size\<close> elements.\<close>

fun decode_bytes :: "retouch_decoder \<Rightarrow> buffer \<Rightarrow> (int \<times> u32) option" where
  "decode_bytes st [b0, b1] = do {
     dst_offset \<leftarrow> int32_add (offs_prev st) ((uint (drop_bit 5 (b0 AND 0x60)) + 1) * 4);
     let tmp = (push_bit 8 (ucast b0 AND 0x1f) OR ucast b1 :: u32);
     let tmp = (if tmp AND 0x1000 \<noteq> 0 then 0xffffe000 OR tmp else tmp);
     Some (dst_offset, cont_prev st + tmp) }"
| "decode_bytes st [b0, b1, b2] = do {
     dst_offset \<leftarrow> int32_add (offs_prev st) ((uint (drop_bit 4 (b0 AND 0x30)) + 1) * 4);
     let tmp = (push_bit 16 (ucast b0 AND 0x0f) OR push_bit 8 (ucast b1) OR ucast b2 :: u32);
     let tmp = (if tmp AND 0x80000 \<noteq> 0 then 0xfff00000 OR tmp else tmp);
     Some (dst_offset, cont_prev st + tmp) }"
| "decode_bytes st [b0, b1, b2, b3, b4, b5, b6, b7] =
     (let dst_offset = sint (push_bit 24 (ucast b0) OR push_bit 16 (ucast b1) OR push_bit 8 (ucast b2)
                             OR ucast b3 :: u32) in
      Some (if dst_offset = 0x3fffffff then -1 else dst_offset,
            push_bit 24 (ucast b4) OR push_bit 16 (ucast b5) OR push_bit 8 (ucast b6) OR ucast b7))"
| "decode_bytes st _ = None"

text \<open>The position behind the entry, its offset and contents, and the next decoder state.\<close>

definition input_size :: "byte \<Rightarrow> nat" where
  "input_size b = (if b AND 0x80 \<noteq> 0 then 2 else if b AND 0x40 \<noteq> 0 then 3 else 8)"

definition decode_in_memory ::
  "buffer \<Rightarrow> nat \<Rightarrow> retouch_decoder \<Rightarrow> (nat \<times> int \<times> u32 \<times> retouch_decoder) option" where
  "decode_in_memory bin p st =
     (if length bin \<le> p then None
      else
        let n = input_size (bin ! p) in
        if length bin < p + n then None
        else do {
          (offset, contents) \<leftarrow> decode_bytes st (take n (drop p bin));
          Some (p + n, offset, contents, \<lparr>offs_prev = offset, cont_prev = contents\<rparr>) })"

section \<open>Masking\<close>

definition RETOUCH_DATA_ERROR :: int where "RETOUCH_DATA_ERROR = 0"
definition RETOUCH_DATA_MATCHED :: int where "RETOUCH_DATA_MATCHED = 1"
definition RETOUCH_DATA_MISMATCHED :: int where "RETOUCH_DATA_MISMATCHED = 2"
definition RETOUCH_DATA_NOTAPPLICABLE :: int where "RETOUCH_DATA_NOTAPPLICABLE = 3"

definition PRE_TAG :: buffer where "PRE_TAG = [0x50, 0x52, 0x45, 0x20]"
definition RETOUCH_TAG :: buffer where
  "RETOUCH_TAG = [0x52, 0x45, 0x54, 0x4f, 0x55, 0x43, 0x48, 0x20]"

definition put4 :: "buffer \<Rightarrow> nat \<Rightarrow> u32 \<Rightarrow> buffer option" where
  "put4 bin pos v = map_option ((@) (take pos bin)) (set4LE (drop pos bin) v)"

record mask_state =
  m_bin :: buffer
  m_ptr :: nat
  m_dec :: retouch_decoder
  m_candidate :: int
  m_set :: bool
  m_mismatch :: bool

text \<open>
  One turn of the loop over the entries; \<^term>\<open>Inl\<close> is the return of an error. The \<open>target\<close> is the
  desired offset, when there is one.
\<close>

definition mask_entry :: "int option \<Rightarrow> nat \<Rightarrow> nat \<Rightarrow> mask_state \<Rightarrow> (mask_state + mask_state) option" where
  "mask_entry desired p_offs b_offs st = do {
     (p, offset, original, dec) \<leftarrow> decode_in_memory (m_bin st) (m_ptr st) (m_dec st);
     let st = st\<lparr>m_ptr := p, m_dec := dec\<rparr>;
     if offset < -1 \<or> int b_offs \<le> offset then Some (Inl st)
     else do {
       let pos = (if offset = -1 then p_offs else nat offset);
       bin \<leftarrow> (case desired of
                 None \<Rightarrow> Some (m_bin st)
               | Some target \<Rightarrow> put4 (m_bin st) pos (original + word_of_int target));
       entry \<leftarrow> get4LE (drop pos bin);
       let this = sint (entry - original);
       let st = st\<lparr>m_bin := bin\<rparr>;
       if \<not> m_set st then Some (Inr (st\<lparr>m_candidate := this, m_set := True\<rparr>))
       else if m_candidate st \<noteq> this then Some (Inr (st\<lparr>m_mismatch := True\<rparr>))
       else Some (Inr st) } }"

lemma input_size_bounds: "2 \<le> input_size b" "input_size b \<le> 8"
  by (simp_all add: input_size_def)

lemma decode_in_memory_ptr: "decode_in_memory bin p st = Some (p', r) \<Longrightarrow> p + 2 \<le> p' \<and> p' \<le> p + 8 \<and> p' \<le> length bin"
  using input_size_bounds [of "bin ! p"]
  by (auto simp: decode_in_memory_def Let_def split: if_splits bind_splits)

lemma mask_entry_ptr: "mask_entry desired p_offs b_offs st = Some (Inr st') \<Longrightarrow> m_ptr st < m_ptr st'"
  using decode_in_memory_ptr
  by (fastforce simp: mask_entry_def Let_def split: if_splits bind_splits)

function mask_loop :: "int option \<Rightarrow> nat \<Rightarrow> nat \<Rightarrow> nat \<Rightarrow> mask_state \<Rightarrow> (mask_state + mask_state) option" where
  "mask_loop desired p_offs r_offs b_offs st =
     (if m_ptr st < r_offs then
        (case mask_entry desired p_offs b_offs st of
           None \<Rightarrow> None
         | Some (Inl st1) \<Rightarrow> Some (Inl st1)
         | Some (Inr st1) \<Rightarrow> mask_loop desired p_offs r_offs b_offs st1)
      else Some (Inr st))"
  by pat_completeness auto
termination
  by (relation "measure (\<lambda>(desired, p_offs, r_offs, b_offs, st). r_offs - m_ptr st)")
    (auto dest: mask_entry_ptr)

declare mask_loop.simps [simp del]

text \<open>
  \<open>retouch_mask_data\<close>: the result code, the binary and the value stored in \<open>*retouch_offset\<close>.
\<close>

definition retouch_mask_data :: "buffer \<Rightarrow> int \<Rightarrow> int option \<Rightarrow> (int \<times> buffer \<times> int) option" where
  "retouch_mask_data binary_object binary_size desired_offset =
     (let target_offset = (case desired_offset of None \<Rightarrow> 0 | Some d \<Rightarrow> d);
          p_offs = to_int32 (binary_size - 8);
          r_offs = to_int32 (p_offs - 12);
          unretouched = (if desired_offset = None then RETOUCH_DATA_NOTAPPLICABLE else RETOUCH_DATA_MATCHED) in
      if r_offs < 0 then Some (unretouched, binary_object, target_offset)
      else if length binary_object < nat r_offs + 20 then None
      else if take 4 (drop (nat p_offs + 4) binary_object) \<noteq> PRE_TAG
              \<or> take 8 (drop (nat r_offs) binary_object) \<noteq> RETOUCH_TAG
      then Some (unretouched, binary_object, target_offset)
      else do {
        blob_size \<leftarrow> get4LE (drop (nat r_offs + 8) binary_object);
        let b_offs = to_int32 (r_offs - uint blob_size);
        if b_offs < 0 then Some (RETOUCH_DATA_ERROR, binary_object, target_offset)
        else do {
          r \<leftarrow> mask_loop desired_offset (nat p_offs) (nat r_offs) (nat b_offs)
                 \<lparr>m_bin = binary_object, m_ptr = nat b_offs, m_dec = init_compression_state,
                  m_candidate = target_offset, m_set = False, m_mismatch = False\<rparr>;
          case r of
            Inl st \<Rightarrow> Some (RETOUCH_DATA_ERROR, m_bin st, target_offset)
          | Inr st \<Rightarrow>
              if nat r_offs < m_ptr st then Some (RETOUCH_DATA_ERROR, m_bin st, target_offset)
              else if m_mismatch st then Some (RETOUCH_DATA_MISMATCHED, m_bin st, target_offset)
              else Some (RETOUCH_DATA_MATCHED, m_bin st, m_candidate st) } })"

section \<open>Bounds\<close>

definition write4 :: "buffer \<Rightarrow> nat \<Rightarrow> u32 \<Rightarrow> buffer" where
  "write4 bin pos v = take pos bin @ le_split 4 v @ drop (pos + 4) bin"

lemma put4_write4: "pos + 4 \<le> length bin \<Longrightarrow> put4 bin pos v = Some (write4 bin pos v)"
  by (simp add: put4_def write4_def LE4.put_enc add.commute)

lemma length_write4 [simp]: "pos + 4 \<le> length bin \<Longrightarrow> length (write4 bin pos v) = length bin"
  by (simp add: write4_def)

lemma get4_write4: "pos + 4 \<le> length bin \<Longrightarrow> get4LE (drop pos (write4 bin pos v)) = Some v"
  using LE4.get_enc [of v "drop (pos + 4) bin"] by (simp add: write4_def del: le_split_numeral)

lemma get4_defined: "pos + 4 \<le> length bin \<Longrightarrow> \<exists>v. get4LE (drop pos bin) = Some v"
  using LE4.get_defined_iff [of "drop pos bin"] by auto

lemma decode_step_bound: "uint (drop_bit 5 (b AND 0x60 :: byte)) \<le> 3" "uint (drop_bit 4 (b AND 0x30 :: byte)) \<le> 3"
proof -
  have "uint (b AND 0x60) \<le> 0x60" "uint (b AND 0x30) \<le> 0x30"
    using AND_upper2 [of "0x60" "uint b"] AND_upper2 [of "0x30" "uint b"] by (simp_all add: uint_and)
  then have "uint (b AND 0x60) div 32 \<le> 0x60 div 32" "uint (b AND 0x30) div 16 \<le> 0x30 div 16"
    by (intro zdiv_mono1; simp)+
  then show "uint (drop_bit 5 (b AND 0x60 :: byte)) \<le> 3" "uint (drop_bit 4 (b AND 0x30 :: byte)) \<le> 3"
    by (simp_all add: drop_bit_eq_div uint_div)
qed

lemma int32_add_defined:
  "-1 \<le> a \<Longrightarrow> a < 2 ^ 31 - 20 \<Longrightarrow> 0 \<le> k \<Longrightarrow> k \<le> 3 \<Longrightarrow> \<exists>r. int32_add a ((k + 1) * 4) = Some r"
  by (simp add: int32_add_def)

lemma decode_bytes_defined:
  assumes "length bs \<in> {2, 3, 8}" "-1 \<le> offs_prev st" "offs_prev st < 2 ^ 31 - 20"
  shows "\<exists>r. decode_bytes st bs = Some r"
proof -
  have "\<exists>r. int32_add (offs_prev st) ((uint (drop_bit 5 (b AND 0x60 :: byte)) + 1) * 4) = Some r"
    "\<exists>r. int32_add (offs_prev st) ((uint (drop_bit 4 (b AND 0x30 :: byte)) + 1) * 4) = Some r" for b
    by (intro int32_add_defined assms(2,3) decode_step_bound unsigned_greater_eq)+
  then have A: "\<exists>r. decode_bytes st [b0, b1] = Some r" "\<exists>r. decode_bytes st [b0, b1, b2] = Some r" for b0 b1 b2
    by (metis decode_bytes.simps(1) bind.bind_lunit, metis decode_bytes.simps(2) bind.bind_lunit)
  from assms(1) consider b0 b1 where "bs = [b0, b1]" | b0 b1 b2 where "bs = [b0, b1, b2]"
    | b0 b1 b2 b3 b4 b5 b6 b7 where "bs = [b0, b1, b2, b3, b4, b5, b6, b7]"
    by (auto simp: length_Suc_conv numeral_eq_Suc)
  then show ?thesis
  proof cases
    case 3
    then show ?thesis by (simp add: Let_def)
  qed (use A in \<open>simp_all only:\<close>)
qed

lemma input_size_cases: "input_size b \<in> {2, 3, 8}"
  by (simp add: input_size_def)

lemma decode_in_memory_defined:
  assumes "p + 8 \<le> length bin" "-1 \<le> offs_prev st" "offs_prev st < 2 ^ 31 - 20"
  shows "\<exists>p' off c. decode_in_memory bin p st = Some (p', off, c, \<lparr>offs_prev = off, cont_prev = c\<rparr>)"
proof -
  let ?n = "input_size (bin ! p)"
  have n: "?n \<in> {2, 3, 8}" "?n \<le> 8" using input_size_cases input_size_bounds by blast+
  then have "length (take ?n (drop p bin)) = ?n" using assms(1) by simp
  then obtain off c where "decode_bytes st (take ?n (drop p bin)) = Some (off, c)"
    using decode_bytes_defined [OF _ assms(2,3), of "take ?n (drop p bin)"] n(1) by (metis surj_pair)
  then show ?thesis using assms(1) n(2) by (simp add: decode_in_memory_def Let_def)
qed

definition mask_ok :: "nat \<Rightarrow> nat \<Rightarrow> int option \<Rightarrow> mask_state \<Rightarrow> bool" where
  "mask_ok len b_offs desired st \<longleftrightarrow> length (m_bin st) = len \<and> b_offs \<le> m_ptr st
     \<and> -1 \<le> offs_prev (m_dec st) \<and> offs_prev (m_dec st) < 2 ^ 31 - 20
     \<and> (case desired of None \<Rightarrow> True
        | Some d \<Rightarrow> \<not> m_mismatch st \<and> m_candidate st = sint (word_of_int d :: u32))"

lemma mask_entry_ok:
  assumes "p_offs + 8 \<le> len" "p_offs = r_offs + 12" "len < 2 ^ 31" "m_ptr st < r_offs" "b_offs \<le> r_offs"
    and ok: "mask_ok len b_offs desired st"
  shows "\<exists>r. mask_entry desired p_offs b_offs st = Some r
    \<and> (case r of Inl st' \<Rightarrow> length (m_bin st') = len | Inr st' \<Rightarrow> mask_ok len b_offs desired st')"
proof -
  have st: "length (m_bin st) = len" "b_offs \<le> m_ptr st"
    "-1 \<le> offs_prev (m_dec st)" "offs_prev (m_dec st) < 2 ^ 31 - 20"
    using ok by (simp_all add: mask_ok_def)
  obtain p' off c where d: "decode_in_memory (m_bin st) (m_ptr st) (m_dec st)
      = Some (p', off, c, \<lparr>offs_prev = off, cont_prev = c\<rparr>)"
    using decode_in_memory_defined [of "m_ptr st" "m_bin st" "m_dec st"] st assms by auto
  have p': "m_ptr st < p'" using decode_in_memory_ptr [OF d] by simp
  show ?thesis
  proof (cases "off < -1 \<or> int b_offs \<le> off")
    case True
    then show ?thesis using d st by (simp add: mask_entry_def Let_def)
  next
    case False
    let ?pos = "if off = -1 then p_offs else nat off"
    have pos: "?pos + 4 \<le> len" using False assms by (auto simp: nat_le_iff)
    have off: "-1 \<le> off" "off < 2 ^ 31 - 20" using False assms by auto
    show ?thesis
    proof (cases desired)
      case None
      obtain v where "get4LE (drop ?pos (m_bin st)) = Some v" using get4_defined [of ?pos "m_bin st"] pos st(1) by auto
      then show ?thesis
        using False d st off p' None by (simp add: mask_entry_def Let_def mask_ok_def)
    next
      case (Some t)
      have "put4 (m_bin st) ?pos (c + word_of_int t) = Some (write4 (m_bin st) ?pos (c + word_of_int t))"
        "get4LE (drop ?pos (write4 (m_bin st) ?pos (c + word_of_int t))) = Some (c + word_of_int t)"
        "length (write4 (m_bin st) ?pos (c + word_of_int t)) = len"
        using pos st(1) by (simp_all only: put4_write4 get4_write4 length_write4)
      then show ?thesis
        using False d st off p' Some ok by (simp add: mask_entry_def Let_def mask_ok_def)
    qed
  qed
qed

lemma mask_loop_ok:
  assumes "p_offs + 8 \<le> len" "p_offs = r_offs + 12" "len < 2 ^ 31" "mask_ok len b_offs desired st"
  shows "\<exists>r. mask_loop desired p_offs r_offs b_offs st = Some r
    \<and> (case r of Inl st' \<Rightarrow> length (m_bin st') = len | Inr st' \<Rightarrow> mask_ok len b_offs desired st')"
  using assms(4)
proof (induction "r_offs - m_ptr st" arbitrary: st rule: less_induct)
  case less
  show ?case
  proof (cases "m_ptr st < r_offs")
    case False
    then show ?thesis using less.prems by (subst mask_loop.simps) simp
  next
    case True
    then have "b_offs \<le> r_offs" using less.prems by (simp add: mask_ok_def)
    from mask_entry_ok [OF assms(1-3) True this less.prems] obtain r where
      r: "mask_entry desired p_offs b_offs st = Some r"
      "case r of Inl st' \<Rightarrow> length (m_bin st') = len | Inr st' \<Rightarrow> mask_ok len b_offs desired st'" by blast
    show ?thesis
    proof (cases r)
      case (Inl st')
      then show ?thesis using r True by (subst mask_loop.simps) simp
    next
      case (Inr st')
      with r mask_entry_ptr have "r_offs - m_ptr st' < r_offs - m_ptr st" "mask_ok len b_offs desired st'"
        using True by fastforce+
      from less.hyps [OF this] show ?thesis using r(1) Inr True by (subst mask_loop.simps) simp
    qed
  qed
qed

text \<open>
  \<open>layout\<close>: what \<open>retouch_mask_data\<close> finds in a binary with a retouch list: the offsets of the two
  trailers and of the list.
\<close>

definition layout :: "buffer \<Rightarrow> (nat \<times> nat \<times> nat) option" where
  "layout bin =
     (let p = length bin - 8; r = length bin - 20 in
      if length bin < 20 \<or> take 4 (drop (p + 4) bin) \<noteq> PRE_TAG \<or> take 8 (drop r bin) \<noteq> RETOUCH_TAG then None
      else case get4LE (drop (r + 8) bin) of
        None \<Rightarrow> None
      | Some blob \<Rightarrow> let b = to_int32 (int r - uint blob) in if b < 0 then None else Some (p, r, nat b))"

definition mask_init :: "buffer \<Rightarrow> int \<Rightarrow> nat \<Rightarrow> mask_state" where
  "mask_init bin target b_offs = \<lparr>m_bin = bin, m_ptr = b_offs, m_dec = init_compression_state,
     m_candidate = target, m_set = False, m_mismatch = False\<rparr>"

definition mask_finish :: "int \<Rightarrow> nat \<Rightarrow> (mask_state + mask_state) \<Rightarrow> int \<times> buffer \<times> int" where
  "mask_finish target r_offs r =
     (case r of
        Inl st \<Rightarrow> (RETOUCH_DATA_ERROR, m_bin st, target)
      | Inr st \<Rightarrow> if r_offs < m_ptr st then (RETOUCH_DATA_ERROR, m_bin st, target)
                 else if m_mismatch st then (RETOUCH_DATA_MISMATCHED, m_bin st, target)
                 else (RETOUCH_DATA_MATCHED, m_bin st, m_candidate st))"

lemma trailer_offsets:
  assumes "20 \<le> length bin" "length bin < 2 ^ 31"
  shows "to_int32 (int (length bin) - 8) = int (length bin - 8)"
    "to_int32 (int (length bin - 8) - 12) = int (length bin - 20)"
  using assms by (subst to_int32_id; simp)+

lemma retouch_layout:
  assumes "length bin < 2 ^ 31" "layout bin = Some (p, r, b)"
  shows "retouch_mask_data bin (int (length bin)) desired =
    (let target = (case desired of None \<Rightarrow> 0 | Some d \<Rightarrow> d) in
     map_option (mask_finish target r) (mask_loop desired p r b (mask_init bin target b)))"
proof -
  from assms(2) obtain blob where h: "20 \<le> length bin" "p = length bin - 8" "r = length bin - 20"
    "take 4 (drop (p + 4) bin) = PRE_TAG" "take 8 (drop r bin) = RETOUCH_TAG"
    "get4LE (drop (r + 8) bin) = Some blob" "\<not> to_int32 (int r - uint blob) < 0" "b = nat (to_int32 (int r - uint blob))"
    by (auto simp: layout_def Let_def split: if_splits option.splits)
  have t: "to_int32 (int (length bin) - 8) = int p" "to_int32 (int p - 12) = int r" "r + 20 = length bin"
    using trailer_offsets [OF h(1) assms(1)] h(1-3) by simp_all
  show ?thesis
    unfolding retouch_mask_data_def Let_def t(1,2) mask_init_def mask_finish_def nat_int h(6)
    using h(4,5,7) t(3)
    by (cases "mask_loop desired p r b \<lparr>m_bin = bin, m_ptr = b, m_dec = init_compression_state,
        m_candidate = case desired of None \<Rightarrow> 0 | Some d \<Rightarrow> d, m_set = False, m_mismatch = False\<rparr>")
      (simp_all add: h(8) [symmetric] split: sum.split)
qed

lemma retouch_no_layout:
  assumes "length bin < 2 ^ 31" "layout bin = None"
  shows "\<exists>code. retouch_mask_data bin (int (length bin)) desired
    = Some (code, bin, case desired of None \<Rightarrow> 0 | Some d \<Rightarrow> d)
    \<and> (code = RETOUCH_DATA_ERROR \<or> code = (if desired = None then RETOUCH_DATA_NOTAPPLICABLE else RETOUCH_DATA_MATCHED))"
proof (cases "20 \<le> length bin")
  case True
  have len: "length bin - 20 + 20 = length bin" using True by simp
  obtain blob where blob: "get4LE (drop (length bin - 20 + 8) bin) = Some blob"
    using get4_defined [of "length bin - 20 + 8" bin] True by auto
  have "\<not> (take 4 (drop (length bin - 8 + 4) bin) = PRE_TAG \<and> take 8 (drop (length bin - 20) bin) = RETOUCH_TAG
      \<and> 0 \<le> to_int32 (int (length bin - 20) - uint blob))"
    using assms(2) True blob by (auto simp: layout_def Let_def)
  then show ?thesis
    unfolding retouch_mask_data_def Let_def trailer_offsets [OF True assms(1)] nat_int blob
    using len by (auto simp: not_le)
next
  case False
  have "to_int32 (int (length bin) - 8) = int (length bin) - 8" "to_int32 (int (length bin) - 8 - 12) < 0"
    using False by (subst to_int32_id; simp)+
  then show ?thesis unfolding retouch_mask_data_def Let_def by simp
qed

lemma layout_bounds:
  assumes "layout bin = Some (p, r, b)" "length bin < 2 ^ 31"
  shows "p + 8 \<le> length bin" "p = r + 12"
  using assms by (auto simp: layout_def Let_def split: if_splits option.splits)

lemma mask_init_ok:
  assumes "\<And>d. desired = Some d \<Longrightarrow> - (2 ^ 31) \<le> d \<and> d < 2 ^ 31"
  shows "mask_ok (length bin) b desired (mask_init bin (case desired of None \<Rightarrow> 0 | Some d \<Rightarrow> d) b)"
  using assms to_int32_id by (auto simp: mask_ok_def mask_init_def init_compression_state_def to_int32_def
      split: option.split)

lemma mask_data_safe:
  assumes len: "length bin < 2 ^ 31" and d: "\<And>d. desired = Some d \<Longrightarrow> - (2 ^ 31) \<le> d \<and> d < 2 ^ 31"
  shows "\<exists>code bin' off. retouch_mask_data bin (int (length bin)) desired = Some (code, bin', off)
    \<and> length bin' = length bin
    \<and> (desired = None \<longrightarrow> code \<in> {RETOUCH_DATA_ERROR, RETOUCH_DATA_MATCHED, RETOUCH_DATA_MISMATCHED, RETOUCH_DATA_NOTAPPLICABLE})
    \<and> (\<forall>d. desired = Some d \<longrightarrow> code \<in> {RETOUCH_DATA_ERROR, RETOUCH_DATA_MATCHED} \<and> off = d)"
proof (cases "layout bin")
  case None
  with retouch_no_layout [OF len None, of desired] show ?thesis by (auto split: option.splits)
next
  case (Some l)
  obtain p r b where l: "l = (p, r, b)" by (cases l)
  let ?t = "case desired of None \<Rightarrow> 0 | Some d \<Rightarrow> d"
  note lb = layout_bounds [OF Some [unfolded l] len]
  obtain res where res: "mask_loop desired p r b (mask_init bin ?t b) = Some res"
    "case res of Inl st \<Rightarrow> length (m_bin st) = length bin | Inr st \<Rightarrow> mask_ok (length bin) b desired st"
    using mask_loop_ok [OF lb len mask_init_ok] d by blast
  have conv: "sint (word_of_int t :: u32) = t" if "desired = Some t" for t
    using d [OF that] to_int32_id [of t] by (simp add: to_int32_def)
  show ?thesis
    using retouch_layout [OF len Some [unfolded l], of desired] res conv
    by (auto simp: Let_def mask_finish_def mask_ok_def split: sum.splits option.splits if_splits)
qed

text \<open>On every binary below 2 GiB \<open>retouch_mask_data\<close> ends and reads and writes only inside the
  binary, whatever its trailers and its list contain; it keeps the length, and when it applies a
  given offset it never reports a mismatch and, unless it reports an error, returns that offset.\<close>

theorem retouch_mask_data_safe:
  assumes len: "length bin < 2 ^ 31" and d: "\<And>d. desired = Some d \<Longrightarrow> - (2 ^ 31) \<le> d \<and> d < 2 ^ 31"
  shows "\<exists>code bin' off. retouch_mask_data bin (int (length bin)) desired = Some (code, bin', off)
    \<and> length bin' = length bin
    \<and> (desired = None \<longrightarrow> code \<in> {RETOUCH_DATA_ERROR, RETOUCH_DATA_MATCHED, RETOUCH_DATA_MISMATCHED, RETOUCH_DATA_NOTAPPLICABLE})
    \<and> (\<forall>d. desired = Some d \<longrightarrow> code \<in> {RETOUCH_DATA_ERROR, RETOUCH_DATA_MATCHED} \<and> off = d)"
  by (rule mask_data_safe [OF len d])

theorem retouch_mask_data_safe_witness:
  "\<exists>code bin' off. retouch_mask_data (replicate 30 0) 30 (Some 4096) = Some (code, bin', off)
    \<and> length bin' = 30 \<and> off = 4096"
  using retouch_mask_data_safe [of "replicate 30 0" "Some 4096"] by auto

section \<open>Masking undoes retouching\<close>

text \<open>The entries of the list, read from an unchanging binary, and the position behind them.\<close>

function entries_from :: "buffer \<Rightarrow> nat \<Rightarrow> nat \<Rightarrow> retouch_decoder \<Rightarrow> ((int \<times> u32) list \<times> nat) option" where
  "entries_from bin r_offs p dec =
     (if p < r_offs then
        (case decode_in_memory bin p dec of
           None \<Rightarrow> None
         | Some (p1, off, c, dec1) \<Rightarrow>
             map_option (\<lambda>(es, e). ((off, c) # es, e)) (entries_from bin r_offs p1 dec1))
      else Some ([], p))"
  by pat_completeness auto
termination
  by (relation "measure (\<lambda>(bin, r_offs, p, dec). r_offs - p)") (auto dest: decode_in_memory_ptr)

declare entries_from.simps [simp del]

definition entry_pos :: "nat \<Rightarrow> int \<Rightarrow> nat" where
  "entry_pos p_offs off = (if off = -1 then p_offs else nat off)"

text \<open>No entry touches the list or the trailers, but for the word of \<open>prelink_info_t\<close>.\<close>

definition entries_clear :: "nat \<Rightarrow> (int \<times> u32) list \<Rightarrow> bool" where
  "entries_clear b_offs es \<longleftrightarrow> (\<forall>(off, c) \<in> set es. off = -1 \<or> 0 \<le> off \<and> off + 4 \<le> int b_offs)"

definition retouchable :: "buffer \<Rightarrow> bool" where
  "retouchable bin \<longleftrightarrow>
     (case layout bin of
        None \<Rightarrow> False
      | Some (p, r, b) \<Rightarrow>
          (case entries_from bin r b init_compression_state of
             None \<Rightarrow> False
           | Some (es, e) \<Rightarrow> e \<le> r \<and> entries_clear b es))"

fun write_entries :: "nat \<Rightarrow> u32 \<Rightarrow> (int \<times> u32) list \<Rightarrow> buffer \<Rightarrow> buffer" where
  "write_entries p_offs w [] b = b"
| "write_entries p_offs w ((off, c) # es) b = write_entries p_offs w es (write4 b (entry_pos p_offs off) (c + w))"

definition agree :: "nat \<Rightarrow> nat \<Rightarrow> buffer \<Rightarrow> buffer \<Rightarrow> bool" where
  "agree lo hi b b' \<longleftrightarrow> length b = length b' \<and> (\<forall>i. lo \<le> i \<and> i < hi \<longrightarrow> i < length b \<longrightarrow> b ! i = b' ! i)"

lemma agree_region:
  assumes "agree lo hi b b'" "lo \<le> p" "p + n \<le> hi"
  shows "take n (drop p b) = take n (drop p b')"
  using assms by (intro nth_equalityI) (auto simp: agree_def)

lemma nth_write4:
  assumes "pos + 4 \<le> length b" "i < length b"
  shows "write4 b pos v ! i = (if i < pos then b ! i else if i < pos + 4 then le_split 4 v ! (i - pos) else b ! i)"
  using assms by (auto simp: write4_def nth_append simp del: le_split_numeral)

lemma agree_write4:
  assumes "agree lo hi b b'" "pos + 4 \<le> lo \<or> hi \<le> pos" "pos + 4 \<le> length b'"
  shows "agree lo hi b (write4 b' pos v)"
  using assms by (auto simp: agree_def nth_write4)

lemma decode_agree:
  assumes "agree lo hi b b'" "lo \<le> p" "p + 8 \<le> hi" "p < length b"
  shows "decode_in_memory b p st = decode_in_memory b' p st"
proof -
  have "b ! p = b' ! p" using assms by (simp add: agree_def)
  moreover have "take (input_size (b ! p)) (drop p b) = take (input_size (b ! p)) (drop p b')"
    using assms(2,3) input_size_bounds(2) [of "b ! p"] by (intro agree_region [OF assms(1)]) auto
  ultimately show ?thesis using assms(1) by (simp add: decode_in_memory_def Let_def agree_def)
qed

lemma entries_agree:
  assumes "agree lo hi b b'" "r + 8 \<le> hi" "r \<le> length b"
  shows "lo \<le> p \<Longrightarrow> entries_from b r p dec = entries_from b' r p dec"
proof (induction "r - p" arbitrary: p dec rule: less_induct)
  case less
  show ?case
  proof (cases "p < r")
    case True
    have d: "decode_in_memory b p dec = decode_in_memory b' p dec"
      using True assms(2,3) less.prems by (intro decode_agree [OF assms(1)]) auto
    have "entries_from b r p1 dec1 = entries_from b' r p1 dec1"
      if "decode_in_memory b' p dec = Some (p1, off, c, dec1)" for p1 off c dec1
      using decode_in_memory_ptr [OF that] True less.prems by (intro less.hyps) auto
    then show ?thesis
      using d by (subst (1 2) entries_from.simps) (auto split: option.split)
  qed (subst (1 2) entries_from.simps, simp)
qed

lemma mask_loop_entries:
  assumes "p_offs + 8 \<le> len" "p_offs = r_offs + 12"
  shows "entries_from bin r_offs (m_ptr st) (m_dec st) = Some (es, e) \<Longrightarrow> entries_clear b_offs es
    \<Longrightarrow> agree b_offs p_offs bin (m_bin st) \<Longrightarrow> length bin = len \<Longrightarrow> b_offs \<le> m_ptr st \<Longrightarrow> b_offs \<le> r_offs
    \<Longrightarrow> \<exists>st'. mask_loop (Some d) p_offs r_offs b_offs st = Some (Inr st')
      \<and> m_bin st' = write_entries p_offs (word_of_int d) es (m_bin st) \<and> m_ptr st' = e"
proof (induction es arbitrary: st)
  case Nil
  then have "\<not> m_ptr st < r_offs" "e = m_ptr st"
    by (subst (asm) entries_from.simps, force split: if_splits option.splits)+
  then show ?case by (subst mask_loop.simps) simp
next
  case (Cons x es)
  obtain off c where x: "x = (off, c)" by (cases x)
  from Cons.prems(1) obtain p1 dec1 where lt: "m_ptr st < r_offs"
    and d: "decode_in_memory bin (m_ptr st) (m_dec st) = Some (p1, off, c, dec1)"
    and rest: "entries_from bin r_offs p1 dec1 = Some (es, e)"
    by (subst (asm) entries_from.simps) (auto simp: x split: if_splits option.splits)
  have d': "decode_in_memory (m_bin st) (m_ptr st) (m_dec st) = Some (p1, off, c, dec1)"
    using decode_agree [OF Cons.prems(3), of "m_ptr st" "m_dec st"] d lt Cons.prems assms by auto
  have off: "off = -1 \<or> 0 \<le> off \<and> off + 4 \<le> int b_offs" using Cons.prems(2) by (simp add: entries_clear_def x)
  let ?pos = "entry_pos p_offs off" and ?v = "c + word_of_int d"
  have lenb: "length (m_bin st) = len" using Cons.prems(3,4) by (simp add: agree_def)
  have pos: "?pos + 4 \<le> len" "?pos + 4 \<le> b_offs \<or> p_offs \<le> ?pos"
    using off assms Cons.prems(6) by (auto simp: entry_pos_def)
  have w: "put4 (m_bin st) ?pos ?v = Some (write4 (m_bin st) ?pos ?v)"
    "get4LE (drop ?pos (write4 (m_bin st) ?pos ?v)) = Some ?v"
    using pos(1) lenb by (simp_all only: put4_write4 get4_write4)
  have "\<exists>st1. mask_entry (Some d) p_offs b_offs st = Some (Inr st1)
      \<and> m_bin st1 = write4 (m_bin st) ?pos ?v \<and> m_ptr st1 = p1 \<and> m_dec st1 = dec1"
    using d' off w
    by (cases "m_set st"; cases "m_candidate st = sint (word_of_int d :: u32)")
      (auto simp: mask_entry_def Let_def entry_pos_def)
  then obtain st1 where st1: "mask_entry (Some d) p_offs b_offs st = Some (Inr st1)"
    "m_bin st1 = write4 (m_bin st) ?pos ?v" "m_ptr st1 = p1" "m_dec st1 = dec1" by blast
  have "agree b_offs p_offs bin (m_bin st1)"
    unfolding st1(2) using Cons.prems(3) pos lenb by (intro agree_write4) auto
  moreover have "b_offs \<le> p1" using decode_in_memory_ptr [OF d] Cons.prems(5) by simp
  moreover have "entries_clear b_offs es" using Cons.prems(2) by (simp add: entries_clear_def)
  ultimately obtain st' where "mask_loop (Some d) p_offs r_offs b_offs st1 = Some (Inr st')"
    "m_bin st' = write_entries p_offs (word_of_int d) es (m_bin st1)" "m_ptr st' = e"
    using Cons.IH [of st1] rest st1 Cons.prems(4,6) by auto
  then show ?case using lt st1 by (subst mask_loop.simps) (simp add: x)
qed

definition covered :: "nat \<Rightarrow> (int \<times> u32) list \<Rightarrow> nat \<Rightarrow> bool" where
  "covered p_offs es i \<longleftrightarrow> (\<exists>(off, c) \<in> set es. entry_pos p_offs off \<le> i \<and> i < entry_pos p_offs off + 4)"

lemma covered_simps [simp]:
  "covered p [] i \<longleftrightarrow> False"
  "covered p ((off, c) # es) i \<longleftrightarrow> (entry_pos p off \<le> i \<and> i < entry_pos p off + 4) \<or> covered p es i"
  by (auto simp: covered_def)

lemma write_entries_nth:
  assumes "\<forall>(off, c) \<in> set es. entry_pos p off + 4 \<le> length b" "length b' = length b" "i < length b"
  shows "length (write_entries p w es b) = length b"
    and "covered p es i \<Longrightarrow> write_entries p w es b ! i = write_entries p w es b' ! i"
    and "\<not> covered p es i \<Longrightarrow> write_entries p w es b ! i = b ! i"
proof -
  have "length (write_entries p w es b) = length b
      \<and> (covered p es i \<or> b ! i = b' ! i \<longrightarrow> write_entries p w es b ! i = write_entries p w es b' ! i)
      \<and> (\<not> covered p es i \<longrightarrow> write_entries p w es b ! i = b ! i)"
    using assms
  proof (induction es arbitrary: b b')
    case (Cons x es)
    obtain off c where x: "x = (off, c)" by (cases x)
    have pos: "entry_pos p off + 4 \<le> length b" using Cons.prems(1) by (simp add: x)
    let ?w = "\<lambda>b. write4 b (entry_pos p off) (c + w)"
    have "length (write_entries p w es (?w b)) = length (?w b)
      \<and> (covered p es i \<or> ?w b ! i = ?w b' ! i \<longrightarrow> write_entries p w es (?w b) ! i = write_entries p w es (?w b') ! i)
      \<and> (\<not> covered p es i \<longrightarrow> write_entries p w es (?w b) ! i = ?w b ! i)"
      using Cons.prems pos by (intro Cons.IH) (auto simp: x)
    moreover have "?w b ! i = ?w b' ! i" if "entry_pos p off \<le> i \<and> i < entry_pos p off + 4 \<or> b ! i = b' ! i"
      using that pos Cons.prems(2,3) by (auto simp: nth_write4)
    moreover have "?w b ! i = b ! i" if "\<not> (entry_pos p off \<le> i \<and> i < entry_pos p off + 4)"
      using that pos Cons.prems(3) by (auto simp: nth_write4)
    ultimately show ?case using pos by (auto simp: x)
  qed simp
  then show "length (write_entries p w es b) = length b"
    "covered p es i \<Longrightarrow> write_entries p w es b ! i = write_entries p w es b' ! i"
    "\<not> covered p es i \<Longrightarrow> write_entries p w es b ! i = b ! i" by blast+
qed

lemma length_write_entries [simp]:
  "\<forall>(off, c) \<in> set es. entry_pos p off + 4 \<le> length b \<Longrightarrow> length (write_entries p w es b) = length b"
  by (induction es arbitrary: b) auto

lemma write_entries_twice:
  assumes "\<forall>(off, c) \<in> set es. entry_pos p off + 4 \<le> length b"
  shows "write_entries p w es (write_entries p w' es b) = write_entries p w es b"
proof (rule nth_equalityI)
  note len = length_write_entries [OF assms(1)]
  then have v: "\<forall>(off, c) \<in> set es. entry_pos p off + 4 \<le> length (write_entries p w' es b)" using assms(1) by simp
  show l: "length (write_entries p w es (write_entries p w' es b)) = length (write_entries p w es b)"
    using length_write_entries [OF v] len by simp
  fix i assume "i < length (write_entries p w es (write_entries p w' es b))"
  then have i: "i < length b" "i < length (write_entries p w' es b)" using l len by simp_all
  show "write_entries p w es (write_entries p w' es b) ! i = write_entries p w es b ! i"
    using write_entries_nth(2) [OF v _ i(2), of b w] write_entries_nth(3) [OF v refl i(2), of w]
      write_entries_nth(3) [OF assms(1) refl i(1)] len
    by (cases "covered p es i") simp_all
qed

lemma agree_write_entries:
  assumes "\<forall>(off, c) \<in> set es. entry_pos p off + 4 \<le> length b"
    and "\<And>i. lo \<le> i \<Longrightarrow> i < hi \<Longrightarrow> \<not> covered p es i"
  shows "agree lo hi b (write_entries p w es b)"
  using assms write_entries_nth(3) [OF assms(1) refl] length_write_entries [OF assms(1)] by (auto simp: agree_def)

lemma layout_agree:
  assumes "layout b = Some (p, r, o')" "agree r p b b'" "agree (p + 4) (p + 8) b b'" "length b < 2 ^ 31"
  shows "layout b' = Some (p, r, o')"
proof -
  note lb = layout_bounds [OF assms(1,4)]
  have len: "length b' = length b" using assms(2) by (simp add: agree_def)
  have pr: "p = length b - 8" "r = length b - 20"
    using assms(1) by (auto simp: layout_def Let_def split: if_splits option.splits)
  have t: "take 4 (drop (p + 4) b') = take 4 (drop (p + 4) b)" "take 8 (drop r b') = take 8 (drop r b)"
    "take 4 (drop (r + 8) b') = take 4 (drop (r + 8) b)"
    using agree_region [OF assms(3), of "p + 4" 4] agree_region [OF assms(2), of r 8]
      agree_region [OF assms(2), of "r + 8" 4] lb by simp_all
  have g: "get4LE c = get4LE (take 4 c)" if l4: "4 \<le> length c" for c
  proof -
    obtain v :: u32 where v: "le_split 4 v = take 4 c"
      using LE4.enc_onto [of "take 4 c"] l4 by (auto simp del: le_split_numeral)
    then show ?thesis using LE4.get_enc [of v "drop 4 c"] LE4.get_enc [of v "[]"]
      by (simp only: append_take_drop_id append_Nil2)
  qed
  have "get4LE (drop (r + 8) b') = get4LE (take 4 (drop (r + 8) b'))" using lb len by (intro g) simp
  also have "\<dots> = get4LE (drop (r + 8) b)" unfolding t(3) using lb by (intro g [symmetric]) simp
  finally have "get4LE (drop (r + 8) b') = get4LE (drop (r + 8) b)" .
  then show ?thesis
    using assms(1) t(1,2) unfolding layout_def Let_def len pr [symmetric] by (simp split: if_splits)
qed

lemma retouch_apply:
  assumes len: "length bin < 2 ^ 31" and lay: "layout bin = Some (p, r, b)"
    and es: "entries_from bin r b init_compression_state = Some (es, e)" "e \<le> r" "entries_clear b es"
    and d: "- (2 ^ 31) \<le> d" "d < 2 ^ 31"
  shows "retouch_mask_data bin (int (length bin)) (Some d)
    = Some (RETOUCH_DATA_MATCHED, write_entries p (word_of_int d) es bin, d)"
proof -
  note lb = layout_bounds [OF lay len]
  have br: "b \<le> r"
    using es(1,2) by (cases "b < r") (auto simp: entries_from.simps [of bin r b])
  have st0: "mask_ok (length bin) b (Some d) (mask_init bin d b)"
    using mask_init_ok [of "Some d" bin b] d by simp
  obtain st where st: "mask_loop (Some d) p r b (mask_init bin d b) = Some (Inr st)"
    "m_bin st = write_entries p (word_of_int d) es bin" "m_ptr st = e"
    using mask_loop_entries [OF lb, of bin "mask_init bin d b" es e b d] es br
    by (auto simp: mask_init_def agree_def)
  have "mask_ok (length bin) b (Some d) st"
    using mask_loop_ok [OF lb len st0] st(1) by auto
  then have "\<not> m_mismatch st" "m_candidate st = d"
    using d to_int32_id [of d] by (simp_all add: mask_ok_def to_int32_def)
  then show ?thesis
    using retouch_layout [OF len lay, of "Some d"] st es(2) by (simp add: mask_finish_def Let_def)
qed

text \<open>C27: retouching a library with one offset and then with another gives what retouching the
  original with the second gives; in particular masking (the offset zero) a randomised library
  restores the bytes that masking the original library produces, which is what the digest checks
  rely on.\<close>

theorem retouch_mask_retouch:
  assumes len: "length bin < 2 ^ 31" and ok: "retouchable bin"
    and d1: "- (2 ^ 31) \<le> d1" "d1 < 2 ^ 31" and d2: "- (2 ^ 31) \<le> d2" "d2 < 2 ^ 31"
  shows "\<exists>bin1 bin2. retouch_mask_data bin (int (length bin)) (Some d1) = Some (RETOUCH_DATA_MATCHED, bin1, d1)
    \<and> retouch_mask_data bin (int (length bin)) (Some d2) = Some (RETOUCH_DATA_MATCHED, bin2, d2)
    \<and> retouch_mask_data bin1 (int (length bin1)) (Some d2) = Some (RETOUCH_DATA_MATCHED, bin2, d2)"
proof -
  obtain p r b es e where lay: "layout bin = Some (p, r, b)"
    and es: "entries_from bin r b init_compression_state = Some (es, e)" "e \<le> r" "entries_clear b es"
    using ok by (auto simp: retouchable_def split: option.splits)
  note lb = layout_bounds [OF lay len]
  have br: "b \<le> r"
    using es(1,2) by (cases "b < r") (auto simp: entries_from.simps [of bin r b])
  let ?b1 = "write_entries p (word_of_int d1) es bin"
  have v: "\<forall>(off, c) \<in> set es. entry_pos p off + 4 \<le> length bin"
    using es(3) lb br by (auto simp: entries_clear_def entry_pos_def)
  have nc: "\<not> covered p es i" if "b \<le> i \<and> i < p \<or> p + 4 \<le> i" for i
    using es(3) br lb that by (fastforce simp: entries_clear_def entry_pos_def covered_def)
  have ag: "agree b p bin ?b1" "agree r p bin ?b1" "agree (p + 4) (p + 8) bin ?b1"
    using nc br by (auto intro!: agree_write_entries [OF v])
  have lay1: "layout ?b1 = Some (p, r, b)" by (rule layout_agree [OF lay ag(2,3) len])
  have es1: "entries_from ?b1 r b init_compression_state = Some (es, e)"
    using entries_agree [OF ag(1), of r b] es(1) lb by simp
  have "length ?b1 < 2 ^ 31" using len v by simp
  from retouch_apply [OF this lay1 es1 es(2,3) d2] retouch_apply [OF len lay es d1] retouch_apply [OF len lay es d2]
  show ?thesis using write_entries_twice [OF v, of "word_of_int d2" "word_of_int d1"] by (intro exI conjI) simp_all
qed

definition sample_binary :: buffer where
  "sample_binary = [9, 9, 9, 9] @ [0, 0, 0, 0, 1, 2, 3, 4] @ RETOUCH_TAG @ [8, 0, 0, 0] @ [0, 0, 0, 0] @ PRE_TAG"

theorem retouch_mask_retouch_witness:
  "retouchable sample_binary
   \<and> (\<exists>bin1 bin2. retouch_mask_data sample_binary 32 (Some 4096) = Some (RETOUCH_DATA_MATCHED, bin1, 4096)
    \<and> retouch_mask_data sample_binary 32 (Some 0) = Some (RETOUCH_DATA_MATCHED, bin2, 0)
    \<and> retouch_mask_data bin1 (int (length bin1)) (Some 0) = Some (RETOUCH_DATA_MATCHED, bin2, 0))"
proof -
  have r: "retouchable sample_binary" by code_simp
  have l: "length sample_binary = 32" by (simp add: sample_binary_def RETOUCH_TAG_def PRE_TAG_def)
  show ?thesis using retouch_mask_retouch [OF _ r, of 4096 0] r l by simp
qed

end
