(* ===== verification/World.thy ===== *)
theory World
  imports Prelude
begin

text \<open>
  The state outside the programs: the files by path (device nodes included), the processes with
  the files they hold open, the flash layer's state and the answers of the kernel. Every system
  call takes one number from the list of answers: zero, also when the list is used up, is full
  success (but for \<open>statfs\<close>); what another number means is said at each call, so that a theorem
  about all worlds covers every pattern of failures and of short reads and writes. Allocations
  fail only where the source tests for it. A path is looked up as it is written: a symbolic link is an
  inode of its own, which no call follows, and components like \<open>..\<close> or doubled and trailing slashes are
  not resolved; devices grow when they are written behind their end. The static \<open>mtd_partitions_scanned\<close> of
  \<open>applypatch.c\<close> is kept here too.
\<close>

record inode =
  f_data :: buffer
  f_mode :: int
  f_uid :: int
  f_gid :: int
  f_reg :: bool

text \<open>
  \<open>procs\<close> are the entries of \<open>/proc\<close>: a name and, unless its \<open>fd\<close> directory cannot be opened, the
  targets of the links in it.
\<close>

record 'f world =
  files :: "(string \<times> inode) list"
  procs :: "(string \<times> string list option) list"
  answers :: "nat list"
  mtd_partitions_scanned :: bool
  flash :: 'f

definition answer :: "'f world \<Rightarrow> nat \<times> 'f world" where
  "answer w = (case answers w of [] \<Rightarrow> (0, w) | a # as \<Rightarrow> (a, w\<lparr>answers := as\<rparr>))"

text \<open>A call that just succeeds or fails.\<close>

definition sys_ok :: "'f world \<Rightarrow> bool \<times> 'f world" where
  "sys_ok w = (case answer w of (a, w1) \<Rightarrow> (a = 0, w1))"

text \<open>How much of \<open>n\<close> bytes a read or write moves: all, or \<open>a - 1\<close>, where zero is a failure.\<close>

definition sys_amount :: "nat \<Rightarrow> 'f world \<Rightarrow> nat \<times> 'f world" where
  "sys_amount n w = (case answer w of (a, w1) \<Rightarrow> (if a = 0 then n else min (a - 1) n, w1))"

definition lookup_file :: "'f world \<Rightarrow> string \<Rightarrow> inode option" where
  "lookup_file w path = map_of (files w) path"

text \<open>Storing under a path replaces the file there or appends a new directory entry.\<close>

fun store :: "string \<Rightarrow> inode \<Rightarrow> (string \<times> inode) list \<Rightarrow> (string \<times> inode) list" where
  "store path f [] = [(path, f)]"
| "store path f ((q, g) # fs) = (if q = path then (q, f) # fs else (q, g) # store path f fs)"

definition store_file :: "'f world \<Rightarrow> string \<Rightarrow> inode \<Rightarrow> 'f world" where
  "store_file w path f = w\<lparr>files := store path f (files w)\<rparr>"

definition delete_file :: "'f world \<Rightarrow> string \<Rightarrow> 'f world" where
  "delete_file w path = w\<lparr>files := filter (\<lambda>(q, _). q \<noteq> path) (files w)\<rparr>"

text \<open>\<open>open\<close> with \<open>O_WRONLY | O_CREAT | O_TRUNC\<close> and mode \<open>0600\<close>.\<close>

definition open_trunc :: "string \<Rightarrow> 'f world \<Rightarrow> bool \<times> 'f world" where
  "open_trunc path w =
     (case sys_ok w of (ok, w1) \<Rightarrow>
        if ok then (True, store_file w1 path
          (case lookup_file w1 path of
             None \<Rightarrow> \<lparr>f_data = [], f_mode = 0x180, f_uid = 0, f_gid = 0, f_reg = True\<rparr>
           | Some f \<Rightarrow> f\<lparr>f_data := []\<rparr>))
        else (False, w1))"

text \<open>\<open>write\<close> at the end of an open file.\<close>

definition append_file :: "string \<Rightarrow> buffer \<Rightarrow> 'f world \<Rightarrow> nat \<times> 'f world" where
  "append_file path bs w =
     (case sys_amount (length bs) w of (n, w1) \<Rightarrow>
        case lookup_file w1 path of
          None \<Rightarrow> (0, w1)
        | Some f \<Rightarrow> (n, store_file w1 path (f\<lparr>f_data := f_data f @ take n bs\<rparr>)))"

text \<open>\<open>read\<close> and \<open>fread\<close> from a position of an open file: what was read.\<close>

definition fread :: "buffer \<Rightarrow> nat \<Rightarrow> nat \<Rightarrow> 'f world \<Rightarrow> buffer \<times> 'f world" where
  "fread dat pos n w = (case sys_amount n w of (m, w1) \<Rightarrow> (take m (drop pos dat), w1))"

definition unlink :: "string \<Rightarrow> 'f world \<Rightarrow> bool \<times> 'f world" where
  "unlink path w =
     (case sys_ok w of (ok, w1) \<Rightarrow>
        if ok \<and> lookup_file w1 path \<noteq> None then (True, delete_file w1 path) else (False, w1))"

definition rename :: "string \<Rightarrow> string \<Rightarrow> 'f world \<Rightarrow> bool \<times> 'f world" where
  "rename src dst w =
     (case sys_ok w of (ok, w1) \<Rightarrow>
        case lookup_file w1 src of
          None \<Rightarrow> (False, w1)
        | Some f \<Rightarrow> if ok then (True, if src = dst then w1 else store_file (delete_file w1 src) dst f) else (False, w1))"

definition chmod :: "string \<Rightarrow> int \<Rightarrow> 'f world \<Rightarrow> bool \<times> 'f world" where
  "chmod path mode w =
     (case sys_ok w of (ok, w1) \<Rightarrow>
        case lookup_file w1 path of
          None \<Rightarrow> (False, w1)
        | Some f \<Rightarrow> if ok then (True, store_file w1 path (f\<lparr>f_mode := mode\<rparr>)) else (False, w1))"

definition chown :: "string \<Rightarrow> int \<Rightarrow> int \<Rightarrow> 'f world \<Rightarrow> bool \<times> 'f world" where
  "chown path uid gid w =
     (case sys_ok w of (ok, w1) \<Rightarrow>
        case lookup_file w1 path of
          None \<Rightarrow> (False, w1)
        | Some f \<Rightarrow> if ok then (True, store_file w1 path (f\<lparr>f_uid := uid, f_gid := gid\<rparr>)) else (False, w1))"

section \<open>Frame laws\<close>

lemma map_of_store: "map_of (store p f fs) = (map_of fs)(p \<mapsto> f)"
  by (induction fs) auto

lemma lookup_store [simp]: "lookup_file (store_file w p f) q = (if q = p then Some f else lookup_file w q)"
  by (simp add: lookup_file_def store_file_def map_of_store)

lemma map_of_filter_ne: "map_of (filter (\<lambda>(q, _). q \<noteq> p) fs) q = (if q = p then None else map_of fs q)"
  by (induction fs) auto

lemma lookup_delete [simp]: "lookup_file (delete_file w p) q = (if q = p then None else lookup_file w q)"
  by (simp add: lookup_file_def delete_file_def map_of_filter_ne)

lemma lookup_answers [simp]: "lookup_file (w\<lparr>answers := as\<rparr>) = lookup_file w"
  "lookup_file (w\<lparr>flash := fl\<rparr>) = lookup_file w"
  "lookup_file (w\<lparr>mtd_partitions_scanned := b\<rparr>) = lookup_file w"
  by (simp_all add: lookup_file_def fun_eq_iff)

lemma answers_store [simp]: "answers (store_file w p f) = answers w" "answers (delete_file w p) = answers w"
  by (simp_all add: store_file_def delete_file_def)

text \<open>\<open>same_files w w'\<close>: the calls in between changed no file.\<close>

definition same_files :: "'f world \<Rightarrow> 'g world \<Rightarrow> bool" where
  "same_files w w' \<longleftrightarrow> files w' = files w"

lemma answer_files: "answer w = (a, w1) \<Longrightarrow> files w1 = files w \<and> procs w1 = procs w \<and> flash w1 = flash w"
  by (auto simp: answer_def split: list.splits)

lemma sys_ok_files: "sys_ok w = (b, w1) \<Longrightarrow> files w1 = files w \<and> procs w1 = procs w \<and> flash w1 = flash w"
  by (auto simp: sys_ok_def split: prod.splits dest: answer_files)

lemma sys_amount_files:
  "sys_amount n w = (m, w1) \<Longrightarrow> m \<le> n \<and> files w1 = files w \<and> procs w1 = procs w \<and> flash w1 = flash w"
  by (auto simp: sys_amount_def split: prod.splits if_splits dest: answer_files)

lemma lookup_files: "files w1 = files w \<Longrightarrow> lookup_file w1 p = lookup_file w p"
  by (simp add: lookup_file_def)

lemma fread_full:
  assumes "fread dat pos n w = (b, w1)" "length b = n" "0 < n"
  shows "b = take n (drop pos dat) \<and> pos + n \<le> length dat \<and> files w1 = files w"
proof -
  obtain m where m: "sys_amount n w = (m, w1)" "b = take m (drop pos dat)"
    using assms(1) by (auto simp: fread_def split: prod.splits)
  with sys_amount_files [OF m(1)] assms(2,3) show ?thesis by auto
qed

lemma sys_ok_plain: "answers w = [] \<Longrightarrow> sys_ok w = (True, w)"
  by (simp add: sys_ok_def answer_def)

lemma fread_plain: "answers w = [] \<Longrightarrow> fread dat pos n w = (take n (drop pos dat), w)"
  by (simp add: fread_def sys_amount_def answer_def)

end
