(* ===== verification/FreeCache.thy ===== *)
theory FreeCache
  imports World
begin

text \<open>
  Making room on the cache partition: \<open>applypatch/freecache.c\<close>, and \<open>FreeSpaceForFile\<close> and
  \<open>CacheSizeCheck\<close> of \<open>applypatch/applypatch.c\<close>. A directory is listed in the order of the world's
  file list. \<open>size_t\<close> values are natural numbers below \<open>2\<^sup>64\<close>. The array of names is a list whose
  elements may be null; its growth by \<open>realloc\<close> is that of the list.
\<close>

definition CACHE_TEMP_SOURCE :: string where "CACHE_TEMP_SOURCE = ''/cache/saved.file''"

definition SIZE_MAX :: nat where "SIZE_MAX = 2 ^ 64 - 1"

text \<open>\<open>statfs\<close>: an answer \<open>a + 1\<close> is a product \<open>f_bsize * f_bfree\<close> of \<open>a\<close>; zero is an error.\<close>

definition FreeSpaceForFile :: "string \<Rightarrow> 'f world \<Rightarrow> nat \<times> 'f world" where
  "FreeSpaceForFile filename w =
     (case answer w of (a, w1) \<Rightarrow> (if a = 0 then SIZE_MAX else (a - 1) mod 2 ^ 64, w1))"

section \<open>Candidates\<close>

definition list_dir :: "'f world \<Rightarrow> string \<Rightarrow> string list" where
  "list_dir w dir =
     map (drop (length dir + 1) \<circ> fst)
       (filter (\<lambda>(p, _). take (length dir + 1) p = dir @ ''/''
                  \<and> CHR ''/'' \<notin> set (drop (length dir + 1) p)) (files w))"

fun eliminate_links :: "string list \<Rightarrow> string option list \<Rightarrow> string option list" where
  "eliminate_links [] names = names"
| "eliminate_links (link # links) names =
     eliminate_links links
       (if strncmp link ''/cache/'' 7 = 0
        then map (\<lambda>n. if n = Some link then None else n) names else names)"

fun eliminate_procs :: "(string \<times> string list option) list \<Rightarrow> string option list \<Rightarrow> string option list" where
  "eliminate_procs [] names = names"
| "eliminate_procs ((d_name, fds) # ps) names =
     eliminate_procs ps
       (if list_all isdigit d_name
        then case fds of None \<Rightarrow> names | Some links \<Rightarrow> eliminate_links links names
        else names)"

definition EliminateOpenFiles :: "string option list \<Rightarrow> 'f world \<Rightarrow> (int \<times> string option list) \<times> 'f world" where
  "EliminateOpenFiles names w =
     (case sys_ok w of (ok, w1) \<Rightarrow>
        if ok then ((0, eliminate_procs (procs w1) names), w1) else ((-1, names), w1))"

fun collect_files :: "string \<Rightarrow> string list \<Rightarrow> 'f world \<Rightarrow> string list \<times> 'f world" where
  "collect_files dir [] w = ([], w)"
| "collect_files dir (d_name # ns) w =
     (let path = dir @ ''/'' @ d_name in
      if path = CACHE_TEMP_SOURCE then collect_files dir ns w
      else case sys_ok w of (ok, w1) \<Rightarrow>
        case collect_files dir ns w1 of (paths, w2) \<Rightarrow>
          (if ok \<and> (case lookup_file w1 path of None \<Rightarrow> False | Some f \<Rightarrow> f_reg f) then path # paths else paths, w2))"

fun collect_dirs :: "string list \<Rightarrow> 'f world \<Rightarrow> string list \<times> 'f world" where
  "collect_dirs [] w = ([], w)"
| "collect_dirs (dir # dirs) w =
     (case sys_ok w of (ok, w1) \<Rightarrow>
        if ok then
          (case collect_files dir (list_dir w1 dir) w1 of (ps, w2) \<Rightarrow>
             case collect_dirs dirs w2 of (qs, w3) \<Rightarrow> (ps @ qs, w3))
        else collect_dirs dirs w1)"

definition expendable_dirs :: "string list" where
  "expendable_dirs = [''/cache'', ''/cache/recovery/otatest'']"

definition FindExpendableFiles :: "'f world \<Rightarrow> (int \<times> string option list) \<times> 'f world" where
  "FindExpendableFiles w =
     (case collect_dirs expendable_dirs w of (paths, w1) \<Rightarrow>
        case EliminateOpenFiles (map Some paths) w1 of ((r, names), w2) \<Rightarrow>
          ((if r < 0 then -1 else 0, names), w2))"

section \<open>Deleting\<close>

fun delete_until :: "nat \<Rightarrow> string option list \<Rightarrow> nat \<Rightarrow> 'f world \<Rightarrow> nat \<times> 'f world" where
  "delete_until bytes_needed [] free_now w = (free_now, w)"
| "delete_until bytes_needed (n # ns) free_now w =
     (if free_now < bytes_needed then
        (case n of
           None \<Rightarrow> delete_until bytes_needed ns free_now w
         | Some name \<Rightarrow>
             (case unlink name w of (_, w1) \<Rightarrow>
                case FreeSpaceForFile ''/cache'' w1 of (free_now, w2) \<Rightarrow>
                  delete_until bytes_needed ns free_now w2))
      else (free_now, w))"

definition MakeFreeSpaceOnCache :: "nat \<Rightarrow> 'f world \<Rightarrow> int \<times> 'f world" where
  "MakeFreeSpaceOnCache bytes_needed w =
     (case FreeSpaceForFile ''/cache'' w of (free_now, w1) \<Rightarrow>
        if bytes_needed \<le> free_now then (0, w1)
        else case FindExpendableFiles w1 of ((r, names), w2) \<Rightarrow>
          if r < 0 then (-1, w2)
          else if length names = 0 then (-1, w2)
          else case delete_until bytes_needed names free_now w2 of (free_now, w3) \<Rightarrow>
            (if bytes_needed \<le> free_now then 0 else -1, w3))"

definition CacheSizeCheck :: "nat \<Rightarrow> 'f world \<Rightarrow> int \<times> 'f world" where
  "CacheSizeCheck bytes w =
     (case MakeFreeSpaceOnCache bytes w of (r, w1) \<Rightarrow> (if r < 0 then 1 else 0, w1))"

section \<open>What may be deleted\<close>

text \<open>
  \<open>expendable w p\<close>: a regular file directly in one of the two directories, other than the saved
  source, that no process whose descriptors can be read holds open.
\<close>

definition held_open :: "'f world \<Rightarrow> string \<Rightarrow> bool" where
  "held_open w p \<longleftrightarrow> (\<exists>(d, fds) \<in> set (procs w). list_all isdigit d \<and> (case fds of None \<Rightarrow> False | Some ls \<Rightarrow> p \<in> set ls))"

definition expendable :: "'f world \<Rightarrow> string \<Rightarrow> bool" where
  "expendable w p \<longleftrightarrow> p \<noteq> CACHE_TEMP_SOURCE \<and> \<not> held_open w p
     \<and> (\<exists>dir \<in> set expendable_dirs. \<exists>name. p = dir @ ''/'' @ name \<and> CHR ''/'' \<notin> set name)
     \<and> (case lookup_file w p of None \<Rightarrow> False | Some f \<Rightarrow> f_reg f)"

lemma eliminate_links_set:
  "Some p \<in> set (eliminate_links links names) \<longleftrightarrow>
     Some p \<in> set names \<and> \<not> (p \<in> set links \<and> strncmp p ''/cache/'' 7 = 0)"
  by (induction links names rule: eliminate_links.induct) auto

lemma eliminate_links_length: "length (eliminate_links links names) = length names"
  by (induction links names rule: eliminate_links.induct) auto

lemma eliminate_procs_set:
  "Some p \<in> set (eliminate_procs ps names) \<longleftrightarrow>
     Some p \<in> set names \<and> \<not> (strncmp p ''/cache/'' 7 = 0
       \<and> (\<exists>(d, fds) \<in> set ps. list_all isdigit d \<and> (case fds of None \<Rightarrow> False | Some ls \<Rightarrow> p \<in> set ls)))"
  by (induction ps names rule: eliminate_procs.induct) (auto simp: eliminate_links_set split: option.splits)

lemma sys_ok_lookup: "sys_ok w = (ok, w1) \<Longrightarrow> lookup_file w1 = lookup_file w"
  using sys_ok_files by (fastforce simp: lookup_file_def)

lemma collect_files_sound:
  assumes "collect_files dir ns w = (ps, w')"
  shows "files w' = files w \<and> procs w' = procs w \<and> (\<forall>p \<in> set ps. p \<noteq> CACHE_TEMP_SOURCE
    \<and> (\<exists>n \<in> set ns. p = dir @ ''/'' @ n) \<and> (case lookup_file w p of None \<Rightarrow> False | Some f \<Rightarrow> f_reg f))"
  using assms
proof (induction ns arbitrary: w ps w')
  case (Cons n ns)
  let ?path = "dir @ ''/'' @ n"
  obtain ok w1 where s: "sys_ok w = (ok, w1)" by (cases "sys_ok w")
  obtain qs w2 where c: "collect_files dir ns w1 = (qs, w2)" by (cases "collect_files dir ns w1")
  show ?case
  proof (cases "?path = CACHE_TEMP_SOURCE")
    case True
    then have "collect_files dir ns w = (ps, w')" using Cons.prems by (simp add: Let_def)
    from Cons.IH [OF this] show ?thesis by auto
  next
    case False
    then have ps: "w' = w2" "ps = (if ok \<and> (case lookup_file w1 ?path of None \<Rightarrow> False | Some f \<Rightarrow> f_reg f)
        then ?path # qs else qs)"
      using Cons.prems s c by (simp_all add: Let_def split: if_splits)
    show ?thesis
      using Cons.IH [OF c] ps False sys_ok_files [OF s] sys_ok_lookup [OF s] by (auto split: if_splits)
  qed
qed simp

lemma list_dir_name: "n \<in> set (list_dir w dir) \<Longrightarrow> CHR ''/'' \<notin> set n"
  by (auto simp: list_dir_def)

lemma collect_dirs_sound:
  assumes "collect_dirs dirs w = (ps, w')"
  shows "files w' = files w \<and> procs w' = procs w \<and> (\<forall>p \<in> set ps. p \<noteq> CACHE_TEMP_SOURCE
    \<and> (\<exists>dir \<in> set dirs. \<exists>n. p = dir @ ''/'' @ n \<and> CHR ''/'' \<notin> set n)
    \<and> (case lookup_file w p of None \<Rightarrow> False | Some f \<Rightarrow> f_reg f))"
  using assms
proof (induction dirs arbitrary: w ps w')
  case (Cons dir dirs)
  obtain ok w1 where s: "sys_ok w = (ok, w1)" by (cases "sys_ok w")
  note sw = sys_ok_files [OF s] sys_ok_lookup [OF s]
  show ?case
  proof (cases ok)
    case False
    then have "collect_dirs dirs w1 = (ps, w')" using Cons.prems s by simp
    from Cons.IH [OF this] sw show ?thesis by auto
  next
    case True
    obtain qs w2 where c: "collect_files dir (list_dir w1 dir) w1 = (qs, w2)"
      by (cases "collect_files dir (list_dir w1 dir) w1")
    obtain rs w3 where d: "collect_dirs dirs w2 = (rs, w3)" by (cases "collect_dirs dirs w2")
    have ps: "ps = qs @ rs" "w' = w3" using Cons.prems s c d True by simp_all
    note cs = collect_files_sound [OF c]
    have "lookup_file w2 = lookup_file w" using cs sw by (simp add: lookup_file_def fun_eq_iff)
    with Cons.IH [OF d] cs sw list_dir_name show ?thesis by (fastforce simp: ps)
  qed
qed simp

lemma strncmp_cache: "dir \<in> set expendable_dirs \<Longrightarrow> strncmp (dir @ ''/'' @ n) ''/cache/'' 7 = 0"
  by (auto simp: expendable_dirs_def strncmp_def)

lemma FindExpendableFiles_sound:
  assumes "FindExpendableFiles w = ((r, names), w')"
  shows "files w' = files w \<and> procs w' = procs w \<and> (0 \<le> r \<longrightarrow> (\<forall>p. Some p \<in> set names \<longrightarrow> expendable w p))"
proof -
  obtain ps w1 where c: "collect_dirs expendable_dirs w = (ps, w1)" by (cases "collect_dirs expendable_dirs w")
  obtain ok w2 where s: "sys_ok w1 = (ok, w2)" by (cases "sys_ok w1")
  note cs = collect_dirs_sound [OF c] and sw = sys_ok_files [OF s]
  have n: "0 \<le> r \<longrightarrow> ok \<and> names = eliminate_procs (procs w2) (map Some ps)" "w' = w2"
    using assms c s by (auto simp: FindExpendableFiles_def EliminateOpenFiles_def split: if_splits)
  have "expendable w p" if "Some p \<in> set names" "0 \<le> r" for p
  proof -
    from that n(1) have "p \<in> set ps" and open': "\<not> (strncmp p ''/cache/'' 7 = 0 \<and> held_open w2 p)"
      by (auto simp: eliminate_procs_set held_open_def)
    from cs \<open>p \<in> set ps\<close> obtain dir n where "dir \<in> set expendable_dirs" "p = dir @ ''/'' @ n" by blast
    with strncmp_cache have "strncmp p ''/cache/'' 7 = 0" by simp
    with open' cs sw have "\<not> held_open w p" by (simp add: held_open_def)
    with cs \<open>p \<in> set ps\<close> show ?thesis by (auto simp: expendable_def)
  qed
  with cs sw n(2) show ?thesis by simp
qed

lemma unlink_frame: "unlink p w = (b, w') \<Longrightarrow> q \<noteq> p \<Longrightarrow> lookup_file w' q = lookup_file w q"
  by (auto simp: unlink_def split: prod.splits if_splits dest: sys_ok_lookup)

lemma FreeSpace_files: "FreeSpaceForFile p w = (n, w') \<Longrightarrow> files w' = files w \<and> procs w' = procs w"
  by (auto simp: FreeSpaceForFile_def split: prod.splits dest: answer_files)

lemma delete_until_frame:
  "delete_until need names fr w = (n, w') \<Longrightarrow> Some q \<notin> set names \<Longrightarrow> lookup_file w' q = lookup_file w q"
proof (induction need names fr w rule: delete_until.induct)
  case (2 need m ns fr w)
  show ?case
  proof (cases "fr < need \<and> m \<noteq> None")
    case True
    then obtain name where m: "m = Some name" by auto
    obtain b w1 where u: "unlink name w = (b, w1)" by (cases "unlink name w")
    obtain fr1 w2 where f: "FreeSpaceForFile ''/cache'' w1 = (fr1, w2)" by (cases "FreeSpaceForFile ''/cache'' w1")
    have "delete_until need ns fr1 w2 = (n, w')" using "2.prems"(1) True m u f by simp
    then have "lookup_file w' q = lookup_file w2 q" using "2.IH" True m u f "2.prems"(2) by auto
    moreover have "lookup_file w2 q = lookup_file w1 q" using FreeSpace_files [OF f] by (simp add: lookup_file_def)
    ultimately show ?thesis using unlink_frame [OF u] "2.prems"(2) m by auto
  qed (use 2 in \<open>auto split: if_splits\<close>)
qed simp

lemma make_free_space_frame:
  assumes "MakeFreeSpaceOnCache need w = (r, w')" "\<not> expendable w p"
  shows "lookup_file w' p = lookup_file w p"
proof -
  obtain fr w1 where f: "FreeSpaceForFile ''/cache'' w = (fr, w1)" by (cases "FreeSpaceForFile ''/cache'' w")
  obtain r2 names w2 where e: "FindExpendableFiles w1 = ((r2, names), w2)" by (metis surj_pair)
  note fw = FreeSpace_files [OF f]
  note ew = FindExpendableFiles_sound [OF e]
  have l: "lookup_file w1 p = lookup_file w p" "lookup_file w2 p = lookup_file w p"
    using fw ew by (simp_all add: lookup_file_def)
  have ex: "\<not> expendable w1 p" using assms(2) fw by (simp add: expendable_def held_open_def lookup_file_def)
  show ?thesis
  proof (cases "need \<le> fr \<or> r2 < 0 \<or> length names = 0")
    case True
    then have "w' = w1 \<or> w' = w2" using assms(1) f e by (auto simp: MakeFreeSpaceOnCache_def split: if_splits)
    with l show ?thesis by auto
  next
    case False
    obtain fr3 w3 where d: "delete_until need names fr w2 = (fr3, w3)" by (cases "delete_until need names fr w2")
    with False assms(1) f e have "w' = w3" by (auto simp: MakeFreeSpaceOnCache_def split: if_splits)
    moreover have "Some p \<notin> set names" using ew ex False by auto
    ultimately show ?thesis using delete_until_frame [OF d] l by simp
  qed
qed


definition sample_cache :: "unit world" where
  "sample_cache = \<lparr>files = [(CACHE_TEMP_SOURCE, \<lparr>f_data = [1], f_mode = 0, f_uid = 0, f_gid = 0, f_reg = True\<rparr>),
      (''/cache/x'', \<lparr>f_data = [2], f_mode = 0, f_uid = 0, f_gid = 0, f_reg = True\<rparr>)],
     procs = [], answers = [1, 0, 0, 0, 0, 0, 11],
     mtd_partitions_scanned = False, flash = ()\<rparr>"


text \<open>\<open>MakeFreeSpaceOnCache\<close> returns zero exactly when the last free space it was told is
  enough. An error of \<open>statfs\<close> is taken for the largest \<open>size_t\<close>, so it counts as enough.\<close>

theorem FreeSpaceForFile_error_is_enough:
  assumes "answers w = 0 # as" "need < 2 ^ 64"
  shows "FreeSpaceForFile ''/cache'' w = (SIZE_MAX, w\<lparr>answers := as\<rparr>)
    \<and> MakeFreeSpaceOnCache need w = (0, w\<lparr>answers := as\<rparr>) \<and> CacheSizeCheck need w = (0, w\<lparr>answers := as\<rparr>)"
proof -
  have "need \<le> SIZE_MAX" using assms(2) by (simp add: SIZE_MAX_def)
  then show ?thesis
    using assms(1) by (simp add: CacheSizeCheck_def MakeFreeSpaceOnCache_def FreeSpaceForFile_def answer_def)
qed

theorem FreeSpaceForFile_error_is_enough_witness:
  "MakeFreeSpaceOnCache (2 ^ 40) (sample_cache\<lparr>answers := [0]\<rparr>) = (0, sample_cache\<lparr>answers := []\<rparr>)"
  using FreeSpaceForFile_error_is_enough [of "sample_cache\<lparr>answers := [0]\<rparr>" "[]" "2 ^ 40"] by simp

end
