(* ===== verification/FileContents.thy ===== *)
theory FileContents
  imports FreeCache Retouch ImgPatch CLib
begin

text \<open>
  Reading and writing files and partitions: the first half of \<open>applypatch/applypatch.c\<close>. The
  digest library and the MTD driver (\<open>mtdutils\<close>) are parameters, records of the functions the
  source calls; an EMMC partition is a device file of the world. Outer \<^term>\<open>None\<close> results are
  undefined behaviour or loops that do not end.
\<close>

unbundle bit_operations_syntax

section \<open>Libraries\<close>

text \<open>Opening a partition finds it by name and creates the context; closing yields the flash state.\<close>

record ('f, 'r, 'm) mtdlib =
  mtd_scan_partitions :: "'f \<Rightarrow> 'f"
  mtd_read_partition :: "string \<Rightarrow> 'f \<Rightarrow> 'r option"
  mtd_read_data :: "'r \<Rightarrow> nat \<Rightarrow> buffer \<times> 'r"
  mtd_write_partition :: "string \<Rightarrow> 'f \<Rightarrow> 'm option"
  mtd_write_data :: "'m \<Rightarrow> buffer \<Rightarrow> nat \<times> 'm"
  mtd_erase_blocks :: "'m \<Rightarrow> int \<times> 'm"
  mtd_write_close :: "'m \<Rightarrow> 'f \<Rightarrow> int \<times> 'f"

definition scan_once :: "('f, 'r, 'm) mtdlib \<Rightarrow> 'f world \<Rightarrow> 'f world" where
  "scan_once mtd w =
     (if mtd_partitions_scanned w then w
      else w\<lparr>flash := mtd_scan_partitions mtd (flash w), mtd_partitions_scanned := True\<rparr>)"

section \<open>Digests\<close>

definition hex_digit :: "char \<Rightarrow> nat option" where
  "hex_digit c =
     (let n = of_char c :: nat in
      if 48 \<le> n \<and> n \<le> 57 then Some (n - 48)
      else if 97 \<le> n \<and> n \<le> 102 then Some (n - 97 + 10)
      else if 65 \<le> n \<and> n \<le> 70 then Some (n - 65 + 10)
      else None)"

fun parse_digits :: "nat \<Rightarrow> string \<Rightarrow> (buffer \<times> string) option" where
  "parse_digits 0 ps = Some ([], ps)"
| "parse_digits (Suc n) (p # q # ps) = do {
     hi \<leftarrow> hex_digit p;
     lo \<leftarrow> hex_digit q;
     (pd, rest) \<leftarrow> parse_digits n ps;
     Some ((push_bit 4 (of_nat hi) OR of_nat lo) # pd, rest) }"
| "parse_digits (Suc n) _ = None"

text \<open>The digest, where the source returns zero.\<close>

definition ParseSha1 :: "string \<Rightarrow> buffer option" where
  "ParseSha1 str =
     (case parse_digits SHA_DIGEST_SIZE str of
        None \<Rightarrow> None
      | Some (digest, rest) \<Rightarrow> if rest \<noteq> [] then None else Some digest)"

fun find_patch :: "nat \<Rightarrow> buffer \<Rightarrow> string list \<Rightarrow> int" where
  "find_patch i sha1 [] = -1"
| "find_patch i sha1 (str # strs) =
     (if ParseSha1 str = Some sha1 then int i else find_patch (i + 1) sha1 strs)"

definition FindMatchingPatch :: "buffer \<Rightarrow> string list \<Rightarrow> int" where
  "FindMatchingPatch sha1 patch_sha1_str = find_patch 0 sha1 patch_sha1_str"

section \<open>Loading\<close>

record FileContents =
  fc_sha1 :: buffer
  fc_data :: "buffer option"
  fc_size :: nat
  fc_mode :: int
  fc_uid :: int
  fc_gid :: int

text \<open>\<open>strtok\<close> with the separator \<open>:\<close> returns the nonempty fields one after another.\<close>

fun split_colon :: "string \<Rightarrow> string list" where
  "split_colon [] = [[]]"
| "split_colon (c # cs) =
     (if c = CHR '':'' then [] # split_colon cs
      else case split_colon cs of [] \<Rightarrow> [[c]] | t # ts \<Rightarrow> (c # t) # ts)"

definition tokens :: "string \<Rightarrow> string list" where
  "tokens s = filter (\<lambda>t. t \<noteq> []) (split_colon s)"

definition compare_size_indices :: "nat list \<Rightarrow> nat \<Rightarrow> nat \<Rightarrow> int" where
  "compare_size_indices size_array aa bb =
     (if size_array ! aa < size_array ! bb then -1
      else if size_array ! bb < size_array ! aa then 1 else 0)"

text \<open>
  The pairs of sizes and digests; \<^term>\<open>Some None\<close> is the return for a size of zero. A missing
  size is a null pointer passed to \<open>strtol\<close>; a missing digest is stored as null.
\<close>

fun read_pairs :: "nat \<Rightarrow> string list \<Rightarrow> (nat \<times> string option) list option option" where
  "read_pairs 0 ts = Some (Some [])"
| "read_pairs (Suc n) [] = None"
| "read_pairs (Suc n) (size_str # ts) =
     (let size = nat (fst (strtol10 size_str) mod 2 ^ 64) in
      if size = 0 then Some None
      else case ts of
        [] \<Rightarrow> map_option (map_option ((#) (size, None))) (read_pairs n [])
      | t # ts1 \<Rightarrow> map_option (map_option ((#) (size, Some t))) (read_pairs n ts1))"

datatype PartitionType = MTD | EMMC

text \<open>An open partition: the MTD context, or the device and the read position.\<close>

datatype 'r reader = MtdReader 'r | DevReader string nat

definition open_partition ::
  "('f, 'r, 'm) mtdlib \<Rightarrow> PartitionType \<Rightarrow> string \<Rightarrow> 'f world \<Rightarrow> 'r reader option \<times> 'f world" where
  "open_partition mtd type part w =
     (case type of
        MTD \<Rightarrow> (let w1 = scan_once mtd w in
                (map_option MtdReader (mtd_read_partition mtd part (flash w1)), w1))
      | EMMC \<Rightarrow> (case sys_ok w of (ok, w1) \<Rightarrow>
                 (if ok \<and> lookup_file w1 part \<noteq> None then Some (DevReader part 0) else None, w1)))"

definition read_partition ::
  "('f, 'r, 'm) mtdlib \<Rightarrow> 'r reader \<Rightarrow> nat \<Rightarrow> 'f world \<Rightarrow> buffer \<times> 'r reader \<times> 'f world" where
  "read_partition mtd rd n w =
     (case rd of
        MtdReader r \<Rightarrow> (case mtd_read_data mtd r n of (bs, r1) \<Rightarrow> (bs, MtdReader r1, w))
      | DevReader dev pos \<Rightarrow>
          (case sys_amount n w of (m, w1) \<Rightarrow>
             case lookup_file w1 dev of
               None \<Rightarrow> ([], rd, w1)
             | Some f \<Rightarrow> (let bs = take m (drop pos (f_data f)) in (bs, DevReader dev (pos + length bs), w1))))"

text \<open>
  The loop over the pairs in the order of \<open>index\<close>, with the bytes read so far (\<open>file->size\<close> of
  them): the matching digest, or \<^term>\<open>None\<close> where the source returns \<open>-1\<close>, and these bytes.
\<close>

fun load_pairs ::
  "'c shalib \<Rightarrow> ('f, 'r, 'm) mtdlib \<Rightarrow> (nat \<times> string option) list \<Rightarrow> nat list \<Rightarrow> buffer \<Rightarrow> 'c \<Rightarrow> 'r reader
     \<Rightarrow> 'f world \<Rightarrow> ((buffer option \<times> buffer) \<times> 'f world) option" where
  "load_pairs sha mtd pairs [] sofar ctx rd w = Some ((None, sofar), w)"
| "load_pairs sha mtd pairs (i # index) sofar ctx rd w =
     (let next = fst (pairs ! i) - length sofar;
          (bs, rd1, w1) = (if 0 < next then read_partition mtd rd next w else ([], rd, w)) in
      if length bs \<noteq> next then Some ((None, sofar), w1)
      else
        let ctx1 = (if 0 < next then SHA_update sha ctx bs else ctx);
            sofar1 = sofar @ bs in
        case snd (pairs ! i) of
          None \<Rightarrow> None
        | Some str \<Rightarrow>
            (case ParseSha1 str of
               None \<Rightarrow> Some ((None, sofar1), w1)
             | Some parsed_sha \<Rightarrow>
                 if SHA_final sha ctx1 = parsed_sha then Some ((Some (SHA_final sha ctx1), sofar1), w1)
                 else load_pairs sha mtd pairs index sofar1 ctx1 rd1 w1))"

text \<open>
  \<open>LoadPartitionContents\<close>. A wrong number of colons is only logged; without any pair the source
  then reads \<open>index[-1]\<close>.
\<close>

definition LoadPartitionContents ::
  "'c shalib \<Rightarrow> ('f, 'r, 'm) mtdlib \<Rightarrow> string \<Rightarrow> FileContents \<Rightarrow> 'f world
     \<Rightarrow> ((int \<times> FileContents) \<times> 'f world) option" where
  "LoadPartitionContents sha mtd filename file w =
     (case tokens filename of
        [] \<Rightarrow> None
      | magic # ts \<Rightarrow>
          if magic \<noteq> ''MTD'' \<and> magic \<noteq> ''EMMC'' then Some ((-1, file), w)
          else
            let type = (if magic = ''MTD'' then MTD else EMMC);
                colons = length (filter (\<lambda>c. c = CHR '':'') filename);
                pairs = (colons - 1) div 2 in
            case read_pairs pairs (drop 1 ts) of
              None \<Rightarrow> None
            | Some None \<Rightarrow> Some ((-1, file), w)
            | Some (Some ps) \<Rightarrow>
                let index = c_qsort (compare_size_indices (map fst ps)) [0..<length ps] in
                case ts of
                  [] \<Rightarrow> None
                | part # _ \<Rightarrow>
                    (case open_partition mtd type part w of
                       (None, w1) \<Rightarrow> Some ((-1, file), w1)
                     | (Some rd, w1) \<Rightarrow>
                         if ps = [] then None
                         else case load_pairs sha mtd ps index [] (SHA_init sha) rd w1 of
                           None \<Rightarrow> None
                         | Some ((None, dat), w2) \<Rightarrow> Some ((-1, file\<lparr>fc_data := None, fc_size := length dat\<rparr>), w2)
                         | Some ((Some digest, dat), w2) \<Rightarrow>
                             Some ((0, file\<lparr>fc_data := Some dat, fc_size := length dat, fc_sha1 := digest,
                                       fc_mode := 0x1a4, fc_uid := 0, fc_gid := 0\<rparr>), w2)))"

definition ENOENT :: int where "ENOENT = 2"

definition is_partition :: "string \<Rightarrow> bool" where
  "is_partition filename \<longleftrightarrow> strncmp filename ''MTD:'' 4 = 0 \<or> strncmp filename ''EMMC:'' 5 = 0"

definition LoadFileContents ::
  "'c shalib \<Rightarrow> ('f, 'r, 'm) mtdlib \<Rightarrow> string \<Rightarrow> FileContents \<Rightarrow> bool \<Rightarrow> 'f world
     \<Rightarrow> ((int \<times> FileContents) \<times> 'f world) option" where
  "LoadFileContents sha mtd filename file retouch_flag w =
     (let file = file\<lparr>fc_data := None\<rparr> in
      if is_partition filename then LoadPartitionContents sha mtd filename file w
      else case lookup_file w filename of
        None \<Rightarrow> Some ((- ENOENT, file), w)
      | Some f \<Rightarrow>
          (case sys_ok w of (ok, w1) \<Rightarrow>
             if \<not> ok then Some ((-1, file), w1)
             else
               let file = file\<lparr>fc_size := length (f_data f), fc_mode := f_mode f, fc_uid := f_uid f, fc_gid := f_gid f\<rparr> in
               case sys_ok w1 of (ok, w2) \<Rightarrow>
                 if \<not> ok then Some ((-1, file), w2)
                 else case sys_amount (fc_size file) w2 of (bytes_read, w3) \<Rightarrow>
                   if bytes_read \<noteq> fc_size file then Some ((-1, file), w3)
                   else if retouch_flag then
                     (case retouch_mask_data (f_data f) (to_int32 (int (fc_size file))) (Some 0) of
                        None \<Rightarrow> None
                      | Some (code, masked, _) \<Rightarrow>
                          if code \<noteq> RETOUCH_DATA_MATCHED then Some ((-1, file), w3)
                          else Some ((0, file\<lparr>fc_data := Some masked, fc_sha1 := SHA_hash sha masked\<rparr>), w3))
                   else Some ((0, file\<lparr>fc_data := Some (f_data f), fc_sha1 := SHA_hash sha (f_data f)\<rparr>), w3)))"

section \<open>Sinks\<close>

text \<open>\<open>FileSink\<close> writes to the file open under \<open>path\<close>.\<close>

function file_sink :: "string \<Rightarrow> buffer \<Rightarrow> nat \<Rightarrow> 'f world \<Rightarrow> nat \<times> 'f world" where
  "file_sink path dat done w =
     (if done < length dat then
        (case append_file path (drop done dat) w of (wrote, w1) \<Rightarrow>
           if wrote = 0 then (done, w1) else file_sink path dat (done + wrote) w1)
      else (done, w))"
  by pat_completeness auto
termination by (relation "measure (\<lambda>(path, dat, done, w). length dat - done)") auto

declare file_sink.simps [simp del]

definition FileSink :: "string \<Rightarrow> buffer \<Rightarrow> 'f world \<Rightarrow> int \<times> 'f world" where
  "FileSink path dat w = (case file_sink path dat 0 w of (done, w1) \<Rightarrow> (int done, w1))"

text \<open>The buffer of \<open>MemorySinkInfo\<close> up to \<open>pos\<close>, and its size.\<close>

record MemorySinkInfo =
  msi_buffer :: buffer
  msi_size :: int

abbreviation msi_pos :: "MemorySinkInfo \<Rightarrow> int" where
  "msi_pos msi \<equiv> int (length (msi_buffer msi))"

definition MemorySink :: "buffer \<Rightarrow> MemorySinkInfo \<Rightarrow> int \<times> MemorySinkInfo" where
  "MemorySink dat msi =
     (if msi_size msi - msi_pos msi < int (length dat) then (-1, msi)
      else (int (length dat), msi\<lparr>msi_buffer := msi_buffer msi @ dat\<rparr>))"

section \<open>Saving\<close>

text \<open>Writing from a null pointer fails at once.\<close>

definition SaveFileContents :: "string \<Rightarrow> FileContents \<Rightarrow> 'f world \<Rightarrow> int \<times> 'f world" where
  "SaveFileContents filename file w =
     (case open_trunc filename w of (ok, w1) \<Rightarrow>
        if \<not> ok then (-1, w1)
        else case (case fc_data file of None \<Rightarrow> (0, w1) | Some dat \<Rightarrow> FileSink filename dat w1) of (bytes_written, w2) \<Rightarrow>
          if bytes_written \<noteq> int (fc_size file) then (-1, w2)
          else case chmod filename (fc_mode file) w2 of (ok, w3) \<Rightarrow>
            if \<not> ok then (-1, w3)
            else case chown filename (fc_uid file) (fc_gid file) w3 of (ok, w4) \<Rightarrow>
              (if ok then 0 else -1, w4))"

section \<open>Writing a partition\<close>

text \<open>
  A \<open>write\<close> or \<open>read\<close> of \<open>n\<close> bytes on a device: the answer 1 is an error, 2 an interruption, and
  \<open>a + 2\<close> moves at most \<open>a\<close> bytes.
\<close>

definition dev_amount :: "nat \<Rightarrow> 'f world \<Rightarrow> nat option \<times> 'f world" where
  "dev_amount n w =
     (case answer w of (a, w1) \<Rightarrow>
        (if a = 0 then Some n else if a = 1 then None else Some (min (a - 2) n), w1))"

definition overwrite :: "buffer \<Rightarrow> nat \<Rightarrow> buffer \<Rightarrow> buffer" where
  "overwrite dat pos bs = take pos dat @ bs @ drop (pos + length bs) dat"

lemma dev_amount_answers:
  "dev_amount n w = (Some m, w1) \<Longrightarrow> m \<le> n \<and> (m = n \<or> length (answers w1) < length (answers w))
     \<and> length (answers w1) \<le> length (answers w) \<and> files w1 = files w"
  by (auto simp: dev_amount_def answer_def split: list.splits if_splits)

text \<open>The loop that writes from \<open>start\<close> on, in pieces of at most 1 MiB; false is the return on an error.\<close>

function write_from :: "string \<Rightarrow> buffer \<Rightarrow> nat \<Rightarrow> 'f world \<Rightarrow> bool \<times> 'f world" where
  "write_from dev dat start w =
     (if start < length dat then
        (let to_write = min (length dat - start) (2 ^ 20) in
         case dev_amount to_write w of
           (None, w1) \<Rightarrow> (False, w1)
         | (Some written, w1) \<Rightarrow>
             (case lookup_file w1 dev of
                None \<Rightarrow> (False, w1)
              | Some f \<Rightarrow>
                  write_from dev dat (start + written)
                    (store_file w1 dev (f\<lparr>f_data := overwrite (f_data f) start (take written (drop start dat))\<rparr>))))
      else (True, w))"
  by pat_completeness auto
termination
  by (relation "measure (\<lambda>(dev, dat, start, w). length dat - start + length (answers w))")
    (auto simp: store_file_def dest!: dev_amount_answers [OF sym])

declare write_from.simps [simp del]

text \<open>
  \<open>fsync\<close> and dropping the caches: what the medium then holds is what was written, or, with the
  answer \<open>i + 1\<close>, has a wrong byte at \<open>i\<close>.
\<close>

definition settle :: "string \<Rightarrow> 'f world \<Rightarrow> 'f world" where
  "settle dev w =
     (case answer w of (a, w1) \<Rightarrow>
        if a = 0 then w1
        else case lookup_file w1 dev of
          None \<Rightarrow> w1
        | Some f \<Rightarrow> store_file w1 dev (f\<lparr>f_data := (f_data f)[a - 1 := NOT (f_data f ! (a - 1))]\<rparr>))"

text \<open>
  The inner loop that reads \<open>n\<close> bytes at \<open>pos\<close> for the verification; the end of the device makes
  it spin.
\<close>

function read_exact :: "string \<Rightarrow> nat \<Rightarrow> nat \<Rightarrow> 'f world \<Rightarrow> (buffer option \<times> 'f world) option" where
  "read_exact dev pos n w =
     (if n = 0 then Some (Some [], w)
      else case dev_amount n w of
        (None, w1) \<Rightarrow> Some (None, w1)
      | (Some m, w1) \<Rightarrow>
          (case lookup_file w1 dev of
             None \<Rightarrow> Some (None, w1)
           | Some f \<Rightarrow>
               let bs = take m (drop pos (f_data f)) in
               if length bs < m then None
               else map_option (\<lambda>(r, w2). (map_option ((@) bs) r, w2)) (read_exact dev (pos + m) (n - m) w1)))"
  by pat_completeness auto
termination
  by (relation "measure (\<lambda>(dev, pos, n, w). n + length (answers w))")
    (auto dest!: dev_amount_answers [OF sym])

declare read_exact.simps [simp del]

text \<open>The verification loop: where it failed, or the length of the data; \<^term>\<open>None\<close> inside is an error.\<close>

function verify_from :: "string \<Rightarrow> buffer \<Rightarrow> nat \<Rightarrow> 'f world \<Rightarrow> (nat option \<times> 'f world) option" where
  "verify_from dev dat p w =
     (if p < length dat then
        (let to_read = min (length dat - p) 4096 in
         case read_exact dev p to_read w of
           None \<Rightarrow> None
         | Some (None, w1) \<Rightarrow> Some (None, w1)
         | Some (Some buf, w1) \<Rightarrow>
             if buf \<noteq> take to_read (drop p dat) then Some (Some p, w1)
             else verify_from dev dat (p + 4096) w1)
      else Some (Some (length dat), w))"
  by pat_completeness auto
termination by (relation "measure (\<lambda>(dev, dat, p, w). length dat - p)") auto

declare verify_from.simps [simp del]

text \<open>The attempts: true when the verification succeeded, false on a return of \<open>-1\<close> or after the last.\<close>

fun emmc_attempts :: "nat \<Rightarrow> string \<Rightarrow> buffer \<Rightarrow> nat \<Rightarrow> 'f world \<Rightarrow> (bool \<times> 'f world) option" where
  "emmc_attempts 0 dev dat start w = Some (False, w)"
| "emmc_attempts (Suc n) dev dat start w =
     (case write_from dev dat start w of (ok, w1) \<Rightarrow>
        if \<not> ok then Some (False, w1)
        else case verify_from dev dat 0 (settle dev w1) of
          None \<Rightarrow> None
        | Some (None, w2) \<Rightarrow> Some (False, w2)
        | Some (Some start1, w2) \<Rightarrow>
            if start1 = length dat then Some (True, w2) else emmc_attempts n dev dat start1 w2)"

definition write_mtd :: "('f, 'r, 'm) mtdlib \<Rightarrow> buffer \<Rightarrow> string \<Rightarrow> 'f world \<Rightarrow> int \<times> 'f world" where
  "write_mtd mtd dat part w =
     (let w1 = scan_once mtd w in
      case mtd_write_partition mtd part (flash w1) of
        None \<Rightarrow> (-1, w1)
      | Some ctx \<Rightarrow>
          (case mtd_write_data mtd ctx dat of (written, ctx1) \<Rightarrow>
             if written \<noteq> length dat
             then (-1, w1\<lparr>flash := snd (mtd_write_close mtd ctx1 (flash w1))\<rparr>)
             else case mtd_erase_blocks mtd ctx1 of (r, ctx2) \<Rightarrow>
               if r < 0 then (-1, w1\<lparr>flash := snd (mtd_write_close mtd ctx2 (flash w1))\<rparr>)
               else case mtd_write_close mtd ctx2 (flash w1) of (c, fl) \<Rightarrow>
                 (if c \<noteq> 0 then -1 else 0, w1\<lparr>flash := fl\<rparr>)))"

definition write_emmc :: "buffer \<Rightarrow> string \<Rightarrow> 'f world \<Rightarrow> (int \<times> 'f world) option" where
  "write_emmc dat part w =
     (case sys_ok w of (ok, w1) \<Rightarrow>
        if \<not> ok \<or> lookup_file w1 part = None then Some (-1, w1)
        else case emmc_attempts 2 part dat 0 w1 of
          None \<Rightarrow> None
        | Some (success, w2) \<Rightarrow>
            if \<not> success then Some (-1, w2)
            else case sys_ok w2 of (ok, w3) \<Rightarrow> Some (if ok then 0 else -1, w3))"

definition WriteToPartition ::
  "('f, 'r, 'm) mtdlib \<Rightarrow> buffer \<Rightarrow> string \<Rightarrow> 'f world \<Rightarrow> (int \<times> 'f world) option" where
  "WriteToPartition mtd dat target w =
     (case tokens target of
        [] \<Rightarrow> None
      | magic # ts \<Rightarrow>
          if magic \<noteq> ''MTD'' \<and> magic \<noteq> ''EMMC'' then Some (-1, w)
          else case ts of
            [] \<Rightarrow> Some (-1, w)
          | part # _ \<Rightarrow> if magic = ''MTD'' then Some (write_mtd mtd dat part w) else write_emmc dat part w)"

section \<open>Flash partitions\<close>

text \<open>What \<open>applypatch\<close> relies on: after calls that all report success the partition holds the data.\<close>

locale mtd_layer =
  fixes mtd :: "('f, 'r, 'm) mtdlib" and holds :: "'f \<Rightarrow> string \<Rightarrow> buffer \<Rightarrow> bool"
  assumes stored: "mtd_write_partition mtd part fl = Some ctx \<Longrightarrow> mtd_write_data mtd ctx dat = (length dat, ctx1)
    \<Longrightarrow> mtd_erase_blocks mtd ctx1 = (r, ctx2) \<Longrightarrow> 0 \<le> r \<Longrightarrow> mtd_write_close mtd ctx2 fl = (0, fl') \<Longrightarrow> holds fl' part dat"
begin

lemma write_mtd_holds: "write_mtd mtd dat part w = (0, w') \<Longrightarrow> holds (flash w') part dat"
  by (auto simp: write_mtd_def Let_def split: option.splits prod.splits if_splits intro: stored)

lemma written_holds: "WriteToPartition mtd dat target w = Some (0, w') \<Longrightarrow> tokens target = ''MTD'' # part # rest \<Longrightarrow> holds (flash w') part dat"
  by (simp add: WriteToPartition_def write_mtd_holds)

end

section \<open>Verified writes\<close>

lemma read_exact_ok:
  "read_exact dev pos n w = Some (Some bs, w1) \<Longrightarrow> files w1 = files w
    \<and> length bs = n \<and> (0 < n \<longrightarrow> (\<exists>f. lookup_file w dev = Some f \<and> bs = take n (drop pos (f_data f))))"
proof (induction "n + length (answers w)" arbitrary: pos n w bs rule: less_induct)
  case less
  show ?case
  proof (cases "n = 0")
    case True
    then show ?thesis using less.prems by (simp add: read_exact.simps)
  next
    case False
    obtain a w2 where da: "dev_amount n w = (a, w2)" by (cases "dev_amount n w")
    with False less.prems obtain m f where d: "a = Some m" "lookup_file w2 dev = Some f"
      "\<not> length (take m (drop pos (f_data f))) < m"
      by (subst (asm) read_exact.simps) (auto simp: Let_def split: option.splits if_splits)
    obtain r where r: "read_exact dev (pos + m) (n - m) w2 = Some (Some r, w1)"
      "bs = take m (drop pos (f_data f)) @ r"
      using False less.prems da d
      by (subst (asm) read_exact.simps) (auto simp: Let_def split: option.splits if_splits)
    have am0: "m \<le> n" "m = n \<or> length (answers w2) < length (answers w)" "length (answers w2) \<le> length (answers w)"
      using dev_amount_answers [of n w m w2] da d(1) by auto
    then have "n - m + length (answers w2) < n + length (answers w)" using False by linarith
    from less.hyps [OF this r(1)] have IH: "files w1 = files w2 \<and> length r = n - m
        \<and> (0 < n - m \<longrightarrow> (\<exists>f. lookup_file w2 dev = Some f \<and> r = take (n - m) (drop (pos + m) (f_data f))))" .
    have am: "m \<le> n" "files w2 = files w" using dev_amount_answers [of n w m w2] da d(1) by auto
    then have f: "lookup_file w dev = Some f" using d(2) by (simp add: lookup_file_def)
    have "bs = take n (drop pos (f_data f))"
    proof (cases "m = n")
      case True
      then show ?thesis using r(2) IH by simp
    next
      case False
      then have "r = take (n - m) (drop (pos + m) (f_data f))" using IH am d(2) by auto
      then show ?thesis using r(2) am(1) take_add [of m "n - m" "drop pos (f_data f)"] by (simp add: add.commute)
    qed
    moreover have "length bs = n" using IH am(1) d(3) r(2) by (simp add: not_less)
    ultimately show ?thesis using IH am f by auto
  qed
qed

lemma verify_from_ok:
  "verify_from dev dat p w = Some (Some (length dat), w1) \<Longrightarrow> files w1 = files w
    \<and> (p < length dat \<longrightarrow> (\<exists>f. lookup_file w dev = Some f \<and> drop p dat = take (length dat - p) (drop p (f_data f))))"
proof (induction dev dat p w rule: verify_from.induct)
  case (1 dev dat p w)
  let ?n = "min (length dat - p) 4096"
  show ?case
  proof (cases "p < length dat")
    case False
    then show ?thesis using "1.prems" by (simp add: verify_from.simps)
  next
    case True
    with "1.prems" obtain w2 where rd: "read_exact dev p ?n w = Some (Some (take ?n (drop p dat)), w2)"
      and vf: "verify_from dev dat (p + 4096) w2 = Some (Some (length dat), w1)"
      by (subst (asm) verify_from.simps) (auto simp: Let_def split: option.splits if_splits)
    note r = read_exact_ok [OF rd]
    have IH: "files w1 = files w2 \<and> (p + 4096 < length dat \<longrightarrow>
        (\<exists>f. lookup_file w2 dev = Some f \<and> drop (p + 4096) dat = take (length dat - (p + 4096)) (drop (p + 4096) (f_data f))))"
      using "1.IH" [OF True refl rd] vf by simp
    obtain f where f: "lookup_file w dev = Some f" "take ?n (drop p dat) = take ?n (drop p (f_data f))"
      using r True by auto
    have l2: "lookup_file w2 dev = Some f" using r f(1) by (simp add: lookup_file_def)
    have "drop p dat = take (length dat - p) (drop p (f_data f))"
    proof (cases "p + 4096 < length dat")
      case True
      then have n: "?n = 4096" by simp
      have "drop p dat = take 4096 (drop p dat) @ drop (p + 4096) dat" using append_take_drop_id [of 4096 "drop p dat"] by (simp add: add.commute)
      also have "\<dots> = take 4096 (drop p (f_data f)) @ take (length dat - (p + 4096)) (drop 4096 (drop p (f_data f)))"
        using f(2) IH l2 True n by (simp add: add.commute)
      also have "\<dots> = take (4096 + (length dat - (p + 4096))) (drop p (f_data f))" by (simp only: take_add)
      also have "4096 + (length dat - (p + 4096)) = length dat - p" using True by simp
      finally show ?thesis .
    qed (use f(2) in auto)
    then show ?thesis using r IH f(1) by auto
  qed
qed

lemma emmc_attempts_ok:
  assumes "emmc_attempts n dev dat start w = Some (True, w')" "dat \<noteq> []"
  shows "\<exists>f. lookup_file w' dev = Some f \<and> take (length dat) (f_data f) = dat"
  using assms(1)
proof (induction n arbitrary: start w)
  case (Suc n)
  from Suc.prems obtain w1 start1 w2 where v: "verify_from dev dat 0 (settle dev w1) = Some (Some start1, w2)"
    and r: "if start1 = length dat then w' = w2 else emmc_attempts n dev dat start1 w2 = Some (True, w')"
    by (auto split: prod.splits option.splits if_splits)
  show ?case
  proof (cases "start1 = length dat")
    case True
    with verify_from_ok [of dev dat 0 "settle dev w1" w2] v r assms(2) show ?thesis by (auto simp: lookup_file_def)
  next
    case False
    with r Suc.IH show ?thesis by auto
  qed
qed simp

lemma write_verified:
  assumes "WriteToPartition mtd dat target w = Some (0, w')" "tokens target = ''EMMC'' # part # rest" "dat \<noteq> []"
  shows "\<exists>f. lookup_file w' part = Some f \<and> take (length dat) (f_data f) = dat"
proof -
  from assms(1,2) have "write_emmc dat part w = Some (0, w')" by (simp add: WriteToPartition_def)
  then obtain w1 w2 where a: "emmc_attempts 2 part dat 0 w1 = Some (True, w2)" "sys_ok w2 = (True, w')"
    by (auto simp: write_emmc_def split: prod.splits option.splits if_splits)
  from emmc_attempts_ok [OF a(1) assms(3)] sys_ok_lookup [OF a(2)] show ?thesis by simp
qed

text \<open>C21: when \<open>WriteToPartition\<close> returns zero for an EMMC target, the device really holds the data at
  its start, whatever short writes, interruptions, errors or corrupted bytes occurred on the way.\<close>

theorem WriteToPartition_verified:
  assumes "WriteToPartition mtd dat target w = Some (0, w')" "tokens target = ''EMMC'' # part # rest" "dat \<noteq> []"
  shows "\<exists>f. lookup_file w' part = Some f \<and> take (length dat) (f_data f) = dat"
  using assms by (rule write_verified)

definition sample_mtd :: "(unit, unit, unit) mtdlib" where
  "sample_mtd = \<lparr>mtd_scan_partitions = id, mtd_read_partition = \<lambda>_ _. None, mtd_read_data = \<lambda>_ _. ([], ()),
     mtd_write_partition = \<lambda>_ _. None, mtd_write_data = \<lambda>_ _. (0, ()), mtd_erase_blocks = \<lambda>_. (0, ()),
     mtd_write_close = \<lambda>_ _. (0, ())\<rparr>"

definition sample_device :: "unit world" where
  "sample_device = \<lparr>files = [(''/dev/b'', \<lparr>f_data = [0, 0, 0, 0], f_mode = 0, f_uid = 0, f_gid = 0, f_reg = False\<rparr>)],
     procs = [], answers = [0, 3, 0, 2], mtd_partitions_scanned = False, flash = ()\<rparr>"

theorem WriteToPartition_verified_witness:
  "\<exists>w' f. WriteToPartition sample_mtd [7, 8] ''EMMC:/dev/b'' sample_device = Some (0, w')
    \<and> lookup_file w' ''/dev/b'' = Some f \<and> take 2 (f_data f) = [7, 8]"
proof -
  have two: "emmc_attempts 2 dev dat st w = emmc_attempts (Suc (Suc 0)) dev dat st w" for dev dat st and w :: "unit world"
    by (simp only: numeral_2_eq_2)
  have t: "tokens ''EMMC:/dev/b'' = [''EMMC'', ''/dev/b'']" by code_simp
  have "map_option fst (WriteToPartition sample_mtd [7, 8] ''EMMC:/dev/b'' sample_device) = Some 0"
    by (simp add: WriteToPartition_def t write_emmc_def two sample_device_def write_from.simps
        verify_from.simps read_exact.simps settle_def dev_amount_def sys_ok_def answer_def lookup_file_def
        store_file_def overwrite_def Let_def)
  then obtain w' where w': "WriteToPartition sample_mtd [7, 8] ''EMMC:/dev/b'' sample_device = Some (0, w')" by auto
  from WriteToPartition_verified [OF w' t] w' show ?thesis by (auto simp: numeral_2_eq_2)
qed

section \<open>Contracts of the sinks\<close>

interpretation memory_sink: atomic_sink MemorySink msi_buffer
proof
  fix d k n k'
  assume "MemorySink d k = (n, k')"
  then show "\<exists>m \<le> length d. msi_buffer k' = msi_buffer k @ take m d \<and> (n = int m \<or> n < 0 \<and> m = 0)"
    by (auto simp: MemorySink_def split: if_splits)
next
  fix d k n k'
  assume "MemorySink d k = (n, k')"
  then show "n = int (length d) \<or> n < int (length d) \<and> msi_buffer k' = msi_buffer k"
    by (auto simp: MemorySink_def split: if_splits)
qed

definition file_bytes :: "string \<Rightarrow> 'f world \<Rightarrow> buffer" where
  "file_bytes path w = (case lookup_file w path of None \<Rightarrow> [] | Some f \<Rightarrow> f_data f)"

lemma append_file_bytes:
  assumes "append_file path bs w = (n, w')"
  shows "n \<le> length bs \<and> file_bytes path w' = file_bytes path w @ take n bs
    \<and> (\<forall>q. q \<noteq> path \<longrightarrow> lookup_file w' q = lookup_file w q)
    \<and> (lookup_file w path \<noteq> None \<longrightarrow> lookup_file w' path \<noteq> None)"
proof -
  obtain m w1 where a: "sys_amount (length bs) w = (m, w1)" by (cases "sys_amount (length bs) w")
  note f = sys_amount_files [OF a]
  have l: "lookup_file w1 = lookup_file w" using f by (simp add: lookup_file_def fun_eq_iff)
  show ?thesis
    using assms a f l
    by (cases "lookup_file w path") (auto simp: append_file_def file_bytes_def)
qed

lemma file_sink_bytes:
  assumes "file_sink path dat done w = (n, w')" "done \<le> length dat"
  shows "done \<le> n \<and> n \<le> length dat \<and> file_bytes path w' = file_bytes path w @ take (n - done) (drop done dat)
    \<and> (\<forall>q. q \<noteq> path \<longrightarrow> lookup_file w' q = lookup_file w q)
    \<and> (lookup_file w path \<noteq> None \<longrightarrow> lookup_file w' path \<noteq> None)"
  using assms
proof (induction "length dat - done" arbitrary: "done" w rule: less_induct)
  case less
  obtain m w1 where a: "append_file path (drop done dat) w = (m, w1)" by (cases "append_file path (drop done dat) w")
  note ab = append_file_bytes [OF a]
  show ?case
  proof (cases "done < length dat \<and> m \<noteq> 0")
    case True
    then have "file_sink path dat (done + m) w1 = (n, w')" using less.prems(1) a by (simp add: file_sink.simps [of path dat "done"])
    moreover have "length dat - (done + m) < length dat - done" "done + m \<le> length dat" using True ab by auto
    ultimately have IH: "done + m \<le> n \<and> n \<le> length dat
        \<and> file_bytes path w' = file_bytes path w1 @ take (n - (done + m)) (drop (done + m) dat)
        \<and> (\<forall>q. q \<noteq> path \<longrightarrow> lookup_file w' q = lookup_file w1 q)
        \<and> (lookup_file w1 path \<noteq> None \<longrightarrow> lookup_file w' path \<noteq> None)"
      using less.hyps by blast
    have "take (n - done) (drop done dat) = take m (drop done dat) @ take (n - (done + m)) (drop (done + m) dat)"
      using IH take_add [of m "n - (done + m)" "drop done dat"] by (simp add: add.commute)
    then show ?thesis using IH ab by auto
  next
    case False
    then have "n = done" "w' = w \<or> w' = w1 \<and> m = 0"
      using less.prems(1) a by (auto simp: file_sink.simps [of path dat "done"] split: if_splits)
    then show ?thesis using less.prems(2) ab by auto
  qed
qed

interpretation file_sink: sink_contract "FileSink path" "file_bytes path" for path
proof
  fix d k n k'
  assume "FileSink path d k = (n, k')"
  then obtain m where "file_sink path d 0 k = (m, k')" "n = int m"
    by (auto simp: FileSink_def split: prod.splits)
  with file_sink_bytes [of path d 0 k m k']
  show "\<exists>m \<le> length d. file_bytes path k' = file_bytes path k @ take m d \<and> (n = int m \<or> n < 0 \<and> m = 0)"
    by auto
qed

text \<open>Writing to one file keeps it in place and leaves all the others alone.\<close>

definition only_file :: "(string \<Rightarrow> inode option) \<Rightarrow> string \<Rightarrow> 'f world \<Rightarrow> bool" where
  "only_file fs path w \<longleftrightarrow> lookup_file w path \<noteq> None \<and> (\<forall>q. q \<noteq> path \<longrightarrow> lookup_file w q = fs q)"

interpretation file_frame: sink_invariant "FileSink path" "only_file fs path" for path fs
proof
  fix d and k k' :: "'a world" and n
  assume "FileSink path d k = (n, k')" "only_file fs path k"
  then show "only_file fs path k'"
    using file_sink_bytes [of path d 0 k _ k'] by (auto simp: FileSink_def only_file_def split: prod.splits)
qed

lemma image_memory_digest:
  assumes "sha_absorbs (SHA_update sha)"
    and "ApplyImagePatch bz z malloc_ok (SHA_update sha) old patch MemorySink
           \<lparr>msi_buffer = [], msi_size = n\<rparr> (SHA_init sha) bonus = Some (0, msi, ctx)"
  shows "SHA_final sha ctx = SHA_hash sha (msi_buffer msi)"
  using memory_sink.ApplyImagePatch_tracks [OF assms] by (auto simp: tracks_def SHA_hash_def)

text \<open>For a target in memory the digest that \<open>ApplyImagePatch\<close> leaves behind when it returns zero
  is the digest of exactly the bytes it added to the buffer, also when chunks failed unnoticed.\<close>

theorem ApplyImagePatch_memory_digest:
  assumes "sha_absorbs (SHA_update sha)"
    and "ApplyImagePatch bz z malloc_ok (SHA_update sha) old patch MemorySink
           \<lparr>msi_buffer = [], msi_size = n\<rparr> (SHA_init sha) bonus = Some (0, msi, ctx)"
  shows "SHA_final sha ctx = SHA_hash sha (msi_buffer msi)"
  using assms by (rule image_memory_digest)

theorem ApplyImagePatch_memory_digest_witness:
  "\<exists>msi ctx. ApplyImagePatch stored_bz \<lparr>inflateInit2 = 0, inflate = \<lambda>b n. (0, []), deflateInit2 = \<lambda>_ _. (), deflate = \<lambda>_ _. (0, [], ())\<rparr>
      (\<lambda>_. True) (@) [] (IMGDIFF2 @ [1, 0, 0, 0, 3, 0, 0, 0, 2, 0, 0, 0, 5, 6]) MemorySink
      \<lparr>msi_buffer = [], msi_size = 10\<rparr> [] None = Some (0, msi, ctx) \<and> ctx = msi_buffer msi \<and> msi_buffer msi = [5, 6]"
proof -
  let ?sha = "\<lparr>SHA_init = [], SHA_update = (@), SHA_final = id\<rparr> :: buffer shalib"
  let ?run = "ApplyImagePatch stored_bz \<lparr>inflateInit2 = 0, inflate = \<lambda>b n. (0, []), deflateInit2 = \<lambda>_ _. (), deflate = \<lambda>_ _. (0, [], ())\<rparr>
      (\<lambda>_. True) (SHA_update ?sha) [] (IMGDIFF2 @ [1, 0, 0, 0, 3, 0, 0, 0, 2, 0, 0, 0, 5, 6]) MemorySink
      \<lparr>msi_buffer = [], msi_size = 10\<rparr> (SHA_init ?sha) None"
  have "map_option (\<lambda>(r, m, c). (r, msi_buffer m)) ?run = Some (0, [5, 6])" by code_simp
  then obtain msi ctx where r: "?run = Some (0, msi, ctx)" "msi_buffer msi = [5, 6]" by auto
  have "sha_absorbs (SHA_update ?sha)" by (simp add: sha_absorbs_def)
  from ApplyImagePatch_memory_digest [OF this r(1)] r show ?thesis by (simp add: SHA_hash_def)
qed


section \<open>Digest strings\<close>

definition hex_char :: "nat \<Rightarrow> char" where
  "hex_char n = (if n < 10 then char_of (48 + n) else char_of (87 + n))"

fun hex_string :: "buffer \<Rightarrow> string" where
  "hex_string [] = []"
| "hex_string (b # bs) = hex_char (unat (drop_bit 4 b)) # hex_char (unat (b AND 0xf)) # hex_string bs"

lemma hex_digit_char: "n < 16 \<Longrightarrow> hex_digit (hex_char n) = Some n"
  by (auto simp: hex_digit_def hex_char_def Let_def)

lemma low_nibble: "b AND 0xf = take_bit 4 (b :: byte)"
  by (simp add: take_bit_eq_mask mask_eq_exp_minus_1)

lemma nibbles: "unat (drop_bit 4 (b :: byte)) < 16" "unat (b AND 0xf) < 16"
proof -
  have "unat (drop_bit 4 b) = unat b div 16" by (simp add: drop_bit_eq_div unat_div)
  then show "unat (drop_bit 4 b) < 16" using unat_byte_less [of b] by (simp add: less_mult_imp_div_less)
  have "unat (b AND 0xf) = unat b mod 16"
    unfolding low_nibble by (subst unsigned_take_bit_eq) (simp add: take_bit_eq_mod)
  then show "unat (b AND 0xf) < 16" by simp
qed

lemma nibbles_or: "push_bit 4 (drop_bit 4 b) OR b AND 0xf = (b :: byte)"
  unfolding low_nibble by (intro bit_word_eqI) (auto simp: bit_simps)

lemma parse_hex_string: "parse_digits (length bs) (hex_string bs @ rest) = Some (bs, rest)"
  by (induction bs) (simp_all add: hex_digit_char nibbles nibbles_or)

lemma parse_digits_length:
  "parse_digits n s = Some (d, rest) \<Longrightarrow> length d = n \<and> length s = 2 * n + length rest"
  by (induction n s arbitrary: d rule: parse_digits.induct) (auto split: bind_splits)

text \<open>\<open>ParseSha1\<close> reads back the 40 lower-case digits of every 20-byte digest, accepts only strings
  of exactly 40 characters, and so rejects a digest followed by a colon and more.\<close>

theorem ParseSha1_spec:
  "(length d = SHA_DIGEST_SIZE \<longrightarrow> ParseSha1 (hex_string d) = Some d)
   \<and> (ParseSha1 s = Some e \<longrightarrow> length s = 40 \<and> length e = 20)
   \<and> (length d = SHA_DIGEST_SIZE \<longrightarrow> ParseSha1 (hex_string d @ CHR '':'' # rest) = None)"
proof (intro conjI impI)
  assume l: "length d = SHA_DIGEST_SIZE"
  then show "ParseSha1 (hex_string d) = Some d"
    using parse_hex_string [of d "[]"] by (simp add: ParseSha1_def)
  show "ParseSha1 (hex_string d @ CHR '':'' # rest) = None"
    using parse_hex_string [of d "CHR '':'' # rest"] l by (simp add: ParseSha1_def)
next
  assume "ParseSha1 s = Some e"
  then have "parse_digits SHA_DIGEST_SIZE s = Some (e, [])"
    by (auto simp: ParseSha1_def split: option.splits if_splits)
  from parse_digits_length [OF this] show "length s = 40" "length e = 20"
    by (simp_all add: SHA_DIGEST_SIZE_def)
qed

theorem ParseSha1_spec_witness:
  "ParseSha1 (hex_string (replicate 20 0xab)) = Some (replicate 20 0xab)"
  using ParseSha1_spec [of "replicate 20 0xab"] by (simp add: SHA_DIGEST_SIZE_def)

lemma find_patch_spec:
  "(find_patch i sha1 strs = -1 \<and> (\<forall>s \<in> set strs. ParseSha1 s \<noteq> Some sha1))
   \<or> (\<exists>j < length strs. find_patch i sha1 strs = int (i + j) \<and> ParseSha1 (strs ! j) = Some sha1
        \<and> (\<forall>k < j. ParseSha1 (strs ! k) \<noteq> Some sha1))"
proof (induction strs arbitrary: i)
  case (Cons s strs)
  show ?case
  proof (cases "ParseSha1 s = Some sha1")
    case True
    then show ?thesis by (intro disjI2 exI [of _ 0]) simp
  next
    case False
    from Cons.IH [of "i + 1"] show ?thesis
    proof
      assume "\<exists>j < length strs. find_patch (i + 1) sha1 strs = int (i + 1 + j) \<and> ParseSha1 (strs ! j) = Some sha1
          \<and> (\<forall>k < j. ParseSha1 (strs ! k) \<noteq> Some sha1)"
      then obtain j where "j < length strs" "find_patch (i + 1) sha1 strs = int (i + 1 + j)"
        "ParseSha1 (strs ! j) = Some sha1" "\<forall>k < j. ParseSha1 (strs ! k) \<noteq> Some sha1" by blast
      with False show ?thesis by (intro disjI2 exI [of _ "Suc j"]) (auto simp: less_Suc_eq_0_disj)
    qed (use False in auto)
  qed
qed simp

lemma FindMatchingPatch_cases:
  obtains "FindMatchingPatch sha1 strs = -1" "\<forall>s \<in> set strs. ParseSha1 s \<noteq> Some sha1"
    | j where "j < length strs" "FindMatchingPatch sha1 strs = int j" "ParseSha1 (strs ! j) = Some sha1"
  using find_patch_spec [of 0 sha1 strs] by (auto simp: FindMatchingPatch_def)

section \<open>Loading a partition\<close>

interpretation size_order: c_order "compare_size_indices sizes" for sizes
  by unfold_locales (auto simp: compare_size_indices_def split: if_splits)

lemma sha_step: "sha_absorbs (SHA_update sha) \<Longrightarrow>
    SHA_update sha (SHA_update sha (SHA_init sha) a) b = SHA_update sha (SHA_init sha) (a @ b)"
  by (simp add: sha_absorbs_def)

text \<open>
  What a successful load returns: the prefix read so far has the size and the digest of the pair
  at which the loop stopped, and none of the pairs before it in the order of sizes matches.
\<close>

lemma load_pairs_ok:
  assumes sha: "sha_absorbs (SHA_update sha)"
    and run: "load_pairs sha mtd pairs index sofar ctx rd w = Some ((Some digest, dat), w')"
    and ctx: "ctx = SHA_update sha (SHA_init sha) sofar"
    and sorted: "sorted (map (\<lambda>j. fst (pairs ! j)) index)" "\<forall>i \<in> set index. length sofar \<le> fst (pairs ! i)"
  shows "digest = SHA_hash sha dat \<and> (\<exists>us i vs str. index = us @ i # vs \<and> length dat = fst (pairs ! i)
      \<and> snd (pairs ! i) = Some str \<and> ParseSha1 str = Some digest
      \<and> (\<forall>j \<in> set us. \<exists>str e. snd (pairs ! j) = Some str \<and> ParseSha1 str = Some e
           \<and> e \<noteq> SHA_hash sha (take (fst (pairs ! j)) dat)))
    \<and> take (length sofar) dat = sofar"
  using assms(2-)
proof (induction index arbitrary: sofar ctx rd w)
  case (Cons i index)
  let ?next = "fst (pairs ! i) - length sofar"
  obtain bs rd1 w1 where r: "(if 0 < ?next then read_partition mtd rd ?next w else ([], rd, w)) = (bs, rd1, w1)"
    by (metis surj_pair)
  have len: "length bs = ?next" and ctx1: "(if 0 < ?next then SHA_update sha ctx bs else ctx)
      = SHA_update sha (SHA_init sha) (sofar @ bs)"
    using Cons.prems(1) r sha Cons.prems(2)
    by (auto simp: Let_def sha_step split: if_splits)
  have sz: "length (sofar @ bs) = fst (pairs ! i)" using len Cons.prems(4) by simp
  obtain str e where str: "snd (pairs ! i) = Some str" "ParseSha1 str = Some e"
    using Cons.prems(1) r len by (auto simp: Let_def split: option.splits if_splits)
  let ?h = "SHA_hash sha (sofar @ bs)"
  show ?case
  proof (cases "?h = e")
    case True
    then have "dat = sofar @ bs" "digest = ?h"
      using Cons.prems(1) r len str ctx1 by (auto simp: Let_def SHA_hash_def split: if_splits)
    moreover have "\<exists>us j vs str. i # index = us @ j # vs \<and> length (sofar @ bs) = fst (pairs ! j)
        \<and> snd (pairs ! j) = Some str \<and> ParseSha1 str = Some ?h
        \<and> (\<forall>j \<in> set us. \<exists>str e. snd (pairs ! j) = Some str \<and> ParseSha1 str = Some e
             \<and> e \<noteq> SHA_hash sha (take (fst (pairs ! j)) (sofar @ bs)))"
      using str True sz
      by (rule_tac exI [of _ "[]"], rule_tac exI [of _ i], rule_tac exI [of _ index], rule_tac exI [of _ str]) simp
    ultimately show ?thesis by simp
  next
    case False
    then have run1: "load_pairs sha mtd pairs index (sofar @ bs) (SHA_update sha (SHA_init sha) (sofar @ bs)) rd1 w1
        = Some ((Some digest, dat), w')"
      using Cons.prems(1) r len str ctx1 by (auto simp: Let_def SHA_hash_def split: if_splits)
    have "sorted (map (\<lambda>j. fst (pairs ! j)) index)" "\<forall>j \<in> set index. length (sofar @ bs) \<le> fst (pairs ! j)"
      using Cons.prems(3) sz by auto
    from Cons.IH [OF run1 refl this] obtain us j vs str' where IH: "digest = SHA_hash sha dat"
      "index = us @ j # vs" "length dat = fst (pairs ! j)" "snd (pairs ! j) = Some str'" "ParseSha1 str' = Some digest"
      "\<forall>j \<in> set us. \<exists>str e. snd (pairs ! j) = Some str \<and> ParseSha1 str = Some e
           \<and> e \<noteq> SHA_hash sha (take (fst (pairs ! j)) dat)"
      "take (length (sofar @ bs)) dat = sofar @ bs" by blast
    have "take (length sofar) dat = sofar" using arg_cong [OF IH(7), of "take (length sofar)"] by simp
    moreover have "\<exists>str e. snd (pairs ! i) = Some str \<and> ParseSha1 str = Some e
           \<and> e \<noteq> SHA_hash sha (take (fst (pairs ! i)) dat)" using str False IH(7) sz by auto
    moreover have "\<exists>us j vs str. i # index = us @ j # vs \<and> length dat = fst (pairs ! j)
        \<and> snd (pairs ! j) = Some str \<and> ParseSha1 str = Some digest
        \<and> (\<forall>j \<in> set us. \<exists>str e. snd (pairs ! j) = Some str \<and> ParseSha1 str = Some e
             \<and> e \<noteq> SHA_hash sha (take (fst (pairs ! j)) dat))"
      using IH calculation(2)
      by (rule_tac exI [of _ "i # us"], rule_tac exI [of _ j], rule_tac exI [of _ vs], rule_tac exI [of _ str']) simp
    ultimately show ?thesis using IH(1) by blast
  qed
qed simp

lemma index_sorted:
  fixes ps :: "(nat \<times> string option) list"
  defines "index \<equiv> c_qsort (compare_size_indices (map fst ps)) [0..<length ps]"
  shows "sorted (map (\<lambda>j. fst (ps ! j)) index)" "set index = {0..<length ps}"
proof -
  show "set index = {0..<length ps}" by (simp add: index_def)
  have "sorted_wrt (\<lambda>x y. compare_size_indices (map fst ps) x y \<le> 0) index"
    using size_order.ordered_qsort unfolding size_order.ordered_def index_def by blast
  then have "sorted_wrt (\<lambda>x y. fst (ps ! x) \<le> fst (ps ! y)) index"
    using \<open>set index = _\<close>
    by (elim sorted_wrt_mono_rel [rotated]) (auto simp: compare_size_indices_def split: if_splits)
  then show "sorted (map (\<lambda>j. fst (ps ! j)) index)" by (simp add: sorted_wrt_map)
qed

lemma load_smallest:
  assumes sha: "sha_absorbs (SHA_update sha)"
    and run: "load_pairs sha mtd ps (c_qsort (compare_size_indices (map fst ps)) [0..<length ps]) [] (SHA_init sha) rd w
      = Some ((Some digest, dat), w')"
  shows "digest = SHA_hash sha dat
    \<and> (\<exists>str. (length dat, Some str) \<in> set ps \<and> ParseSha1 str = Some digest)
    \<and> (\<forall>(m, s) \<in> set ps. m < length dat \<longrightarrow>
         (\<exists>str e. s = Some str \<and> ParseSha1 str = Some e \<and> e \<noteq> SHA_hash sha (take m dat)))"
proof -
  let ?index = "c_qsort (compare_size_indices (map fst ps)) [0..<length ps]"
  note srt = index_sorted [of ps]
  have init: "SHA_init sha = SHA_update sha (SHA_init sha) []" using sha by (simp add: sha_absorbs_def)
  from load_pairs_ok [OF sha run init srt(1)] obtain us i vs str where d: "digest = SHA_hash sha dat"
    and ix: "?index = us @ i # vs" "length dat = fst (ps ! i)" "snd (ps ! i) = Some str" "ParseSha1 str = Some digest"
    and us: "\<forall>j \<in> set us. \<exists>str e. snd (ps ! j) = Some str \<and> ParseSha1 str = Some e
           \<and> e \<noteq> SHA_hash sha (take (fst (ps ! j)) dat)" by auto
  have i: "i < length ps" using srt(2) unfolding ix(1) by auto
  then have "(length dat, Some str) \<in> set ps" using ix(2,3) by (metis nth_mem prod.collapse)
  moreover have "\<exists>str e. s = Some str \<and> ParseSha1 str = Some e \<and> e \<noteq> SHA_hash sha (take m dat)"
    if ms: "(m, s) \<in> set ps" "m < length dat" for m s
  proof -
    obtain j where j: "j < length ps" "ps ! j = (m, s)" using ms(1) by (auto simp: in_set_conv_nth)
    have "j \<in> set us"
    proof (rule ccontr)
      assume "j \<notin> set us"
      moreover have "j \<in> set (us @ i # vs)" using srt(2) j(1) unfolding ix(1) by simp
      ultimately have "j = i \<or> j \<in> set vs" by simp
      moreover have "\<forall>k \<in> set vs. fst (ps ! i) \<le> fst (ps ! k)"
        using srt(1) unfolding ix(1) by (simp add: sorted_append)
      ultimately have "fst (ps ! i) \<le> fst (ps ! j)" by auto
      then show False using j(2) ms(2) ix(2) by simp
    qed
    with us j(2) show ?thesis by force
  qed
  ultimately show ?thesis using d ix(4) by auto
qed

text \<open>An invariant of the reads, and the steps of a successful load.\<close>

lemma load_pairs_reads:
  assumes step: "\<And>got rd n w bs rd1 w1. I got rd w \<Longrightarrow> 0 < n \<Longrightarrow> read_partition mtd rd n w = (bs, rd1, w1) \<Longrightarrow> length bs = n \<Longrightarrow> I (got @ bs) rd1 w1"
    and run: "load_pairs sha mtd pairs index sofar ctx rd w = Some ((Some digest, dat), w')" and start: "I sofar rd w"
  shows "\<exists>rd'. I dat rd' w'"
  using run start
proof (induction index arbitrary: sofar ctx rd w)
  case (Cons i index)
  let ?next = "fst (pairs ! i) - length sofar"
  obtain bs rd1 w1 where r: "(if 0 < ?next then read_partition mtd rd ?next w else ([], rd, w)) = (bs, rd1, w1)"
    by (metis surj_pair)
  have len: "length bs = ?next" using Cons.prems(1) r by (auto simp: Let_def split: if_splits)
  have i: "I (sofar @ bs) rd1 w1"
    using step [OF Cons.prems(2) _ _ len] r len Cons.prems(2) by (cases "0 < ?next") auto
  from Cons.prems(1) r len have "dat = sofar @ bs \<and> w' = w1 \<or> (\<exists>ctx1. load_pairs sha mtd pairs index (sofar @ bs) ctx1 rd1 w1 = Some ((Some digest, dat), w'))"
    by (auto simp: Let_def split: if_splits option.splits)
  with i Cons.IH show ?case by blast
qed simp

lemma load_partition_steps:
  assumes "LoadPartitionContents sha mtd filename file w = Some ((0, file'), w')"
  obtains magic part ts ps rd w1 digest dat where
    "tokens filename = magic # part # ts" "magic = ''MTD'' \<or> magic = ''EMMC''"
    "read_pairs ((length (filter (\<lambda>c. c = CHR '':'') filename) - 1) div 2) ts = Some (Some ps)"
    "open_partition mtd (if magic = ''MTD'' then MTD else EMMC) part w = (Some rd, w1)"
    "load_pairs sha mtd ps (c_qsort (compare_size_indices (map fst ps)) [0..<length ps]) [] (SHA_init sha) rd w1
      = Some ((Some digest, dat), w')"
    "file' = file\<lparr>fc_data := Some dat, fc_size := length dat, fc_sha1 := digest, fc_mode := 0x1a4, fc_uid := 0, fc_gid := 0\<rparr>"
  using assms that unfolding LoadPartitionContents_def Let_def
  by (auto split: list.splits if_splits option.splits prod.splits)

text \<open>A successful \<open>LoadPartitionContents\<close> has loaded a prefix of the partition whose size and digest
  are one of the pairs of the filename, and it is the smallest: the prefix of every smaller listed
  size has a digest other than the listed one.\<close>

theorem LoadPartitionContents_smallest:
  assumes sha: "sha_absorbs (SHA_update sha)"
    and run: "LoadPartitionContents sha mtd filename file w = Some ((0, file'), w')"
  shows "\<exists>dat ps n. fc_data file' = Some dat \<and> fc_size file' = length dat \<and> fc_sha1 file' = SHA_hash sha dat
    \<and> read_pairs n (drop 2 (tokens filename)) = Some (Some ps)
    \<and> (\<exists>str. (length dat, Some str) \<in> set ps \<and> ParseSha1 str = Some (SHA_hash sha dat))
    \<and> (\<forall>(m, s) \<in> set ps. m < length dat \<longrightarrow>
         (\<exists>str e. s = Some str \<and> ParseSha1 str = Some e \<and> e \<noteq> SHA_hash sha (take m dat)))"
  using run
proof (cases rule: load_partition_steps)
  case (1 magic part ts ps rd w1 digest dat)
  with load_smallest [OF sha 1(5)] show ?thesis by auto
qed

text \<open>What is loaded from a device is what it begins with.\<close>

lemma load_partition_device:
  fixes mtd :: "('f, 'r, 'm) mtdlib" and w :: "'f world"
  assumes sha: "sha_absorbs (SHA_update sha)" and run: "LoadPartitionContents sha mtd filename file w = Some ((0, file'), w')"
    and t: "tokens filename = ''EMMC'' # part # rest"
  shows "\<exists>dat f. fc_sha1 file' = SHA_hash sha dat \<and> lookup_file w' part = Some f \<and> take (length dat) (f_data f) = dat"
  using run
proof (cases rule: load_partition_steps)
  case (1 magic part' ts ps rd w1 digest dat)
  define I where "I got rd w \<longleftrightarrow> (\<exists>f. rd = DevReader part (length got) \<and> lookup_file w part = Some f \<and> take (length got) (f_data f) = got)"
    for got and rd :: "'r reader" and w :: "'f world"
  have m: "magic = ''EMMC''" "part' = part" using 1(1) t by simp_all
  have "I [] rd w1" using 1(4) unfolding m by (auto simp: open_partition_def I_def split: if_splits prod.splits)
  moreover have "I (got @ bs) rd1 w1" if i: "I got rd w" and r: "read_partition mtd rd n w = (bs, rd1, w1)" "length bs = n" for got rd n w bs rd1 w1
  proof -
    from i obtain f where f: "rd = DevReader part (length got)" "lookup_file w part = Some f" "take (length got) (f_data f) = got" unfolding I_def by blast
    obtain k w2 where k: "sys_amount n w = (k, w2)" by (cases "sys_amount n w")
    have l: "lookup_file w2 part = Some f" using sys_amount_files [OF k] f(2) lookup_files by metis
    with r f(1) k have bs: "bs = take k (drop (length got) (f_data f))" "rd1 = DevReader part (length got + length bs)" "w1 = w2"
      by (auto simp: read_partition_def Let_def)
    have "take (length got + length bs) (f_data f) = got @ bs" using f(3) bs(1) by (simp add: take_add min_def)
    with bs l show ?thesis unfolding I_def by simp
  qed
  ultimately obtain rd' where "I dat rd' w'" using load_pairs_reads [where I = I, OF _ 1(5)] by blast
  moreover have "digest = SHA_hash sha dat" using load_smallest [OF sha 1(5)] by blast
  ultimately show ?thesis using 1(6) unfolding I_def by auto
qed

text \<open>The contract of a flash layer that also covers reading: \<open>reading fl part got r\<close> says that \<open>got\<close> has been read from the partition, and
  \<open>begins\<close> what a partition begins with.\<close>

locale mtd_reader = mtd_layer mtd holds for mtd :: "('f, 'r, 'm) mtdlib" and holds :: "'f \<Rightarrow> string \<Rightarrow> buffer \<Rightarrow> bool" +
  fixes begins :: "'f \<Rightarrow> string \<Rightarrow> buffer \<Rightarrow> bool" and reading :: "'f \<Rightarrow> string \<Rightarrow> buffer \<Rightarrow> 'r \<Rightarrow> bool"
  assumes held: "holds fl part dat \<Longrightarrow> begins fl part dat"
    and opened: "mtd_read_partition mtd part fl = Some r \<Longrightarrow> reading fl part [] r"
    and reads: "reading fl part got r \<Longrightarrow> 0 < n \<Longrightarrow> mtd_read_data mtd r n = (bs, r') \<Longrightarrow> length bs = n \<Longrightarrow> reading fl part (got @ bs) r'"
    and seen: "reading fl part got r \<Longrightarrow> begins fl part got"
begin

lemma load_partition_begins:
  assumes sha: "sha_absorbs (SHA_update sha)" and run: "LoadPartitionContents sha mtd filename file w = Some ((0, file'), w')"
    and t: "tokens filename = ''MTD'' # part # rest"
  shows "\<exists>dat. fc_sha1 file' = SHA_hash sha dat \<and> begins (flash w') part dat"
  using run
proof (cases rule: load_partition_steps)
  case (1 magic part' ts ps rd w1 digest dat)
  define I where "I got rd w \<longleftrightarrow> (\<exists>r. rd = MtdReader r \<and> reading (flash w) part got r)" for got rd and w :: "'f world"
  have m: "magic = ''MTD''" "part' = part" using 1(1) t by simp_all
  have "I [] rd w1" using 1(4) unfolding m by (auto simp: open_partition_def I_def Let_def intro: opened)
  moreover have "I (got @ bs) rd1 w1" if i: "I got rd w" "0 < n" and r: "read_partition mtd rd n w = (bs, rd1, w1)" "length bs = n" for got rd n w bs rd1 w1
    using that reads [of "flash w" part got _ n bs] by (auto simp: I_def read_partition_def split: prod.splits)
  ultimately obtain rd' where "I dat rd' w'" using load_pairs_reads [where I = I, OF _ 1(5)] by blast
  moreover have "digest = SHA_hash sha dat" using load_smallest [OF sha 1(5)] by blast
  ultimately show ?thesis using 1(6) unfolding I_def by (auto intro: seen)
qed

end

definition blank_contents :: FileContents where
  "blank_contents = \<lparr>fc_sha1 = [], fc_data = None, fc_size = 0, fc_mode = 0, fc_uid = 0, fc_gid = 0\<rparr>"

definition sample_partition :: string where
  "sample_partition = ''EMMC:/dev/b:3:0708090000000000000000000000000000000000:2:0708000000000000000000000000000000000000''"

theorem LoadPartitionContents_smallest_witness:
  "\<exists>file' w'. LoadPartitionContents sample_sha sample_mtd sample_partition blank_contents
      \<lparr>files = [(''/dev/b'', \<lparr>f_data = [7, 8, 9], f_mode = 0, f_uid = 0, f_gid = 0, f_reg = False\<rparr>)],
       procs = [], answers = [], mtd_partitions_scanned = False, flash = ()\<rparr> = Some ((0, file'), w')
    \<and> fc_size file' = 2 \<and> fc_sha1 file' = SHA_hash sample_sha (the (fc_data file'))"
proof -
  let ?w = "\<lparr>files = [(''/dev/b'', \<lparr>f_data = [7, 8, 9], f_mode = 0, f_uid = 0, f_gid = 0, f_reg = False\<rparr>)],
     procs = [], answers = [], mtd_partitions_scanned = False, flash = ()\<rparr>"
  have "map_option (\<lambda>((r, f), w). (r, fc_size f)) (LoadPartitionContents sample_sha sample_mtd sample_partition
      blank_contents ?w) = Some (0, 2)" by code_simp
  then obtain file' w' where r: "LoadPartitionContents sample_sha sample_mtd sample_partition blank_contents ?w
      = Some ((0, file'), w')" "fc_size file' = 2" by auto
  from LoadPartitionContents_smallest [OF sample_sha_absorbs r(1)] r show ?thesis by auto
qed

end
