(* ===== verification/ApplyPatch.thy ===== *)
theory ApplyPatch
  imports FileContents Edify
begin

text \<open>
  The patch application of \<open>applypatch/applypatch.c\<close>: \<open>applypatch_check\<close>, \<open>applypatch\<close> and
  \<open>GenerateTarget\<close>, on the world of files, partitions and kernel answers. The libraries are
  collected in one record. The two \<open>FileContents\<close> structures of \<open>applypatch\<close> start with
  indeterminate fields, so their first contents are arguments.
\<close>

record ('s, 'z, 'c, 'f, 'r, 'm) libs =
  l_bz :: "'s bzlib"
  l_z :: "'z zlib"
  l_sha :: "'c shalib"
  l_mtd :: "('f, 'r, 'm) mtdlib"
  l_malloc_ok :: "int \<Rightarrow> bool"

section \<open>Checking\<close>

definition applypatch_check ::
  "('s, 'z, 'c, 'f, 'r, 'm) libs \<Rightarrow> string \<Rightarrow> string list \<Rightarrow> FileContents \<Rightarrow> 'f world \<Rightarrow> (int \<times> 'f world) option" where
  "applypatch_check l filename patch_sha1_str file w = do {
     ((filestate, file), w1) \<leftarrow> LoadFileContents (l_sha l) (l_mtd l) filename file True w;
     if filestate = - ENOENT then Some (- ENOENT, w1)
     else if filestate \<noteq> 0 \<or> 0 < length patch_sha1_str \<and> FindMatchingPatch (fc_sha1 file) patch_sha1_str < 0
     then do {
       ((r, file), w2) \<leftarrow> LoadFileContents (l_sha l) (l_mtd l) CACHE_TEMP_SOURCE file True w1;
       if r \<noteq> 0 then Some (1, w2)
       else if FindMatchingPatch (fc_sha1 file) patch_sha1_str < 0 then Some (1, w2)
       else Some (0, w2) }
     else Some (0, w1) }"

section \<open>Generating the target\<close>

definition value_bytes :: "Value \<Rightarrow> buffer" where
  "value_bytes v = map of_char (vdata v)"

text \<open>The top-level directory of a file, which exists when the file may not.\<close>

definition target_fs :: "string \<Rightarrow> string" where
  "target_fs target_filename =
     (case strchr (drop 1 target_filename) (CHR ''/'') of
        None \<Rightarrow> target_filename
      | Some slash \<Rightarrow> take (length target_filename - length slash) target_filename)"

text \<open>Saving the source on the cache partition.\<close>

definition backup :: "FileContents \<Rightarrow> 'f world \<Rightarrow> bool \<times> 'f world" where
  "backup source_file w =
     (case MakeFreeSpaceOnCache (fc_size source_file) w of (r, w1) \<Rightarrow>
        if r < 0 then (False, w1)
        else case SaveFileContents CACHE_TEMP_SOURCE source_file w1 of (r, w2) \<Rightarrow> (0 \<le> r, w2))"

text \<open>
  The first half of a turn of the loop: is there room for the target, and if not, free some. The
  result is the new \<open>retry\<close> and \<open>made_copy\<close>; \<^term>\<open>None\<close> is a return of 1.
\<close>

definition prepare ::
  "FileContents \<Rightarrow> bool \<Rightarrow> string \<Rightarrow> string \<Rightarrow> nat \<Rightarrow> nat \<Rightarrow> bool \<Rightarrow> 'f world \<Rightarrow> (nat \<times> bool) option \<times> 'f world" where
  "prepare source_file use_source source_filename target_filename tgt_size retry made_copy w =
     (if is_partition target_filename then
        (case backup source_file w of (good, w1) \<Rightarrow> (if good then Some (0, True) else None, w1))
      else
        let (enough_space, w1) =
              (if 0 < retry then
                 (case FreeSpaceForFile (target_fs target_filename) w of (free_space, w1) \<Rightarrow>
                    (2 ^ 18 < free_space \<and> (tgt_size * 3 mod 2 ^ 64) div 2 < free_space, w1))
               else (False, w));
            retry = (if enough_space then retry else 0) in
        if \<not> enough_space \<and> use_source then
          (if is_partition source_filename then (None, w1)
           else case backup source_file w1 of (good, w2) \<Rightarrow>
             if \<not> good then (None, w2)
             else case unlink source_filename w2 of (_, w3) \<Rightarrow>
               case FreeSpaceForFile (target_fs target_filename) w3 of (_, w4) \<Rightarrow> (Some (retry, True), w4))
        else (Some (retry, made_copy), w1))"

text \<open>Choosing the patcher by the header; \<^term>\<open>Some None\<close> is the return for an unknown format.\<close>

definition run_patch ::
  "('s, 'z, 'c, 'f, 'r, 'm) libs \<Rightarrow> buffer \<Rightarrow> nat \<Rightarrow> buffer \<Rightarrow> buffer option \<Rightarrow> (buffer \<Rightarrow> 'k \<Rightarrow> int \<times> 'k) \<Rightarrow> 'k
     \<Rightarrow> (int \<times> 'k \<times> 'c) option option" where
  "run_patch l old old_size patch bonus_data sink token =
     (let ctx = SHA_init (l_sha l); upd = SHA_update (l_sha l) in
      if 8 \<le> length patch \<and> take 8 patch = BSDIFF40 then do {
        (r, token1, ctx1) \<leftarrow> ApplyBSDiffPatch (l_bz l) (l_malloc_ok l) upd old (int old_size) patch 0 sink token (Some ctx);
        Some (Some (r, token1, case ctx1 of None \<Rightarrow> ctx | Some c \<Rightarrow> c)) }
      else if 8 \<le> length patch \<and> take 8 patch = IMGDIFF2 then do {
        res \<leftarrow> ApplyImagePatch (l_bz l) (l_z l) (l_malloc_ok l) upd old patch sink token ctx bonus_data;
        Some (Some res) }
      else Some None)"

datatype destination = ToMemory MemorySinkInfo | ToFile string

text \<open>How the second half of a turn ends: a return, another turn, or patched output.\<close>

datatype 'c attempt = Return int | Again | Produced 'c destination

definition try_patch ::
  "('s, 'z, 'c, 'f, 'r, 'm) libs \<Rightarrow> FileContents \<Rightarrow> Value \<Rightarrow> string \<Rightarrow> nat \<Rightarrow> buffer option \<Rightarrow> nat \<Rightarrow> 'f world
     \<Rightarrow> ('c attempt \<times> 'f world) option" where
  "try_patch l source_to_use patch target_filename tgt_size bonus_data retry w =
     (if vtype patch \<noteq> VAL_BLOB then Some (Return 1, w)
      else case fc_data source_to_use of
        None \<Rightarrow> None
      | Some old \<Rightarrow>
          if is_partition target_filename then
            (if \<not> l_malloc_ok l (int tgt_size) then Some (Return 1, w)
             else do {
               r \<leftarrow> run_patch l old (fc_size source_to_use) (value_bytes patch) bonus_data MemorySink
                      \<lparr>msi_buffer = [], msi_size = int tgt_size\<rparr>;
               case r of
                 None \<Rightarrow> Some (Return 1, w)
               | Some (result, msi, ctx) \<Rightarrow>
                   if result \<noteq> 0 then Some (if retry = 0 then Return 1 else Again, w)
                   else Some (Produced ctx (ToMemory msi), w) })
          else
            let outname = target_filename @ ''.patch'' in
            case open_trunc outname w of (good, w1) \<Rightarrow>
              if \<not> good then Some (Return 1, w1)
              else do {
                r \<leftarrow> run_patch l old (fc_size source_to_use) (value_bytes patch) bonus_data (FileSink outname) w1;
                case r of
                  None \<Rightarrow> Some (Return 1, w1)
                | Some (result, w2, ctx) \<Rightarrow>
                    if result \<noteq> 0
                    then if retry = 0 then Some (Return 1, w2) else Some (Again, snd (unlink outname w2))
                    else Some (Produced ctx (ToFile outname), w2) })"

text \<open>The part of \<open>GenerateTarget\<close> behind the loop.\<close>

definition finish ::
  "('s, 'z, 'c, 'f, 'r, 'm) libs \<Rightarrow> FileContents \<Rightarrow> string \<Rightarrow> buffer \<Rightarrow> bool \<Rightarrow> 'c \<Rightarrow> destination \<Rightarrow> 'f world
     \<Rightarrow> (int \<times> 'f world) option" where
  "finish l source_to_use target_filename target_sha1 made_copy ctx dest w =
     (if SHA_final (l_sha l) ctx \<noteq> target_sha1 then Some (1, w)
      else
        let finished = (\<lambda>w. Some (0 :: int, if made_copy then snd (unlink CACHE_TEMP_SOURCE w) else w)) in
        case dest of
          ToMemory msi \<Rightarrow> do {
            (r, w1) \<leftarrow> WriteToPartition (l_mtd l) (msi_buffer msi) target_filename w;
            if r \<noteq> 0 then Some (1, w1) else finished w1 }
        | ToFile outname \<Rightarrow>
            (case chmod outname (fc_mode source_to_use) w of (good, w1) \<Rightarrow>
               if \<not> good then Some (1, w1)
               else case chown outname (fc_uid source_to_use) (fc_gid source_to_use) w1 of (good, w2) \<Rightarrow>
                 if \<not> good then Some (1, w2)
                 else case rename outname target_filename w2 of (good, w3) \<Rightarrow>
                   if \<not> good then Some (1, w3) else finished w3))"

text \<open>
  \<open>GenerateTarget\<close> from a given value of \<open>retry\<close> on: another turn happens only after a failure
  with \<open>retry > 0\<close>. \<open>patch\<close> and \<open>source_to_use\<close> are the source's or the copy's.
\<close>

fun generate_from ::
  "('s, 'z, 'c, 'f, 'r, 'm) libs \<Rightarrow> FileContents \<Rightarrow> bool \<Rightarrow> FileContents \<Rightarrow> Value \<Rightarrow> string \<Rightarrow> string \<Rightarrow> buffer \<Rightarrow> nat
     \<Rightarrow> buffer option \<Rightarrow> nat \<Rightarrow> bool \<Rightarrow> 'f world \<Rightarrow> (int \<times> 'f world) option" where
  "generate_from l source_file use_source source_to_use patch source_filename target_filename target_sha1 tgt_size
     bonus_data retry made_copy w =
     (case prepare source_file use_source source_filename target_filename tgt_size retry made_copy w of
        (None, w1) \<Rightarrow> Some (1, w1)
      | (Some (retry1, made_copy1), w1) \<Rightarrow> do {
          (r, w2) \<leftarrow> try_patch l source_to_use patch target_filename tgt_size bonus_data retry1 w1;
          case r of
            Return code \<Rightarrow> Some (code, w2)
          | Produced ctx dest \<Rightarrow> finish l source_to_use target_filename target_sha1 made_copy1 ctx dest w2
          | Again \<Rightarrow>
              (case retry of
                 0 \<Rightarrow> None
               | Suc n \<Rightarrow> generate_from l source_file use_source source_to_use patch source_filename target_filename
                            target_sha1 tgt_size bonus_data n made_copy1 w2) })"

declare generate_from.simps [simp del]

definition GenerateTarget ::
  "('s, 'z, 'c, 'f, 'r, 'm) libs \<Rightarrow> FileContents \<Rightarrow> Value option \<Rightarrow> FileContents \<Rightarrow> Value option \<Rightarrow> string \<Rightarrow> string
     \<Rightarrow> buffer \<Rightarrow> nat \<Rightarrow> buffer option \<Rightarrow> 'f world \<Rightarrow> (int \<times> 'f world) option" where
  "GenerateTarget l source_file source_patch_value copy_file copy_patch_value source_filename target_filename
     target_sha1 tgt_size bonus_data w =
     (case source_patch_value of
        Some patch \<Rightarrow> generate_from l source_file True source_file patch source_filename target_filename
                        target_sha1 tgt_size bonus_data 1 False w
      | None \<Rightarrow>
          (case copy_patch_value of
             None \<Rightarrow> None
           | Some patch \<Rightarrow> generate_from l source_file False copy_file patch source_filename target_filename
                             target_sha1 tgt_size bonus_data 1 False w))"

section \<open>Applying\<close>

definition pick_patch :: "FileContents \<Rightarrow> string list \<Rightarrow> Value list \<Rightarrow> Value option option" where
  "pick_patch file patch_sha1_str patch_data =
     (let to_use = FindMatchingPatch (fc_sha1 file) patch_sha1_str in
      if to_use < 0 then Some None
      else if nat to_use < length patch_data then Some (Some (patch_data ! nat to_use)) else None)"

definition applypatch ::
  "('s, 'z, 'c, 'f, 'r, 'm) libs \<Rightarrow> string \<Rightarrow> string \<Rightarrow> string \<Rightarrow> nat \<Rightarrow> string list \<Rightarrow> Value list \<Rightarrow> Value option
     \<Rightarrow> FileContents \<Rightarrow> FileContents \<Rightarrow> 'f world \<Rightarrow> (int \<times> 'f world) option" where
  "applypatch l source_filename target_filename target_sha1_str tgt_size patch_sha1_str patch_data bonus_data
     source_file copy_file w =
     (let target_filename = (if target_filename = ''-'' then source_filename else target_filename) in
      case ParseSha1 target_sha1_str of
        None \<Rightarrow> Some (1, w)
      | Some target_sha1 \<Rightarrow> do {
          ((r, source_file), w1) \<leftarrow>
            LoadFileContents (l_sha l) (l_mtd l) target_filename (source_file\<lparr>fc_data := None\<rparr>) True w;
          if r = 0 \<and> fc_sha1 source_file = target_sha1 then Some (0, w1)
          else do {
            (source_file, w2) \<leftarrow>
              (if fc_data source_file = None \<or> target_filename \<noteq> source_filename
               then do {
                 ((_, f), w2) \<leftarrow> LoadFileContents (l_sha l) (l_mtd l) source_filename (source_file\<lparr>fc_data := None\<rparr>) True w1;
                 Some (f, w2) }
               else Some (source_file, w1));
            source_patch_value \<leftarrow>
              (if fc_data source_file \<noteq> None then pick_patch source_file patch_sha1_str patch_data else Some None);
            case source_patch_value of
              Some v \<Rightarrow>
                GenerateTarget l source_file (Some v) copy_file None source_filename target_filename target_sha1 tgt_size
                  (map_option value_bytes bonus_data) w2
            | None \<Rightarrow> do {
                ((r, copy_file), w3) \<leftarrow> LoadFileContents (l_sha l) (l_mtd l) CACHE_TEMP_SOURCE (copy_file\<lparr>fc_data := None\<rparr>) True w2;
                if r < 0 then Some (1, w3)
                else do {
                  copy_patch_value \<leftarrow> pick_patch copy_file patch_sha1_str patch_data;
                  case copy_patch_value of
                    None \<Rightarrow> Some (1, w3)
                  | Some v \<Rightarrow>
                      GenerateTarget l (source_file\<lparr>fc_data := None\<rparr>) None copy_file (Some v) source_filename target_filename
                        target_sha1 tgt_size (map_option value_bytes bonus_data) w3 } } } })"

section \<open>Loading changes no file\<close>

lemma read_partition_files: "read_partition mtd rd n w = (bs, rd1, w1) \<Longrightarrow> files w1 = files w"
  by (auto simp: read_partition_def Let_def split: reader.splits prod.splits option.splits dest: sys_amount_files)

lemma load_pairs_files:
  "load_pairs sha mtd ps idx sofar ctx rd w = Some (r, w') \<Longrightarrow> files w' = files w"
proof (induction idx arbitrary: sofar ctx rd w)
  case (Cons i idx)
  define nxt where "nxt = fst (ps ! i) - length sofar"
  obtain bs rd1 w1 where rd: "(if 0 < nxt then read_partition mtd rd nxt w else ([], rd, w)) = (bs, rd1, w1)"
    by (metis surj_pair)
  then have w1: "files w1 = files w" by (auto split: if_splits dest: read_partition_files)
  from Cons.prems w1 show ?case
    by (auto simp: Let_def rd nxt_def [symmetric] split: if_splits option.splits dest: Cons.IH)
qed simp

lemma open_partition_files: "open_partition mtd t part w = (r, w1) \<Longrightarrow> files w1 = files w"
  by (auto simp: open_partition_def scan_once_def Let_def split: PartitionType.splits prod.splits dest: sys_ok_files)

lemma load_partition_files: "LoadPartitionContents sha mtd name fc w = Some (r, w') \<Longrightarrow> files w' = files w"
  by (auto simp: LoadPartitionContents_def Let_def split: list.splits if_splits option.splits prod.splits
      dest!: load_pairs_files open_partition_files)

lemma load_files: "LoadFileContents sha mtd name fc flag w = Some (r, w') \<Longrightarrow> files w' = files w"
  by (auto simp: LoadFileContents_def Let_def split: if_splits option.splits prod.splits
      dest!: load_partition_files sys_ok_files sys_amount_files)

lemma load_lookup: "LoadFileContents sha mtd name fc flag w = Some (r, w') \<Longrightarrow> lookup_file w' = lookup_file w"
  by (drule load_files) (simp add: lookup_file_def fun_eq_iff)

text \<open>What a loaded file holds: the masked data of the file, under their digest.\<close>

definition masked :: "buffer \<Rightarrow> buffer \<Rightarrow> bool" where
  "masked dat dat' \<longleftrightarrow>
     (\<exists>off. retouch_mask_data dat (to_int32 (int (length dat))) (Some 0) = Some (RETOUCH_DATA_MATCHED, dat', off))"

lemma masked_length: "masked dat dat' \<Longrightarrow> length dat < 2 ^ 31 \<Longrightarrow> length dat' = length dat"
  using mask_data_safe [of dat "Some 0"] to_int32_id [of "int (length dat)"] by (fastforce simp: masked_def)

lemma load_file_data:
  assumes "LoadFileContents sha mtd name fc True w = Some ((r, fc'), w')" "\<not> is_partition name" "fc_data fc' = Some dat"
  shows "r = 0 \<and> (\<exists>f. lookup_file w name = Some f \<and> masked (f_data f) dat \<and> fc_size fc' = length (f_data f)
    \<and> fc_sha1 fc' = SHA_hash sha dat)"
  using assms by (auto simp: LoadFileContents_def masked_def Let_def split: if_splits option.splits prod.splits)

lemma load_ok_data:
  assumes "LoadFileContents sha mtd name fc flag w = Some ((0, fc'), w')"
  shows "fc_data fc' \<noteq> None"
  using assms by (auto simp: LoadFileContents_def LoadPartitionContents_def ENOENT_def Let_def
      split: if_splits option.splits prod.splits list.splits)

section \<open>The patched file\<close>

lemma run_patch_frame:
  assumes "run_patch l old n patch bonus (FileSink path) w = Some (Some (r, w', ctx))" "only_file fs path w"
  shows "only_file fs path w'"
  using assms
  by (auto simp: run_patch_def Let_def split: if_splits bind_splits
      dest: file_frame.bsdiff_keeps file_frame.ApplyImagePatch_keeps)

lemma run_patch_digest:
  assumes "run_patch l old n patch bonus (FileSink path) w = Some (Some (0, w', ctx))" "file_bytes path w = []"
    and "take 8 patch \<noteq> IMGDIFF2"
  shows "SHA_final (l_sha l) ctx = SHA_hash (l_sha l) (file_bytes path w')"
proof -
  from assms(1,3) obtain c where
    "ApplyBSDiffPatch (l_bz l) (l_malloc_ok l) (SHA_update (l_sha l)) old (int n) patch 0 (FileSink path) w
       (Some (SHA_init (l_sha l))) = Some (0, w', c)" "ctx = (case c of None \<Rightarrow> SHA_init (l_sha l) | Some c \<Rightarrow> c)"
    by (auto simp: run_patch_def Let_def split: if_splits bind_splits)
  with file_sink.ApplyBSDiffPatch_written [OF this(1)] assms(2) show ?thesis by (auto simp: SHA_hash_def)
qed

lemma run_patch_memory:
  assumes "run_patch l old n patch bonus MemorySink \<lparr>msi_buffer = [], msi_size = sz\<rparr> = Some (Some (0, msi, ctx))"
    and sha: "sha_absorbs (SHA_update (l_sha l))"
  shows "SHA_final (l_sha l) ctx = SHA_hash (l_sha l) (msi_buffer msi)"
proof -
  let ?m = "\<lparr>msi_buffer = [], msi_size = sz\<rparr>"
  from assms(1) consider c where
    "ApplyBSDiffPatch (l_bz l) (l_malloc_ok l) (SHA_update (l_sha l)) old (int n) patch 0 MemorySink ?m
       (Some (SHA_init (l_sha l))) = Some (0, msi, c)" "ctx = (case c of None \<Rightarrow> SHA_init (l_sha l) | Some c \<Rightarrow> c)"
    | "ApplyImagePatch (l_bz l) (l_z l) (l_malloc_ok l) (SHA_update (l_sha l)) old patch MemorySink ?m
         (SHA_init (l_sha l)) bonus = Some (0, msi, ctx)"
    by (auto simp: run_patch_def Let_def split: if_splits bind_splits)
  then show ?thesis
    by cases (use memory_sink.ApplyBSDiffPatch_written image_memory_digest [OF sha] in \<open>fastforce simp: SHA_hash_def\<close>)+
qed

lemma open_trunc_frame:
  assumes "open_trunc p w = (good, w')"
  shows "(\<forall>q. q \<noteq> p \<longrightarrow> lookup_file w' q = lookup_file w q) \<and> (good \<longrightarrow> lookup_file w' p \<noteq> None \<and> file_bytes p w' = [])"
  using assms by (auto simp: open_trunc_def file_bytes_def split: prod.splits if_splits option.splits dest: sys_ok_lookup)

text \<open>The second half of a turn for a file touches only the \<open>.patch\<close> file, and what it produced is there.\<close>

lemma try_patch_file:
  assumes "try_patch l src patch target_filename n bonus retry w = Some (r, w')" "\<not> is_partition target_filename"
  shows "(\<forall>q. q \<noteq> target_filename @ ''.patch'' \<longrightarrow> lookup_file w' q = lookup_file w q)
    \<and> (case r of Return code \<Rightarrow> code = 1 | Again \<Rightarrow> retry \<noteq> 0
       | Produced ctx dest \<Rightarrow> dest = ToFile (target_filename @ ''.patch'')
           \<and> lookup_file w' (target_filename @ ''.patch'') \<noteq> None
           \<and> (take 8 (value_bytes patch) \<noteq> IMGDIFF2 \<longrightarrow>
                SHA_final (l_sha l) ctx = SHA_hash (l_sha l) (file_bytes (target_filename @ ''.patch'') w')))"
proof (cases "vtype patch = VAL_BLOB")
  case False
  then show ?thesis using assms(1) by (auto simp: try_patch_def Let_def)
next
  case True
  let ?o = "target_filename @ ''.patch''"
  obtain old where old: "fc_data src = Some old" using assms(1) True by (auto simp: try_patch_def Let_def split: option.splits)
  obtain good w1 where o: "open_trunc ?o w = (good, w1)" by (cases "open_trunc ?o w")
  note of = open_trunc_frame [OF o]
  show ?thesis
  proof (cases good)
    case False
    then show ?thesis using assms True old o of by (auto simp: try_patch_def Let_def)
  next
    case g: True
    then have only: "only_file (lookup_file w) ?o w1" using of by (simp add: only_file_def)
    obtain res where res: "run_patch l old (fc_size src) (value_bytes patch) bonus (FileSink ?o) w1 = Some res"
      using assms True old o g by (auto simp: try_patch_def Let_def split: bind_splits)
    show ?thesis
    proof (cases res)
      case None
      then show ?thesis using assms True old o g of res by (auto simp: try_patch_def Let_def)
    next
      case (Some t)
      obtain c w2 ctx where t: "t = (c, w2, ctx)" by (cases t)
      have only2: "only_file (lookup_file w) ?o w2" using run_patch_frame [OF res [unfolded Some t] only] .
      have dig: "c = 0 \<Longrightarrow> take 8 (value_bytes patch) \<noteq> IMGDIFF2 \<Longrightarrow>
          SHA_final (l_sha l) ctx = SHA_hash (l_sha l) (file_bytes ?o w2)"
        using run_patch_digest [of l old "fc_size src" "value_bytes patch" bonus ?o w1 w2 ctx] res Some t g of by simp
      obtain b w3 where u: "unlink ?o w2 = (b, w3)" by (cases "unlink ?o w2")
      from assms True old o g res Some t u
      have "(r, w') = (if c \<noteq> 0 then if retry = 0 then (Return 1, w2) else (Again, w3) else (Produced ctx (ToFile ?o), w2))"
        by (auto simp: try_patch_def Let_def split: if_splits)
      then show ?thesis using only2 dig unlink_frame [OF u] by (auto simp: only_file_def split: if_splits)
    qed
  qed
qed

lemma chmod_frame: "chmod p m w = (b, w') \<Longrightarrow> file_bytes q w' = file_bytes q w \<and> (q \<noteq> p \<longrightarrow> lookup_file w' q = lookup_file w q)"
  by (auto simp: chmod_def file_bytes_def split: prod.splits option.splits if_splits dest!: sys_ok_lookup)

lemma chown_frame: "chown p u g w = (b, w') \<Longrightarrow> file_bytes q w' = file_bytes q w \<and> (q \<noteq> p \<longrightarrow> lookup_file w' q = lookup_file w q)"
  by (auto simp: chown_def file_bytes_def split: prod.splits option.splits if_splits dest!: sys_ok_lookup)

lemma rename_frame:
  assumes "rename p q w = (b, w')" "p \<noteq> q"
  shows "(b \<longrightarrow> (\<exists>f. lookup_file w' q = Some f \<and> f_data f = file_bytes p w)) \<and> (\<not> b \<longrightarrow> lookup_file w' = lookup_file w)
    \<and> (\<forall>x. x \<noteq> p \<longrightarrow> x \<noteq> q \<longrightarrow> lookup_file w' x = lookup_file w x)"
  using assms by (auto simp: rename_def file_bytes_def split: prod.splits option.splits if_splits dest!: sys_ok_lookup)

lemma finish_file:
  assumes "finish l src tgt digest made_copy ctx (ToFile p) w = Some (r, w')" "p \<noteq> tgt"
  shows "(r = 0 \<longrightarrow> SHA_final (l_sha l) ctx = digest
      \<and> (tgt \<noteq> CACHE_TEMP_SOURCE \<longrightarrow> (\<exists>f. lookup_file w' tgt = Some f \<and> f_data f = file_bytes p w)))
    \<and> (r \<noteq> 0 \<longrightarrow> (\<forall>q. q \<noteq> p \<longrightarrow> lookup_file w' q = lookup_file w q))
    \<and> (\<forall>q. q \<noteq> p \<longrightarrow> q \<noteq> tgt \<longrightarrow> q \<noteq> CACHE_TEMP_SOURCE \<or> \<not> made_copy \<longrightarrow> lookup_file w' q = lookup_file w q)"
proof (cases "SHA_final (l_sha l) ctx = digest")
  case False
  then show ?thesis using assms by (auto simp: finish_def)
next
  case True
  obtain b1 w1 where 1: "chmod p (fc_mode src) w = (b1, w1)" by (metis surj_pair)
  obtain b2 w2 where 2: "chown p (fc_uid src) (fc_gid src) w1 = (b2, w2)" by (metis surj_pair)
  obtain b3 w3 where 3: "rename p tgt w2 = (b3, w3)" by (metis surj_pair)
  obtain b4 w4 where 4: "unlink CACHE_TEMP_SOURCE w3 = (b4, w4)" by (metis surj_pair)
  note f = chmod_frame [OF 1] chown_frame [OF 2] rename_frame [OF 3 assms(2)]
  have "(r, w') = (if \<not> b1 then (1, w1) else if \<not> b2 then (1, w2) else if \<not> b3 then (1, w3)
      else (0, if made_copy then w4 else w3))"
    using assms(1) True 1 2 3 4 by (auto simp: finish_def Let_def)
  then consider "\<not> b1" "r = 1" "w' = w1" | "b1" "\<not> b2" "r = 1" "w' = w2" | "\<not> b3" "r = 1" "w' = w3"
    | "b3" "r = 0" "w' = (if made_copy then w4 else w3)"
    by (auto split: if_splits)
  then show ?thesis using True f unlink_frame [OF 4] by cases auto
qed

lemma unlink_flash: "flash (snd (unlink path w)) = flash w"
  by (auto simp: unlink_def sys_ok_def answer_def delete_file_def split: prod.splits list.splits)

lemma finish_memory:
  assumes "finish l src tgt digest made_copy ctx (ToMemory msi) w = Some (0, w')"
  shows "SHA_final (l_sha l) ctx = digest
    \<and> (\<exists>w1. WriteToPartition (l_mtd l) (msi_buffer msi) tgt w = Some (0, w1)
        \<and> (\<forall>q. q \<noteq> CACHE_TEMP_SOURCE \<longrightarrow> lookup_file w' q = lookup_file w1 q) \<and> flash w' = flash w1)"
proof -
  from assms obtain w1 where w1: "SHA_final (l_sha l) ctx = digest" "WriteToPartition (l_mtd l) (msi_buffer msi) tgt w = Some (0, w1)"
    "w' = (if made_copy then snd (unlink CACHE_TEMP_SOURCE w1) else w1)"
    by (auto simp: finish_def Let_def split: if_splits bind_splits)
  moreover have "lookup_file w' q = lookup_file w1 q" if "q \<noteq> CACHE_TEMP_SOURCE" for q
    using w1(3) that unlink_frame [OF prod.collapse [symmetric], of q CACHE_TEMP_SOURCE w1] by simp
  ultimately show ?thesis using unlink_flash [of CACHE_TEMP_SOURCE w1] by auto
qed

section \<open>The copy on the cache\<close>

definition on_cache :: "string \<Rightarrow> bool" where
  "on_cache p \<longleftrightarrow> take 7 p = ''/cache/''"

text \<open>\<open>saved dat w\<close>: the saved source file holds these bytes.\<close>

definition saved :: "buffer \<Rightarrow> 'f world \<Rightarrow> bool" where
  "saved dat w \<longleftrightarrow> (\<exists>f. lookup_file w CACHE_TEMP_SOURCE = Some f \<and> f_data f = dat)"

lemma on_cache_saved: "on_cache CACHE_TEMP_SOURCE"
  by (simp add: on_cache_def CACHE_TEMP_SOURCE_def)

lemma expendable_on_cache: "expendable w p \<Longrightarrow> on_cache p"
  by (auto simp: expendable_def on_cache_def expendable_dirs_def)

lemma patch_name: "target_filename @ ''.patch'' \<noteq> CACHE_TEMP_SOURCE" "target_filename @ ''.patch'' \<noteq> target_filename"
proof -
  have "last (target_filename @ ''.patch'') \<noteq> last CACHE_TEMP_SOURCE" by (simp add: CACHE_TEMP_SOURCE_def)
  then show "target_filename @ ''.patch'' \<noteq> CACHE_TEMP_SOURCE" by metis
qed simp

lemma save_frame:
  assumes "SaveFileContents p fc w = (r, w')"
  shows "(\<forall>q. q \<noteq> p \<longrightarrow> lookup_file w' q = lookup_file w q)
    \<and> (0 \<le> r \<longrightarrow> fc_data fc = Some dat \<longrightarrow> fc_size fc = length dat \<longrightarrow> file_bytes p w' = dat \<and> lookup_file w' p \<noteq> None)"
proof -
  obtain g w1 where 1: "open_trunc p w = (g, w1)" by (metis surj_pair)
  obtain n w2 where 2: "(case fc_data fc of None \<Rightarrow> (0, w1) | Some d \<Rightarrow> FileSink p d w1) = (n, w2)" by (metis surj_pair)
  obtain g3 w3 where 3: "chmod p (fc_mode fc) w2 = (g3, w3)" by (metis surj_pair)
  obtain g4 w4 where 4: "chown p (fc_uid fc) (fc_gid fc) w3 = (g4, w4)" by (metis surj_pair)
  note o = open_trunc_frame [OF 1]
  show ?thesis
  proof (cases g)
    case False
    with assms 1 o show ?thesis by (auto simp: SaveFileContents_def)
  next
    case True
    then have "only_file (lookup_file w) p w1" using o by (simp add: only_file_def)
    then have k: "only_file (lookup_file w) p w2"
      using 2 file_frame.sink_keeps [of p _ w1 n w2] by (auto split: option.splits)
    have d: "file_bytes p w2 = d" if "fc_data fc = Some d" "n = int (length d)" for d
      using file_sink.sink_complete [of p d w1 n w2] 2 that True o by auto
    have r: "(r, w') = (if n \<noteq> int (fc_size fc) then (-1, w2) else if \<not> g3 then (-1, w3) else (if g4 then 0 else -1, w4))"
      using assms True 1 2 3 4 by (auto simp: SaveFileContents_def split: option.splits)
    have l4: "lookup_file w4 p \<noteq> None" if "g3" "g4"
      using that 3 4 by (auto simp: chmod_def chown_def split: prod.splits option.splits if_splits)
    show ?thesis using r k d l4 chmod_frame [OF 3] chown_frame [OF 4] by (auto simp: only_file_def split: if_splits)
  qed
qed

lemma backup_frame:
  assumes "backup fc w = (good, w')"
  shows "(\<not> on_cache q \<longrightarrow> lookup_file w' q = lookup_file w q)
    \<and> (good \<longrightarrow> fc_data fc = Some dat \<longrightarrow> fc_size fc = length dat \<longrightarrow> saved dat w')"
proof -
  obtain r w1 where 1: "MakeFreeSpaceOnCache (fc_size fc) w = (r, w1)" by (metis surj_pair)
  obtain r2 w2 where 2: "SaveFileContents CACHE_TEMP_SOURCE fc w1 = (r2, w2)" by (metis surj_pair)
  have "\<not> on_cache q \<Longrightarrow> lookup_file w1 q = lookup_file w q \<and> q \<noteq> CACHE_TEMP_SOURCE"
    using make_free_space_frame [OF 1] expendable_on_cache on_cache_saved by blast
  then show ?thesis
    using assms 1 2 save_frame [OF 2, of dat]
    by (auto simp: backup_def saved_def file_bytes_def split: if_splits)
qed

lemma prepare_file:
  assumes "prepare fc use_source src tgt n retry made_copy w = (res, w')" "\<not> is_partition tgt"
  shows "(\<not> use_source \<longrightarrow> lookup_file w' = lookup_file w \<and> (\<exists>rt. res = Some (rt, made_copy)))
    \<and> (\<forall>rt mc. res = Some (rt, mc) \<longrightarrow> rt \<noteq> 0 \<longrightarrow> lookup_file w' = lookup_file w)
    \<and> (\<forall>q. \<not> on_cache q \<longrightarrow> q \<noteq> src \<longrightarrow> lookup_file w' q = lookup_file w q)
    \<and> (\<not> on_cache src \<longrightarrow> fc_data fc = Some dat \<longrightarrow> fc_size fc = length dat
        \<longrightarrow> lookup_file w' src = lookup_file w src \<or> saved dat w')"
proof -
  obtain enough w1 where 1: "(if 0 < retry then
      (case FreeSpaceForFile (target_fs tgt) w of (free_space, w1) \<Rightarrow>
         (2 ^ 18 < free_space \<and> (n * 3 mod 2 ^ 64) div 2 < free_space, w1)) else (False, w)) = (enough, w1)"
    by (metis surj_pair)
  have l1: "lookup_file w1 = lookup_file w"
    using 1 FreeSpace_files [of "target_fs tgt" w] by (auto simp: lookup_file_def fun_eq_iff split: if_splits prod.splits)
  obtain good w2 where 2: "backup fc w1 = (good, w2)" by (metis surj_pair)
  obtain b w3 where 3: "unlink src w2 = (b, w3)" by (metis surj_pair)
  obtain m w4 where 4: "FreeSpaceForFile (target_fs tgt) w3 = (m, w4)" by (metis surj_pair)
  have l4: "lookup_file w4 = lookup_file w3" using FreeSpace_files [OF 4] by (simp add: lookup_file_def fun_eq_iff)
  from assms 1 2 3 4 have r: "(res, w') = (if \<not> enough \<and> use_source then
      if is_partition src then (None, w1) else if \<not> good then (None, w2) else (Some (0, True), w4)
      else (Some (if enough then retry else 0, made_copy), w1))"
    by (auto simp: prepare_def Let_def split: if_splits)
  note b = backup_frame [OF 2]
  have q: "lookup_file w2 q = lookup_file w q" if "\<not> on_cache q" for q using b l1 that by simp
  show ?thesis
  proof (cases "\<not> enough \<and> use_source \<and> \<not> is_partition src")
    case False
    then show ?thesis using r l1 by (auto split: if_splits)
  next
    case True
    have s: "saved dat w4" if "saved dat w2" "\<not> on_cache src"
      using that unlink_frame [OF 3, of CACHE_TEMP_SOURCE] on_cache_saved l4
      by (cases "CACHE_TEMP_SOURCE = src") (auto simp: saved_def)
    show ?thesis
    proof (cases good)
      case False
      then show ?thesis using True r q by auto
    next
      case True
      then have "saved dat w2" if "fc_data fc = Some dat" "fc_size fc = length dat" using b that by blast
      with r \<open>\<not> enough \<and> use_source \<and> \<not> is_partition src\<close> True q s unlink_frame [OF 3] l4 show ?thesis by auto
    qed
  qed
qed

text \<open>One turn: it returns, it finishes, or it goes on with the next smaller \<open>retry\<close>.\<close>

lemma generate_turn:
  assumes "generate_from l fc use_source use_fc patch src tgt digest n bonus retry made_copy w = Some (r, w')"
  obtains w1 where "prepare fc use_source src tgt n retry made_copy w = (None, w1)" "r = 1" "w' = w1"
  | rt mc w1 where "prepare fc use_source src tgt n retry made_copy w = (Some (rt, mc), w1)"
      "try_patch l use_fc patch tgt n bonus rt w1 = Some (Return r, w')"
  | rt mc w1 ctx dest w2 where "prepare fc use_source src tgt n retry made_copy w = (Some (rt, mc), w1)"
      "try_patch l use_fc patch tgt n bonus rt w1 = Some (Produced ctx dest, w2)"
      "finish l use_fc tgt digest mc ctx dest w2 = Some (r, w')"
  | rt mc w1 w2 m where "prepare fc use_source src tgt n retry made_copy w = (Some (rt, mc), w1)"
      "try_patch l use_fc patch tgt n bonus rt w1 = Some (Again, w2)" "retry = Suc m"
      "generate_from l fc use_source use_fc patch src tgt digest n bonus m mc w2 = Some (r, w')"
  using assms
  by (subst (asm) generate_from.simps)
    (auto split: prod.splits option.splits bind_splits attempt.splits nat.splits)

lemma generate_file_frame:
  assumes "generate_from l fc use_source use_fc patch src tgt digest n bonus retry made_copy w = Some (r, w')"
    and t: "\<not> is_partition tgt" and "r \<noteq> 0"
  shows "(\<forall>q. \<not> on_cache q \<longrightarrow> q \<noteq> src \<longrightarrow> q \<noteq> tgt @ ''.patch'' \<longrightarrow> lookup_file w' q = lookup_file w q)
    \<and> (\<not> on_cache src \<longrightarrow> src \<noteq> tgt @ ''.patch'' \<longrightarrow> fc_data fc = Some dat \<longrightarrow> fc_size fc = length dat
        \<longrightarrow> lookup_file w' src = lookup_file w src \<or> saved dat w')"
  using assms(1)
proof (induction retry arbitrary: made_copy w rule: less_induct)
  case (less retry)
  have sv: "saved dat w2 = saved dat w1" if "\<forall>q. q \<noteq> tgt @ ''.patch'' \<longrightarrow> lookup_file w2 q = lookup_file w1 q"
    for w1 w2 :: "'a world"
    using that patch_name(1) [of tgt] by (metis saved_def)
  from less.prems show ?case
  proof (cases rule: generate_turn)
    case (1 w1)
    then show ?thesis using prepare_file [OF 1(1) t, of dat] by auto
  next
    case (2 rt mc w1)
    then show ?thesis using prepare_file [OF 2(1) t, of dat] try_patch_file [OF 2(2) t] sv [of w' w1] by auto
  next
    case (3 rt mc w1 ctx dest w2)
    note tp = try_patch_file [OF 3(2) t]
    from tp have d: "dest = ToFile (tgt @ ''.patch'')" by simp
    note f = finish_file [OF 3(3) [unfolded d] patch_name(2)]
    have "lookup_file w' q = lookup_file w1 q" if "q \<noteq> tgt @ ''.patch''" for q using f tp assms(3) that by simp
    then show ?thesis using prepare_file [OF 3(1) t, of dat] sv [of w' w1] by auto
  next
    case (4 rt mc w1 w2 m)
    note tp = try_patch_file [OF 4(2) t]
    have "lookup_file w2 q = lookup_file w q" if "q \<noteq> tgt @ ''.patch''" for q
      using prepare_file [OF 4(1) t, of dat] tp that by simp
    then show ?thesis using less.IH [OF _ 4(4)] 4(3) by auto
  qed
qed

text \<open>With the copy as the source nothing but the \<open>.patch\<close> file and the target is written.\<close>

lemma generate_copy_frame:
  assumes "generate_from l fc False use_fc patch src tgt digest n bonus retry False w = Some (r, w')"
    and t: "\<not> is_partition tgt" and q: "q \<noteq> tgt @ ''.patch''" "q \<noteq> tgt \<or> r \<noteq> 0"
  shows "lookup_file w' q = lookup_file w q"
  using assms(1)
proof (induction retry arbitrary: w rule: less_induct)
  case (less retry)
  from less.prems show ?case
  proof (cases rule: generate_turn)
    case (1 w1)
    then show ?thesis using prepare_file [OF 1(1) t] by auto
  next
    case (2 rt mc w1)
    then show ?thesis using prepare_file [OF 2(1) t] try_patch_file [OF 2(2) t] q by auto
  next
    case (3 rt mc w1 ctx dest w2)
    note tp = try_patch_file [OF 3(2) t]
    from tp have d: "dest = ToFile (tgt @ ''.patch'')" by simp
    from prepare_file [OF 3(1) t] have "\<not> mc" by simp
    then show ?thesis
      using finish_file [OF 3(3) [unfolded d] patch_name(2)] tp prepare_file [OF 3(1) t] q by (cases "r = 0") auto
  next
    case (4 rt mc w1 w2 m)
    have p: "\<not> mc" "lookup_file w1 = lookup_file w" using prepare_file [OF 4(1) t] by auto
    have "lookup_file w' q = lookup_file w2 q" using less.IH [of m w2] 4(3,4) p(1) by simp
    then show ?thesis using try_patch_file [OF 4(2) t] p(2) q by simp
  qed
qed

lemma generate_file_digest:
  assumes "generate_from l fc use_source use_fc patch src tgt digest n bonus retry made_copy w = Some (0, w')"
    and t: "\<not> is_partition tgt" and c: "tgt \<noteq> CACHE_TEMP_SOURCE" and b: "take 8 (value_bytes patch) \<noteq> IMGDIFF2"
  shows "\<exists>f. lookup_file w' tgt = Some f \<and> SHA_hash (l_sha l) (f_data f) = digest"
  using assms(1)
proof (induction retry arbitrary: made_copy w rule: less_induct)
  case (less retry)
  from less.prems show ?case
  proof (cases rule: generate_turn)
    case (2 rt mc w1)
    then show ?thesis using try_patch_file [OF 2(2) t] by simp
  next
    case (3 rt mc w1 ctx dest w2)
    note tp = try_patch_file [OF 3(2) t]
    from tp have d: "dest = ToFile (tgt @ ''.patch'')" by simp
    then show ?thesis using finish_file [OF 3(3) [unfolded d] patch_name(2)] tp b c by auto
  next
    case (4 rt mc w1 w2 m)
    then show ?thesis using less.IH [of m mc w2] by simp
  qed simp
qed

section \<open>Applying, as a whole\<close>

lemma pick_patch_mem: "pick_patch fc strs patches = Some (Some v) \<Longrightarrow> v \<in> set patches"
  by (auto simp: pick_patch_def Let_def split: if_splits)

definition target_name :: "string \<Rightarrow> string \<Rightarrow> string" where
  "target_name src tgt = (if tgt = ''-'' then src else tgt)"

text \<open>The ways \<open>applypatch\<close> can end; each starts with loading, which changes no file.\<close>

lemma applypatch_cases:
  assumes "applypatch l src tgt sha_str n strs patches bonus sf0 cf0 w = Some (r, w')"
  obtains (failed) "r = 1" "lookup_file w' = lookup_file w"
  | (already) digest fc fc0 where "ParseSha1 sha_str = Some digest" "r = 0" "fc_sha1 fc = digest"
      "LoadFileContents (l_sha l) (l_mtd l) (target_name src tgt) fc0 True w = Some ((0, fc), w')"
  | (from_source) digest fc0 fc wa r0 wb w1 v where "ParseSha1 sha_str = Some digest" "lookup_file wa = lookup_file w"
      "LoadFileContents (l_sha l) (l_mtd l) src fc0 True wa = Some ((r0, fc), wb)" "fc_data fc \<noteq> None"
      "v \<in> set patches" "lookup_file w1 = lookup_file w"
      "GenerateTarget l fc (Some v) cf0 None src (target_name src tgt) digest n (map_option value_bytes bonus) w1 = Some (r, w')"
  | (from_copy) digest fc copy w1 v where "ParseSha1 sha_str = Some digest" "v \<in> set patches" "fc_data fc = None"
      "lookup_file w1 = lookup_file w"
      "GenerateTarget l fc None copy (Some v) src (target_name src tgt) digest n (map_option value_bytes bonus) w1 = Some (r, w')"
proof (cases "ParseSha1 sha_str")
  case None
  then show ?thesis using assms failed by (auto simp: applypatch_def Let_def)
next
  case (Some digest)
  let ?t = "target_name src tgt"
  let ?load = "LoadFileContents (l_sha l) (l_mtd l)"
  from assms Some obtain r1 fc1 w1 where 1: "?load ?t (sf0\<lparr>fc_data := None\<rparr>) True w = Some ((r1, fc1), w1)"
    by (auto simp: applypatch_def target_name_def Let_def split: bind_splits)
  note l1 = load_lookup [OF 1]
  show ?thesis
  proof (cases "r1 = 0 \<and> fc_sha1 fc1 = digest")
    case True
    with assms Some 1 have "r = 0" "w' = w1" by (auto simp: applypatch_def target_name_def Let_def)
    with 1 True Some already show ?thesis by auto
  next
    case False
    define again where "again \<longleftrightarrow> fc_data fc1 = None \<or> ?t \<noteq> src"
    from assms Some 1 False obtain fc w2 where
      2: "(if again then do { ((_, f), w2) \<leftarrow> ?load src (fc1\<lparr>fc_data := None\<rparr>) True w1; Some (f, w2) }
           else Some (fc1, w1)) = Some (fc, w2)"
      by (auto simp: applypatch_def target_name_def again_def Let_def split: bind_splits)
    have "\<exists>fc0 wa r0. ?load src fc0 True wa = Some ((r0, fc), w2) \<and> lookup_file wa = lookup_file w"
    proof (cases again)
      case True
      with 2 obtain r0 where "?load src (fc1\<lparr>fc_data := None\<rparr>) True w1 = Some ((r0, fc), w2)" by (auto split: bind_splits)
      with l1 show ?thesis by blast
    next
      case False
      with 1 2 have "?load src (sf0\<lparr>fc_data := None\<rparr>) True w = Some ((r1, fc), w2)" by (auto simp: again_def)
      then show ?thesis by blast
    qed
    then obtain fc0 wa r0 where a: "?load src fc0 True wa = Some ((r0, fc), w2)" "lookup_file wa = lookup_file w" by blast
    have l2: "lookup_file w2 = lookup_file w" using load_lookup [OF a(1)] a(2) by simp
    define pick where "pick = (if fc_data fc \<noteq> None then pick_patch fc strs patches else Some None)"
    have rest: "do { source_patch_value \<leftarrow> pick;
            case source_patch_value of
              Some v \<Rightarrow> GenerateTarget l fc (Some v) cf0 None src ?t digest n (map_option value_bytes bonus) w2
            | None \<Rightarrow> do {
                ((r, copy_file), w3) \<leftarrow> ?load CACHE_TEMP_SOURCE (cf0\<lparr>fc_data := None\<rparr>) True w2;
                if r < 0 then Some (1, w3)
                else do {
                  copy_patch_value \<leftarrow> pick_patch copy_file strs patches;
                  case copy_patch_value of
                    None \<Rightarrow> Some (1, w3)
                  | Some v \<Rightarrow> GenerateTarget l (fc\<lparr>fc_data := None\<rparr>) None copy_file (Some v) src ?t digest n
                                (map_option value_bytes bonus) w3 } } } = Some (r, w')"
      using assms Some 1 False 2 unfolding applypatch_def again_def target_name_def pick_def Let_def by simp
    then obtain spv where spv: "pick = Some spv" by (auto split: bind_splits)
    show ?thesis
    proof (cases spv)
      case sv: (Some v)
      then have "v \<in> set patches" "fc_data fc \<noteq> None" using spv pick_patch_mem by (auto simp: pick_def split: if_splits)
      with rest spv sv show ?thesis using from_source [OF Some a(2,1) _ _ l2] by simp
    next
      case None
      with rest spv obtain r3 copy w3 where 3: "?load CACHE_TEMP_SOURCE (cf0\<lparr>fc_data := None\<rparr>) True w2 = Some ((r3, copy), w3)"
        by (auto split: bind_splits)
      have l3: "lookup_file w3 = lookup_file w" using load_lookup [OF 3] l2 by simp
      from rest spv None 3 consider "r = 1" "w' = w3"
        | v where "pick_patch copy strs patches = Some (Some v)"
          "GenerateTarget l (fc\<lparr>fc_data := None\<rparr>) None copy (Some v) src ?t digest n (map_option value_bytes bonus) w3 = Some (r, w')"
        by (auto split: if_splits bind_splits option.splits)
      then show ?thesis
        by cases (use l3 failed from_copy [OF Some pick_patch_mem, of copy strs _ "fc\<lparr>fc_data := None\<rparr>" w3] in auto)
    qed
  qed
qed

lemma GenerateTarget_source:
  "GenerateTarget l fc (Some v) copy pv src tgt digest n bonus w = generate_from l fc True fc v src tgt digest n bonus 1 False w"
  by (simp add: GenerateTarget_def)

lemma GenerateTarget_copy:
  "GenerateTarget l fc None copy (Some v) src tgt digest n bonus w = generate_from l fc False copy v src tgt digest n bonus 1 False w"
  by (simp add: GenerateTarget_def)

text \<open>An example: patching one byte to two.\<close>

definition sample_libs :: "(buffer, unit, buffer, unit, unit, unit) libs" where
  "sample_libs = \<lparr>l_bz = stored_bz, l_z = \<lparr>inflateInit2 = 0, inflate = \<lambda>b n. (0, []), deflateInit2 = \<lambda>_ _. (), deflate = \<lambda>_ _. (0, [], ())\<rparr>,
     l_sha = sample_sha, l_mtd = sample_mtd, l_malloc_ok = \<lambda>_. True\<rparr>"

definition sample_patch :: Value where
  "sample_patch = \<lparr>vtype = VAL_BLOB, vsize = 58, vdata = map (\<lambda>b. char_of (unat b)) (patch_file (ctrl_bytes (1, 1, 0)) [2] [8] 2)\<rparr>"

definition sample_system :: "nat list \<Rightarrow> unit world" where
  "sample_system as = \<lparr>files = [(''/system/a'', \<lparr>f_data = [5], f_mode = 0, f_uid = 0, f_gid = 0, f_reg = True\<rparr>)],
     procs = [], answers = as, mtd_partitions_scanned = False, flash = ()\<rparr>"

abbreviation sample_apply :: "nat list \<Rightarrow> (int \<times> unit world) option" where
  "sample_apply as \<equiv> applypatch sample_libs ''/system/a'' ''-'' ''0708000000000000000000000000000000000000'' 2
     [''0500000000000000000000000000000000000000''] [sample_patch] None blank_contents blank_contents (sample_system as)"

lemma byte_of_char: "of_char (char_of (unat b)) = (b :: byte)"
proof -
  have "unat b < 2 ^ LENGTH(8)" by (rule unsigned_less)
  then have "of_nat (of_char (char_of (unat b)) :: nat) = b" by simp
  then show ?thesis by (simp only: of_nat_of_char)
qed

lemma sample_patch_bytes: "value_bytes sample_patch = patch_file (ctrl_bytes (1, 1, 0)) [2] [8] 2"
  by (simp add: sample_patch_def value_bytes_def comp_def byte_of_char)

lemma sample_patch_head: "take 8 (value_bytes sample_patch) = BSDIFF40" "8 \<le> length (value_bytes sample_patch)"
  by (simp_all add: sample_patch_bytes patch_file_def BSDIFF40_def)

lemma sample_run:
  "run_patch sample_libs [5] (Suc 0) (value_bytes sample_patch) bonus sink token =
    Some (Some (let (n, token1) = sink [7, 8] token in if n < 2 then (1, token1, []) else (0, token1, [7, 8])))"
  using sample_patch_head stored_patch [folded sample_patch_bytes]
  by (simp add: run_patch_def sample_libs_def sample_sha_def ApplyBSDiffPatch_def Let_def split: prod.split)

lemma sample_masked: "masked [5] [5]"
  by (simp add: masked_def retouch_mask_data_def to_int32_def RETOUCH_DATA_MATCHED_def)

lemma applypatch_file_digest:
  assumes run: "applypatch l src tgt sha_str n strs patches bonus sf0 cf0 w = Some (0, w')"
    and t: "\<not> is_partition (target_name src tgt)" "target_name src tgt \<noteq> CACHE_TEMP_SOURCE"
    and b: "\<And>v. v \<in> set patches \<Longrightarrow> take 8 (value_bytes v) \<noteq> IMGDIFF2"
  shows "\<exists>digest f dat. ParseSha1 sha_str = Some digest \<and> lookup_file w' (target_name src tgt) = Some f
    \<and> SHA_hash (l_sha l) dat = digest
    \<and> (dat = f_data f \<or> masked (f_data f) dat \<and> lookup_file w' = lookup_file w)"
  using run
proof (cases rule: applypatch_cases)
  case (already digest fc fc0)
  obtain dat where dat: "fc_data fc = Some dat" using load_ok_data [OF already(4)] by auto
  from load_file_data [OF already(4) t(1) dat] load_lookup [OF already(4)] already show ?thesis by auto
next
  case (from_source digest fc0 fc wa r0 wb w1 v)
  then show ?thesis using generate_file_digest [OF from_source(7) [unfolded GenerateTarget_source] t b] by auto
next
  case (from_copy digest fc copy w1 v)
  then show ?thesis using generate_file_digest [OF from_copy(5) [unfolded GenerateTarget_copy] t b] by auto
qed simp

text \<open>C3: when \<open>applypatch\<close> returns zero for a target file, the file at the end has the target's digest:
  it was patched, or it already had it (after the retouching is masked) and then no file has changed.
  This holds for bsdiff patches, whatever the kernel answered.\<close>

theorem applypatch_success:
  assumes run: "applypatch l src tgt sha_str n strs patches bonus sf0 cf0 w = Some (0, w')"
    and t: "\<not> is_partition (target_name src tgt)" "target_name src tgt \<noteq> CACHE_TEMP_SOURCE"
    and b: "\<And>v. v \<in> set patches \<Longrightarrow> take 8 (value_bytes v) \<noteq> IMGDIFF2"
  shows "\<exists>digest f dat. ParseSha1 sha_str = Some digest \<and> lookup_file w' (target_name src tgt) = Some f
    \<and> SHA_hash (l_sha l) dat = digest
    \<and> (dat = f_data f \<or> masked (f_data f) dat \<and> lookup_file w' = lookup_file w)"
  using run t b by (rule applypatch_file_digest)

text \<open>C4: a failed \<open>applypatch\<close> for a target file loses nothing: every file outside of the cache partition
  other than the unfinished \<open>.patch\<close> file is as before, except that the source file may be gone, and
  then the saved source file holds its data, whatever the kernel answered.\<close>

theorem applypatch_no_loss:
  assumes run: "applypatch l src tgt sha_str n strs patches bonus sf0 cf0 w = Some (r, w')" "r \<noteq> 0"
    and t: "\<not> is_partition (target_name src tgt)"
    and p: "\<not> on_cache p" "p \<noteq> target_name src tgt @ ''.patch''"
    and s: "\<not> is_partition src" "\<And>f. lookup_file w src = Some f \<Longrightarrow> length (f_data f) < 2 ^ 31"
  shows "lookup_file w' p = lookup_file w p
    \<or> p = src \<and> (\<exists>f dat. lookup_file w src = Some f \<and> masked (f_data f) dat \<and> saved dat w')"
  using run(1)
proof (cases rule: applypatch_cases)
  case (from_source digest fc0 fc wa r0 wb w1 v)
  from from_source(4) obtain dat where dat: "fc_data fc = Some dat" by auto
  obtain f where f: "lookup_file w src = Some f" "masked (f_data f) dat" "fc_size fc = length dat"
    using load_file_data [OF from_source(3) s(1) dat] from_source(2) s(2) masked_length by metis
  show ?thesis
    using generate_file_frame [OF from_source(7) [unfolded GenerateTarget_source] t run(2), of dat] from_source(6) p f dat
    by (cases "p = src") auto
next
  case (from_copy digest fc copy w1 v)
  then show ?thesis using generate_copy_frame [OF from_copy(5) [unfolded GenerateTarget_copy] t p(2)] run(2) by simp
qed (use run(2) in auto)

section \<open>Partitions\<close>

lemma generate_partition:
  assumes "generate_from l fc use_source use_fc patch src tgt digest n bonus retry made_copy w = Some (0, w')"
    and t: "is_partition tgt" and sha: "sha_absorbs (SHA_update (l_sha l))"
  shows "\<exists>bs w1 w2. SHA_hash (l_sha l) bs = digest \<and> WriteToPartition (l_mtd l) bs tgt w1 = Some (0, w2)
    \<and> (\<forall>q. q \<noteq> CACHE_TEMP_SOURCE \<longrightarrow> lookup_file w' q = lookup_file w2 q) \<and> flash w' = flash w2"
  using assms(1)
proof (cases rule: generate_turn)
  case (2 rt mc w1)
  then show ?thesis using t by (auto simp: try_patch_def split: if_splits bind_splits option.splits)
next
  case (3 rt mc w1 ctx dest w2)
  from 3(2) t obtain msi old where d: "dest = ToMemory msi"
    "run_patch l old (fc_size use_fc) (value_bytes patch) bonus MemorySink \<lparr>msi_buffer = [], msi_size = int n\<rparr>
       = Some (Some (0, msi, ctx))"
    by (auto simp: try_patch_def split: if_splits bind_splits option.splits)
  from finish_memory [OF 3(3) [unfolded d(1)]] run_patch_memory [OF d(2) sha] show ?thesis by auto
next
  case (4 rt mc w1 w2 m)
  from 4(1) t have "rt = 0" by (auto simp: prepare_def split: prod.splits if_splits)
  with 4(2) t have False by (auto simp: try_patch_def split: if_splits bind_splits option.splits)
  then show ?thesis ..
qed simp

text \<open>C6: when \<open>applypatch\<close> returns zero for an EMMC partition, the device begins with bytes of the target's
  digest, whether they were patched and read back or found there before (a target of no bytes is not looked for). This
  holds for both patch formats, whatever the kernel answered.\<close>

theorem applypatch_partition:
  assumes run: "applypatch l src tgt sha_str n strs patches bonus sf0 cf0 w = Some (0, w')"
    and t: "is_partition (target_name src tgt)" "tokens (target_name src tgt) = ''EMMC'' # part # rest" "part \<noteq> CACHE_TEMP_SOURCE"
    and sha: "sha_absorbs (SHA_update (l_sha l))"
  shows "\<exists>digest bs. ParseSha1 sha_str = Some digest \<and> SHA_hash (l_sha l) bs = digest
    \<and> (bs = [] \<or> (\<exists>f. lookup_file w' part = Some f \<and> take (length bs) (f_data f) = bs))"
  using run
proof (cases rule: applypatch_cases)
  case (already digest fc fc0)
  then have "LoadPartitionContents (l_sha l) (l_mtd l) (target_name src tgt) (fc0\<lparr>fc_data := None\<rparr>) w = Some ((0, fc), w')"
    using t(1) by (simp add: LoadFileContents_def Let_def)
  from load_partition_device [OF sha this t(2)] already show ?thesis by auto
next
  case (from_source digest fc0 fc wa r0 wb w1 v)
  obtain bs wa wb where "SHA_hash (l_sha l) bs = digest"
    "WriteToPartition (l_mtd l) bs (target_name src tgt) wa = Some (0, wb)" "lookup_file w' part = lookup_file wb part"
    using generate_partition [OF from_source(7) [unfolded GenerateTarget_source] t(1) sha] t(3) by blast
  with write_verified [OF _ t(2), of "l_mtd l" bs wa wb] from_source(1) show ?thesis by auto
next
  case (from_copy digest fc copy w1 v)
  obtain bs wa wb where "SHA_hash (l_sha l) bs = digest"
    "WriteToPartition (l_mtd l) bs (target_name src tgt) wa = Some (0, wb)" "lookup_file w' part = lookup_file wb part"
    using generate_partition [OF from_copy(5) [unfolded GenerateTarget_copy] t(1) sha] t(3) by blast
  with write_verified [OF _ t(2), of "l_mtd l" bs wa wb] from_copy(1) show ?thesis by auto
qed simp

text \<open>For a flash partition the guarantee is that of the flash layer.\<close>

context mtd_reader
begin

lemma applypatch_flash:
  assumes run: "applypatch l src tgt sha_str n strs patches bonus sf0 cf0 w = Some (0, w')"
    and t: "is_partition (target_name src tgt)" "tokens (target_name src tgt) = ''MTD'' # part # rest"
    and sha: "sha_absorbs (SHA_update (l_sha l))" and l: "l_mtd l = mtd"
  shows "\<exists>digest bs. ParseSha1 sha_str = Some digest \<and> SHA_hash (l_sha l) bs = digest \<and> begins (flash w') part bs"
  using run
proof (cases rule: applypatch_cases)
  case (already digest fc fc0)
  then have "LoadPartitionContents (l_sha l) mtd (target_name src tgt) (fc0\<lparr>fc_data := None\<rparr>) w = Some ((0, fc), w')"
    using t(1) l by (simp add: LoadFileContents_def Let_def)
  from load_partition_begins [OF sha this t(2)] already show ?thesis by auto
next
  case (from_source digest fc0 fc wa r0 wb w1 v)
  from generate_partition [OF from_source(7) [unfolded GenerateTarget_source] t(1) sha] obtain bs wa wb where
    "SHA_hash (l_sha l) bs = digest" "WriteToPartition mtd bs (target_name src tgt) wa = Some (0, wb)" "flash w' = flash wb"
    using l by auto
  with held [OF written_holds [OF _ t(2)]] from_source(1) show ?thesis by metis
next
  case (from_copy digest fc copy w1 v)
  from generate_partition [OF from_copy(5) [unfolded GenerateTarget_copy] t(1) sha] obtain bs wa wb where
    "SHA_hash (l_sha l) bs = digest" "WriteToPartition mtd bs (target_name src tgt) wa = Some (0, wb)" "flash w' = flash wb"
    using l by auto
  with held [OF written_holds [OF _ t(2)]] from_copy(1) show ?thesis by metis
qed simp

end

section \<open>Example runs\<close>

lemma sample_values:
  "ParseSha1 ''0708000000000000000000000000000000000000'' = Some ([7, 8] @ replicate 18 0)"
  "FindMatchingPatch (5 # replicate 19 0) [''0500000000000000000000000000000000000000''] = 0"
  "SHA_hash sample_sha [5] = 5 # replicate 19 0" "SHA_final sample_sha [7, 8] = [7, 8] @ replicate 18 0"
  "\<not> is_partition ''/system/a''" "target_fs ''/system/a'' = ''/system''"
  by code_simp+

lemma sample_load:
  "as = [] \<or> take 3 as = [0, 0, 0] \<Longrightarrow> LoadFileContents sample_sha sample_mtd ''/system/a'' fc True (sample_system as) =
   Some ((0, fc\<lparr>fc_data := Some [5], fc_sha1 := 5 # replicate 19 0, fc_size := 1, fc_mode := 0, fc_uid := 0, fc_gid := 0\<rparr>),
     sample_system (drop 3 as))"
  by (auto simp add: LoadFileContents_def sample_values sys_ok_def sys_amount_def answer_def lookup_file_def
      retouch_mask_data_def to_int32_def RETOUCH_DATA_MATCHED_def sample_system_def Let_def numeral_3_eq_3 take_Suc_conv_app_nth
      split: list.splits)


definition sample_contents :: FileContents where
  "sample_contents = \<lparr>fc_sha1 = 5 # replicate 19 0, fc_data = Some [5], fc_size = 1, fc_mode = 0, fc_uid = 0, fc_gid = 0\<rparr>"

lemma sample_start:
  "as = [] \<or> take 3 as = [0, 0, 0] \<Longrightarrow> sample_apply as =
    generate_from sample_libs sample_contents True sample_contents sample_patch ''/system/a'' ''/system/a''
      ([7, 8] @ replicate 18 0) 2 None 1 False (sample_system (drop 3 as))"
  using sample_load [of as "blank_contents\<lparr>fc_data := None\<rparr>"]
  by (simp add: applypatch_def sample_values sample_libs_def pick_patch_def GenerateTarget_source blank_contents_def sample_contents_def Let_def)

lemma sample_lib_fields: "l_sha sample_libs = sample_sha" "l_mtd sample_libs = sample_mtd" "l_malloc_ok sample_libs = (\<lambda>_. True)"
  by (simp_all add: sample_libs_def)

lemma sample_patch_type: "vtype sample_patch = VAL_BLOB"
  by (simp add: sample_patch_def)

lemmas sample_eval = sample_values sample_run sample_patch_type try_patch_def finish_def prepare_def FreeSpaceForFile_def SIZE_MAX_def
  open_trunc_def chmod_def chown_def rename_def sys_ok_def sys_amount_def answer_def lookup_file_def store_file_def delete_file_def
  FileSink_def file_sink.simps append_file_def

lemma sample_success: "map_option fst (sample_apply []) = Some 0"
proof -
  have p: "prepare sample_contents True ''/system/a'' ''/system/a'' 2 (Suc 0) False (sample_system []) = (Some (Suc 0, False), sample_system [])"
    by (simp add: sample_eval sample_system_def)
  obtain w1 where t: "try_patch sample_libs sample_contents sample_patch ''/system/a'' 2 None (Suc 0) (sample_system [])
   = Some (Produced [7, 8] (ToFile ''/system/a.patch''), w1)" "lookup_file w1 ''/system/a.patch'' \<noteq> None" "answers w1 = []"
    by (simp add: sample_eval sample_contents_def sample_system_def Let_def)
  show ?thesis using t(2,3)
  by (subst sample_start) (auto simp add: generate_from.simps p t(1) finish_def sample_values sample_lib_fields chmod_def chown_def rename_def
    sys_ok_def answer_def Let_def)
qed

lemma not_image: "BSDIFF40 \<noteq> IMGDIFF2" by (simp add: BSDIFF40_def IMGDIFF2_def)

theorem applypatch_success_witness:
  "\<exists>w' f dat. sample_apply [] = Some (0, w') \<and> lookup_file w' ''/system/a'' = Some f
    \<and> SHA_hash sample_sha dat = [7, 8] @ replicate 18 0 \<and> (dat = f_data f \<or> masked (f_data f) dat)"
proof -
  from sample_success obtain w' where w': "sample_apply [] = Some (0, w')" by auto
  have "''/system/a'' \<noteq> CACHE_TEMP_SOURCE" by (simp add: CACHE_TEMP_SOURCE_def)
  with applypatch_success [OF w'] w' sample_values(1,5) not_image sample_patch_head(1) show ?thesis
    by (auto simp: target_name_def sample_libs_def)
qed

lemma sample_failure: "\<exists>w'. sample_apply [0, 0, 0, 1, 0, 0, 0, 0, 0, 0, 0, 1] = Some (1, w') \<and> lookup_file w' ''/system/a'' = None"
proof -
  have p: "\<exists>w1. prepare sample_contents True ''/system/a'' ''/system/a'' 2 (Suc 0) False (sample_system [1, 0, 0, 0, 0, 0, 0, 0, 1])
    = (Some (0, True), w1) \<and> lookup_file w1 ''/system/a'' = None \<and> answers w1 = [1]"
    by (simp add: sample_eval sample_system_def backup_def MakeFreeSpaceOnCache_def SaveFileContents_def unlink_def sample_contents_def
       CACHE_TEMP_SOURCE_def)
  then obtain w1 where w1: "prepare sample_contents True ''/system/a'' ''/system/a'' 2 (Suc 0) False (sample_system [1, 0, 0, 0, 0, 0, 0, 0, 1])
    = (Some (0, True), w1)" "lookup_file w1 ''/system/a'' = None" "answers w1 = [1]" by auto
  then have "try_patch sample_libs sample_contents sample_patch ''/system/a'' 2 None 0 w1 = Some (Return 1, w1\<lparr>answers := []\<rparr>)"
    by (simp add: try_patch_def sample_patch_type sample_values sample_contents_def open_trunc_def sys_ok_def answer_def)
  with w1 show ?thesis by (subst sample_start) (auto simp: generate_from.simps)
qed

theorem applypatch_no_loss_witness:
  "\<exists>w'. sample_apply [0, 0, 0, 1, 0, 0, 0, 0, 0, 0, 0, 1] = Some (1, w') \<and> lookup_file w' ''/system/a'' = None
    \<and> (\<exists>dat. masked [5] dat \<and> saved dat w')"
proof -
  from sample_failure obtain w' where w': "sample_apply [0, 0, 0, 1, 0, 0, 0, 0, 0, 0, 0, 1] = Some (1, w')"
    "lookup_file w' ''/system/a'' = None" by auto
  have f: "lookup_file (sample_system as) ''/system/a'' = Some \<lparr>f_data = [5], f_mode = 0, f_uid = 0, f_gid = 0, f_reg = True\<rparr>" for as
    by (simp add: sample_system_def lookup_file_def)
  have "\<not> on_cache ''/system/a''" by (simp add: on_cache_def)
  with applypatch_no_loss [OF w'(1), of "''/system/a''"] w' f sample_values(5) show ?thesis
    by (auto simp: target_name_def)
qed

definition sample_flash :: "unit world" where
  "sample_flash = \<lparr>files = [(''/system/a'', \<lparr>f_data = [5], f_mode = 0, f_uid = 0, f_gid = 0, f_reg = True\<rparr>),
      (''/dev/b'', \<lparr>f_data = [0, 0, 0], f_mode = 0, f_uid = 0, f_gid = 0, f_reg = False\<rparr>)],
     procs = [], answers = [], mtd_partitions_scanned = False, flash = ()\<rparr>"

definition sample_target :: string where
  "sample_target = ''EMMC:/dev/b:2:0708000000000000000000000000000000000000''"

abbreviation sample_flash_apply :: "(int \<times> unit world) option" where
  "sample_flash_apply \<equiv> applypatch sample_libs ''/system/a'' sample_target ''0708000000000000000000000000000000000000'' 2
     [''0500000000000000000000000000000000000000''] [sample_patch] None blank_contents blank_contents sample_flash"

lemma sample_target_values: "is_partition sample_target" "tokens sample_target = ''EMMC'' # ''/dev/b'' # [''2'', ''0708000000000000000000000000000000000000'']"
  "sample_target \<noteq> ''-''" "sample_target \<noteq> ''/system/a''"
  by code_simp+

lemma sample_flash_load: "LoadFileContents sample_sha sample_mtd sample_target (blank_contents\<lparr>fc_data := None\<rparr>) True sample_flash =
   Some ((-1, blank_contents\<lparr>fc_size := 2\<rparr>), sample_flash)"
  "LoadFileContents sample_sha sample_mtd ''/system/a'' (blank_contents\<lparr>fc_size := 2, fc_data := None\<rparr>) True sample_flash =
   Some ((0, sample_contents), sample_flash)"
  by code_simp+

lemma sample_flash_success: "map_option fst sample_flash_apply = Some 0"
proof -
  have p: "\<exists>w1. prepare sample_contents True ''/system/a'' sample_target 2 (Suc 0) False sample_flash = (Some (0, True), w1)
      \<and> lookup_file w1 ''/dev/b'' \<noteq> None \<and> answers w1 = []"
    by (simp add: sample_eval sample_target_values sample_flash_def backup_def MakeFreeSpaceOnCache_def SaveFileContents_def sample_contents_def
       CACHE_TEMP_SOURCE_def)
  then obtain w1 f where w1: "prepare sample_contents True ''/system/a'' sample_target 2 (Suc 0) False sample_flash = (Some (0, True), w1)"
      "lookup_file w1 ''/dev/b'' = Some f" "answers w1 = []" by auto
  have t: "try_patch sample_libs sample_contents sample_patch sample_target 2 None 0 w1
      = Some (Produced [7, 8] (ToMemory \<lparr>msi_buffer = [7, 8], msi_size = 2\<rparr>), w1)"
    by (simp add: try_patch_def sample_patch_type sample_target_values sample_contents_def sample_run MemorySink_def sample_lib_fields) 
  have two: "emmc_attempts 2 dev dat st w = emmc_attempts (Suc (Suc 0)) dev dat st w" for dev dat st and w :: "unit world"
    by (simp only: numeral_2_eq_2)
  have "map_option fst (WriteToPartition sample_mtd [7, 8] sample_target w1) = Some 0" using w1(2,3)
    by (simp add: WriteToPartition_def sample_target_values write_emmc_def two write_from.simps
        verify_from.simps read_exact.simps settle_def dev_amount_def sys_ok_def answer_def 
        overwrite_def Let_def)
  then obtain w2 where w2: "WriteToPartition sample_mtd [7, 8] sample_target w1 = Some (0, w2)" by auto
  have "finish sample_libs sample_contents sample_target ([7, 8] @ replicate 18 0) True [7, 8] (ToMemory \<lparr>msi_buffer = [7, 8], msi_size = 2\<rparr>) w1
     = Some (0, snd (unlink CACHE_TEMP_SOURCE w2))"
    using w2 sample_values by (simp add: finish_def sample_libs_def)
  then have "generate_from sample_libs sample_contents True sample_contents sample_patch ''/system/a'' sample_target
      ([7, 8] @ replicate 18 0) 2 None 1 False sample_flash = Some (0, snd (unlink CACHE_TEMP_SOURCE w2))"
    using w1 t by (simp add: generate_from.simps)
  moreover have "fc_data sample_contents \<noteq> None" "fc_sha1 sample_contents = 5 # replicate 19 0"
    by (simp_all add: sample_contents_def)
  ultimately show ?thesis
    using sample_flash_load sample_values sample_target_values(3,4)
    by (simp add: applypatch_def Let_def pick_patch_def GenerateTarget_source sample_lib_fields)
qed

lemma sample_digest_bytes: "SHA_hash sample_sha bs = [7, 8] @ replicate 18 0 \<Longrightarrow> 2 \<le> length bs \<and> take 2 bs = [7, 8]"
proof -
  assume h: "SHA_hash sample_sha bs = [7, 8] @ replicate 18 0"
  have "(bs @ replicate 20 0) ! 0 = 7" "(bs @ replicate 20 0) ! 1 = 8"
    using arg_cong [OF h, of "\<lambda>x. x ! 0"] arg_cong [OF h, of "\<lambda>x. x ! 1"] by (simp_all add: SHA_hash_def sample_sha_def del: take_append)
  moreover have "(7 :: byte) \<noteq> 0" "(8 :: byte) \<noteq> 0" "take 2 (x # y # xs) = [x, y]" for x y :: byte and xs by simp_all
  ultimately show ?thesis by (cases bs rule: remdups_adj.cases) simp_all
qed

theorem applypatch_partition_witness:
  "\<exists>w' f. sample_flash_apply = Some (0, w') \<and> lookup_file w' ''/dev/b'' = Some f \<and> take 2 (f_data f) = [7, 8]"
proof -
  from sample_flash_success obtain w' where w': "sample_flash_apply = Some (0, w')" by auto
  have "target_name ''/system/a'' sample_target = sample_target" "''/dev/b'' \<noteq> CACHE_TEMP_SOURCE"
    using sample_target_values(3) by (simp_all add: target_name_def CACHE_TEMP_SOURCE_def)
  with applypatch_partition [OF w', of "''/dev/b''"] sample_target_values(1,2) sample_sha_absorbs sample_values(1) obtain bs where
    h: "SHA_hash sample_sha bs = [7, 8] @ replicate 18 0" and
    b: "bs = [] \<or> (\<exists>f. lookup_file w' ''/dev/b'' = Some f \<and> take (length bs) (f_data f) = bs)"
    by (auto simp: sample_lib_fields)
  note len = sample_digest_bytes [OF h]
  with b obtain f where f: "lookup_file w' ''/dev/b'' = Some f" "take (length bs) (f_data f) = bs" by auto
  have "take 2 (f_data f) = take 2 (take (length bs) (f_data f))" using len by (simp add: min_def)
  with f len w' show ?thesis by auto
qed

text \<open>When the source of a partition update is bad and the saved copy is to be used, \<open>GenerateTarget\<close>
  first saves the source again, whose data are gone: it empties the saved copy and returns 1.\<close>

theorem saved_copy_destroyed:
  assumes "is_partition tgt" "fc_data fc = None" "fc_size fc \<noteq> 0"
    and "MakeFreeSpaceOnCache (fc_size fc) w = (0, w1)" "sys_ok w1 = (True, w2)"
  shows "\<exists>w'. GenerateTarget l fc None copy (Some v) src tgt digest n bonus w = Some (1, w') \<and> saved [] w'"
proof -
  have "SaveFileContents CACHE_TEMP_SOURCE fc w1 = (-1, snd (open_trunc CACHE_TEMP_SOURCE w1))"
    using assms by (simp add: SaveFileContents_def open_trunc_def)
  moreover have "saved [] (snd (open_trunc CACHE_TEMP_SOURCE w1))"
    using assms by (simp add: saved_def open_trunc_def split: option.splits)
  ultimately show ?thesis
    using assms by (simp add: GenerateTarget_copy generate_from.simps prepare_def backup_def)
qed

theorem saved_copy_destroyed_witness:
  "\<exists>w'. GenerateTarget sample_libs (blank_contents\<lparr>fc_size := 2\<rparr>) None blank_contents (Some sample_patch) sample_partition sample_partition
      ([7, 8] @ replicate 18 0) 2 None (sample_cache\<lparr>answers := []\<rparr>) = Some (1, w') \<and> saved [] w'"
proof (rule saved_copy_destroyed)
  show "is_partition sample_partition" by code_simp
  show "MakeFreeSpaceOnCache (fc_size (blank_contents\<lparr>fc_size := 2\<rparr>)) (sample_cache\<lparr>answers := []\<rparr>) = (0, sample_cache\<lparr>answers := []\<rparr>)"
    by (simp add: MakeFreeSpaceOnCache_def FreeSpaceForFile_def answer_def SIZE_MAX_def)
  show "sys_ok (sample_cache\<lparr>answers := []\<rparr>) = (True, sample_cache\<lparr>answers := []\<rparr>)" by (simp add: sys_ok_def answer_def)
qed (simp_all add: blank_contents_def)

end
