(* ===== verification/Asn1.thy ===== *)
theory Asn1
  imports Prelude
begin

text \<open>
  The DER reader of \<open>asn1_decoder.cpp\<close> and \<open>read_pkcs7\<close> of \<open>verifier.cpp\<close>. A context is the
  memory object its pointer points into, the pointer as an index, and the number of bytes left. A
  byte read outside the object is \<^term>\<open>None\<close>; a null context is \<^term>\<open>Some None\<close>. Whether the
  allocation of a context for a given pointer and length succeeds is the parameter \<open>calloc_ok\<close>.
\<close>

record asn1_context =
  a_mem :: buffer
  a_p :: nat
  a_length :: nat
  app_type :: int

definition kMaskConstructed :: int where "kMaskConstructed = 0xE0"
definition kMaskTag :: int where "kMaskTag = 0x7F"
definition kMaskAppType :: int where "kMaskAppType = 0x1F"
definition kTagOctetString :: int where "kTagOctetString = 0x04"
definition kTagOid :: int where "kTagOid = 0x06"
definition kTagSequence :: int where "kTagSequence = 0x30"
definition kTagSet :: int where "kTagSet = 0x31"
definition kTagConstructed :: int where "kTagConstructed = 0xA0"

section \<open>Reading bytes\<close>

definition asn1_context_new :: "(nat \<Rightarrow> nat \<Rightarrow> bool) \<Rightarrow> buffer \<Rightarrow> nat \<Rightarrow> nat \<Rightarrow> asn1_context option" where
  "asn1_context_new calloc_ok mem p len =
     (if calloc_ok p len then Some \<lparr>a_mem = mem, a_p = p, a_length = len, app_type = 0\<rparr> else None)"

definition peek_byte :: "asn1_context \<Rightarrow> int option" where
  "peek_byte ctx =
     (if a_length ctx = 0 then Some (-1)
      else if a_p ctx < length (a_mem ctx) then Some (uint (a_mem ctx ! a_p ctx)) else None)"

definition get_byte :: "asn1_context \<Rightarrow> (int \<times> asn1_context) option" where
  "get_byte ctx =
     (if a_length ctx = 0 then Some (-1, ctx)
      else if a_p ctx < length (a_mem ctx)
      then Some (uint (a_mem ctx ! a_p ctx), ctx\<lparr>a_p := a_p ctx + 1, a_length := a_length ctx - 1\<rparr>)
      else None)"

definition skip_bytes :: "asn1_context \<Rightarrow> nat \<Rightarrow> bool \<times> asn1_context" where
  "skip_bytes ctx num_skip =
     (if a_length ctx < num_skip then (False, ctx)
      else (True, ctx\<lparr>a_p := a_p ctx + num_skip, a_length := a_length ctx - num_skip\<rparr>))"

text \<open>The octets of a long length; \<open>size_t\<close> has 64 bits.\<close>

definition SIZE_T :: nat where "SIZE_T = 2 ^ 64"

fun length_octets :: "nat \<Rightarrow> nat \<Rightarrow> asn1_context \<Rightarrow> (nat option \<times> asn1_context) option" where
  "length_octets 0 len ctx = Some (Some len, ctx)"
| "length_octets (Suc n) len ctx = do {
     (byte, ctx) \<leftarrow> get_byte ctx;
     if byte = -1 then Some (None, ctx)
     else length_octets n ((len * 256 mod SIZE_T + nat byte) mod SIZE_T) ctx }"

definition decode_length :: "asn1_context \<Rightarrow> (nat option \<times> asn1_context) option" where
  "decode_length ctx = do {
     (num_octets, ctx) \<leftarrow> get_byte ctx;
     if num_octets = -1 then Some (None, ctx)
     else if num_octets AND 0x80 = 0 then Some (Some (nat num_octets), ctx)
     else
       let num_octets = nat (num_octets AND kMaskTag) in
       if 8 \<le> num_octets then Some (None, ctx)
       else length_octets num_octets 0 ctx }"

section \<open>Elements\<close>

text \<open>
  \<open>asn1_constructed_get\<close> stores the type without testing the new context for null. Every getter
  leaves its argument behind the header of the element.
\<close>

definition asn1_constructed_get ::
  "(nat \<Rightarrow> nat \<Rightarrow> bool) \<Rightarrow> asn1_context \<Rightarrow> (asn1_context option \<times> asn1_context) option" where
  "asn1_constructed_get calloc_ok ctx = do {
     (type, ctx) \<leftarrow> get_byte ctx;
     if type = -1 \<or> type AND kMaskConstructed \<noteq> kTagConstructed then Some (None, ctx)
     else do {
       (len, ctx) \<leftarrow> decode_length ctx;
       case len of
         None \<Rightarrow> Some (None, ctx)
       | Some len \<Rightarrow>
           if a_length ctx < len then Some (None, ctx)
           else case asn1_context_new calloc_ok (a_mem ctx) (a_p ctx) len of
             None \<Rightarrow> None
           | Some app_ctx \<Rightarrow> Some (Some (app_ctx\<lparr>app_type := type AND kMaskAppType\<rparr>), ctx) } }"

lemma get_byte_length: "get_byte ctx = Some (b, ctx') \<Longrightarrow> a_length ctx' \<le> a_length ctx"
  by (auto simp: get_byte_def split: if_splits)

lemma length_octets_length: "length_octets n len ctx = Some (r, ctx') \<Longrightarrow> a_length ctx' \<le> a_length ctx"
proof (induction n arbitrary: len ctx)
  case (Suc n)
  then show ?case by (fastforce split: bind_splits if_splits dest: get_byte_length)
qed simp

lemma decode_length_length: "decode_length ctx = Some (r, ctx') \<Longrightarrow> a_length ctx' \<le> a_length ctx"
  by (fastforce simp: decode_length_def Let_def split: bind_splits if_splits
      dest: get_byte_length length_octets_length)

function asn1_constructed_skip_all :: "asn1_context \<Rightarrow> (bool \<times> asn1_context) option" where
  "asn1_constructed_skip_all ctx = do {
     byte \<leftarrow> peek_byte ctx;
     if byte \<noteq> -1 \<and> byte AND kMaskConstructed = kTagConstructed then do {
       (len, ctx1) \<leftarrow> decode_length (snd (skip_bytes ctx 1));
       case len of
         None \<Rightarrow> Some (False, ctx1)
       | Some len \<Rightarrow>
           if fst (skip_bytes ctx1 len) then asn1_constructed_skip_all (snd (skip_bytes ctx1 len))
           else Some (False, ctx1) }
     else Some (byte \<noteq> -1, ctx) }"
  by pat_completeness auto
termination
  by (relation "measure a_length")
    (auto simp: peek_byte_def skip_bytes_def split: if_splits dest!: decode_length_length)

declare asn1_constructed_skip_all.simps [simp del]

definition asn1_constructed_type :: "asn1_context \<Rightarrow> int" where
  "asn1_constructed_type ctx = app_type ctx"

text \<open>\<open>asn1_sequence_get\<close> and \<open>asn1_set_get\<close> differ in the tag only.\<close>

definition element_get ::
  "int \<Rightarrow> (nat \<Rightarrow> nat \<Rightarrow> bool) \<Rightarrow> asn1_context \<Rightarrow> (asn1_context option \<times> asn1_context) option" where
  "element_get tag calloc_ok ctx = do {
     (byte, ctx) \<leftarrow> get_byte ctx;
     if byte AND kMaskTag \<noteq> tag then Some (None, ctx)
     else do {
       (len, ctx) \<leftarrow> decode_length ctx;
       case len of
         None \<Rightarrow> Some (None, ctx)
       | Some len \<Rightarrow>
           if a_length ctx < len then Some (None, ctx)
           else Some (asn1_context_new calloc_ok (a_mem ctx) (a_p ctx) len, ctx) } }"

definition asn1_sequence_get where "asn1_sequence_get = element_get kTagSequence"
definition asn1_set_get where "asn1_set_get = element_get kTagSet"

definition asn1_sequence_next :: "asn1_context \<Rightarrow> (bool \<times> asn1_context) option" where
  "asn1_sequence_next ctx = do {
     (byte, ctx) \<leftarrow> get_byte ctx;
     if byte = -1 then Some (False, ctx)
     else do {
       (len, ctx) \<leftarrow> decode_length ctx;
       case len of None \<Rightarrow> Some (False, ctx) | Some len \<Rightarrow> Some (skip_bytes ctx len) } }"

text \<open>\<open>asn1_oid_get\<close> and \<open>asn1_octet_string_get\<close>: the position and length of the contents.\<close>

definition string_get :: "int \<Rightarrow> asn1_context \<Rightarrow> ((nat \<times> nat) option \<times> asn1_context) option" where
  "string_get tag ctx = do {
     (byte, ctx) \<leftarrow> get_byte ctx;
     if byte \<noteq> tag then Some (None, ctx)
     else do {
       (len, ctx) \<leftarrow> decode_length ctx;
       case len of
         None \<Rightarrow> Some (None, ctx)
       | Some len \<Rightarrow>
           if len = 0 \<or> a_length ctx < len then Some (None, ctx)
           else Some (Some (a_p ctx, len), ctx) } }"

definition asn1_oid_get where "asn1_oid_get = string_get kTagOid"
definition asn1_octet_string_get where "asn1_octet_string_get = string_get kTagOctetString"

section \<open>The signature of a PKCS\#7 block\<close>

text \<open>\<open>asn1_sequence_next\<close> \<open>n\<close> times, joined by \<open>&&\<close>.\<close>

fun nexts :: "nat \<Rightarrow> asn1_context \<Rightarrow> (bool \<times> asn1_context) option" where
  "nexts 0 ctx = Some (True, ctx)"
| "nexts (Suc n) ctx = do {
     (good, ctx) \<leftarrow> asn1_sequence_next ctx;
     if good then nexts n ctx else Some (False, ctx) }"

text \<open>
  \<open>read_pkcs7\<close> on the \<open>len\<close> bytes at \<open>p\<close>. The result is the copied signature; a failing getter or
  allocation of the copy gives \<^term>\<open>Some None\<close>. A getter that yields a null context or false ends the
  walk: \<open>and_then\<close> goes on with a context, \<open>and_also\<close> with the advanced context after a true result.
\<close>

definition and_then ::
  "('a option \<times> asn1_context) option \<Rightarrow> ('a \<Rightarrow> buffer option option) \<Rightarrow> buffer option option" where
  "and_then r f = (case r of None \<Rightarrow> None | Some (None, _) \<Rightarrow> Some None | Some (Some x, _) \<Rightarrow> f x)"

definition and_also ::
  "(bool \<times> asn1_context) option \<Rightarrow> (asn1_context \<Rightarrow> buffer option option) \<Rightarrow> buffer option option" where
  "and_also r f = (case r of None \<Rightarrow> None | Some (good, ctx) \<Rightarrow> if good then f ctx else Some None)"

definition read_pkcs7 ::
  "(nat \<Rightarrow> nat \<Rightarrow> bool) \<Rightarrow> (nat \<Rightarrow> bool) \<Rightarrow> buffer \<Rightarrow> nat \<Rightarrow> nat \<Rightarrow> buffer option option" where
  "read_pkcs7 calloc_ok malloc_ok mem p len =
     (case asn1_context_new calloc_ok mem p len of
        None \<Rightarrow> Some None
      | Some ctx \<Rightarrow>
          and_then (asn1_sequence_get calloc_ok ctx) (\<lambda>pkcs7_seq.
          and_also (asn1_sequence_next pkcs7_seq) (\<lambda>pkcs7_seq.
          and_then (asn1_constructed_get calloc_ok pkcs7_seq) (\<lambda>signed_data_app.
          and_then (asn1_sequence_get calloc_ok signed_data_app) (\<lambda>signed_data_seq.
          and_also (nexts 3 signed_data_seq) (\<lambda>signed_data_seq.
          and_also (asn1_constructed_skip_all signed_data_seq) (\<lambda>signed_data_seq.
          and_then (asn1_set_get calloc_ok signed_data_seq) (\<lambda>sig_set.
          and_then (asn1_sequence_get calloc_ok sig_set) (\<lambda>sig_seq.
          and_also (nexts 4 sig_seq) (\<lambda>sig_seq.
          and_then (asn1_octet_string_get sig_seq) (\<lambda>(ptr, n).
            if \<not> malloc_ok n then Some None
            else if length mem < ptr + n then None
            else Some (Some (take n (drop ptr mem))))))))))))))"

section \<open>Staying inside\<close>

text \<open>\<open>inside mem lo hi ctx\<close>: the bytes left lie in the part of the object from \<open>lo\<close> up to \<open>hi\<close>.\<close>

definition inside :: "buffer \<Rightarrow> nat \<Rightarrow> nat \<Rightarrow> asn1_context \<Rightarrow> bool" where
  "inside mem lo hi ctx \<longleftrightarrow> a_mem ctx = mem \<and> lo \<le> a_p ctx \<and> a_p ctx + a_length ctx \<le> hi \<and> hi \<le> length mem"

lemma get_byte_inside:
  assumes "inside mem lo hi ctx"
  shows "\<exists>b ctx'. get_byte ctx = Some (b, ctx') \<and> inside mem lo hi ctx'"
  using assms by (auto simp: get_byte_def inside_def)

lemma length_octets_inside:
  "inside mem lo hi ctx \<Longrightarrow> \<exists>r ctx'. length_octets n len ctx = Some (r, ctx') \<and> inside mem lo hi ctx'"
proof (induction n arbitrary: len ctx)
  case (Suc n)
  from get_byte_inside [OF Suc.prems] obtain b ctx1 where b: "get_byte ctx = Some (b, ctx1)" "inside mem lo hi ctx1" by blast
  with Suc.IH [OF b(2)] show ?case by simp
qed simp

lemma decode_length_inside:
  assumes "inside mem lo hi ctx"
  shows "\<exists>r ctx'. decode_length ctx = Some (r, ctx') \<and> inside mem lo hi ctx'"
proof -
  from get_byte_inside [OF assms] obtain b ctx1 where b: "get_byte ctx = Some (b, ctx1)" "inside mem lo hi ctx1" by blast
  with length_octets_inside [OF b(2)] show ?thesis by (auto simp: decode_length_def Let_def)
qed

lemma skip_bytes_inside: "inside mem lo hi ctx \<Longrightarrow> inside mem lo hi (snd (skip_bytes ctx n))"
  by (auto simp: inside_def skip_bytes_def)

lemma context_new_inside:
  "inside mem lo hi ctx \<Longrightarrow> len \<le> a_length ctx \<Longrightarrow> inside mem lo hi \<lparr>a_mem = a_mem ctx, a_p = a_p ctx, a_length = len, app_type = t\<rparr>"
  by (auto simp: inside_def)

text \<open>The results of the getters.\<close>

definition kept :: "buffer \<Rightarrow> nat \<Rightarrow> nat \<Rightarrow> (asn1_context option \<times> asn1_context) option \<Rightarrow> bool" where
  "kept mem lo hi r \<longleftrightarrow> (\<exists>c ctx. r = Some (c, ctx) \<and> (\<forall>c'. c = Some c' \<longrightarrow> inside mem lo hi c'))"

definition moved :: "buffer \<Rightarrow> nat \<Rightarrow> nat \<Rightarrow> (bool \<times> asn1_context) option \<Rightarrow> bool" where
  "moved mem lo hi r \<longleftrightarrow> (\<exists>b ctx. r = Some (b, ctx) \<and> inside mem lo hi ctx)"

lemma element_get_kept:
  assumes "inside mem lo hi ctx"
  shows "kept mem lo hi (element_get tag calloc_ok ctx)"
proof -
  from get_byte_inside [OF assms] obtain b ctx1 where b: "get_byte ctx = Some (b, ctx1)" "inside mem lo hi ctx1" by blast
  from decode_length_inside [OF b(2)] obtain r ctx2 where
    r: "decode_length ctx1 = Some (r, ctx2)" "inside mem lo hi ctx2" by blast
  then show ?thesis
    using b by (auto simp: element_get_def kept_def asn1_context_new_def context_new_inside split: option.splits)
qed

lemma constructed_get_kept:
  assumes "inside mem lo hi ctx" "\<And>p n. calloc_ok p n"
  shows "kept mem lo hi (asn1_constructed_get calloc_ok ctx)"
proof -
  from get_byte_inside [OF assms(1)] obtain b ctx1 where b: "get_byte ctx = Some (b, ctx1)" "inside mem lo hi ctx1" by blast
  from decode_length_inside [OF b(2)] obtain r ctx2 where
    r: "decode_length ctx1 = Some (r, ctx2)" "inside mem lo hi ctx2" by blast
  then show ?thesis
    using b assms(2)
    by (auto simp: asn1_constructed_get_def kept_def asn1_context_new_def context_new_inside split: option.splits)
qed

lemma sequence_next_moved:
  assumes "inside mem lo hi ctx"
  shows "moved mem lo hi (asn1_sequence_next ctx)"
proof -
  from get_byte_inside [OF assms] obtain b ctx1 where b: "get_byte ctx = Some (b, ctx1)" "inside mem lo hi ctx1" by blast
  from decode_length_inside [OF b(2)] obtain r ctx2 where
    r: "decode_length ctx1 = Some (r, ctx2)" "inside mem lo hi ctx2" by blast
  then show ?thesis
    using b skip_bytes_inside [OF r(2)]
    by (auto simp: asn1_sequence_next_def moved_def split: option.splits) (metis prod.collapse snd_conv)
qed

lemma nexts_moved: "inside mem lo hi ctx \<Longrightarrow> moved mem lo hi (nexts n ctx)"
proof (induction n arbitrary: ctx)
  case (Suc n)
  from sequence_next_moved [OF Suc.prems] obtain b ctx1 where "asn1_sequence_next ctx = Some (b, ctx1)" "inside mem lo hi ctx1"
    by (auto simp: moved_def)
  with Suc.IH [of ctx1] show ?case by (auto simp: moved_def)
qed (auto simp: moved_def)

lemma skip_all_moved: "inside mem lo hi ctx \<Longrightarrow> moved mem lo hi (asn1_constructed_skip_all ctx)"
proof (induction ctx rule: asn1_constructed_skip_all.induct)
  case (1 ctx)
  from "1.prems" obtain byte where byte: "peek_byte ctx = Some byte"
    by (cases "a_length ctx = 0") (auto simp: peek_byte_def inside_def)
  show ?case
  proof (cases "byte \<noteq> -1 \<and> byte AND kMaskConstructed = kTagConstructed")
    case False
    then show ?thesis using byte "1.prems" by (subst asn1_constructed_skip_all.simps) (auto simp: moved_def)
  next
    case True
    from decode_length_inside [OF skip_bytes_inside [OF "1.prems"], of 1] obtain r ctx1 where
      r: "decode_length (snd (skip_bytes ctx 1)) = Some (r, ctx1)" "inside mem lo hi ctx1" by blast
    show ?thesis
    proof (cases "\<exists>len. r = Some len \<and> fst (skip_bytes ctx1 len)")
      case True
      then obtain len where len: "r = Some len" "fst (skip_bytes ctx1 len)" by blast
      have "moved mem lo hi (asn1_constructed_skip_all (snd (skip_bytes ctx1 len)))"
        using "1.IH" [OF byte _ r(1) refl len] skip_bytes_inside [OF r(2)] \<open>byte \<noteq> -1 \<and> byte AND kMaskConstructed = kTagConstructed\<close>
        by blast
      with byte r len \<open>byte \<noteq> -1 \<and> byte AND kMaskConstructed = kTagConstructed\<close> show ?thesis
        by (subst asn1_constructed_skip_all.simps) simp
    next
      case False
      then show ?thesis using byte r True
        by (subst asn1_constructed_skip_all.simps) (auto simp: moved_def split: option.splits)
    qed
  qed
qed

lemma string_get_inside:
  assumes "inside mem lo hi ctx"
  shows "\<exists>r ctx'. string_get tag ctx = Some (r, ctx') \<and> (\<forall>p n. r = Some (p, n) \<longrightarrow> lo \<le> p \<and> p + n \<le> hi \<and> 0 < n)"
proof -
  from get_byte_inside [OF assms] obtain b ctx1 where b: "get_byte ctx = Some (b, ctx1)" "inside mem lo hi ctx1" by blast
  from decode_length_inside [OF b(2)] obtain r ctx2 where
    r: "decode_length ctx1 = Some (r, ctx2)" "inside mem lo hi ctx2" by blast
  then show ?thesis
    using b by (auto simp: string_get_def inside_def split: option.splits)
qed

text \<open>A result with the signature inside the block.\<close>

definition found_in :: "buffer \<Rightarrow> nat \<Rightarrow> nat \<Rightarrow> buffer option option \<Rightarrow> bool" where
  "found_in mem lo hi r \<longleftrightarrow> (\<exists>s. r = Some s
     \<and> (\<forall>sig. s = Some sig \<longrightarrow> (\<exists>p n. sig = take n (drop p mem) \<and> lo \<le> p \<and> p + n \<le> hi \<and> 0 < n)))"

lemma and_then_found:
  assumes "kept mem lo hi r" "\<And>c. inside mem lo hi c \<Longrightarrow> found_in mem lo hi (f c)"
  shows "found_in mem lo hi (and_then r f)"
  using assms by (auto simp: kept_def and_then_def found_in_def split: option.splits)

lemma and_also_found:
  assumes "moved mem lo hi r" "\<And>c. inside mem lo hi c \<Longrightarrow> found_in mem lo hi (f c)"
  shows "found_in mem lo hi (and_also r f)"
  using assms by (auto simp: moved_def and_also_def found_in_def)

lemma read_pkcs7_found:
  assumes "p + len \<le> length mem" "\<And>p n. calloc_ok p n"
  shows "found_in mem p (p + len) (read_pkcs7 calloc_ok malloc_ok mem p len)"
proof -
  have start: "inside mem p (p + len) \<lparr>a_mem = mem, a_p = p, a_length = len, app_type = 0\<rparr>"
    using assms(1) by (simp add: inside_def)
  have fin: "found_in mem p (p + len) (and_then (asn1_octet_string_get c) (\<lambda>(ptr, n).
      if \<not> malloc_ok n then Some None else if length mem < ptr + n then None else Some (Some (take n (drop ptr mem)))))"
    if "inside mem p (p + len) c" for c
  proof -
    from string_get_inside [OF that, of kTagOctetString] obtain r ctx' where
      r: "asn1_octet_string_get c = Some (r, ctx')" "\<And>q n. r = Some (q, n) \<Longrightarrow> p \<le> q \<and> q + n \<le> p + len \<and> 0 < n"
      by (auto simp: asn1_octet_string_get_def)
    show ?thesis
    proof (cases r)
      case (Some qn)
      then obtain q n where q: "r = Some (q, n)" by (cases qn) auto
      note qn = r(2) [OF q]
      then have "\<not> length mem < q + n" using assms(1) by simp
      with r(1) q qn show ?thesis by (auto simp: and_then_def found_in_def)
    qed (use r in \<open>simp add: and_then_def found_in_def\<close>)
  qed
  show ?thesis
    unfolding read_pkcs7_def asn1_context_new_def using assms(2)
    by (auto simp: asn1_sequence_get_def asn1_set_get_def
        intro!: and_then_found and_also_found element_get_kept constructed_get_kept sequence_next_moved nexts_moved
          skip_all_moved fin start)
qed

text \<open>C28: on any bytes \<open>read_pkcs7\<close> ends and reads only inside the block it is given, and a signature
  it returns is a non-empty part of that block.\<close>

theorem read_pkcs7_safe:
  assumes "p + len \<le> length mem" "\<And>p n. calloc_ok p n"
  shows "\<exists>s. read_pkcs7 calloc_ok malloc_ok mem p len = Some s
    \<and> (\<forall>sig. s = Some sig \<longrightarrow> (\<exists>q n. sig = take n (drop q mem) \<and> p \<le> q \<and> q + n \<le> p + len \<and> 0 < n))"
  using read_pkcs7_found [OF assms] by (simp add: found_in_def)

theorem read_pkcs7_safe_witness:
  "\<exists>s. read_pkcs7 (\<lambda>_ _. True) (\<lambda>_. True) [0x30, 0x84, 0xff, 0xff, 0xff, 0xff, 0] 0 6 = Some s"
  using read_pkcs7_safe [of 0 6 "[0x30, 0x84, 0xff, 0xff, 0xff, 0xff, 0]" "\<lambda>_ _. True"] by auto

section \<open>Reading what was encoded\<close>

text \<open>The DER encoding of an element: the tag byte, the length in short or long form, the contents.\<close>

fun octets :: "nat \<Rightarrow> buffer" where
  "octets n = (if n < 256 then [of_nat n] else octets (n div 256) @ [of_nat (n mod 256)])"

declare octets.simps [simp del]

definition der_length :: "nat \<Rightarrow> buffer" where
  "der_length n = (if n < 128 then [of_nat n] else of_nat (128 + length (octets n)) # octets n)"

definition der :: "byte \<Rightarrow> buffer \<Rightarrow> buffer" where
  "der tag c = tag # der_length (length c) @ c"

definition be_value :: "nat \<Rightarrow> buffer \<Rightarrow> nat" where
  "be_value acc bs = foldl (\<lambda>v b. v * 256 + unat b) acc bs"

lemma be_value_octets: "be_value 0 (octets n) = n"
proof (induction n rule: octets.induct)
  case (1 n)
  show ?case
  proof (cases "n < 256")
    case True
    then show ?thesis by (subst octets.simps) (simp add: be_value_def unat_of_nat)
  next
    case False
    with 1 have "be_value 0 (octets (n div 256)) = n div 256" by simp
    with False show ?thesis by (subst octets.simps) (simp add: be_value_def unat_of_nat div_mult_mod_eq)
  qed
qed

lemma length_octets_value: "n < 256 ^ k \<Longrightarrow> 0 < k \<Longrightarrow> length (octets n) \<le> k"
proof (induction n arbitrary: k rule: octets.induct)
  case (1 n)
  show ?case
  proof (cases "n < 256")
    case True
    then show ?thesis using "1.prems" by (subst octets.simps) simp
  next
    case False
    then obtain m where k: "k = Suc m" "0 < m" using "1.prems" by (cases k; cases "k - 1") auto
    have "n div 256 < 256 ^ m" using "1.prems"(1) k by (simp add: less_mult_imp_div_less mult.commute)
    with 1 False k show ?thesis by (subst octets.simps) simp
  qed
qed

text \<open>\<open>holds ctx bs\<close>: exactly these bytes are left.\<close>

definition holds :: "asn1_context \<Rightarrow> buffer \<Rightarrow> bool" where
  "holds ctx bs \<longleftrightarrow> a_p ctx + a_length ctx \<le> length (a_mem ctx) \<and> take (a_length ctx) (drop (a_p ctx) (a_mem ctx)) = bs"

lemma holds_length: "holds ctx bs \<Longrightarrow> a_length ctx = length bs"
  by (auto simp: holds_def)

lemma holds_byte:
  assumes "holds ctx (b # bs)"
  shows "a_length ctx \<noteq> 0" "a_p ctx < length (a_mem ctx)" "a_mem ctx ! a_p ctx = b"
    "holds (ctx\<lparr>a_p := Suc (a_p ctx), a_length := a_length ctx - 1\<rparr>) bs"
proof -
  from assms show n: "a_length ctx \<noteq> 0" by (cases "a_length ctx = 0") (auto simp: holds_def)
  with assms show l: "a_p ctx < length (a_mem ctx)" by (auto simp: holds_def)
  obtain m where m: "a_length ctx = Suc m" using n by (cases "a_length ctx") auto
  have "drop (a_p ctx) (a_mem ctx) = a_mem ctx ! a_p ctx # drop (Suc (a_p ctx)) (a_mem ctx)" using l by (simp add: Cons_nth_drop_Suc)
  with assms m show "a_mem ctx ! a_p ctx = b" "holds (ctx\<lparr>a_p := Suc (a_p ctx), a_length := a_length ctx - 1\<rparr>) bs"
    by (auto simp: holds_def)
qed

lemma get_byte_holds:
  assumes "holds ctx (b # bs)"
  shows "\<exists>ctx'. get_byte ctx = Some (uint b, ctx') \<and> holds ctx' bs \<and> a_mem ctx' = a_mem ctx"
  using holds_byte [OF assms] by (auto simp: get_byte_def)

lemma peek_byte_holds: "holds ctx (b # bs) \<Longrightarrow> peek_byte ctx = Some (uint b)"
  using holds_byte [of ctx b bs] by (auto simp: peek_byte_def)

lemma skip_bytes_holds:
  assumes "holds ctx (c @ bs)"
  shows "\<exists>ctx'. skip_bytes ctx (length c) = (True, ctx') \<and> holds ctx' bs \<and> a_mem ctx' = a_mem ctx"
proof -
  have l: "a_length ctx = length c + length bs" using holds_length [OF assms] by simp
  have d: "take (length c + length bs) (drop (a_p ctx) (a_mem ctx)) = c @ bs" using assms l by (simp add: holds_def)
  have "take (length bs) (drop (length c + a_p ctx) (a_mem ctx)) = drop (length c) (take (length c + length bs) (drop (a_p ctx) (a_mem ctx)))"
    by (simp add: drop_take)
  with d have "take (length bs) (drop (length c + a_p ctx) (a_mem ctx)) = bs" by simp
  with assms l show ?thesis by (simp add: skip_bytes_def holds_def add.commute)
qed

lemma context_holds:
  assumes "holds ctx (c @ bs)"
  shows "holds \<lparr>a_mem = a_mem ctx, a_p = a_p ctx, a_length = length c, app_type = t\<rparr> c"
proof -
  have "a_length ctx = length c + length bs" using holds_length [OF assms] by simp
  then have "take (length c) (drop (a_p ctx) (a_mem ctx)) = take (length c) (c @ bs)"
    using assms by (metis holds_def min.absorb1 le_add1 take_take)
  with assms \<open>a_length ctx = length c + length bs\<close> show ?thesis by (simp add: holds_def)
qed

lemma be_value_ge: "v \<le> be_value v bs"
proof (induction bs arbitrary: v)
  case (Cons b bs)
  from Cons.IH [of "v * 256 + unat b"] show ?case by (simp add: be_value_def)
qed (simp add: be_value_def)

lemma length_octets_holds:
  "holds ctx (bs @ r) \<Longrightarrow> be_value acc bs < SIZE_T \<Longrightarrow>
    \<exists>ctx'. length_octets (length bs) acc ctx = Some (Some (be_value acc bs), ctx') \<and> holds ctx' r \<and> a_mem ctx' = a_mem ctx"
proof (induction bs arbitrary: acc ctx)
  case (Cons b bs)
  from get_byte_holds [of ctx b "bs @ r"] Cons.prems(1) obtain ctx1 where
    g: "get_byte ctx = Some (uint b, ctx1)" "holds ctx1 (bs @ r)" "a_mem ctx1 = a_mem ctx" by auto
  have lt: "acc * 256 + unat b < SIZE_T"
    using Cons.prems(2) be_value_ge [of "acc * 256 + unat b" bs] by (simp add: be_value_def)
  have "uint b \<noteq> -1" using uint_ge_0 [of b] by (metis neg_0_le_iff_le not_one_le_zero)
  moreover have "(acc * 256 mod SIZE_T + nat (uint b)) mod SIZE_T = acc * 256 + unat b"
    using lt by simp
  ultimately have "length_octets (length (b # bs)) acc ctx = length_octets (length bs) (acc * 256 + unat b) ctx1"
    using g(1) by simp
  moreover have "be_value acc (b # bs) = be_value (acc * 256 + unat b) bs" by (simp add: be_value_def)
  ultimately show ?case
    using g(3) Cons.IH [OF g(2), of "acc * 256 + unat b"] Cons.prems(2) by simp
qed (simp add: be_value_def)

lemma and_exp_zero: "0 \<le> x \<Longrightarrow> x < 2 ^ n \<Longrightarrow> x AND 2 ^ n = (0 :: int)"
proof -
  assume "0 \<le> x" "x < 2 ^ n"
  then have "\<not> bit x n" by (simp add: bit_iff_odd div_pos_pos_trivial)
  then show ?thesis by (intro bit_eqI) (auto simp: bit_and_iff bit_exp_iff)
qed

lemma high_bit: "0 \<le> x \<Longrightarrow> x < 128 \<Longrightarrow> x AND 128 = (0 :: int)"
  using and_exp_zero [of x 7] by simp

lemma uint_small: "m < 256 \<Longrightarrow> uint (of_nat m :: byte) = int m"
  by (simp add: unsigned_of_nat take_bit_nat_eq_self flip: take_bit_of_nat)

lemma decode_length_holds:
  assumes "holds ctx (der_length n @ r)" "n < 256 ^ 7"
  shows "\<exists>ctx'. decode_length ctx = Some (Some n, ctx') \<and> holds ctx' r \<and> a_mem ctx' = a_mem ctx"
proof (cases "n < 128")
  case True
  then have "uint (of_nat n :: byte) = int n" by (intro uint_small) simp
  with get_byte_holds [of ctx "of_nat n" r] assms(1) True high_bit [of "int n"] show ?thesis
    by (auto simp: der_length_def decode_length_def)
next
  case False
  define k where "k = length (octets n)"
  have k: "k \<le> 7" unfolding k_def by (rule length_octets_value) (use assms(2) in simp_all)
  have "k \<noteq> 0" unfolding k_def by (subst octets.simps) simp
  with k have ks: "k \<in> {1, 2, 3, 4, 5, 6, 7}" by auto
  have "uint (of_nat (128 + k) :: byte) = int (128 + k)" by (rule uint_small) (use k in simp)
  with get_byte_holds [of ctx "of_nat (128 + k)" "octets n @ r"] assms(1) False obtain ctx1 where
    g: "get_byte ctx = Some (int (128 + k), ctx1)" "holds ctx1 (octets n @ r)" "a_mem ctx1 = a_mem ctx"
    by (auto simp: der_length_def k_def)
  have "int (128 + k) AND 128 \<noteq> 0" "nat (int (128 + k) AND kMaskTag) = k" using ks by (auto simp: kMaskTag_def)
  moreover have "n < SIZE_T" using assms(2) by (simp add: SIZE_T_def)
  with length_octets_holds [OF g(2), of 0] obtain ctx2 where
    "length_octets k 0 ctx1 = Some (Some n, ctx2)" "holds ctx2 r" "a_mem ctx2 = a_mem ctx1"
    by (auto simp: be_value_octets k_def)
  ultimately show ?thesis using g k by (simp add: decode_length_def Let_def)
qed

lemma sequence_next_holds:
  assumes "holds ctx (der t c @ r)" "length c < 256 ^ 7"
  shows "\<exists>ctx'. asn1_sequence_next ctx = Some (True, ctx') \<and> holds ctx' r \<and> a_mem ctx' = a_mem ctx"
proof -
  from get_byte_holds [of ctx t "der_length (length c) @ c @ r"] assms(1) obtain ctx1 where
    g: "get_byte ctx = Some (uint t, ctx1)" "holds ctx1 (der_length (length c) @ c @ r)" "a_mem ctx1 = a_mem ctx"
    by (auto simp: der_def)
  from decode_length_holds [OF g(2) assms(2)] obtain ctx2 where
    d: "decode_length ctx1 = Some (Some (length c), ctx2)" "holds ctx2 (c @ r)" "a_mem ctx2 = a_mem ctx" using g(3) by auto
  have "uint t \<noteq> -1" using uint_ge_0 [of t] by linarith
  with g d skip_bytes_holds [OF d(2)] show ?thesis by (auto simp: asn1_sequence_next_def)
qed

text \<open>Reading the header of an element and opening a context for its contents.\<close>

lemma header_holds:
  assumes "holds ctx (der t c @ r)" "length c < 256 ^ 7"
  obtains ctx1 ctx2 where "get_byte ctx = Some (uint t, ctx1)" "decode_length ctx1 = Some (Some (length c), ctx2)"
    "\<not> a_length ctx2 < length c" "holds \<lparr>a_mem = a_mem ctx2, a_p = a_p ctx2, a_length = length c, app_type = k\<rparr> c"
    "a_mem ctx2 = a_mem ctx" "take (length c) (drop (a_p ctx2) (a_mem ctx)) = c" "a_p ctx2 + length c \<le> length (a_mem ctx)"
proof -
  from get_byte_holds [of ctx t "der_length (length c) @ c @ r"] assms(1) obtain ctx1 where
    g: "get_byte ctx = Some (uint t, ctx1)" "holds ctx1 (der_length (length c) @ c @ r)" "a_mem ctx1 = a_mem ctx"
    by (auto simp: der_def)
  from decode_length_holds [OF g(2) assms(2)] obtain ctx2 where
    d: "decode_length ctx1 = Some (Some (length c), ctx2)" "holds ctx2 (c @ r)" "a_mem ctx2 = a_mem ctx" using g(3) by auto
  note h = context_holds [OF d(2)]
  have "take (length c) (drop (a_p ctx2) (a_mem ctx)) = c" "a_p ctx2 + length c \<le> length (a_mem ctx)"
    using h [of 0] d(3) by (auto simp: holds_def)
  with g d h holds_length [OF d(2)] that show thesis by simp
qed

lemma element_get_holds:
  assumes "holds ctx (der t c @ r)" "length c < 256 ^ 7" "uint t AND kMaskTag = tag"
  shows "\<exists>c1 ctx1. element_get tag (\<lambda>_ _. True) ctx = Some (Some c1, ctx1) \<and> holds c1 c \<and> a_mem c1 = a_mem ctx"
  using header_holds [OF assms(1,2), of 0] assms(3)
  by (fastforce simp: element_get_def asn1_context_new_def)

lemma constructed_get_holds:
  assumes "holds ctx (der t c @ r)" "length c < 256 ^ 7" "uint t AND kMaskConstructed = kTagConstructed"
  shows "\<exists>c1 ctx1. asn1_constructed_get (\<lambda>_ _. True) ctx = Some (Some c1, ctx1) \<and> holds c1 c \<and> a_mem c1 = a_mem ctx"
proof -
  have "uint t \<noteq> -1" using uint_ge_0 [of t] by linarith
  with header_holds [OF assms(1,2), of "uint t AND kMaskAppType"] assms(3) show ?thesis
    by (fastforce simp: asn1_constructed_get_def asn1_context_new_def)
qed

lemma octet_string_holds:
  assumes "holds ctx (der 4 c @ r)" "length c < 256 ^ 7" "c \<noteq> []"
  shows "\<exists>p ctx1. asn1_octet_string_get ctx = Some (Some (p, length c), ctx1)
    \<and> take (length c) (drop p (a_mem ctx)) = c \<and> p + length c \<le> length (a_mem ctx)"
  using header_holds [OF assms(1,2), of 0] assms(3)
  by (fastforce simp: asn1_octet_string_get_def string_get_def kTagOctetString_def)

definition elements :: "(byte \<times> buffer) list \<Rightarrow> buffer" where
  "elements xs = concat (map (\<lambda>(t, c). der t c) xs)"

lemma elements_simps [simp]: "elements [] = []" "elements ((t, c) # xs) = der t c @ elements xs"
  by (simp_all add: elements_def)

lemma length_der: "length c < length (der t c)"
  by (simp add: der_def)

lemma nexts_holds:
  "holds ctx (elements xs @ r) \<Longrightarrow> length (elements xs) < 256 ^ 7 \<Longrightarrow>
    \<exists>ctx'. nexts (length xs) ctx = Some (True, ctx') \<and> holds ctx' r \<and> a_mem ctx' = a_mem ctx"
proof (induction xs arbitrary: ctx)
  case (Cons x xs)
  obtain t c where x: "x = (t, c)" by (cases x)
  have "length c < 256 ^ 7" "length (elements xs) < 256 ^ 7"
    using Cons.prems(2) length_der [of c t] by (simp_all only: x elements_simps length_append)
  with sequence_next_holds [of ctx t c "elements xs @ r"] Cons.prems(1) x obtain ctx1 where
    1: "asn1_sequence_next ctx = Some (True, ctx1)" "holds ctx1 (elements xs @ r)" "a_mem ctx1 = a_mem ctx" by auto
  from Cons.IH [OF 1(2) \<open>length (elements xs) < 256 ^ 7\<close>] 1 show ?case by auto
qed simp

definition context_tag :: "byte \<Rightarrow> bool" where
  "context_tag t \<longleftrightarrow> uint t AND kMaskConstructed = kTagConstructed"

lemma skip_all_holds:
  "holds ctx (elements xs @ b # r) \<Longrightarrow> length (elements xs) < 256 ^ 7 \<Longrightarrow> \<forall>(t, c) \<in> set xs. context_tag t \<Longrightarrow> \<not> context_tag b
    \<Longrightarrow> \<exists>ctx'. asn1_constructed_skip_all ctx = Some (True, ctx') \<and> holds ctx' (b # r) \<and> a_mem ctx' = a_mem ctx"
proof (induction xs arbitrary: ctx)
  case Nil
  have "uint b \<noteq> -1" using uint_ge_0 [of b] by linarith
  with Nil peek_byte_holds [of ctx b r] show ?case
    by (subst asn1_constructed_skip_all.simps) (simp add: context_tag_def)
next
  case (Cons x xs)
  obtain t c where x: "x = (t, c)" by (cases x)
  have len: "length c < 256 ^ 7" "length (elements xs) < 256 ^ 7"
    using Cons.prems(2) length_der [of c t] by (simp_all only: x elements_simps length_append)
  have h: "holds ctx (t # der_length (length c) @ c @ elements xs @ b # r)" using Cons.prems(1) by (simp add: x der_def)
  from skip_bytes_holds [of ctx "[t]"] h obtain ctx1 where
    1: "skip_bytes ctx 1 = (True, ctx1)" "holds ctx1 (der_length (length c) @ c @ elements xs @ b # r)" "a_mem ctx1 = a_mem ctx" by auto
  from decode_length_holds [OF 1(2) len(1)] obtain ctx2 where
    2: "decode_length ctx1 = Some (Some (length c), ctx2)" "holds ctx2 (c @ elements xs @ b # r)" "a_mem ctx2 = a_mem ctx" using 1(3) by auto
  from skip_bytes_holds [OF 2(2)] obtain ctx3 where
    3: "skip_bytes ctx2 (length c) = (True, ctx3)" "holds ctx3 (elements xs @ b # r)" "a_mem ctx3 = a_mem ctx" using 2(3) by auto
  have "uint t \<noteq> -1" using uint_ge_0 [of t] by linarith
  moreover have "uint t AND kMaskConstructed = kTagConstructed" using Cons.prems(3) by (simp add: x context_tag_def)
  ultimately have "asn1_constructed_skip_all ctx = asn1_constructed_skip_all ctx3"
    using peek_byte_holds [OF h] 1(1) 2(1) 3(1) by (subst asn1_constructed_skip_all.simps) simp
  with Cons.IH [OF 3(2) len(2)] Cons.prems(3,4) 3(3) show ?case by (simp add: x)
qed

text \<open>A PKCS\#7 block with the fields that \<open>read_pkcs7\<close> steps over given as arbitrary elements.\<close>

definition signer_info :: "(byte \<times> buffer) list \<Rightarrow> buffer \<Rightarrow> buffer \<Rightarrow> buffer" where
  "signer_info preface sig attrs = der 0x30 (elements preface @ der 4 sig @ attrs)"

definition pkcs7 ::
  "byte \<Rightarrow> buffer \<Rightarrow> (byte \<times> buffer) list \<Rightarrow> (byte \<times> buffer) list \<Rightarrow> (byte \<times> buffer) list \<Rightarrow> buffer \<Rightarrow> buffer \<Rightarrow> buffer" where
  "pkcs7 t oid preface certs signer sig attrs =
     der 0x30 (der t oid @ der 0xA0 (der 0x30 (elements preface @ elements certs @ der 0x31 (signer_info signer sig attrs))))"

lemma read_pkcs7_finds:
  assumes blk: "take len (drop p mem) = pkcs7 t oid preface certs signer sig attrs" "p + len \<le> length mem" "len < 256 ^ 7"
    and n: "length preface = 3" "length signer = 4" and certs: "\<forall>(t, c) \<in> set certs. context_tag t" and sig: "sig \<noteq> []"
  shows "read_pkcs7 (\<lambda>_ _. True) (\<lambda>_. True) mem p len = Some (Some sig)"
proof -
  let ?si = "elements signer @ der 4 sig @ attrs"
  let ?sd = "elements preface @ elements certs @ der 0x31 (der 0x30 ?si)"
  let ?ci = "der t oid @ der 0xA0 (der 0x30 ?sd)"
  have "length (take len (drop p mem)) = len" using blk(2) by simp
  then have tot: "length (der 0x30 ?ci) = len" by (simp only: blk(1) pkcs7_def signer_info_def)
  have l1: "length ?ci < 256 ^ 7" using length_der [of ?ci "0x30"] tot blk(3) by linarith
  have l2: "length oid < 256 ^ 7" "length (der 0x30 ?sd) < 256 ^ 7"
    using l1 length_der [of oid t] length_der [of "der 0x30 ?sd" "0xA0"] by simp_all
  have l3: "length ?sd < 256 ^ 7" using l2(2) length_der [of ?sd "0x30"] by linarith
  have l4: "length (elements preface) < 256 ^ 7" "length (elements certs) < 256 ^ 7" "length (der 0x30 ?si) < 256 ^ 7"
    using l3 length_der [of "der 0x30 ?si" "0x31"] by simp_all
  have l5: "length ?si < 256 ^ 7" using l4(3) length_der [of ?si "0x30"] by linarith
  have l6: "length (elements signer) < 256 ^ 7" "length sig < 256 ^ 7"
    using l5 length_der [of sig 4] by simp_all
  define c0 where "c0 = \<lparr>a_mem = mem, a_p = p, a_length = len, app_type = 0\<rparr>"
  have h0: "holds c0 (der 0x30 ?ci @ [])" using blk(1,2) by (simp add: c0_def holds_def pkcs7_def signer_info_def)
  have tags: "uint (0x30 :: byte) AND kMaskTag = kTagSequence" "uint (0x31 :: byte) AND kMaskTag = kTagSet"
    "uint (0xA0 :: byte) AND kMaskConstructed = kTagConstructed" "\<not> context_tag 0x31"
    by (simp_all add: kMaskTag_def kTagSequence_def kTagSet_def kMaskConstructed_def kTagConstructed_def context_tag_def)
  obtain c1 x1 where 1: "asn1_sequence_get (\<lambda>_ _. True) c0 = Some (Some c1, x1)" "holds c1 ?ci" "a_mem c1 = mem"
    using element_get_holds [OF h0 l1 tags(1)] by (auto simp: asn1_sequence_get_def c0_def)
  obtain c2 where 2: "asn1_sequence_next c1 = Some (True, c2)" "holds c2 (der 0xA0 (der 0x30 ?sd) @ [])" "a_mem c2 = mem"
    using sequence_next_holds [OF 1(2) l2(1)] 1(3) by auto
  obtain c3 x3 where 3: "asn1_constructed_get (\<lambda>_ _. True) c2 = Some (Some c3, x3)" "holds c3 (der 0x30 ?sd @ [])" "a_mem c3 = mem"
    using constructed_get_holds [OF 2(2) l2(2) tags(3)] 2(3) by auto
  obtain c4 x4 where 4: "asn1_sequence_get (\<lambda>_ _. True) c3 = Some (Some c4, x4)" "holds c4 ?sd" "a_mem c4 = mem"
    using element_get_holds [OF 3(2) l3 tags(1)] 3(3) by (auto simp: asn1_sequence_get_def)
  obtain c5 where 5: "nexts 3 c4 = Some (True, c5)" "holds c5 (elements certs @ der 0x31 (der 0x30 ?si))" "a_mem c5 = mem"
    using nexts_holds [OF 4(2) l4(1)] 4(3) n by auto
  obtain c6 where 6: "asn1_constructed_skip_all c5 = Some (True, c6)" "holds c6 (der 0x31 (der 0x30 ?si) @ [])" "a_mem c6 = mem"
    using skip_all_holds [of c5 certs "0x31"] 5(2,3) l4(2) certs tags(4) by (auto simp: der_def [of "0x31"])
  obtain c7 x7 where 7: "asn1_set_get (\<lambda>_ _. True) c6 = Some (Some c7, x7)" "holds c7 (der 0x30 ?si @ [])" "a_mem c7 = mem"
    using element_get_holds [OF 6(2) l4(3) tags(2)] 6(3) by (auto simp: asn1_set_get_def)
  obtain c8 x8 where 8: "asn1_sequence_get (\<lambda>_ _. True) c7 = Some (Some c8, x8)" "holds c8 ?si" "a_mem c8 = mem"
    using element_get_holds [OF 7(2) l5 tags(1)] 7(3) by (auto simp: asn1_sequence_get_def)
  obtain c9 where 9: "nexts 4 c8 = Some (True, c9)" "holds c9 (der 4 sig @ attrs)" "a_mem c9 = mem"
    using nexts_holds [OF 8(2) l6(1)] 8(3) n by auto
  obtain q x10 where 10: "asn1_octet_string_get c9 = Some (Some (q, length sig), x10)" "take (length sig) (drop q mem) = sig"
    "q + length sig \<le> length mem"
    using octet_string_holds [OF 9(2) l6(2) sig] 9(3) by auto
  show ?thesis
    using 1(1) 2(1) 3(1) 4(1) 5(1) 6(1) 7(1) 8(1) 9(1) 10
    by (simp add: read_pkcs7_def asn1_context_new_def and_then_def and_also_def flip: c0_def)
qed

text \<open>C29: \<open>read_pkcs7\<close> finds the signature in every DER encoding of a PKCS\#7 block, whatever its object
  identifier, version, algorithms, certificates, signer and trailing attributes are.\<close>

theorem read_pkcs7_complete:
  assumes blk: "take len (drop p mem) = pkcs7 t oid preface certs signer sig attrs" "p + len \<le> length mem" "len < 256 ^ 7"
    and n: "length preface = 3" "length signer = 4" and certs: "\<forall>(t, c) \<in> set certs. context_tag t" and sig: "sig \<noteq> []"
  shows "read_pkcs7 (\<lambda>_ _. True) (\<lambda>_. True) mem p len = Some (Some sig)"
  using assms by (rule read_pkcs7_finds)

theorem read_pkcs7_complete_witness:
  "read_pkcs7 (\<lambda>_ _. True) (\<lambda>_. True) (7 # pkcs7 6 [1] [(2, [1]), (0x31, []), (0x30, [])] [(0xA0, [9, 9])]
     [(2, [1]), (0x30, []), (0x30, []), (0x30, [])] [5, 6, 7] [0]) 1 39 = Some (Some [5, 6, 7])"
proof -
  let ?b = "pkcs7 6 [1] [(2, [1]), (0x31, []), (0x30, [])] [(0xA0, [9, 9])] [(2, [1]), (0x30, []), (0x30, []), (0x30, [])] [5, 6, 7] [0]"
  have "length ?b = 39" by (simp add: pkcs7_def signer_info_def der_def der_length_def)
  then show ?thesis
    using read_pkcs7_complete [of 39 1 "7 # ?b" 6 "[1]" "[(2, [1]), (0x31, []), (0x30, [])]" "[(0xA0, [9, 9])]"
        "[(2, [1]), (0x30, []), (0x30, []), (0x30, [])]" "[5, 6, 7]" "[0]"]
    by (simp add: context_tag_def kMaskConstructed_def kTagConstructed_def)
qed

end
