(* ===== verification/Verifier.thy ===== *)
theory Verifier
  imports Asn1 World Digest
begin

text \<open>
  The signature check of \<open>verifier.cpp\<close>. The digests, \<open>RSA_verify\<close> and the elliptic curve routines
  of libmincrypt are parameters. A file is read through the world, so a seek or a read can fail or
  fall short; the progress display is left out. Passing a null key to the libraries and pointing
  before the record that was read are \<^term>\<open>None\<close>.
\<close>

section \<open>Keys and libraries\<close>

record RSAPublicKey =
  rsa_len :: int
  n0inv :: u32
  rsa_n :: "u32 list"
  rsa_rr :: "u32 list"
  exponent :: int

datatype KeyType = RSA | EC

record 'p Certificate =
  hash_len :: nat
  key_type :: KeyType
  rsa :: "RSAPublicKey option"
  ec :: "('p \<times> 'p) option"

record ('c, 'd, 'p) crypto =
  sha1_lib :: "'c shalib"
  sha256_lib :: "'d shalib"
  RSA_verify :: "RSAPublicKey \<Rightarrow> buffer \<Rightarrow> buffer \<Rightarrow> nat \<Rightarrow> bool"
  dsa_sig_unpack :: "buffer \<Rightarrow> ('p \<times> 'p) option"
  p256_from_bin :: "buffer \<Rightarrow> 'p"
  p256_ecdsa_verify :: "'p \<Rightarrow> 'p \<Rightarrow> 'p \<Rightarrow> 'p \<Rightarrow> 'p \<Rightarrow> bool"

definition SHA256_DIGEST_SIZE :: nat where "SHA256_DIGEST_SIZE = 32"
definition RSANUMBYTES :: nat where "RSANUMBYTES = 256"
definition VERIFY_SUCCESS :: int where "VERIFY_SUCCESS = 0"
definition VERIFY_FAILURE :: int where "VERIFY_FAILURE = 1"
definition FOOTER_SIZE :: nat where "FOOTER_SIZE = 6"
definition EOCD_HEADER_SIZE :: nat where "EOCD_HEADER_SIZE = 22"
definition BUFFER_SIZE :: nat where "BUFFER_SIZE = 4096"

section \<open>Verification\<close>

text \<open>\<open>fseek\<close> backwards from the end.\<close>

definition seek_from_end :: "buffer \<Rightarrow> nat \<Rightarrow> 'f world \<Rightarrow> nat option \<times> 'f world" where
  "seek_from_end dat n w =
     (case sys_ok w of (good, w1) \<Rightarrow> (if good \<and> n \<le> length dat then Some (length dat - n) else None, w1))"

definition eocd_marker :: buffer where
  "eocd_marker = [0x50, 0x4b, 0x05, 0x06]"

text \<open>The loop over the record that looks for another marker.\<close>

fun later_marker :: "buffer \<Rightarrow> nat \<Rightarrow> nat \<Rightarrow> bool" where
  "later_marker eocd i 0 = False"
| "later_marker eocd i (Suc n) = (take 4 (drop i eocd) = eocd_marker \<or> later_marker eocd (i + 1) n)"

text \<open>Digesting the signed part in blocks; \<^term>\<open>None\<close> is the return after a short read.\<close>

function hash_loop ::
  "('c, 'd, 'p) crypto \<Rightarrow> bool \<Rightarrow> bool \<Rightarrow> buffer \<Rightarrow> nat \<Rightarrow> nat \<Rightarrow> 'c \<Rightarrow> 'd \<Rightarrow> 'f world \<Rightarrow> ('c \<times> 'd) option \<times> 'f world" where
  "hash_loop lib need_sha1 need_sha256 dat signed_len so_far sha1_ctx sha256_ctx w =
     (if so_far < signed_len then
        let sz = min BUFFER_SIZE (signed_len - so_far) in
        case fread dat so_far sz w of (buf, w1) \<Rightarrow>
          if length buf \<noteq> sz then (None, w1)
          else hash_loop lib need_sha1 need_sha256 dat signed_len (so_far + sz)
                 (if need_sha1 then SHA_update (sha1_lib lib) sha1_ctx buf else sha1_ctx)
                 (if need_sha256 then SHA_update (sha256_lib lib) sha256_ctx buf else sha256_ctx) w1
      else (Some (sha1_ctx, sha256_ctx), w))"
  by pat_completeness auto
termination
  by (relation "measure (\<lambda>(_, _, _, _, signed_len, so_far, _). signed_len - so_far)") (auto simp: BUFFER_SIZE_def)

declare hash_loop.simps [simp del]

text \<open>The loop over the keys.\<close>

fun try_keys ::
  "('c, 'd, 'p) crypto \<Rightarrow> 'p Certificate list \<Rightarrow> buffer \<Rightarrow> buffer \<Rightarrow> buffer \<Rightarrow> bool option" where
  "try_keys lib [] sha1 sha256 sig_der = Some False"
| "try_keys lib (k # ks) sha1 sha256 sig_der =
     (if hash_len k \<noteq> SHA_DIGEST_SIZE \<and> hash_len k \<noteq> SHA256_DIGEST_SIZE
      then try_keys lib ks sha1 sha256 sig_der
      else
        let hash = (if hash_len k = SHA_DIGEST_SIZE then sha1 else sha256) in
        if key_type k = RSA then
          (if length sig_der < RSANUMBYTES then try_keys lib ks sha1 sha256 sig_der
           else case rsa k of
             None \<Rightarrow> None
           | Some key \<Rightarrow>
               if RSA_verify lib key (take RSANUMBYTES sig_der) hash (hash_len k) then Some True
               else try_keys lib ks sha1 sha256 sig_der)
        else if hash_len k = SHA256_DIGEST_SIZE then
          (case dsa_sig_unpack lib sig_der of
             None \<Rightarrow> try_keys lib ks sha1 sha256 sig_der
           | Some (r, s) \<Rightarrow>
               (case ec k of
                  None \<Rightarrow> None
                | Some (x, y) \<Rightarrow>
                    if p256_ecdsa_verify lib x y (p256_from_bin lib hash) r s then Some True
                    else try_keys lib ks sha1 sha256 sig_der))
        else try_keys lib ks sha1 sha256 sig_der)"

text \<open>From the point on where the record was read to the end of \<open>verify_file\<close>.\<close>

definition check_record ::
  "('c, 'd, 'p) crypto \<Rightarrow> (nat \<Rightarrow> nat \<Rightarrow> bool) \<Rightarrow> (nat \<Rightarrow> bool) \<Rightarrow> 'p Certificate list \<Rightarrow> buffer \<Rightarrow> nat \<Rightarrow> nat \<Rightarrow> buffer \<Rightarrow> 'f world
     \<Rightarrow> (int \<times> 'f world) option" where
  "check_record lib calloc_ok malloc_ok pKeys dat signed_len signature_start eocd w =
     (let eocd_size = length eocd in
      if take 4 eocd \<noteq> eocd_marker then Some (VERIFY_FAILURE, w)
      else if later_marker eocd 4 (eocd_size - 7) then Some (VERIFY_FAILURE, w)
      else
        let need_sha1 = (\<exists>k \<in> set pKeys. hash_len k = SHA_DIGEST_SIZE);
            need_sha256 = (\<exists>k \<in> set pKeys. hash_len k = SHA256_DIGEST_SIZE) in
        if \<not> malloc_ok BUFFER_SIZE then Some (VERIFY_FAILURE, w)
        else
          case hash_loop lib need_sha1 need_sha256 dat signed_len 0 (SHA_init (sha1_lib lib)) (SHA_init (sha256_lib lib)) w of
            (None, w1) \<Rightarrow> Some (VERIFY_FAILURE, w1)
          | (Some (c1, c2), w1) \<Rightarrow>
              let sha1 = SHA_final (sha1_lib lib) c1; sha256 = SHA_final (sha256_lib lib) c2;
                  signature_size = signature_start - FOOTER_SIZE in
              if eocd_size < signature_start then None
              else do {
                sig_der \<leftarrow> read_pkcs7 calloc_ok malloc_ok eocd (eocd_size - signature_start) signature_size;
                case sig_der of
                  None \<Rightarrow> Some (VERIFY_FAILURE, w1)
                | Some sig_der \<Rightarrow> do {
                    good \<leftarrow> try_keys lib pKeys sha1 sha256 sig_der;
                    Some (if good then VERIFY_SUCCESS else VERIFY_FAILURE, w1) } })"

definition verify_file ::
  "('c, 'd, 'p) crypto \<Rightarrow> (nat \<Rightarrow> nat \<Rightarrow> bool) \<Rightarrow> (nat \<Rightarrow> bool) \<Rightarrow> string \<Rightarrow> 'p Certificate list \<Rightarrow> 'f world
     \<Rightarrow> (int \<times> 'f world) option" where
  "verify_file lib calloc_ok malloc_ok path pKeys w =
     (case sys_ok w of (good, w1) \<Rightarrow>
        case lookup_file w1 path of
          None \<Rightarrow> Some (VERIFY_FAILURE, w1)
        | Some f \<Rightarrow>
            if \<not> good then Some (VERIFY_FAILURE, w1)
            else
              case seek_from_end (f_data f) FOOTER_SIZE w1 of
                (None, w2) \<Rightarrow> Some (VERIFY_FAILURE, w2)
              | (Some pos, w2) \<Rightarrow>
                  (case fread (f_data f) pos FOOTER_SIZE w2 of (footer, w3) \<Rightarrow>
                     if length footer \<noteq> FOOTER_SIZE then Some (VERIFY_FAILURE, w3)
                     else if footer ! 2 \<noteq> 0xff \<or> footer ! 3 \<noteq> 0xff then Some (VERIFY_FAILURE, w3)
                     else
                       let comment_size = unat (footer ! 4) + unat (footer ! 5) * 256;
                           signature_start = unat (footer ! 0) + unat (footer ! 1) * 256;
                           eocd_size = comment_size + EOCD_HEADER_SIZE in
                       if signature_start \<le> FOOTER_SIZE then Some (VERIFY_FAILURE, w3)
                       else
                         case seek_from_end (f_data f) eocd_size w3 of
                           (None, w4) \<Rightarrow> Some (VERIFY_FAILURE, w4)
                         | (Some pos, w4) \<Rightarrow>
                             let signed_len = pos + EOCD_HEADER_SIZE - 2 in
                             if \<not> malloc_ok eocd_size then Some (VERIFY_FAILURE, w4)
                             else
                               case fread (f_data f) pos eocd_size w4 of (eocd, w5) \<Rightarrow>
                                 if length eocd \<noteq> eocd_size then Some (VERIFY_FAILURE, w5)
                                 else check_record lib calloc_ok malloc_ok pKeys (f_data f) signed_len signature_start eocd w5))"

section \<open>Soundness\<close>

text \<open>What it means for a key to accept a signature of a message.\<close>

definition key_accepts :: "('c, 'd, 'p) crypto \<Rightarrow> 'p Certificate \<Rightarrow> buffer \<Rightarrow> buffer \<Rightarrow> bool" where
  "key_accepts lib k msg sig \<longleftrightarrow>
     (hash_len k = SHA_DIGEST_SIZE \<or> hash_len k = SHA256_DIGEST_SIZE)
     \<and> (let hash = (if hash_len k = SHA_DIGEST_SIZE then SHA_hash (sha1_lib lib) msg else SHA_hash (sha256_lib lib) msg) in
        case key_type k of
          RSA \<Rightarrow> RSANUMBYTES \<le> length sig
            \<and> (\<exists>key. rsa k = Some key \<and> RSA_verify lib key (take RSANUMBYTES sig) hash (hash_len k))
        | EC \<Rightarrow> hash_len k = SHA256_DIGEST_SIZE
            \<and> (\<exists>x y r s. ec k = Some (x, y) \<and> dsa_sig_unpack lib sig = Some (r, s)
                 \<and> p256_ecdsa_verify lib x y (p256_from_bin lib hash) r s))"

text \<open>\<open>last_eocd d pos\<close>: an end-of-central-directory record begins at \<open>pos\<close>, and no marker follows.\<close>

definition last_eocd :: "buffer \<Rightarrow> nat \<Rightarrow> bool" where
  "last_eocd d pos \<longleftrightarrow> pos + EOCD_HEADER_SIZE \<le> length d \<and> take 4 (drop pos d) = eocd_marker
     \<and> (\<forall>i. pos < i \<longrightarrow> i + 4 \<le> length d \<longrightarrow> take 4 (drop i d) \<noteq> eocd_marker)"

lemma hash_loop_ok:
  assumes "hash_loop lib n1 n2 dat signed_len so_far c1 c2 w = (Some (r1, r2), w')"
    and sha: "sha_absorbs (SHA_update (sha1_lib lib))" "sha_absorbs (SHA_update (sha256_lib lib))"
  shows "(n1 \<longrightarrow> r1 = SHA_update (sha1_lib lib) c1 (take (signed_len - so_far) (drop so_far dat)))
    \<and> (n2 \<longrightarrow> r2 = SHA_update (sha256_lib lib) c2 (take (signed_len - so_far) (drop so_far dat)))"
  using assms(1)
proof (induction "signed_len - so_far" arbitrary: so_far c1 c2 w rule: less_induct)
  case less
  show ?case
  proof (cases "so_far < signed_len")
    case False
    then have "(r1, r2) = (c1, c2)" using less.prems by (subst (asm) hash_loop.simps) simp
    then show ?thesis using False sha by (simp add: sha_absorbs_def)
  next
    case True
    define sz where "sz = min BUFFER_SIZE (signed_len - so_far)"
    have sz: "0 < sz" "sz \<le> signed_len - so_far" using True by (auto simp: sz_def BUFFER_SIZE_def)
    obtain buf w1 where b: "fread dat so_far sz w = (buf, w1)" by (metis surj_pair)
    define d1 where "d1 = (if n1 then SHA_update (sha1_lib lib) c1 buf else c1)"
    define d2 where "d2 = (if n2 then SHA_update (sha256_lib lib) c2 buf else c2)"
    have l: "length buf = sz" "hash_loop lib n1 n2 dat signed_len (so_far + sz) d1 d2 w1 = (Some (r1, r2), w')"
      using less.prems True b by (subst (asm) hash_loop.simps; simp add: Let_def d1_def d2_def sz_def [symmetric] split: if_splits)+
    note buf = fread_full [OF b l(1) sz(1)]
    have "signed_len - (so_far + sz) < signed_len - so_far" using sz True by linarith
    note IH = less.hyps [OF this l(2)]
    have "take (signed_len - so_far) (drop so_far dat) = buf @ take (signed_len - (so_far + sz)) (drop (so_far + sz) dat)"
      using buf take_add [of sz "signed_len - (so_far + sz)" "drop so_far dat"] sz True by (simp add: add.commute)
    with IH sha show ?thesis by (simp add: d1_def d2_def sha_absorbs_def)
  qed
qed

lemma later_marker_iff: "later_marker eocd i n \<longleftrightarrow> (\<exists>j < n. take 4 (drop (i + j) eocd) = eocd_marker)"
proof (induction n arbitrary: i)
  case (Suc n)
  have "(\<exists>j < Suc n. take 4 (drop (i + j) eocd) = eocd_marker) \<longleftrightarrow>
      take 4 (drop i eocd) = eocd_marker \<or> (\<exists>j < n. take 4 (drop (Suc i + j) eocd) = eocd_marker)"
    by (auto simp: less_Suc_eq_0_disj)
  with Suc show ?case by simp
qed simp

lemma try_keys_sound:
  assumes "try_keys lib ks sha1 sha256 sig = Some True"
    and "\<And>k. k \<in> set ks \<Longrightarrow> hash_len k = SHA_DIGEST_SIZE \<Longrightarrow> sha1 = SHA_hash (sha1_lib lib) msg"
    and "\<And>k. k \<in> set ks \<Longrightarrow> hash_len k = SHA256_DIGEST_SIZE \<Longrightarrow> sha256 = SHA_hash (sha256_lib lib) msg"
  shows "\<exists>k \<in> set ks. key_accepts lib k msg sig"
  using assms
proof (induction ks)
  case (Cons k ks)
  show ?case
  proof (cases "try_keys lib ks sha1 sha256 sig = Some True")
    case True
    with Cons show ?thesis by auto
  next
    case False
    with Cons.prems(1) Cons.prems(2,3) [of k] have "key_accepts lib k msg sig"
      by (auto simp: key_accepts_def Let_def not_less SHA_DIGEST_SIZE_def SHA256_DIGEST_SIZE_def
          split: if_splits option.splits KeyType.splits)
    then show ?thesis by simp
  qed
qed simp

lemma marker_in_record:
  assumes "eocd = drop pos d" "take 4 eocd = eocd_marker" "\<not> later_marker eocd 4 (length eocd - 7)" "EOCD_HEADER_SIZE \<le> length eocd"
  shows "last_eocd d pos"
proof -
  have e: "take 4 (drop i d) \<noteq> eocd_marker" if i: "pos < i" "i + 4 \<le> length d" for i
  proof (cases "pos + 4 \<le> i")
    case True
    then obtain j where j: "i = pos + (4 + j)" by (metis le_Suc_ex add.assoc)
    then have "j < length eocd - 7" using i(2) assms(1) by simp
    then have "take 4 (drop (4 + j) eocd) \<noteq> eocd_marker" using assms(3) by (auto simp: later_marker_iff)
    then show ?thesis using j assms(1) by (simp add: add.commute add.left_commute)
  next
    case False
    have "d ! i = eocd ! (i - pos)" using assms(1) i by simp
    also have "\<dots> = take 4 eocd ! (i - pos)" using False i by simp
    also have "\<dots> = eocd_marker ! (i - pos)" by (simp only: assms(2))
    finally have "d ! i = eocd_marker ! (i - pos)" .
    moreover have "i - pos = 1 \<or> i - pos = 2 \<or> i - pos = 3" using False i by linarith
    ultimately have ne: "d ! i \<noteq> 0x50" by (auto simp: eocd_marker_def)
    show ?thesis
    proof
      assume m: "take 4 (drop i d) = eocd_marker"
      have "d ! i = take 4 (drop i d) ! 0" using i by simp
      then show False using ne by (simp only: m) (simp add: eocd_marker_def)
    qed
  qed
  have "pos + EOCD_HEADER_SIZE \<le> length d" using assms(1,4) by (cases "pos \<le> length d") (auto simp: EOCD_HEADER_SIZE_def)
  with e assms show ?thesis by (simp add: last_eocd_def)
qed

lemma check_record_sound:
  assumes run: "check_record lib calloc_ok malloc_ok pKeys d (pos + 20) start (drop pos d) w = Some (VERIFY_SUCCESS, w')"
    and sha: "sha_absorbs (SHA_update (sha1_lib lib))" "sha_absorbs (SHA_update (sha256_lib lib))"
    and pos: "pos + EOCD_HEADER_SIZE \<le> length d"
  shows "last_eocd d pos \<and> start \<le> length d - pos
    \<and> (\<exists>k \<in> set pKeys. \<exists>sig. read_pkcs7 calloc_ok malloc_ok (drop pos d) (length d - pos - start) (start - FOOTER_SIZE) = Some (Some sig)
         \<and> key_accepts lib k (take (pos + 20) d) sig)"
proof -
  let ?n1 = "\<exists>k \<in> set pKeys. hash_len k = SHA_DIGEST_SIZE"
  let ?n2 = "\<exists>k \<in> set pKeys. hash_len k = SHA256_DIGEST_SIZE"
  have fs: "VERIFY_FAILURE \<noteq> VERIFY_SUCCESS" by (simp add: VERIFY_FAILURE_def VERIFY_SUCCESS_def)
  obtain c1 c2 w1 sig where
    h: "hash_loop lib ?n1 ?n2 d (pos + 20) 0 (SHA_init (sha1_lib lib)) (SHA_init (sha256_lib lib)) w = (Some (c1, c2), w1)"
    and m: "take 4 (drop pos d) = eocd_marker" "\<not> later_marker (drop pos d) 4 (length (drop pos d) - 7)"
    and s: "start \<le> length (drop pos d)"
      "read_pkcs7 calloc_ok malloc_ok (drop pos d) (length (drop pos d) - start) (start - FOOTER_SIZE) = Some (Some sig)"
      "try_keys lib pKeys (SHA_final (sha1_lib lib) c1) (SHA_final (sha256_lib lib) c2) sig = Some True"
    using run fs
    by (auto simp: check_record_def Let_def not_less split: if_splits prod.splits option.splits bind_splits)
  note hs = hash_loop_ok [OF h sha]
  have "\<exists>k \<in> set pKeys. key_accepts lib k (take (pos + 20) d) sig"
    by (rule try_keys_sound [OF s(3)]) (use hs in \<open>auto simp: SHA_hash_def\<close>)
  moreover have "last_eocd d pos" by (rule marker_in_record [OF refl m]) (use pos in simp)
  ultimately show ?thesis using s by auto
qed

text \<open>How far a file got that was accepted.\<close>

definition comment_size_of :: "buffer \<Rightarrow> nat" where
  "comment_size_of footer = unat (footer ! 4) + unat (footer ! 5) * 256"

definition signature_start_of :: "buffer \<Rightarrow> nat" where
  "signature_start_of footer = unat (footer ! 0) + unat (footer ! 1) * 256"

lemma seek_from_end_ok: "seek_from_end d n w = (Some pos, w1) \<Longrightarrow> n \<le> length d \<and> pos = length d - n"
  by (auto simp: seek_from_end_def split: prod.splits if_splits)

lemma verify_file_accepted:
  assumes "verify_file lib calloc_ok malloc_ok path pKeys w = Some (VERIFY_SUCCESS, w')"
  obtains f footer w5 where "lookup_file w path = Some f" "footer = drop (length (f_data f) - FOOTER_SIZE) (f_data f)"
    "length footer = FOOTER_SIZE" "FOOTER_SIZE < signature_start_of footer"
    "comment_size_of footer + EOCD_HEADER_SIZE \<le> length (f_data f)"
    "check_record lib calloc_ok malloc_ok pKeys (f_data f) (length (f_data f) - (comment_size_of footer + EOCD_HEADER_SIZE) + 20)
       (signature_start_of footer) (drop (length (f_data f) - (comment_size_of footer + EOCD_HEADER_SIZE)) (f_data f)) w5
       = Some (VERIFY_SUCCESS, w')"
proof -
  have fs: "VERIFY_FAILURE \<noteq> VERIFY_SUCCESS" by (simp add: VERIFY_FAILURE_def VERIFY_SUCCESS_def)
  obtain good w1 where 1: "sys_ok w = (good, w1)" by (metis surj_pair)
  obtain f where f: "lookup_file w1 path = Some f" "good"
    using assms fs 1 by (auto simp: verify_file_def split: option.splits if_splits)
  let ?d = "f_data f"
  obtain pos w2 where 2: "seek_from_end ?d FOOTER_SIZE w1 = (Some pos, w2)"
    using assms fs 1 f by (cases "seek_from_end ?d FOOTER_SIZE w1") (auto simp: verify_file_def split: option.splits)
  note s2 = seek_from_end_ok [OF 2]
  obtain footer w3 where 3: "fread ?d pos FOOTER_SIZE w2 = (footer, w3)" by (metis surj_pair)
  have l3: "length footer = FOOTER_SIZE" "FOOTER_SIZE < signature_start_of footer"
    using assms fs 1 f 2 3 by (auto simp: verify_file_def signature_start_of_def Let_def not_le split: if_splits)
  have foot: "footer = drop (length ?d - FOOTER_SIZE) ?d"
    using fread_full [OF 3 l3(1)] s2 by (simp add: FOOTER_SIZE_def)
  let ?n = "comment_size_of footer + EOCD_HEADER_SIZE"
  obtain pos2 w4 where 4: "seek_from_end ?d ?n w3 = (Some pos2, w4)"
    using assms fs 1 f 2 3 l3
    by (cases "seek_from_end ?d ?n w3") (auto simp: verify_file_def comment_size_of_def signature_start_of_def Let_def split: option.splits if_splits)
  note s4 = seek_from_end_ok [OF 4]
  obtain eocd w5 where 5: "fread ?d pos2 ?n w4 = (eocd, w5)" by (metis surj_pair)
  have r: "length eocd = ?n" "check_record lib calloc_ok malloc_ok pKeys ?d (pos2 + EOCD_HEADER_SIZE - 2) (signature_start_of footer) eocd w5
      = Some (VERIFY_SUCCESS, w')"
    using assms fs 1 f 2 3 l3 4 5
    by (auto simp: verify_file_def comment_size_of_def signature_start_of_def Let_def not_le split: if_splits)
  have "eocd = drop (length ?d - ?n) ?d"
    using fread_full [OF 5 r(1)] s4 by (simp add: EOCD_HEADER_SIZE_def)
  moreover have "lookup_file w path = Some f" using f(1) sys_ok_files [OF 1] by (simp add: lookup_file_def)
  moreover have "pos2 + EOCD_HEADER_SIZE - 2 = length ?d - ?n + 20" using s4 by (simp add: EOCD_HEADER_SIZE_def)
  ultimately show thesis using that foot l3 s4 r by simp
qed

lemma verify_file_accepts:
  assumes run: "verify_file lib calloc_ok malloc_ok path pKeys w = Some (VERIFY_SUCCESS, w')"
    and sha: "sha_absorbs (SHA_update (sha1_lib lib))" "sha_absorbs (SHA_update (sha256_lib lib))"
  shows "\<exists>f pos. lookup_file w path = Some f \<and> last_eocd (f_data f) pos
    \<and> pos + EOCD_HEADER_SIZE + le_nat (drop (length (f_data f) - 2) (f_data f)) = length (f_data f)
    \<and> (\<exists>k \<in> set pKeys. \<exists>sig q n. read_pkcs7 calloc_ok malloc_ok (drop pos (f_data f)) q n = Some (Some sig)
         \<and> q + n + FOOTER_SIZE = length (f_data f) - pos \<and> key_accepts lib k (take (pos + 20) (f_data f)) sig)"
proof -
  from run obtain f footer w5 where f: "lookup_file w path = Some f" "footer = drop (length (f_data f) - FOOTER_SIZE) (f_data f)"
    "length footer = FOOTER_SIZE" "FOOTER_SIZE < signature_start_of footer" "comment_size_of footer + EOCD_HEADER_SIZE \<le> length (f_data f)"
    and c: "check_record lib calloc_ok malloc_ok pKeys (f_data f) (length (f_data f) - (comment_size_of footer + EOCD_HEADER_SIZE) + 20)
       (signature_start_of footer) (drop (length (f_data f) - (comment_size_of footer + EOCD_HEADER_SIZE)) (f_data f)) w5
       = Some (VERIFY_SUCCESS, w')"
    by (rule verify_file_accepted)
  define pos where "pos = length (f_data f) - (comment_size_of footer + EOCD_HEADER_SIZE)"
  have l: "pos + EOCD_HEADER_SIZE + comment_size_of footer = length (f_data f)" using f(5) by (simp add: pos_def)
  note s = check_record_sound [OF c [folded pos_def] sha, of, OF l [THEN eq_refl, THEN add_leD1]]
  have len: "6 \<le> length (f_data f)" using f(5) by (simp add: EOCD_HEADER_SIZE_def)
  have "drop 4 footer = drop (length (f_data f) - 2) (f_data f)" using f(2) len by (simp add: FOOTER_SIZE_def)
  moreover have "drop 4 footer = [footer ! 4, footer ! 5]"
    using f(3) by (auto simp: FOOTER_SIZE_def list_eq_iff_nth_eq less_Suc_eq numeral_eq_Suc)
  ultimately have "le_nat (drop (length (f_data f) - 2) (f_data f)) = comment_size_of footer"
    by (simp flip: \<open>drop 4 footer = drop (length (f_data f) - 2) (f_data f)\<close> add: comment_size_of_def)
  then have 1: "pos + EOCD_HEADER_SIZE + le_nat (drop (length (f_data f) - 2) (f_data f)) = length (f_data f)" using l by simp
  from s obtain k sig where k: "k \<in> set pKeys" "key_accepts lib k (take (pos + 20) (f_data f)) sig"
    "read_pkcs7 calloc_ok malloc_ok (drop pos (f_data f)) (length (f_data f) - pos - signature_start_of footer)
       (signature_start_of footer - FOOTER_SIZE) = Some (Some sig)" by blast
  have "length (f_data f) - pos - signature_start_of footer + (signature_start_of footer - FOOTER_SIZE) + FOOTER_SIZE
      = length (f_data f) - pos"
    using conjunct1 [OF conjunct2 [OF s]] f(4) by linarith
  then have "\<exists>k \<in> set pKeys. \<exists>sig q n. read_pkcs7 calloc_ok malloc_ok (drop pos (f_data f)) q n = Some (Some sig)
      \<and> q + n + FOOTER_SIZE = length (f_data f) - pos \<and> key_accepts lib k (take (pos + 20) (f_data f)) sig"
    using k by blast
  then show ?thesis using f(1) 1 conjunct1 [OF s] by blast
qed

text \<open>C2: \<open>verify_file\<close> accepts a file only when one of the keys accepts a signature of everything before
  the archive comment's length field, when the record there is the last place of the end-of-central-directory marker, and
  the signature is what \<open>read_pkcs7\<close> finds behind it. Failing and short reads never lead to acceptance.\<close>

theorem verify_file_sound:
  assumes run: "verify_file lib calloc_ok malloc_ok path pKeys w = Some (VERIFY_SUCCESS, w')"
    and sha: "sha_absorbs (SHA_update (sha1_lib lib))" "sha_absorbs (SHA_update (sha256_lib lib))"
  shows "\<exists>f pos. lookup_file w path = Some f \<and> last_eocd (f_data f) pos
    \<and> pos + EOCD_HEADER_SIZE + le_nat (drop (length (f_data f) - 2) (f_data f)) = length (f_data f)
    \<and> (\<exists>k \<in> set pKeys. \<exists>sig q n. read_pkcs7 calloc_ok malloc_ok (drop pos (f_data f)) q n = Some (Some sig)
         \<and> q + n + FOOTER_SIZE = length (f_data f) - pos \<and> key_accepts lib k (take (pos + 20) (f_data f)) sig)"
  using assms by (rule verify_file_accepts)

section \<open>A signature outside of the record\<close>

lemma hash_loop_plain:
  assumes "answers w = []" "signed_len \<le> length dat"
  shows "\<exists>r. hash_loop lib n1 n2 dat signed_len so_far c1 c2 w = (Some r, w)"
proof (induction "signed_len - so_far" arbitrary: so_far c1 c2 rule: less_induct)
  case less
  show ?case
  proof (cases "so_far < signed_len")
    case False
    then show ?thesis by (subst hash_loop.simps) simp
  next
    case True
    define sz where "sz = min BUFFER_SIZE (signed_len - so_far)"
    have sz: "0 < sz" "sz \<le> signed_len - so_far" using True by (auto simp: sz_def BUFFER_SIZE_def)
    then have "signed_len - (so_far + sz) < signed_len - so_far" using True by linarith
    note IH = less.hyps [OF this]
    have "length (take sz (drop so_far dat)) = sz" using sz assms(2) by simp
    with True IH show ?thesis
      by (subst hash_loop.simps) (simp add: Let_def sz_def [symmetric] fread_plain [OF assms(1)])
  qed
qed

text \<open>The start of the signature is not compared with the size of the record: a file whose footer names a
  start before the record makes \<open>verify_file\<close> read in front of its buffer, whatever the keys are.\<close>

theorem verify_file_reads_outside:
  assumes f: "lookup_file w path = Some f" "answers w = []" and mal: "\<And>n. malloc_ok n"
    and foot: "footer = drop (length (f_data f) - 6) (f_data f)" "footer ! 2 = 0xff" "footer ! 3 = 0xff"
    and rec: "comment_size_of footer + 22 \<le> length (f_data f)" "last_eocd (f_data f) (length (f_data f) - (comment_size_of footer + 22))"
    and out: "comment_size_of footer + 22 < signature_start_of footer"
  shows "verify_file lib calloc_ok malloc_ok path pKeys w = None"
proof -
  define n where "n = comment_size_of footer + 22"
  define eocd where "eocd = drop (length (f_data f) - n) (f_data f)"
  have l: "length eocd = n" "length footer = 6" using rec(1) foot(1) by (simp_all add: eocd_def n_def)
  have m: "take 4 eocd = eocd_marker" using rec(2) by (simp add: eocd_def n_def last_eocd_def)
  have "\<not> later_marker eocd 4 (length eocd - 7)"
    using rec by (auto simp: later_marker_iff last_eocd_def eocd_def n_def add.commute add.left_commute)
  moreover obtain r where "hash_loop lib (\<exists>k \<in> set pKeys. hash_len k = SHA_DIGEST_SIZE) (\<exists>k \<in> set pKeys. hash_len k = SHA256_DIGEST_SIZE)
      (f_data f) (length (f_data f) - n + 20) 0 (SHA_init (sha1_lib lib)) (SHA_init (sha256_lib lib)) w = (Some r, w)"
    using hash_loop_plain [OF f(2), of "length (f_data f) - n + 20" "f_data f"] rec(1) by (fastforce simp: n_def)
  ultimately have chk: "check_record lib calloc_ok malloc_ok pKeys (f_data f) (length (f_data f) - n + 20) (signature_start_of footer) eocd w = None"
    using m out mal l(1) by (cases r) (simp add: check_record_def Let_def n_def)
  have "length (f_data f) - n + EOCD_HEADER_SIZE - 2 = length (f_data f) - n + 20" by (simp add: EOCD_HEADER_SIZE_def)
  with chk f foot(2,3) l mal out rec(1) show ?thesis
    by (simp add: verify_file_def sys_ok_def answer_def seek_from_end_def fread_plain FOOTER_SIZE_def EOCD_HEADER_SIZE_def Let_def
        n_def eocd_def comment_size_of_def signature_start_of_def flip: foot(1))
qed

section \<open>Completeness\<close>

text \<open>
  The layout that signing produces: the comment of the archive holds the signature block and the footer;
  everything before the comment's length is signed.
\<close>

definition signed_package :: "buffer \<Rightarrow> buffer \<Rightarrow> buffer" where
  "signed_package body block = body @ le_bytes 2 (length block + 6) @ block
     @ le_bytes 2 (length block + 6) @ [0xff, 0xff] @ le_bytes 2 (length block + 6)"

definition key_ok :: "'p Certificate \<Rightarrow> bool" where
  "key_ok k \<longleftrightarrow> (case key_type k of RSA \<Rightarrow> rsa k \<noteq> None | EC \<Rightarrow> ec k \<noteq> None)"

lemma try_keys_complete:
  assumes "k \<in> set ks" "key_accepts lib k msg sig" "\<forall>k \<in> set ks. key_ok k"
    and "(\<exists>k \<in> set ks. hash_len k = SHA_DIGEST_SIZE) \<Longrightarrow> sha1 = SHA_hash (sha1_lib lib) msg"
    and "(\<exists>k \<in> set ks. hash_len k = SHA256_DIGEST_SIZE) \<Longrightarrow> sha256 = SHA_hash (sha256_lib lib) msg"
  shows "try_keys lib ks sha1 sha256 sig = Some True"
  using assms
proof (induction ks)
  case (Cons k' ks)
  show ?case
  proof (cases "key_accepts lib k' msg sig")
    case True
    with Cons.prems(4,5) show ?thesis
      by (auto simp: key_accepts_def Let_def SHA_DIGEST_SIZE_def SHA256_DIGEST_SIZE_def split: KeyType.splits)
  next
    case False
    then have "k \<in> set ks" using Cons.prems(1,2) by auto
    then have "try_keys lib ks sha1 sha256 sig = Some True" using Cons by simp
    moreover have "key_ok k'" using Cons.prems(3) by simp
    ultimately show ?thesis
      by (auto simp: key_ok_def Let_def split: KeyType.splits option.splits)
  qed
qed simp

lemma last_eocd_later: "last_eocd d pos \<Longrightarrow> \<not> later_marker (drop pos d) 4 (length (drop pos d) - 7)"
  by (auto simp: later_marker_iff last_eocd_def add.commute add.left_commute)

lemma check_record_complete:
  assumes rec: "last_eocd d pos" and start: "start \<le> length d - pos"
    and sig: "read_pkcs7 calloc_ok malloc_ok (drop pos d) (length d - pos - start) (start - FOOTER_SIZE) = Some (Some sig)"
    and key: "k \<in> set pKeys" "key_accepts lib k (take (pos + 20) d) sig" "\<forall>k \<in> set pKeys. key_ok k"
    and sha: "sha_absorbs (SHA_update (sha1_lib lib))" "sha_absorbs (SHA_update (sha256_lib lib))"
    and w: "answers w = []" "malloc_ok BUFFER_SIZE"
  shows "check_record lib calloc_ok malloc_ok pKeys d (pos + 20) start (drop pos d) w = Some (VERIFY_SUCCESS, w)"
proof -
  let ?n1 = "\<exists>k \<in> set pKeys. hash_len k = SHA_DIGEST_SIZE" and ?n2 = "\<exists>k \<in> set pKeys. hash_len k = SHA256_DIGEST_SIZE"
  have l: "pos + 20 \<le> length d" and m: "take 4 (drop pos d) = eocd_marker" using rec by (simp_all add: last_eocd_def EOCD_HEADER_SIZE_def)
  obtain c1 c2 where h: "hash_loop lib ?n1 ?n2 d (pos + 20) 0 (SHA_init (sha1_lib lib)) (SHA_init (sha256_lib lib)) w = (Some (c1, c2), w)"
    using hash_loop_plain [OF w(1) l, of lib ?n1 ?n2 0 "SHA_init (sha1_lib lib)" "SHA_init (sha256_lib lib)"] by (elim exE) (metis surj_pair)
  have "try_keys lib pKeys (SHA_final (sha1_lib lib) c1) (SHA_final (sha256_lib lib) c2) sig = Some True"
    using hash_loop_ok [OF h sha] by (intro try_keys_complete [OF key]) (simp_all add: SHA_hash_def)
  moreover have "\<not> length (drop pos d) < start" using start by simp
  moreover have "read_pkcs7 calloc_ok malloc_ok (drop pos d) (length (drop pos d) - start) (start - FOOTER_SIZE) = Some (Some sig)"
    using sig by (simp only: length_drop)
  ultimately show ?thesis
    unfolding check_record_def Let_def h
    by (simp only: m last_eocd_later [OF rec] w(2) not_True_eq_False if_False if_True prod.case option.case Option.bind.bind_lunit simp_thms)
qed

lemma verify_file_signed:
  assumes f: "lookup_file w path = Some f" "answers w = []" "f_data f = signed_package body block" "last_eocd (f_data f) (length body - 20)"
    and blk: "block = pkcs7 t oid preface certs signer sig attrs" "length block + 6 < 65536" "20 \<le> length body"
    and n: "length preface = 3" "length signer = 4" and certs: "\<forall>(t, c) \<in> set certs. context_tag t" and sig: "sig \<noteq> []"
    and key: "k \<in> set pKeys" "key_accepts lib k body sig" "\<forall>k \<in> set pKeys. key_ok k"
    and sha: "sha_absorbs (SHA_update (sha1_lib lib))" "sha_absorbs (SHA_update (sha256_lib lib))"
  shows "verify_file lib (\<lambda>_ _. True) (\<lambda>_. True) path pKeys w = Some (VERIFY_SUCCESS, w)"
proof -
  define d where "d = f_data f"
  define c where "c = length block + 6"
  define footer where "footer = drop (length d - 6) d"
  define pos where "pos = length body - 20"
  have d: "d = body @ le_bytes 2 c @ block @ le_bytes 2 c @ [0xff, 0xff] @ le_bytes 2 c" using f(3) by (simp add: d_def signed_package_def c_def)
  then have len: "length d = length body + length block + 8" by simp
  have foot: "footer = le_bytes 2 c @ [0xff, 0xff] @ le_bytes 2 c" by (simp add: footer_def d)
  have "le_nat (le_bytes 2 c) = c" using blk(2) by (simp add: le_nat_le_bytes c_def)
  moreover obtain x y where xy: "le_bytes 2 c = [x, y]" by (simp add: numeral_2_eq_2)
  ultimately have cs: "comment_size_of footer = c" "signature_start_of footer = c" "footer ! 2 = 0xff" "footer ! 3 = 0xff" "length footer = 6"
    by (simp_all add: foot comment_size_of_def signature_start_of_def)
  have pos: "length d - (c + 22) = pos" "length d - pos = c + 22" "pos + 20 = length body" using len blk(3) by (simp_all add: c_def pos_def)
  define r where "r = drop pos body"
  have eocd: "drop pos d = r @ le_bytes 2 c @ block @ footer" "length r = 20"
    using blk(3) by (simp_all add: r_def d foot pos_def)
  have "block \<noteq> []" by (simp add: blk(1) pkcs7_def der_def)
  then have c6: "FOOTER_SIZE < c" by (simp add: FOOTER_SIZE_def c_def)
  have "take (c - 6) (drop 22 (drop pos d)) = block" by (simp add: eocd c_def)
  then have rd: "read_pkcs7 (\<lambda>_ _. True) (\<lambda>_. True) (drop pos d) (length d - pos - c) (c - FOOTER_SIZE) = Some (Some sig)"
    unfolding pos(2) using blk(2) len pos by (intro read_pkcs7_finds [OF _ _ _ n certs sig]) (simp_all add: blk(1) FOOTER_SIZE_def c_def)
  have "take (pos + 20) d = body" using pos(3) by (simp add: d)
  then have chk: "check_record lib (\<lambda>_ _. True) (\<lambda>_. True) pKeys d (pos + 20) c (drop pos d) w = Some (VERIFY_SUCCESS, w)"
    by (intro check_record_complete [OF _ _ rd key(1) _ key(3) sha f(2)]) (use f(4) key(2) pos(2) in \<open>simp_all add: d_def pos_def\<close>)
  have "c + 22 \<le> length d" "6 \<le> length d" using len blk(3) by (simp_all add: c_def)
  with chk f(1,2) cs c6 pos(1,2) show ?thesis
    by (simp add: verify_file_def sys_ok_def answer_def seek_from_end_def fread_plain FOOTER_SIZE_def EOCD_HEADER_SIZE_def Let_def
        comment_size_of_def signature_start_of_def add.commute flip: d_def footer_def)
qed

text \<open>C20: a package laid out as signing lays it out is accepted when one of the keys accepts the signature of
  everything before the comment's length, the record there has the last marker, and system calls and allocations succeed.\<close>

theorem verify_file_complete:
  assumes f: "lookup_file w path = Some f" "answers w = []" "f_data f = signed_package body block" "last_eocd (f_data f) (length body - 20)"
    and blk: "block = pkcs7 t oid preface certs signer sig attrs" "length block + 6 < 65536" "20 \<le> length body"
    and n: "length preface = 3" "length signer = 4" and certs: "\<forall>(t, c) \<in> set certs. context_tag t" and sig: "sig \<noteq> []"
    and key: "k \<in> set pKeys" "key_accepts lib k body sig" "\<forall>k \<in> set pKeys. key_ok k"
    and sha: "sha_absorbs (SHA_update (sha1_lib lib))" "sha_absorbs (SHA_update (sha256_lib lib))"
  shows "verify_file lib (\<lambda>_ _. True) (\<lambda>_. True) path pKeys w = Some (VERIFY_SUCCESS, w)"
  using assms by (rule verify_file_signed)

section \<open>Example\<close>

definition sample_crypto :: "(buffer, buffer, buffer) crypto" where
  "sample_crypto = \<lparr>sha1_lib = sample_sha, sha256_lib = sample_sha, RSA_verify = \<lambda>_ _ _ _. False,
     dsa_sig_unpack = \<lambda>sig. Some (sig, []), p256_from_bin = id, p256_ecdsa_verify = \<lambda>x y h r s. h = r\<rparr>"

definition sample_key :: "buffer Certificate" where
  "sample_key = \<lparr>hash_len = 32, key_type = EC, rsa = None, ec = Some ([], [])\<rparr>"

definition sample_block :: "buffer \<Rightarrow> buffer" where
  "sample_block sig = pkcs7 6 [1] [(2, [1]), (0x31, []), (0x30, [])] [] [(2, [1]), (0x30, []), (0x30, []), (0x30, [])] sig []"

definition sample_signed :: buffer where
  "sample_signed = signed_package (replicate 20 0 @ eocd_marker @ replicate 16 0) (sample_block (replicate 20 0))"

definition file_world :: "string \<Rightarrow> buffer \<Rightarrow> unit world" where
  "file_world path d = \<lparr>files = [(path, \<lparr>f_data = d, f_mode = 0, f_uid = 0, f_gid = 0, f_reg = True\<rparr>)],
     procs = [], answers = [], mtd_partitions_scanned = False, flash = ()\<rparr>"

lemma sample_block_length: "length sig = 20 \<Longrightarrow> length (sample_block sig) = 51"
  by (simp add: sample_block_def pkcs7_def signer_info_def der_def der_length_def)

lemma sample_record: "last_eocd sample_signed 20"
  by (rule marker_in_record [OF refl]) code_simp+

lemma sample_key_accepts: "20 \<le> length body \<Longrightarrow> key_accepts sample_crypto sample_key body (take 20 body)"
  by (simp add: key_accepts_def sample_key_def sample_crypto_def SHA256_DIGEST_SIZE_def SHA_DIGEST_SIZE_def SHA_hash_def sample_sha_def)

lemma sample_crypto_absorbs: "sha_absorbs (SHA_update (sha1_lib sample_crypto))" "sha_absorbs (SHA_update (sha256_lib sample_crypto))"
  using sample_sha_absorbs by (simp_all add: sample_crypto_def)

lemma sample_package_accepted:
  assumes "20 \<le> length body" "last_eocd (signed_package body (sample_block (take 20 body))) (length body - 20)"
  shows "verify_file sample_crypto (\<lambda>_ _. True) (\<lambda>_. True) path [sample_key] (file_world path (signed_package body (sample_block (take 20 body))))
    = Some (VERIFY_SUCCESS, file_world path (signed_package body (sample_block (take 20 body))))"
proof (rule verify_file_signed [where k = sample_key and body = body
      and f = "\<lparr>f_data = signed_package body (sample_block (take 20 body)), f_mode = 0, f_uid = 0, f_gid = 0, f_reg = True\<rparr>", OF _ _ _ _ sample_block_def _ assms(1)])
  show "key_accepts sample_crypto sample_key body (take 20 body)" by (rule sample_key_accepts [OF assms(1)])
  show "take 20 body \<noteq> []" using assms(1) by auto
qed (use assms in \<open>simp_all add: file_world_def lookup_file_def sample_block_length sample_crypto_absorbs sample_key_def key_ok_def\<close>)

lemma sample_accepted: "verify_file sample_crypto (\<lambda>_ _. True) (\<lambda>_. True) ''/u.zip'' [sample_key] (file_world ''/u.zip'' sample_signed)
    = Some (VERIFY_SUCCESS, file_world ''/u.zip'' sample_signed)"
  using sample_package_accepted [of "replicate 20 0 @ eocd_marker @ replicate 16 0" "''/u.zip''"] sample_record
  by (simp add: sample_signed_def eocd_marker_def)

theorem verify_file_complete_witness:
  "verify_file sample_crypto (\<lambda>_ _. True) (\<lambda>_. True) ''/u.zip'' [sample_key] (file_world ''/u.zip'' sample_signed)
    = Some (VERIFY_SUCCESS, file_world ''/u.zip'' sample_signed)"
proof (rule verify_file_complete [where k = sample_key and body = "replicate 20 0 @ eocd_marker @ replicate 16 0", OF _ _ _ _ sample_block_def])
  show "last_eocd (f_data \<lparr>f_data = sample_signed, f_mode = 0, f_uid = 0, f_gid = 0, f_reg = True\<rparr>)
      (length (replicate 20 0 @ eocd_marker @ replicate 16 0) - 20)"
    using sample_record by (simp add: eocd_marker_def)
  show "key_accepts sample_crypto sample_key (replicate 20 0 @ eocd_marker @ replicate 16 0) (replicate 20 0)"
    using sample_key_accepts [of "replicate 20 0 @ eocd_marker @ replicate 16 0"] by simp
qed (simp_all add: file_world_def lookup_file_def sample_signed_def sample_block_length sample_crypto_absorbs sample_key_def key_ok_def eocd_marker_def)

theorem verify_file_sound_witness:
  "\<exists>pos. last_eocd sample_signed pos \<and> (\<exists>sig. key_accepts sample_crypto sample_key (take (pos + 20) sample_signed) sig)"
  using verify_file_sound [OF sample_accepted sample_crypto_absorbs] by (auto simp: file_world_def lookup_file_def)

definition sample_bad_footer :: buffer where
  "sample_bad_footer = eocd_marker @ replicate 16 0 @ [6, 0, 0xff, 0xff, 0xff, 0xff, 6, 0]"

theorem verify_file_reads_outside_witness:
  "verify_file sample_crypto (\<lambda>_ _. True) (\<lambda>_. True) ''/u.zip'' [] (file_world ''/u.zip'' sample_bad_footer) = None"
proof (rule verify_file_reads_outside [where f = "\<lparr>f_data = sample_bad_footer, f_mode = 0, f_uid = 0, f_gid = 0, f_reg = True\<rparr>", OF _ _ _ refl])
  have "last_eocd sample_bad_footer 0"
  proof (rule marker_in_record [OF refl])
    show "take 4 (drop 0 sample_bad_footer) = eocd_marker" "\<not> later_marker (drop 0 sample_bad_footer) 4 (length (drop 0 sample_bad_footer) - 7)"
      by code_simp+
  qed (simp add: sample_bad_footer_def eocd_marker_def EOCD_HEADER_SIZE_def)
  then show "last_eocd (f_data \<lparr>f_data = sample_bad_footer, f_mode = 0, f_uid = 0, f_gid = 0, f_reg = True\<rparr>)
      (length (f_data \<lparr>f_data = sample_bad_footer, f_mode = 0, f_uid = 0, f_gid = 0, f_reg = True\<rparr>)
        - (comment_size_of (drop (length (f_data \<lparr>f_data = sample_bad_footer, f_mode = 0, f_uid = 0, f_gid = 0, f_reg = True\<rparr>) - 6)
             (f_data \<lparr>f_data = sample_bad_footer, f_mode = 0, f_uid = 0, f_gid = 0, f_reg = True\<rparr>)) + 22))"
    by (simp add: sample_bad_footer_def eocd_marker_def comment_size_of_def)
qed (simp_all add: file_world_def lookup_file_def comment_size_of_def signature_start_of_def sample_bad_footer_def eocd_marker_def)

end
