(* ===== verification/Scanf.thy ===== *)
theory Scanf
  imports Prelude
begin

text \<open>
  Formatted input of the C library, as far as \<open>mtdutils.c\<close>, \<open>mounts.c\<close> and \<open>verifier.cpp\<close> use it: \<open>sscanf\<close> and
  \<open>fscanf\<close> with white space, literal characters, the conversions \<open>%d\<close>, \<open>%u\<close>, \<open>%i\<close>, \<open>%x\<close>, \<open>%c\<close> and \<open>%s\<close>, and a
  bounded scan set. Numbers are reduced to the 32 bits of the variables they are stored in.
\<close>

section \<open>Directives\<close>

datatype directive = Ws | Lit char | Dec | Uns | Hex | Auto | OneChar | NotIn nat char | Str nat

datatype scanned = Num int | Text string

definition digit_of :: "nat \<Rightarrow> char \<Rightarrow> nat option" where
  "digit_of base c =
     (let n = of_char c :: nat;
          v = (if 48 \<le> n \<and> n \<le> 57 then n - 48
               else if 97 \<le> n \<and> n \<le> 102 then n - 87
               else if 65 \<le> n \<and> n \<le> 70 then n - 55 else 16) in
      if v < base then Some v else None)"

definition is_digit_of :: "nat \<Rightarrow> char \<Rightarrow> bool" where
  "is_digit_of base c \<longleftrightarrow> digit_of base c \<noteq> None"

definition digits_value :: "nat \<Rightarrow> string \<Rightarrow> int" where
  "digits_value base s = foldl (\<lambda>a c. int base * a + int (the (digit_of base c))) 0 s"

definition strip_0x :: "string \<Rightarrow> string" where
  "strip_0x s = (case s of a # b # t \<Rightarrow> if a = CHR ''0'' \<and> (b = CHR ''x'' \<or> b = CHR ''X'') then t else s | _ \<Rightarrow> s)"

text \<open>An optional sign, for base 16 an optional prefix, and digits; base 0 finds the base by the prefix.\<close>

definition scan_digits :: "nat \<Rightarrow> string \<Rightarrow> (int \<times> string) option" where
  "scan_digits base s =
     (let ds = takeWhile (is_digit_of base) s in
      if ds = [] then None else Some (digits_value base ds, dropWhile (is_digit_of base) s))"

definition scan_number :: "nat \<Rightarrow> string \<Rightarrow> (int \<times> string) option" where
  "scan_number base s =
     (let t = dropWhile isspace s;
          neg = (t \<noteq> [] \<and> hd t = CHR ''-'');
          u = (if t \<noteq> [] \<and> (hd t = CHR ''-'' \<or> hd t = CHR ''+'') then tl t else t);
          hex = (strip_0x u \<noteq> u \<and> (base = 0 \<or> base = 16));
          b = (if base \<noteq> 0 then base else if hex then 16 else if u \<noteq> [] \<and> hd u = CHR ''0'' then 8 else 10) in
      map_option (\<lambda>(v, r). (if neg then - v else v, r)) (scan_digits b (if hex then strip_0x u else u)))"

fun fscanf :: "directive list \<Rightarrow> string \<Rightarrow> scanned list \<times> string" where
  "fscanf [] s = ([], s)"
| "fscanf (Ws # ds) s = fscanf ds (dropWhile isspace s)"
| "fscanf (Lit c # ds) s = (case s of [] \<Rightarrow> ([], []) | a # t \<Rightarrow> if a = c then fscanf ds t else ([], s))"
| "fscanf (Dec # ds) s = (case scan_number 10 s of None \<Rightarrow> ([], s) | Some (v, t) \<Rightarrow> (case fscanf ds t of (vs, r) \<Rightarrow> (Num (to_int32 v) # vs, r)))"
| "fscanf (Uns # ds) s = (case scan_number 10 s of None \<Rightarrow> ([], s) | Some (v, t) \<Rightarrow> (case fscanf ds t of (vs, r) \<Rightarrow> (Num (v mod 2 ^ 32) # vs, r)))"
| "fscanf (Hex # ds) s = (case scan_number 16 s of None \<Rightarrow> ([], s) | Some (v, t) \<Rightarrow> (case fscanf ds t of (vs, r) \<Rightarrow> (Num (v mod 2 ^ 32) # vs, r)))"
| "fscanf (Auto # ds) s = (case scan_number 0 s of None \<Rightarrow> ([], s) | Some (v, t) \<Rightarrow> (case fscanf ds t of (vs, r) \<Rightarrow> (Num (to_int32 v) # vs, r)))"
| "fscanf (OneChar # ds) s = (case s of [] \<Rightarrow> ([], []) | a # t \<Rightarrow> (case fscanf ds t of (vs, r) \<Rightarrow> (Text [a] # vs, r)))"
| "fscanf (NotIn n c # ds) s =
     (let t = take n (takeWhile (\<lambda>a. a \<noteq> c) s) in
      if t = [] then ([], s) else (case fscanf ds (drop (length t) s) of (vs, r) \<Rightarrow> (Text t # vs, r)))"
| "fscanf (Str n # ds) s =
     (let u = dropWhile isspace s; t = take n (takeWhile (\<lambda>a. \<not> isspace a) u) in
      if t = [] then ([], u) else (case fscanf ds (drop (length t) u) of (vs, r) \<Rightarrow> (Text t # vs, r)))"

text \<open>Going on to the next line of a buffer.\<close>

definition eat_line :: "string \<Rightarrow> string" where
  "eat_line bufp = drop 1 (dropWhile (\<lambda>c. c \<noteq> CHR 0x0A) bufp)"

lemma length_eat_line: "s \<noteq> [] \<Longrightarrow> length (eat_line s) < length s"
proof -
  assume "s \<noteq> []"
  then have "0 < length s" by simp
  moreover have "length (dropWhile (\<lambda>c. c \<noteq> CHR 0x0A) s) \<le> length s" by (rule length_dropWhile_le)
  ultimately show ?thesis unfolding eat_line_def by (simp only: length_drop)
qed

section \<open>Printed numbers\<close>

definition xchar :: "nat \<Rightarrow> char" where
  "xchar n = char_of (if n < 10 then 48 + n else 87 + n)"

text \<open>\<open>%x\<close> and \<open>%08x\<close>.\<close>

fun hex_nat :: "nat \<Rightarrow> string" where
  "hex_nat n = (if n < 16 then [xchar n] else hex_nat (n div 16) @ [xchar (n mod 16)])"

declare hex_nat.simps [simp del]

definition hex8 :: "nat \<Rightarrow> string" where
  "hex8 n = (let s = hex_nat n in replicate (8 - length s) (CHR ''0'') @ s)"

lemma digit_of_xchar: "n < 16 \<Longrightarrow> digit_of 16 (xchar n) = Some n"
  by (auto simp: digit_of_def xchar_def Let_def)

lemma isdigit_iff: "is_digit_of 10 c \<longleftrightarrow> isdigit c" "isdigit c \<Longrightarrow> digit_of 10 c = Some (nat (digit_val c))"
  by (auto simp: is_digit_of_def digit_of_def isdigit_def digit_val_def Let_def)

lemma hex_nat_digits: "c \<in> set (hex_nat n) \<Longrightarrow> is_digit_of 16 c"
proof (induction n arbitrary: c rule: hex_nat.induct)
  case (1 n)
  have "is_digit_of 16 (xchar k)" if "k < 16" for k using digit_of_xchar [OF that] by (simp add: is_digit_of_def)
  with 1 show ?case by (subst (asm) (2) hex_nat.simps) (auto split: if_splits)
qed

lemma hex_nat_nonempty [simp]: "hex_nat n \<noteq> []"
  by (subst hex_nat.simps) simp

lemma digits_value_snoc: "digits_value b (s @ [c]) = int b * digits_value b s + int (the (digit_of b c))"
  by (simp add: digits_value_def)

lemma hex_nat_value: "digits_value 16 (hex_nat n) = int n"
proof (induction n rule: hex_nat.induct)
  case (1 n)
  show ?case
  proof (cases "n < 16")
    case True
    then show ?thesis by (subst hex_nat.simps) (simp add: digits_value_def digit_of_xchar)
  next
    case False
    have "16 * int (n div 16) + int (n mod 16) = int n" by (metis mult_div_mod_eq of_nat_add of_nat_mult of_nat_numeral)
    with False 1 show ?thesis by (subst hex_nat.simps) (simp add: digits_value_snoc digit_of_xchar)
  qed
qed

lemma digits_value_zeros: "digits_value 16 (replicate k (CHR ''0'') @ s) = digits_value 16 s"
  by (induction k) (simp_all add: digits_value_def digit_of_def)

lemma hex8_spec: "digits_value 16 (hex8 n) = int n" "c \<in> set (hex8 n) \<Longrightarrow> is_digit_of 16 c" "hex8 n \<noteq> []"
proof -
  have z: "is_digit_of 16 (CHR ''0'')" by (simp add: is_digit_of_def digit_of_def)
  show "digits_value 16 (hex8 n) = int n" "hex8 n \<noteq> []" by (simp_all add: hex8_def Let_def digits_value_zeros hex_nat_value)
  show "is_digit_of 16 c" if "c \<in> set (hex8 n)" using that hex_nat_digits [of c n] z by (auto simp: hex8_def Let_def)
qed

text \<open>A number in the input ends at the first character that is no digit.\<close>

definition ends :: "nat \<Rightarrow> string \<Rightarrow> bool" where
  "ends base r \<longleftrightarrow> r = [] \<or> \<not> is_digit_of base (hd r)"

lemma scan_digits_printed:
  assumes "\<forall>c \<in> set s. is_digit_of base c" "s \<noteq> []" "ends base r"
  shows "scan_digits base (s @ r) = Some (digits_value base s, r)"
proof -
  have "takeWhile (is_digit_of base) (s @ r) = s" "dropWhile (is_digit_of base) (s @ r) = r"
    using assms by (cases r; simp add: ends_def takeWhile_append dropWhile_append takeWhile_eq_all_conv; fail)+
  with assms(2) show ?thesis by (simp add: scan_digits_def)
qed

lemma dec_nat_scanned: "digits_value 10 (dec_nat n) = int n"
proof -
  have "foldl (\<lambda>a c. int 10 * a + int (the (digit_of 10 c))) b s = foldl (\<lambda>a c. 10 * a + digit_val c) b s" if "\<forall>c \<in> set s. isdigit c" for b s
    using that
  proof (induction s arbitrary: b)
    case (Cons c s)
    then have "isdigit c" by simp
    then have "0 \<le> digit_val c" by (simp add: isdigit_def digit_val_def)
    with Cons \<open>isdigit c\<close> show ?case by (simp add: isdigit_iff)
  qed simp
  with dec_nat_digits dec_nat_value show ?thesis by (simp add: digits_value_def)
qed

lemma strip_0x_digits: "strip_0x s = s \<or> (\<exists>c t. s = CHR ''0'' # c # t \<and> (c = CHR ''x'' \<or> c = CHR ''X''))"
  by (auto simp: strip_0x_def split: list.splits)

text \<open>Reading back what \<open>%d\<close> printed, with \<open>%d\<close> or \<open>%u\<close>, and with \<open>%i\<close> when it does not begin with a zero.\<close>

lemma scan_number_dec:
  assumes "ends 10 r"
  shows "scan_number 10 (dec_int v @ r) = Some (v, r)"
proof -
  have d: "\<forall>c \<in> set (dec_nat n). is_digit_of 10 c" for n using dec_nat_digits isdigit_iff(1) by blast
  have hd: "hd (dec_nat n @ r) = hd (dec_nat n)" for n by simp
  have "\<not> isspace (hd (dec_nat n @ r))" "hd (dec_nat n @ r) \<noteq> CHR ''-''" "hd (dec_nat n @ r) \<noteq> CHR ''+''" for n
    using isdigit_not_sign [OF dec_nat_hd [of n]] unfolding hd by blast+
  note h = this
  have dw: "dropWhile isspace (dec_nat n @ r) = dec_nat n @ r" for n
    using h(1) [of n] by (cases "dec_nat n") auto
  show ?thesis
  proof (cases "v < 0")
    case True
    have "\<not> isspace (CHR ''-'')" by (simp add: isspace_def)
    with True show ?thesis
      using scan_digits_printed [OF d dec_nat_nonempty assms, of "nat (- v)"]
      by (simp add: scan_number_def Let_def dec_int_def dec_nat_scanned)
  next
    case False
    then show ?thesis
      using scan_digits_printed [OF d dec_nat_nonempty assms, of "nat v"] h [of "nat v"] dw
      by (simp add: scan_number_def Let_def dec_int_def dec_nat_scanned)
  qed
qed

lemma scan_number_hex8:
  assumes "ends 16 r"
  shows "scan_number 16 (hex8 n @ r) = Some (int n, r)"
proof -
  have d: "\<forall>c \<in> set (hex8 n). is_digit_of 16 c" using hex8_spec(2) by blast
  obtain a s where s: "hex8 n = a # s" using hex8_spec(3) by (cases "hex8 n") auto
  then have "is_digit_of 16 a" using d by simp
  then have a: "\<not> isspace a" "a \<noteq> CHR ''-''" "a \<noteq> CHR ''+''" by (auto simp: is_digit_of_def digit_of_def isspace_def Let_def split: if_splits)
  have nx: "\<not> is_digit_of 16 (CHR ''x'')" "\<not> is_digit_of 16 (CHR ''X'')" by (simp_all add: is_digit_of_def digit_of_def)
  have "strip_0x (hex8 n @ r) = hex8 n @ r"
  proof (cases s)
    case Nil
    then have "8 \<le> length (hex8 n) \<Longrightarrow> False" using s by simp
    moreover have "8 \<le> length (hex8 n)" by (simp add: hex8_def Let_def)
    ultimately show ?thesis by blast
  next
    case (Cons b t)
    with d s nx show ?thesis by (auto simp: strip_0x_def)
  qed
  moreover have "digits_value 16 (a # s) = int n" using hex8_spec(1) [of n] unfolding s .
  ultimately show ?thesis using scan_digits_printed [OF d _ assms] s a by (simp add: scan_number_def Let_def)
qed

end
