(* ===== verification/LoadKeys.thy ===== *)
theory LoadKeys
  imports Verifier Scanf
begin

text \<open>
  \<open>load_keys\<close> of \<open>verifier.cpp\<close>: the file of public keys. The file is read through the world; a read
  that fails ends the text early, as it does for \<open>fscanf\<close>. The inner \<^term>\<open>None\<close> of a result is the jump
  to \<open>exit\<close>; the outer one is the use of a null pointer.
\<close>

section \<open>Keys\<close>

definition RSANUMWORDS :: nat where "RSANUMWORDS = 64"
definition P256_NBYTES :: nat where "P256_NBYTES = 32"

definition comma :: directive where "comma = Lit (CHR '','')"
definition open_brace :: directive where "open_brace = Lit (CHR 0x7B)"
definition close_brace :: directive where "close_brace = Lit (CHR 0x7D)"

lemmas braces = comma_def open_brace_def close_brace_def

definition rsa_format :: "directive list" where
  "rsa_format = [Ws, Auto, Ws, comma, Ws, Lit (CHR ''0''), Lit (CHR ''x''), Hex, Ws, comma, Ws, open_brace, Ws, Uns]"

definition ec_format :: "directive list" where
  "ec_format = [Ws, Auto, Ws, comma, Ws, open_brace, Ws, Uns]"

definition more_format :: "directive list" where
  "more_format = [Ws, comma, Ws, Uns]"

definition second_format :: "directive list" where
  "second_format = [Ws, close_brace, Ws, comma, Ws, open_brace, Ws, Uns]"

definition close_format :: "directive list" where
  "close_format = [Ws, close_brace, Ws, close_brace, Ws]"

definition scan_one :: "directive list \<Rightarrow> string \<Rightarrow> (int \<times> string) option" where
  "scan_one fmt s = (case fscanf fmt s of ([Num v], r) \<Rightarrow> Some (v, r) | _ \<Rightarrow> None)"

text \<open>The loops that read the remaining numbers of an array.\<close>

fun scan_more :: "nat \<Rightarrow> string \<Rightarrow> (int list \<times> string) option" where
  "scan_more 0 s = Some ([], s)"
| "scan_more (Suc n) s = do {
     (v, r) \<leftarrow> scan_one more_format s;
     (vs, r) \<leftarrow> scan_more n r;
     Some (v # vs, r) }"

definition new_rsa :: "(nat \<Rightarrow> bool) \<Rightarrow> nat \<Rightarrow> int \<Rightarrow> nat \<Rightarrow> 'p Certificate option" where
  "new_rsa malloc_ok i e h =
     (if malloc_ok i then Some \<lparr>hash_len = h, key_type = RSA, rsa = Some \<lparr>rsa_len = 0, n0inv = 0, rsa_n = [], rsa_rr = [], exponent = e\<rparr>, ec = None\<rparr>
      else None)"

text \<open>The start character and the version. A character other than the two leaves the zeros of \<open>memset\<close>, among them
  the key type \<open>RSA\<close> and a null key. The point of an elliptic curve key is filled in at the end.\<close>

definition read_start :: "(nat \<Rightarrow> bool) \<Rightarrow> nat \<Rightarrow> string \<Rightarrow> ('p Certificate \<times> string) option option" where
  "read_start malloc_ok i s =
     (case fscanf [Ws, OneChar] s of
        ([Text [start_char]], r) \<Rightarrow>
          if start_char = CHR 0x7B then map_option (\<lambda>c. Some (c, r)) (new_rsa malloc_ok i 3 SHA_DIGEST_SIZE)
          else if start_char = CHR ''v'' then
            (case fscanf [Dec, Ws, open_brace] r of
               ([Num version], r) \<Rightarrow>
                 if version = 2 then map_option (\<lambda>c. Some (c, r)) (new_rsa malloc_ok i 65537 SHA_DIGEST_SIZE)
                 else if version = 3 then map_option (\<lambda>c. Some (c, r)) (new_rsa malloc_ok i 3 SHA256_DIGEST_SIZE)
                 else if version = 4 then map_option (\<lambda>c. Some (c, r)) (new_rsa malloc_ok i 65537 SHA256_DIGEST_SIZE)
                 else if version = 5 then Some (Some (\<lparr>hash_len = SHA256_DIGEST_SIZE, key_type = EC, rsa = None, ec = None\<rparr>, r))
                 else Some None
             | _ \<Rightarrow> Some None)
          else Some (Some (\<lparr>hash_len = 0, key_type = RSA, rsa = None, ec = None\<rparr>, r))
      | _ \<Rightarrow> Some None)"

definition scan_arrays :: "nat \<Rightarrow> int \<Rightarrow> string \<Rightarrow> (int list \<times> int list \<times> string) option" where
  "scan_arrays len v s = do {
     (vs, r) \<leftarrow> scan_more (len - 1) s;
     (u, r) \<leftarrow> scan_one second_format r;
     (us, r) \<leftarrow> scan_more (len - 1) r;
     Some (v # vs, u # us, snd (fscanf close_format r)) }"

definition read_rsa :: "'p Certificate \<Rightarrow> string \<Rightarrow> ('p Certificate \<times> string) option option" where
  "read_rsa cert s =
     (case fscanf rsa_format s of (vs, r) \<Rightarrow>
        case rsa cert of
          None \<Rightarrow> if vs = [] then Some None else None
        | Some key \<Rightarrow>
            (case vs of
               [Num len, Num ninv, Num n] \<Rightarrow>
                 if len \<noteq> int RSANUMWORDS then Some None
                 else
                   Some (map_option (\<lambda>(ns, rrs, r).
                     (cert\<lparr>rsa := Some (key\<lparr>rsa_len := len, n0inv := word_of_int ninv,
                                            rsa_n := map word_of_int ns, rsa_rr := map word_of_int rrs\<rparr>)\<rparr>, r))
                     (scan_arrays RSANUMWORDS n r))
             | _ \<Rightarrow> Some None))"

text \<open>The bytes are stored from the last one down.\<close>

definition read_ec :: "('c, 'd, 'p) crypto \<Rightarrow> bool \<Rightarrow> 'p Certificate \<Rightarrow> string \<Rightarrow> ('p Certificate \<times> string) option option" where
  "read_ec lib calloc_ok cert s =
     (case fscanf ec_format s of
        ([Num key_len, Num x], r) \<Rightarrow>
          if key_len \<noteq> int P256_NBYTES then Some None
          else
            (case scan_arrays P256_NBYTES x r of
               None \<Rightarrow> Some None
             | Some (xs, ys, r) \<Rightarrow>
                 if \<not> calloc_ok then None
                 else Some (Some (cert\<lparr>ec := Some (p256_from_bin lib (rev (map word_of_int xs)), p256_from_bin lib (rev (map word_of_int ys)))\<rparr>, r)))
      | _ \<Rightarrow> Some None)"

definition read_key :: "('c, 'd, 'p) crypto \<Rightarrow> bool \<Rightarrow> 'p Certificate \<Rightarrow> string \<Rightarrow> ('p Certificate \<times> string) option option" where
  "read_key lib calloc_ok cert s = (if key_type cert = RSA then read_rsa cert s else read_ec lib calloc_ok cert s)"

subsection \<open>What is consumed\<close>

lemma scan_number_length: "scan_number b s = Some (v, r) \<Longrightarrow> length r \<le> length s"
proof -
  assume a: "scan_number b s = Some (v, r)"
  define t where "t = dropWhile isspace s"
  define u where "u = (if t \<noteq> [] \<and> (hd t = CHR ''-'' \<or> hd t = CHR ''+'') then tl t else t)"
  have t: "length t \<le> length s" unfolding t_def by (rule length_dropWhile_le)
  have u: "length u \<le> length t" by (simp add: u_def)
  have x: "length (strip_0x u) \<le> length u" by (auto simp: strip_0x_def split: list.splits)
  from a obtain b' u' where "scan_digits b' u' = Some (\<bar>v\<bar>, r) \<or> (\<exists>v'. scan_digits b' u' = Some (v', r))" "u' = u \<or> u' = strip_0x u"
    unfolding scan_number_def Let_def t_def [symmetric] u_def [symmetric] by (auto split: if_splits)
  then have "length r \<le> length u'" by (auto simp: scan_digits_def Let_def length_dropWhile_le split: if_splits)
  with \<open>u' = u \<or> u' = strip_0x u\<close> t u x show ?thesis by auto
qed

lemma fscanf_length: "fscanf ds s = (vs, r) \<Longrightarrow> length r \<le> length s"
proof (induction ds s arbitrary: vs r rule: fscanf.induct)
  case (2 ds s)
  then show ?case using length_dropWhile_le [of isspace s] by fastforce
next
  case (9 n c ds s)
  then show ?case by (fastforce simp: Let_def split: if_splits prod.splits)
next
  case (10 n ds s)
  then show ?case using length_dropWhile_le [of isspace s] by (fastforce simp: Let_def split: if_splits prod.splits)
qed (auto split: list.splits option.splits prod.splits if_splits dest!: scan_number_length, (fastforce intro: le_trans le_SucI)+)

lemma scan_one_length: "scan_one fmt s = Some (v, r) \<Longrightarrow> length r \<le> length s"
  by (auto simp: scan_one_def split: prod.splits list.splits scanned.splits dest: fscanf_length)

lemma scan_more_length: "scan_more n s = Some (vs, r) \<Longrightarrow> length r \<le> length s"
  by (induction n arbitrary: s vs r) (force simp: bind_eq_Some_conv dest!: scan_one_length)+

lemma scan_arrays_length: "scan_arrays n v s = Some (vs, us, r) \<Longrightarrow> length r \<le> length s"
  by (auto simp: scan_arrays_def bind_eq_Some_conv dest!: scan_one_length scan_more_length)
     (metis fscanf_length le_trans prod.collapse)

lemma read_key_length: "read_key lib calloc_ok cert s = Some (Some (cert', r)) \<Longrightarrow> length r \<le> length s"
  by (auto simp: read_key_def read_rsa_def read_ec_def split: if_splits prod.splits option.splits list.splits scanned.splits
      dest!: fscanf_length scan_arrays_length)

lemma read_start_length: "read_start malloc_ok i s = Some (Some (cert, r)) \<Longrightarrow> length r < length s"
proof -
  assume a: "read_start malloc_ok i s = Some (Some (cert, r))"
  then obtain c t where t: "fscanf [Ws, OneChar] s = ([Text [c]], t)"
    by (auto simp: read_start_def split: prod.splits list.splits scanned.splits)
  then have "dropWhile isspace s = c # t" by (auto split: list.splits)
  then have "length t < length s" by (metis length_Cons length_dropWhile_le less_eq_Suc_le)
  moreover have "length r \<le> length t" using a t
    by (auto simp: read_start_def simp del: fscanf.simps split: prod.splits list.splits scanned.splits if_splits dest!: fscanf_length)
  ultimately show ?thesis by simp
qed

section \<open>The file\<close>

text \<open>The loop over the keys; \<open>i\<close> certificates were read.\<close>

function load_loop ::
  "('c, 'd, 'p) crypto \<Rightarrow> (nat \<Rightarrow> bool) \<Rightarrow> (nat \<Rightarrow> bool) \<Rightarrow> 'p Certificate list \<Rightarrow> string \<Rightarrow> 'p Certificate list option option" where
  "load_loop lib realloc_ok malloc_ok certs s =
     (if \<not> realloc_ok (length certs + 1) then None
      else
        case read_start malloc_ok (length certs) s of
          None \<Rightarrow> None
        | Some None \<Rightarrow> Some None
        | Some (Some (cert, r)) \<Rightarrow>
            (case read_key lib (malloc_ok (length certs)) cert r of
               None \<Rightarrow> None
             | Some None \<Rightarrow> Some None
             | Some (Some (cert, r)) \<Rightarrow>
                 (case r of
                    [] \<Rightarrow> Some (Some (certs @ [cert]))
                  | c # t \<Rightarrow> if c = CHR '','' then load_loop lib realloc_ok malloc_ok (certs @ [cert]) t else Some None)))"
  by pat_completeness auto
termination
  by (relation "measure (\<lambda>(_, _, _, _, s). length s)") (auto dest!: read_start_length read_key_length)

declare load_loop.simps [simp del]

definition load_keys ::
  "('c, 'd, 'p) crypto \<Rightarrow> (nat \<Rightarrow> bool) \<Rightarrow> (nat \<Rightarrow> bool) \<Rightarrow> string \<Rightarrow> 'f world \<Rightarrow> ('p Certificate list option \<times> 'f world) option" where
  "load_keys lib realloc_ok malloc_ok filename w =
     (case sys_ok w of (good, w1) \<Rightarrow>
        case lookup_file w1 filename of
          None \<Rightarrow> Some (None, w1)
        | Some f \<Rightarrow>
            if \<not> good then Some (None, w1)
            else case fread (f_data f) 0 (length (f_data f)) w1 of (buf, w2) \<Rightarrow>
              map_option (\<lambda>r. (r, w2)) (load_loop lib realloc_ok malloc_ok [] (chars buf)))"

section \<open>The certificates of a file\<close>

text \<open>A certificate that the verifier can use: the key that its type asks for is there, with arrays of the right length.\<close>

definition cert_ok :: "'p Certificate \<Rightarrow> bool" where
  "cert_ok c \<longleftrightarrow>
     (case key_type c of
        RSA \<Rightarrow> hash_len c \<in> {SHA_DIGEST_SIZE, SHA256_DIGEST_SIZE}
          \<and> (\<exists>key. rsa c = Some key \<and> rsa_len key = int RSANUMWORDS \<and> length (rsa_n key) = RSANUMWORDS
                \<and> length (rsa_rr key) = RSANUMWORDS \<and> exponent key \<in> {3, 65537})
      | EC \<Rightarrow> hash_len c = SHA256_DIGEST_SIZE \<and> ec c \<noteq> None)"

text \<open>What the start of a key determines.\<close>

definition cert_started :: "'p Certificate \<Rightarrow> bool" where
  "cert_started c \<longleftrightarrow>
     (case key_type c of
        RSA \<Rightarrow> rsa c = None \<or> hash_len c \<in> {SHA_DIGEST_SIZE, SHA256_DIGEST_SIZE} \<and> (\<exists>key. rsa c = Some key \<and> exponent key \<in> {3, 65537})
      | EC \<Rightarrow> hash_len c = SHA256_DIGEST_SIZE)"

lemma read_start_started: "read_start malloc_ok i s = Some (Some (cert, r)) \<Longrightarrow> cert_started cert"
  by (auto simp: read_start_def new_rsa_def cert_started_def split: prod.splits list.splits scanned.splits if_splits)

lemma scan_more_count: "scan_more n s = Some (vs, r) \<Longrightarrow> length vs = n"
  by (induction n arbitrary: s vs r) (auto simp: bind_eq_Some_conv)

lemma scan_arrays_count: "scan_arrays n v s = Some (vs, us, r) \<Longrightarrow> 0 < n \<Longrightarrow> length vs = n \<and> length us = n"
  by (auto simp: scan_arrays_def bind_eq_Some_conv dest!: scan_more_count)

lemma read_rsa_ok:
  assumes "read_rsa cert s = Some (Some (cert', r))" "key_type cert = RSA" "cert_started cert"
  shows "cert_ok cert'"
proof -
  from assms(1) obtain key len ninv n t ns rrs where
    "rsa cert = Some key" "len = int RSANUMWORDS" "scan_arrays RSANUMWORDS n t = Some (ns, rrs, r)"
    "cert' = cert\<lparr>rsa := Some (key\<lparr>rsa_len := len, n0inv := word_of_int ninv, rsa_n := map word_of_int ns, rsa_rr := map word_of_int rrs\<rparr>)\<rparr>"
    by (auto simp: read_rsa_def split: prod.splits option.splits list.splits scanned.splits if_splits)
  with assms(2,3) scan_arrays_count [of RSANUMWORDS n t ns rrs r] show ?thesis
    by (auto simp: cert_ok_def cert_started_def RSANUMWORDS_def)
qed

lemma read_key_ok:
  assumes "read_key lib calloc_ok cert s = Some (Some (cert', r))" "cert_started cert"
  shows "cert_ok cert'"
proof (cases "key_type cert")
  case RSA
  then show ?thesis using assms read_rsa_ok by (auto simp: read_key_def)
next
  case EC
  with assms show ?thesis
    by (auto simp: read_key_def read_ec_def cert_ok_def cert_started_def split: prod.splits option.splits list.splits scanned.splits if_splits)
qed

lemma load_loop_ok:
  "load_loop lib realloc_ok malloc_ok certs s = Some (Some certs') \<Longrightarrow> \<forall>c \<in> set certs. cert_ok c
    \<Longrightarrow> certs' \<noteq> [] \<and> (\<forall>c \<in> set certs'. cert_ok c)"
proof (induction lib realloc_ok malloc_ok certs s rule: load_loop.induct)
  case (1 lib realloc_ok malloc_ok certs s)
  from "1.prems"(1) obtain cert r cert' r' where
    s: "realloc_ok (length certs + 1)" "read_start malloc_ok (length certs) s = Some (Some (cert, r))"
      "read_key lib (malloc_ok (length certs)) cert r = Some (Some (cert', r'))"
    by (subst (asm) load_loop.simps) (auto split: option.splits prod.splits if_splits)
  have k: "\<forall>c \<in> set (certs @ [cert']). cert_ok c" using "1.prems"(2) read_key_ok [OF s(3) read_start_started [OF s(2)]] by auto
  show ?case
  proof (cases r')
    case Nil
    with "1.prems"(1) s k show ?thesis by (subst (asm) load_loop.simps) auto
  next
    case (Cons c t)
    with "1.prems"(1) s have "c = CHR '',''" "load_loop lib realloc_ok malloc_ok (certs @ [cert']) t = Some (Some certs')"
      by (subst (asm) load_loop.simps, auto split: if_splits)+
    with "1.IH" [of "Some (cert, r)" "(cert, r)" cert r "Some (cert', r')" "(cert', r')" cert' r' c t] s k Cons show ?thesis by simp
  qed
qed

lemma try_keys_defined: "\<forall>c \<in> set keys. cert_ok c \<Longrightarrow> try_keys lib keys h1 h2 sig_der \<noteq> None"
proof (induction keys)
  case (Cons k ks)
  then have "cert_ok k" "try_keys lib ks h1 h2 sig_der \<noteq> None" by simp_all
  then show ?case by (cases "key_type k") (auto simp: cert_ok_def Let_def split: option.splits)
qed simp

text \<open>C25: the certificates that \<open>load_keys\<close> returns are well formed: there is at least one, each has the key its type asks
  for, an exponent of 3 or 65537, arrays of the full length and a hash the verifier knows, so that the verifier's loop over
  them never uses a null key.\<close>

theorem load_keys_usable:
  assumes "load_keys lib realloc_ok malloc_ok filename w = Some (Some keys, w')"
  shows "keys \<noteq> [] \<and> list_all cert_ok keys \<and> (\<forall>h1 h2 sig_der. try_keys lib keys h1 h2 sig_der \<noteq> None)"
proof -
  from assms obtain s where "load_loop lib realloc_ok malloc_ok [] s = Some (Some keys)"
    by (auto simp: load_keys_def split: prod.splits option.splits if_splits)
  from load_loop_ok [OF this] show ?thesis using try_keys_defined [of keys lib] by (simp add: list_all_iff)
qed

section \<open>Printed keys\<close>

text \<open>The text of keys in the documented format. Words are printed as signed numbers; the bytes of a coordinate
  begin with the least significant one.\<close>

datatype key_spec = RsaSpec nat u32 "u32 list" "u32 list" | EcSpec buffer buffer

fun more_numbers :: "int list \<Rightarrow> string" where
  "more_numbers [] = []"
| "more_numbers (v # vs) = CHR '','' # dec_int v @ more_numbers vs"

fun print_array :: "int list \<Rightarrow> string" where
  "print_array [] = []"
| "print_array (v # vs) = CHR 0x7B # dec_int v @ more_numbers vs @ [CHR 0x7D]"

fun print_key :: "key_spec \<Rightarrow> string" where
  "print_key (RsaSpec version ninv ns rrs) =
     (if version = 1 then [] else ''v'' @ dec_int (int version) @ '' '') @ [CHR 0x7B] @ dec_int (int RSANUMWORDS) @ '',0x'' @ hex_nat (unat ninv)
     @ '','' @ print_array (map sint ns) @ '','' @ print_array (map sint rrs) @ [CHR 0x7D]"
| "print_key (EcSpec x y) =
     ''v5 '' @ [CHR 0x7B] @ dec_int (int P256_NBYTES) @ '','' @ print_array (map uint (rev x)) @ '','' @ print_array (map uint (rev y)) @ [CHR 0x7D]"

fun print_keys :: "key_spec list \<Rightarrow> string" where
  "print_keys [] = []"
| "print_keys (k # ks) = print_key k @ (if ks = [] then [] else CHR '','' # print_keys ks)"

fun spec_ok :: "key_spec \<Rightarrow> bool" where
  "spec_ok (RsaSpec version ninv ns rrs) \<longleftrightarrow> version \<in> {1, 2, 3, 4} \<and> length ns = RSANUMWORDS \<and> length rrs = RSANUMWORDS"
| "spec_ok (EcSpec x y) \<longleftrightarrow> length x = P256_NBYTES \<and> length y = P256_NBYTES"

fun cert_of :: "('c, 'd, 'p) crypto \<Rightarrow> key_spec \<Rightarrow> 'p Certificate" where
  "cert_of lib (RsaSpec version ninv ns rrs) =
     \<lparr>hash_len = (if version \<le> 2 then SHA_DIGEST_SIZE else SHA256_DIGEST_SIZE), key_type = RSA,
      rsa = Some \<lparr>rsa_len = int RSANUMWORDS, n0inv = ninv, rsa_n = ns, rsa_rr = rrs, exponent = (if odd version then 3 else 65537)\<rparr>, ec = None\<rparr>"
| "cert_of lib (EcSpec x y) =
     \<lparr>hash_len = SHA256_DIGEST_SIZE, key_type = EC, rsa = None, ec = Some (p256_from_bin lib x, p256_from_bin lib y)\<rparr>"

lemma isspace_marks [simp]:
  "\<not> isspace (CHR '','')" "\<not> isspace (CHR 0x7B)" "\<not> isspace (CHR 0x7D)" "\<not> isspace (CHR ''0'')" "\<not> isspace (CHR ''v'')" "isspace (CHR '' '')"
  by (simp_all add: isspace_def)

lemma ends_marks [simp]:
  "ends 10 (CHR '','' # r)" "ends 10 (CHR 0x7D # r)" "ends 10 (CHR '' '' # r)" "ends b []" "ends 16 (CHR '','' # r)"
  by (simp_all add: ends_def is_digit_of_def digit_of_def)

lemma skip_number [simp]: "dropWhile isspace (dec_int v @ r) = dec_int v @ r"
proof -
  have "\<not> isspace (hd (dec_int v))"
    using isdigit_not_sign [OF dec_nat_hd, of "nat v"] by (simp add: dec_int_def isspace_def [of "CHR ''-''"])
  moreover have "dec_int v \<noteq> []" by (simp add: dec_int_def)
  ultimately show ?thesis by (cases "dec_int v") auto
qed

lemma scan_uns: "ends 10 r \<Longrightarrow> fscanf [Uns] (dec_int v @ r) = ([Num (v mod 2 ^ 32)], r)"
  by (simp add: scan_number_dec)

lemma scan_more_printed:
  "ends 10 r \<Longrightarrow> scan_more (length vs) (more_numbers vs @ r) = Some (map (\<lambda>v. v mod 2 ^ 32) vs, r)"
proof (induction vs)
  case (Cons v vs)
  have e: "ends 10 (more_numbers vs @ r)" using Cons.prems by (cases vs) simp_all
  have "scan_one more_format (more_numbers (v # vs) @ r) = Some (v mod 2 ^ 32, more_numbers vs @ r)"
    using scan_number_dec [OF e] by (simp add: scan_one_def more_format_def braces)
  with Cons show ?case by simp
qed simp

lemma scan_arrays_printed:
  assumes "length vs = length us"
  shows "scan_arrays (Suc (length vs)) x
      (more_numbers vs @ [CHR 0x7D] @ '','' @ print_array (u # us) @ CHR 0x7D # r)
    = Some (x # map (\<lambda>v. v mod 2 ^ 32) vs, map (\<lambda>v. v mod 2 ^ 32) (u # us), dropWhile isspace r)"
proof -
  have e: "ends 10 (more_numbers us @ CHR 0x7D # CHR 0x7D # r)" by (cases us) simp_all
  have "scan_one second_format (CHR 0x7D # CHR '','' # CHR 0x7B # dec_int u @ more_numbers us @ CHR 0x7D # CHR 0x7D # r)
      = Some (u mod 2 ^ 32, more_numbers us @ CHR 0x7D # CHR 0x7D # r)"
    using scan_number_dec [OF e] by (simp add: scan_one_def second_format_def braces)
  then show ?thesis
    using scan_more_printed [of "CHR 0x7D # CHR '','' # CHR 0x7B # dec_int u @ more_numbers us @ CHR 0x7D # CHR 0x7D # r" vs]
      scan_more_printed [of "CHR 0x7D # CHR 0x7D # r" us] assms
    by (simp add: scan_arrays_def close_format_def braces)
qed

lemma scan_number_hex_nat:
  assumes "ends 16 r" "r = [] \<or> hd r \<noteq> CHR ''x'' \<and> hd r \<noteq> CHR ''X''"
  shows "scan_number 16 (hex_nat n @ r) = Some (int n, r)"
proof -
  have d: "\<forall>c \<in> set (hex_nat n). is_digit_of 16 c" using hex_nat_digits by blast
  obtain a s where s: "hex_nat n = a # s" by (cases "hex_nat n") auto
  then have "is_digit_of 16 a" using d by simp
  then have a: "\<not> isspace a" "a \<noteq> CHR ''-''" "a \<noteq> CHR ''+''" by (auto simp: is_digit_of_def digit_of_def isspace_def Let_def split: if_splits)
  have nx: "\<not> is_digit_of 16 (CHR ''x'')" "\<not> is_digit_of 16 (CHR ''X'')" by (simp_all add: is_digit_of_def digit_of_def)
  have "strip_0x (hex_nat n @ r) = hex_nat n @ r"
  proof (cases s)
    case Nil
    with s assms(2) show ?thesis by (cases r) (auto simp: strip_0x_def)
  next
    case (Cons b t)
    with d s nx show ?thesis by (auto simp: strip_0x_def)
  qed
  moreover have "digits_value 16 (a # s) = int n" using hex_nat_value [of n] unfolding s .
  ultimately show ?thesis using scan_digits_printed [OF d _ assms(1)] s a by (simp add: scan_number_def Let_def)
qed

lemma scan_auto_printed:
  "scan_number 0 (dec_int 64 @ CHR '','' # r) = Some (64, CHR '','' # r)" "scan_number 0 (dec_int 32 @ CHR '','' # r) = Some (32, CHR '','' # r)"
proof -
  have d: "dec_int 64 = ''64''" "dec_int 32 = ''32''" by code_simp+
  show "scan_number 0 (dec_int 64 @ CHR '','' # r) = Some (64, CHR '','' # r)" "scan_number 0 (dec_int 32 @ CHR '','' # r) = Some (32, CHR '','' # r)"
    unfolding d by (simp_all add: scan_number_def isspace_def strip_0x_def scan_digits_def is_digit_of_def digit_of_def digits_value_def)
qed


lemma word_of_int_mod_32: "word_of_int (v mod 2 ^ 32) = (word_of_int v :: u32)"
  by (simp add: word_of_int_eq_iff take_bit_eq_mod)

lemma printed_word [simp]: "word_of_int (sint w mod 4294967296) = (w :: u32)" "word_of_int (uint w mod 4294967296) = (w :: u32)"
  using word_of_int_mod_32 [of "sint w"] word_of_int_mod_32 [of "uint w"] by simp_all

lemma printed_byte [simp]: "word_of_int (uint b mod 4294967296) = (b :: byte)"
  using uint_lt2p [of b] by simp

lemma read_rsa_printed:
  assumes "length ns = RSANUMWORDS" "length rrs = RSANUMWORDS" "rsa cert = Some key"
  shows "read_rsa cert (dec_int (int RSANUMWORDS) @ '',0x'' @ hex_nat (unat ninv) @ '','' @ print_array (map sint ns) @ '','' @ print_array (map sint rrs) @ CHR 0x7D # r)
    = Some (Some (cert\<lparr>rsa := Some (key\<lparr>rsa_len := int RSANUMWORDS, n0inv := ninv, rsa_n := ns, rsa_rr := rrs\<rparr>)\<rparr>, dropWhile isspace r))"
proof -
  obtain n ns' u us' where n: "ns = n # ns'" "rrs = u # us'" using assms(1,2) by (cases ns; cases rrs) (auto simp: RSANUMWORDS_def)
  let ?vs = "map sint ns'" and ?us = "map sint us'"
  let ?r = "more_numbers ?vs @ [CHR 0x7D] @ '','' @ print_array (sint u # ?us) @ CHR 0x7D # r"
  have e: "ends 10 ?r" by (cases ?vs) simp_all
  let ?r1 = "CHR '','' # CHR 0x7B # dec_int (sint n) @ ?r"
  have h: "\<not> isspace (hd (hex_nat (unat ninv) @ ?r1))" using hex_nat_digits [OF hd_in_set, of "unat ninv"]
    by (auto simp: is_digit_of_def digit_of_def isspace_def Let_def split: if_splits)
  have x: "fscanf [Hex, Ws, comma, Ws, open_brace, Ws, Uns] (hex_nat (unat ninv) @ ?r1) = ([Num (int (unat ninv) mod 2 ^ 32), Num (sint n mod 2 ^ 32)], ?r)"
    using scan_number_hex_nat [of ?r1 "unat ninv"] scan_number_dec [OF e, of "sint n"] by (simp add: braces)
  have "fscanf rsa_format (dec_int 64 @ '',0x'' @ hex_nat (unat ninv) @ ?r1) = ([Num 64, Num (int (unat ninv) mod 2 ^ 32), Num (sint n mod 2 ^ 32)], ?r)"
    using x scan_auto_printed(1) [of "''0x'' @ hex_nat (unat ninv) @ ?r1"]
    by (simp add: rsa_format_def braces to_int32_id)
  moreover have "scan_arrays (Suc (length ?vs)) (sint n mod 2 ^ 32) ?r = Some (map (\<lambda>v. v mod 2 ^ 32) (map sint ns), map (\<lambda>v. v mod 2 ^ 32) (map sint rrs), dropWhile isspace r)"
    using scan_arrays_printed [of ?vs ?us "sint n mod 2 ^ 32" "sint u" r] assms(1,2) n by simp
  moreover have "Suc (length ?vs) = 64" using assms(1) n by (simp add: RSANUMWORDS_def)
  ultimately show ?thesis unfolding RSANUMWORDS_def using assms(3) n by (simp add: read_rsa_def RSANUMWORDS_def o_def)
qed

lemma read_ec_printed:
  assumes "length x = P256_NBYTES" "length y = P256_NBYTES"
  shows "read_ec lib True cert (dec_int (int P256_NBYTES) @ '','' @ print_array (map uint (rev x)) @ '','' @ print_array (map uint (rev y)) @ CHR 0x7D # r)
    = Some (Some (cert\<lparr>ec := Some (p256_from_bin lib x, p256_from_bin lib y)\<rparr>, dropWhile isspace r))"
proof -
  obtain n ns u us where n: "rev x = n # ns" "rev y = u # us"
    using assms by (cases "rev x"; cases "rev y") (auto simp: P256_NBYTES_def)
  then have len: "length ns = 31" "length us = 31" using assms length_rev [of x] length_rev [of y] by (simp_all add: P256_NBYTES_def)
  let ?vs = "map uint ns" and ?us = "map uint us"
  let ?r = "more_numbers ?vs @ [CHR 0x7D] @ '','' @ print_array (uint u # ?us) @ CHR 0x7D # r"
  have e: "ends 10 ?r" by (cases ?vs) simp_all
  have "fscanf ec_format (dec_int 32 @ '','' @ CHR 0x7B # dec_int (uint n) @ ?r) = ([Num 32, Num (uint n mod 2 ^ 32)], ?r)"
    using scan_auto_printed(2) [of "CHR 0x7B # dec_int (uint n) @ ?r"] scan_number_dec [OF e, of "uint n"]
    by (simp add: ec_format_def braces to_int32_id)
  moreover have "scan_arrays (Suc (length ?vs)) (uint n mod 2 ^ 32) ?r
      = Some (map (\<lambda>v. v mod 2 ^ 32) (map uint (rev x)), map (\<lambda>v. v mod 2 ^ 32) (map uint (rev y)), dropWhile isspace r)"
    using scan_arrays_printed [of ?vs ?us "uint n mod 2 ^ 32" "uint u" r] len n by simp
  moreover have "Suc (length ?vs) = 32" using len by simp
  ultimately show ?thesis unfolding P256_NBYTES_def using n by (simp add: read_ec_def P256_NBYTES_def o_def)
qed

lemma read_start_version:
  assumes "version \<noteq> 1" "int version < 2 ^ 31"
  shows "fscanf [Ws, OneChar] (''v'' @ dec_int (int version) @ '' '' @ CHR 0x7B # r) = ([Text ''v''], dec_int (int version) @ '' '' @ CHR 0x7B # r)"
    and "fscanf [Dec, Ws, open_brace] (dec_int (int version) @ '' '' @ CHR 0x7B # r) = ([Num (int version)], r)"
  using scan_number_dec [of "'' '' @ CHR 0x7B # r" "int version"] assms by (simp_all add: braces to_int32_id)

lemma read_printed:
  fixes lib :: "('c, 'd, 'p) crypto"
  assumes "spec_ok k" "malloc_ok i"
  shows "\<exists>cert s. read_start malloc_ok i (print_key k @ r) = Some (Some (cert, s))
    \<and> read_key lib (malloc_ok i) cert s = Some (Some (cert_of lib k, dropWhile isspace r))"
proof (cases k)
  case (RsaSpec version ninv ns rrs)
  let ?s = "dec_int (int RSANUMWORDS) @ '',0x'' @ hex_nat (unat ninv) @ '','' @ print_array (map sint ns) @ '','' @ print_array (map sint rrs) @ CHR 0x7D # r"
  from RsaSpec assms(1) have v: "version = 1 \<or> version = 2 \<or> version = 3 \<or> version = 4" and l: "length ns = RSANUMWORDS" "length rrs = RSANUMWORDS" by auto
  define e :: int where "e = (if odd version then 3 else 65537)"
  define h where "h = (if version \<le> 2 then SHA_DIGEST_SIZE else SHA256_DIGEST_SIZE)"
  define key where "key = \<lparr>rsa_len = 0, n0inv = 0, rsa_n = [], rsa_rr = [], exponent = e\<rparr>"
  define cert :: "'p Certificate" where "cert = \<lparr>hash_len = h, key_type = RSA, rsa = Some key, ec = None\<rparr>"
  have "print_key k @ r = (if version = 1 then [] else ''v'' @ dec_int (int version) @ '' '') @ CHR 0x7B # ?s" using RsaSpec by simp
  moreover have "fscanf [Ws, OneChar] (CHR 0x7B # ?s) = ([Text [CHR 0x7B]], ?s)" by simp
  ultimately have "read_start malloc_ok i (print_key k @ r) = Some (Some (cert, ?s))"
    using v assms(2) read_start_version [of version ?s]
    by (auto simp: read_start_def new_rsa_def cert_def key_def e_def h_def simp del: fscanf.simps)
  moreover have "read_key lib (malloc_ok i) cert ?s = Some (Some (cert_of lib k, dropWhile isspace r))"
    using read_rsa_printed [OF l, of cert key ninv r] RsaSpec by (simp add: read_key_def cert_def key_def e_def h_def)
  ultimately show ?thesis by blast
next
  case (EcSpec x y)
  let ?s = "dec_int (int P256_NBYTES) @ '','' @ print_array (map uint (rev x)) @ '','' @ print_array (map uint (rev y)) @ CHR 0x7D # r"
  let ?c = "\<lparr>hash_len = SHA256_DIGEST_SIZE, key_type = EC, rsa = None, ec = None\<rparr> :: 'p Certificate"
  have "dec_int 5 = ''5''" by code_simp
  then have "print_key k @ r = ''v'' @ dec_int (int 5) @ '' '' @ CHR 0x7B # ?s" using EcSpec by simp
  then have "read_start malloc_ok i (print_key k @ r) = Some (Some (?c, ?s))"
    using read_start_version [of 5 ?s] by (simp add: read_start_def del: fscanf.simps)
  moreover have "read_key lib (malloc_ok i) ?c ?s = Some (Some (cert_of lib k, dropWhile isspace r))"
    using read_ec_printed [of x y lib ?c r] EcSpec assms by (simp add: read_key_def)
  ultimately show ?thesis by blast
qed

lemma load_loop_printed:
  assumes "ks \<noteq> []" "\<forall>k \<in> set ks. spec_ok k" "\<forall>n. malloc_ok n" "\<forall>n. realloc_ok n" "\<forall>c \<in> set ws. isspace c"
  shows "load_loop lib realloc_ok malloc_ok certs (print_keys ks @ ws) = Some (Some (certs @ map (cert_of lib) ks))"
  using assms(1,2)
proof (induction ks arbitrary: certs)
  case (Cons k ks)
  let ?r = "(if ks = [] then [] else CHR '','' # print_keys ks) @ ws"
  have r: "dropWhile isspace ?r = (if ks = [] then [] else CHR '','' # print_keys ks @ ws)" using assms(5) by simp
  have "spec_ok k" "malloc_ok (length certs)" using Cons.prems assms(3) by simp_all
  from read_printed [where malloc_ok = malloc_ok and i = "length certs" and k = k and r = ?r and lib = lib, OF this] obtain cert s where
    "read_start malloc_ok (length certs) (print_key k @ ?r) = Some (Some (cert, s))"
    "read_key lib (malloc_ok (length certs)) cert s = Some (Some (cert_of lib k, dropWhile isspace ?r))" by blast
  moreover have "realloc_ok (length certs + 1)" using assms(4) by blast
  moreover have "ks \<noteq> [] \<Longrightarrow> load_loop lib realloc_ok malloc_ok (certs @ [cert_of lib k]) (print_keys ks @ ws)
      = Some (Some (certs @ cert_of lib k # map (cert_of lib) ks))" using Cons by simp
  ultimately show ?case using r by (subst load_loop.simps) simp
qed simp

text \<open>C26: a file with keys in the documented format, separated by commas and followed by white space, is loaded as
  the certificates that the keys stand for: exponent and digest follow the version, the numbers are those that were printed.\<close>

theorem load_keys_printed:
  assumes "lookup_file w filename = Some f" "f_data f = bytes_of (print_keys ks @ ws)" "answers w = []"
    and "ks \<noteq> []" "\<forall>k \<in> set ks. spec_ok k" "\<forall>c \<in> set ws. isspace c" "\<forall>n. malloc_ok n" "\<forall>n. realloc_ok n"
  shows "load_keys lib realloc_ok malloc_ok filename w = Some (Some (map (cert_of lib) ks), w)"
proof -
  have a: "sys_ok w = (True, w)" using assms(3) by (simp add: sys_ok_def answer_def)
  have "fread (f_data f) 0 (length (f_data f)) w = (f_data f, w)" using assms(3) by (simp add: fread_def sys_amount_def answer_def)
  with a show ?thesis using assms(1,2) load_loop_printed [OF assms(4,5,7,8,6), of lib "[]"] by (simp add: load_keys_def)
qed

text \<open>A file that begins with any character other than the two that start a key, followed by a number, makes
  \<open>load_keys\<close> store through a null pointer.\<close>

theorem load_keys_null_key:
  fixes lib :: "('c, 'd, 'p) crypto"
  assumes "lookup_file w filename = Some f" "f_data f = bytes_of (c # dec_int (int RSANUMWORDS) @ '','' @ s)" "answers w = []"
    and "\<not> isspace c" "c \<noteq> CHR 0x7B" "c \<noteq> CHR ''v''" "\<forall>n. realloc_ok n"
  shows "load_keys lib realloc_ok malloc_ok filename w = None"
proof -
  have a: "sys_ok w = (True, w)" using assms(3) by (simp add: sys_ok_def answer_def)
  have f: "fread (f_data f) 0 (length (f_data f)) w = (f_data f, w)" using assms(3) by (simp add: fread_def sys_amount_def answer_def)
  let ?s = "dec_int (int RSANUMWORDS) @ '','' @ s"
  have "fst (fscanf rsa_format ?s) \<noteq> []"
    using scan_auto_printed(1) [of s] by (simp add: rsa_format_def RSANUMWORDS_def split: prod.splits)
  then have "read_rsa (\<lparr>hash_len = 0, key_type = RSA, rsa = None, ec = None\<rparr> :: 'p Certificate) ?s = None" by (cases "fscanf rsa_format ?s") (simp add: read_rsa_def)
  then have "load_loop lib realloc_ok malloc_ok [] (c # ?s) = None"
    using assms(4-7) by (subst load_loop.simps) (simp add: read_start_def read_key_def)
  with a f show ?thesis using assms(1,2) by (simp add: load_keys_def)
qed

section \<open>Examples\<close>

definition sample_specs :: "key_spec list" where
  "sample_specs = [RsaSpec 1 0xc926ad21 (replicate 64 7) (replicate 64 (-1)), EcSpec (replicate 32 1) (replicate 32 2)]"

definition key_file :: "string \<Rightarrow> unit world" where
  "key_file s = file_world ''/res/keys'' (bytes_of s)"

lemma key_file_props:
  "lookup_file (key_file s) ''/res/keys'' = Some \<lparr>f_data = bytes_of s, f_mode = 0, f_uid = 0, f_gid = 0, f_reg = True\<rparr>" "answers (key_file s) = []"
  by (simp_all add: key_file_def file_world_def lookup_file_def)

lemma sample_specs_ok: "sample_specs \<noteq> []" "\<forall>k \<in> set sample_specs. spec_ok k"
  by (simp_all add: sample_specs_def RSANUMWORDS_def P256_NBYTES_def)

lemma sample_keys_loaded:
  "load_keys sample_crypto (\<lambda>_. True) (\<lambda>_. True) ''/res/keys'' (key_file (print_keys sample_specs @ [CHR 0x0A]))
    = Some (Some (map (cert_of sample_crypto) sample_specs), key_file (print_keys sample_specs @ [CHR 0x0A]))"
proof -
  have "\<forall>c \<in> set [CHR 0x0A]. isspace c" by (simp add: isspace_def)
  from load_loop_printed [where malloc_ok = "\<lambda>_. True" and realloc_ok = "\<lambda>_. True" and certs = "[]" and lib = sample_crypto, OF sample_specs_ok _ _ this]
  show ?thesis using key_file_props [of "print_keys sample_specs @ [CHR 0x0A]"]
    by (simp add: load_keys_def sys_ok_def answer_def fread_def sys_amount_def)
qed

theorem load_keys_printed_witness:
  "load_keys sample_crypto (\<lambda>_. True) (\<lambda>_. True) ''/res/keys'' (key_file (print_keys sample_specs @ [CHR 0x0A]))
    = Some (Some (map (cert_of sample_crypto) sample_specs), key_file (print_keys sample_specs @ [CHR 0x0A]))"
  by (rule load_keys_printed [where ws = "[CHR 0x0A]", OF key_file_props(1) _ key_file_props(2) sample_specs_ok]) (simp_all add: isspace_def)

theorem load_keys_usable_witness:
  "map (cert_of sample_crypto) sample_specs \<noteq> [] \<and> list_all cert_ok (map (cert_of sample_crypto) sample_specs)
    \<and> (\<forall>h1 h2 sig_der. try_keys sample_crypto (map (cert_of sample_crypto) sample_specs) h1 h2 sig_der \<noteq> None)"
  by (rule load_keys_usable [OF sample_keys_loaded])

theorem load_keys_null_key_witness:
  "load_keys sample_crypto (\<lambda>_. True) (\<lambda>_. True) ''/res/keys'' (key_file (CHR ''w'' # dec_int (int RSANUMWORDS) @ '',0x1'')) = None"
  by (rule load_keys_null_key [where c = "CHR ''w''" and s = "''0x1''", OF key_file_props(1) _ key_file_props(2)]) (simp_all add: isspace_def)

end
