(* ===== verification/DirUtil.thy ===== *)
theory DirUtil
  imports World
begin

text \<open>
  Creating a directory hierarchy, from \<open>minzip/DirUtil.c\<close>. A directory is an inode whose mode has
  the directory type. Paths are compared as strings, up to the slashes at their end: the model does
  not know that links, \<open>.\<close>, \<open>..\<close> or repeated slashes name the same file in different ways. Neither
  timestamps nor security labels are attributes of the model's inodes; the calls that set them only
  succeed or fail.
\<close>

section \<open>System calls\<close>

definition S_IFMT :: int where "S_IFMT = 0xF000"
definition S_IFDIR :: int where "S_IFDIR = 0x4000"
definition ENOENT :: int where "ENOENT = 2"

definition is_dir :: "inode \<Rightarrow> bool" where
  "is_dir f \<longleftrightarrow> f_mode f AND S_IFMT = S_IFDIR"

definition dir_key :: "string \<Rightarrow> string" where
  "dir_key path = rev (dropWhile (\<lambda>c. c = CHR ''/'') (rev path))"

text \<open>\<open>stat\<close>: the error, or whether it is a directory. The root always is one.\<close>

definition sys_stat :: "string \<Rightarrow> 'f world \<Rightarrow> (int + bool) \<times> 'f world" where
  "sys_stat path w =
     (case answer w of (errno, w1) \<Rightarrow>
        (if errno \<noteq> 0 then Inl (int errno)
         else if dir_key path = [] then Inr True
         else case lookup_file w1 (dir_key path) of None \<Rightarrow> Inl ENOENT | Some f \<Rightarrow> Inr (is_dir f), w1))"

definition mkdir :: "string \<Rightarrow> int \<Rightarrow> 'f world \<Rightarrow> bool \<times> 'f world" where
  "mkdir path mode w =
     (case sys_ok w of (good, w1) \<Rightarrow>
        if good \<and> lookup_file w1 (dir_key path) = None
        then (True, store_file w1 (dir_key path)
                \<lparr>f_data = [], f_mode = S_IFDIR OR mode, f_uid = 0, f_gid = 0, f_reg = False\<rparr>)
        else (False, w1))"

definition utime :: "string \<Rightarrow> 'f world \<Rightarrow> bool \<times> 'f world" where
  "utime path w = sys_ok w"

section \<open>Operations\<close>

datatype DirStatus = DMISSING | DDIR | DILLEGAL

definition getPathDirStatus :: "string \<Rightarrow> 'f world \<Rightarrow> DirStatus \<times> 'f world" where
  "getPathDirStatus path w =
     (case sys_stat path w of
        (Inr dir, w1) \<Rightarrow> (if dir then DDIR else DILLEGAL, w1)
      | (Inl errno, w1) \<Rightarrow> (if errno \<noteq> ENOENT then DILLEGAL else DMISSING, w1))"

text \<open>The backward search for the last slash, which stops at the first character.\<close>

fun last_slash :: "string \<Rightarrow> nat \<Rightarrow> nat" where
  "last_slash cpath 0 = 0"
| "last_slash cpath (Suc c) = (if cpath ! Suc c = CHR ''/'' then Suc c else last_slash cpath c)"

text \<open>Every turn of the walk over the components moves on.\<close>

lemma component_nonempty:
  assumes "p' = p + length (takeWhile (\<lambda>c. c = CHR ''/'') (drop p cpath))" "\<not> length cpath \<le> p'"
    "q = p' + length (takeWhile (\<lambda>c. c \<noteq> CHR ''/'') (drop p' cpath))"
  shows "p < q" "p < length cpath"
proof -
  let ?k = "length (takeWhile (\<lambda>c. c = CHR ''/'') (drop p cpath))"
  have "?k < length (drop p cpath)" using assms(1,2) by simp
  then have "drop p cpath ! ?k \<noteq> CHR ''/''" using nth_length_takeWhile by blast
  then have "cpath ! p' \<noteq> CHR ''/''" using assms(1,2) by simp
  then have "0 < length (takeWhile (\<lambda>c. c \<noteq> CHR ''/'') (drop p' cpath))"
    using assms(2) by (simp add: Cons_nth_drop_Suc [symmetric] not_le)
  with assms show "p < q" "p < length cpath" by linarith+
qed

lemma level_decreases:
  assumes "p' = p + length (takeWhile (\<lambda>c. c = CHR ''/'') (drop p cpath))" "\<not> length cpath \<le> p'"
    "q = p' + length (takeWhile (\<lambda>c. c \<noteq> CHR ''/'') (drop p' cpath))"
  shows "((cpath, mode, timestamp, q, w'), (cpath, mode, timestamp, p, w)) \<in> measure (\<lambda>(cpath, _, _, p, _). length cpath - p)"
  using component_nonempty [OF assms] by simp

text \<open>The walk over the components from \<open>p\<close> on; \<^term>\<open>None\<close> is the read past the end.\<close>

function make_levels :: "string \<Rightarrow> int \<Rightarrow> bool \<Rightarrow> nat \<Rightarrow> 'f world \<Rightarrow> (int \<times> 'f world) option" where
  "make_levels cpath mode timestamp p w =
     (let p = p + length (takeWhile (\<lambda>c. c = CHR ''/'') (drop p cpath)) in
      if length cpath \<le> p then Some (0, w)
      else
        let q = p + length (takeWhile (\<lambda>c. c \<noteq> CHR ''/'') (drop p cpath)) in
        if length cpath \<le> q then None
        else
          case getPathDirStatus (take q cpath) w of
            (DILLEGAL, w1) \<Rightarrow> Some (-1, w1)
          | (DDIR, w1) \<Rightarrow> make_levels cpath mode timestamp q w1
          | (DMISSING, w1) \<Rightarrow>
              (case mkdir (take q cpath) mode w1 of (made, w2) \<Rightarrow>
                 if \<not> made then Some (-1, w2)
                 else if timestamp then
                   (case utime (take q cpath) w2 of (touched, w3) \<Rightarrow>
                      if \<not> touched then Some (-1, w3) else make_levels cpath mode timestamp q w3)
                 else make_levels cpath mode timestamp q w2))"
  by pat_completeness auto

termination
  by (relation "measure (\<lambda>(cpath, _, _, p, _). length cpath - p)")
    (rule wf_measure, (rule level_decreases; assumption)+)

declare make_levels.simps [simp del]

definition dirCreateHierarchy :: "(nat \<Rightarrow> bool) \<Rightarrow> string \<Rightarrow> int \<Rightarrow> bool \<Rightarrow> bool \<Rightarrow> 'f world \<Rightarrow> (int \<times> 'f world) option" where
  "dirCreateHierarchy malloc_ok path mode timestamp stripFileName w =
     (if path = [] then Some (-1, w)
      else if \<not> malloc_ok (length path + 2) then Some (-1, w)
      else
        let c = last_slash path (length path - 1) in
        if stripFileName \<and> c = 0 then Some (-1, w)
        else
          let cpath = (if stripFileName then take (c + 1) path else path @ ''/'') in
          case getPathDirStatus cpath w of
            (DDIR, w1) \<Rightarrow> Some (0, w1)
          | (DILLEGAL, w1) \<Rightarrow> Some (-1, w1)
          | (DMISSING, w1) \<Rightarrow> make_levels cpath mode timestamp 0 w1)"

section \<open>What the calls keep\<close>

text \<open>\<open>grown P w w'\<close>: files stay as they are; what is new is a directory at a path of \<open>P\<close>.\<close>

definition grown :: "(string \<Rightarrow> bool) \<Rightarrow> 'f world \<Rightarrow> 'f world \<Rightarrow> bool" where
  "grown P w w' \<longleftrightarrow> (\<forall>q f. lookup_file w q = Some f \<longrightarrow> lookup_file w' q = Some f)
     \<and> (\<forall>q f. lookup_file w q = None \<longrightarrow> lookup_file w' q = Some f \<longrightarrow> is_dir f \<and> P q)"

definition dir_at :: "'f world \<Rightarrow> string \<Rightarrow> bool" where
  "dir_at w k \<longleftrightarrow> k = [] \<or> (\<exists>f. lookup_file w k = Some f \<and> is_dir f)"

lemma grown_same [intro]: "files w' = files w \<Longrightarrow> grown P w w'"
  by (simp add: grown_def lookup_file_def)

lemma grown_trans [trans]: "grown P w w1 \<Longrightarrow> grown P w1 w2 \<Longrightarrow> grown P w w2"
  unfolding grown_def by (metis option.exhaust)

lemma grown_dir: "grown P w w' \<Longrightarrow> dir_at w k \<Longrightarrow> dir_at w' k"
  by (auto simp: grown_def dir_at_def)

lemma status_spec:
  assumes "getPathDirStatus path w = (st, w1)"
  shows "files w1 = files w" "st = DDIR \<Longrightarrow> dir_at w1 (dir_key path)"
  using assms
  by (auto simp: getPathDirStatus_def sys_stat_def dir_at_def lookup_file_def dest!: answer_files
      split: prod.splits sum.splits if_splits option.splits)

lemma mkdir_spec:
  assumes "mkdir path mode w = (made, w1)" "mode AND S_IFMT = 0" "P (dir_key path)"
  shows "grown P w w1" "made \<Longrightarrow> dir_at w1 (dir_key path)"
proof -
  have "(S_IFDIR OR mode) AND S_IFMT = S_IFDIR AND S_IFMT"
    using assms(2) by (simp add: bit.conj_disj_distrib2)
  then have "is_dir \<lparr>f_data = [], f_mode = S_IFDIR OR mode, f_uid = 0, f_gid = 0, f_reg = False\<rparr>"
    by (simp add: is_dir_def S_IFDIR_def S_IFMT_def)
  moreover obtain good w0 where "sys_ok w = (good, w0)" by (metis surj_pair)
  moreover from this have "lookup_file w0 = lookup_file w" by (auto simp: lookup_file_def fun_eq_iff dest!: sys_ok_files)
  ultimately show "grown P w w1" "made \<Longrightarrow> dir_at w1 (dir_key path)"
    using assms(1,3) by (auto simp: mkdir_def grown_def dir_at_def split: if_splits)
qed

lemma takeWhile_shorter: "\<exists>x \<in> set xs. \<not> Q x \<Longrightarrow> length (takeWhile Q xs) < length xs"
  by (induction xs) auto

lemma takeWhile_full: "length xs \<le> length (takeWhile Q xs) \<Longrightarrow> takeWhile Q xs = xs"
  by (induction xs) (auto split: if_splits)

lemma dir_key_slashes:
  assumes "takeWhile (\<lambda>c. c = CHR ''/'') (drop p s) = drop p s"
  shows "dir_key (take p s) = dir_key s"
proof -
  have "\<forall>c \<in> set (rev (drop p s)). c = CHR ''/''" using assms by (auto simp: takeWhile_eq_all_conv)
  then have "dropWhile (\<lambda>c. c = CHR ''/'') (rev (drop p s) @ rev (take p s)) = dropWhile (\<lambda>c. c = CHR ''/'') (rev (take p s))"
    by (intro dropWhile_append2) auto
  then show ?thesis unfolding dir_key_def by (metis append_take_drop_id rev_append)
qed

lemma make_levels_spec:
  assumes slash: "cpath \<noteq> []" "last cpath = CHR ''/''" and mode: "mode AND S_IFMT = 0"
    and P: "\<And>q. P (dir_key (take q cpath))"
    and dir: "dir_at w (dir_key (take p cpath))"
  shows "\<exists>r w'. make_levels cpath mode timestamp p w = Some (r, w') \<and> grown P w w' \<and> (r = 0 \<longrightarrow> dir_at w' (dir_key cpath))"
  using dir
proof (induction "length cpath - p" arbitrary: p w rule: less_induct)
  case less
  define p' where "p' = p + length (takeWhile (\<lambda>c. c = CHR ''/'') (drop p cpath))"
  define q where "q = p' + length (takeWhile (\<lambda>c. c \<noteq> CHR ''/'') (drop p' cpath))"
  note step = make_levels.simps [of cpath mode timestamp p w, folded p'_def, unfolded Let_def, folded q_def]
  show ?case
  proof (cases "length cpath \<le> p'")
    case True
    then have "length (drop p cpath) \<le> length (takeWhile (\<lambda>c. c = CHR ''/'') (drop p cpath))" by (simp add: p'_def)
    then have "takeWhile (\<lambda>c. c = CHR ''/'') (drop p cpath) = drop p cpath"
      by (rule takeWhile_full)
    from dir_key_slashes [OF this] less.prems True show ?thesis by (auto simp: step)
  next
    case False
    note pq = component_nonempty [OF p'_def False q_def]
    have "last (drop p' cpath) = CHR ''/''" "drop p' cpath \<noteq> []" using False slash by auto
    then have "\<exists>c \<in> set (drop p' cpath). \<not> c \<noteq> CHR ''/''" using last_in_set by metis
    then have "length (takeWhile (\<lambda>c. c \<noteq> CHR ''/'') (drop p' cpath)) < length (drop p' cpath)"
      by (rule takeWhile_shorter)
    then have q: "\<not> length cpath \<le> q" by (simp add: q_def)
    have m: "length cpath - q < length cpath - p" using pq by simp
    obtain st w1 where st: "getPathDirStatus (take q cpath) w = (st, w1)" by (metis surj_pair)
    note stw = status_spec [OF st]
    have g1: "grown P w w1" using stw(1) by blast
    note go = less.hyps [OF m]
    show ?thesis
    proof (cases st)
      case DILLEGAL
      with False q st g1 show ?thesis by (auto simp: step)
    next
      case DDIR
      from go [OF stw(2) [OF DDIR]] grown_trans [OF g1] False q st DDIR show ?thesis by (fastforce simp: step)
    next
      case DMISSING
      obtain made w2 where w2: "mkdir (take q cpath) mode w1 = (made, w2)" by (metis surj_pair)
      note mk = mkdir_spec [where P = P, OF w2 mode P]
      obtain touched w3 where w3: "utime (take q cpath) w2 = (touched, w3)" by (metis surj_pair)
      have g2: "grown P w w2" using g1 mk(1) by (rule grown_trans)
      have g3: "grown P w2 w3" using w3 by (auto simp: utime_def dest!: sys_ok_files)
      note g = g2 grown_trans [OF g2 g3]
      have eq: "make_levels cpath mode timestamp p w =
          (if \<not> made then Some (-1, w2)
           else if timestamp then (if \<not> touched then Some (-1, w3) else make_levels cpath mode timestamp q w3)
           else make_levels cpath mode timestamp q w2)"
        using False q st DMISSING w2 w3 by (simp add: step)
      show ?thesis
      proof (cases "made \<and> (timestamp \<longrightarrow> touched)")
        case False
        then have "make_levels cpath mode timestamp p w = Some (-1, if made then w3 else w2)" by (auto simp: eq)
        with g show ?thesis by auto
      next
        case True
        define w4 where "w4 = (if timestamp then w3 else w2)"
        have "dir_at w4 (dir_key (take q cpath))" "grown P w w4"
          using mk(2) True grown_dir [OF g3] g by (auto simp: w4_def)
        moreover from True have "make_levels cpath mode timestamp p w = make_levels cpath mode timestamp q w4" by (auto simp: eq w4_def)
        ultimately show ?thesis using go [of w4] grown_trans by fastforce
      qed
    qed
  qed
qed

lemma last_slash_found: "last_slash s i \<noteq> 0 \<Longrightarrow> s ! last_slash s i = CHR ''/'' \<and> last_slash s i \<le> i"
  by (induction i) (auto split: if_splits)

lemma has_prefix_trans: "has_prefix a b \<Longrightarrow> has_prefix b c \<Longrightarrow> has_prefix a c"
  by (auto simp: has_prefix_iff)

lemma dir_key_prefix: "has_prefix (dir_key s) s"
proof -
  have "rev s = takeWhile (\<lambda>c. c = CHR ''/'') (rev s) @ dropWhile (\<lambda>c. c = CHR ''/'') (rev s)" by simp
  then have "s = dir_key s @ rev (takeWhile (\<lambda>c. c = CHR ''/'') (rev s))"
    unfolding dir_key_def by (metis rev_append rev_rev_ident)
  then show ?thesis by (auto simp: has_prefix_iff)
qed

lemma has_prefix_take_self: "has_prefix (take n s) s"
  by (metis append_take_drop_id has_prefix_iff)

lemma dir_key_snoc: "dir_key (s @ ''/'') = dir_key s"
  by (simp add: dir_key_def)

lemma dir_key_take_snoc: "has_prefix (dir_key (take q (s @ ''/''))) s"
proof (cases "q \<le> length s")
  case True
  then show ?thesis using has_prefix_trans [OF dir_key_prefix has_prefix_take_self] by simp
qed (simp add: dir_key_snoc dir_key_prefix)

text \<open>The directory that is to exist afterwards.\<close>

definition wanted_dir :: "string \<Rightarrow> bool \<Rightarrow> string" where
  "wanted_dir path stripFileName =
     dir_key (if stripFileName then take (last_slash path (length path - 1) + 1) path else path)"

lemma dirCreateHierarchy_total:
  assumes mode: "mode AND S_IFMT = 0"
  shows "\<exists>r w'. dirCreateHierarchy malloc_ok path mode timestamp stripFileName w = Some (r, w')
    \<and> grown (\<lambda>q. has_prefix q path) w w' \<and> (r = 0 \<longrightarrow> dir_at w' (wanted_dir path stripFileName))"
proof -
  define c where "c = last_slash path (length path - 1)"
  define cpath where "cpath = (if stripFileName then take (c + 1) path else path @ ''/'')"
  note unfold = dirCreateHierarchy_def [of malloc_ok path mode timestamp stripFileName w, folded c_def, unfolded Let_def, folded cpath_def]
  show ?thesis
  proof (cases "path = [] \<or> \<not> malloc_ok (length path + 2) \<or> (stripFileName \<and> c = 0)")
    case True
    then show ?thesis by (auto simp: unfold)
  next
    case False
    have wd: "dir_key cpath = wanted_dir path stripFileName" by (simp add: cpath_def wanted_dir_def c_def dir_key_snoc)
    have slash: "cpath \<noteq> []" "last cpath = CHR ''/''"
      using False last_slash_found [of path "length path - 1", folded c_def]
      by (auto simp: cpath_def last_conv_nth)
    have pre: "has_prefix (dir_key (take q cpath)) path" for q
      using has_prefix_trans [OF dir_key_prefix has_prefix_take_self] dir_key_take_snoc by (simp add: cpath_def)
    obtain st w1 where st: "getPathDirStatus cpath w = (st, w1)" by (metis surj_pair)
    note stw = status_spec [OF st]
    have g: "grown (\<lambda>q. has_prefix q path) w w1" using stw(1) by blast
    have "dir_at w1 (dir_key (take 0 cpath))" by (simp add: dir_at_def dir_key_def)
    from make_levels_spec [where P = "\<lambda>q. has_prefix q path", OF slash mode pre this]
    obtain r w' where r: "make_levels cpath mode timestamp 0 w1 = Some (r, w')" "grown (\<lambda>q. has_prefix q path) w1 w'"
      "r = 0 \<longrightarrow> dir_at w' (dir_key cpath)" by blast
    show ?thesis
    proof (cases st)
      case DMISSING
      with False st r grown_trans [OF g r(2)] wd show ?thesis by (auto simp: unfold)
    qed (use False st g stw(2) wd in \<open>auto simp: unfold\<close>)
  qed
qed

text \<open>A directory that is there already.\<close>

lemma dirCreateHierarchy_there:
  assumes "answers w = []" "malloc_ok (length path + 2)" "last_slash path (length path - 1) \<noteq> 0" "dir_at w (wanted_dir path True)"
  shows "dirCreateHierarchy malloc_ok path mode timestamp True w = Some (0, w)"
proof -
  let ?cpath = "take (last_slash path (length path - 1) + 1) path"
  have "sys_stat ?cpath w = (Inr True, w)"
    using assms(1,4) by (auto simp: sys_stat_def answer_def dir_at_def wanted_dir_def)
  then have "getPathDirStatus ?cpath w = (DDIR, w)" by (simp add: getPathDirStatus_def)
  moreover have "path \<noteq> []" using assms(3) by auto
  ultimately show ?thesis using assms(2,3) by (simp add: dirCreateHierarchy_def Let_def)
qed

text \<open>\<open>dirCreateHierarchy\<close> never reads past its copy of the path and ends; whatever calls fail, it
  leaves every existing file as it is and creates nothing but directories on the way to \<open>path\<close>; when it returns 0, the wanted
  directory exists.\<close>

theorem dirCreateHierarchy_spec:
  assumes "mode AND S_IFMT = 0"
  shows "\<exists>r w'. dirCreateHierarchy malloc_ok path mode timestamp stripFileName w = Some (r, w')
    \<and> grown (\<lambda>q. has_prefix q path) w w' \<and> (r = 0 \<longrightarrow> dir_at w' (wanted_dir path stripFileName))"
  using assms by (rule dirCreateHierarchy_total)

definition empty_world :: "unit world" where
  "empty_world = \<lparr>files = [], procs = [], answers = [], mtd_partitions_scanned = False, flash = ()\<rparr>"

theorem dirCreateHierarchy_spec_witness:
  "\<exists>r w'. dirCreateHierarchy (\<lambda>_. True) ''/a/b'' 0x1ED True False empty_world = Some (r, w')
    \<and> grown (\<lambda>q. has_prefix q ''/a/b'') empty_world w' \<and> (r = 0 \<longrightarrow> dir_at w' (wanted_dir ''/a/b'' False))"
  by (rule dirCreateHierarchy_spec) (simp add: S_IFMT_def)

end
