(* ===== verification/ZipParse.thy ===== *)
theory ZipParse
  imports ByteIO HashTable CLib DirUtil
begin

text \<open>
  Opening an archive: \<open>parseZipArchive\<close> and what it calls in \<open>minzip/Zip.c\<close>, the accessors of
  \<open>minzip/Zip.h\<close> and the mapping of \<open>minzip/SysUtil.c\<close>. The mapped archive is a byte list and a
  pointer into it an offset, which may run past its end as long as nothing is read there;
  \<^term>\<open>None\<close> is a read outside the mapping, a failed \<open>assert\<close> or a null table. The mapping lies
  in user space, so the additions to its address cannot wrap and the tests with \<open>safe_add\<close> that
  guard them are the comparisons that follow them.
\<close>

section \<open>Data\<close>

definition CENSIG :: nat where "CENSIG = 0x02014b50"
definition CENHDR :: nat where "CENHDR = 46"
definition ENDSIG :: nat where "ENDSIG = 0x06054b50"
definition ENDHDR :: nat where "ENDHDR = 22"
definition LOCSIG :: nat where "LOCSIG = 0x04034b50"
definition LOCHDR :: nat where "LOCHDR = 30"
definition STORED :: nat where "STORED = 0"
definition DEFLATED :: nat where "DEFLATED = 8"
definition CENVEM_UNIX :: nat where "CENVEM_UNIX = 3 * 256"
definition PATH_MAX :: nat where "PATH_MAX = 4096"

text \<open>The fields hold what was read from unsigned little-endian fields; \<open>fileName\<close> is an offset.\<close>

record ZipEntry =
  fileNameLen :: nat
  fileName :: nat
  entryOffset :: nat
  compLen :: nat
  uncompLen :: nat
  compression :: nat
  modTime :: nat
  entryCrc32 :: nat
  versionMadeBy :: nat
  externalFileAttributes :: nat

text \<open>
  What the pointers given to the hash table point to: the entry at an index of the array, or the
  name looked for. In the archive, the descriptor is the contents of the file it is open on, if any.
\<close>

datatype zip_item = EntryPtr nat | NamePtr string

record ZipArchive =
  z_fd :: "buffer option"
  z_numEntries :: nat
  z_pEntries :: "ZipEntry list option"
  z_pHash :: "zip_item HashTable option"
  z_map :: "buffer option"

definition zero_archive :: ZipArchive where
  "zero_archive = \<lparr>z_fd = None, z_numEntries = 0, z_pEntries = None, z_pHash = None, z_map = None\<rparr>"

definition rd2 :: "buffer \<Rightarrow> nat \<Rightarrow> nat option" where
  "rd2 m p = map_option unat (get2LE (drop p m))"

definition rd4 :: "buffer \<Rightarrow> nat \<Rightarrow> nat option" where
  "rd4 m p = map_option unat (get4LE (drop p m))"

text \<open>The characters an entry's name refers to.\<close>

definition entry_name :: "buffer \<Rightarrow> ZipEntry \<Rightarrow> string" where
  "entry_name m e = chars (take (fileNameLen e) (drop (fileName e) m))"

section \<open>The hash table of names\<close>

text \<open>\<open>memcmp\<close> of two blocks of the same length.\<close>

definition hashcmpZipEntry :: "buffer \<Rightarrow> ZipEntry \<Rightarrow> ZipEntry \<Rightarrow> int" where
  "hashcmpZipEntry m entry1 entry2 =
     (if fileNameLen entry1 \<noteq> fileNameLen entry2 then int (fileNameLen entry1) - int (fileNameLen entry2)
      else strcmp (entry_name m entry1) (entry_name m entry2))"

definition hashcmpZipName :: "buffer \<Rightarrow> ZipEntry \<Rightarrow> string \<Rightarrow> int" where
  "hashcmpZipName m entry name =
     (let nameLen = length name in
      if fileNameLen entry \<noteq> nameLen then int (fileNameLen entry) - int nameLen
      else strcmp (entry_name m entry) name)"

text \<open>
  The callbacks as the table calls them, with a stored entry first; another combination of
  pointers does not occur.
\<close>

fun zip_cmp :: "buffer \<Rightarrow> ZipEntry list \<Rightarrow> zip_item \<Rightarrow> zip_item \<Rightarrow> int" where
  "zip_cmp m es (EntryPtr i) (EntryPtr j) = hashcmpZipEntry m (es ! i) (es ! j)"
| "zip_cmp m es (EntryPtr i) (NamePtr name) = hashcmpZipName m (es ! i) name"
| "zip_cmp m es (NamePtr name) _ = 1"

fun computeHash_loop :: "string \<Rightarrow> u32 \<Rightarrow> u32" where
  "computeHash_loop [] hash = hash"
| "computeHash_loop (c # cs) hash = computeHash_loop cs (hash * 31 + of_nat (of_char c))"

definition computeHash :: "string \<Rightarrow> u32" where
  "computeHash name = computeHash_loop name 2"

text \<open>Adding the entry at index \<open>i\<close>; a duplicate is only logged.\<close>

definition addEntryToHashTable ::
  "(nat \<Rightarrow> bool) \<Rightarrow> buffer \<Rightarrow> ZipEntry list \<Rightarrow> zip_item HashTable \<Rightarrow> nat \<Rightarrow> zip_item HashTable option" where
  "addEntryToHashTable calloc_ok m es pHash i =
     (let itemHash = computeHash (entry_name m (es ! i)) in
      map_option snd (mzHashTableLookup calloc_ok pHash itemHash (EntryPtr i) (zip_cmp m es) True))"

fun add_entries ::
  "(nat \<Rightarrow> bool) \<Rightarrow> buffer \<Rightarrow> ZipEntry list \<Rightarrow> nat list \<Rightarrow> zip_item HashTable \<Rightarrow> zip_item HashTable option" where
  "add_entries calloc_ok m es [] pHash = Some pHash"
| "add_entries calloc_ok m es (i # is) pHash =
     do { pHash \<leftarrow> addEntryToHashTable calloc_ok m es pHash i; add_entries calloc_ok m es is pHash }"

section \<open>Reading the central directory\<close>

definition validFilename :: "string \<Rightarrow> bool" where
  "validFilename name \<longleftrightarrow> length name < PATH_MAX
     \<and> list_all (\<lambda>c. 32 \<le> (of_char c :: nat) \<and> (of_char c :: nat) < 127) name"

text \<open>
  The backward search for the end-of-central-directory record: \<open>Some None\<close> when the pointer
  passed the start of the mapping.
\<close>

fun search_eocd :: "buffer \<Rightarrow> nat \<Rightarrow> nat option option" where
  "search_eocd m ptr =
     (if length m \<le> ptr then None
      else if unat (m ! ptr) = ENDSIG mod 256 then
        do { val \<leftarrow> rd4 m ptr;
             if val = ENDSIG then Some (Some ptr)
             else (case ptr of 0 \<Rightarrow> Some None | Suc p \<Rightarrow> search_eocd m p) }
      else (case ptr of 0 \<Rightarrow> Some None | Suc p \<Rightarrow> search_eocd m p))"

declare search_eocd.simps [simp del]

text \<open>
  The name of the entry whose header is at \<open>ptr\<close>, and the lengths of what follows the header;
  \<open>Some None\<close> is a jump to \<open>bail\<close>.
\<close>

definition entry_header :: "buffer \<Rightarrow> nat \<Rightarrow> (nat \<times> nat \<times> nat \<times> nat) option option" where
  "entry_header m ptr =
     (if length m < ptr + CENHDR then Some None
      else do {
        sig \<leftarrow> rd4 m ptr;
        if sig \<noteq> CENSIG then Some None
        else do {
          localHdrOffset \<leftarrow> rd4 m (ptr + 42);
          nameLen \<leftarrow> rd2 m (ptr + 28);
          extraLen \<leftarrow> rd2 m (ptr + 30);
          commentLen \<leftarrow> rd2 m (ptr + 32);
          if length m < ptr + CENHDR + nameLen then Some None
          else if \<not> validFilename (chars (take nameLen (drop (ptr + CENHDR) m))) then Some None
          else Some (Some (localHdrOffset, nameLen, extraLen, commentLen)) } })"

text \<open>
  The comparison of the binary search: the common length first, then the difference of the
  lengths.
\<close>

definition name_diff :: "string \<Rightarrow> string \<Rightarrow> int" where
  "name_diff s t =
     (let diffLen = min (length s) (length t); diff = strncmp s t diffLen in
      if diff = 0 then int (length s) - int (length t) else diff)"

function search_target :: "buffer \<Rightarrow> ZipEntry list \<Rightarrow> string \<Rightarrow> int \<Rightarrow> int \<Rightarrow> int option" where
  "search_target m es name low high =
     (if low \<le> high then
        let mid = low + (high - low) div 2 in
        if mid < 0 \<or> int (length es) \<le> mid then None
        else
          let diff = name_diff (entry_name m (es ! nat mid)) name in
          if diff < 0 then search_target m es name (mid + 1) high
          else if diff > 0 then search_target m es name low (mid - 1)
          else Some mid
      else Some high)"
  by pat_completeness auto
termination
  by (relation "measure (\<lambda>(_, _, _, low, high). nat (high - low + 1))") (auto simp: Let_def)

declare search_target.simps [simp del]

text \<open>Where the new entry goes, with the assertion.\<close>

definition sort_target :: "buffer \<Rightarrow> ZipEntry list \<Rightarrow> string \<Rightarrow> nat option" where
  "sort_target m es name =
     (if es = [] then Some 0
      else do {
        high \<leftarrow> search_target m es name 0 (int (length es) - 1);
        if 0 \<le> high + 1 \<and> high + 1 \<le> int (length es) then Some (nat (high + 1)) else None })"

text \<open>
  Filling in the entry. \<open>offset\<close> is computed in \<open>unsigned int\<close>; its sum with \<open>compLen\<close> is one of
  \<open>long\<close>s below \<open>2\<^sup>33\<close>, for which \<open>safe_add\<close> succeeds.
\<close>

definition entry_fields :: "buffer \<Rightarrow> nat \<Rightarrow> nat \<Rightarrow> nat \<Rightarrow> ZipEntry option option" where
  "entry_fields m ptr localHdrOffset nameLen = do {
     comp \<leftarrow> rd4 m (ptr + 20);
     uncomp \<leftarrow> rd4 m (ptr + 24);
     how \<leftarrow> rd2 m (ptr + 10);
     tim \<leftarrow> rd4 m (ptr + 12);
     crc \<leftarrow> rd4 m (ptr + 16);
     vem \<leftarrow> rd2 m (ptr + 4);
     if vem AND 0xff00 \<noteq> 0 \<and> vem AND 0xff00 \<noteq> CENVEM_UNIX then Some None
     else do {
       atx \<leftarrow> rd4 m (ptr + 38);
       if length m < localHdrOffset + LOCHDR then Some None
       else do {
         sig \<leftarrow> rd4 m localHdrOffset;
         if sig \<noteq> LOCSIG then Some None
         else do {
           nam \<leftarrow> rd2 m (localHdrOffset + 26);
           ext \<leftarrow> rd2 m (localHdrOffset + 28);
           let off = (localHdrOffset + LOCHDR + nam + ext) mod 2 ^ 32;
           if length m < off + comp then Some None
           else Some (Some \<lparr>fileNameLen = nameLen, fileName = ptr + CENHDR, entryOffset = off,
                            compLen = comp, uncompLen = uncomp, compression = how, modTime = tim,
                            entryCrc32 = crc, versionMadeBy = vem, externalFileAttributes = atx\<rparr>) } } } }"

text \<open>The loop over the headers; \<open>es\<close> are the entries so far, in the order of the array.\<close>

fun cd_loop :: "buffer \<Rightarrow> nat \<Rightarrow> nat \<Rightarrow> ZipEntry list \<Rightarrow> ZipEntry list option option" where
  "cd_loop m 0 ptr es = Some (Some es)"
| "cd_loop m (Suc n) ptr es = do {
     hdr \<leftarrow> entry_header m ptr;
     case hdr of
       None \<Rightarrow> Some None
     | Some (localHdrOffset, nameLen, extraLen, commentLen) \<Rightarrow> do {
         target \<leftarrow> sort_target m es (chars (take nameLen (drop (ptr + CENHDR) m)));
         entry \<leftarrow> entry_fields m ptr localHdrOffset nameLen;
         case entry of
           None \<Rightarrow> Some None
         | Some e \<Rightarrow>
             cd_loop m n (ptr + CENHDR + nameLen + extraLen + commentLen) (take target es @ e # drop target es) } }"

text \<open>
  \<open>parseZipArchive\<close>: whether it succeeded, and the archive. On failure the table is freed and its
  pointer null, but the number of entries and the array stay set for \<open>mzCloseZipArchive\<close>; what
  the array then holds is left out.
\<close>

definition parseZipArchive :: "(nat \<Rightarrow> bool) \<Rightarrow> buffer \<Rightarrow> ZipArchive \<Rightarrow> (bool \<times> ZipArchive) option" where
  "parseZipArchive calloc_ok m a = do {
     val \<leftarrow> rd4 m 0;
     if val = ENDSIG \<or> val \<noteq> LOCSIG then Some (False, a\<lparr>z_pHash := None\<rparr>)
     else if length m < ENDHDR then None
     else do {
       eocd \<leftarrow> search_eocd m (length m - ENDHDR);
       case eocd of
         None \<Rightarrow> Some (False, a\<lparr>z_pHash := None\<rparr>)
       | Some ptr \<Rightarrow> do {
           numEntries \<leftarrow> rd2 m (ptr + 8);
           cdOffset \<leftarrow> rd4 m (ptr + 16);
           if numEntries = 0 \<or> length m \<le> cdOffset then Some (False, a\<lparr>z_pHash := None\<rparr>)
           else do {
             pHash \<leftarrow> mzHashTableCreate calloc_ok (mzHashSize (of_nat numEntries));
             let a = a\<lparr>z_numEntries := numEntries, z_pHash := None\<rparr>;
             if \<not> calloc_ok numEntries then Some (False, a\<lparr>z_pEntries := None\<rparr>)
             else
               case pHash of
                 None \<Rightarrow> Some (False, a\<lparr>z_pEntries := Some []\<rparr>)
               | Some pHash \<Rightarrow> do {
                   entries \<leftarrow> cd_loop m numEntries cdOffset [];
                   case entries of
                     None \<Rightarrow> Some (False, a\<lparr>z_pEntries := Some []\<rparr>)
                   | Some es \<Rightarrow> do {
                       pHash \<leftarrow> add_entries calloc_ok m es [0..<numEntries] pHash;
                       Some (True, a\<lparr>z_pEntries := Some es, z_pHash := Some pHash\<rparr>) } } } } } }"

section \<open>Opening and closing\<close>

text \<open>
  The start and length of what an open file holds from its offset on, and the mapping of it.
  Seeking fails on what is not a regular file.
\<close>

definition getFileStartAndLength :: "buffer \<Rightarrow> nat \<Rightarrow> 'f world \<Rightarrow> (nat \<times> nat) option \<times> 'f world" where
  "getFileStartAndLength dat offset w =
     (case sys_ok w of (good1, w1) \<Rightarrow>
      case sys_ok w1 of (good2, w2) \<Rightarrow>
      case sys_ok w2 of (_, w3) \<Rightarrow>
        if \<not> good1 \<or> \<not> good2 then (None, w3)
        else if length dat - offset = 0 then (None, w3)
        else (Some (offset, length dat - offset), w3))"

definition sysMapFileInShmem :: "buffer \<Rightarrow> nat \<Rightarrow> 'f world \<Rightarrow> buffer option \<times> 'f world" where
  "sysMapFileInShmem dat offset w =
     (case getFileStartAndLength dat offset w of
        (None, w1) \<Rightarrow> (None, w1)
      | (Some (start, len), w1) \<Rightarrow>
          (case sys_ok w1 of (good, w2) \<Rightarrow> (if good then Some (take len (drop start dat)) else None, w2)))"

definition mzCloseZipArchive :: "ZipArchive \<Rightarrow> ZipArchive" where
  "mzCloseZipArchive a = a\<lparr>z_fd := None, z_map := None, z_pEntries := None, z_pHash := None\<rparr>"


definition mzOpenZipArchive ::
  "(nat \<Rightarrow> bool) \<Rightarrow> string \<Rightarrow> 'f world \<Rightarrow> (int \<times> ZipArchive \<times> 'f world) option" where
  "mzOpenZipArchive calloc_ok path w =
     (let a = zero_archive in
      case answer w of (errno, w1) \<Rightarrow>
        if errno \<noteq> 0 then Some (int errno, mzCloseZipArchive a, w1)
        else
          case lookup_file w1 path of
            None \<Rightarrow> Some (ENOENT, mzCloseZipArchive a, w1)
          | Some f \<Rightarrow>
              let a = a\<lparr>z_fd := Some (f_data f)\<rparr> in
              case sysMapFileInShmem (f_data f) 0 w1 of
                (None, w2) \<Rightarrow> Some (-1, mzCloseZipArchive a, w2)
              | (Some m, w2) \<Rightarrow>
                  if length m < ENDHDR then Some (-1, mzCloseZipArchive a, w2)
                  else do {
                    (good, a) \<leftarrow> parseZipArchive calloc_ok m a;
                    if good then Some (0, a\<lparr>z_map := Some m\<rparr>, w2)
                    else Some (-1, mzCloseZipArchive a, w2) })"

section \<open>Access\<close>

text \<open>A pointer to an entry is the entry's index in the array.\<close>

definition mzFindZipEntry :: "ZipArchive \<Rightarrow> string \<Rightarrow> nat option option" where
  "mzFindZipEntry a entryName =
     (case (z_pHash a, z_pEntries a, z_map a) of
        (Some pHash, Some es, Some m) \<Rightarrow> do {
          (r, _) \<leftarrow> mzHashTableLookup (\<lambda>_. False) pHash (computeHash entryName) (NamePtr entryName) (zip_cmp m es) False;
          case r of
            None \<Rightarrow> Some None
          | Some (EntryPtr i) \<Rightarrow> Some (Some i)
          | Some (NamePtr _) \<Rightarrow> None }
      | _ \<Rightarrow> None)"

definition mzZipEntryCount :: "ZipArchive \<Rightarrow> nat" where
  "mzZipEntryCount a = z_numEntries a"

definition mzGetZipEntryAt :: "ZipArchive \<Rightarrow> nat \<Rightarrow> nat option" where
  "mzGetZipEntryAt a index = (if index < z_numEntries a then Some index else None)"

definition mzGetZipEntryIndex :: "ZipArchive \<Rightarrow> nat \<Rightarrow> nat" where
  "mzGetZipEntryIndex a entry = entry"

definition mzGetZipEntryFileName :: "ZipEntry \<Rightarrow> nat \<times> nat" where
  "mzGetZipEntryFileName e = (fileName e, fileNameLen e)"

definition mzGetZipEntryOffset :: "ZipEntry \<Rightarrow> nat" where
  "mzGetZipEntryOffset e = entryOffset e"

definition mzGetZipEntryUncompLen :: "ZipEntry \<Rightarrow> nat" where
  "mzGetZipEntryUncompLen e = uncompLen e"

definition mzGetZipEntryModTime :: "ZipEntry \<Rightarrow> nat" where
  "mzGetZipEntryModTime e = modTime e"

definition mzGetZipEntryCrc32 :: "ZipEntry \<Rightarrow> nat" where
  "mzGetZipEntryCrc32 e = entryCrc32 e"

definition mzIsZipEntrySymlink :: "ZipEntry \<Rightarrow> bool" where
  "mzIsZipEntrySymlink e \<longleftrightarrow> versionMadeBy e AND 0xff00 = CENVEM_UNIX
     \<and> (externalFileAttributes e div 65536) AND 0xF000 = 0xA000"

section \<open>Fields\<close>

lemma two_bytes:
  assumes "2 \<le> length (xs :: buffer)"
  obtains a b r where "xs = a # b # r"
  using assms by (cases xs rule: get2LE.cases) auto

lemma four_bytes:
  assumes "4 \<le> length (xs :: buffer)"
  obtains a b c d r where "xs = a # b # c # d # r"
  using assms by (cases xs rule: get4LE.cases) auto

lemma rd2_take:
  assumes "p + 2 \<le> length m"
  shows "rd2 m p = Some (le_nat (take 2 (drop p m)))"
proof -
  have "2 \<le> length (drop p m)" using assms by simp
  then obtain a b r where d: "drop p m = a # b # r" by (rule two_bytes)
  have "le_nat [a, b] < 2 ^ 16" using le_nat_bound [of "[a, b]"] by simp
  then have "unat (le_word [a, b] :: u16) = le_nat [a, b]"
    by (simp only: le_word_le_nat unat_of_nat) (simp add: take_bit_nat_eq_self)
  moreover have "take 2 (drop p m) = [a, b]" by (simp add: d)
  ultimately show ?thesis by (simp only: rd2_def d get_le_word option.map)
qed

lemma rd4_take:
  assumes "p + 4 \<le> length m"
  shows "rd4 m p = Some (le_nat (take 4 (drop p m)))"
proof -
  have "4 \<le> length (drop p m)" using assms by simp
  then obtain a b c d r where d: "drop p m = a # b # c # d # r" by (rule four_bytes)
  have "le_nat [a, b, c, d] < 2 ^ 32" using le_nat_bound [of "[a, b, c, d]"] by simp
  then have "unat (le_word [a, b, c, d] :: u32) = le_nat [a, b, c, d]"
    by (simp only: le_word_le_nat unat_of_nat) (simp add: take_bit_nat_eq_self)
  moreover have "take 4 (drop p m) = [a, b, c, d]" by (simp add: d numeral_eq_Suc)
  ultimately show ?thesis by (simp only: rd4_def d get_le_word option.map)
qed

lemma rd2_Some: "rd2 m p = Some v \<longleftrightarrow> p + 2 \<le> length m \<and> v = le_nat (take 2 (drop p m))"
proof (cases "p + 2 \<le> length m")
  case False
  then have "get2LE (drop p m) = None" by (intro LE2.get_short) auto
  with False show ?thesis by (simp add: rd2_def)
qed (auto simp: rd2_take)

lemma rd4_Some: "rd4 m p = Some v \<longleftrightarrow> p + 4 \<le> length m \<and> v = le_nat (take 4 (drop p m))"
proof (cases "p + 4 \<le> length m")
  case False
  then have "get4LE (drop p m) = None" by (intro LE4.get_short) auto
  with False show ?thesis by (simp add: rd4_def)
qed (auto simp: rd4_take)

lemma le_nat_take: "le_nat (take n bs) < 256 ^ n"
  by (rule less_le_trans [OF le_nat_bound]) (simp add: power_increasing)

lemma rd_bounds: "rd2 m p = Some v \<Longrightarrow> v < 65536" "rd4 m p = Some v \<Longrightarrow> v < 2 ^ 32"
  using le_nat_take [of 2] le_nat_take [of 4] by (auto simp: rd2_Some rd4_Some)

section \<open>The end-of-central-directory record\<close>

definition end_marker_at :: "buffer \<Rightarrow> nat \<Rightarrow> bool" where
  "end_marker_at m p \<longleftrightarrow> rd4 m p = Some ENDSIG"

lemma end_marker_byte: "end_marker_at m p \<Longrightarrow> unat (m ! p) = ENDSIG mod 256"
proof -
  assume e: "end_marker_at m p"
  then have p: "p + 4 \<le> length m" "le_nat (take 4 (drop p m)) = ENDSIG" by (auto simp: end_marker_at_def rd4_Some)
  then have "4 \<le> length (drop p m)" by simp
  then obtain a b c d r where d: "drop p m = a # b # c # d # r" by (rule four_bytes)
  then have "m ! p = a" using hd_drop_conv_nth [of p m] p(1) by simp
  moreover have "take 4 (drop p m) = [a, b, c, d]" by (simp add: d numeral_eq_Suc)
  ultimately have "unat (m ! p) + 256 * le_nat [b, c, d] = ENDSIG" using p(2) by (simp only: le_nat.simps)
  then have "(unat (m ! p) + 256 * le_nat [b, c, d]) mod 256 = ENDSIG mod 256" by (simp only:)
  then show ?thesis by (simp only: mod_mult_self2 mod_less unat_byte_less)
qed

lemma search_eocd_spec:
  "ptr + 4 \<le> length m \<Longrightarrow> \<exists>r. search_eocd m ptr = Some r
     \<and> (case r of None \<Rightarrow> \<forall>i \<le> ptr. \<not> end_marker_at m i
        | Some q \<Rightarrow> q \<le> ptr \<and> end_marker_at m q \<and> (\<forall>i. q < i \<and> i \<le> ptr \<longrightarrow> \<not> end_marker_at m i))"
proof (induction ptr)
  case 0
  then obtain v where "rd4 m 0 = Some v" by (simp add: rd4_take)
  with 0 show ?case
    using end_marker_byte [of m 0] by (subst search_eocd.simps) (auto simp: end_marker_at_def)
next
  case (Suc p)
  then obtain v where v: "rd4 m (Suc p) = Some v" by (simp add: rd4_take)
  show ?case
  proof (cases "end_marker_at m (Suc p)")
    case True
    with Suc.prems show ?thesis
      using end_marker_byte [OF True] by (subst search_eocd.simps) (auto simp: end_marker_at_def)
  next
    case False
    then have "search_eocd m (Suc p) = search_eocd m p"
      using Suc.prems v by (subst search_eocd.simps) (auto simp: end_marker_at_def)
    with Suc False show ?thesis by (fastforce simp: le_Suc_eq split: option.splits)
  qed
qed

lemma search_eocd_last:
  assumes pos: "pos + ENDHDR \<le> length m" "end_marker_at m pos"
    and last: "\<And>i. pos < i \<Longrightarrow> i + ENDHDR \<le> length m \<Longrightarrow> \<not> end_marker_at m i"
  shows "search_eocd m (length m - ENDHDR) = Some (Some pos)"
proof -
  have "length m - ENDHDR + 4 \<le> length m" "pos \<le> length m - ENDHDR" using pos(1) by (simp_all add: ENDHDR_def)
  note l = this
  from search_eocd_spec [OF l(1)] obtain r where r: "search_eocd m (length m - ENDHDR) = Some r"
    "case r of None \<Rightarrow> \<forall>i \<le> length m - ENDHDR. \<not> end_marker_at m i
     | Some q \<Rightarrow> q \<le> length m - ENDHDR \<and> end_marker_at m q \<and> (\<forall>i. q < i \<and> i \<le> length m - ENDHDR \<longrightarrow> \<not> end_marker_at m i)"
    by blast
  from r(2) l(2) pos(2) obtain q where q: "r = Some q" "q \<le> length m - ENDHDR" "end_marker_at m q"
    "\<forall>i. q < i \<and> i \<le> length m - ENDHDR \<longrightarrow> \<not> end_marker_at m i" by (cases r) auto
  have "\<not> q < pos" using q(4) l(2) pos(2) by blast
  moreover have "q + ENDHDR \<le> length m" using q(2) pos(1) by linarith
  then have "\<not> pos < q" using last q(3) by blast
  ultimately have "q = pos" by linarith
  then show ?thesis using r(1) q(1) by simp
qed

section \<open>Sorting\<close>

lemma strcmp_refl [simp]: "strcmp s s = 0"
  by simp

lemma strcmp_range: "strcmp s t = -1 \<or> strcmp s t = 0 \<or> strcmp s t = 1"
  by (induction s t rule: strcmp.induct) auto

lemma strcmp_common:
  "strcmp s t = (let n = min (length s) (length t); d = strcmp (take n s) (take n t) in
     if d = 0 then sgn (int (length s) - int (length t)) else d)"
  by (induction s t rule: strcmp.induct) (simp_all add: Let_def)

lemma name_diff_strcmp: "sgn (name_diff s t) = strcmp s t"
  using strcmp_range [of "take (min (length s) (length t)) s" "take (min (length s) (length t)) t"]
  by (subst strcmp_common) (auto simp: name_diff_def strncmp_def Let_def)

lemma name_diff_cases:
  "name_diff s t < 0 \<longleftrightarrow> strcmp s t < 0" "0 < name_diff s t \<longleftrightarrow> 0 < strcmp s t"
  by (metis name_diff_strcmp sgn_less, metis name_diff_strcmp sgn_greater)

text \<open>The order of the array, and the law of comparison functions for it.\<close>

interpretation by_name: c_order "\<lambda>e f. strcmp (entry_name m e) (entry_name m f)" for m
  by unfold_locales (use strcmp_pos_iff strcmp_le_trans in blast)+

lemma search_target_spec:
  assumes ord: "by_name.ordered m es"
    and "0 \<le> low" "high < int (length es)" "low \<le> high + 1"
    and "\<forall>i < nat low. strcmp (entry_name m (es ! i)) name \<le> 0"
    and "\<forall>i < length es. high < int i \<longrightarrow> strcmp name (entry_name m (es ! i)) \<le> 0"
  shows "\<exists>h. search_target m es name low high = Some h \<and> -1 \<le> h \<and> h < int (length es)
    \<and> (\<forall>i < nat (h + 1). strcmp (entry_name m (es ! i)) name \<le> 0)
    \<and> (\<forall>i < length es. h < int i \<longrightarrow> strcmp name (entry_name m (es ! i)) \<le> 0)"
  using assms(2-)
proof (induction "nat (high - low + 1)" arbitrary: low high rule: less_induct)
  case less
  show ?case
  proof (cases "low \<le> high")
    case False
    then have "high + 1 = low" using less.prems(3) by linarith
    with less.prems False show ?thesis by (subst search_target.simps) auto
  next
    case True
    define mid where "mid = low + (high - low) div 2"
    define k where "k = nat mid"
    have mid: "low \<le> mid" "mid \<le> high" using True by (auto simp: mid_def)
    then have k: "mid = int k" "k < length es" using less.prems by (auto simp: k_def)
    have le: "strcmp (entry_name m (es ! i)) (entry_name m (es ! j)) \<le> 0" if "i \<le> j" "j < length es" for i j
      using by_name.ordered_nth [OF ord that] .
    let ?d = "strcmp (entry_name m (es ! k)) name"
    note step = search_target.simps [of m es name low high, folded mid_def]
    consider "?d < 0" | "0 < ?d" | "?d = 0" by linarith
    then show ?thesis
    proof cases
      case 1
      have "search_target m es name low high = search_target m es name (mid + 1) high"
        using True k 1 by (simp add: step Let_def name_diff_cases)
      moreover have "strcmp (entry_name m (es ! i)) name \<le> 0" if "i \<le> k" for i
        using le [OF that k(2)] 1 strcmp_le_trans by (meson less_imp_le)
      ultimately show ?thesis
        using less.hyps [of high "mid + 1"] less.prems mid k by (auto simp: nat_add_distrib less_Suc_eq_le)
    next
      case 2
      then have "strcmp name (entry_name m (es ! k)) \<le> 0" using strcmp_antisym [of name "entry_name m (es ! k)"] by linarith
      then have "strcmp name (entry_name m (es ! i)) \<le> 0" if "k \<le> i" "i < length es" for i
        using le [OF that] strcmp_le_trans by blast
      moreover have "search_target m es name low high = search_target m es name low (mid - 1)"
        using True k 2 by (simp add: step Let_def name_diff_cases)
      ultimately show ?thesis
        using less.hyps [of "mid - 1" low] less.prems mid k by auto
    next
      case 3
      then have "search_target m es name low high = Some mid"
        using True k by (simp add: step Let_def name_diff_cases)
      with 3 k mid le [of _ k] le [of k] less.prems show ?thesis by (auto simp: nat_add_distrib less_Suc_eq_le)
    qed
  qed
qed

lemma sort_target_spec:
  assumes "by_name.ordered m es"
  shows "\<exists>t. sort_target m es name = Some t \<and> t \<le> length es
    \<and> (\<forall>i < t. strcmp (entry_name m (es ! i)) name \<le> 0)
    \<and> (\<forall>i < length es. t \<le> i \<longrightarrow> strcmp name (entry_name m (es ! i)) \<le> 0)"
proof (cases "es = []")
  case False
  from search_target_spec [OF assms, of 0 "int (length es) - 1" name]
  obtain h where "search_target m es name 0 (int (length es) - 1) = Some h" "-1 \<le> h" "h < int (length es)"
    "\<forall>i < nat (h + 1). strcmp (entry_name m (es ! i)) name \<le> 0"
    "\<forall>i < length es. h < int i \<longrightarrow> strcmp name (entry_name m (es ! i)) \<le> 0" by auto
  with False show ?thesis by (intro exI [of _ "nat (h + 1)"]) (auto simp: sort_target_def)
qed (simp add: sort_target_def)

lemma ordered_inserted:
  assumes "by_name.ordered m es" "t \<le> length es"
    and "\<forall>i < t. strcmp (entry_name m (es ! i)) (entry_name m e) \<le> 0"
    and "\<forall>i < length es. t \<le> i \<longrightarrow> strcmp (entry_name m e) (entry_name m (es ! i)) \<le> 0"
  shows "by_name.ordered m (take t es @ e # drop t es)"
proof -
  have "sorted_wrt (\<lambda>e f. strcmp (entry_name m e) (entry_name m f) \<le> 0) (take t es @ drop t es)"
    using assms(1) by (simp add: by_name.ordered_def)
  moreover have "\<forall>x \<in> set (take t es). strcmp (entry_name m x) (entry_name m e) \<le> 0"
    using assms(2,3) by (auto simp: in_set_conv_nth)
  moreover have "\<forall>x \<in> set (drop t es). strcmp (entry_name m e) (entry_name m x) \<le> 0"
    using assms(2,4) by (auto simp: in_set_conv_nth)
  ultimately show ?thesis unfolding by_name.ordered_def by (auto simp: sorted_wrt_append simp del: append_take_drop_id)
qed

section \<open>Entries\<close>

text \<open>What the rest of the program may rely on: name and data lie inside the mapping.\<close>

definition entry_ok :: "buffer \<Rightarrow> ZipEntry \<Rightarrow> bool" where
  "entry_ok m e \<longleftrightarrow> fileName e + fileNameLen e \<le> length m \<and> validFilename (entry_name m e)
     \<and> entryOffset e + compLen e \<le> length m"

lemma entry_name_length: "entry_ok m e \<Longrightarrow> length (entry_name m e) = fileNameLen e"
  by (auto simp: entry_ok_def entry_name_def chars_def)

lemma entry_header_spec:
  "\<exists>r. entry_header m ptr = Some r
    \<and> (case r of None \<Rightarrow> True
       | Some (off, nameLen, _, _) \<Rightarrow> ptr + CENHDR + nameLen \<le> length m \<and> validFilename (chars (take nameLen (drop (ptr + CENHDR) m))))"
  by (auto simp: entry_header_def rd4_take rd2_take CENHDR_def not_less)

lemma entry_fields_spec:
  assumes "ptr + CENHDR \<le> length m"
  shows "\<exists>r. entry_fields m ptr off nameLen = Some r
    \<and> (case r of None \<Rightarrow> True
       | Some e \<Rightarrow> fileName e = ptr + CENHDR \<and> fileNameLen e = nameLen \<and> entryOffset e + compLen e \<le> length m)"
  using assms by (auto simp: entry_fields_def rd4_take rd2_take CENHDR_def LOCHDR_def not_less Let_def)

text \<open>The central directory as a list: the entries in the order of their headers.\<close>

fun directory :: "buffer \<Rightarrow> nat \<Rightarrow> nat \<Rightarrow> ZipEntry list option" where
  "directory m 0 ptr = Some []"
| "directory m (Suc n) ptr =
     (case entry_header m ptr of
        Some (Some (off, nameLen, extraLen, commentLen)) \<Rightarrow>
          (case entry_fields m ptr off nameLen of
             Some (Some e) \<Rightarrow> map_option ((#) e) (directory m n (ptr + CENHDR + nameLen + extraLen + commentLen))
           | _ \<Rightarrow> None)
      | _ \<Rightarrow> None)"

lemma directory_step:
  assumes "directory m (Suc n) ptr = Some ds"
  obtains off nl el cl e ds' where "entry_header m ptr = Some (Some (off, nl, el, cl))"
    "entry_fields m ptr off nl = Some (Some e)" "directory m n (ptr + CENHDR + nl + el + cl) = Some ds'" "ds = e # ds'"
  using assms by (auto split: option.splits)

lemma read_entry_ok:
  assumes "entry_header m ptr = Some (Some (off, nl, el, cl))" "entry_fields m ptr off nl = Some (Some e)"
  shows "entry_ok m e \<and> entry_name m e = chars (take nl (drop (ptr + CENHDR) m))"
  using entry_header_spec [of m ptr] entry_fields_spec [of ptr m off nl] assms
  by (auto simp: entry_ok_def entry_name_def)

lemma directory_ok: "directory m n ptr = Some ds \<Longrightarrow> length ds = n \<and> (\<forall>e \<in> set ds. entry_ok m e)"
proof (induction n arbitrary: ptr ds)
  case (Suc n)
  from Suc.prems show ?case
    by (rule directory_step) (use read_entry_ok Suc.IH in auto)
qed simp

lemma cd_loop_spec:
  "by_name.ordered m es \<Longrightarrow> \<exists>r. cd_loop m n ptr es = Some r
    \<and> (case directory m n ptr of None \<Rightarrow> r = None
       | Some ds \<Rightarrow> \<exists>es'. r = Some es' \<and> by_name.ordered m es' \<and> mset es' = mset es + mset ds)"
proof (induction n arbitrary: ptr es)
  case (Suc n)
  obtain hdr where h: "entry_header m ptr = Some hdr" using entry_header_spec by blast
  show ?case
  proof (cases hdr)
    case None
    with h show ?thesis by simp
  next
    case (Some q)
    then obtain off nl el cl where q: "entry_header m ptr = Some (Some (off, nl, el, cl))" using h by (metis prod_cases4)
    have "ptr + CENHDR \<le> length m" using entry_header_spec [of m ptr] q by auto
    then obtain r where r: "entry_fields m ptr off nl = Some r" using entry_fields_spec by blast
    from sort_target_spec [OF Suc.prems, of "chars (take nl (drop (ptr + CENHDR) m))"] obtain t where
      t: "sort_target m es (chars (take nl (drop (ptr + CENHDR) m))) = Some t" "t \<le> length es"
      "\<forall>i < t. strcmp (entry_name m (es ! i)) (chars (take nl (drop (ptr + CENHDR) m))) \<le> 0"
      "\<forall>i < length es. t \<le> i \<longrightarrow> strcmp (chars (take nl (drop (ptr + CENHDR) m))) (entry_name m (es ! i)) \<le> 0" by blast
    show ?thesis
    proof (cases r)
      case None
      with q r t show ?thesis by simp
    next
      case (Some e)
      have "by_name.ordered m (take t es @ e # drop t es)"
        using ordered_inserted [OF Suc.prems t(2)] t(3,4) read_entry_ok [OF q r [unfolded Some]] by simp
      from Suc.IH [OF this, of "ptr + CENHDR + nl + el + cl"] obtain r' where
        r': "cd_loop m n (ptr + CENHDR + nl + el + cl) (take t es @ e # drop t es) = Some r'"
        "case directory m n (ptr + CENHDR + nl + el + cl) of None \<Rightarrow> r' = None
         | Some ds \<Rightarrow> \<exists>es'. r' = Some es' \<and> by_name.ordered m es' \<and> mset es' = mset (take t es @ e # drop t es) + mset ds"
        by blast
      have "mset (take t es @ e # drop t es) = add_mset e (mset es)"
        by (metis append_take_drop_id mset.simps(2) mset_append union_mset_add_mset_right)
      with r' q r t Some show ?thesis by (auto split: option.splits)
    qed
  qed
qed simp

section \<open>The archive\<close>

text \<open>
  The invariant of an open archive: the array holds exactly the central directory of the mapping,
  sorted by name, and the table finds an entry with each name of the array and nothing else.
\<close>

definition table_ok :: "buffer \<Rightarrow> ZipEntry list \<Rightarrow> zip_item HashTable \<Rightarrow> bool" where
  "table_ok m es t \<longleftrightarrow> hash_inv t
     \<and> (\<forall>(h, x) \<in># contents t. \<exists>i < length es. x = EntryPtr i \<and> h = computeHash (entry_name m (es ! i)))
     \<and> (\<forall>i < length es. \<exists>j < length es. entry_name m (es ! j) = entry_name m (es ! i)
          \<and> (computeHash (entry_name m (es ! i)), EntryPtr j) \<in># contents t)"

definition archive_inv :: "buffer \<Rightarrow> ZipArchive \<Rightarrow> bool" where
  "archive_inv m a \<longleftrightarrow>
     (\<exists>es t pos cdOffset. z_pEntries a = Some es \<and> z_pHash a = Some t
        \<and> search_eocd m (length m - ENDHDR) = Some (Some pos)
        \<and> rd2 m (pos + 8) = Some (z_numEntries a) \<and> rd4 m (pos + 16) = Some cdOffset
        \<and> length es = z_numEntries a \<and> by_name.ordered m es
        \<and> (\<forall>e \<in> set es. entry_ok m e)
        \<and> (\<exists>ds. directory m (z_numEntries a) cdOffset = Some ds \<and> mset es = mset ds)
        \<and> table_ok m es t)"

lemma hashcmpZipEntry_zero:
  "entry_ok m e \<Longrightarrow> entry_ok m f \<Longrightarrow> hashcmpZipEntry m e f = 0 \<longleftrightarrow> entry_name m e = entry_name m f"
  using entry_name_length [of m e] entry_name_length [of m f] by (auto simp: hashcmpZipEntry_def)

lemma hashcmpZipName_zero: "entry_ok m e \<Longrightarrow> hashcmpZipName m e name = 0 \<longleftrightarrow> entry_name m e = name"
  using entry_name_length [of m e] by (auto simp: hashcmpZipName_def Let_def)

lemma add_entries_all:
  "add_entries calloc_ok m es is t =
     add_all (\<lambda>t h x. mzHashTableLookup calloc_ok t h x (zip_cmp m es) True) t
       (map (\<lambda>i. (computeHash (entry_name m (es ! i)), EntryPtr i)) is)"
  by (induction "is" arbitrary: t)
    (auto simp: addEntryToHashTable_def Let_def split: bind_splits option.splits)

lemma add_entries_ok:
  assumes room: "has_room t (length es)" and t: "contents t = {#}" and es: "\<forall>e \<in> set es. entry_ok m e"
  shows "\<exists>t'. add_entries calloc_ok m es [0..<length es] t = Some t' \<and> table_ok m es t'"
proof -
  let ?xs = "map (\<lambda>i. (computeHash (entry_name m (es ! i)), EntryPtr i)) [0..<length es]"
  have "has_room t (0 + length ?xs)" using room by simp
  from hash_store.add_all_held [OF this, of calloc_ok "zip_cmp m es"] obtain t' where
    t': "add_all (\<lambda>t h x. mzHashTableLookup calloc_ok t h x (zip_cmp m es) True) t ?xs = Some t'" "has_room t' 0"
    "set_mset (contents t') \<subseteq> set_mset (contents t) \<union> set ?xs"
    and held: "\<forall>(h, x) \<in> set ?xs. (h, x) \<in># contents t' \<or> (\<exists>y. (h, y) \<in># contents t' \<and> zip_cmp m es y x = 0)"
    by blast
  have sub: "\<exists>i < length es. x = EntryPtr i \<and> h = computeHash (entry_name m (es ! i))" if "(h, x) \<in># contents t'" for h x
    using t'(3) that t by auto
  have "\<exists>j < length es. entry_name m (es ! j) = entry_name m (es ! i)
      \<and> (computeHash (entry_name m (es ! i)), EntryPtr j) \<in># contents t'" if i: "i < length es" for i
  proof -
    have "(computeHash (entry_name m (es ! i)), EntryPtr i) \<in> set ?xs" using i by simp
    with held consider "(computeHash (entry_name m (es ! i)), EntryPtr i) \<in># contents t'"
      | y where "(computeHash (entry_name m (es ! i)), y) \<in># contents t'" "zip_cmp m es y (EntryPtr i) = 0" by blast
    then show ?thesis
    proof cases
      case 2
      from sub [OF 2(1)] obtain j where j: "j < length es" "y = EntryPtr j" by blast
      then have "entry_name m (es ! j) = entry_name m (es ! i)"
        using 2(2) es i hashcmpZipEntry_zero [of m "es ! j" "es ! i"] by simp
      with j 2 show ?thesis by auto
    qed (use i in auto)
  qed
  with sub t'(2) have "table_ok m es t'" by (auto simp: table_ok_def has_room_def)
  with t'(1) show ?thesis by (simp add: add_entries_all)
qed

lemma mzHashTableCreate_cases:
  assumes "mzHashTableCreate (\<lambda>_. True) sz = Some (Some t)"
  shows "mzHashTableCreate calloc_ok sz = Some None \<or> mzHashTableCreate calloc_ok sz = Some (Some t)"
  using assms by (auto simp: mzHashTableCreate_def Let_def split: if_splits)

lemma create_zip_table:
  assumes "n < 65536"
  obtains "mzHashTableCreate calloc_ok (mzHashSize (of_nat n)) = (Some None :: zip_item HashTable option option)"
  | t :: "zip_item HashTable" where "mzHashTableCreate calloc_ok (mzHashSize (of_nat n)) = Some (Some t)" "has_room t n" "contents t = {#}"
  using mzHashTableCreate_room [of n "\<lambda>_. True", where 'a = zip_item] assms
    mzHashTableCreate_cases [of "mzHashSize (of_nat n)" _ calloc_ok, where 'a = zip_item] by fastforce

lemma parseZipArchive_total:
  assumes len: "ENDHDR \<le> length m"
  shows "\<exists>good a'. parseZipArchive calloc_ok m a = Some (good, a') \<and> (good \<longrightarrow> archive_inv m a')
    \<and> z_fd a' = z_fd a \<and> z_map a' = z_map a"
proof -
  have l: "4 \<le> length m" "length m - ENDHDR + 4 \<le> length m" using len by (simp_all add: ENDHDR_def)
  obtain val where val: "rd4 m 0 = Some val" using l by (simp add: rd4_take)
  obtain q where q: "search_eocd m (length m - ENDHDR) = Some q"
    and qs: "\<forall>pos. q = Some pos \<longrightarrow> pos \<le> length m - ENDHDR"
    using search_eocd_spec [OF l(2)] by fastforce
  show ?thesis
  proof (cases "val = ENDSIG \<or> val \<noteq> LOCSIG \<or> q = None")
    case True
    with val q len show ?thesis by (auto simp: parseZipArchive_def)
  next
    case False
    then obtain pos where pos: "q = Some pos" by blast
    then have "pos + 22 \<le> length m" using qs len by (auto simp: ENDHDR_def)
    then obtain n cdo where n: "rd2 m (pos + 8) = Some n" "rd4 m (pos + 16) = Some cdo"
      by (simp add: rd2_take rd4_take)
    note parse = parseZipArchive_def [of calloc_ok m a]
    consider (bad) "n = 0 \<or> length m \<le> cdo" | (good) "n \<noteq> 0" "cdo < length m" by fastforce
    then show ?thesis
    proof cases
      case bad
      with val q pos n False len show ?thesis by (auto simp: parse)
    next
      case good
      obtain es where es: "cd_loop m n cdo [] = Some es"
        "case directory m n cdo of None \<Rightarrow> es = None
         | Some ds \<Rightarrow> \<exists>es'. es = Some es' \<and> by_name.ordered m es' \<and> mset es' = mset ds"
        using cd_loop_spec [of m "[]" n cdo] by (auto simp: by_name.ordered_def split: option.splits)
      from rd_bounds(1) [OF n(1)] show ?thesis
      proof (cases rule: create_zip_table [of n calloc_ok])
        case 1
        with val q pos n False len good show ?thesis by (auto simp: parse Let_def)
      next
        case (2 t)
        show ?thesis
        proof (cases "calloc_ok n \<and> es \<noteq> None")
          case F: False
          with val q pos n False len good 2 es(1) show ?thesis by (auto simp: parse Let_def)
        next
          case T: True
          then obtain ds es' where d: "directory m n cdo = Some ds" "es = Some es'" "by_name.ordered m es'" "mset es' = mset ds"
            using es(2) by (auto split: option.splits)
          then have len': "length es' = n" and ok: "\<forall>e \<in> set es'. entry_ok m e"
            using directory_ok [OF d(1)] mset_eq_length [OF d(4)] mset_eq_setD [OF d(4)] by auto
          from add_entries_ok [of t es' m calloc_ok] 2 ok len' obtain t' where
            t': "add_entries calloc_ok m es' [0..<n] t = Some t'" "table_ok m es' t'" by auto
          have "parseZipArchive calloc_ok m a = Some (True, a\<lparr>z_numEntries := n, z_pEntries := Some es', z_pHash := Some t'\<rparr>)"
            using val q pos n False len good 2 es(1) T d(2) t'(1) by (simp add: parse Let_def)
          moreover have "archive_inv m (a\<lparr>z_numEntries := n, z_pEntries := Some es', z_pHash := Some t'\<rparr>)"
            using q pos n d len' ok t'(2) by (simp add: archive_inv_def)
          ultimately show ?thesis
            by (intro exI [of _ True] exI [of _ "a\<lparr>z_numEntries := n, z_pEntries := Some es', z_pHash := Some t'\<rparr>"]) simp
        qed
      qed
    qed
  qed
qed

lemma mzFindZipEntry_ok:
  assumes inv: "archive_inv m a" and m: "z_map a = Some m" and es: "z_pEntries a = Some es"
  shows "\<exists>r. mzFindZipEntry a name = Some r
    \<and> (case r of None \<Rightarrow> \<forall>e \<in> set es. entry_name m e \<noteq> name
       | Some i \<Rightarrow> i < length es \<and> entry_name m (es ! i) = name)"
proof -
  from inv es obtain t where t: "z_pHash a = Some t" "table_ok m es t" and ok: "\<forall>e \<in> set es. entry_ok m e"
    by (auto simp: archive_inv_def)
  from t(2) have hinv: "hash_inv t" by (simp add: table_ok_def)
  from lookup_find [OF hinv, of "\<lambda>_. False" "computeHash name" "NamePtr name" "zip_cmp m es"] obtain r where
    r: "mzHashTableLookup (\<lambda>_. False) t (computeHash name) (NamePtr name) (zip_cmp m es) False = Some (r, t)"
    "case r of None \<Rightarrow> \<forall>x. (computeHash name, x) \<in># contents t \<longrightarrow> zip_cmp m es x (NamePtr name) \<noteq> 0
     | Some x \<Rightarrow> (computeHash name, x) \<in># contents t \<and> zip_cmp m es x (NamePtr name) = 0" by blast
  show ?thesis
  proof (cases r)
    case None
    have "entry_name m e \<noteq> name" if "e \<in> set es" for e
    proof
      assume n: "entry_name m e = name"
      from that obtain i where "i < length es" "es ! i = e" by (auto simp: in_set_conv_nth)
      with t(2) n obtain j where j: "j < length es" "entry_name m (es ! j) = name" "(computeHash name, EntryPtr j) \<in># contents t"
        unfolding table_ok_def by metis
      with r(2) None have "hashcmpZipName m (es ! j) name \<noteq> 0" by auto
      with hashcmpZipName_zero [of m "es ! j" name] ok j(1,2) show False by simp
    qed
    with r(1) None t(1) m es show ?thesis by (auto simp: mzFindZipEntry_def)
  next
    case (Some x)
    with r(2) t(2) obtain i where i: "i < length es" "x = EntryPtr i" by (auto simp: table_ok_def)
    with r(2) Some ok hashcmpZipName_zero [of m "es ! i" name] have "entry_name m (es ! i) = name" by simp
    with r(1) Some t(1) m es i show ?thesis by (auto simp: mzFindZipEntry_def)
  qed
qed

lemma sysMapFileInShmem_ok: "sysMapFileInShmem dat 0 w = (Some m, w1) \<Longrightarrow> m = dat"
  by (auto simp: sysMapFileInShmem_def getFileStartAndLength_def split: prod.splits if_splits option.splits)

lemma mzOpenZipArchive_total:
  "\<exists>err a w'. mzOpenZipArchive calloc_ok path w = Some (err, a, w')
    \<and> (if err = 0 then \<exists>f. lookup_file w path = Some f \<and> z_fd a = Some (f_data f) \<and> z_map a = Some (f_data f)
            \<and> archive_inv (f_data f) a
       else z_fd a = None \<and> z_map a = None \<and> z_pEntries a = None \<and> z_pHash a = None)"
proof -
  have failed: ?thesis if "mzOpenZipArchive calloc_ok path w = Some (e, mzCloseZipArchive a, w2)" "e \<noteq> 0" for e a w2
    using that by (intro exI [of _ e] exI [of _ "mzCloseZipArchive a"] exI [of _ w2]) (simp add: mzCloseZipArchive_def)
  obtain errno w1 where w1: "answer w = (errno, w1)" by (metis surj_pair)
  have l: "lookup_file w1 path = lookup_file w path" using answer_files [OF w1] by (simp add: lookup_file_def)
  note unfold = mzOpenZipArchive_def [of calloc_ok path w]
  show ?thesis
  proof (cases "errno = 0 \<and> lookup_file w path \<noteq> None")
    case False
    with w1 l show ?thesis
      by (intro failed [of "if errno = 0 then ENOENT else int errno" zero_archive w1]) (auto simp: unfold ENOENT_def Let_def)
  next
    case True
    then obtain f where f: "lookup_file w path = Some f" by blast
    obtain r w2 where r: "sysMapFileInShmem (f_data f) 0 w1 = (r, w2)" by (metis surj_pair)
    show ?thesis
    proof (cases "r = None \<or> length (f_data f) < ENDHDR")
      case F: True
      have "r = None \<or> r = Some (f_data f)" using sysMapFileInShmem_ok r by (cases r) auto
      with F True f r w1 l show ?thesis
        by (intro failed [of "-1" "zero_archive\<lparr>z_fd := Some (f_data f)\<rparr>" w2]) (auto simp: unfold Let_def)
    next
      case F: False
      then have r': "r = Some (f_data f)" using sysMapFileInShmem_ok r by (cases r) auto
      have "ENDHDR \<le> length (f_data f)" using F by simp
      from parseZipArchive_total [OF this, of calloc_ok "zero_archive\<lparr>z_fd := Some (f_data f)\<rparr>"] obtain good a' where
        a': "parseZipArchive calloc_ok (f_data f) (zero_archive\<lparr>z_fd := Some (f_data f)\<rparr>) = Some (good, a')"
        "good \<longrightarrow> archive_inv (f_data f) a'" "z_fd a' = Some (f_data f)" by auto
      show ?thesis
      proof (cases good)
        case False
        with True F f r r' w1 l a' show ?thesis by (intro failed [of "-1" a' w2]) (auto simp: unfold Let_def)
      next
        case g: True
        have "mzOpenZipArchive calloc_ok path w = Some (0, a'\<lparr>z_map := Some (f_data f)\<rparr>, w2)"
          using g True F f r r' w1 l a' by (auto simp: unfold Let_def)
        moreover have "archive_inv (f_data f) (a'\<lparr>z_map := Some (f_data f)\<rparr>)"
          using a' g by (simp add: archive_inv_def)
        ultimately show ?thesis using f a' by auto
      qed
    qed
  qed
qed

section \<open>Properties\<close>

text \<open>C12: on any file and with any failures of the kernel and of the allocator, \<open>mzOpenZipArchive\<close>
  never reads outside the mapping and never fails an assertion; it ends either with everything released, or with an
  archive whose array is the central directory of the last end record of the file, sorted by name, every entry with a
  printable name and with name and data inside the file, and with a well-formed table of exactly these names.\<close>

theorem mzOpenZipArchive_safe:
  "\<exists>err a w'. mzOpenZipArchive calloc_ok path w = Some (err, a, w')
    \<and> (if err = 0 then \<exists>f. lookup_file w path = Some f \<and> z_fd a = Some (f_data f) \<and> z_map a = Some (f_data f)
            \<and> archive_inv (f_data f) a
       else z_fd a = None \<and> z_map a = None \<and> z_pEntries a = None \<and> z_pHash a = None)"
  by (rule mzOpenZipArchive_total)

text \<open>In an opened archive \<open>mzFindZipEntry\<close> returns an entry with the given name when the central directory
  has one, and \<open>NULL\<close> exactly when it has none.\<close>

theorem mzFindZipEntry_spec:
  assumes "mzOpenZipArchive calloc_ok path w = Some (0, a, w')" "lookup_file w path = Some f"
  shows "\<exists>es r. z_pEntries a = Some es \<and> mzFindZipEntry a name = Some r
    \<and> (case r of None \<Rightarrow> name \<notin> entry_name (f_data f) ` set es
       | Some i \<Rightarrow> i < length es \<and> entry_name (f_data f) (es ! i) = name)"
proof -
  from mzOpenZipArchive_total [of calloc_ok path w] assms
  have inv: "z_map a = Some (f_data f)" "archive_inv (f_data f) a" by auto
  from inv(2) obtain es where es: "z_pEntries a = Some es" by (auto simp: archive_inv_def)
  from mzFindZipEntry_ok [OF inv(2,1) es, of name] es show ?thesis by (auto simp: image_iff split: option.splits)
qed

end
