(* ===== verification/ZipImage.thy ===== *)
theory ZipImage
  imports ZipParse
begin

text \<open>
  Well-formed archives: the byte image of a list of members as the archive format lays it out, and
  that \<open>mzOpenZipArchive\<close> accepts every such image and finds its members. Extra fields and entry
  comments are empty here; the archive comment is arbitrary, up to the end marker.
\<close>

section \<open>The format\<close>

record member =
  mb_name :: string
  mb_data :: buffer
  mb_how :: nat
  mb_len :: nat
  mb_crc :: nat
  mb_time :: nat
  mb_attr :: nat

definition local_part :: "member \<Rightarrow> buffer" where
  "local_part f = le_bytes 4 LOCSIG @ le_bytes 22 0 @ le_bytes 2 (length (mb_name f)) @ le_bytes 2 0
     @ bytes_of (mb_name f) @ mb_data f"

definition central_header :: "member \<Rightarrow> nat \<Rightarrow> buffer" where
  "central_header f off = le_bytes 4 CENSIG @ le_bytes 2 CENVEM_UNIX @ le_bytes 4 0 @ le_bytes 2 (mb_how f)
     @ le_bytes 4 (mb_time f) @ le_bytes 4 (mb_crc f) @ le_bytes 4 (length (mb_data f)) @ le_bytes 4 (mb_len f)
     @ le_bytes 2 (length (mb_name f)) @ le_bytes 2 0 @ le_bytes 2 0 @ le_bytes 4 0
     @ le_bytes 4 (mb_attr f) @ le_bytes 4 off @ bytes_of (mb_name f)"

fun local_parts :: "member list \<Rightarrow> buffer" where
  "local_parts [] = []"
| "local_parts (f # fs) = local_part f @ local_parts fs"

fun central_part :: "nat \<Rightarrow> member list \<Rightarrow> buffer" where
  "central_part off [] = []"
| "central_part off (f # fs) = central_header f off @ central_part (off + length (local_part f)) fs"

definition end_record :: "nat \<Rightarrow> nat \<Rightarrow> nat \<Rightarrow> buffer \<Rightarrow> buffer" where
  "end_record n cdSize off comment = le_bytes 4 ENDSIG @ le_bytes 4 0 @ le_bytes 2 n @ le_bytes 2 n
     @ le_bytes 4 cdSize @ le_bytes 4 off @ le_bytes 2 (length comment) @ comment"

definition zip_image :: "member list \<Rightarrow> buffer \<Rightarrow> buffer" where
  "zip_image fs comment = local_parts fs @ central_part 0 fs
     @ end_record (length fs) (length (central_part 0 fs)) (length (local_parts fs)) comment"

definition eocd_position :: "member list \<Rightarrow> nat" where
  "eocd_position fs = length (local_parts fs) + length (central_part 0 fs)"

definition member_ok :: "member \<Rightarrow> bool" where
  "member_ok f \<longleftrightarrow> validFilename (mb_name f) \<and> mb_how f < 2 ^ 16 \<and> mb_len f < 2 ^ 32 \<and> mb_crc f < 2 ^ 32
     \<and> mb_time f < 2 ^ 32 \<and> mb_attr f < 2 ^ 32"

text \<open>The entry the parser is to produce for a member.\<close>

definition entry_of :: "member \<Rightarrow> nat \<Rightarrow> nat \<Rightarrow> ZipEntry" where
  "entry_of f off ptr = \<lparr>fileNameLen = length (mb_name f), fileName = ptr + CENHDR,
     entryOffset = off + LOCHDR + length (mb_name f), compLen = length (mb_data f), uncompLen = mb_len f,
     compression = mb_how f, modTime = mb_time f, entryCrc32 = mb_crc f, versionMadeBy = CENVEM_UNIX,
     externalFileAttributes = mb_attr f\<rparr>"

section \<open>Reading it back\<close>

lemma rd_drop: "rd2 m (p + q) = rd2 (drop p m) q" "rd4 m (p + q) = rd4 (drop p m) q"
  by (simp_all add: rd2_def rd4_def add.commute)

lemma rd2_field: "v < 65536 \<Longrightarrow> take 2 (drop p m) = le_bytes 2 v \<Longrightarrow> rd2 m p = Some v"
proof -
  assume v: "v < 65536" and t: "take 2 (drop p m) = le_bytes 2 v"
  from t have "length (take 2 (drop p m)) = 2" by simp
  then have "p + 2 \<le> length m" by simp
  with v t show ?thesis by (simp add: rd2_take le_nat_le_bytes)
qed

lemma rd4_field: "v < 2 ^ 32 \<Longrightarrow> take 4 (drop p m) = le_bytes 4 v \<Longrightarrow> rd4 m p = Some v"
proof -
  assume v: "v < 2 ^ 32" and t: "take 4 (drop p m) = le_bytes 4 v"
  from t have "length (take 4 (drop p m)) = 4" by simp
  then have "p + 4 \<le> length m" by simp
  with v t show ?thesis by (simp add: rd4_take le_nat_le_bytes)
qed

lemma length_parts [simp]:
  "length (local_part f) = LOCHDR + length (mb_name f) + length (mb_data f)"
  "length (central_header f off) = CENHDR + length (mb_name f)"
  "length (end_record n cdSize off comment) = ENDHDR + length comment"
  by (simp_all add: local_part_def central_header_def end_record_def LOCHDR_def CENHDR_def ENDHDR_def)

lemma central_fields:
  assumes d: "drop ptr m = central_header f off @ rest" and f: "member_ok f" and off: "off < 2 ^ 32" "length (mb_data f) < 2 ^ 32"
  shows "rd4 m ptr = Some CENSIG" "rd2 m (ptr + 4) = Some CENVEM_UNIX" "rd2 m (ptr + 10) = Some (mb_how f)"
    "rd4 m (ptr + 12) = Some (mb_time f)" "rd4 m (ptr + 16) = Some (mb_crc f)" "rd4 m (ptr + 20) = Some (length (mb_data f))"
    "rd4 m (ptr + 24) = Some (mb_len f)" "rd2 m (ptr + 28) = Some (length (mb_name f))" "rd2 m (ptr + 30) = Some 0"
    "rd2 m (ptr + 32) = Some 0" "rd4 m (ptr + 38) = Some (mb_attr f)" "rd4 m (ptr + 42) = Some off"
  using assms rd_drop(2) [of m ptr 0]
  by (simp_all add: rd_drop d member_ok_def validFilename_def PATH_MAX_def,
      simp_all add: rd2_field rd4_field central_header_def CENSIG_def CENVEM_UNIX_def)

lemma local_fields:
  assumes d: "drop off m = local_part f @ rest" and f: "member_ok f"
  shows "rd4 m off = Some LOCSIG" "rd2 m (off + 26) = Some (length (mb_name f))" "rd2 m (off + 28) = Some 0"
  using assms rd_drop(2) [of m off 0]
  by (simp_all add: rd_drop d member_ok_def validFilename_def PATH_MAX_def,
      simp_all add: rd2_field rd4_field local_part_def LOCSIG_def)

lemma entry_header_image:
  assumes d: "drop ptr m = central_header f off @ rest" and f: "member_ok f" and off: "off < 2 ^ 32" "length (mb_data f) < 2 ^ 32"
  shows "entry_header m ptr = Some (Some (off, length (mb_name f), 0, 0))"
proof -
  have "length (drop ptr m) = CENHDR + length (mb_name f) + length rest" by (simp add: d)
  then have l: "ptr + CENHDR + length (mb_name f) \<le> length m" by (cases "ptr \<le> length m") (auto simp: CENHDR_def)
  have "drop (ptr + CENHDR) m = drop CENHDR (drop ptr m)" by (simp add: add.commute)
  also have "\<dots> = bytes_of (mb_name f) @ rest" by (simp add: d) (simp add: central_header_def CENHDR_def)
  finally have "take (length (mb_name f)) (drop (ptr + CENHDR) m) = bytes_of (mb_name f)" by simp
  with l f central_fields [OF assms] show ?thesis
    by (simp add: entry_header_def member_ok_def)
qed

lemma entry_fields_image:
  assumes d: "drop ptr m = central_header f off @ rest" and f: "member_ok f"
    and loc: "drop off m = local_part f @ rest'" and len: "length m < 2 ^ 32"
  shows "entry_fields m ptr off (length (mb_name f)) = Some (Some (entry_of f off ptr))"
proof -
  have "length (drop off m) = LOCHDR + length (mb_name f) + length (mb_data f) + length rest'" by (simp add: loc)
  then have l: "off + LOCHDR + length (mb_name f) + length (mb_data f) \<le> length m"
    by (cases "off \<le> length m") (auto simp: LOCHDR_def)
  then have o: "off < 2 ^ 32" "length (mb_data f) < 2 ^ 32" using len by linarith+
  have "(off + LOCHDR + length (mb_name f)) mod 2 ^ 32 = off + LOCHDR + length (mb_name f)" using l len by simp
  moreover have "CENVEM_UNIX AND 0xff00 = CENVEM_UNIX" by (simp add: CENVEM_UNIX_def)
  ultimately show ?thesis
    using l central_fields [OF d f o] local_fields [OF loc f]
    by (simp add: entry_fields_def entry_of_def Let_def)
qed

text \<open>The entries of the members, with their headers from \<open>ptr\<close> and their data from \<open>off\<close> on.\<close>

fun entries_of :: "nat \<Rightarrow> nat \<Rightarrow> member list \<Rightarrow> ZipEntry list" where
  "entries_of off ptr [] = []"
| "entries_of off ptr (f # fs) =
     entry_of f off ptr # entries_of (off + length (local_part f)) (ptr + CENHDR + length (mb_name f)) fs"

lemma next_parts:
  assumes "drop ptr m = central_header f off @ central_part (off + length (local_part f)) fs @ rest"
    and "drop off m = local_part f @ local_parts fs @ rest'"
  shows "drop (ptr + CENHDR + length (mb_name f)) m = central_part (off + length (local_part f)) fs @ rest"
    and "drop (off + length (local_part f)) m = local_parts fs @ rest'"
proof -
  have "drop (ptr + CENHDR + length (mb_name f)) m = drop (length (central_header f off)) (drop ptr m)" by (simp add: ac_simps)
  then show "drop (ptr + CENHDR + length (mb_name f)) m = central_part (off + length (local_part f)) fs @ rest"
    unfolding assms(1) append_eq_conv_conj by (simp del: length_parts)
  have "drop (off + length (local_part f)) m = drop (length (local_part f)) (drop off m)" by (simp add: ac_simps)
  then show "drop (off + length (local_part f)) m = local_parts fs @ rest'"
    unfolding assms(2) by (simp del: length_parts)
qed

lemma directory_image:
  assumes "drop ptr m = central_part off fs @ rest" "drop off m = local_parts fs @ rest'" "length m < 2 ^ 32"
    and "\<forall>f \<in> set fs. member_ok f"
  shows "directory m (length fs) ptr = Some (entries_of off ptr fs)"
  using assms
proof (induction fs arbitrary: ptr off)
  case (Cons f fs)
  let ?off = "off + length (local_part f)" and ?ptr = "ptr + CENHDR + length (mb_name f)"
  have c: "drop ptr m = central_header f off @ central_part ?off fs @ rest" using Cons.prems(1) by simp
  have l: "drop off m = local_part f @ local_parts fs @ rest'" using Cons.prems(2) by simp
  have "length (drop off m) = length (local_part f) + length (local_parts fs @ rest')" by (simp add: l)
  then have o: "off < 2 ^ 32" "length (mb_data f) < 2 ^ 32"
    using Cons.prems(3) by (cases "off \<le> length m"; simp add: LOCHDR_def)+
  have f: "member_ok f" and fs: "\<forall>f \<in> set fs. member_ok f" using Cons.prems(4) by simp_all
  show ?case
    using entry_header_image [OF c f o] entry_fields_image [OF c f l Cons.prems(3)] Cons.IH [OF next_parts [OF c l] Cons.prems(3) fs]
    by simp
qed simp

definition represents :: "buffer \<Rightarrow> ZipEntry \<Rightarrow> member \<Rightarrow> bool" where
  "represents m e f \<longleftrightarrow> entry_name m e = mb_name f \<and> take (compLen e) (drop (entryOffset e) m) = mb_data f
     \<and> compression e = mb_how f \<and> uncompLen e = mb_len f \<and> entryCrc32 e = mb_crc f
     \<and> modTime e = mb_time f \<and> versionMadeBy e = CENVEM_UNIX \<and> externalFileAttributes e = mb_attr f"

lemma entry_of_represents:
  assumes "drop ptr m = central_header f off @ rest" "drop off m = local_part f @ rest'"
  shows "represents m (entry_of f off ptr) f"
proof -
  have "drop (ptr + CENHDR) m = drop CENHDR (drop ptr m)" by (simp add: ac_simps)
  then have "drop (ptr + CENHDR) m = bytes_of (mb_name f) @ rest" by (simp add: assms(1)) (simp add: central_header_def CENHDR_def)
  moreover have "drop (off + LOCHDR + length (mb_name f)) m = drop (LOCHDR + length (mb_name f)) (drop off m)" by (simp add: ac_simps)
  then have "drop (off + LOCHDR + length (mb_name f)) m = mb_data f @ rest'"
    by (simp add: assms(2)) (simp add: local_part_def LOCHDR_def)
  ultimately show ?thesis by (simp add: represents_def entry_of_def entry_name_def)
qed

lemma entries_of_represent:
  assumes "drop ptr m = central_part off fs @ rest" "drop off m = local_parts fs @ rest'"
  shows "list_all2 (represents m) (entries_of off ptr fs) fs"
  using assms
proof (induction fs arbitrary: ptr off)
  case (Cons f fs)
  have c: "drop ptr m = central_header f off @ central_part (off + length (local_part f)) fs @ rest"
    and l: "drop off m = local_part f @ local_parts fs @ rest'" using Cons.prems by simp_all
  from Cons.IH [OF next_parts [OF c l]] entry_of_represents [OF c l] show ?case by simp
qed simp

lemma marker_in_image: "end_marker_at (zip_image fs comment) (eocd_position fs)"
proof -
  have "drop (eocd_position fs) (zip_image fs comment)
      = end_record (length fs) (length (central_part 0 fs)) (length (local_parts fs)) comment"
    by (simp add: zip_image_def eocd_position_def)
  then show ?thesis unfolding end_marker_at_def by (intro rd4_field) (simp_all add: end_record_def ENDSIG_def)
qed

lemma end_fields:
  assumes "length fs < 65536" "length (zip_image fs comment) < 2 ^ 32"
  shows "rd2 (zip_image fs comment) (eocd_position fs + 8) = Some (length fs)"
    "rd4 (zip_image fs comment) (eocd_position fs + 16) = Some (length (local_parts fs))"
proof -
  have d: "drop (eocd_position fs) (zip_image fs comment)
      = end_record (length fs) (length (central_part 0 fs)) (length (local_parts fs)) comment"
    by (simp add: zip_image_def eocd_position_def)
  have "length (local_parts fs) < 2 ^ 32" using assms(2) by (simp add: zip_image_def)
  then show "rd2 (zip_image fs comment) (eocd_position fs + 8) = Some (length fs)"
    "rd4 (zip_image fs comment) (eocd_position fs + 16) = Some (length (local_parts fs))"
    using assms(1) by (simp_all only: rd_drop d) (simp_all add: rd2_field rd4_field end_record_def)
qed

lemma zip_image_parse:
  assumes fs: "fs \<noteq> []" "length fs < 65536" "\<forall>f \<in> set fs. member_ok f" and len: "length m < 2 ^ 32"
    and m: "m = zip_image fs comment"
    and last: "\<And>i. eocd_position fs < i \<Longrightarrow> i + ENDHDR \<le> length m \<Longrightarrow> \<not> end_marker_at m i"
    and mem: "\<And>n. calloc_ok n"
  shows "\<exists>a'. parseZipArchive calloc_ok m a = Some (True, a')
    \<and> (\<exists>ds. directory m (length fs) (length (local_parts fs)) = Some ds \<and> list_all2 (represents m) ds fs)
    \<and> rd2 m (eocd_position fs + 8) = Some (length fs) \<and> rd4 m (eocd_position fs + 16) = Some (length (local_parts fs))"
proof -
  have el: "eocd_position fs + ENDHDR \<le> length m" by (simp add: m zip_image_def eocd_position_def)
  have eocd: "search_eocd m (length m - ENDHDR) = Some (Some (eocd_position fs))"
    using search_eocd_last [OF el] marker_in_image last by (simp add: m)
  note ends = end_fields [OF fs(2) len [unfolded m], folded m]
  have c: "drop (length (local_parts fs)) m = central_part 0 fs @ end_record (length fs) (length (central_part 0 fs)) (length (local_parts fs)) comment"
    and l: "drop 0 m = local_parts fs @ drop (length (local_parts fs)) m" by (simp_all add: m zip_image_def)
  note ds = directory_image [OF c l len fs(3)] entries_of_represent [OF c l]
  obtain f fs' where f: "fs = f # fs'" using fs(1) by (cases fs) auto
  then have "drop 0 m = local_part f @ local_parts fs' @ drop (length (local_parts fs)) m" using l by simp
  from local_fields(1) [OF this] fs(3) f have loc: "rd4 m 0 = Some LOCSIG" by simp
  have cd: "length (local_parts fs) < length m" "ENDHDR \<le> length m" "length m \<noteq> 0"
    using el by (auto simp: eocd_position_def ENDHDR_def)
  obtain es where es: "cd_loop m (length fs) (length (local_parts fs)) [] = Some (Some es)"
      "mset es = mset (entries_of 0 (length (local_parts fs)) fs)"
    using cd_loop_spec [of m "[]" "length fs" "length (local_parts fs)"] ds(1) by (auto simp: by_name.ordered_def)
  have ok: "length es = length fs" "\<forall>e \<in> set es. entry_ok m e"
    using directory_ok [OF ds(1)] mset_eq_length [OF es(2)] mset_eq_setD [OF es(2)] by auto
  from mzHashTableCreate_room [of "length fs" calloc_ok, where 'a = zip_item] fs(2) mem obtain t :: "zip_item HashTable" where
    t: "mzHashTableCreate calloc_ok (mzHashSize (of_nat (length fs))) = Some (Some t)" "has_room t (length fs)" "contents t = {#}" by auto
  from add_entries_ok [of t es m calloc_ok] t ok obtain t' where "add_entries calloc_ok m es [0..<length fs] t = Some t'" by auto
  then have "\<exists>a'. parseZipArchive calloc_ok m a = Some (True, a')"
    using loc eocd ends cd fs(1) t es mem by (simp add: parseZipArchive_def Let_def LOCSIG_def ENDSIG_def)
  with ds ends show ?thesis by blast
qed

lemma zip_image_found:
  assumes fs: "fs \<noteq> []" "length fs < 65536" "\<forall>f \<in> set fs. member_ok f" "distinct (map mb_name fs)"
    and len: "length (zip_image fs comment) < 2 ^ 32"
    and last: "\<forall>i. eocd_position fs < i \<longrightarrow> i + ENDHDR \<le> length (zip_image fs comment) \<longrightarrow> \<not> end_marker_at (zip_image fs comment) i"
    and mem: "\<forall>n. calloc_ok n"
    and f: "lookup_file w path = Some f" "f_data f = zip_image fs comment" "answers w = []"
  shows "\<exists>a es. mzOpenZipArchive calloc_ok path w = Some (0, a, w) \<and> z_pEntries a = Some es \<and> length es = length fs
    \<and> (\<forall>g \<in> set fs. \<exists>i < length es. mzFindZipEntry a (mb_name g) = Some (Some i) \<and> represents (zip_image fs comment) (es ! i) g)"
proof -
  let ?m = "zip_image fs comment"
  have ans: "answer w = (0, w)" "sys_ok w = (True, w)" using f(3) by (simp_all add: answer_def sys_ok_def)
  have el: "ENDHDR \<le> length ?m" by (simp add: zip_image_def)
  then have "0 < length ?m" unfolding ENDHDR_def by linarith
  then have map: "sysMapFileInShmem (f_data f) 0 w = (Some ?m, w)"
    using ans f(2) by (simp add: sysMapFileInShmem_def getFileStartAndLength_def)
  from zip_image_parse [OF fs(1,2,3) len refl, of calloc_ok "zero_archive\<lparr>z_fd := Some ?m\<rparr>"] last mem obtain a' ds where
    a': "parseZipArchive calloc_ok ?m (zero_archive\<lparr>z_fd := Some ?m\<rparr>) = Some (True, a')"
    and ds: "directory ?m (length fs) (length (local_parts fs)) = Some ds" "list_all2 (represents ?m) ds fs"
    and ends: "rd2 ?m (eocd_position fs + 8) = Some (length fs)" "rd4 ?m (eocd_position fs + 16) = Some (length (local_parts fs))"
    by blast
  define a where "a = a'\<lparr>z_map := Some ?m\<rparr>"
  have op: "mzOpenZipArchive calloc_ok path w = Some (0, a, w)"
    using ans f map el a' by (simp add: mzOpenZipArchive_def Let_def a_def)
  have eocd: "search_eocd ?m (length ?m - ENDHDR) = Some (Some (eocd_position fs))"
    using search_eocd_last [of "eocd_position fs" ?m] marker_in_image last by (simp add: zip_image_def eocd_position_def)
  from mzOpenZipArchive_total [of calloc_ok path w] op f have inv: "archive_inv ?m a" "z_map a = Some ?m" by auto
  then obtain es where es: "z_pEntries a = Some es" "mset es = mset ds" "length es = length fs"
    using eocd ends ds(1) by (auto simp: archive_inv_def)
  have "\<exists>i < length es. mzFindZipEntry a (mb_name g) = Some (Some i) \<and> represents ?m (es ! i) g" if g: "g \<in> set fs" for g
  proof -
    from g ds(2) obtain e where e: "e \<in> set ds" "represents ?m e g"
      by (metis in_set_conv_nth list_all2_conv_all_nth)
    then have "e \<in> set es" "entry_name ?m e = mb_name g" using mset_eq_setD [OF es(2)] by (auto simp: represents_def)
    with mzFindZipEntry_ok [OF inv es(1), of "mb_name g"] obtain i where
      i: "mzFindZipEntry a (mb_name g) = Some (Some i)" "i < length es" "entry_name ?m (es ! i) = mb_name g"
      by (auto split: option.splits)
    then have "es ! i \<in> set ds" using mset_eq_setD [OF es(2)] nth_mem by blast
    with ds(2) obtain g' where g': "g' \<in> set fs" "represents ?m (es ! i) g'"
      by (metis in_set_conv_nth list_all2_conv_all_nth)
    then have "mb_name g' = mb_name g" using i(3) by (simp add: represents_def)
    with fs(4) g g'(1) have "g' = g" by (auto simp: distinct_map inj_on_def)
    with i g' show ?thesis by blast
  qed
  with op es show ?thesis by blast
qed

text \<open>C15: every well-formed archive image opens, and \<open>mzFindZipEntry\<close> finds every member of it: an entry
  whose name and data are the member's and whose length, method, checksum, time and attributes are the member's. The images have between 1 and
  65535 members with different names, no extra fields and entry comments, less than 4 GiB, and a comment without another end marker; no
  call and no allocation fails.\<close>

theorem zip_image_opens:
  assumes fs: "fs \<noteq> []" "length fs < 65536" "\<forall>f \<in> set fs. member_ok f" "distinct (map mb_name fs)"
    and len: "length (zip_image fs comment) < 2 ^ 32"
    and last: "\<forall>i. eocd_position fs < i \<longrightarrow> i + ENDHDR \<le> length (zip_image fs comment) \<longrightarrow> \<not> end_marker_at (zip_image fs comment) i"
    and mem: "\<forall>n. calloc_ok n"
    and f: "lookup_file w path = Some f" "f_data f = zip_image fs comment" "answers w = []"
  shows "\<exists>a es. mzOpenZipArchive calloc_ok path w = Some (0, a, w) \<and> z_pEntries a = Some es \<and> length es = length fs
    \<and> (\<forall>g \<in> set fs. \<exists>i < length es. mzFindZipEntry a (mb_name g) = Some (Some i) \<and> represents (zip_image fs comment) (es ! i) g)"
  using assms by (rule zip_image_found)

section \<open>Example\<close>

definition sample_member :: member where
  "sample_member = \<lparr>mb_name = ''a/b'', mb_data = [1, 2, 3], mb_how = STORED, mb_len = 3, mb_crc = 5, mb_time = 7, mb_attr = 9\<rparr>"

definition zip_world :: "buffer \<Rightarrow> unit world" where
  "zip_world d = \<lparr>files = [(''/u.zip'', \<lparr>f_data = d, f_mode = 0, f_uid = 0, f_gid = 0, f_reg = True\<rparr>)],
     procs = [], answers = [], mtd_partitions_scanned = False, flash = ()\<rparr>"

lemma sample_image:
  "member_ok sample_member" "length (zip_image [sample_member] []) = 107" "eocd_position [sample_member] = 85"
  by (simp_all add: sample_member_def member_ok_def validFilename_def PATH_MAX_def STORED_def zip_image_def eocd_position_def
      LOCHDR_def CENHDR_def ENDHDR_def)

theorem zip_image_opens_witness:
  "\<exists>a es. mzOpenZipArchive (\<lambda>_. True) ''/u.zip'' (zip_world (zip_image [sample_member] []))
      = Some (0, a, zip_world (zip_image [sample_member] [])) \<and> z_pEntries a = Some es \<and> length es = 1
    \<and> (\<exists>i < length es. mzFindZipEntry a ''a/b'' = Some (Some i) \<and> represents (zip_image [sample_member] []) (es ! i) sample_member)"
  using zip_image_opens [of "[sample_member]" "[]" "\<lambda>_. True" "zip_world (zip_image [sample_member] [])" "''/u.zip''"
      "\<lparr>f_data = zip_image [sample_member] [], f_mode = 0, f_uid = 0, f_gid = 0, f_reg = True\<rparr>"] sample_image
  by (simp add: zip_world_def lookup_file_def ENDHDR_def) (simp add: sample_member_def)

theorem mzFindZipEntry_spec_witness:
  "\<exists>a es. mzOpenZipArchive (\<lambda>_. True) ''/u.zip'' (zip_world (zip_image [sample_member] []))
      = Some (0, a, zip_world (zip_image [sample_member] [])) \<and> z_pEntries a = Some es
    \<and> (\<exists>r. mzFindZipEntry a ''c'' = Some r
         \<and> (case r of None \<Rightarrow> ''c'' \<notin> entry_name (zip_image [sample_member] []) ` set es
            | Some i \<Rightarrow> i < length es \<and> entry_name (zip_image [sample_member] []) (es ! i) = ''c''))"
proof -
  let ?m = "zip_image [sample_member] []" and ?f = "\<lparr>f_data = zip_image [sample_member] [], f_mode = 0, f_uid = 0, f_gid = 0, f_reg = True\<rparr>"
  have f: "lookup_file (zip_world ?m) ''/u.zip'' = Some ?f" "answers (zip_world ?m) = []" by (simp_all add: zip_world_def lookup_file_def)
  have "\<exists>a es. mzOpenZipArchive (\<lambda>_. True) ''/u.zip'' (zip_world ?m) = Some (0, a, zip_world ?m) \<and> z_pEntries a = Some es
      \<and> length es = length [sample_member] \<and> (\<forall>g \<in> set [sample_member]. \<exists>i < length es.
        mzFindZipEntry a (mb_name g) = Some (Some i) \<and> represents ?m (es ! i) g)"
    by (rule zip_image_found [where f = ?f]) (use sample_image f in \<open>simp_all add: ENDHDR_def\<close>)
  then obtain a where a: "mzOpenZipArchive (\<lambda>_. True) ''/u.zip'' (zip_world ?m) = Some (0, a, zip_world ?m)" by (elim exE conjE)
  from mzFindZipEntry_spec [OF a f(1), of "''c''"] obtain es r where "z_pEntries a = Some es" "mzFindZipEntry a ''c'' = Some r"
    "case r of None \<Rightarrow> ''c'' \<notin> entry_name ?m ` set es | Some i \<Rightarrow> i < length es \<and> entry_name ?m (es ! i) = ''c''"
    by (simp only: inode.simps) (elim exE conjE)
  with a show ?thesis by (intro exI conjI)
qed

end
