(* ===== verification/ZipExtract.thy ===== *)
theory ZipExtract
  imports ZipParse ImgPatch
begin

text \<open>
  Reading and extracting entries, from \<open>minzip/Zip.c\<close>. The archive is read through its descriptor
  from the contents of the file; the archive file is a regular file that is not changed while it is
  open, so seeking in it succeeds. The inflater of zlib and \<open>crc32\<close> are parameters. A process
  function is given a block, its cookie and the world; \<^term>\<open>None\<close> is undefined behaviour, or a loop
  that does not end.
\<close>

section \<open>Blocks\<close>

type_synonym ('k, 'f) process_function = "buffer \<Rightarrow> 'k \<Rightarrow> 'f world \<Rightarrow> (bool \<times> 'k \<times> 'f world) option"

definition BLOCK :: nat where "BLOCK = 32 * 1024"

function processStoredEntry ::
  "buffer \<Rightarrow> nat \<Rightarrow> nat \<Rightarrow> ('k, 'f) process_function \<Rightarrow> 'k \<Rightarrow> 'f world \<Rightarrow> (bool \<times> 'k \<times> 'f world) option" where
  "processStoredEntry dat pos bytesLeft pf cookie w =
     (if bytesLeft = 0 then Some (True, cookie, w)
      else
        let cnt = min bytesLeft BLOCK in
        case fread dat pos cnt w of (buf, w1) \<Rightarrow>
          if length buf \<noteq> cnt then Some (False, cookie, w1)
          else
            case pf buf cookie w1 of
              None \<Rightarrow> None
            | Some (ret, cookie1, w2) \<Rightarrow>
                if \<not> ret then Some (False, cookie1, w2)
                else processStoredEntry dat (pos + cnt) (bytesLeft - cnt) pf cookie1 w2)"
  by pat_completeness auto
termination
  by (relation "measure (\<lambda>(_, _, bytesLeft, _). bytesLeft)") (auto simp: BLOCK_def)

declare processStoredEntry.simps [simp del]

text \<open>
  The inflater: a state, and a call with the input that is there and the room for output, which
  returns the status, how much input was consumed, the output and the new state.
\<close>

record 'z inflater =
  zi_init :: "'z option"
  zi_inflate :: "'z \<Rightarrow> buffer \<Rightarrow> nat \<Rightarrow> int \<times> nat \<times> buffer \<times> 'z"

text \<open>
  The loop of \<open>processDeflatedEntry\<close>; its value is \<open>result\<close>: the number of bytes inflated, or
  \<open>-1\<close>. \<open>avail\<close> is the unread input in \<open>readBuf\<close> and \<open>procBuf\<close> the output that is not processed yet.
\<close>

partial_function (option) inflate_loop ::
  "'z inflater \<Rightarrow> buffer \<Rightarrow> ('k, 'f) process_function \<Rightarrow> nat \<Rightarrow> nat \<Rightarrow> 'z \<Rightarrow> buffer \<Rightarrow> buffer \<Rightarrow> nat \<Rightarrow> 'k \<Rightarrow> 'f world
     \<Rightarrow> (int \<times> 'k \<times> 'f world) option" where
  "inflate_loop zl dat pf pos compRemaining z avail procBuf total_out cookie w =
     (let getSize = (if avail = [] then min compRemaining BLOCK else 0) in
      case (if avail = [] then fread dat pos getSize w else (avail, w)) of (input, w1) \<Rightarrow>
        if avail = [] \<and> length input \<noteq> getSize then Some (-1, cookie, w1)
        else
          case zi_inflate zl z input (BLOCK - length procBuf) of (zerr, used, produced, z1) \<Rightarrow>
            if zerr \<noteq> Z_OK \<and> zerr \<noteq> Z_STREAM_END then Some (-1, cookie, w1)
            else
              let procBuf = procBuf @ produced; total_out = total_out + length produced in
              if length procBuf = BLOCK \<or> (zerr = Z_STREAM_END \<and> procBuf \<noteq> []) then
                (case pf procBuf cookie w1 of
                   None \<Rightarrow> None
                 | Some (ret, cookie1, w2) \<Rightarrow>
                     if \<not> ret then Some (-1, cookie1, w2)
                     else if zerr = Z_OK then
                       inflate_loop zl dat pf (pos + getSize) (compRemaining - getSize) z1 (drop used input) [] total_out cookie1 w2
                     else Some (int total_out, cookie1, w2))
              else if zerr = Z_OK then
                inflate_loop zl dat pf (pos + getSize) (compRemaining - getSize) z1 (drop used input) procBuf total_out cookie w1
              else Some (int total_out, cookie, w1))"

definition processDeflatedEntry ::
  "'z inflater \<Rightarrow> buffer \<Rightarrow> ZipEntry \<Rightarrow> ('k, 'f) process_function \<Rightarrow> 'k \<Rightarrow> 'f world \<Rightarrow> (bool \<times> 'k \<times> 'f world) option" where
  "processDeflatedEntry zl dat e pf cookie w =
     (case zi_init zl of
        None \<Rightarrow> Some (False, cookie, w)
      | Some z \<Rightarrow> do {
          (result, cookie1, w1) \<leftarrow> inflate_loop zl dat pf (entryOffset e) (compLen e) z [] [] 0 cookie w;
          Some (result = int (uncompLen e), cookie1, w1) })"

definition mzProcessZipEntryContents ::
  "'z inflater \<Rightarrow> ZipArchive \<Rightarrow> ZipEntry \<Rightarrow> ('k, 'f) process_function \<Rightarrow> 'k \<Rightarrow> 'f world \<Rightarrow> (bool \<times> 'k \<times> 'f world) option" where
  "mzProcessZipEntryContents zl a e pf cookie w =
     (case z_fd a of
        None \<Rightarrow> Some (False, cookie, w)
      | Some dat \<Rightarrow>
          if compression e = STORED then processStoredEntry dat (entryOffset e) (compLen e) pf cookie w
          else if compression e = DEFLATED then processDeflatedEntry zl dat e pf cookie w
          else Some (False, cookie, w))"

section \<open>Process functions\<close>

definition crcProcessFunction :: "(nat \<Rightarrow> buffer \<Rightarrow> nat) \<Rightarrow> (nat, 'f) process_function" where
  "crcProcessFunction crc32 dat crc w = Some (True, crc32 crc dat, w)"

definition mzIsZipEntryIntact ::
  "'z inflater \<Rightarrow> (nat \<Rightarrow> buffer \<Rightarrow> nat) \<Rightarrow> ZipArchive \<Rightarrow> ZipEntry \<Rightarrow> 'f world \<Rightarrow> (bool \<times> 'f world) option" where
  "mzIsZipEntryIntact zl crc32 a e w = do {
     (ret, crc, w1) \<leftarrow> mzProcessZipEntryContents zl a e (crcProcessFunction crc32) (crc32 0 []) w;
     Some (ret \<and> crc = entryCrc32 e, w1) }"

text \<open>A cookie of a copy: the buffer, where the copy is in it, and how much room is left.\<close>

record CopyProcessArgs =
  cp_mem :: buffer
  cp_buf :: nat
  cp_bufLen :: int

definition copyProcessFunction :: "(CopyProcessArgs, 'f) process_function" where
  "copyProcessFunction dat args w =
     (if int (length dat) \<le> cp_bufLen args then
        (if length (cp_mem args) < cp_buf args + length dat then None
         else Some (True, \<lparr>cp_mem = take (cp_buf args) (cp_mem args) @ dat @ drop (cp_buf args + length dat) (cp_mem args),
                           cp_buf = cp_buf args + length dat, cp_bufLen = cp_bufLen args - int (length dat)\<rparr>, w))
      else Some (False, args, w))"

definition mzReadZipEntry ::
  "'z inflater \<Rightarrow> ZipArchive \<Rightarrow> ZipEntry \<Rightarrow> buffer \<Rightarrow> nat \<Rightarrow> 'f world \<Rightarrow> (bool \<times> buffer \<times> 'f world) option" where
  "mzReadZipEntry zl a e buf bufLen w = do {
     (ret, args, w1) \<leftarrow> mzProcessZipEntryContents zl a e copyProcessFunction \<lparr>cp_mem = buf, cp_buf = 0, cp_bufLen = int bufLen\<rparr> w;
     Some (ret, cp_mem args, w1) }"

text \<open>
  Writing to a descriptor, which is the path of an open file here. After a call that wrote nothing
  \<open>errno\<close> decides whether to go on; every such interruption uses up an answer of the kernel.
\<close>

definition EINTR :: nat where "EINTR = 4"

lemma append_file_answers:
  "append_file path bs w = (n, w1) \<Longrightarrow> length (answers w1) \<le> length (answers w) \<and> n \<le> length bs
     \<and> (n = 0 \<longrightarrow> bs \<noteq> [] \<longrightarrow> lookup_file w path \<noteq> None \<longrightarrow> length (answers w1) < length (answers w))"
  by (auto simp: append_file_def sys_amount_def answer_def split: prod.splits option.splits list.splits if_splits)

function writeProcessFunction_loop :: "string \<Rightarrow> buffer \<Rightarrow> 'f world \<Rightarrow> bool \<times> 'f world" where
  "writeProcessFunction_loop fd rest w =
     (case append_file fd rest w of (n, w1) \<Rightarrow>
        if n = 0 then
          (case answers w1 of
             [] \<Rightarrow> (False, w1)
           | e # as \<Rightarrow>
               if e \<noteq> EINTR then (False, w1\<lparr>answers := as\<rparr>)
               else writeProcessFunction_loop fd rest (w1\<lparr>answers := as\<rparr>))
        else if n = length rest then (True, w1)
        else writeProcessFunction_loop fd (drop n rest) w1)"
  by pat_completeness auto
termination
  by (relation "measure (\<lambda>(_, rest, w). length rest + length (answers w))") (auto dest!: append_file_answers [OF sym])

declare writeProcessFunction_loop.simps [simp del]

definition writeProcessFunction :: "(string, 'f) process_function" where
  "writeProcessFunction dat fd w = (case writeProcessFunction_loop fd dat w of (ret, w1) \<Rightarrow> Some (ret, fd, w1))"

definition mzExtractZipEntryToFile ::
  "'z inflater \<Rightarrow> ZipArchive \<Rightarrow> ZipEntry \<Rightarrow> string \<Rightarrow> 'f world \<Rightarrow> (bool \<times> 'f world) option" where
  "mzExtractZipEntryToFile zl a e fd w = do {
     (ret, _, w1) \<leftarrow> mzProcessZipEntryContents zl a e writeProcessFunction fd w;
     Some (ret, w1) }"

record BufferExtractCookie =
  be_mem :: buffer
  be_buffer :: nat
  be_len :: int

definition bufferProcessFunction :: "(BufferExtractCookie, 'f) process_function" where
  "bufferProcessFunction dat bec w =
     (if length (be_mem bec) < be_buffer bec + length dat then None
      else Some (True, \<lparr>be_mem = take (be_buffer bec) (be_mem bec) @ dat @ drop (be_buffer bec + length dat) (be_mem bec),
                        be_buffer = be_buffer bec + length dat, be_len = be_len bec - int (length dat)\<rparr>, w))"

definition mzExtractZipEntryToBuffer ::
  "'z inflater \<Rightarrow> ZipArchive \<Rightarrow> ZipEntry \<Rightarrow> buffer \<Rightarrow> 'f world \<Rightarrow> (bool \<times> buffer \<times> 'f world) option" where
  "mzExtractZipEntryToBuffer zl a e buffer w = do {
     (ret, bec, w1) \<leftarrow> mzProcessZipEntryContents zl a e bufferProcessFunction
        \<lparr>be_mem = buffer, be_buffer = 0, be_len = int (mzGetZipEntryUncompLen e)\<rparr> w;
     Some (ret \<and> be_len bec = 0, be_mem bec, w1) }"

section \<open>What a process function sees\<close>

text \<open>
  The contract of the streaming: \<open>absorb\<close> is what a successful call does to what \<open>acc\<close> observes of
  the cookie and the world; \<open>safe\<close> is an invariant of the cookie. The lemmas say that the contents of an entry arrive in blocks, in order.
\<close>

locale consumer =
  fixes pf :: "('k, 'f) process_function"
    and acc :: "'k \<Rightarrow> 'f world \<Rightarrow> 'a"
    and absorb :: "'a \<Rightarrow> buffer \<Rightarrow> 'a"
    and safe :: "'k \<Rightarrow> 'f world \<Rightarrow> bool"
  assumes pf_law: "pf b k w = Some (True, k', w') \<Longrightarrow> acc k' w' = absorb (acc k w) b"
    and acc_frame: "files w' = files w \<Longrightarrow> acc k w' = acc k w"
    and safe_pf: "safe k w \<Longrightarrow> pf b k w = Some (ret, k', w') \<Longrightarrow> safe k' w'"
    and safe_frame: "files w' = files w \<Longrightarrow> safe k w \<Longrightarrow> safe k w'"
begin

text \<open>A process function that succeeds as long as no system call fails: \<open>good k w bs\<close> says that the bytes \<open>bs\<close> may follow.\<close>

definition steady :: "('k \<Rightarrow> 'f world \<Rightarrow> buffer \<Rightarrow> bool) \<Rightarrow> bool" where
  "steady good \<longleftrightarrow> (\<forall>b bs k w. good k w (b @ bs) \<longrightarrow> answers w = [] \<longrightarrow> b \<noteq> [] \<longrightarrow>
     (\<exists>k' w'. pf b k w = Some (True, k', w') \<and> good k' w' bs \<and> answers w' = []))"

definition received :: "'k \<Rightarrow> 'f world \<Rightarrow> buffer \<Rightarrow> 'k \<Rightarrow> 'f world \<Rightarrow> bool" where
  "received k w bs k' w' \<longleftrightarrow> (\<exists>bss. concat bss = bs \<and> acc k' w' = foldl absorb (acc k w) bss)"

lemma received_nil: "files w' = files w \<Longrightarrow> received k w [] k w'"
  unfolding received_def by (auto intro!: exI [of _ "[]"] acc_frame)

lemma received_cons:
  assumes "files w1 = files w" "pf b k w1 = Some (True, k1, w2)" "received k1 w2 bs k' w'"
  shows "received k w (b @ bs) k' w'"
proof -
  from assms(3) obtain bss where "concat bss = bs" "acc k' w' = foldl absorb (acc k1 w2) bss" by (auto simp: received_def)
  moreover have "acc k1 w2 = absorb (acc k w) b" using pf_law [OF assms(2)] acc_frame [OF assms(1)] by simp
  ultimately show ?thesis unfolding received_def by (intro exI [of _ "b # bss"]) simp
qed

definition outcome :: "('k \<Rightarrow> 'f world \<Rightarrow> buffer \<Rightarrow> bool) \<Rightarrow> 'k \<Rightarrow> 'f world \<Rightarrow> buffer \<Rightarrow> (bool \<times> 'k \<times> 'f world) option \<Rightarrow> bool" where
  "outcome good k w bs r \<longleftrightarrow>
     (case r of None \<Rightarrow> \<exists>b k w. safe k w \<and> pf b k w = None
      | Some (ret, k', w') \<Rightarrow> (ret \<longrightarrow> received k w bs k' w')
          \<and> (steady good \<longrightarrow> good k w bs \<longrightarrow> answers w = [] \<longrightarrow> ret \<and> good k' w' [] \<and> answers w' = []))"

lemma outcome_total:
  assumes "outcome good k w bs r" "\<And>b k w. safe k w \<Longrightarrow> pf b k w \<noteq> None"
  shows "\<exists>ret k' w'. r = Some (ret, k', w') \<and> (ret \<longrightarrow> received k w bs k' w')
    \<and> (steady good \<longrightarrow> good k w bs \<longrightarrow> answers w = [] \<longrightarrow> ret \<and> good k' w' [] \<and> answers w' = [])"
proof (cases r)
  case None
  then have "\<exists>b k w. safe k w \<and> pf b k w = None" using assms(1) by (simp add: outcome_def)
  with assms(2) show ?thesis by blast
qed (use assms in \<open>auto simp: outcome_def\<close>)

lemma stored_outcome:
  assumes "pos + n \<le> length dat" "safe k w"
  shows "outcome good k w (take n (drop pos dat)) (processStoredEntry dat pos n pf k w)"
  using assms
proof (induction n arbitrary: pos k w rule: less_induct)
  case (less n)
  show ?case
  proof (cases "n = 0")
    case True
    then show ?thesis by (subst processStoredEntry.simps) (simp add: outcome_def received_nil)
  next
    case False
    define c where "c = min n BLOCK"
    have c: "0 < c" "c \<le> n" using False by (auto simp: c_def BLOCK_def)
    obtain buf w1 where b: "fread dat pos c w = (buf, w1)" by (metis surj_pair)
    then have w1: "files w1 = files w" by (auto simp: fread_def dest!: sys_amount_files split: prod.splits)
    have ans: "answers w = [] \<Longrightarrow> buf = take c (drop pos dat) \<and> w1 = w" using b by (simp add: fread_plain)
    have split: "take n (drop pos dat) = take c (drop pos dat) @ take (n - c) (drop (pos + c) dat)"
      using c take_add [of c "n - c" "drop pos dat"] by (simp add: add.commute)
    note step = processStoredEntry.simps [of dat pos n pf k w, folded c_def]
    show ?thesis
    proof (cases "length buf = c")
      case F: False
      then have "answers w \<noteq> []" using ans less.prems(1) c by auto
      with F False b show ?thesis by (subst step) (simp add: outcome_def c_def [symmetric] Let_def)
    next
      case T: True
      then have buf: "buf = take c (drop pos dat)" "buf \<noteq> []" using fread_full [OF b T c(1)] c(1) by auto
      have eq: "processStoredEntry dat pos n pf k w = (case pf buf k w1 of None \<Rightarrow> None
          | Some (ret, k1, w2) \<Rightarrow> if \<not> ret then Some (False, k1, w2) else processStoredEntry dat (pos + c) (n - c) pf k1 w2)"
        using False b T by (subst step) (simp add: c_def [symmetric] Let_def)
      show ?thesis
      proof (cases "pf buf k w1")
        case None
        then show ?thesis using safe_frame [OF w1 less.prems(2)] by (auto simp: eq outcome_def)
      next
        case (Some q)
        obtain ret k1 w2 where q: "q = (ret, k1, w2)" by (metis prod_cases3)
        have ok: "ret \<and> good k1 w2 (take (n - c) (drop (pos + c) dat)) \<and> answers w2 = []"
          if "steady good" "good k w (take n (drop pos dat))" "answers w = []"
        proof -
          have "\<exists>k' w'. pf buf k w1 = Some (True, k', w') \<and> good k' w' (take (n - c) (drop (pos + c) dat)) \<and> answers w' = []"
            using that ans buf(2) unfolding steady_def split by simp
          with Some q show ?thesis by simp
        qed
        show ?thesis
        proof (cases ret)
          case False
          with Some q ok show ?thesis by (auto simp: eq outcome_def)
        next
          case True
          have IH: "outcome good k1 w2 (take (n - c) (drop (pos + c) dat)) (processStoredEntry dat (pos + c) (n - c) pf k1 w2)"
            using less.IH [of "n - c" "pos + c"] c less.prems(1) safe_pf [OF safe_frame [OF w1 less.prems(2)]] Some q by simp
          have e: "processStoredEntry dat pos n pf k w = processStoredEntry dat (pos + c) (n - c) pf k1 w2"
            using Some q True by (simp add: eq)
          show ?thesis
            unfolding e split
            using IH ok [unfolded split] received_cons [OF w1, of buf k k1 w2] Some q True buf(1)
            by (auto simp: outcome_def split: option.splits)
        qed
      qed
    qed
  qed
qed

end

text \<open>
  What zlib documents of \<open>inflate\<close>. \<open>stream z inp outp\<close> says that in state \<open>z\<close> the input that is still
  to come is \<open>inp\<close> and decodes to \<open>outp\<close>. Given a part of the input, and room for output, a call
  consumes some of it and produces the next bytes; it reports the end when all is produced, and
  otherwise makes progress.
\<close>

definition inflates :: "'z inflater \<Rightarrow> ('z \<Rightarrow> buffer \<Rightarrow> buffer \<Rightarrow> bool) \<Rightarrow> bool" where
  "inflates zl stream \<longleftrightarrow>
     (\<forall>z inp outp k n zerr used produced z1. stream z inp outp \<longrightarrow> 0 < n \<longrightarrow> 0 < k \<or> inp = []
        \<longrightarrow> zi_inflate zl z (take k inp) n = (zerr, used, produced, z1)
        \<longrightarrow> used \<le> length (take k inp) \<and> length produced \<le> n
          \<and> (zerr = Z_STREAM_END \<and> produced = outp
             \<or> zerr = Z_OK \<and> (\<exists>rest. outp = produced @ rest \<and> stream z1 (drop used inp) rest)
               \<and> (0 < used \<or> produced \<noteq> [])))"

text \<open>The contents of an entry of the archive file \<open>dat\<close>.\<close>

definition entry_content ::
  "'z inflater \<Rightarrow> ('z \<Rightarrow> buffer \<Rightarrow> buffer \<Rightarrow> bool) \<Rightarrow> buffer \<Rightarrow> ZipEntry \<Rightarrow> buffer \<Rightarrow> bool" where
  "entry_content zl stream dat e plain \<longleftrightarrow> entryOffset e + compLen e \<le> length dat
     \<and> (compression e = STORED \<and> plain = take (compLen e) (drop (entryOffset e) dat)
        \<or> compression e = DEFLATED \<and> length plain = uncompLen e
          \<and> (\<exists>z. zi_init zl = Some z \<and> stream z (take (compLen e) (drop (entryOffset e) dat)) plain))"

context consumer
begin

definition inflate_outcome :: "('k \<Rightarrow> 'f world \<Rightarrow> buffer \<Rightarrow> bool) \<Rightarrow> 'k \<Rightarrow> 'f world \<Rightarrow> buffer \<Rightarrow> nat \<Rightarrow> (int \<times> 'k \<times> 'f world) option \<Rightarrow> bool" where
  "inflate_outcome good k w bs len r \<longleftrightarrow>
     (case r of None \<Rightarrow> \<exists>b k w. safe k w \<and> pf b k w = None
      | Some (res, k', w') \<Rightarrow> (0 \<le> res \<longrightarrow> res = int len \<and> received k w bs k' w')
          \<and> (steady good \<longrightarrow> good k w bs \<longrightarrow> answers w = [] \<longrightarrow> 0 \<le> res \<and> good k' w' [] \<and> answers w' = []))"

lemma outcome_shift:
  assumes "files w1 = files w" "answers w = [] \<longrightarrow> w1 = w" "inflate_outcome good k w1 bs len r"
  shows "inflate_outcome good k w bs len r"
proof -
  have "received k w bs k' w'" if "received k w1 bs k' w'" for k' w'
    using that acc_frame [OF assms(1)] by (simp add: received_def)
  with assms(2,3) show ?thesis by (auto simp: inflate_outcome_def split: option.splits)
qed

lemma outcome_flush:
  assumes "pf b k w = Some (ret, k1, w1)" "b \<noteq> []"
    and "\<not> ret \<Longrightarrow> r = Some (-1, k1, w1)" "ret \<Longrightarrow> inflate_outcome good k1 w1 bs len r"
  shows "inflate_outcome good k w (b @ bs) len r"
proof -
  have ok: "ret \<and> good k1 w1 bs \<and> answers w1 = []" if "steady good" "good k w (b @ bs)" "answers w = []"
  proof -
    have "\<exists>k' w'. pf b k w = Some (True, k', w') \<and> good k' w' bs \<and> answers w' = []" using that assms(2) by (simp add: steady_def)
    with assms(1) show ?thesis by simp
  qed
  show ?thesis
  proof (cases ret)
    case False
    with assms(3) ok show ?thesis by (auto simp: inflate_outcome_def)
  next
    case True
    then have "pf b k w = Some (True, k1, w1)" using assms(1) by simp
    from received_cons [OF refl this, of bs] assms(4) [OF True] ok show ?thesis
      by (auto simp: inflate_outcome_def split: option.splits)
  qed
qed

lemma outcome_end: "inflate_outcome good k w [] len (Some (int len, k, w))"
  by (simp add: inflate_outcome_def received_nil)

lemma next_input:
  assumes "pos + n \<le> length dat" "(input, w1) = (if avail = [] then fread dat pos g w else (avail, w))"
    and "g = (if avail = [] then min n BLOCK else 0)"
  shows "files w1 = files w" "answers w = [] \<longrightarrow> w1 = w"
    and "avail = [] \<and> length input \<noteq> g \<longrightarrow> answers w \<noteq> []"
    and "\<not> (avail = [] \<and> length input \<noteq> g) \<Longrightarrow> avail @ take n (drop pos dat) = input @ take (n - g) (drop (pos + g) dat)
      \<and> (input = [] \<longrightarrow> n = 0)"
proof -
  show "files w1 = files w" using assms(2) by (auto simp: fread_def dest!: sys_amount_files split: prod.splits if_splits)
  have plain: "avail = [] \<and> answers w = [] \<Longrightarrow> input = take g (drop pos dat) \<and> w1 = w"
    using assms(2) by (simp add: fread_plain)
  then show "answers w = [] \<longrightarrow> w1 = w" using assms(2) by (cases "avail = []") auto
  show "avail = [] \<and> length input \<noteq> g \<longrightarrow> answers w \<noteq> []" using plain assms(1,3) by auto
  assume a: "\<not> (avail = [] \<and> length input \<noteq> g)"
  have split: "take n (drop pos dat) = take g (drop pos dat) @ take (n - g) (drop (pos + g) dat)"
    using assms(3) take_add [of g "n - g" "drop pos dat"] by (simp add: add.commute)
  show "avail @ take n (drop pos dat) = input @ take (n - g) (drop (pos + g) dat) \<and> (input = [] \<longrightarrow> n = 0)"
  proof (cases "avail = []")
    case True
    then have l: "length input = g" using a by simp
    have "input = take g (drop pos dat)"
    proof (cases "g = 0")
      case False
      have "fread dat pos g w = (input, w1)" using assms(2) True by simp
      from fread_full [OF this l] False show ?thesis by simp
    qed (use l in simp)
    moreover have "input = [] \<longrightarrow> n = 0" using l assms(3) True by (auto simp: BLOCK_def)
    ultimately show ?thesis using split True by simp
  qed (use assms in simp)
qed

lemma inflate_loop_outcome:
  assumes inf: "inflates zl stream"
    and "stream z (avail @ take n (drop pos dat)) outp" "length procBuf < BLOCK" "pos + n \<le> length dat" "safe k w"
  shows "inflate_outcome good k w (procBuf @ outp) (tot + length outp) (inflate_loop zl dat pf pos n z avail procBuf tot k w)"
  using assms(2-)
proof (induction "length (avail @ take n (drop pos dat)) + length outp" arbitrary: z avail n pos outp procBuf tot k w rule: less_induct)
  case less
  let ?inp = "avail @ take n (drop pos dat)"
  define g where "g = (if avail = [] then min n BLOCK else 0)"
  obtain input w1 where i: "(input, w1) = (if avail = [] then fread dat pos g w else (avail, w))" by (metis surj_pair)
  note ni = next_input [OF less.prems(3) i g_def]
  note safe1 = safe_frame [OF ni(1) less.prems(4)]
  obtain zerr used produced z1 where z: "zi_inflate zl z input (BLOCK - length procBuf) = (zerr, used, produced, z1)"
    by (metis prod_cases4)
  note step = inflate_loop.simps [of zl dat pf pos n z avail procBuf tot k w, folded g_def, unfolded Let_def, folded g_def i]
  show ?case
  proof (cases "avail = [] \<and> length input \<noteq> g")
    case True
    then have "inflate_loop zl dat pf pos n z avail procBuf tot k w = Some (-1, k, w1)" by (subst step) simp
    with ni(3) True show ?thesis by (simp add: inflate_outcome_def)
  next
    case False
    note inp = ni(4) [OF False]
    have "zi_inflate zl z (take (length input) ?inp) (BLOCK - length procBuf) = (zerr, used, produced, z1)" using inp z by simp
    moreover have "0 < length input \<or> ?inp = []" "0 < BLOCK - length procBuf" using inp less.prems(2) by auto
    ultimately have "used \<le> length (take (length input) ?inp) \<and> length produced \<le> BLOCK - length procBuf
      \<and> (zerr = Z_STREAM_END \<and> produced = outp
         \<or> zerr = Z_OK \<and> (\<exists>rest. outp = produced @ rest \<and> stream z1 (drop used ?inp) rest) \<and> (0 < used \<or> produced \<noteq> []))"
      using inf [unfolded inflates_def, rule_format, OF less.prems(1)] by blast
    then have laws: "used \<le> length input" "length produced \<le> BLOCK - length procBuf"
      "zerr = Z_STREAM_END \<and> produced = outp
         \<or> zerr = Z_OK \<and> (\<exists>rest. outp = produced @ rest \<and> stream z1 (drop used ?inp) rest) \<and> (0 < used \<or> produced \<noteq> [])"
      using inp by (simp, blast, blast)
    define pb where "pb = procBuf @ produced"
    define t where "t = tot + length produced"
    have zc: "\<not> (zerr \<noteq> Z_OK \<and> zerr \<noteq> Z_STREAM_END)" using laws(3) by blast
    let ?go = "\<lambda>p k w. inflate_loop zl dat pf (pos + g) (n - g) z1 (drop used input) p t k w"
    have eq: "inflate_loop zl dat pf pos n z avail procBuf tot k w =
        (if length pb = BLOCK \<or> (zerr = Z_STREAM_END \<and> pb \<noteq> []) then
           (case pf pb k w1 of None \<Rightarrow> None
            | Some (ret, k1, w2) \<Rightarrow> if \<not> ret then Some (-1, k1, w2) else if zerr = Z_OK then ?go [] k1 w2 else Some (int t, k1, w2))
         else if zerr = Z_OK then ?go pb k w1 else Some (int t, k, w1))"
      unfolding pb_def t_def by (subst step) (simp only: prod.case z if_not_P [OF False] if_not_P [OF zc])
    have pbl: "length pb \<le> BLOCK" "BLOCK \<noteq> 0" using laws(2) less.prems(2) by (auto simp: pb_def BLOCK_def)
    from laws(3) show ?thesis
    proof
      assume e: "zerr = Z_STREAM_END \<and> produced = outp"
      then have nz: "zerr \<noteq> Z_OK" by (simp add: Z_OK_def Z_STREAM_END_def)
      have "inflate_outcome good k w1 (procBuf @ outp) t (inflate_loop zl dat pf pos n z avail procBuf tot k w)"
      proof (cases "pb = []")
        case True
        then show ?thesis unfolding eq using e nz pbl outcome_end [of good k w1 t] by (simp add: pb_def)
      next
        case F: False
        show ?thesis
        proof (cases "pf pb k w1")
          case None
          then show ?thesis using e F safe1 by (auto simp: eq inflate_outcome_def)
        next
          case (Some q)
          obtain ret k1 w2 where q: "q = (ret, k1, w2)" by (metis prod_cases3)
          have "inflate_outcome good k w1 (pb @ []) t (inflate_loop zl dat pf pos n z avail procBuf tot k w)"
            by (rule outcome_flush [OF Some [unfolded q] F]) (use Some q F e nz outcome_end in \<open>simp_all add: eq\<close>)
          then show ?thesis using e by (simp add: pb_def)
        qed
      qed
      from outcome_shift [OF ni(1,2) this] e show ?thesis by (simp add: t_def)
    next
      assume e: "zerr = Z_OK \<and> (\<exists>rest. outp = produced @ rest \<and> stream z1 (drop used ?inp) rest) \<and> (0 < used \<or> produced \<noteq> [])"
      then obtain rest where r: "outp = produced @ rest" "stream z1 (drop used ?inp) rest" and prog: "0 < used \<or> produced \<noteq> []" by blast
      have d: "drop used ?inp = drop used input @ take (n - g) (drop (pos + g) dat)" using inp laws(1) by simp
      have len: "length (drop used input @ take (n - g) (drop (pos + g) dat)) + length rest < length ?inp + length outp"
        using prog r(1) laws(1) inp unfolding d [symmetric] by (cases produced) (auto simp del: drop_append)
      have gn: "pos + g + (n - g) \<le> length dat" using less.prems(3) by (simp add: g_def)
      have nz: "zerr \<noteq> Z_STREAM_END" using e by (simp add: Z_OK_def Z_STREAM_END_def)
      have IH: "inflate_outcome good k' w' (p @ rest) (t + length rest) (?go p k' w')" if "length p < BLOCK" "safe k' w'" for p k' w'
        using less.hyps [OF len r(2) [unfolded d] that(1) gn that(2)] .
      have "inflate_outcome good k w1 (pb @ rest) (t + length rest) (inflate_loop zl dat pf pos n z avail procBuf tot k w)"
      proof (cases "length pb = BLOCK")
        case False
        then show ?thesis using IH [of pb] pbl e nz safe1 by (simp add: eq)
      next
        case T: True
        show ?thesis
        proof (cases "pf pb k w1")
          case None
          then show ?thesis using T safe1 by (auto simp: eq inflate_outcome_def)
        next
          case (Some q)
          obtain ret k1 w2 where q: "q = (ret, k1, w2)" by (metis prod_cases3)
          have "pb \<noteq> []" using T pbl by auto
          then show ?thesis
            by (rule outcome_flush [OF Some [unfolded q]]) (use Some q T e IH [of "[]"] pbl safe_pf [OF safe1 Some [unfolded q]] in \<open>simp_all add: eq\<close>)
        qed
      qed
      from outcome_shift [OF ni(1,2) this] r(1) show ?thesis by (simp add: pb_def t_def add.assoc)
    qed
  qed
qed

lemma process_outcome:
  assumes inf: "inflates zl stream" and a: "z_fd a = Some dat" and e: "entry_content zl stream dat e plain" and safe: "safe k w"
  shows "outcome good k w plain (mzProcessZipEntryContents zl a e pf k w)"
proof (cases "compression e = STORED")
  case True
  with e a show ?thesis
    using stored_outcome [of "entryOffset e" "compLen e" dat k w good] safe
    by (simp add: mzProcessZipEntryContents_def entry_content_def STORED_def DEFLATED_def)
next
  case False
  with e obtain z where z: "compression e = DEFLATED" "zi_init zl = Some z" "length plain = uncompLen e"
    "stream z ([] @ take (compLen e) (drop (entryOffset e) dat)) plain" "entryOffset e + compLen e \<le> length dat"
    by (auto simp: entry_content_def)
  have "inflate_outcome good k w ([] @ plain) (0 + length plain) (inflate_loop zl dat pf (entryOffset e) (compLen e) z [] [] 0 k w)"
    by (rule inflate_loop_outcome [OF inf z(4) _ z(5) safe]) (simp add: BLOCK_def)
  with z False a show ?thesis
    by (auto simp: mzProcessZipEntryContents_def processDeflatedEntry_def outcome_def inflate_outcome_def
        split: option.splits bind_splits)
qed

end

text \<open>What a process function keeps, whether it succeeds or not.\<close>

locale process_frame =
  fixes pf :: "('k, 'f) process_function"
    and keep :: "'k \<Rightarrow> 'f world \<Rightarrow> bool"
  assumes pf_keeps: "pf b k w = Some (ret, k', w') \<Longrightarrow> keep k w \<Longrightarrow> keep k' w'"
    and files_keep: "files w' = files w \<Longrightarrow> keep k w \<Longrightarrow> keep k w'"
begin

lemma fread_keeps: "fread dat pos n w = (buf, w1) \<Longrightarrow> keep k w \<Longrightarrow> keep k w1"
  by (auto simp: fread_def dest!: sys_amount_files split: prod.splits intro: files_keep)

lemma stored_keeps:
  "processStoredEntry dat pos n pf k w = Some (ret, k', w') \<Longrightarrow> keep k w \<Longrightarrow> keep k' w'"
proof (induction n arbitrary: pos k w rule: less_induct)
  case (less n)
  show ?case
  proof (cases "n = 0")
    case True
    with less.prems show ?thesis by (subst (asm) processStoredEntry.simps) simp
  next
    case False
    then have n: "n - min n BLOCK < n" by (simp add: BLOCK_def)
    obtain buf w1 where b: "fread dat pos (min n BLOCK) w = (buf, w1)" by (metis surj_pair)
    note k1 = fread_keeps [OF b less.prems(2)]
    from less.prems(1) False b k1 show ?thesis
      by (subst (asm) processStoredEntry.simps)
        (auto simp: Let_def split: if_splits option.splits, (metis pf_keeps less.IH [OF n])+)
  qed
qed

lemma inflate_keeps:
  assumes run: "inflate_loop zl dat pf pos n z avail procBuf tot k w = Some (res, k', w')" and "keep k w"
  shows "keep k' w'"
proof -
  have "keep k w \<longrightarrow> keep (fst (snd (res, k', w'))) (snd (snd (res, k', w')))"
  proof (rule inflate_loop.raw_induct [OF _ run,
        where P = "\<lambda>zl dat pf' pos n z avail procBuf tot k w r. pf' = pf \<longrightarrow> keep k w \<longrightarrow> keep (fst (snd r)) (snd (snd r))", THEN mp, OF _ refl])
    fix go :: "'z inflater \<Rightarrow> buffer \<Rightarrow> ('k, 'f) process_function \<Rightarrow> nat \<Rightarrow> nat \<Rightarrow> 'z \<Rightarrow> buffer \<Rightarrow> buffer \<Rightarrow> nat \<Rightarrow> 'k \<Rightarrow> 'f world
      \<Rightarrow> (int \<times> 'k \<times> 'f world) option"
    fix zl :: "'z inflater" and dat pf' pos n z avail procBuf tot k w r
    assume IH: "\<And>zl dat pf' pos n z avail procBuf tot k w r. go zl dat pf' pos n z avail procBuf tot k w = Some r
      \<Longrightarrow> pf' = pf \<longrightarrow> keep k w \<longrightarrow> keep (fst (snd r)) (snd (snd r))"
    assume body: "(let getSize = (if avail = [] then min n BLOCK else 0) in
      case (if avail = [] then fread dat pos getSize w else (avail, w)) of (input, w1) \<Rightarrow>
        if avail = [] \<and> length input \<noteq> getSize then Some (-1, k, w1)
        else
          case zi_inflate zl z input (BLOCK - length procBuf) of (zerr, used, produced, z1) \<Rightarrow>
            if zerr \<noteq> Z_OK \<and> zerr \<noteq> Z_STREAM_END then Some (-1, k, w1)
            else
              let procBuf = procBuf @ produced; tot = tot + length produced in
              if length procBuf = BLOCK \<or> (zerr = Z_STREAM_END \<and> procBuf \<noteq> []) then
                (case pf' procBuf k w1 of
                   None \<Rightarrow> None
                 | Some (ret, k1, w2) \<Rightarrow>
                     if \<not> ret then Some (-1, k1, w2)
                     else if zerr = Z_OK then
                       go zl dat pf' (pos + getSize) (n - getSize) z1 (drop used input) [] tot k1 w2
                     else Some (int tot, k1, w2))
              else if zerr = Z_OK then
                go zl dat pf' (pos + getSize) (n - getSize) z1 (drop used input) procBuf tot k w1
              else Some (int tot, k, w1)) = Some r"
    obtain input w1 where i: "(if avail = [] then fread dat pos (if avail = [] then min n BLOCK else 0) w else (avail, w)) = (input, w1)"
      by (metis surj_pair)
    obtain zerr used produced z1 where z: "zi_inflate zl z input (BLOCK - length procBuf) = (zerr, used, produced, z1)"
      by (metis prod_cases4)
    show "pf' = pf \<longrightarrow> keep k w \<longrightarrow> keep (fst (snd r)) (snd (snd r))"
    proof (intro impI)
      assume p: "pf' = pf" and k: "keep k w"
      have k1: "keep k w1" using i k by (auto split: if_splits dest: fread_keeps)
      note go = IH [THEN mp, THEN mp, OF _ refl]
      have pk: "keep k1 w2" if "pf (procBuf @ produced) k w1 = Some (ret, k1, w2)" for ret k1 w2
        using pf_keeps that k1 by blast
      from body k1 show "keep (fst (snd r)) (snd (snd r))"
        unfolding Let_def i p
        by (cases "pf (procBuf @ produced) k w1") (auto simp: z split: if_splits dest!: pk go)
    qed
  qed
  then show ?thesis using assms(2) by simp
qed

lemma process_keeps:
  "mzProcessZipEntryContents zl a e pf k w = Some (ret, k', w') \<Longrightarrow> keep k w \<Longrightarrow> keep k' w'"
  by (auto simp: mzProcessZipEntryContents_def processDeflatedEntry_def
      split: option.splits if_splits bind_splits dest: stored_keeps inflate_keeps)

end

section \<open>The process functions of the source\<close>

interpretation crc: consumer "crcProcessFunction crc32" "\<lambda>k w. k" crc32 "\<lambda>_ _. True" for crc32 :: "nat \<Rightarrow> buffer \<Rightarrow> nat"
  by unfold_locales (simp_all add: crcProcessFunction_def)

lemma copied_prefix: "n + length b \<le> length m \<Longrightarrow> take (n + length b) (take n m @ b @ c) = take n m @ b"
  by simp

definition copy_inv :: "nat \<Rightarrow> nat \<Rightarrow> buffer \<Rightarrow> CopyProcessArgs \<Rightarrow> bool" where
  "copy_inv n len rest args \<longleftrightarrow> length (cp_mem args) = n \<and> len \<le> n \<and> 0 \<le> cp_bufLen args
     \<and> int (cp_buf args) + cp_bufLen args = int len \<and> drop len (cp_mem args) = rest"

lemma copy_inv_step: "copy_inv n len rest args \<Longrightarrow> copyProcessFunction b args w = Some (ret, args', w') \<Longrightarrow> copy_inv n len rest args'"
  by (auto simp: copyProcessFunction_def copy_inv_def split: if_splits)

interpretation copy: consumer copyProcessFunction "\<lambda>args w. take (cp_buf args) (cp_mem args)" "(@)" "\<lambda>args w. copy_inv n len rest args"
  for n len rest
  by unfold_locales (auto simp: copyProcessFunction_def copied_prefix split: if_splits intro: copy_inv_step)

interpretation copy_frame: process_frame copyProcessFunction "\<lambda>args w. copy_inv n len rest args" for n len rest
  by unfold_locales (auto intro: copy_inv_step)

interpretation buf: consumer bufferProcessFunction "\<lambda>bec w. take (be_buffer bec) (be_mem bec)" "(@)" "\<lambda>_ _. True"
  by unfold_locales (auto simp: bufferProcessFunction_def copied_prefix split: if_splits)

definition appended :: "inode option \<Rightarrow> buffer \<Rightarrow> inode option" where
  "appended x b = map_option (\<lambda>f. f\<lparr>f_data := f_data f @ b\<rparr>) x"

lemma appended_appended [simp]: "appended (appended x a) b = appended x (a @ b)"
  by (cases x) (simp_all add: appended_def)

lemma append_file_appended:
  assumes "append_file path bs w = (n, w1)"
  shows "lookup_file w1 path = appended (lookup_file w path) (take n bs)"
    and "q \<noteq> path \<Longrightarrow> lookup_file w1 q = lookup_file w q" and "n \<le> length bs"
    and "answers w = [] \<Longrightarrow> lookup_file w path \<noteq> None \<Longrightarrow> n = length bs \<and> answers w1 = []"
proof -
  obtain m w0 where m: "sys_amount (length bs) w = (m, w0)" by (metis surj_pair)
  have l: "lookup_file w0 = lookup_file w" "m \<le> length bs"
    using sys_amount_files [OF m] m by (auto simp: lookup_file_def fun_eq_iff sys_amount_def split: prod.splits if_splits)
  from assms m l show "lookup_file w1 path = appended (lookup_file w path) (take n bs)"
    "q \<noteq> path \<Longrightarrow> lookup_file w1 q = lookup_file w q" "n \<le> length bs"
    by (auto simp: append_file_def appended_def split: option.splits)
  assume "answers w = []" "lookup_file w path \<noteq> None"
  then show "n = length bs \<and> answers w1 = []"
    using assms m l by (auto simp: append_file_def sys_amount_def answer_def)
qed

lemma write_loop_spec:
  assumes "writeProcessFunction_loop fd rest w = (ret, w')"
  shows "(ret \<longrightarrow> lookup_file w' fd = appended (lookup_file w fd) rest) \<and> (\<forall>q. q \<noteq> fd \<longrightarrow> lookup_file w' q = lookup_file w q)
    \<and> (answers w = [] \<longrightarrow> lookup_file w fd \<noteq> None \<longrightarrow> rest \<noteq> [] \<longrightarrow> ret \<and> answers w' = [])"
  using assms
proof (induction fd rest w rule: writeProcessFunction_loop.induct)
  case (1 fd rest w)
  obtain n w1 where a: "append_file fd rest w = (n, w1)" by (metis surj_pair)
  note ap = append_file_appended [OF a]
  show ?case
  proof (cases "n = 0")
    case True
    then have same: "lookup_file w1 fd = lookup_file w fd" using ap(1) by (cases "lookup_file w fd") (simp_all add: appended_def)
    have noans: "answers w = [] \<longrightarrow> lookup_file w fd \<noteq> None \<longrightarrow> rest = []" using ap(4) True by auto
    show ?thesis
    proof (cases "answers w1")
      case Nil
      with True a noans ap(2) "1.prems" show ?thesis by (subst (asm) writeProcessFunction_loop.simps) auto
    next
      case (Cons e as)
      show ?thesis
      proof (cases "e = EINTR")
        case False
        with Cons True a noans ap(2) "1.prems" show ?thesis by (subst (asm) writeProcessFunction_loop.simps) auto
      next
        case T: True
        have "writeProcessFunction_loop fd rest (w1\<lparr>answers := as\<rparr>) = (ret, w')"
          using "1.prems" True a Cons T by (subst (asm) writeProcessFunction_loop.simps) simp
        from "1.IH"(1) [OF a [symmetric] True Cons _ this] T same ap(2) noans show ?thesis by auto
      qed
    qed
  next
    case False
    show ?thesis
    proof (cases "n = length rest")
      case True
      with False a ap "1.prems" show ?thesis by (subst (asm) writeProcessFunction_loop.simps) auto
    next
      case F: False
      then have "writeProcessFunction_loop fd (drop n rest) w1 = (ret, w')"
        using "1.prems" False a by (subst (asm) writeProcessFunction_loop.simps) simp
      from "1.IH"(2) [OF a [symmetric] False F this] ap F show ?thesis by auto
    qed
  qed
qed

interpretation file_write: consumer "writeProcessFunction :: (string, 'f) process_function"
  "\<lambda>fd w. (fd, lookup_file w fd)" "\<lambda>(fd, x) b. (fd, appended x b)" "\<lambda>_ _. True"
  by unfold_locales
    ((auto simp: writeProcessFunction_def split: prod.splits dest!: write_loop_spec)[1], simp_all add: lookup_file_def)

interpretation write_frame: process_frame "writeProcessFunction :: (string, 'f) process_function"
  "\<lambda>k w. k = fd \<and> (\<forall>q. q \<noteq> fd \<longrightarrow> lookup_file w q = lookup_file w0 q)" for fd and w0 :: "'f world"
  by unfold_locales
    ((auto simp: writeProcessFunction_def split: prod.splits dest!: write_loop_spec)[1], simp add: lookup_file_def)

lemma write_steady: "file_write.steady (\<lambda>fd w _. lookup_file w fd \<noteq> None)"
proof (unfold file_write.steady_def, intro allI impI)
  fix b :: buffer and fd :: string and w :: "'f world"
  assume a: "lookup_file w fd \<noteq> None" "answers w = []" "b \<noteq> []"
  obtain ret w' where r: "writeProcessFunction_loop fd b w = (ret, w')" by (metis surj_pair)
  note spec = write_loop_spec [OF r]
  have "ret" "answers w' = []" using spec a by blast+
  moreover from this have "lookup_file w' fd \<noteq> None" using spec a(1) by (auto simp: appended_def)
  ultimately show "\<exists>k' w'. writeProcessFunction b fd w = Some (True, k', w') \<and> lookup_file w' k' \<noteq> None \<and> answers w' = []"
    using r by (simp add: writeProcessFunction_def)
qed

lemma foldl_appended: "foldl (\<lambda>(fd, x) b. (fd, appended x b)) (fd, x) bss = (fd, appended x (concat bss))"
proof (induction bss arbitrary: x)
  case Nil
  then show ?case by (cases x) (simp_all add: appended_def)
qed simp

lemma foldl_append: "foldl (@) x bss = x @ concat bss"
  by (induction bss arbitrary: x) simp_all

section \<open>Properties of single entries\<close>

lemma extract_to_file:
  fixes w :: "'f world"
  assumes inf: "inflates zl stream" and a: "z_fd a = Some dat" and e: "entry_content zl stream dat e plain"
    and f: "lookup_file w fd = Some f"
  shows "\<exists>ret w'. mzExtractZipEntryToFile zl a e fd w = Some (ret, w')
    \<and> (ret \<longrightarrow> lookup_file w' fd = Some (f\<lparr>f_data := f_data f @ plain\<rparr>))
    \<and> (\<forall>q. q \<noteq> fd \<longrightarrow> lookup_file w' q = lookup_file w q) \<and> (answers w = [] \<longrightarrow> ret \<and> answers w' = [])"
proof -
  have "writeProcessFunction b k w \<noteq> None" for b k and w :: "'f world"
    by (simp add: writeProcessFunction_def split: prod.splits)
  from file_write.outcome_total [OF file_write.process_outcome [OF inf a e TrueI, of "\<lambda>fd w _. lookup_file w fd \<noteq> None" fd w] this] f write_steady
  obtain ret k' w' where r: "mzProcessZipEntryContents zl a e writeProcessFunction fd w = Some (ret, k', w')"
    "ret \<longrightarrow> file_write.received fd w plain k' w'" "answers w = [] \<longrightarrow> ret \<and> answers w' = []"
    by auto
  have fr: "k' = fd \<and> (\<forall>q. q \<noteq> fd \<longrightarrow> lookup_file w' q = lookup_file w q)"
    using write_frame.process_keeps [OF r(1)] by blast
  have "ret \<longrightarrow> lookup_file w' fd = Some (f\<lparr>f_data := f_data f @ plain\<rparr>)"
    using r(2) fr f unfolding file_write.received_def foldl_appended by (auto simp: appended_def)
  with r fr show ?thesis by (simp add: mzExtractZipEntryToFile_def)
qed

text \<open>C40: \<open>mzExtractZipEntryToFile\<close> ends; when it returns true, the file it was given has got exactly the contents of
  the entry appended, and no other file is changed in any case; when no system call fails it does return true. This holds for stored and for
  deflated entries, over short and interrupted writes.\<close>

theorem mzExtractZipEntryToFile_spec:
  assumes "inflates zl stream" "z_fd a = Some dat" "entry_content zl stream dat e plain" "lookup_file w fd = Some f"
  shows "\<exists>ret w'. mzExtractZipEntryToFile zl a e fd w = Some (ret, w')
    \<and> (ret \<longrightarrow> lookup_file w' fd = Some (f\<lparr>f_data := f_data f @ plain\<rparr>))
    \<and> (\<forall>q. q \<noteq> fd \<longrightarrow> lookup_file w' q = lookup_file w q) \<and> (answers w = [] \<longrightarrow> ret \<and> answers w' = [])"
  using assms by (rule extract_to_file)

text \<open>With a checksum that absorbs blocks one after another, \<open>mzIsZipEntryIntact\<close> returns true only for an
  entry whose contents have the checksum the directory records, and when no read fails it returns true for each of them.\<close>

theorem mzIsZipEntryIntact_spec:
  fixes w :: "'f world"
  assumes inf: "inflates zl stream" and a: "z_fd a = Some dat" and e: "entry_content zl stream dat e plain"
    and crc: "\<forall>c b b'. crc32 (crc32 c b) b' = crc32 c (b @ b')" "\<forall>c. crc32 c [] = c"
  shows "\<exists>ret w'. mzIsZipEntryIntact zl crc32 a e w = Some (ret, w')
    \<and> (ret \<longrightarrow> crc32 0 plain = entryCrc32 e) \<and> (answers w = [] \<longrightarrow> crc32 0 plain = entryCrc32 e \<longrightarrow> ret)"
proof -
  have fold: "foldl crc32 c bss = crc32 c (concat bss)" for c bss
    using crc by (induction bss arbitrary: c) simp_all
  have st: "crc.steady crc32 (\<lambda>_ _ _. True)" by (simp add: crc.steady_def crcProcessFunction_def)
  have "crcProcessFunction crc32 b k w \<noteq> None" for b k and w :: "'f world" by (simp add: crcProcessFunction_def)
  from crc.outcome_total [OF crc.process_outcome [OF inf a e TrueI, of crc32 "\<lambda>_ _ _. True" 0 w] this] st
  obtain ret k' w' where r: "mzProcessZipEntryContents zl a e (crcProcessFunction crc32) 0 w = Some (ret, k', w')"
    "ret \<longrightarrow> crc.received crc32 0 w plain k' w'" "answers w = [] \<longrightarrow> ret"
    by auto
  then show ?thesis using crc(2) by (auto simp: mzIsZipEntryIntact_def crc.received_def fold)
qed

lemma copy_steady:
  "copy.steady (\<lambda>k v bs. v = w \<and> copy_inv n len rest k \<and> int (length bs) \<le> cp_bufLen k)"
  by (auto simp: copy.steady_def copyProcessFunction_def copy_inv_def)

lemma mzReadZipEntry_content:
  fixes w :: "'f world"
  assumes inf: "inflates zl stream" and a: "z_fd a = Some dat" and e: "entry_content zl stream dat e plain"
    and buf: "bufLen \<le> length buf"
  shows "\<exists>ret buf' w'. mzReadZipEntry zl a e buf bufLen w = Some (ret, buf', w')
    \<and> length buf' = length buf \<and> drop bufLen buf' = drop bufLen buf \<and> (ret \<longrightarrow> take (length plain) buf' = plain)
    \<and> (answers w = [] \<longrightarrow> length plain \<le> bufLen \<longrightarrow> ret \<and> w' = w)"
proof -
  let ?k = "\<lparr>cp_mem = buf, cp_buf = 0, cp_bufLen = int bufLen\<rparr>"
  let ?good = "\<lambda>k v bs. v = w \<and> copy_inv (length buf) bufLen (drop bufLen buf) k \<and> int (length bs) \<le> cp_bufLen k"
  have inv: "copy_inv (length buf) bufLen (drop bufLen buf) ?k" using buf by (simp add: copy_inv_def)
  have nn: "copyProcessFunction b k w \<noteq> None" if "copy_inv (length buf) bufLen (drop bufLen buf) k" for b k and w :: "'f world"
    using that by (auto simp: copyProcessFunction_def copy_inv_def)
  note tot = copy.outcome_total [OF copy.process_outcome [OF inf a e inv, of ?good w] nn]
  obtain ret k' w' where r: "mzProcessZipEntryContents zl a e copyProcessFunction ?k w = Some (ret, k', w')"
    "ret \<longrightarrow> copy.received ?k w plain k' w'" "?good ?k w plain \<longrightarrow> answers w = [] \<longrightarrow> ret \<and> w' = w"
    using tot copy_steady by blast
  have k': "copy_inv (length buf) bufLen (drop bufLen buf) k'" using copy_frame.process_keeps [OF r(1) inv] .
  have "take (length plain) (cp_mem k') = plain" if ret
  proof -
    have t: "take (cp_buf k') (cp_mem k') = plain" using r(2) that by (auto simp: copy.received_def foldl_append)
    then have "length plain \<le> cp_buf k'" by (metis length_take min.cobounded2)
    with t show ?thesis by (metis min_def take_take order_antisym take_all_iff length_take)
  qed
  moreover have "answers w = [] \<longrightarrow> length plain \<le> bufLen \<longrightarrow> ret \<and> w' = w" using r(3) inv by simp
  ultimately show ?thesis using r(1) k' by (auto simp: mzReadZipEntry_def copy_inv_def)
qed

text \<open>\<open>mzReadZipEntry\<close>, given a buffer of at least \<open>bufLen\<close> bytes, never writes behind them, whatever the
  entry holds; when it returns true the buffer begins with the contents of the entry; and it returns true when they fit and no read fails.\<close>

theorem mzReadZipEntry_spec:
  fixes w :: "'f world"
  assumes inf: "inflates zl stream" and a: "z_fd a = Some dat" and e: "entry_content zl stream dat e plain"
    and buf: "bufLen \<le> length buf"
  shows "\<exists>ret buf' w'. mzReadZipEntry zl a e buf bufLen w = Some (ret, buf', w')
    \<and> length buf' = length buf \<and> drop bufLen buf' = drop bufLen buf \<and> (ret \<longrightarrow> take (length plain) buf' = plain)
    \<and> (answers w = [] \<longrightarrow> length plain \<le> bufLen \<longrightarrow> ret \<and> w' = w)"
  using assms by (rule mzReadZipEntry_content)

lemma stored_overflow:
  assumes "answers w = []" "pos + n \<le> length dat" "length (be_mem k) < be_buffer k + n" "be_buffer k \<le> length (be_mem k)"
  shows "processStoredEntry dat pos n bufferProcessFunction k w = None"
  using assms
proof (induction n arbitrary: pos k rule: less_induct)
  case (less n)
  define c where "c = min n BLOCK"
  have n: "0 < n" "0 < c" "c \<le> n" using less.prems by (auto simp: c_def BLOCK_def)
  have read: "fread dat pos c w = (take c (drop pos dat), w)" "length (take c (drop pos dat)) = c"
    using less.prems(1,2) n by (auto simp: fread_plain)
  note step = processStoredEntry.simps [of dat pos n bufferProcessFunction k w, folded c_def, unfolded Let_def]
  show ?case
  proof (cases "length (be_mem k) < be_buffer k + c")
    case True
    with n read show ?thesis by (subst step) (simp add: bufferProcessFunction_def)
  next
    case False
    define k1 where "k1 = \<lparr>be_mem = take (be_buffer k) (be_mem k) @ take c (drop pos dat) @ drop (be_buffer k + c) (be_mem k),
        be_buffer = be_buffer k + c, be_len = be_len k - int c\<rparr>"
    have "bufferProcessFunction (take c (drop pos dat)) k w = Some (True, k1, w)"
      using False read(2) by (simp add: bufferProcessFunction_def k1_def)
    then have "processStoredEntry dat pos n bufferProcessFunction k w = processStoredEntry dat (pos + c) (n - c) bufferProcessFunction k1 w"
      using n read by (subst step) simp
    also have "\<dots> = None"
      using less.prems False n read(2) by (intro less.IH) (auto simp: k1_def)
    finally show ?thesis .
  qed
qed

text \<open>\<open>mzExtractZipEntryToBuffer\<close> does not compare the data with its buffer: for a stored entry with more data than the
  uncompressed length the directory announces, which is the length callers allocate, it writes behind the buffer.\<close>

theorem mzExtractZipEntryToBuffer_overflow:
  assumes "z_fd a = Some dat" "answers w = []" "compression e = STORED" "entryOffset e + compLen e \<le> length dat"
    and "length buffer = mzGetZipEntryUncompLen e" "uncompLen e < compLen e"
  shows "mzExtractZipEntryToBuffer zl a e buffer w = None"
proof -
  have "processStoredEntry dat (entryOffset e) (compLen e) bufferProcessFunction
      \<lparr>be_mem = buffer, be_buffer = 0, be_len = int (mzGetZipEntryUncompLen e)\<rparr> w = None"
    using assms by (intro stored_overflow) (auto simp: mzGetZipEntryUncompLen_def)
  with assms show ?thesis by (simp add: mzExtractZipEntryToBuffer_def mzProcessZipEntryContents_def)
qed

section \<open>Examples\<close>

text \<open>
  An inflater for examples: the stream is its length in one byte, then the data. The second
  component of a state is how much is left.
\<close>

definition plain_inflater :: "nat option inflater" where
  "plain_inflater = \<lparr>zi_init = Some None,
     zi_inflate = \<lambda>z inp n. case z of
         None \<Rightarrow> (case inp of
             [] \<Rightarrow> (-5, 0, [], None)
           | b # bs \<Rightarrow> let m = min (min (unat b) (length bs)) n in
               (if m = unat b then Z_STREAM_END else Z_OK, Suc m, take m bs, Some (unat b - m)))
       | Some l \<Rightarrow> let m = min (min l (length inp)) n in
           (if m = l then Z_STREAM_END else Z_OK, m, take m inp, Some (l - m))\<rparr>"

fun plain_stream :: "nat option \<Rightarrow> buffer \<Rightarrow> buffer \<Rightarrow> bool" where
  "plain_stream None inp outp = (length outp < 256 \<and> (case inp of [] \<Rightarrow> False | b # bs \<Rightarrow> unat b = length outp \<and> has_prefix outp bs))"
| "plain_stream (Some l) inp outp = (l = length outp \<and> has_prefix outp inp)"

lemma plain_chunk:
  assumes "has_prefix outp bs" "m = min (min (length outp) (length (take j bs))) n"
  shows "take m (take j bs) = take m outp" "has_prefix (drop m outp) (drop m bs)" "m \<le> length (take j bs)" "m \<le> n" "m \<le> length outp"
proof -
  obtain r where "bs = outp @ r" using assms(1) by (auto simp: has_prefix_iff)
  then show "take m (take j bs) = take m outp" "has_prefix (drop m outp) (drop m bs)"
    "m \<le> length (take j bs)" "m \<le> n" "m \<le> length outp"
    using assms(2) by (auto simp: has_prefix_iff min_def)
qed

lemma plain_inflate_eqs:
  "zi_inflate plain_inflater (Some l) inp n =
     (let m = min (min l (length inp)) n in (if m = l then Z_STREAM_END else Z_OK, m, take m inp, Some (l - m)))"
  "zi_inflate plain_inflater None (b # bs) n =
     (let m = min (min (unat b) (length bs)) n in
      (if m = unat b then Z_STREAM_END else Z_OK, Suc m, take m bs, Some (unat b - m)))"
  by (simp_all add: plain_inflater_def)

lemma plain_inflates: "inflates plain_inflater plain_stream"
proof (unfold inflates_def, intro allI impI)
  fix z inp outp k n zerr used produced z1
  assume s: "plain_stream z inp outp" and n: "0 < n" and k: "0 < k \<or> inp = []"
    and r: "zi_inflate plain_inflater z (take k inp) n = (zerr, used, produced, z1)"
  let ?goal = "used \<le> length (take k inp) \<and> length produced \<le> n
      \<and> (zerr = Z_STREAM_END \<and> produced = outp
         \<or> zerr = Z_OK \<and> (\<exists>rest. outp = produced @ rest \<and> plain_stream z1 (drop used inp) rest) \<and> (0 < used \<or> produced \<noteq> []))"
  show ?goal
  proof (cases z)
    case (Some l)
    define m where "m = min (min (length outp) (length (take k inp))) n"
    have o: "has_prefix outp inp" "l = length outp" using s Some by simp_all
    note c = plain_chunk [OF o(1) m_def]
    have res: "zerr = (if m = l then Z_STREAM_END else Z_OK)" "used = m" "produced = take m outp" "z1 = Some (l - m)"
      using r unfolding Some o(2) plain_inflate_eqs Let_def m_def [symmetric] c(1) by auto
    have prog: "0 < m \<or> m = l"
    proof (cases "m = 0")
      case True
      then have "outp = [] \<or> take k inp = []" using n by (auto simp: m_def min_def split: if_splits)
      then have "outp = []" using k o(1) by (cases inp) (auto simp: has_prefix_take)
      then show ?thesis using True o(2) by simp
    qed simp
    show ?thesis
    proof (cases "m = l")
      case True
      then show ?thesis using res c o(2) by simp
    next
      case False
      have "plain_stream z1 (drop used inp) (drop m outp)" using res c(2) o(2) by simp
      moreover have "outp = produced @ drop m outp" using res by simp
      ultimately show ?thesis using False res c prog by auto
    qed
  next
    case None
    then obtain b bs where b: "inp = b # bs" "unat b = length outp" "has_prefix outp bs" using s by (cases inp) auto
    then obtain j where j: "k = Suc j" using k by (cases k) auto
    define m where "m = min (min (length outp) (length (take j bs))) n"
    note c = plain_chunk [OF b(3) m_def]
    have res: "zerr = (if m = unat b then Z_STREAM_END else Z_OK)" "used = Suc m" "produced = take m outp" "z1 = Some (unat b - m)"
      using r unfolding None b(1) j take_Suc_Cons plain_inflate_eqs Let_def b(2) m_def [symmetric] c(1) by auto
    show ?thesis
    proof (cases "m = unat b")
      case True
      then show ?thesis using res c b j by simp
    next
      case False
      have "plain_stream z1 (drop used inp) (drop m outp)" using res c(2) b by simp
      moreover have "outp = produced @ drop m outp" using res by simp
      ultimately show ?thesis using False res c b(1) j by auto
    qed
  qed
qed

definition file_inode :: "buffer \<Rightarrow> inode" where
  "file_inode d = \<lparr>f_data = d, f_mode = 0x1A4, f_uid = 0, f_gid = 0, f_reg = True\<rparr>"

definition one_file :: "string \<Rightarrow> inode \<Rightarrow> nat list \<Rightarrow> unit world" where
  "one_file p f ans = \<lparr>files = [(p, f)], procs = [], answers = ans, mtd_partitions_scanned = False, flash = ()\<rparr>"

definition sample_entry :: "nat \<Rightarrow> nat \<Rightarrow> nat \<Rightarrow> ZipEntry" where
  "sample_entry how clen ulen = \<lparr>fileNameLen = 1, fileName = 0, entryOffset = 1, compLen = clen, uncompLen = ulen,
     compression = how, modTime = 0, entryCrc32 = 0, versionMadeBy = 0, externalFileAttributes = 0\<rparr>"

definition sample_archive :: "buffer \<Rightarrow> ZipArchive" where
  "sample_archive d = \<lparr>z_fd = Some d, z_numEntries = 0, z_pEntries = None, z_pHash = None, z_map = Some d\<rparr>"

lemma sample_content: "entry_content plain_inflater plain_stream [97, 2, 7, 9] (sample_entry DEFLATED 3 2) [7, 9]"
proof -
  have "take 3 (drop 1 [97, 2, 7, 9 :: byte]) = [2, 7, 9]" by (simp add: numeral_3_eq_3)
  then show ?thesis by (simp add: entry_content_def sample_entry_def plain_inflater_def)
qed

theorem mzExtractZipEntryToFile_spec_witness:
  "\<exists>ret w'. mzExtractZipEntryToFile plain_inflater (sample_archive [97, 2, 7, 9]) (sample_entry DEFLATED 3 2) ''/t'' (one_file ''/t'' (file_inode []) [])
      = Some (ret, w') \<and> ret \<and> lookup_file w' ''/t'' = Some (file_inode [7, 9])"
  using mzExtractZipEntryToFile_spec [OF plain_inflates, of "sample_archive [97, 2, 7, 9]" "[97, 2, 7, 9]" "sample_entry DEFLATED 3 2" "[7, 9]"
      "one_file ''/t'' (file_inode []) []" "''/t''" "file_inode []"] sample_content
  by (auto simp: sample_archive_def one_file_def lookup_file_def file_inode_def)

theorem mzIsZipEntryIntact_spec_witness:
  "\<exists>ret w'. mzIsZipEntryIntact plain_inflater (\<lambda>c b. c + length b) (sample_archive [97, 2, 7, 9]) (sample_entry DEFLATED 3 2) (one_file ''/t'' (file_inode []) [])
      = Some (ret, w') \<and> (ret \<longrightarrow> 0 + length [7 :: byte, 9] = entryCrc32 (sample_entry DEFLATED 3 2))"
proof -
  have a: "z_fd (sample_archive [97, 2, 7, 9]) = Some [97, 2, 7, 9]" by (simp add: sample_archive_def)
  show ?thesis
    using mzIsZipEntryIntact_spec [OF plain_inflates a sample_content, of "\<lambda>c b. c + length b" "one_file ''/t'' (file_inode []) []"]
    by auto
qed

theorem mzReadZipEntry_spec_witness:
  "\<exists>buf'. mzReadZipEntry plain_inflater (sample_archive [97, 2, 7, 9]) (sample_entry DEFLATED 3 2) [0, 0, 0] 2 (one_file ''/t'' (file_inode []) [])
      = Some (True, buf', one_file ''/t'' (file_inode []) []) \<and> drop 2 buf' = [0] \<and> take 2 buf' = [7, 9]"
proof -
  have a: "z_fd (sample_archive [97, 2, 7, 9]) = Some [97, 2, 7, 9]" by (simp add: sample_archive_def)
  have ans: "answers (one_file ''/t'' (file_inode []) []) = []" by (simp add: one_file_def)
  from mzReadZipEntry_spec [OF plain_inflates a sample_content, of 2 "[0, 0, 0]" "one_file ''/t'' (file_inode []) []"] ans show ?thesis
    by (auto simp: numeral_2_eq_2)
qed

theorem mzExtractZipEntryToBuffer_overflow_witness:
  "mzExtractZipEntryToBuffer plain_inflater (sample_archive [97, 2, 7, 9]) (sample_entry STORED 3 2) [0, 0] (one_file ''/t'' (file_inode []) []) = None"
  by (rule mzExtractZipEntryToBuffer_overflow [of _ "[97, 2, 7, 9]"])
    (simp_all add: sample_archive_def one_file_def sample_entry_def mzGetZipEntryUncompLen_def)

end
