(* ===== verification/ZipTree.thy ===== *)
theory ZipTree
  imports ZipExtract ZipImage
begin

text \<open>
  Extracting a directory of an archive: \<open>targetEntryPath\<close> and \<open>mzExtractRecursive\<close> of \<open>minzip/Zip.c\<close>.
  The buffer that paths are assembled in is an array of characters, whose uninitialised part is
  filled with NUL; lengths of paths are far from the range of \<open>int\<close>. What the callback is given is
  collected in a list. Security labels and timestamps are not attributes of the model's files.
\<close>

section \<open>Assembling paths\<close>

record MzPathHelper =
  h_targetDir :: string
  h_zipDir :: string
  h_buf :: "string option"
  h_targetDirLen :: nat
  h_zipDirLen :: nat
  h_bufLen :: nat

abbreviation NUL :: char where "NUL \<equiv> CHR 0x00"

text \<open>\<open>memcpy\<close> into the buffer.\<close>

definition copy_to :: "string \<Rightarrow> nat \<Rightarrow> string \<Rightarrow> string option" where
  "copy_to buf p s = (if p + length s \<le> length buf then Some (take p buf @ s @ drop (p + length s) buf) else None)"

definition resized :: "string option \<Rightarrow> nat \<Rightarrow> string" where
  "resized buf n = take n (case buf of None \<Rightarrow> [] | Some b \<Rightarrow> b) @ replicate (n - (case buf of None \<Rightarrow> 0 | Some b \<Rightarrow> length b)) NUL"

text \<open>The two writes: the directory with a slash, the first time, and the rest of the name.\<close>

definition put_directory :: "string \<Rightarrow> string \<Rightarrow> nat \<Rightarrow> (string \<times> nat) option" where
  "put_directory buf targetDir targetDirLen = do {
     buf \<leftarrow> copy_to buf 0 targetDir;
     if targetDirLen = 0 \<or> buf ! (targetDirLen - 1) \<noteq> CHR ''/''
     then do { buf \<leftarrow> copy_to buf targetDirLen ''/''; Some (buf, targetDirLen + 1) }
     else Some (buf, targetDirLen) }"

definition put_name :: "string \<Rightarrow> nat \<Rightarrow> string \<Rightarrow> string option" where
  "put_name buf targetDirLen epath = do {
     buf \<leftarrow> copy_to buf targetDirLen epath;
     copy_to buf (targetDirLen + length epath) [NUL] }"

definition targetEntryPath :: "(nat \<Rightarrow> bool) \<Rightarrow> MzPathHelper \<Rightarrow> string \<Rightarrow> (string option \<times> MzPathHelper) option" where
  "targetEntryPath realloc_ok helper name =
     (if length name < h_zipDirLen helper then None
      else
        let firstTime = (h_buf helper = None);
            needLen = h_targetDirLen helper + 1 + (length name - h_zipDirLen helper) + 1;
            grow = h_bufLen helper < needLen in
        if grow \<and> \<not> realloc_ok (needLen * 2) then Some (None, helper)
        else do {
          let bufLen = (if grow then needLen * 2 else h_bufLen helper);
          buf \<leftarrow> (if grow then Some (resized (h_buf helper) (needLen * 2)) else h_buf helper);
          (buf, targetDirLen) \<leftarrow>
            (if firstTime then put_directory buf (h_targetDir helper) (h_targetDirLen helper)
             else Some (buf, h_targetDirLen helper));
          buf \<leftarrow> put_name buf targetDirLen (drop (h_zipDirLen helper) name);
          Some (Some (takeWhile (\<lambda>c. c \<noteq> NUL) buf),
                helper\<lparr>h_buf := Some buf, h_bufLen := bufLen, h_targetDirLen := targetDirLen\<rparr>) })"

section \<open>Extracting entries\<close>

definition MZ_EXTRACT_FILES_ONLY :: int where "MZ_EXTRACT_FILES_ONLY = 1"
definition MZ_EXTRACT_DRY_RUN :: int where "MZ_EXTRACT_DRY_RUN = 2"
definition UNZIP_DIRMODE :: int where "UNZIP_DIRMODE = 0x1ED"
definition UNZIP_FILEMODE :: int where "UNZIP_FILEMODE = 0x1A4"

text \<open>\<open>creat\<close> empties an existing file, makes a new one, and fails on a directory.\<close>

definition creat :: "string \<Rightarrow> int \<Rightarrow> 'f world \<Rightarrow> bool \<times> 'f world" where
  "creat path mode w =
     (case sys_ok w of (good, w1) \<Rightarrow>
        if good then
          (case lookup_file w1 path of
             None \<Rightarrow> (True, store_file w1 path \<lparr>f_data = [], f_mode = mode, f_uid = 0, f_gid = 0, f_reg = True\<rparr>)
           | Some f \<Rightarrow> if is_dir f then (False, w1) else (True, store_file w1 path (f\<lparr>f_data := []\<rparr>)))
        else (False, w1))"

text \<open>A symbolic link is an inode of that type whose data is the target.\<close>

definition symlink :: "buffer \<Rightarrow> string \<Rightarrow> 'f world \<Rightarrow> bool \<times> 'f world" where
  "symlink target path w =
     (case sys_ok w of (good, w1) \<Rightarrow>
        if good \<and> lookup_file w1 path = None
        then (True, store_file w1 path \<lparr>f_data = target, f_mode = 0xA1FF, f_uid = 0, f_gid = 0, f_reg = False\<rparr>)
        else (False, w1))"

text \<open>
  How an entry ends: on to the next one, or out of the loop with a value of the variable \<open>ok\<close> that
  is returned.
\<close>

datatype loop_control = Continue | Break bool

definition extract_symlink ::
  "'z inflater \<Rightarrow> (nat \<Rightarrow> bool) \<Rightarrow> ZipArchive \<Rightarrow> ZipEntry \<Rightarrow> string \<Rightarrow> 'f world \<Rightarrow> (loop_control \<times> 'f world) option" where
  "extract_symlink zl malloc_ok a e targetFile w =
     (if uncompLen e = 0 then Some (Break False, w)
      else if \<not> malloc_ok (uncompLen e + 1) then Some (Break False, w)
      else do {
        (ret, linkTarget, w1) \<leftarrow> mzReadZipEntry zl a e (replicate (uncompLen e + 1) 0) (uncompLen e) w;
        if \<not> ret then Some (Break False, w1)
        else
          let linkTarget = linkTarget[uncompLen e := 0] in
          case symlink (takeWhile (\<lambda>b. b \<noteq> 0) linkTarget) targetFile w1 of (made, w2) \<Rightarrow>
            Some (if made then Continue else Break False, w2) })"

text \<open>
  A regular file. The result of \<open>mzExtractZipEntryToFile\<close> is kept in a variable \<open>ok\<close> of the inner
  block, so the \<open>ok\<close> that is returned stays true when the extraction or \<open>utime\<close> fails.
\<close>

definition extract_file ::
  "'z inflater \<Rightarrow> bool \<Rightarrow> ZipArchive \<Rightarrow> ZipEntry \<Rightarrow> string \<Rightarrow> 'f world \<Rightarrow> (loop_control \<times> 'f world) option" where
  "extract_file zl timestamp a e targetFile w =
     (case creat targetFile UNZIP_FILEMODE w of (made, w1) \<Rightarrow>
        if \<not> made then Some (Break False, w1)
        else do {
          (ret, w2) \<leftarrow> mzExtractZipEntryToFile zl a e targetFile w1;
          if \<not> ret then Some (Break True, w2)
          else if timestamp then
            (case utime targetFile w2 of (touched, w3) \<Rightarrow> Some (if touched then Continue else Break True, w3))
          else Some (Continue, w2) })"

text \<open>An entry without \<open>MZ_EXTRACT_DRY_RUN\<close>; an empty name is read at index \<open>-1\<close>.\<close>

definition extract_entry ::
  "'z inflater \<Rightarrow> (nat \<Rightarrow> bool) \<Rightarrow> int \<Rightarrow> bool \<Rightarrow> ZipArchive \<Rightarrow> buffer \<Rightarrow> ZipEntry \<Rightarrow> string \<Rightarrow> 'f world \<Rightarrow> (loop_control \<times> 'f world) option" where
  "extract_entry zl malloc_ok flags timestamp a m e targetFile w =
     (let name = entry_name m e in
      if name = [] then None
      else if last name = CHR ''/'' then
        (if flags AND MZ_EXTRACT_FILES_ONLY = 0 then do {
           (ret, w1) \<leftarrow> dirCreateHierarchy malloc_ok targetFile UNZIP_DIRMODE timestamp False w;
           Some (if ret \<noteq> 0 then Break False else Continue, w1) }
         else Some (Continue, w))
      else do {
        (ret, w1) \<leftarrow> dirCreateHierarchy malloc_ok targetFile UNZIP_DIRMODE timestamp True w;
        if ret \<noteq> 0 then Some (Break False, w1)
        else if flags AND MZ_EXTRACT_FILES_ONLY = 0 \<and> mzIsZipEntrySymlink e
        then extract_symlink zl malloc_ok a e targetFile w1
        else extract_file zl timestamp a e targetFile w1 })"

text \<open>The part of the loop for an entry under the wanted directory.\<close>

definition extract_match ::
  "'z inflater \<Rightarrow> (nat \<Rightarrow> bool) \<Rightarrow> (nat \<Rightarrow> bool) \<Rightarrow> int \<Rightarrow> bool \<Rightarrow> bool \<Rightarrow> ZipArchive \<Rightarrow> buffer \<Rightarrow> ZipEntry \<Rightarrow> MzPathHelper \<Rightarrow> string list \<Rightarrow> 'f world
     \<Rightarrow> (loop_control \<times> MzPathHelper \<times> string list \<times> 'f world) option" where
  "extract_match zl malloc_ok realloc_ok flags timestamp callback a m e helper log w = do {
     (targetFile, helper) \<leftarrow> targetEntryPath realloc_ok helper (entry_name m e);
     case targetFile of
       None \<Rightarrow> Some (Break False, helper, log, w)
     | Some targetFile \<Rightarrow>
         let log1 = (if callback then log @ [targetFile] else log) in
         if flags AND MZ_EXTRACT_DRY_RUN \<noteq> 0 then Some (Continue, helper, log1, w)
         else do {
           (ctl, w1) \<leftarrow> extract_entry zl malloc_ok flags timestamp a m e targetFile w;
           Some (ctl, helper, if ctl = Continue then log1 else log, w1) } }"

fun extract_loop ::
  "'z inflater \<Rightarrow> (nat \<Rightarrow> bool) \<Rightarrow> (nat \<Rightarrow> bool) \<Rightarrow> int \<Rightarrow> bool \<Rightarrow> bool \<Rightarrow> ZipArchive \<Rightarrow> buffer \<Rightarrow> string \<Rightarrow> ZipEntry list \<Rightarrow> bool \<Rightarrow> MzPathHelper
     \<Rightarrow> string list \<Rightarrow> 'f world \<Rightarrow> (bool \<times> string list \<times> 'f world) option" where
  "extract_loop zl malloc_ok realloc_ok flags timestamp callback a m zpath [] seenMatch helper log w = Some (True, log, w)"
| "extract_loop zl malloc_ok realloc_ok flags timestamp callback a m zpath (e # es) seenMatch helper log w =
     (if fileNameLen e < length zpath \<or> strncmp (entry_name m e) zpath (length zpath) \<noteq> 0 then
        (if seenMatch then Some (True, log, w)
         else extract_loop zl malloc_ok realloc_ok flags timestamp callback a m zpath es seenMatch helper log w)
      else do {
        (ctl, helper, log, w) \<leftarrow> extract_match zl malloc_ok realloc_ok flags timestamp callback a m e helper log w;
        case ctl of
          Break good \<Rightarrow> Some (good, log, w)
        | Continue \<Rightarrow> extract_loop zl malloc_ok realloc_ok flags timestamp callback a m zpath es True helper log w })"

definition zip_path :: "string \<Rightarrow> string" where
  "zip_path zipDir = (if zipDir \<noteq> [] \<and> last zipDir \<noteq> CHR ''/'' then zipDir @ ''/'' else zipDir)"

definition mzExtractRecursive ::
  "'z inflater \<Rightarrow> (nat \<Rightarrow> bool) \<Rightarrow> (nat \<Rightarrow> bool) \<Rightarrow> ZipArchive \<Rightarrow> string \<Rightarrow> string \<Rightarrow> int \<Rightarrow> bool \<Rightarrow> bool \<Rightarrow> 'f world
     \<Rightarrow> (bool \<times> string list \<times> 'f world) option" where
  "mzExtractRecursive zl malloc_ok realloc_ok a zipDir targetDir flags timestamp callback w =
     (if zipDir \<noteq> [] \<and> hd zipDir = CHR ''/'' then Some (False, [], w)
      else if targetDir = [] \<or> hd targetDir \<noteq> CHR ''/'' then Some (False, [], w)
      else if \<not> malloc_ok (length zipDir + 2) then Some (False, [], w)
      else
        case (z_pEntries a, z_map a) of
          (Some es, Some m) \<Rightarrow>
            (let zpath = zip_path zipDir;
                 helper = \<lparr>h_targetDir = targetDir, h_zipDir = zpath, h_buf = None, h_targetDirLen = length targetDir, h_zipDirLen = length zpath, h_bufLen = 0\<rparr> in
             extract_loop zl malloc_ok realloc_ok flags timestamp callback a m zpath (take (z_numEntries a) es) False helper [] w)
        | _ \<Rightarrow> None)"

section \<open>Paths\<close>

definition dir_slash :: "string \<Rightarrow> string" where
  "dir_slash d = (if d = [] \<or> last d \<noteq> CHR ''/'' then d @ ''/'' else d)"

text \<open>The helper between two calls: the buffer begins with the target directory and a slash.\<close>

definition helper_ok :: "string \<Rightarrow> string \<Rightarrow> MzPathHelper \<Rightarrow> bool" where
  "helper_ok targetDir zpath h \<longleftrightarrow> h_targetDir h = targetDir \<and> h_zipDirLen h = length zpath
     \<and> (case h_buf h of
          None \<Rightarrow> h_bufLen h = 0 \<and> h_targetDirLen h = length targetDir
        | Some b \<Rightarrow> length b = h_bufLen h \<and> h_targetDirLen h = length (dir_slash targetDir)
            \<and> take (length (dir_slash targetDir)) b = dir_slash targetDir)"

lemma copy_to_ok: "p + length s \<le> length b \<Longrightarrow> copy_to b p s = Some (take p b @ s @ drop (p + length s) b)"
  by (simp add: copy_to_def)

lemma length_resized [simp]: "length (resized b n) = n"
  by (cases b) (simp_all add: resized_def)

lemma take_resized: "k \<le> length b \<Longrightarrow> k \<le> n \<Longrightarrow> take k (resized (Some b) n) = take k b"
  by (simp add: resized_def min_def)

text \<open>Once the directory is in the buffer: the name is copied behind it and terminated.\<close>

lemma put_name_ok:
  assumes "take (length d) b = d" "length d + length s + 1 \<le> length b" "NUL \<notin> set d" "NUL \<notin> set s"
  shows "\<exists>b'. put_name b (length d) s = Some b'
    \<and> takeWhile (\<lambda>c. c \<noteq> NUL) b' = d @ s \<and> length b' = length b \<and> take (length d) b' = d"
proof -
  define r where "r = drop (length d + length s + 1) b"
  have 1: "copy_to b (length d) s = Some (d @ s @ drop (length d + length s) b)"
    using assms(1,2) by (subst copy_to_ok) simp_all
  have 2: "copy_to (d @ s @ drop (length d + length s) b) (length d + length s) [NUL] = Some (d @ s @ NUL # r)"
    using assms(2) by (subst copy_to_ok) (simp_all add: r_def)
  have "takeWhile (\<lambda>c. c \<noteq> NUL) ((d @ s) @ NUL # r) = d @ s"
    using assms(3,4) by (subst takeWhile_append2) auto
  with 1 2 assms(2) show ?thesis by (simp add: r_def put_name_def)
qed

lemma put_directory_ok:
  assumes "length d + 1 \<le> length b"
  shows "put_directory b d (length d) = Some (dir_slash d @ drop (length (dir_slash d)) b, length (dir_slash d))"
proof -
  have c1: "copy_to b 0 d = Some (d @ drop (length d) b)" using assms by (subst copy_to_ok) simp_all
  have "copy_to (d @ drop (length d) b) (length d) ''/'' = Some (d @ ''/'' @ drop (length d + 1) b)"
    using assms by (subst copy_to_ok) simp_all
  with c1 show ?thesis by (auto simp: put_directory_def dir_slash_def nth_append last_conv_nth)
qed

lemma targetEntryPath_ok:
  assumes h: "helper_ok targetDir zpath h" and name: "length zpath \<le> length name" "NUL \<notin> set name" and td: "NUL \<notin> set targetDir"
  shows "\<exists>r h'. targetEntryPath realloc_ok h name = Some (r, h') \<and> helper_ok targetDir zpath h'
    \<and> (r = None \<or> r = Some (dir_slash targetDir @ drop (length zpath) name)) \<and> ((\<forall>n. realloc_ok n) \<longrightarrow> r \<noteq> None)"
proof -
  define s where "s = drop (length zpath) name"
  define d where "d = dir_slash targetDir"
  define need where "need = h_targetDirLen h + 1 + length s + 1"
  define grow where "grow \<longleftrightarrow> h_bufLen h < need"
  have ls: "length name - h_zipDirLen h = length s" "\<not> length name < h_zipDirLen h" "drop (h_zipDirLen h) name = s"
    and hd: "h_targetDir h = targetDir" "h_zipDirLen h = length zpath"
    using h name(1) by (simp_all add: helper_ok_def s_def)
  have nul: "NUL \<notin> set d" "NUL \<notin> set s" using td name(2) by (auto simp: d_def dir_slash_def s_def dest: in_set_dropD)
  have ld: "length d \<le> length targetDir + 1" by (simp add: d_def dir_slash_def)
  note unfold = targetEntryPath_def [of realloc_ok h name, unfolded Let_def ls, folded need_def, folded grow_def]
  show ?thesis
  proof (cases "grow \<and> \<not> realloc_ok (need * 2)")
    case True
    with h ls show ?thesis by (auto simp: unfold)
  next
    case False
    define n where "n = (if grow then need * 2 else h_bufLen h)"
    have "\<exists>b1. (do { buf \<leftarrow> (if grow then Some (resized (h_buf h) (need * 2)) else h_buf h);
          (if h_buf h = None then put_directory buf (h_targetDir h) (h_targetDirLen h) else Some (buf, h_targetDirLen h)) })
          = Some (b1, length d) \<and> length b1 = n \<and> take (length d) b1 = d \<and> length d + length s + 1 \<le> n"
    proof (cases "h_buf h")
      case None
      then have hb: "h_bufLen h = 0" "h_targetDirLen h = length targetDir" using h by (simp_all add: helper_ok_def)
      then have g: "grow" by (simp add: grow_def need_def)
      have "length targetDir + 1 \<le> length (resized None (need * 2))" using hb by (simp add: need_def)
      from put_directory_ok [OF this] None g hb hd ld show ?thesis by (simp add: n_def d_def need_def)
    next
      case (Some b)
      then have hb: "length b = h_bufLen h" "h_targetDirLen h = length d" "take (length d) b = d"
        using h by (simp_all add: helper_ok_def d_def)
      have "length d \<le> length b" using hb(3) by (metis length_take min.cobounded1)
      with Some hb show ?thesis
        by (cases grow) (auto simp: n_def need_def grow_def take_resized)
    qed
    then obtain b1 where b1: "(do { buf \<leftarrow> (if grow then Some (resized (h_buf h) (need * 2)) else h_buf h);
          (if h_buf h = None then put_directory buf (h_targetDir h) (h_targetDirLen h) else Some (buf, h_targetDirLen h)) })
          = Some (b1, length d)" "length b1 = n" "take (length d) b1 = d" "length d + length s + 1 \<le> n" by blast
    from put_name_ok [OF b1(3) _ nul] b1(2,4) obtain b' where
      b': "put_name b1 (length d) s = Some b'" "takeWhile (\<lambda>c. c \<noteq> NUL) b' = d @ s" "length b' = n" "take (length d) b' = d" by auto
    have "targetEntryPath realloc_ok h name = Some (Some (d @ s), h\<lparr>h_buf := Some b', h_bufLen := n, h_targetDirLen := length d\<rparr>)"
    proof -
      from b1(1) obtain b0 where b0: "(if grow then Some (resized (h_buf h) (need * 2)) else h_buf h) = Some b0"
        "(if h_buf h = None then put_directory b0 (h_targetDir h) (h_targetDirLen h) else Some (b0, h_targetDirLen h)) = Some (b1, length d)"
        by (auto split: bind_splits)
      show ?thesis
        unfolding unfold if_not_P [OF ls(2)] if_not_P [OF False] n_def
        by (simp only: b0 b'(1,2) Option.bind.bind_lunit prod.case)
    qed
    with b' hd show ?thesis by (auto simp: helper_ok_def d_def s_def)
  qed
qed

section \<open>The entries that are visited\<close>

text \<open>The reference for the loop: no test of the name and no early exit.\<close>

fun extract_all ::
  "'z inflater \<Rightarrow> (nat \<Rightarrow> bool) \<Rightarrow> (nat \<Rightarrow> bool) \<Rightarrow> int \<Rightarrow> bool \<Rightarrow> bool \<Rightarrow> ZipArchive \<Rightarrow> buffer \<Rightarrow> ZipEntry list \<Rightarrow> MzPathHelper
     \<Rightarrow> string list \<Rightarrow> 'f world \<Rightarrow> (bool \<times> string list \<times> 'f world) option" where
  "extract_all zl malloc_ok realloc_ok flags timestamp callback a m [] helper log w = Some (True, log, w)"
| "extract_all zl malloc_ok realloc_ok flags timestamp callback a m (e # es) helper log w = do {
     (ctl, helper, log, w) \<leftarrow> extract_match zl malloc_ok realloc_ok flags timestamp callback a m e helper log w;
     case ctl of
       Break good \<Rightarrow> Some (good, log, w)
     | Continue \<Rightarrow> extract_all zl malloc_ok realloc_ok flags timestamp callback a m es helper log w }"

definition under :: "string \<Rightarrow> buffer \<Rightarrow> ZipEntry \<Rightarrow> bool" where
  "under zpath m e \<longleftrightarrow> has_prefix zpath (entry_name m e)"

lemma strcmp_Cons_between:
  assumes "strcmp (c # s) t \<le> 0" "strcmp t (c # u) \<le> 0"
  obtains t' where "t = c # t'" "strcmp s t' \<le> 0" "strcmp t' u \<le> 0"
proof (cases t)
  case (Cons d t')
  with assms have "d = c" by (simp split: if_splits)
  with Cons assms that show thesis by simp
qed (use assms in simp)

lemma prefix_between: "strcmp (z @ s) t \<le> 0 \<Longrightarrow> strcmp t (z @ u) \<le> 0 \<Longrightarrow> \<exists>v. t = z @ v"
proof (induction z arbitrary: t)
  case (Cons c z)
  from Cons.prems obtain t' where "t = c # t'" "strcmp (z @ s) t' \<le> 0" "strcmp t' (z @ u) \<le> 0"
    unfolding append_Cons by (rule strcmp_Cons_between)
  with Cons.IH show ?case by simp
qed simp

lemma prefix_convex: "has_prefix z s \<Longrightarrow> has_prefix z u \<Longrightarrow> strcmp s t \<le> 0 \<Longrightarrow> strcmp t u \<le> 0 \<Longrightarrow> has_prefix z t"
  unfolding has_prefix_iff by (elim exE) (simp only: prefix_between)

lemma name_test:
  assumes "entry_ok m e"
  shows "(fileNameLen e < length zpath \<or> strncmp (entry_name m e) zpath (length zpath) \<noteq> 0) \<longleftrightarrow> \<not> under zpath m e"
proof -
  have len: "fileNameLen e = length (entry_name m e)" using entry_name_length [OF assms] by simp
  have "length zpath \<le> length (entry_name m e)" if "take (length zpath) (entry_name m e) = zpath"
    using that by (rule subst [where P = "\<lambda>z. length z \<le> length (entry_name m e)"]) (rule length_take [THEN eq_refl, THEN order_trans], simp)
  then show ?thesis unfolding len under_def has_prefix_take strncmp_eq_0 by (auto simp: not_less)
qed

lemma loop_reference:
  fixes w :: "'f world"
  assumes "by_name.ordered m es" "\<forall>e \<in> set es. entry_ok m e"
    and "seen \<Longrightarrow> \<exists>p. has_prefix zpath p \<and> (\<forall>e \<in> set es. strcmp p (entry_name m e) \<le> 0)"
  shows "extract_loop zl malloc_ok realloc_ok flags ts cb a m zpath es seen h log w
    = extract_all zl malloc_ok realloc_ok flags ts cb a m (filter (under zpath m) es) h log w"
  using assms
proof (induction es arbitrary: seen h log w)
  case (Cons e es)
  have ord: "by_name.ordered m es" "\<forall>f \<in> set es. strcmp (entry_name m e) (entry_name m f) \<le> 0"
    using Cons.prems(1) by (simp_all add: by_name.ordered_def)
  have ok: "\<forall>e \<in> set es. entry_ok m e" "entry_ok m e" using Cons.prems(2) by simp_all
  note test = name_test [OF ok(2), of zpath]
  show ?case
  proof (cases "under zpath m e")
    case False
    show ?thesis
    proof (cases seen)
      case True
      with Cons.prems(3) obtain p where p: "has_prefix zpath p" "strcmp p (entry_name m e) \<le> 0" by auto
      have "\<not> under zpath m f" if "f \<in> set es" for f
        using prefix_convex [OF p(1) _ p(2)] ord(2) that False unfolding under_def by blast
      then have "filter (under zpath m) es = []" by (simp add: filter_empty_conv)
      with True False test show ?thesis by simp
    next
      case F: False
      then show ?thesis using False test Cons.IH [OF ord(1) ok(1), of False] by simp
    qed
  next
    case True
    have seen: "\<exists>p. has_prefix zpath p \<and> (\<forall>e \<in> set es. strcmp p (entry_name m e) \<le> 0)"
      using True ord(2) unfolding under_def by blast
    have IH: "extract_loop zl malloc_ok realloc_ok flags ts cb a m zpath es True h log w
        = extract_all zl malloc_ok realloc_ok flags ts cb a m (filter (under zpath m) es) h log w" for h log and w :: "'f world"
      by (rule Cons.IH [OF ord(1) ok(1)]) (rule seen)
    have "extract_loop zl malloc_ok realloc_ok flags ts cb a m zpath (e # es) seen h log w = do {
        (ctl, h, log, w) \<leftarrow> extract_match zl malloc_ok realloc_ok flags ts cb a m e h log w;
        case ctl of Break good \<Rightarrow> Some (good, log, w)
        | Continue \<Rightarrow> extract_loop zl malloc_ok realloc_ok flags ts cb a m zpath es True h log w }"
      using True test by simp
    also have "\<dots> = extract_all zl malloc_ok realloc_ok flags ts cb a m (e # filter (under zpath m) es) h log w"
      unfolding IH by simp
    finally show ?thesis using True by simp
  qed
qed simp

lemma entry_name_chars: "entry_ok m e \<Longrightarrow> NUL \<notin> set (entry_name m e)"
  by (auto simp: entry_ok_def validFilename_def list_all_iff)

definition target_of :: "string \<Rightarrow> string \<Rightarrow> buffer \<Rightarrow> ZipEntry \<Rightarrow> string" where
  "target_of targetDir zpath m e = dir_slash targetDir @ drop (length zpath) (entry_name m e)"

lemma match_path:
  assumes h: "helper_ok targetDir zpath h" and e: "entry_ok m e" "under zpath m e" and td: "NUL \<notin> set targetDir"
  obtains (failed) h' where "targetEntryPath realloc_ok h (entry_name m e) = Some (None, h')" "\<not> (\<forall>n. realloc_ok n)"
    | (made) h' where "targetEntryPath realloc_ok h (entry_name m e) = Some (Some (target_of targetDir zpath m e), h')" "helper_ok targetDir zpath h'"
proof -
  have "length zpath \<le> length (entry_name m e)" using e(2) by (auto simp: under_def has_prefix_iff)
  from targetEntryPath_ok [OF h this entry_name_chars [OF e(1)] td, of realloc_ok] failed made
  show thesis by (auto simp: target_of_def)
qed

lemma dry_run_all:
  assumes "helper_ok targetDir zpath h" "\<forall>e \<in> set es. entry_ok m e \<and> under zpath m e" "NUL \<notin> set targetDir" "\<forall>n. realloc_ok n"
    and "flags AND MZ_EXTRACT_DRY_RUN \<noteq> 0"
  shows "extract_all zl malloc_ok realloc_ok flags ts True a m es h log w = Some (True, log @ map (target_of targetDir zpath m) es, w)"
  using assms(1,2)
proof (induction es arbitrary: h log)
  case (Cons e es)
  have e: "entry_ok m e" "under zpath m e" using Cons.prems(2) by simp_all
  from Cons.prems(1) e assms(3) show ?case
  proof (cases rule: match_path [where realloc_ok = realloc_ok])
    case (failed h')
    with assms(4) show ?thesis by simp
  next
    case (made h')
    with Cons.IH [OF made(2)] Cons.prems(2) assms(5) show ?thesis by (simp add: extract_match_def Let_def)
  qed
qed simp

text \<open>With \<open>MZ_EXTRACT_DRY_RUN\<close> and memory, \<open>mzExtractRecursive\<close> on an opened archive changes nothing, returns
  true and gives the callback exactly the target paths of the entries below \<open>zipDir\<close>, in order, although it leaves its
  loop at the first entry behind them.\<close>

theorem mzExtractRecursive_dry_run:
  assumes a: "archive_inv m a" "z_map a = Some m" "z_pEntries a = Some es"
    and dirs: "zipDir = [] \<or> hd zipDir \<noteq> CHR ''/''" "targetDir \<noteq> []" "hd targetDir = CHR ''/''" "NUL \<notin> set targetDir"
    and mem: "\<forall>n. malloc_ok n" "\<forall>n. realloc_ok n" and dry: "flags AND MZ_EXTRACT_DRY_RUN \<noteq> 0"
  shows "mzExtractRecursive zl malloc_ok realloc_ok a zipDir targetDir flags ts True w
    = Some (True, map (target_of targetDir (zip_path zipDir) m) (filter (under (zip_path zipDir) m) es), w)"
proof -
  define zpath where "zpath = zip_path zipDir"
  define h where "h = \<lparr>h_targetDir = targetDir, h_zipDir = zpath, h_buf = None, h_targetDirLen = length targetDir, h_zipDirLen = length zpath, h_bufLen = 0\<rparr>"
  have h: "helper_ok targetDir zpath h" by (simp add: h_def helper_ok_def)
  from a have es: "length es = z_numEntries a" "by_name.ordered m es" "\<forall>e \<in> set es. entry_ok m e" by (auto simp: archive_inv_def)
  have "extract_loop zl malloc_ok realloc_ok flags ts True a m zpath es False h [] w
      = Some (True, map (target_of targetDir zpath m) (filter (under zpath m) es), w)"
    using dry_run_all [OF h _ dirs(4) mem(2) dry, of "filter (under zpath m) es" m zl malloc_ok ts a "[]" w] es(3)
    by (subst loop_reference [OF es(2,3)]) simp_all
  then show ?thesis
    using dirs mem a(2,3) es(1) by (auto simp: mzExtractRecursive_def Let_def zpath_def [symmetric] h_def)
qed

section \<open>What has been extracted\<close>

text \<open>\<open>kept P w w'\<close>: every file that exists at a path outside \<open>P\<close> stays as it is.\<close>

definition kept :: "(string \<Rightarrow> bool) \<Rightarrow> 'f world \<Rightarrow> 'f world \<Rightarrow> bool" where
  "kept P w w' \<longleftrightarrow> (\<forall>q f. \<not> P q \<longrightarrow> lookup_file w q = Some f \<longrightarrow> lookup_file w' q = Some f)"

definition holds :: "'f world \<Rightarrow> string \<Rightarrow> buffer \<Rightarrow> bool" where
  "holds w q d \<longleftrightarrow> (\<exists>f. lookup_file w q = Some f \<and> f_data f = d)"

definition is_directory :: "buffer \<Rightarrow> ZipEntry \<Rightarrow> bool" where
  "is_directory m e \<longleftrightarrow> last (entry_name m e) = CHR ''/''"

lemma kept_trans: "kept P w w1 \<Longrightarrow> kept Q w1 w2 \<Longrightarrow> (\<And>q. P q \<or> Q q \<Longrightarrow> R q) \<Longrightarrow> kept R w w2"
  unfolding kept_def by blast

lemma grown_kept: "grown P w w' \<Longrightarrow> kept Q w w'"
  by (simp add: grown_def kept_def)

lemma same_kept: "files w' = files w \<Longrightarrow> kept Q w w'"
  by (simp add: kept_def lookup_file_def)

lemma kept_holds: "kept P w w' \<Longrightarrow> holds w q d \<Longrightarrow> \<not> P q \<Longrightarrow> holds w' q d"
  unfolding kept_def holds_def by blast

lemma creat_outcome:
  assumes "creat path mode w = (made, w1)"
  shows "kept ((=) path) w w1" "made \<Longrightarrow> \<exists>f. lookup_file w1 path = Some f \<and> f_data f = []"
proof -
  obtain good w0 where s: "sys_ok w = (good, w0)" by fastforce
  have l: "lookup_file w0 = lookup_file w" using sys_ok_files [OF s] by (simp add: lookup_file_def fun_eq_iff)
  show "kept ((=) path) w w1" using assms s l
    by (auto simp: creat_def kept_def split: if_splits option.splits)
  show "\<exists>f. lookup_file w1 path = Some f \<and> f_data f = []" if made using assms s that
    by (auto simp: creat_def split: if_splits option.splits)
qed

lemma extract_file_outcome:
  assumes inf: "inflates zl stream" and a: "z_fd a = Some m" and e: "entry_content zl stream m e plain"
  shows "\<exists>ctl w'. extract_file zl timestamp a e path w = Some (ctl, w') \<and> kept ((=) path) w w'
    \<and> (ctl = Continue \<longrightarrow> holds w' path plain)"
proof -
  obtain made w1 where c: "creat path UNZIP_FILEMODE w = (made, w1)" by fastforce
  show ?thesis
  proof (cases made)
    case False
    with c creat_outcome(1) [OF c] show ?thesis by (simp add: extract_file_def)
  next
    case True
    with creat_outcome(2) [OF c] obtain f where f: "lookup_file w1 path = Some f" "f_data f = []" by blast
    from extract_to_file [OF inf a e f(1)] f(2) obtain ret w2 where r: "mzExtractZipEntryToFile zl a e path w1 = Some (ret, w2)"
      "ret \<longrightarrow> holds w2 path plain" "\<forall>q. q \<noteq> path \<longrightarrow> lookup_file w2 q = lookup_file w1 q" unfolding holds_def by auto
    have k2: "kept ((=) path) w w2" using creat_outcome(1) [OF c] r(3) by (simp add: kept_def)
    obtain t w3 where t: "utime path w2 = (t, w3)" by fastforce
    then have l: "lookup_file w3 = lookup_file w2"
      using sys_ok_files [of w2 t w3] by (simp add: utime_def lookup_file_def fun_eq_iff)
    from k2 have k3: "kept ((=) path) w w3" "holds w3 path plain \<longleftrightarrow> holds w2 path plain" by (simp_all add: kept_def holds_def l)
    show ?thesis using True c r(1,2) t k2 k3 by (cases ret; cases timestamp; cases t) (simp_all add: extract_file_def)
  qed
qed

lemma extract_file_complete:
  assumes inf: "inflates zl stream" and a: "z_fd a = Some m" and e: "entry_content zl stream m e plain"
    and w: "answers w = []" "\<And>f. lookup_file w path = Some f \<Longrightarrow> \<not> is_dir f"
  shows "\<exists>w'. extract_file zl timestamp a e path w = Some (Continue, w') \<and> answers w' = [] \<and> (\<forall>q. q \<noteq> path \<longrightarrow> lookup_file w' q = lookup_file w q)"
proof -
  obtain f w1 where c: "creat path UNZIP_FILEMODE w = (True, w1)" "lookup_file w1 path = Some f" "answers w1 = []" "\<And>q. q \<noteq> path \<Longrightarrow> lookup_file w1 q = lookup_file w q"
    using w that by (cases "lookup_file w path") (simp_all add: creat_def sys_ok_plain)
  from extract_to_file [OF inf a e c(2)] obtain ret w2 where x: "mzExtractZipEntryToFile zl a e path w1 = Some (ret, w2)"
    "\<forall>q. q \<noteq> path \<longrightarrow> lookup_file w2 q = lookup_file w1 q" "answers w1 = [] \<longrightarrow> ret \<and> answers w2 = []" by (elim exE conjE)
  then have r: "mzExtractZipEntryToFile zl a e path w1 = Some (True, w2)" "answers w2 = []" "\<forall>q. q \<noteq> path \<longrightarrow> lookup_file w2 q = lookup_file w1 q"
    using c(3) by simp_all
  then have "extract_file zl timestamp a e path w = Some (Continue, w2)" using c(1) by (cases timestamp) (simp_all add: extract_file_def utime_def sys_ok_plain)
  with r(2,3) c(4) show ?thesis by auto
qed

lemma UNZIP_DIRMODE_type: "UNZIP_DIRMODE AND S_IFMT = 0"
  by (simp add: UNZIP_DIRMODE_def S_IFMT_def)

lemma extract_entry_outcome:
  assumes inf: "inflates zl stream" and a: "z_fd a = Some m" and e: "\<not> is_directory m e \<Longrightarrow> entry_content zl stream m e plain"
    and flags: "flags AND MZ_EXTRACT_FILES_ONLY \<noteq> 0" and name: "entry_name m e \<noteq> []"
  shows "\<exists>ctl w'. extract_entry zl malloc_ok flags timestamp a m e path w = Some (ctl, w') \<and> kept ((=) path) w w'
    \<and> (ctl = Continue \<longrightarrow> \<not> is_directory m e \<longrightarrow> holds w' path plain)"
proof (cases "is_directory m e")
  case True
  with flags name show ?thesis by (simp add: extract_entry_def is_directory_def kept_def)
next
  case False
  from dirCreateHierarchy_total [OF UNZIP_DIRMODE_type, of malloc_ok path timestamp True w] obtain ret w1 where
    d: "dirCreateHierarchy malloc_ok path UNZIP_DIRMODE timestamp True w = Some (ret, w1)" "grown (\<lambda>q. has_prefix q path) w w1" by blast
  note k = grown_kept [OF d(2), of "(=) path"]
  from extract_file_outcome [OF inf a e [OF False], of timestamp path w1] obtain ctl w2 where
    f: "extract_file zl timestamp a e path w1 = Some (ctl, w2)" "kept ((=) path) w1 w2" "ctl = Continue \<longrightarrow> holds w2 path plain" by blast
  have "kept ((=) path) w w2" by (rule kept_trans [OF k f(2)]) simp
  with False d(1) k f flags name show ?thesis by (simp add: extract_entry_def is_directory_def)
qed

lemma target_of_inj:
  assumes "under zpath m e" "under zpath m f" "target_of targetDir zpath m e = target_of targetDir zpath m f"
  shows "entry_name m e = entry_name m f"
  using assms by (auto simp: under_def has_prefix_iff target_of_def)

lemma extract_all_outcome:
  fixes w :: "'f world"
  assumes inf: "inflates zl stream" and a: "z_fd a = Some m" and flags: "flags AND MZ_EXTRACT_FILES_ONLY \<noteq> 0" "flags AND MZ_EXTRACT_DRY_RUN = 0"
    and td: "NUL \<notin> set targetDir"
    and es: "\<forall>e \<in> set es. entry_ok m e \<and> under zpath m e \<and> entry_name m e \<noteq> [] \<and> (\<not> is_directory m e \<longrightarrow> entry_content zl stream m e (plain e))"
    and dist: "distinct (map (entry_name m) es)" and h: "helper_ok targetDir zpath h"
  shows "\<exists>r n w'. extract_all zl malloc_ok realloc_ok flags ts True a m es h log w
      = Some (r, log @ map (target_of targetDir zpath m) (take n es), w')
    \<and> kept (\<lambda>q. q \<in> target_of targetDir zpath m ` set es) w w'
    \<and> (\<forall>e \<in> set (take n es). \<not> is_directory m e \<longrightarrow> holds w' (target_of targetDir zpath m e) (plain e))"
  using es dist h
proof (induction es arbitrary: h log w)
  case Nil
  show ?case by (rule exI [of _ True], rule exI [of _ 0], rule exI [of _ w]) (simp add: kept_def)
next
  case (Cons e es)
  let ?t = "target_of targetDir zpath m"
  have e: "entry_ok m e" "under zpath m e" "entry_name m e \<noteq> []" "\<not> is_directory m e \<Longrightarrow> entry_content zl stream m e (plain e)"
    and es: "\<forall>e \<in> set es. entry_ok m e \<and> under zpath m e \<and> entry_name m e \<noteq> [] \<and> (\<not> is_directory m e \<longrightarrow> entry_content zl stream m e (plain e))"
    and dist: "distinct (map (entry_name m) es)" "entry_name m e \<notin> entry_name m ` set es"
    using Cons.prems(1,2) by simp_all
  have fresh: "?t e \<notin> ?t ` set es"
  proof
    assume "?t e \<in> ?t ` set es"
    then obtain f where f: "?t e = ?t f" "f \<in> set es" ..
    with es have "under zpath m f" by blast
    from target_of_inj [OF e(2) this f(1)] f(2) dist(2) show False by blast
  qed
  have stop: ?case if "extract_all zl malloc_ok realloc_ok flags ts True a m (e # es) h log w = Some (r, log, w')" "kept ((=) (?t e)) w w'" for r w'
    using that by (intro exI [of _ r] exI [of _ 0] exI [of _ w']) (auto simp: kept_def)
  from Cons.prems(3) e(1,2) td show ?case
  proof (cases rule: match_path [where realloc_ok = realloc_ok])
    case (failed h')
    show ?thesis by (rule stop [of False w]) (simp_all add: failed(1) extract_match_def kept_def)
  next
    case (made h')
    from extract_entry_outcome [OF inf a e(4) flags(1) e(3), of malloc_ok ts "?t e" w] obtain ctl w1 where
      x: "extract_entry zl malloc_ok flags ts a m e (?t e) w = Some (ctl, w1)" "kept ((=) (?t e)) w w1"
        "ctl = Continue \<longrightarrow> \<not> is_directory m e \<longrightarrow> holds w1 (?t e) (plain e)" by blast
    show ?thesis
    proof (cases ctl)
      case (Break r)
      show ?thesis by (rule stop [of r w1]) (use flags(2) x Break made(1) in \<open>simp_all add: extract_match_def\<close>)
    next
      case Continue
      from Cons.IH [OF es dist(1) made(2), of "log @ [?t e]" w1] obtain r n w' where
        ih: "extract_all zl malloc_ok realloc_ok flags ts True a m es h' (log @ [?t e]) w1 = Some (r, (log @ [?t e]) @ map ?t (take n es), w')"
          "kept (\<lambda>q. q \<in> ?t ` set es) w1 w'" "\<forall>e \<in> set (take n es). \<not> is_directory m e \<longrightarrow> holds w' (?t e) (plain e)" by blast
      have "extract_all zl malloc_ok realloc_ok flags ts True a m (e # es) h log w = Some (r, log @ map ?t (take (Suc n) (e # es)), w')"
        using flags(2) x(1) Continue made(1) ih(1) by (simp add: extract_match_def)
      moreover have "kept (\<lambda>q. q \<in> ?t ` set (e # es)) w w'" by (rule kept_trans [OF x(2) ih(2)]) auto
      moreover have "\<not> is_directory m e \<longrightarrow> holds w' (?t e) (plain e)" using kept_holds [OF ih(2)] x(3) Continue fresh by blast
      ultimately show ?thesis using ih(3) by (intro exI [of _ r] exI [of _ "Suc n"] exI [of _ w']) simp
    qed
  qed
qed

text \<open>Where everything is there that an extraction needs: the directory of the target, other than the root, and no directory at the target.\<close>

definition room_for :: "'f world \<Rightarrow> string \<Rightarrow> bool" where
  "room_for w path \<longleftrightarrow> last_slash path (length path - 1) \<noteq> 0 \<and> dir_at w (wanted_dir path True) \<and> (\<forall>f. lookup_file w path = Some f \<longrightarrow> \<not> is_dir f)"

lemma room_for_other:
  assumes "room_for w p" "room_for w path" "p \<noteq> path" "\<forall>q. q \<noteq> path \<longrightarrow> lookup_file w' q = lookup_file w q"
  shows "room_for w' p"
  using assms unfolding room_for_def dir_at_def by metis

lemma extract_all_complete:
  fixes w :: "'f world"
  assumes inf: "inflates zl stream" and a: "z_fd a = Some m" and flags: "flags AND MZ_EXTRACT_FILES_ONLY \<noteq> 0" "flags AND MZ_EXTRACT_DRY_RUN = 0"
    and td: "NUL \<notin> set targetDir"
    and es: "\<forall>e \<in> set es. entry_ok m e \<and> under zpath m e \<and> entry_name m e \<noteq> [] \<and> (\<not> is_directory m e \<longrightarrow> entry_content zl stream m e (plain e))"
    and dist: "distinct (map (entry_name m) es)" and h: "helper_ok targetDir zpath h"
    and mem: "\<forall>n. malloc_ok n \<and> realloc_ok n" and w: "answers w = []" "\<forall>e \<in> set es. \<not> is_directory m e \<longrightarrow> room_for w (target_of targetDir zpath m e)"
  shows "\<exists>w'. extract_all zl malloc_ok realloc_ok flags ts True a m es h log w = Some (True, log @ map (target_of targetDir zpath m) es, w')"
  using es dist h w
proof (induction es arbitrary: h log w)
  case (Cons e es)
  let ?t = "target_of targetDir zpath m"
  have e: "entry_ok m e" "under zpath m e" "entry_name m e \<noteq> []" "\<not> is_directory m e \<Longrightarrow> entry_content zl stream m e (plain e)" using Cons.prems(1) by simp_all
  have other: "?t f \<noteq> ?t e" if "f \<in> set es" for f
  proof
    assume "?t f = ?t e"
    moreover have "under zpath m f" using Cons.prems(1) that by simp
    ultimately have "entry_name m f = entry_name m e" using target_of_inj e(2) by blast
    with Cons.prems(2) that show False by (metis distinct.simps(2) image_eqI list.set_map list.simps(9))
  qed
  obtain h' where m: "targetEntryPath realloc_ok h (entry_name m e) = Some (Some (?t e), h')" "helper_ok targetDir zpath h'"
    by (rule match_path [OF Cons.prems(3) e(1,2) td, where realloc_ok = realloc_ok]) (use mem in auto)
  have "\<exists>w1. extract_entry zl malloc_ok flags ts a m e (?t e) w = Some (Continue, w1) \<and> answers w1 = []
    \<and> (\<forall>f \<in> set es. \<not> is_directory m f \<longrightarrow> room_for w1 (?t f))"
  proof (cases "is_directory m e")
    case True
    with flags(1) e(3) Cons.prems(4,5) show ?thesis by (simp add: extract_entry_def is_directory_def)
  next
    case False
    then have room: "room_for w (?t e)" using Cons.prems(5) by simp
    then have there: "dirCreateHierarchy malloc_ok (?t e) UNZIP_DIRMODE ts True w = Some (0, w)"
      unfolding room_for_def using mem by (intro dirCreateHierarchy_there Cons.prems(4)) simp_all
    from extract_file_complete [OF inf a e(4) [OF False] Cons.prems(4), of "?t e" ts] room obtain w1 where
      x: "extract_file zl ts a e (?t e) w = Some (Continue, w1)" "answers w1 = []" "\<forall>q. q \<noteq> ?t e \<longrightarrow> lookup_file w1 q = lookup_file w q"
      unfolding room_for_def by blast
    have "room_for w1 (?t f)" if "f \<in> set es" "\<not> is_directory m f" for f
      using room_for_other [OF _ room other [OF that(1)] x(3)] Cons.prems(5) that by simp
    with x flags(1) e(3) False there show ?thesis by (simp add: extract_entry_def is_directory_def)
  qed
  then obtain w1 where x: "extract_entry zl malloc_ok flags ts a m e (?t e) w = Some (Continue, w1)" "answers w1 = []"
    "\<forall>f \<in> set es. \<not> is_directory m f \<longrightarrow> room_for w1 (?t f)" by blast
  from Cons.IH [OF _ _ m(2) x(2,3), of "log @ [?t e]"] Cons.prems(1,2) obtain w' where
    "extract_all zl malloc_ok realloc_ok flags ts True a m es h' (log @ [?t e]) w1 = Some (True, (log @ [?t e]) @ map ?t es, w')" by auto
  with m(1) x(1) flags(2) show ?case by (simp add: extract_match_def)
qed simp

text \<open>Paths that the kernel takes as they are: no symbolic links, and no component that is empty or stands for a directory.\<close>

definition link_free :: "'f world \<Rightarrow> bool" where
  "link_free w \<longleftrightarrow> (\<forall>q f. lookup_file w q = Some f \<longrightarrow> f_mode f AND S_IFMT \<noteq> 0xA000)"

definition plain_path :: "string \<Rightarrow> bool" where
  "plain_path p \<longleftrightarrow> (\<forall>a n b. p = a @ ''/'' @ n @ b \<longrightarrow> CHR ''/'' \<notin> set n \<longrightarrow> b = [] \<or> hd b = CHR ''/'' \<longrightarrow> n \<noteq> [] \<and> n \<noteq> ''.'' \<and> n \<noteq> ''..'')"

text \<open>C16: extracting with \<open>MZ_EXTRACT_FILES_ONLY\<close> and without \<open>MZ_EXTRACT_DRY_RUN\<close> from an opened archive with distinct names ends, whatever calls
  fail; the callback is given the targets of the first entries below \<open>zipDir\<close>, in order; every file it was told of holds
  the content of its entry at the end, and no existing file at another path than a target is changed. When no call fails and the
  directories are there, it is given all of them and true is returned. The system has no symbolic links and the targets are plain
  paths; the kernel would follow links to other files.\<close>

theorem mzExtractRecursive_reported:
  assumes inf: "inflates zl stream"
    and a: "archive_inv m a" "z_map a = Some m" "z_fd a = Some m" "z_pEntries a = Some es" "distinct (map (entry_name m) es)"
    and content: "\<forall>e \<in> set es. entry_name m e \<noteq> [] \<and> (under (zip_path zipDir) m e \<longrightarrow> \<not> is_directory m e \<longrightarrow> entry_content zl stream m e (plain e))"
    and dirs: "zipDir = [] \<or> hd zipDir \<noteq> CHR ''/''" "targetDir \<noteq> []" "hd targetDir = CHR ''/''" "NUL \<notin> set targetDir"
    and flags: "flags AND MZ_EXTRACT_FILES_ONLY \<noteq> 0" "flags AND MZ_EXTRACT_DRY_RUN = 0" "malloc_ok (length zipDir + 2)"
    and links: "link_free w" and paths: "\<forall>e \<in> set es. under (zip_path zipDir) m e \<longrightarrow> \<not> is_directory m e \<longrightarrow> plain_path (target_of targetDir (zip_path zipDir) m e)"
  shows "\<exists>r n w'. mzExtractRecursive zl malloc_ok realloc_ok a zipDir targetDir flags ts True w
      = Some (r, map (target_of targetDir (zip_path zipDir) m) (take n (filter (under (zip_path zipDir) m) es)), w')
    \<and> kept (\<lambda>q. q \<in> target_of targetDir (zip_path zipDir) m ` {e \<in> set es. under (zip_path zipDir) m e}) w w'
    \<and> (\<forall>e \<in> set (take n (filter (under (zip_path zipDir) m) es)). \<not> is_directory m e
         \<longrightarrow> holds w' (target_of targetDir (zip_path zipDir) m e) (plain e))
    \<and> (answers w = [] \<longrightarrow> (\<forall>n. malloc_ok n \<and> realloc_ok n)
        \<longrightarrow> (\<forall>e \<in> set es. under (zip_path zipDir) m e \<longrightarrow> \<not> is_directory m e \<longrightarrow> room_for w (target_of targetDir (zip_path zipDir) m e))
        \<longrightarrow> r \<and> take n (filter (under (zip_path zipDir) m) es) = filter (under (zip_path zipDir) m) es)"
proof -
  define zpath where "zpath = zip_path zipDir"
  define us where "us = filter (under zpath m) es"
  define h where "h = \<lparr>h_targetDir = targetDir, h_zipDir = zpath, h_buf = None, h_targetDirLen = length targetDir, h_zipDirLen = length zpath, h_bufLen = 0\<rparr>"
  have h: "helper_ok targetDir zpath h" by (simp add: h_def helper_ok_def)
  from a have es: "length es = z_numEntries a" "by_name.ordered m es" "\<forall>e \<in> set es. entry_ok m e" by (auto simp: archive_inv_def)
  have us: "\<forall>e \<in> set us. entry_ok m e \<and> under zpath m e \<and> entry_name m e \<noteq> [] \<and> (\<not> is_directory m e \<longrightarrow> entry_content zl stream m e (plain e))"
    using es(3) content by (simp add: us_def zpath_def)
  have dist: "distinct (map (entry_name m) us)" using a(5) by (simp add: us_def distinct_map_filter)
  from extract_all_outcome [OF inf a(3) flags(1,2) dirs(4) us dist h, of malloc_ok realloc_ok ts "[]" w]
  obtain r n w' where r: "extract_all zl malloc_ok realloc_ok flags ts True a m us h [] w = Some (r, [] @ map (target_of targetDir zpath m) (take n us), w')"
    "kept (\<lambda>q. q \<in> target_of targetDir zpath m ` set us) w w'"
    "\<forall>e \<in> set (take n us). \<not> is_directory m e \<longrightarrow> holds w' (target_of targetDir zpath m e) (plain e)" by blast
  have all: "r \<and> take n us = us"
    if "answers w = []" "\<forall>n. malloc_ok n \<and> realloc_ok n" "\<forall>e \<in> set us. \<not> is_directory m e \<longrightarrow> room_for w (target_of targetDir zpath m e)"
  proof -
    from extract_all_complete [OF inf a(3) flags(1,2) dirs(4) us dist h, of malloc_ok realloc_ok w ts "[]"] that r(1)
    have "r" "map (target_of targetDir zpath m) (take n us) = map (target_of targetDir zpath m) us" by auto
    from this(2) have "length (take n us) = length us" by (metis length_map)
    with \<open>r\<close> show ?thesis by simp
  qed
  have "extract_loop zl malloc_ok realloc_ok flags ts True a m zpath es False h [] w = Some (r, map (target_of targetDir zpath m) (take n us), w')"
    using r(1) by (subst loop_reference [OF es(2,3)]) (simp_all add: us_def)
  then have "mzExtractRecursive zl malloc_ok realloc_ok a zipDir targetDir flags ts True w = Some (r, map (target_of targetDir zpath m) (take n us), w')"
    using dirs flags(3) a(2,4) es(1) by (auto simp: mzExtractRecursive_def Let_def zpath_def [symmetric] h_def)
  with r(2,3) all show ?thesis by (intro exI [of _ r] exI [of _ n] exI [of _ w']) (simp add: zpath_def us_def)
qed

section \<open>Example\<close>

definition how_member :: "nat \<Rightarrow> member" where
  "how_member how = sample_member\<lparr>mb_how := how\<rparr>"

lemma how_image:
  "how < 65536 \<Longrightarrow> member_ok (how_member how)" "length (zip_image [how_member how] []) = 107" "eocd_position [how_member how] = 85"
  by (simp_all add: how_member_def sample_member_def member_ok_def validFilename_def PATH_MAX_def zip_image_def eocd_position_def
      LOCHDR_def CENHDR_def ENDHDR_def)

definition how_opened :: "nat \<Rightarrow> ZipArchive \<Rightarrow> bool" where
  "how_opened how a \<longleftrightarrow> mzOpenZipArchive (\<lambda>_. True) ''/u.zip'' (zip_world (zip_image [how_member how] []))
     = Some (0, a, zip_world (zip_image [how_member how] []))"

lemma sample_opened:
  assumes "how < 65536"
  obtains a e where "how_opened how a" "z_pEntries a = Some [e]" "z_map a = Some (zip_image [how_member how] [])"
    "z_fd a = Some (zip_image [how_member how] [])" "archive_inv (zip_image [how_member how] []) a"
    "entry_name (zip_image [how_member how] []) e = ''a/b''" "compression e = how"
    "entryOffset e + compLen e \<le> length (zip_image [how_member how] [])"
    "take (compLen e) (drop (entryOffset e) (zip_image [how_member how] [])) = [1, 2, 3]"
proof -
  let ?g = "how_member how" and ?f = "\<lparr>f_data = zip_image [how_member how] [], f_mode = 0, f_uid = 0, f_gid = 0, f_reg = True\<rparr>"
  let ?m = "zip_image [?g] []"
  have f: "lookup_file (zip_world ?m) ''/u.zip'' = Some ?f" "answers (zip_world ?m) = []" by (simp_all add: zip_world_def lookup_file_def)
  have "\<exists>a es. mzOpenZipArchive (\<lambda>_. True) ''/u.zip'' (zip_world ?m) = Some (0, a, zip_world ?m) \<and> z_pEntries a = Some es
      \<and> length es = length [?g] \<and> (\<forall>g \<in> set [?g]. \<exists>i < length es. mzFindZipEntry a (mb_name g) = Some (Some i) \<and> represents ?m (es ! i) g)"
    by (rule zip_image_found [where f = ?f]) (use how_image [of how] assms f in \<open>simp_all add: ENDHDR_def\<close>)
  then obtain a es where a: "how_opened how a" "z_pEntries a = Some es" "length es = 1" "represents ?m (es ! 0) ?g"
    by (auto simp: how_opened_def)
  from a(3) obtain e where e: "es = [e]" by (cases es) auto
  have inv: "z_map a = Some ?m" "z_fd a = Some ?m" "archive_inv ?m a"
    using mzOpenZipArchive_total [of "\<lambda>_. True" "''/u.zip''" "zip_world ?m"] a(1) f(1) by (auto simp: how_opened_def)
  then have "entry_ok ?m e" using a(2) e by (auto simp: archive_inv_def)
  then have "entryOffset e + compLen e \<le> length ?m" by (simp add: entry_ok_def)
  with a e inv that show thesis by (simp add: represents_def how_member_def sample_member_def)
qed

theorem mzExtractRecursive_dry_run_witness:
  "\<exists>a. how_opened STORED a
    \<and> mzExtractRecursive plain_inflater (\<lambda>_. True) (\<lambda>_. True) a ''a'' ''/t'' MZ_EXTRACT_DRY_RUN False True empty_world
      = Some (True, [''/t/b''], empty_world)"
proof -
  have s: "STORED < 65536" by (simp add: STORED_def)
  obtain a e where a: "how_opened STORED a" "z_pEntries a = Some [e]" "z_map a = Some (zip_image [how_member STORED] [])"
    "archive_inv (zip_image [how_member STORED] []) a" "entry_name (zip_image [how_member STORED] []) e = ''a/b''"
    by (rule sample_opened [OF s])
  from mzExtractRecursive_dry_run [OF a(4,3,2), of "''a''" "''/t''" "\<lambda>_. True" "\<lambda>_. True" MZ_EXTRACT_DRY_RUN plain_inflater False
      empty_world] a(1,5)
  show ?thesis by (intro exI [of _ a]) (simp add: zip_path_def under_def target_of_def dir_slash_def MZ_EXTRACT_DRY_RUN_def)
qed

definition target_world :: "unit world" where
  "target_world = empty_world\<lparr>files := [(''/t'', \<lparr>f_data = [], f_mode = 0x41ED, f_uid = 0, f_gid = 0, f_reg = False\<rparr>)]\<rparr>"

lemma target_world_plain: "link_free target_world" "plain_path ''/t/b''" "room_for target_world ''/t/b''" "answers target_world = []"
proof -
  show "link_free target_world" by (auto simp: link_free_def target_world_def lookup_file_def S_IFMT_def split: if_splits)
  show "plain_path ''/t/b''" unfolding plain_path_def by (auto simp: Cons_eq_append_conv)
  show "room_for target_world ''/t/b''" unfolding room_for_def
  proof (intro conjI allI impI)
    have "lookup_file target_world (wanted_dir ''/t/b'' True) = Some \<lparr>f_data = [], f_mode = 0x41ED, f_uid = 0, f_gid = 0, f_reg = False\<rparr>"
      "is_dir \<lparr>f_data = [], f_mode = 0x41ED, f_uid = 0, f_gid = 0, f_reg = False\<rparr>" by code_simp+
    then show "dir_at target_world (wanted_dir ''/t/b'' True)" unfolding dir_at_def by blast
    show "last_slash ''/t/b'' (length ''/t/b'' - 1) \<noteq> 0" by code_simp
  qed (simp add: target_world_def lookup_file_def)
  show "answers target_world = []" by (simp add: target_world_def empty_world_def)
qed

theorem mzExtractRecursive_reported_witness:
  "\<exists>a w'. how_opened STORED a
    \<and> mzExtractRecursive plain_inflater (\<lambda>_. True) (\<lambda>_. True) a ''a'' ''/t'' MZ_EXTRACT_FILES_ONLY False True target_world
      = Some (True, [''/t/b''], w') \<and> holds w' ''/t/b'' [1, 2, 3]"
proof -
  let ?m = "zip_image [how_member STORED] []"
  have s: "STORED < 65536" by (simp add: STORED_def)
  obtain a e where a: "how_opened STORED a" "z_pEntries a = Some [e]" "z_map a = Some ?m" "z_fd a = Some ?m"
    "archive_inv ?m a" "entry_name ?m e = ''a/b''" "compression e = STORED" "entryOffset e + compLen e \<le> length ?m"
    "take (compLen e) (drop (entryOffset e) ?m) = [1, 2, 3]" by (rule sample_opened [OF s])
  have c: "entry_content plain_inflater plain_stream ?m e [1, 2, 3]" using a(7,8,9) by (simp add: entry_content_def)
  have u: "under (zip_path ''a'') ?m e" "target_of ''/t'' (zip_path ''a'') ?m e = ''/t/b''" "\<not> is_directory ?m e"
    using a(6) by (simp_all add: under_def zip_path_def target_of_def dir_slash_def is_directory_def)
  from mzExtractRecursive_reported [OF plain_inflates a(5,3,4,2), of "''a''" "\<lambda>_. [1, 2, 3]" "''/t''" MZ_EXTRACT_FILES_ONLY "\<lambda>_. True" target_world "\<lambda>_. True" False]
    a(6) c u target_world_plain
  obtain r n w' where r: "mzExtractRecursive plain_inflater (\<lambda>_. True) (\<lambda>_. True) a ''a'' ''/t'' MZ_EXTRACT_FILES_ONLY False True target_world
      = Some (r, map (target_of ''/t'' (zip_path ''a'') ?m) (take n [e]), w')"
    "\<forall>e \<in> set (take n [e]). \<not> is_directory ?m e \<longrightarrow> holds w' (target_of ''/t'' (zip_path ''a'') ?m e) [1, 2, 3]" "r" "take n [e] = [e]"
    by (auto simp: MZ_EXTRACT_FILES_ONLY_def MZ_EXTRACT_DRY_RUN_def)
  with u(2,3) a(1) show ?thesis by (intro exI [of _ a] exI [of _ w']) simp
qed

text \<open>When the only entry below \<open>zipDir\<close> is a file that cannot be extracted (here: compressed in an unknown way),
  \<open>mzExtractRecursive\<close> creates the file, leaves it empty, stops, and returns true: the failure is assigned to an inner
  variable \<open>ok\<close> that hides the one that is returned.\<close>

theorem mzExtractRecursive_hides_failure:
  assumes a: "archive_inv m a" "z_map a = Some m" "z_fd a = Some m" "z_pEntries a = Some es" "filter (under (zip_path zipDir) m) es = [e]"
    and e: "entry_name m e \<noteq> []" "\<not> is_directory m e" "compression e \<noteq> STORED" "compression e \<noteq> DEFLATED"
    and dirs: "zipDir = [] \<or> hd zipDir \<noteq> CHR ''/''" "targetDir \<noteq> []" "hd targetDir = CHR ''/''" "NUL \<notin> set targetDir"
    and flags: "flags AND MZ_EXTRACT_FILES_ONLY \<noteq> 0" "flags AND MZ_EXTRACT_DRY_RUN = 0" "\<forall>n. malloc_ok n" "\<forall>n. realloc_ok n"
    and w: "dirCreateHierarchy malloc_ok (target_of targetDir (zip_path zipDir) m e) UNZIP_DIRMODE ts True w = Some (0, w1)"
      "answers w1 = []" "lookup_file w1 (target_of targetDir (zip_path zipDir) m e) = None"
  shows "\<exists>w'. mzExtractRecursive zl malloc_ok realloc_ok a zipDir targetDir flags ts True w = Some (True, [], w')
    \<and> holds w' (target_of targetDir (zip_path zipDir) m e) []"
proof -
  define zpath where "zpath = zip_path zipDir"
  define t where "t = target_of targetDir zpath m e"
  define h where "h = \<lparr>h_targetDir = targetDir, h_zipDir = zpath, h_buf = None, h_targetDirLen = length targetDir, h_zipDirLen = length zpath, h_bufLen = 0\<rparr>"
  define w' where "w' = store_file w1 t \<lparr>f_data = [], f_mode = UNZIP_FILEMODE, f_uid = 0, f_gid = 0, f_reg = True\<rparr>"
  have h: "helper_ok targetDir zpath h" by (simp add: h_def helper_ok_def)
  from a have es: "length es = z_numEntries a" "by_name.ordered m es" "\<forall>e \<in> set es. entry_ok m e" by (auto simp: archive_inv_def)
  have e': "e \<in> set es" "under zpath m e" using a(5) [THEN arg_cong [of _ _ set]] by (auto simp: zpath_def)
  have "creat t UNZIP_FILEMODE w1 = (True, w')"
    using w(2,3) by (simp add: creat_def sys_ok_def answer_def w'_def t_def zpath_def)
  then have f: "extract_file zl ts a e t w1 = Some (Break True, w')"
    using a(3) e(3,4) by (simp add: extract_file_def mzExtractZipEntryToFile_def mzProcessZipEntryContents_def)
  from h bspec [OF es(3) e'(1)] e'(2) dirs(4)
  have "extract_all zl malloc_ok realloc_ok flags ts True a m [e] h [] w = Some (True, [], w')"
  proof (cases rule: match_path [where realloc_ok = realloc_ok])
    case (failed h')
    with flags(4) show ?thesis by simp
  next
    case (made h')
    with f flags e(1,2) w(1) show ?thesis by (simp add: extract_match_def extract_entry_def is_directory_def t_def zpath_def)
  qed
  then have "extract_loop zl malloc_ok realloc_ok flags ts True a m zpath es False h [] w = Some (True, [], w')"
    using a(5) by (subst loop_reference [OF es(2,3)]) (simp_all add: zpath_def)
  then have "mzExtractRecursive zl malloc_ok realloc_ok a zipDir targetDir flags ts True w = Some (True, [], w')"
    using dirs flags(3) a(2,4) es(1) by (auto simp: mzExtractRecursive_def Let_def zpath_def [symmetric] h_def)
  moreover have "holds w' t []" by (simp add: holds_def w'_def)
  ultimately show ?thesis unfolding t_def zpath_def by blast
qed

theorem mzExtractRecursive_hides_failure_witness:
  "\<exists>a w'. how_opened 1 a
    \<and> mzExtractRecursive plain_inflater (\<lambda>_. True) (\<lambda>_. True) a ''a'' ''/t'' MZ_EXTRACT_FILES_ONLY False True empty_world = Some (True, [], w')
    \<and> holds w' ''/t/b'' []"
proof -
  let ?m = "zip_image [how_member 1] []"
  have s: "(1 :: nat) < 65536" by simp
  obtain a e where a: "how_opened 1 a" "z_pEntries a = Some [e]" "z_map a = Some ?m" "z_fd a = Some ?m"
    "archive_inv ?m a" "entry_name ?m e = ''a/b''" "compression e = 1" by (rule sample_opened [OF s])
  have u: "under (zip_path ''a'') ?m e" "target_of ''/t'' (zip_path ''a'') ?m e = ''/t/b''" "\<not> is_directory ?m e"
    using a(6) by (simp_all add: under_def zip_path_def target_of_def dir_slash_def is_directory_def)
  obtain w1 where w1: "dirCreateHierarchy (\<lambda>_. True) ''/t/b'' UNZIP_DIRMODE False True empty_world = Some (0, w1)"
    "answers w1 = []" "lookup_file w1 ''/t/b'' = None"
    by (rule that [of "empty_world\<lparr>files := [(''/t'', \<lparr>f_data = [], f_mode = 0x41ED, f_uid = 0, f_gid = 0, f_reg = False\<rparr>)]\<rparr>"]) code_simp+
  have "\<exists>w'. mzExtractRecursive plain_inflater (\<lambda>_. True) (\<lambda>_. True) a ''a'' ''/t'' MZ_EXTRACT_FILES_ONLY False True empty_world = Some (True, [], w')
    \<and> holds w' (target_of ''/t'' (zip_path ''a'') ?m e) []"
    by (rule mzExtractRecursive_hides_failure [OF a(5,3,4,2), of _ e _ _ _ _ _ _ w1])
      (use u a(6,7) w1 in \<open>simp_all add: STORED_def DEFLATED_def MZ_EXTRACT_FILES_ONLY_def MZ_EXTRACT_DRY_RUN_def\<close>)
  with a(1) u(2) show ?thesis by auto
qed

end
