(* ===== verification/MtdUtils.thy ===== *)
theory MtdUtils
  imports Prelude "HOL-Library.Monad_Syntax"
begin

text \<open>
  Raw flash partitions: \<open>mtdutils/mtdutils.c\<close>. A partition's character device has contents, a set of
  blocks that are marked bad, and a counter of uncorrectable errors. Every call to the kernel takes its
  outcome from a list; when the list is used up, calls succeed. A failing call, and also an erasure or a
  write that reports success, may leave arbitrary bytes in the block it was to change; a read that reports
  success and no new error returns what is stored. Loops that would not end for an erase size of zero
  are partial functions.
\<close>

section \<open>The device\<close>

datatype mtd_outcome = Outcome (oc_ok: bool) (oc_junk: buffer) (oc_ecc: nat)

record mtd_fd =
  dv_data :: buffer
  dv_bad :: "nat list"
  dv_ecc :: nat
  dv_calls :: "mtd_outcome list"
  fd_pos :: nat

definition next_outcome :: "mtd_fd \<Rightarrow> mtd_outcome \<times> mtd_fd" where
  "next_outcome fd = (case dv_calls fd of [] \<Rightarrow> (Outcome True [] 0, fd) | a # as \<Rightarrow> (a, fd\<lparr>dv_calls := as\<rparr>))"

definition overwrite :: "nat \<Rightarrow> buffer \<Rightarrow> buffer \<Rightarrow> buffer" where
  "overwrite p b d = take p d @ b @ drop (p + length b) d"

text \<open>\<open>lseek\<close> to a position.\<close>

definition mtd_seek :: "nat \<Rightarrow> mtd_fd \<Rightarrow> bool \<times> mtd_fd" where
  "mtd_seek p fd = (case next_outcome fd of (a, fd1) \<Rightarrow> (oc_ok a, if oc_ok a then fd1\<lparr>fd_pos := p\<rparr> else fd1))"

text \<open>\<open>read\<close>: everything or an error; a short transfer is an error to all callers.\<close>

definition mtd_read :: "nat \<Rightarrow> mtd_fd \<Rightarrow> buffer option \<times> mtd_fd" where
  "mtd_read n fd =
     (case next_outcome fd of (a, fd1) \<Rightarrow>
        let fd2 = fd1\<lparr>dv_ecc := dv_ecc fd1 + oc_ecc a\<rparr> in
        if oc_ok a \<and> fd_pos fd + n \<le> length (dv_data fd)
        then (Some (take n (drop (fd_pos fd) (dv_data fd))), fd2\<lparr>fd_pos := fd_pos fd + n\<rparr>)
        else (None, fd2\<lparr>fd_pos := fd_pos fd + min n (length (oc_junk a))\<rparr>))"

definition mtd_write :: "buffer \<Rightarrow> mtd_fd \<Rightarrow> bool \<times> mtd_fd" where
  "mtd_write b fd =
     (case next_outcome fd of (a, fd1) \<Rightarrow>
        if fd_pos fd + length b \<le> length (dv_data fd) then
          (let d = (if oc_ok a then overwrite (fd_pos fd) b (dv_data fd) else dv_data fd) in
           (oc_ok a, fd1\<lparr>dv_data := overwrite (fd_pos fd) (take (length b) (oc_junk a)) d,
                         fd_pos := fd_pos fd + (if oc_ok a then length b else min (length b) (length (oc_junk a)))\<rparr>))
        else (False, fd1))"

text \<open>\<open>MEMERASE\<close>, \<open>MEMGETBADBLOCK\<close> and \<open>ECCGETSTATS\<close>.\<close>

definition mem_erase :: "nat \<Rightarrow> nat \<Rightarrow> mtd_fd \<Rightarrow> bool \<times> mtd_fd" where
  "mem_erase p n fd =
     (case next_outcome fd of (a, fd1) \<Rightarrow>
        if p + n \<le> length (dv_data fd) then
          (let d = (if oc_ok a then overwrite p (replicate n 0xff) (dv_data fd) else dv_data fd) in
           (oc_ok a, fd1\<lparr>dv_data := overwrite p (take n (oc_junk a)) d\<rparr>))
        else (False, fd1))"

text \<open>The answers of \<open>MEMGETBADBLOCK\<close>: 0, 1, or \<open>-1\<close> with \<open>EOPNOTSUPP\<close> (here: no bytes) or another error.\<close>

datatype badblock = Good | Bad | NotSupported | BadError

definition mem_get_bad_block :: "nat \<Rightarrow> mtd_fd \<Rightarrow> badblock \<times> mtd_fd" where
  "mem_get_bad_block p fd =
     (case next_outcome fd of (a, fd1) \<Rightarrow>
        (if oc_ok a then (if p \<in> set (dv_bad fd) then Bad else Good)
         else if oc_junk a = [] then NotSupported else BadError, fd1))"

definition ecc_get_stats :: "mtd_fd \<Rightarrow> nat option \<times> mtd_fd" where
  "ecc_get_stats fd = (case next_outcome fd of (a, fd1) \<Rightarrow> (if oc_ok a then Some (dv_ecc fd) else None, fd1))"

section \<open>Reading\<close>

record MtdPartition =
  device_index :: int
  p_size :: nat
  erase_size :: nat
  p_name :: "string option"

record MtdReadContext =
  r_partition :: MtdPartition
  r_buffer :: buffer
  consumed :: nat
  r_fd :: mtd_fd

definition seek_read :: "nat \<Rightarrow> nat \<Rightarrow> mtd_fd \<Rightarrow> buffer option \<times> mtd_fd" where
  "seek_read p n fd = (case mtd_seek p fd of (good, fd1) \<Rightarrow> if good then mtd_read n fd1 else (None, fd1))"

text \<open>The loop of \<open>read_block\<close>; the inner result is \<^term>\<open>None\<close> for a return of \<open>-1\<close>.\<close>

partial_function (option) read_block_from ::
  "MtdPartition \<Rightarrow> nat \<Rightarrow> nat \<Rightarrow> mtd_fd \<Rightarrow> (buffer option \<times> mtd_fd) option" where
  "read_block_from part before pos fd =
     (if int (pos + erase_size part) \<le> to_int32 (int (p_size part)) then
        (case seek_read pos (erase_size part) fd of
           (None, fd1) \<Rightarrow> read_block_from part before (pos + erase_size part) fd1
         | (Some dat, fd1) \<Rightarrow>
             (case ecc_get_stats fd1 of
                (None, fd2) \<Rightarrow> Some (None, fd2)
              | (Some after, fd2) \<Rightarrow>
                  if after \<noteq> before then read_block_from part after (pos + erase_size part) fd2
                  else
                    (case mem_get_bad_block pos fd2 of (mgbb, fd3) \<Rightarrow>
                       if mgbb \<noteq> Good then read_block_from part before (pos + erase_size part) fd3
                       else Some (Some dat, fd3))))
      else Some (None, fd))"

definition read_block :: "MtdPartition \<Rightarrow> mtd_fd \<Rightarrow> (buffer option \<times> mtd_fd) option" where
  "read_block part fd =
     (case ecc_get_stats fd of
        (None, fd1) \<Rightarrow> Some (None, fd1)
      | (Some before, fd1) \<Rightarrow> read_block_from part before (fd_pos fd1) fd1)"

definition mtd_read_partition :: "(nat \<Rightarrow> bool) \<Rightarrow> MtdPartition \<Rightarrow> mtd_fd option \<Rightarrow> MtdReadContext option" where
  "mtd_read_partition malloc_ok part opened =
     (if \<not> malloc_ok (erase_size part) then None
      else case opened of
        None \<Rightarrow> None
      | Some fd \<Rightarrow> Some \<lparr>r_partition = part, r_buffer = replicate (erase_size part) 0,
                         consumed = erase_size part, r_fd = fd\<lparr>fd_pos := 0\<rparr>\<rparr>)"

definition mtd_read_skip_to :: "MtdReadContext \<Rightarrow> nat \<Rightarrow> MtdReadContext" where
  "mtd_read_skip_to ctx offset = ctx\<lparr>r_fd := snd (mtd_seek offset (r_fd ctx))\<rparr>"

text \<open>Whole blocks are read directly into the caller's buffer, of which \<open>acc\<close> is the part filled so far.\<close>

partial_function (option) read_direct ::
  "nat \<Rightarrow> buffer \<Rightarrow> MtdReadContext \<Rightarrow> (buffer option \<times> MtdReadContext) option" where
  "read_direct len acc ctx =
     (if consumed ctx = erase_size (r_partition ctx) \<and> erase_size (r_partition ctx) \<le> len - length acc then do {
        (blk, fd) \<leftarrow> read_block (r_partition ctx) (r_fd ctx);
        case blk of
          None \<Rightarrow> Some (None, ctx\<lparr>r_fd := fd\<rparr>)
        | Some dat \<Rightarrow> read_direct len (acc @ dat) (ctx\<lparr>r_fd := fd\<rparr>) }
      else Some (Some acc, ctx))"

definition read_buffered :: "nat \<Rightarrow> buffer \<Rightarrow> MtdReadContext \<Rightarrow> buffer \<times> MtdReadContext" where
  "read_buffered len acc ctx =
     (if consumed ctx < erase_size (r_partition ctx) then
        (let copy = min (len - length acc) (erase_size (r_partition ctx) - consumed ctx) in
         (acc @ take copy (drop (consumed ctx) (r_buffer ctx)), ctx\<lparr>consumed := consumed ctx + copy\<rparr>))
      else (acc, ctx))"

partial_function (option) read_data_loop ::
  "nat \<Rightarrow> buffer \<Rightarrow> MtdReadContext \<Rightarrow> (buffer option \<times> MtdReadContext) option" where
  "read_data_loop len acc ctx =
     (if length acc < len then
        (case read_buffered len acc ctx of (acc1, ctx1) \<Rightarrow> do {
           (r, ctx2) \<leftarrow> read_direct len acc1 ctx1;
           case r of
             None \<Rightarrow> Some (None, ctx2)
           | Some acc2 \<Rightarrow>
               if len \<le> length acc2 then Some (Some acc2, ctx2)
               else if consumed ctx2 = erase_size (r_partition ctx2) then do {
                 (blk, fd) \<leftarrow> read_block (r_partition ctx2) (r_fd ctx2);
                 case blk of
                   None \<Rightarrow> Some (None, ctx2\<lparr>r_fd := fd\<rparr>)
                 | Some dat \<Rightarrow> read_data_loop len acc2 (ctx2\<lparr>r_fd := fd, r_buffer := dat, consumed := 0\<rparr>) }
               else read_data_loop len acc2 ctx2 })
      else Some (Some acc, ctx))"

text \<open>The inner \<^term>\<open>None\<close> is the return of \<open>-1\<close>.\<close>

definition mtd_read_data :: "MtdReadContext \<Rightarrow> nat \<Rightarrow> (buffer option \<times> MtdReadContext) option" where
  "mtd_read_data ctx len = read_data_loop len [] ctx"

section \<open>Writing\<close>

record MtdWriteContext =
  w_partition :: MtdPartition
  w_buffer :: buffer
  stored :: nat
  w_fd :: mtd_fd
  bad_block_offsets :: "nat list"
  bad_block_alloc :: nat

definition mtd_write_partition :: "(nat \<Rightarrow> bool) \<Rightarrow> MtdPartition \<Rightarrow> mtd_fd option \<Rightarrow> MtdWriteContext option" where
  "mtd_write_partition malloc_ok part opened =
     (if \<not> malloc_ok (erase_size part) then None
      else case opened of
        None \<Rightarrow> None
      | Some fd \<Rightarrow> Some \<lparr>w_partition = part, w_buffer = replicate (erase_size part) 0, stored = 0,
                         w_fd = fd\<lparr>fd_pos := 0\<rparr>, bad_block_offsets = [], bad_block_alloc = 0\<rparr>)"

text \<open>The result of \<open>realloc\<close> is used without a check.\<close>

definition add_bad_block_offset :: "(nat \<Rightarrow> bool) \<Rightarrow> nat \<Rightarrow> MtdWriteContext \<Rightarrow> MtdWriteContext option" where
  "add_bad_block_offset realloc_ok pos ctx =
     (let alloc = (if bad_block_alloc ctx < length (bad_block_offsets ctx) + 1 then bad_block_alloc ctx * 2 + 1 else bad_block_alloc ctx) in
      if alloc \<noteq> bad_block_alloc ctx \<and> \<not> realloc_ok alloc then None
      else Some (ctx\<lparr>bad_block_offsets := bad_block_offsets ctx @ [pos], bad_block_alloc := alloc\<rparr>))"

definition seek_write :: "nat \<Rightarrow> buffer \<Rightarrow> mtd_fd \<Rightarrow> mtd_fd" where
  "seek_write p b fd = (case mtd_seek p fd of (good, fd1) \<Rightarrow> if good then snd (mtd_write b fd1) else fd1)"

text \<open>The attempts at one block, \<open>n\<close> of which are left.\<close>

fun try_block :: "nat \<Rightarrow> nat \<Rightarrow> buffer \<Rightarrow> mtd_fd \<Rightarrow> bool \<times> mtd_fd" where
  "try_block 0 pos dat fd = (False, fd)"
| "try_block (Suc n) pos dat fd =
     (case mem_erase pos (length dat) fd of (erased, fd1) \<Rightarrow>
        if \<not> erased then try_block n pos dat fd1
        else
          case seek_read pos (length dat) (seek_write pos dat fd1) of (verify, fd2) \<Rightarrow>
            if verify \<noteq> Some dat then try_block n pos dat fd2 else (True, fd2))"

text \<open>\<open>write_block\<close> from a position on; true is the return of 0.\<close>

partial_function (option) write_block_from ::
  "(nat \<Rightarrow> bool) \<Rightarrow> buffer \<Rightarrow> nat \<Rightarrow> MtdWriteContext \<Rightarrow> (bool \<times> MtdWriteContext) option" where
  "write_block_from realloc_ok dat pos ctx =
     (let es = erase_size (w_partition ctx) in
      if int (pos + es) \<le> to_int32 (int (p_size (w_partition ctx))) then
        (case mem_get_bad_block pos (w_fd ctx) of (ret, fd1) \<Rightarrow>
           if ret \<noteq> Good \<and> ret \<noteq> NotSupported then do {
             ctx1 \<leftarrow> add_bad_block_offset realloc_ok pos (ctx\<lparr>w_fd := fd1\<rparr>);
             write_block_from realloc_ok dat (pos + es) ctx1 }
           else
             case try_block 2 pos dat fd1 of (good, fd2) \<Rightarrow>
               if good then Some (True, ctx\<lparr>w_fd := fd2\<rparr>)
               else do {
                 ctx1 \<leftarrow> add_bad_block_offset realloc_ok pos (ctx\<lparr>w_fd := fd2\<rparr>);
                 write_block_from realloc_ok dat (pos + es) (ctx1\<lparr>w_fd := snd (mem_erase pos es (w_fd ctx1))\<rparr>) })
      else Some (False, ctx))"

definition write_block :: "(nat \<Rightarrow> bool) \<Rightarrow> buffer \<Rightarrow> MtdWriteContext \<Rightarrow> (bool \<times> MtdWriteContext) option" where
  "write_block realloc_ok dat ctx = write_block_from realloc_ok dat (fd_pos (w_fd ctx)) ctx"

text \<open>Collecting bytes in the context's buffer; \<open>dat\<close> is what is left of the caller's data.\<close>

definition write_buffered :: "buffer \<Rightarrow> MtdWriteContext \<Rightarrow> buffer \<times> MtdWriteContext" where
  "write_buffered dat ctx =
     (if 0 < stored ctx \<or> length dat < erase_size (w_partition ctx) then
        (let copy = min (length dat) (erase_size (w_partition ctx) - stored ctx) in
         (drop copy dat, ctx\<lparr>w_buffer := overwrite (stored ctx) (take copy dat) (w_buffer ctx), stored := stored ctx + copy\<rparr>))
      else (dat, ctx))"

definition flush_full :: "(nat \<Rightarrow> bool) \<Rightarrow> MtdWriteContext \<Rightarrow> (bool \<times> MtdWriteContext) option" where
  "flush_full realloc_ok ctx =
     (if stored ctx = erase_size (w_partition ctx) then do {
        (good, ctx1) \<leftarrow> write_block realloc_ok (w_buffer ctx) ctx;
        Some (good, if good then ctx1\<lparr>stored := 0\<rparr> else ctx1) }
      else Some (True, ctx))"

partial_function (option) write_direct ::
  "(nat \<Rightarrow> bool) \<Rightarrow> buffer \<Rightarrow> MtdWriteContext \<Rightarrow> (buffer option \<times> MtdWriteContext) option" where
  "write_direct realloc_ok dat ctx =
     (let es = erase_size (w_partition ctx) in
      if stored ctx = 0 \<and> es \<le> length dat then do {
        (good, ctx1) \<leftarrow> write_block realloc_ok (take es dat) ctx;
        if good then write_direct realloc_ok (drop es dat) ctx1 else Some (None, ctx1) }
      else Some (Some dat, ctx))"

partial_function (option) write_data_loop ::
  "(nat \<Rightarrow> bool) \<Rightarrow> buffer \<Rightarrow> MtdWriteContext \<Rightarrow> (bool \<times> MtdWriteContext) option" where
  "write_data_loop realloc_ok dat ctx =
     (if dat \<noteq> [] then
        (case write_buffered dat ctx of (dat1, ctx1) \<Rightarrow> do {
           (good, ctx2) \<leftarrow> flush_full realloc_ok ctx1;
           if \<not> good then Some (False, ctx2)
           else do {
             (r, ctx3) \<leftarrow> write_direct realloc_ok dat1 ctx2;
             case r of
               None \<Rightarrow> Some (False, ctx3)
             | Some dat2 \<Rightarrow> write_data_loop realloc_ok dat2 ctx3 } })
      else Some (True, ctx))"

definition mtd_write_data :: "(nat \<Rightarrow> bool) \<Rightarrow> MtdWriteContext \<Rightarrow> buffer \<Rightarrow> (int \<times> MtdWriteContext) option" where
  "mtd_write_data realloc_ok ctx dat = do {
     (good, ctx1) \<leftarrow> write_data_loop realloc_ok dat ctx;
     Some (if good then int (length dat) else -1, ctx1) }"

fun erase_loop :: "nat \<Rightarrow> nat \<Rightarrow> nat \<Rightarrow> mtd_fd \<Rightarrow> nat \<times> mtd_fd" where
  "erase_loop es 0 pos fd = (pos, fd)"
| "erase_loop es (Suc blocks) pos fd =
     (case mem_get_bad_block pos fd of (ret, fd1) \<Rightarrow>
        if ret = Bad then erase_loop es blocks (pos + es) fd1
        else erase_loop es blocks (pos + es) (snd (mem_erase pos es fd1)))"

text \<open>Pending data is padded with zeros and written.\<close>

definition flush_pending :: "(nat \<Rightarrow> bool) \<Rightarrow> MtdWriteContext \<Rightarrow> (bool \<times> MtdWriteContext) option" where
  "flush_pending realloc_ok ctx =
     (if 0 < stored ctx then do {
        let buf = overwrite (stored ctx) (replicate (erase_size (w_partition ctx) - stored ctx) 0) (w_buffer ctx);
        (good, ctx1) \<leftarrow> write_block realloc_ok buf (ctx\<lparr>w_buffer := buf\<rparr>);
        Some (good, if good then ctx1\<lparr>stored := 0\<rparr> else ctx1) }
      else Some (True, ctx))"

text \<open>\<^term>\<open>None\<close> is also the division by an erase size of zero.\<close>

definition mtd_erase_blocks :: "(nat \<Rightarrow> bool) \<Rightarrow> MtdWriteContext \<Rightarrow> int \<Rightarrow> (int \<times> MtdWriteContext) option" where
  "mtd_erase_blocks realloc_ok ctx blocks = do {
     (good, ctx1) \<leftarrow> flush_pending realloc_ok ctx;
     if \<not> good then Some (-1, ctx1)
     else
       let es = erase_size (w_partition ctx1); pos = fd_pos (w_fd ctx1) in
       if es = 0 then None
       else
         let blocks_left = to_int32 ((int (p_size (w_partition ctx1)) - int pos) mod 2 ^ 32 div int es);
             blocks = (if blocks < 0 then blocks_left else blocks) in
         if blocks_left < blocks then Some (-1, ctx1)
         else case erase_loop es (nat blocks) pos (w_fd ctx1) of (pos, fd) \<Rightarrow> Some (int pos, ctx1\<lparr>w_fd := fd\<rparr>) }"

definition mtd_write_close :: "(nat \<Rightarrow> bool) \<Rightarrow> MtdWriteContext \<Rightarrow> (int \<times> mtd_fd) option" where
  "mtd_write_close realloc_ok ctx = do {
     (r, ctx1) \<leftarrow> mtd_erase_blocks realloc_ok ctx 0;
     case next_outcome (w_fd ctx1) of (a, fd) \<Rightarrow> Some (if r = -1 \<or> \<not> oc_ok a then -1 else 0, fd) }"

text \<open>The first good block at or after a position.\<close>

fun find_start :: "nat \<Rightarrow> nat list \<Rightarrow> nat \<Rightarrow> nat" where
  "find_start es [] pos = pos"
| "find_start es (b # bs) pos =
     (if b = pos then find_start es bs (pos + es) else if pos < b then pos else find_start es bs pos)"

definition mtd_find_write_start :: "MtdWriteContext \<Rightarrow> nat \<Rightarrow> nat" where
  "mtd_find_write_start ctx pos = find_start (erase_size (w_partition ctx)) (bad_block_offsets ctx) pos"

lemmas mtd_loops [code] = read_block_from.simps read_direct.simps read_data_loop.simps
  write_block_from.simps write_direct.simps write_data_loop.simps

section \<open>What the calls keep\<close>

lemma length_overwrite: "p + length b \<le> length d \<Longrightarrow> length (overwrite p b d) = length d"
  by (simp add: overwrite_def)

lemma take_overwrite: "p \<le> length d \<Longrightarrow> take p (overwrite p b d) = take p d"
  by (simp add: overwrite_def)

lemma overwritten: "p \<le> length d \<Longrightarrow> take (length b) (drop p (overwrite p b d)) = b"
  by (simp add: overwrite_def)

text \<open>\<open>below p fd fd'\<close>: nothing in front of \<open>p\<close> changes, nor the size, nor the marks of bad blocks.\<close>

definition below :: "nat \<Rightarrow> mtd_fd \<Rightarrow> mtd_fd \<Rightarrow> bool" where
  "below p fd fd' \<longleftrightarrow> length (dv_data fd') = length (dv_data fd) \<and> take p (dv_data fd') = take p (dv_data fd) \<and> dv_bad fd' = dv_bad fd"

lemma below_refl [simp]: "below p fd fd"
  by (simp add: below_def)

lemma below_trans [trans]: "below p fd fd1 \<Longrightarrow> below p fd1 fd2 \<Longrightarrow> below p fd fd2"
  by (simp add: below_def)

lemma below_mono: "below p fd fd' \<Longrightarrow> q \<le> p \<Longrightarrow> below q fd fd'"
  unfolding below_def by (metis min_absorb1 take_take)

lemma below_same: "dv_data fd' = dv_data fd \<Longrightarrow> dv_bad fd' = dv_bad fd \<Longrightarrow> below p fd fd'"
  by (simp add: below_def)

lemma next_outcome_keeps:
  assumes "next_outcome fd = (a, fd')"
  shows "dv_data fd' = dv_data fd" "dv_bad fd' = dv_bad fd" "dv_ecc fd' = dv_ecc fd" "fd_pos fd' = fd_pos fd"
  using assms by (auto simp: next_outcome_def split: list.splits)

lemma mtd_seek_keeps:
  assumes "mtd_seek p fd = (good, fd')"
  shows "dv_data fd' = dv_data fd" "dv_bad fd' = dv_bad fd" "good \<Longrightarrow> fd_pos fd' = p"
  using assms by (auto simp: mtd_seek_def split: prod.splits dest: next_outcome_keeps)

lemma mtd_read_keeps:
  assumes "mtd_read n fd = (r, fd')"
  shows "dv_data fd' = dv_data fd" "dv_bad fd' = dv_bad fd"
    "r = Some b \<Longrightarrow> b = take n (drop (fd_pos fd) (dv_data fd)) \<and> fd_pos fd' = fd_pos fd + n \<and> fd_pos fd + n \<le> length (dv_data fd)"
  using assms by (auto simp: mtd_read_def Let_def split: prod.splits if_splits dest: next_outcome_keeps)

lemma mem_get_bad_block_keeps:
  assumes "mem_get_bad_block p fd = (r, fd')"
  shows "dv_data fd' = dv_data fd" "dv_bad fd' = dv_bad fd" "fd_pos fd' = fd_pos fd"
  using assms by (auto simp: mem_get_bad_block_def split: prod.splits dest: next_outcome_keeps)

lemma below_overwrite2:
  assumes "p + length b \<le> length (dv_data fd)" "p + length c \<le> length (dv_data fd)" "dv_bad fd' = dv_bad fd"
    "dv_data fd' = overwrite p b (if u then overwrite p c (dv_data fd) else dv_data fd)"
  shows "below p fd fd'"
  using assms by (cases u) (simp_all add: below_def length_overwrite take_overwrite)

lemma mem_erase_keeps:
  assumes "mem_erase p n fd = (good, fd')"
  shows "below p fd fd'" "fd_pos fd' = fd_pos fd"
proof -
  obtain a fd1 where n: "next_outcome fd = (a, fd1)" by fastforce
  note k = next_outcome_keeps [OF n]
  show "fd_pos fd' = fd_pos fd" using assms n k by (auto simp: mem_erase_def Let_def split: if_splits)
  show "below p fd fd'"
  proof (cases "p + n \<le> length (dv_data fd)")
    case True
    show ?thesis
      by (rule below_overwrite2 [where b = "take n (oc_junk a)" and c = "replicate n 0xff" and u = "oc_ok a"])
        (use assms n k True in \<open>auto simp: mem_erase_def Let_def\<close>)
  next
    case False
    then show ?thesis using assms n k by (auto simp: mem_erase_def intro: below_same)
  qed
qed

lemma mtd_write_keeps:
  assumes "mtd_write b fd = (good, fd')"
  shows "below (fd_pos fd) fd fd'"
proof -
  obtain a fd1 where n: "next_outcome fd = (a, fd1)" by fastforce
  note k = next_outcome_keeps [OF n]
  show ?thesis
  proof (cases "fd_pos fd + length b \<le> length (dv_data fd)")
    case True
    show ?thesis
      by (rule below_overwrite2 [where b = "take (length b) (oc_junk a)" and c = b and u = "oc_ok a"])
        (use assms n k True in \<open>auto simp: mtd_write_def Let_def\<close>)
  next
    case False
    then show ?thesis using assms n k by (auto simp: mtd_write_def intro: below_same)
  qed
qed

lemma seek_write_keeps: "below p fd (seek_write p b fd)"
proof -
  obtain good fd1 where s: "mtd_seek p fd = (good, fd1)" by fastforce
  note k = mtd_seek_keeps [OF s]
  have "below p fd fd1" using k by (intro below_same) simp_all
  also have "below p fd1 (seek_write p b fd)"
    using mtd_write_keeps [of b fd1, OF surjective_pairing] k(3) s by (cases good) (simp_all add: seek_write_def)
  finally show ?thesis .
qed

lemma seek_read_keeps:
  assumes "seek_read p n fd = (r, fd')"
  shows "dv_data fd' = dv_data fd" "dv_bad fd' = dv_bad fd"
    "r = Some b \<Longrightarrow> b = take n (drop p (dv_data fd)) \<and> fd_pos fd' = p + n \<and> p + n \<le> length (dv_data fd)"
proof -
  obtain good fd1 where s: "mtd_seek p fd = (good, fd1)" by fastforce
  note k = mtd_seek_keeps [OF s]
  have r: "good \<Longrightarrow> mtd_read n fd1 = (r, fd')" "\<not> good \<Longrightarrow> r = None \<and> fd' = fd1" using assms s by (auto simp: seek_read_def)
  show "dv_data fd' = dv_data fd" "dv_bad fd' = dv_bad fd" using k mtd_read_keeps(1,2) [OF r(1)] r(2) by (cases good; simp)+
  show "b = take n (drop p (dv_data fd)) \<and> fd_pos fd' = p + n \<and> p + n \<le> length (dv_data fd)" if "r = Some b"
    using k mtd_read_keeps(3) [OF r(1) that] r(2) that by (cases good) simp_all
qed

lemma try_block_spec:
  assumes "try_block n pos dat fd = (good, fd')"
  shows "below pos fd fd' \<and> (good \<longrightarrow> take (length dat) (drop pos (dv_data fd')) = dat \<and> fd_pos fd' = pos + length dat
    \<and> pos + length dat \<le> length (dv_data fd'))"
  using assms
proof (induction n arbitrary: fd)
  case (Suc n)
  obtain erased fd1 where e: "mem_erase pos (length dat) fd = (erased, fd1)" by fastforce
  note b1 = mem_erase_keeps(1) [OF e]
  obtain verify fd2 where v: "seek_read pos (length dat) (seek_write pos dat fd1) = (verify, fd2)" by fastforce
  note kv = seek_read_keeps [OF v]
  have b2: "below pos fd1 fd2" using seek_write_keeps [of pos fd1 dat] kv(1,2) by (simp add: below_def)
  consider "\<not> erased" | "erased" "verify \<noteq> Some dat" | "erased" "verify = Some dat" by blast
  then show ?case
  proof cases
    case 1
    with Suc.prems e have "try_block n pos dat fd1 = (good, fd')" by simp
    from Suc.IH [OF this] b1 show ?thesis by (blast intro: below_trans)
  next
    case 2
    with Suc.prems e v have "try_block n pos dat fd2 = (good, fd')" by simp
    from Suc.IH [OF this] b1 b2 show ?thesis by (blast intro: below_trans)
  next
    case 3
    with Suc.prems e v have f: "fd' = fd2" by simp
    have "take (length dat) (drop pos (dv_data fd2)) = dat" "fd_pos fd2 = pos + length dat" "pos + length dat \<le> length (dv_data fd2)"
      using kv(1) kv(3) [of dat] 3(2) by simp_all
    with below_trans [OF b1 b2] show ?thesis unfolding f by blast
  qed
qed simp

section \<open>Blocks written\<close>

abbreviation w_es :: "MtdWriteContext \<Rightarrow> nat" where "w_es ctx \<equiv> erase_size (w_partition ctx)"

definition same_setup :: "MtdWriteContext \<Rightarrow> MtdWriteContext \<Rightarrow> bool" where
  "same_setup ctx ctx' \<longleftrightarrow> w_partition ctx' = w_partition ctx \<and> w_buffer ctx' = w_buffer ctx \<and> stored ctx' = stored ctx"

lemma add_bad_block_ok:
  assumes "\<forall>n. realloc_ok n"
  obtains alloc where "add_bad_block_offset realloc_ok pos ctx
    = Some (ctx\<lparr>bad_block_offsets := bad_block_offsets ctx @ [pos], bad_block_alloc := alloc\<rparr>)"
  using assms that by (simp add: add_bad_block_offset_def Let_def)

text \<open>Some block from \<open>pos\<close> on took the data; those before it are recorded as bad.\<close>

definition block_written :: "buffer \<Rightarrow> nat \<Rightarrow> MtdWriteContext \<Rightarrow> MtdWriteContext \<Rightarrow> bool" where
  "block_written dat pos ctx ctx' \<longleftrightarrow>
     (\<exists>k. bad_block_offsets ctx' = bad_block_offsets ctx @ map (\<lambda>i. pos + i * w_es ctx) [0..<k]
        \<and> fd_pos (w_fd ctx') = pos + k * w_es ctx + length dat \<and> fd_pos (w_fd ctx') \<le> length (dv_data (w_fd ctx'))
        \<and> take (length dat) (drop (pos + k * w_es ctx) (dv_data (w_fd ctx'))) = dat)"

lemma block_written_skip:
  assumes "block_written dat (pos + w_es ctx) ctx1 ctx'" "bad_block_offsets ctx1 = bad_block_offsets ctx @ [pos]" "w_es ctx1 = w_es ctx"
  shows "block_written dat pos ctx ctx'"
proof -
  from assms obtain k where k: "bad_block_offsets ctx' = bad_block_offsets ctx @ [pos] @ map (\<lambda>i. pos + w_es ctx + i * w_es ctx) [0..<k]"
    "fd_pos (w_fd ctx') = pos + w_es ctx + k * w_es ctx + length dat" "fd_pos (w_fd ctx') \<le> length (dv_data (w_fd ctx'))"
    "take (length dat) (drop (pos + w_es ctx + k * w_es ctx) (dv_data (w_fd ctx'))) = dat"
    by (auto simp: block_written_def)
  have "[pos] @ map (\<lambda>i. pos + w_es ctx + i * w_es ctx) [0..<k] = map (\<lambda>i. pos + i * w_es ctx) [0..<Suc k]"
    by (subst upt_conv_Cons) (simp_all add: map_Suc_upt [symmetric] del: upt_Suc)
  with k show ?thesis unfolding block_written_def by (intro exI [of _ "Suc k"]) (simp add: add.assoc)
qed

lemma write_block_from_spec:
  assumes "\<forall>n. realloc_ok n" "0 < w_es ctx"
  shows "\<exists>good ctx'. write_block_from realloc_ok dat pos ctx = Some (good, ctx') \<and> same_setup ctx ctx'
    \<and> below pos (w_fd ctx) (w_fd ctx') \<and> (good \<longrightarrow> block_written dat pos ctx ctx')"
  using assms(2)
proof (induction "nat (to_int32 (int (p_size (w_partition ctx))) - int pos)" arbitrary: pos ctx rule: less_induct)
  case less
  let ?es = "w_es ctx"
  show ?case
  proof (cases "int (pos + ?es) \<le> to_int32 (int (p_size (w_partition ctx)))")
    case False
    then show ?thesis by (subst write_block_from.simps) (auto simp: same_setup_def)
  next
    case True
    have smaller: "nat (to_int32 (int (p_size (w_partition ctx))) - int (pos + ?es)) < nat (to_int32 (int (p_size (w_partition ctx))) - int pos)"
      using True less.prems by linarith
    have skip: ?thesis
      if "write_block_from realloc_ok dat pos ctx = write_block_from realloc_ok dat (pos + ?es) ctx1"
        "same_setup ctx ctx1" "below pos (w_fd ctx) (w_fd ctx1)" "bad_block_offsets ctx1 = bad_block_offsets ctx @ [pos]" for ctx1
    proof -
      have p1: "w_partition ctx1 = w_partition ctx" using that(2) by (simp add: same_setup_def)
      from less.hyps [of ctx1 "pos + ?es"] smaller less.prems obtain good ctx' where
        r: "write_block_from realloc_ok dat (pos + ?es) ctx1 = Some (good, ctx')" "same_setup ctx1 ctx'"
          "below (pos + ?es) (w_fd ctx1) (w_fd ctx')" "good \<longrightarrow> block_written dat (pos + ?es) ctx1 ctx'" unfolding p1 by blast
      have "below pos (w_fd ctx) (w_fd ctx')" using that(3) below_mono [OF r(3), of pos] by (meson below_trans le_add1)
      moreover have "good \<longrightarrow> block_written dat pos ctx ctx'" using r(4) block_written_skip [OF _ that(4)] p1 by simp
      ultimately show ?thesis using that(1,2) r(1,2) by (auto simp: same_setup_def)
    qed
    obtain ret fd1 where g: "mem_get_bad_block pos (w_fd ctx) = (ret, fd1)" by fastforce
    have b1: "below pos (w_fd ctx) fd1" using mem_get_bad_block_keeps [OF g] by (intro below_same)
    show ?thesis
    proof (cases "ret \<noteq> Good \<and> ret \<noteq> NotSupported")
      case bad: True
      obtain alloc where a: "add_bad_block_offset realloc_ok pos (ctx\<lparr>w_fd := fd1\<rparr>)
          = Some (ctx\<lparr>w_fd := fd1, bad_block_offsets := bad_block_offsets ctx @ [pos], bad_block_alloc := alloc\<rparr>)"
        using add_bad_block_ok [OF assms(1), of pos "ctx\<lparr>w_fd := fd1\<rparr>"] by auto
      show ?thesis
        by (rule skip [of "ctx\<lparr>w_fd := fd1, bad_block_offsets := bad_block_offsets ctx @ [pos], bad_block_alloc := alloc\<rparr>"])
          (use True g bad a b1 in \<open>simp_all add: same_setup_def write_block_from.simps [of _ _ pos] Let_def\<close>)
    next
      case good: False
      obtain ok fd2 where t: "try_block 2 pos dat fd1 = (ok, fd2)" by fastforce
      note ts = try_block_spec [OF t]
      have b2: "below pos (w_fd ctx) fd2" using b1 ts by (blast intro: below_trans)
      show ?thesis
      proof (cases ok)
        case True': True
        have "block_written dat pos ctx (ctx\<lparr>w_fd := fd2\<rparr>)"
          unfolding block_written_def using ts True' by (intro exI [of _ 0]) simp
        moreover have "write_block_from realloc_ok dat pos ctx = Some (True, ctx\<lparr>w_fd := fd2\<rparr>)"
          using True g good t True' by (auto simp: write_block_from.simps [of _ _ pos] Let_def)
        ultimately show ?thesis using b2 by (auto simp: same_setup_def)
      next
        case False
        obtain alloc where a: "add_bad_block_offset realloc_ok pos (ctx\<lparr>w_fd := fd2\<rparr>)
            = Some (ctx\<lparr>w_fd := fd2, bad_block_offsets := bad_block_offsets ctx @ [pos], bad_block_alloc := alloc\<rparr>)"
          using add_bad_block_ok [OF assms(1), of pos "ctx\<lparr>w_fd := fd2\<rparr>"] by auto
        have b3: "below pos (w_fd ctx) (snd (mem_erase pos ?es fd2))"
          using b2 mem_erase_keeps(1) [OF surjective_pairing [of "mem_erase pos ?es fd2"]] by (rule below_trans)
        show ?thesis
          by (rule skip [of "ctx\<lparr>bad_block_offsets := bad_block_offsets ctx @ [pos], bad_block_alloc := alloc, w_fd := snd (mem_erase pos ?es fd2)\<rparr>"])
            (use True g good t False a b3 in \<open>auto simp: same_setup_def write_block_from.simps [of _ _ pos] Let_def\<close>)
      qed
    qed
  qed
qed

text \<open>Without failures only blocks that are marked bad are skipped.\<close>

definition clean_run :: "nat \<Rightarrow> nat \<Rightarrow> MtdWriteContext \<Rightarrow> MtdWriteContext \<Rightarrow> bool" where
  "clean_run es pos ctx ctx' \<longleftrightarrow> dv_calls (w_fd ctx') = []
     \<and> (\<exists>k. length (bad_block_offsets ctx') = length (bad_block_offsets ctx) + k
          \<and> (\<forall>i < k. pos + i * es \<in> set (dv_bad (w_fd ctx))) \<and> pos + k * es \<notin> set (dv_bad (w_fd ctx)))"

lemma next_outcome_clean: "dv_calls fd = [] \<Longrightarrow> next_outcome fd = (Outcome True [] 0, fd)"
  by (simp add: next_outcome_def)

lemma overwrite_nil [simp]: "overwrite p [] d = d"
  by (simp add: overwrite_def)

lemma try_block_clean:
  assumes "dv_calls fd = []"
  shows "try_block 2 pos dat fd = (if pos + length dat \<le> length (dv_data fd)
    then (True, fd\<lparr>dv_data := overwrite pos dat (overwrite pos (replicate (length dat) 0xff) (dv_data fd)), fd_pos := pos + length dat\<rparr>)
    else (False, fd))"
  using assms
  by (simp add: numeral_2_eq_2 mem_erase_def seek_read_def seek_write_def mtd_seek_def mtd_read_def mtd_write_def Let_def
      next_outcome_clean length_overwrite overwritten)

lemma write_block_from_clean:
  assumes "\<forall>n. realloc_ok n" "0 < w_es ctx" "length dat = w_es ctx" "dv_calls (w_fd ctx) = []"
    "write_block_from realloc_ok dat pos ctx = Some (True, ctx')"
  shows "clean_run (w_es ctx) pos ctx ctx'"
  using assms(2-5)
proof (induction "nat (to_int32 (int (p_size (w_partition ctx))) - int pos)" arbitrary: pos ctx rule: less_induct)
  case less
  let ?es = "w_es ctx"
  have fits: "int (pos + ?es) \<le> to_int32 (int (p_size (w_partition ctx)))"
    using less.prems(4) by (subst (asm) write_block_from.simps) (auto simp: Let_def split: if_splits)
  have smaller: "nat (to_int32 (int (p_size (w_partition ctx))) - int (pos + ?es)) < nat (to_int32 (int (p_size (w_partition ctx))) - int pos)"
    using fits less.prems(1) by linarith
  have g: "mem_get_bad_block pos (w_fd ctx) = (if pos \<in> set (dv_bad (w_fd ctx)) then Bad else Good, w_fd ctx)"
    using less.prems(3) by (simp add: mem_get_bad_block_def next_outcome_clean)
  show ?case
  proof (cases "pos \<in> set (dv_bad (w_fd ctx))")
    case True
    obtain alloc where a: "add_bad_block_offset realloc_ok pos ctx
        = Some (ctx\<lparr>bad_block_offsets := bad_block_offsets ctx @ [pos], bad_block_alloc := alloc\<rparr>)" (is "_ = Some ?ctx1")
      by (rule add_bad_block_ok [OF assms(1)])
    have "write_block_from realloc_ok dat (pos + ?es) ?ctx1 = Some (True, ctx')"
      using less.prems(4) fits g True a by (subst (asm) write_block_from.simps) (simp add: Let_def)
    then have "clean_run ?es (pos + ?es) ?ctx1 ctx'" using less.hyps [of ?ctx1 "pos + ?es"] smaller less.prems(1-3) by simp
    then obtain k where k: "dv_calls (w_fd ctx') = []" "length (bad_block_offsets ctx') = length (bad_block_offsets ctx) + Suc k"
      "\<forall>i < k. pos + ?es + i * ?es \<in> set (dv_bad (w_fd ctx))" "pos + ?es + k * ?es \<notin> set (dv_bad (w_fd ctx))"
      by (auto simp: clean_run_def)
    have "\<forall>i < Suc k. pos + i * ?es \<in> set (dv_bad (w_fd ctx))"
      using k(3) True by (auto simp: less_Suc_eq_0_disj add.assoc)
    with k show ?thesis unfolding clean_run_def by (intro conjI exI [of _ "Suc k"]) (simp_all add: add.assoc)
  next
    case False
    show ?thesis
    proof (cases "pos + length dat \<le> length (dv_data (w_fd ctx))")
      case True
      have "ctx' = ctx\<lparr>w_fd := snd (try_block 2 pos dat (w_fd ctx))\<rparr>"
        using less.prems(4) fits g False True by (subst (asm) write_block_from.simps) (simp add: Let_def try_block_clean [OF less.prems(3)])
      with False True show ?thesis
        unfolding clean_run_def by (intro conjI exI [of _ 0]) (simp_all add: try_block_clean [OF less.prems(3)] less.prems(3))
    next
      case short: False
      obtain alloc where a: "add_bad_block_offset realloc_ok pos ctx
          = Some (ctx\<lparr>bad_block_offsets := bad_block_offsets ctx @ [pos], bad_block_alloc := alloc\<rparr>)" (is "_ = Some ?ctx1")
        by (rule add_bad_block_ok [OF assms(1)])
      have e: "mem_erase pos ?es (w_fd ctx) = (False, w_fd ctx)"
        using short less.prems(2,3) by (simp add: mem_erase_def next_outcome_clean)
      have "write_block_from realloc_ok dat (pos + ?es) ?ctx1 = Some (True, ctx')"
        using less.prems(4) fits g False short a e
        by (subst (asm) write_block_from.simps) (simp add: Let_def try_block_clean [OF less.prems(3)])
      with write_block_from_spec [OF assms(1), of ?ctx1 dat "pos + ?es"] less.prems(1)
      have "block_written dat (pos + ?es) ?ctx1 ctx'" "length (dv_data (w_fd ctx')) = length (dv_data (w_fd ctx))" by (auto simp: below_def)
      then have False using short by (auto simp: block_written_def)
      then show ?thesis ..
    qed
  qed
qed

section \<open>The contents of a partition\<close>

text \<open>The bytes of the blocks at the given positions, and the positions below \<open>n\<close> blocks that are not skipped.\<close>

definition contents :: "nat \<Rightarrow> nat list \<Rightarrow> buffer \<Rightarrow> buffer" where
  "contents es ps d = concat (map (\<lambda>p. take es (drop p d)) ps)"

definition used_blocks :: "nat \<Rightarrow> nat list \<Rightarrow> nat \<Rightarrow> nat list" where
  "used_blocks es bad n = filter (\<lambda>p. p \<notin> set bad) (map (\<lambda>i. i * es) [0..<n])"

definition flash_of :: "MtdWriteContext \<Rightarrow> buffer" where
  "flash_of ctx = contents (w_es ctx) (used_blocks (w_es ctx) (bad_block_offsets ctx) (fd_pos (w_fd ctx) div w_es ctx)) (dv_data (w_fd ctx))"

text \<open>Everything that has been given to the context.\<close>

definition written :: "MtdWriteContext \<Rightarrow> buffer" where
  "written ctx = flash_of ctx @ take (stored ctx) (w_buffer ctx)"

text \<open>
  On a device without failures, the blocks that were skipped are the blocks that are marked bad.
\<close>

definition marks_agree :: "MtdWriteContext \<Rightarrow> bool" where
  "marks_agree ctx \<longleftrightarrow> dv_calls (w_fd ctx) = []
     \<and> (\<forall>i. i * w_es ctx < fd_pos (w_fd ctx) \<longrightarrow> (i * w_es ctx \<in> set (bad_block_offsets ctx) \<longleftrightarrow> i * w_es ctx \<in> set (dv_bad (w_fd ctx))))"

text \<open>The invariant of a context between two calls; \<open>clean\<close> is whether the device is free of failures.\<close>

definition wctx_ok :: "bool \<Rightarrow> MtdWriteContext \<Rightarrow> bool" where
  "wctx_ok clean ctx \<longleftrightarrow> 0 < w_es ctx \<and> length (w_buffer ctx) = w_es ctx \<and> stored ctx \<le> w_es ctx
     \<and> w_es ctx dvd fd_pos (w_fd ctx) \<and> fd_pos (w_fd ctx) \<le> length (dv_data (w_fd ctx))
     \<and> (\<forall>b \<in> set (bad_block_offsets ctx). b < fd_pos (w_fd ctx)) \<and> (clean \<longrightarrow> marks_agree ctx)"

lemma marks_agree_local [simp]:
  "marks_agree (ctx\<lparr>w_buffer := b\<rparr>) = marks_agree ctx" "marks_agree (ctx\<lparr>stored := n\<rparr>) = marks_agree ctx"
  "marks_agree (ctx\<lparr>w_buffer := b, stored := n\<rparr>) = marks_agree ctx"
  by (simp_all add: marks_agree_def)

lemma contents_append: "contents es (ps @ qs) d = contents es ps d @ contents es qs d"
  by (simp add: contents_def)

lemma contents_below:
  assumes "take p d' = take p d" "\<forall>q \<in> set ps. q + es \<le> p"
  shows "contents es ps d' = contents es ps d"
proof -
  have "take es (drop q d') = take es (drop q d)" if "q + es \<le> p" for q
  proof -
    have "take es (drop q (take p x)) = take es (drop q x)" for x :: buffer using that by (simp add: drop_take min_def)
    with assms(1) show ?thesis by metis
  qed
  with assms(2) show ?thesis unfolding contents_def by (metis (no_types, lifting) map_cong)
qed

lemma used_blocks_below: "q \<in> set (used_blocks es bad n) \<Longrightarrow> q + es \<le> n * es"
proof -
  assume "q \<in> set (used_blocks es bad n)"
  then have "\<exists>i < n. q = i * es" by (fastforce simp: used_blocks_def)
  then obtain i where "q = i * es" "i < n" by blast
  then show ?thesis using mult_le_mono1 [of "Suc i" n es] by simp
qed

lemma used_blocks_extend:
  assumes es: "0 < es" and bad: "\<forall>b \<in> set bad. b < n * es"
  shows "used_blocks es (bad @ map (\<lambda>i. n * es + i * es) [0..<k]) (n + k + 1) = used_blocks es bad n @ [(n + k) * es]"
proof -
  let ?new = "map (\<lambda>i. n * es + i * es) [0..<k]"
  have new: "i * es \<in> set ?new \<longleftrightarrow> n \<le> i \<and> i < n + k" for i
  proof -
    have "i * es \<in> set ?new \<longleftrightarrow> (\<exists>j < k. i * es = (n + j) * es)" unfolding add_mult_distrib by auto
    also have "\<dots> \<longleftrightarrow> (\<exists>j < k. i = n + j)" using es by simp
    also have "\<dots> \<longleftrightarrow> n \<le> i \<and> i < n + k" by (metis add_less_cancel_left le_add1 le_iff_add)
    finally show ?thesis .
  qed
  have old: "i * es \<in> set bad \<Longrightarrow> i < n" for i using bad es by (metis mult_less_cancel2)
  have split: "[0..<n + k + 1] = [0..<n] @ [n..<n + k] @ [n + k]"
    using upt_add_eq_append [of 0 n "k + 1"] by (simp add: add.assoc [symmetric])
  have 1: "filter (\<lambda>p. p \<notin> set (bad @ ?new)) (map (\<lambda>i. i * es) [0..<n]) = used_blocks es bad n"
    unfolding used_blocks_def
  proof (rule filter_cong [OF refl])
    fix p assume "p \<in> set (map (\<lambda>i. i * es) [0..<n])"
    then obtain i where i: "p = i * es" "i \<in> {0..<n}" unfolding set_map set_upt by (rule imageE)
    then have "p \<notin> set ?new" using new [of i] by simp
    then show "(p \<notin> set (bad @ ?new)) = (p \<notin> set bad)" by (simp only: set_append Un_iff simp_thms)
  qed
  have 2: "filter (\<lambda>p. p \<notin> set (bad @ ?new)) (map (\<lambda>i. i * es) [n..<n + k]) = []"
    using new by (auto simp: filter_empty_conv)
  have 3: "(n + k) * es \<notin> set (bad @ ?new)" using new [of "n + k"] old [of "n + k"] by auto
  show ?thesis unfolding used_blocks_def [of _ "bad @ ?new"] split map_append filter_append 1 2 using 3 by simp
qed

lemma write_block_ok:
  assumes ctx: "wctx_ok c ctx" and dat: "length dat = w_es ctx" and mem: "\<forall>n. realloc_ok n"
  shows "\<exists>good ctx'. write_block realloc_ok dat ctx = Some (good, ctx') \<and> same_setup ctx ctx' \<and> below 0 (w_fd ctx) (w_fd ctx')
    \<and> (good \<longrightarrow> wctx_ok c ctx' \<and> flash_of ctx' = flash_of ctx @ dat)"
proof -
  let ?es = "w_es ctx"
  have es: "0 < ?es" using ctx by (simp add: wctx_ok_def)
  obtain n where n: "fd_pos (w_fd ctx) = n * ?es" using ctx by (auto simp: wctx_ok_def dvd_def mult.commute)
  from write_block_from_spec [OF mem es, of dat "n * ?es"] obtain good ctx' where
    r: "write_block_from realloc_ok dat (n * ?es) ctx = Some (good, ctx')" "same_setup ctx ctx'"
      "below (n * ?es) (w_fd ctx) (w_fd ctx')" "good \<longrightarrow> block_written dat (n * ?es) ctx ctx'" by blast
  have b0: "below 0 (w_fd ctx) (w_fd ctx')" by (rule below_mono [OF r(3)]) simp
  have p: "w_partition ctx' = w_partition ctx" using r(2) by (simp add: same_setup_def)
  have "wctx_ok c ctx' \<and> flash_of ctx' = flash_of ctx @ dat" if good
  proof -
    from r(4) that dat obtain k where
      k: "bad_block_offsets ctx' = bad_block_offsets ctx @ map (\<lambda>i. n * ?es + i * ?es) [0..<k]"
        "fd_pos (w_fd ctx') = (n + k + 1) * ?es" "fd_pos (w_fd ctx') \<le> length (dv_data (w_fd ctx'))"
        "take ?es (drop ((n + k) * ?es) (dv_data (w_fd ctx'))) = dat"
      unfolding block_written_def by (auto simp: add_mult_distrib)
    have bad: "\<forall>b \<in> set (bad_block_offsets ctx). b < n * ?es" using ctx n by (simp add: wctx_ok_def)
    have "\<forall>b \<in> set (bad_block_offsets ctx'). b < (n + k + 1) * ?es"
    proof
      fix b assume "b \<in> set (bad_block_offsets ctx')"
      with k(1) bad consider "b < n * ?es" | i where "i < k" "b = (n + i) * ?es" by (auto simp: add_mult_distrib)
      then show "b < (n + k + 1) * ?es"
      proof cases
        case 1
        moreover have "n * ?es \<le> (n + k + 1) * ?es" by (intro mult_le_mono1) simp
        ultimately show ?thesis by linarith
      next
        case 2
        then show ?thesis using mult_strict_right_mono [OF _ es, of "n + i" "n + k + 1"] by simp
      qed
    qed
    moreover have "marks_agree ctx'" if c
    proof -
      have m: "marks_agree ctx" using ctx that by (simp add: wctx_ok_def)
      from that m r(1) \<open>good\<close> have "dv_calls (w_fd ctx) = []" "write_block_from realloc_ok dat (n * ?es) ctx = Some (True, ctx')"
        by (simp_all add: marks_agree_def)
      from write_block_from_clean [OF mem es dat this] k(1,2) dat es
      have cl: "dv_calls (w_fd ctx') = []" "\<forall>i < k. (n + i) * ?es \<in> set (dv_bad (w_fd ctx))" "(n + k) * ?es \<notin> set (dv_bad (w_fd ctx))"
        unfolding clean_run_def by (auto simp: add_mult_distrib)
      have "i * ?es \<in> set (bad_block_offsets ctx') \<longleftrightarrow> i * ?es \<in> set (dv_bad (w_fd ctx'))" if "i * ?es < (n + k + 1) * ?es" for i
      proof -
        have "i < n + k + 1" using that by (simp only: mult_less_cancel2)
        then have "i < n \<or> (i - n < k \<and> i = n + (i - n)) \<or> i = n + k" by linarith
        then have i: "i < n \<or> (\<exists>j < k. i = n + j) \<or> i = n + k" by blast
        have "i * ?es \<in> set (bad_block_offsets ctx') \<longleftrightarrow> i * ?es \<in> set (bad_block_offsets ctx) \<or> (\<exists>j < k. i * ?es = (n + j) * ?es)"
          unfolding k(1) add_mult_distrib by auto
        also have "(\<exists>j < k. i * ?es = (n + j) * ?es) \<longleftrightarrow> (\<exists>j < k. i = n + j)" using es by simp
        finally have mem: "i * ?es \<in> set (bad_block_offsets ctx') \<longleftrightarrow> i * ?es \<in> set (bad_block_offsets ctx) \<or> (\<exists>j < k. i = n + j)" .
        have low: "i * ?es \<in> set (bad_block_offsets ctx) \<Longrightarrow> i < n" using bad es by (metis mult_less_cancel2)
        have bd: "dv_bad (w_fd ctx') = dv_bad (w_fd ctx)" using b0 by (simp add: below_def)
        from i show ?thesis
        proof (elim disjE exE conjE)
          assume "i < n"
          then have "i * ?es < n * ?es" using es by simp
          then have "i * ?es \<in> set (bad_block_offsets ctx) \<longleftrightarrow> i * ?es \<in> set (dv_bad (w_fd ctx))"
            using m unfolding marks_agree_def n by blast
          with mem bd \<open>i < n\<close> show ?thesis by auto
        next
          fix j assume "j < k" "i = n + j"
          with mem bd cl(2) show ?thesis by auto
        next
          assume "i = n + k"
          with mem low bd cl(3) show ?thesis by auto
        qed
      qed
      then show ?thesis unfolding marks_agree_def p k(2) using cl(1) by blast
    qed
    ultimately have ok: "wctx_ok c ctx'" using ctx r(2) k(2,3) p unfolding wctx_ok_def same_setup_def by simp
    have "used_blocks ?es (bad_block_offsets ctx') (n + k + 1) = used_blocks ?es (bad_block_offsets ctx) n @ [(n + k) * ?es]"
      unfolding k(1) by (rule used_blocks_extend [OF es bad])
    moreover have "contents ?es (used_blocks ?es (bad_block_offsets ctx) n) (dv_data (w_fd ctx'))
        = contents ?es (used_blocks ?es (bad_block_offsets ctx) n) (dv_data (w_fd ctx))"
      by (rule contents_below [of "n * ?es"]) (use r(3) in \<open>auto simp: below_def intro: used_blocks_below\<close>)
    moreover have "contents ?es [(n + k) * ?es] (dv_data (w_fd ctx')) = dat" using k(4) by (simp add: contents_def)
    moreover have "(n + k + 1) * ?es div ?es = n + k + 1" "n * ?es div ?es = n" using es by simp_all
    ultimately have "flash_of ctx' = flash_of ctx @ dat"
      unfolding flash_of_def p k(2) n by (simp only: contents_append)
    with ok show ?thesis ..
  qed
  with r(1,2) b0 n show ?thesis unfolding write_block_def by auto
qed

lemma write_direct_ok:
  assumes "wctx_ok c ctx" "\<forall>n. realloc_ok n"
  shows "\<exists>r ctx'. write_direct realloc_ok dat ctx = Some (r, ctx') \<and> same_setup ctx ctx' \<and> below 0 (w_fd ctx) (w_fd ctx')
    \<and> (case r of None \<Rightarrow> True
       | Some rest \<Rightarrow> \<exists>used. dat = used @ rest \<and> wctx_ok c ctx' \<and> flash_of ctx' = flash_of ctx @ used
           \<and> (stored ctx = 0 \<longrightarrow> length rest < w_es ctx))"
  using assms(1)
proof (induction "length dat" arbitrary: dat ctx rule: less_induct)
  case less
  let ?es = "w_es ctx"
  have es: "0 < ?es" using less.prems by (simp add: wctx_ok_def)
  show ?case
  proof (cases "stored ctx = 0 \<and> ?es \<le> length dat")
    case False
    then have "write_direct realloc_ok dat ctx = Some (Some dat, ctx)" by (subst write_direct.simps) (auto simp: Let_def)
    with False less.prems show ?thesis
      by (intro exI [of _ "Some dat"] exI [of _ ctx]) (auto simp: same_setup_def)
  next
    case True
    then have "length (take ?es dat) = ?es" by simp
    from write_block_ok [OF less.prems this assms(2)] obtain good ctx1 where
      b: "write_block realloc_ok (take ?es dat) ctx = Some (good, ctx1)" "same_setup ctx ctx1" "below 0 (w_fd ctx) (w_fd ctx1)"
        "good \<longrightarrow> wctx_ok c ctx1 \<and> flash_of ctx1 = flash_of ctx @ take ?es dat" by blast
    show ?thesis
    proof (cases good)
      case False
      then have "write_direct realloc_ok dat ctx = Some (None, ctx1)" using True b(1) by (subst write_direct.simps) (simp add: Let_def)
      with b(2,3) show ?thesis by (intro exI [of _ None] exI [of _ ctx1]) simp
    next
      case True': True
      have p: "w_es ctx1 = ?es" "stored ctx1 = stored ctx" using b(2) by (simp_all add: same_setup_def)
      have "length (drop ?es dat) < length dat" using conjunct2 [OF True] es by simp
      from less.hyps [OF this, of ctx1] b(4) True' obtain r ctx' where
        r: "write_direct realloc_ok (drop ?es dat) ctx1 = Some (r, ctx')" "same_setup ctx1 ctx'" "below 0 (w_fd ctx1) (w_fd ctx')"
          "case r of None \<Rightarrow> True
           | Some rest \<Rightarrow> \<exists>used. drop ?es dat = used @ rest \<and> wctx_ok c ctx' \<and> flash_of ctx' = flash_of ctx1 @ used
               \<and> (stored ctx1 = 0 \<longrightarrow> length rest < w_es ctx1)" by blast
      have eq: "write_direct realloc_ok dat ctx = Some (r, ctx')" using True True' b(1) r(1) by (subst write_direct.simps) (simp add: Let_def)
      have ss: "same_setup ctx ctx'" using b(2) r(2) by (simp add: same_setup_def)
      have bb: "below 0 (w_fd ctx) (w_fd ctx')" using b(3) r(3) by (rule below_trans)
      have "\<exists>used'. dat = used' @ rest \<and> wctx_ok c ctx' \<and> flash_of ctx' = flash_of ctx @ used' \<and> (stored ctx = 0 \<longrightarrow> length rest < ?es)"
        if "r = Some rest" for rest
      proof -
        from r(4) that obtain used where u: "drop ?es dat = used @ rest" "wctx_ok c ctx'" "flash_of ctx' = flash_of ctx1 @ used"
          "stored ctx1 = 0 \<longrightarrow> length rest < w_es ctx1" by auto
        have "dat = (take ?es dat @ used) @ rest" using u(1) append_take_drop_id [of ?es dat] by simp
        with u p b(4) True' show ?thesis by (intro exI [of _ "take ?es dat @ used"]) simp
      qed
      with eq ss bb show ?thesis by (intro exI [of _ r] exI [of _ ctx']) (simp split: option.split)
    qed
  qed
qed

lemma write_buffered_ok:
  assumes ctx: "wctx_ok c ctx" "stored ctx < w_es ctx" and r: "write_buffered dat ctx = (dat1, ctx1)"
  shows "wctx_ok c ctx1" "written ctx1 @ dat1 = written ctx @ dat" "w_fd ctx1 = w_fd ctx" "w_partition ctx1 = w_partition ctx"
    "length dat1 \<le> length dat" "dat \<noteq> [] \<Longrightarrow> length dat1 < length dat \<or> (stored ctx1 = 0 \<and> w_es ctx \<le> length dat1)"
    "stored ctx1 < w_es ctx \<Longrightarrow> stored ctx1 = 0 \<or> dat1 = []"
proof -
  let ?c = "min (length dat) (w_es ctx - stored ctx)"
  have len: "length (w_buffer ctx) = w_es ctx" "stored ctx + ?c \<le> w_es ctx" using ctx by (auto simp: wctx_ok_def)
  have buf: "length (overwrite (stored ctx) (take ?c dat) (w_buffer ctx)) = w_es ctx"
    "take (stored ctx + ?c) (overwrite (stored ctx) (take ?c dat) (w_buffer ctx)) = take (stored ctx) (w_buffer ctx) @ take ?c dat"
    using len by (simp_all add: overwrite_def)
  define ctx2 where "ctx2 = ctx\<lparr>w_buffer := overwrite (stored ctx) (take ?c dat) (w_buffer ctx), stored := stored ctx + ?c\<rparr>"
  have ok2: "wctx_ok c ctx2" using ctx(1) len(2) buf(1) by (simp add: wctx_ok_def ctx2_def)
  have "written ctx2 = written ctx @ take ?c dat" using buf(2) by (simp add: written_def flash_of_def ctx2_def)
  then have w2: "written ctx2 @ drop ?c dat = written ctx @ dat" by (simp only: append.assoc append_take_drop_id)
  consider (copy) "0 < stored ctx \<or> length dat < w_es ctx" "dat1 = drop ?c dat" "ctx1 = ctx2"
    | (skip) "\<not> (0 < stored ctx \<or> length dat < w_es ctx)" "dat1 = dat" "ctx1 = ctx"
    using r by (cases "0 < stored ctx \<or> length dat < w_es ctx") (simp_all add: write_buffered_def Let_def ctx2_def)
  note split = this
  show "wctx_ok c ctx1" "written ctx1 @ dat1 = written ctx @ dat" using split ok2 w2 ctx(1) by (cases; simp only:)+
  show "w_fd ctx1 = w_fd ctx" "w_partition ctx1 = w_partition ctx" "length dat1 \<le> length dat" using split by (cases; simp add: ctx2_def)+
  show "length dat1 < length dat \<or> (stored ctx1 = 0 \<and> w_es ctx \<le> length dat1)" if "dat \<noteq> []"
    using split
  proof cases
    case copy
    have "0 < ?c" using that ctx(2) by simp
    then show ?thesis unfolding copy using that by simp
  qed simp
  show "stored ctx1 = 0 \<or> dat1 = []" if "stored ctx1 < w_es ctx"
    using split
  proof cases
    case copy
    with that have "?c = length dat" by (simp add: ctx2_def min_def split: if_splits)
    then show ?thesis unfolding copy by simp
  qed simp
qed

lemma flush_full_ok:
  assumes ctx: "wctx_ok c ctx" and mem: "\<forall>n. realloc_ok n"
  shows "\<exists>good ctx'. flush_full realloc_ok ctx = Some (good, ctx') \<and> w_partition ctx' = w_partition ctx \<and> below 0 (w_fd ctx) (w_fd ctx')
    \<and> (good \<longrightarrow> wctx_ok c ctx' \<and> written ctx' = written ctx \<and> stored ctx' < w_es ctx
         \<and> stored ctx' = (if stored ctx = w_es ctx then 0 else stored ctx))"
proof (cases "stored ctx = w_es ctx")
  case False
  with ctx show ?thesis by (simp add: flush_full_def wctx_ok_def) (metis le_neq_implies_less)
next
  case True
  have l: "length (w_buffer ctx) = w_es ctx" "0 < w_es ctx" using ctx by (simp_all add: wctx_ok_def)
  from write_block_ok [OF ctx l(1) mem] obtain good ctx1 where
    b: "write_block realloc_ok (w_buffer ctx) ctx = Some (good, ctx1)" "same_setup ctx ctx1" "below 0 (w_fd ctx) (w_fd ctx1)"
      "good \<longrightarrow> wctx_ok c ctx1 \<and> flash_of ctx1 = flash_of ctx @ w_buffer ctx" by blast
  have f: "flash_of (ctx1\<lparr>stored := 0\<rparr>) = flash_of ctx1" by (simp add: flash_of_def)
  show ?thesis
  proof (cases good)
    case False
    with True b show ?thesis by (auto simp: flush_full_def same_setup_def)
  next
    case True': True
    with b(4) have "wctx_ok c (ctx1\<lparr>stored := 0\<rparr>)" "written (ctx1\<lparr>stored := 0\<rparr>) = written ctx"
      using True l by (simp_all add: wctx_ok_def written_def f)
    with True True' b l show ?thesis by (auto simp: flush_full_def same_setup_def)
  qed
qed

lemma write_data_ok:
  assumes "wctx_ok c ctx" "stored ctx < w_es ctx" and mem: "\<forall>n. realloc_ok n"
  shows "\<exists>good ctx'. write_data_loop realloc_ok dat ctx = Some (good, ctx') \<and> w_partition ctx' = w_partition ctx
    \<and> below 0 (w_fd ctx) (w_fd ctx') \<and> (good \<longrightarrow> wctx_ok c ctx' \<and> stored ctx' < w_es ctx \<and> written ctx' = written ctx @ dat)"
  using assms(1,2)
proof (induction "length dat" arbitrary: dat ctx rule: less_induct)
  case less
  show ?case
  proof (cases "dat = []")
    case True
    with less.prems show ?thesis by (subst write_data_loop.simps) auto
  next
    case False
    obtain dat1 ctx1 where b: "write_buffered dat ctx = (dat1, ctx1)" by fastforce
    note bo = write_buffered_ok [OF less.prems b]
    from flush_full_ok [OF bo(1) mem] obtain good ctx2 where
      f: "flush_full realloc_ok ctx1 = Some (good, ctx2)" "w_partition ctx2 = w_partition ctx1" "below 0 (w_fd ctx1) (w_fd ctx2)"
        "good \<longrightarrow> wctx_ok c ctx2 \<and> written ctx2 = written ctx1 \<and> stored ctx2 < w_es ctx1
           \<and> stored ctx2 = (if stored ctx1 = w_es ctx1 then 0 else stored ctx1)" by blast
    show ?thesis
    proof (cases good)
      case False': False
      then have "write_data_loop realloc_ok dat ctx = Some (False, ctx2)" using False b f(1) by (subst write_data_loop.simps) simp
      with f(2,3) bo(3,4) show ?thesis by auto
    next
      case True
      with f(4) have c2: "wctx_ok c ctx2" "written ctx2 = written ctx1" "stored ctx2 < w_es ctx1"
        "stored ctx2 = (if stored ctx1 = w_es ctx1 then 0 else stored ctx1)" by simp_all
      from write_direct_ok [OF c2(1) mem, of dat1] obtain r ctx3 where
        d: "write_direct realloc_ok dat1 ctx2 = Some (r, ctx3)" "same_setup ctx2 ctx3" "below 0 (w_fd ctx2) (w_fd ctx3)"
          "case r of None \<Rightarrow> True
           | Some rest \<Rightarrow> \<exists>used. dat1 = used @ rest \<and> wctx_ok c ctx3 \<and> flash_of ctx3 = flash_of ctx2 @ used
               \<and> (stored ctx2 = 0 \<longrightarrow> length rest < w_es ctx2)" by blast
      have b3: "below 0 (w_fd ctx) (w_fd ctx3)" using f(3) d(3) bo(3) below_trans by metis
      have p3: "w_partition ctx3 = w_partition ctx" using d(2) f(2) bo(4) by (simp add: same_setup_def)
      show ?thesis
      proof (cases r)
        case None
        then have "write_data_loop realloc_ok dat ctx = Some (False, ctx3)"
          using False True b f(1) d(1) by (subst write_data_loop.simps) simp
        with b3 p3 show ?thesis by auto
      next
        case (Some rest)
        with d(4) obtain used where u: "dat1 = used @ rest" "wctx_ok c ctx3" "flash_of ctx3 = flash_of ctx2 @ used"
          "stored ctx2 = 0 \<longrightarrow> length rest < w_es ctx2" by auto
        have s3: "stored ctx3 = stored ctx2" "w_buffer ctx3 = w_buffer ctx2" using d(2) by (simp_all add: same_setup_def)
        have st: "stored ctx2 = 0 \<or> dat1 = []" using bo(7) c2(3,4) bo(4) by (cases "stored ctx1 = w_es ctx1") auto
        have w3: "written ctx3 @ rest = written ctx @ dat"
          using st u(1,3) s3 c2(2) bo(2) by (auto simp: written_def)
        have shorter: "length rest < length dat"
        proof (cases "length dat1 < length dat")
          case True
          then show ?thesis using u(1) by simp
        next
          case nb: False
          with bo(6) False have "stored ctx1 = 0" "w_es ctx \<le> length dat1" by auto
          moreover have "stored ctx2 = 0" using c2(4) \<open>stored ctx1 = 0\<close> by simp
          ultimately show ?thesis using u(4) f(2) bo(4,5) by simp
        qed
        have "stored ctx3 < w_es ctx3" using s3(1) c2(3) p3 bo(4) by simp
        from less.hyps [OF shorter u(2) this] obtain good ctx' where
          ih: "write_data_loop realloc_ok rest ctx3 = Some (good, ctx')" "w_partition ctx' = w_partition ctx3" "below 0 (w_fd ctx3) (w_fd ctx')"
            "good \<longrightarrow> wctx_ok c ctx' \<and> stored ctx' < w_es ctx3 \<and> written ctx' = written ctx3 @ rest" by blast
        have "write_data_loop realloc_ok dat ctx = Some (good, ctx')"
          using False True Some b f(1) d(1) ih(1) by (subst write_data_loop.simps) simp
        moreover have "below 0 (w_fd ctx) (w_fd ctx')" using b3 ih(3) by (rule below_trans)
        ultimately show ?thesis using ih(2,4) p3 w3 by auto
      qed
    qed
  qed
qed

lemma erase_loop_keeps: "erase_loop es n pos fd = (pos', fd') \<Longrightarrow> below pos fd fd' \<and> fd_pos fd' = fd_pos fd \<and> pos' = pos + n * es"
proof (induction n arbitrary: pos fd)
  case (Suc n)
  obtain ret fd1 where g: "mem_get_bad_block pos fd = (ret, fd1)" by fastforce
  define fd2 where "fd2 = (if ret = Bad then fd1 else snd (mem_erase pos es fd1))"
  have e: "erase_loop es n (pos + es) fd2 = (pos', fd')" using Suc.prems g by (simp add: fd2_def split: if_splits)
  have "below pos fd fd1" using mem_get_bad_block_keeps [OF g] by (intro below_same)
  moreover note mem_erase_keeps [OF surjective_pairing [of "mem_erase pos es fd1"]]
  ultimately have "below pos fd fd2" "fd_pos fd2 = fd_pos fd"
    using mem_get_bad_block_keeps(3) [OF g] by (auto simp: fd2_def intro: below_trans)
  with Suc.IH [OF e] show ?case using below_mono [of "pos + es" fd2 fd' pos] by (auto intro: below_trans)
qed simp

lemma erase_loop_clean: "dv_calls fd = [] \<Longrightarrow> dv_calls (snd (erase_loop es n pos fd)) = []"
proof (induction n arbitrary: pos fd)
  case (Suc n)
  have "dv_calls (snd (mem_erase pos es fd)) = []" using Suc.prems by (simp add: mem_erase_def next_outcome_clean Let_def)
  with Suc show ?case by (simp add: mem_get_bad_block_def next_outcome_clean)
qed simp

text \<open>Erasing first writes out what is pending, padded with zeros, and then changes only blocks behind it.\<close>

lemma flush_pending_ok:
  assumes ctx: "wctx_ok c ctx" "stored ctx < w_es ctx" and mem: "\<forall>n. realloc_ok n"
  shows "\<exists>good ctx1. flush_pending realloc_ok ctx = Some (good, ctx1) \<and> w_partition ctx1 = w_partition ctx \<and> below 0 (w_fd ctx) (w_fd ctx1)
    \<and> (good \<longrightarrow> wctx_ok c ctx1 \<and> stored ctx1 = 0
         \<and> flash_of ctx1 = written ctx @ replicate (if stored ctx = 0 then 0 else w_es ctx - stored ctx) 0)"
proof (cases "0 < stored ctx")
  case False
  with ctx show ?thesis by (auto simp: flush_pending_def written_def)
next
  case True
  let ?es = "w_es ctx"
  define buf where "buf = overwrite (stored ctx) (replicate (?es - stored ctx) 0) (w_buffer ctx)"
  have buf: "length buf = ?es" "buf = take (stored ctx) (w_buffer ctx) @ replicate (?es - stored ctx) 0"
    using ctx by (simp_all add: buf_def overwrite_def wctx_ok_def)
  have ok: "wctx_ok c (ctx\<lparr>w_buffer := buf\<rparr>)" "length buf = w_es (ctx\<lparr>w_buffer := buf\<rparr>)" "flash_of (ctx\<lparr>w_buffer := buf\<rparr>) = flash_of ctx"
    using ctx buf(1) by (simp_all add: wctx_ok_def flash_of_def)
  from write_block_ok [OF ok(1,2) mem] obtain good ctx1 where
    w: "write_block realloc_ok buf (ctx\<lparr>w_buffer := buf\<rparr>) = Some (good, ctx1)" "w_partition ctx1 = w_partition ctx"
      "below 0 (w_fd ctx) (w_fd ctx1)" "good \<longrightarrow> wctx_ok c ctx1 \<and> flash_of ctx1 = flash_of ctx @ buf"
    unfolding same_setup_def ok(3) by auto
  have "wctx_ok c (ctx1\<lparr>stored := 0\<rparr>) \<and> flash_of (ctx1\<lparr>stored := 0\<rparr>) = written ctx @ replicate (?es - stored ctx) 0" if good
    using w(4) that buf(2) by (simp add: wctx_ok_def flash_of_def written_def)
  with True w(1,2,3) show ?thesis by (cases good) (auto simp: flush_pending_def Let_def buf_def)
qed

lemma erase_blocks_ok:
  assumes ctx: "wctx_ok c ctx" "stored ctx < w_es ctx" and mem: "\<forall>n. realloc_ok n"
  shows "\<exists>r ctx'. mtd_erase_blocks realloc_ok ctx blocks = Some (r, ctx') \<and> w_partition ctx' = w_partition ctx
    \<and> below 0 (w_fd ctx) (w_fd ctx')
    \<and> (r \<noteq> -1 \<longrightarrow> wctx_ok c ctx' \<and> stored ctx' = 0
         \<and> flash_of ctx' = written ctx @ replicate (if stored ctx = 0 then 0 else w_es ctx - stored ctx) 0)"
proof -
  let ?es = "w_es ctx"
  have es: "0 < ?es" using ctx by (simp add: wctx_ok_def)
  from flush_pending_ok [OF ctx mem] obtain good ctx1 where
    f: "flush_pending realloc_ok ctx = Some (good, ctx1)" "w_partition ctx1 = w_partition ctx" "below 0 (w_fd ctx) (w_fd ctx1)"
    "good \<longrightarrow> wctx_ok c ctx1 \<and> stored ctx1 = 0 \<and> flash_of ctx1 = written ctx @ replicate (if stored ctx = 0 then 0 else ?es - stored ctx) 0" by blast
  define pos where "pos = fd_pos (w_fd ctx1)"
  define left where "left = to_int32 ((int (p_size (w_partition ctx)) - int pos) mod 2 ^ 32 div int ?es)"
  define n where "n = (if blocks < 0 then left else blocks)"
  have unfold: "mtd_erase_blocks realloc_ok ctx blocks = (if \<not> good then Some (-1, ctx1) else if left < n then Some (-1, ctx1)
      else case erase_loop ?es (nat n) pos (w_fd ctx1) of (pos, fd) \<Rightarrow> Some (int pos, ctx1\<lparr>w_fd := fd\<rparr>))"
    unfolding mtd_erase_blocks_def f(1) n_def left_def pos_def using es by (simp add: Let_def f(2))
  show ?thesis
  proof (cases "\<not> good \<or> left < n")
    case True
    with unfold f(2,3) show ?thesis by auto
  next
    case False
    obtain pos' fd where l: "erase_loop ?es (nat n) pos (w_fd ctx1) = (pos', fd)" by fastforce
    note k = erase_loop_keeps [OF l]
    have c1: "wctx_ok c ctx1" "stored ctx1 = 0" "flash_of ctx1 = written ctx @ replicate (if stored ctx = 0 then 0 else ?es - stored ctx) 0"
      using f(4) False by simp_all
    have p: "w_es ctx1 = ?es" using f(2) by simp
    have "marks_agree (ctx1\<lparr>w_fd := fd\<rparr>)" if c
      using c1(1) that k l erase_loop_clean [of "w_fd ctx1" ?es "nat n" pos] by (auto simp: wctx_ok_def marks_agree_def below_def)
    moreover have "take pos (dv_data fd) = take pos (dv_data (w_fd ctx1))" "length (dv_data fd) = length (dv_data (w_fd ctx1))"
      "fd_pos fd = pos" using k by (simp_all add: below_def pos_def)
    moreover have "q + ?es \<le> pos" if "q \<in> set (used_blocks ?es (bad_block_offsets ctx1) (pos div ?es))" for q
      using used_blocks_below [OF that] div_times_less_eq_dividend [of pos ?es] by linarith
    ultimately have "flash_of (ctx1\<lparr>w_fd := fd\<rparr>) = flash_of ctx1" "wctx_ok c (ctx1\<lparr>w_fd := fd\<rparr>)"
      using c1(1) contents_below [of pos "dv_data fd" "dv_data (w_fd ctx1)"] by (simp_all add: flash_of_def wctx_ok_def p pos_def)
    moreover have "below 0 (w_fd ctx) fd" using f(3) below_mono [of pos "w_fd ctx1" fd 0] k by (auto intro: below_trans)
    ultimately show ?thesis using unfold False l f(2) c1(2,3) by auto
  qed
qed

section \<open>Reading without failures\<close>

abbreviation r_es :: "MtdReadContext \<Rightarrow> nat" where "r_es ctx \<equiv> erase_size (r_partition ctx)"

definition readable :: "nat \<Rightarrow> nat list \<Rightarrow> nat \<Rightarrow> nat \<Rightarrow> nat list" where
  "readable es bad m n = filter (\<lambda>p. p \<notin> set bad) (map (\<lambda>i. i * es) [m..<n])"

text \<open>A partition as it is opened for reading, and a device without failures.\<close>

definition device_ok :: "MtdPartition \<Rightarrow> mtd_fd \<Rightarrow> bool" where
  "device_ok part fd \<longleftrightarrow> 0 < erase_size part \<and> p_size part = length (dv_data fd) \<and> p_size part < 2 ^ 31 \<and> dv_calls fd = []"

definition rctx_ok :: "MtdReadContext \<Rightarrow> bool" where
  "rctx_ok ctx \<longleftrightarrow> device_ok (r_partition ctx) (r_fd ctx) \<and> length (r_buffer ctx) = r_es ctx \<and> consumed ctx \<le> r_es ctx
     \<and> r_es ctx dvd fd_pos (r_fd ctx)"

definition unread_blocks :: "MtdPartition \<Rightarrow> mtd_fd \<Rightarrow> nat list" where
  "unread_blocks part fd = readable (erase_size part) (dv_bad fd) (fd_pos fd div erase_size part) (p_size part div erase_size part)"

definition unread :: "MtdReadContext \<Rightarrow> buffer" where
  "unread ctx = drop (consumed ctx) (r_buffer ctx) @ contents (r_es ctx) (unread_blocks (r_partition ctx) (r_fd ctx)) (dv_data (r_fd ctx))"

lemma readable_step: "m < n \<Longrightarrow> readable es bad m n = (if m * es \<in> set bad then readable es bad (Suc m) n else m * es # readable es bad (Suc m) n)"
  by (simp add: readable_def upt_conv_Cons)

lemma block_fits: "0 < es \<Longrightarrow> len < 2 ^ 31 \<Longrightarrow> int (n * es + es) \<le> to_int32 (int len) \<longleftrightarrow> n < len div es"
proof -
  assume es: "0 < es" and "len < 2 ^ 31"
  then have "to_int32 (int len) = int len" by (intro to_int32_id) simp_all
  moreover have "n * es + es \<le> len \<longleftrightarrow> Suc n \<le> len div es" using less_eq_div_iff_mult_less_eq [OF es, of "Suc n" len] by (simp add: add.commute)
  ultimately show ?thesis by (simp only: of_nat_le_iff Suc_le_eq)
qed

lemma read_block_from_clean:
  assumes "device_ok part fd"
  shows "\<exists>r fd'. read_block_from part (dv_ecc fd) (n * erase_size part) fd = Some (r, fd') \<and> device_ok part fd'
    \<and> dv_data fd' = dv_data fd \<and> dv_bad fd' = dv_bad fd
    \<and> (case readable (erase_size part) (dv_bad fd) n (p_size part div erase_size part) of
         [] \<Rightarrow> r = None
       | p # ps \<Rightarrow> r = Some (take (erase_size part) (drop p (dv_data fd))) \<and> p + erase_size part \<le> length (dv_data fd)
           \<and> erase_size part dvd fd_pos fd' \<and> unread_blocks part fd' = ps)"
  using assms
proof (induction "p_size part div erase_size part - n" arbitrary: n fd)
  case 0
  let ?es = "erase_size part"
  have es: "0 < ?es" "p_size part < 2 ^ 31" using 0(2) by (simp_all add: device_ok_def)
  have "\<not> n < p_size part div ?es" using 0(1) by simp
  then show ?case using block_fits [OF es, of n] 0(2) by (subst read_block_from.simps) (simp add: readable_def)
next
  case (Suc k)
  let ?es = "erase_size part" and ?N = "p_size part div erase_size part"
  have es: "0 < ?es" "p_size part < 2 ^ 31" "p_size part = length (dv_data fd)" "dv_calls fd = []" using Suc(3) by (simp_all add: device_ok_def)
  have n: "n < ?N" "?N - Suc n = k" using Suc(2) by simp_all
  have fits: "int (n * ?es + ?es) \<le> to_int32 (int (p_size part))" using block_fits [OF es(1,2)] n(1) by simp
  have "to_int32 (int (p_size part)) = int (p_size part)" using es(2) by (intro to_int32_id) simp_all
  with fits have le: "n * ?es + ?es \<le> length (dv_data fd)" by (simp only: of_nat_le_iff es(3))
  define fd1 where "fd1 = fd\<lparr>fd_pos := n * ?es + ?es\<rparr>"
  have rd: "seek_read (n * ?es) ?es fd = (Some (take ?es (drop (n * ?es) (dv_data fd))), fd1)"
    using le es(4) by (simp add: seek_read_def mtd_seek_def mtd_read_def next_outcome_clean Let_def fd1_def)
  have ecc: "ecc_get_stats fd1 = (Some (dv_ecc fd), fd1)"
    and bad: "mem_get_bad_block (n * ?es) fd1 = (if n * ?es \<in> set (dv_bad fd) then Bad else Good, fd1)"
    using es(4) by (simp_all add: ecc_get_stats_def mem_get_bad_block_def next_outcome_clean fd1_def)
  have fd1: "device_ok part fd1" "dv_ecc fd1 = dv_ecc fd" "dv_data fd1 = dv_data fd" "dv_bad fd1 = dv_bad fd"
    using Suc(3) by (simp_all add: device_ok_def fd1_def)
  show ?case
  proof (cases "n * ?es \<in> set (dv_bad fd)")
    case True
    have "read_block_from part (dv_ecc fd) (n * ?es) fd = read_block_from part (dv_ecc fd1) (Suc n * ?es) fd1"
      using fits rd ecc bad True fd1(2) by (subst read_block_from.simps) (simp add: add.commute)
    with Suc(1) [OF n(2) [symmetric] fd1(1), unfolded fd1(3,4)] show ?thesis by (simp only: readable_step [OF n(1)] True if_True)
  next
    case False
    have "read_block_from part (dv_ecc fd) (n * ?es) fd = Some (Some (take ?es (drop (n * ?es) (dv_data fd))), fd1)"
      using fits rd ecc bad False by (subst read_block_from.simps) simp
    moreover have "unread_blocks part fd1 = readable ?es (dv_bad fd) (Suc n) ?N"
      using es(1) by (simp add: unread_blocks_def fd1_def)
    ultimately show ?thesis using fd1 le False es(1) by (simp add: readable_step [OF n(1)]) (simp add: fd1_def)
  qed
qed

lemma read_block_clean:
  assumes "device_ok part fd" "erase_size part dvd fd_pos fd"
  shows "\<exists>r fd'. read_block part fd = Some (r, fd') \<and> device_ok part fd' \<and> dv_data fd' = dv_data fd \<and> dv_bad fd' = dv_bad fd
    \<and> (case unread_blocks part fd of
         [] \<Rightarrow> r = None
       | p # ps \<Rightarrow> r = Some (take (erase_size part) (drop p (dv_data fd))) \<and> p + erase_size part \<le> length (dv_data fd)
           \<and> erase_size part dvd fd_pos fd' \<and> unread_blocks part fd' = ps)"
proof -
  obtain n where n: "fd_pos fd = n * erase_size part" using assms(2) by (auto simp: dvd_def mult.commute)
  have es: "0 < erase_size part" "dv_calls fd = []" using assms(1) by (simp_all add: device_ok_def)
  have "read_block part fd = read_block_from part (dv_ecc fd) (n * erase_size part) fd"
    using es(2) n by (simp add: read_block_def ecc_get_stats_def next_outcome_clean)
  moreover have "unread_blocks part fd = readable (erase_size part) (dv_bad fd) n (p_size part div erase_size part)"
    using es(1) n by (simp add: unread_blocks_def)
  ultimately show ?thesis using read_block_from_clean [OF assms(1), of n] by simp
qed

text \<open>Reading the next block when the buffer is used up and something is left.\<close>

lemma next_block:
  assumes ctx: "rctx_ok ctx" "consumed ctx = r_es ctx" and more: "unread ctx \<noteq> []"
  obtains dat fd' where "read_block (r_partition ctx) (r_fd ctx) = Some (Some dat, fd')" "length dat = r_es ctx"
    "rctx_ok (ctx\<lparr>r_fd := fd'\<rparr>)" "unread ctx = dat @ unread (ctx\<lparr>r_fd := fd'\<rparr>)"
    "rctx_ok (ctx\<lparr>r_fd := fd', r_buffer := dat, consumed := 0\<rparr>)" "unread (ctx\<lparr>r_fd := fd', r_buffer := dat, consumed := 0\<rparr>) = unread ctx"
proof -
  have d: "device_ok (r_partition ctx) (r_fd ctx)" "r_es ctx dvd fd_pos (r_fd ctx)" "length (r_buffer ctx) = r_es ctx"
    using ctx(1) by (simp_all add: rctx_ok_def)
  from read_block_clean [OF d(1,2)] obtain r fd' where
    r: "read_block (r_partition ctx) (r_fd ctx) = Some (r, fd')" "device_ok (r_partition ctx) fd'" "dv_data fd' = dv_data (r_fd ctx)"
      "case unread_blocks (r_partition ctx) (r_fd ctx) of [] \<Rightarrow> r = None
       | p # ps \<Rightarrow> r = Some (take (r_es ctx) (drop p (dv_data (r_fd ctx)))) \<and> p + r_es ctx \<le> length (dv_data (r_fd ctx))
           \<and> r_es ctx dvd fd_pos fd' \<and> unread_blocks (r_partition ctx) fd' = ps" by blast
  have "unread_blocks (r_partition ctx) (r_fd ctx) \<noteq> []" using more ctx(2) d(3) by (auto simp: unread_def contents_def)
  then obtain p ps where ps: "unread_blocks (r_partition ctx) (r_fd ctx) = p # ps" by (auto simp: neq_Nil_conv)
  define dat where "dat = take (r_es ctx) (drop p (dv_data (r_fd ctx)))"
  have q: "r = Some dat" "length dat = r_es ctx" "r_es ctx dvd fd_pos fd'" "unread_blocks (r_partition ctx) fd' = ps"
    using r(4) ps by (auto simp: dat_def)
  have u: "unread ctx = dat @ contents (r_es ctx) ps (dv_data fd')"
    using ctx(2) d(3) ps r(3) by (simp add: unread_def contents_def dat_def)
  show thesis
    by (rule that [of dat fd']) (use r q u d ctx in \<open>simp_all add: rctx_ok_def unread_def\<close>)
qed

lemma read_direct_clean:
  assumes "rctx_ok ctx" "length acc \<le> len" "len - length acc \<le> length (unread ctx)"
  shows "\<exists>acc' ctx'. read_direct len acc ctx = Some (Some acc', ctx') \<and> rctx_ok ctx' \<and> r_partition ctx' = r_partition ctx
    \<and> consumed ctx' = consumed ctx \<and> length acc' \<le> len \<and> (\<exists>used. acc' = acc @ used \<and> unread ctx = used @ unread ctx')
    \<and> (consumed ctx = r_es ctx \<longrightarrow> len - length acc' < r_es ctx)"
  using assms
proof (induction "len - length acc" arbitrary: acc ctx rule: less_induct)
  case less
  have es: "0 < r_es ctx" using less.prems(1) by (simp add: rctx_ok_def device_ok_def)
  show ?case
  proof (cases "consumed ctx = r_es ctx \<and> r_es ctx \<le> len - length acc")
    case False
    then have "read_direct len acc ctx = Some (Some acc, ctx)" by (subst read_direct.simps) auto
    with False less.prems show ?thesis by auto
  next
    case True
    have more: "unread ctx \<noteq> []" using True es less.prems(3) by auto
    from less.prems(1) conjunct1 [OF True] more obtain dat fd' where
      n: "read_block (r_partition ctx) (r_fd ctx) = Some (Some dat, fd')" "length dat = r_es ctx"
        "rctx_ok (ctx\<lparr>r_fd := fd'\<rparr>)" "unread ctx = dat @ unread (ctx\<lparr>r_fd := fd'\<rparr>)" by (rule next_block)
    let ?ctx1 = "ctx\<lparr>r_fd := fd'\<rparr>"
    have "len - length (acc @ dat) < len - length acc" "length (acc @ dat) \<le> len" "len - length (acc @ dat) \<le> length (unread ?ctx1)"
      using n(2,4) True es less.prems(2,3) by auto
    from less.hyps [OF this(1) n(3) this(2,3)] obtain acc' ctx' used where
      ih: "read_direct len (acc @ dat) ?ctx1 = Some (Some acc', ctx')" "rctx_ok ctx'" "r_partition ctx' = r_partition ctx"
        "consumed ctx' = consumed ctx" "length acc' \<le> len" "acc' = (acc @ dat) @ used" "unread ?ctx1 = used @ unread ctx'"
        "consumed ctx = r_es ctx \<longrightarrow> len - length acc' < r_es ctx" by auto
    have "read_direct len acc ctx = Some (Some acc', ctx')" using True n(1) ih(1) by (subst read_direct.simps) simp
    moreover have "acc' = acc @ (dat @ used)" "unread ctx = (dat @ used) @ unread ctx'" using ih(6,7) n(4) by simp_all
    ultimately show ?thesis using ih(2-5,8) by blast
  qed
qed

lemma read_buffered_clean:
  assumes "rctx_ok ctx" "length acc \<le> len" "read_buffered len acc ctx = (acc1, ctx1)"
  shows "rctx_ok ctx1 \<and> r_partition ctx1 = r_partition ctx \<and> length acc1 \<le> len
    \<and> (\<exists>used. acc1 = acc @ used \<and> unread ctx = used @ unread ctx1)
    \<and> (consumed ctx1 < r_es ctx \<longrightarrow> length acc1 = len) \<and> (consumed ctx < r_es ctx \<longrightarrow> length acc < len \<longrightarrow> length acc < length acc1)"
proof (cases "consumed ctx < r_es ctx")
  case False
  with assms show ?thesis by (auto simp: read_buffered_def)
next
  case True
  let ?c = "min (len - length acc) (r_es ctx - consumed ctx)"
  have l: "length (r_buffer ctx) = r_es ctx" using assms(1) by (simp add: rctx_ok_def)
  have eq: "acc1 = acc @ take ?c (drop (consumed ctx) (r_buffer ctx))" "ctx1 = ctx\<lparr>consumed := consumed ctx + ?c\<rparr>"
    using assms(3) True by (simp_all add: read_buffered_def Let_def)
  have "drop (consumed ctx) (r_buffer ctx) = take ?c (drop (consumed ctx) (r_buffer ctx)) @ drop (consumed ctx + ?c) (r_buffer ctx)"
    by (metis add.commute append_take_drop_id drop_drop)
  then have "unread ctx = take ?c (drop (consumed ctx) (r_buffer ctx)) @ unread ctx1" by (simp add: unread_def eq(2))
  moreover have "rctx_ok ctx1" using assms(1) True by (simp add: eq(2) rctx_ok_def)
  moreover have len: "length acc1 = length acc + ?c" using l by (simp add: eq(1))
  moreover have "length acc1 \<le> len" "length acc < len \<longrightarrow> length acc < length acc1" "consumed ctx1 < r_es ctx \<longrightarrow> length acc1 = len"
    unfolding len using assms(2) True by (auto simp: eq(2) min_def)
  ultimately show ?thesis using eq by auto
qed

lemma read_data_clean:
  assumes "rctx_ok ctx" "length acc \<le> len" "len - length acc \<le> length (unread ctx)"
  shows "\<exists>ctx'. read_data_loop len acc ctx = Some (Some (acc @ take (len - length acc) (unread ctx)), ctx') \<and> rctx_ok ctx'
    \<and> unread ctx' = drop (len - length acc) (unread ctx)"
  using assms
proof (induction "2 * (len - length acc) + (if consumed ctx = r_es ctx then 1 else 0)" arbitrary: acc ctx rule: less_induct)
  case less
  show ?case
  proof (cases "length acc < len")
    case False
    with less.prems show ?thesis by (subst read_data_loop.simps) simp
  next
    case True
    have ces: "consumed ctx \<le> r_es ctx" "0 < r_es ctx" using less.prems(1) by (simp_all add: rctx_ok_def device_ok_def)
    obtain acc1 ctx1 where b: "read_buffered len acc ctx = (acc1, ctx1)" by fastforce
    from read_buffered_clean [OF less.prems(1,2) b] obtain u1 where
      b1: "rctx_ok ctx1" "r_partition ctx1 = r_partition ctx" "length acc1 \<le> len" "acc1 = acc @ u1" "unread ctx = u1 @ unread ctx1"
        "consumed ctx1 < r_es ctx \<longrightarrow> length acc1 = len" "consumed ctx < r_es ctx \<longrightarrow> length acc < length acc1" using True by blast
    have "len - length acc1 \<le> length (unread ctx1)" using less.prems(3) b1(4,5) by simp
    from read_direct_clean [OF b1(1,3) this] obtain acc2 ctx2 u2 where
      d: "read_direct len acc1 ctx1 = Some (Some acc2, ctx2)" "rctx_ok ctx2" "r_partition ctx2 = r_partition ctx1"
        "consumed ctx2 = consumed ctx1" "length acc2 \<le> len" "acc2 = acc1 @ u2" "unread ctx1 = u2 @ unread ctx2"
        "consumed ctx1 = r_es ctx1 \<longrightarrow> len - length acc2 < r_es ctx1" by blast
    have acc2: "acc2 = acc @ (u1 @ u2)" "unread ctx = (u1 @ u2) @ unread ctx2" using b1(4,5) d(6,7) by simp_all
    show ?thesis
    proof (cases "len \<le> length acc2")
      case True'': True
      then have len: "length (u1 @ u2) = len - length acc" using d(5) acc2(1) by simp
      have "read_data_loop len acc ctx = Some (Some acc2, ctx2)" using True True'' b d(1) by (subst read_data_loop.simps) simp
      moreover have "take (len - length acc) (unread ctx) = u1 @ u2" "drop (len - length acc) (unread ctx) = unread ctx2"
        unfolding acc2(2) len [symmetric] by simp_all
      ultimately show ?thesis using d(2) acc2(1) by simp
    next
      case short: False
      have c2: "consumed ctx2 = r_es ctx2"
        using b1(1,2,6) d(3,4,6) short by (auto simp: rctx_ok_def le_less)
      have "len - length acc2 \<le> length (unread ctx2)" using less.prems(3) acc2 by simp
      then have more: "unread ctx2 \<noteq> []" using short by auto
      from d(2) c2 more obtain dat fd' where
        n: "read_block (r_partition ctx2) (r_fd ctx2) = Some (Some dat, fd')"
          "rctx_ok (ctx2\<lparr>r_fd := fd', r_buffer := dat, consumed := 0\<rparr>)" "unread (ctx2\<lparr>r_fd := fd', r_buffer := dat, consumed := 0\<rparr>) = unread ctx2"
        by (rule next_block)
      let ?ctx3 = "ctx2\<lparr>r_fd := fd', r_buffer := dat, consumed := 0\<rparr>"
      have step: "read_data_loop len acc ctx = read_data_loop len acc2 ?ctx3"
        using True short b d(1) c2 n(1) by (subst read_data_loop.simps) simp
      have es3: "consumed ?ctx3 \<noteq> r_es ?ctx3" using ces(2) b1(2) d(3) by simp
      have "2 * (len - length acc2) + (if consumed ?ctx3 = r_es ?ctx3 then 1 else 0) < 2 * (len - length acc) + (if consumed ctx = r_es ctx then 1 else 0)"
      proof (cases "consumed ctx = r_es ctx")
        case False
        then have "0 < length u1" using b1(4,7) ces(1) by auto
        then show ?thesis using es3 False acc2(1) True by (simp add: diff_less_mono2)
      qed (use es3 acc2(1) True in simp)
      from less.hyps [OF this n(2) d(5)] \<open>len - length acc2 \<le> length (unread ctx2)\<close> n(3) obtain ctx' where
        ih: "read_data_loop len acc2 ?ctx3 = Some (Some (acc2 @ take (len - length acc2) (unread ctx2)), ctx')" "rctx_ok ctx'"
          "unread ctx' = drop (len - length acc2) (unread ctx2)" by auto
      have l: "len - length acc = length (u1 @ u2) + (len - length acc2)" using d(5) acc2(1) by simp
      have "take (len - length acc) (unread ctx) = u1 @ u2 @ take (len - length acc2) (unread ctx2)"
        "drop (len - length acc) (unread ctx) = drop (len - length acc2) (unread ctx2)"
        unfolding acc2(2) l by simp_all
      then show ?thesis unfolding step using ih acc2(1) by simp
    qed
  qed
qed

section \<open>Properties of writing\<close>

lemma write_partition_ok:
  assumes "mtd_write_partition malloc_ok part (Some fd) = Some ctx" "0 < erase_size part" "c \<Longrightarrow> dv_calls fd = []"
  shows "wctx_ok c ctx" "stored ctx < w_es ctx" "written ctx = []" "w_partition ctx = part" "w_fd ctx = fd\<lparr>fd_pos := 0\<rparr>"
  using assms by (auto simp: mtd_write_partition_def wctx_ok_def written_def flash_of_def marks_agree_def used_blocks_def contents_def
      split: if_splits)

lemma mtd_write_data_returns:
  assumes "wctx_ok c ctx" "stored ctx < w_es ctx" "\<forall>n. realloc_ok n" "mtd_write_data realloc_ok ctx dat = Some (int (length dat), ctx')"
  shows "wctx_ok c ctx'" "stored ctx' < w_es ctx" "w_partition ctx' = w_partition ctx" "below 0 (w_fd ctx) (w_fd ctx')" "written ctx' = written ctx @ dat"
proof -
  from write_data_ok [OF assms(1-3), of dat] obtain good ctx1 where
    w: "write_data_loop realloc_ok dat ctx = Some (good, ctx1)" "w_partition ctx1 = w_partition ctx" "below 0 (w_fd ctx) (w_fd ctx1)"
      "good \<longrightarrow> wctx_ok c ctx1 \<and> stored ctx1 < w_es ctx \<and> written ctx1 = written ctx @ dat" by blast
  with assms(4) have "good" "ctx' = ctx1" by (auto simp: mtd_write_data_def split: if_splits)
  with w show "wctx_ok c ctx'" "stored ctx' < w_es ctx" "w_partition ctx' = w_partition ctx" "below 0 (w_fd ctx) (w_fd ctx')" "written ctx' = written ctx @ dat"
    by simp_all
qed

text \<open>Closing a partition writes what is pending.\<close>

lemma close_flash:
  assumes ok: "wctx_ok c ctx" "stored ctx < w_es ctx" and mem: "\<forall>n. realloc_ok n" and close: "mtd_write_close realloc_ok ctx = Some (0, fd')"
  shows "\<exists>n z bad. n * w_es ctx \<le> length (dv_data fd') \<and> z < w_es ctx \<and> below 0 (w_fd ctx) fd'
    \<and> contents (w_es ctx) (used_blocks (w_es ctx) bad n) (dv_data fd') = written ctx @ replicate z 0
    \<and> (stored ctx = 0 \<longrightarrow> z = 0 \<and> bad = bad_block_offsets ctx)
    \<and> (c \<longrightarrow> dv_calls fd' = [] \<and> used_blocks (w_es ctx) bad n = used_blocks (w_es ctx) (dv_bad fd') n)"
proof -
  let ?es = "w_es ctx"
  from close obtain rc ctx3 a where cl: "mtd_erase_blocks realloc_ok ctx 0 = Some (rc, ctx3)" "rc \<noteq> -1" "next_outcome (w_fd ctx3) = (a, fd')"
    by (auto simp: mtd_write_close_def split: if_splits prod.splits bind_splits)
  have b3: "stored ctx = 0 \<Longrightarrow> bad_block_offsets ctx3 = bad_block_offsets ctx"
    using cl(1) by (auto simp: mtd_erase_blocks_def flush_pending_def Let_def split: if_splits prod.splits)
  from erase_blocks_ok [OF ok mem, where blocks = 0] cl(1,2)
  have f: "w_partition ctx3 = w_partition ctx" "below 0 (w_fd ctx) (w_fd ctx3)" "wctx_ok c ctx3"
    "flash_of ctx3 = written ctx @ replicate (if stored ctx = 0 then 0 else ?es - stored ctx) 0" by auto
  have p3: "w_es ctx3 = ?es" using f(1) by simp
  have es: "0 < ?es" using ok(2) by simp
  note k = next_outcome_keeps [OF cl(3)]
  define n where "n = fd_pos (w_fd ctx3) div ?es"
  have n: "n * ?es \<le> length (dv_data fd')" using f(3) k(1) p3 div_times_less_eq_dividend [of "fd_pos (w_fd ctx3)" ?es]
    by (simp add: n_def wctx_ok_def)
  define z where "z = (if stored ctx = 0 then 0 else ?es - stored ctx)"
  have z: "z < ?es" using es by (simp add: z_def)
  have "contents ?es (used_blocks ?es (bad_block_offsets ctx3) n) (dv_data fd') = written ctx @ replicate z 0"
    using f(4) p3 k(1) by (simp add: flash_of_def n_def z_def)
  moreover have "below 0 (w_fd ctx) fd'" using f(2) k(1,2) by (simp add: below_def)
  moreover have "stored ctx = 0 \<longrightarrow> z = 0 \<and> bad_block_offsets ctx3 = bad_block_offsets ctx" using b3 by (simp add: z_def)
  moreover have "dv_calls fd' = [] \<and> used_blocks ?es (bad_block_offsets ctx3) n = used_blocks ?es (dv_bad fd') n" if c
  proof -
    have m: "marks_agree ctx3" using f(3) that by (simp add: wctx_ok_def)
    then have "dv_calls fd' = []" using cl(3) by (auto simp: marks_agree_def next_outcome_def)
    moreover have "used_blocks ?es (bad_block_offsets ctx3) n = used_blocks ?es (dv_bad (w_fd ctx3)) n"
      unfolding used_blocks_def
    proof (rule filter_cong [OF refl])
      fix q assume "q \<in> set (map (\<lambda>i. i * ?es) [0..<n])"
      then obtain i where i: "q = i * ?es" "i \<in> {0..<n}" unfolding set_map set_upt by (rule imageE)
      then have "i * ?es < n * ?es" using es by simp
      then have "i * ?es < fd_pos (w_fd ctx3)" using div_times_less_eq_dividend [of "fd_pos (w_fd ctx3)" ?es] unfolding n_def by linarith
      then show "(q \<notin> set (bad_block_offsets ctx3)) = (q \<notin> set (dv_bad (w_fd ctx3)))" using m i(1) p3 unfolding marks_agree_def by auto
    qed
    ultimately show ?thesis using k(2) by simp
  qed
  ultimately show ?thesis using n z by (intro exI [of _ n] exI [of _ z] exI [of _ "bad_block_offsets ctx3"]) simp
qed

text \<open>The calls of a caller that writes an image and closes the partition.\<close>

definition mtd_store :: "(nat \<Rightarrow> bool) \<Rightarrow> buffer \<Rightarrow> MtdWriteContext \<Rightarrow> MtdWriteContext \<Rightarrow> mtd_fd \<Rightarrow> bool" where
  "mtd_store realloc_ok dat ctx ctx2 fd' \<longleftrightarrow>
     (\<exists>ctx1 r. mtd_write_data realloc_ok ctx dat = Some (int (length dat), ctx1)
        \<and> mtd_erase_blocks realloc_ok ctx1 (-1) = Some (r, ctx2) \<and> r \<noteq> -1 \<and> mtd_write_close realloc_ok ctx2 = Some (0, fd'))"

lemma mtd_store_flash:
  assumes open_: "mtd_write_partition malloc_ok part (Some fd) = Some ctx" "0 < erase_size part" "c \<Longrightarrow> dv_calls fd = []"
    and mem: "\<forall>n. realloc_ok n" and run: "mtd_store realloc_ok dat ctx ctx2 fd'"
  shows "\<exists>n z. n * erase_size part \<le> length (dv_data fd') \<and> z < erase_size part \<and> below 0 fd fd'
    \<and> contents (erase_size part) (used_blocks (erase_size part) (bad_block_offsets ctx2) n) (dv_data fd') = dat @ replicate z 0
    \<and> (c \<longrightarrow> dv_calls fd' = []
         \<and> used_blocks (erase_size part) (bad_block_offsets ctx2) n = used_blocks (erase_size part) (dv_bad fd') n)"
proof -
  let ?es = "erase_size part"
  note o = write_partition_ok [OF open_]
  from run obtain ctx1 r where s: "mtd_write_data realloc_ok ctx dat = Some (int (length dat), ctx1)"
    "mtd_erase_blocks realloc_ok ctx1 (-1) = Some (r, ctx2)" "r \<noteq> -1" "mtd_write_close realloc_ok ctx2 = Some (0, fd')"
    unfolding mtd_store_def by blast
  note w = mtd_write_data_returns [OF o(1,2) mem s(1)]
  have p1: "w_es ctx1 = ?es" using w(3) o(4) by simp
  from erase_blocks_ok [OF w(1) _ mem, where blocks = "-1"] w(2,3) s(2,3)
  have e: "w_partition ctx2 = w_partition ctx1" "below 0 (w_fd ctx1) (w_fd ctx2)" "wctx_ok c ctx2" "stored ctx2 = 0"
    "flash_of ctx2 = written ctx1 @ replicate (if stored ctx1 = 0 then 0 else w_es ctx1 - stored ctx1) 0" by auto
  have s2: "stored ctx2 < w_es ctx2" using e(3,4) by (simp add: wctx_ok_def)
  have p2: "w_es ctx2 = ?es" using e(1) p1 by simp
  have w1: "written ctx1 = dat" using w(5) o(3) by simp
  have "written ctx2 = flash_of ctx2" using e(4) by (simp add: written_def)
  then have "written ctx2 = dat @ replicate (if stored ctx1 = 0 then 0 else ?es - stored ctx1) 0" using e(5) by (simp only: w1 p1)
  moreover have "below 0 fd fd'" if "below 0 (w_fd ctx2) fd'" using w(4) e(2) that o(5) by (simp add: below_def)
  moreover have "(if stored ctx1 = 0 then 0 else ?es - stored ctx1) < ?es" using open_(2) by simp
  ultimately show ?thesis using close_flash [OF e(3) s2 mem s(4)] e(4) unfolding p2 by fastforce
qed

lemma used_readable: "n \<le> m \<Longrightarrow> readable es bad 0 m = used_blocks es bad n @ readable es bad n m"
proof -
  assume "n \<le> m"
  then have "[0..<m] = [0..<n] @ [n..<m]" using upt_add_eq_append [of 0 n "m - n"] by simp
  then show ?thesis by (simp add: readable_def used_blocks_def)
qed

text \<open>C22: when \<open>mtd_write_data\<close>, \<open>mtd_erase_blocks\<close> and \<open>mtd_write_close\<close> report success, the data is on the
  device, whatever erasures, writes and reads failed on the way or wrote something else: it is, padded with zeros, in the
  blocks from the start that are not recorded as skipped.\<close>

theorem mtd_write_stored:
  assumes "mtd_write_partition malloc_ok part (Some fd) = Some ctx" "0 < erase_size part" "\<forall>n. realloc_ok n"
    "mtd_write_data realloc_ok ctx dat = Some (int (length dat), ctx1)"
    "mtd_erase_blocks realloc_ok ctx1 (-1) = Some (r, ctx2)" "r \<noteq> -1" "mtd_write_close realloc_ok ctx2 = Some (0, fd')"
  shows "\<exists>n z. n * erase_size part \<le> length (dv_data fd') \<and> z < erase_size part
    \<and> contents (erase_size part) (used_blocks (erase_size part) (bad_block_offsets ctx2) n) (dv_data fd') = dat @ replicate z 0"
proof -
  have "mtd_store realloc_ok dat ctx ctx2 fd'" using assms(4-7) unfolding mtd_store_def by blast
  from mtd_store_flash [where c = False, OF assms(1,2) _ assms(3) this] show ?thesis by blast
qed

text \<open>Data in the first blocks of a device is what is read.\<close>

lemma mtd_read_stored:
  assumes dev: "device_ok part fd" and "malloc_ok (erase_size part)"
    and n: "n * erase_size part \<le> length (dv_data fd)"
      "contents (erase_size part) (used_blocks (erase_size part) (dv_bad fd) n) (dv_data fd) = dat @ x"
  shows "\<exists>rctx rctx'. mtd_read_partition malloc_ok part (Some fd) = Some rctx \<and> mtd_read_data rctx (length dat) = Some (Some dat, rctx')"
proof -
  let ?es = "erase_size part"
  have es: "0 < ?es" using dev by (simp add: device_ok_def)
  define rctx where "rctx = \<lparr>r_partition = part, r_buffer = replicate ?es 0, consumed = ?es, r_fd = fd\<lparr>fd_pos := 0\<rparr>\<rparr>"
  have o: "mtd_read_partition malloc_ok part (Some fd) = Some rctx"
    using assms(2) by (simp add: mtd_read_partition_def rctx_def)
  have r: "rctx_ok rctx" using dev by (simp add: rctx_ok_def rctx_def device_ok_def)
  have "n \<le> p_size part div ?es" using n(1) dev less_eq_div_iff_mult_less_eq [OF es, of n "p_size part"] by (simp add: device_ok_def)
  then have "unread rctx = contents ?es (used_blocks ?es (dv_bad fd) n) (dv_data fd)
      @ contents ?es (readable ?es (dv_bad fd) n (p_size part div ?es)) (dv_data fd)"
    by (simp add: unread_def unread_blocks_def rctx_def used_readable contents_append)
  then have u: "unread rctx = dat @ x @ contents ?es (readable ?es (dv_bad fd) n (p_size part div ?es)) (dv_data fd)"
    using n(2) by simp
  from read_data_clean [OF r, of "[]" "length dat"] u obtain rctx' where "read_data_loop (length dat) [] rctx = Some (Some dat, rctx')" by auto
  with o show ?thesis unfolding mtd_read_data_def by blast
qed

text \<open>C23: on a device where no call fails, with any blocks marked bad, data that was written with success is
  what \<open>mtd_read_data\<close> then returns.\<close>

theorem mtd_read_write:
  assumes "device_ok part fd" "mtd_write_partition malloc_ok part (Some fd) = Some ctx" "\<forall>n. realloc_ok n"
    "mtd_write_data realloc_ok ctx dat = Some (int (length dat), ctx1)"
    "mtd_erase_blocks realloc_ok ctx1 (-1) = Some (r, ctx2)" "r \<noteq> -1" "mtd_write_close realloc_ok ctx2 = Some (0, fd')"
  shows "\<exists>rctx rctx'. mtd_read_partition malloc_ok part (Some fd') = Some rctx
    \<and> mtd_read_data rctx (length dat) = Some (Some dat, rctx')"
proof -
  have es: "0 < erase_size part" "dv_calls fd = []" using assms(1) by (simp_all add: device_ok_def)
  have "mtd_store realloc_ok dat ctx ctx2 fd'" using assms(4-7) unfolding mtd_store_def by blast
  from mtd_store_flash [where c = True, OF assms(2) es assms(3) this] obtain n z where
    n: "n * erase_size part \<le> length (dv_data fd')" "below 0 fd fd'" "dv_calls fd' = []"
      "contents (erase_size part) (used_blocks (erase_size part) (dv_bad fd') n) (dv_data fd') = dat @ replicate z 0" by auto
  have "device_ok part fd'" using assms(1) n(2,3) by (simp add: device_ok_def below_def)
  moreover have "malloc_ok (erase_size part)" using assms(2) by (simp add: mtd_write_partition_def split: if_splits)
  ultimately show ?thesis using n(1,4) by (rule mtd_read_stored)
qed

section \<open>Reading with failures\<close>

lemma next_outcome_data: "next_outcome fd = (a, fd1) \<Longrightarrow> dv_data fd1 = dv_data fd \<and> fd_pos fd1 = fd_pos fd"
  by (auto simp: next_outcome_def split: list.splits)

lemma seek_read_data:
  assumes "seek_read p n fd = (r, fd')"
  shows "dv_data fd' = dv_data fd" "r = Some dat \<Longrightarrow> dat = take n (drop p (dv_data fd)) \<and> fd_pos fd' = p + n \<and> p + n \<le> length (dv_data fd)"
  using assms by (auto simp: seek_read_def mtd_seek_def mtd_read_def Let_def split: prod.splits if_splits dest!: next_outcome_data)

lemma asking_keeps:
  "ecc_get_stats fd = (x, fd') \<Longrightarrow> dv_data fd' = dv_data fd \<and> fd_pos fd' = fd_pos fd"
  "mem_get_bad_block p fd = (y, fd') \<Longrightarrow> dv_data fd' = dv_data fd \<and> fd_pos fd' = fd_pos fd"
  by (auto simp: ecc_get_stats_def mem_get_bad_block_def split: prod.splits dest!: next_outcome_data)

text \<open>A block that is read is a block of the device at or behind the position, whatever calls fail.\<close>

lemma read_block_from_data:
  assumes "read_block_from part before pos fd = Some (r, fd')"
  shows "dv_data fd' = dv_data fd \<and> (\<forall>n dat. pos = n * erase_size part \<longrightarrow> r = Some dat
    \<longrightarrow> (\<exists>m \<ge> n. dat = take (erase_size part) (drop (m * erase_size part) (dv_data fd)) \<and> fd_pos fd' = Suc m * erase_size part
          \<and> Suc m * erase_size part \<le> length (dv_data fd)))"
proof -
  define P where "P part pos fd p \<longleftrightarrow> (case p of (r, fd') \<Rightarrow> dv_data fd' = dv_data fd \<and> (\<forall>n dat. pos = n * erase_size part \<longrightarrow> r = Some dat
    \<longrightarrow> (\<exists>m \<ge> n. dat = take (erase_size part) (drop (m * erase_size part) (dv_data fd)) \<and> fd_pos fd' = Suc m * erase_size part
          \<and> Suc m * erase_size part \<le> length (dv_data fd))))" for part :: MtdPartition and pos and fd :: mtd_fd and p :: "buffer option \<times> mtd_fd"
  have later: "P part pos fd p" if "P part (pos + erase_size part) fd1 p" "dv_data fd1 = dv_data fd" for part pos fd fd1 p
    using that unfolding P_def by (auto, metis (no_types, lifting) Suc_leD add.commute mult_Suc)
  have "P part pos fd (r, fd')"
  proof (rule read_block_from.raw_induct [OF _ assms, where P = "\<lambda>part before pos fd p. P part pos fd p"])
    fix rec part before pos fd and p :: "buffer option \<times> mtd_fd"
    assume IH: "\<And>part before pos fd p. rec part before pos fd = Some p \<Longrightarrow> P part pos fd p"
      and e: "(if int (pos + erase_size part) \<le> to_int32 (int (p_size part)) then
        (case seek_read pos (erase_size part) fd of
           (None, fd1) \<Rightarrow> rec part before (pos + erase_size part) fd1
         | (Some dat, fd1) \<Rightarrow>
             (case ecc_get_stats fd1 of
                (None, fd2) \<Rightarrow> Some (None, fd2)
              | (Some after, fd2) \<Rightarrow>
                  if after \<noteq> before then rec part after (pos + erase_size part) fd2
                  else
                    (case mem_get_bad_block pos fd2 of (mgbb, fd3) \<Rightarrow>
                       if mgbb \<noteq> Good then rec part before (pos + erase_size part) fd3
                       else Some (Some dat, fd3))))
      else Some (None, fd)) = Some p"
    show "P part pos fd p"
    proof (cases "int (pos + erase_size part) \<le> to_int32 (int (p_size part))")
      case False
      with e show ?thesis by (auto simp: P_def)
    next
      case True
      obtain blk fd1 where s: "seek_read pos (erase_size part) fd = (blk, fd1)" by fastforce
      note d1 = seek_read_data [OF s]
      show ?thesis
      proof (cases blk)
        case None
        with e True s have "rec part before (pos + erase_size part) fd1 = Some p" by simp
        from later [OF IH [OF this] d1(1)] show ?thesis .
      next
        case (Some dat)
        obtain st fd2 where g: "ecc_get_stats fd1 = (st, fd2)" by fastforce
        note d2 = asking_keeps(1) [OF g]
        show ?thesis
        proof (cases st)
          case None
          with e True s Some g d1 d2 show ?thesis by (auto simp: P_def)
        next
          case st: (Some after)
          obtain mg fd3 where b: "mem_get_bad_block pos fd2 = (mg, fd3)" by fastforce
          note d3 = asking_keeps(2) [OF b]
          from e True s Some g st b have "(if after \<noteq> before then rec part after (pos + erase_size part) fd2
              else if mg \<noteq> Good then rec part before (pos + erase_size part) fd3 else Some (Some dat, fd3)) = Some p" by (simp split: if_splits)
          then consider "rec part after (pos + erase_size part) fd2 = Some p"
            | "rec part before (pos + erase_size part) fd3 = Some p" | "p = (Some dat, fd3)" by (metis option.inject)
          then show ?thesis
          proof cases
            case 1
            with later [OF IH] d1(1) d2 show ?thesis by simp
          next
            case 2
            with later [OF IH] d1(1) d2 d3 show ?thesis by simp
          next
            case 3
            from d1(2) [OF Some] have "dat = take (erase_size part) (drop pos (dv_data fd))" "fd_pos fd3 = pos + erase_size part"
              "pos + erase_size part \<le> length (dv_data fd)" "dv_data fd3 = dv_data fd" using d1(1) d2 d3 by simp_all
            then show ?thesis unfolding P_def 3 prod.case option.inject by (metis add.commute mult_Suc order.refl)
          qed
        qed
      qed
    qed
  qed
  then show ?thesis by (simp add: P_def)
qed

lemma used_blocks_skip:
  assumes "0 < es" "n \<le> m"
  shows "\<exists>bad'. used_blocks es bad' (Suc m) = used_blocks es bad n @ [m * es]"
proof -
  let ?bad = "filter (\<lambda>p. p < n * es) bad @ map (\<lambda>i. i * es) [n..<m]"
  have u: "[0..<Suc m] = [0..<n] @ [n..<m] @ [m]" using assms(2) upt_add_eq_append [of 0 n "m - n"] by simp
  have old: "filter (\<lambda>p. p \<notin> set ?bad) (map (\<lambda>i. i * es) [0..<n]) = used_blocks es bad n"
    unfolding used_blocks_def using assms(1) by (intro filter_cong) auto
  have skipped: "filter (\<lambda>p. p \<notin> set ?bad) (map (\<lambda>i. i * es) [n..<m]) = []" by (auto simp: filter_empty_conv)
  have "m * es \<notin> set ?bad" using assms by auto
  with old skipped show ?thesis by (intro exI [of _ ?bad]) (simp add: used_blocks_def u del: upt_Suc)
qed

text \<open>What has been read of a partition, the bytes that wait in the buffer included: blocks of the device, in order.\<close>

definition read_so_far :: "MtdPartition \<Rightarrow> buffer \<Rightarrow> buffer \<Rightarrow> MtdReadContext \<Rightarrow> bool" where
  "read_so_far part d got ctx \<longleftrightarrow> r_partition ctx = part \<and> dv_data (r_fd ctx) = d
     \<and> length (r_buffer ctx) = erase_size part \<and> consumed ctx \<le> erase_size part
     \<and> (\<exists>bad n. fd_pos (r_fd ctx) = n * erase_size part \<and> n * erase_size part \<le> length d
          \<and> contents (erase_size part) (used_blocks (erase_size part) bad n) d = got @ drop (consumed ctx) (r_buffer ctx))"

lemma read_block_data:
  assumes "0 < erase_size part" "read_block part (r_fd ctx) = Some (Some dat, fd')" "read_so_far part d got ctx" "consumed ctx = erase_size part"
  shows "length dat = erase_size part" "read_so_far part d (got @ dat) (ctx\<lparr>r_fd := fd'\<rparr>)"
    "read_so_far part d got (ctx\<lparr>r_fd := fd', r_buffer := dat, consumed := 0\<rparr>)"
proof -
  let ?es = "erase_size part"
  from assms(3,4) obtain bad n where b: "r_partition ctx = part" "dv_data (r_fd ctx) = d" "length (r_buffer ctx) = ?es"
    "fd_pos (r_fd ctx) = n * ?es" "contents ?es (used_blocks ?es bad n) d = got @ drop (consumed ctx) (r_buffer ctx)" unfolding read_so_far_def by blast
  have b5: "contents ?es (used_blocks ?es bad n) d = got" using b(3,5) assms(4) by simp
  from assms(2) obtain st fd1 where g: "ecc_get_stats (r_fd ctx) = (Some st, fd1)" "read_block_from part st (fd_pos fd1) fd1 = Some (Some dat, fd')"
    by (auto simp: read_block_def split: prod.splits option.splits)
  note k = asking_keeps(1) [OF g(1)]
  from read_block_from_data [OF g(2)] k b(2,4) obtain m where m: "n \<le> m" "dat = take ?es (drop (m * ?es) d)" "fd_pos fd' = Suc m * ?es"
    "Suc m * ?es \<le> length d" "dv_data fd' = d" by auto
  from used_blocks_skip [OF assms(1) m(1), of bad] obtain bad' where "used_blocks ?es bad' (Suc m) = used_blocks ?es bad n @ [m * ?es]" ..
  then have c: "contents ?es (used_blocks ?es bad' (Suc m)) d = got @ dat" using b5 m(2) by (simp add: contents_append contents_def)
  show l: "length dat = ?es" using m(2,4) by simp
  show "read_so_far part d (got @ dat) (ctx\<lparr>r_fd := fd'\<rparr>)" "read_so_far part d got (ctx\<lparr>r_fd := fd', r_buffer := dat, consumed := 0\<rparr>)"
    unfolding read_so_far_def using b(1,3) m(3-5) c l assms(4) by (auto intro!: exI [of _ bad'] exI [of _ "Suc m"])
qed

lemma read_direct_data:
  assumes "read_direct len acc ctx = Some (Some acc', ctx')" "0 < erase_size part" "read_so_far part d (got @ acc) ctx"
  shows "read_so_far part d (got @ acc') ctx'"
proof -
  let ?P = "\<lambda>len acc ctx p. \<forall>acc'. fst p = Some acc' \<longrightarrow> read_so_far part d (got @ acc) ctx \<longrightarrow> read_so_far part d (got @ acc') (snd p)"
  have "?P len acc ctx (Some acc', ctx')"
  proof (rule read_direct.raw_induct [OF _ assms(1), where P = ?P], intro allI impI)
    fix rec len acc ctx and p :: "buffer option \<times> MtdReadContext" and acc'
    assume IH: "\<And>len acc ctx p. rec len acc ctx = Some p \<Longrightarrow> ?P len acc ctx p"
      and e: "(if consumed ctx = erase_size (r_partition ctx) \<and> erase_size (r_partition ctx) \<le> len - length acc then do {
        (blk, fd) \<leftarrow> read_block (r_partition ctx) (r_fd ctx);
        case blk of
          None \<Rightarrow> Some (None, ctx\<lparr>r_fd := fd\<rparr>)
        | Some dat \<Rightarrow> rec len (acc @ dat) (ctx\<lparr>r_fd := fd\<rparr>) }
      else Some (Some acc, ctx)) = Some p"
      and a: "fst p = Some acc'" and i: "read_so_far part d (got @ acc) ctx"
    have part: "r_partition ctx = part" using i by (simp add: read_so_far_def)
    show "read_so_far part d (got @ acc') (snd p)"
    proof (cases "consumed ctx = erase_size part \<and> erase_size part \<le> len - length acc")
      case False
      with e a i part show ?thesis by auto
    next
      case True
      with e part a obtain dat fd where b: "read_block part (r_fd ctx) = Some (Some dat, fd)" "rec len (acc @ dat) (ctx\<lparr>r_fd := fd\<rparr>) = Some p"
        by (auto split: bind_split_asm option.splits)
      have "read_so_far part d (got @ acc @ dat) (ctx\<lparr>r_fd := fd\<rparr>)" using read_block_data(2) [OF assms(2) b(1) i] True by simp
      with IH [OF b(2)] a show ?thesis by simp
    qed
  qed
  with assms(3) show ?thesis by simp
qed

lemma read_buffered_data:
  assumes "read_buffered len acc ctx = (acc', ctx')" "read_so_far part d (got @ acc) ctx"
  shows "read_so_far part d (got @ acc') ctx'"
proof (cases "consumed ctx < erase_size part")
  case True
  define c where "c = min (len - length acc) (erase_size part - consumed ctx)"
  have i: "r_partition ctx = part" "length (r_buffer ctx) = erase_size part" using assms(2) by (simp_all add: read_so_far_def)
  with True assms(1) have r: "acc' = acc @ take c (drop (consumed ctx) (r_buffer ctx))" "ctx' = ctx\<lparr>consumed := consumed ctx + c\<rparr>"
    by (simp_all add: read_buffered_def c_def Let_def)
  have "take c (drop (consumed ctx) (r_buffer ctx)) @ drop (consumed ctx + c) (r_buffer ctx) = drop (consumed ctx) (r_buffer ctx)"
    by (metis add.commute append_take_drop_id drop_drop)
  with assms(2) r show ?thesis by (auto simp: read_so_far_def c_def)
next
  case False
  moreover have "r_partition ctx = part" using assms(2) by (simp add: read_so_far_def)
  ultimately have "acc' = acc \<and> ctx' = ctx" using assms(1) by (simp add: read_buffered_def)
  with assms(2) show ?thesis by simp
qed

lemma read_data_loop_data:
  assumes "read_data_loop len acc ctx = Some (Some acc', ctx')" "0 < erase_size part" "read_so_far part d (got @ acc) ctx"
  shows "read_so_far part d (got @ acc') ctx'"
proof -
  let ?P = "\<lambda>len acc ctx p. \<forall>acc'. fst p = Some acc' \<longrightarrow> read_so_far part d (got @ acc) ctx \<longrightarrow> read_so_far part d (got @ acc') (snd p)"
  have "?P len acc ctx (Some acc', ctx')"
  proof (rule read_data_loop.raw_induct [OF _ assms(1), where P = ?P], intro allI impI)
    fix rec len acc ctx and p :: "buffer option \<times> MtdReadContext" and acc'
    assume IH: "\<And>len acc ctx p. rec len acc ctx = Some p \<Longrightarrow> ?P len acc ctx p"
      and e: "(if length acc < len then
        (case read_buffered len acc ctx of (acc1, ctx1) \<Rightarrow> do {
           (r, ctx2) \<leftarrow> read_direct len acc1 ctx1;
           case r of
             None \<Rightarrow> Some (None, ctx2)
           | Some acc2 \<Rightarrow>
               if len \<le> length acc2 then Some (Some acc2, ctx2)
               else if consumed ctx2 = erase_size (r_partition ctx2) then do {
                 (blk, fd) \<leftarrow> read_block (r_partition ctx2) (r_fd ctx2);
                 case blk of
                   None \<Rightarrow> Some (None, ctx2\<lparr>r_fd := fd\<rparr>)
                 | Some dat \<Rightarrow> rec len acc2 (ctx2\<lparr>r_fd := fd, r_buffer := dat, consumed := 0\<rparr>) }
               else rec len acc2 ctx2 })
      else Some (Some acc, ctx)) = Some p"
      and a: "fst p = Some acc'" and i: "read_so_far part d (got @ acc) ctx"
    show "read_so_far part d (got @ acc') (snd p)"
    proof (cases "length acc < len")
      case False
      with e a i show ?thesis by auto
    next
      case True
      obtain acc1 ctx1 where 1: "read_buffered len acc ctx = (acc1, ctx1)" by fastforce
      from e True 1 a obtain acc2 ctx2 where 2: "read_direct len acc1 ctx1 = Some (Some acc2, ctx2)" by (auto split: bind_split_asm option.splits)
      have j: "read_so_far part d (got @ acc2) ctx2" by (rule read_direct_data [OF 2 assms(2) read_buffered_data [OF 1 i]])
      then have part: "r_partition ctx2 = part" by (simp add: read_so_far_def)
      note e2 = e [unfolded 1 prod.case 2 bind.bind_lunit option.case part]
      consider "p = (Some acc2, ctx2)" | "rec len acc2 ctx2 = Some p"
        | dat fd where "consumed ctx2 = erase_size part" "read_block part (r_fd ctx2) = Some (Some dat, fd)"
            "rec len acc2 (ctx2\<lparr>r_fd := fd, r_buffer := dat, consumed := 0\<rparr>) = Some p"
      proof (cases "len \<le> length acc2")
        case True
        with e2 \<open>length acc < len\<close> show thesis using that(1) by simp
      next
        case long: False
        show thesis
        proof (cases "consumed ctx2 = erase_size part")
          case True
          with e2 \<open>length acc < len\<close> long a obtain dat fd where "read_block part (r_fd ctx2) = Some (Some dat, fd)"
            "rec len acc2 (ctx2\<lparr>r_fd := fd, r_buffer := dat, consumed := 0\<rparr>) = Some p"
            by (auto split: bind_split_asm option.splits)
          with True show thesis by (rule that(3))
        next
          case False
          with e2 \<open>length acc < len\<close> long show thesis using that(2) by simp
        qed
      qed
      then show ?thesis
      proof cases
        case 3
        with read_block_data(3) [OF assms(2) 3(2) j 3(1)] IH [OF 3(3)] a show ?thesis by blast
      qed (use a j IH in auto)
    qed
  qed
  with assms(3) show ?thesis by simp
qed

lemma mtd_read_data_so_far:
  "mtd_read_data ctx n = Some (Some dat, ctx') \<Longrightarrow> 0 < erase_size part \<Longrightarrow> read_so_far part d got ctx \<Longrightarrow> read_so_far part d (got @ dat) ctx'"
  using read_data_loop_data [of n "[]"] by (simp add: mtd_read_data_def)

section \<open>Blocks that fail without being marked\<close>

lemma write_one_block:
  assumes ctx: "stored ctx = 0" "0 < w_es ctx" and dat: "length dat = w_es ctx"
    and b: "write_block realloc_ok dat ctx = Some (True, ctx')" "stored ctx' = 0" "w_es ctx' = w_es ctx"
  shows "mtd_write_data realloc_ok ctx dat = Some (int (length dat), ctx')"
proof -
  have "dat \<noteq> []" using ctx(2) dat by auto
  have d: "write_direct realloc_ok dat ctx = Some (Some [], ctx')"
    using ctx dat b by (subst write_direct.simps, subst write_direct.simps) (simp add: Let_def)
  have "write_data_loop realloc_ok dat ctx = write_data_loop realloc_ok [] ctx'"
    using ctx dat d \<open>dat \<noteq> []\<close> by (subst write_data_loop.simps) (simp add: write_buffered_def flush_full_def)
  then show ?thesis by (subst (asm) (2) write_data_loop.simps) (simp add: mtd_write_data_def)
qed

text \<open>A block that cannot be erased is skipped by the writer but not marked: when that happens to the first of two
  blocks, every call of the writer reports success and the reader returns what was in the first block before.\<close>

theorem mtd_skip_unmarked:
  assumes part: "0 < erase_size part" "p_size part = 2 * erase_size part" "p_size part < 2 ^ 31"
    and fd: "length (dv_data fd) = p_size part" "dv_bad fd = []"
      "dv_calls fd = [Outcome True [] 0, Outcome False [] 0, Outcome False [] 0, Outcome False [] 0]"
    and mem: "malloc_ok (erase_size part)" "\<forall>n. realloc_ok n" and dat: "length dat = erase_size part"
  shows "\<exists>ctx ctx1 ctx2 r fd' rctx rctx'. mtd_write_partition malloc_ok part (Some fd) = Some ctx
    \<and> mtd_write_data realloc_ok ctx dat = Some (int (length dat), ctx1)
    \<and> mtd_erase_blocks realloc_ok ctx1 (-1) = Some (r, ctx2) \<and> r \<noteq> -1 \<and> mtd_write_close realloc_ok ctx2 = Some (0, fd')
    \<and> mtd_read_partition malloc_ok part (Some fd') = Some rctx
    \<and> mtd_read_data rctx (length dat) = Some (Some (take (erase_size part) (dv_data fd)), rctx')"
proof -
  let ?es = "erase_size part"
  define ctx where "ctx = \<lparr>w_partition = part, w_buffer = replicate ?es 0, stored = 0, w_fd = fd\<lparr>fd_pos := 0\<rparr>, bad_block_offsets = [], bad_block_alloc = 0\<rparr>"
  define fd1 where "fd1 = fd\<lparr>dv_calls := [], fd_pos := 0\<rparr>"
  define d' where "d' = overwrite ?es dat (overwrite ?es (replicate ?es 0xff) (dv_data fd))"
  define fd2 where "fd2 = fd1\<lparr>dv_data := d', fd_pos := 2 * ?es\<rparr>"
  have o: "mtd_write_partition malloc_ok part (Some fd) = Some ctx" using mem(1) by (simp add: mtd_write_partition_def ctx_def)
  have "to_int32 (int (p_size part)) = int (p_size part)" using part(3) by (intro to_int32_id) simp_all
  then have fits: "int (0 + ?es) \<le> to_int32 (int (p_size part))" "int (?es + ?es) \<le> to_int32 (int (p_size part))"
    using part(2) by simp_all
  obtain alloc where a: "add_bad_block_offset realloc_ok 0 (ctx\<lparr>w_fd := fd1\<lparr>dv_calls := [Outcome False [] 0]\<rparr>\<rparr>)
      = Some (ctx\<lparr>w_fd := fd1\<lparr>dv_calls := [Outcome False [] 0]\<rparr>, bad_block_offsets := [0], bad_block_alloc := alloc\<rparr>)"
    using add_bad_block_ok [OF mem(2), of 0 "ctx\<lparr>w_fd := fd1\<lparr>dv_calls := [Outcome False [] 0]\<rparr>\<rparr>"] by (auto simp: ctx_def)
  have len: "?es \<le> length (dv_data fd)" "?es + length dat \<le> length (dv_data fd)" using part fd(1) dat by simp_all
  define ctx1 where "ctx1 = ctx\<lparr>w_fd := fd2, bad_block_offsets := [0], bad_block_alloc := alloc\<rparr>"
  have got: "mem_get_bad_block 0 (fd\<lparr>fd_pos := 0\<rparr>) = (Good, fd1\<lparr>dv_calls := [Outcome False [] 0, Outcome False [] 0, Outcome False [] 0]\<rparr>)"
    using fd(2,3) by (simp add: mem_get_bad_block_def next_outcome_def fd1_def)
  have tried: "try_block 2 0 dat (fd1\<lparr>dv_calls := [Outcome False [] 0, Outcome False [] 0, Outcome False [] 0]\<rparr>)
      = (False, fd1\<lparr>dv_calls := [Outcome False [] 0]\<rparr>)"
    using len(1) dat by (simp add: numeral_2_eq_2 mem_erase_def next_outcome_def fd1_def)
  have er0: "mem_erase 0 ?es (fd1\<lparr>dv_calls := [Outcome False [] 0]\<rparr>) = (False, fd1)"
    using len(1) by (simp add: mem_erase_def next_outcome_def fd1_def)
  have got1: "mem_get_bad_block ?es fd1 = (Good, fd1)" using fd(2) by (simp add: mem_get_bad_block_def next_outcome_def fd1_def)
  have tried1: "try_block 2 ?es dat fd1 = (True, fd2)"
    using len(2) dat by (subst try_block_clean) (simp_all add: fd1_def fd2_def d'_def mult_2)
  define ctxa where "ctxa = ctx\<lparr>w_fd := fd1, bad_block_offsets := [0], bad_block_alloc := alloc\<rparr>"
  have wb1: "write_block_from realloc_ok dat ?es ctxa = Some (True, ctx1)"
    using fits(2) got1 tried1 by (subst write_block_from.simps) (simp add: Let_def ctxa_def ctx_def ctx1_def)
  have "write_block_from realloc_ok dat 0 ctx = write_block_from realloc_ok dat ?es ctxa"
    using fits(1) got tried er0 a by (subst write_block_from.simps) (simp add: Let_def ctxa_def ctx_def)
  with wb1 have "write_block realloc_ok dat ctx = Some (True, ctx1)" by (simp add: write_block_def ctx_def)
  then have w: "mtd_write_data realloc_ok ctx dat = Some (int (length dat), ctx1)"
    using part(1) dat by (intro write_one_block) (simp_all add: ctx_def ctx1_def)
  have e: "mtd_erase_blocks realloc_ok ctx1 b = Some (int (2 * ?es), ctx1)" if "b \<le> 0" for b
    using part that by (auto simp: mtd_erase_blocks_def flush_pending_def Let_def ctx1_def ctx_def fd2_def to_int32_def)
  have cl: "mtd_write_close realloc_ok ctx1 = Some (0, fd2)"
    using e [of 0] by (simp add: mtd_write_close_def ctx1_def fd2_def fd1_def next_outcome_def)
  define rctx where "rctx = \<lparr>r_partition = part, r_buffer = replicate ?es 0, consumed = ?es, r_fd = fd2\<lparr>fd_pos := 0\<rparr>\<rparr>"
  have ro: "mtd_read_partition malloc_ok part (Some fd2) = Some rctx" using mem(1) by (simp add: mtd_read_partition_def rctx_def)
  have ld: "length d' = length (dv_data fd)" "take ?es d' = take ?es (dv_data fd)"
    using len dat by (simp_all add: d'_def overwrite_def)
  have r: "rctx_ok rctx" using part fd(1) ld(1) by (simp add: rctx_ok_def rctx_def device_ok_def fd2_def fd1_def)
  have "unread rctx = take ?es d' @ contents ?es [?es] d'"
    using part fd(2) by (simp add: unread_def unread_blocks_def rctx_def fd2_def fd1_def readable_def contents_def upt_rec numeral_2_eq_2)
  moreover have "length (take ?es d') = ?es" using ld(1) len(1) by simp
  ultimately obtain rctx' where "read_data_loop (length dat) [] rctx = Some (Some (take ?es d'), rctx')"
    using read_data_clean [OF r, of "[]" "length dat"] dat by auto
  with o w e [of "-1"] cl ro ld(2) show ?thesis
    unfolding mtd_read_data_def
    by (intro exI [of _ ctx] exI [of _ ctx1] exI [of _ ctx1] exI [of _ "int (2 * ?es)"] exI [of _ fd2] exI [of _ rctx] exI [of _ rctx']) auto
qed

section \<open>Examples\<close>

definition sample_part :: MtdPartition where
  "sample_part = \<lparr>device_index = 0, p_size = 8, erase_size = 2, p_name = Some ''boot''\<rparr>"

definition mtd_sample_device :: "buffer \<Rightarrow> nat \<Rightarrow> mtd_fd" where
  "mtd_sample_device d pos = \<lparr>dv_data = d, dv_bad = [2], dv_ecc = 0, dv_calls = [], fd_pos = pos\<rparr>"

definition sample_ctx :: "buffer \<Rightarrow> nat \<Rightarrow> nat list \<Rightarrow> buffer \<Rightarrow> nat \<Rightarrow> MtdWriteContext" where
  "sample_ctx buf n bad d pos = \<lparr>w_partition = sample_part, w_buffer = buf, stored = n, w_fd = mtd_sample_device d pos,
     bad_block_offsets = bad, bad_block_alloc = length bad\<rparr>"

lemma mtd_sample_run:
  "mtd_write_partition (\<lambda>_. True) sample_part (Some (mtd_sample_device (replicate 8 9) 0)) = Some (sample_ctx [0, 0] 0 [] (replicate 8 9) 0)"
  "mtd_write_data (\<lambda>_. True) (sample_ctx [0, 0] 0 [] (replicate 8 9) 0) [1, 2, 3] = Some (int (length [1 :: byte, 2, 3]), sample_ctx [3, 0] 1 [] [1, 2, 9, 9, 9, 9, 9, 9] 2)"
  "mtd_erase_blocks (\<lambda>_. True) (sample_ctx [3, 0] 1 [] [1, 2, 9, 9, 9, 9, 9, 9] 2) (-1) = Some (8, sample_ctx [3, 0] 0 [2] [1, 2, 9, 9, 3, 0, 255, 255] 6)"
  "mtd_write_close (\<lambda>_. True) (sample_ctx [3, 0] 0 [2] [1, 2, 9, 9, 3, 0, 255, 255] 6) = Some (0, mtd_sample_device [1, 2, 9, 9, 3, 0, 255, 255] 6)"
  by code_simp+

theorem mtd_write_stored_witness:
  "\<exists>n z. n * 2 \<le> length [1 :: byte, 2, 9, 9, 3, 0, 255, 255] \<and> z < 2 \<and> contents 2 (used_blocks 2 [2] n) [1, 2, 9, 9, 3, 0, 255, 255] = [1, 2, 3] @ replicate z (0 :: byte)"
  using mtd_write_stored [OF mtd_sample_run(1) _ _ mtd_sample_run(2-3) _ mtd_sample_run(4)]
  unfolding sample_part_def mtd_sample_device_def sample_ctx_def by (simp only: MtdPartition.simps mtd_fd.simps MtdWriteContext.simps) simp

theorem mtd_read_write_witness:
  "\<exists>rctx rctx'. mtd_read_partition (\<lambda>_. True) sample_part (Some (mtd_sample_device [1, 2, 9, 9, 3, 0, 255, 255] 6)) = Some rctx
    \<and> mtd_read_data rctx (length [1 :: byte, 2, 3]) = Some (Some [1, 2, 3], rctx')"
proof (rule mtd_read_write [OF _ mtd_sample_run(1) _ mtd_sample_run(2-3) _ mtd_sample_run(4)])
  show "device_ok sample_part (mtd_sample_device (replicate 8 9) 0)" by (simp add: device_ok_def sample_part_def mtd_sample_device_def)
qed simp_all

theorem mtd_skip_unmarked_witness:
  "\<exists>ctx ctx1 ctx2 r fd' rctx rctx'.
      mtd_write_partition (\<lambda>_. True) \<lparr>device_index = 0, p_size = 2, erase_size = 1, p_name = None\<rparr>
        (Some \<lparr>dv_data = [8, 9], dv_bad = [], dv_ecc = 0, dv_calls = [Outcome True [] 0, Outcome False [] 0, Outcome False [] 0, Outcome False [] 0], fd_pos = 0\<rparr>) = Some ctx
    \<and> mtd_write_data (\<lambda>_. True) ctx [1] = Some (1, ctx1)
    \<and> mtd_erase_blocks (\<lambda>_. True) ctx1 (-1) = Some (r, ctx2) \<and> r \<noteq> -1 \<and> mtd_write_close (\<lambda>_. True) ctx2 = Some (0, fd')
    \<and> mtd_read_partition (\<lambda>_. True) \<lparr>device_index = 0, p_size = 2, erase_size = 1, p_name = None\<rparr> (Some fd') = Some rctx
    \<and> mtd_read_data rctx 1 = Some (Some [8], rctx')"
  using mtd_skip_unmarked [of "\<lparr>device_index = 0, p_size = 2, erase_size = 1, p_name = None\<rparr>"
      "\<lparr>dv_data = [8, 9], dv_bad = [], dv_ecc = 0, dv_calls = [Outcome True [] 0, Outcome False [] 0, Outcome False [] 0, Outcome False [] 0], fd_pos = 0\<rparr>"
      "\<lambda>_. True" "\<lambda>_. True" "[1]"] by simp

end
