(* ===== verification/MtdScan.thy ===== *)
theory MtdScan
  imports MtdUtils Scanf
begin

text \<open>
  The table of flash partitions: \<open>mtd_scan_partitions\<close> and \<open>mtd_find_partition_by_name\<close> of
  \<open>mtdutils/mtdutils.c\<close>. The text of \<open>/proc/mtd\<close> is an argument, \<^term>\<open>None\<close> when it cannot be read.
\<close>

section \<open>Scanning\<close>

record MtdState =
  partitions :: "MtdPartition list option"
  partition_count :: int

definition g_mtd_state :: MtdState where
  "g_mtd_state = \<lparr>partitions = None, partition_count = -1\<rparr>"

definition mtd_line_format :: "directive list" where
  "mtd_line_format = map Lit ''mtd'' @ [Dec, Lit (CHR '':''), Ws, Hex, Ws, Hex, Ws, Lit (CHR 0x22), NotIn 63 (CHR 0x22)]"

definition scan_line :: "string \<Rightarrow> (int \<times> int \<times> int \<times> string) option" where
  "scan_line bufp =
     (case fst (fscanf mtd_line_format (takeWhile (\<lambda>c. c \<noteq> CHR 0x00) bufp)) of
        [Num mtdnum, Num mtdsize, Num mtderasesize, Text mtdname] \<Rightarrow> Some (mtdnum, mtdsize, mtderasesize, mtdname)
      | _ \<Rightarrow> None)"

text \<open>The inner \<^term>\<open>None\<close> is the way out after a failure; an index outside the table is written nevertheless.\<close>

function scan_lines :: "(string \<Rightarrow> bool) \<Rightarrow> MtdPartition list \<Rightarrow> int \<Rightarrow> string \<Rightarrow> (int option \<times> MtdPartition list) option" where
  "scan_lines strdup_ok ps n bufp =
     (if bufp = [] then Some (Some n, ps)
      else
        case scan_line bufp of
          None \<Rightarrow> scan_lines strdup_ok ps n (eat_line bufp)
        | Some (mtdnum, mtdsize, mtderasesize, mtdname) \<Rightarrow>
            if mtdnum < 0 \<or> int (length ps) \<le> mtdnum then None
            else if \<not> strdup_ok mtdname
            then Some (None, ps[nat mtdnum := \<lparr>device_index = mtdnum, p_size = nat (mtdsize mod 2 ^ 32), erase_size = nat (mtderasesize mod 2 ^ 32), p_name = None\<rparr>])
            else scan_lines strdup_ok
                   (ps[nat mtdnum := \<lparr>device_index = mtdnum, p_size = nat (mtdsize mod 2 ^ 32), erase_size = nat (mtderasesize mod 2 ^ 32), p_name = Some mtdname\<rparr>])
                   (n + 1) (eat_line bufp))"
  by pat_completeness auto
termination
  by (relation "measure (\<lambda>(_, _, _, bufp). length bufp)") (auto intro: length_eat_line)

declare scan_lines.simps [simp del]

definition mtd_scan_partitions :: "(nat \<Rightarrow> bool) \<Rightarrow> (string \<Rightarrow> bool) \<Rightarrow> string option \<Rightarrow> MtdState \<Rightarrow> (int \<times> MtdState) option" where
  "mtd_scan_partitions malloc_ok strdup_ok proc_mtd st =
     (if partitions st = None \<and> \<not> malloc_ok 32 then Some (-1, st)
      else
        let ps = (case partitions st of
                    None \<Rightarrow> replicate 32 \<lparr>device_index = 0, p_size = 0, erase_size = 0, p_name = None\<rparr>
                  | Some ps \<Rightarrow> ps);
            ps = map (\<lambda>p. p\<lparr>p_name := None, device_index := -1\<rparr>) ps in
        case proc_mtd of
          None \<Rightarrow> Some (-1, \<lparr>partitions = Some ps, partition_count = -1\<rparr>)
        | Some text \<Rightarrow> do {
            (r, ps) \<leftarrow> scan_lines strdup_ok ps 0 (take 2047 text);
            Some (case r of
                None \<Rightarrow> (-1, \<lparr>partitions = Some ps, partition_count = -1\<rparr>)
              | Some n \<Rightarrow> (n, \<lparr>partitions = Some ps, partition_count = n\<rparr>)) })"

definition mtd_find_partition_by_name :: "string \<Rightarrow> MtdState \<Rightarrow> MtdPartition option" where
  "mtd_find_partition_by_name name st =
     (case partitions st of
        None \<Rightarrow> None
      | Some ps \<Rightarrow> find (\<lambda>p. 0 \<le> device_index p \<and> p_name p = Some name) ps)"

section \<open>The text of the kernel\<close>

definition proc_line :: "nat \<Rightarrow> MtdPartition \<Rightarrow> string" where
  "proc_line i p = ''mtd'' @ dec_int (int i) @ '': '' @ hex8 (p_size p) @ '' '' @ hex8 (erase_size p) @ '' '' @ [CHR 0x22]
     @ the (p_name p) @ [CHR 0x22, CHR 0x0A]"

fun proc_lines :: "nat \<Rightarrow> MtdPartition list \<Rightarrow> string" where
  "proc_lines i [] = []"
| "proc_lines i (p # ps) = proc_line i p @ proc_lines (i + 1) ps"

definition proc_header :: string where
  "proc_header = ''dev:    size   erasesize  name'' @ [CHR 0x0A]"

definition listed :: "nat \<Rightarrow> MtdPartition \<Rightarrow> bool" where
  "listed i p \<longleftrightarrow> device_index p = int i \<and> p_size p < 2 ^ 32 \<and> erase_size p < 2 ^ 32
     \<and> (\<exists>name. p_name p = Some name \<and> name \<noteq> [] \<and> length name \<le> 63 \<and> set name \<inter> {CHR 0x22, CHR 0x0A, CHR 0x00} = {})"

lemma scan_line_listed:
  assumes "listed i p" "i < 2 ^ 31"
  shows "scan_line (proc_line i p @ r) = Some (int i, int (p_size p), int (erase_size p), the (p_name p))"
    "eat_line (proc_line i p @ r) = r"
proof -
  from assms obtain name where n: "p_name p = Some name" "name \<noteq> []" "length name \<le> 63" "CHR 0x22 \<notin> set name" "CHR 0x0A \<notin> set name" "CHR 0x00 \<notin> set name"
    and s: "p_size p < 2 ^ 32" "erase_size p < 2 ^ 32" by (auto simp: listed_def)
  have hexc: "c \<noteq> CHR 0x00 \<and> c \<noteq> CHR 0x0A" if "c \<in> set (hex8 k)" for c k
    using hex8_spec(2) [OF that] by (auto simp: is_digit_of_def digit_of_def Let_def split: if_splits)
  have decc: "c \<noteq> CHR 0x00 \<and> c \<noteq> CHR 0x0A" if "c \<in> set (dec_int (int i))" for c
    using dec_nat_digits [of c i] that by (auto simp: dec_int_def isdigit_def)
  define line where "line = ''mtd'' @ dec_int (int i) @ '': '' @ hex8 (p_size p) @ '' '' @ hex8 (erase_size p) @ '' '' @ [CHR 0x22] @ name @ [CHR 0x22]"
  have line: "proc_line i p = line @ [CHR 0x0A]" by (simp add: proc_line_def line_def n(1))
  have chars: "\<forall>c \<in> set line. c \<noteq> CHR 0x00 \<and> c \<noteq> CHR 0x0A" using hexc decc n(5,6) by (auto simp: line_def)
  then have "dropWhile (\<lambda>c. c \<noteq> CHR 0x0A) (line @ CHR 0x0A # r) = CHR 0x0A # r" by (subst dropWhile_append2) auto
  then show "eat_line (proc_line i p @ r) = r" by (simp add: eat_line_def line)
  define t where "t = takeWhile (\<lambda>c. c \<noteq> CHR 0x00) (CHR 0x0A # r)"
  have tw: "takeWhile (\<lambda>c. c \<noteq> CHR 0x00) (proc_line i p @ r) = line @ t"
    using chars by (simp add: line t_def takeWhile_append)
  have e: "ends 10 (CHR '':'' # x)" "ends 16 (CHR '' '' # x)" for x
    by (simp_all add: ends_def is_digit_of_def digit_of_def)
  have sp: "\<not> isspace (CHR 0x22)" "isspace (CHR '' '')" by (simp_all add: isspace_def)
  have dw: "dropWhile isspace (hex8 k @ x) = hex8 k @ x" for k x
  proof -
    obtain a u where a: "hex8 k = a # u" using hex8_spec(3) by (cases "hex8 k") auto
    then have "is_digit_of 16 a" using hex8_spec(2) [of a k] by simp
    then have "\<not> isspace a" by (auto simp: is_digit_of_def digit_of_def isspace_def Let_def split: if_splits)
    with a show ?thesis by simp
  qed
  have i32: "to_int32 (int i) = int i" using assms(2) by (intro to_int32_id) simp_all
  have "takeWhile (\<lambda>a. a \<noteq> CHR 0x22) (name @ CHR 0x22 # t) = name" using n(4) by (simp add: takeWhile_append)
  then have "fst (fscanf mtd_line_format (line @ t)) = [Num (int i), Num (int (p_size p)), Num (int (erase_size p)), Text name]"
    using n(2,3) s scan_number_dec [OF e(1), of "int i"] scan_number_hex8 [OF e(2)] sp
    by (simp add: mtd_line_format_def line_def dw i32 Let_def)
  then show "scan_line (proc_line i p @ r) = Some (int i, int (p_size p), int (erase_size p), the (p_name p))"
    unfolding scan_line_def tw by (simp add: n(1))
qed

lemma scan_header: "scan_line (proc_header @ r) = None" "eat_line (proc_header @ r) = r"
  by (simp_all add: scan_line_def mtd_line_format_def proc_header_def eat_line_def)

lemma scan_lines_listed:
  assumes "\<forall>j < length ps. listed (i + j) (ps ! j)" "i + length ps \<le> length tbl" "length tbl \<le> 32" "\<forall>s. strdup_ok s"
  shows "scan_lines strdup_ok tbl n (proc_lines i ps) = Some (Some (n + int (length ps)), take i tbl @ ps @ drop (i + length ps) tbl)"
  using assms(1-3)
proof (induction ps arbitrary: i tbl n)
  case Nil
  then show ?case by (subst scan_lines.simps) simp
next
  case (Cons p ps)
  have p: "listed i p" "i < 2 ^ 31" using Cons.prems(1) [rule_format, of 0] Cons.prems(2,3) by simp_all
  note l = scan_line_listed [OF p, of "proc_lines (i + 1) ps"]
  from p obtain name where nm: "p_name p = Some name" and dev: "device_index p = int i" "p_size p < 2 ^ 32" "erase_size p < 2 ^ 32" by (auto simp: listed_def)
  have entry: "\<lparr>device_index = int i, p_size = nat (int (p_size p) mod 2 ^ 32), erase_size = nat (int (erase_size p) mod 2 ^ 32), p_name = Some name\<rparr> = p"
    using nm dev by (intro MtdPartition.equality) simp_all
  have ne: "proc_line i p @ proc_lines (i + 1) ps \<noteq> []" by (simp add: proc_line_def)
  have i: "\<not> (int i < 0 \<or> int (length tbl) \<le> int i)" using Cons.prems(2) by simp
  have "scan_lines strdup_ok tbl n (proc_lines i (p # ps)) = scan_lines strdup_ok (tbl[i := p]) (n + 1) (proc_lines (i + 1) ps)"
    by (subst scan_lines.simps) (simp only: proc_lines.simps if_not_P [OF ne] l option.case prod.case if_not_P [OF i] assms(4) not_True_eq_False if_False nm option.sel entry nat_int)
  moreover have "\<forall>j < length ps. listed (i + 1 + j) (ps ! j)" using Cons.prems(1) by (auto dest: spec [of _ "Suc _"])
  moreover have "take (i + 1) (tbl[i := p]) @ ps @ drop (i + 1 + length ps) (tbl[i := p]) = take i tbl @ (p # ps) @ drop (i + length (p # ps)) tbl"
    using Cons.prems(2) by (simp add: take_Suc_conv_app_nth)
  ultimately show ?case using Cons.IH [of "i + 1" "tbl[i := p]" "n + 1"] Cons.prems(2,3) by simp
qed

text \<open>C24: scanning the text the kernel prints for at most 32 partitions with different names, of at most 2047 bytes, returns their number, and every
  partition is then found under its name, with the index, size and erase size that were printed.\<close>

theorem mtd_scan_partitions_proc:
  assumes ps: "\<forall>i < length ps. listed i (ps ! i)" "length ps \<le> 32" "distinct (map p_name ps)"
    and len: "length (proc_header @ proc_lines 0 ps) \<le> 2047" and mem: "malloc_ok 32" "\<forall>s. strdup_ok s"
  shows "\<exists>st. mtd_scan_partitions malloc_ok strdup_ok (Some (proc_header @ proc_lines 0 ps)) g_mtd_state = Some (int (length ps), st)
    \<and> (\<forall>p \<in> set ps. mtd_find_partition_by_name (the (p_name p)) st = Some p)"
proof -
  define tbl where "tbl = replicate 32 \<lparr>device_index = -1, p_size = 0, erase_size = 0, p_name = None\<rparr>"
  define tbl' where "tbl' = ps @ drop (length ps) tbl"
  have "scan_lines strdup_ok tbl 0 (proc_header @ proc_lines 0 ps) = scan_lines strdup_ok tbl 0 (proc_lines 0 ps)"
    by (subst scan_lines.simps) (simp add: scan_header, simp add: proc_header_def)
  also have "\<dots> = Some (Some (int (length ps)), tbl')"
    using scan_lines_listed [of ps 0 tbl strdup_ok 0] ps(1,2) mem(2) by (simp add: tbl_def tbl'_def)
  finally have run: "scan_lines strdup_ok tbl 0 (take 2047 (proc_header @ proc_lines 0 ps)) = Some (Some (int (length ps)), tbl')"
    using len by (simp only: take_all)
  have "mtd_scan_partitions malloc_ok strdup_ok (Some (proc_header @ proc_lines 0 ps)) g_mtd_state
      = Some (int (length ps), \<lparr>partitions = Some tbl', partition_count = int (length ps)\<rparr>)"
    using mem(1) run by (simp add: mtd_scan_partitions_def g_mtd_state_def Let_def tbl_def)
  moreover have "mtd_find_partition_by_name (the (p_name p)) \<lparr>partitions = Some tbl', partition_count = c\<rparr> = Some p" if p: "p \<in> set ps" for p c
  proof -
    from p obtain i where i: "i < length ps" "ps ! i = p" by (auto simp: in_set_conv_nth)
    then have l: "0 \<le> device_index p" "p_name p = Some (the (p_name p))" using ps(1) by (auto simp: listed_def)
    have "p_name (ps ! j) \<noteq> p_name p" if "j < i" for j using ps(3) that i by (simp add: distinct_conv_nth) (metis less_irrefl order_less_trans)
    then have "find (\<lambda>q. 0 \<le> device_index q \<and> p_name q = Some (the (p_name p))) tbl' = Some p"
      using i l unfolding find_Some_iff by (intro exI [of _ i]) (auto simp: tbl'_def nth_append)
    then show ?thesis by (simp add: mtd_find_partition_by_name_def)
  qed
  ultimately show ?thesis by blast
qed

theorem mtd_scan_partitions_proc_witness:
  "\<exists>st. mtd_scan_partitions (\<lambda>_. True) (\<lambda>_. True) (Some (proc_header @ proc_lines 0 [sample_part])) g_mtd_state = Some (1, st)
    \<and> mtd_find_partition_by_name ''boot'' st = Some sample_part"
proof -
  have "length (proc_header @ proc_lines 0 [sample_part]) \<le> 2047" by code_simp
  from mtd_scan_partitions_proc [OF _ _ _ this, of "\<lambda>_. True" "\<lambda>_. True"] show ?thesis
    by (simp add: listed_def sample_part_def)
qed

text \<open>An entry whose number is outside the table is stored there nevertheless.\<close>

theorem mtd_scan_partitions_overflow:
  assumes "listed i p" "32 \<le> i" "i < 2 ^ 31" "length (proc_line i p) \<le> 2047" "malloc_ok 32"
  shows "mtd_scan_partitions malloc_ok strdup_ok (Some (proc_line i p)) g_mtd_state = None"
proof -
  define tbl where "tbl = replicate 32 \<lparr>device_index = -1, p_size = 0, erase_size = 0, p_name = None\<rparr>"
  have "scan_line (proc_line i p) = Some (int i, int (p_size p), int (erase_size p), the (p_name p))"
    using scan_line_listed(1) [OF assms(1,3), of "[]"] by simp
  moreover have "proc_line i p \<noteq> []" by (simp add: proc_line_def)
  ultimately have "scan_lines strdup_ok tbl 0 (proc_line i p) = None" using assms(2) by (subst scan_lines.simps) (simp add: tbl_def)
  with assms(4,5) show ?thesis by (simp add: mtd_scan_partitions_def g_mtd_state_def Let_def tbl_def)
qed

theorem mtd_scan_partitions_overflow_witness:
  "mtd_scan_partitions (\<lambda>_. True) (\<lambda>_. True) (Some (proc_line 40 (sample_part\<lparr>device_index := 40\<rparr>))) g_mtd_state = None"
proof (rule mtd_scan_partitions_overflow)
  show "length (proc_line 40 (sample_part\<lparr>device_index := 40\<rparr>)) \<le> 2047" by code_simp
qed (simp_all add: listed_def sample_part_def)

end
