(* ===== verification/MtdLib.thy ===== *)
theory MtdLib
  imports MtdScan ApplyPatch "HOL-Library.AList"
begin

text \<open>
  \<open>applypatch\<close> over the flash library: the library that \<open>FileContents\<close> leaves open is instantiated with the
  functions of \<open>MtdUtils\<close> and \<open>MtdScan\<close>, allocations succeeding. Where those are undefined (a division by an
  erase size of zero, an index outside the table) the instance reports a failure.
\<close>

section \<open>The library\<close>

text \<open>The text of \<open>/proc/mtd\<close>, the table of partitions and the devices by number.\<close>

record mtd_flash =
  fl_proc :: "string option"
  fl_table :: MtdState
  fl_devices :: "(int \<times> mtd_fd) list"

definition flash_scan :: "mtd_flash \<Rightarrow> mtd_flash" where
  "flash_scan fl =
     (case MtdScan.mtd_scan_partitions (\<lambda>_. True) (\<lambda>_. True) (fl_proc fl) (fl_table fl) of
        None \<Rightarrow> fl
      | Some (_, st) \<Rightarrow> fl\<lparr>fl_table := st\<rparr>)"

definition flash_reader :: "string \<Rightarrow> mtd_flash \<Rightarrow> MtdReadContext option" where
  "flash_reader name fl = do {
     p \<leftarrow> mtd_find_partition_by_name name (fl_table fl);
     MtdUtils.mtd_read_partition (\<lambda>_. True) p (map_of (fl_devices fl) (device_index p)) }"

definition flash_read :: "MtdReadContext \<Rightarrow> nat \<Rightarrow> buffer \<times> MtdReadContext" where
  "flash_read r n =
     (case MtdUtils.mtd_read_data r n of
        Some (Some dat, r') \<Rightarrow> (dat, r')
      | Some (None, r') \<Rightarrow> ([], r')
      | None \<Rightarrow> ([], r))"

definition flash_writer :: "string \<Rightarrow> mtd_flash \<Rightarrow> MtdWriteContext option" where
  "flash_writer name fl = do {
     p \<leftarrow> mtd_find_partition_by_name name (fl_table fl);
     MtdUtils.mtd_write_partition (\<lambda>_. True) p (map_of (fl_devices fl) (device_index p)) }"

text \<open>The callers keep the result in a variable of type \<open>size_t\<close>.\<close>

definition flash_write :: "MtdWriteContext \<Rightarrow> buffer \<Rightarrow> nat \<times> MtdWriteContext" where
  "flash_write ctx dat =
     (case MtdUtils.mtd_write_data (\<lambda>_. True) ctx dat of
        Some (r, ctx1) \<Rightarrow> (if r < 0 then 2 ^ 64 - 1 else nat r, ctx1)
      | None \<Rightarrow> (2 ^ 64 - 1, ctx))"

definition flash_erase :: "MtdWriteContext \<Rightarrow> int \<times> MtdWriteContext" where
  "flash_erase ctx = (case MtdUtils.mtd_erase_blocks (\<lambda>_. True) ctx (-1) of Some p \<Rightarrow> p | None \<Rightarrow> (-1, ctx))"

definition flash_close :: "MtdWriteContext \<Rightarrow> mtd_flash \<Rightarrow> int \<times> mtd_flash" where
  "flash_close ctx fl =
     (case MtdUtils.mtd_write_close (\<lambda>_. True) ctx of
        Some (r, fd) \<Rightarrow> (r, fl\<lparr>fl_devices := AList.update (device_index (w_partition ctx)) fd (fl_devices fl)\<rparr>)
      | None \<Rightarrow> (-1, fl))"

definition mtd_lib :: "(mtd_flash, MtdReadContext, MtdWriteContext) mtdlib" where
  "mtd_lib = \<lparr>mtd_scan_partitions = flash_scan, mtd_read_partition = flash_reader, mtd_read_data = flash_read,
     mtd_write_partition = flash_writer, mtd_write_data = flash_write, mtd_erase_blocks = flash_erase, mtd_write_close = flash_close\<rparr>"

section \<open>The contract\<close>

text \<open>A partition holds data when blocks of it, in order, are the data padded with zeros. Partitions with an erase size
  of zero and data of the size of the address space are left out.\<close>

definition device_holds :: "MtdPartition \<Rightarrow> mtd_fd \<Rightarrow> buffer \<Rightarrow> bool" where
  "device_holds p fd dat \<longleftrightarrow> (\<exists>bad n z. n * erase_size p \<le> length (dv_data fd) \<and> z < erase_size p
     \<and> contents (erase_size p) (used_blocks (erase_size p) bad n) (dv_data fd) = dat @ replicate z 0)"

definition flash_holds :: "mtd_flash \<Rightarrow> string \<Rightarrow> buffer \<Rightarrow> bool" where
  "flash_holds fl name dat \<longleftrightarrow>
     (\<exists>p. mtd_find_partition_by_name name (fl_table fl) = Some p
        \<and> (0 < erase_size p \<longrightarrow> length dat < 2 ^ 64 - 1
             \<longrightarrow> (\<exists>fd. map_of (fl_devices fl) (device_index p) = Some fd \<and> device_holds p fd dat)))"

lemma flash_stored:
  assumes o: "flash_writer name fl = Some ctx" and w: "flash_write ctx dat = (length dat, ctx1)"
    and e: "flash_erase ctx1 = (r, ctx2)" "0 \<le> r" and c: "flash_close ctx2 fl = (0, fl')"
  shows "flash_holds fl' name dat"
proof -
  from o obtain p fd where p: "mtd_find_partition_by_name name (fl_table fl) = Some p"
    "map_of (fl_devices fl) (device_index p) = Some fd" "MtdUtils.mtd_write_partition (\<lambda>_. True) p (Some fd) = Some ctx"
    by (auto simp: flash_writer_def bind_eq_Some_conv MtdUtils.mtd_write_partition_def split: option.splits)
  from c obtain fd' where fd': "MtdUtils.mtd_write_close (\<lambda>_. True) ctx2 = Some (0, fd')"
    "fl' = fl\<lparr>fl_devices := AList.update (device_index (w_partition ctx2)) fd' (fl_devices fl)\<rparr>"
    by (auto simp: flash_close_def split: option.splits)
  from e have er: "MtdUtils.mtd_erase_blocks (\<lambda>_. True) ctx1 (-1) = Some (r, ctx2)" "r \<noteq> -1"
    by (auto simp: flash_erase_def split: option.splits)
  have "device_index (w_partition ctx2) = device_index p \<and> device_holds p fd' dat"
    if es: "0 < erase_size p" and len: "length dat < 2 ^ 64 - 1"
  proof -
    from w len have wr: "MtdUtils.mtd_write_data (\<lambda>_. True) ctx dat = Some (int (length dat), ctx1)"
      by (auto simp: flash_write_def split: option.splits if_splits)
    note ok = write_partition_ok [where c = False, OF p(3) es, simplified]
    note ok1 = mtd_write_data_returns [OF ok(1,2) _ wr, simplified]
    from erase_blocks_ok [OF ok1(1), of "\<lambda>_. True" "-1"] ok1(2,3) er(1) have "w_partition ctx2 = p" using ok(4) by auto
    moreover have "mtd_store (\<lambda>_. True) dat ctx ctx2 fd'" using wr er fd'(1) unfolding mtd_store_def by blast
    from mtd_store_flash [where c = False, OF p(3) es _ _ this] have "device_holds p fd' dat" by (auto simp: device_holds_def)
    ultimately show ?thesis by simp
  qed
  then show ?thesis using p(1) fd'(2) by (auto simp: flash_holds_def AList.update_conv')
qed

interpretation flash: mtd_layer mtd_lib flash_holds
  by unfold_locales (auto simp: mtd_lib_def intro: flash_stored)

text \<open>A partition begins with data when blocks of it, in order, do.\<close>

definition device_begins :: "MtdPartition \<Rightarrow> mtd_fd \<Rightarrow> buffer \<Rightarrow> bool" where
  "device_begins p fd dat \<longleftrightarrow> (\<exists>bad n. n * erase_size p \<le> length (dv_data fd)
     \<and> take (length dat) (contents (erase_size p) (used_blocks (erase_size p) bad n) (dv_data fd)) = dat)"

lemma device_begins: "device_holds p fd dat \<Longrightarrow> device_begins p fd dat" "read_so_far p (dv_data fd) dat r \<Longrightarrow> device_begins p fd dat"
  unfolding device_holds_def device_begins_def read_so_far_def by (metis append_eq_conv_conj)+

definition flash_begins :: "mtd_flash \<Rightarrow> string \<Rightarrow> buffer \<Rightarrow> bool" where
  "flash_begins fl name dat \<longleftrightarrow>
     (\<exists>p. mtd_find_partition_by_name name (fl_table fl) = Some p
        \<and> (0 < erase_size p \<longrightarrow> length dat < 2 ^ 64 - 1
             \<longrightarrow> (\<exists>fd. map_of (fl_devices fl) (device_index p) = Some fd \<and> device_begins p fd dat)))"

definition flash_reading :: "mtd_flash \<Rightarrow> string \<Rightarrow> buffer \<Rightarrow> MtdReadContext \<Rightarrow> bool" where
  "flash_reading fl name got r \<longleftrightarrow>
     (\<exists>p fd. mtd_find_partition_by_name name (fl_table fl) = Some p \<and> map_of (fl_devices fl) (device_index p) = Some fd
        \<and> (0 < erase_size p \<longrightarrow> read_so_far p (dv_data fd) got r))"

interpretation flash_read: mtd_reader mtd_lib flash_holds flash_begins flash_reading
proof unfold_locales
  show "flash_begins fl part dat" if "flash_holds fl part dat" for fl part dat
    using that unfolding flash_holds_def flash_begins_def by (elim ex_forward conj_forward imp_forward device_begins(1))
  show "flash_reading fl part [] r" if "mtdlib.mtd_read_partition mtd_lib part fl = Some r" for fl part r
    using that by (auto simp: mtd_lib_def flash_reader_def bind_eq_Some_conv MtdUtils.mtd_read_partition_def flash_reading_def read_so_far_def
        contents_def used_blocks_def split: option.splits intro!: exI [of _ 0])
  show "flash_reading fl part (got @ bs) r'"
    if "flash_reading fl part got r" "0 < n" "mtdlib.mtd_read_data mtd_lib r n = (bs, r')" "length bs = n" for fl part got r n bs r'
  proof -
    from that(2-4) have "MtdUtils.mtd_read_data r n = Some (Some bs, r')"
      by (auto simp: mtd_lib_def flash_read_def split: option.splits prod.splits)
    note step = mtd_read_data_so_far [OF this]
    show ?thesis using that(1) unfolding flash_reading_def by (elim ex_forward conj_forward) (auto intro: step)
  qed
  show "flash_begins fl part got" if "flash_reading fl part got r" for fl part got r
    using that unfolding flash_reading_def flash_begins_def by (metis device_begins(2))
qed

text \<open>C7: when \<open>applypatch\<close> returns zero for a flash partition, blocks of the partition, in order, begin with data of the target's digest,
  whether it was patched and written or found there before, whatever erasures, writes and reads failed. Partitions with an erase size of zero are left
  out.\<close>

theorem applypatch_flash_partition:
  assumes "applypatch l src tgt sha_str n strs patches bonus sf0 cf0 w = Some (0, w')" "l_mtd l = mtd_lib"
    and "is_partition (target_name src tgt)" "tokens (target_name src tgt) = ''MTD'' # part # rest" "sha_absorbs (SHA_update (l_sha l))"
  shows "\<exists>digest bs. ParseSha1 sha_str = Some digest \<and> SHA_hash (l_sha l) bs = digest \<and> flash_begins (flash w') part bs"
  by (rule flash_read.applypatch_flash [OF assms(1,3,4,5,2)])

section \<open>An example run\<close>

definition flash_libs :: "(buffer, unit, buffer, mtd_flash, MtdReadContext, MtdWriteContext) libs" where
  "flash_libs = \<lparr>l_bz = stored_bz, l_z = \<lparr>inflateInit2 = 0, inflate = \<lambda>b n. (0, []), deflateInit2 = \<lambda>_ _. (), deflate = \<lambda>_ _. (0, [], ())\<rparr>,
     l_sha = sample_sha, l_mtd = mtd_lib, l_malloc_ok = \<lambda>_. True\<rparr>"

definition flash_world :: "mtd_flash world" where
  "flash_world = \<lparr>files = [(''/system/a'', \<lparr>f_data = [5], f_mode = 0, f_uid = 0, f_gid = 0, f_reg = True\<rparr>)],
     procs = [], answers = [], mtd_partitions_scanned = True,
     flash = \<lparr>fl_proc = None, fl_table = \<lparr>partitions = Some [sample_part], partition_count = 1\<rparr>,
              fl_devices = [(0, mtd_sample_device (replicate 8 9) 0)]\<rparr>\<rparr>"

definition flash_target :: string where
  "flash_target = ''MTD:boot:2:0708000000000000000000000000000000000000''"

abbreviation flash_apply :: "(int \<times> mtd_flash world) option" where
  "flash_apply \<equiv> applypatch flash_libs ''/system/a'' flash_target ''0708000000000000000000000000000000000000'' 2
     [''0500000000000000000000000000000000000000''] [sample_patch] None blank_contents blank_contents flash_world"

lemma flash_target_values: "is_partition flash_target" "tokens flash_target = ''MTD'' # ''boot'' # [''2'', ''0708000000000000000000000000000000000000'']"
  "flash_target \<noteq> ''-''" "flash_target \<noteq> ''/system/a''"
  by code_simp+

lemma flash_lib_fields: "l_sha flash_libs = sample_sha" "l_mtd flash_libs = mtd_lib" "l_malloc_ok flash_libs = (\<lambda>_. True)"
  by (simp_all add: flash_libs_def)

lemma flash_load: "LoadFileContents sample_sha mtd_lib flash_target (blank_contents\<lparr>fc_data := None\<rparr>) True flash_world =
   Some ((-1, blank_contents\<lparr>fc_size := 2\<rparr>), flash_world)"
  "LoadFileContents sample_sha mtd_lib ''/system/a'' (blank_contents\<lparr>fc_size := 2, fc_data := None\<rparr>) True flash_world =
   Some ((0, sample_contents), flash_world)"
  by code_simp+

lemma flash_run:
  "run_patch flash_libs [5] (Suc 0) (value_bytes sample_patch) bonus sink token =
    Some (Some (let (n, token1) = sink [7, 8] token in if n < 2 then (1, token1, []) else (0, token1, [7, 8])))"
  using sample_patch_head stored_patch [folded sample_patch_bytes]
  by (simp add: run_patch_def flash_libs_def sample_sha_def ApplyBSDiffPatch_def Let_def split: prod.split)

lemma flash_writes: "map_option fst (WriteToPartition mtd_lib [7, 8] flash_target flash_world) = Some 0"
  by code_simp

lemma flash_success: "map_option fst flash_apply = Some 0"
proof -
  have "\<exists>w1. prepare sample_contents True ''/system/a'' flash_target 2 (Suc 0) False flash_world = (Some (0, True), w1)
      \<and> flash w1 = flash flash_world \<and> mtd_partitions_scanned w1"
    by (simp add: sample_eval flash_target_values flash_world_def backup_def MakeFreeSpaceOnCache_def SaveFileContents_def sample_contents_def
       CACHE_TEMP_SOURCE_def)
  then obtain w1 where w1: "prepare sample_contents True ''/system/a'' flash_target 2 (Suc 0) False flash_world = (Some (0, True), w1)"
      "flash w1 = flash flash_world" "mtd_partitions_scanned w1" by auto
  have t: "try_patch flash_libs sample_contents sample_patch flash_target 2 None 0 w1
      = Some (Produced [7, 8] (ToMemory \<lparr>msi_buffer = [7, 8], msi_size = 2\<rparr>), w1)"
    by (simp add: try_patch_def sample_patch_type flash_target_values sample_contents_def flash_run MemorySink_def flash_lib_fields)
  have "mtd_partitions_scanned flash_world" by (simp add: flash_world_def)
  with w1(2,3) flash_writes have "fst (write_mtd mtd_lib [7, 8] ''boot'' w1) = 0"
    by (auto simp: WriteToPartition_def flash_target_values write_mtd_def scan_once_def Let_def split: option.splits prod.splits if_splits)
  then obtain w2 where w2: "WriteToPartition mtd_lib [7, 8] flash_target w1 = Some (0, w2)"
    by (cases "write_mtd mtd_lib [7, 8] ''boot'' w1") (simp add: WriteToPartition_def flash_target_values)
  have "finish flash_libs sample_contents flash_target ([7, 8] @ replicate 18 0) True [7, 8] (ToMemory \<lparr>msi_buffer = [7, 8], msi_size = 2\<rparr>) w1
     = Some (0, snd (unlink CACHE_TEMP_SOURCE w2))"
    using w2 sample_values by (simp add: finish_def flash_lib_fields)
  then have "generate_from flash_libs sample_contents True sample_contents sample_patch ''/system/a'' flash_target
      ([7, 8] @ replicate 18 0) 2 None 1 False flash_world = Some (0, snd (unlink CACHE_TEMP_SOURCE w2))"
    using w1 t by (simp add: generate_from.simps)
  moreover have "fc_data sample_contents \<noteq> None" "fc_sha1 sample_contents = 5 # replicate 19 0"
    by (simp_all add: sample_contents_def)
  ultimately show ?thesis
    using flash_load sample_values flash_target_values(3,4)
    by (simp add: applypatch_def Let_def pick_patch_def GenerateTarget_source flash_lib_fields)
qed

theorem applypatch_flash_partition_witness:
  "\<exists>w' bs. flash_apply = Some (0, w') \<and> SHA_hash sample_sha bs = [7, 8] @ replicate 18 0 \<and> flash_begins (flash w') ''boot'' bs"
proof -
  from flash_success obtain w' where w': "flash_apply = Some (0, w')" by auto
  have n: "target_name ''/system/a'' flash_target = flash_target" using flash_target_values(3) by (simp add: target_name_def)
  from applypatch_flash_partition [OF w' flash_lib_fields(2), of "''boot''", unfolded n flash_lib_fields, OF flash_target_values(1,2) sample_sha_absorbs]
    w' sample_values(1) show ?thesis by auto
qed

end
