(* ===== verification/Mounts.thy ===== *)
theory Mounts
  imports Scanf "HOL-Library.Monad_Syntax"
begin

text \<open>
  The table of mounted volumes, \<open>mtdutils/mounts.c\<close>. The text of \<open>/proc/mounts\<close> is an argument, \<^term>\<open>None\<close> when it
  cannot be read; strings that could not be copied, or belong to an unmounted volume, are \<^term>\<open>None\<close>. A result
  \<^term>\<open>None\<close> is a store outside the table.
\<close>

section \<open>Operations\<close>

record MountedVolume =
  mv_device :: "string option"
  mv_mount_point :: "string option"
  mv_filesystem :: "string option"
  mv_flags :: "string option"

record MountsState =
  volumes :: "MountedVolume list option"
  volume_count :: nat

definition g_mounts_state :: MountsState where
  "g_mounts_state = \<lparr>volumes = None, volume_count = 0\<rparr>"

definition no_volume :: MountedVolume where
  "no_volume = \<lparr>mv_device = None, mv_mount_point = None, mv_filesystem = None, mv_flags = None\<rparr>"

definition volume_format :: "directive list" where
  "volume_format = [Str 63, Ws, Str 63, Ws, Str 63, Ws, Str 127]"

definition strdup :: "(string \<Rightarrow> bool) \<Rightarrow> string \<Rightarrow> string option" where
  "strdup strdup_ok s = (if strdup_ok s then Some s else None)"

function scan_volumes :: "(string \<Rightarrow> bool) \<Rightarrow> MountedVolume list \<Rightarrow> nat \<Rightarrow> string \<Rightarrow> (MountedVolume list \<times> nat) option" where
  "scan_volumes strdup_ok vs n bufp =
     (if bufp = [] then Some (vs, n)
      else
        case fst (fscanf volume_format (takeWhile (\<lambda>c. c \<noteq> CHR 0x00) bufp)) of
          [Text device, Text mount_point, Text filesystem, Text flags] \<Rightarrow>
            if length vs \<le> n then None
            else scan_volumes strdup_ok
                   (vs[n := \<lparr>mv_device = strdup strdup_ok device, mv_mount_point = strdup strdup_ok mount_point,
                              mv_filesystem = strdup strdup_ok filesystem, mv_flags = strdup strdup_ok flags\<rparr>])
                   (n + 1) (eat_line bufp)
        | _ \<Rightarrow> scan_volumes strdup_ok vs n (eat_line bufp))"
  by pat_completeness auto
termination
  by (relation "measure (\<lambda>(_, _, _, bufp). length bufp)") (auto intro: length_eat_line)

declare scan_volumes.simps [simp del]

definition scan_mounted_volumes :: "(nat \<Rightarrow> bool) \<Rightarrow> (string \<Rightarrow> bool) \<Rightarrow> string option \<Rightarrow> MountsState \<Rightarrow> (int \<times> MountsState) option" where
  "scan_mounted_volumes malloc_ok strdup_ok proc_mounts st =
     (if volumes st = None \<and> \<not> malloc_ok 32 then Some (-1, st)
      else
        let vs = (case volumes st of
                    None \<Rightarrow> replicate 32 no_volume
                  | Some vs \<Rightarrow> replicate (volume_count st) no_volume @ drop (volume_count st) vs) in
        case proc_mounts of
          None \<Rightarrow> Some (-1, \<lparr>volumes = Some vs, volume_count = 0\<rparr>)
        | Some buf \<Rightarrow> do {
            (vs, n) \<leftarrow> scan_volumes strdup_ok vs 0 (take 2047 buf);
            Some (0, \<lparr>volumes = Some vs, volume_count = n\<rparr>) })"

text \<open>The first volume in use that satisfies a condition, by its index.\<close>

definition find_volume :: "(MountedVolume \<Rightarrow> bool) \<Rightarrow> MountsState \<Rightarrow> nat option" where
  "find_volume P st =
     (case volumes st of
        None \<Rightarrow> None
      | Some vs \<Rightarrow> find (\<lambda>i. P (vs ! i)) [0..<volume_count st])"

definition find_mounted_volume_by_device :: "string \<Rightarrow> MountsState \<Rightarrow> nat option" where
  "find_mounted_volume_by_device device = find_volume (\<lambda>v. mv_device v = Some device)"

definition find_mounted_volume_by_mount_point :: "string \<Rightarrow> MountsState \<Rightarrow> nat option" where
  "find_mounted_volume_by_mount_point mount_point = find_volume (\<lambda>v. mv_mount_point v = Some mount_point)"

text \<open>\<open>umount\<close> is an argument, acting on the state \<open>w\<close> of the system.\<close>

definition unmount_mounted_volume ::
  "(string option \<Rightarrow> 'w \<Rightarrow> int \<times> 'w) \<Rightarrow> nat \<Rightarrow> MountsState \<Rightarrow> 'w \<Rightarrow> (int \<times> MountsState \<times> 'w) option" where
  "unmount_mounted_volume umount i st w = do {
     vs \<leftarrow> volumes st;
     if length vs \<le> i then None
     else
       case umount (mv_mount_point (vs ! i)) w of (ret, w1) \<Rightarrow>
         Some (ret, if ret = 0 then st\<lparr>volumes := Some (vs[i := no_volume])\<rparr> else st, w1) }"

section \<open>The text of the kernel\<close>

definition field_ok :: "nat \<Rightarrow> string \<Rightarrow> bool" where
  "field_ok n s \<longleftrightarrow> s \<noteq> [] \<and> length s \<le> n \<and> (\<forall>c \<in> set s. \<not> isspace c \<and> c \<noteq> CHR 0x00)"

type_synonym mount_line = "string \<times> string \<times> string \<times> string"

fun line_ok :: "mount_line \<Rightarrow> bool" where
  "line_ok (d, m, f, g) \<longleftrightarrow> field_ok 63 d \<and> field_ok 63 m \<and> field_ok 63 f \<and> field_ok 127 g"

fun print_line :: "mount_line \<Rightarrow> string" where
  "print_line (d, m, f, g) = d @ '' '' @ m @ '' '' @ f @ '' '' @ g @ '' 0 0'' @ [CHR 0x0A]"

fun volume_of :: "mount_line \<Rightarrow> MountedVolume" where
  "volume_of (d, m, f, g) = \<lparr>mv_device = Some d, mv_mount_point = Some m, mv_filesystem = Some f, mv_flags = Some g\<rparr>"

definition print_mounts :: "mount_line list \<Rightarrow> string" where
  "print_mounts ls = concat (map print_line ls)"

lemma scan_field:
  assumes "field_ok n s" "isspace c"
  shows "fscanf (Str n # ds) (s @ c # r) = (Text s # fst (fscanf ds (c # r)), snd (fscanf ds (c # r)))"
proof -
  have s: "s \<noteq> []" "\<forall>a \<in> set s. \<not> isspace a" "length s \<le> n" using assms(1) by (auto simp: field_ok_def)
  then have d: "dropWhile isspace (s @ c # r) = s @ c # r" by (cases s) simp_all
  have "takeWhile (\<lambda>a. \<not> isspace a) (s @ c # r) = s" using s(2) assms(2) by (simp add: takeWhile_append)
  moreover have "0 < n" using s by (cases s) simp_all
  ultimately show ?thesis using d s by (simp add: Let_def split: prod.splits)
qed

lemma skip_space_field: "field_ok n s \<Longrightarrow> dropWhile isspace (CHR '' '' # s @ r) = s @ r"
  by (cases s) (auto simp: field_ok_def isspace_def)

lemma takeWhile_printed: "line_ok l \<Longrightarrow> takeWhile (\<lambda>c. c \<noteq> CHR 0x00) (print_line l @ r) = print_line l @ takeWhile (\<lambda>c. c \<noteq> CHR 0x00) r"
  by (cases l) (auto simp: field_ok_def takeWhile_append)

lemma eat_printed: "line_ok l \<Longrightarrow> eat_line (print_line l @ r) = r"
proof -
  assume "line_ok l"
  obtain d m f g where l: "l = (d, m, f, g)" by (cases l)
  have n: "isspace (CHR 0x0A)" by (simp add: isspace_def)
  let ?s = "d @ '' '' @ m @ '' '' @ f @ '' '' @ g @ '' 0 0''"
  have "\<forall>c \<in> set ?s. c \<noteq> CHR 0x0A" using \<open>line_ok l\<close> l n by (auto simp: field_ok_def)
  then have "dropWhile (\<lambda>c. c \<noteq> CHR 0x0A) (?s @ CHR 0x0A # r) = CHR 0x0A # r" by (subst dropWhile_append2) auto
  then show ?thesis by (simp add: l eat_line_def)
qed

lemma scan_printed:
  assumes "line_ok (d, m, f, g)"
  shows "fst (fscanf volume_format (takeWhile (\<lambda>c. c \<noteq> CHR 0x00) (print_line (d, m, f, g) @ r))) = [Text d, Text m, Text f, Text g]"
proof -
  have ok: "field_ok 63 d" "field_ok 63 m" "field_ok 63 f" "field_ok 127 g" using assms by simp_all
  have sp: "isspace (CHR '' '')" by (simp add: isspace_def)
  note f = scan_field [OF ok(1) sp] scan_field [OF ok(2) sp] scan_field [OF ok(3) sp] scan_field [OF ok(4) sp]
  note s = skip_space_field [OF ok(2)] skip_space_field [OF ok(3)] skip_space_field [OF ok(4)]
  show ?thesis
    unfolding takeWhile_printed [OF assms] volume_format_def
    by (simp only: print_line.simps append_assoc append_Cons append_Nil f s fscanf.simps(2) fst_conv snd_conv) simp
qed

lemma scan_step:
  assumes "line_ok l" "\<forall>s. strdup_ok s"
  shows "scan_volumes strdup_ok vs n (print_line l @ r)
    = (if length vs \<le> n then None else scan_volumes strdup_ok (vs[n := volume_of l]) (n + 1) r)"
proof -
  obtain d m f g where l: "l = (d, m, f, g)" by (cases l)
  have "print_line (d, m, f, g) @ r \<noteq> []" by simp
  with assms scan_printed [of d m f g r] eat_printed [of l r] show ?thesis
    unfolding l by (subst scan_volumes.simps) (simp add: strdup_def del: print_line.simps append_is_Nil_conv)
qed

lemma scan_volumes_printed:
  assumes "\<forall>l \<in> set ls. line_ok l" "\<forall>s. strdup_ok s" "n + length ls \<le> length vs"
  shows "scan_volumes strdup_ok vs n (print_mounts ls @ r)
    = scan_volumes strdup_ok (take n vs @ map volume_of ls @ drop (n + length ls) vs) (n + length ls) r"
  using assms(1,3)
proof (induction ls arbitrary: vs n)
  case (Cons l ls)
  have "scan_volumes strdup_ok vs n (print_mounts (l # ls) @ r) = scan_volumes strdup_ok (vs[n := volume_of l]) (n + 1) (print_mounts ls @ r)"
    using scan_step [of l strdup_ok vs n "print_mounts ls @ r"] Cons.prems assms(2) by (simp add: print_mounts_def)
  also have "\<dots> = scan_volumes strdup_ok
      (take (n + 1) (vs[n := volume_of l]) @ map volume_of ls @ drop (n + 1 + length ls) (vs[n := volume_of l])) (n + 1 + length ls) r"
    by (rule Cons.IH) (use Cons.prems in simp_all)
  also have "take (n + 1) (vs[n := volume_of l]) = take n vs @ [volume_of l]" using Cons.prems(2) by (simp add: take_Suc_conv_app_nth)
  finally show ?case using Cons.prems(2) by (simp add: ac_simps)
qed (simp add: print_mounts_def)

lemma scan_volumes_end: "scan_volumes strdup_ok vs n [] = Some (vs, n)"
  by (subst scan_volumes.simps) simp

text \<open>C39: after the text that the kernel prints for at most 32 volumes was scanned, looking up a mount point finds the first
  volume mounted there, with the device that was printed, and nothing when there is none. The text has to fit the buffer (2047 bytes)
  and the fields have to fit theirs (63, 63, 63 and 127 characters); of a longer text only the first 2047 bytes are scanned, so that later
  mounts are missing without an error.\<close>

theorem scan_mounted_volumes_proc:
  assumes "\<forall>l \<in> set ls. line_ok l" "length ls \<le> 32" "length (print_mounts ls) \<le> 2047" "malloc_ok 32" "\<forall>s. strdup_ok s"
  shows "\<exists>st. scan_mounted_volumes malloc_ok strdup_ok (Some (print_mounts ls)) g_mounts_state = Some (0, st)
    \<and> (\<forall>m. find_mounted_volume_by_mount_point m st = find (\<lambda>i. fst (snd (ls ! i)) = m) [0..<length ls])
    \<and> (\<forall>i < length ls. the (volumes st) ! i = volume_of (ls ! i))"
proof -
  let ?vs = "map volume_of ls @ drop (length ls) (replicate 32 no_volume)"
  let ?st = "\<lparr>volumes = Some ?vs, volume_count = length ls\<rparr>"
  have "scan_volumes strdup_ok (replicate 32 no_volume) 0 (take 2047 (print_mounts ls)) = Some (?vs, length ls)"
    using scan_volumes_printed [of ls strdup_ok 0 "replicate 32 no_volume" "[]"] assms(1,2,5)
    by (simp only: take_all [OF assms(3)]) (simp add: scan_volumes_end)
  then have run: "scan_mounted_volumes malloc_ok strdup_ok (Some (print_mounts ls)) g_mounts_state = Some (0, ?st)"
    using assms(4) by (simp add: scan_mounted_volumes_def g_mounts_state_def)
  have v: "?vs ! i = volume_of (ls ! i)" if "i < length ls" for i using that by (simp add: nth_append)
  have m: "mv_mount_point (volume_of l) = Some m \<longleftrightarrow> fst (snd l) = m" for l m by (cases l) simp
  have "find (\<lambda>i. mv_mount_point (?vs ! i) = Some m) [0..<length ls] = find (\<lambda>i. fst (snd (ls ! i)) = m) [0..<length ls]" for m
  proof (rule find_cong [OF refl])
    fix i assume "i \<in> set [0..<length ls]"
    then have "i < length ls" by simp
    then show "(mv_mount_point (?vs ! i) = Some m) = (fst (snd (ls ! i)) = m)" by (simp only: v m)
  qed
  then have "find_mounted_volume_by_mount_point m ?st = find (\<lambda>i. fst (snd (ls ! i)) = m) [0..<length ls]" for m
    by (simp add: find_mounted_volume_by_mount_point_def find_volume_def)
  with run v show ?thesis by (intro exI [of _ ?st]) simp
qed

text \<open>The 33rd volume is stored outside the table.\<close>

theorem scan_mounted_volumes_overflow:
  assumes "\<forall>l \<in> set ls. line_ok l" "length ls = 32" "line_ok l" "length (print_mounts (ls @ [l])) \<le> 2047" "malloc_ok 32" "\<forall>s. strdup_ok s"
  shows "scan_mounted_volumes malloc_ok strdup_ok (Some (print_mounts (ls @ [l]))) g_mounts_state = None"
proof -
  let ?vs = "map volume_of ls @ drop 32 (replicate 32 no_volume)"
  have "scan_volumes strdup_ok (replicate 32 no_volume) 0 (print_mounts ls @ print_line l) = scan_volumes strdup_ok ?vs 32 (print_line l @ [])"
    using scan_volumes_printed [of ls strdup_ok 0 "replicate 32 no_volume" "print_line l"] assms(1,2,6) by simp
  also have "\<dots> = None" using scan_step [of l strdup_ok ?vs 32 "[]"] assms(2,3,6) by simp
  finally have "scan_volumes strdup_ok (replicate 32 no_volume) 0 (take 2047 (print_mounts (ls @ [l]))) = None"
    by (simp only: take_all [OF assms(4)]) (simp add: print_mounts_def)
  with assms(5) show ?thesis by (simp add: scan_mounted_volumes_def g_mounts_state_def)
qed

section \<open>Examples\<close>

definition sample_mounts :: "mount_line list" where
  "sample_mounts = [(''/dev/block/mtdblock4'', ''/system'', ''yaffs2'', ''rw,nodev''), (''/dev/block/mtdblock5'', ''/data'', ''yaffs2'', ''rw'')]"

theorem scan_mounted_volumes_proc_witness:
  "\<exists>st. scan_mounted_volumes (\<lambda>_. True) (\<lambda>_. True) (Some (print_mounts sample_mounts)) g_mounts_state = Some (0, st)
    \<and> find_mounted_volume_by_mount_point ''/data'' st = Some 1 \<and> find_mounted_volume_by_mount_point ''/cache'' st = None
    \<and> mv_device (the (volumes st) ! 1) = Some ''/dev/block/mtdblock5''"
proof -
  have "\<forall>l \<in> set sample_mounts. line_ok l" "length sample_mounts = 2" "length (print_mounts sample_mounts) \<le> 2047" by code_simp+
  from scan_mounted_volumes_proc [OF this(1) _ this(3), of "\<lambda>_. True" "\<lambda>_. True"] this(2) obtain st where
    st: "scan_mounted_volumes (\<lambda>_. True) (\<lambda>_. True) (Some (print_mounts sample_mounts)) g_mounts_state = Some (0, st)"
      "\<forall>m. find_mounted_volume_by_mount_point m st = find (\<lambda>i. fst (snd (sample_mounts ! i)) = m) [0..<2]"
      "\<forall>i < 2. the (volumes st) ! i = volume_of (sample_mounts ! i)" by auto
  have "find (\<lambda>i. fst (snd (sample_mounts ! i)) = ''/data'') [0..<2] = Some 1"
    "find (\<lambda>i. fst (snd (sample_mounts ! i)) = ''/cache'') [0..<2] = None" by code_simp+
  with st show ?thesis by (intro exI [of _ st]) (simp add: sample_mounts_def)
qed

theorem scan_mounted_volumes_overflow_witness:
  "scan_mounted_volumes (\<lambda>_. True) (\<lambda>_. True) (Some (print_mounts (replicate 33 (''a'', ''b'', ''c'', ''d'')))) g_mounts_state = None"
proof -
  have "\<forall>l \<in> set (replicate 32 (''a'', ''b'', ''c'', ''d'')). line_ok l" "line_ok (''a'', ''b'', ''c'', ''d'')"
    "length (print_mounts (replicate 32 (''a'', ''b'', ''c'', ''d'') @ [(''a'', ''b'', ''c'', ''d'')])) \<le> 2047"
    "replicate 33 (''a'', ''b'', ''c'', ''d'') = replicate 32 (''a'', ''b'', ''c'', ''d'') @ [(''a'', ''b'', ''c'', ''d'')]" by code_simp+
  with scan_mounted_volumes_overflow [OF this(1) _ this(2,3), of "\<lambda>_. True" "\<lambda>_. True"] show ?thesis by simp
qed

end
