(* ===== verification/DirUnlink.thy ===== *)
theory DirUnlink
  imports DirUtil FreeCache "HOL-Library.Monad_Syntax"
begin

text \<open>
  Removing a directory hierarchy, \<open>dirUnlinkHierarchy\<close> of \<open>minzip/DirUtil.c\<close>. The names in a directory are those
  that it has when it is opened; a read of the directory that fails ends the list early, as in the source, which
  looks for errors in the wrong way. Security labels and timestamps are no attributes of the model's files.
\<close>

section \<open>System calls\<close>

definition PATH_MAX :: nat where "PATH_MAX = 4096"

text \<open>A result of \<open>0\<close> or \<open>-1\<close>; \<open>rmdir\<close> removes directories without entries only.\<close>

definition sys_int :: "bool \<times> 'f world \<Rightarrow> int \<times> 'f world" where
  "sys_int p = (if fst p then 0 else -1, snd p)"

definition rmdir :: "string \<Rightarrow> 'f world \<Rightarrow> bool \<times> 'f world" where
  "rmdir path w =
     (case sys_ok w of (good, w1) \<Rightarrow>
        case lookup_file w1 path of
          None \<Rightarrow> (False, w1)
        | Some f \<Rightarrow> if good \<and> is_dir f \<and> list_dir w1 path = [] then (True, delete_file w1 path) else (False, w1))"

text \<open>How many of the names \<open>readdir\<close> delivers.\<close>

definition readdir_all :: "string \<Rightarrow> 'f world \<Rightarrow> string list \<times> 'f world" where
  "readdir_all path w = (case sys_amount (length (list_dir w path)) w of (n, w1) \<Rightarrow> (take n (list_dir w path), w1))"

section \<open>The function\<close>

text \<open>\<open>Inl path\<close> is a call, \<open>Inr (path, names)\<close> the loop over the names that are left, which yields 1 for the variable \<open>fail\<close>.
  \<^term>\<open>None\<close> is a recursion that does not end: the name is cut at the size of the buffer.\<close>

partial_function (option) unlink_walk :: "string + string \<times> string list \<Rightarrow> 'f world \<Rightarrow> (int \<times> 'f world) option" where
  "unlink_walk job w =
     (case job of
        Inl path \<Rightarrow>
          (case sys_ok w of (good, w1) \<Rightarrow>
             case lookup_file w1 path of
               None \<Rightarrow> Some (-1, w1)
             | Some f \<Rightarrow>
                 if \<not> good then Some (-1, w1)
                 else if \<not> is_dir f then Some (sys_int (unlink path w1))
                 else
                   case sys_ok w1 of (opened, w2) \<Rightarrow>
                     if \<not> opened then Some (-1, w2)
                     else
                       case readdir_all path w2 of (names, w3) \<Rightarrow> do {
                         (fail, w4) \<leftarrow> unlink_walk (Inr (path, names)) w3;
                         if fail \<noteq> 0 then Some (-1, w4)
                         else
                           case sys_ok w4 of (closed, w5) \<Rightarrow>
                             if \<not> closed then Some (-1, w5) else Some (sys_int (rmdir path w5)) })
      | Inr (path, names) \<Rightarrow>
          (case names of
             [] \<Rightarrow> Some (0, w)
           | name # names \<Rightarrow>
               if name = ''..'' \<or> name = ''.'' then unlink_walk (Inr (path, names)) w
               else do {
                 (r, w1) \<leftarrow> unlink_walk (Inl (take (PATH_MAX - 1) (path @ ''/'' @ name))) w;
                 if r < 0 then Some (1, w1) else unlink_walk (Inr (path, names)) w1 }))"

definition dirUnlinkHierarchy :: "string \<Rightarrow> 'f world \<Rightarrow> (int \<times> 'f world) option" where
  "dirUnlinkHierarchy path w = unlink_walk (Inl path) w"

lemmas unlink_walk_code [code] = unlink_walk.simps

section \<open>What is removed\<close>

text \<open>\<open>at_or_below path q\<close>: the path itself or something in its tree.\<close>

definition at_or_below :: "string \<Rightarrow> string \<Rightarrow> bool" where
  "at_or_below path q \<longleftrightarrow> q = path \<or> take (length path + 1) q = path @ ''/''"

text \<open>\<open>pruned path w w'\<close>: files are only removed, and only in the tree.\<close>

definition pruned :: "string \<Rightarrow> 'f world \<Rightarrow> 'f world \<Rightarrow> bool" where
  "pruned path w w' \<longleftrightarrow> (\<forall>q. lookup_file w' q = lookup_file w q \<or> at_or_below path q \<and> lookup_file w' q = None)"

lemma at_or_below_child: "at_or_below (path @ ''/'' @ name) q \<Longrightarrow> at_or_below path q"
proof -
  assume a: "at_or_below (path @ ''/'' @ name) q"
  have "take (length path + 1) q = path @ ''/''"
  proof (cases "q = path @ ''/'' @ name")
    case False
    with a have t: "take (length (path @ ''/'' @ name) + 1) q = (path @ ''/'' @ name) @ ''/''" by (simp add: at_or_below_def)
    have "take (length path + 1) q = take (length path + 1) (take (length (path @ ''/'' @ name) + 1) q)" by (simp add: min_def)
    then show ?thesis unfolding t by simp
  qed simp
  then show ?thesis by (simp add: at_or_below_def)
qed

lemma pruned_refl: "lookup_file w' = lookup_file w \<Longrightarrow> pruned path w w'"
  by (simp add: pruned_def)

lemma pruned_trans: "pruned path w w1 \<Longrightarrow> pruned path w1 w2 \<Longrightarrow> pruned path w w2"
  unfolding pruned_def by metis

text \<open>Paths are accepted by the kernel up to a length, and a path with something below it is a directory.\<close>

definition short_paths :: "'f world \<Rightarrow> bool" where
  "short_paths w \<longleftrightarrow> (\<forall>q. lookup_file w q \<noteq> None \<longrightarrow> length q < PATH_MAX)"

definition tree_ok :: "'f world \<Rightarrow> bool" where
  "tree_ok w \<longleftrightarrow> (\<forall>d r. d \<noteq> [] \<longrightarrow> lookup_file w (d @ ''/'' @ r) \<noteq> None \<longrightarrow> (\<exists>f. lookup_file w d = Some f \<and> is_dir f))"

lemma list_dir_exists: "name \<in> set (list_dir w path) \<Longrightarrow> lookup_file w (path @ ''/'' @ name) \<noteq> None \<and> CHR ''/'' \<notin> set name"
proof -
  assume "name \<in> set (list_dir w path)"
  then obtain p f where p: "(p, f) \<in> set (files w)" "take (length path + 1) p = path @ ''/''" "name = drop (length path + 1) p" "CHR ''/'' \<notin> set name"
    by (auto simp: list_dir_def)
  have "p = take (length path + 1) p @ drop (length path + 1) p" by (rule append_take_drop_id [symmetric])
  then have "p = path @ ''/'' @ name" unfolding p(2) p(3) [symmetric] append_assoc .
  with p(1,4) show ?thesis unfolding lookup_file_def map_of_eq_None_iff by force
qed

lemma list_dir_complete:
  assumes "lookup_file w (path @ ''/'' @ name) \<noteq> None" "CHR ''/'' \<notin> set name"
  shows "name \<in> set (list_dir w path)"
proof -
  from assms(1) have "path @ ''/'' @ name \<in> fst ` set (files w)" by (simp add: lookup_file_def map_of_eq_None_iff)
  then obtain f where f: "(path @ ''/'' @ name, f) \<in> set (files w)" by force
  have "drop (length path + 1) (path @ ''/'' @ name) = name" "take (length path + 1) (path @ ''/'' @ name) = path @ ''/''" by simp_all
  with f assms(2) show ?thesis unfolding list_dir_def set_map set_filter
    by (intro image_eqI [of _ _ "(path @ ''/'' @ name, f)"]) (simp_all del: append_Cons append_Nil)
qed

text \<open>What stays true of the system in any part of the run.\<close>

definition walked :: "string \<Rightarrow> 'f world \<Rightarrow> 'f world \<Rightarrow> bool" where
  "walked path w w' \<longleftrightarrow> pruned path w w' \<and> tree_ok w'"

lemma walked_same: "lookup_file w' = lookup_file w \<Longrightarrow> tree_ok w \<Longrightarrow> walked path w w'"
  by (simp add: walked_def pruned_refl tree_ok_def)

lemma walked_trans: "walked path w w1 \<Longrightarrow> walked path w1 w2 \<Longrightarrow> walked path w w2"
  unfolding walked_def using pruned_trans by blast

lemma walked_child: "walked (path @ ''/'' @ name) w w' \<Longrightarrow> walked path w w'"
  unfolding walked_def pruned_def using at_or_below_child by blast

lemma short_pruned: "pruned path w w' \<Longrightarrow> short_paths w \<Longrightarrow> short_paths w'"
  unfolding short_paths_def pruned_def by metis

lemma tree_delete:
  assumes "tree_ok w" "\<And>r. lookup_file w (x @ ''/'' @ r) = None"
  shows "tree_ok (delete_file w x)"
  using assms unfolding tree_ok_def by (auto simp: lookup_delete split: if_splits)

lemma walked_delete:
  assumes "tree_ok w" "\<And>r. lookup_file w (x @ ''/'' @ r) = None"
  shows "walked x w (delete_file w x)"
  using tree_delete [OF assms] by (auto simp: walked_def pruned_def at_or_below_def)

text \<open>Nothing is below a file, and nothing is below a directory without entries.\<close>

lemma below_file: "tree_ok w \<Longrightarrow> x \<noteq> [] \<Longrightarrow> lookup_file w x = Some f \<Longrightarrow> \<not> is_dir f \<Longrightarrow> lookup_file w (x @ ''/'' @ r) = None"
  unfolding tree_ok_def by force

lemma below_empty:
  assumes "tree_ok w" "x \<noteq> []" "list_dir w x = []"
  shows "lookup_file w (x @ ''/'' @ r) = None"
proof (rule ccontr)
  assume a: "lookup_file w (x @ ''/'' @ r) \<noteq> None"
  show False
  proof (cases "CHR ''/'' \<in> set r")
    case False
    with list_dir_complete [OF a] assms(3) show False by simp
  next
    case True
    then obtain n r' where r: "r = n @ CHR ''/'' # r'" "CHR ''/'' \<notin> set n" using split_list_first by force
    then have "lookup_file w ((x @ ''/'' @ n) @ ''/'' @ r') \<noteq> None" using a by simp
    with assms(1,2) have "lookup_file w (x @ ''/'' @ n) \<noteq> None" unfolding tree_ok_def by (metis append_is_Nil_conv option.distinct(1))
    with list_dir_complete [OF this r(2)] assms(3) show False by simp
  qed
qed

lemma unlink_walked:
  assumes "tree_ok w" "path \<noteq> []" "lookup_file w path = Some f" "\<not> is_dir f" "unlink path w = (good, w')"
  shows "walked path w w' \<and> (good \<longrightarrow> lookup_file w' path = None)"
proof -
  obtain g w1 where g: "sys_ok w = (g, w1)" by (cases "sys_ok w")
  then have l: "lookup_file w1 = lookup_file w" using sys_ok_lookup by blast
  then have t: "tree_ok w1" using assms(1) by (simp add: tree_ok_def)
  from assms(5) g l assms(3) have "w' = (if g then delete_file w1 path else w1)" "good = g" by (auto simp: unlink_def split: if_splits)
  moreover have "walked path w1 (delete_file w1 path)" using below_file [OF t assms(2)] assms(3,4) l by (intro walked_delete [OF t]) auto
  ultimately show ?thesis using l assms(1) by (auto simp: walked_def pruned_def tree_ok_def)
qed

lemma rmdir_walked:
  assumes "tree_ok w" "path \<noteq> []" "rmdir path w = (good, w')"
  shows "walked path w w' \<and> (good \<longrightarrow> lookup_file w' path = None)"
proof -
  obtain g w1 where g: "sys_ok w = (g, w1)" by (cases "sys_ok w")
  then have l: "lookup_file w1 = lookup_file w" using sys_ok_lookup by blast
  then have t: "tree_ok w1" using assms(1) by (simp add: tree_ok_def)
  show ?thesis
  proof (cases "good")
    case True
    with assms(3) g have "w' = delete_file w1 path" "list_dir w1 path = []" by (auto simp: rmdir_def split: option.splits if_splits)
    with walked_delete [OF t below_empty [OF t assms(2)]] l show ?thesis by (auto simp: walked_def pruned_def)
  next
    case False
    with assms(3) g have "w' = w1" by (auto simp: rmdir_def split: option.splits if_splits)
    with False l assms(1) show ?thesis by (simp add: walked_same)
  qed
qed

section \<open>The walk\<close>

text \<open>The outcome of a call and of the loop: a return value, and on success the path is gone.\<close>

definition call_outcome :: "string \<Rightarrow> 'f world \<Rightarrow> (int \<times> 'f world) option \<Rightarrow> bool" where
  "call_outcome path w m \<longleftrightarrow> (\<exists>r w'. m = Some (r, w') \<and> (r = 0 \<or> r = -1) \<and> walked path w w' \<and> (r = 0 \<longrightarrow> lookup_file w' path = None))"

definition loop_outcome :: "string \<Rightarrow> 'f world \<Rightarrow> (int \<times> 'f world) option \<Rightarrow> bool" where
  "loop_outcome path w m \<longleftrightarrow> (\<exists>r w'. m = Some (r, w') \<and> walked path w w')"

lemma unlink_loop_ok:
  fixes w :: "'f world"
  assumes child: "\<And>name v :: 'f world. name \<in> set names \<Longrightarrow> tree_ok v \<Longrightarrow> short_paths v
      \<Longrightarrow> call_outcome (path @ ''/'' @ name) v (unlink_walk (Inl (path @ ''/'' @ name)) v)"
    and len: "\<And>name. name \<in> set names \<Longrightarrow> length (path @ ''/'' @ name) < PATH_MAX"
    and w: "tree_ok w" "short_paths w"
  shows "loop_outcome path w (unlink_walk (Inr (path, names)) w)"
  using child len w
proof (induction names arbitrary: w)
  case Nil
  then show ?case by (subst unlink_walk.simps) (simp add: loop_outcome_def walked_same)
next
  case (Cons name names)
  show ?case
  proof (cases "name = ''..'' \<or> name = ''.''")
    case True
    with Cons show ?thesis by (subst unlink_walk.simps) simp
  next
    case False
    let ?c = "path @ ''/'' @ name"
    have t: "take (PATH_MAX - 1) ?c = ?c" using Cons.prems(2) [of name] by (intro take_all) (simp add: PATH_MAX_def)
    from Cons.prems(1) [of name w] Cons.prems(3,4) obtain r w1 where
      c: "unlink_walk (Inl ?c) w = Some (r, w1)" "walked ?c w w1" by (auto simp: call_outcome_def)
    note k = walked_child [OF c(2)]
    have k1: "tree_ok w1" "short_paths w1" using k Cons.prems(4) short_pruned by (auto simp: walked_def)
    show ?thesis
    proof (cases "r < 0")
      case True
      with False t c(1) k show ?thesis by (subst unlink_walk.simps) (simp add: loop_outcome_def del: append_Cons append_Nil)
    next
      case r: False
      have "loop_outcome path w1 (unlink_walk (Inr (path, names)) w1)" by (rule Cons.IH) (use Cons.prems k1 in auto)
      then obtain r2 w2 where l: "unlink_walk (Inr (path, names)) w1 = Some (r2, w2)" "walked path w1 w2" by (auto simp: loop_outcome_def)
      with False t c(1) r walked_trans [OF k l(2)] show ?thesis
        by (subst unlink_walk.simps) (simp add: loop_outcome_def del: append_Cons append_Nil)
    qed
  qed
qed

lemma readdir_all_spec:
  assumes "readdir_all path w = (names, w')"
  shows "lookup_file w' = lookup_file w" "set names \<subseteq> set (list_dir w path)"
proof -
  obtain n w1 where n: "sys_amount (length (list_dir w path)) w = (n, w1)" by (cases "sys_amount (length (list_dir w path)) w")
  then have "files w1 = files w" using sys_amount_files by blast
  with n assms show "lookup_file w' = lookup_file w" by (simp add: readdir_all_def lookup_file_def fun_eq_iff)
  show "set names \<subseteq> set (list_dir w path)" using n assms by (auto simp: readdir_all_def dest: in_set_takeD)
qed

lemma readdir_all_plain: "answers w = [] \<Longrightarrow> readdir_all path w = (list_dir w path, w)"
  by (simp add: readdir_all_def sys_amount_def answer_def)

lemma unlink_walk_ok:
  fixes w :: "'f world"
  assumes "tree_ok w" "short_paths w" "path \<noteq> []"
  shows "call_outcome path w (unlink_walk (Inl path) w)"
  using assms
proof (induction "PATH_MAX - length path" arbitrary: path w rule: less_induct)
  case less
  obtain g w1 where g: "sys_ok w = (g, w1)" by (cases "sys_ok w")
  have l1: "lookup_file w1 = lookup_file w" using g sys_ok_lookup by blast
  then have t1: "tree_ok w1" "short_paths w1" using less.prems(1,2) by (simp_all add: tree_ok_def short_paths_def)
  have s1: "walked path w w1" using l1 less.prems(1) by (rule walked_same)
  show ?case
  proof (cases "lookup_file w1 path")
    case None
    with g s1 show ?thesis by (subst unlink_walk.simps) (simp add: call_outcome_def)
  next
    case (Some f)
    then have len: "length path < PATH_MAX" using t1(2) by (auto simp: short_paths_def)
    consider "\<not> g" | "g" "\<not> is_dir f" | "g" "is_dir f" by blast
    then show ?thesis
    proof cases
      case 1
      with g Some s1 show ?thesis by (subst unlink_walk.simps) (simp add: call_outcome_def)
    next
      case 2
      obtain good w2 where u: "unlink path w1 = (good, w2)" by (cases "unlink path w1")
      from unlink_walked [OF t1(1) less.prems(3) Some 2(2) u] walked_trans [OF s1] g Some 2 u show ?thesis
        by (subst unlink_walk.simps) (auto simp: call_outcome_def sys_int_def)
    next
      case 3
      obtain o1 w2 where o: "sys_ok w1 = (o1, w2)" by (cases "sys_ok w1")
      have l2: "lookup_file w2 = lookup_file w1" using o sys_ok_lookup by blast
      have s2: "walked path w w2" using l1 l2 less.prems(1) by (intro walked_same) simp_all
      show ?thesis
      proof (cases o1)
        case False
        with g Some 3 o s2 show ?thesis by (subst unlink_walk.simps) (simp add: call_outcome_def)
      next
        case True
        obtain names w3 where n: "readdir_all path w2 = (names, w3)" by (cases "readdir_all path w2")
        note l3 = readdir_all_spec(1) [OF n] and sub = readdir_all_spec(2) [OF n]
        have t3: "tree_ok w3" "short_paths w3" using l2 l3 t1 by (simp_all add: tree_ok_def short_paths_def)
        have ex: "length (path @ ''/'' @ name) < PATH_MAX" if "name \<in> set names" for name
          using list_dir_exists [of name w2 path] sub that t3(2) l3 unfolding short_paths_def by force
        have "loop_outcome path w3 (unlink_walk (Inr (path, names)) w3)"
        proof (rule unlink_loop_ok)
          fix name and v :: "'f world" assume "name \<in> set names" "tree_ok v" "short_paths v"
          moreover have "PATH_MAX - length (path @ ''/'' @ name) < PATH_MAX - length path" using len by simp
          ultimately show "call_outcome (path @ ''/'' @ name) v (unlink_walk (Inl (path @ ''/'' @ name)) v)"
            by (intro less.hyps) simp_all
        qed (use ex t3 in auto)
        then obtain fail w4 where f: "unlink_walk (Inr (path, names)) w3 = Some (fail, w4)" "walked path w3 w4" by (auto simp: loop_outcome_def)
        have s4: "walked path w w4" by (rule walked_trans [OF _ f(2)], rule walked_same) (use l1 l2 l3 less.prems(1) in simp_all)
        obtain c w5 where c: "sys_ok w4 = (c, w5)" by (cases "sys_ok w4")
        have l5: "lookup_file w5 = lookup_file w4" using c sys_ok_lookup by blast
        have s5: "walked path w w5" by (rule walked_trans [OF s4], rule walked_same [OF l5]) (use f(2) in \<open>simp add: walked_def\<close>)
        obtain good w6 where r: "rmdir path w5 = (good, w6)" by (cases "rmdir path w5")
        have "walked path w5 w6 \<and> (good \<longrightarrow> lookup_file w6 path = None)"
          by (rule rmdir_walked [OF _ less.prems(3) r]) (use s5 in \<open>simp add: walked_def\<close>)
        with walked_trans [OF s5] g Some 3 o True n f(1) s4 s5 c r show ?thesis
          by (subst unlink_walk.simps) (auto simp: call_outcome_def sys_int_def)
      qed
    qed
  qed
qed

text \<open>C37: \<open>dirUnlinkHierarchy\<close> always returns, whatever calls fail; it removes nothing outside the tree of its argument, and when
  it returns zero nothing is left of the tree.\<close>

theorem dirUnlinkHierarchy_spec:
  assumes "tree_ok w" "short_paths w" "path \<noteq> []"
  shows "\<exists>r w'. dirUnlinkHierarchy path w = Some (r, w') \<and> (r = 0 \<or> r = -1)
    \<and> (\<forall>q. \<not> at_or_below path q \<longrightarrow> lookup_file w' q = lookup_file w q)
    \<and> (r = 0 \<longrightarrow> (\<forall>q. at_or_below path q \<longrightarrow> lookup_file w' q = None))"
proof -
  from unlink_walk_ok [OF assms] obtain r w' where
    r: "dirUnlinkHierarchy path w = Some (r, w')" "r = 0 \<or> r = -1" "walked path w w'" "r = 0 \<longrightarrow> lookup_file w' path = None"
    by (auto simp: call_outcome_def dirUnlinkHierarchy_def)
  have "lookup_file w' q = None" if "r = 0" "at_or_below path q" for q
  proof (cases "q = path")
    case False
    then have "take (length path + 1) q = path @ ''/''" using that(2) by (simp add: at_or_below_def)
    moreover have "q = take (length path + 1) q @ drop (length path + 1) q" by simp
    ultimately have q: "q = path @ ''/'' @ drop (length path + 1) q" by (metis append_assoc)
    show ?thesis
    proof (rule ccontr)
      assume "lookup_file w' q \<noteq> None"
      then have "lookup_file w' (path @ ''/'' @ drop (length path + 1) q) \<noteq> None" using q by argo
      with r(3,4) that(1) assms(3) show False unfolding walked_def tree_ok_def by (metis option.distinct(1))
    qed
  qed (use r that in simp)
  with r show ?thesis unfolding walked_def pruned_def by blast
qed

section \<open>An example\<close>

definition tree_inode :: "int \<Rightarrow> inode" where
  "tree_inode mode = \<lparr>f_data = [], f_mode = mode, f_uid = 0, f_gid = 0, f_reg = False\<rparr>"

definition sample_tree :: "unit world" where
  "sample_tree = \<lparr>files = [(''/d'', tree_inode 0x41ED), (''/d/a'', tree_inode 0x1A4), (''/e'', tree_inode 0x1A4)],
     procs = [], answers = [], mtd_partitions_scanned = False, flash = ()\<rparr>"

lemma sample_tree_lookup: "lookup_file sample_tree q = (if q = ''/d'' then Some (tree_inode 0x41ED)
    else if q = ''/d/a'' \<or> q = ''/e'' then Some (tree_inode 0x1A4) else None)"
  by (simp add: lookup_file_def sample_tree_def)

lemma sample_tree_ok: "tree_ok sample_tree"
proof -
  have d: "is_dir (tree_inode 0x41ED)" by code_simp
  have "d = ''/d''" if "d \<noteq> []" "lookup_file sample_tree (d @ ''/'' @ r) \<noteq> None" for d r
  proof -
    from that(2) have "d @ ''/'' @ r = ''/d'' \<or> d @ ''/'' @ r = ''/d/a'' \<or> d @ ''/'' @ r = ''/e''"
      by (auto simp: sample_tree_lookup split: if_splits)
    with that(1) show ?thesis by (auto simp: append_eq_Cons_conv)
  qed
  with d show ?thesis unfolding tree_ok_def by (auto simp: sample_tree_lookup)
qed

theorem dirUnlinkHierarchy_spec_witness:
  "\<exists>w'. dirUnlinkHierarchy ''/d'' sample_tree = Some (0, w') \<and> lookup_file w' ''/d/a'' = None \<and> lookup_file w' ''/e'' \<noteq> None"
proof -
  have s: "short_paths sample_tree" by (auto simp: short_paths_def sample_tree_lookup PATH_MAX_def split: if_splits)
  have "map_option fst (dirUnlinkHierarchy ''/d'' sample_tree) = Some 0" unfolding dirUnlinkHierarchy_def by code_simp
  moreover have "at_or_below ''/d'' ''/d/a''" "\<not> at_or_below ''/d'' ''/e''" by code_simp+
  ultimately show ?thesis using dirUnlinkHierarchy_spec [OF sample_tree_ok s, of "''/d''"] by (auto simp: sample_tree_lookup)
qed

end
