(* ===== verification/Installer.thy ===== *)
theory Installer
  imports ApplyPatch ZipTree Mounts DirUnlink
begin

text \<open>
  The functions that the updater adds to edify, \<open>updater/install.c\<close>. Each is written over an evaluation of its
  arguments, like the builtins of \<open>Edify\<close>. The cookie of the interpreter's state holds the system, the package,
  the pipe to the parent process and the statics of the file. What the sources do not contain (mounting,
  formatting, properties, processes, printing of floating-point numbers, security labels) is in the record
  \<open>platform\<close>. Diagnostics printed to standard output and the release of memory are left out; allocations succeed
  where their result is not tested.
\<close>

section \<open>State and environment\<close>

record 'f updater =
  u_world :: "'f world"
  package_zip :: ZipArchive
  cmd_pipe :: string
  bakfiles :: "string list"
  u_mounts :: MountsState

text \<open>\<open>os_mount\<close> has the device, the mount point, the type and whether it is read-only; \<open>os_make_ext4fs\<close> is \<^term>\<open>None\<close> in
  a build without that file system; \<open>os_nftw\<close> lists the paths of a walk, \<^term>\<open>None\<close> if it fails; \<open>os_lsetfilecon\<close>, \<open>os_removexattr\<close> and
  \<open>os_setxattr\<close> return an error number, zero for success; \<open>os_stack\<close> is what is in
  memory that was not initialised.\<close>

record 'f platform =
  os_mount :: "string \<Rightarrow> string \<Rightarrow> string \<Rightarrow> bool \<Rightarrow> 'f world \<Rightarrow> int \<times> 'f world"
  os_umount :: "string option \<Rightarrow> 'f world \<Rightarrow> int \<times> 'f world"
  os_make_ext4fs :: "(string \<Rightarrow> int \<Rightarrow> string \<Rightarrow> 'f world \<Rightarrow> int \<times> 'f world) option"
  os_mtd_device :: "string \<Rightarrow> 'f \<Rightarrow> int option"
  os_property_get :: "string \<Rightarrow> string"
  os_print_double :: "string \<Rightarrow> string"
  os_run :: "string list \<Rightarrow> 'f world \<Rightarrow> int \<times> 'f world"
  os_lsetfilecon :: "string \<Rightarrow> string \<Rightarrow> 'f world \<Rightarrow> nat \<times> 'f world"
  os_removexattr :: "string \<Rightarrow> string \<Rightarrow> 'f world \<Rightarrow> nat \<times> 'f world"
  os_setxattr :: "string \<Rightarrow> string \<Rightarrow> nat list \<Rightarrow> 'f world \<Rightarrow> nat \<times> 'f world"
  os_nftw :: "string \<Rightarrow> 'f world \<Rightarrow> string list option"
  os_property_set :: "string \<Rightarrow> string \<Rightarrow> 'f world \<Rightarrow> 'f world"
  os_android_reboot :: "'f world \<Rightarrow> 'f world"
  os_fdopen :: "int \<Rightarrow> bool"
  os_selabel_open :: bool
  os_strerror :: string
  os_stack :: buffer

record ('s, 'z, 'c, 'f, 'r, 'm, 'i) env =
  e_libs :: "('s, 'z, 'c, 'f, 'r, 'm) libs"
  e_inflater :: "'i inflater"
  e_os :: "'f platform"
  e_source :: FileContents
  e_copy :: FileContents

text \<open>
  How a function ends: with a value; with \<open>ErrorAbort\<close> and \<open>NULL\<close>; with \<open>NULL\<close> and no message; with a message and a value
  nevertheless.
\<close>

datatype ending = Ret Value | Err string | NullRet | ErrRet string Value

type_synonym 'f effect = "'f updater \<Rightarrow> (ending \<times> 'f updater) option"

definition string_value :: "string \<Rightarrow> Value" where
  "string_value s = \<lparr>vtype = VAL_STRING, vsize = int (length s), vdata = s\<rparr>"

definition conclude :: "'f updater State \<Rightarrow> 'f effect \<Rightarrow> (Value, 'f updater) ret" where
  "conclude st body = do {
     (e, u) \<leftarrow> body (cookie st);
     let st1 = st\<lparr>cookie := u\<rparr>;
     Some (case e of
         Ret v \<Rightarrow> (Some v, st1)
       | Err msg \<Rightarrow> (None, ErrorAbort st1 msg)
       | NullRet \<Rightarrow> (None, st1)
       | ErrRet msg v \<Rightarrow> (Some v, ErrorAbort st1 msg)) }"

definition with_args ::
  "('e, 'f updater) evaluation \<Rightarrow> 'f updater State \<Rightarrow> 'e list \<Rightarrow> nat \<Rightarrow> (string list \<Rightarrow> 'f effect) \<Rightarrow> (Value, 'f updater) ret" where
  "with_args ev st argv n body = do {
     (args, st1) \<leftarrow> ReadArgs ev st argv n;
     case args of None \<Rightarrow> Some (None, st1) | Some args \<Rightarrow> conclude st1 (body args) }"

definition with_var_args ::
  "('e, 'f updater) evaluation \<Rightarrow> 'f updater State \<Rightarrow> 'e list \<Rightarrow> (string list \<Rightarrow> 'f effect) \<Rightarrow> (Value, 'f updater) ret" where
  "with_var_args ev st argv body = do {
     (args, st1) \<leftarrow> ReadVarArgs ev st argv;
     case args of None \<Rightarrow> Some (None, st1) | Some args \<Rightarrow> conclude st1 (body args) }"

definition ret :: "string \<Rightarrow> 'f updater \<Rightarrow> (ending \<times> 'f updater) option" where
  "ret s u = Some (Ret (string_value s), u)"

definition fail :: "string \<Rightarrow> 'f updater \<Rightarrow> (ending \<times> 'f updater) option" where
  "fail msg u = Some (Err msg, u)"

text \<open>Calls that act on the system, or on its flash part, only.\<close>

definition in_world :: "('f world \<Rightarrow> 'a \<times> 'f world) \<Rightarrow> 'f updater \<Rightarrow> 'a \<times> 'f updater" where
  "in_world f u = (case f (u_world u) of (a, w) \<Rightarrow> (a, u\<lparr>u_world := w\<rparr>))"

definition in_world_opt :: "('f world \<Rightarrow> ('a \<times> 'f world) option) \<Rightarrow> 'f updater \<Rightarrow> ('a \<times> 'f updater) option" where
  "in_world_opt f u = map_option (\<lambda>(a, w). (a, u\<lparr>u_world := w\<rparr>)) (f (u_world u))"

definition scan_flash :: "('s, 'z, 'c, 'f, 'r, 'm, 'i) env \<Rightarrow> 'f updater \<Rightarrow> 'f updater" where
  "scan_flash L u = u\<lparr>u_world := (u_world u)\<lparr>flash := mtd_scan_partitions (l_mtd (e_libs L)) (flash (u_world u))\<rparr>\<rparr>"

definition set_flash :: "'f \<Rightarrow> 'f updater \<Rightarrow> 'f updater" where
  "set_flash fl u = u\<lparr>u_world := (u_world u)\<lparr>flash := fl\<rparr>\<rparr>"

definition pipe :: "string \<Rightarrow> 'f updater \<Rightarrow> 'f updater" where
  "pipe s u = u\<lparr>cmd_pipe := cmd_pipe u @ s\<rparr>"

definition newline :: string where
  "newline = [CHR 0x0A]"

definition quoted :: "string \<Rightarrow> string" where
  "quoted s = [CHR 0x22] @ s @ [CHR 0x22]"

definition expects :: "string \<Rightarrow> string \<Rightarrow> 'e list \<Rightarrow> string" where
  "expects name what argv = name @ ''() expects '' @ what @ '', got '' @ dec_nat (length argv)"

definition empty_arg :: "string \<Rightarrow> string \<Rightarrow> string" where
  "empty_arg what name = what @ '' argument to '' @ name @ ''() can't be empty''"

text \<open>\<open>strtok\<close> with one delimiter: the runs of other characters.\<close>

fun split_char :: "char \<Rightarrow> string \<Rightarrow> string list" where
  "split_char d [] = [[]]"
| "split_char d (c # cs) =
     (if c = d then [] # split_char d cs
      else case split_char d cs of [] \<Rightarrow> [[c]] | t # ts \<Rightarrow> (c # t) # ts)"

definition strtok_all :: "char \<Rightarrow> string \<Rightarrow> string list" where
  "strtok_all d s = filter (\<lambda>t. t \<noteq> []) (split_char d s)"

section \<open>Mounting and formatting\<close>

definition mtd_mount_partition ::
  "'f platform \<Rightarrow> int \<Rightarrow> string \<Rightarrow> string \<Rightarrow> bool \<Rightarrow> 'f world \<Rightarrow> int \<times> 'f world" where
  "mtd_mount_partition os dev mount_point filesystem read_only w =
     (let devname = ''/dev/block/mtdblock'' @ dec_int dev;
          (rv, w1) = (if read_only then (-1, w) else os_mount os devname mount_point filesystem False w);
          (rv, w2) = (if read_only \<or> rv < 0 then os_mount os devname mount_point filesystem True w1 else (rv, w1)) in
      if rv < 0 then (rv, w2)
      else
        case sys_ok w2 of (good, w3) \<Rightarrow>
          case lookup_file w3 (dir_key mount_point) of
            None \<Rightarrow> (-1, w3)
          | Some st \<Rightarrow>
              if \<not> good then (-1, w3)
              else
                let new_mode = f_mode st OR 0x49 in
                if new_mode \<noteq> f_mode st then sys_int (chmod (dir_key mount_point) new_mode w3) else (0, w3))"

definition MountFn ::
  "('s, 'z, 'c, 'f, 'r, 'm, 'i) env \<Rightarrow> ('e, 'f updater) evaluation \<Rightarrow> string \<Rightarrow> 'f updater State \<Rightarrow> 'e list \<Rightarrow> (Value, 'f updater) ret" where
  "MountFn L ev name st argv =
     (if length argv \<noteq> 4 then Some (None, ErrorAbort st (expects name ''4 args'' argv))
      else with_args ev st argv 4 (\<lambda>args u.
        let fs_type = args ! 0; partition_type = args ! 1; location = args ! 2; mount_point = args ! 3 in
        if fs_type = [] then fail (empty_arg ''fs_type'' name) u
        else if partition_type = [] then fail (empty_arg ''partition_type'' name) u
        else if location = [] then fail (empty_arg ''location'' name) u
        else if mount_point = [] then fail (empty_arg ''mount_point'' name) u
        else
          let u = snd (in_world (mkdir mount_point 0x1ED) u) in
          if partition_type = ''MTD'' then
            (let u = scan_flash L u in
             case os_mtd_device (e_os L) location (flash (u_world u)) of
               None \<Rightarrow> ret [] u
             | Some dev \<Rightarrow>
                 (case in_world (mtd_mount_partition (e_os L) dev mount_point fs_type False) u of (rv, u) \<Rightarrow>
                    ret (if rv \<noteq> 0 then [] else mount_point) u))
          else
            case in_world (os_mount (e_os L) location mount_point fs_type False) u of (rv, u) \<Rightarrow>
              ret (if rv < 0 then [] else mount_point) u))"

text \<open>The text of \<open>/proc/mounts\<close> as \<open>scan_mounted_volumes\<close> reads it.\<close>

definition proc_mounts :: "'f world \<Rightarrow> string option \<times> 'f world" where
  "proc_mounts w =
     (case sys_ok w of (good, w1) \<Rightarrow>
       case lookup_file w1 ''/proc/mounts'' of
         None \<Rightarrow> (None, w1)
       | Some f \<Rightarrow> if \<not> good then (None, w1) else (case fread (f_data f) 0 2047 w1 of (buf, w2) \<Rightarrow> (Some (chars buf), w2)))"

definition scan_volumes_now :: "'f updater \<Rightarrow> 'f updater option" where
  "scan_volumes_now u =
     (case in_world proc_mounts u of (buf, u1) \<Rightarrow>
        map_option (\<lambda>(_, ms). u1\<lparr>u_mounts := ms\<rparr>) (scan_mounted_volumes (\<lambda>_. True) (\<lambda>_. True) buf (u_mounts u1)))"

definition IsMountedFn ::
  "('s, 'z, 'c, 'f, 'r, 'm, 'i) env \<Rightarrow> ('e, 'f updater) evaluation \<Rightarrow> string \<Rightarrow> 'f updater State \<Rightarrow> 'e list \<Rightarrow> (Value, 'f updater) ret" where
  "IsMountedFn L ev name st argv =
     (if length argv \<noteq> 1 then Some (None, ErrorAbort st (expects name ''1 arg'' argv))
      else with_args ev st argv 1 (\<lambda>args u.
        let mount_point = args ! 0 in
        if mount_point = [] then fail ''mount_point argument to unmount() can't be empty'' u
        else do {
          u \<leftarrow> scan_volumes_now u;
          ret (if find_mounted_volume_by_mount_point mount_point (u_mounts u) = None then [] else mount_point) u }))"

definition UnmountFn ::
  "('s, 'z, 'c, 'f, 'r, 'm, 'i) env \<Rightarrow> ('e, 'f updater) evaluation \<Rightarrow> string \<Rightarrow> 'f updater State \<Rightarrow> 'e list \<Rightarrow> (Value, 'f updater) ret" where
  "UnmountFn L ev name st argv =
     (if length argv \<noteq> 1 then Some (None, ErrorAbort st (expects name ''1 arg'' argv))
      else with_args ev st argv 1 (\<lambda>args u.
        let mount_point = args ! 0 in
        if mount_point = [] then fail ''mount_point argument to unmount() can't be empty'' u
        else do {
          u \<leftarrow> scan_volumes_now u;
          case find_mounted_volume_by_mount_point mount_point (u_mounts u) of
            None \<Rightarrow> ret [] u
          | Some vol \<Rightarrow> do {
              (_, ms, w) \<leftarrow> unmount_mounted_volume (os_umount (e_os L)) vol (u_mounts u) (u_world u);
              ret mount_point (u\<lparr>u_mounts := ms, u_world := w\<rparr>) } }))"

definition FormatFn ::
  "('s, 'z, 'c, 'f, 'r, 'm, 'i) env \<Rightarrow> ('e, 'f updater) evaluation \<Rightarrow> string \<Rightarrow> 'f updater State \<Rightarrow> 'e list \<Rightarrow> (Value, 'f updater) ret" where
  "FormatFn L ev name st argv =
     (if length argv \<noteq> 5 then Some (None, ErrorAbort st (expects name ''5 args'' argv))
      else with_args ev st argv 5 (\<lambda>args u.
        let fs_type = args ! 0; partition_type = args ! 1; location = args ! 2; fs_size = args ! 3; mount_point = args ! 4;
            mtd = l_mtd (e_libs L) in
        if fs_type = [] then fail (empty_arg ''fs_type'' name) u
        else if partition_type = [] then fail (empty_arg ''partition_type'' name) u
        else if location = [] then fail (empty_arg ''location'' name) u
        else if mount_point = [] then fail (empty_arg ''mount_point'' name) u
        else if partition_type = ''MTD'' then
          (let u = scan_flash L u in
           case mtd_write_partition mtd location (flash (u_world u)) of
             None \<Rightarrow> ret [] u
           | Some ctx \<Rightarrow>
               (case mtd_erase_blocks mtd ctx of (r, ctx) \<Rightarrow>
                  case mtd_write_close mtd ctx (flash (u_world u)) of (c, fl) \<Rightarrow>
                    ret (if r = -1 \<or> c \<noteq> 0 then [] else location) (set_flash fl u)))
        else
          case os_make_ext4fs (e_os L) of
            Some make_ext4fs \<Rightarrow>
              if fs_type = ''ext4'' then
                (case in_world (make_ext4fs location (fst (strtol10 fs_size)) mount_point) u of (status, u) \<Rightarrow>
                   ret (if status \<noteq> 0 then [] else location) u)
              else Some (NullRet, u)
          | None \<Rightarrow> Some (NullRet, u)))"

section \<open>Files\<close>

definition RenameFn ::
  "('s, 'z, 'c, 'f, 'r, 'm, 'i) env \<Rightarrow> ('e, 'f updater) evaluation \<Rightarrow> string \<Rightarrow> 'f updater State \<Rightarrow> 'e list \<Rightarrow> (Value, 'f updater) ret" where
  "RenameFn L ev name st argv =
     (if length argv \<noteq> 2 then Some (None, ErrorAbort st (expects name ''2 args'' argv))
      else with_args ev st argv 2 (\<lambda>args u.
        let src_name = args ! 0; dst_name = args ! 1 in
        if src_name = [] then fail (empty_arg ''src_name'' name) u
        else if dst_name = [] then fail (empty_arg ''dst_name'' name) u
        else
          case in_world (rename src_name dst_name) u of (good, u) \<Rightarrow>
            if good then ret dst_name u
            else fail (''Rename of '' @ src_name @ ''() to '' @ dst_name @ ''() failed, error '' @ os_strerror (e_os L) @ ''()'') u))"

text \<open>When the evaluation of an argument other than the first fails, the loop that should release the earlier ones
  counts the wrong variable and does not end.\<close>

definition delete_args :: "('e, 'w) evaluation \<Rightarrow> 'w State \<Rightarrow> 'e list \<Rightarrow> (string list, 'w) ret" where
  "delete_args ev st argv =
     (case argv of
        [] \<Rightarrow> Some (Some [], st)
      | e # es \<Rightarrow> do {
          (s, st1) \<leftarrow> Evaluate ev e st;
          case s of
            None \<Rightarrow> Some (None, st1)
          | Some s \<Rightarrow> do {
              (ss, st2) \<leftarrow> ReadVarArgs ev st1 es;
              ss \<leftarrow> ss;
              Some (Some (s # ss), st2) } })"

fun delete_paths :: "bool \<Rightarrow> string list \<Rightarrow> 'f updater \<Rightarrow> (nat \<times> 'f updater) option" where
  "delete_paths recursive [] u = Some (0, u)"
| "delete_paths recursive (p # ps) u = do {
     (r, u) \<leftarrow> in_world_opt (\<lambda>w. if recursive then dirUnlinkHierarchy p w else Some (sys_int (unlink p w))) u;
     (n, u) \<leftarrow> delete_paths recursive ps u;
     Some (if r = 0 then n + 1 else n, u) }"

definition DeleteFn ::
  "('s, 'z, 'c, 'f, 'r, 'm, 'i) env \<Rightarrow> ('e, 'f updater) evaluation \<Rightarrow> string \<Rightarrow> 'f updater State \<Rightarrow> 'e list \<Rightarrow> (Value, 'f updater) ret" where
  "DeleteFn L ev name st argv = do {
     (paths, st1) \<leftarrow> delete_args ev st argv;
     case paths of
       None \<Rightarrow> Some (None, st1)
     | Some paths \<Rightarrow> conclude st1 (\<lambda>u. do {
         (success, u) \<leftarrow> delete_paths (name = ''delete_recursive'') paths u;
         ret (dec_nat success) u }) }"

definition ShowProgressFn ::
  "('s, 'z, 'c, 'f, 'r, 'm, 'i) env \<Rightarrow> ('e, 'f updater) evaluation \<Rightarrow> string \<Rightarrow> 'f updater State \<Rightarrow> 'e list \<Rightarrow> (Value, 'f updater) ret" where
  "ShowProgressFn L ev name st argv =
     (if length argv \<noteq> 2 then Some (None, ErrorAbort st (expects name ''2 args'' argv))
      else with_args ev st argv 2 (\<lambda>args u.
        let frac = os_print_double (e_os L) (args ! 0); sec = to_int32 (fst (strtol10 (args ! 1))) in
        ret (args ! 0) (pipe (''progress '' @ frac @ '' '' @ dec_int sec @ newline) u)))"

definition SetProgressFn ::
  "('s, 'z, 'c, 'f, 'r, 'm, 'i) env \<Rightarrow> ('e, 'f updater) evaluation \<Rightarrow> string \<Rightarrow> 'f updater State \<Rightarrow> 'e list \<Rightarrow> (Value, 'f updater) ret" where
  "SetProgressFn L ev name st argv =
     (if length argv \<noteq> 1 then Some (None, ErrorAbort st (expects name ''1 arg'' argv))
      else with_args ev st argv 1 (\<lambda>args u.
        ret (args ! 0) (pipe (''set_progress '' @ os_print_double (e_os L) (args ! 0) @ newline) u)))"

definition PackageExtractDirFn ::
  "('s, 'z, 'c, 'f, 'r, 'm, 'i) env \<Rightarrow> ('e, 'f updater) evaluation \<Rightarrow> string \<Rightarrow> 'f updater State \<Rightarrow> 'e list \<Rightarrow> (Value, 'f updater) ret" where
  "PackageExtractDirFn L ev name st argv =
     (if length argv \<noteq> 2 then Some (None, ErrorAbort st (expects name ''2 args'' argv))
      else with_args ev st argv 2 (\<lambda>args u. do {
        (success, u) \<leftarrow> in_world_opt (\<lambda>w. map_option (\<lambda>(r, _, w). (r, w))
          (mzExtractRecursive (e_inflater L) (\<lambda>_. True) (\<lambda>_. True) (package_zip u) (args ! 0) (args ! 1) MZ_EXTRACT_FILES_ONLY True False w)) u;
        ret (if success then ''t'' else []) u }))"

text \<open>The entry of a name; the outer \<^term>\<open>None\<close> is an archive that is not open.\<close>

definition package_entry :: "ZipArchive \<Rightarrow> string \<Rightarrow> ZipEntry option option" where
  "package_entry a entry_path = do {
     i \<leftarrow> mzFindZipEntry a entry_path;
     es \<leftarrow> z_pEntries a;
     Some (map_option (\<lambda>i. es ! i) i) }"

definition package_to_file ::
  "('s, 'z, 'c, 'f, 'r, 'm, 'i) env \<Rightarrow> string \<Rightarrow> string \<Rightarrow> 'f effect" where
  "package_to_file L entry_path dest_path u = do {
     entry \<leftarrow> package_entry (package_zip u) entry_path;
     case entry of
       None \<Rightarrow> ret [] u
     | Some e \<Rightarrow>
         (case in_world (creat dest_path 0x1B6) u of (opened, u) \<Rightarrow>
            if \<not> opened then ret [] u
            else do {
              (success, u) \<leftarrow> in_world_opt (mzExtractZipEntryToFile (e_inflater L) (package_zip u) e dest_path) u;
              ret (if success then ''t'' else []) u }) }"

definition no_blob :: Value where
  "no_blob = \<lparr>vtype = VAL_BLOB, vsize = -1, vdata = []\<rparr>"

definition package_to_value ::
  "('s, 'z, 'c, 'f, 'r, 'm, 'i) env \<Rightarrow> string \<Rightarrow> 'f effect" where
  "package_to_value L entry_path u = do {
     entry \<leftarrow> package_entry (package_zip u) entry_path;
     case entry of
       None \<Rightarrow> Some (Ret no_blob, u)
     | Some e \<Rightarrow>
         let n = mzGetZipEntryUncompLen e in
         if \<not> l_malloc_ok (e_libs L) (int n) then Some (Ret no_blob, u)
         else do {
           ((success, dat), u) \<leftarrow> in_world_opt (\<lambda>w. map_option (\<lambda>(r, b, w). ((r, b), w))
             (mzExtractZipEntryToBuffer (e_inflater L) (package_zip u) e (take n (os_stack (e_os L) @ replicate n 0)) w)) u;
           Some (Ret (if success then \<lparr>vtype = VAL_BLOB, vsize = int n, vdata = chars dat\<rparr> else no_blob), u) } }"

definition PackageExtractFileFn ::
  "('s, 'z, 'c, 'f, 'r, 'm, 'i) env \<Rightarrow> ('e, 'f updater) evaluation \<Rightarrow> string \<Rightarrow> 'f updater State \<Rightarrow> 'e list \<Rightarrow> (Value, 'f updater) ret" where
  "PackageExtractFileFn L ev name st argv =
     (if length argv \<noteq> 1 \<and> length argv \<noteq> 2 then Some (None, ErrorAbort st (expects name ''1 or 2 args'' argv))
      else if length argv = 2 then with_args ev st argv 2 (\<lambda>args. package_to_file L (args ! 0) (args ! 1))
      else with_args ev st argv 1 (\<lambda>args. package_to_value L (args ! 0)))"

section \<open>Symbolic links\<close>

definition EEXIST :: nat where "EEXIST = 17"

text \<open>\<open>mkdir\<close> and \<open>unlink\<close> with the error number, zero for success.\<close>

definition mkdir_errno :: "string \<Rightarrow> int \<Rightarrow> 'f world \<Rightarrow> nat \<times> 'f world" where
  "mkdir_errno path mode w =
     (case mkdir path mode w of (made, w1) \<Rightarrow>
        (if made then 0 else if fst (answer w) \<noteq> 0 then fst (answer w) else EEXIST, w1))"

definition unlink_errno :: "string \<Rightarrow> 'f world \<Rightarrow> nat \<times> 'f world" where
  "unlink_errno path w =
     (case unlink path w of (gone, w1) \<Rightarrow>
        (if gone then 0 else if fst (answer w) \<noteq> 0 then fst (answer w) else nat DirUtil.ENOENT, w1))"

lemma last_slash_le: "last_slash s n \<le> n"
  by (induction n) auto

function make_parents :: "string \<Rightarrow> 'f world \<Rightarrow> int \<times> 'f world" where
  "make_parents name w =
     (let p = last_slash name (length name - 1) in
      if p = 0 then (0, w)
      else
        case make_parents (take p name) w of (r, w1) \<Rightarrow>
          if r < 0 then (-1, w1)
          else
            case mkdir_errno (take p name) 0x1C0 w1 of (errno, w2) \<Rightarrow>
              (if errno = 0 \<or> errno = EEXIST then 0 else -1, w2))"
  by pat_completeness auto
termination
proof (relation "measure (\<lambda>(name, _). length name)")
  fix name :: string and w :: "'f world" and p
  assume p: "p = last_slash name (length name - 1)" "p \<noteq> 0"
  have "p \<le> length name - 1" unfolding p(1) by (rule last_slash_le)
  with p(2) show "((take p name, w), (name, w)) \<in> measure (\<lambda>(name, _). length name)" by auto
qed simp

declare make_parents.simps [simp del]

fun make_links :: "string \<Rightarrow> string list \<Rightarrow> nat \<Rightarrow> 'f world \<Rightarrow> nat \<times> 'f world" where
  "make_links target [] bad w = (bad, w)"
| "make_links target (src # srcs) bad w =
     (case unlink_errno src w of (errno, w1) \<Rightarrow>
        let bad = (if errno \<noteq> 0 \<and> errno \<noteq> nat DirUtil.ENOENT then bad + 1 else bad) in
        case make_parents src w1 of (r, w2) \<Rightarrow>
          let bad = (if r \<noteq> 0 then bad + 1 else bad) in
          case symlink (bytes_of target) src w2 of (linked, w3) \<Rightarrow>
            make_links target srcs (if linked then bad else bad + 1) w3)"

definition SymlinkFn ::
  "('s, 'z, 'c, 'f, 'r, 'm, 'i) env \<Rightarrow> ('e, 'f updater) evaluation \<Rightarrow> string \<Rightarrow> 'f updater State \<Rightarrow> 'e list \<Rightarrow> (Value, 'f updater) ret" where
  "SymlinkFn L ev name st argv =
     (if argv = [] then Some (None, ErrorAbort st (expects name ''1+ args'' argv))
      else with_var_args ev st argv (\<lambda>args u.
        case in_world (make_links (hd args) (tl args) 0) u of (bad, u) \<Rightarrow>
          if bad \<noteq> 0 then fail (name @ '': some symlinks failed'') u else ret [] u))"

section \<open>Metadata\<close>

record perm_parsed_args =
  pp_uid :: "int option"
  pp_gid :: "int option"
  pp_mode :: "int option"
  pp_fmode :: "int option"
  pp_dmode :: "int option"
  pp_selabel :: "string option"
  pp_capabilities :: "nat option"

definition no_perms :: perm_parsed_args where
  "no_perms = \<lparr>pp_uid = None, pp_gid = None, pp_mode = None, pp_fmode = None, pp_dmode = None, pp_selabel = None, pp_capabilities = None\<rparr>"

text \<open>A number that does not parse leaves the field as it was.\<close>

definition scan_id :: "string \<Rightarrow> int option \<Rightarrow> int option" where
  "scan_id s old = (case scan_number 10 s of Some (v, _) \<Rightarrow> Some (v mod 2 ^ 32) | None \<Rightarrow> old)"

definition scan_mode :: "string \<Rightarrow> int option \<Rightarrow> int option" where
  "scan_mode s old = (case scan_number 0 s of Some (v, _) \<Rightarrow> Some (to_int32 v) | None \<Rightarrow> old)"

text \<open>The arguments from the second one on; \<^term>\<open>None\<close> is a key without a value.\<close>

fun ParsePermArgs :: "string list \<Rightarrow> perm_parsed_args \<Rightarrow> perm_parsed_args option" where
  "ParsePermArgs [] p = Some p"
| "ParsePermArgs [k] p = None"
| "ParsePermArgs (k # v # args) p =
     ParsePermArgs args
       (if k = ''uid'' then p\<lparr>pp_uid := scan_id v (pp_uid p)\<rparr>
        else if k = ''gid'' then p\<lparr>pp_gid := scan_id v (pp_gid p)\<rparr>
        else if k = ''mode'' then p\<lparr>pp_mode := scan_mode v (pp_mode p)\<rparr>
        else if k = ''dmode'' then p\<lparr>pp_dmode := scan_mode v (pp_dmode p)\<rparr>
        else if k = ''fmode'' then p\<lparr>pp_fmode := scan_mode v (pp_fmode p)\<rparr>
        else if k = ''capabilities''
        then p\<lparr>pp_capabilities := (case scan_number 0 v of Some (c, _) \<Rightarrow> Some (nat (c mod 2 ^ 64)) | None \<Rightarrow> pp_capabilities p)\<rparr>
        else if k = ''selabel'' then (if v \<noteq> [] then p\<lparr>pp_selabel := Some v\<rparr> else p)
        else p)"

definition S_IFLNK :: int where "S_IFLNK = 0xA000"

definition is_link :: "inode \<Rightarrow> bool" where
  "is_link f \<longleftrightarrow> f_mode f AND S_IFMT = S_IFLNK"

text \<open>A change that counts as bad when it fails.\<close>

definition apply_perm :: "'a option \<Rightarrow> ('a \<Rightarrow> 'f world \<Rightarrow> bool \<times> 'f world) \<Rightarrow> int \<times> 'f world \<Rightarrow> int \<times> 'f world" where
  "apply_perm v change p =
     (case v of
        None \<Rightarrow> p
      | Some x \<Rightarrow> (case change x (snd p) of (good, w1) \<Rightarrow> (if good then fst p else fst p + 1, w1)))"

text \<open>The identifier \<open>-1\<close> stands for the one that the file has.\<close>

definition chown_ids :: "string \<Rightarrow> int \<Rightarrow> int \<Rightarrow> 'f world \<Rightarrow> bool \<times> 'f world" where
  "chown_ids path uid gid w =
     (case lookup_file w path of
        None \<Rightarrow> chown path uid gid w
      | Some f \<Rightarrow> chown path (if uid = 2 ^ 32 - 1 then f_uid f else uid) (if gid = 2 ^ 32 - 1 then f_gid f else gid) w)"

definition ENOTSUP :: nat where "ENOTSUP = 95"
definition ENODATA :: nat where "ENODATA = 61"

definition accepting :: "nat \<Rightarrow> nat \<times> 'f world \<Rightarrow> bool \<times> 'f world" where
  "accepting e p = (fst p = 0 \<or> fst p = e, snd p)"

text \<open>The capabilities as the kernel stores them: the revision with the flag \<open>effective\<close>, then two pairs of permitted and
  inheritable bits.\<close>

definition change_capabilities :: "'f platform \<Rightarrow> string \<Rightarrow> nat \<Rightarrow> 'f world \<Rightarrow> bool \<times> 'f world" where
  "change_capabilities os filename caps w =
     (if caps = 0 then accepting ENODATA (os_removexattr os filename ''security.capability'' w)
      else accepting 0 (os_setxattr os filename ''security.capability'' [0x02000001, caps mod 2 ^ 32, 0, caps div 2 ^ 32, 0] w))"

definition ApplyParsedPerms :: "'f platform \<Rightarrow> string \<Rightarrow> inode \<Rightarrow> perm_parsed_args \<Rightarrow> 'f world \<Rightarrow> int \<times> 'f world" where
  "ApplyParsedPerms os filename st p w =
     (if is_link st then (0, w)
      else
        let r = apply_perm (pp_uid p) (\<lambda>uid. chown_ids filename uid (2 ^ 32 - 1)) (0, w);
            r = apply_perm (pp_gid p) (chown_ids filename (2 ^ 32 - 1)) r;
            r = apply_perm (pp_mode p) (chmod filename) r;
            r = apply_perm (if is_dir st then pp_dmode p else None) (chmod filename) r;
            r = apply_perm (if f_reg st then pp_fmode p else None) (chmod filename) r;
            r = apply_perm (pp_selabel p) (\<lambda>label w. accepting ENOTSUP (os_lsetfilecon os filename label w)) r in
        apply_perm (if f_reg st then pp_capabilities p else None) (change_capabilities os filename) r)"

text \<open>\<open>nftw\<close> stops at the first file for which the callback does not return zero.\<close>

fun perms_walk :: "'f platform \<Rightarrow> perm_parsed_args \<Rightarrow> string list \<Rightarrow> 'f world \<Rightarrow> int \<times> 'f world" where
  "perms_walk os p [] w = (0, w)"
| "perms_walk os p (path # paths) w =
     (case lookup_file w path of
        None \<Rightarrow> perms_walk os p paths w
      | Some st \<Rightarrow>
          (case ApplyParsedPerms os path st p w of (r, w1) \<Rightarrow>
             if r \<noteq> 0 then (r, w1) else perms_walk os p paths w1))"

text \<open>The error of \<open>lstat\<close> is stored as a null result, after which the function goes on as if nothing had failed.\<close>

definition SetMetadataFn ::
  "('s, 'z, 'c, 'f, 'r, 'm, 'i) env \<Rightarrow> ('e, 'f updater) evaluation \<Rightarrow> string \<Rightarrow> 'f updater State \<Rightarrow> 'e list \<Rightarrow> (Value, 'f updater) ret" where
  "SetMetadataFn L ev name st argv =
     (if length argv mod 2 \<noteq> 1 then Some (None, ErrorAbort st (expects name ''an odd number of arguments'' argv))
      else with_var_args ev st argv (\<lambda>args u.
        let path = hd args in
        case in_world sys_ok u of (good, u) \<Rightarrow>
          case lookup_file (u_world u) path of
            None \<Rightarrow> Some (ErrRet (name @ '': Error on lstat of '' @ quoted path @ '': '' @ os_strerror (e_os L)) (string_value []), u)
          | Some sb \<Rightarrow>
              if \<not> good then Some (ErrRet (name @ '': Error on lstat of '' @ quoted path @ '': '' @ os_strerror (e_os L)) (string_value []), u)
              else do {
                parsed \<leftarrow> ParsePermArgs (tl args) no_perms;
                let (bad, u) = in_world (\<lambda>w.
                      if name = ''set_metadata_recursive'' then
                        (case os_nftw (e_os L) path w of None \<Rightarrow> (-1, w) | Some paths \<Rightarrow> perms_walk (e_os L) parsed paths w)
                      else ApplyParsedPerms (e_os L) path sb parsed w) u;
                if 0 < bad then fail (name @ '': some changes failed'') u else ret [] u }))"

section \<open>Properties\<close>

definition GetPropFn ::
  "('s, 'z, 'c, 'f, 'r, 'm, 'i) env \<Rightarrow> ('e, 'f updater) evaluation \<Rightarrow> string \<Rightarrow> 'f updater State \<Rightarrow> 'e list \<Rightarrow> (Value, 'f updater) ret" where
  "GetPropFn L ev name st argv =
     (if length argv \<noteq> 1 then Some (None, ErrorAbort st (expects name ''1 arg'' argv))
      else with_args ev st argv 1 (\<lambda>args u. ret (os_property_get (e_os L) (args ! 0)) u))"

definition MAX_FILE_GETPROP_SIZE :: nat where "MAX_FILE_GETPROP_SIZE = 65536"

definition trim_end :: "string \<Rightarrow> string" where
  "trim_end s = rev (dropWhile isspace (rev s))"

text \<open>The loop over the lines: the value, or \<^term>\<open>None\<close> with the malformed line.\<close>

fun prop_lines :: "string \<Rightarrow> string list \<Rightarrow> string + string" where
  "prop_lines key [] = Inr []"
| "prop_lines key (line # lines) =
     (let l = dropWhile isspace line in
      if l = [] \<or> hd l = CHR ''#'' then prop_lines key lines
      else if CHR ''='' \<notin> set l then Inl l
      else if trim_end (takeWhile (\<lambda>c. c \<noteq> CHR ''='') l) \<noteq> key then prop_lines key lines
      else Inr (trim_end (dropWhile isspace (tl (dropWhile (\<lambda>c. c \<noteq> CHR ''='') l)))))"

text \<open>A file without a line makes \<open>strtok\<close> return a null pointer, which is read.\<close>

definition file_getprop :: "string \<Rightarrow> string \<Rightarrow> (string + string) option" where
  "file_getprop key buf =
     (let lines = strtok_all (CHR 0x0A) (takeWhile (\<lambda>c. c \<noteq> CHR 0x00) buf) in
      if lines = [] then None else Some (prop_lines key lines))"

definition FileGetPropFn ::
  "('s, 'z, 'c, 'f, 'r, 'm, 'i) env \<Rightarrow> ('e, 'f updater) evaluation \<Rightarrow> string \<Rightarrow> 'f updater State \<Rightarrow> 'e list \<Rightarrow> (Value, 'f updater) ret" where
  "FileGetPropFn L ev name st argv =
     with_args ev st argv 2 (\<lambda>args u.
       let filename = args ! 0; key = args ! 1; why = '': '' @ os_strerror (e_os L) in
       case in_world sys_ok u of (good, u) \<Rightarrow>
         case lookup_file (u_world u) filename of
           None \<Rightarrow> fail (name @ '': failed to stat '' @ quoted filename @ why) u
         | Some f \<Rightarrow>
             if \<not> good then fail (name @ '': failed to stat '' @ quoted filename @ why) u
             else if MAX_FILE_GETPROP_SIZE < length (f_data f) then fail (filename @ '' too large for '' @ name @ '' (max 65536)'') u
             else if \<not> l_malloc_ok (e_libs L) (int (length (f_data f)) + 1) then fail (name @ '': failed to alloc '' @ dec_nat (length (f_data f) + 1) @ '' bytes'') u
             else
               case in_world sys_ok u of (opened, u) \<Rightarrow>
                 if \<not> opened then fail (name @ '': failed to open '' @ filename @ why) u
                 else
                   case in_world (fread (f_data f) 0 (length (f_data f))) u of (buf, u) \<Rightarrow>
                     if length buf \<noteq> length (f_data f) then fail (name @ '': failed to read '' @ dec_nat (length (f_data f) + 1) @ '' bytes from '' @ filename) u
                     else do {
                       r \<leftarrow> file_getprop key (chars buf);
                       case r of
                         Inl line \<Rightarrow> fail (name @ '': malformed line '' @ quoted line @ '': '' @ filename @ '' not a prop file?'') u
                       | Inr v \<Rightarrow> ret v u })"

section \<open>Partitions and patches\<close>

definition BUFSIZ :: nat where "BUFSIZ = 1024"

text \<open>Copying an open file to a partition in blocks.\<close>

lemma fread_progress: "x = fread dat pos n w \<Longrightarrow> (b, w1) = x \<Longrightarrow> b \<noteq> [] \<Longrightarrow> length dat - (pos + length b) < length dat - pos"
proof -
  assume "x = fread dat pos n w" "(b, w1) = x" "b \<noteq> []"
  then have "b \<noteq> []" "length b \<le> length dat - pos" by (auto simp: fread_def split: prod.splits)
  then show ?thesis by (cases b) auto
qed

function copy_image ::
  "('f, 'r, 'm) mtdlib \<Rightarrow> buffer \<Rightarrow> nat \<Rightarrow> 'm \<Rightarrow> 'f world \<Rightarrow> (bool \<times> 'm) \<times> 'f world" where
  "copy_image mtd dat pos ctx w =
     (case fread dat pos BUFSIZ w of (buf, w1) \<Rightarrow>
        if buf = [] then ((True, ctx), w1)
        else case mtd_write_data mtd ctx buf of (wrote, ctx1) \<Rightarrow>
          if wrote \<noteq> length buf then ((False, ctx1), w1)
          else copy_image mtd dat (pos + length buf) ctx1 w1)"
  by pat_completeness auto
termination by (relation "measure (\<lambda>(_, dat, pos, _). length dat - pos)") (simp_all add: fread_progress)

declare copy_image.simps [simp del]

text \<open>A blob whose extraction failed has a negative size and no data.\<close>

definition write_done ::
  "('f, 'r, 'm) mtdlib \<Rightarrow> string \<Rightarrow> bool \<Rightarrow> 'm \<Rightarrow> 'f effect" where
  "write_done mtd part success ctx u =
     (case mtd_erase_blocks mtd ctx of (_, ctx) \<Rightarrow>
        case mtd_write_close mtd ctx (flash (u_world u)) of (_, fl) \<Rightarrow>
          ret (if success then part else []) (set_flash fl u))"

definition write_image ::
  "('s, 'z, 'c, 'f, 'r, 'm, 'i) env \<Rightarrow> Value \<Rightarrow> string \<Rightarrow> 'f effect" where
  "write_image L img part u =
     (let mtd = l_mtd (e_libs L); u = scan_flash L u in
      case mtd_write_partition mtd part (flash (u_world u)) of
        None \<Rightarrow> ret [] u
      | Some ctx \<Rightarrow>
          if vtype img = VAL_STRING then
            (case in_world sys_ok u of (opened, u) \<Rightarrow>
               case lookup_file (u_world u) (vdata img) of
                 None \<Rightarrow> ret [] u
               | Some f \<Rightarrow>
                   if \<not> opened then ret [] u
                   else case in_world (copy_image mtd (f_data f) 0 ctx) u of ((success, ctx), u) \<Rightarrow> write_done mtd part success ctx u)
          else if vsize img < 0 then None
          else
            case mtd_write_data mtd ctx (value_bytes img) of (wrote, ctx) \<Rightarrow> write_done mtd part (int wrote = vsize img) ctx u)"

definition WriteRawImageFn ::
  "('s, 'z, 'c, 'f, 'r, 'm, 'i) env \<Rightarrow> ('e, 'f updater) evaluation \<Rightarrow> string \<Rightarrow> 'f updater State \<Rightarrow> 'e list \<Rightarrow> (Value, 'f updater) ret" where
  "WriteRawImageFn L ev name st argv = do {
     (args, st1) \<leftarrow> ReadValueArgs ev st argv 2;
     case args of
       None \<Rightarrow> Some (None, st1)
     | Some args \<Rightarrow> conclude st1 (\<lambda>u.
         let img = args ! 0; part = args ! 1 in
         if vtype part \<noteq> VAL_STRING then fail (''partition argument to '' @ name @ '' must be string'') u
         else if vdata part = [] then fail (''partition argument to '' @ name @ '' can't be empty'') u
         else if vtype img = VAL_STRING \<and> vdata img = [] then fail (''file argument to '' @ name @ '' can't be empty'') u
         else write_image L img (vdata part) u) }"

definition ApplyPatchSpaceFn ::
  "('s, 'z, 'c, 'f, 'r, 'm, 'i) env \<Rightarrow> ('e, 'f updater) evaluation \<Rightarrow> string \<Rightarrow> 'f updater State \<Rightarrow> 'e list \<Rightarrow> (Value, 'f updater) ret" where
  "ApplyPatchSpaceFn L ev name st argv =
     with_args ev st argv 1 (\<lambda>args u.
       let (v, endptr) = strtol10 (args ! 0); bytes = nat (v mod 2 ^ 64) in
       if bytes = 0 \<and> endptr = args ! 0 then fail (name @ ''(): can't parse '' @ quoted (args ! 0) @ '' as byte count'' @ newline @ newline) u
       else case in_world (CacheSizeCheck bytes) u of (r, u) \<Rightarrow> ret (if r \<noteq> 0 then [] else ''t'') u)"

text \<open>The files that the backup tool has changed.\<close>

definition backed_up :: "string \<Rightarrow> 'f updater \<Rightarrow> bool" where
  "backed_up filename u \<longleftrightarrow> (\<exists>b \<in> set (bakfiles u). strncmp filename b PATH_MAX = 0)"

text \<open>The pairs of a digest and a patch, or what is wrong with them.\<close>

fun patch_pairs :: "string \<Rightarrow> nat \<Rightarrow> Value list \<Rightarrow> string + (string list \<times> Value list)" where
  "patch_pairs name i (s # p # vs) =
     (if vtype s \<noteq> VAL_STRING then Inl (name @ ''(): sha-1 #'' @ dec_nat i @ '' is not string'')
      else if vtype p \<noteq> VAL_BLOB then Inl (name @ ''(): patch #'' @ dec_nat i @ '' is not blob'')
      else case patch_pairs name (i + 1) vs of
        Inl msg \<Rightarrow> Inl msg
      | Inr (ss, ps) \<Rightarrow> Inr (vdata s # ss, p # ps))"
| "patch_pairs name i vs = Inr ([], [])"

definition ApplyPatchFn ::
  "('s, 'z, 'c, 'f, 'r, 'm, 'i) env \<Rightarrow> ('e, 'f updater) evaluation \<Rightarrow> string \<Rightarrow> 'f updater State \<Rightarrow> 'e list \<Rightarrow> (Value, 'f updater) ret" where
  "ApplyPatchFn L ev name st argv =
     (if length argv < 6 \<or> length argv mod 2 = 1
      then Some (None, ErrorAbort st (name @ ''(): expected at least 6 args and an even number, got '' @ dec_nat (length argv)))
      else do {
        (args, st1) \<leftarrow> ReadArgs ev st argv 4;
        case args of
          None \<Rightarrow> Some (None, st1)
        | Some args \<Rightarrow>
            let source_filename = args ! 0; target_filename = args ! 1; target_sha1 = args ! 2; target_size_str = args ! 3 in
            if backed_up source_filename (cookie st1) then
              conclude st1 (\<lambda>u. ret ''t'' (pipe (''ui_print Skipping update of modified file '' @ source_filename @ newline @ ''ui_print'' @ newline) u))
            else
              let (v, endptr) = strtol10 target_size_str; target_size = nat (v mod 2 ^ 64) in
              if target_size = 0 \<and> endptr = target_size_str
              then Some (None, ErrorAbort st1 (name @ ''(): can't parse '' @ quoted target_size_str @ '' as byte count''))
              else do {
                (patches, st2) \<leftarrow> ReadValueVarArgs ev st1 (drop 4 argv);
                patches \<leftarrow> patches;
                conclude st2 (\<lambda>u.
                  case patch_pairs name 0 patches of
                    Inl msg \<Rightarrow> fail msg u
                  | Inr (patch_sha_str, patches) \<Rightarrow> do {
                      (result, u) \<leftarrow> in_world_opt (applypatch (e_libs L) source_filename target_filename target_sha1 target_size
                        patch_sha_str patches None (e_source L) (e_copy L)) u;
                      ret (if result = 0 then ''t'' else []) u }) } })"

text \<open>The table of files that are skipped has \<open>PATH_MAX\<close> entries of 512 bytes.\<close>

definition push_backup :: "string \<Rightarrow> 'f updater \<Rightarrow> 'f updater option" where
  "push_backup path u =
     (if 512 \<le> length path \<or> PATH_MAX \<le> length (bakfiles u) then None else Some (u\<lparr>bakfiles := bakfiles u @ [path]\<rparr>))"

definition ApplyPatchCheckFn ::
  "('s, 'z, 'c, 'f, 'r, 'm, 'i) env \<Rightarrow> ('e, 'f updater) evaluation \<Rightarrow> string \<Rightarrow> 'f updater State \<Rightarrow> 'e list \<Rightarrow> (Value, 'f updater) ret" where
  "ApplyPatchCheckFn L ev name st argv =
     (if argv = [] then Some (None, ErrorAbort st (name @ ''(): expected at least 1 arg, got 0''))
      else do {
        (args, st1) \<leftarrow> ReadArgs ev st argv 1;
        case args of
          None \<Rightarrow> Some (None, st1)
        | Some args \<Rightarrow>
            let filename = args ! 0 in
            if backed_up filename (cookie st1) then conclude st1 (ret ''t'')
            else do {
              (sha1s, st2) \<leftarrow> ReadVarArgs ev st1 (tl argv);
              sha1s \<leftarrow> sha1s;
              conclude st2 (\<lambda>u. do {
                (result, u) \<leftarrow> in_world_opt (applypatch_check (e_libs L) filename sha1s (e_source L)) u;
                if result = - FileContents.ENOENT \<and> bakfiles u \<noteq> [] then do { u \<leftarrow> push_backup filename u; ret ''t'' u }
                else ret (if result = 0 then ''t'' else []) u }) } })"

end
