(* ===== verification/Updater.thy ===== *)
theory Updater
  imports Installer
begin

text \<open>
  The rest of \<open>updater/install.c\<close>: reporting, the backup table, programs, digests, the stage in the bootloader message, and
  the registration of all functions; then the program around the interpreter, \<open>updater/updater.c\<close>. The parser of edify,
  which a generator makes, and the functions of device extensions are arguments of the program.
\<close>

section \<open>Reporting and backups\<close>

text \<open>\<open>strtok\<close> overwrites the end of the first line, so the value ends there.\<close>

definition UIPrintFn ::
  "('s, 'z, 'c, 'f, 'r, 'm, 'i) env \<Rightarrow> ('e, 'f updater) evaluation \<Rightarrow> string \<Rightarrow> 'f updater State \<Rightarrow> 'e list \<Rightarrow> (Value, 'f updater) ret" where
  "UIPrintFn L ev name st argv =
     with_var_args ev st argv (\<lambda>args u.
       let buffer = concat args; nl = (\<lambda>c. c = CHR 0x0A);
           lines = concat (map (\<lambda>l. ''ui_print '' @ l @ newline) (strtok_all (CHR 0x0A) buffer)) in
       ret (takeWhile nl buffer @ takeWhile (\<lambda>c. \<not> nl c) (dropWhile nl buffer))
         (pipe (lines @ ''ui_print'' @ newline) u))"

definition WipeCacheFn ::
  "('s, 'z, 'c, 'f, 'r, 'm, 'i) env \<Rightarrow> ('e, 'f updater) evaluation \<Rightarrow> string \<Rightarrow> 'f updater State \<Rightarrow> 'e list \<Rightarrow> (Value, 'f updater) ret" where
  "WipeCacheFn L ev name st argv =
     (if argv \<noteq> [] then Some (None, ErrorAbort st (expects name ''no args'' argv))
      else conclude st (\<lambda>u. ret ''t'' (pipe (''wipe_cache'' @ newline) u)))"

text \<open>The bit \<open>DT_DIR\<close> of the type of a directory entry, which block devices and sockets have too.\<close>

definition has_dir_bit :: "inode \<Rightarrow> bool" where
  "has_dir_bit f \<longleftrightarrow> f_mode f AND 0x4000 \<noteq> 0"

text \<open>A call is \<open>collect_backup_data bakroot bakpath None\<close>; \<open>Some names\<close> are the directory entries that are left in the loop.\<close>

function collect_backup_data :: "string \<Rightarrow> string \<Rightarrow> string list option \<Rightarrow> 'f updater \<Rightarrow> (int \<times> 'f updater) option" where
  "collect_backup_data bakroot bakpath None u =
     (case in_world sys_ok u of (opened, u1) \<Rightarrow>
        case lookup_file (u_world u1) bakpath of
          None \<Rightarrow> Some (0, u1)
        | Some f \<Rightarrow>
            if \<not> opened \<or> \<not> is_dir f then Some (0, u1)
            else (case in_world (readdir_all bakpath) u1 of (names, u2) \<Rightarrow> collect_backup_data bakroot bakpath (Some names) u2))"
| "collect_backup_data bakroot bakpath (Some []) u = Some (0, u)"
| "collect_backup_data bakroot bakpath (Some (d_name # names)) u =
     (let path = bakpath @ ''/'' @ d_name in
      case lookup_file (u_world u) path of
        None \<Rightarrow> collect_backup_data bakroot bakpath (Some names) u
      | Some f \<Rightarrow>
          if has_dir_bit f then
            if d_name = ''..'' \<or> d_name = ''.'' then collect_backup_data bakroot bakpath (Some names) u
            else if PATH_MAX \<le> length path then Some (1, u)
            else (case collect_backup_data bakroot path None u of
                    None \<Rightarrow> None
                  | Some (_, u1) \<Rightarrow> collect_backup_data bakroot bakpath (Some names) u1)
          else (case push_backup (drop (length bakroot) path) u of
                  None \<Rightarrow> None
                | Some u1 \<Rightarrow> collect_backup_data bakroot bakpath (Some names) u1))"
  by pat_completeness auto
termination
  by (relation "measures [\<lambda>(_, bakpath, _, _). PATH_MAX - length bakpath, \<lambda>(_, _, names, _). if names = None then 1 else 0,
                          \<lambda>(_, _, names, _). length (the names)]") auto

definition CollectBackupDataFn ::
  "('s, 'z, 'c, 'f, 'r, 'm, 'i) env \<Rightarrow> ('e, 'f updater) evaluation \<Rightarrow> string \<Rightarrow> 'f updater State \<Rightarrow> 'e list \<Rightarrow> (Value, 'f updater) ret" where
  "CollectBackupDataFn L ev name st argv =
     (if argv = [] then Some (None, ErrorAbort st (name @ ''(): expected at least 1 arg, got 0''))
      else with_args ev st argv 1 (\<lambda>args u. do {
        (r, u) \<leftarrow> collect_backup_data (args ! 0) (args ! 0) None u;
        ret (if r = 0 then ''t'' else []) u }))"

section \<open>Programs and digests\<close>

definition RunProgramFn ::
  "('s, 'z, 'c, 'f, 'r, 'm, 'i) env \<Rightarrow> ('e, 'f updater) evaluation \<Rightarrow> string \<Rightarrow> 'f updater State \<Rightarrow> 'e list \<Rightarrow> (Value, 'f updater) ret" where
  "RunProgramFn L ev name st argv =
     (if argv = [] then Some (None, ErrorAbort st (name @ ''() expects at least 1 arg''))
      else with_var_args ev st argv (\<lambda>args u.
        case in_world (os_run (e_os L) args) u of (status, u) \<Rightarrow> ret (dec_int status) u))"

definition PrintSha1 :: "buffer \<Rightarrow> string" where
  "PrintSha1 digest =
     concat (map (\<lambda>b. let alphabet = ''0123456789abcdef'' in
       [alphabet ! unat (drop_bit 4 b AND 0xf), alphabet ! unat (b AND 0xf)]) digest)"

text \<open>The first argument that is the digest in hexadecimal; others are skipped.\<close>

definition matching_digest :: "buffer \<Rightarrow> Value list \<Rightarrow> Value option" where
  "matching_digest digest vs = List.find (\<lambda>v. vtype v = VAL_STRING \<and> ParseSha1 (vdata v) = Some digest) vs"

definition Sha1CheckFn ::
  "('s, 'z, 'c, 'f, 'r, 'm, 'i) env \<Rightarrow> ('e, 'f updater) evaluation \<Rightarrow> string \<Rightarrow> 'f updater State \<Rightarrow> 'e list \<Rightarrow> (Value, 'f updater) ret" where
  "Sha1CheckFn L ev name st argv =
     (if argv = [] then Some (None, ErrorAbort st (name @ ''() expects at least 1 arg''))
      else do {
        (args, st1) \<leftarrow> ReadValueVarArgs ev st argv;
        case args of
          None \<Rightarrow> Some (None, st1)
        | Some args \<Rightarrow> conclude st1 (\<lambda>u.
            if vsize (hd args) < 0 then ret [] u
            else
              let digest = SHA_hash (l_sha (e_libs L)) (value_bytes (hd args)) in
              if length argv = 1 then ret (PrintSha1 digest) u
              else case matching_digest digest (tl args) of
                None \<Rightarrow> ret [] u
              | Some v \<Rightarrow> Some (Ret v, u)) })"

definition ReadFileFn ::
  "('s, 'z, 'c, 'f, 'r, 'm, 'i) env \<Rightarrow> ('e, 'f updater) evaluation \<Rightarrow> string \<Rightarrow> 'f updater State \<Rightarrow> 'e list \<Rightarrow> (Value, 'f updater) ret" where
  "ReadFileFn L ev name st argv =
     (if length argv \<noteq> 1 then Some (None, ErrorAbort st (expects name ''1 arg'' argv))
      else with_args ev st argv 1 (\<lambda>args u. do {
        ((r, fc), u) \<leftarrow> in_world_opt (LoadFileContents (l_sha (e_libs L)) (l_mtd (e_libs L)) (args ! 0) (e_source L) False) u;
        if r \<noteq> 0 then Some (Ret no_blob, u)
        else do {
          dat \<leftarrow> fc_data fc;
          Some (Ret \<lparr>vtype = VAL_BLOB, vsize = int (fc_size fc), vdata = chars dat\<rparr>, u) } }))"

section \<open>The bootloader message\<close>

text \<open>The offsets and sizes of the fields \<open>command\<close> and \<open>stage\<close> of \<open>struct bootloader_message\<close>.\<close>

definition COMMAND_SIZE :: nat where "COMMAND_SIZE = 32"
definition STAGE_OFFSET :: nat where "STAGE_OFFSET = 32 + 32 + 768"
definition STAGE_SIZE :: nat where "STAGE_SIZE = 32"

text \<open>Opening an existing file; the code goes on with a null pointer when that fails.\<close>

definition open_existing :: "string \<Rightarrow> 'f updater \<Rightarrow> (inode \<times> 'f updater) option" where
  "open_existing path u =
     (case in_world sys_ok u of (good, u1) \<Rightarrow>
        if good then map_option (\<lambda>f. (f, u1)) (lookup_file (u_world u1) path) else None)"

text \<open>\<open>fseek\<close> and \<open>fwrite\<close>; a file that ends before the position is filled up with zeros.\<close>

definition write_at :: "string \<Rightarrow> nat \<Rightarrow> buffer \<Rightarrow> 'f world \<Rightarrow> 'f world" where
  "write_at path pos bs w =
     (case sys_amount (length bs) w of (n, w1) \<Rightarrow>
        case lookup_file w1 path of
          None \<Rightarrow> w1
        | Some f \<Rightarrow> store_file w1 path (f\<lparr>f_data := overwrite (f_data f @ replicate (pos - length (f_data f)) 0) pos (take n bs)\<rparr>))"

definition RebootNowFn ::
  "('s, 'z, 'c, 'f, 'r, 'm, 'i) env \<Rightarrow> ('e, 'f updater) evaluation \<Rightarrow> string \<Rightarrow> 'f updater State \<Rightarrow> 'e list \<Rightarrow> (Value, 'f updater) ret" where
  "RebootNowFn L ev name st argv =
     (if length argv \<noteq> 2 then Some (None, ErrorAbort st (expects name ''2 args'' argv))
      else with_args ev st argv 2 (\<lambda>args u. do {
        (_, u) \<leftarrow> open_existing (args ! 0) u;
        let w = write_at (args ! 0) 0 (replicate COMMAND_SIZE 0) (u_world u);
        let w = os_property_set (e_os L) ''sys.powerctl'' (''reboot,'' @ take 70 (args ! 1)) w;
        fail (name @ ''() failed to reboot'') (u\<lparr>u_world := os_android_reboot (e_os L) w\<rparr>) }))"

definition SetStageFn ::
  "('s, 'z, 'c, 'f, 'r, 'm, 'i) env \<Rightarrow> ('e, 'f updater) evaluation \<Rightarrow> string \<Rightarrow> 'f updater State \<Rightarrow> 'e list \<Rightarrow> (Value, 'f updater) ret" where
  "SetStageFn L ev name st argv =
     (if length argv \<noteq> 2 then Some (None, ErrorAbort st (expects name ''2 args'' argv))
      else with_args ev st argv 2 (\<lambda>args u. do {
        (_, u) \<leftarrow> open_existing (args ! 0) u;
        let stagestr = (if STAGE_SIZE < length (args ! 1) + 1 then take (STAGE_SIZE - 1) (args ! 1) else args ! 1);
        ret (args ! 0) (u\<lparr>u_world := write_at (args ! 0) STAGE_OFFSET (bytes_of stagestr @ [0]) (u_world u)\<rparr>) }))"

definition GetStageFn ::
  "('s, 'z, 'c, 'f, 'r, 'm, 'i) env \<Rightarrow> ('e, 'f updater) evaluation \<Rightarrow> string \<Rightarrow> 'f updater State \<Rightarrow> 'e list \<Rightarrow> (Value, 'f updater) ret" where
  "GetStageFn L ev name st argv =
     (if length argv \<noteq> 1 \<and> length argv \<noteq> 2 then Some (None, ErrorAbort st (expects name ''1 or 2 args'' argv))
      else with_args ev st argv 1 (\<lambda>args u. do {
        (f, u) \<leftarrow> open_existing (args ! 0) u;
        let (got, u) = in_world (fread (f_data f) STAGE_OFFSET STAGE_SIZE) u;
        let buffer = take (STAGE_SIZE - 1) (got @ drop (length got) (os_stack (e_os L)));
        ret (takeWhile (\<lambda>c. c \<noteq> CHR 0x00) (chars buffer)) u }))"

section \<open>Registration\<close>

definition RegisterInstallFunctions :: "FnTable \<Rightarrow> FnTable option" where
  "RegisterInstallFunctions t =
     do { t \<leftarrow> RegisterFunction ''mount'' (NativeF ''MountFn'') t;
          t \<leftarrow> RegisterFunction ''is_mounted'' (NativeF ''IsMountedFn'') t;
          t \<leftarrow> RegisterFunction ''unmount'' (NativeF ''UnmountFn'') t;
          t \<leftarrow> RegisterFunction ''format'' (NativeF ''FormatFn'') t;
          t \<leftarrow> RegisterFunction ''show_progress'' (NativeF ''ShowProgressFn'') t;
          t \<leftarrow> RegisterFunction ''set_progress'' (NativeF ''SetProgressFn'') t;
          t \<leftarrow> RegisterFunction ''delete'' (NativeF ''DeleteFn'') t;
          t \<leftarrow> RegisterFunction ''delete_recursive'' (NativeF ''DeleteFn'') t;
          t \<leftarrow> RegisterFunction ''package_extract_dir'' (NativeF ''PackageExtractDirFn'') t;
          t \<leftarrow> RegisterFunction ''package_extract_file'' (NativeF ''PackageExtractFileFn'') t;
          t \<leftarrow> RegisterFunction ''symlink'' (NativeF ''SymlinkFn'') t;
          t \<leftarrow> RegisterFunction ''set_metadata'' (NativeF ''SetMetadataFn'') t;
          t \<leftarrow> RegisterFunction ''set_metadata_recursive'' (NativeF ''SetMetadataFn'') t;
          t \<leftarrow> RegisterFunction ''getprop'' (NativeF ''GetPropFn'') t;
          t \<leftarrow> RegisterFunction ''file_getprop'' (NativeF ''FileGetPropFn'') t;
          t \<leftarrow> RegisterFunction ''write_raw_image'' (NativeF ''WriteRawImageFn'') t;
          t \<leftarrow> RegisterFunction ''apply_patch'' (NativeF ''ApplyPatchFn'') t;
          t \<leftarrow> RegisterFunction ''apply_patch_check'' (NativeF ''ApplyPatchCheckFn'') t;
          t \<leftarrow> RegisterFunction ''apply_patch_space'' (NativeF ''ApplyPatchSpaceFn'') t;
          t \<leftarrow> RegisterFunction ''read_file'' (NativeF ''ReadFileFn'') t;
          t \<leftarrow> RegisterFunction ''sha1_check'' (NativeF ''Sha1CheckFn'') t;
          t \<leftarrow> RegisterFunction ''rename'' (NativeF ''RenameFn'') t;
          t \<leftarrow> RegisterFunction ''wipe_cache'' (NativeF ''WipeCacheFn'') t;
          t \<leftarrow> RegisterFunction ''ui_print'' (NativeF ''UIPrintFn'') t;
          t \<leftarrow> RegisterFunction ''run_program'' (NativeF ''RunProgramFn'') t;
          t \<leftarrow> RegisterFunction ''collect_backup_data'' (NativeF ''CollectBackupDataFn'') t;
          t \<leftarrow> RegisterFunction ''reboot_now'' (NativeF ''RebootNowFn'') t;
          t \<leftarrow> RegisterFunction ''get_stage'' (NativeF ''GetStageFn'') t;
          RegisterFunction ''set_stage'' (NativeF ''SetStageFn'') t }"

text \<open>The functions behind the pointers in the table.\<close>

definition install_functions ::
  "('s, 'z, 'c, 'f, 'r, 'm, 'i) env
     \<Rightarrow> (string \<times> (('f updater argument, 'f updater) evaluation \<Rightarrow> string \<Rightarrow> 'f updater State \<Rightarrow> 'f updater argument list \<Rightarrow> (Value, 'f updater) ret)) list" where
  "install_functions L =
     [(''MountFn'', MountFn L), (''IsMountedFn'', IsMountedFn L), (''UnmountFn'', UnmountFn L), (''FormatFn'', FormatFn L),
      (''ShowProgressFn'', ShowProgressFn L), (''SetProgressFn'', SetProgressFn L), (''DeleteFn'', DeleteFn L),
      (''PackageExtractDirFn'', PackageExtractDirFn L), (''PackageExtractFileFn'', PackageExtractFileFn L), (''SymlinkFn'', SymlinkFn L),
      (''SetMetadataFn'', SetMetadataFn L), (''GetPropFn'', GetPropFn L), (''FileGetPropFn'', FileGetPropFn L),
      (''WriteRawImageFn'', WriteRawImageFn L), (''ApplyPatchFn'', ApplyPatchFn L), (''ApplyPatchCheckFn'', ApplyPatchCheckFn L),
      (''ApplyPatchSpaceFn'', ApplyPatchSpaceFn L), (''ReadFileFn'', ReadFileFn L), (''Sha1CheckFn'', Sha1CheckFn L), (''RenameFn'', RenameFn L),
      (''WipeCacheFn'', WipeCacheFn L), (''UIPrintFn'', UIPrintFn L), (''RunProgramFn'', RunProgramFn L),
      (''CollectBackupDataFn'', CollectBackupDataFn L), (''RebootNowFn'', RebootNowFn L), (''GetStageFn'', GetStageFn L), (''SetStageFn'', SetStageFn L)]"

definition install_natives :: "('s, 'z, 'c, 'f, 'r, 'm, 'i) env \<Rightarrow> 'f updater natives \<Rightarrow> 'f updater natives" where
  "install_natives L device m name st args =
     (case map_of (install_functions L) m of
        None \<Rightarrow> device m name st args
      | Some fn \<Rightarrow> fn (\<lambda>a. a) name st args)"

section \<open>The program\<close>

definition SCRIPT_NAME :: string where
  "SCRIPT_NAME = ''META-INF/com/google/android/updater-script''"

text \<open>What depends on the device or is generated.\<close>

record 'f generated =
  RegisterDeviceExtensions :: "FnTable \<Rightarrow> FnTable option"
  device_natives :: "'f updater natives"
  yyparse :: "FnTable \<Rightarrow> string \<Rightarrow> int \<times> int \<times> Expr"

definition configure :: "'f generated \<Rightarrow> FnTable option" where
  "configure gen = do {
     t \<leftarrow> RegisterBuiltins empty_FnTable;
     t \<leftarrow> RegisterInstallFunctions t;
     t \<leftarrow> RegisterDeviceExtensions gen t;
     Some (FinishRegistration t) }"

text \<open>The report of the result and the exit code.\<close>

definition report_error :: "string option \<Rightarrow> string" where
  "report_error msg =
     (case msg of
        None \<Rightarrow> ''ui_print script aborted (no error message)'' @ newline
      | Some m \<Rightarrow> concat (map (\<lambda>l. ''ui_print '' @ l @ newline) (strtok_all (CHR 0x0A) m)) @ ''ui_print'' @ newline)"

definition initial_state :: "('s, 'z, 'c, 'f, 'r, 'm, 'i) env \<Rightarrow> string \<Rightarrow> 'f updater \<Rightarrow> 'f updater State" where
  "initial_state L scr u =
     \<lparr>cookie = (if os_selabel_open (e_os L) then u else pipe (''ui_print Warning: No file_contexts'' @ newline) u),
      script = scr, errmsg = None, out = [], slept = []\<rparr>"

definition run_script ::
  "('s, 'z, 'c, 'f, 'r, 'm, 'i) env \<Rightarrow> 'f generated \<Rightarrow> string \<Rightarrow> Expr \<Rightarrow> 'f updater \<Rightarrow> (int \<times> 'f updater) option" where
  "run_script L gen scr root u = do {
     (result, st) \<leftarrow> Evaluate (EvaluateValue (install_natives L (device_natives gen))) root (initial_state L scr u);
     Some (case result of
         None \<Rightarrow> (7, pipe (report_error (errmsg st)) (cookie st))
       | Some s \<Rightarrow> (0, pipe (''ui_print script succeeded: result was ['' @ s @ '']'' @ newline) (cookie st))) }"

definition updater_main ::
  "('s, 'z, 'c, 'f, 'r, 'm, 'i) env \<Rightarrow> 'f generated \<Rightarrow> string list \<Rightarrow> 'f world \<Rightarrow> (int \<times> 'f updater) option" where
  "updater_main L gen argv w =
     (let u = \<lparr>u_world = w, package_zip = zero_archive, cmd_pipe = [], bakfiles = [], u_mounts = g_mounts_state\<rparr> in
      if length argv \<noteq> 4 then Some (1, u)
      else if argv ! 1 \<noteq> ''1'' \<and> argv ! 1 \<noteq> ''2'' \<and> argv ! 1 \<noteq> ''3'' then Some (2, u)
      else if \<not> os_fdopen (e_os L) (fst (strtol10 (argv ! 2))) then None
      else do {
        (err, za, w) \<leftarrow> mzOpenZipArchive (\<lambda>_. True) (argv ! 3) w;
        let u = u\<lparr>u_world := w, package_zip := za\<rparr>;
        if err \<noteq> 0 then Some (3, u)
        else do {
          script_entry \<leftarrow> package_entry za SCRIPT_NAME;
          case script_entry of
            None \<Rightarrow> Some (4, u)
          | Some e \<Rightarrow> do {
              let n = mzGetZipEntryUncompLen e;
              (good, buf, w) \<leftarrow> mzReadZipEntry (e_inflater L) za e (take n (os_stack (e_os L) @ replicate n 0)) n w;
              let u = u\<lparr>u_world := w\<rparr>;
              if \<not> good then Some (5, u)
              else do {
                let scr = chars buf;
                t \<leftarrow> configure gen;
                let (error, error_count, root) = yyparse gen t (takeWhile (\<lambda>c. c \<noteq> CHR 0x00) scr);
                if error \<noteq> 0 \<or> 0 < error_count then Some (6, u)
                else run_script L gen scr root u } } } })"

end
