(* ===== verification/UpdaterContract.thy ===== *)
theory UpdaterContract
  imports Updater
begin

text \<open>
  The functions of the updater under the contract between values and error messages that \<open>Edify\<close> states for the
  interpreter, and the table in which the interpreter finds them.
\<close>

section \<open>The contract\<close>

definition proper :: "(ending \<times> 'f updater) option \<Rightarrow> bool" where
  "proper m \<longleftrightarrow> (case m of Some (NullRet, _) \<Rightarrow> False | Some (ErrRet _ _, _) \<Rightarrow> False | _ \<Rightarrow> True)"

named_theorems proper_rules \<open>rules for the ways a function ends\<close>

lemma proper_ends [proper_rules]: "proper (ret s u)" "proper (fail s u)" "proper None" "proper (Some (Ret v, u))"
  by (simp_all add: proper_def ret_def fail_def)

lemma proper_if [proper_rules]: "(b \<Longrightarrow> proper x) \<Longrightarrow> (\<not> b \<Longrightarrow> proper y) \<Longrightarrow> proper (if b then x else y)"
  by simp

lemma proper_bind [proper_rules]: "(\<And>a. proper (k a)) \<Longrightarrow> proper (m \<bind> k)"
  by (cases m) (simp_all add: proper_def)

lemma proper_pair [proper_rules]:
  "(\<And>a b. proper (f a b)) \<Longrightarrow> proper (case p of (a, b) \<Rightarrow> f a b)"
  "(\<And>a b. proper (g a b u)) \<Longrightarrow> proper ((case p of (a, b) \<Rightarrow> g a b) u)"
  by (cases p; simp)+

lemma proper_option [proper_rules]: "proper x \<Longrightarrow> (\<And>a. proper (f a)) \<Longrightarrow> proper (case m of None \<Rightarrow> x | Some a \<Rightarrow> f a)"
  by (cases m) simp_all

lemma proper_sum [proper_rules]: "(\<And>a. proper (f a)) \<Longrightarrow> (\<And>b. proper (g b)) \<Longrightarrow> proper (case s of Inl a \<Rightarrow> f a | Inr b \<Rightarrow> g b)"
  by (cases s) simp_all

lemma conclude_ok: "(\<And>u. proper (body u)) \<Longrightarrow> ok st (conclude st body)"
proof -
  assume p: "\<And>u. proper (body u)"
  show "ok st (conclude st body)"
  proof (cases "body (cookie st)")
    case None
    then show ?thesis by (simp add: conclude_def ok_None)
  next
    case (Some q)
    obtain e u where q: "q = (e, u)" by (cases q)
    from p [of "cookie st"] Some q show ?thesis
      by (cases e) (simp_all add: conclude_def ok_def ret_ok_def ErrorAbort_def proper_def)
  qed
qed

text \<open>A null pointer that is used.\<close>

lemma ok_used:
  assumes "ok st m" "\<And>x st1. ok st1 (k x st1)"
  shows "ok st (m \<bind> (\<lambda>(r, st1). r \<bind> (\<lambda>x. k x st1)))"
proof (cases m)
  case (Some p)
  then obtain r st1 where p: "m = Some (r, st1)" by (cases p) auto
  show ?thesis
  proof (cases r)
    case (Some x)
    with p assms(1) have "ret_ok st (Some x, st1)" by (simp add: ok_def)
    with p Some assms(2) [of st1 x] show ?thesis by (auto simp: ok_def split: option.split intro: ret_ok_trans)
  qed (simp add: p ok_None)
qed (simp add: ok_None)

text \<open>The arguments of a function keep the contract.\<close>

locale updater_contract = evaluation_contract ev D
  for ev :: "('e, 'f updater) evaluation" and D :: "'e set"
begin

lemma with_args_ok: "set argv \<subseteq> D \<Longrightarrow> (\<And>args u. proper (body args u)) \<Longrightarrow> ok st (with_args ev st argv n body)"
  unfolding with_args_def by (intro ok_seq ReadArgs_ok conclude_ok)

lemma with_var_args_ok: "set argv \<subseteq> D \<Longrightarrow> (\<And>args u. proper (body args u)) \<Longrightarrow> ok st (with_var_args ev st argv body)"
  unfolding with_var_args_def by (intro ok_seq ReadVarArgs_ok conclude_ok)

lemma delete_args_ok: "set argv \<subseteq> D \<Longrightarrow> ok st (delete_args ev st argv)"
proof (cases argv)
  case (Cons e es)
  assume d: "set argv \<subseteq> D"
  have "ok st1 (ReadVarArgs ev st1 es \<bind> (\<lambda>(ss, st2). ss \<bind> (\<lambda>ss. Some (Some (s # ss), st2))))" for st1 s
    using Cons d by (intro ok_used ReadVarArgs_ok ok_ret) simp
  moreover have "ok st (Evaluate ev e st)" using Cons d by (intro Evaluate_ok) simp
  ultimately show ?thesis unfolding delete_args_def Cons list.case by (intro ok_seq)
qed (simp add: delete_args_def ok_ret)

lemmas fn_rules = ok_if ok_error ok_ret with_args_ok with_var_args_ok proper_rules

lemma file_functions_ok:
  assumes d: "set argv \<subseteq> D"
  shows "ok st (MountFn L ev n st argv)" "ok st (IsMountedFn L ev n st argv)" "ok st (UnmountFn L ev n st argv)"
    "ok st (RenameFn L ev n st argv)" "ok st (DeleteFn L ev n st argv)" "ok st (PackageExtractDirFn L ev n st argv)"
    "ok st (PackageExtractFileFn L ev n st argv)" "ok st (SymlinkFn L ev n st argv)"
  unfolding MountFn_def IsMountedFn_def UnmountFn_def RenameFn_def DeleteFn_def PackageExtractDirFn_def PackageExtractFileFn_def
    SymlinkFn_def package_to_file_def package_to_value_def Let_def
  by (intro fn_rules ok_seq conclude_ok delete_args_ok d)+

lemma property_functions_ok:
  assumes d: "set argv \<subseteq> D"
  shows "ok st (ShowProgressFn L ev n st argv)" "ok st (SetProgressFn L ev n st argv)" "ok st (GetPropFn L ev n st argv)"
    "ok st (FileGetPropFn L ev n st argv)" "ok st (UIPrintFn L ev n st argv)" "ok st (WipeCacheFn L ev n st argv)"
    "ok st (RunProgramFn L ev n st argv)" "ok st (CollectBackupDataFn L ev n st argv)" "ok st (RebootNowFn L ev n st argv)"
    "ok st (SetStageFn L ev n st argv)" "ok st (GetStageFn L ev n st argv)"
  unfolding ShowProgressFn_def SetProgressFn_def GetPropFn_def FileGetPropFn_def UIPrintFn_def WipeCacheFn_def RunProgramFn_def
    CollectBackupDataFn_def RebootNowFn_def SetStageFn_def GetStageFn_def Let_def
  by (intro fn_rules conclude_ok d)+

lemma write_image_proper: "proper (write_image L img part u)"
  unfolding write_image_def write_done_def Let_def by (intro proper_rules)

lemma patch_functions_ok:
  assumes d: "set argv \<subseteq> D"
  shows "ok st (WriteRawImageFn L ev n st argv)" "ok st (ApplyPatchSpaceFn L ev n st argv)" "ok st (ReadFileFn L ev n st argv)"
    "ok st (Sha1CheckFn L ev n st argv)"
  unfolding WriteRawImageFn_def ApplyPatchSpaceFn_def ReadFileFn_def Sha1CheckFn_def Let_def
  by (intro fn_rules ok_seq conclude_ok write_image_proper ReadValueArgs_ok ReadValueVarArgs_ok d)+

lemma ApplyPatchFn_ok:
  assumes d: "set argv \<subseteq> D"
  shows "ok st (ApplyPatchFn L ev n st argv)"
proof -
  have "set (drop 4 argv) \<subseteq> D" using d set_drop_subset [of 4 argv] by blast
  then show ?thesis unfolding ApplyPatchFn_def Let_def
    by (intro fn_rules ok_seq ok_used ok_pair conclude_ok ReadArgs_ok ReadValueVarArgs_ok d)
qed

lemma ApplyPatchCheckFn_ok:
  assumes d: "set argv \<subseteq> D"
  shows "ok st (ApplyPatchCheckFn L ev n st argv)"
proof -
  have "set (tl argv) \<subseteq> D" using d by (cases argv) auto
  then show ?thesis unfolding ApplyPatchCheckFn_def Let_def
    by (intro fn_rules ok_seq ok_used conclude_ok ReadArgs_ok ReadVarArgs_ok d)
qed

end

interpretation args: updater_contract "\<lambda>a :: 'f updater argument. a" "{a. \<forall>s. ok s (a s)}"
  by unfold_locales simp

definition install_names :: "string list" where
  "install_names =
     [''MountFn'', ''IsMountedFn'', ''UnmountFn'', ''FormatFn'', ''ShowProgressFn'', ''SetProgressFn'', ''DeleteFn'',
      ''PackageExtractDirFn'', ''PackageExtractFileFn'', ''SymlinkFn'', ''SetMetadataFn'', ''GetPropFn'', ''FileGetPropFn'',
      ''WriteRawImageFn'', ''ApplyPatchFn'', ''ApplyPatchCheckFn'', ''ApplyPatchSpaceFn'', ''ReadFileFn'', ''Sha1CheckFn'',
      ''RenameFn'', ''WipeCacheFn'', ''UIPrintFn'', ''RunProgramFn'', ''CollectBackupDataFn'', ''RebootNowFn'', ''GetStageFn'',
      ''SetStageFn'']"

definition conforming :: "string list" where
  "conforming = filter (\<lambda>m. m \<noteq> ''FormatFn'' \<and> m \<noteq> ''SetMetadataFn'') install_names"

lemma install_names: "map fst (install_functions L) = install_names"
  by (simp add: install_functions_def install_names_def)

lemma distinct_install_names: "distinct install_names"
  by code_simp

lemma install_natives_fn: "(m, fn) \<in> set (install_functions L) \<Longrightarrow> install_natives L device m name st as = fn (\<lambda>a. a) name st as"
  using distinct_install_names install_names [of L] by (simp add: install_natives_def map_of_eq_Some_iff)

lemma conforming_ok:
  assumes "m \<in> set conforming" and a: "\<And>a s. a \<in> set as \<Longrightarrow> ok s (a s)"
  shows "ok st (install_natives L device m name st as)"
proof -
  have d: "set as \<subseteq> {a. \<forall>s. ok s (a s)}" using a by blast
  note fns = args.file_functions_ok [OF d] args.property_functions_ok [OF d] args.patch_functions_ok [OF d]
    args.ApplyPatchFn_ok [OF d] args.ApplyPatchCheckFn_ok [OF d]
  have all: "list_all (\<lambda>(m, fn). m = ''FormatFn'' \<or> m = ''SetMetadataFn'' \<or> ok st (fn (\<lambda>a. a) name st as)) (install_functions L)"
    unfolding install_functions_def list.pred_inject prod.case by (intro conjI; (rule disjI2, rule disjI2, rule fns)?; simp)
  from assms(1) have m: "m \<in> set install_names" "m \<noteq> ''FormatFn''" "m \<noteq> ''SetMetadataFn''"
    unfolding conforming_def set_filter mem_Collect_eq by blast+
  from m(1) obtain fn where fn: "(m, fn) \<in> set (install_functions L)"
    unfolding install_names [of L, symmetric] by auto
  from bspec [OF all [unfolded list_all_iff] fn]
  have "m = ''FormatFn'' \<or> m = ''SetMetadataFn'' \<or> ok st (fn (\<lambda>a. a) name st as)" unfolding prod.case .
  with m(2,3) have "ok st (fn (\<lambda>a. a) name st as)" by blast
  then show ?thesis unfolding install_natives_fn [OF fn] .
qed

section \<open>Scripts\<close>

fun natives_of :: "Expr \<Rightarrow> string list" where
  "natives_of (Expr f n argv s e) = (case f of NativeF m \<Rightarrow> [m] | _ \<Rightarrow> []) @ concat (map natives_of argv)"

lemma call_fn_builtin: "(\<And>m. f \<noteq> NativeF m) \<Longrightarrow> call_fn native ev f n st argv = call_fn no_natives ev f n st argv"
  by (cases f) (auto simp: call_fn_def)

lemma EvaluateValue_conforming:
  "set (natives_of e) \<subseteq> set conforming \<Longrightarrow> ok st (EvaluateValue (install_natives L device) e st)"
proof (induction e arbitrary: st)
  case (Expr f n argv s e)
  have args: "a \<in> set argv \<Longrightarrow> ok t (EvaluateValue (install_natives L device) a t)" for a t
  proof -
    assume a: "a \<in> set argv"
    with Expr.prems have "set (natives_of a) \<subseteq> set conforming" by auto
    with a show ?thesis by (intro Expr.IH)
  qed
  then have c: "evaluator_contract (EvaluateValue (install_natives L device)) (set argv)" by unfold_locales auto
  show ?case
  proof (cases "\<exists>m. f = NativeF m")
    case True
    then obtain m where m: "f = NativeF m" by blast
    with Expr.prems have "m \<in> set conforming" by auto
    with args have "ok st (install_natives L device m n st (map (EvaluateValue (install_natives L device)) argv))"
      by (intro conforming_ok) auto
    then show ?thesis by (simp add: m call_fn_def)
  next
    case False
    then have "f \<noteq> NativeF m" for m by blast
    from evaluator_contract.call_fn_ok [OF c order.refl no_natives_ok(1), of st f n] show ?thesis
      unfolding EvaluateValue.simps by (subst call_fn_builtin [OF \<open>\<And>m. f \<noteq> NativeF m\<close>])
  qed
qed

lemma Evaluate_conforming:
  assumes "set (natives_of e) \<subseteq> set conforming"
  shows "ok st (Evaluate (EvaluateValue (install_natives L device)) e st)"
proof -
  have "evaluation_contract (EvaluateValue (install_natives L device)) {e}"
    using EvaluateValue_conforming [OF assms] by unfold_locales auto
  then show ?thesis by (rule evaluation_contract.Evaluate_ok) simp
qed

text \<open>C19: a script that calls only the built-in functions and those of the updater other than \<open>format\<close>, \<open>set_metadata\<close> and
  \<open>set_metadata_recursive\<close> never ends without a reason: whenever the program exits with code 7, the last thing on the
  pipe to the recovery is the error message of the script, and an exit with code 0 leaves the script without one,
  whatever the system calls answered.\<close>

theorem run_script_reports:
  assumes "run_script L gen scr root u = Some (code, u')" "set (natives_of root) \<subseteq> set conforming"
  shows "code = 7 \<and> (\<exists>msg st. Evaluate (EvaluateValue (install_natives L (device_natives gen))) root (initial_state L scr u) = Some (None, st)
        \<and> errmsg st = Some msg \<and> u' = pipe (report_error (Some msg)) (cookie st))
    \<or> code = 0 \<and> (\<exists>s st. Evaluate (EvaluateValue (install_natives L (device_natives gen))) root (initial_state L scr u) = Some (Some s, st)
        \<and> errmsg st = None \<and> u' = pipe (''ui_print script succeeded: result was ['' @ s @ '']'' @ newline) (cookie st))"
proof -
  let ?run = "Evaluate (EvaluateValue (install_natives L (device_natives gen))) root (initial_state L scr u)"
  from assms(1) obtain result st where run: "?run = Some (result, st)"
    and e: "(code, u') = (case result of None \<Rightarrow> (7, pipe (report_error (errmsg st)) (cookie st))
       | Some s \<Rightarrow> (0, pipe (''ui_print script succeeded: result was ['' @ s @ '']'' @ newline) (cookie st)))"
    unfolding run_script_def by (auto split: bind_splits)
  from Evaluate_conforming [OF assms(2), of "initial_state L scr u" L "device_natives gen"]
  have c: "ret_ok (initial_state L scr u) (result, st)" by (simp add: run ok_def)
  have m: "errmsg (initial_state L scr u) = None" by (simp add: initial_state_def)
  show ?thesis
  proof (cases result)
    case None
    with c obtain msg where "errmsg st = Some msg" by (auto simp: ret_ok_def)
    with e None run show ?thesis by auto
  next
    case (Some s)
    with c m have "errmsg st = None" by (simp add: ret_ok_def)
    with e run Some show ?thesis by auto
  qed
qed

text \<open>\<open>format\<close> with a partition type other than \<open>MTD\<close> and a file system other than \<open>ext4\<close> returns \<open>NULL\<close> without an error
  message, so that the script is aborted and the user is told of no reason.\<close>

theorem format_without_reason:
  assumes "fs_type \<noteq> []" "fs_type \<noteq> ''ext4''" "partition_type \<noteq> []" "partition_type \<noteq> ''MTD''" "location \<noteq> []" "mount_point \<noteq> []"
    and "ReadArgs ev st argv 5 = Some (Some [fs_type, partition_type, location, fs_size, mount_point], st1)" "length argv = 5"
  shows "FormatFn L ev name st argv = Some (None, st1)"
  using assms by (simp add: FormatFn_def with_args_def conclude_def Let_def split: option.split)

text \<open>\<open>set_metadata\<close> on a file that does not exist sets the error message and nevertheless returns a value, so that the
  script goes on as if the change had been made.\<close>

theorem set_metadata_missing:
  assumes "ReadVarArgs ev st argv = Some (Some (path # params), st1)" "odd (length argv)"
    and "lookup_file (u_world (cookie st1)) path = None"
  shows "\<exists>st2 msg. SetMetadataFn L ev name st argv = Some (Some (string_value []), st2) \<and> errmsg st2 = Some msg
    \<and> files (u_world (cookie st2)) = files (u_world (cookie st1))"
proof -
  obtain good w where w: "sys_ok (u_world (cookie st1)) = (good, w)" by fastforce
  note f = sys_ok_files [OF w]
  then have "lookup_file w path = None" using assms(3) by (simp add: lookup_file_def)
  then show ?thesis using assms(1,2) f
    by (simp add: SetMetadataFn_def with_var_args_def conclude_def in_world_def w ErrorAbort_def odd_iff_mod_2_eq_one)
qed

section \<open>The table of functions\<close>

definition updater_functions :: "(string \<times> Function) list" where
  "updater_functions =
     [(''ifelse'', IfElseF), (''abort'', AbortF), (''assert'', AssertF), (''concat'', ConcatF), (''is_substring'', SubstringF),
      (''stdout'', StdoutF), (''sleep'', SleepF), (''less_than_int'', LessThanIntF), (''greater_than_int'', GreaterThanIntF),
      (''mount'', NativeF ''MountFn''), (''is_mounted'', NativeF ''IsMountedFn''), (''unmount'', NativeF ''UnmountFn''),
      (''format'', NativeF ''FormatFn''), (''show_progress'', NativeF ''ShowProgressFn''), (''set_progress'', NativeF ''SetProgressFn''),
      (''delete'', NativeF ''DeleteFn''), (''delete_recursive'', NativeF ''DeleteFn''),
      (''package_extract_dir'', NativeF ''PackageExtractDirFn''), (''package_extract_file'', NativeF ''PackageExtractFileFn''),
      (''symlink'', NativeF ''SymlinkFn''), (''set_metadata'', NativeF ''SetMetadataFn''), (''set_metadata_recursive'', NativeF ''SetMetadataFn''),
      (''getprop'', NativeF ''GetPropFn''), (''file_getprop'', NativeF ''FileGetPropFn''), (''write_raw_image'', NativeF ''WriteRawImageFn''),
      (''apply_patch'', NativeF ''ApplyPatchFn''), (''apply_patch_check'', NativeF ''ApplyPatchCheckFn''),
      (''apply_patch_space'', NativeF ''ApplyPatchSpaceFn''), (''read_file'', NativeF ''ReadFileFn''), (''sha1_check'', NativeF ''Sha1CheckFn''),
      (''rename'', NativeF ''RenameFn''), (''wipe_cache'', NativeF ''WipeCacheFn''), (''ui_print'', NativeF ''UIPrintFn''),
      (''run_program'', NativeF ''RunProgramFn''), (''collect_backup_data'', NativeF ''CollectBackupDataFn''),
      (''reboot_now'', NativeF ''RebootNowFn''), (''get_stage'', NativeF ''GetStageFn''), (''set_stage'', NativeF ''SetStageFn'')]"

lemma register_updater_functions: "RegisterBuiltins t \<bind> RegisterInstallFunctions = register_all updater_functions t"
  by (simp add: RegisterBuiltins_def RegisterInstallFunctions_def [abs_def] register_all_fun updater_functions_def)

lemma distinct_updater_functions: "distinct (map fst updater_functions)"
  by code_simp

lemma configure_found:
  assumes dev: "\<And>t. RegisterDeviceExtensions gen t = register_all rs t"
    and "distinct (map fst rs)" "fst ` set rs \<inter> fst ` set updater_functions = {}"
  shows "\<exists>t. configure gen = Some t \<and> (\<forall>name. FindFunction t name = map_of (updater_functions @ rs) name)"
proof -
  have append: "register_all (as @ bs) t = register_all as t \<bind> register_all bs" for as bs t
    by (induction as arbitrary: t) (auto simp: bind_assoc split: bind_splits)
  have "distinct (map fst (updater_functions @ rs))"
    using assms(2,3) distinct_updater_functions by auto
  then obtain t where t: "register_all (updater_functions @ rs) empty_FnTable = Some t"
    "\<forall>n. FindFunction (FinishRegistration t) n = map_of (updater_functions @ rs) n" using registered_found by blast
  have "configure gen = register_all (updater_functions @ rs) empty_FnTable \<bind> (\<lambda>t. Some (FinishRegistration t))"
    unfolding append register_updater_functions [symmetric] by (simp add: configure_def dev)
  with t show ?thesis by auto
qed

text \<open>When the extensions of the device register functions under further names, the program's set-up does not store outside
  the table, and the interpreter then finds every built-in function, every function of the updater and every extension
  under its name, and nothing else.\<close>

theorem configure_finds:
  assumes dev: "\<And>t. RegisterDeviceExtensions gen t = register_all rs t"
    and "distinct (map fst rs)" "fst ` set rs \<inter> fst ` set updater_functions = {}"
  shows "\<exists>t. configure gen = Some t \<and> (\<forall>name. FindFunction t name = map_of (updater_functions @ rs) name)"
  using assms by (rule configure_found)

section \<open>Examples\<close>

definition sample_os :: "unit platform" where
  "sample_os = \<lparr>os_mount = \<lambda>_ _ _ _ w. (0, w), os_umount = \<lambda>_ w. (0, w), os_make_ext4fs = None, os_mtd_device = \<lambda>_ _. None,
     os_property_get = \<lambda>_. [], os_print_double = \<lambda>s. s, os_run = \<lambda>_ w. (0, w), os_lsetfilecon = \<lambda>_ _ w. (0, w),
     os_removexattr = \<lambda>_ _ w. (0, w), os_setxattr = \<lambda>_ _ _ w. (0, w), os_nftw = \<lambda>_ _. None, os_property_set = \<lambda>_ _ w. w,
     os_android_reboot = \<lambda>w. w, os_fdopen = \<lambda>_. True, os_selabel_open = True, os_strerror = [], os_stack = []\<rparr>"

definition sample_env :: "(buffer, unit, buffer, unit, unit, unit, unit) env" where
  "sample_env = \<lparr>e_libs = sample_libs, e_inflater = \<lparr>zi_init = Some (), zi_inflate = \<lambda>_ _ _. (0, 0, [], ())\<rparr>, e_os = sample_os,
     e_source = blank_contents, e_copy = blank_contents\<rparr>"

definition sample_updater :: "unit updater" where
  "sample_updater = \<lparr>u_world = sample_system [], package_zip = zero_archive, cmd_pipe = [], bakfiles = [], u_mounts = g_mounts_state\<rparr>"

definition sample_gen :: "unit generated" where
  "sample_gen = \<lparr>RegisterDeviceExtensions = Some, device_natives = no_natives, yyparse = \<lambda>_ _. (0, 0, Expr LiteralF [] [] 0 0)\<rparr>"

text \<open>Arguments that are strings already.\<close>

definition given :: "(string, 'w) evaluation" where
  "given s st = Some (StringValue (Some s), st)"

lemma ReadVarArgs_given [simp]: "ReadVarArgs given st xs = Some (Some xs, st)"
  by (induction xs) (simp_all add: Evaluate_def given_def VAL_STRING_def)

lemma ReadArgs_given: "n \<le> length xs \<Longrightarrow> ReadArgs given st xs n = Some (Some (take n xs), st)"
  by (simp add: ReadArgs_def)

lemma with_args_given: "n \<le> length xs \<Longrightarrow> with_args given st xs n body = conclude st (body (take n xs))"
  by (simp add: with_args_def ReadArgs_given)

lemma with_var_args_given: "with_var_args given st xs body = conclude st (body xs)"
  by (simp add: with_var_args_def)

theorem configure_finds_witness:
  "distinct (map fst [(''beep'', NativeF ''BeepFn'')]) \<and>
   (\<exists>t. configure (sample_gen\<lparr>RegisterDeviceExtensions := register_all [(''beep'', NativeF ''BeepFn'')]\<rparr>) = Some t
     \<and> FindFunction t ''beep'' = Some (NativeF ''BeepFn'') \<and> FindFunction t ''rename'' = Some (NativeF ''RenameFn''))"
proof -
  let ?gen = "sample_gen\<lparr>RegisterDeviceExtensions := register_all [(''beep'', NativeF ''BeepFn'')]\<rparr>"
  have d: "fst ` set [(''beep'', NativeF ''BeepFn'')] \<inter> fst ` set updater_functions = {}" by (simp add: updater_functions_def)
  obtain t where "configure ?gen = Some t"
    "\<forall>name. FindFunction t name = map_of (updater_functions @ [(''beep'', NativeF ''BeepFn'')]) name"
    using configure_finds [OF _ _ d, of ?gen] by auto
  moreover have "map_of (updater_functions @ [(''beep'', NativeF ''BeepFn'')]) ''beep'' = Some (NativeF ''BeepFn'')"
    "map_of (updater_functions @ [(''beep'', NativeF ''BeepFn'')]) ''rename'' = Some (NativeF ''RenameFn'')"
    by (simp_all add: updater_functions_def)
  ultimately show ?thesis by simp
qed

definition sample_script :: Expr where
  "sample_script = Expr (NativeF ''RenameFn'') ''rename'' [Expr LiteralF [] [] 0 0, Expr LiteralF ''/a'' [] 0 0] 0 0"

lemma sample_script_run:
  "run_script sample_env sample_gen [] sample_script sample_updater
     = Some (7, pipe (report_error (Some (take 4095 (empty_arg ''src_name'' ''rename'')))) sample_updater)"
  by (simp add: run_script_def sample_script_def sample_gen_def install_natives_def install_functions_def call_fn_def Evaluate_def Literal_def
      RenameFn_def with_args_def ReadArgs_def VAL_STRING_def conclude_def fail_def ErrorAbort_def initial_state_def sample_env_def sample_os_def)

theorem run_script_reports_witness:
  "\<exists>st :: unit updater State. run_script sample_env sample_gen [] sample_script sample_updater = Some (7, pipe (report_error (errmsg st)) (cookie st))
    \<and> errmsg st = Some (take 4095 (empty_arg ''src_name'' ''rename''))"
proof -
  have "set (natives_of sample_script) \<subseteq> set conforming" by (simp add: sample_script_def conforming_def install_names_def)
  from run_script_reports [OF sample_script_run this] obtain msg st where
    e: "Evaluate (EvaluateValue (install_natives sample_env (device_natives sample_gen))) sample_script (initial_state sample_env [] sample_updater) = Some (None, st)"
      "errmsg st = Some msg" and u: "pipe (report_error (Some (take 4095 (empty_arg ''src_name'' ''rename'')))) sample_updater = pipe (report_error (Some msg)) (cookie st)"
    by auto
  from e(1) have m: "errmsg st = Some (take 4095 (empty_arg ''src_name'' ''rename''))"
    by (auto simp: sample_script_def sample_gen_def install_natives_def install_functions_def call_fn_def Evaluate_def Literal_def
      RenameFn_def with_args_def ReadArgs_def VAL_STRING_def conclude_def fail_def ErrorAbort_def initial_state_def sample_env_def sample_os_def)
  with e(2) u sample_script_run
  have r: "run_script sample_env sample_gen [] sample_script sample_updater = Some (7, pipe (report_error (errmsg st)) (cookie st))" by simp
  show ?thesis by (rule exI [of _ st], rule conjI [OF r m])
qed

theorem format_without_reason_witness:
  "FormatFn sample_env given ''format'' (initial_state sample_env [] sample_updater) [''yaffs2'', ''EMMC'', ''/dev/x'', ''0'', ''/data'']
     = Some (None, initial_state sample_env [] sample_updater)"
  using format_without_reason [where ev = given and L = sample_env and name = "''format''" and fs_type = "''yaffs2''"
      and partition_type = "''EMMC''" and location = "''/dev/x''" and mount_point = "''/data''" and fs_size = "''0''"
      and argv = "[''yaffs2'', ''EMMC'', ''/dev/x'', ''0'', ''/data'']" and st = "initial_state sample_env [] sample_updater"
      and ?st1.0 = "initial_state sample_env [] sample_updater"]
  by (simp add: ReadArgs_given)

theorem set_metadata_missing_witness:
  "\<exists>st2 msg. SetMetadataFn sample_env given ''set_metadata'' (initial_state sample_env [] sample_updater) [''/none'', ''uid'', ''0'']
      = Some (Some (string_value []), st2) \<and> errmsg st2 = Some msg"
proof -
  have "lookup_file (u_world (cookie (initial_state sample_env [] sample_updater))) ''/none'' = None"
    by (simp add: initial_state_def sample_env_def sample_os_def sample_updater_def sample_system_def lookup_file_def)
  from set_metadata_missing [OF ReadVarArgs_given _ this, of "[''uid'', ''0'']" sample_env "''set_metadata''"] show ?thesis by auto
qed

end
