(* ===== verification/UpdaterPatch.thy ===== *)
theory UpdaterPatch
  imports UpdaterContract
begin

text \<open>
  What scripts can rely on: a script that asserts the success of \<open>apply_patch\<close> and of \<open>sha1_check\<close>, the files that the backup
  tool has collected, properties files and the stage in the bootloader message.
\<close>

section \<open>Patching\<close>

lemma conclude_Some:
  assumes "conclude st body = Some (Some v, st')"
  obtains u where "body (cookie st) = Some (Ret v, u)" "st' = st\<lparr>cookie := u\<rparr>"
  | msg u where "body (cookie st) = Some (ErrRet msg v, u)" "st' = ErrorAbort (st\<lparr>cookie := u\<rparr>) msg"
  using assms by (auto simp: conclude_def Let_def split: bind_splits ending.splits)

lemma in_world_opt_Some: "in_world_opt f u = Some (a, u') \<longleftrightarrow> (\<exists>w. f (u_world u) = Some (a, w) \<and> u' = u\<lparr>u_world := w\<rparr>)"
  by (auto simp: in_world_opt_def)

lemma string_value_sel [simp]: "vtype (string_value s) = VAL_STRING" "vdata (string_value s) = s"
  by (simp_all add: string_value_def)

lemma patch_pairs_subset: "patch_pairs name i vs = Inr (ss, ps) \<Longrightarrow> set ps \<subseteq> set vs"
  by (induction name i vs arbitrary: ss ps rule: patch_pairs.induct) (auto split: if_splits sum.splits)

lemma ApplyPatchFn_success:
  assumes run: "ApplyPatchFn L ev name st argv = Some (Some v, st')" "vdata v \<noteq> []"
    and args: "ReadArgs ev st argv 4 = Some (Some [src, tgt, sha, size_str], st1)"
    and nb: "\<not> backed_up src (cookie st1)"
  obtains patches st2 strs ps n where
    "ReadValueVarArgs ev st1 (drop 4 argv) = Some (Some patches, st2)" "set ps \<subseteq> set patches"
    "applypatch (e_libs L) src tgt sha n strs ps None (e_source L) (e_copy L) (u_world (cookie st2)) = Some (0, u_world (cookie st'))"
proof -
  obtain m endptr where sz: "strtol10 size_str = (m, endptr)" by fastforce
  let ?n = "nat (m mod 18446744073709551616)"
  from run(1) args nb sz obtain patches st2 where p: "ReadValueVarArgs ev st1 (drop 4 argv) = Some (Some patches, st2)"
    and c: "conclude st2 (\<lambda>u. case patch_pairs name 0 patches of
                    Inl msg \<Rightarrow> fail msg u
                  | Inr (patch_sha_str, patches) \<Rightarrow> do {
                      (result, u) \<leftarrow> in_world_opt (applypatch (e_libs L) src tgt sha ?n
                        patch_sha_str patches None (e_source L) (e_copy L)) u;
                      ret (if result = 0 then ''t'' else []) u }) = Some (Some v, st')"
    unfolding ApplyPatchFn_def by (auto simp: Let_def split: if_splits bind_splits)
  from c show ?thesis
  proof (cases rule: conclude_Some)
    case (1 u)
    then obtain strs ps where ps: "patch_pairs name 0 patches = Inr (strs, ps)"
      by (auto simp: fail_def split: sum.splits)
    with 1 run(2) have "in_world_opt (applypatch (e_libs L) src tgt sha ?n strs ps None (e_source L) (e_copy L)) (cookie st2) = Some (0, u)"
      by (auto simp: ret_def split: bind_splits if_splits)
    with 1 p patch_pairs_subset [OF ps] that show ?thesis by (auto simp: in_world_opt_Some)
  next
    case (2 msg u)
    then show ?thesis by (auto simp: fail_def ret_def split: sum.splits bind_splits)
  qed
qed

lemma ReadVarArgs_lit: "ReadVarArgs (EvaluateValue native) st (map string_lit xs) = Some (Some xs, st)"
  by (induction xs) (simp_all add: Evaluate_def call_fn_def Literal_def VAL_STRING_def)

lemma Evaluate_apply: "Evaluate (\<lambda>a. a) (ev e) st = Evaluate ev e st"
  by (simp add: Evaluate_def)

lemma ReadVarArgs_apply: "ReadVarArgs (\<lambda>a. a) st (map ev argv) = ReadVarArgs ev st argv"
  by (induction argv arbitrary: st) (simp_all add: Evaluate_apply cong: option.case_cong)

lemma ReadValueVarArgs_apply: "ReadValueVarArgs (\<lambda>a. a) st (map ev argv) = ReadValueVarArgs ev st argv"
  by (induction argv arbitrary: st) (simp_all cong: option.case_cong)

lemma ReadArgs_apply: "ReadArgs (\<lambda>a. a) st (map ev argv) n = ReadArgs ev st argv n"
  by (simp add: ReadArgs_def take_map ReadVarArgs_apply)

lemma ApplyPatchFn_apply: "ApplyPatchFn L (\<lambda>a. a) name st (map ev argv) = ApplyPatchFn L ev name st argv"
  unfolding ApplyPatchFn_def ReadArgs_apply drop_map ReadValueVarArgs_apply length_map ..

lemma AssertFn_single:
  assumes "AssertFn ev n st [e] = Some (Some v, st')"
  obtains s where "Evaluate ev e st = Some (Some s, st')" "s \<noteq> []"
  using assms by (auto simp: BooleanString_def split: bind_splits option.splits if_splits)

definition patched :: "'c shalib \<Rightarrow> string \<Rightarrow> string \<Rightarrow> 'f world \<Rightarrow> bool" where
  "patched sha target sha_str w \<longleftrightarrow> (\<exists>digest f dat. ParseSha1 sha_str = Some digest \<and> lookup_file w target = Some f
     \<and> SHA_hash sha dat = digest \<and> (dat = f_data f \<or> masked (f_data f) dat))"

text \<open>C9: when the program that runs the script \<open>assert(apply_patch(src, tgt, sha, size, ...))\<close> exits with code 0, the source is one
  of the files that the backup tool has collected, or the target file has the digest that the script names. This holds
  whatever the system calls answered and whatever else the arguments compute, as long as the patches are bsdiff patches.\<close>

theorem asserted_patch:
  assumes run: "run_script L gen scr root u = Some (0, u')"
    and root: "root = Expr AssertF name [Expr (NativeF ''ApplyPatchFn'') ''apply_patch'' (map string_lit [src, tgt, sha, size_str] @ rest) b e] b' e'"
    and t: "\<not> is_partition (target_name src tgt)" "target_name src tgt \<noteq> CACHE_TEMP_SOURCE"
    and bs: "\<And>st patches st' v. ReadValueVarArgs (EvaluateValue (install_natives L (device_natives gen))) st rest = Some (Some patches, st')
        \<Longrightarrow> v \<in> set patches \<Longrightarrow> take 8 (value_bytes v) \<noteq> IMGDIFF2"
  shows "backed_up src u \<or> patched (l_sha (e_libs L)) (target_name src tgt) sha (u_world u')"
proof (cases "backed_up src u")
  case nb: False
  let ?ev = "EvaluateValue (install_natives L (device_natives gen))" and ?st = "initial_state L scr u"
  let ?argv = "map string_lit [src, tgt, sha, size_str] @ rest"
  have cookie: "backed_up src (cookie ?st) = backed_up src u" by (simp add: initial_state_def backed_up_def pipe_def)
  from run obtain s st where ev: "Evaluate ?ev root ?st = Some (Some s, st)"
    and u': "u_world u' = u_world (cookie st)" by (auto simp: run_script_def pipe_def split: bind_splits option.splits)
  from ev obtain v where "?ev root ?st = Some (Some v, st)"
    by (auto simp: Evaluate_def split: bind_splits option.splits if_splits)
  then have "AssertFn ?ev name ?st [Expr (NativeF ''ApplyPatchFn'') ''apply_patch'' ?argv b e] = Some (Some v, st)"
    unfolding root EvaluateValue.simps call_fn_def Function.case .
  then obtain s1 where "Evaluate ?ev (Expr (NativeF ''ApplyPatchFn'') ''apply_patch'' ?argv b e) ?st = Some (Some s1, st)" "s1 \<noteq> []"
    by (rule AssertFn_single)
  then obtain v1 where v1: "?ev (Expr (NativeF ''ApplyPatchFn'') ''apply_patch'' ?argv b e) ?st = Some (Some v1, st)" "vdata v1 \<noteq> []"
    by (auto simp: Evaluate_def split: bind_splits option.splits if_splits)
  have fn: "(''ApplyPatchFn'', ApplyPatchFn L) \<in> set (install_functions L)" by (simp add: install_functions_def)
  have "ApplyPatchFn L (\<lambda>a. a) ''apply_patch'' ?st (map ?ev ?argv) = Some (Some v1, st)"
    using v1(1) unfolding EvaluateValue.simps call_fn_def Function.case install_natives_fn [OF fn] .
  moreover have "ReadArgs (\<lambda>a. a) ?st (map ?ev ?argv) 4 = Some (Some [src, tgt, sha, size_str], ?st)"
    unfolding ReadArgs_apply using ReadVarArgs_lit [of _ ?st "[src, tgt, sha, size_str]"] by (simp add: ReadArgs_def)
  ultimately obtain patches st2 strs ps n where p: "ReadValueVarArgs (\<lambda>a. a) ?st (drop 4 (map ?ev ?argv)) = Some (Some patches, st2)"
    "set ps \<subseteq> set patches"
    "applypatch (e_libs L) src tgt sha n strs ps None (e_source L) (e_copy L) (u_world (cookie st2)) = Some (0, u_world (cookie st))"
    using v1(2) nb cookie by (elim ApplyPatchFn_success) auto
  from p(1) have "ReadValueVarArgs ?ev ?st rest = Some (Some patches, st2)"
    unfolding drop_map ReadValueVarArgs_apply by simp
  with p(2) bs have "\<And>v. v \<in> set ps \<Longrightarrow> take 8 (value_bytes v) \<noteq> IMGDIFF2" by blast
  from applypatch_file_digest [OF p(3) t this] show ?thesis by (auto simp: patched_def u')
qed simp

text \<open>An example: a patch that an extension of the device delivers.\<close>

definition patch_gen :: "unit generated" where
  "patch_gen = sample_gen\<lparr>device_natives := \<lambda>m name st args. Some (Some sample_patch, st)\<rparr>"

definition patch_args :: "Expr list" where
  "patch_args = [string_lit ''0500000000000000000000000000000000000000'', Expr (NativeF ''PatchFn'') ''patch'' [] 0 0]"

definition patch_script :: Expr where
  "patch_script = Expr AssertF ''assert'' [Expr (NativeF ''ApplyPatchFn'') ''apply_patch''
     (map string_lit [''/system/a'', ''-'', ''0708000000000000000000000000000000000000'', ''2''] @ patch_args) 0 0] 0 0"

lemma patch_native: "install_natives L device ''PatchFn'' name st as = device ''PatchFn'' name st as"
  by (simp add: install_natives_def install_functions_def)

lemma patch_args_values:
  "ReadValueVarArgs (EvaluateValue (install_natives L (device_natives patch_gen))) st patch_args
     = Some (Some [string_value ''0500000000000000000000000000000000000000'', sample_patch], st)"
  by (simp add: patch_args_def call_fn_def Literal_def patch_native patch_gen_def string_value_def)

lemma sample_env_sel: "e_libs sample_env = sample_libs" "e_source sample_env = blank_contents" "e_copy sample_env = blank_contents"
  by (simp_all add: sample_env_def)

lemma patch_call:
  assumes "sample_apply [] = Some (0, w')" "u_world (cookie st) = sample_system []" "bakfiles (cookie st) = []"
  shows "ApplyPatchFn sample_env (EvaluateValue (install_natives sample_env (device_natives patch_gen))) ''apply_patch'' st
      (map string_lit [''/system/a'', ''-'', ''0708000000000000000000000000000000000000'', ''2''] @ patch_args)
    = Some (Some (string_value ''t''), st\<lparr>cookie := (cookie st)\<lparr>u_world := w'\<rparr>\<rparr>)"
proof -
  let ?ev = "EvaluateValue (install_natives sample_env (device_natives patch_gen))"
  let ?four = "[''/system/a'', ''-'', ''0708000000000000000000000000000000000000'', ''2'']"
  have four: "ReadArgs ?ev st (map string_lit ?four @ patch_args) 4 = Some (Some ?four, st)"
    using ReadVarArgs_lit [of _ st ?four] by (simp add: ReadArgs_def)
  have len: "length (map string_lit ?four @ patch_args) = 6" by (simp add: patch_args_def)
  have rest: "drop 4 (map string_lit ?four @ patch_args) = patch_args" by simp
  have size2: "strtol10 ''2'' = (2, [])" by code_simp
  have pairs: "patch_pairs ''apply_patch'' 0 [string_value ''0500000000000000000000000000000000000000'', sample_patch]
    = Inr ([''0500000000000000000000000000000000000000''], [sample_patch])"
    by (simp add: sample_patch_def)
  show ?thesis
    unfolding ApplyPatchFn_def len four rest
    by (simp add: size2 patch_args_values pairs backed_up_def assms conclude_def in_world_opt_def sample_env_sel ret_def del: patch_pairs.simps)
qed

theorem asserted_patch_witness:
  "\<exists>u'. run_script sample_env patch_gen [] patch_script sample_updater = Some (0, u')
     \<and> patched sample_sha ''/system/a'' ''0708000000000000000000000000000000000000'' (u_world u')"
proof -
  let ?ev = "EvaluateValue (install_natives sample_env (device_natives patch_gen))"
  let ?st = "initial_state sample_env [] sample_updater"
  let ?argv = "map string_lit [''/system/a'', ''-'', ''0708000000000000000000000000000000000000'', ''2''] @ patch_args"
  from sample_success obtain w' where w': "sample_apply [] = Some (0, w')" by auto
  have st: "u_world (cookie ?st) = sample_system []" "bakfiles (cookie ?st) = []"
    by (simp_all add: initial_state_def sample_env_def sample_os_def sample_updater_def)
  have fn: "(''ApplyPatchFn'', ApplyPatchFn sample_env) \<in> set (install_functions sample_env)" by (simp add: install_functions_def)
  have "?ev (Expr (NativeF ''ApplyPatchFn'') ''apply_patch'' ?argv 0 0) ?st
    = ApplyPatchFn sample_env ?ev ''apply_patch'' ?st ?argv"
    unfolding EvaluateValue.simps call_fn_def Function.case install_natives_fn [OF fn] by (rule ApplyPatchFn_apply)
  then have "?ev (Expr (NativeF ''ApplyPatchFn'') ''apply_patch'' ?argv 0 0) ?st
    = Some (Some (string_value ''t''), ?st\<lparr>cookie := (cookie ?st)\<lparr>u_world := w'\<rparr>\<rparr>)"
    unfolding patch_call [OF w' st] .
  then have "Evaluate ?ev patch_script ?st = Some (Some [], ?st\<lparr>cookie := (cookie ?st)\<lparr>u_world := w'\<rparr>\<rparr>)"
    unfolding patch_script_def Evaluate_def EvaluateValue.simps(1) [of _ AssertF] call_fn_def Function.case AssertFn.simps
    by (simp add: BooleanString_def del: EvaluateValue.simps)
  then obtain u' where run: "run_script sample_env patch_gen [] patch_script sample_updater = Some (0, u')"
    by (simp add: run_script_def)
  have b: "take 8 (value_bytes v) \<noteq> IMGDIFF2" if "ReadValueVarArgs ?ev st patch_args = Some (Some patches, st')" "v \<in> set patches" for st patches st' v
    using that sample_patch_head(1) not_image unfolding patch_args_values by (auto simp: value_bytes_def IMGDIFF2_def)
  have "\<not> backed_up ''/system/a'' sample_updater" by (simp add: backed_up_def sample_updater_def)
  with asserted_patch [OF run patch_script_def _ _ b] run show ?thesis
    by (simp add: target_name_def is_partition_def CACHE_TEMP_SOURCE_def strncmp_def sample_env_sel sample_libs_def)
qed

end
