(* ===== verification/UpdaterBackup.thy ===== *)
theory UpdaterBackup
  imports UpdaterPatch
begin

text \<open>
  The backup table: what \<open>collect_backup_data\<close> finds in a directory, and that the files in it are left alone by \<open>apply_patch\<close>.
\<close>

section \<open>Collecting\<close>

text \<open>\<open>calm u u'\<close>: the files are the same, all system calls go on to succeed, and the table has grown.\<close>

definition calm :: "'f updater \<Rightarrow> 'f updater \<Rightarrow> bool" where
  "calm u u' \<longleftrightarrow> u_world u' = u_world u \<and> set (bakfiles u) \<subseteq> set (bakfiles u')"

lemma calm_refl [simp]: "calm u u"
  by (simp add: calm_def)

lemma calm_trans: "calm u u1 \<Longrightarrow> calm u1 u2 \<Longrightarrow> calm u u2"
  by (auto simp: calm_def)

lemma push_backup_calm: "push_backup path u = Some u' \<Longrightarrow> calm u u' \<and> path \<in> set (bakfiles u')"
  by (auto simp: push_backup_def calm_def split: if_splits)

lemma collect_call:
  "answers (u_world u) = [] \<Longrightarrow> collect_backup_data root path None u =
     (case lookup_file (u_world u) path of
        None \<Rightarrow> Some (0, u)
      | Some f \<Rightarrow> if is_dir f then collect_backup_data root path (Some (list_dir (u_world u) path)) u else Some (0, u))"
  by (simp add: in_world_def sys_ok_plain readdir_all_plain split: option.split)

text \<open>One turn of the loop: the entry is passed over, entered, put into the table, or too long.\<close>

lemma collect_turn:
  assumes "collect_backup_data root path (Some (d_name # names)) u = Some (r, u')"
  obtains (pass) "collect_backup_data root path (Some names) u = Some (r, u')"
      "lookup_file (u_world u) (path @ ''/'' @ d_name) = None \<or> d_name = ''.'' \<or> d_name = ''..''"
  | (enter) r1 u1 f where "lookup_file (u_world u) (path @ ''/'' @ d_name) = Some f" "has_dir_bit f"
      "collect_backup_data root (path @ ''/'' @ d_name) None u = Some (r1, u1)"
      "collect_backup_data root path (Some names) u1 = Some (r, u')" "\<not> PATH_MAX \<le> length (path @ ''/'' @ d_name)" "\<not> (d_name = ''..'' \<or> d_name = ''.'')"
  | (push) u1 f where "lookup_file (u_world u) (path @ ''/'' @ d_name) = Some f" "\<not> has_dir_bit f"
      "push_backup (drop (length root) (path @ ''/'' @ d_name)) u = Some u1" "collect_backup_data root path (Some names) u1 = Some (r, u')"
  | (long) f where "lookup_file (u_world u) (path @ ''/'' @ d_name) = Some f" "PATH_MAX \<le> length (path @ ''/'' @ d_name)" "u' = u"
  using assms unfolding collect_backup_data.simps(3) Let_def
  by (auto simp del: collect_backup_data.simps append_Cons append_Nil split: option.splits if_splits)

lemma collect_calm:
  "collect_backup_data root path job u = Some (r, u') \<Longrightarrow> answers (u_world u) = [] \<Longrightarrow> calm u u'"
proof (induction root path job u arbitrary: r u' rule: collect_backup_data.induct)
  case (1 root path u)
  have "in_world sys_ok u = (True, u)" "in_world (readdir_all path) u = (list_dir (u_world u) path, u)"
    by (simp_all add: in_world_def sys_ok_plain readdir_all_plain 1(3))
  with 1 show ?case by (auto split: option.splits if_splits)
next
  case (3 root path d_name names u)
  let ?p = "path @ ''/'' @ d_name"
  from 3(6) show ?case
  proof (cases rule: collect_turn)
    case pass
    then show ?thesis
    proof (cases "lookup_file (u_world u) ?p")
      case None
      from 3(1) [OF refl None pass(1) 3(7)] show ?thesis .
    next
      case (Some f)
      with pass have n: "d_name = ''..'' \<or> d_name = ''.''" by auto
      show ?thesis
      proof (cases "has_dir_bit f")
        case True
        from 3(2) [OF refl Some True n pass(1) 3(7)] show ?thesis .
      next
        case False
        with 3(6) Some obtain u1 where u1: "push_backup (drop (length root) ?p) u = Some u1"
          "collect_backup_data root path (Some names) u1 = Some (r, u')"
          by (auto simp: Let_def simp del: append_Cons append_Nil split: option.splits)
        from push_backup_calm [OF u1(1)] have c: "calm u u1" by simp
        then have "answers (u_world u1) = []" using 3(7) by (simp add: calm_def)
        from calm_trans [OF c 3(5) [OF refl Some False u1(1) u1(2) this]] show ?thesis .
      qed
    qed
  next
    case (enter r1 u1 f)
    from 3(3) [OF refl enter(1,2,6,5,3) 3(7)] have c: "calm u u1" .
    then have "answers (u_world u1) = []" using 3(7) by (simp add: calm_def)
    from calm_trans [OF c 3(4) [OF refl enter(1,2,6,5) enter(3) refl enter(4) this]] show ?thesis .
  next
    case (push u1 f)
    from push_backup_calm [OF push(3)] have c: "calm u u1" by simp
    then have "answers (u_world u1) = []" using 3(7) by (simp add: calm_def)
    from calm_trans [OF c 3(5) [OF refl push(1-3) push(4) this]] show ?thesis .
  qed simp
qed simp


text \<open>What one pass over the names of a directory does for each of them.\<close>

lemma collect_names:
  assumes "collect_backup_data root path (Some names) u = Some (r, u')" "answers (u_world u) = []" "short_paths (u_world u)"
    and "d_name \<in> set names" "lookup_file (u_world u) (path @ ''/'' @ d_name) = Some f"
  shows "(\<not> has_dir_bit f \<longrightarrow> d_name \<noteq> ''.'' \<longrightarrow> d_name \<noteq> ''..'' \<longrightarrow> drop (length root) (path @ ''/'' @ d_name) \<in> set (bakfiles u'))
    \<and> (has_dir_bit f \<longrightarrow> d_name \<noteq> ''.'' \<longrightarrow> d_name \<noteq> ''..'' \<longrightarrow>
        (\<exists>r1 u1 u2. collect_backup_data root (path @ ''/'' @ d_name) None u1 = Some (r1, u2) \<and> u_world u1 = u_world u
           \<and> set (bakfiles u2) \<subseteq> set (bakfiles u')))"
  using assms
proof (induction names arbitrary: u)
  case (Cons n names)
  have short: "lookup_file (u_world u) q = Some g \<Longrightarrow> length q < PATH_MAX" for q g
    using Cons.prems(3) by (simp add: short_paths_def)
  have rest: ?case if "collect_backup_data root path (Some names) u1 = Some (r, u')" "u_world u1 = u_world u" "d_name \<in> set names" for u1
    using Cons.IH [OF that(1)] Cons.prems that by simp
  from Cons.prems(1) show ?case
  proof (cases rule: collect_turn)
    case pass
    with Cons.prems(4,5) rest show ?thesis by auto
  next
    case (enter r1 u1 g)
    from collect_calm [OF enter(3)] Cons.prems(2) have c: "calm u u1" by simp
    then have w: "u_world u1 = u_world u" by (simp add: calm_def)
    from collect_calm [OF enter(4)] Cons.prems(2) w have c2: "calm u1 u'" by simp
    show ?thesis
    proof (cases "d_name = n")
      case True
      with enter(1,2,3) Cons.prems(5) c2 show ?thesis by (auto simp: calm_def)
    next
      case False
      with Cons.prems(4) rest [OF enter(4) w] show ?thesis by simp
    qed
  next
    case (push u1 g)
    note c = push_backup_calm [OF push(3)]
    then have w: "u_world u1 = u_world u" by (simp add: calm_def)
    from collect_calm [OF push(4)] Cons.prems(2) w have c2: "calm u1 u'" by simp
    show ?thesis
    proof (cases "d_name = n")
      case True
      with push(1,2) Cons.prems(5) c c2 show ?thesis by (auto simp: calm_def)
    next
      case False
      with Cons.prems(4) rest [OF push(4) w] show ?thesis by simp
    qed
  next
    case (long g)
    with short show ?thesis by fastforce
  qed
qed simp

text \<open>A file below a directory, by the names on the way to it.\<close>

fun path_of :: "string \<Rightarrow> string list \<Rightarrow> string" where
  "path_of path [] = path"
| "path_of path (n # ns) = path_of (path @ ''/'' @ n) ns"

definition name_ok :: "string \<Rightarrow> bool" where
  "name_ok n \<longleftrightarrow> CHR ''/'' \<notin> set n \<and> n \<noteq> ''.'' \<and> n \<noteq> ''..''"

fun backup_file :: "'f world \<Rightarrow> string \<Rightarrow> string list \<Rightarrow> bool" where
  "backup_file w path [] \<longleftrightarrow> False"
| "backup_file w path [n] \<longleftrightarrow>
     name_ok n \<and> (case lookup_file w (path @ ''/'' @ n) of None \<Rightarrow> False | Some f \<Rightarrow> \<not> has_dir_bit f)"
| "backup_file w path (n # m # ns) \<longleftrightarrow>
     name_ok n \<and> (case lookup_file w (path @ ''/'' @ n) of None \<Rightarrow> False | Some f \<Rightarrow> is_dir f) \<and> backup_file w (path @ ''/'' @ n) (m # ns)"

lemma is_dir_bit: "is_dir f \<Longrightarrow> has_dir_bit f"
proof -
  assume "is_dir f"
  then have "f_mode f AND S_IFMT = S_IFDIR" by (simp add: is_dir_def)
  moreover have "f_mode f AND 0x4000 = (f_mode f AND S_IFMT) AND 0x4000" by (simp add: S_IFMT_def and.assoc)
  ultimately show ?thesis by (simp add: has_dir_bit_def S_IFDIR_def)
qed

lemma collected:
  assumes "collect_backup_data root path None u = Some (r, u')" "answers (u_world u) = []" "short_paths (u_world u)"
    and "lookup_file (u_world u) path = Some d" "is_dir d" "backup_file (u_world u) path ns"
  shows "drop (length root) (path_of path ns) \<in> set (bakfiles u')"
  using assms
proof (induction "u_world u" path ns arbitrary: u u' r d rule: backup_file.induct)
  case (2 path n)
  then obtain f where f: "lookup_file (u_world u) (path @ ''/'' @ n) = Some f" "\<not> has_dir_bit f" "name_ok n"
    by (auto split: option.splits simp del: append_Cons append_Nil)
  have "collect_backup_data root path (Some (list_dir (u_world u) path)) u = Some (r, u')"
    using 2(1,4,5) unfolding collect_call [OF 2(2)] by simp
  moreover have "n \<in> set (list_dir (u_world u) path)" using f list_dir_complete [of "u_world u" path n] by (simp add: name_ok_def)
  ultimately show ?case using collect_names [OF _ 2(2,3) _ f(1)] f by (auto simp: name_ok_def)
next
  case (3 path n m ns)
  then obtain f where f: "lookup_file (u_world u) (path @ ''/'' @ n) = Some f" "is_dir f" "name_ok n"
      "backup_file (u_world u) (path @ ''/'' @ n) (m # ns)"
    by (auto split: option.splits simp del: append_Cons append_Nil)
  have "collect_backup_data root path (Some (list_dir (u_world u) path)) u = Some (r, u')"
    using 3(2,5,6) unfolding collect_call [OF 3(3)] by simp
  moreover have "n \<in> set (list_dir (u_world u) path)" using f list_dir_complete [of "u_world u" path n] by (simp add: name_ok_def)
  ultimately obtain r1 u1 u2 where u1: "collect_backup_data root (path @ ''/'' @ n) None u1 = Some (r1, u2)" "u_world u1 = u_world u"
    "set (bakfiles u2) \<subseteq> set (bakfiles u')"
    using collect_names [OF _ 3(3,4) _ f(1)] is_dir_bit [OF f(2)] f(3) unfolding name_ok_def by blast
  have "drop (length root) (path_of (path @ ''/'' @ n) (m # ns)) \<in> set (bakfiles u2)"
    by (rule 3(1) [OF u1(2) [symmetric] u1(1)]) (use 3(3,4) f u1(2) in simp_all)
  with u1(3) show ?case by auto
qed simp

text \<open>C32: after \<open>collect_backup_data(root)\<close> in a system whose calls succeed, \<open>apply_patch\<close> of a file that has a copy anywhere in the tree
  of \<open>root\<close> returns true without a change to any file, whatever its other arguments are.\<close>

theorem backed_up_skipped:
  assumes c: "CollectBackupDataFn L given name st [root] = Some (Some v, st1)"
    and w: "answers (u_world (cookie st)) = []" "short_paths (u_world (cookie st))" "lookup_file (u_world (cookie st)) root = Some d" "is_dir d"
    and f: "backup_file (u_world (cookie st)) root ns"
    and a: "ReadArgs ev st1 argv 4 = Some (Some [drop (length root) (path_of root ns), tgt, sha, size_str], st1)" "6 \<le> length argv" "even (length argv)"
  shows "\<exists>st2. ApplyPatchFn L ev name2 st1 argv = Some (Some (string_value ''t''), st2) \<and> u_world (cookie st2) = u_world (cookie st)"
proof -
  from c obtain r u where u: "collect_backup_data root root None (cookie st) = Some (r, u)" "st1 = st\<lparr>cookie := u\<rparr>"
    by (auto simp: CollectBackupDataFn_def with_args_given conclude_def ret_def simp del: collect_backup_data.simps split: bind_splits)
  from collected [OF u(1) w f] have "backed_up (drop (length root) (path_of root ns)) (cookie st1)"
    by (auto simp: backed_up_def u(2) strncmp_eq_0)
  moreover have "u_world u = u_world (cookie st)" using collect_calm [OF u(1) w(1)] by (simp add: calm_def)
  ultimately show ?thesis using a u(2)
    by (auto simp: ApplyPatchFn_def conclude_def ret_def pipe_def even_iff_mod_2_eq_zero)
qed

definition bak_inode :: "int \<Rightarrow> inode" where
  "bak_inode mode = \<lparr>f_data = [], f_mode = mode, f_uid = 0, f_gid = 0, f_reg = True\<rparr>"

definition bak_world :: "unit world" where
  "bak_world = \<lparr>files = [(''/bak'', bak_inode 0x4000), (''/bak/system'', bak_inode 0x4000), (''/bak/system/a'', bak_inode 0x8000)],
     procs = [], answers = [], mtd_partitions_scanned = False, flash = ()\<rparr>"

definition bak_state :: "unit updater State" where
  "bak_state = initial_state sample_env [] (sample_updater\<lparr>u_world := bak_world\<rparr>)"

lemma bak_state_world: "u_world (cookie bak_state) = bak_world" "bakfiles (cookie bak_state) = []"
  by (simp_all add: bak_state_def initial_state_def sample_env_def sample_os_def sample_updater_def)

lemma bak_world_short: "short_paths bak_world"
  by (simp add: short_paths_def bak_world_def lookup_file_def PATH_MAX_def)

lemma bak_world_file: "backup_file bak_world ''/bak'' [''system'', ''a'']"
  by (simp add: bak_world_def lookup_file_def name_ok_def bak_inode_def is_dir_def has_dir_bit_def S_IFMT_def S_IFDIR_def)

lemma bak_collect:
  "\<exists>u. collect_backup_data ''/bak'' ''/bak'' None (cookie bak_state) = Some (0, u)"
  by (simp add: in_world_def sys_ok_def answer_def bak_state_world bak_world_def lookup_file_def list_dir_def readdir_all_def sys_amount_def
      bak_inode_def is_dir_def has_dir_bit_def S_IFMT_def S_IFDIR_def push_backup_def PATH_MAX_def)

theorem backed_up_skipped_witness:
  "\<exists>v st1 st2. CollectBackupDataFn sample_env given ''collect_backup_data'' bak_state [''/bak''] = Some (Some v, st1)
    \<and> ApplyPatchFn sample_env given ''apply_patch'' st1 [''/system/a'', ''-'', ''x'', ''2'', ''y'', ''z''] = Some (Some (string_value ''t''), st2)
    \<and> u_world (cookie st2) = bak_world"
proof -
  from bak_collect obtain u where "collect_backup_data ''/bak'' ''/bak'' None (cookie bak_state) = Some (0, u)" ..
  then have c: "CollectBackupDataFn sample_env given ''collect_backup_data'' bak_state [''/bak''] = Some (Some (string_value ''t''), bak_state\<lparr>cookie := u\<rparr>)"
    by (simp add: CollectBackupDataFn_def with_args_given conclude_def ret_def del: collect_backup_data.simps)
  have d: "lookup_file bak_world ''/bak'' = Some (bak_inode 0x4000)" "is_dir (bak_inode 0x4000)"
    by (simp_all add: bak_world_def lookup_file_def bak_inode_def is_dir_def S_IFMT_def S_IFDIR_def)
  have p: "drop (length ''/bak'') (path_of ''/bak'' [''system'', ''a'']) = ''/system/a''" by simp
  have args: "ReadArgs given st [''/system/a'', ''-'', ''x'', ''2'', ''y'', ''z''] 4 = Some (Some [''/system/a'', ''-'', ''x'', ''2''], st)" for st :: "unit updater State"
    by (subst ReadArgs_given) simp_all
  from backed_up_skipped [OF c, unfolded bak_state_world, OF _ bak_world_short d bak_world_file, unfolded p, OF _ args]
  show ?thesis using c by (auto simp: bak_world_def)
qed

end
