(* ===== verification/UpdaterMain.thy ===== *)
theory UpdaterMain
  imports UpdaterContract ZipImage
begin

text \<open>
  The program as a whole: the script that it runs is the one in the package.
\<close>

section \<open>The script of a package\<close>

text \<open>What the data of a member stands for.\<close>

definition member_content :: "'i inflater \<Rightarrow> ('i \<Rightarrow> buffer \<Rightarrow> buffer \<Rightarrow> bool) \<Rightarrow> member \<Rightarrow> buffer \<Rightarrow> bool" where
  "member_content zl stream g plain \<longleftrightarrow> length plain = mb_len g
     \<and> (mb_how g = STORED \<and> plain = mb_data g
        \<or> mb_how g = DEFLATED \<and> (\<exists>z. zi_init zl = Some z \<and> stream z (mb_data g) plain))"

text \<open>The command line of the program: the version of the interface, the descriptor of the pipe and the package.\<close>

definition command_line :: "string list \<Rightarrow> string \<Rightarrow> bool" where
  "command_line argv path \<longleftrightarrow> length argv = 4 \<and> (argv ! 1 = ''1'' \<or> argv ! 1 = ''2'' \<or> argv ! 1 = ''3'') \<and> argv ! 3 = path"

lemma read_member:
  assumes "represents m e g" "member_content zl stream g plain" "inflates zl stream" "z_fd a = Some m"
    and "entryOffset e + compLen e \<le> length m" "length buf = mb_len g" "answers w = []"
  shows "mzReadZipEntry zl a e buf (mb_len g) w = Some (True, plain, w)"
proof -
  have "entry_content zl stream m e plain"
    using assms(1,2,5) by (auto simp: entry_content_def represents_def member_content_def)
  from mzReadZipEntry_content [OF assms(3,4) this, of "mb_len g" buf w] assms(2,6,7) show ?thesis
    by (auto simp: member_content_def)
qed

text \<open>C10: for a package that is the image of an archive with a member for the script, stored or deflated, and when no system call fails,
  the program parses exactly the contents of that member. With an error of the parser it exits with code 6; otherwise the exit code is that of
  running the parsed script, where the interpreter sees the contents as the text of the script and the opened archive as the package.\<close>

theorem updater_runs_package_script:
  fixes w :: "'f world"
  assumes fs: "fs \<noteq> []" "length fs < 65536" "\<forall>f \<in> set fs. member_ok f" "distinct (map mb_name fs)"
    and len: "length (zip_image fs comment) < 2 ^ 32"
    and last: "\<forall>i. eocd_position fs < i \<longrightarrow> i + ENDHDR \<le> length (zip_image fs comment) \<longrightarrow> \<not> end_marker_at (zip_image fs comment) i"
    and f: "lookup_file w path = Some f" "f_data f = zip_image fs comment" "answers w = []"
    and g: "g \<in> set fs" "mb_name g = SCRIPT_NAME" "member_content (e_inflater L) stream g plain" "inflates (e_inflater L) stream"
    and c: "command_line argv path" "os_fdopen (e_os L) (fst (strtol10 (argv ! 2)))" "configure gen = Some t"
  shows "\<exists>u. u_world u = w \<and> cmd_pipe u = [] \<and> bakfiles u = [] \<and> mzOpenZipArchive (\<lambda>_. True) path w = Some (0, package_zip u, w)
    \<and> updater_main L gen argv w =
        (case yyparse gen t (takeWhile (\<lambda>c. c \<noteq> CHR 0x00) (chars plain)) of (error, n, root) \<Rightarrow>
           if error \<noteq> 0 \<or> 0 < n then Some (6, u) else run_script L gen (chars plain) root u)"
proof -
  let ?m = "zip_image fs comment"
  obtain a es where a: "mzOpenZipArchive (\<lambda>_. True) path w = Some (0, a, w)" "z_pEntries a = Some es" "length es = length fs"
    and found: "\<forall>g \<in> set fs. \<exists>i < length es. mzFindZipEntry a (mb_name g) = Some (Some i) \<and> represents ?m (es ! i) g"
    using zip_image_found [OF fs len last _ f, of "\<lambda>_. True"] by blast
  from found g(1,2) obtain i where i: "i < length es" "mzFindZipEntry a SCRIPT_NAME = Some (Some i)" "represents ?m (es ! i) g" by force
  have inv: "z_fd a = Some ?m" "entryOffset (es ! i) + compLen (es ! i) \<le> length ?m"
  proof -
    have "z_fd a = Some ?m \<and> archive_inv ?m a" using mzOpenZipArchive_total [of "\<lambda>_. True" path w] a(1) f(1,2) by auto
    moreover from this a(2) i(1) have "entry_ok ?m (es ! i)" by (auto simp: archive_inv_def)
    ultimately show "z_fd a = Some ?m" "entryOffset (es ! i) + compLen (es ! i) \<le> length ?m" by (simp_all add: entry_ok_def)
  qed
  let ?n = "mb_len g" and ?u = "\<lparr>u_world = w, package_zip = a, cmd_pipe = [], bakfiles = [], u_mounts = g_mounts_state\<rparr> :: 'f updater"
  let ?buf = "take ?n (os_stack (e_os L) @ replicate ?n 0)"
  have lb: "length ?buf = ?n" by simp
  note r = read_member [OF i(3) g(3,4) inv lb f(3)]
  have n: "mzGetZipEntryUncompLen (es ! i) = ?n" using i(3) by (simp add: mzGetZipEntryUncompLen_def represents_def)
  have e: "package_entry a SCRIPT_NAME = Some (Some (es ! i))" by (simp add: package_entry_def i(2) a(2))
  show ?thesis
    by (rule exI [of _ ?u]) (use c in \<open>auto simp: updater_main_def command_line_def a(1) e n r Let_def simp del: take_append split: prod.split\<close>)
qed

section \<open>Example\<close>

definition script_member :: member where
  "script_member = \<lparr>mb_name = SCRIPT_NAME, mb_data = [34, 34], mb_how = STORED, mb_len = 2, mb_crc = 5, mb_time = 0, mb_attr = 0\<rparr>"

definition plain_env :: "(buffer, unit, buffer, unit, unit, unit, nat option) env" where
  "plain_env = \<lparr>e_libs = sample_libs, e_inflater = plain_inflater, e_os = sample_os, e_source = blank_contents, e_copy = blank_contents\<rparr>"

lemma script_image:
  "member_ok script_member" "length (zip_image [script_member] []) < 2 ^ 32"
  "length (zip_image [script_member] []) = eocd_position [script_member] + 22"
  by (simp_all add: script_member_def SCRIPT_NAME_def member_ok_def validFilename_def ZipParse.PATH_MAX_def STORED_def zip_image_def eocd_position_def
      LOCHDR_def CENHDR_def ENDHDR_def)

theorem updater_runs_package_script_witness:
  "\<exists>u. updater_main plain_env sample_gen [''updater'', ''3'', ''5'', ''/u.zip''] (zip_world (zip_image [script_member] [])) = Some (0, u)
    \<and> cmd_pipe u = ''ui_print script succeeded: result was []'' @ newline"
proof -
  let ?m = "zip_image [script_member] []" and ?f = "\<lparr>f_data = zip_image [script_member] [], f_mode = 0, f_uid = 0, f_gid = 0, f_reg = True\<rparr>"
  have w: "lookup_file (zip_world ?m) ''/u.zip'' = Some ?f" "answers (zip_world ?m) = []" by (simp_all add: zip_world_def lookup_file_def)
  have last: "\<forall>i. eocd_position [script_member] < i \<longrightarrow> i + ENDHDR \<le> length ?m \<longrightarrow> \<not> end_marker_at ?m i"
    using script_image(3) by (simp add: ENDHDR_def)
  have content: "member_content (e_inflater plain_env) plain_stream script_member [34, 34]"
    by (simp add: member_content_def script_member_def)
  have "\<And>t. RegisterDeviceExtensions sample_gen t = register_all [] t" by (simp add: sample_gen_def)
  from configure_found [OF this] obtain t where t: "configure sample_gen = Some t" by auto
  have y: "yyparse sample_gen t s = (0, 0, Expr LiteralF [] [] 0 0)" for s by (simp add: sample_gen_def)
  have s: "\<exists>u'. run_script plain_env sample_gen scr (Expr LiteralF [] [] 0 0) u = Some (0, u')
      \<and> cmd_pipe u' = cmd_pipe u @ ''ui_print script succeeded: result was []'' @ newline" for scr u
    by (simp add: run_script_def Evaluate_def Literal_def call_fn_def initial_state_def plain_env_def sample_os_def VAL_STRING_def pipe_def)
  have "\<exists>u. u_world u = zip_world ?m \<and> cmd_pipe u = [] \<and> bakfiles u = [] \<and> mzOpenZipArchive (\<lambda>_. True) ''/u.zip'' (zip_world ?m) = Some (0, package_zip u, zip_world ?m)
    \<and> updater_main plain_env sample_gen [''updater'', ''3'', ''5'', ''/u.zip''] (zip_world ?m) =
        (case yyparse sample_gen t (takeWhile (\<lambda>c. c \<noteq> CHR 0x00) (chars [34, 34])) of (error, n, root) \<Rightarrow>
           if error \<noteq> 0 \<or> 0 < n then Some (6, u) else run_script plain_env sample_gen (chars [34, 34]) root u)"
  proof (rule updater_runs_package_script [OF _ _ _ _ script_image(2) last w(1) _ w(2) _ _ content _ _ _ t])
    show "inflates (e_inflater plain_env) plain_stream" by (simp add: plain_env_def plain_inflates)
  qed (use script_image(1) in \<open>simp_all add: command_line_def plain_env_def sample_os_def script_member_def\<close>)
  then obtain u where u: "cmd_pipe u = []" "updater_main plain_env sample_gen [''updater'', ''3'', ''5'', ''/u.zip''] (zip_world ?m)
      = run_script plain_env sample_gen (chars [34, 34]) (Expr LiteralF [] [] 0 0) u" unfolding y by auto
  from s [of "chars [34, 34]" u] u show ?thesis by simp
qed

end
