(* ===== verification/UpdaterText.thy ===== *)
theory UpdaterText
  imports UpdaterContract
begin

text \<open>
  What single functions of the updater compute: properties files, the stage that is kept across reboots, digests and symbolic
  links.
\<close>

section \<open>The stage\<close>

lemma takeWhile_take_stop:
  assumes "\<forall>x \<in> set s. P x" "\<not> P c" "length s \<le> n"
  shows "takeWhile P (take n (s @ c # ys)) = s"
proof (cases "n - length s")
  case 0
  with assms show ?thesis by (simp add: takeWhile_eq_all_conv)
next
  case (Suc m)
  with assms show ?thesis by (simp add: takeWhile_append2)
qed

lemma chars_take: "chars (take n bs) = take n (chars bs)"
  by (simp add: chars_def take_map)

lemma chars_zero: "chars [0] = [CHR 0x00]"
  by code_simp

lemma chars_append: "chars (as @ bs) = chars as @ chars bs"
  by (simp add: chars_def)

lemma write_at_plain:
  "answers w = [] \<Longrightarrow> lookup_file w path = Some f \<Longrightarrow>
     write_at path pos bs w = store_file w path (f\<lparr>f_data := overwrite (f_data f @ replicate (pos - length (f_data f)) 0) pos bs\<rparr>)"
  by (simp add: write_at_def sys_amount_def answer_def)

lemma overwrite_parts:
  assumes "pos \<le> length dat"
  shows "take pos (overwrite dat pos bs) = take pos dat" "drop pos (overwrite dat pos bs) = bs @ drop (pos + length bs) dat"
  using assms by (simp_all add: overwrite_def)

lemma open_existing_plain: "answers (u_world u) = [] \<Longrightarrow> lookup_file (u_world u) path = Some f \<Longrightarrow> open_existing path u = Some (f, u)"
  by (simp add: open_existing_def in_world_def sys_ok_def answer_def)

lemma GetStageFn_plain:
  assumes "answers (u_world (cookie st)) = []" "lookup_file (u_world (cookie st)) misc = Some f"
  shows "GetStageFn L given name st [misc] = Some (Some (string_value (takeWhile (\<lambda>c. c \<noteq> CHR 0x00)
    (chars (take 31 (take 32 (drop 832 (f_data f)) @ drop (length (take 32 (drop 832 (f_data f)))) (os_stack (e_os L))))))), st)"
  by (simp add: GetStageFn_def with_args_given conclude_def ret_def open_existing_plain [OF assms] in_world_def fread_plain [OF assms(1)]
      STAGE_OFFSET_def STAGE_SIZE_def del: take_append length_take)

text \<open>\<open>get_stage\<close> returns what \<open>set_stage\<close> has stored, cut at 31 characters, when the system calls succeed; the fields of the bootloader
  message before the stage and everything behind it are left as they were (a shorter file is filled up with zeros).\<close>

theorem stage_round_trip:
  assumes w: "answers (u_world (cookie st)) = []" "lookup_file (u_world (cookie st)) misc = Some f" and z: "CHR 0x00 \<notin> set stage"
  shows "\<exists>st1 st2 f1. SetStageFn L given n1 st [misc, stage] = Some (Some (string_value misc), st1)
    \<and> GetStageFn L given n2 st1 [misc] = Some (Some (string_value (take 31 stage)), st2)
    \<and> lookup_file (u_world (cookie st1)) misc = Some f1
    \<and> take 832 (f_data f1) = take 832 (f_data f @ replicate (832 - length (f_data f)) 0) \<and> drop 864 (f_data f1) = drop 864 (f_data f)"
proof -
  define s where "s = take 31 stage"
  define dat where "dat = f_data f @ replicate (832 - length (f_data f)) 0"
  define new where "new = overwrite dat 832 (bytes_of s @ [0])"
  let ?w = "store_file (u_world (cookie st)) misc (f\<lparr>f_data := new\<rparr>)"
  let ?st1 = "st\<lparr>cookie := (cookie st)\<lparr>u_world := ?w\<rparr>\<rparr>"
  have off: "STAGE_OFFSET = 832" by (simp add: STAGE_OFFSET_def)
  have set: "SetStageFn L given n1 st [misc, stage] = Some (Some (string_value misc), ?st1)"
    unfolding SetStageFn_def
    by (simp add: with_args_given conclude_def ret_def open_existing_plain [OF w] write_at_plain [OF w] s_def STAGE_SIZE_def off dat_def new_def Let_def)
  have len: "832 \<le> length dat" by (simp add: dat_def)
  have s: "length s \<le> 31" "CHR 0x00 \<notin> set s" using z by (auto simp: s_def dest: in_set_takeD)
  note parts = overwrite_parts [OF len, of "bytes_of s @ [0]", folded new_def]
  have got: "take 32 (drop 832 new) = (bytes_of s @ [0]) @ take (31 - length s) (drop (833 + length s) dat)"
  proof -
    have "32 - length s = Suc (31 - length s)" using s(1) by simp
    then show ?thesis unfolding parts(2) by (simp add: add.commute)
  qed
  have get: "takeWhile (\<lambda>c. c \<noteq> CHR 0x00) (chars (take 31 (take 32 (drop 832 new) @ rest))) = s" for rest
  proof -
    have "chars (take 31 (take 32 (drop 832 new) @ rest))
      = take 31 (s @ CHR 0x00 # chars (take (31 - length s) (drop (833 + length s) dat) @ rest))"
      unfolding got chars_take chars_append chars_bytes_of chars_zero by simp
    then show ?thesis using s by (simp only:) (rule takeWhile_take_stop, auto)
  qed
  have w1: "answers (u_world (cookie ?st1)) = []" "lookup_file (u_world (cookie ?st1)) misc = Some (f\<lparr>f_data := new\<rparr>)" using w by simp_all
  have "GetStageFn L given n2 ?st1 [misc] = Some (Some (string_value s), ?st1)"
  proof -
    have "f_data (f\<lparr>f_data := new\<rparr>) = new" by simp
    then show ?thesis unfolding GetStageFn_plain [OF w1] by (simp only: get)
  qed
  moreover have "drop 864 new = drop 864 (f_data f)"
  proof -
    have "drop 864 new = drop 32 (drop 832 new)" by simp
    also have "\<dots> = drop 864 dat" unfolding parts(2) using s(1) by (simp add: Suc_diff_le [of "length s" 31, simplified])
    finally show ?thesis by (simp add: dat_def)
  qed
  ultimately show ?thesis using set w1(2) parts(1) by (auto simp: s_def dat_def)
qed

section \<open>Properties files\<close>

text \<open>A file of properties: comments and definitions, with blanks around the key and the value.\<close>

datatype prop_line = Comment string | Prop string string string string string string

fun print_prop :: "prop_line \<Rightarrow> string" where
  "print_prop (Comment s) = ''#'' @ s"
| "print_prop (Prop a k b c v d) = a @ k @ b @ ''='' @ c @ v @ d"

definition print_props :: "prop_line list \<Rightarrow> string" where
  "print_props ps = concat (map (\<lambda>p. print_prop p @ newline) ps)"

definition one_line :: "string \<Rightarrow> bool" where
  "one_line s \<longleftrightarrow> CHR 0x0A \<notin> set s \<and> CHR 0x00 \<notin> set s"

definition trimmed :: "string \<Rightarrow> bool" where
  "trimmed s \<longleftrightarrow> s = [] \<or> \<not> isspace (hd s) \<and> \<not> isspace (last s)"

fun prop_ok :: "prop_line \<Rightarrow> bool" where
  "prop_ok (Comment s) \<longleftrightarrow> one_line s"
| "prop_ok (Prop a k b c v d) \<longleftrightarrow>
     list_all one_line [a, k, b, c, v, d] \<and> list_all (list_all isspace) [a, b, c, d]
     \<and> k \<noteq> [] \<and> hd k \<noteq> CHR ''#'' \<and> CHR ''='' \<notin> set k \<and> trimmed k \<and> trimmed v"

fun definition_of :: "prop_line \<Rightarrow> (string \<times> string) list" where
  "definition_of (Comment s) = []"
| "definition_of (Prop a k b c v d) = [(k, v)]"

lemma split_char_line: "d \<notin> set l \<Longrightarrow> split_char d (l @ d # r) = l # split_char d r"
  by (induction l) auto

lemma strtok_lines:
  assumes "list_all (\<lambda>l. CHR 0x0A \<notin> set l \<and> l \<noteq> []) ls"
  shows "strtok_all (CHR 0x0A) (concat (map (\<lambda>l. l @ newline) ls)) = ls"
  using assms by (induction ls) (simp_all add: strtok_all_def newline_def split_char_line)

lemma dropWhile_blanks: "list_all P a \<Longrightarrow> s = [] \<or> \<not> P (hd s) \<Longrightarrow> dropWhile P (a @ s) = s"
  by (induction a) (auto simp: dropWhile_eq_self_iff)

lemma trim_end_blanks: "list_all isspace d \<Longrightarrow> v = [] \<or> \<not> isspace (last v) \<Longrightarrow> trim_end (v @ d) = v"
  unfolding trim_end_def rev_append by (subst dropWhile_blanks) (auto simp: list_all_iff hd_rev)

lemma not_space [simp]: "\<not> isspace (CHR ''='')" "\<not> isspace (CHR ''#'')"
  by (simp_all add: isspace_def)

lemma blanks_no_equals: "list_all isspace b \<Longrightarrow> CHR ''='' \<notin> set b"
  using not_space by (auto simp: list_all_iff)

lemma print_prop_line: "prop_ok p \<Longrightarrow> CHR 0x0A \<notin> set (print_prop p) \<and> CHR 0x00 \<notin> set (print_prop p) \<and> print_prop p \<noteq> []"
  by (cases p) (auto simp: one_line_def)

text \<open>What the loop sees of a line.\<close>

lemma prop_lines_comment: "prop_lines key (print_prop (Comment s) # ls) = prop_lines key ls"
  by simp

lemma prop_lines_prop:
  assumes "prop_ok (Prop a k b c v d)"
  shows "prop_lines key (print_prop (Prop a k b c v d) # ls) = (if k = key then Inr v else prop_lines key ls)"
proof -
  let ?l = "k @ b @ ''='' @ c @ v @ d"
  have k: "k \<noteq> []" "\<not> isspace (hd k)" "\<not> isspace (last k)" "hd k \<noteq> CHR ''#''" "CHR ''='' \<notin> set (k @ b)" "list_all isspace b"
    using assms blanks_no_equals [of b] by (auto simp: trimmed_def)
  have l: "dropWhile isspace (print_prop (Prop a k b c v d)) = ?l"
    using dropWhile_blanks [of isspace a ?l] assms k(1,2) by simp
  have key: "trim_end (takeWhile (\<lambda>x. x \<noteq> CHR ''='') ?l) = k"
  proof -
    have "takeWhile (\<lambda>x. x \<noteq> CHR ''='') ?l = k @ b" using k(5) by (simp add: takeWhile_append takeWhile_eq_all_conv)
    then show ?thesis using trim_end_blanks [of b k] k by simp
  qed
  have val: "trim_end (dropWhile isspace (tl (dropWhile (\<lambda>x. x \<noteq> CHR ''='') ?l))) = v"
  proof -
    have "dropWhile (\<lambda>x. x \<noteq> CHR ''='') ?l = ''='' @ c @ v @ d" using k(5) by (simp add: dropWhile_append)
    moreover have "dropWhile isspace (c @ v @ d) = v @ (if v = [] then [] else d)"
      using assms by (cases v) (auto simp: dropWhile_append dropWhile_eq_Nil_conv list_all_iff trimmed_def)
    ultimately show ?thesis using trim_end_blanks [of d v] assms by (auto simp: trimmed_def trim_end_def)
  qed
  have "?l \<noteq> []" "hd ?l \<noteq> CHR ''#''" "CHR ''='' \<in> set ?l" using k by auto
  then show ?thesis unfolding prop_lines.simps Let_def l key val by simp
qed

lemma prop_lines_props:
  assumes "list_all prop_ok ps"
  shows "prop_lines key (map print_prop ps) = Inr (case map_of (concat (map definition_of ps)) key of None \<Rightarrow> [] | Some v \<Rightarrow> v)"
  using assms
proof (induction ps)
  case (Cons p ps)
  then show ?case using prop_lines_comment prop_lines_prop by (cases p) auto
qed simp


text \<open>C33: on a file of properties with comments and blanks, \<open>file_getprop\<close> returns the value of the first definition of the key, or the
  empty string when there is none, if the file has at least one line and at most 65536 bytes and the system calls succeed.\<close>

theorem file_getprop_value:
  assumes "list_all prop_ok ps" "ps \<noteq> []" "length (print_props ps) \<le> 65536"
    and w: "answers (u_world (cookie st)) = []" "lookup_file (u_world (cookie st)) path = Some f" "f_data f = bytes_of (print_props ps)"
    and m: "l_malloc_ok (e_libs L) (int (length (print_props ps)) + 1)"
  shows "FileGetPropFn L given name st [path, key]
    = Some (Some (string_value (case map_of (concat (map definition_of ps)) key of None \<Rightarrow> [] | Some v \<Rightarrow> v)), st)"
proof -
  have lines: "list_all (\<lambda>l. CHR 0x0A \<notin> set l \<and> l \<noteq> []) (map print_prop ps)"
    using assms(1) print_prop_line by (auto simp: list_all_iff)
  have "print_props ps = concat (map (\<lambda>l. l @ newline) (map print_prop ps))" by (simp add: print_props_def comp_def)
  with strtok_lines [OF lines] have tok: "strtok_all (CHR 0x0A) (print_props ps) = map print_prop ps" by simp
  have "CHR 0x00 \<notin> set (print_props ps)"
    using assms(1) print_prop_line by (auto simp: print_props_def newline_def list_all_iff)
  then have z: "takeWhile (\<lambda>c. c \<noteq> CHR 0x00) (print_props ps) = print_props ps" by (auto simp: takeWhile_eq_all_conv)
  from assms(2) have p: "file_getprop key (print_props ps)
    = Some (Inr (case map_of (concat (map definition_of ps)) key of None \<Rightarrow> [] | Some v \<Rightarrow> v))"
    unfolding file_getprop_def z tok prop_lines_props [OF assms(1)] by (simp add: Let_def prop_lines_props [OF assms(1)])
  have call: "sys_ok (u_world (cookie st)) = (True, u_world (cookie st))" using w(1) by (simp add: sys_ok_def answer_def)
  have short: "\<not> 65536 < length (print_props ps)" using assms(3) by simp
  show ?thesis
    unfolding FileGetPropFn_def
    by (simp add: with_args_given conclude_def in_world_def call w fread_plain [OF w(1)] MAX_FILE_GETPROP_SIZE_def short m p ret_def)
qed

section \<open>Digests\<close>

lemma alphabet: "n < 16 \<Longrightarrow> ''0123456789abcdef'' ! n = hex_char n"
proof -
  assume "n < 16"
  then have "n \<in> set [0..<16]" by simp
  moreover have "list_all (\<lambda>n. ''0123456789abcdef'' ! n = hex_char n) [0..<16]" by code_simp
  ultimately show ?thesis unfolding list_all_iff by blast
qed

lemma PrintSha1_hex: "PrintSha1 d = hex_string d"
proof (induction d)
  case (Cons b d)
  have "drop_bit 4 b AND 0xf = drop_bit 4 b"
    unfolding low_nibble by (rule bit_word_eqI) (auto simp: bit_simps dest: bit_imp_le_length)
  with Cons nibbles [of b] show ?case by (simp add: PrintSha1_def alphabet)
qed (simp add: PrintSha1_def)

lemma conclude_same: "conclude st (\<lambda>u. Some (Ret v, u)) = Some (Some v, st)"
  by (simp add: conclude_def)

text \<open>\<open>sha1_check\<close> of data alone returns the digest in a form that \<open>ParseSha1\<close> reads back; with further arguments it returns the first string among them
  that stands for the digest of the data, and the empty string exactly when there is none; for data that could not be
  read it returns the empty string. The state does not change.\<close>

theorem sha1_check_value:
  assumes a: "ReadValueVarArgs ev st argv = Some (Some (d # vs), st1)" "length argv = Suc (length vs)"
  shows "\<exists>v. Sha1CheckFn L ev name st argv = Some (Some v, st1)
    \<and> (vsize d < 0 \<longrightarrow> v = string_value [])
    \<and> (0 \<le> vsize d \<longrightarrow> vs = [] \<longrightarrow> length (SHA_hash (l_sha (e_libs L)) (value_bytes d)) = SHA_DIGEST_SIZE
         \<longrightarrow> ParseSha1 (vdata v) = Some (SHA_hash (l_sha (e_libs L)) (value_bytes d)))
    \<and> (0 \<le> vsize d \<longrightarrow> vs \<noteq> [] \<longrightarrow>
         (if \<exists>x \<in> set vs. vtype x = VAL_STRING \<and> ParseSha1 (vdata x) = Some (SHA_hash (l_sha (e_libs L)) (value_bytes d))
          then v \<in> set vs \<and> vtype v = VAL_STRING \<and> ParseSha1 (vdata v) = Some (SHA_hash (l_sha (e_libs L)) (value_bytes d))
          else v = string_value []))"
proof -
  let ?digest = "SHA_hash (l_sha (e_libs L)) (value_bytes d)"
  let ?P = "\<lambda>x. vtype x = VAL_STRING \<and> ParseSha1 (vdata x) = Some ?digest"
  define v where "v = (if vsize d < 0 then string_value [] else if vs = [] then string_value (PrintSha1 ?digest)
    else case List.find ?P vs of None \<Rightarrow> string_value [] | Some v \<Rightarrow> v)"
  have argv: "argv \<noteq> []" "length argv = 1 \<longleftrightarrow> vs = []" using a(2) by auto
  have "Sha1CheckFn L ev name st argv = Some (Some v, st1)"
    unfolding Sha1CheckFn_def using argv
    by (simp add: a(1) v_def matching_digest_def ret_def conclude_same split: option.split)
  moreover have "ParseSha1 (vdata v) = Some ?digest" if "0 \<le> vsize d" "vs = []" "length ?digest = SHA_DIGEST_SIZE"
    using that parse_hex_string [of ?digest "[]"] by (simp add: v_def string_value_def PrintSha1_hex ParseSha1_def)
  moreover have "vsize d < 0 \<Longrightarrow> v = string_value []" by (simp add: v_def)
  moreover have "if \<exists>x \<in> set vs. ?P x then v \<in> set vs \<and> ?P v else v = string_value []" if "0 \<le> vsize d" "vs \<noteq> []"
    using that by (auto simp: v_def find_None_iff find_Some_iff split: option.split)
  ultimately show ?thesis by (intro exI [of _ v] conjI impI)
qed

section \<open>Symbolic links\<close>

definition link_to :: "string \<Rightarrow> inode" where
  "link_to target = \<lparr>f_data = bytes_of target, f_mode = 0xA1FF, f_uid = 0, f_gid = 0, f_reg = False\<rparr>"

definition keeps :: "'f world \<Rightarrow> 'f world \<Rightarrow> bool" where
  "keeps w w' \<longleftrightarrow> (\<forall>q f. lookup_file w q = Some f \<longrightarrow> lookup_file w' q = Some f)"

lemma keeps_trans: "keeps w w1 \<Longrightarrow> keeps w1 w2 \<Longrightarrow> keeps w w2"
  by (simp add: keeps_def)

lemma sys_ok_keeps: "sys_ok w = (b, w1) \<Longrightarrow> keeps w w1"
  using sys_ok_files [of w b w1] by (simp add: keeps_def lookup_file_def)

lemma mkdir_errno_keeps: "keeps w (snd (mkdir_errno path mode w))"
proof -
  obtain b w1 where s: "sys_ok w = (b, w1)" by fastforce
  from sys_ok_keeps [OF s] show ?thesis
    by (auto simp: mkdir_errno_def mkdir_def s keeps_def split: prod.split)
qed

lemma make_parents_keeps: "keeps w (snd (make_parents name w))"
proof (induction name w rule: make_parents.induct)
  case (1 name w)
  define p where "p = last_slash name (length name - 1)"
  show ?case
  proof (cases "p = 0")
    case True
    then show ?thesis by (subst make_parents.simps) (simp add: p_def Let_def keeps_def)
  next
    case False
    obtain r w1 where m: "make_parents (take p name) w = (r, w1)" by fastforce
    with 1 [OF p_def] False have k: "keeps w w1" by simp
    have k2: "keeps w w2" if "mkdir_errno (take p name) 0x1C0 w1 = (e, w2)" for e w2
      using keeps_trans [OF k mkdir_errno_keeps, of "take p name" "0x1C0"] that by simp
    show ?thesis
      unfolding make_parents.simps [of name w] Let_def p_def [symmetric] m using False k k2 by (auto split: prod.split)
  qed
qed

lemma symlink_made:
  assumes "symlink (bytes_of target) path w = (True, w')"
  shows "lookup_file w' path = Some (link_to target)" "keeps w w'"
proof -
  obtain b w1 where s: "sys_ok w = (b, w1)" by fastforce
  with assms sys_ok_keeps [OF s] show "lookup_file w' path = Some (link_to target)" "keeps w w'"
    by (auto simp: symlink_def link_to_def keeps_def split: if_splits)
qed

text \<open>One link: what is counted as bad, and the file that is made.\<close>

lemma make_links_step:
  obtains k w' where "make_links target (src # srcs) bad w = make_links target srcs (bad + k) w'"
    "k = 0 \<Longrightarrow> lookup_file w' src = Some (link_to target)" "\<And>q f. q \<noteq> src \<Longrightarrow> lookup_file w q = Some f \<Longrightarrow> lookup_file w' q = Some f"
proof -
  obtain e w1 where u: "unlink_errno src w = (e, w1)" by fastforce
  obtain r w2 where p: "make_parents src w1 = (r, w2)" by fastforce
  obtain l w3 where l: "symlink (bytes_of target) src w2 = (l, w3)" by fastforce
  define k where "k = (if e \<noteq> 0 \<and> e \<noteq> nat DirUtil.ENOENT then 1 else 0) + (if r \<noteq> 0 then 1 else 0) + (if l then 0 else 1 :: nat)"
  have 1: "q \<noteq> src \<Longrightarrow> lookup_file w q = Some f \<Longrightarrow> lookup_file w1 q = Some f" for q f
    using u by (auto simp: unlink_errno_def unlink_def sys_ok_def split: prod.splits if_splits dest!: answer_files simp: lookup_file_def delete_file_def map_of_filter_ne)
  have 2: "keeps w1 w2" using make_parents_keeps [of w1 src] p by simp
  have 3: "keeps w2 w3"
  proof -
    obtain b w4 where s: "sys_ok w2 = (b, w4)" by fastforce
    with l sys_ok_keeps [OF s] show ?thesis by (auto simp: symlink_def keeps_def split: if_splits)
  qed
  have "make_links target (src # srcs) bad w = make_links target srcs (bad + k) w3"
    by (simp add: u p l k_def Let_def)
  moreover have "k = 0 \<Longrightarrow> lookup_file w3 src = Some (link_to target)"
    using l symlink_made(1) [of target src w2 w3] by (cases l) (auto simp: k_def)
  moreover have "q \<noteq> src \<Longrightarrow> lookup_file w q = Some f \<Longrightarrow> lookup_file w3 q = Some f" for q f
    using 1 2 3 unfolding keeps_def by blast
  ultimately show ?thesis by (rule that)
qed

lemma make_links_bad: "bad \<le> fst (make_links target srcs bad w)"
proof (induction srcs arbitrary: bad w)
  case (Cons src srcs)
  obtain k w' where "make_links target (src # srcs) bad w = make_links target srcs (bad + k) w'" by (rule make_links_step)
  with Cons.IH [of "bad + k" w'] show ?case by simp
qed simp

lemma make_links_made:
  assumes "fst (make_links target srcs bad w) = bad" "make_links target srcs bad w = (b, w')"
    and "s \<in> set srcs \<or> lookup_file w s = Some (link_to target)"
  shows "lookup_file w' s = Some (link_to target)"
  using assms
proof (induction srcs arbitrary: bad w)
  case (Cons src srcs)
  obtain k w1 where s: "make_links target (src # srcs) bad w = make_links target srcs (bad + k) w1"
    "k = 0 \<Longrightarrow> lookup_file w1 src = Some (link_to target)" "\<And>q f. q \<noteq> src \<Longrightarrow> lookup_file w q = Some f \<Longrightarrow> lookup_file w1 q = Some f"
    by (rule make_links_step) blast
  from make_links_bad [of "bad + k" target srcs w1] Cons.prems(1) have k: "k = 0" unfolding s(1) by simp
  show ?case
  proof (rule Cons.IH)
    show "fst (make_links target srcs bad w1) = bad" "make_links target srcs bad w1 = (b, w')"
      using Cons.prems(1,2) unfolding s(1) k by simp_all
    show "s \<in> set srcs \<or> lookup_file w1 s = Some (link_to target)"
      using Cons.prems(3) s(2) [OF k] s(3) [of s] by (cases "s = src") auto
  qed
qed simp

text \<open>When \<open>symlink(target, ...)\<close> returns a value, every one of its other arguments is a symbolic link to the target afterwards, whatever
  was there before and whatever the system calls answered.\<close>

theorem symlink_made_all:
  assumes "SymlinkFn L given name st (target # srcs) = Some (Some v, st')" "s \<in> set srcs"
  shows "lookup_file (u_world (cookie st')) s = Some (link_to target)"
proof -
  obtain bad w' where m: "make_links target srcs 0 (u_world (cookie st)) = (bad, w')" by fastforce
  with assms(1) have "bad = 0" "u_world (cookie st') = w'"
    by (auto simp: SymlinkFn_def with_var_args_given conclude_def in_world_def fail_def ret_def split: if_splits)
  with make_links_made [of target srcs 0 "u_world (cookie st)" bad w' s] m assms(2) show ?thesis by simp
qed


section \<open>Examples\<close>

definition text_state :: "(string \<times> buffer) list \<Rightarrow> unit updater State" where
  "text_state fs = initial_state sample_env [] (sample_updater\<lparr>u_world :=
     \<lparr>files = map (\<lambda>(p, d). (p, \<lparr>f_data = d, f_mode = 0x81A4, f_uid = 0, f_gid = 0, f_reg = True\<rparr>)) fs,
      procs = [], answers = [], mtd_partitions_scanned = False, flash = ()\<rparr>\<rparr>)"

lemma text_state_world: "answers (u_world (cookie (text_state fs))) = []"
  "lookup_file (u_world (cookie (text_state [(p, d)]))) p = Some \<lparr>f_data = d, f_mode = 0x81A4, f_uid = 0, f_gid = 0, f_reg = True\<rparr>"
  by (simp_all add: text_state_def initial_state_def sample_env_def sample_os_def lookup_file_def)

theorem stage_round_trip_witness:
  "CHR 0x00 \<notin> set ''2/3'' \<and> (\<exists>st1 st2. SetStageFn sample_env given ''set_stage'' (text_state [(''/misc'', [7])]) [''/misc'', ''2/3'']
      = Some (Some (string_value ''/misc''), st1)
    \<and> GetStageFn sample_env given ''get_stage'' st1 [''/misc''] = Some (Some (string_value ''2/3''), st2))"
  using stage_round_trip [OF text_state_world, of "''2/3''" sample_env "''set_stage''" "''/misc''" "[7]" "''get_stage''"] by auto

definition sample_props :: "prop_line list" where
  "sample_props = [Comment '' begin'', Prop [] ''ro.build'' '' '' '' '' ''7 x'' [], Prop '' '' ''a'' [] [] [] []]"

theorem file_getprop_value_witness:
  "list_all prop_ok sample_props \<and> FileGetPropFn sample_env given ''file_getprop'' (text_state [(''/p'', bytes_of (print_props sample_props))]) [''/p'', ''ro.build'']
    = Some (Some (string_value ''7 x''), text_state [(''/p'', bytes_of (print_props sample_props))])"
proof -
  have p: "list_all prop_ok sample_props" by code_simp
  have "length (print_props sample_props) = 27" by code_simp
  moreover have "map_of (concat (map definition_of sample_props)) ''ro.build'' = Some ''7 x''" by code_simp
  ultimately show ?thesis
    using p file_getprop_value [OF p _ _ text_state_world, where L = sample_env and name = "''file_getprop''" and key = "''ro.build''"]
    by (simp add: sample_env_def sample_libs_def sample_props_def)
qed

theorem sha1_check_value_witness:
  "\<exists>v. Sha1CheckFn sample_env given ''sha1_check'' (text_state []) [''ab'', ''zz''] = Some (Some v, text_state []) \<and> v = string_value []"
proof -
  let ?a = "string_value ''ab''" and ?z = "string_value ''zz''"
  have a: "ReadValueVarArgs given (text_state []) [''ab'', ''zz''] = Some (Some [?a, ?z], text_state [])"
    by (simp add: given_def string_value_def)
  have "ParseSha1 ''zz'' = None" by code_simp
  with sha1_check_value [OF a, of sample_env "''sha1_check''"] show ?thesis by (auto simp: string_value_def)
qed

theorem symlink_made_all_witness:
  "\<exists>v st'. SymlinkFn sample_env given ''symlink'' (text_state [(''/b'', [1])]) [''t'', ''/b''] = Some (Some v, st')
    \<and> lookup_file (u_world (cookie st')) ''/b'' = Some (link_to ''t'')"
proof -
  have "last_slash ''/b'' (length ''/b'' - 1) = 0" by code_simp
  then have p: "make_parents ''/b'' w = (0, w)" for w :: "unit world" by (subst make_parents.simps) (simp only: Let_def simp_thms if_True)
  have "\<exists>v st'. SymlinkFn sample_env given ''symlink'' (text_state [(''/b'', [1])]) [''t'', ''/b''] = Some (Some v, st')"
    by (simp add: SymlinkFn_def with_var_args_given conclude_def in_world_def ret_def p unlink_errno_def unlink_def symlink_def sys_ok_def answer_def
        text_state_world)
  then obtain v st' where s: "SymlinkFn sample_env given ''symlink'' (text_state [(''/b'', [1])]) [''t'', ''/b''] = Some (Some v, st')" by blast
  with symlink_made_all [OF s] show ?thesis by simp
qed

end
