(* ===== verification/SignedPackage.thy ===== *)
theory SignedPackage
  imports Verifier ZipImage LoadKeys
begin

text \<open>
  Packages for the verifier and the archive reader together: the two agree on the place of the end record, and a small package
  with an update binary that both accept.
\<close>

section \<open>The end record\<close>

lemma eocd_marker_ENDSIG: "le_nat eocd_marker = ENDSIG"
  by (simp add: eocd_marker_def ENDSIG_def)

lemma le_nat_inject: "length a = length b \<Longrightarrow> le_nat a = le_nat b \<Longrightarrow> a = b"
  by (metis le_bytes_le_nat)

lemma last_eocd_none:
  assumes "last_eocd d pos" "pos < i" "i + ENDHDR \<le> length d"
  shows "\<not> end_marker_at d i"
proof -
  have "take 4 (drop i d) \<noteq> eocd_marker" using assms by (simp add: last_eocd_def ENDHDR_def)
  moreover have "length (take 4 (drop i d)) = length eocd_marker" using assms(3) by (simp add: eocd_marker_def ENDHDR_def)
  ultimately have "le_nat (take 4 (drop i d)) \<noteq> ENDSIG" using le_nat_inject eocd_marker_ENDSIG by metis
  then show ?thesis by (simp add: end_marker_at_def rd4_Some)
qed

lemma last_eocd_search:
  assumes "last_eocd d pos"
  shows "search_eocd d (length d - ENDHDR) = Some (Some pos)"
proof (rule search_eocd_last)
  show "pos + ENDHDR \<le> length d" using assms by (simp add: last_eocd_def ENDHDR_def EOCD_HEADER_SIZE_def)
  then show "end_marker_at d pos"
    using assms eocd_marker_ENDSIG by (simp add: last_eocd_def end_marker_at_def rd4_Some ENDHDR_def)
qed (rule last_eocd_none [OF assms])

section \<open>A signed package with one member\<close>

lemma zip_image_comment: "zip_image fs c = take (eocd_position fs + 20) (zip_image fs []) @ le_bytes 2 (length c) @ c"
  by (simp add: zip_image_def end_record_def eocd_position_def)

lemma drop_eocd_position: "drop (eocd_position fs) (zip_image fs c) = end_record (length fs) (length (central_part 0 fs)) (length (local_parts fs)) c"
  by (simp add: zip_image_def eocd_position_def)

lemma le_bytes_2: "le_bytes 2 v = [word_of_nat (v mod 256), word_of_nat (v div 256 mod 256)]"
  by (simp add: numeral_2_eq_2)

lemma le_bytes_4:
  "le_bytes 4 v = [word_of_nat (v mod 256), word_of_nat (v div 256 mod 256), word_of_nat (v div 256 div 256 mod 256),
     word_of_nat (v div 256 div 256 div 256 mod 256)]"
proof -
  have "4 = Suc (Suc (Suc (Suc 0)))" by simp
  then show ?thesis by (simp only: le_bytes.simps)
qed

lemma le_bytes_0: "le_bytes n 0 = replicate n 0"
  by (induction n) simp_all

definition ASSUMED_UPDATE_BINARY_NAME :: string where
  "ASSUMED_UPDATE_BINARY_NAME = ''META-INF/com/google/android/update-binary''"

definition binary_member :: member where
  "binary_member = \<lparr>mb_name = ASSUMED_UPDATE_BINARY_NAME, mb_data = [7], mb_how = STORED, mb_len = 1, mb_crc = 5, mb_time = 0, mb_attr = 0\<rparr>"

lemma binary_image:
  "member_ok binary_member" "length (zip_image [binary_member] []) = 181" "eocd_position [binary_member] = 159"
  by (simp_all add: binary_member_def ASSUMED_UPDATE_BINARY_NAME_def member_ok_def validFilename_def PATH_MAX_def STORED_def zip_image_def eocd_position_def
      LOCHDR_def CENHDR_def ENDHDR_def)

definition package_body :: buffer where
  "package_body = take (eocd_position [binary_member] + 20) (zip_image [binary_member] [])"

definition package_comment :: buffer where
  "package_comment = sample_block (take 20 package_body) @ [57, 0, 0xff, 0xff, 57, 0]"

lemma package_length: "length package_body = 179" "length package_comment = 57"
  "zip_image [binary_member] package_comment = signed_package package_body (sample_block (take 20 package_body))"
proof -
  show l: "length package_body = 179" using binary_image by (simp add: package_body_def)
  then have b: "length (sample_block (take 20 package_body)) = 51" by (intro sample_block_length) simp
  then show c: "length package_comment = 57" by (simp add: package_comment_def)
  show "zip_image [binary_member] package_comment = signed_package package_body (sample_block (take 20 package_body))"
    unfolding zip_image_comment [of _ package_comment] package_body_def [symmetric] c signed_package_def b
    by (simp add: package_comment_def le_bytes_2)
qed

lemma package_start: "take 20 package_body = [0x50, 0x4b, 3, 4] @ replicate 16 0"
proof -
  have "package_body = take 179 (le_bytes 4 LOCSIG @ replicate 22 0 @ r)" if "zip_image [binary_member] [] = le_bytes 4 LOCSIG @ replicate 22 0 @ r" for r
    using that binary_image(3) by (simp add: package_body_def)
  moreover have "\<exists>r. zip_image [binary_member] [] = le_bytes 4 LOCSIG @ replicate 22 0 @ r"
    by (simp add: zip_image_def local_part_def le_bytes_0)
  ultimately obtain r where r: "package_body = take 179 (le_bytes 4 LOCSIG @ replicate 22 0 @ r)" by blast
  show ?thesis unfolding r by (simp add: le_bytes_4 LOCSIG_def)
qed

lemma package_record: "last_eocd (zip_image [binary_member] package_comment) 159"
proof -
  have "length (central_part 0 [binary_member]) = 87" "length (local_parts [binary_member]) = 72"
    by (simp_all add: binary_member_def ASSUMED_UPDATE_BINARY_NAME_def central_header_def local_part_def bytes_of_def)
  then have d: "drop 159 (zip_image [binary_member] package_comment)
      = [0x50, 0x4b, 5, 6, 0, 0, 0, 0, 1, 0, 1, 0, 87, 0, 0, 0, 72, 0, 0, 0, 57, 0] @ sample_block ([0x50, 0x4b, 3, 4] @ replicate 16 0) @ [57, 0, 0xff, 0xff, 57, 0]"
    using drop_eocd_position [of "[binary_member]" package_comment] package_length(2) package_start
    by (simp add: binary_image(3) end_record_def le_bytes_2 le_bytes_4 ENDSIG_def package_comment_def)
  show ?thesis by (rule marker_in_record [OF refl], unfold d) code_simp+
qed
lemma package_found:
  assumes "lookup_file w path = Some f" "f_data f = zip_image [binary_member] package_comment" "answers w = []"
  obtains a e where "mzOpenZipArchive (\<lambda>_. True) path w = Some (0, a, w)" "z_pEntries a = Some [e]"
    "mzFindZipEntry a ASSUMED_UPDATE_BINARY_NAME = Some (Some 0)" "represents (zip_image [binary_member] package_comment) e binary_member"
proof -
  let ?d = "zip_image [binary_member] package_comment"
  have len: "length ?d = 238" using package_length by (simp add: signed_package_def sample_block_length)
  have "\<not> end_marker_at ?d i" if "159 < i" "i + ENDHDR \<le> length ?d" for i
    using last_eocd_none [OF package_record that] .
  then have "\<exists>a es. mzOpenZipArchive (\<lambda>_. True) path w = Some (0, a, w) \<and> z_pEntries a = Some es
      \<and> length es = length [binary_member] \<and> (\<forall>g \<in> set [binary_member]. \<exists>i < length es.
        mzFindZipEntry a (mb_name g) = Some (Some i) \<and> represents ?d (es ! i) g)"
    by (intro zip_image_found [where f = f]) (use binary_image assms len in simp_all)
  then obtain a es where a: "mzOpenZipArchive (\<lambda>_. True) path w = Some (0, a, w)" "z_pEntries a = Some es" "length es = 1"
    "mzFindZipEntry a ASSUMED_UPDATE_BINARY_NAME = Some (Some 0)" "represents ?d (es ! 0) binary_member"
    by (auto simp: binary_member_def)
  then have "es = [es ! 0]" by (auto simp: length_Suc_conv)
  with a show thesis by (metis that)
qed

lemma sample_keys_read:
  assumes "lookup_file w path = Some f" "f_data f = bytes_of (print_keys sample_specs @ [CHR 0x0A])" "answers w = []"
  shows "load_keys sample_crypto (\<lambda>_. True) (\<lambda>_. True) path w = Some (Some (map (cert_of sample_crypto) sample_specs), w)"
proof -
  have "\<forall>c \<in> set [CHR 0x0A]. isspace c" by (simp add: isspace_def)
  from load_loop_printed [where malloc_ok = "\<lambda>_. True" and realloc_ok = "\<lambda>_. True" and certs = "[]" and lib = sample_crypto, OF sample_specs_ok _ _ this]
  show ?thesis using assms by (simp add: load_keys_def sys_ok_def answer_def fread_def sys_amount_def)
qed

lemma package_accepted:
  assumes "lookup_file w path = Some f" "f_data f = zip_image [binary_member] package_comment" "answers w = []"
  shows "verify_file sample_crypto (\<lambda>_ _. True) (\<lambda>_. True) path (map (cert_of sample_crypto) sample_specs) w = Some (VERIFY_SUCCESS, w)"
proof (rule verify_file_signed [where k = "cert_of sample_crypto (EcSpec (replicate 32 1) (replicate 32 2))" and body = package_body, OF assms(1,3) _ _ sample_block_def])
  show "key_accepts sample_crypto (cert_of sample_crypto (EcSpec (replicate 32 1) (replicate 32 2))) package_body (take 20 package_body)"
    using package_length(1) by (simp add: key_accepts_def sample_crypto_def SHA256_DIGEST_SIZE_def SHA_DIGEST_SIZE_def SHA_hash_def sample_sha_def)
  show "f_data f = signed_package package_body (sample_block (take 20 package_body))" using assms(2) package_length(3) by simp
  show "last_eocd (f_data f) (length package_body - 20)" using package_record assms(2) package_length(1) by simp
qed (use package_length in \<open>auto simp: sample_block_length sample_crypto_absorbs key_ok_def sample_specs_def\<close>)

end
