(* ===== verification/InstallPackage.thy ===== *)
theory InstallPackage
  imports UpdaterMain UpdaterText SignedPackage
begin

text \<open>
  The installation of a package by the recovery, \<open>install.cpp\<close>: the keys are loaded, the signature is checked, the update binary
  is extracted and run, and the commands that it writes to the pipe are carried out. The process that is run is an
  argument: from its command line and the state of the system it makes the text on the pipe, the status for \<open>waitpid\<close> and a
  new state. Mounting a volume and the settings of the user interface are arguments too. What the user sees is a list
  of events.
\<close>

section \<open>State and environment\<close>

datatype ui_event =
  Print string | ShowProgress string int | SetProgress string | SetBackground string | SetProgressType string

record 'f recovery =
  r_world :: "'f world"
  r_ui :: "ui_event list"
  r_wipe_cache :: int
  r_perf_mode :: bool

record ('c, 'd, 'p, 'f, 'i) recovery_env =
  v_crypto :: "('c, 'd, 'p) crypto"
  v_inflater :: "'i inflater"
  v_ensure_path_mounted :: "string \<Rightarrow> 'f world \<Rightarrow> int \<times> 'f world"
  v_ensure_path_unmounted :: "string \<Rightarrow> 'f world \<Rightarrow> int \<times> 'f world"
  v_child :: "string list \<Rightarrow> 'f world \<Rightarrow> string \<times> nat \<times> 'f world"
  v_pipe :: nat
  v_zip_sigverif :: string
  v_fstab :: "string list option"
  v_calloc_ok :: "nat \<Rightarrow> nat \<Rightarrow> bool"
  v_malloc_ok :: "nat \<Rightarrow> bool"
  v_strerror :: "int \<Rightarrow> string"

definition INSTALL_SUCCESS :: int where "INSTALL_SUCCESS = 0"
definition INSTALL_ERROR :: int where "INSTALL_ERROR = 1"
definition INSTALL_CORRUPT :: int where "INSTALL_CORRUPT = 2"

definition PUBLIC_KEYS_FILE :: string where
  "PUBLIC_KEYS_FILE = ''/res/keys''"

definition show_ui :: "ui_event \<Rightarrow> 'f recovery \<Rightarrow> 'f recovery" where
  "show_ui e r = r\<lparr>r_ui := r_ui r @ [e]\<rparr>"

lemma show_ui_world [simp]: "r_world (show_ui e r) = r_world r"
  by (simp add: show_ui_def)

text \<open>\<open>LOGE\<close> prints to the user, through a buffer of 256 bytes.\<close>

definition loge :: "string \<Rightarrow> 'f recovery \<Rightarrow> 'f recovery" where
  "loge s r = show_ui (Print (take 255 (''E:'' @ s))) r"

definition set_perf_mode :: "bool \<Rightarrow> 'f recovery \<Rightarrow> 'f recovery" where
  "set_perf_mode enable r = r\<lparr>r_perf_mode := enable\<rparr>"

lemma other_world [simp]: "r_world (loge s r) = r_world r" "r_world (set_perf_mode b r) = r_world r"
  by (simp_all add: loge_def set_perf_mode_def)

section \<open>Commands from the update binary\<close>

text \<open>\<open>strtok\<close>: the next token and what is behind its delimiter.\<close>

definition strtok :: "string \<Rightarrow> string \<Rightarrow> (string \<times> string) option" where
  "strtok delims s =
     (let t = dropWhile (\<lambda>c. c \<in> set delims) s in
      if t = [] then None
      else Some (takeWhile (\<lambda>c. c \<notin> set delims) t, drop 1 (dropWhile (\<lambda>c. c \<notin> set delims) t)))"

definition do_command :: "string \<Rightarrow> 'f recovery \<Rightarrow> 'f recovery option" where
  "do_command buffer r =
     (case strtok ('' '' @ newline) buffer of
        None \<Rightarrow> Some r
      | Some (command, rest) \<Rightarrow>
          if command = ''progress'' then do {
            (fraction_s, rest) \<leftarrow> strtok ('' '' @ newline) rest;
            (seconds_s, _) \<leftarrow> strtok ('' '' @ newline) rest;
            Some (show_ui (ShowProgress fraction_s (to_int32 (fst (strtol10 seconds_s)))) r) }
          else if command = ''set_progress'' then do {
            (fraction_s, _) \<leftarrow> strtok ('' '' @ newline) rest;
            Some (show_ui (SetProgress fraction_s) r) }
          else if command = ''ui_print'' then
            Some (show_ui (Print (case strtok newline rest of Some (str, _) \<Rightarrow> str | None \<Rightarrow> newline)) r)
          else if command = ''wipe_cache'' then Some (r\<lparr>r_wipe_cache := 1\<rparr>)
          else if command = ''clear_display'' then Some (show_ui (SetBackground ''NONE'') r)
          else Some (loge (''unknown command ['' @ command @ '']'' @ newline) r))"

text \<open>\<open>fgets\<close>: up to a newline, or one character less than the size of the buffer.\<close>

definition fgets :: "nat \<Rightarrow> string \<Rightarrow> string" where
  "fgets n s =
     (if CHR 0x0A \<in> set (take (n - 1) s) then takeWhile (\<lambda>c. c \<noteq> CHR 0x0A) s @ newline else take (n - 1) s)"

lemma fgets_progress: "s \<noteq> [] \<Longrightarrow> 1 < n \<Longrightarrow> length (drop (length (fgets n s)) s) < length s"
  by (cases s) (auto simp: fgets_def newline_def)

function read_commands :: "string \<Rightarrow> 'f recovery \<Rightarrow> 'f recovery option" where
  "read_commands s r =
     (if s = [] then Some r
      else
        case do_command (takeWhile (\<lambda>c. c \<noteq> CHR 0x00) (fgets 1024 s)) r of
          None \<Rightarrow> None
        | Some r1 \<Rightarrow> read_commands (drop (length (fgets 1024 s)) s) r1)"
  by pat_completeness auto
termination
  by (relation "measure (\<lambda>(s, _). length s)") (auto dest: fgets_progress [where n = 1024])

declare read_commands.simps [simp del]

lemma read_commands_Nil: "read_commands [] r = Some r"
  by (simp add: read_commands.simps)

section \<open>Installing\<close>

definition WIFEXITED :: "nat \<Rightarrow> bool" where "WIFEXITED status \<longleftrightarrow> status mod 128 = 0"
definition WEXITSTATUS :: "nat \<Rightarrow> nat" where "WEXITSTATUS status = status div 256 mod 256"

definition binary_path :: string where
  "binary_path = ''/tmp/update_binary''"

definition try_update_binary ::
  "('c, 'd, 'p, 'f, 'i) recovery_env \<Rightarrow> string \<Rightarrow> ZipArchive \<Rightarrow> 'f recovery \<Rightarrow> (int \<times> 'f recovery) option" where
  "try_update_binary E path za r = do {
     binary_entry \<leftarrow> package_entry za ASSUMED_UPDATE_BINARY_NAME;
     case binary_entry of
       None \<Rightarrow> Some (INSTALL_CORRUPT, r)
     | Some e \<Rightarrow>
         (case creat binary_path 0x1ED (snd (unlink binary_path (r_world r))) of (opened, w) \<Rightarrow>
            if \<not> opened then Some (INSTALL_ERROR, loge (''Can't make '' @ binary_path @ newline) (r\<lparr>r_world := w\<rparr>))
            else do {
              (good, w) \<leftarrow> mzExtractZipEntryToFile (v_inflater E) za e binary_path w;
              let r = r\<lparr>r_world := w\<rparr>;
              if \<not> good then Some (INSTALL_ERROR, loge (''Can't copy '' @ ASSUMED_UPDATE_BINARY_NAME @ newline) r)
              else
                (case v_child E [binary_path, ''3'', dec_nat (v_pipe E), path] w of (from_child, status, w) \<Rightarrow> do {
                   r \<leftarrow> read_commands from_child (r\<lparr>r_world := w, r_wipe_cache := 0\<rparr>);
                   if \<not> WIFEXITED status \<or> WEXITSTATUS status \<noteq> 0 then
                     Some (INSTALL_ERROR,
                       if WEXITSTATUS status \<noteq> 7
                       then loge (''Installation error in '' @ path @ newline @ ''(Status '' @ dec_nat (WEXITSTATUS status) @ '')'' @ newline) r
                       else loge (''Please take note of all the above lines for reports'' @ newline) (loge (''Failed to install '' @ path @ newline) r))
                   else Some (INSTALL_SUCCESS, r) }) }) }"

text \<open>The path with the symbolic link of its first directory resolved. \<^term>\<open>None\<close> is a buffer that has no room for the end of
  the string.\<close>

definition readlink :: "string \<Rightarrow> 'f world \<Rightarrow> string option \<times> 'f world" where
  "readlink path w =
     (case sys_ok w of (good, w1) \<Rightarrow>
        case lookup_file w1 path of
          None \<Rightarrow> (None, w1)
        | Some f \<Rightarrow> (if good \<and> is_link f then Some (chars (take PATH_MAX (f_data f))) else None, w1))"

definition resolve_path :: "string \<Rightarrow> 'f world \<Rightarrow> (string \<times> 'f world) option" where
  "resolve_path path w =
     (let rest = dropWhile (\<lambda>c. c \<noteq> CHR ''/'') (tl path) in
      if length path \<le> 1 \<or> rest = [] then Some (path, w)
      else
        case readlink (take (length path - length rest) path) w of
          (None, w1) \<Rightarrow> Some (path, w1)
        | (Some target, w1) \<Rightarrow>
            if target = [] then Some (path, w1)
            else if PATH_MAX \<le> length target + length rest then None
            else Some (target @ rest, w1))"

text \<open>\<open>really_install_package\<close> in three steps: the check of the signature, the archive, and the whole.\<close>

definition check_signature ::
  "('c, 'd, 'p, 'f, 'i) recovery_env \<Rightarrow> string \<Rightarrow> 'p Certificate list \<Rightarrow> 'f recovery \<Rightarrow> (bool \<times> 'f recovery) option" where
  "check_signature E path loadedKeys r =
     (if v_zip_sigverif E \<noteq> ''0'' then do {
        let r = show_ui (Print (''Verifying update package...'' @ newline)) r;
        (err, w) \<leftarrow> verify_file (v_crypto E) (v_calloc_ok E) (v_malloc_ok E) path loadedKeys (r_world r);
        let r = r\<lparr>r_world := w\<rparr>;
        if err \<noteq> VERIFY_SUCCESS then
          Some (False, loge (newline @ ''If you want to install untrusted packages, please'' @ newline
              @ ''disable signature verification in Recovery Settings.'' @ newline)
            (loge (''signature verification failed'' @ newline) r))
        else Some (True, r) }
      else Some (True, show_ui (Print (''Skipping signature verification...'' @ newline)) r))"

definition open_and_run ::
  "('c, 'd, 'p, 'f, 'i) recovery_env \<Rightarrow> string \<Rightarrow> 'f recovery \<Rightarrow> (int \<times> 'f recovery) option" where
  "open_and_run E path r = do {
     (err, za, w) \<leftarrow> mzOpenZipArchive (v_malloc_ok E) path (r_world r);
     let r = r\<lparr>r_world := w\<rparr>;
     if err \<noteq> 0 then
       Some (INSTALL_CORRUPT, loge (''Can't open '' @ path @ newline @ ''(''
         @ (if err \<noteq> -1 then v_strerror E err else ''bad'') @ '')'' @ newline) r)
     else try_update_binary E path za (show_ui (Print (''Installing update...'' @ newline)) r) }"

definition really_install_package ::
  "('c, 'd, 'p, 'f, 'i) recovery_env \<Rightarrow> string \<Rightarrow> 'f recovery \<Rightarrow> (int \<times> 'f recovery) option" where
  "really_install_package E path r = do {
     let r = show_ui (SetBackground ''INSTALLING_UPDATE'') r;
     let r = show_ui (Print (''Finding update package...'' @ newline)) r;
     let r = show_ui (SetProgressType ''DETERMINATE'') r;
     let r = show_ui (ShowProgress ''0.25'' 60) r;
     (path, w) \<leftarrow> resolve_path path (r_world r);
     let (mounted, w) = v_ensure_path_mounted E path w;
     let r = r\<lparr>r_world := w\<rparr>;
     if mounted \<noteq> 0 then Some (INSTALL_CORRUPT, loge (''Can't mount '' @ path @ newline) r)
     else do {
       let r = show_ui (Print (''Opening update package...'' @ newline)) r;
       (loadedKeys, w) \<leftarrow> load_keys (v_crypto E) (v_malloc_ok E) (v_malloc_ok E) PUBLIC_KEYS_FILE (r_world r);
       let r = r\<lparr>r_world := w\<rparr>;
       case loadedKeys of
         None \<Rightarrow> Some (INSTALL_CORRUPT, loge (''Failed to load keys'' @ newline) r)
       | Some loadedKeys \<Rightarrow> do {
           (verified, r) \<leftarrow> check_signature E path loadedKeys (set_perf_mode True r);
           (result, r) \<leftarrow> (if verified then open_and_run E path r else Some (INSTALL_CORRUPT, r));
           Some (result, set_perf_mode False r) } } }"

text \<open>\<open>fopen_path\<close> for writing, with the call that opens the file, and \<open>setup_install_mounts\<close>.\<close>

definition fopen_path_for ::
  "('c, 'd, 'p, 'f, 'i) recovery_env \<Rightarrow> ('f world \<Rightarrow> bool \<times> 'f world) \<Rightarrow> string \<Rightarrow> 'f recovery \<Rightarrow> (bool \<times> 'f recovery) option" where
  "fopen_path_for E opener path r =
     (case v_ensure_path_mounted E path (r_world r) of (mounted, w) \<Rightarrow>
        if mounted \<noteq> 0 then Some (False, loge (''Can't mount '' @ path @ newline) (r\<lparr>r_world := w\<rparr>))
        else do {
          (_, w) \<leftarrow> dirCreateHierarchy (v_malloc_ok E) path 0x1FF False True w;
          case opener w of (opened, w) \<Rightarrow> Some (opened, r\<lparr>r_world := w\<rparr>) })"

definition fopen_path_w :: "('c, 'd, 'p, 'f, 'i) recovery_env \<Rightarrow> string \<Rightarrow> 'f recovery \<Rightarrow> (bool \<times> 'f recovery) option" where
  "fopen_path_w E path r = fopen_path_for E (creat path 0x1B6) path r"

fun mount_all :: "('c, 'd, 'p, 'f, 'i) recovery_env \<Rightarrow> string list \<Rightarrow> 'f world \<Rightarrow> int \<times> 'f world" where
  "mount_all E [] w = (0, w)"
| "mount_all E (p # ps) w =
     (if p = ''/tmp'' \<or> p = ''/cache'' then
        (case v_ensure_path_mounted E p w of (r, w1) \<Rightarrow> if r \<noteq> 0 then (-1, w1) else mount_all E ps w1)
      else mount_all E ps w)"

definition setup_install_mounts :: "('c, 'd, 'p, 'f, 'i) recovery_env \<Rightarrow> 'f recovery \<Rightarrow> int \<times> 'f recovery" where
  "setup_install_mounts E r =
     (case v_fstab E of
        None \<Rightarrow> (-1, loge (''can't set up install mounts: no fstab loaded'' @ newline) r)
      | Some ps \<Rightarrow> (case mount_all E ps (r_world r) of (result, w) \<Rightarrow> (result, r\<lparr>r_world := w\<rparr>)))"

text \<open>The log is written when it is closed.\<close>

definition install_package ::
  "('c, 'd, 'p, 'f, 'i) recovery_env \<Rightarrow> string \<Rightarrow> string \<Rightarrow> 'f recovery \<Rightarrow> (int \<times> 'f recovery) option" where
  "install_package E path install_file r = do {
     (install_log, r) \<leftarrow> fopen_path_w E install_file r;
     let r = (if install_log then r else loge (''failed to open last_install: '' @ v_strerror E 0 @ newline) r);
     (result, r) \<leftarrow> (case setup_install_mounts E r of (mounts, r) \<Rightarrow>
        if mounts \<noteq> 0 then Some (INSTALL_ERROR, loge (''failed to set up expected mounts for install; aborting'' @ newline) r)
        else really_install_package E path r);
     let r = (if install_log
              then r\<lparr>r_world := snd (append_file install_file
                       (bytes_of (path @ newline @ (if result = INSTALL_SUCCESS then ''1'' else ''0'') @ newline)) (r_world r))\<rparr>
              else r);
     Some (result, r) }"

section \<open>The protocol of the pipe\<close>

lemma fgets_newline: "CHR 0x0A \<notin> set l \<Longrightarrow> length l < 1023 \<Longrightarrow> fgets 1024 (l @ newline @ s) = l @ newline"
proof -
  assume a: "CHR 0x0A \<notin> set l" "length l < 1023"
  then obtain n where "1023 - length l = Suc n" by (metis Suc_diff_Suc)
  with a show ?thesis by (auto simp: fgets_def newline_def takeWhile_append)
qed

lemma read_commands_line:
  assumes "CHR 0x0A \<notin> set l" "CHR 0x00 \<notin> set l" "length l < 1023"
  shows "read_commands (l @ newline @ s) r = Option.bind (do_command (l @ newline) r) (read_commands s)"
proof -
  have "\<forall>c \<in> set (l @ newline). c \<noteq> CHR 0x00" using assms(2) by (auto simp: newline_def)
  then have "takeWhile (\<lambda>c. c \<noteq> CHR 0x00) (l @ newline) = l @ newline" by (simp only: takeWhile_eq_all_conv)
  moreover have "l @ newline @ s \<noteq> []" by (simp add: newline_def)
  moreover have "drop (length (l @ newline)) (l @ newline @ s) = s" by simp
  ultimately show ?thesis
    by (subst read_commands.simps)
       (simp only: fgets_newline [OF assms(1,3)] if_False, cases "do_command (l @ newline) r", simp_all only: option.case bind.simps)
qed

lemma strtok_token:
  assumes "t \<noteq> []" "\<forall>c \<in> set t. c \<notin> set delims" "d \<in> set delims"
  shows "strtok delims (t @ d # s) = Some (t, s)"
proof -
  have "dropWhile (\<lambda>c. c \<in> set delims) (t @ d # s) = t @ d # s" using assms(1,2) by (cases t) auto
  then show ?thesis using assms by (simp add: strtok_def Let_def takeWhile_append dropWhile_append)
qed

lemma do_ui_print:
  "l \<noteq> [] \<Longrightarrow> CHR 0x0A \<notin> set l \<Longrightarrow> do_command (''ui_print '' @ l @ newline) r = Some (show_ui (Print l) r)"
  "do_command (''ui_print'' @ newline) r = Some (show_ui (Print newline) r)"
proof -
  have c: "\<forall>c \<in> set ''ui_print''. c \<notin> set ('' '' @ newline)" by (simp add: newline_def)
  have 1: "strtok ('' '' @ newline) (''ui_print'' @ CHR '' '' # l @ newline) = Some (''ui_print'', l @ newline)"
    by (rule strtok_token [OF _ c]) simp_all
  have 2: "strtok ('' '' @ newline) (''ui_print'' @ CHR 0x0A # []) = Some (''ui_print'', [])"
    by (rule strtok_token [OF _ c]) (simp_all add: newline_def)
  show "do_command (''ui_print'' @ newline) r = Some (show_ui (Print newline) r)"
    using 2 by (simp add: do_command_def newline_def strtok_def)
  assume "l \<noteq> []" "CHR 0x0A \<notin> set l"
  then have "strtok newline (l @ CHR 0x0A # []) = Some (l, [])" by (intro strtok_token) (auto simp: newline_def)
  with 1 show "do_command (''ui_print '' @ l @ newline) r = Some (show_ui (Print l) r)"
    by (simp add: do_command_def newline_def)
qed

lemma strtok_all_lines: "l \<in> set (strtok_all d s) \<Longrightarrow> l \<noteq> [] \<and> d \<notin> set l \<and> set l \<subseteq> set s"
proof -
  have "d \<notin> set l \<and> set l \<subseteq> set s" if "l \<in> set (split_char d s)" for l
    using that by (induction s arbitrary: l) (fastforce split: if_splits list.splits)+
  then show "l \<in> set (strtok_all d s) \<Longrightarrow> l \<noteq> [] \<and> d \<notin> set l \<and> set l \<subseteq> set s" by (simp add: strtok_all_def)
qed

text \<open>Lines that arrive in one piece.\<close>

definition printable :: "string \<Rightarrow> bool" where
  "printable s \<longleftrightarrow> CHR 0x00 \<notin> set s \<and> list_all (\<lambda>l. length l \<le> 1013) (strtok_all (CHR 0x0A) s)"

lemma read_print_lines:
  "list_all (\<lambda>l. l \<noteq> [] \<and> CHR 0x0A \<notin> set l \<and> CHR 0x00 \<notin> set l \<and> length l \<le> 1013) ls
    \<Longrightarrow> read_commands (concat (map (\<lambda>l. ''ui_print '' @ l @ newline) ls) @ ''ui_print'' @ newline @ s) r
      = read_commands s (r\<lparr>r_ui := r_ui r @ map Print ls @ [Print newline]\<rparr>)"
proof (induction ls arbitrary: r)
  case Nil
  have "read_commands (''ui_print'' @ newline @ s) r = Option.bind (do_command (''ui_print'' @ newline) r) (read_commands s)"
    by (rule read_commands_line) simp_all
  then show ?case by (simp only: list.map concat.simps append_Nil do_ui_print(2)) (simp add: show_ui_def)
next
  case (Cons l ls)
  let ?t = "concat (map (\<lambda>l. ''ui_print '' @ l @ newline) ls) @ ''ui_print'' @ newline @ s"
  have "read_commands ((''ui_print '' @ l) @ newline @ ?t) r = Option.bind (do_command ((''ui_print '' @ l) @ newline) r) (read_commands ?t)"
    by (rule read_commands_line) (use Cons.prems in simp_all)
  also have "\<dots> = read_commands ?t (show_ui (Print l) r)"
    using Cons.prems do_ui_print(1) [of l r] by (simp only: append_assoc list.pred_inject) simp
  also have "\<dots> = read_commands s (r\<lparr>r_ui := r_ui r @ map Print (l # ls) @ [Print newline]\<rparr>)"
    using Cons by (simp add: show_ui_def)
  finally show ?case by simp
qed

lemma read_printed_text:
  assumes "printable m"
  shows "read_commands (concat (map (\<lambda>l. ''ui_print '' @ l @ newline) (strtok_all (CHR 0x0A) m)) @ ''ui_print'' @ newline @ s) r
      = read_commands s (r\<lparr>r_ui := r_ui r @ map Print (strtok_all (CHR 0x0A) m) @ [Print newline]\<rparr>)"
  by (rule read_print_lines) (use assms strtok_all_lines in \<open>fastforce simp: list_all_iff printable_def\<close>)

text \<open>C34: what the script function \<open>ui_print\<close> writes to the pipe, the recovery shows: one call to \<open>Print\<close> for each non-empty line of the
  message, in order, and one newline after the last of them, whatever follows on the pipe. Lines of more than 1013 characters
  do not fit into the buffer of the reader and are excepted. Only the last line is followed by a newline.\<close>

theorem ui_print_shown:
  assumes "UIPrintFn L given name st args = Some (v, st')" "printable (concat args)"
  shows "\<exists>t. cmd_pipe (cookie st') = cmd_pipe (cookie st) @ t
    \<and> read_commands (t @ s) r = read_commands s (r\<lparr>r_ui := r_ui r @ map Print (strtok_all (CHR 0x0A) (concat args)) @ [Print newline]\<rparr>)"
proof -
  let ?t = "concat (map (\<lambda>l. ''ui_print '' @ l @ newline) (strtok_all (CHR 0x0A) (concat args))) @ ''ui_print'' @ newline"
  have "cmd_pipe (cookie st') = cmd_pipe (cookie st) @ ?t"
    using assms(1) unfolding UIPrintFn_def with_var_args_given by (auto simp: conclude_def ret_def pipe_def Let_def)
  with read_printed_text [OF assms(2), of s r] show ?thesis by (intro exI [of _ ?t]) (simp only: append_assoc simp_thms)
qed

section \<open>Example\<close>

definition idle_recovery :: "unit recovery" where
  "idle_recovery = \<lparr>r_world = sample_system [], r_ui = [], r_wipe_cache = 0, r_perf_mode = False\<rparr>"

theorem ui_print_shown_witness:
  "printable (''a'' @ newline @ ''b'') \<and> (\<exists>t v st'. UIPrintFn sample_env given ''ui_print'' (initial_state sample_env [] sample_updater) [''a'' @ newline @ ''b''] = Some (v, st')
    \<and> cmd_pipe (cookie st') = t \<and> read_commands t idle_recovery = Some (idle_recovery\<lparr>r_ui := [Print ''a'', Print ''b'', Print newline]\<rparr>))"
proof -
  let ?m = "''a'' @ newline @ ''b''" and ?st = "initial_state sample_env [] sample_updater"
  have l: "strtok_all (CHR 0x0A) ?m = [''a'', ''b'']" by code_simp
  then have p: "printable (concat [?m])" by (simp add: printable_def newline_def)
  have "\<exists>v st'. UIPrintFn sample_env given ''ui_print'' ?st [?m] = Some (v, st')"
    unfolding UIPrintFn_def with_var_args_given by (simp add: conclude_def ret_def Let_def)
  then obtain v st' where u: "UIPrintFn sample_env given ''ui_print'' ?st [?m] = Some (v, st')" by blast
  have c: "concat [?m] = ?m" by simp
  have "cmd_pipe (cookie ?st) = []" by (simp add: initial_state_def sample_updater_def sample_env_def sample_os_def)
  with ui_print_shown [OF u p, of "[]" idle_recovery] have "read_commands (cmd_pipe (cookie st')) idle_recovery = Some (idle_recovery\<lparr>r_ui := [Print ''a'', Print ''b'', Print newline]\<rparr>)"
    unfolding c l by (auto simp: read_commands_Nil idle_recovery_def)
  with p u show ?thesis unfolding c by blast
qed

end
