(* ===== verification/InstallTrust.thy ===== *)
theory InstallTrust
  imports InstallPackage
begin

text \<open>
  What a finished installation says about the package: that it was signed, and that the program which ran came out of it.
\<close>

section \<open>Reading leaves the files alone\<close>

lemma fread_files: "fread d p n w = (b, w1) \<Longrightarrow> files w1 = files w"
  by (auto simp: fread_def split: prod.splits dest: sys_amount_files)

lemma hash_loop_files: "hash_loop lib n1 n2 d len p c1 c2 w = (x, w') \<Longrightarrow> files w' = files w"
proof (induction lib n1 n2 d len p c1 c2 w rule: hash_loop.induct)
  case (1 lib n1 n2 d len p c1 c2 w)
  obtain b w1 where f: "fread d p (min BUFFER_SIZE (len - p)) w = (b, w1)" by fastforce
  show ?case
  proof (cases "p < len \<and> length b = min BUFFER_SIZE (len - p)")
    case True
    with "1.prems" f have "files w' = files w1"
      by (intro "1.IH" [OF _ refl f [symmetric]]) (simp_all add: hash_loop.simps [of lib n1 n2 d len p] Let_def)
    with fread_files [OF f] show ?thesis by simp
  next
    case False
    with "1.prems" f fread_files [OF f] show ?thesis by (auto simp: hash_loop.simps [of lib n1 n2 d len p] Let_def split: if_splits)
  qed
qed

lemma check_record_files: "check_record lib co mo ks d len st e w = Some (x, w') \<Longrightarrow> files w' = files w"
  by (auto simp: check_record_def Let_def bind_eq_Some_conv split: if_splits prod.splits option.splits dest: hash_loop_files)

lemma seek_files: "seek_from_end d n w = (x, w1) \<Longrightarrow> files w1 = files w"
  by (auto simp: seek_from_end_def split: prod.splits if_splits dest: sys_ok_files)

lemma verify_file_files:
  assumes "verify_file lib co mo path ks w = Some (x, w')"
  shows "files w' = files w"
  using assms
  by (auto simp: verify_file_def Let_def split: if_splits prod.splits option.splits
      dest!: sys_ok_files seek_files fread_files check_record_files)

lemma load_keys_files: "load_keys lib ro mo path w = Some (x, w') \<Longrightarrow> files w' = files w"
  by (auto simp: load_keys_def split: if_splits prod.splits option.splits dest!: sys_ok_files fread_files)


section \<open>The steps of a successful installation\<close>

lemma result_codes: "INSTALL_ERROR \<noteq> INSTALL_SUCCESS" "INSTALL_CORRUPT \<noteq> INSTALL_SUCCESS"
  by (simp_all add: INSTALL_SUCCESS_def INSTALL_ERROR_def INSTALL_CORRUPT_def)

lemma try_update_binary_success:
  assumes "try_update_binary E p a r = Some (INSTALL_SUCCESS, r')"
  obtains e w1 w2 from_child status w3 where "package_entry a ASSUMED_UPDATE_BINARY_NAME = Some (Some e)"
    "creat binary_path 0x1ED (snd (unlink binary_path (r_world r))) = (True, w1)"
    "mzExtractZipEntryToFile (v_inflater E) a e binary_path w1 = Some (True, w2)"
    "v_child E [binary_path, ''3'', dec_nat (v_pipe E), p] w2 = (from_child, status, w3)"
    "WIFEXITED status" "WEXITSTATUS status = 0"
    "read_commands from_child (r\<lparr>r_world := w3, r_wipe_cache := 0\<rparr>) = Some r'"
proof -
  from assms obtain e where e: "package_entry a ASSUMED_UPDATE_BINARY_NAME = Some (Some e)"
    by (auto simp: try_update_binary_def bind_eq_Some_conv result_codes split: option.splits)
  obtain opened w1 where c: "creat binary_path 0x1ED (snd (unlink binary_path (r_world r))) = (opened, w1)" by fastforce
  with assms e have o: "opened" by (auto simp: try_update_binary_def result_codes split: if_splits)
  with assms e c obtain w2 where x: "mzExtractZipEntryToFile (v_inflater E) a e binary_path w1 = Some (True, w2)"
    by (auto simp: try_update_binary_def bind_eq_Some_conv result_codes Let_def split: if_splits)
  obtain from_child status w3 where ch: "v_child E [binary_path, ''3'', dec_nat (v_pipe E), p] w2 = (from_child, status, w3)"
    by (metis surj_pair)
  from assms e c o x ch show thesis
    by (intro that [OF e _ x ch]) (auto simp: try_update_binary_def bind_eq_Some_conv result_codes Let_def split: if_splits)
qed

lemma really_install_success:
  assumes "really_install_package E path r = Some (INSTALL_SUCCESS, r')" "v_zip_sigverif E \<noteq> ''0''"
  obtains p w0 w1 keys w2 w3 a r1 r2 where "resolve_path path (r_world r) = Some (p, w0)" "v_ensure_path_mounted E p w0 = (0, w1)"
    "load_keys (v_crypto E) (v_malloc_ok E) (v_malloc_ok E) PUBLIC_KEYS_FILE w1 = Some (Some keys, w2)"
    "verify_file (v_crypto E) (v_calloc_ok E) (v_malloc_ok E) p keys w2 = Some (VERIFY_SUCCESS, w3)"
    "mzOpenZipArchive (v_malloc_ok E) p w3 = Some (0, a, r_world r1)" "try_update_binary E p a r1 = Some (INSTALL_SUCCESS, r2)"
    "r' = set_perf_mode False r2"
proof -
  from assms(1) obtain p w0 w1 keys w2 r1 r2 r3 where p: "resolve_path path (r_world r) = Some (p, w0)" "v_ensure_path_mounted E p w0 = (0, w1)"
    "load_keys (v_crypto E) (v_malloc_ok E) (v_malloc_ok E) PUBLIC_KEYS_FILE w1 = Some (Some keys, w2)"
    and c: "check_signature E p keys r1 = Some (True, r2)" "r_world r1 = w2" "open_and_run E p r2 = Some (INSTALL_SUCCESS, r3)" "r' = set_perf_mode False r3"
    by (auto simp: really_install_package_def Let_def result_codes
        split: bind_split_asm prod.split_asm if_split_asm option.split_asm)
  from c(1,2) assms(2) have v: "verify_file (v_crypto E) (v_calloc_ok E) (v_malloc_ok E) p keys w2 = Some (VERIFY_SUCCESS, r_world r2)"
    by (auto simp: check_signature_def bind_eq_Some_conv Let_def split: if_splits)
  from c(3) obtain a w where o: "mzOpenZipArchive (v_malloc_ok E) p (r_world r2) = Some (0, a, w)"
    by (auto simp: open_and_run_def Let_def result_codes split: bind_split_asm if_split_asm)
  with c(3) have t: "try_update_binary E p a (show_ui (Print (''Installing update...'' @ newline)) (r2\<lparr>r_world := w\<rparr>)) = Some (INSTALL_SUCCESS, r3)"
    by (simp add: open_and_run_def Let_def)
  show thesis by (rule that [OF p v _ t c(4)]) (simp add: o)
qed


lemma creat_empty: "creat path mode w = (True, w') \<Longrightarrow> \<exists>f. lookup_file w' path = Some f \<and> f_data f = []"
  by (auto simp: creat_def split: prod.splits if_splits option.splits)

section \<open>Trust\<close>

text \<open>The state in which the update binary is started: the file at its path is the member of the archive.\<close>

definition binary_from :: "'i inflater \<Rightarrow> ('i \<Rightarrow> buffer \<Rightarrow> buffer \<Rightarrow> bool) \<Rightarrow> buffer \<Rightarrow> ZipEntry \<Rightarrow> 'f world \<Rightarrow> bool" where
  "binary_from zl stream d e w \<longleftrightarrow>
     (\<forall>plain. entry_content zl stream d e plain \<longrightarrow> (\<exists>b. lookup_file w binary_path = Some b \<and> f_data b = plain))"

text \<open>C1: with signature verification switched on, an installation reports success only for a package that one of the keys in \<open>/res/keys\<close>
  signed: the keys were loaded, a key accepts the part of the file up to the comment of its last end record, the archive that was
  opened is that of the same file, the program that ran is the member \<open>update-binary\<close> of it and was started with the path of
  the package, it exited with code 0, and the performance mode was switched off again.\<close>

theorem installed_package_signed:
  assumes run: "really_install_package E path r = Some (INSTALL_SUCCESS, r')" and on: "v_zip_sigverif E \<noteq> ''0''"
    and sha: "sha_absorbs (SHA_update (sha1_lib (v_crypto E)))" "sha_absorbs (SHA_update (sha256_lib (v_crypto E)))"
    and inf: "inflates (v_inflater E) stream"
  shows "\<exists>p w0 w1 keys w2 f pos k sig a e w from_child status w'.
      resolve_path path (r_world r) = Some (p, w0) \<and> v_ensure_path_mounted E p w0 = (0, w1)
    \<and> load_keys (v_crypto E) (v_malloc_ok E) (v_malloc_ok E) PUBLIC_KEYS_FILE w1 = Some (Some keys, w2)
    \<and> lookup_file w1 p = Some f \<and> last_eocd (f_data f) pos
    \<and> k \<in> set keys \<and> key_accepts (v_crypto E) k (take (pos + 20) (f_data f)) sig
    \<and> archive_inv (f_data f) a \<and> package_entry a ASSUMED_UPDATE_BINARY_NAME = Some (Some e)
    \<and> binary_from (v_inflater E) stream (f_data f) e w
    \<and> v_child E [binary_path, ''3'', dec_nat (v_pipe E), p] w = (from_child, status, w') \<and> WIFEXITED status \<and> WEXITSTATUS status = 0
    \<and> \<not> r_perf_mode r'"
proof -
  from really_install_success [OF run on] obtain p w0 w1 keys w2 w3 a r1 r2 where
    p: "resolve_path path (r_world r) = Some (p, w0)" "v_ensure_path_mounted E p w0 = (0, w1)"
    and k: "load_keys (v_crypto E) (v_malloc_ok E) (v_malloc_ok E) PUBLIC_KEYS_FILE w1 = Some (Some keys, w2)"
    and v: "verify_file (v_crypto E) (v_calloc_ok E) (v_malloc_ok E) p keys w2 = Some (VERIFY_SUCCESS, w3)"
    and z: "mzOpenZipArchive (v_malloc_ok E) p w3 = Some (0, a, r_world r1)" "try_update_binary E p a r1 = Some (INSTALL_SUCCESS, r2)"
    and r': "r' = set_perf_mode False r2" .
  from verify_file_accepts [OF v sha] obtain f pos key sig where f: "lookup_file w2 p = Some f" "last_eocd (f_data f) pos"
    and acc: "key \<in> set keys" "key_accepts (v_crypto E) key (take (pos + 20) (f_data f)) sig" by blast
  have same: "lookup_file w3 p = Some f" "lookup_file w1 p = Some f"
    using f(1) verify_file_files [OF v] load_keys_files [OF k] by (simp_all add: lookup_file_def)
  have a: "z_fd a = Some (f_data f)" "archive_inv (f_data f) a" using mzOpenZipArchive_total [of "v_malloc_ok E" p w3] z(1) same(1) by auto
  from try_update_binary_success [OF z(2)] obtain e w4 w5 from_child status w6 where
    e: "package_entry a ASSUMED_UPDATE_BINARY_NAME = Some (Some e)" "creat binary_path 0x1ED (snd (unlink binary_path (r_world r1))) = (True, w4)"
      "mzExtractZipEntryToFile (v_inflater E) a e binary_path w4 = Some (True, w5)"
    and ch: "v_child E [binary_path, ''3'', dec_nat (v_pipe E), p] w5 = (from_child, status, w6)" "WIFEXITED status" "WEXITSTATUS status = 0" .
  obtain b where b: "lookup_file w4 binary_path = Some b" "f_data b = []" using creat_empty [OF e(2)] by blast
  have "binary_from (v_inflater E) stream (f_data f) e w5"
    unfolding binary_from_def using extract_to_file [OF inf a(1) _ b(1)] e(3) b(2) by fastforce
  moreover have "\<not> r_perf_mode r'" by (simp add: r' set_perf_mode_def)
  ultimately show ?thesis using p k same(2) f(2) acc a(2) e(1) ch by blast
qed

text \<open>C11: a package whose signature is not accepted is not installed: the result is \<open>INSTALL_CORRUPT\<close>, no program is started,
  whatever it would have done, no file is changed after the volume was mounted, and the performance mode is switched off again.\<close>

theorem rejected_package_not_run:
  assumes "v_zip_sigverif E \<noteq> ''0''" "resolve_path path (r_world r) = Some (p, w0)" "v_ensure_path_mounted E p w0 = (0, w1)"
    and "load_keys (v_crypto E) (v_malloc_ok E) (v_malloc_ok E) PUBLIC_KEYS_FILE w1 = Some (Some keys, w2)"
    and "verify_file (v_crypto E) (v_calloc_ok E) (v_malloc_ok E) p keys w2 = Some (err, w3)" "err \<noteq> VERIFY_SUCCESS"
  shows "\<exists>r'. (\<forall>child. really_install_package (E\<lparr>v_child := child\<rparr>) path r = Some (INSTALL_CORRUPT, r'))
    \<and> files (r_world r') = files w1 \<and> \<not> r_perf_mode r'"
proof -
  let ?r = "show_ui (Print (''Opening update package...'' @ newline)) ((show_ui (ShowProgress ''0.25'' 60) (show_ui (SetProgressType ''DETERMINATE'')
    (show_ui (Print (''Finding update package...'' @ newline)) (show_ui (SetBackground ''INSTALLING_UPDATE'') r))))\<lparr>r_world := w1\<rparr>)"
  obtain r1 where c: "check_signature E p keys (set_perf_mode True (?r\<lparr>r_world := w2\<rparr>)) = Some (False, r1)" "r_world r1 = w3"
    using assms(1,5,6) by (auto simp: check_signature_def Let_def)
  have e: "check_signature (E\<lparr>v_child := child\<rparr>) p keys x = check_signature E p keys x" for child x by (simp add: check_signature_def)
  have "really_install_package (E\<lparr>v_child := child\<rparr>) path r = Some (INSTALL_CORRUPT, set_perf_mode False r1)" for child
    using assms(2-4) c(1) unfolding really_install_package_def Let_def by (simp add: e)
  moreover have "files (r_world (set_perf_mode False r1)) = files w1"
    using c(2) verify_file_files [OF assms(5)] load_keys_files [OF assms(4)] by simp
  ultimately show ?thesis by (intro exI [of _ "set_perf_mode False r1"]) (simp add: set_perf_mode_def)
qed


section \<open>Examples\<close>

definition device_world :: "buffer \<Rightarrow> unit world" where
  "device_world d = \<lparr>files = [(''/res/keys'', \<lparr>f_data = bytes_of (print_keys sample_specs @ [CHR 0x0A]), f_mode = 0, f_uid = 0, f_gid = 0, f_reg = True\<rparr>),
     (''/u.zip'', \<lparr>f_data = d, f_mode = 0, f_uid = 0, f_gid = 0, f_reg = True\<rparr>)],
     procs = [], answers = [], mtd_partitions_scanned = False, flash = ()\<rparr>"

definition device :: "buffer \<Rightarrow> unit recovery" where
  "device d = \<lparr>r_world = device_world d, r_ui = [], r_wipe_cache = 0, r_perf_mode = False\<rparr>"

definition device_env :: "(buffer, buffer, buffer, unit, nat option) recovery_env" where
  "device_env = \<lparr>v_crypto = sample_crypto, v_inflater = plain_inflater, v_ensure_path_mounted = \<lambda>_ w. (0, w), v_ensure_path_unmounted = \<lambda>_ w. (0, w), v_child = \<lambda>_ w. ([], 0, w),
     v_pipe = 5, v_zip_sigverif = ''1'', v_fstab = Some [], v_calloc_ok = \<lambda>_ _. True, v_malloc_ok = \<lambda>_. True, v_strerror = \<lambda>_. []\<rparr>"

lemma device_env_simps [simp]:
  "v_crypto device_env = sample_crypto" "v_inflater device_env = plain_inflater" "v_ensure_path_mounted device_env p w = (0, w)"
  "v_child device_env args w = ([], 0, w)" "v_zip_sigverif device_env = ''1''" "v_calloc_ok device_env = (\<lambda>_ _. True)" "v_malloc_ok device_env = (\<lambda>_. True)"
  by (simp_all add: device_env_def)

lemma device_world_props:
  "lookup_file (device_world d) ''/u.zip'' = Some \<lparr>f_data = d, f_mode = 0, f_uid = 0, f_gid = 0, f_reg = True\<rparr>"
  "lookup_file (device_world d) ''/res/keys'' = Some \<lparr>f_data = bytes_of (print_keys sample_specs @ [CHR 0x0A]), f_mode = 0, f_uid = 0, f_gid = 0, f_reg = True\<rparr>"
  "lookup_file (device_world d) binary_path = None" "answers (device_world d) = []"
  by (simp_all add: device_world_def lookup_file_def binary_path_def)

lemma resolve_plain: "resolve_path ''/u.zip'' w = Some (''/u.zip'', w)"
  by (simp add: resolve_path_def)

lemma device_keys: "load_keys sample_crypto (\<lambda>_. True) (\<lambda>_. True) PUBLIC_KEYS_FILE (device_world d) = Some (Some (map (cert_of sample_crypto) sample_specs), device_world d)"
  unfolding PUBLIC_KEYS_FILE_def by (rule sample_keys_read [OF device_world_props(2) _ device_world_props(4)]) simp

lemma binary_runs:
  assumes d: "d = zip_image [binary_member] package_comment" and r: "r_world r = device_world d"
    and a: "mzOpenZipArchive (\<lambda>_. True) ''/u.zip'' (device_world d) = Some (0, a, device_world d)" "z_pEntries a = Some [e]"
      "mzFindZipEntry a ASSUMED_UPDATE_BINARY_NAME = Some (Some 0)" "represents d e binary_member"
  shows "\<exists>r'. try_update_binary device_env ''/u.zip'' a r = Some (INSTALL_SUCCESS, r')"
proof -
  have e: "package_entry a ASSUMED_UPDATE_BINARY_NAME = Some (Some e)" by (simp add: package_entry_def a)
  have z: "z_fd a = Some d" "archive_inv d a"
    using mzOpenZipArchive_total [of "\<lambda>_. True" "''/u.zip''" "device_world d"] a(1) device_world_props(1) by auto
  then have "entry_ok d e" using a(2) by (auto simp: archive_inv_def)
  with a(4) have c: "entry_content plain_inflater plain_stream d e [7]"
    by (auto simp: entry_content_def represents_def binary_member_def entry_ok_def)
  let ?b = "\<lparr>f_data = [], f_mode = 0x1ED, f_uid = 0, f_gid = 0, f_reg = True\<rparr>" and ?w = "device_world d"
  have cr: "creat binary_path 0x1ED (snd (unlink binary_path ?w)) = (True, store_file ?w binary_path ?b)"
    using device_world_props(3,4) [of d] by (simp add: creat_def unlink_def sys_ok_def answer_def)
  have l: "lookup_file (store_file ?w binary_path ?b) binary_path = Some ?b" and ans: "answers (store_file ?w binary_path ?b) = []"
    using device_world_props(4) by simp_all
  from extract_to_file [OF plain_inflates z(1) c l] obtain good w' where
    "mzExtractZipEntryToFile plain_inflater a e binary_path (store_file ?w binary_path ?b) = Some (good, w')"
    "answers (store_file ?w binary_path ?b) = [] \<longrightarrow> good \<and> answers w' = []" by (elim exE conjE)
  then have x: "mzExtractZipEntryToFile plain_inflater a e binary_path (store_file ?w binary_path ?b) = Some (True, w')"
    using ans by simp
  show ?thesis
    unfolding try_update_binary_def e r cr Let_def
    by (simp add: x read_commands_Nil WIFEXITED_def WEXITSTATUS_def)
qed

lemma really_install_steps:
  assumes p: "resolve_path path (r_world r) = Some (p, w0)" "v_ensure_path_mounted E p w0 = (0, w1)"
    "load_keys (v_crypto E) (v_malloc_ok E) (v_malloc_ok E) PUBLIC_KEYS_FILE w1 = Some (Some keys, w2)"
    and c: "\<And>r. r_world r = w2 \<Longrightarrow> \<exists>r2 r3. check_signature E p keys r = Some (True, r2) \<and> open_and_run E p r2 = Some (result, r3)"
  shows "\<exists>r'. really_install_package E path r = Some (result, r')"
proof -
  let ?r = "show_ui (Print (''Opening update package...'' @ newline)) ((show_ui (ShowProgress ''0.25'' 60) (show_ui (SetProgressType ''DETERMINATE'')
    (show_ui (Print (''Finding update package...'' @ newline)) (show_ui (SetBackground ''INSTALLING_UPDATE'') r))))\<lparr>r_world := w1\<rparr>)"
  have "r_world (set_perf_mode True (?r\<lparr>r_world := w2\<rparr>)) = w2" by simp
  from c [OF this] obtain r2 r3 where
    "check_signature E p keys (set_perf_mode True (?r\<lparr>r_world := w2\<rparr>)) = Some (True, r2)" "open_and_run E p r2 = Some (result, r3)" by blast
  then show ?thesis using p unfolding really_install_package_def Let_def by simp
qed

lemma device_installs:
  assumes d: "d = zip_image [binary_member] package_comment"
  shows "\<exists>r'. really_install_package device_env ''/u.zip'' (device d) = Some (INSTALL_SUCCESS, r')"
proof -
  obtain a e where a: "mzOpenZipArchive (\<lambda>_. True) ''/u.zip'' (device_world d) = Some (0, a, device_world d)" "z_pEntries a = Some [e]"
    "mzFindZipEntry a ASSUMED_UPDATE_BINARY_NAME = Some (Some 0)" "represents d e binary_member"
    using package_found [OF device_world_props(1) _ device_world_props(4), of d] d by auto
  have v: "verify_file sample_crypto (\<lambda>_ _. True) (\<lambda>_. True) ''/u.zip'' (map (cert_of sample_crypto) sample_specs) (device_world d) = Some (VERIFY_SUCCESS, device_world d)"
    by (rule package_accepted [OF device_world_props(1) _ device_world_props(4)]) (simp add: d)
  have o: "\<exists>r'. open_and_run device_env ''/u.zip'' r = Some (INSTALL_SUCCESS, r')" if "r_world r = device_world d" for r
    using binary_runs [OF d _ a] that by (simp add: open_and_run_def a(1) Let_def)
  have "\<exists>r'. check_signature device_env ''/u.zip'' (map (cert_of sample_crypto) sample_specs) r = Some (True, r') \<and> r_world r' = device_world d"
    if "r_world r = device_world d" for r
    using v that by (simp add: check_signature_def Let_def)
  with o have "\<exists>r2 r3. check_signature device_env ''/u.zip'' (map (cert_of sample_crypto) sample_specs) r = Some (True, r2)
      \<and> open_and_run device_env ''/u.zip'' r2 = Some (INSTALL_SUCCESS, r3)" if "r_world r = device_world d" for r
    using that by blast
  from really_install_steps [OF _ _ _ this] show ?thesis
    by (simp add: resolve_plain device_keys device_def)
qed


theorem installed_package_signed_witness:
  "\<exists>r' pos k sig f. really_install_package device_env ''/u.zip'' (device (zip_image [binary_member] package_comment)) = Some (INSTALL_SUCCESS, r')
    \<and> lookup_file (device_world (zip_image [binary_member] package_comment)) ''/u.zip'' = Some f
    \<and> key_accepts sample_crypto k (take (pos + 20) (f_data f)) sig \<and> \<not> r_perf_mode r'"
proof -
  let ?d = "zip_image [binary_member] package_comment"
  obtain r' where run: "really_install_package device_env ''/u.zip'' (device ?d) = Some (INSTALL_SUCCESS, r')" using device_installs by blast
  have on: "v_zip_sigverif device_env \<noteq> ''0''" by simp
  from installed_package_signed [OF run on, of plain_stream] sample_crypto_absorbs plain_inflates run show ?thesis
    by (fastforce simp: resolve_plain device_def)
qed

theorem rejected_package_not_run_witness:
  "\<exists>r'. really_install_package (device_env\<lparr>v_child := \<lambda>_ w. (''wipe_cache'', 0, w)\<rparr>) ''/u.zip'' (device []) = Some (INSTALL_CORRUPT, r')
    \<and> files (r_world r') = files (device_world [])"
proof -
  have "verify_file sample_crypto (\<lambda>_ _. True) (\<lambda>_. True) ''/u.zip'' (map (cert_of sample_crypto) sample_specs) (device_world []) = Some (VERIFY_FAILURE, device_world [])"
    using device_world_props(1,4) [of "[]"] by (simp add: verify_file_def sys_ok_def answer_def seek_from_end_def FOOTER_SIZE_def)
  with rejected_package_not_run [of device_env "''/u.zip''" "device []" "''/u.zip''" "device_world []" "device_world []" "map (cert_of sample_crypto) sample_specs"
      "device_world []" VERIFY_FAILURE "device_world []"] show ?thesis
    by (auto simp: resolve_plain device_keys device_def VERIFY_FAILURE_def VERIFY_SUCCESS_def)
qed

end
