(* ===== verification/Bootloader.thy ===== *)
theory Bootloader
  imports InstallPackage
begin

text \<open>
  The message to the bootloader, \<open>bootloader.cpp\<close> and \<open>bootloader.h\<close>: one structure in the volume \<open>/misc\<close>, which is a block device or a
  flash partition. The entry of \<open>/misc\<close> in the table of volumes, the flash library and the page size that the kernel
  reports are arguments. A result \<^term>\<open>None\<close> is a copy outside of a buffer.
\<close>

section \<open>The message\<close>

record bootloader_message =
  b_command :: buffer
  b_status :: buffer
  b_recovery :: buffer
  b_stage :: buffer
  b_reserved :: buffer

definition message_ok :: "bootloader_message \<Rightarrow> bool" where
  "message_ok m \<longleftrightarrow> length (b_command m) = 32 \<and> length (b_status m) = 32 \<and> length (b_recovery m) = 768
     \<and> length (b_stage m) = 32 \<and> length (b_reserved m) = 224"

definition MESSAGE_SIZE :: nat where
  "MESSAGE_SIZE = 32 + 32 + 768 + 32 + 224"

definition message_bytes :: "bootloader_message \<Rightarrow> buffer" where
  "message_bytes m = b_command m @ b_status m @ b_recovery m @ b_stage m @ b_reserved m"

definition message_of :: "buffer \<Rightarrow> bootloader_message" where
  "message_of d = \<lparr>b_command = take 32 d, b_status = take 32 (drop 32 d), b_recovery = take 768 (drop 64 d),
     b_stage = take 32 (drop 832 d), b_reserved = take 224 (drop 864 d)\<rparr>"

definition zero_message :: bootloader_message where
  "zero_message = message_of (replicate MESSAGE_SIZE 0)"

section \<open>Storing it\<close>

text \<open>The type of the file system and the device of \<open>/misc\<close>, and the flash behind it.\<close>

record ('f, 'r, 'm) misc_env =
  m_volume :: "(string \<times> string) option"
  m_mtd :: "('f, 'r, 'm) mtdlib"
  m_write_size :: "string \<Rightarrow> 'f \<Rightarrow> nat option"
  m_strerror :: string

definition MISC_PAGES :: nat where "MISC_PAGES = 3"
definition MISC_COMMAND_PAGE :: nat where "MISC_COMMAND_PAGE = 1"

definition cant :: "('f, 'r, 'm) misc_env \<Rightarrow> string \<Rightarrow> string \<Rightarrow> 'f recovery \<Rightarrow> 'f recovery" where
  "cant M what dev r = loge (what @ '' '' @ dev @ newline @ ''('' @ m_strerror M @ '')'' @ newline) r"

text \<open>The pages of the partition that both functions read first.\<close>

definition read_misc_pages :: "('f, 'r, 'm) misc_env \<Rightarrow> string \<Rightarrow> 'f recovery \<Rightarrow> (nat \<times> buffer) option \<times> 'f recovery" where
  "read_misc_pages M dev r =
     (let r = r\<lparr>r_world := (r_world r)\<lparr>flash := mtd_scan_partitions (m_mtd M) (flash (r_world r))\<rparr>\<rparr> in
      case m_write_size M dev (flash (r_world r)) of
        None \<Rightarrow> (None, loge (''Can't find '' @ dev @ newline) r)
      | Some write_size \<Rightarrow>
          (case mtd_read_partition (m_mtd M) dev (flash (r_world r)) of
             None \<Rightarrow> (None, cant M ''Can't open'' dev r)
           | Some read \<Rightarrow>
               (case mtd_read_data (m_mtd M) read (write_size * MISC_PAGES) of (dat, _) \<Rightarrow>
                  if length dat \<noteq> write_size * MISC_PAGES then (None, cant M ''Can't read'' dev r)
                  else (Some (write_size, dat), r))))"

definition get_bootloader_message_mtd ::
  "('f, 'r, 'm) misc_env \<Rightarrow> string \<Rightarrow> bootloader_message \<Rightarrow> 'f recovery \<Rightarrow> (int \<times> bootloader_message \<times> 'f recovery) option" where
  "get_bootloader_message_mtd M dev b r =
     (case read_misc_pages M dev r of
        (None, r) \<Rightarrow> Some (-1, b, r)
      | (Some (write_size, dat), r) \<Rightarrow>
          if length dat < write_size * MISC_COMMAND_PAGE + MESSAGE_SIZE then None
          else Some (0, message_of (drop (write_size * MISC_COMMAND_PAGE) dat), r))"

definition set_bootloader_message_mtd ::
  "('f, 'r, 'm) misc_env \<Rightarrow> string \<Rightarrow> bootloader_message \<Rightarrow> 'f recovery \<Rightarrow> (int \<times> 'f recovery) option" where
  "set_bootloader_message_mtd M dev b r =
     (case read_misc_pages M dev r of
        (None, r) \<Rightarrow> Some (-1, r)
      | (Some (write_size, dat), r) \<Rightarrow>
          if length dat < write_size * MISC_COMMAND_PAGE + MESSAGE_SIZE then None
          else
            let dat = overwrite dat (write_size * MISC_COMMAND_PAGE) (message_bytes b) in
            case mtd_write_partition (m_mtd M) dev (flash (r_world r)) of
              None \<Rightarrow> Some (-1, cant M ''Can't open'' dev r)
            | Some write \<Rightarrow>
                (case mtd_write_data (m_mtd M) write dat of (n, write) \<Rightarrow>
                   case mtd_write_close (m_mtd M) write (flash (r_world r)) of (closed, fl) \<Rightarrow>
                     let r' = r\<lparr>r_world := (r_world r)\<lparr>flash := fl\<rparr>\<rparr> in
                     if n \<noteq> length dat then Some (-1, cant M ''Can't write'' dev r')
                     else if closed \<noteq> 0 then Some (-1, cant M ''Can't finish'' dev r')
                     else Some (0, r')))"

text \<open>\<open>wait_for_device\<close> calls \<open>stat\<close> up to ten times; sleeping and printing are left out.\<close>

fun stat_loop :: "string \<Rightarrow> nat \<Rightarrow> 'f world \<Rightarrow> 'f world" where
  "stat_loop fn 0 w = w"
| "stat_loop fn (Suc n) w =
     (case sys_ok w of (good, w1) \<Rightarrow> if good \<and> lookup_file w1 fn \<noteq> None then w1 else stat_loop fn n w1)"

definition wait_for_device :: "string \<Rightarrow> 'f world \<Rightarrow> 'f world" where
  "wait_for_device fn w = stat_loop fn 10 w"

definition open_device :: "string \<Rightarrow> 'f world \<Rightarrow> inode option \<times> 'f world" where
  "open_device dev w =
     (case sys_ok (wait_for_device dev w) of (good, w1) \<Rightarrow> (if good then lookup_file w1 dev else None, w1))"

definition get_bootloader_message_block ::
  "('f, 'r, 'm) misc_env \<Rightarrow> string \<Rightarrow> bootloader_message \<Rightarrow> 'f recovery \<Rightarrow> int \<times> bootloader_message \<times> 'f recovery" where
  "get_bootloader_message_block M dev b r =
     (case open_device dev (r_world r) of
        (None, w) \<Rightarrow> (-1, b, cant M ''Can't open'' dev (r\<lparr>r_world := w\<rparr>))
      | (Some f, w) \<Rightarrow>
          (case fread (f_data f) 0 MESSAGE_SIZE w of (temp, w) \<Rightarrow>
             if length temp \<noteq> MESSAGE_SIZE then (-1, b, cant M ''Failed reading'' dev (r\<lparr>r_world := w\<rparr>))
             else case sys_ok w of (closed, w) \<Rightarrow>
               if \<not> closed then (-1, b, cant M ''Failed closing'' dev (r\<lparr>r_world := w\<rparr>))
               else (0, message_of temp, r\<lparr>r_world := w\<rparr>)))"

text \<open>The message is written when the file is closed: it is larger than nothing and smaller than the buffer of the stream.\<close>

definition set_bootloader_message_block ::
  "('f, 'r, 'm) misc_env \<Rightarrow> string \<Rightarrow> bootloader_message \<Rightarrow> 'f recovery \<Rightarrow> int \<times> 'f recovery" where
  "set_bootloader_message_block M dev b r =
     (case open_device dev (r_world r) of
        (None, w) \<Rightarrow> (-1, cant M ''Can't open'' dev (r\<lparr>r_world := w\<rparr>))
      | (Some f, w) \<Rightarrow>
          (case sys_amount MESSAGE_SIZE w of (n, w) \<Rightarrow>
             let w = store_file w dev (f\<lparr>f_data := overwrite (f_data f) 0 (take n (message_bytes b))\<rparr>) in
             if n \<noteq> MESSAGE_SIZE then (-1, cant M ''Failed closing'' dev (r\<lparr>r_world := w\<rparr>))
             else case sys_ok w of (closed, w) \<Rightarrow>
               if \<not> closed then (-1, cant M ''Failed closing'' dev (r\<lparr>r_world := w\<rparr>))
               else (0, r\<lparr>r_world := w\<rparr>)))"

definition get_bootloader_message ::
  "('f, 'r, 'm) misc_env \<Rightarrow> bootloader_message \<Rightarrow> 'f recovery \<Rightarrow> (int \<times> bootloader_message \<times> 'f recovery) option" where
  "get_bootloader_message M b r =
     (case m_volume M of
        None \<Rightarrow> Some (-1, b, r)
      | Some (fs_type, dev) \<Rightarrow>
          if fs_type = ''mtd'' then get_bootloader_message_mtd M dev b r
          else if fs_type = ''emmc'' then Some (get_bootloader_message_block M dev b r)
          else Some (-1, b, loge (''unknown misc partition fs_type '' @ quoted fs_type @ newline) r))"

definition set_bootloader_message ::
  "('f, 'r, 'm) misc_env \<Rightarrow> bootloader_message \<Rightarrow> 'f recovery \<Rightarrow> (int \<times> 'f recovery) option" where
  "set_bootloader_message M b r =
     (case m_volume M of
        None \<Rightarrow> Some (-1, r)
      | Some (fs_type, dev) \<Rightarrow>
          if fs_type = ''mtd'' then set_bootloader_message_mtd M dev b r
          else if fs_type = ''emmc'' then Some (set_bootloader_message_block M dev b r)
          else Some (-1, loge (''unknown misc partition fs_type '' @ quoted fs_type @ newline) r))"


section \<open>What is stored is read back\<close>

lemma length_message_bytes: "message_ok m \<Longrightarrow> length (message_bytes m) = MESSAGE_SIZE"
  by (simp add: message_ok_def message_bytes_def MESSAGE_SIZE_def)

lemma message_of_bytes: "message_ok m \<Longrightarrow> message_of (message_bytes m @ x) = m"
  by (cases m) (simp add: message_ok_def message_bytes_def message_of_def)

lemma message_ok_of: "MESSAGE_SIZE \<le> length d \<Longrightarrow> message_ok (message_of d)"
  by (simp add: message_ok_def message_of_def MESSAGE_SIZE_def)

text \<open>A place for the message: what was stored with success is read back, as often as one likes.\<close>

locale message_store =
  fixes get_msg :: "bootloader_message \<Rightarrow> 'w \<Rightarrow> (int \<times> bootloader_message \<times> 'w) option"
    and set_msg :: "bootloader_message \<Rightarrow> 'w \<Rightarrow> (int \<times> 'w) option"
    and holds_msg :: "bootloader_message \<Rightarrow> 'w \<Rightarrow> bool"
    and ready :: "'w \<Rightarrow> bool"
  assumes set_defined: "ready w \<Longrightarrow> message_ok m \<Longrightarrow> set_msg m w \<noteq> None"
    and set_holds: "ready w \<Longrightarrow> message_ok m \<Longrightarrow> set_msg m w = Some (0, w') \<Longrightarrow> holds_msg m w' \<and> ready w'"
    and get_holds: "ready w \<Longrightarrow> holds_msg m w \<Longrightarrow> \<exists>w'. get_msg b w = Some (0, m, w') \<and> holds_msg m w' \<and> ready w'"
begin

lemma set_get:
  assumes "ready w" "message_ok m" "set_msg m w = Some (0, w1)"
  shows "\<exists>w2. get_msg b w1 = Some (0, m, w2) \<and> holds_msg m w2 \<and> ready w2"
  using set_holds [OF assms] get_holds by blast

lemma last_set_wins:
  assumes "ready w" "message_ok m" "message_ok m'" "set_msg m w = Some (0, w1)" "set_msg m' w1 = Some (0, w2)"
  shows "\<exists>w3. get_msg b w2 = Some (0, m', w3)"
  using set_holds [OF assms(1,2,4)] set_get [OF _ assms(3,5)] by blast

end

text \<open>A block device that is large enough, with no failing calls.\<close>

definition emmc_ready :: "string \<Rightarrow> 'f recovery \<Rightarrow> bool" where
  "emmc_ready dev r \<longleftrightarrow> answers (r_world r) = [] \<and> (\<exists>f. lookup_file (r_world r) dev = Some f \<and> MESSAGE_SIZE \<le> length (f_data f))"

definition emmc_holds :: "string \<Rightarrow> bootloader_message \<Rightarrow> 'f recovery \<Rightarrow> bool" where
  "emmc_holds dev m r \<longleftrightarrow> (\<exists>f. lookup_file (r_world r) dev = Some f \<and> message_ok m \<and> take MESSAGE_SIZE (f_data f) = message_bytes m)"

lemma open_device_plain: "answers w = [] \<Longrightarrow> lookup_file w dev = Some f \<Longrightarrow> open_device dev w = (Some f, w)"
  by (simp add: open_device_def wait_for_device_def numeral_eq_Suc sys_ok_plain)

lemma set_block_plain:
  assumes "answers (r_world r) = []" "lookup_file (r_world r) dev = Some f" "message_ok m"
  shows "set_bootloader_message_block M dev m r
    = (0, r\<lparr>r_world := store_file (r_world r) dev (f\<lparr>f_data := message_bytes m @ drop MESSAGE_SIZE (f_data f)\<rparr>)\<rparr>)"
  using assms length_message_bytes [OF assms(3)]
  by (simp add: set_bootloader_message_block_def open_device_plain sys_amount_def answer_def overwrite_def sys_ok_plain Let_def)

lemma get_block_plain:
  assumes "answers (r_world r) = []" "lookup_file (r_world r) dev = Some f" "MESSAGE_SIZE \<le> length (f_data f)"
  shows "get_bootloader_message_block M dev b r = (0, message_of (take MESSAGE_SIZE (f_data f)), r)"
  using assms by (simp add: get_bootloader_message_block_def open_device_plain fread_plain sys_ok_plain min_def)

interpretation emmc: message_store "get_bootloader_message (M\<lparr>m_volume := Some (''emmc'', dev)\<rparr>)"
  "set_bootloader_message (M\<lparr>m_volume := Some (''emmc'', dev)\<rparr>)" "emmc_holds dev" "emmc_ready dev"
proof
  fix r m
  show "set_bootloader_message (M\<lparr>m_volume := Some (''emmc'', dev)\<rparr>) m r \<noteq> None" by (simp add: set_bootloader_message_def)
next
  fix r m r'
  assume r: "emmc_ready dev r" "message_ok m" and s: "set_bootloader_message (M\<lparr>m_volume := Some (''emmc'', dev)\<rparr>) m r = Some (0, r')"
  then obtain f where f: "lookup_file (r_world r) dev = Some f" "answers (r_world r) = []" by (auto simp: emmc_ready_def)
  have "r' = r\<lparr>r_world := store_file (r_world r) dev (f\<lparr>f_data := message_bytes m @ drop MESSAGE_SIZE (f_data f)\<rparr>)\<rparr>"
    using s by (simp add: set_bootloader_message_def set_block_plain [OF f(2,1) r(2)])
  with f length_message_bytes [OF r(2)] r(2) show "emmc_holds dev m r' \<and> emmc_ready dev r'"
    by (auto simp: emmc_holds_def emmc_ready_def)
next
  fix r :: "'a recovery" and m b
  assume r: "emmc_ready dev r" "emmc_holds dev m r"
  then obtain f where f: "lookup_file (r_world r) dev = Some f" "answers (r_world r) = []" "MESSAGE_SIZE \<le> length (f_data f)"
    "message_ok m" "take MESSAGE_SIZE (f_data f) = message_bytes m" by (auto simp: emmc_ready_def emmc_holds_def)
  with message_of_bytes [OF f(4), of "[]"] r
  show "\<exists>r'. get_bootloader_message (M\<lparr>m_volume := Some (''emmc'', dev)\<rparr>) b r = Some (0, m, r') \<and> emmc_holds dev m r' \<and> emmc_ready dev r'"
    by (auto simp: get_bootloader_message_def get_block_plain [OF f(2,1,3)])
qed

end
