(* ===== verification/BootloaderMtd.thy ===== *)
theory BootloaderMtd
  imports Bootloader MtdLib
begin

text \<open>
  The message to the bootloader in a flash partition: with the flash library of \<open>MtdLib\<close> the partition is a place for the message too,
  bad blocks included.
\<close>

text \<open>A partition that the table knows, on a device whose calls do not fail, with pages that are large enough.\<close>

definition flash_env :: "('f, 'r, 'm) misc_env \<Rightarrow> string \<Rightarrow> nat \<Rightarrow> (mtd_flash, MtdReadContext, MtdWriteContext) misc_env" where
  "flash_env M name ws = \<lparr>m_volume = Some (''mtd'', name), m_mtd = mtd_lib, m_write_size = \<lambda>_ _. Some ws, m_strerror = m_strerror M\<rparr>"

definition flash_device :: "string \<Rightarrow> mtd_flash \<Rightarrow> MtdPartition \<Rightarrow> mtd_fd \<Rightarrow> bool" where
  "flash_device name fl p fd \<longleftrightarrow> mtd_find_partition_by_name name (fl_table fl) = Some p
     \<and> map_of (fl_devices fl) (device_index p) = Some fd \<and> device_ok p fd"

definition flash_ready :: "string \<Rightarrow> nat \<Rightarrow> mtd_flash recovery \<Rightarrow> bool" where
  "flash_ready name ws r \<longleftrightarrow> MESSAGE_SIZE \<le> 2 * ws \<and> 3 * ws < 2 ^ 64 - 1 \<and> flash_scan (flash (r_world r)) = flash (r_world r)
     \<and> (\<exists>p fd. flash_device name (flash (r_world r)) p fd)"

definition flash_message :: "string \<Rightarrow> nat \<Rightarrow> bootloader_message \<Rightarrow> mtd_flash recovery \<Rightarrow> bool" where
  "flash_message name ws m r \<longleftrightarrow> message_ok m
     \<and> (\<exists>p fd n dat x. flash_device name (flash (r_world r)) p fd \<and> n * erase_size p \<le> length (dv_data fd)
          \<and> contents (erase_size p) (used_blocks (erase_size p) (dv_bad fd) n) (dv_data fd) = dat @ x
          \<and> length dat = ws * 3 \<and> take MESSAGE_SIZE (drop ws dat) = message_bytes m)"

lemma flash_scan_devices: "flash_scan fl = fl \<Longrightarrow> flash_scan (fl\<lparr>fl_devices := ds\<rparr>) = fl\<lparr>fl_devices := ds\<rparr>"
  by (cases fl) (auto simp: flash_scan_def split: option.splits prod.splits)

lemma message_of_take: "MESSAGE_SIZE \<le> n \<Longrightarrow> message_of (take n d) = message_of d"
  by (simp add: message_of_def MESSAGE_SIZE_def drop_take)

lemma mtd_lib_fields: "mtdlib.mtd_scan_partitions mtd_lib = flash_scan" "mtdlib.mtd_read_partition mtd_lib = flash_reader" "mtdlib.mtd_read_data mtd_lib = flash_read"
  "mtdlib.mtd_write_partition mtd_lib = flash_writer" "mtdlib.mtd_write_data mtd_lib = flash_write" "mtdlib.mtd_write_close mtd_lib = flash_close"
  by (simp_all add: mtd_lib_def)

lemma read_misc_flash:
  assumes "flash_ready name ws r"
  obtains "read_misc_pages (flash_env M name ws) name r = (None, cant (flash_env M name ws) ''Can't read'' name r)"
  | dat where "read_misc_pages (flash_env M name ws) name r = (Some (ws, dat), r)" "length dat = ws * 3"
proof -
  from assms obtain p fd where p: "flash_device name (flash (r_world r)) p fd" "flash_scan (flash (r_world r)) = flash (r_world r)"
    by (auto simp: flash_ready_def)
  have same: "r\<lparr>r_world := (r_world r)\<lparr>flash := flash (r_world r)\<rparr>\<rparr> = r" by (cases r) (cases "r_world r", simp)
  obtain c where c: "flash_reader name (flash (r_world r)) = Some c"
    using p(1) by (auto simp: flash_reader_def flash_device_def MtdUtils.mtd_read_partition_def)
  obtain dat c' where d: "flash_read c (ws * 3) = (dat, c')" by fastforce
  show thesis
    by (cases "length dat = ws * 3") (use that same c d p(2) in \<open>simp_all add: read_misc_pages_def flash_env_def mtd_lib_fields MISC_PAGES_def\<close>)
qed

lemma flash_write_closed:
  assumes dev: "flash_device name fl p fd" and "length dat < 2 ^ 64 - 1" and run: "flash_writer name fl = Some c" "flash_write c dat = (length dat, c1)" "flash_close c1 fl = (0, fl')"
  shows "\<exists>ds fd' n z. fl' = fl\<lparr>fl_devices := ds\<rparr> \<and> flash_device name fl' p fd' \<and> n * erase_size p \<le> length (dv_data fd')
    \<and> contents (erase_size p) (used_blocks (erase_size p) (dv_bad fd') n) (dv_data fd') = dat @ replicate z 0"
proof -
  have p: "mtd_find_partition_by_name name (fl_table fl) = Some p" "map_of (fl_devices fl) (device_index p) = Some fd" "device_ok p fd"
    using dev by (simp_all add: flash_device_def)
  have o: "MtdUtils.mtd_write_partition (\<lambda>_. True) p (Some fd) = Some c" using run(1) p by (simp add: flash_writer_def)
  have es: "0 < erase_size p" "dv_calls fd = []" using p(3) by (simp_all add: device_ok_def)
  note ok = write_partition_ok [where c = True, OF o es]
  have w: "MtdUtils.mtd_write_data (\<lambda>_. True) c dat = Some (int (length dat), c1)"
    using run(2) assms(2) by (auto simp: flash_write_def split: option.splits if_splits)
  note ok1 = mtd_write_data_returns [OF ok(1,2) _ w, simplified]
  from run(3) obtain fd' where cl: "MtdUtils.mtd_write_close (\<lambda>_. True) c1 = Some (0, fd')"
    "fl' = fl\<lparr>fl_devices := AList.update (device_index (w_partition c1)) fd' (fl_devices fl)\<rparr>"
    by (auto simp: flash_close_def split: option.splits)
  have p1: "w_partition c1 = p" using ok1(3) ok(4) by simp
  from close_flash [OF ok1(1) _ _ cl(1)] ok1(2,3) p1 obtain n z where
    n: "n * erase_size p \<le> length (dv_data fd')" "below 0 (w_fd c1) fd'" "dv_calls fd' = []"
    "contents (erase_size p) (used_blocks (erase_size p) (dv_bad fd') n) (dv_data fd') = written c1 @ replicate z 0" by auto
  have "written c1 = dat" using ok1(5) ok(3) by simp
  moreover have "device_ok p fd'" using p(3) n(2,3) ok1(4) ok(5) by (simp add: device_ok_def below_def)
  ultimately show ?thesis using cl(2) p(1) p1 n by (auto simp: flash_device_def AList.update_conv')
qed


interpretation flash_misc: message_store "get_bootloader_message (flash_env M name ws)" "set_bootloader_message (flash_env M name ws)"
  "flash_message name ws" "flash_ready name ws"
proof
  fix r m
  assume r: "flash_ready name ws r" "message_ok m"
  show "set_bootloader_message (flash_env M name ws) m r \<noteq> None"
    by (rule read_misc_flash [OF r(1), of M])
       (use r(1) in \<open>auto simp: set_bootloader_message_def set_bootloader_message_mtd_def flash_env_def flash_ready_def MISC_COMMAND_PAGE_def Let_def
          split: option.splits prod.splits\<close>)
next
  fix r m r'
  assume r: "flash_ready name ws r" "message_ok m" and s: "set_bootloader_message (flash_env M name ws) m r = Some (0, r')"
  from r(1) obtain p fd where p: "flash_device name (flash (r_world r)) p fd" by (auto simp: flash_ready_def)
  note set_def = set_bootloader_message_def set_bootloader_message_mtd_def MISC_COMMAND_PAGE_def
  have v: "m_volume (flash_env M name ws) = Some (''mtd'', name)" "m_mtd (flash_env M name ws) = mtd_lib" by (simp_all add: flash_env_def)
  from s obtain dat where d: "read_misc_pages (flash_env M name ws) name r = (Some (ws, dat), r)" "length dat = ws * 3"
    by (cases rule: read_misc_flash [OF r(1), of M]) (auto simp: set_def v)
  let ?d = "FileContents.overwrite dat ws (message_bytes m)"
  have long: "ws + MESSAGE_SIZE \<le> length dat" using r(1) d(2) by (simp add: flash_ready_def)
  have len: "length ?d = ws * 3" using long d(2) length_message_bytes [OF r(2)] by (simp add: FileContents.overwrite_def)
  from s d long obtain c c1 fl' where w: "flash_writer name (flash (r_world r)) = Some c" "flash_write c ?d = (length ?d, c1)"
    "flash_close c1 (flash (r_world r)) = (0, fl')" and r': "r' = r\<lparr>r_world := (r_world r)\<lparr>flash := fl'\<rparr>\<rparr>"
    by (auto simp: set_def v mtd_lib_fields Let_def split: option.splits prod.splits if_splits)
  have "length ?d < 2 ^ 64 - 1" using r(1) unfolding len flash_ready_def by linarith
  from flash_write_closed [OF p this w] obtain ds fd' n z where
    n: "fl' = (flash (r_world r))\<lparr>fl_devices := ds\<rparr>" "flash_device name fl' p fd'" "n * erase_size p \<le> length (dv_data fd')"
      "contents (erase_size p) (used_blocks (erase_size p) (dv_bad fd') n) (dv_data fd') = ?d @ replicate z 0" by blast
  have fl: "flash (r_world r') = fl'" by (simp add: r')
  have "take MESSAGE_SIZE (drop ws ?d) = message_bytes m"
    using d(2) long length_message_bytes [OF r(2)] by (simp add: FileContents.overwrite_def)
  then have "flash_message name ws m r'" unfolding flash_message_def fl using r(2) n(2-4) len by blast
  moreover have "flash_scan fl' = fl'" using r(1) n(1) flash_scan_devices by (auto simp: flash_ready_def)
  then have "flash_ready name ws r'" using r(1) n(2) unfolding flash_ready_def fl by blast
  ultimately show "flash_message name ws m r' \<and> flash_ready name ws r'" ..
next
  fix r m b
  assume r: "flash_ready name ws r" "flash_message name ws m r"
  from r(2) obtain p fd n dat x where p: "message_ok m" "flash_device name (flash (r_world r)) p fd" "n * erase_size p \<le> length (dv_data fd)"
    "contents (erase_size p) (used_blocks (erase_size p) (dv_bad fd) n) (dv_data fd) = dat @ x"
    "length dat = ws * 3" "take MESSAGE_SIZE (drop ws dat) = message_bytes m" unfolding flash_message_def by blast
  from p(2) mtd_read_stored [of p fd "\<lambda>_. True", OF _ TrueI p(3,4)] obtain c c' where
    c: "MtdUtils.mtd_read_partition (\<lambda>_. True) p (Some fd) = Some c" "MtdUtils.mtd_read_data c (length dat) = Some (Some dat, c')"
    by (auto simp: flash_device_def)
  have o: "flash_reader name (flash (r_world r)) = Some c" using p(2) c(1) by (simp add: flash_reader_def flash_device_def)
  have g: "flash_read c (ws * 3) = (dat, c')" using c(2) p(5) by (simp add: flash_read_def)
  have same: "r\<lparr>r_world := (r_world r)\<lparr>flash := flash_scan (flash (r_world r))\<rparr>\<rparr> = r" using r(1) by (cases r) (cases "r_world r", simp add: flash_ready_def)
  have pages: "read_misc_pages (flash_env M name ws) name r = (Some (ws, dat), r)"
    using same o g p(5) by (simp add: read_misc_pages_def flash_env_def mtd_lib_fields MISC_PAGES_def)
  have "message_of (drop ws dat) = m"
    using message_of_take [of MESSAGE_SIZE "drop ws dat"] message_of_bytes [OF p(1), of "[]"] p(6) by simp
  moreover have "ws + MESSAGE_SIZE \<le> length dat" using r(1) p(5) by (simp add: flash_ready_def)
  ultimately have "get_bootloader_message (flash_env M name ws) b r = Some (0, m, r)"
    using pages by (simp add: get_bootloader_message_def get_bootloader_message_mtd_def flash_env_def MISC_COMMAND_PAGE_def)
  then show "\<exists>r'. get_bootloader_message (flash_env M name ws) b r = Some (0, m, r') \<and> flash_message name ws m r' \<and> flash_ready name ws r'"
    using r by blast
qed

end
