(* ===== verification/RecoveryArgs.thy ===== *)
theory RecoveryArgs
  imports BootloaderMtd InstallTrust
begin

text \<open>
  The arguments of the recovery and the end of its work, from \<open>recovery.cpp\<close>: \<open>get_args\<close> takes the arguments from the command line, the
  message to the bootloader or a command file and stores them in the message; \<open>finish_recovery\<close> clears the message. The build is the one
  without \<open>HAVE_OEMLOCK\<close>. Output to the log is left out, except what \<open>LOGE\<close> shows to the user.
\<close>

section \<open>Strings in buffers\<close>

definition cstr :: "buffer \<Rightarrow> buffer" where
  "cstr b = takeWhile (\<lambda>c. c \<noteq> 0) b"

definition strlcpy :: "buffer \<Rightarrow> buffer \<Rightarrow> buffer" where
  "strlcpy dst src = (if dst = [] then [] else let k = min (length src) (length dst - 1) in take k src @ [0] @ drop (k + 1) dst)"

definition strlcat :: "buffer \<Rightarrow> buffer \<Rightarrow> buffer" where
  "strlcat dst src = (let n = length (cstr dst) in take n dst @ strlcpy (drop n dst) src)"

text \<open>\<open>strtok\<close> from a position of a buffer: the token, the buffer with the delimiter behind it overwritten, and where to go on.\<close>

definition strtok_at :: "buffer \<Rightarrow> buffer \<Rightarrow> nat \<Rightarrow> (buffer \<times> buffer \<times> nat) option" where
  "strtok_at delims b pos =
     (let p = pos + length (takeWhile (\<lambda>c. c \<in> set delims) (drop pos b));
          t = takeWhile (\<lambda>c. c \<noteq> 0 \<and> c \<notin> set delims) (drop p b);
          e = p + length t in
      if t = [] then None
      else if length b \<le> e \<or> b ! e = 0 then Some (t, b, e)
      else Some (t, b[e := 0], e + 1))"

section \<open>Reading the arguments\<close>

definition MAX_ARG_LENGTH :: nat where "MAX_ARG_LENGTH = 4096"
definition MAX_ARGS :: nat where "MAX_ARGS = 100"

definition COMMAND_FILE :: string where "COMMAND_FILE = ''/cache/recovery/command''"

text \<open>The loop over the lines of the message; \<open>n\<close> places are left in the array.\<close>

fun boot_args :: "nat \<Rightarrow> buffer \<Rightarrow> nat \<Rightarrow> string list \<times> buffer" where
  "boot_args 0 b pos = ([], b)"
| "boot_args (Suc n) b pos =
     (case strtok_at [10] b pos of
        None \<Rightarrow> ([], b)
      | Some (t, b1, p1) \<Rightarrow> (case boot_args n b1 p1 of (ts, b2) \<Rightarrow> (chars t # ts, b2)))"

text \<open>The loop over the lines of the command file.\<close>

function file_args :: "nat \<Rightarrow> string \<Rightarrow> string list" where
  "file_args n s =
     (if n = 0 \<or> s = [] then []
      else
        let line = takeWhile (\<lambda>c. c \<noteq> CHR 0x00) (fgets MAX_ARG_LENGTH s); rest = drop (length (fgets MAX_ARG_LENGTH s)) s in
        case strtok ([CHR 0x0D] @ newline) line of
          Some (token, _) \<Rightarrow> token # file_args (n - 1) rest
        | None \<Rightarrow> file_args n rest)"
  by pat_completeness auto
termination
  by (relation "measure (\<lambda>(_, s). length s)") (auto simp: MAX_ARG_LENGTH_def dest: fgets_progress [where n = 4096])

declare file_args.simps [simp del]

definition fopen_path_r :: "('c, 'd, 'p, 'f, 'i) recovery_env \<Rightarrow> string \<Rightarrow> 'f recovery \<Rightarrow> inode option \<times> 'f recovery" where
  "fopen_path_r E path r =
     (case v_ensure_path_mounted E path (r_world r) of (mounted, w) \<Rightarrow>
        if mounted \<noteq> 0 then (None, loge (''Can't mount '' @ path @ newline) (r\<lparr>r_world := w\<rparr>))
        else case sys_ok w of (good, w) \<Rightarrow> (if good then lookup_file w path else None, r\<lparr>r_world := w\<rparr>))"

definition args_from_message :: "string list \<Rightarrow> bootloader_message \<Rightarrow> 'f recovery \<Rightarrow> string list \<times> bootloader_message \<times> 'f recovery" where
  "args_from_message argv boot r =
     (let b = (b_recovery boot)[767 := 0];
          bad = (\<lambda>b. if b ! 0 \<noteq> 0 \<and> b ! 0 \<noteq> 255
                 then loge (''Bad boot message'' @ newline @ quoted (take 20 (chars (cstr b))) @ newline) r else r) in
      case strtok_at [10] b 0 of
        None \<Rightarrow> (argv, boot\<lparr>b_recovery := b\<rparr>, bad b)
      | Some (tok, b1, pos) \<Rightarrow>
          if chars tok = ''recovery'' then
            (case boot_args (MAX_ARGS - 1) b1 pos of (args, b2) \<Rightarrow> (chars tok # args, boot\<lparr>b_recovery := b2\<rparr>, r))
          else (argv, boot\<lparr>b_recovery := b1\<rparr>, bad b1))"

definition args_from_file :: "('c, 'd, 'p, 'f, 'i) recovery_env \<Rightarrow> string list \<Rightarrow> 'f recovery \<Rightarrow> string list \<times> 'f recovery" where
  "args_from_file E argv r =
     (case fopen_path_r E COMMAND_FILE r of
        (None, r) \<Rightarrow> (argv, r)
      | (Some f, r) \<Rightarrow>
          (case fread (f_data f) 0 (length (f_data f)) (r_world r) of (got, w) \<Rightarrow>
             let r = r\<lparr>r_world := w\<rparr>;
                 r = (if length got \<noteq> length (f_data f) then loge (''Error in '' @ COMMAND_FILE @ newline @ ''('' @ v_strerror E 0 @ '')'' @ newline) r else r) in
             (hd argv # file_args (MAX_ARGS - 1) (chars got), r)))"

definition put_args :: "string list \<Rightarrow> bootloader_message \<Rightarrow> bootloader_message" where
  "put_args args boot =
     boot\<lparr>b_command := strlcpy (b_command boot) (bytes_of ''boot-recovery''),
          b_recovery := foldl (\<lambda>b a. strlcat (strlcat b (bytes_of a)) [10]) (strlcpy (b_recovery boot) (bytes_of (''recovery'' @ newline))) args\<rparr>"

text \<open>\<open>get_args\<close> returns the arguments and the stage.\<close>

definition get_args ::
  "('c, 'd, 'p, 'f, 'i) recovery_env \<Rightarrow> ('f, 'r, 'm) misc_env \<Rightarrow> string list \<Rightarrow> 'f recovery \<Rightarrow> (string list \<times> string \<times> 'f recovery) option" where
  "get_args E M argv r = do {
     (_, boot, r) \<leftarrow> get_bootloader_message M zero_message r;
     let stage = chars (cstr (b_stage boot));
     let (argv, boot, r) = (if length argv \<le> 1 then args_from_message argv boot r else (argv, boot, r));
     let (argv, r) = (if length argv \<le> 1 then args_from_file E argv r else (argv, r));
     (_, r) \<leftarrow> set_bootloader_message M (put_args (tl argv) boot) r;
     Some (argv, stage, r) }"

definition set_sdcard_update_bootloader_message :: "('f, 'r, 'm) misc_env \<Rightarrow> 'f recovery \<Rightarrow> 'f recovery option" where
  "set_sdcard_update_bootloader_message M r = map_option snd (set_bootloader_message M (put_args [] zero_message) r)"

section \<open>Laws of the buffers\<close>

lemma length_strlcpy [simp]: "length (strlcpy dst src) = length dst"
  by (cases dst) (auto simp: strlcpy_def Let_def min_def)

lemma length_strlcat [simp]: "length (strlcat dst src) = length dst"
proof -
  have "length (cstr dst) \<le> length dst" unfolding cstr_def by (rule length_takeWhile_le)
  then show ?thesis by (simp add: strlcat_def Let_def)
qed

lemma strlcpy_fits: "length src < length dst \<Longrightarrow> strlcpy dst src = src @ 0 # drop (length src + 1) dst"
  by (auto simp: strlcpy_def Let_def)

lemma cstr_zero: "0 \<notin> set x \<Longrightarrow> cstr (x @ 0 # r) = x"
  by (simp add: cstr_def takeWhile_append)

lemma strlcat_fits:
  assumes "0 \<notin> set x" "length src \<le> length r"
  shows "strlcat (x @ 0 # r) src = x @ src @ 0 # drop (length src) r"
  using assms by (simp add: strlcat_def Let_def cstr_zero strlcpy_fits)

definition arg_text :: "string list \<Rightarrow> buffer" where
  "arg_text args = concat (map (\<lambda>a. bytes_of a @ [10]) args)"

definition arg_ok :: "string \<Rightarrow> bool" where
  "arg_ok a \<longleftrightarrow> a \<noteq> [] \<and> 0 \<notin> set (bytes_of a) \<and> 10 \<notin> set (bytes_of a)"

lemma arg_text_zero: "list_all arg_ok args \<Longrightarrow> 0 \<notin> set (arg_text args)"
  by (auto simp: arg_text_def arg_ok_def list_all_iff)

lemma strlcat_args:
  assumes "list_all arg_ok args" "0 \<notin> set x" "length (arg_text args) \<le> length r"
  shows "\<exists>r'. foldl (\<lambda>b a. strlcat (strlcat b (bytes_of a)) [10]) (x @ 0 # r) args = x @ arg_text args @ 0 # r' \<and> length r' + length (arg_text args) = length r"
  using assms
proof (induction args arbitrary: x r)
  case (Cons a args)
  let ?y = "x @ bytes_of a @ [10]" and ?r = "drop (length a + 1) r"
  have a: "0 \<notin> set (bytes_of a)" "length a + 1 + length (arg_text args) \<le> length r"
    using Cons.prems by (auto simp: arg_ok_def arg_text_def)
  have "strlcat (strlcat (x @ 0 # r) (bytes_of a)) [10] = strlcat ((x @ bytes_of a) @ 0 # drop (length a) r) [10]"
    using Cons.prems(2) a by (subst strlcat_fits) simp_all
  also have "\<dots> = ?y @ 0 # ?r"
    using Cons.prems(2) a by (subst strlcat_fits) (simp_all add: drop_drop add.commute)
  finally have s: "strlcat (strlcat (x @ 0 # r) (bytes_of a)) [10] = ?y @ 0 # ?r" .
  have "\<exists>r'. foldl (\<lambda>b a. strlcat (strlcat b (bytes_of a)) [10]) (?y @ 0 # ?r) args = ?y @ arg_text args @ 0 # r' \<and> length r' + length (arg_text args) = length ?r"
    by (rule Cons.IH) (use Cons.prems a in \<open>simp_all\<close>)
  then obtain r' where "foldl (\<lambda>b a. strlcat (strlcat b (bytes_of a)) [10]) (?y @ 0 # ?r) args = ?y @ arg_text args @ 0 # r'"
    "length r' + length (arg_text args) = length ?r" by blast
  with s a(2) show ?case by (intro exI [of _ r']) (simp add: arg_text_def)
qed (simp add: arg_text_def)

subsection \<open>Taking the arguments apart\<close>

lemma strtok_at_line:
  assumes "drop pos b = t @ 10 # s" "t \<noteq> []" "0 \<notin> set t" "10 \<notin> set t" "pos \<le> length b"
  shows "strtok_at [10] b pos = Some (t, b[pos + length t := 0], pos + length t + 1)" "drop (pos + length t + 1) (b[pos + length t := 0]) = s"
proof -
  have "takeWhile (\<lambda>c. c \<in> set [10]) (t @ 10 # s) = []" using assms(2,4) by (cases t) auto
  moreover have "takeWhile (\<lambda>c. c \<noteq> 0 \<and> c \<notin> set [10]) (t @ 10 # s) = t" using assms(3,4) by (auto simp: takeWhile_append)
  moreover have "\<not> length b \<le> pos + length t" using arg_cong [OF assms(1), of length] assms(5) by simp
  moreover have "b ! (pos + length t) = 10" using assms(1,5) by (metis nth_append_length nth_drop)
  ultimately show "strtok_at [10] b pos = Some (t, b[pos + length t := 0], pos + length t + 1)"
    using assms(1,2) by (simp add: strtok_at_def Let_def)
  have "drop (pos + length t + 1) (b[pos + length t := 0]) = drop (pos + length t + 1) b" by (rule drop_update_cancel) simp
  also have "\<dots> = drop (length t + 1) (drop pos b)" by (simp add: add.commute)
  finally show "drop (pos + length t + 1) (b[pos + length t := 0]) = s" using assms(1) by simp
qed

lemma strtok_at_end: "drop pos b = 0 # s \<Longrightarrow> strtok_at [10] b pos = None"
  by (simp add: strtok_at_def Let_def)

lemma boot_args_text:
  assumes "list_all arg_ok args" "length args \<le> n" "drop pos b = arg_text args @ 0 # s" "pos \<le> length b"
  shows "fst (boot_args n b pos) = args \<and> length (snd (boot_args n b pos)) = length b"
  using assms
proof (induction args arbitrary: n b pos)
  case Nil
  then show ?case by (cases n) (simp_all add: strtok_at_end arg_text_def)
next
  case (Cons a args)
  obtain m where n: "n = Suc m" using Cons.prems(2) by (cases n) auto
  have d: "drop pos b = bytes_of a @ 10 # arg_text args @ 0 # s" using Cons.prems(3) by (simp add: arg_text_def)
  have a: "bytes_of a \<noteq> []" "0 \<notin> set (bytes_of a)" "10 \<notin> set (bytes_of a)" using Cons.prems(1) by (auto simp: arg_ok_def bytes_of_def)
  note t = strtok_at_line [OF d a Cons.prems(4)]
  have "pos + length (bytes_of a) + 1 \<le> length (b[pos + length (bytes_of a) := 0])" using arg_cong [OF d, of length] Cons.prems(4) by simp
  from Cons.IH [OF _ _ t(2) this, of m] Cons.prems(1,2) n have "fst (boot_args m (b[pos + length a := 0]) (pos + length a + 1)) = args
      \<and> length (snd (boot_args m (b[pos + length a := 0]) (pos + length a + 1))) = length b" by simp
  then show ?case using t(1) n by (auto split: prod.splits)
qed

text \<open>The arguments fit into the message and into the array.\<close>

definition args_fit :: "string list \<Rightarrow> bool" where
  "args_fit args \<longleftrightarrow> list_all arg_ok args \<and> length (arg_text args) < 759 \<and> length args < MAX_ARGS"

lemma recovery_bytes: "bytes_of (''recovery'' @ newline) = bytes_of ''recovery'' @ [10]" "0 \<notin> set (bytes_of ''recovery'')" "10 \<notin> set (bytes_of ''recovery'')"
  by (code_simp)+

lemma put_args_text:
  assumes "args_fit args" "length (b_recovery boot) = 768"
  shows "\<exists>r. b_recovery (put_args args boot) = bytes_of ''recovery'' @ [10] @ arg_text args @ 0 # r \<and> length r + length (arg_text args) = 758"
proof -
  let ?x = "bytes_of ''recovery'' @ [10]"
  have "strlcpy (b_recovery boot) ?x = ?x @ 0 # drop 10 (b_recovery boot)"
    using assms(2) by (subst strlcpy_fits) (simp_all add: numeral_eq_Suc)
  moreover have "\<exists>r'. foldl (\<lambda>b a. strlcat (strlcat b (bytes_of a)) [10]) (?x @ 0 # drop 10 (b_recovery boot)) args = ?x @ arg_text args @ 0 # r'
      \<and> length r' + length (arg_text args) = length (drop 10 (b_recovery boot))"
    by (rule strlcat_args) (use assms recovery_bytes in \<open>auto simp: args_fit_def\<close>)
  ultimately show ?thesis using assms(2) unfolding put_args_def recovery_bytes(1) by auto
qed

lemma update_terminator: "length x \<le> i \<Longrightarrow> \<exists>r'. (x @ 0 # r)[i := 0] = x @ 0 # (r' :: buffer)"
  by (cases "i - length x") (auto simp: list_update_append)

lemma args_from_put_args:
  assumes "args_fit args" "length (b_recovery boot) = 768"
  shows "\<exists>b. args_from_message argv (put_args args boot) r = (''recovery'' # args, (put_args args boot)\<lparr>b_recovery := b\<rparr>, r) \<and> length b = 768"
proof -
  from put_args_text [OF assms] obtain s where s: "b_recovery (put_args args boot) = bytes_of ''recovery'' @ 10 # arg_text args @ 0 # s"
    "length s + length (arg_text args) = 758" by auto
  let ?b = "(b_recovery (put_args args boot))[767 := 0]"
  from update_terminator [of "bytes_of ''recovery'' @ 10 # arg_text args" 767 s] assms(1) s(1) obtain s' where
    d: "drop 0 ?b = bytes_of ''recovery'' @ 10 # arg_text args @ 0 # s'" by (auto simp: args_fit_def)
  have len: "length ?b = 768" using s by simp
  have ne: "bytes_of ''recovery'' \<noteq> []" by (simp add: bytes_of_def)
  note t = strtok_at_line [OF d ne recovery_bytes(2,3)]
  let ?c = "?b[0 + length (bytes_of ''recovery'') := 0]"
  have f: "fst (boot_args (MAX_ARGS - 1) ?c (0 + length (bytes_of ''recovery'') + 1)) = args
      \<and> length (snd (boot_args (MAX_ARGS - 1) ?c (0 + length (bytes_of ''recovery'') + 1))) = length ?c"
    by (rule boot_args_text [OF _ _ t(2)]) (use assms(1) len in \<open>simp_all add: args_fit_def MAX_ARGS_def\<close>)
  show ?thesis
    using f t(1) len unfolding args_from_message_def Let_def by (auto split: prod.splits)
qed


section \<open>Restarting\<close>

lemma message_ok_put: "message_ok b \<Longrightarrow> message_ok (put_args args b)"
proof -
  have "length (foldl (\<lambda>b a. strlcat (strlcat b (bytes_of a)) [10]) x args) = length x" for x
    by (induction args arbitrary: x) simp_all
  then show "message_ok b \<Longrightarrow> message_ok (put_args args b)" by (simp add: message_ok_def put_args_def)
qed

lemma strtok_at_length: "strtok_at d b p = Some (t, b', p') \<Longrightarrow> length b' = length b"
  by (auto simp: strtok_at_def Let_def split: if_splits)

lemma boot_args_length: "length (snd (boot_args n b p)) = length b"
  by (induction n b p rule: boot_args.induct) (auto split: option.splits prod.splits dest: strtok_at_length)

lemma args_from_message_keeps:
  assumes "args_from_message argv b r = (argv', b', r')"
  shows "message_ok b \<Longrightarrow> message_ok b'" "r_world r' = r_world r"
proof -
  have "length (snd (boot_args n x p)) = length x" for n x p by (rule boot_args_length)
  then have l: "boot_args n x p = (ts, y) \<Longrightarrow> length y = length x" for n x p ts y by (metis snd_conv)
  show "message_ok b \<Longrightarrow> message_ok b'" "r_world r' = r_world r"
    using assms by (auto simp: args_from_message_def Let_def message_ok_def split: option.splits prod.splits if_splits dest!: strtok_at_length l)
qed

text \<open>Mounting a volume makes no other call fail and leaves the device of \<open>/misc\<close> alone.\<close>

definition mount_keeps :: "('c, 'd, 'p, 'f, 'i) recovery_env \<Rightarrow> string \<Rightarrow> bool" where
  "mount_keeps E dev \<longleftrightarrow> (\<forall>p w. (answers w = [] \<longrightarrow> answers (snd (v_ensure_path_mounted E p w)) = [])
     \<and> lookup_file (snd (v_ensure_path_mounted E p w)) dev = lookup_file w dev)"

lemma args_from_file_ready:
  assumes "args_from_file E argv r = (argv', r')" "mount_keeps E dev" "emmc_ready dev r"
  shows "emmc_ready dev r'"
proof -
  obtain m w where m: "v_ensure_path_mounted E COMMAND_FILE (r_world r) = (m, w)" by fastforce
  with assms(2,3) have w: "answers w = []" "lookup_file w dev = lookup_file (r_world r) dev"
    by (auto simp: mount_keeps_def emmc_ready_def) (metis snd_conv)+
  with assms(3) have "r_world r' = w \<Longrightarrow> emmc_ready dev r'" by (simp add: emmc_ready_def)
  moreover have "r_world r' = w"
    using assms(1) m w(1) by (auto simp: args_from_file_def fopen_path_r_def sys_ok_plain fread_plain Let_def split: option.splits if_splits)
  ultimately show ?thesis by simp
qed

text \<open>The message in the device starts the recovery with some arguments.\<close>

definition boots_with :: "string \<Rightarrow> string list \<Rightarrow> string \<Rightarrow> 'f recovery \<Rightarrow> bool" where
  "boots_with dev args stage r \<longleftrightarrow> (\<exists>boot. message_ok boot \<and> chars (cstr (b_stage boot)) = stage \<and> emmc_holds dev (put_args args boot) r)"

lemma emmc_volume: "m_volume M = Some (''emmc'', dev) \<Longrightarrow> M\<lparr>m_volume := Some (''emmc'', dev)\<rparr> = M"
  by (cases M) simp

lemma emmc_set_total:
  assumes "m_volume M = Some (''emmc'', dev)" "emmc_ready dev r" "message_ok m"
  obtains r' where "set_bootloader_message M m r = Some (0, r')" "emmc_holds dev m r'" "emmc_ready dev r'"
proof -
  obtain f where f: "lookup_file (r_world r) dev = Some f" "answers (r_world r) = []" using assms(2) by (auto simp: emmc_ready_def)
  then obtain r' where s: "set_bootloader_message M m r = Some (0, r')"
    using assms(1,3) by (simp add: set_bootloader_message_def set_block_plain)
  with emmc.set_holds [of dev r m M r'] assms emmc_volume [OF assms(1)] show thesis by (intro that [OF s]) simp_all
qed

lemma get_args_boots:
  assumes run: "get_args E M argv r = Some (argv', stage, r')" and vol: "m_volume M = Some (''emmc'', dev)"
    and ready: "emmc_ready dev r" "mount_keeps E dev"
  shows "emmc_ready dev r' \<and> boots_with dev (tl argv') stage r'"
proof -
  obtain f where f: "lookup_file (r_world r) dev = Some f" "answers (r_world r) = []" "MESSAGE_SIZE \<le> length (f_data f)"
    using ready(1) by (auto simp: emmc_ready_def)
  let ?b = "message_of (take MESSAGE_SIZE (f_data f))"
  have g: "get_bootloader_message M zero_message r = Some (0, ?b, r)"
    using vol by (simp add: get_bootloader_message_def get_block_plain [OF f(2,1,3)])
  have ok: "message_ok ?b" using f(3) by (intro message_ok_of) simp
  obtain a1 b1 r1 where 1: "(if length argv \<le> 1 then args_from_message argv ?b r else (argv, ?b, r)) = (a1, b1, r1)" by (metis surj_pair)
  then have b1: "message_ok b1" "r_world r1 = r_world r"
    using ok args_from_message_keeps [of argv ?b r a1 b1 r1] by (auto split: if_splits)
  have st: "b_stage b1 = b_stage ?b"
    using 1 by (auto simp: args_from_message_def Let_def split: if_splits option.splits prod.splits)
  have r1: "emmc_ready dev r1" using ready(1) b1(2) by (simp add: emmc_ready_def)
  obtain a2 r2 where 2: "(if length a1 \<le> 1 then args_from_file E a1 r1 else (a1, r1)) = (a2, r2)" by (metis surj_pair)
  then have r2: "emmc_ready dev r2" using r1 args_from_file_ready [OF _ ready(2) r1, of a1 a2 r2] by (auto split: if_splits)
  obtain r3 where s: "set_bootloader_message M (put_args (tl a2) b1) r2 = Some (0, r3)" "emmc_holds dev (put_args (tl a2) b1) r3" "emmc_ready dev r3"
    by (rule emmc_set_total [OF vol r2 message_ok_put [OF b1(1)]])
  have "get_args E M argv r = Some (a2, chars (cstr (b_stage ?b)), r3)"
    unfolding get_args_def by (simp only: g bind.simps prod.case Let_def 1 2 s(1))
  then have "argv' = a2" "stage = chars (cstr (b_stage ?b))" "r' = r3" using run by simp_all
  then show ?thesis using s(2,3) b1(1) st unfolding boots_with_def by metis
qed


lemma get_args_resumes:
  assumes boots: "boots_with dev args stage r" and fit: "args_fit args" "args \<noteq> []"
    and vol: "m_volume M = Some (''emmc'', dev)" and ready: "emmc_ready dev r"
  shows "\<exists>r'. get_args E M [x] r = Some (''recovery'' # args, stage, r') \<and> emmc_ready dev r' \<and> boots_with dev args stage r'"
proof -
  from boots obtain boot where b: "message_ok boot" "chars (cstr (b_stage boot)) = stage" "emmc_holds dev (put_args args boot) r"
    by (auto simp: boots_with_def)
  from emmc.get_holds [OF ready b(3), of M zero_message] emmc_volume [OF vol] obtain r1 where
    g: "get_bootloader_message M zero_message r = Some (0, put_args args boot, r1)" "emmc_ready dev r1" by auto
  have "length (b_recovery boot) = 768" using b(1) by (simp add: message_ok_def)
  from args_from_put_args [OF fit(1) this, of "[x]" r1] obtain y where
    y: "args_from_message [x] (put_args args boot) r1 = (''recovery'' # args, (put_args args boot)\<lparr>b_recovery := y\<rparr>, r1)" "length y = 768" by blast
  let ?b = "(put_args args boot)\<lparr>b_recovery := y\<rparr>"
  have ok: "message_ok ?b" using message_ok_put [OF b(1), of args] y(2) by (simp add: message_ok_def)
  obtain r2 where s: "set_bootloader_message M (put_args args ?b) r1 = Some (0, r2)" "emmc_holds dev (put_args args ?b) r2" "emmc_ready dev r2"
    by (rule emmc_set_total [OF vol g(2) message_ok_put [OF ok]])
  have st: "b_stage (put_args args boot) = b_stage boot" "b_stage ?b = b_stage boot" by (simp_all add: put_args_def)
  have "get_args E M [x] r = Some (''recovery'' # args, stage, r2)"
    using fit(2) by (auto simp: get_args_def g(1) y(1) s(1) st b(2) neq_Nil_conv)
  moreover have "boots_with dev args stage r2" unfolding boots_with_def using ok s(2) st(2) b(2) by auto
  ultimately show ?thesis using s(3) by blast
qed

text \<open>C8: the work of the recovery can be restarted at any point: after \<open>get_args\<close> the message in the block device of \<open>/misc\<close> orders the
  bootloader to start the recovery, and a recovery that is started again, whatever has happened to the rest of the system,
  gets the same arguments and the same stage from it and leaves the device in such a state again. This needs arguments that fit into
  the message.\<close>

theorem get_args_restart:
  assumes "get_args E M argv r = Some (argv', stage, r')" "m_volume M = Some (''emmc'', dev)" "emmc_ready dev r" "mount_keeps E dev"
    and "args_fit (tl argv')" "tl argv' \<noteq> []"
    and reboot: "lookup_file (r_world r2) dev = lookup_file (r_world r') dev" "answers (r_world r2) = []"
  shows "(\<exists>f. lookup_file (r_world r') dev = Some f \<and> cstr (f_data f) = bytes_of ''boot-recovery'')
    \<and> (\<exists>r3. get_args E M [x] r2 = Some (''recovery'' # tl argv', stage, r3) \<and> emmc_ready dev r3 \<and> boots_with dev (tl argv') stage r3)"
proof -
  from get_args_boots [OF assms(1-4)] have b: "emmc_ready dev r'" "boots_with dev (tl argv') stage r'" by simp_all
  then have "emmc_ready dev r2" "boots_with dev (tl argv') stage r2"
    using reboot by (simp_all add: emmc_ready_def boots_with_def emmc_holds_def)
  with get_args_resumes [OF _ assms(5,6,2)] have 2: "\<exists>r3. get_args E M [x] r2 = Some (''recovery'' # tl argv', stage, r3) \<and> emmc_ready dev r3
      \<and> boots_with dev (tl argv') stage r3" by blast
  from b(2) obtain boot f where f: "lookup_file (r_world r') dev = Some f" "take MESSAGE_SIZE (f_data f) = message_bytes (put_args (tl argv') boot)" "message_ok boot"
    by (auto simp: boots_with_def emmc_holds_def)
  have "strlcpy (b_command boot) (bytes_of ''boot-recovery'') = bytes_of ''boot-recovery'' @ 0 # drop 14 (b_command boot)"
    using f(3) by (subst strlcpy_fits) (simp_all add: message_ok_def numeral_eq_Suc)
  moreover have "f_data f = take MESSAGE_SIZE (f_data f) @ drop MESSAGE_SIZE (f_data f)" by simp
  ultimately have "f_data f = bytes_of ''boot-recovery'' @ 0 # drop 14 (b_command boot) @ b_status boot @ b_recovery (put_args (tl argv') boot)
      @ b_stage boot @ b_reserved boot @ drop MESSAGE_SIZE (f_data f)"
    unfolding f(2) by (simp add: message_bytes_def put_args_def)
  moreover have "0 \<notin> set (bytes_of ''boot-recovery'')" by code_simp
  ultimately have "cstr (f_data f) = bytes_of ''boot-recovery''" using cstr_zero by metis
  with f(1) 2 show ?thesis by blast
qed


subsection \<open>An empty message\<close>

lemma zero_message_ok: "message_ok zero_message"
  by (simp add: zero_message_def message_ok_of)

lemma zero_args: "args_from_message argv zero_message r = (argv, zero_message\<lparr>b_recovery := (b_recovery zero_message)[767 := 0]\<rparr>, r)"
proof -
  have z: "(b_recovery zero_message)[767 := 0] = replicate 768 0"
    by (simp add: zero_message_def message_of_def MESSAGE_SIZE_def list_eq_iff_nth_eq nth_list_update)
  then have "drop 0 ((b_recovery zero_message)[767 := 0]) = 0 # replicate 767 0" by (simp add: numeral_eq_Suc)
  from strtok_at_end [OF this] z show ?thesis by (simp add: args_from_message_def Let_def)
qed

section \<open>Example\<close>

text \<open>A factory reset: the main system has left a command, and the message is empty.\<close>

definition misc_sample :: "(unit, unit, unit) misc_env" where
  "misc_sample = \<lparr>m_volume = Some (''emmc'', ''/misc''), m_mtd = l_mtd sample_libs, m_write_size = \<lambda>_ _. None, m_strerror = []\<rparr>"

definition reset_device :: "unit recovery" where
  "reset_device = \<lparr>r_world = \<lparr>files = [(''/misc'', \<lparr>f_data = replicate MESSAGE_SIZE 0, f_mode = 0, f_uid = 0, f_gid = 0, f_reg = True\<rparr>),
       (''/cache/recovery/command'', \<lparr>f_data = bytes_of (''--wipe_data'' @ newline), f_mode = 0, f_uid = 0, f_gid = 0, f_reg = True\<rparr>)],
     procs = [], answers = [], mtd_partitions_scanned = False, flash = ()\<rparr>, r_ui = [], r_wipe_cache = 0, r_perf_mode = False\<rparr>"

lemma reset_device_ready: "emmc_ready ''/misc'' reset_device" "mount_keeps device_env d" "m_volume misc_sample = Some (''emmc'', ''/misc'')"
  by (simp_all add: emmc_ready_def reset_device_def lookup_file_def mount_keeps_def misc_sample_def)

lemma reset_command: "\<exists>r'. args_from_file device_env [''recovery''] reset_device = ([''recovery'', ''--wipe_data''], r')"
proof -
  have "file_args (MAX_ARGS - 1) (''--wipe_data'' @ newline) = [''--wipe_data'']" by code_simp
  moreover have "lookup_file (r_world reset_device) COMMAND_FILE = Some \<lparr>f_data = bytes_of (''--wipe_data'' @ newline), f_mode = 0, f_uid = 0, f_gid = 0, f_reg = True\<rparr>"
    "answers (r_world reset_device) = []"
    by (simp_all add: reset_device_def lookup_file_def COMMAND_FILE_def)
  ultimately show ?thesis by (simp add: args_from_file_def fopen_path_r_def sys_ok_plain fread_plain Let_def)
qed

theorem get_args_restart_witness:
  "\<exists>stage r' r3. get_args device_env misc_sample [''recovery''] reset_device = Some ([''recovery'', ''--wipe_data''], stage, r')
    \<and> get_args device_env misc_sample [''recovery''] r' = Some ([''recovery'', ''--wipe_data''], stage, r3)"
proof -
  have f: "lookup_file (r_world reset_device) ''/misc'' = Some \<lparr>f_data = replicate MESSAGE_SIZE 0, f_mode = 0, f_uid = 0, f_gid = 0, f_reg = True\<rparr>"
    "answers (r_world reset_device) = []" by (simp_all add: reset_device_def lookup_file_def)
  have m: "get_bootloader_message misc_sample zero_message reset_device = Some (0, zero_message, reset_device)"
    using f by (simp add: get_bootloader_message_def reset_device_ready(3) get_block_plain zero_message_def)
  obtain r1 where c: "args_from_file device_env [''recovery''] reset_device = ([''recovery'', ''--wipe_data''], r1)" using reset_command by blast
  let ?b = "zero_message\<lparr>b_recovery := (b_recovery zero_message)[767 := 0]\<rparr>"
  have ok: "message_ok ?b" using zero_message_ok by (simp add: message_ok_def)
  obtain r2 where s: "set_bootloader_message misc_sample (put_args [''--wipe_data''] ?b) r1 = Some (0, r2)"
    by (rule emmc_set_total [OF reset_device_ready(3) args_from_file_ready [OF c reset_device_ready(2,1)] message_ok_put [OF ok]])
  have "\<exists>stage r'. get_args device_env misc_sample [''recovery''] reset_device = Some ([''recovery'', ''--wipe_data''], stage, r')"
    by (simp add: get_args_def m zero_args c s)
  then obtain stage r' where g: "get_args device_env misc_sample [''recovery''] reset_device = Some ([''recovery'', ''--wipe_data''], stage, r')" by blast
  have a: "answers (r_world r') = []" using get_args_boots [OF g reset_device_ready(3,1,2)] by (simp add: emmc_ready_def)
  have fit: "args_fit (tl [''recovery'', ''--wipe_data''])" by code_simp
  from get_args_restart [OF g reset_device_ready(3,1,2) fit _ refl a, of "''recovery''"] g show ?thesis by auto
qed

end
