(* ===== verification/RecoveryFinish.thy ===== *)
theory RecoveryFinish
  imports RecoveryArgs
begin

text \<open>
  The logs and the end of the recovery, from \<open>recovery.cpp\<close>: what is kept in the cache and how the next start becomes a normal one. A result
  \<^term>\<open>None\<close> is the use of a null pointer. Flushing and \<open>sync\<close> do nothing in the model.
\<close>

section \<open>Logs\<close>

definition LAST_LOG_FILE :: string where "LAST_LOG_FILE = ''/cache/recovery/last_log''"
definition INTENT_FILE :: string where "INTENT_FILE = ''/cache/recovery/intent''"
definition LOG_FILE :: string where "LOG_FILE = ''/cache/recovery/log''"
definition LAST_INSTALL_FILE :: string where "LAST_INSTALL_FILE = ''/cache/recovery/last_install''"
definition LOCALE_FILE :: string where "LOCALE_FILE = ''/cache/recovery/last_locale''"
definition CACHE_ROOT :: string where "CACHE_ROOT = ''/cache''"
definition TEMPORARY_LOG_FILE :: string where "TEMPORARY_LOG_FILE = ''/tmp/recovery.log''"
definition TEMPORARY_INSTALL_FILE :: string where "TEMPORARY_INSTALL_FILE = ''/tmp/last_install''"

text \<open>\<open>fopen\<close> for appending.\<close>

definition open_append :: "string \<Rightarrow> 'f world \<Rightarrow> bool \<times> 'f world" where
  "open_append path w =
     (case sys_ok w of (good, w1) \<Rightarrow>
        if good then
          (case lookup_file w1 path of
             None \<Rightarrow> (True, store_file w1 path \<lparr>f_data = [], f_mode = 0x1B6, f_uid = 0, f_gid = 0, f_reg = True\<rparr>)
           | Some f \<Rightarrow> (\<not> is_dir f, w1))
        else (False, w1))"

text \<open>The loop of \<open>fgets\<close> and \<open>fputs\<close>: a line is copied up to its first zero.\<close>

function copy_lines :: "string \<Rightarrow> string" where
  "copy_lines s =
     (if s = [] then []
      else takeWhile (\<lambda>c. c \<noteq> CHR 0x00) (fgets 4096 s) @ copy_lines (drop (length (fgets 4096 s)) s))"
  by pat_completeness auto
termination
  by (relation "measure length") (auto dest: fgets_progress [where n = 4096])

declare copy_lines.simps [simp del]

definition error_in :: "('c, 'd, 'p, 'f, 'i) recovery_env \<Rightarrow> string \<Rightarrow> bool \<Rightarrow> 'f recovery \<Rightarrow> 'f recovery" where
  "error_in E name bad r = (if bad then loge (''Error in '' @ name @ newline @ ''('' @ v_strerror E 0 @ '')'' @ newline) r else r)"

text \<open>The offset in the temporary log is an argument and a result.\<close>

definition copy_log_file ::
  "('c, 'd, 'p, 'f, 'i) recovery_env \<Rightarrow> string \<Rightarrow> string \<Rightarrow> bool \<Rightarrow> nat \<Rightarrow> 'f recovery \<Rightarrow> (nat \<times> 'f recovery) option" where
  "copy_log_file E source destination app tmplog_offset r = do {
     (log, r) \<leftarrow> fopen_path_for E (if app then open_append destination else creat destination 0x1B6) destination r;
     if \<not> log then Some (tmplog_offset, loge (''Can't open '' @ destination @ newline) r)
     else do {
       let (good, w) = sys_ok (r_world r);
       let pos = (if app then tmplog_offset else 0);
       case (if good then lookup_file w source else None) of
         None \<Rightarrow> Some (tmplog_offset, r\<lparr>r_world := w\<rparr>)
       | Some f \<Rightarrow> do {
           let (got, w) = fread (f_data f) pos (length (f_data f) - pos) w;
           let copied = bytes_of (copy_lines (chars got));
           let (n, w) = append_file destination copied w;
           Some (if app then pos + length got else tmplog_offset,
                 error_in E destination (n \<noteq> length copied)
                   (error_in E source (length got \<noteq> length (f_data f) - pos) (r\<lparr>r_world := w\<rparr>))) } } }"

text \<open>\<open>rotate_last_logs\<close>: the name of the log with number \<open>i\<close>, and the renaming from the last one down.\<close>

definition last_log :: "nat \<Rightarrow> string" where
  "last_log i = take 255 (if i = 0 then LAST_LOG_FILE else LAST_LOG_FILE @ ''.'' @ dec_nat i)"

fun rotate_last_logs :: "nat \<Rightarrow> 'f world \<Rightarrow> 'f world" where
  "rotate_last_logs 0 w = w"
| "rotate_last_logs (Suc i) w = rotate_last_logs i (snd (rename (last_log i) (last_log (i + 1)) w))"

definition copy_logs :: "('c, 'd, 'p, 'f, 'i) recovery_env \<Rightarrow> nat \<Rightarrow> 'f recovery \<Rightarrow> (nat \<times> 'f recovery) option" where
  "copy_logs E tmplog_offset r = do {
     (tmplog_offset, r) \<leftarrow> copy_log_file E TEMPORARY_LOG_FILE LOG_FILE True tmplog_offset r;
     (tmplog_offset, r) \<leftarrow> copy_log_file E TEMPORARY_LOG_FILE LAST_LOG_FILE False tmplog_offset r;
     (tmplog_offset, r) \<leftarrow> copy_log_file E TEMPORARY_INSTALL_FILE LAST_INSTALL_FILE False tmplog_offset r;
     let w = snd (chmod LOG_FILE 0x180 (r_world r));
     let w = snd (chown LOG_FILE 1000 1000 w);
     let w = snd (chmod LAST_LOG_FILE 0x1A0 w);
     let w = snd (chmod LAST_INSTALL_FILE 0x1A4 w);
     Some (tmplog_offset, r\<lparr>r_world := w\<rparr>) }"

section \<open>The end\<close>

definition put_file :: "('c, 'd, 'p, 'f, 'i) recovery_env \<Rightarrow> string \<Rightarrow> string \<Rightarrow> 'f recovery \<Rightarrow> 'f recovery" where
  "put_file E path s r =
     (case append_file path (bytes_of s) (r_world r) of (n, w) \<Rightarrow> error_in E path (n \<noteq> length s) (r\<lparr>r_world := w\<rparr>))"

definition save_intent :: "('c, 'd, 'p, 'f, 'i) recovery_env \<Rightarrow> string option \<Rightarrow> 'f recovery \<Rightarrow> 'f recovery option" where
  "save_intent E send_intent r =
     (case send_intent of
        None \<Rightarrow> Some r
      | Some s \<Rightarrow> do {
          (opened, r) \<leftarrow> fopen_path_w E INTENT_FILE r;
          Some (if opened then put_file E INTENT_FILE s r else loge (''Can't open '' @ INTENT_FILE @ newline) r) })"

text \<open>The stream is used without a test.\<close>

definition save_locale :: "('c, 'd, 'p, 'f, 'i) recovery_env \<Rightarrow> string option \<Rightarrow> 'f recovery \<Rightarrow> 'f recovery option" where
  "save_locale E loc r =
     (case loc of
        None \<Rightarrow> Some r
      | Some s \<Rightarrow> do {
          (opened, r) \<leftarrow> fopen_path_w E LOCALE_FILE r;
          if opened then Some (put_file E LOCALE_FILE s r) else None })"

text \<open>The reset of the message and of the command file.\<close>

definition clear_command :: "('c, 'd, 'p, 'f, 'i) recovery_env \<Rightarrow> ('f, 'r, 'm) misc_env \<Rightarrow> 'f recovery \<Rightarrow> 'f recovery option" where
  "clear_command E M r = do {
     (_, r) \<leftarrow> set_bootloader_message M zero_message r;
     let (mounted, w) = v_ensure_path_mounted E COMMAND_FILE (r_world r);
     let w = (if mounted \<noteq> 0 then w else snd (unlink COMMAND_FILE w));
     Some (r\<lparr>r_world := snd (v_ensure_path_unmounted E CACHE_ROOT w)\<rparr>) }"

definition finish_recovery ::
  "('c, 'd, 'p, 'f, 'i) recovery_env \<Rightarrow> ('f, 'r, 'm) misc_env \<Rightarrow> string option \<Rightarrow> string option \<Rightarrow> nat \<Rightarrow> 'f recovery \<Rightarrow> (nat \<times> 'f recovery) option" where
  "finish_recovery E M loc send_intent tmplog_offset r = do {
     r \<leftarrow> save_intent E send_intent r;
     r \<leftarrow> save_locale E loc r;
     (tmplog_offset, r) \<leftarrow> copy_logs E tmplog_offset r;
     r \<leftarrow> clear_command E M r;
     Some (tmplog_offset, r) }"

text \<open>When the file is empty the buffer is used uninitialised.\<close>

definition load_locale_from_cache :: "('c, 'd, 'p, 'f, 'i) recovery_env \<Rightarrow> string option \<Rightarrow> 'f recovery \<Rightarrow> (string option \<times> 'f recovery) option" where
  "load_locale_from_cache E loc r =
     (case fopen_path_r E LOCALE_FILE r of
        (None, r) \<Rightarrow> Some (loc, r)
      | (Some f, r) \<Rightarrow>
          (case fread (f_data f) 0 (length (f_data f)) (r_world r) of (got, w) \<Rightarrow>
             if got = [] then None
             else Some (Some (filter (\<lambda>c. \<not> isspace c) (takeWhile (\<lambda>c. c \<noteq> CHR 0x00) (fgets 80 (chars got)))),
                        error_in E LOCALE_FILE (length got \<noteq> length (f_data f)) (r\<lparr>r_world := w\<rparr>))))"

section \<open>A normal start\<close>

text \<open>What is needed of mounting and unmounting: no call fails because of it, and neither the device nor the command file changes.\<close>

definition mounts_keep :: "('c, 'd, 'p, 'f, 'i) recovery_env \<Rightarrow> string \<Rightarrow> bool" where
  "mounts_keep E dev \<longleftrightarrow> mount_keeps E dev \<and> mount_keeps E COMMAND_FILE
     \<and> mount_keeps (E\<lparr>v_ensure_path_mounted := v_ensure_path_unmounted E\<rparr>) dev
     \<and> mount_keeps (E\<lparr>v_ensure_path_mounted := v_ensure_path_unmounted E\<rparr>) COMMAND_FILE"

lemma mount_keepsD:
  assumes "mount_keeps E d"
  shows "answers w = [] \<Longrightarrow> answers (snd (v_ensure_path_mounted E p w)) = []" "lookup_file (snd (v_ensure_path_mounted E p w)) d = lookup_file w d"
  using assms by (simp_all add: mount_keeps_def)

lemma unlink_plain: "answers w = [] \<Longrightarrow> answers (snd (unlink p w)) = [] \<and> lookup_file (snd (unlink p w)) p = None \<and> (q \<noteq> p \<longrightarrow> lookup_file (snd (unlink p w)) q = lookup_file w q)"
  by (simp add: unlink_def sys_ok_plain)

lemma clear_command_done:
  assumes run: "clear_command E M r = Some r'" and vol: "m_volume M = Some (''emmc'', dev)" and ready: "emmc_ready dev r"
    and keep: "mounts_keep E dev" "dev \<noteq> COMMAND_FILE" and mnt: "\<And>w. fst (v_ensure_path_mounted E COMMAND_FILE w) = 0"
  shows "emmc_ready dev r' \<and> emmc_holds dev zero_message r' \<and> lookup_file (r_world r') COMMAND_FILE = None"
proof -
  obtain r1 where s: "set_bootloader_message M zero_message r = Some (0, r1)" "emmc_holds dev zero_message r1" "emmc_ready dev r1"
    by (rule emmc_set_total [OF vol ready zero_message_ok])
  let ?w1 = "snd (v_ensure_path_mounted E COMMAND_FILE (r_world r1))"
  let ?w2 = "snd (unlink COMMAND_FILE ?w1)"
  let ?w3 = "snd (v_ensure_path_unmounted E CACHE_ROOT ?w2)"
  have r': "r_world r' = ?w3" using run s(1) mnt [of "r_world r1"] by (auto simp: clear_command_def split: prod.splits)
  have k: "mount_keeps E dev" "mount_keeps (E\<lparr>v_ensure_path_mounted := v_ensure_path_unmounted E\<rparr>) dev"
    "mount_keeps (E\<lparr>v_ensure_path_mounted := v_ensure_path_unmounted E\<rparr>) COMMAND_FILE" using keep(1) by (simp_all add: mounts_keep_def)
  have a: "answers (r_world r1) = []" using s(3) by (simp add: emmc_ready_def)
  have 1: "answers ?w1 = []" "lookup_file ?w1 dev = lookup_file (r_world r1) dev" using mount_keepsD [OF k(1)] a by simp_all
  have 2: "answers ?w2 = []" "lookup_file ?w2 dev = lookup_file (r_world r1) dev" "lookup_file ?w2 COMMAND_FILE = None"
    using unlink_plain [OF 1(1)] keep(2) 1(2) by simp_all
  have "answers ?w3 = []" "lookup_file ?w3 dev = lookup_file (r_world r1) dev" "lookup_file ?w3 COMMAND_FILE = None"
    using mount_keepsD(1) [OF k(2), of ?w2 CACHE_ROOT] mount_keepsD(2) [OF k(2), of CACHE_ROOT ?w2] mount_keepsD(2) [OF k(3), of CACHE_ROOT ?w2] 2 by simp_all
  with s(2,3) r' show ?thesis by (simp add: emmc_ready_def emmc_holds_def)
qed

lemma get_args_cleared:
  assumes vol: "m_volume M = Some (''emmc'', dev)" and ready: "emmc_ready dev r" "emmc_holds dev zero_message r"
    and keep: "mounts_keep E dev" and gone: "lookup_file (r_world r) COMMAND_FILE = None"
  shows "\<exists>r'. get_args E M [x] r = Some ([x], [], r')"
proof -
  from emmc.get_holds [OF ready, of M zero_message] emmc_volume [OF vol] obtain r1 where
    g: "get_bootloader_message M zero_message r = Some (0, zero_message, r1)" "emmc_ready dev r1" by auto
  have "r_world r1 = r_world r"
    using g(1) ready(1) vol by (auto simp: get_bootloader_message_def emmc_ready_def get_block_plain)
  then have gone: "lookup_file (r_world r1) COMMAND_FILE = None" using gone by simp
  have k: "mount_keeps E dev" "mount_keeps E COMMAND_FILE" using keep by (simp_all add: mounts_keep_def)
  obtain m w where m: "v_ensure_path_mounted E COMMAND_FILE (r_world r1) = (m, w)" by fastforce
  have w: "answers w = []" "lookup_file w COMMAND_FILE = None"
    using mount_keepsD(1) [OF k(1), of "r_world r1" COMMAND_FILE] mount_keepsD(2) [OF k(2), of COMMAND_FILE "r_world r1"] g(2) gone m by (simp_all add: emmc_ready_def)
  then have "\<exists>r2. fopen_path_r E COMMAND_FILE r1 = (None, r2)"
    using m by (cases "m = 0") (simp_all add: fopen_path_r_def sys_ok_plain)
  then obtain r2 where f: "args_from_file E [x] r1 = ([x], r2)" by (auto simp: args_from_file_def)
  let ?b = "zero_message\<lparr>b_recovery := (b_recovery zero_message)[767 := 0]\<rparr>"
  have ok: "message_ok ?b" using zero_message_ok by (simp add: message_ok_def)
  obtain r3 where s: "set_bootloader_message M (put_args [] ?b) r2 = Some (0, r3)"
    by (rule emmc_set_total [OF vol args_from_file_ready [OF f k(1) g(2)] message_ok_put [OF ok]])
  have "chars (cstr (b_stage zero_message)) = []" by (simp add: zero_message_def message_of_def cstr_def MESSAGE_SIZE_def chars_def)
  then show ?thesis using g(1) f s by (simp add: get_args_def zero_args)
qed


section \<open>The device while the logs are written\<close>

text \<open>Steps after which no call fails and the file at a path is as before.\<close>

definition calm_at :: "string \<Rightarrow> 'f world \<Rightarrow> 'f world \<Rightarrow> bool" where
  "calm_at d w w' \<longleftrightarrow> (answers w = [] \<and> lookup_file w d \<noteq> None \<longrightarrow> answers w' = [] \<and> lookup_file w' d = lookup_file w d)"

lemma calm_at_refl [simp]: "calm_at d w w"
  by (simp add: calm_at_def)

lemma calm_at_trans: "calm_at d w w1 \<Longrightarrow> calm_at d w1 w2 \<Longrightarrow> calm_at d w w2"
  by (auto simp: calm_at_def)

lemma calm_at_calls:
  "p \<noteq> d \<Longrightarrow> calm_at d w (snd (creat p m w))" "p \<noteq> d \<Longrightarrow> calm_at d w (snd (open_append p w))" "p \<noteq> d \<Longrightarrow> calm_at d w (snd (append_file p b w))"
  "p \<noteq> d \<Longrightarrow> calm_at d w (snd (chmod p m w))" "p \<noteq> d \<Longrightarrow> calm_at d w (snd (chown p u g w))" "calm_at d w (snd (sys_ok w))" "calm_at d w (snd (fread dat pos n w))"
  by (auto simp: calm_at_def creat_def open_append_def append_file_def chmod_def chown_def sys_ok_plain sys_amount_def answer_def fread_plain
      split: option.splits)

lemma status_answers: "getPathDirStatus p w = (st, w1) \<Longrightarrow> answers w = [] \<Longrightarrow> answers w1 = []"
  by (auto simp: getPathDirStatus_def sys_stat_def answer_def split: sum.splits option.splits if_splits)

lemma make_levels_answers: "answers w = [] \<Longrightarrow> make_levels cpath mode timestamp p w = Some (x, w') \<Longrightarrow> answers w' = []"
proof (induction "length cpath - p" arbitrary: p w rule: less_induct)
  case less
  define p' where "p' = p + length (takeWhile (\<lambda>c. c = CHR ''/'') (drop p cpath))"
  define q where "q = p' + length (takeWhile (\<lambda>c. c \<noteq> CHR ''/'') (drop p' cpath))"
  note step = make_levels.simps [of cpath mode timestamp p w, folded p'_def, unfolded Let_def, folded q_def]
  show ?case
  proof (cases "length cpath \<le> p' \<or> length cpath \<le> q")
    case True
    with less.prems show ?thesis by (auto simp: step split: if_splits)
  next
    case False
    have m: "length cpath - q < length cpath - p" using component_nonempty [OF p'_def _ q_def] False by auto
    obtain st w1 where 1: "getPathDirStatus (take q cpath) w = (st, w1)" by (metis surj_pair)
    obtain made w2 where 2: "mkdir (take q cpath) mode w1 = (made, w2)" by (metis surj_pair)
    obtain touched w3 where 3: "utime (take q cpath) w2 = (touched, w3)" by (metis surj_pair)
    have a: "answers w1 = []" using status_answers [OF 1 less.prems(1)] .
    then have b: "answers w2 = []" using 2 by (auto simp: mkdir_def sys_ok_plain split: if_splits)
    then have c: "answers w3 = []" using 3 by (auto simp: utime_def sys_ok_plain)
    show ?thesis using less.prems(2) False 1 2 3 less.hyps [OF m a] less.hyps [OF m b] less.hyps [OF m c] a b c
      by (auto simp: step split: DirStatus.splits if_splits)
  qed
qed

lemma calm_at_hierarchy:
  assumes "dirCreateHierarchy malloc_ok path 0x1FF False True w = Some (x, w')"
  shows "calm_at d w w'"
proof -
  have "answers w = [] \<Longrightarrow> answers w' = []"
    using assms by (auto simp: dirCreateHierarchy_def Let_def split: if_splits prod.splits DirStatus.splits dest: status_answers make_levels_answers)
  moreover have "grown (\<lambda>q. has_prefix q path) w w'"
    using dirCreateHierarchy_total [of "0x1FF" malloc_ok path False True w] assms by (simp add: S_IFMT_def)
  ultimately show ?thesis by (auto simp: calm_at_def grown_def)
qed

lemma calm_at_fopen:
  assumes "fopen_path_for E opener path r = Some (x, r')" "mount_keeps E d" "\<And>w. calm_at d w (snd (opener w))"
  shows "calm_at d (r_world r) (r_world r')"
proof -
  obtain m w where m: "v_ensure_path_mounted E path (r_world r) = (m, w)" by fastforce
  have 1: "calm_at d (r_world r) w"
    using mount_keepsD(1) [OF assms(2), of "r_world r" path] mount_keepsD(2) [OF assms(2), of path "r_world r"] m by (simp add: calm_at_def)
  show ?thesis
  proof (cases "m = 0")
    case False
    then show ?thesis using 1 m assms(1) by (auto simp: fopen_path_for_def)
  next
    case True
    with m assms(1) obtain y w2 where 2: "dirCreateHierarchy (v_malloc_ok E) path 0x1FF False True w = Some (y, w2)" "r_world r' = snd (opener w2)"
      by (auto simp: fopen_path_for_def split: bind_split_asm prod.split_asm)
    show ?thesis unfolding 2(2) by (rule calm_at_trans [OF calm_at_trans [OF 1 calm_at_hierarchy [OF 2(1)]] assms(3)])
  qed
qed

lemma error_in_world [simp]: "r_world (error_in E name bad r) = r_world r"
  by (simp add: error_in_def)

lemma calm_at_copy_log:
  assumes "copy_log_file E source destination app off r = Some (off', r')" "mount_keeps E d" "destination \<noteq> d"
  shows "calm_at d (r_world r) (r_world r')"
proof -
  from assms(1) obtain log r1 where o: "fopen_path_for E (if app then open_append destination else creat destination 0x1B6) destination r = Some (log, r1)"
    by (auto simp: copy_log_file_def split: bind_split_asm)
  have 1: "calm_at d (r_world r) (r_world r1)"
    by (rule calm_at_fopen [OF o assms(2)]) (simp add: calm_at_calls assms(3))
  obtain good w where w: "sys_ok (r_world r1) = (good, w)" by fastforce
  have 2: "calm_at d (r_world r) w" using calm_at_trans [OF 1 calm_at_calls(6)] w by (metis snd_conv)
  show ?thesis
  proof (cases "log \<and> good \<and> lookup_file w source \<noteq> None")
    case False
    then show ?thesis using assms(1) o w 1 2 by (auto simp: copy_log_file_def Let_def split: if_splits)
  next
    case True
    then obtain f where f: "lookup_file w source = Some f" by auto
    let ?pos = "if app then off else 0"
    obtain got w1 where g: "fread (f_data f) ?pos (length (f_data f) - ?pos) w = (got, w1)" by fastforce
    obtain n w2 where n: "append_file destination (bytes_of (copy_lines (chars got))) w1 = (n, w2)" by fastforce
    have "calm_at d w w1" using calm_at_calls(7) [of d w] g by (metis snd_conv)
    moreover have "calm_at d w1 w2" using calm_at_calls(3) [OF assms(3)] n by (metis snd_conv)
    moreover have "r_world r' = w2" using assms(1) True o w f g n by (auto simp: copy_log_file_def Let_def split: if_splits)
    ultimately show ?thesis using 2 calm_at_trans by metis
  qed
qed

text \<open>The files that are written before the message is cleared.\<close>

definition written_files :: "string list" where
  "written_files = [INTENT_FILE, LOCALE_FILE, LOG_FILE, LAST_LOG_FILE, LAST_INSTALL_FILE]"

lemma calm_at_copy_logs:
  assumes "copy_logs E off r = Some (off', r')" "mount_keeps E d" "d \<notin> set written_files"
  shows "calm_at d (r_world r) (r_world r')"
proof -
  from assms(1) obtain o1 r1 o2 r2 o3 r3 where
    c: "copy_log_file E TEMPORARY_LOG_FILE LOG_FILE True off r = Some (o1, r1)"
      "copy_log_file E TEMPORARY_LOG_FILE LAST_LOG_FILE False o1 r1 = Some (o2, r2)"
      "copy_log_file E TEMPORARY_INSTALL_FILE LAST_INSTALL_FILE False o2 r2 = Some (o3, r3)"
    and r': "r_world r' = snd (chmod LAST_INSTALL_FILE 0x1A4 (snd (chmod LAST_LOG_FILE 0x1A0 (snd (chown LOG_FILE 1000 1000 (snd (chmod LOG_FILE 0x180 (r_world r3))))))))"
    by (auto simp: copy_logs_def Let_def split: bind_split_asm)
  have d: "LOG_FILE \<noteq> d" "LAST_LOG_FILE \<noteq> d" "LAST_INSTALL_FILE \<noteq> d" using assms(3) by (auto simp: written_files_def)
  have "calm_at d (r_world r) (r_world r3)"
    using calm_at_copy_log [OF c(1) assms(2) d(1)] calm_at_copy_log [OF c(2) assms(2) d(2)] calm_at_copy_log [OF c(3) assms(2) d(3)] calm_at_trans by metis
  then show ?thesis unfolding r' using calm_at_calls(4) [OF d(1)] calm_at_calls(5) [OF d(1)] calm_at_calls(4) [OF d(2)] calm_at_calls(4) [OF d(3)] calm_at_trans by metis
qed

lemma calm_at_put_file: "path \<noteq> d \<Longrightarrow> calm_at d (r_world r) (r_world (put_file E path s r))"
  using calm_at_calls(3) [of path d "r_world r" "bytes_of s"] by (auto simp: put_file_def split: prod.splits)

lemma calm_at_saves:
  assumes "mount_keeps E d" "d \<notin> set written_files"
  shows "save_intent E intent r = Some r' \<Longrightarrow> calm_at d (r_world r) (r_world r')" "save_locale E loc r = Some r' \<Longrightarrow> calm_at d (r_world r) (r_world r')"
proof -
  have d: "INTENT_FILE \<noteq> d" "LOCALE_FILE \<noteq> d" using assms(2) by (auto simp: written_files_def)
  have o: "calm_at d (r_world r) (r_world r1)" if "fopen_path_w E p r = Some (x, r1)" "p \<noteq> d" for p x r1
    by (rule calm_at_fopen [OF that(1) [unfolded fopen_path_w_def] assms(1) calm_at_calls(1) [OF that(2)]])
  show "save_intent E intent r = Some r' \<Longrightarrow> calm_at d (r_world r) (r_world r')"
    using o [OF _ d(1)] calm_at_put_file [OF d(1)] calm_at_trans by (fastforce simp: save_intent_def split: option.splits bind_split_asm if_splits)
  show "save_locale E loc r = Some r' \<Longrightarrow> calm_at d (r_world r) (r_world r')"
    using o [OF _ d(2)] calm_at_put_file [OF d(2)] calm_at_trans by (fastforce simp: save_locale_def split: option.splits bind_split_asm if_splits)
qed

lemma finish_recovery_done:
  assumes run: "finish_recovery E M loc send_intent off r = Some (off', r')" and vol: "m_volume M = Some (''emmc'', dev)" and ready: "emmc_ready dev r"
    and keep: "mounts_keep E dev" "dev \<notin> set written_files" "dev \<noteq> COMMAND_FILE" and mnt: "\<And>w. fst (v_ensure_path_mounted E COMMAND_FILE w) = 0"
  shows "emmc_ready dev r' \<and> emmc_holds dev zero_message r' \<and> lookup_file (r_world r') COMMAND_FILE = None"
proof -
  from run obtain ra rb rc where s: "save_intent E send_intent r = Some ra" "save_locale E loc ra = Some rb" "copy_logs E off rb = Some (off', rc)"
    "clear_command E M rc = Some r'" by (auto simp: finish_recovery_def split: bind_split_asm)
  have k: "mount_keeps E dev" using keep(1) by (simp add: mounts_keep_def)
  have "calm_at dev (r_world r) (r_world rc)"
    using calm_at_saves(1) [OF k keep(2) s(1)] calm_at_saves(2) [OF k keep(2) s(2)] calm_at_copy_logs [OF s(3) k keep(2)] calm_at_trans by metis
  then have "emmc_ready dev rc" using ready by (auto simp: calm_at_def emmc_ready_def)
  from clear_command_done [OF s(4) vol this keep(1,3) mnt] show ?thesis .
qed

text \<open>C17: after \<open>finish_recovery\<close>, whatever intent, locale and logs it had to save, the message in the block device of \<open>/misc\<close> is all zero and the
  command file is gone, so that a recovery that is started again finds no arguments: its work is not repeated. No call fails, and mounting leaves the
  device and the command file alone.\<close>

theorem finish_recovery_clears:
  assumes run: "finish_recovery E M loc send_intent off r = Some (off', r')" and vol: "m_volume M = Some (''emmc'', dev)" and ready: "emmc_ready dev r"
    and keep: "mounts_keep E dev" "dev \<notin> set written_files" "dev \<noteq> COMMAND_FILE" and mnt: "\<And>w. fst (v_ensure_path_mounted E COMMAND_FILE w) = 0"
    and reboot: "lookup_file (r_world r2) dev = lookup_file (r_world r') dev" "lookup_file (r_world r2) COMMAND_FILE = lookup_file (r_world r') COMMAND_FILE"
      "answers (r_world r2) = []"
  shows "\<exists>r3. get_args E M [x] r2 = Some ([x], [], r3)"
proof -
  from finish_recovery_done [OF run vol ready keep mnt] have
    "emmc_ready dev r2" "emmc_holds dev zero_message r2" "lookup_file (r_world r2) COMMAND_FILE = None"
    using reboot by (simp_all add: emmc_ready_def emmc_holds_def)
  from get_args_cleared [OF vol this(1,2) keep(1) this(3)] show ?thesis .
qed


section \<open>Logs that are kept\<close>

lemma rename_plain:
  assumes "answers w = []" "a \<noteq> b"
  shows "answers (snd (rename a b w)) = []"
    "lookup_file (snd (rename a b w)) q = (case lookup_file w a of None \<Rightarrow> lookup_file w q | Some f \<Rightarrow> if q = b then Some f else if q = a then None else lookup_file w q)"
  using assms by (simp_all add: rename_def sys_ok_plain split: option.split)

lemma last_log_inj: "i \<le> 10 \<Longrightarrow> j \<le> 10 \<Longrightarrow> last_log i = last_log j \<longleftrightarrow> i = j"
proof -
  have "distinct (map last_log [0..<11])" by code_simp
  then have "inj_on last_log {0..<11}" by (simp add: distinct_map)
  then show "i \<le> 10 \<Longrightarrow> j \<le> 10 \<Longrightarrow> last_log i = last_log j \<longleftrightarrow> i = j" by (auto simp: inj_on_def)
qed

lemma rotate_frame:
  assumes "answers w = []" "n \<le> 10" "\<forall>i \<le> n. q \<noteq> last_log i"
  shows "lookup_file (rotate_last_logs n w) q = lookup_file w q"
  using assms
proof (induction n arbitrary: w)
  case (Suc n)
  have "last_log n \<noteq> last_log (Suc n)" using Suc.prems(2) by (simp add: last_log_inj)
  note r = rename_plain [OF Suc.prems(1) this]
  have "lookup_file (rotate_last_logs n (snd (rename (last_log n) (last_log (Suc n)) w))) q = lookup_file (snd (rename (last_log n) (last_log (Suc n)) w)) q"
    by (rule Suc.IH) (use Suc.prems r(1) in auto)
  also have "\<dots> = lookup_file w q" using Suc.prems(3) by (auto simp: r(2) split: option.split)
  finally show ?case by simp
qed simp

lemma rotate_shift:
  assumes "answers w = []" "n \<le> 10" "i < n"
  shows "lookup_file (rotate_last_logs n w) (last_log (i + 1))
      = (case lookup_file w (last_log i) of Some f \<Rightarrow> Some f | None \<Rightarrow> if i + 1 < n then None else lookup_file w (last_log (i + 1)))"
  using assms
proof (induction n arbitrary: w)
  case (Suc n)
  let ?w = "snd (rename (last_log n) (last_log (Suc n)) w)"
  have "last_log n \<noteq> last_log (Suc n)" using Suc.prems(2) by (simp add: last_log_inj)
  note r = rename_plain [OF Suc.prems(1) this]
  show ?case
  proof (cases "i = n")
    case True
    have "lookup_file (rotate_last_logs n ?w) (last_log (Suc n)) = lookup_file ?w (last_log (Suc n))"
      by (rule rotate_frame) (use Suc.prems(2) r(1) in \<open>auto simp: last_log_inj\<close>)
    then show ?thesis using True by (simp add: r(2) split: option.split)
  next
    case False
    then have i: "i < n" using Suc.prems(3) by simp
    have "lookup_file ?w (last_log i) = lookup_file w (last_log i)"
      using i Suc.prems(2) by (auto simp: r(2) last_log_inj split: option.split)
    moreover have "i + 1 = n \<Longrightarrow> lookup_file ?w (last_log (i + 1)) = None"
      using Suc.prems(2) by (auto simp: r(2) last_log_inj split: option.split)
    ultimately show ?thesis using Suc.IH [OF r(1) _ i] Suc.prems(2) i by (cases "i + 1 = n") (auto split: option.split)
  qed
qed simp

text \<open>When no call fails, \<open>rotate_last_logs\<close> with the limit 10 gives the log with number \<open>i\<close> the number \<open>i + 1\<close>; where there was no such log, a
  number below the limit becomes free and the log with the last number stays; files with other names are left alone.\<close>

theorem rotate_last_logs_shift:
  assumes "answers w = []" "i < 10"
  shows "lookup_file (rotate_last_logs 10 w) (last_log (i + 1))
      = (case lookup_file w (last_log i) of Some f \<Rightarrow> Some f | None \<Rightarrow> if i + 1 < 10 then None else lookup_file w (last_log (i + 1)))
    \<and> (q \<notin> last_log ` {..10} \<longrightarrow> lookup_file (rotate_last_logs 10 w) q = lookup_file w q)"
  using rotate_shift [OF assms(1) _ assms(2)] rotate_frame [OF assms(1), of 10 q] by auto

section \<open>Examples\<close>

lemma fopen_path_total: "\<exists>x r'. fopen_path_for E opener path r = Some (x, r')"
proof -
  obtain m w where "v_ensure_path_mounted E path (r_world r) = (m, w)" by fastforce
  then show ?thesis using dirCreateHierarchy_total [of "0x1FF" "v_malloc_ok E" path False True w]
    by (auto simp: fopen_path_for_def S_IFMT_def split: prod.split)
qed

lemma copy_log_total: "\<exists>x r'. copy_log_file E source destination app off r = Some (x, r')"
proof -
  obtain log r1 where "fopen_path_for E (if app then open_append destination else creat destination 0x1B6) destination r = Some (log, r1)"
    using fopen_path_total by blast
  then show ?thesis by (simp add: copy_log_file_def Let_def split: prod.split option.split)
qed

lemma finish_recovery_total:
  assumes "m_volume M = Some (''emmc'', dev)"
  shows "\<exists>off' r'. finish_recovery E M None send_intent off r = Some (off', r')"
proof -
  have "\<exists>r'. save_intent E send_intent r = Some r'"
    using fopen_path_total [of E "creat INTENT_FILE 0x1B6" INTENT_FILE r] by (auto simp: save_intent_def fopen_path_w_def split: option.split)
  moreover have "\<exists>off' r'. copy_logs E off r = Some (off', r')" for r
  proof -
    obtain o1 r1 where 1: "copy_log_file E TEMPORARY_LOG_FILE LOG_FILE True off r = Some (o1, r1)" using copy_log_total by blast
    obtain o2 r2 where 2: "copy_log_file E TEMPORARY_LOG_FILE LAST_LOG_FILE False o1 r1 = Some (o2, r2)" using copy_log_total by blast
    obtain o3 r3 where "copy_log_file E TEMPORARY_INSTALL_FILE LAST_INSTALL_FILE False o2 r2 = Some (o3, r3)" using copy_log_total by blast
    with 1 2 show ?thesis by (simp add: copy_logs_def Let_def)
  qed
  moreover have "\<exists>r'. clear_command E M r = Some r'" for r
    using assms by (auto simp: clear_command_def set_bootloader_message_def split: prod.split)
  ultimately obtain r1 off2 r2 r3 where "save_intent E send_intent r = Some r1" "copy_logs E off r1 = Some (off2, r2)" "clear_command E M r2 = Some r3" by metis
  then show ?thesis by (simp add: finish_recovery_def save_locale_def)
qed

theorem finish_recovery_clears_witness:
  "\<exists>off' r' r3. finish_recovery device_env misc_sample None (Some ''done'') 0 reset_device = Some (off', r')
    \<and> get_args device_env misc_sample [''recovery''] r' = Some ([''recovery''], [], r3)"
proof -
  obtain off' r' where run: "finish_recovery device_env misc_sample None (Some ''done'') 0 reset_device = Some (off', r')"
    using finish_recovery_total [OF reset_device_ready(3)] by blast
  have keep: "mounts_keep device_env ''/misc''" by (simp add: mounts_keep_def mount_keeps_def device_env_def)
  have d: "''/misc'' \<notin> set written_files" "''/misc'' \<noteq> COMMAND_FILE" by code_simp+
  have m: "fst (v_ensure_path_mounted device_env COMMAND_FILE w) = 0" for w by simp
  have "answers (r_world r') = []"
    using finish_recovery_done [OF run reset_device_ready(3,1) keep d m] by (simp add: emmc_ready_def)
  from finish_recovery_clears [OF run reset_device_ready(3,1) keep d m refl refl this, of "''recovery''"] run show ?thesis by blast
qed

theorem rotate_last_logs_shift_witness:
  "lookup_file (rotate_last_logs 10 (file_world LAST_LOG_FILE [1])) (last_log 1) = Some \<lparr>f_data = [1], f_mode = 0, f_uid = 0, f_gid = 0, f_reg = True\<rparr>"
  using rotate_last_logs_shift [of "file_world LAST_LOG_FILE [1]" 0] by (simp add: file_world_def lookup_file_def last_log_def LAST_LOG_FILE_def)

end
