(* ===== verification/Rmtree.thy ===== *)
theory Rmtree
  imports DirUnlink
begin

text \<open>
  Emptying a directory but for one entry, \<open>rmtree_except\<close> of \<open>roots.cpp\<close>, with which a volume is formatted when a
  part of it is to be kept. As in \<open>DirUnlink\<close> the names are those that the directory has when it is opened, and a read of
  the directory that fails ends the list early: the source takes that for the end of the directory.
\<close>

section \<open>The function\<close>

text \<open>\<open>Inl (path, except)\<close> is a call, \<open>Inr (path, except, names)\<close> the loop over the names that are left, which yields the variable
  \<open>rc\<close>. \<^term>\<open>None\<close> is a recursion that does not end: the name is cut at the size of the buffer.\<close>

partial_function (option) rmtree_walk ::
  "(string \<times> string option) + (string \<times> string option \<times> string list) \<Rightarrow> 'f world \<Rightarrow> (int \<times> 'f world) option" where
  "rmtree_walk job w =
     (case job of
        Inl (path, except) \<Rightarrow>
          (case sys_ok w of (opened, w1) \<Rightarrow>
             case lookup_file w1 path of
               None \<Rightarrow> Some (-1, w1)
             | Some f \<Rightarrow>
                 if \<not> opened \<or> \<not> is_dir f then Some (-1, w1)
                 else
                   case readdir_all path w1 of (names, w2) \<Rightarrow> do {
                     (rc, w3) \<leftarrow> rmtree_walk (Inr (path, except, names)) w2;
                     Some (rc, snd (sys_ok w3)) })
      | Inr (path, except, names) \<Rightarrow>
          (case names of
             [] \<Rightarrow> Some (0, w)
           | name # names \<Rightarrow>
               if name = ''.'' \<or> name = ''..'' then rmtree_walk (Inr (path, except, names)) w
               else if except = Some name then rmtree_walk (Inr (path, except, names)) w
               else
                 (let pathbuf = take (PATH_MAX - 1) (path @ ''/'' @ name) in
                  case sys_ok w of (good, w1) \<Rightarrow>
                    case lookup_file w1 pathbuf of
                      None \<Rightarrow> Some (-1, w1)
                    | Some st \<Rightarrow>
                        if \<not> good then Some (-1, w1)
                        else do {
                          (rc, w2) \<leftarrow> (if is_dir st then do {
                                         (rc, w2) \<leftarrow> rmtree_walk (Inl (pathbuf, None)) w1;
                                         if rc \<noteq> 0 then Some (rc, w2) else Some (sys_int (rmdir pathbuf w2)) }
                                       else Some (sys_int (unlink pathbuf w1)));
                          if rc \<noteq> 0 then Some (rc, w2) else rmtree_walk (Inr (path, except, names)) w2 })))"

definition rmtree_except :: "string \<Rightarrow> string option \<Rightarrow> 'f world \<Rightarrow> (int \<times> 'f world) option" where
  "rmtree_except path except w = rmtree_walk (Inl (path, except)) w"

lemmas rmtree_walk_code [code] = rmtree_walk.simps

section \<open>What is removed\<close>

text \<open>Files are only removed from the list, and only in the tree of a child: \<open>thinned\<close>. A system is \<open>quiet\<close> when no call
  will fail and its directories have no entries for themselves and their parents.\<close>

definition thinned :: "string \<Rightarrow> 'f world \<Rightarrow> 'f world \<Rightarrow> bool" where
  "thinned path w w' \<longleftrightarrow> walked path w w' \<and> (\<exists>P. files w' = filter P (files w))"

definition quiet :: "'f world \<Rightarrow> bool" where
  "quiet w \<longleftrightarrow> answers w = [] \<and> distinct (map fst (files w)) \<and> (\<forall>d n. lookup_file w (d @ ''/'' @ n) \<noteq> None \<longrightarrow> n \<noteq> ''.'' \<and> n \<noteq> ''..'')"

text \<open>The entries that a call with an exception may remove.\<close>

definition in_child :: "string \<Rightarrow> string option \<Rightarrow> string \<Rightarrow> bool" where
  "in_child path except q \<longleftrightarrow> (\<exists>name. CHR ''/'' \<notin> set name \<and> except \<noteq> Some name \<and> at_or_below (path @ ''/'' @ name) q)"

definition swept :: "string \<Rightarrow> string option \<Rightarrow> 'f world \<Rightarrow> 'f world \<Rightarrow> bool" where
  "swept path except w w' \<longleftrightarrow> tree_ok w' \<and> (\<exists>P. files w' = filter P (files w))
     \<and> (\<forall>q. lookup_file w' q = lookup_file w q \<or> lookup_file w' q = None \<and> in_child path except q)"

lemma swept_same: "files w' = files w \<Longrightarrow> tree_ok w \<Longrightarrow> swept path except w w'"
  unfolding swept_def tree_ok_def by (auto simp: lookup_file_def intro: exI [of _ "\<lambda>_. True"])

lemma swept_trans: "swept path except w w1 \<Longrightarrow> swept path except w1 w2 \<Longrightarrow> swept path except w w2"
  unfolding swept_def by (metis filter_filter)

lemma thinned_trans: "thinned path w w1 \<Longrightarrow> thinned path w1 w2 \<Longrightarrow> thinned path w w2"
  unfolding thinned_def by (metis filter_filter walked_trans)

lemma thinned_same: "files w' = files w \<Longrightarrow> tree_ok w \<Longrightarrow> thinned path w w'"
  unfolding thinned_def by (auto simp: lookup_file_def fun_eq_iff intro!: walked_same exI [of _ "\<lambda>_. True"])

lemma thinned_child: "thinned (path @ ''/'' @ name) w w' \<Longrightarrow> CHR ''/'' \<notin> set name \<Longrightarrow> except \<noteq> Some name \<Longrightarrow> swept path except w w'"
  unfolding thinned_def swept_def walked_def pruned_def in_child_def by blast

lemma swept_thinned: "swept path except w w' \<Longrightarrow> thinned path w w'"
  unfolding thinned_def swept_def walked_def pruned_def in_child_def using at_or_below_child by blast

lemma quiet_thinned: "quiet w \<Longrightarrow> thinned path w w' \<Longrightarrow> answers w' = [] \<Longrightarrow> quiet w'"
  unfolding quiet_def thinned_def walked_def pruned_def by (metis distinct_map_filter)

lemma swept_short: "swept path except w w' \<Longrightarrow> short_paths w \<Longrightarrow> short_paths w'"
  unfolding swept_def short_paths_def by metis

text \<open>A child that is a file, and a child directory that is empty.\<close>

lemma unlink_thinned:
  assumes "tree_ok w" "path \<noteq> []" "lookup_file w path = Some f" "\<not> is_dir f" "unlink path w = (good, w')"
  shows "thinned path w w' \<and> (answers w = [] \<longrightarrow> good \<and> answers w' = [] \<and> lookup_file w' path = None)"
proof -
  obtain g w1 where g: "sys_ok w = (g, w1)" by (cases "sys_ok w")
  have f: "files w1 = files w" using sys_ok_files [OF g] by blast
  have "\<exists>P. files w' = filter P (files w)" using assms(5) g f
    by (auto simp: unlink_def delete_file_def split: if_splits intro: exI [of _ "\<lambda>_. True"])
  moreover have "good \<and> answers w' = []" if "answers w = []"
    using assms(3,5) that by (simp add: unlink_def sys_ok_plain) (metis answers_store(2) fst_conv snd_conv)
  ultimately show ?thesis using unlink_walked [OF assms] by (auto simp: thinned_def)
qed

lemma rmdir_thinned:
  assumes "tree_ok w" "path \<noteq> []" "rmdir path w = (good, w')"
  shows "thinned path w w' \<and> (answers w = [] \<and> (\<exists>f. lookup_file w path = Some f \<and> is_dir f) \<and> list_dir w path = []
    \<longrightarrow> good \<and> answers w' = [] \<and> lookup_file w' path = None)"
proof -
  obtain g w1 where g: "sys_ok w = (g, w1)" by (cases "sys_ok w")
  have f: "files w1 = files w" using sys_ok_files [OF g] by blast
  have "\<exists>P. files w' = filter P (files w)" using assms(3) g f
    by (auto simp: rmdir_def delete_file_def split: if_splits option.splits intro: exI [of _ "\<lambda>_. True"])
  moreover have "good \<and> answers w' = []" if "answers w = []" "lookup_file w path = Some d" "is_dir d" "list_dir w path = []" for d
    using assms(3) that by (simp add: rmdir_def sys_ok_plain) (metis answers_store(2))
  ultimately show ?thesis using rmdir_walked [OF assms] unfolding thinned_def by blast
qed

section \<open>The walk\<close>

definition rm_call :: "string \<Rightarrow> string option \<Rightarrow> 'f world \<Rightarrow> (int \<times> 'f world) option \<Rightarrow> bool" where
  "rm_call path except w m \<longleftrightarrow> (\<exists>r w'. m = Some (r, w') \<and> (r = 0 \<or> r = -1) \<and> swept path except w w'
     \<and> (quiet w \<and> (\<exists>f. lookup_file w path = Some f \<and> is_dir f)
         \<longrightarrow> r = 0 \<and> quiet w' \<and> (\<forall>n \<in> set (list_dir w' path). except = Some n)))"

definition rm_loop :: "string \<Rightarrow> string option \<Rightarrow> string list \<Rightarrow> 'f world \<Rightarrow> (int \<times> 'f world) option \<Rightarrow> bool" where
  "rm_loop path except names w m \<longleftrightarrow> (\<exists>r w'. m = Some (r, w') \<and> (r = 0 \<or> r = -1) \<and> swept path except w w'
     \<and> (quiet w \<and> distinct names \<and> (\<forall>n \<in> set names. lookup_file w (path @ ''/'' @ n) \<noteq> None)
         \<longrightarrow> r = 0 \<and> quiet w' \<and> (\<forall>n \<in> set names. except \<noteq> Some n \<longrightarrow> lookup_file w' (path @ ''/'' @ n) = None)))"

text \<open>What a turn does to its entry: the part of the loop between the test of the name and the test of \<open>rc\<close>.\<close>

definition rm_entry :: "string \<Rightarrow> 'f world \<Rightarrow> (int \<times> 'f world) option" where
  "rm_entry c w =
     (case sys_ok w of (good, w1) \<Rightarrow>
        case lookup_file w1 c of
          None \<Rightarrow> Some (-1, w1)
        | Some st \<Rightarrow>
            if \<not> good then Some (-1, w1)
            else if is_dir st then do {
              (rc, w2) \<leftarrow> rmtree_walk (Inl (c, None)) w1;
              if rc \<noteq> 0 then Some (rc, w2) else Some (sys_int (rmdir c w2)) }
            else Some (sys_int (unlink c w1)))"

lemma rm_turn:
  assumes "name \<noteq> ''.''" "name \<noteq> ''..''" "except \<noteq> Some name" "length (path @ ''/'' @ name) < PATH_MAX"
  shows "rmtree_walk (Inr (path, except, name # names)) w =
    do { (rc, w2) \<leftarrow> rm_entry (path @ ''/'' @ name) w;
         if rc \<noteq> 0 then Some (rc, w2) else rmtree_walk (Inr (path, except, names)) w2 }"
proof -
  have t: "take (PATH_MAX - 1) (path @ ''/'' @ name) = path @ ''/'' @ name" using assms(4) by (intro take_all) (simp add: PATH_MAX_def)
  show ?thesis
    by (subst rmtree_walk.simps)
      (use assms t in \<open>simp add: rm_entry_def Let_def split: prod.split option.split Option.bind_split if_split del: append_Cons append_Nil\<close>)
qed

lemma rm_skip:
  "name = ''.'' \<or> name = ''..'' \<or> except = Some name \<Longrightarrow> rmtree_walk (Inr (path, except, name # names)) w = rmtree_walk (Inr (path, except, names)) w"
  by (subst rmtree_walk.simps) auto

text \<open>A turn removes nothing but in the tree of its entry, and without failures the entry is gone.\<close>

definition entry_outcome :: "string \<Rightarrow> 'f world \<Rightarrow> (int \<times> 'f world) option \<Rightarrow> bool" where
  "entry_outcome c w m \<longleftrightarrow> (\<exists>r w'. m = Some (r, w') \<and> (r = 0 \<or> r = -1) \<and> thinned c w w'
     \<and> (quiet w \<and> lookup_file w c \<noteq> None \<longrightarrow> r = 0 \<and> quiet w' \<and> lookup_file w' c = None))"

lemma rm_entry_ok:
  fixes w :: "'f world"
  assumes child: "\<And>v :: 'f world. tree_ok v \<Longrightarrow> short_paths v \<Longrightarrow> rm_call c None v (rmtree_walk (Inl (c, None)) v)"
    and w: "tree_ok w" "short_paths w" and c: "c \<noteq> []"
  shows "entry_outcome c w (rm_entry c w)"
proof -
  obtain g w1 where g: "sys_ok w = (g, w1)" by (cases "sys_ok w")
  have f: "files w1 = files w" using sys_ok_files [OF g] by blast
  then have l: "lookup_file w1 = lookup_file w" by (simp add: lookup_file_def fun_eq_iff)
  have q: "quiet w \<Longrightarrow> g \<and> w1 = w" using g by (simp add: quiet_def sys_ok_plain)
  have t1: "tree_ok w1" "short_paths w1" using w l by (simp_all add: tree_ok_def short_paths_def)
  have s1: "thinned c w w1" by (rule thinned_same [OF f w(1)])
  consider "lookup_file w1 c = None \<or> \<not> g" | st where "g" "lookup_file w1 c = Some st" "\<not> is_dir st" | st where "g" "lookup_file w1 c = Some st" "is_dir st"
    by (cases "lookup_file w1 c") auto
  then show ?thesis
  proof cases
    case 1
    then have "rm_entry c w = Some (-1, w1)" using g by (auto simp: rm_entry_def split: option.split)
    with s1 q l 1 show ?thesis by (auto simp: entry_outcome_def)
  next
    case (2 st)
    obtain good w2 where u: "unlink c w1 = (good, w2)" by (cases "unlink c w1")
    from unlink_thinned [OF t1(1) c 2(2,3) u] have
      u1: "thinned c w1 w2" "answers w1 = [] \<longrightarrow> good \<and> answers w2 = [] \<and> lookup_file w2 c = None" by blast+
    have "rm_entry c w = Some (sys_int (good, w2))" using g 2 u by (simp add: rm_entry_def)
    moreover have "good \<and> quiet w2 \<and> lookup_file w2 c = None" if "quiet w"
      using q [OF that] u1 that quiet_thinned [OF _ u1(1)] by (auto simp: quiet_def [of w])
    ultimately show ?thesis using thinned_trans [OF s1 u1(1)] by (auto simp: entry_outcome_def sys_int_def)
  next
    case (3 st)
    from child [OF t1] obtain rc w2 where
      r: "rmtree_walk (Inl (c, None)) w1 = Some (rc, w2)" "rc = 0 \<or> rc = -1" "swept c None w1 w2"
        "quiet w1 \<Longrightarrow> rc = 0 \<and> quiet w2 \<and> list_dir w2 c = []"
      using 3 by (auto simp: rm_call_def)
    note s2 = thinned_trans [OF s1 swept_thinned [OF r(3)]]
    have t2: "tree_ok w2" using r(3) by (simp add: swept_def)
    obtain good w3 where d: "rmdir c w2 = (good, w3)" by (cases "rmdir c w2")
    from rmdir_thinned [OF t2 c d] have d1: "thinned c w2 w3"
      "answers w2 = [] \<and> (\<exists>f. lookup_file w2 c = Some f \<and> is_dir f) \<and> list_dir w2 c = [] \<longrightarrow> good \<and> answers w3 = [] \<and> lookup_file w3 c = None"
      by blast+
    have "\<not> in_child c None c" by (auto simp: in_child_def at_or_below_def)
    then have c2: "lookup_file w2 c = Some st" using r(3) 3(2) unfolding swept_def by metis
    have e: "rm_entry c w = (if rc \<noteq> 0 then Some (rc, w2) else Some (sys_int (good, w3)))" using g 3 r(1) d by (simp add: rm_entry_def)
    show ?thesis
    proof (cases "rc = 0")
      case True
      have "good \<and> quiet w3 \<and> lookup_file w3 c = None" if "quiet w"
        using q [OF that] r(4) d1 c2 3(3) that quiet_thinned [OF _ d1(1)] by (auto simp: quiet_def [of w2])
      with e True thinned_trans [OF s2 d1(1)] show ?thesis by (auto simp: entry_outcome_def sys_int_def)
    next
      case False
      with e r(2,4) s2 q show ?thesis by (auto simp: entry_outcome_def)
    qed
  qed
qed

lemma other_child: "at_or_below (path @ ''/'' @ name) (path @ ''/'' @ n) \<Longrightarrow> CHR ''/'' \<notin> set n \<Longrightarrow> n = name"
proof (rule ccontr)
  assume a: "at_or_below (path @ ''/'' @ name) (path @ ''/'' @ n)" "CHR ''/'' \<notin> set n" "n \<noteq> name"
  then have "take (length name + 1) n = name @ ''/''" by (simp add: at_or_below_def)
  then have "CHR ''/'' \<in> set (take (length name + 1) n)" by simp
  with a(2) in_set_takeD show False by metis
qed

lemma at_or_below_split: "at_or_below c q \<Longrightarrow> q = c \<or> (\<exists>r. q = c @ ''/'' @ r)"
  unfolding at_or_below_def by (metis append_assoc append_take_drop_id)

lemma rm_loop_ok:
  fixes w :: "'f world"
  assumes child: "\<And>name v :: 'f world. name \<in> set names \<Longrightarrow> tree_ok v \<Longrightarrow> short_paths v
      \<Longrightarrow> rm_call (path @ ''/'' @ name) None v (rmtree_walk (Inl (path @ ''/'' @ name, None)) v)"
    and name: "\<And>name. name \<in> set names \<Longrightarrow> length (path @ ''/'' @ name) < PATH_MAX \<and> CHR ''/'' \<notin> set name"
    and w: "tree_ok w" "short_paths w"
  shows "rm_loop path except names w (rmtree_walk (Inr (path, except, names)) w)"
  using child name w
proof (induction names arbitrary: w)
  case Nil
  then show ?case by (subst rmtree_walk.simps) (simp add: rm_loop_def swept_same)
next
  case (Cons name names)
  have IH: "rm_loop path except names v (rmtree_walk (Inr (path, except, names)) v)" if "tree_ok v" "short_paths v" for v :: "'f world"
    by (rule Cons.IH) (use that Cons.prems(1,2) in auto)
  let ?c = "path @ ''/'' @ name"
  show ?case
  proof (cases "name = ''.'' \<or> name = ''..'' \<or> except = Some name")
    case True
    have "except = Some name" if "quiet w" "lookup_file w ?c \<noteq> None" using True that unfolding quiet_def by metis
    with IH [OF Cons.prems(3,4)] show ?thesis unfolding rm_skip [OF True] rm_loop_def distinct.simps list.set ball_simps(7) by blast
  next
    case False
    then have ne: "name \<noteq> ''.''" "name \<noteq> ''..''" "except \<noteq> Some name" by simp_all
    have len: "length ?c < PATH_MAX" "CHR ''/'' \<notin> set name" using Cons.prems(2) [of name] by simp_all
    have "entry_outcome ?c w (rm_entry ?c w)" by (rule rm_entry_ok [OF Cons.prems(1) Cons.prems(3,4)]) simp_all
    then obtain r w1 where e: "rm_entry ?c w = Some (r, w1)" "r = 0 \<or> r = -1" "thinned ?c w w1"
        "quiet w \<Longrightarrow> lookup_file w ?c \<noteq> None \<Longrightarrow> r = 0 \<and> quiet w1 \<and> lookup_file w1 ?c = None"
      unfolding entry_outcome_def by blast
    note s1 = thinned_child [OF e(3) len(2) ne(3)]
    have t1: "tree_ok w1" "short_paths w1" using s1 swept_short [OF s1 Cons.prems(4)] by (simp_all add: swept_def)
    note turn = rm_turn [OF ne len(1), of names w, unfolded e(1) Option.bind.bind_lunit prod.case]
    show ?thesis
    proof (cases "r = 0")
      case True
      from IH [OF t1] obtain r2 w2 where i: "rmtree_walk (Inr (path, except, names)) w1 = Some (r2, w2)" "r2 = 0 \<or> r2 = -1" "swept path except w1 w2"
          "quiet w1 \<Longrightarrow> distinct names \<Longrightarrow> \<forall>n \<in> set names. lookup_file w1 (path @ ''/'' @ n) \<noteq> None
             \<Longrightarrow> r2 = 0 \<and> quiet w2 \<and> (\<forall>n \<in> set names. except \<noteq> Some n \<longrightarrow> lookup_file w2 (path @ ''/'' @ n) = None)"
        unfolding rm_loop_def by blast
      have keep: "lookup_file w1 (path @ ''/'' @ n) = lookup_file w (path @ ''/'' @ n)" if "n \<in> set names" "n \<noteq> name" for n
        using e(3) other_child [of path name n] Cons.prems(2) [of n] that unfolding thinned_def walked_def pruned_def by (metis list.set_intros(2))
      have gone: "lookup_file w2 ?c = None" if "lookup_file w1 ?c = None" using i(3) that unfolding swept_def by metis
      have "r2 = 0 \<and> quiet w2 \<and> (\<forall>n \<in> set (name # names). except \<noteq> Some n \<longrightarrow> lookup_file w2 (path @ ''/'' @ n) = None)"
        if a: "quiet w" "distinct (name # names)" "\<forall>n \<in> set (name # names). lookup_file w (path @ ''/'' @ n) \<noteq> None"
      proof -
        have q: "quiet w1" "lookup_file w1 ?c = None" using e(4) a(1,3) by simp_all
        have "\<forall>n \<in> set names. lookup_file w1 (path @ ''/'' @ n) \<noteq> None" using keep a(2,3) by (metis distinct.simps(2) list.set_intros(2))
        with i(4) [OF q(1)] a(2) gone [OF q(2)] show ?thesis by simp
      qed
      with i(1,2) turn True swept_trans [OF s1 i(3)] show ?thesis unfolding rm_loop_def by simp
    next
      case False
      with e(4) have "\<not> (quiet w \<and> lookup_file w ?c \<noteq> None)" by blast
      with False turn e(2) s1 show ?thesis unfolding rm_loop_def by auto
    qed
  qed
qed

lemma list_dir_distinct: "distinct (map fst (files w)) \<Longrightarrow> distinct (list_dir w path)"
proof -
  have "inj_on (\<lambda>p. drop (length path + 1) p) {p. take (length path + 1) p = path @ ''/''}"
    by (rule inj_onI) (metis append_take_drop_id mem_Collect_eq)
  moreover assume "distinct (map fst (files w))"
  then have "distinct (map fst (filter (\<lambda>(p, _). take (length path + 1) p = path @ ''/'' \<and> CHR ''/'' \<notin> set (drop (length path + 1) p)) (files w)))"
    by (rule distinct_map_filter)
  ultimately show ?thesis unfolding list_dir_def map_map [symmetric] distinct_map [of "drop _"]
    by (auto elim!: inj_on_subset simp: case_prod_unfold)
qed

lemma rmtree_ok:
  fixes w :: "'f world"
  assumes "tree_ok w" "short_paths w"
  shows "rm_call path except w (rmtree_walk (Inl (path, except)) w)"
  using assms
proof (induction "PATH_MAX - length path" arbitrary: path except w rule: less_induct)
  case less
  obtain g w1 where g: "sys_ok w = (g, w1)" by (cases "sys_ok w")
  have f1: "files w1 = files w" using sys_ok_files [OF g] by blast
  have q1: "quiet w \<Longrightarrow> g \<and> w1 = w" using g by (simp add: quiet_def sys_ok_plain)
  have t1: "tree_ok w1" "short_paths w1" using less.prems f1 by (simp_all add: tree_ok_def short_paths_def lookup_file_def)
  note s1 = swept_same [OF f1 less.prems(1), of path except]
  show ?case
  proof (cases "\<exists>f. lookup_file w1 path = Some f \<and> is_dir f \<and> g")
    case False
    then have "rmtree_walk (Inl (path, except)) w = Some (-1, w1)" using g by (subst rmtree_walk.simps) (auto split: option.split)
    with False q1 s1 show ?thesis by (auto simp: rm_call_def)
  next
    case True
    then obtain f where f: "lookup_file w1 path = Some f" "is_dir f" "g" by blast
    then have len: "length path < PATH_MAX" using t1(2) by (auto simp: short_paths_def)
    obtain names w2 where n: "readdir_all path w1 = (names, w2)" by (cases "readdir_all path w1")
    have f2: "files w2 = files w1" using n by (auto simp: readdir_all_def dest: sys_amount_files split: prod.splits)
    have t2: "tree_ok w2" "short_paths w2" using t1 f2 by (simp_all add: tree_ok_def short_paths_def lookup_file_def)
    have ex: "lookup_file w2 (path @ ''/'' @ x) \<noteq> None \<and> CHR ''/'' \<notin> set x" if "x \<in> set names" for x
      using list_dir_exists [of x w1 path] readdir_all_spec(2) [OF n] that lookup_files [OF f2] by auto
    have "rm_loop path except names w2 (rmtree_walk (Inr (path, except, names)) w2)"
    proof (rule rm_loop_ok [OF _ _ t2])
      fix name and v :: "'f world" assume v: "name \<in> set names" "tree_ok v" "short_paths v"
      have "PATH_MAX - length (path @ ''/'' @ name) < PATH_MAX - length path" using len by simp
      from less.hyps [OF this v(2,3)] show "rm_call (path @ ''/'' @ name) None v (rmtree_walk (Inl (path @ ''/'' @ name, None)) v)" .
    next
      fix x assume "x \<in> set names"
      with ex t2(2) show "length (path @ ''/'' @ x) < PATH_MAX \<and> CHR ''/'' \<notin> set x" unfolding short_paths_def by blast
    qed
    then obtain r w3 where r: "rmtree_walk (Inr (path, except, names)) w2 = Some (r, w3)" "r = 0 \<or> r = -1" "swept path except w2 w3"
        "quiet w2 \<Longrightarrow> distinct names \<Longrightarrow> r = 0 \<and> quiet w3 \<and> (\<forall>x \<in> set names. except \<noteq> Some x \<longrightarrow> lookup_file w3 (path @ ''/'' @ x) = None)"
      using ex unfolding rm_loop_def by blast
    obtain c w4 where c: "sys_ok w3 = (c, w4)" by (cases "sys_ok w3")
    have f4: "files w4 = files w3" using sys_ok_files [OF c] by blast
    have run: "rmtree_walk (Inl (path, except)) w = Some (r, w4)" using g f n r(1) c by (subst rmtree_walk.simps) simp
    have s: "swept path except w w4"
      using swept_trans [OF swept_trans [OF s1 swept_same [OF f2 t1(1)]] swept_trans [OF r(3) swept_same [OF f4]]] r(3) by (simp add: swept_def)
    have "r = 0 \<and> quiet w4 \<and> (\<forall>x \<in> set (list_dir w4 path). except = Some x)" if q: "quiet w"
    proof -
      have e: "w1 = w" "names = list_dir w path" "w2 = w" using q1 [OF q] n readdir_all_plain [of w path] q by (auto simp: quiet_def)
      have "distinct names" using list_dir_distinct [of w path] q unfolding e(2) quiet_def by blast
      with r(4) q e have r3: "r = 0" "quiet w3" "\<forall>x \<in> set names. except \<noteq> Some x \<longrightarrow> lookup_file w3 (path @ ''/'' @ x) = None" by auto
      have w4: "w4 = w3" using c r3(2) by (simp add: quiet_def sys_ok_plain)
      have "except = Some x" if x: "x \<in> set (list_dir w3 path)" for x
      proof -
        have "lookup_file w (path @ ''/'' @ x) \<noteq> None" "lookup_file w3 (path @ ''/'' @ x) \<noteq> None" "CHR ''/'' \<notin> set x"
          using list_dir_exists [OF x] r(3) e(3) unfolding swept_def by metis+
        with r3(3) list_dir_complete e(2) show ?thesis by metis
      qed
      with r3 w4 show ?thesis by simp
    qed
    with run r(2) s show ?thesis by (simp add: rm_call_def)
  qed
qed

section \<open>The result\<close>

lemma rmtree_run:
  assumes "tree_ok w" "short_paths w" "path \<noteq> []"
  obtains r w' where "rmtree_except path except w = Some (r, w')" "r = 0 \<or> r = -1" "swept path except w w'"
    "quiet w \<and> (\<exists>f. lookup_file w path = Some f \<and> is_dir f) \<Longrightarrow> r = 0 \<and> quiet w' \<and> (\<forall>q. in_child path except q \<longrightarrow> lookup_file w' q = None)"
proof -
  from rmtree_ok [OF assms(1,2), of path except] obtain r w' where
    r: "rmtree_except path except w = Some (r, w')" "r = 0 \<or> r = -1" "swept path except w w'"
      "quiet w \<and> (\<exists>f. lookup_file w path = Some f \<and> is_dir f) \<Longrightarrow> r = 0 \<and> quiet w' \<and> (\<forall>n \<in> set (list_dir w' path). except = Some n)"
    unfolding rm_call_def rmtree_except_def by blast
  have "lookup_file w' q = None" if "in_child path except q" "\<forall>n \<in> set (list_dir w' path). except = Some n" for q
  proof (rule ccontr)
    assume q: "lookup_file w' q \<noteq> None"
    from that(1) obtain n where n: "CHR ''/'' \<notin> set n" "except \<noteq> Some n" "at_or_below (path @ ''/'' @ n) q" unfolding in_child_def by blast
    from at_or_below_split [OF n(3)] have "lookup_file w' (path @ ''/'' @ n) \<noteq> None"
    proof
      assume "\<exists>r. q = (path @ ''/'' @ n) @ ''/'' @ r"
      with q r(3) assms(3) show ?thesis unfolding swept_def tree_ok_def by (metis append_is_Nil_conv option.distinct(1))
    qed (use q in simp)
    with list_dir_complete n(1,2) that(2) show False by metis
  qed
  with that [OF r(1-3)] r(4) show ?thesis by blast
qed

text \<open>The entry to be kept and the places outside the directory are in no other entry.\<close>

lemma child_unique:
  assumes "at_or_below (path @ ''/'' @ n) q" "at_or_below (path @ ''/'' @ m) q" "CHR ''/'' \<notin> set n" "CHR ''/'' \<notin> set m"
  shows "n = m"
proof -
  have first: "takeWhile (\<lambda>c. c \<noteq> CHR ''/'') (drop (length path + 1) q) = x" if "at_or_below (path @ ''/'' @ x) q" "CHR ''/'' \<notin> set x" for x
    using at_or_below_split [OF that(1)] that(2) by (auto simp: takeWhile_append)
  from first [OF assms(1,3)] first [OF assms(2,4)] show ?thesis by simp
qed

lemma in_child_kept: "in_child path (Some n) q \<Longrightarrow> CHR ''/'' \<notin> set n \<Longrightarrow> at_or_below path q \<and> \<not> at_or_below (path @ ''/'' @ n) q"
  unfolding in_child_def using child_unique at_or_below_child by blast

text \<open>\<open>rmtree_except\<close> always returns, whatever calls fail, and removes nothing outside the directory, not the directory itself and nothing
  of the entry to be kept; when no call fails it returns zero and everything else in the directory is gone.\<close>

theorem rmtree_except_spec:
  assumes "tree_ok w" "short_paths w" "path \<noteq> []"
  shows "\<exists>r w'. rmtree_except path except w = Some (r, w') \<and> (r = 0 \<or> r = -1)
    \<and> (\<forall>q. lookup_file w' q = lookup_file w q \<or> lookup_file w' q = None \<and> in_child path except q)
    \<and> (quiet w \<and> (\<exists>f. lookup_file w path = Some f \<and> is_dir f) \<longrightarrow> r = 0 \<and> (\<forall>q. in_child path except q \<longrightarrow> lookup_file w' q = None))"
  using rmtree_run [OF assms, of except] unfolding swept_def by metis

section \<open>An example\<close>

definition cache_tree :: "unit world" where
  "cache_tree = \<lparr>files = [(''/c'', tree_inode 0x41ED), (''/c/cot'', tree_inode 0x41ED), (''/c/cot/s'', tree_inode 0x1A4),
       (''/c/d'', tree_inode 0x41ED), (''/c/d/a'', tree_inode 0x1A4), (''/e'', tree_inode 0x1A4)],
     procs = [], answers = [], mtd_partitions_scanned = False, flash = ()\<rparr>"

text \<open>Both conditions on a finite list of files by evaluation.\<close>

lemma tree_ok_eval:
  assumes "list_all (\<lambda>(p, _). list_all (\<lambda>i. p ! i = CHR ''/'' \<longrightarrow> (case lookup_file w (take i p) of Some f \<Rightarrow> is_dir f | None \<Rightarrow> False)) [1..<length p]) (files w)"
  shows "tree_ok w"
  unfolding tree_ok_def
proof (intro allI impI)
  fix d r assume d: "d \<noteq> []" "lookup_file w (d @ ''/'' @ r) \<noteq> None"
  then obtain f where "(d @ ''/'' @ r, f) \<in> set (files w)" unfolding lookup_file_def by (metis map_of_SomeD option.exhaust)
  moreover have "length d \<in> set [1..<length (d @ ''/'' @ r)]" using d(1) unfolding set_upt atLeastLessThan_iff by (simp add: Suc_le_eq)
  ultimately have "case lookup_file w (take (length d) (d @ ''/'' @ r)) of Some f \<Rightarrow> is_dir f | None \<Rightarrow> False"
    using assms unfolding list_all_iff by fastforce
  then show "\<exists>f. lookup_file w d = Some f \<and> is_dir f" by (simp split: option.splits)
qed

lemma quiet_eval:
  assumes "answers w = []" "distinct (map fst (files w))"
    "list_all (\<lambda>(p, _). drop (length p - 2) p \<noteq> ''/.'' \<and> drop (length p - 3) p \<noteq> ''/..'') (files w)"
  shows "quiet w"
  unfolding quiet_def
proof (intro conjI allI impI)
  fix d n assume "lookup_file w (d @ ''/'' @ n) \<noteq> None"
  then obtain f where "(d @ ''/'' @ n, f) \<in> set (files w)" unfolding lookup_file_def by (metis map_of_SomeD option.exhaust)
  with assms(3) have "drop (length (d @ ''/'' @ n) - 2) (d @ ''/'' @ n) \<noteq> ''/.''" "drop (length (d @ ''/'' @ n) - 3) (d @ ''/'' @ n) \<noteq> ''/..''"
    unfolding list_all_iff by fastforce+
  then show "n \<noteq> ''.''" "n \<noteq> ''..''" by auto
qed (use assms in simp_all)

lemma short_paths_eval: "list_all (\<lambda>(p, _). length p < PATH_MAX) (files w) \<Longrightarrow> short_paths w"
  unfolding short_paths_def list_all_iff lookup_file_def by (metis case_prodD map_of_SomeD not_Some_eq)

lemma cache_tree_ok: "tree_ok cache_tree" "quiet cache_tree" "short_paths cache_tree"
proof -
  show "tree_ok cache_tree" by (rule tree_ok_eval) code_simp
  show "quiet cache_tree" by (rule quiet_eval) code_simp+
  show "short_paths cache_tree" by (rule short_paths_eval) code_simp
qed

theorem rmtree_except_spec_witness:
  "\<exists>w'. rmtree_except ''/c'' (Some ''cot'') cache_tree = Some (0, w') \<and> lookup_file w' ''/c/d/a'' = None
     \<and> lookup_file w' ''/c/cot/s'' = lookup_file cache_tree ''/c/cot/s''"
proof -
  have d: "\<exists>f. lookup_file cache_tree ''/c'' = Some f \<and> is_dir f" by (rule exI [of _ "tree_inode 0x41ED"]) code_simp
  have i: "in_child ''/c'' (Some ''cot'') ''/c/d/a''" unfolding in_child_def by (rule exI [of _ "''d''"]) code_simp
  have b: "at_or_below (''/c'' @ ''/'' @ ''cot'') ''/c/cot/s''" by code_simp
  have k: "\<not> in_child ''/c'' (Some ''cot'') ''/c/cot/s''" using in_child_kept [of "''/c''" "''cot''" "''/c/cot/s''"] b by auto
  from rmtree_except_spec [OF cache_tree_ok(1,3), of "''/c''" "Some ''cot''"] cache_tree_ok(2) d obtain w' where
    "rmtree_except ''/c'' (Some ''cot'') cache_tree = Some (0, w')"
    "\<And>q. lookup_file w' q = lookup_file cache_tree q \<or> lookup_file w' q = None \<and> in_child ''/c'' (Some ''cot'') q"
    "\<And>q. in_child ''/c'' (Some ''cot'') q \<Longrightarrow> lookup_file w' q = None" by auto
  with i k show ?thesis by blast
qed

end
