(* ===== verification/Roots.thy ===== *)
theory Roots
  imports Rmtree InstallPackage
begin

text \<open>
  The volumes of the device, \<open>roots.cpp\<close>: the table that is read from \<open>/etc/recovery.fstab\<close>, mounting and unmounting, and
  formatting. The library \<open>fs_mgr\<close>, the volume daemon, the programs that make file systems, \<open>mount\<close> and \<open>umount\<close> are arguments. Messages to
  the log are left out. A result \<^term>\<open>None\<close> is a null pointer that is followed, a store outside a buffer, or a call that
  does not return.
\<close>

section \<open>State and environment\<close>

record fstab_rec =
  blk_device :: string
  mount_point :: string
  fs_type :: string
  fs_type2 :: "string option"
  v_label :: "string option"
  v_length :: int
  fs_mgr_flags :: int

record 'f roots =
  o_world :: "'f world"
  o_fstab :: "fstab_rec list option"
  o_is_datamedia :: bool
  o_primary_storage_path :: "string option"
  o_mounts :: MountsState

text \<open>\<open>b_make_f2fs\<close> is \<^term>\<open>None\<close> in a build without that file system.\<close>

record ('f, 'r, 'm) volume_libs =
  b_os :: "'f platform"
  b_mtd :: "('f, 'r, 'm) mtdlib"
  b_make_ext4fs :: "string \<Rightarrow> int \<Rightarrow> string \<Rightarrow> 'f world \<Rightarrow> int \<times> 'f world"
  b_make_f2fs :: "(string \<Rightarrow> 'f world \<Rightarrow> int \<times> 'f world) option"
  b_malloc_ok :: "nat \<Rightarrow> bool"
  b_strdup_ok :: "string \<Rightarrow> bool"
  fs_mgr_read_fstab :: "string \<Rightarrow> 'f world \<Rightarrow> fstab_rec list option \<times> 'f world"
  fs_mgr_add_entry :: "fstab_rec list \<Rightarrow> string \<Rightarrow> string \<Rightarrow> string \<Rightarrow> int \<times> fstab_rec list"
  fs_mgr_get_entry_for_mount_point :: "fstab_rec list option \<Rightarrow> string \<Rightarrow> fstab_rec option"
  fs_mgr_is_voldmanaged :: "fstab_rec \<Rightarrow> bool"
  vold_is_volume_available :: "string \<Rightarrow> 'f world \<Rightarrow> bool"
  vold_mount_volume :: "string \<Rightarrow> 'f world \<Rightarrow> int \<times> 'f world"
  vold_mount_auto_volume :: "string option \<Rightarrow> 'f world \<Rightarrow> int \<times> 'f world"
  vold_unmount_volume :: "string \<Rightarrow> 'f world \<Rightarrow> int \<times> 'f world"
  vold_unmount_auto_volume :: "string option \<Rightarrow> 'f world \<Rightarrow> int \<times> 'f world"
  vold_format_volume :: "string \<Rightarrow> 'f world \<Rightarrow> int \<times> 'f world"

definition at_world :: "('f world \<Rightarrow> 'a \<times> 'f world) \<Rightarrow> 'f roots \<Rightarrow> 'a \<times> 'f roots" where
  "at_world sys s = (case sys (o_world s) of (x, w) \<Rightarrow> (x, s\<lparr>o_world := w\<rparr>))"

section \<open>The table of volumes\<close>

definition volume_for_path :: "('f, 'r, 'm) volume_libs \<Rightarrow> string \<Rightarrow> 'f roots \<Rightarrow> fstab_rec option" where
  "volume_for_path B path s = fs_mgr_get_entry_for_mount_point B (o_fstab s) path"

definition get_device_volumes :: "'f roots \<Rightarrow> fstab_rec list option" where
  "get_device_volumes s = o_fstab s"

definition volume_for_label :: "string \<Rightarrow> 'f roots \<Rightarrow> fstab_rec option option" where
  "volume_for_label label s = map_option (find (\<lambda>v. v_label v = Some label)) (get_device_volumes s)"

definition write_fstab_entry :: "('f, 'r, 'm) volume_libs \<Rightarrow> fstab_rec \<Rightarrow> string" where
  "write_fstab_entry B v =
     (if fs_type v \<noteq> ''mtd'' \<and> fs_type v \<noteq> ''emmc'' \<and> fs_type v \<noteq> ''bml'' \<and> \<not> fs_mgr_is_voldmanaged B v
         \<and> take 1 (blk_device v) = ''/'' \<and> take 1 (mount_point v) = ''/''
      then blk_device v @ '' '' @ mount_point v @ '' ''
             @ (if fs_type2 v \<noteq> None \<and> fs_type v \<noteq> ''rfs'' then ''auto'' else fs_type v) @ '' defaults'' @ newline
      else [])"

definition atoi :: "string \<Rightarrow> int" where
  "atoi t = to_int32 (fst (strtol10 t))"

definition is_volume_primary_storage :: "('f, 'r, 'm) volume_libs \<Rightarrow> fstab_rec \<Rightarrow> bool option" where
  "is_volume_primary_storage B v =
     (if mount_point v = ''/sdcard'' then Some (fs_type v \<noteq> ''datamedia'')
      else do {
        endp \<leftarrow> (if take 20 (mount_point v) = ''/mnt/media_rw/sdcard'' then Some (Some (drop 20 (mount_point v)))
                 else if fs_mgr_is_voldmanaged B v then
                   map_option (\<lambda>l. if take 6 l = ''sdcard'' then Some (drop 6 l) else None) (v_label v)
                 else Some None);
        Some (case endp of
                None \<Rightarrow> False
              | Some e \<Rightarrow> \<not> (e \<noteq> [] \<and> isdigit (hd e) \<and> atoi e \<noteq> 0)) })"

text \<open>The loop of \<open>load_volume_table\<close>: the file with the entries for other programs, and whether there is no primary storage.\<close>

fun load_entries :: "('f, 'r, 'm) volume_libs \<Rightarrow> fstab_rec list \<Rightarrow> 'f roots \<Rightarrow> 'f roots option" where
  "load_entries B [] s = Some s"
| "load_entries B (v # vs) s = do {
     let s1 = snd (at_world (append_file ''/etc/fstab'' (bytes_of (write_fstab_entry B v))) s);
     primary \<leftarrow> is_volume_primary_storage B v;
     load_entries B vs (if primary then s1\<lparr>o_is_datamedia := False\<rparr> else s1) }"

definition load_volume_table :: "('f, 'r, 'm) volume_libs \<Rightarrow> 'f roots \<Rightarrow> 'f roots option" where
  "load_volume_table B s =
     (case fs_mgr_read_fstab B ''/etc/recovery.fstab'' (o_world s) of (fstab, w) \<Rightarrow>
        let s = s\<lparr>o_world := w, o_fstab := fstab\<rparr> in
        (case fstab of
          None \<Rightarrow> Some s
        | Some vs \<Rightarrow>
            (case fs_mgr_add_entry B vs ''/tmp'' ''ramdisk'' ''ramdisk'' of (added, vs) \<Rightarrow>
               if added < 0 then Some (s\<lparr>o_fstab := None\<rparr>)
               else
                 (case at_world (creat ''/etc/fstab'' 0x1B6) (s\<lparr>o_fstab := Some vs\<rparr>) of (opened, s) \<Rightarrow>
                    if \<not> opened then Some s else load_entries B vs (s\<lparr>o_is_datamedia := True\<rparr>)))))"

section \<open>Storage\<close>

definition MAX_NUM_MANAGED_VOLUMES :: nat where "MAX_NUM_MANAGED_VOLUMES = 10"

record storage_item =
  si_vol :: "fstab_rec option"
  si_label :: string
  si_path :: string

definition storage_entry :: "('f, 'r, 'm) volume_libs \<Rightarrow> 'f roots \<Rightarrow> fstab_rec \<Rightarrow> storage_item list option" where
  "storage_entry B s v =
     (if fs_type v = ''datamedia'' then Some []
      else if mount_point v = ''/external_sd'' \<or> take 7 (mount_point v) = ''/sdcard'' then
        Some [\<lparr>si_vol = Some v, si_label = drop 1 (mount_point v), si_path = mount_point v\<rparr>]
      else if take 20 (mount_point v) = ''/mnt/media_rw/sdcard'' then
        Some [\<lparr>si_vol = Some v, si_label = drop 14 (mount_point v), si_path = mount_point v\<rparr>]
      else if fs_mgr_is_voldmanaged B v then do {
        label \<leftarrow> v_label v;
        let path = ''/storage/'' @ label;
        Some (if take 6 label = ''sdcard'' \<and> vold_is_volume_available B path (o_world s)
              then [\<lparr>si_vol = Some v, si_label = label, si_path = path\<rparr>] else []) }
      else Some [])"

text \<open>The items go to an array of one more than the maximum, without a test of its end.\<close>

fun fill_items :: "('f, 'r, 'm) volume_libs \<Rightarrow> 'f roots \<Rightarrow> fstab_rec list \<Rightarrow> storage_item list \<Rightarrow> storage_item list option" where
  "fill_items B s [] si = Some si"
| "fill_items B s (v # vs) si = do {
     new \<leftarrow> storage_entry B s v;
     if MAX_NUM_MANAGED_VOLUMES + 1 < length (si @ new) then None else fill_items B s vs (si @ new) }"

definition get_storage_items :: "('f, 'r, 'm) volume_libs \<Rightarrow> 'f roots \<Rightarrow> storage_item list option" where
  "get_storage_items B s = do {
     vs \<leftarrow> get_device_volumes s;
     fill_items B s vs
       (if o_is_datamedia s
        then [\<lparr>si_vol = volume_for_path B ''/data'' s, si_label = ''internal storage'', si_path = ''/data/media''\<rparr>] else []) }"

definition get_primary_storage_path :: "('f, 'r, 'm) volume_libs \<Rightarrow> 'f roots \<Rightarrow> string \<times> 'f roots" where
  "get_primary_storage_path B s =
     (case o_primary_storage_path s of
        Some p \<Rightarrow> (p, s)
      | None \<Rightarrow>
          let p = (if volume_for_path B ''/storage/sdcard0'' s \<noteq> None then ''/storage/sdcard0'' else ''/sdcard'') in
          (p, s\<lparr>o_primary_storage_path := Some p\<rparr>))"

definition is_data_media_volume_path :: "('f, 'r, 'm) volume_libs \<Rightarrow> string \<Rightarrow> 'f roots \<Rightarrow> bool" where
  "is_data_media_volume_path B path s =
     (case volume_for_path B path s of
        Some v \<Rightarrow> fs_type v = ''datamedia''
      | None \<Rightarrow> o_is_datamedia s \<and> (path = ''/sdcard'' \<or> take 8 path = ''/sdcard/''))"

definition setup_data_media :: "'f roots \<Rightarrow> 'f roots option" where
  "setup_data_media s = do {
     vs \<leftarrow> get_device_volumes s;
     let mp = (case find (\<lambda>v. fs_type v = ''datamedia'') vs of Some v \<Rightarrow> mount_point v | None \<Rightarrow> ''/sdcard'');
     let s = snd (at_world (rmdir mp) s);
     let s = snd (at_world (mkdir ''/data/media'' 0x1ED) s);
     Some (snd (at_world (symlink (bytes_of ''/data/media'') mp) s)) }"

definition setup_legacy_storage_paths :: "('f, 'r, 'm) volume_libs \<Rightarrow> 'f roots \<Rightarrow> 'f roots" where
  "setup_legacy_storage_paths B s =
     (case get_primary_storage_path B s of (primary_path, s) \<Rightarrow>
        if is_data_media_volume_path B primary_path s then s
        else snd (at_world (symlink (bytes_of primary_path) ''/sdcard'') (snd (at_world (rmdir ''/sdcard'') s))))"

section \<open>Mounting and unmounting\<close>

text \<open>\<open>mkdir\<close> where an error \<open>EEXIST\<close> is as good as success: it is the error of a call that the kernel does not refuse otherwise.\<close>

definition mkdir_or_exists :: "string \<Rightarrow> int \<Rightarrow> 'f world \<Rightarrow> bool \<times> 'f world" where
  "mkdir_or_exists path mode w = (case mkdir path mode w of (made, w1) \<Rightarrow> (made \<or> fst (sys_ok w), w1))"

fun mkdir_all :: "string list \<Rightarrow> int \<Rightarrow> 'f world \<Rightarrow> int \<times> 'f world" where
  "mkdir_all [] mode w = (0, w)"
| "mkdir_all (dir # dirs) mode w =
     (case mkdir_or_exists dir mode w of (good, w1) \<Rightarrow> if good then mkdir_all dirs mode w1 else (-1, w1))"

definition mkdir_p :: "string \<Rightarrow> int \<Rightarrow> 'f world \<Rightarrow> (int \<times> 'f world) option" where
  "mkdir_p path mode w =
     (if path = [] \<or> PATH_MAX \<le> length path then None
      else Some (mkdir_all (map (\<lambda>i. take i path) (filter (\<lambda>i. path ! i = CHR ''/'') [1..<length path]) @ [path]) mode w))"

definition scan_mounts :: "('f, 'r, 'm) volume_libs \<Rightarrow> 'f roots \<Rightarrow> (int \<times> 'f roots) option" where
  "scan_mounts B s =
     (case at_world proc_mounts s of (buf, s) \<Rightarrow> do {
        (result, ms) \<leftarrow> scan_mounted_volumes (b_malloc_ok B) (b_strdup_ok B) buf (o_mounts s);
        Some (result, s\<lparr>o_mounts := ms\<rparr>) })"

definition is_path_mounted :: "('f, 'r, 'm) volume_libs \<Rightarrow> string \<Rightarrow> 'f roots \<Rightarrow> (bool \<times> 'f roots) option" where
  "is_path_mounted B path s =
     (case volume_for_path B path s of
        None \<Rightarrow> Some (False, s)
      | Some v \<Rightarrow>
          if fs_type v = ''ramdisk'' then Some (True, s)
          else do {
            (result, s) \<leftarrow> scan_mounts B s;
            Some (0 \<le> result \<and> find_mounted_volume_by_mount_point (mount_point v) (o_mounts s) \<noteq> None, s) })"

text \<open>\<open>ensure_volume_mounted\<close> from the point where the volume is not yet mounted.\<close>

definition mount_now :: "('f, 'r, 'm) volume_libs \<Rightarrow> fstab_rec \<Rightarrow> 'f roots \<Rightarrow> int \<times> 'f roots" where
  "mount_now B v s =
     (if fs_mgr_is_voldmanaged B v then
        if mount_point v = ''auto'' then at_world (vold_mount_auto_volume B (v_label v)) s
        else at_world (vold_mount_volume B (mount_point v)) s
      else if fs_type v = ''yaffs2'' then
        let s = s\<lparr>o_world := (o_world s)\<lparr>flash := mtd_scan_partitions (b_mtd B) (flash (o_world s))\<rparr>\<rparr> in
        case os_mtd_device (b_os B) (blk_device v) (flash (o_world s)) of
          None \<Rightarrow> (-1, s)
        | Some dev \<Rightarrow> at_world (mtd_mount_partition (b_os B) dev (mount_point v) (fs_type v) False) s
      else if fs_type v = ''ext4'' \<or> b_make_f2fs B \<noteq> None \<and> fs_type v = ''f2fs'' \<or> fs_type v = ''vfat'' then
        case at_world (os_mount (b_os B) (blk_device v) (mount_point v) (fs_type v) False) s of (result, s) \<Rightarrow>
          (if result = 0 then 0 else -1, s)
      else (-1, s))"

definition ensure_volume_mounted :: "('f, 'r, 'm) volume_libs \<Rightarrow> fstab_rec option \<Rightarrow> 'f roots \<Rightarrow> (int \<times> 'f roots) option" where
  "ensure_volume_mounted B vol s =
     (case vol of
        None \<Rightarrow> Some (-1, s)
      | Some v \<Rightarrow>
          if fs_type v = ''ramdisk'' then Some (0, s)
          else do {
            (result, s) \<leftarrow> scan_mounts B s;
            if result < 0 then Some (-1, s)
            else if \<not> fs_mgr_is_voldmanaged B v \<and> find_mounted_volume_by_mount_point (mount_point v) (o_mounts s) \<noteq> None then Some (0, s)
            else do {
              (_, w) \<leftarrow> mkdir_p (mount_point v) 0x1ED (o_world s);
              Some (mount_now B v (s\<lparr>o_world := w\<rparr>)) } })"

text \<open>The volume of a path: by the label below \<open>/storage\<close>.\<close>

definition volume_of_path :: "('f, 'r, 'm) volume_libs \<Rightarrow> string \<Rightarrow> 'f roots \<Rightarrow> fstab_rec option option" where
  "volume_of_path B path s =
     (if take 9 path = ''/storage/'' then
        let label = takeWhile (\<lambda>c. c \<noteq> CHR ''/'') (drop 9 path) in
        if PATH_MAX \<le> length label then None else volume_for_label label s
      else Some (volume_for_path B path s))"

partial_function (option) ensure_path_mounted :: "('f, 'r, 'm) volume_libs \<Rightarrow> string \<Rightarrow> 'f roots \<Rightarrow> (int \<times> 'f roots) option" where
  "ensure_path_mounted B path s =
     (if is_data_media_volume_path B path s then do {
        (ret, s) \<leftarrow> ensure_path_mounted B ''/data'' s;
        if ret \<noteq> 0 then Some (ret, s) else do { s \<leftarrow> setup_data_media s; Some (0, s) } }
      else do {
        v \<leftarrow> volume_of_path B path s;
        if v = None then Some (-1, s) else ensure_volume_mounted B v s })"

lemmas ensure_path_mounted_code [code] = ensure_path_mounted.simps

definition ensure_volume_unmounted :: "('f, 'r, 'm) volume_libs \<Rightarrow> fstab_rec option \<Rightarrow> 'f roots \<Rightarrow> (int \<times> 'f roots) option" where
  "ensure_volume_unmounted B vol s =
     (case vol of
        None \<Rightarrow> Some (-1, s)
      | Some v \<Rightarrow>
          if fs_type v = ''ramdisk'' then Some (-1, s)
          else do {
            (result, s) \<leftarrow> scan_mounts B s;
            if result < 0 then Some (-1, s)
            else if fs_mgr_is_voldmanaged B v then
              Some (if mount_point v = ''auto'' then at_world (vold_unmount_auto_volume B (v_label v)) s
                    else at_world (vold_unmount_volume B (mount_point v)) s)
            else
              case find_mounted_volume_by_mount_point (mount_point v) (o_mounts s) of
                None \<Rightarrow> Some (0, s)
              | Some mv \<Rightarrow> do {
                  (ret, ms, w) \<leftarrow> unmount_mounted_volume (os_umount (b_os B)) mv (o_mounts s) (o_world s);
                  Some (ret, s\<lparr>o_mounts := ms, o_world := w\<rparr>) } })"

definition ensure_path_unmounted :: "('f, 'r, 'm) volume_libs \<Rightarrow> string \<Rightarrow> 'f roots \<Rightarrow> (int \<times> 'f roots) option" where
  "ensure_path_unmounted B path s = do {
     v \<leftarrow> volume_of_path B path s;
     if v = None then Some (-1, s) else ensure_volume_unmounted B v s }"

section \<open>Formatting\<close>

definition rmtree_volume :: "string \<Rightarrow> string option \<Rightarrow> 'f roots \<Rightarrow> (int \<times> 'f roots) option" where
  "rmtree_volume path except s = do { (rc, w) \<leftarrow> rmtree_except path except (o_world s); Some (rc, s\<lparr>o_world := w\<rparr>) }"

definition layout_version :: string where
  "layout_version = ''/data/.layout_version''"

text \<open>The first 256 bytes of the file, \<^term>\<open>None\<close> for a length of \<open>-1\<close> or zero.\<close>

definition read_layout :: "'f world \<Rightarrow> buffer option \<times> 'f world" where
  "read_layout w =
     (case sys_ok w of (opened, w1) \<Rightarrow>
        case lookup_file w1 layout_version of
          None \<Rightarrow> (None, w1)
        | Some f \<Rightarrow>
            if \<not> opened \<or> is_dir f then (None, w1)
            else case fread (f_data f) 0 256 w1 of (buf, w2) \<Rightarrow> (if buf = [] then None else Some buf, w2))"

text \<open>\<open>O_CREAT | O_EXCL\<close>: nothing is written when the file is still there.\<close>

definition restore_layout :: "buffer option \<Rightarrow> 'f world \<Rightarrow> 'f world" where
  "restore_layout version w =
     (case version of
        None \<Rightarrow> w
      | Some buf \<Rightarrow>
          if lookup_file w layout_version \<noteq> None then snd (sys_ok w)
          else
            case creat layout_version 0x180 w of (opened, w1) \<Rightarrow>
              if opened then snd (append_file layout_version buf w1) else w1)"

definition wipe_data :: "('f, 'r, 'm) volume_libs \<Rightarrow> 'f roots \<Rightarrow> (int \<times> 'f roots) option" where
  "wipe_data B s =
     (case at_world read_layout s of (version, s) \<Rightarrow> do {
        (rc, s) \<leftarrow> rmtree_volume ''/data'' (Some ''media'') s;
        let s = s\<lparr>o_world := restore_layout version (o_world s)\<rparr>;
        (_, s) \<leftarrow> ensure_path_unmounted B ''/data'' s;
        Some (rc, s) })"

definition wipe_cache :: "('f, 'r, 'm) volume_libs \<Rightarrow> 'f roots \<Rightarrow> (int \<times> 'f roots) option" where
  "wipe_cache B s = do {
     (rc, s) \<leftarrow> rmtree_volume ''/cache'' (Some ''cot'') s;
     (_, s) \<leftarrow> ensure_path_unmounted B ''/cache'' s;
     Some (rc, s) }"

text \<open>\<open>format_volume\<close> from the point where the volume is formatted for good.\<close>

definition make_filesystem :: "('f, 'r, 'm) volume_libs \<Rightarrow> string \<Rightarrow> fstab_rec \<Rightarrow> 'f roots \<Rightarrow> (int \<times> 'f roots) option" where
  "make_filesystem B volume v s = do {
     (unmounted, s) \<leftarrow> ensure_path_unmounted B volume s;
     if unmounted \<noteq> 0 then Some (-1, s)
     else if fs_mgr_is_voldmanaged B v \<and> volume = mount_point v then do {
       (_, s) \<leftarrow> ensure_path_unmounted B volume s;
       Some (at_world (vold_format_volume B (mount_point v)) s) }
     else if fs_type v = ''yaffs2'' \<or> fs_type v = ''mtd'' then
       (let s = s\<lparr>o_world := (o_world s)\<lparr>flash := mtd_scan_partitions (b_mtd B) (flash (o_world s))\<rparr>\<rparr> in
        case mtd_write_partition (b_mtd B) (blk_device v) (flash (o_world s)) of
          None \<Rightarrow> Some (-1, s)
        | Some ctx \<Rightarrow>
            (case mtd_erase_blocks (b_mtd B) ctx of (pos, ctx) \<Rightarrow>
               case mtd_write_close (b_mtd B) ctx (flash (o_world s)) of (closed, fl) \<Rightarrow>
                 Some (if pos = -1 \<or> closed \<noteq> 0 then -1 else 0, s\<lparr>o_world := (o_world s)\<lparr>flash := fl\<rparr>\<rparr>)))
     else if fs_type v = ''ext4'' then
       (case at_world (b_make_ext4fs B (blk_device v) (v_length v) volume) s of (result, s) \<Rightarrow> Some (if result \<noteq> 0 then -1 else 0, s))
     else
       (case b_make_f2fs B of
          Some make_f2fs_main \<Rightarrow>
            if fs_type v = ''f2fs'' then
              (case at_world (make_f2fs_main (blk_device v)) s of (result, s) \<Rightarrow> Some (if result \<noteq> 0 then -1 else 0, s))
            else Some (-1, s)
        | None \<Rightarrow> Some (-1, s)) }"

definition format_volume :: "('f, 'r, 'm) volume_libs \<Rightarrow> string \<Rightarrow> bool \<Rightarrow> 'f roots \<Rightarrow> (int \<times> 'f roots) option" where
  "format_volume B volume force s =
     (if volume = ''media'' then
        if \<not> o_is_datamedia s then Some (0, s)
        else do {
          (mounted, s) \<leftarrow> ensure_path_mounted B ''/data'' s;
          if mounted \<noteq> 0 then Some (-1, s)
          else do {
            (rc, s) \<leftarrow> rmtree_volume ''/data/media'' None s;
            (_, s) \<leftarrow> ensure_path_unmounted B ''/data'' s;
            Some (rc, s) } }
      else
        case volume_for_path B volume s of
          None \<Rightarrow> Some (-1, s)
        | Some v \<Rightarrow>
            if fs_type v = ''ramdisk'' then Some (-1, s)
            else if mount_point v \<noteq> volume then Some (-1, s)
            else if volume = ''/cache'' \<and> \<not> force then do {
              (mounted, s) \<leftarrow> ensure_path_mounted B ''/cache'' s;
              if mounted = 0 then wipe_cache B s else make_filesystem B volume v s }
            else if volume = ''/data'' \<and> o_is_datamedia s \<and> \<not> force then do {
              (mounted, s) \<leftarrow> ensure_path_mounted B ''/data'' s;
              if mounted = 0 then wipe_data B s else make_filesystem B volume v s }
            else make_filesystem B volume v s)"

end
