(* ===== verification/RootsSpec.thy ===== *)
theory RootsSpec
  imports Roots
begin

text \<open>
  What \<open>roots.cpp\<close> promises: when mounting a path returns, and what a volume that is formatted keeps.
\<close>

section \<open>Mounting\<close>

lemma scan_mounts_fstab: "scan_mounts B s = Some (r, s') \<Longrightarrow> o_fstab s' = o_fstab s"
  by (auto simp: scan_mounts_def at_world_def split: prod.splits bind_split_asm)

lemma at_world_fstab [simp]: "o_fstab (snd (at_world sys s)) = o_fstab s"
  by (simp add: at_world_def split: prod.splits)

lemma at_world_fstab' [simp]: "at_world sys s = (x, s') \<Longrightarrow> o_fstab s' = o_fstab s"
  by (auto simp: at_world_def split: prod.splits)

lemma mount_now_fstab: "o_fstab (snd (mount_now B v s)) = o_fstab s"
  by (simp add: mount_now_def Let_def case_prod_unfold split: option.split)

text \<open>A table in which every mount point fits the buffer of \<open>mkdir_p\<close>, and from which the library takes its answers.\<close>

definition table_ok :: "('f, 'r, 'm) volume_libs \<Rightarrow> 'f roots \<Rightarrow> bool" where
  "table_ok B s \<longleftrightarrow> (\<exists>vs. o_fstab s = Some vs \<and> (\<forall>v \<in> set vs. mount_point v \<noteq> [] \<and> length (mount_point v) < PATH_MAX)
     \<and> (\<forall>p v. fs_mgr_get_entry_for_mount_point B (Some vs) p = Some v \<longrightarrow> v \<in> set vs))"

lemma volume_of_path_returns:
  assumes "table_ok B s" "length path < PATH_MAX"
  shows "\<exists>v. volume_of_path B path s = Some v \<and> (\<forall>x. v = Some x \<longrightarrow> mount_point x \<noteq> [] \<and> length (mount_point x) < PATH_MAX)"
proof -
  from assms(1) obtain vs where vs: "o_fstab s = Some vs" "\<And>v. v \<in> set vs \<Longrightarrow> mount_point v \<noteq> [] \<and> length (mount_point v) < PATH_MAX"
    "\<And>p v. fs_mgr_get_entry_for_mount_point B (Some vs) p = Some v \<Longrightarrow> v \<in> set vs" unfolding table_ok_def by blast
  have "length (takeWhile (\<lambda>c. c \<noteq> CHR ''/'') (drop 9 path)) < PATH_MAX"
    using assms(2) length_takeWhile_le [of "\<lambda>c. c \<noteq> CHR ''/''" "drop 9 path"] by (simp add: length_drop)
  moreover have "v \<in> set vs" if "find P vs = Some v" for P v using that by (auto simp: find_Some_iff)
  ultimately show ?thesis using vs by (auto simp: volume_of_path_def volume_for_path_def volume_for_label_def get_device_volumes_def Let_def)
qed

lemma ensure_volume_mounted_returns:
  assumes "scan_mounts B s \<noteq> None" "\<And>x. v = Some x \<Longrightarrow> mount_point x \<noteq> [] \<and> length (mount_point x) < PATH_MAX"
  shows "\<exists>r s'. ensure_volume_mounted B v s = Some (r, s') \<and> o_fstab s' = o_fstab s"
proof -
  from assms(1) obtain r0 s0 where s0: "scan_mounts B s = Some (r0, s0)" by auto
  show ?thesis
  proof (cases v)
    case (Some x)
    obtain r1 w1 where m: "mkdir_p (mount_point x) 0x1ED (o_world s0) = Some (r1, w1)"
      using assms(2) [OF Some] by (cases "mkdir_p (mount_point x) 0x1ED (o_world s0)") (auto simp: mkdir_p_def)
    obtain r2 s2 where n: "mount_now B x (s0\<lparr>o_world := w1\<rparr>) = (r2, s2)" by (cases "mount_now B x (s0\<lparr>o_world := w1\<rparr>)")
    then have "o_fstab s2 = o_fstab s0" using mount_now_fstab [of B x "s0\<lparr>o_world := w1\<rparr>"] by simp
    with Some s0 m n scan_mounts_fstab [OF s0] show ?thesis unfolding ensure_volume_mounted_def by simp
  qed (simp add: ensure_volume_mounted_def)
qed

lemma data_media_diverges:
  assumes "is_data_media_volume_path B ''/data'' s"
  shows "ensure_path_mounted B ''/data'' s = None"
proof -
  have "False" if "ensure_path_mounted B ''/data'' s = Some y" for y
  proof -
    have "\<not> (''/data'' = ''/data'' \<and> is_data_media_volume_path B ''/data'' s)"
    proof (rule ensure_path_mounted.raw_induct [OF _ that, where P = "\<lambda>B p s y. \<not> (p = ''/data'' \<and> is_data_media_volume_path B ''/data'' s)"])
      fix f :: "('a, 'b, 'c) volume_libs \<Rightarrow> string \<Rightarrow> 'a roots \<Rightarrow> (int \<times> 'a roots) option" and B p s y
      assume IH: "\<And>B p s y. f B p s = Some y \<Longrightarrow> \<not> (p = ''/data'' \<and> is_data_media_volume_path B ''/data'' s)"
        and e: "(if is_data_media_volume_path B p s then do {
            (ret, s) \<leftarrow> f B ''/data'' s;
            if ret \<noteq> 0 then Some (ret, s) else do { s \<leftarrow> setup_data_media s; Some (0, s) } }
          else do {
            v \<leftarrow> volume_of_path B p s;
            if v = None then Some (-1, s) else ensure_volume_mounted B v s }) = Some y"
      show "\<not> (p = ''/data'' \<and> is_data_media_volume_path B ''/data'' s)"
      proof
        assume a: "p = ''/data'' \<and> is_data_media_volume_path B ''/data'' s"
        with e obtain z where "f B ''/data'' s = Some z" by (auto split: bind_split_asm)
        with IH a show False by blast
      qed
    qed
    with assms show False by blast
  qed
  then show ?thesis by (cases "ensure_path_mounted B ''/data'' s") auto
qed

text \<open>C38: a call to mount the volume of a path returns, unless the path is on the data medium and the volume \<open>/data\<close> is entered
  as being on the data medium itself: then it calls itself for ever. The table has to be loaded, its mount points and the path have to fit the
  buffers, and the kernel may not have more mounts than \<open>scan_mounted_volumes\<close> has room for.\<close>

theorem ensure_path_mounted_returns:
  assumes "table_ok B s" "scan_mounts B s \<noteq> None" "length path < PATH_MAX"
  shows "(\<exists>r s'. ensure_path_mounted B path s = Some (r, s'))
    \<longleftrightarrow> \<not> (is_data_media_volume_path B path s \<and> is_data_media_volume_path B ''/data'' s)"
proof -
  have direct: "\<exists>r s'. ensure_path_mounted B p s = Some (r, s') \<and> o_fstab s' = o_fstab s"
    if "\<not> is_data_media_volume_path B p s" "length p < PATH_MAX" for p
  proof -
    from volume_of_path_returns [OF assms(1) that(2)] obtain v where
      v: "volume_of_path B p s = Some v" "\<And>x. v = Some x \<Longrightarrow> mount_point x \<noteq> [] \<and> length (mount_point x) < PATH_MAX" by blast
    with ensure_volume_mounted_returns [OF assms(2) v(2)] that(1) show ?thesis by (subst ensure_path_mounted.simps) auto
  qed
  consider "\<not> is_data_media_volume_path B path s"
    | "is_data_media_volume_path B path s" "is_data_media_volume_path B ''/data'' s"
    | "is_data_media_volume_path B path s" "\<not> is_data_media_volume_path B ''/data'' s" by blast
  then show ?thesis
  proof cases
    case 1
    with direct [OF 1 assms(3)] show ?thesis by blast
  next
    case 2
    with data_media_diverges [OF 2(2)] show ?thesis by (subst ensure_path_mounted.simps) simp
  next
    case 3
    from direct [OF 3(2)] obtain r s1 where d: "ensure_path_mounted B ''/data'' s = Some (r, s1)" "o_fstab s1 = o_fstab s"
      by (auto simp: PATH_MAX_def)
    then have "setup_data_media s1 \<noteq> None" using assms(1) by (auto simp: setup_data_media_def get_device_volumes_def table_ok_def Let_def)
    with d(1) 3 show ?thesis by (subst ensure_path_mounted.simps) auto
  qed
qed

text \<open>What is below a directory is in one of its entries.\<close>

lemma below_in_child: "at_or_below path q \<Longrightarrow> q \<noteq> path \<Longrightarrow> \<not> at_or_below (path @ ''/'' @ n) q \<Longrightarrow> in_child path (Some n) q"
proof -
  assume q: "at_or_below path q" "q \<noteq> path" "\<not> at_or_below (path @ ''/'' @ n) q"
  then obtain r where r: "q = path @ ''/'' @ r" using at_or_below_split by blast
  define m where "m = takeWhile (\<lambda>c. c \<noteq> CHR ''/'') r"
  have "at_or_below (path @ ''/'' @ m) q"
  proof (cases "dropWhile (\<lambda>c. c \<noteq> CHR ''/'') r")
    case Nil
    then have "m = r" unfolding m_def by (simp add: dropWhile_eq_Nil_conv takeWhile_eq_all_conv)
    then show ?thesis by (simp add: at_or_below_def r)
  next
    case (Cons c cs)
    then have "c = CHR ''/''" using hd_dropWhile [of "\<lambda>c. c \<noteq> CHR ''/''" r] by simp
    then have "r = m @ ''/'' @ cs" unfolding m_def using Cons takeWhile_dropWhile_id [of "\<lambda>c. c \<noteq> CHR ''/''" r] by simp
    then show ?thesis by (simp add: at_or_below_def r)
  qed
  moreover have "CHR ''/'' \<notin> set m" unfolding m_def by (auto dest: set_takeWhileD)
  ultimately show ?thesis using q(3) unfolding in_child_def by (intro exI [of _ m]) auto
qed

section \<open>Formatting\<close>

text \<open>How \<open>/cache\<close> is emptied: everything but \<open>/cache/cot\<close>.\<close>

lemma rmtree_volume_run:
  assumes "tree_ok (o_world s)" "short_paths (o_world s)" "path \<noteq> []"
  obtains r w' where "rmtree_volume path except s = Some (r, s\<lparr>o_world := w'\<rparr>)" "r = 0 \<or> r = -1" "swept path except (o_world s) w'"
    "quiet (o_world s) \<and> (\<exists>f. lookup_file (o_world s) path = Some f \<and> is_dir f)
      \<Longrightarrow> r = 0 \<and> quiet w' \<and> (\<forall>q. in_child path except q \<longrightarrow> lookup_file w' q = None)"
proof (rule rmtree_run [OF assms, of except])
  fix r w' assume a: "rmtree_except path except (o_world s) = Some (r, w')" and b: "r = 0 \<or> r = -1" and c: "swept path except (o_world s) w'"
    and d: "quiet (o_world s) \<and> (\<exists>f. lookup_file (o_world s) path = Some f \<and> is_dir f)
      \<Longrightarrow> r = 0 \<and> quiet w' \<and> (\<forall>q. in_child path except q \<longrightarrow> lookup_file w' q = None)"
  show thesis by (rule that [OF _ b c d]) (simp_all add: rmtree_volume_def a)
qed

text \<open>Formatting \<open>/cache\<close> without force, once the volume is mounted, empties it before it is unmounted: whatever calls fail, nothing of
  \<open>/cache/cot\<close> and nothing outside \<open>/cache\<close> is touched; when no call fails, zero is returned and nothing else is left in the volume.\<close>

theorem format_cache_keeps:
  assumes v: "volume_for_path B ''/cache'' s = Some v" "fs_type v \<noteq> ''ramdisk''" "mount_point v = ''/cache''"
    and m: "ensure_path_mounted B ''/cache'' s = Some (0, s1)" "tree_ok (o_world s1)" "short_paths (o_world s1)"
  shows "\<exists>rc w2. format_volume B ''/cache'' False s = map_option (\<lambda>(_, s3). (rc, s3)) (ensure_path_unmounted B ''/cache'' (s1\<lparr>o_world := w2\<rparr>))
    \<and> (\<forall>q. at_or_below ''/cache/cot'' q \<or> \<not> at_or_below ''/cache'' q \<longrightarrow> lookup_file w2 q = lookup_file (o_world s1) q)
    \<and> (quiet (o_world s1) \<and> (\<exists>f. lookup_file (o_world s1) ''/cache'' = Some f \<and> is_dir f)
        \<longrightarrow> rc = 0 \<and> (\<forall>q. at_or_below ''/cache'' q \<and> q \<noteq> ''/cache'' \<and> \<not> at_or_below ''/cache/cot'' q \<longrightarrow> lookup_file w2 q = None))"
proof -
  obtain rc w2 where r: "rmtree_volume ''/cache'' (Some ''cot'') s1 = Some (rc, s1\<lparr>o_world := w2\<rparr>)" "swept ''/cache'' (Some ''cot'') (o_world s1) w2"
    "quiet (o_world s1) \<and> (\<exists>f. lookup_file (o_world s1) ''/cache'' = Some f \<and> is_dir f)
      \<Longrightarrow> rc = 0 \<and> quiet w2 \<and> (\<forall>q. in_child ''/cache'' (Some ''cot'') q \<longrightarrow> lookup_file w2 q = None)"
    by (rule rmtree_volume_run [OF m(2,3)]) auto
  have f: "format_volume B ''/cache'' False s = map_option (\<lambda>(_, s3). (rc, s3)) (ensure_path_unmounted B ''/cache'' (s1\<lparr>o_world := w2\<rparr>))"
    unfolding format_volume_def wipe_cache_def using v m(1) r(1)
    by (simp add: case_prod_unfold map_option_case split: Option.bind_split option.split)
  show ?thesis
  proof (intro exI [of _ rc] exI [of _ w2] conjI allI impI f)
    fix q assume "at_or_below ''/cache/cot'' q \<or> \<not> at_or_below ''/cache'' q"
    then have "\<not> in_child ''/cache'' (Some ''cot'') q" using in_child_kept [of "''/cache''" "''cot''" q] by auto
    with r(2) show "lookup_file w2 q = lookup_file (o_world s1) q" unfolding swept_def by blast
  next
    assume q: "quiet (o_world s1) \<and> (\<exists>f. lookup_file (o_world s1) ''/cache'' = Some f \<and> is_dir f)"
    then show "rc = 0" using r(3) by blast
    fix p assume "at_or_below ''/cache'' p \<and> p \<noteq> ''/cache'' \<and> \<not> at_or_below ''/cache/cot'' p"
    then have "in_child ''/cache'' (Some ''cot'') p" using below_in_child [of "''/cache''" p "''cot''"] by auto
    with r(3) q show "lookup_file w2 p = None" by blast
  qed
qed

text \<open>How \<open>/data\<close> is emptied: everything but \<open>/data/media\<close>, and the version of its layout is written again.\<close>

lemma read_layout_quiet:
  "answers w = [] \<Longrightarrow> read_layout w =
     (case lookup_file w layout_version of
        None \<Rightarrow> None
      | Some f \<Rightarrow> if is_dir f \<or> f_data f = [] then None else Some (take 256 (f_data f)), w)"
  by (simp add: read_layout_def sys_ok_plain fread_plain split: option.split)

lemma restore_layout_quiet:
  assumes "answers w = []" "lookup_file w layout_version = None"
  shows "lookup_file (restore_layout version w) q =
     (if version \<noteq> None \<and> q = layout_version
      then Some \<lparr>f_data = the version, f_mode = 0x180, f_uid = 0, f_gid = 0, f_reg = True\<rparr> else lookup_file w q)"
  using assms by (simp add: restore_layout_def creat_def append_file_def sys_ok_plain sys_amount_def answer_def split: option.split)

text \<open>C18: formatting \<open>/data\<close> without force on a device that keeps its media there, once the volume is mounted and when no call fails, keeps \<open>/data/media\<close>
  and everything outside \<open>/data\<close>, writes the first 256 bytes of the layout version again and leaves nothing else in the volume; zero is returned.\<close>

theorem format_data_keeps:
  assumes v: "volume_for_path B ''/data'' s = Some v" "fs_type v \<noteq> ''ramdisk''" "mount_point v = ''/data''" "o_is_datamedia s"
    and m: "ensure_path_mounted B ''/data'' s = Some (0, s1)" "tree_ok (o_world s1)" "short_paths (o_world s1)"
    and q: "quiet (o_world s1)" "lookup_file (o_world s1) ''/data'' = Some d" "is_dir d"
  shows "\<exists>w2. format_volume B ''/data'' False s = map_option (\<lambda>(_, s3). (0, s3)) (ensure_path_unmounted B ''/data'' (s1\<lparr>o_world := w2\<rparr>))
    \<and> (\<forall>q. at_or_below ''/data/media'' q \<or> \<not> at_or_below ''/data'' q \<longrightarrow> lookup_file w2 q = lookup_file (o_world s1) q)
    \<and> (\<forall>f. lookup_file (o_world s1) layout_version = Some f \<longrightarrow> \<not> is_dir f \<longrightarrow> f_data f \<noteq> []
        \<longrightarrow> (\<exists>g. lookup_file w2 layout_version = Some g \<and> f_data g = take 256 (f_data f)))
    \<and> (\<forall>q. at_or_below ''/data'' q \<and> q \<noteq> ''/data'' \<and> q \<noteq> layout_version \<and> \<not> at_or_below ''/data/media'' q \<longrightarrow> lookup_file w2 q = None)"
proof -
  have a: "answers (o_world s1) = []" using q(1) by (simp add: quiet_def)
  define version where "version = fst (read_layout (o_world s1))"
  have l: "read_layout (o_world s1) = (version, o_world s1)" unfolding version_def using read_layout_quiet [OF a] by simp
  obtain rc w1 where r: "rmtree_volume ''/data'' (Some ''media'') s1 = Some (rc, s1\<lparr>o_world := w1\<rparr>)" "swept ''/data'' (Some ''media'') (o_world s1) w1"
    "rc = 0 \<and> quiet w1 \<and> (\<forall>q. in_child ''/data'' (Some ''media'') q \<longrightarrow> lookup_file w1 q = None)"
    by (rule rmtree_volume_run [OF m(2,3)]) (use q in auto)
  define w2 where "w2 = restore_layout version w1"
  have i: "in_child ''/data'' (Some ''media'') layout_version" unfolding in_child_def by (rule exI [of _ "''.layout_version''"]) code_simp
  have k: "lookup_file w2 p = (if version \<noteq> None \<and> p = layout_version
      then Some \<lparr>f_data = the version, f_mode = 0x180, f_uid = 0, f_gid = 0, f_reg = True\<rparr> else lookup_file w1 p)" for p
    unfolding w2_def by (rule restore_layout_quiet) (use r(3) i in \<open>auto simp: quiet_def\<close>)
  have f: "format_volume B ''/data'' False s = map_option (\<lambda>(_, s3). (0, s3)) (ensure_path_unmounted B ''/data'' (s1\<lparr>o_world := w2\<rparr>))"
    unfolding format_volume_def wipe_data_def using v m(1) r(1,3) l
    by (simp add: at_world_def w2_def case_prod_unfold map_option_case split: Option.bind_split option.split)
  show ?thesis
  proof (intro exI [of _ w2] conjI allI impI f)
    fix p assume "at_or_below ''/data/media'' p \<or> \<not> at_or_below ''/data'' p"
    then have "\<not> in_child ''/data'' (Some ''media'') p" using in_child_kept [of "''/data''" "''media''" p] by auto
    with r(2) i k show "lookup_file w2 p = lookup_file (o_world s1) p" unfolding swept_def by metis
  next
    fix f assume "lookup_file (o_world s1) layout_version = Some f" "\<not> is_dir f" "f_data f \<noteq> []"
    then have "version = Some (take 256 (f_data f))" using l read_layout_quiet [OF a] by simp
    with k show "\<exists>g. lookup_file w2 layout_version = Some g \<and> f_data g = take 256 (f_data f)" by simp
  next
    fix p assume p: "at_or_below ''/data'' p \<and> p \<noteq> ''/data'' \<and> p \<noteq> layout_version \<and> \<not> at_or_below ''/data/media'' p"
    then have "in_child ''/data'' (Some ''media'') p" using below_in_child [of "''/data''" p "''media''"] by auto
    with r(3) k p show "lookup_file w2 p = None" by simp
  qed
qed

text \<open>The array of \<open>get_storage_items\<close> has eleven elements: with twelve cards in the table it is written behind its end.\<close>

theorem get_storage_items_overflow:
  assumes "o_fstab s = Some (replicate 12 v)" "fs_type v \<noteq> ''datamedia''" "take 7 (mount_point v) = ''/sdcard''"
  shows "get_storage_items B s = None"
proof -
  have e: "storage_entry B s v = Some [\<lparr>si_vol = Some v, si_label = drop 1 (mount_point v), si_path = mount_point v\<rparr>]"
    using assms(2,3) by (simp add: storage_entry_def)
  have "fill_items B s (replicate n v) si = None" if "11 < length si + n" "length si \<le> 11" for n si
    using that
  proof (induction n arbitrary: si)
    case (Suc n)
    show ?case
    proof (cases "length si = 11")
      case True
      then show ?thesis by (simp add: e MAX_NUM_MANAGED_VOLUMES_def)
    next
      case False
      with Suc show ?thesis by (simp add: e MAX_NUM_MANAGED_VOLUMES_def)
    qed
  qed simp
  then show ?thesis using assms(1) by (simp add: get_storage_items_def get_device_volumes_def)
qed

section \<open>Examples\<close>

text \<open>A device with \<open>/cache\<close> and \<open>/data\<close> mounted, whose card is on \<open>/data\<close>; the library finds the entry whose mount point is a prefix of the path.\<close>

definition sample_volumes :: "(unit, unit, unit) volume_libs" where
  "sample_volumes = \<lparr>b_os = sample_os,
     b_mtd = sample_mtd, b_make_ext4fs = \<lambda>_ _ _ w. (0, w), b_make_f2fs = None, b_malloc_ok = \<lambda>_. True, b_strdup_ok = \<lambda>_. True,
     fs_mgr_read_fstab = \<lambda>_ w. (None, w), fs_mgr_add_entry = \<lambda>vs _ _ _. (0, vs),
     fs_mgr_get_entry_for_mount_point = \<lambda>fstab path. case fstab of None \<Rightarrow> None | Some vs \<Rightarrow>
       find (\<lambda>v. take (length (mount_point v)) path = mount_point v \<and> (length path = length (mount_point v) \<or> path ! length (mount_point v) = CHR ''/'')) vs,
     fs_mgr_is_voldmanaged = \<lambda>_. False, vold_is_volume_available = \<lambda>_ _. False, vold_mount_volume = \<lambda>_ w. (0, w),
     vold_mount_auto_volume = \<lambda>_ w. (0, w), vold_unmount_volume = \<lambda>_ w. (0, w), vold_unmount_auto_volume = \<lambda>_ w. (0, w),
     vold_format_volume = \<lambda>_ w. (0, w)\<rparr>"

definition sample_volume :: "string \<Rightarrow> string \<Rightarrow> fstab_rec" where
  "sample_volume mp ty = \<lparr>blk_device = ''/dev/b'', mount_point = mp, fs_type = ty, fs_type2 = None, v_label = None, v_length = 0, fs_mgr_flags = 0\<rparr>"

definition sample_roots :: "string \<Rightarrow> unit roots" where
  "sample_roots ty = \<lparr>o_world = \<lparr>files = [(''/cache'', tree_inode 0x41ED), (''/cache/a'', tree_inode 0x1A4), (''/cache/cot'', tree_inode 0x41ED),
         (''/cache/cot/s'', tree_inode 0x1A4), (''/data'', tree_inode 0x41ED), (''/data/a'', tree_inode 0x1A4),
         (''/data/.layout_version'', (tree_inode 0x180)\<lparr>f_data := [50]\<rparr>), (''/data/media'', tree_inode 0x41ED),
         (''/data/media/s'', tree_inode 0x1A4), (''/proc'', tree_inode 0x41ED),
         (''/proc/mounts'', (tree_inode 0x124)\<lparr>f_data := bytes_of (''/b /cache ext4 rw 0 0'' @ newline @ ''/c /data ext4 rw 0 0'' @ newline)\<rparr>)],
       procs = [], answers = [], mtd_partitions_scanned = False, flash = ()\<rparr>,
     o_fstab = Some [sample_volume ''/cache'' ''ext4'', sample_volume ''/data'' ty], o_is_datamedia = True, o_primary_storage_path = None,
     o_mounts = g_mounts_state\<rparr>"

lemma sample_roots_table: "table_ok sample_volumes (sample_roots ty)"
  unfolding table_ok_def
proof (intro exI conjI allI impI)
  show "o_fstab (sample_roots ty) = Some [sample_volume ''/cache'' ''ext4'', sample_volume ''/data'' ty]" by (simp add: sample_roots_def)
  show "\<forall>v \<in> set [sample_volume ''/cache'' ''ext4'', sample_volume ''/data'' ty]. mount_point v \<noteq> [] \<and> length (mount_point v) < PATH_MAX"
    by (simp add: sample_volume_def PATH_MAX_def)
  have find_in: "find P vs = Some v \<Longrightarrow> v \<in> set vs" for P :: "fstab_rec \<Rightarrow> bool" and vs v by (auto simp: find_Some_iff)
  fix p v assume "fs_mgr_get_entry_for_mount_point sample_volumes (Some [sample_volume ''/cache'' ''ext4'', sample_volume ''/data'' ty]) p = Some v"
  then show "v \<in> set [sample_volume ''/cache'' ''ext4'', sample_volume ''/data'' ty]"
    unfolding sample_volumes_def volume_libs.select_convs option.case by (rule find_in)
qed

lemma sample_roots_scan: "scan_mounts sample_volumes (sample_roots ''ext4'') \<noteq> None" "scan_mounts sample_volumes (sample_roots ''datamedia'') \<noteq> None"
  by code_simp+

theorem ensure_path_mounted_returns_witness:
  "(\<exists>r s'. ensure_path_mounted sample_volumes ''/sdcard/x'' (sample_roots ''ext4'') = Some (r, s'))
   \<and> \<not> (\<exists>r s'. ensure_path_mounted sample_volumes ''/sdcard/x'' (sample_roots ''datamedia'') = Some (r, s'))"
proof
  have l: "length ''/sdcard/x'' < PATH_MAX" by (simp add: PATH_MAX_def)
  have a: "\<not> is_data_media_volume_path sample_volumes ''/data'' (sample_roots ''ext4'')" by code_simp
  have b: "is_data_media_volume_path sample_volumes ''/data'' (sample_roots ''datamedia'')"
    "is_data_media_volume_path sample_volumes ''/sdcard/x'' (sample_roots ''datamedia'')" by code_simp+
  show "\<exists>r s'. ensure_path_mounted sample_volumes ''/sdcard/x'' (sample_roots ''ext4'') = Some (r, s')"
    using ensure_path_mounted_returns [OF sample_roots_table sample_roots_scan(1) l] a by blast
  show "\<not> (\<exists>r s'. ensure_path_mounted sample_volumes ''/sdcard/x'' (sample_roots ''datamedia'') = Some (r, s'))"
    using ensure_path_mounted_returns [OF sample_roots_table sample_roots_scan(2) l] b by blast
qed

text \<open>Mounting finds both volumes mounted and changes no file.\<close>

lemma sample_roots_mounted:
  "map_option (\<lambda>(r, s). (r, files (o_world s) = files (o_world (sample_roots ''ext4'')), answers (o_world s)))
     (ensure_path_mounted sample_volumes ''/cache'' (sample_roots ''ext4'')) = Some (0, True, [])"
  "map_option (\<lambda>(r, s). (r, files (o_world s) = files (o_world (sample_roots ''ext4'')), answers (o_world s)))
     (ensure_path_mounted sample_volumes ''/data'' (sample_roots ''ext4'')) = Some (0, True, [])"
  by code_simp+

lemma sample_roots_files:
  assumes "files w = files (o_world (sample_roots ''ext4''))" "answers w = []"
  shows "tree_ok w" "short_paths w" "quiet w"
proof -
  define w0 where "w0 = o_world (sample_roots ''ext4'')"
  have f: "files w = files w0" "lookup_file w = lookup_file w0" using assms(1) by (auto simp: w0_def lookup_file_def)
  have "tree_ok w0" unfolding w0_def by (rule tree_ok_eval) code_simp
  then show "tree_ok w" unfolding tree_ok_def f(2) .
  have "short_paths w0" unfolding w0_def by (rule short_paths_eval) code_simp
  then show "short_paths w" unfolding short_paths_def f(2) .
  have "distinct (map fst (files w0))"
    "list_all (\<lambda>(p, _). drop (length p - 2) p \<noteq> ''/.'' \<and> drop (length p - 3) p \<noteq> ''/..'') (files w0)" unfolding w0_def by code_simp+
  then show "quiet w" using assms(2) f(1) by (intro quiet_eval) simp_all
qed

theorem format_cache_keeps_witness:
  "\<exists>s1 w2. ensure_path_mounted sample_volumes ''/cache'' (sample_roots ''ext4'') = Some (0, s1)
     \<and> format_volume sample_volumes ''/cache'' False (sample_roots ''ext4'') =
         map_option (\<lambda>(_, s3). (0, s3)) (ensure_path_unmounted sample_volumes ''/cache'' (s1\<lparr>o_world := w2\<rparr>))
     \<and> lookup_file w2 ''/cache/a'' = None \<and> lookup_file w2 ''/cache/cot/s'' = Some (tree_inode 0x1A4)"
proof -
  obtain s1 where s1: "ensure_path_mounted sample_volumes ''/cache'' (sample_roots ''ext4'') = Some (0, s1)"
    "files (o_world s1) = files (o_world (sample_roots ''ext4''))" "answers (o_world s1) = []"
    using sample_roots_mounted(1) by auto
  have v: "volume_for_path sample_volumes ''/cache'' (sample_roots ''ext4'') = Some (sample_volume ''/cache'' ''ext4'')" by code_simp
  have t: "fs_type (sample_volume ''/cache'' ''ext4'') \<noteq> ''ramdisk''" "mount_point (sample_volume ''/cache'' ''ext4'') = ''/cache''" by code_simp+
  have l: "lookup_file (o_world s1) ''/cache'' = Some (tree_inode 0x41ED)" "lookup_file (o_world s1) ''/cache/cot/s'' = Some (tree_inode 0x1A4)"
    unfolding lookup_file_def s1(2) by code_simp+
  have dir: "is_dir (tree_inode 0x41ED)" by code_simp
  have d: "quiet (o_world s1) \<and> (\<exists>f. lookup_file (o_world s1) ''/cache'' = Some f \<and> is_dir f)"
    using sample_roots_files(3) [OF s1(2,3)] l(1) dir by simp
  have b: "at_or_below ''/cache/cot'' ''/cache/cot/s''" "at_or_below ''/cache'' ''/cache/a'' \<and> ''/cache/a'' \<noteq> ''/cache'' \<and> \<not> at_or_below ''/cache/cot'' ''/cache/a''"
    by code_simp+
  from format_cache_keeps [OF v t s1(1) sample_roots_files(1,2) [OF s1(2,3)]] obtain rc w2 where
    f: "format_volume sample_volumes ''/cache'' False (sample_roots ''ext4'') =
         map_option (\<lambda>(_, s3). (rc, s3)) (ensure_path_unmounted sample_volumes ''/cache'' (s1\<lparr>o_world := w2\<rparr>))"
    and k: "\<And>q. at_or_below ''/cache/cot'' q \<or> \<not> at_or_below ''/cache'' q \<Longrightarrow> lookup_file w2 q = lookup_file (o_world s1) q"
    and e: "rc = 0" "\<And>q. at_or_below ''/cache'' q \<and> q \<noteq> ''/cache'' \<and> \<not> at_or_below ''/cache/cot'' q \<Longrightarrow> lookup_file w2 q = None"
    using d by blast
  show ?thesis
    using s1(1) f k [OF disjI1, OF b(1)] e(2) [OF b(2)] l(2) unfolding e(1) by metis
qed

theorem format_data_keeps_witness:
  "\<exists>s1 w2 g. ensure_path_mounted sample_volumes ''/data'' (sample_roots ''ext4'') = Some (0, s1)
     \<and> format_volume sample_volumes ''/data'' False (sample_roots ''ext4'') =
         map_option (\<lambda>(_, s3). (0, s3)) (ensure_path_unmounted sample_volumes ''/data'' (s1\<lparr>o_world := w2\<rparr>))
     \<and> lookup_file w2 ''/data/a'' = None \<and> lookup_file w2 ''/data/media/s'' = Some (tree_inode 0x1A4)
     \<and> lookup_file w2 layout_version = Some g \<and> f_data g = [50]"
proof -
  obtain s1 where s1: "ensure_path_mounted sample_volumes ''/data'' (sample_roots ''ext4'') = Some (0, s1)"
    "files (o_world s1) = files (o_world (sample_roots ''ext4''))" "answers (o_world s1) = []"
    using sample_roots_mounted(2) by auto
  have v: "volume_for_path sample_volumes ''/data'' (sample_roots ''ext4'') = Some (sample_volume ''/data'' ''ext4'')" by code_simp
  have t: "fs_type (sample_volume ''/data'' ''ext4'') \<noteq> ''ramdisk''" "mount_point (sample_volume ''/data'' ''ext4'') = ''/data''"
    "o_is_datamedia (sample_roots ''ext4'')" by code_simp+
  have l: "lookup_file (o_world s1) ''/data'' = Some (tree_inode 0x41ED)" "lookup_file (o_world s1) ''/data/media/s'' = Some (tree_inode 0x1A4)"
    "lookup_file (o_world s1) layout_version = Some ((tree_inode 0x180)\<lparr>f_data := [50]\<rparr>)"
    unfolding lookup_file_def s1(2) by code_simp+
  have d: "is_dir (tree_inode 0x41ED)" "\<not> is_dir ((tree_inode 0x180)\<lparr>f_data := [50]\<rparr>)" "f_data ((tree_inode 0x180)\<lparr>f_data := [50]\<rparr>) \<noteq> []" by code_simp+
  have b: "at_or_below ''/data/media'' ''/data/media/s''"
    "at_or_below ''/data'' ''/data/a'' \<and> ''/data/a'' \<noteq> ''/data'' \<and> ''/data/a'' \<noteq> layout_version \<and> \<not> at_or_below ''/data/media'' ''/data/a''"
    by code_simp+
  note o = sample_roots_files [OF s1(2,3)]
  from format_data_keeps [OF v t s1(1) o(1-3) l(1) d(1)] obtain w2 where
    f: "format_volume sample_volumes ''/data'' False (sample_roots ''ext4'') =
         map_option (\<lambda>(_, s3). (0, s3)) (ensure_path_unmounted sample_volumes ''/data'' (s1\<lparr>o_world := w2\<rparr>))"
    and k: "\<And>q. at_or_below ''/data/media'' q \<or> \<not> at_or_below ''/data'' q \<Longrightarrow> lookup_file w2 q = lookup_file (o_world s1) q"
    and g: "\<And>f. lookup_file (o_world s1) layout_version = Some f \<Longrightarrow> \<not> is_dir f \<Longrightarrow> f_data f \<noteq> []
        \<Longrightarrow> (\<exists>g. lookup_file w2 layout_version = Some g \<and> f_data g = take 256 (f_data f))"
    and e: "\<And>q. at_or_below ''/data'' q \<and> q \<noteq> ''/data'' \<and> q \<noteq> layout_version \<and> \<not> at_or_below ''/data/media'' q \<Longrightarrow> lookup_file w2 q = None"
    by blast
  from g [OF l(3) d(2,3)] obtain i where i: "lookup_file w2 layout_version = Some i" "f_data i = [50]" by auto
  show ?thesis using s1(1) f k [OF disjI1, OF b(1)] e [OF b(2)] l(2) i by metis
qed

end
