(* ===== verification/Spec2Isabelle.thy ===== *)
theory Spec2Isabelle
  imports ByteIO Edify HashTable Bsdiff ImgPatch Retouch ApplyPatch LoadKeys ZipImage ZipTree MtdLib UpdaterBackup UpdaterPatch InstallTrust RecoveryFinish RootsSpec
begin

text \<open>
  This development models the parts of the Android recovery sources that decide whether and how an
  update is applied, and proves that they do so correctly.

  \<^bold>\<open>The program.\<close> A package is a zip archive with a signature in its comment. \<open>verifier.cpp\<close>
  checks the signature, with \<open>asn1_decoder.cpp\<close> taking the signature block apart. \<open>minzip\<close> opens the
  archive and extracts from it. The package's script is run by the \<open>edify\<close> interpreter, and most of
  its work is \<open>applypatch\<close>: files and partitions are patched in place, with a copy of the source in the
  cache so that an interrupted update can be resumed. The patches are made by \<open>bsdiff\<close> and applied by
  \<open>bspatch\<close> and \<open>imgpatch\<close>; libraries whose load addresses were randomised are masked by
  \<open>minelf/Retouch.c\<close> before their digest is taken.

  \<^bold>\<open>Conventions.\<close> C functions are HOL functions. A result of type \<^typ>\<open>'a option\<close> is \<^term>\<open>None\<close> when the
  code does what C leaves undefined: an access outside an array, the use of a null pointer, a failing
  assertion, or (for \<open>partial_function\<close>) a loop that does not end; error returns of the code are values.
  Machine integers are words where wrap-around matters and numbers otherwise. The operating system is the
  record \<open>world\<close> of \<open>World.thy\<close>: files by path, processes, and a list of answers that decides the outcome
  of every system call, so that a statement about all worlds is one about all failures; when the list is
  used up, calls succeed. Allocation is decided by arguments such as \<open>malloc_ok\<close>. Third-party code (zlib,
  libbz2, the digests and the signature primitives of mincrypt) is an argument, and
  what is needed of it a named hypothesis (\<open>sha_absorbs\<close>, \<open>inflates\<close>, and others), which the witnesses
  satisfy with concrete functions.

  \<^bold>\<open>Theories.\<close>
  \<^item> \<open>Prelude\<close>: lists, little-endian bytes, C strings, the collections \<open>codec_simps\<close> and others.
  \<^item> \<open>ByteIO\<close>: \<open>applypatch/utils.c\<close>, \<open>minzip/Bits.h\<close>, \<open>offtin\<close> and \<open>offtout\<close>: codecs as instances of one
    locale, with round trips.
  \<^item> \<open>CLib\<close>: \<open>qsort\<close> and \<open>bsearch\<close> under a locale for comparison functions.
  \<^item> \<open>Edify\<close>: \<open>edify/expr.c\<close>: the interpreter and its built-in functions; the table of functions refines a
    map, evaluation keeps the contract between results and error messages.
  \<^item> \<open>HashTable\<close>: \<open>minzip/Hash.c\<close>: the open-addressing table implements a multiset of items; probing ends.
  \<^item> \<open>Bspatch\<close>, \<open>Bsdiff\<close>: a patch that \<open>bsdiff\<close> makes is applied by \<open>bspatch\<close> to give the new file back.
  \<^item> \<open>Digest\<close>, \<open>ImgPatch\<close>: \<open>applypatch/imgpatch.c\<close>.
  \<^item> \<open>Retouch\<close>: \<open>minelf/Retouch.c\<close>: masking a randomised library gives what masking the original gives.
  \<^item> \<open>World\<close>: files and system calls.
  \<^item> \<open>FreeCache\<close>, \<open>FileContents\<close>, \<open>ApplyPatch\<close>: \<open>applypatch/freecache.c\<close> and \<open>applypatch/applypatch.c\<close>: a
    zero return means that the target has the wanted digest; a failure loses nothing.
  \<^item> \<open>Asn1\<close>, \<open>Verifier\<close>: \<open>asn1_decoder.cpp\<close> and \<open>verifier.cpp\<close>: bounds of the decoder; what is accepted was
    signed, and what was signed is accepted.
  \<^item> \<open>Scanf\<close>, \<open>LoadKeys\<close>: formatted input and \<open>load_keys\<close>: loaded certificates are usable by the verifier, and printed
    keys are loaded back.
  \<^item> \<open>MtdUtils\<close>, \<open>MtdScan\<close>: \<open>mtdutils/mtdutils.c\<close>: flash devices with bad blocks and failing calls; what is written
    with success is stored and can be read back, and what is read with success, failing calls included, are the blocks of
    the partition; the partition table. \<open>MtdLib\<close> interprets the flash interface of
    \<open>applypatch\<close> (the locale \<open>mtd_layer\<close>, and \<open>mtd_reader\<close>, which adds what a read says of the device) on these functions: a zero return of
    \<open>applypatch\<close> for a partition means that the device begins with bytes of the digest, also when nothing had to be done.
  \<^item> \<open>DirUtil\<close>, \<open>ZipParse\<close>, \<open>ZipImage\<close>, \<open>ZipExtract\<close>, \<open>ZipTree\<close>: \<open>minzip/DirUtil.c\<close> and \<open>minzip/Zip.c\<close>: opening never
    reads outside the mapping and establishes the invariant of archives; every well-formed archive
    opens with all the fields of its members (\<open>ZipImage\<close> has a writer of archives for that); extraction yields the contents of entries, and
    of a whole directory exactly the files below it.
  \<^item> \<open>DirUnlink\<close>: \<open>dirUnlinkHierarchy\<close> of \<open>minzip/DirUtil.c\<close>: the removal of a tree ends, removes nothing outside the
    tree, and success means that nothing of it is left. \<open>Rmtree\<close>: the same of \<open>rmtree_except\<close> of \<open>roots.cpp\<close>, which keeps one entry.
  \<^item> \<open>Roots\<close>, \<open>RootsSpec\<close>: \<open>roots.cpp\<close>: the table of volumes, mounting, unmounting and formatting over arguments for \<open>fs_mgr\<close>, the volume
    daemon, \<open>mount\<close> and the programs that make file systems: when mounting returns, and what formatting \<open>/cache\<close> and \<open>/data\<close> keeps.
  \<^item> \<open>Mounts\<close>: \<open>mtdutils/mounts.c\<close>: the table of mounted volumes as it is read from \<open>/proc/mounts\<close>.
  \<^item> \<open>Installer\<close>, \<open>Updater\<close>: \<open>updater/install.c\<close> and \<open>updater/updater.c\<close>: the functions that scripts call, their registration
    and the program that runs the script of a package. \<open>UpdaterContract\<close>: which of these functions keep the interpreter's
    contract (the locale \<open>updater_contract\<close>), so that an aborted script always has a reason, and what the interpreter
    finds under which name. \<open>UpdaterPatch\<close>, \<open>UpdaterBackup\<close>, \<open>UpdaterText\<close>, \<open>UpdaterMain\<close>: an asserted patch has been applied when the
    program exits with success, files with a backup are skipped, what the functions on properties, stages, digests and
    links compute, and that the program runs the script in the package: when no call fails and the script has no syntax error it is run, and
    otherwise the exit codes say what happened.
  \<^item> \<open>InstallPackage\<close>: \<open>install.cpp\<close>: the installation of a package by the recovery, with the pipe from the updater. \<open>SignedPackage\<close>,
    \<open>InstallTrust\<close>: a successful installation ran the program of a signed package; a rejected package runs nothing.
  \<^item> \<open>Bootloader\<close>, \<open>BootloaderMtd\<close>: \<open>bootloader.cpp\<close>: the message in \<open>/misc\<close>; block device and flash both interpret the locale
    \<open>message_store\<close>. \<open>RecoveryArgs\<close>, \<open>RecoveryFinish\<close>: the arguments, logs and end of \<open>recovery.cpp\<close>: the work can be restarted until it is
    finished, and is not repeated afterwards.
  \<^item> This theory: the archive that is read from an accepted package is the signed one.

  \<^bold>\<open>Bounds.\<close> Lengths of C objects are natural numbers; where the code computes a size that can wrap around
  the model has the \<open>mod\<close>. Loops have termination proofs, except those that depend on the progress of a
  library (decompression, the patch loop), which are \<open>partial_function\<close>s: theorems state that they return
  under the hypothesis on the library, and there are theorems that they do not without it.

  \<^bold>\<open>Limits of the model.\<close> A path is looked up as it is written: symbolic links are files whose data is their target and are not
  followed (so \<open>stat\<close> in \<open>freecache.c\<close> and \<open>creat\<close> in \<open>minzip\<close> look at the link itself; the theorem on extracting a tree asks for a tree without
  links), and \<open>..\<close>, repeated and trailing slashes are not resolved. Positioning calls (\<open>fseek\<close>, \<open>lseek\<close>) in a file that is open do not fail. A block
  device can be written beyond its end, where a real one refuses. Lengths of strings that \<open>edify\<close> concatenates are unbounded, where the code has an
  \<open>int\<close>. Memory and mappings that are released are not tracked: after a failure \<open>mzOpenZipArchive\<close> leaves no mapping by construction. The
  mounting functions that \<open>install.cpp\<close> and \<open>recovery.cpp\<close> call are fields of their environment, with what is needed of them as named hypotheses;
  \<open>Roots\<close> models the functions themselves.

  \<^bold>\<open>Not modelled.\<close> The user interface, the debugging daemon, menus, settings, backup streams, and
  the control loop of the recovery are input and output without a result to state; mounting, making file systems and other
  services of the system are fields of the records \<open>platform\<close> and \<open>volume_libs\<close>; the grammar of edify is a
  generator's input; \<open>qsufsort\<close> of \<open>bsdiff.c\<close> is replaced by any array of in-range positions, which is
  all that the round trip needs; the tools of the host are left out.
\<close>

section \<open>Verified packages\<close>

lemma rd_prefix:
  "rd4 m p = Some v \<Longrightarrow> rd4 (m @ x) p = Some v" "rd2 m p = Some u \<Longrightarrow> rd2 (m @ x) p = Some u"
  by (auto simp: rd4_Some rd2_Some)

lemma entry_header_prefix:
  assumes "entry_header m ptr = Some (Some r)"
  shows "entry_header (m @ x) ptr = Some (Some r)"
proof -
  from assms obtain off nl el cl where "\<not> length m < ptr + CENHDR" "rd4 m ptr = Some CENSIG" "rd4 m (ptr + 42) = Some off"
    "rd2 m (ptr + 28) = Some nl" "rd2 m (ptr + 30) = Some el" "rd2 m (ptr + 32) = Some cl" "\<not> length m < ptr + CENHDR + nl"
    "validFilename (chars (take nl (drop (ptr + CENHDR) m)))" "r = (off, nl, el, cl)"
    by (auto simp: entry_header_def bind_eq_Some_conv split: if_splits)
  then show ?thesis by (simp add: entry_header_def rd_prefix)
qed

lemma entry_fields_prefix:
  assumes "entry_fields m ptr off nl = Some (Some e)"
  shows "entry_fields (m @ x) ptr off nl = Some (Some e)"
proof -
  from assms obtain clen ulen how tim crc vem atx nam ext where rd: "rd4 m (ptr + 20) = Some clen" "rd4 m (ptr + 24) = Some ulen"
    "rd2 m (ptr + 10) = Some how" "rd4 m (ptr + 12) = Some tim" "rd4 m (ptr + 16) = Some crc" "rd2 m (ptr + 4) = Some vem"
    "rd4 m (ptr + 38) = Some atx" "rd4 m off = Some LOCSIG" "rd2 m (off + 26) = Some nam" "rd2 m (off + 28) = Some ext"
    by (auto simp: entry_fields_def Let_def bind_eq_Some_conv split: if_splits)
  from assms rd show ?thesis by (auto simp: entry_fields_def Let_def rd_prefix split: if_splits)
qed

lemma directory_prefix: "directory m n ptr = Some ds \<Longrightarrow> directory (m @ x) n ptr = Some ds"
proof (induction n arbitrary: ptr ds)
  case (Suc n)
  from Suc.prems obtain off nl el cl e ds' where "entry_header m ptr = Some (Some (off, nl, el, cl))"
    "entry_fields m ptr off nl = Some (Some e)" "directory m n (ptr + CENHDR + nl + el + cl) = Some ds'" "ds = e # ds'"
    by (rule directory_step)
  with entry_header_prefix entry_fields_prefix Suc.IH show ?case by simp
qed simp

lemma directory_entries_ok: "directory m n ptr = Some ds \<Longrightarrow> e \<in> set ds \<Longrightarrow> entry_ok m e"
proof (induction n arbitrary: ptr ds)
  case (Suc n)
  from Suc.prems(1) obtain off nl el cl e' ds' where d: "entry_header m ptr = Some (Some (off, nl, el, cl))"
    "entry_fields m ptr off nl = Some (Some e')" "directory m n (ptr + CENHDR + nl + el + cl) = Some ds'" "ds = e' # ds'"
    by (rule directory_step)
  with read_entry_ok [OF d(1,2)] Suc.IH [OF d(3)] Suc.prems(2) show ?case by auto
qed simp

text \<open>C5: when \<open>verify_file\<close> has accepted a package and \<open>mzOpenZipArchive\<close> then opens the same file, the number of entries
  and the place of the central directory are read from the part of the file that one of the keys signed; when the central
  directory lies in that part, as in every package a signing tool makes, the array of the archive consists of exactly its
  entries, with names and data inside the signed part.\<close>

theorem verified_archive_is_signed:
  assumes v: "verify_file lib co mo path pKeys w = Some (VERIFY_SUCCESS, w1)"
    and sha: "sha_absorbs (SHA_update (sha1_lib lib))" "sha_absorbs (SHA_update (sha256_lib lib))"
    and z: "mzOpenZipArchive calloc_ok path w2 = Some (0, a, w3)" "lookup_file w2 path = lookup_file w path"
  shows "\<exists>f pos off es. lookup_file w path = Some f \<and> z_pEntries a = Some es
    \<and> (\<exists>k \<in> set pKeys. \<exists>sig. key_accepts lib k (take (pos + 20) (f_data f)) sig)
    \<and> rd2 (take (pos + 20) (f_data f)) (pos + 8) = Some (z_numEntries a) \<and> rd4 (take (pos + 20) (f_data f)) (pos + 16) = Some off
    \<and> (\<forall>ds. directory (take (pos + 20) (f_data f)) (z_numEntries a) off = Some ds
         \<longrightarrow> mset es = mset ds \<and> (\<forall>e \<in> set es. entry_ok (take (pos + 20) (f_data f)) e))"
proof -
  from verify_file_accepts [OF v sha] obtain f pos k sig where f: "lookup_file w path = Some f" "last_eocd (f_data f) pos"
    and k: "k \<in> set pKeys" "key_accepts lib k (take (pos + 20) (f_data f)) sig" by blast
  let ?d = "f_data f" and ?s = "take (pos + 20) (f_data f)"
  have "archive_inv ?d a" using mzOpenZipArchive_total [of calloc_ok path w2] z f(1) by auto
  then obtain es q off ds where inv: "z_pEntries a = Some es" "search_eocd ?d (length ?d - ENDHDR) = Some (Some q)"
    "rd2 ?d (q + 8) = Some (z_numEntries a)" "rd4 ?d (q + 16) = Some off"
    "directory ?d (z_numEntries a) off = Some ds" "mset es = mset ds" unfolding archive_inv_def by blast
  have q: "q = pos" using inv(2) last_eocd_search [OF f(2)] by simp
  have len: "length ?s = pos + 20" using f(2) by (simp add: last_eocd_def EOCD_HEADER_SIZE_def)
  have "rd2 ?s (pos + 8) = Some (z_numEntries a)" "rd4 ?s (pos + 16) = Some off"
    using inv(3,4) q len by (auto simp: rd2_Some rd4_Some drop_take min_def)
  moreover have "mset es = mset ds' \<and> (\<forall>e \<in> set es. entry_ok ?s e)" if "directory ?s (z_numEntries a) off = Some ds'" for ds'
  proof -
    from directory_prefix [OF that, of "drop (pos + 20) ?d"] inv(5) have "ds' = ds" by simp
    with inv(6) directory_entries_ok [OF that] show ?thesis by (metis set_mset_mset)
  qed
  ultimately show ?thesis using f(1) inv(1) k by blast
qed

theorem verified_archive_is_signed_witness:
  "\<exists>a pos off sig. mzOpenZipArchive (\<lambda>_. True) ''/u.zip'' (file_world ''/u.zip'' (zip_image [binary_member] package_comment))
        = Some (0, a, file_world ''/u.zip'' (zip_image [binary_member] package_comment))
    \<and> key_accepts sample_crypto sample_key (take (pos + 20) (zip_image [binary_member] package_comment)) sig
    \<and> rd2 (take (pos + 20) (zip_image [binary_member] package_comment)) (pos + 8) = Some (z_numEntries a)
    \<and> rd4 (take (pos + 20) (zip_image [binary_member] package_comment)) (pos + 16) = Some off"
proof -
  let ?d = "zip_image [binary_member] package_comment"
  let ?f = "\<lparr>f_data = ?d, f_mode = 0, f_uid = 0, f_gid = 0, f_reg = True\<rparr>" and ?w = "file_world ''/u.zip'' ?d"
  have f: "lookup_file ?w ''/u.zip'' = Some ?f" "answers ?w = []" by (simp_all add: file_world_def lookup_file_def)
  have v: "verify_file sample_crypto (\<lambda>_ _. True) (\<lambda>_. True) ''/u.zip'' [sample_key] ?w = Some (VERIFY_SUCCESS, ?w)"
    using sample_package_accepted [of package_body "''/u.zip''"] package_length package_record by simp
  obtain a where a: "mzOpenZipArchive (\<lambda>_. True) ''/u.zip'' ?w = Some (0, a, ?w)"
    by (rule package_found [OF f(1) _ f(2)]) simp_all
  from verified_archive_is_signed [OF v sample_crypto_absorbs a refl] f(1) obtain pos off sig where
    "key_accepts sample_crypto sample_key (take (pos + 20) ?d) sig"
    "rd2 (take (pos + 20) ?d) (pos + 8) = Some (z_numEntries a)" "rd4 (take (pos + 20) ?d) (pos + 16) = Some off"
    by auto
  with a show ?thesis by (intro exI conjI)
qed

end
